(* ===== verification/Prelude.thy ===== *)
theory Prelude
  imports Main "HOL-Library.Finite_Map" "HOL-Library.Char_ord" "HOL-Library.List_Lexorder"
begin

text \<open>
  Shared vocabulary of the development: Go's strings, times and maps, the generic lemmas on
  lists and finite maps that every component uses, and the two interfaces that several
  components implement (an invariant of a step relation, and a store that is written through
  to disk).

  A Go string is a byte sequence, modelled as \<^typ>\<open>string\<close> (a \<^typ>\<open>char\<close> is one byte), ordered
  bytewise as Go orders strings.  A \<open>time.Time\<close> is an \<^typ>\<open>int\<close>: nanoseconds since Go's zero
  time (1 January of year 1, UTC), so \<open>IsZero\<close> is equality with \<open>0\<close>, \<open>After\<close> is \<open>>\<close> and
  \<open>Add\<close>/\<open>Sub\<close> are addition and subtraction.  A \<open>time.Duration\<close> is an \<^typ>\<open>int\<close> of nanoseconds.
  Every call of \<open>time.Now()\<close> is an argument \<open>now\<close> of the definition.  A Go map is a finite map
  \<^typ>\<open>('k, 'v) fmap\<close>; iteration over a map visits the keys in an unspecified order, so loops
  over a map are modelled in sorted key order only where the result does not depend on it.
\<close>

named_theorems fmap_simps \<open>rewriting of finite-map lookups and sizes\<close>
named_theorems str_defs \<open>definitions of the string helpers\<close>

type_synonym time = int
type_synonym duration = int

abbreviation Second :: duration where "Second \<equiv> 1000000000"
abbreviation Minute :: duration where "Minute \<equiv> 60000000000"
abbreviation Hour :: duration where "Hour \<equiv> 3600000000000"

text \<open>Go's integer division truncates towards zero.\<close>

definition go_div :: "int \<Rightarrow> int \<Rightarrow> int" where
  "go_div a b = sgn a * sgn b * (\<bar>a\<bar> div \<bar>b\<bar>)"

lemma go_div_nonneg: "0 \<le> a \<Longrightarrow> 0 < b \<Longrightarrow> go_div a b = a div b"
  by (cases "a = 0") (simp_all add: go_div_def)

text \<open>\<open>len(m)\<close> of a Go map.\<close>

definition fmlen :: "('a, 'b) fmap \<Rightarrow> int" where
  "fmlen m = int (fcard (fmdom m))"

lemma fmlen_empty [simp]: "fmlen fmempty = 0"
  by (simp add: fmlen_def)

lemma fmlen_upd [fmap_simps]:
  "fmlen (fmupd k v m) = (if k |\<in>| fmdom m then fmlen m else fmlen m + 1)"
  by (simp add: fmlen_def fcard_finsert_if finsert_absorb)

lemma fmlen_nonneg [simp]: "0 \<le> fmlen m"
  by (simp add: fmlen_def)

lemma fmlen_drop_le: "fmlen (fmdrop k m) \<le> fmlen m"
proof -
  have "fcard (fmdom (fmdrop k m)) \<le> fcard (fmdom m)"
    by (rule fcard_mono) auto
  then show ?thesis by (simp add: fmlen_def)
qed

lemma fmlen_zero_iff [simp]: "fmlen m = 0 \<longleftrightarrow> m = fmempty"
proof
  assume "fmlen m = 0"
  then have "fmdom m = {||}" by (simp add: fmlen_def)
  then show "m = fmempty" by (intro fmap_ext) (metis fempty_iff fmdomI fmempty_lookup not_None_eq)
qed simp

lemma fmupd_triv: "fmlookup m k = Some v \<Longrightarrow> fmupd k v m = m"
  by (rule fmap_ext) auto

lemma fmdrop_fmupd_fresh [simp]: "fmlookup m k = None \<Longrightarrow> fmdrop k (fmupd k v m) = m"
  by (rule fmap_ext) auto

lemma fmupd_restore: "fmlookup m k = Some v \<Longrightarrow> fmupd k v (fmupd k w m) = m"
  by (rule fmap_ext) auto

lemma fmupd_fmdrop_restore: "fmlookup m k = Some v \<Longrightarrow> fmupd k v (fmdrop k m) = m"
  by (rule fmap_ext) auto

lemma in_sorted_fmdom [simp]: "x \<in> set (sorted_list_of_fset (fmdom m)) \<longleftrightarrow> x |\<in>| fmdom m"
  by simp

lemma sorted_list_of_fmap_simps [simp]:
  "sorted_list_of_fmap fmempty = []" "sorted_list_of_fmap (fmupd k v fmempty) = [(k, v)]"
  by (simp_all add: sorted_list_of_fmap_def sorted_list_of_fset.rep_eq)

lemma set_sorted_list_of_fmap [simp]:
  "(k, e) \<in> set (sorted_list_of_fmap m) \<longleftrightarrow> fmlookup m k = Some e"
  by (auto simp: sorted_list_of_fmap_def fmlookup_dom_iff)

lemma fst_sorted_list_of_fmap [simp]: "map fst (sorted_list_of_fmap m) = sorted_list_of_fset (fmdom m)"
  by (simp add: sorted_list_of_fmap_def comp_def)

lemma map_of_sorted_list_of_fmap: "map_of (sorted_list_of_fmap m) = fmlookup m"
proof
  fix k
  have "distinct (map fst (sorted_list_of_fmap m))" by (simp add: sorted_list_of_fset.rep_eq)
  then show "map_of (sorted_list_of_fmap m) k = fmlookup m k"
    by (cases "fmlookup m k") (auto simp: map_of_eq_None_iff image_iff simp flip: set_sorted_list_of_fmap)
qed

text \<open>Counting the entries of a list that satisfy a predicate.\<close>

definition cnt :: "('a \<Rightarrow> bool) \<Rightarrow> 'a list \<Rightarrow> int" where
  "cnt P xs = int (length (filter P xs))"

lemma cnt_simps [simp]: "cnt P [] = 0" "cnt P (x # xs) = of_bool (P x) + cnt P xs"
  "cnt P (xs @ ys) = cnt P xs + cnt P ys"
  by (simp_all add: cnt_def)

lemma cnt_nonneg [simp]: "0 \<le> cnt P xs"
  by (simp add: cnt_def)

lemma cnt_update: "i < length xs \<Longrightarrow> cnt P (xs[i := y]) = cnt P xs - of_bool (P (xs ! i)) + of_bool (P y)"
  by (induction xs arbitrary: i) (auto split: nat.splits)

lemma cnt_pos: "i < length xs \<Longrightarrow> P (xs ! i) \<Longrightarrow> 0 < cnt P xs"
  by (auto simp: cnt_def filter_empty_conv)

lemma cnt_zero: "(\<And>x. x \<in> set xs \<Longrightarrow> \<not> P x) \<Longrightarrow> cnt P xs = 0"
  by (auto simp: cnt_def filter_empty_conv)

lemma cnt_card: "cnt P xs = int (card {i. i < length xs \<and> P (xs ! i)})"
  by (simp add: cnt_def length_filter_conv_card)

subsection \<open>Strings\<close>

text \<open>The dash of the program's messages, in UTF-8.\<close>

definition em_dash :: string where "em_dash = [CHR 0xE2, CHR 0x80, CHR 0x94]"

definition has_prefix :: "string \<Rightarrow> string \<Rightarrow> bool" where
  [str_defs]: "has_prefix s p \<longleftrightarrow> take (length p) s = p"

definition has_suffix :: "string \<Rightarrow> string \<Rightarrow> bool" where
  [str_defs]: "has_suffix s p \<longleftrightarrow> length p \<le> length s \<and> drop (length s - length p) s = p"

definition trim_suffix :: "string \<Rightarrow> string \<Rightarrow> string" where
  [str_defs]: "trim_suffix s p = (if has_suffix s p then take (length s - length p) s else s)"

lemma has_prefix_append: "has_prefix s p \<longleftrightarrow> (\<exists>r. s = p @ r)"
  unfolding has_prefix_def by (metis append_eq_conv_conj append_take_drop_id)

lemma has_suffix_append [simp]: "has_suffix (s @ p) p"
  by (simp add: has_suffix_def)

lemma trim_suffix_append [simp]: "trim_suffix (s @ p) p = s"
  by (simp add: trim_suffix_def)

text \<open>\<open>strings.Split\<close> with a one-byte separator.\<close>

fun split_on :: "char \<Rightarrow> string \<Rightarrow> string list" where
  "split_on c [] = [[]]"
| "split_on c (x # xs) =
     (if x = c then [] # split_on c xs
      else (case split_on c xs of [] \<Rightarrow> [[x]] | p # ps \<Rightarrow> (x # p) # ps))"

lemma split_on_nonempty [simp]: "split_on c xs \<noteq> []"
  by (induction xs) (auto split: list.splits)

lemma split_on_free: "c \<notin> set xs \<Longrightarrow> split_on c xs = [xs]"
  by (induction xs) auto

lemma split_on_append: "c \<notin> set xs \<Longrightarrow> split_on c (xs @ c # ys) = xs # split_on c ys"
  by (induction xs) auto

text \<open>\<open>strings.TrimSpace\<close>: the UTF-8 encodings of the code points \<open>unicode.IsSpace\<close> accepts, removed
  from both ends as long as one is there.\<close>

definition space_runes :: "string list" where
  "space_runes = [[CHR 0x09], [CHR 0x0A], [CHR 0x0B], [CHR 0x0C], [CHR 0x0D], [CHR 0x20],
     [CHR 0xC2, CHR 0x85], [CHR 0xC2, CHR 0xA0], [CHR 0xE1, CHR 0x9A, CHR 0x80],
     [CHR 0xE2, CHR 0x80, CHR 0x80], [CHR 0xE2, CHR 0x80, CHR 0x81], [CHR 0xE2, CHR 0x80, CHR 0x82],
     [CHR 0xE2, CHR 0x80, CHR 0x83], [CHR 0xE2, CHR 0x80, CHR 0x84], [CHR 0xE2, CHR 0x80, CHR 0x85],
     [CHR 0xE2, CHR 0x80, CHR 0x86], [CHR 0xE2, CHR 0x80, CHR 0x87], [CHR 0xE2, CHR 0x80, CHR 0x88],
     [CHR 0xE2, CHR 0x80, CHR 0x89], [CHR 0xE2, CHR 0x80, CHR 0x8A], [CHR 0xE2, CHR 0x80, CHR 0xA8],
     [CHR 0xE2, CHR 0x80, CHR 0xA9], [CHR 0xE2, CHR 0x80, CHR 0xAF], [CHR 0xE2, CHR 0x81, CHR 0x9F],
     [CHR 0xE3, CHR 0x80, CHR 0x80]]"

lemma space_runes_nonempty: "[] \<notin> set space_runes"
  by (simp add: space_runes_def)

lemma find_set: "find P xs = Some x \<Longrightarrow> x \<in> set xs \<and> P x"
  by (induction xs) (auto split: if_splits)

function trim_space_left :: "string \<Rightarrow> string" where
  "trim_space_left s = (case find (has_prefix s) space_runes of None \<Rightarrow> s
     | Some p \<Rightarrow> trim_space_left (drop (length p) s))"
  by pat_completeness auto
termination
proof (relation "measure length")
  fix s p
  assume "find (has_prefix s) space_runes = Some p"
  then have "p \<in> set space_runes" "has_prefix s p" by (simp_all add: find_set)
  moreover from this have "p \<noteq> []" using space_runes_nonempty by blast
  ultimately show "(drop (length p) s, s) \<in> measure length"
    by (auto simp: has_prefix_append)
qed simp

declare trim_space_left.simps [simp del]

function trim_space_right :: "string \<Rightarrow> string" where
  "trim_space_right s = (case find (has_suffix s) space_runes of None \<Rightarrow> s
     | Some p \<Rightarrow> trim_space_right (take (length s - length p) s))"
  by pat_completeness auto
termination
proof (relation "measure length")
  fix s p
  assume "find (has_suffix s) space_runes = Some p"
  then have p: "p \<in> set space_runes" "has_suffix s p" by (simp_all add: find_set)
  then have "0 < length p" using space_runes_nonempty by auto
  moreover have "length p \<le> length s" using p by (simp add: has_suffix_def)
  ultimately have "length s - length p < length s" by linarith
  then show "(take (length s - length p) s, s) \<in> measure length" by simp
qed simp

declare trim_space_right.simps [simp del]

definition trim_space :: "string \<Rightarrow> string" where
  "trim_space s = trim_space_right (trim_space_left s)"

text \<open>\<open>strings.TrimRight(s, cutset)\<close> for a one-byte-per-character cutset.\<close>

definition trim_right :: "string \<Rightarrow> string \<Rightarrow> string" where
  "trim_right s cs = rev (dropWhile (\<lambda>c. c \<in> set cs) (rev s))"

text \<open>The lowercase kebab-case alphabet of hook ids, namespaces and queue names: the regular
  expression \<^verbatim>\<open>^[a-z0-9][a-z0-9-]*$\<close>.\<close>

definition lower_alnum :: "char \<Rightarrow> bool" where
  "lower_alnum c \<longleftrightarrow> (CHR ''a'' \<le> c \<and> c \<le> CHR ''z'') \<or> (CHR ''0'' \<le> c \<and> c \<le> CHR ''9'')"

definition kebab :: "string \<Rightarrow> bool" where
  "kebab s \<longleftrightarrow> (case s of [] \<Rightarrow> False
     | c # cs \<Rightarrow> lower_alnum c \<and> list_all (\<lambda>d. lower_alnum d \<or> d = CHR ''-'') cs)"

lemma kebab_chars: "kebab s \<Longrightarrow> d \<in> set s \<Longrightarrow> lower_alnum d \<or> d = CHR ''-''"
  by (auto simp: kebab_def list_all_iff split: list.splits)

subsection \<open>Interfaces shared by the components\<close>

text \<open>
  A component whose steps are a relation, with a predicate that holds initially and is kept by
  every step: the predicate holds in every reachable state.
\<close>

locale invariant_system =
  fixes init :: "'s \<Rightarrow> bool"
    and step :: "'s \<Rightarrow> 's \<Rightarrow> bool"
    and inv :: "'s \<Rightarrow> bool"
  assumes inv_init: "init s \<Longrightarrow> inv s"
    and inv_step: "step s t \<Longrightarrow> inv s \<Longrightarrow> inv t"
begin

lemma inv_steps: "step\<^sup>*\<^sup>* s t \<Longrightarrow> inv s \<Longrightarrow> inv t"
  by (induction rule: rtranclp_induct) (auto intro: inv_step)

lemma inv_reachable: "init s \<Longrightarrow> step\<^sup>*\<^sup>* s t \<Longrightarrow> inv t"
  by (blast intro: inv_steps inv_init)

end

text \<open>
  A store that keeps its state in memory and writes every change through to disk.  An operation
  is told whether its file write succeeds (\<open>True\<close>) or fails (\<open>False\<close>); a provider promises
  that memory and disk agree (\<open>sync\<close>) after every operation it covers (\<open>good\<close>) either way, and
  that a failed write changes nothing.
  A client that only uses the store through its operations then never loses an acknowledged
  change at a restart.
\<close>

locale guarded_store =
  fixes exec :: "'op \<Rightarrow> bool \<Rightarrow> 's \<Rightarrow> 's"
    and sync :: "'s \<Rightarrow> bool"
    and good :: "'op \<Rightarrow> bool"
  assumes exec_guarded: "sync s \<Longrightarrow> good op \<Longrightarrow> sync (exec op ok s)"
    and exec_failed: "exec op False s = s"
begin

lemma fold_guarded: "sync s \<Longrightarrow> list_all (\<lambda>(op, ok). good op) ops \<Longrightarrow> sync (fold (\<lambda>(op, ok). exec op ok) ops s)"
  by (induction ops arbitrary: s) (auto simp: exec_guarded split: prod.splits)

lemma fold_failed: "fold (\<lambda>(op, ok). exec op ok) ops s = fold (\<lambda>(op, ok). exec op ok) (filter snd ops) s"
proof (induction ops arbitrary: s)
  case (Cons x ops)
  then show ?case by (cases x; cases "snd x") (auto simp: exec_failed)
qed simp

end

text \<open>The case where memory and disk are compared as they are and every operation is covered.\<close>

locale durable_store =
  fixes exec :: "'op \<Rightarrow> bool \<Rightarrow> 's \<Rightarrow> 's"
    and mem :: "'s \<Rightarrow> 'm"
    and disk :: "'s \<Rightarrow> 'm"
  assumes exec_sync: "mem s = disk s \<Longrightarrow> mem (exec op ok s) = disk (exec op ok s)"
    and exec_untouched: "exec op False s = s"

sublocale durable_store \<subseteq> guarded_store exec "\<lambda>s. mem s = disk s" "\<lambda>_. True"
  by unfold_locales (simp_all add: exec_sync exec_untouched)

context durable_store
begin

lemma fold_sync: "mem s = disk s \<Longrightarrow> mem (fold (\<lambda>(op, ok). exec op ok) ops s) = disk (fold (\<lambda>(op, ok). exec op ok) ops s)"
  using fold_guarded [of s ops] by (auto simp: list_all_iff)

end

end
