(* ===== verification/Jsonc.thy ===== *)
theory Jsonc
  imports Prelude
begin

text \<open>
  Model of \<^verbatim>\<open>internal/jsonc/jsonc.go\<close>: the comment stripper every configuration file of the
  runner passes through before the JSON decoder sees it.  The byte loop is one recursive
  function over the rest of the input, with the source's scanner state and escape flag.

  The lemmas give the stripper's full meaning on token streams (string literals, comments and
  other bytes), and that its output contains no further comment: stripping again changes
  nothing.
\<close>

datatype jsonc_state = StateNormal | StateString | StateLineComment | StateBlockComment

abbreviation dquote :: char where "dquote \<equiv> CHR 0x22"
abbreviation bslash :: char where "bslash \<equiv> CHR 0x5C"
abbreviation newline :: char where "newline \<equiv> CHR 0x0A"

fun jsonc_loop :: "jsonc_state \<Rightarrow> bool \<Rightarrow> string \<Rightarrow> string" where
  "jsonc_loop st esc [] = []"
| "jsonc_loop StateNormal esc (c # cs) =
     (if c = CHR ''/'' \<and> cs \<noteq> [] \<and> hd cs = CHR ''/'' then jsonc_loop StateLineComment esc (tl cs)
      else if c = CHR ''/'' \<and> cs \<noteq> [] \<and> hd cs = CHR ''*'' then jsonc_loop StateBlockComment esc (tl cs)
      else c # jsonc_loop (if c = dquote then StateString else StateNormal) esc cs)"
| "jsonc_loop StateString esc (c # cs) =
     c # (if esc then jsonc_loop StateString False cs
          else if c = bslash then jsonc_loop StateString True cs
          else if c = dquote then jsonc_loop StateNormal esc cs
          else jsonc_loop StateString esc cs)"
| "jsonc_loop StateLineComment esc (c # cs) =
     (if c = newline then c # jsonc_loop StateNormal esc cs else jsonc_loop StateLineComment esc cs)"
| "jsonc_loop StateBlockComment esc (c # cs) =
     (if c = CHR ''*'' \<and> cs \<noteq> [] \<and> hd cs = CHR ''/'' then jsonc_loop StateNormal esc (tl cs)
      else jsonc_loop StateBlockComment esc cs)"

definition NewReader :: "string \<Rightarrow> string" where
  "NewReader inp = jsonc_loop StateNormal False inp"

text \<open>
  The reference: a document is a sequence of tokens.  \<open>TStr\<close> is a string literal given by its
  body (without the quotes), \<open>TLine\<close> and \<open>TBlock\<close> are comments, \<open>TByte\<close> is any other byte.
\<close>

datatype jtok = TStr string | TLine string | TBlock string | TByte char

fun tok_text :: "jtok \<Rightarrow> string" where
  "tok_text (TStr b) = dquote # b @ [dquote]"
| "tok_text (TLine b) = ''//'' @ b @ [newline]"
| "tok_text (TBlock b) = ''/*'' @ b @ ''*/''"
| "tok_text (TByte c) = [c]"

fun tok_erased :: "jtok \<Rightarrow> string" where
  "tok_erased (TStr b) = dquote # b @ [dquote]"
| "tok_erased (TLine b) = [newline]"
| "tok_erased (TBlock b) = []"
| "tok_erased (TByte c) = [c]"

text \<open>A string body: every quote is escaped and no escape is left open at the end.\<close>

fun str_body :: "bool \<Rightarrow> string \<Rightarrow> bool" where
  "str_body esc [] = (\<not> esc)"
| "str_body True (c # cs) = str_body False cs"
| "str_body False (c # cs) = (c \<noteq> dquote \<and> str_body (c = bslash) cs)"

text \<open>A block body does not contain the terminator.\<close>

fun block_body :: "string \<Rightarrow> bool" where
  "block_body [] = True"
| "block_body (c # cs) = ((c = CHR ''*'' \<longrightarrow> cs = [] \<or> hd cs \<noteq> CHR ''/'') \<and> block_body cs)"

fun tok_ok :: "jtok \<Rightarrow> bool" where
  "tok_ok (TStr b) = str_body False b"
| "tok_ok (TLine b) = (newline \<notin> set b)"
| "tok_ok (TBlock b) = block_body b"
| "tok_ok (TByte c) = (c \<noteq> dquote)"

text \<open>A stray slash is not glued to a following slash or star, which would open a comment.\<close>

fun toks_ok :: "jtok list \<Rightarrow> bool" where
  "toks_ok [] = True"
| "toks_ok (t # ts) =
     (tok_ok t \<and> toks_ok ts \<and>
      (t = TByte (CHR ''/'') \<longrightarrow>
         (ts = [] \<or> (hd (tok_text (hd ts)) \<noteq> CHR ''/'' \<and> hd (tok_text (hd ts)) \<noteq> CHR ''*''))))"

lemma loop_byte:
  assumes "c \<noteq> CHR ''/'' \<or> cs = [] \<or> (hd cs \<noteq> CHR ''/'' \<and> hd cs \<noteq> CHR ''*'')"
  shows "jsonc_loop StateNormal esc (c # cs) =
    c # jsonc_loop (if c = dquote then StateString else StateNormal) esc cs"
  using assms by auto

lemma loop_string: "str_body esc b \<Longrightarrow>
  jsonc_loop StateString esc (b @ dquote # r) = b @ dquote # jsonc_loop StateNormal False r"
  by (induction esc b rule: str_body.induct) (auto split: if_splits)

lemma loop_line: "newline \<notin> set b \<Longrightarrow>
  jsonc_loop StateLineComment esc (b @ newline # r) = newline # jsonc_loop StateNormal esc r"
  by (induction b) auto

lemma loop_block: "block_body b \<Longrightarrow>
  jsonc_loop StateBlockComment esc (b @ CHR ''*'' # CHR ''/'' # r) = jsonc_loop StateNormal esc r"
proof (induction b)
  case (Cons c b)
  have "jsonc_loop StateBlockComment esc (c # (b @ CHR ''*'' # CHR ''/'' # r)) =
      jsonc_loop StateBlockComment esc (b @ CHR ''*'' # CHR ''/'' # r)"
    using Cons.prems by (cases b) auto
  with Cons show ?case by simp
qed simp

lemma tok_text_nonempty [simp]: "tok_text t \<noteq> []"
  by (cases t) auto

lemma loop_token:
  assumes "tok_ok t"
    and "t = TByte (CHR ''/'') \<Longrightarrow> r = [] \<or> (hd r \<noteq> CHR ''/'' \<and> hd r \<noteq> CHR ''*'')"
  shows "jsonc_loop StateNormal False (tok_text t @ r) = tok_erased t @ jsonc_loop StateNormal False r"
proof (cases t)
  case (TStr b)
  with assms(1) show ?thesis by (simp add: loop_byte loop_string)
next
  case (TLine b)
  with assms(1) show ?thesis by (simp add: loop_line)
next
  case (TBlock b)
  with assms(1) show ?thesis by (simp add: loop_block)
next
  case (TByte c)
  with assms have "c \<noteq> CHR ''/'' \<or> r = [] \<or> (hd r \<noteq> CHR ''/'' \<and> hd r \<noteq> CHR ''*'')" by auto
  with TByte assms(1) show ?thesis by auto
qed

text \<open>The output of the scanner, seen from its own end: what a state emits is reproduced when
  the scanner reads it back.\<close>

lemma loop_normal_hd:
  "d \<noteq> CHR ''/'' \<Longrightarrow> \<exists>r. jsonc_loop StateNormal esc (d # ds) = d # r"
  by (subst loop_byte) auto

lemma loop_again:
  "jsonc_loop (if st = StateString then StateString else StateNormal) esc (jsonc_loop st esc xs) =
   jsonc_loop st esc xs"
proof (induction st esc xs rule: jsonc_loop.induct)
  case (2 esc c cs)
  show ?case
  proof (cases "c = CHR ''/'' \<and> cs \<noteq> [] \<and> (hd cs = CHR ''/'' \<or> hd cs = CHR ''*'')")
    case True
    with "2.IH"(1,2) show ?thesis by auto
  next
    case False
    let ?st = "if c = dquote then StateString else StateNormal"
    from False have step: "jsonc_loop StateNormal esc (c # cs) = c # jsonc_loop ?st esc cs"
      by (intro loop_byte) auto
    have rest: "jsonc_loop ?st esc (jsonc_loop ?st esc cs) = jsonc_loop ?st esc cs"
      using False "2.IH"(3) by auto
    have "c \<noteq> CHR ''/'' \<or> jsonc_loop ?st esc cs = [] \<or>
        (hd (jsonc_loop ?st esc cs) \<noteq> CHR ''/'' \<and> hd (jsonc_loop ?st esc cs) \<noteq> CHR ''*'')"
    proof (cases cs)
      case (Cons d ds)
      show ?thesis
      proof (cases "c = CHR ''/''")
        case True
        with False Cons have "d \<noteq> CHR ''/''" "d \<noteq> CHR ''*''" by auto
        with True Cons loop_normal_hd [of d esc ds] show ?thesis by auto
      qed simp
    qed simp
    then have "jsonc_loop StateNormal esc (c # jsonc_loop ?st esc cs) =
        c # jsonc_loop ?st esc (jsonc_loop ?st esc cs)"
      by (rule loop_byte)
    with step rest show ?thesis by simp
  qed
next
  case (4 esc c cs)
  then show ?case by (auto simp: loop_byte)
next
  case (5 esc c cs)
  then show ?case by auto
qed auto

lemma hd_concat_toks:
  "ts \<noteq> [] \<Longrightarrow> hd (concat (map tok_text ts) @ r) = hd (tok_text (hd ts))"
  by (cases ts) auto

text \<open>
  On every well-formed token stream, the stripper removes exactly the comments: string
  literals come out byte for byte (a comment marker inside a string is left alone), a line
  comment leaves its newline, a block comment leaves nothing, and every other byte is copied.
\<close>

theorem NewReader_tokens:
  assumes "toks_ok ts"
  shows "NewReader (concat (map tok_text ts)) = concat (map tok_erased ts)"
  using assms
proof (induction ts)
  case (Cons t ts)
  have "t = TByte (CHR ''/'') \<Longrightarrow> concat (map tok_text ts) = [] \<or>
      (hd (concat (map tok_text ts)) \<noteq> CHR ''/'' \<and> hd (concat (map tok_text ts)) \<noteq> CHR ''*'')"
    using Cons.prems hd_concat_toks [of ts "[]"] by (cases ts) auto
  with Cons show ?case by (simp add: NewReader_def loop_token)
qed (simp add: NewReader_def)

theorem NewReader_tokens_witness:
  "toks_ok [TByte (CHR ''{''), TStr ''a//b'', TByte (CHR '':''), TBlock ''x*'', TStr [bslash, dquote],
      TLine [CHR ''q'', dquote], TByte (CHR ''}'')] \<and>
   NewReader (concat (map tok_text [TByte (CHR ''{''), TStr ''a//b'', TByte (CHR '':''), TBlock ''x*'',
      TStr [bslash, dquote], TLine [CHR ''q'', dquote], TByte (CHR ''}'')])) =
   CHR ''{'' # dquote # ''a//b'' @ dquote # CHR '':'' # [dquote, bslash, dquote, dquote, newline] @ ''}''"
proof -
  have ok: "toks_ok [TByte (CHR ''{''), TStr ''a//b'', TByte (CHR '':''), TBlock ''x*'',
      TStr [bslash, dquote], TLine [CHR ''q'', dquote], TByte (CHR ''}'')]" by simp
  show ?thesis using ok NewReader_tokens [OF ok] by simp
qed

text \<open>
  Stripping is idempotent for every input, well-formed or not: the output contains nothing
  the stripper would still take for a comment (removing a comment never glues a new one together).
\<close>

theorem NewReader_idempotent: "NewReader (NewReader inp) = NewReader inp"
  using loop_again [of StateNormal False inp] by (simp add: NewReader_def)

end
