(* ===== verification/Int64.thy ===== *)
theory Int64
  imports Prelude
begin

text \<open>
  Go's \<open>int64\<close> arithmetic and its decimal text form, as the key/value store's counters use them:
  wrap-around addition, \<open>strconv.AppendInt(_, n, 10)\<close> and \<open>strconv.ParseInt(s, 10, 64)\<close>.
  The round trip (parsing what was printed gives the number back) is what makes a counter
  readable by the next increment.
\<close>

definition wrap64 :: "int \<Rightarrow> int" where
  "wrap64 x = (x + 2 ^ 63) mod 2 ^ 64 - 2 ^ 63"

definition is_int64 :: "int \<Rightarrow> bool" where
  "is_int64 x \<longleftrightarrow> - (2 ^ 63) \<le> x \<and> x < 2 ^ 63"

text \<open>The Unix epoch on the time axis, and \<open>UnixNano\<close>: nanoseconds since then as an \<open>int64\<close>.\<close>

definition unix_epoch :: time where
  "unix_epoch = 62135596800 * Second"

definition UnixNano :: "time \<Rightarrow> int" where
  "UnixNano t = wrap64 (t - unix_epoch)"

lemma wrap64_range [simp]: "is_int64 (wrap64 x)"
proof -
  have "0 \<le> (x + 2 ^ 63) mod 2 ^ 64" "(x + 2 ^ 63) mod 2 ^ 64 < 2 ^ 64" by simp_all
  then show ?thesis by (simp add: wrap64_def is_int64_def)
qed

lemma wrap64_id: "is_int64 x \<Longrightarrow> wrap64 x = x"
  by (simp add: wrap64_def is_int64_def)

lemma wrap64_add: "wrap64 (wrap64 x + y) = wrap64 (x + y)"
proof -
  have "((x + 2 ^ 63) mod 2 ^ 64 - 2 ^ 63 + y + 2 ^ 63) mod 2 ^ 64 = ((x + 2 ^ 63) mod 2 ^ 64 + y) mod 2 ^ 64"
    by (simp add: algebra_simps)
  also have "\<dots> = (x + 2 ^ 63 + y) mod 2 ^ 64" by (rule mod_add_left_eq)
  finally show ?thesis by (simp add: wrap64_def algebra_simps)
qed

subsection \<open>Decimal digits\<close>

definition digit_char :: "nat \<Rightarrow> char" where
  "digit_char d = char_of (48 + d)"

definition digit_val :: "char \<Rightarrow> nat option" where
  "digit_val c = (let n = of_char c in if 48 \<le> n \<and> n \<le> (57::nat) then Some (n - 48) else None)"

lemma digit_val_char [simp]: "d < 10 \<Longrightarrow> digit_val (digit_char d) = Some d"
  by (simp add: digit_val_def digit_char_def)

lemma digit_char_not_sign: "d < 10 \<Longrightarrow> digit_char d \<noteq> CHR ''-'' \<and> digit_char d \<noteq> CHR ''+''"
proof -
  assume d: "d < 10"
  then have "of_char (digit_char d) = 48 + d" by (simp add: digit_char_def)
  then have "of_char (digit_char d) \<noteq> (45::nat)" "of_char (digit_char d) \<noteq> (43::nat)" by simp_all
  then show ?thesis by auto
qed

fun show_nat :: "nat \<Rightarrow> string" where
  "show_nat n = (if n < 10 then [digit_char n] else show_nat (n div 10) @ [digit_char (n mod 10)])"

declare show_nat.simps [simp del]

fun parse_digits :: "nat \<Rightarrow> string \<Rightarrow> nat option" where
  "parse_digits acc [] = Some acc"
| "parse_digits acc (c # cs) =
     (case digit_val c of None \<Rightarrow> None | Some d \<Rightarrow> parse_digits (10 * acc + d) cs)"

lemma parse_digits_append:
  "parse_digits acc (xs @ ys) = Option.bind (parse_digits acc xs) (\<lambda>a. parse_digits a ys)"
  by (induction xs arbitrary: acc) (auto split: option.splits)

lemma show_nat_nonempty [simp]: "show_nat n \<noteq> []"
  by (subst show_nat.simps) simp

lemma parse_show_nat: "parse_digits 0 (show_nat n) = Some n"
proof (induction n rule: show_nat.induct)
  case (1 n)
  show ?case
  proof (cases "n < 10")
    case True
    then show ?thesis by (simp add: show_nat.simps [of n])
  next
    case False
    with 1 show ?thesis by (simp add: show_nat.simps [of n] parse_digits_append)
  qed
qed

lemma show_nat_hd: "\<exists>d<10. hd (show_nat n) = digit_char d"
proof (induction n rule: show_nat.induct)
  case (1 n)
  show ?case
  proof (cases "n < 10")
    case True
    then show ?thesis by (auto simp: show_nat.simps [of n])
  next
    case False
    with 1 show ?thesis by (simp add: show_nat.simps [of n])
  qed
qed

text \<open>\<open>strconv.AppendInt(nil, n, 10)\<close>.\<close>

definition append_int :: "int \<Rightarrow> string" where
  "append_int n = (if n < 0 then CHR ''-'' # show_nat (nat (- n)) else show_nat (nat n))"

text \<open>\<open>strconv.ParseInt(s, 10, 64)\<close>: an optional sign, at least one digit, nothing else, and in
  range; \<open>None\<close> is any of its errors.\<close>

definition parse_int :: "string \<Rightarrow> int option" where
  "parse_int s =
     (let (neg, ds) = (case s of [] \<Rightarrow> (False, [])
                       | c # cs \<Rightarrow> if c = CHR ''-'' then (True, cs)
                                   else if c = CHR ''+'' then (False, cs) else (False, s))
      in if ds = [] then None
         else case parse_digits 0 ds of
                None \<Rightarrow> None
              | Some m \<Rightarrow> let v = (if neg then - int m else int m)
                          in if is_int64 v then Some v else None)"

lemma parse_int_range: "parse_int s = Some v \<Longrightarrow> is_int64 v"
  by (auto simp: parse_int_def Let_def split: if_splits option.splits list.splits prod.splits)

lemma parse_append_int: "is_int64 n \<Longrightarrow> parse_int (append_int n) = Some n"
proof (cases "n < 0")
  case True
  assume "is_int64 n"
  with True show ?thesis by (simp add: append_int_def parse_int_def parse_show_nat)
next
  case False
  assume n: "is_int64 n"
  obtain c cs where s: "show_nat (nat n) = c # cs" by (cases "show_nat (nat n)") auto
  with show_nat_hd [of "nat n"] digit_char_not_sign have "c \<noteq> CHR ''-''" "c \<noteq> CHR ''+''" by auto
  with False n s parse_show_nat [of "nat n"] show ?thesis
    by (simp add: append_int_def parse_int_def)
qed

lemma length_show_nat: "n < 10 ^ k \<Longrightarrow> 0 < k \<Longrightarrow> length (show_nat n) \<le> k"
proof (induction n arbitrary: k rule: show_nat.induct)
  case (1 n)
  show ?case
  proof (cases "n < 10")
    case True
    with "1.prems" show ?thesis by (simp add: show_nat.simps [of n])
  next
    case False
    with "1.prems" obtain j where k: "k = Suc j" "0 < j" by (cases k; cases "k - 1") auto
    with "1.prems" have "n div 10 < 10 ^ j" by (simp add: less_mult_imp_div_less mult.commute)
    with False k "1.IH" have "length (show_nat (n div 10)) \<le> j" by simp
    with False k show ?thesis by (simp add: show_nat.simps [of n])
  qed
qed

lemma length_append_int: "is_int64 n \<Longrightarrow> length (append_int n) \<le> 20"
proof -
  assume n: "is_int64 n"
  then have "nat \<bar>n\<bar> \<le> 2 ^ 63" by (simp add: is_int64_def nat_le_iff abs_le_iff)
  also have "\<dots> < (10::nat) ^ 19" by simp
  finally have "length (show_nat (nat \<bar>n\<bar>)) \<le> 19" by (rule length_show_nat) simp
  then show ?thesis by (cases "n < 0") (simp_all add: append_int_def)
qed

end
