(* ===== verification/KvStore.thy ===== *)
theory KvStore
  imports Int64
begin

text \<open>
  Model of \<^verbatim>\<open>internal/kv/kv.go\<close>: the per-hook key/value store, bounded, with lazy expiry, and
  written through to one file per namespace.  \<open>kv_ns\<close> is the in-memory map, \<open>kv_disk\<close> the
  directory, a map from file names to files.  The document of a namespace is the sequence of its
  members as \<open>encoding/json\<close> writes them: in the order of the keys, with every byte of a key
  that is not part of a UTF-8 sequence replaced by U+FFFD; values are base64 and survive as they
  are.  \<open>kv_notified\<close> counts the calls of the \<open>onMutate\<close> callback, and \<open>kv_locks\<close> is the
  table of cooperative locks (theory \<open>KvLock\<close>).  Whether the temp-and-rename write of a file
  succeeds is an argument of every operation that persists.
\<close>

record kv_config =
  kv_MaxValueBytes :: int
  kv_MaxNamespaces :: int
  kv_SweepInterval :: duration

datatype kv_error = ErrValueTooLarge | ErrTooManyNS | ErrNotInteger | ErrBadNamespace
  | ErrPersist | ErrNoDir | ErrMkdir | ErrReadDir
  | ErrLockHeld | ErrLockNotHeld | ErrLockExpired | ErrLockPinned | ErrNoRunID

record kv_entry =
  kv_value :: string
  kv_expires :: "time option"

record kv_lock_entry =
  le_runID :: string
  le_acquiredAt :: time
  le_expiresAt :: time
  le_pinned :: bool

type_synonym kv_namespace = "(string, kv_entry) fmap"

text \<open>A directory entry: a subdirectory, a file that cannot be read, a file that does not parse,
  or a file holding the document of a namespace.\<close>

datatype kv_file = KvDir | KvUnreadable | KvCorrupt | KvDoc "(string \<times> kv_entry) list"

record kv_store =
  kv_ns :: "(string, kv_namespace) fmap"
  kv_disk :: "(string, kv_file) fmap"
  kv_cfg :: kv_config
  kv_locks :: "(string, (string, kv_lock_entry) fmap) fmap"
  kv_notified :: nat

record kv_key_info =
  ki_Key :: string
  ki_Size :: int
  ki_ExpiresAt :: "time option"
  ki_TTLSeconds :: "int option"

record kv_ns_stat =
  st_Namespace :: string
  st_Keys :: int
  st_Bytes :: int

definition validNamespace :: "string \<Rightarrow> bool" where
  "validNamespace ns \<longleftrightarrow> ns \<noteq> [] \<and> length ns \<le> 128 \<and> kebab ns"

definition kv_expired :: "kv_entry \<Rightarrow> time \<Rightarrow> bool" where
  "kv_expired e now \<longleftrightarrow> (case kv_expires e of None \<Rightarrow> False | Some x \<Rightarrow> \<not> x > now)"

definition kv_info :: "kv_entry \<Rightarrow> string \<Rightarrow> time \<Rightarrow> kv_key_info" where
  "kv_info e key now =
     \<lparr>ki_Key = key, ki_Size = int (length (kv_value e)), ki_ExpiresAt = kv_expires e,
      ki_TTLSeconds = map_option (\<lambda>x. go_div (x - now) Second) (kv_expires e)\<rparr>"

subsection \<open>Construction and loading\<close>

definition kv_defaults :: "kv_config \<Rightarrow> kv_config" where
  "kv_defaults cfg =
     \<lparr>kv_MaxValueBytes = (if kv_MaxValueBytes cfg \<le> 0 then 64 * 1024 else kv_MaxValueBytes cfg),
      kv_MaxNamespaces = (if kv_MaxNamespaces cfg \<le> 0 then 256 else kv_MaxNamespaces cfg),
      kv_SweepInterval = (if kv_SweepInterval cfg \<le> 0 then Minute else kv_SweepInterval cfg)\<rparr>"

text \<open>The UTF-8 sequence at the head of a byte string: its length, 0 when there is none
  (\<open>utf8.DecodeRuneInString\<close>: shortest forms only, no surrogates, nothing above U+10FFFF).\<close>

definition in_bytes :: "nat \<Rightarrow> nat \<Rightarrow> char \<Rightarrow> bool" where
  "in_bytes lo hi c \<longleftrightarrow> lo \<le> of_char c \<and> of_char c \<le> hi"

abbreviation cont :: "char \<Rightarrow> bool" where
  "cont \<equiv> in_bytes 128 191"

fun rune_len :: "string \<Rightarrow> nat" where
  "rune_len [] = 0"
| "rune_len (a # s) =
     (if in_bytes 0 127 a then 1
      else if in_bytes 194 223 a then (case s of b # _ \<Rightarrow> if cont b then 2 else 0 | _ \<Rightarrow> 0)
      else if in_bytes 224 239 a then (case s of b # c # _ \<Rightarrow>
          if in_bytes (if of_char a = (224 :: nat) then 160 else 128) (if of_char a = (237 :: nat) then 159 else 191) b \<and> cont c then 3 else 0
        | _ \<Rightarrow> 0)
      else if in_bytes 240 244 a then (case s of b # c # d # _ \<Rightarrow>
          if in_bytes (if of_char a = (240 :: nat) then 144 else 128) (if of_char a = (244 :: nat) then 143 else 191) b \<and> cont c \<and> cont d
          then 4 else 0
        | _ \<Rightarrow> 0)
      else 0)"

definition U_FFFD :: string where
  "U_FFFD = [char_of (239 :: nat), char_of (191 :: nat), char_of (189 :: nat)]"

text \<open>What a string is after a JSON encoder or decoder.\<close>

function json_text :: "string \<Rightarrow> string" where
  "json_text [] = []"
| "json_text (c # s) = (let k = rune_len (c # s) in
     if k = 0 then U_FFFD @ json_text s else take k (c # s) @ json_text (drop (k - 1) s))"
  by pat_completeness auto
termination by (relation "measure length") auto

text \<open>Go strings that JSON does not change: valid UTF-8.\<close>

definition utf8_valid :: "string \<Rightarrow> bool" where
  "utf8_valid s \<longleftrightarrow> json_text s = s"

definition kv_marshal :: "kv_namespace \<Rightarrow> (string \<times> kv_entry) list" where
  "kv_marshal m = map (\<lambda>(k, e). (json_text k, e)) (sorted_list_of_fmap m)"

definition kv_unmarshal :: "(string \<times> kv_entry) list \<Rightarrow> kv_namespace" where
  "kv_unmarshal doc = fold (\<lambda>(k, e). fmupd (json_text k) e) doc fmempty"

definition kv_filename :: "string \<Rightarrow> string" where
  "kv_filename ns = ns @ ''.json''"

fun kv_load :: "(string \<times> kv_file) list \<Rightarrow> (string, kv_namespace) fmap \<Rightarrow> (string, kv_namespace) fmap" where
  "kv_load [] acc = acc"
| "kv_load ((name, f) # des) acc =
     (if f = KvDir \<or> \<not> has_suffix name ''.json'' then kv_load des acc
      else let ns = trim_suffix name ''.json'' in
        if \<not> validNamespace ns then kv_load des acc
        else case f of KvDoc doc \<Rightarrow> kv_load des (fmupd ns (kv_unmarshal doc) acc) | _ \<Rightarrow> kv_load des acc)"

text \<open>\<open>New\<close>: \<open>files\<close> is the directory, \<open>None\<close> when it cannot be listed; \<open>os.ReadDir\<close> sorts by name.\<close>

definition kv_New :: "string \<Rightarrow> kv_config \<Rightarrow> bool \<Rightarrow> (string, kv_file) fmap option \<Rightarrow> kv_error + kv_store" where
  "kv_New dir cfg mkdir_ok files =
     (if dir = [] then Inl ErrNoDir
      else if \<not> mkdir_ok then Inl ErrMkdir
      else case files of None \<Rightarrow> Inl ErrReadDir
        | Some fs \<Rightarrow> Inr \<lparr>kv_ns = kv_load (sorted_list_of_fmap fs) fmempty, kv_disk = fs,
                           kv_cfg = kv_defaults cfg, kv_locks = fmempty, kv_notified = 0\<rparr>)"

subsection \<open>Reading\<close>

definition kv_map :: "kv_store \<Rightarrow> string \<Rightarrow> kv_namespace" where
  "kv_map s ns = (case fmlookup (kv_ns s) ns of None \<Rightarrow> fmempty | Some m \<Rightarrow> m)"

definition kv_Get :: "kv_store \<Rightarrow> string \<Rightarrow> string \<Rightarrow> time \<Rightarrow> string option" where
  "kv_Get s ns key now =
     (case fmlookup (kv_ns s) ns of None \<Rightarrow> None
      | Some m \<Rightarrow> (case fmlookup m key of None \<Rightarrow> None
          | Some e \<Rightarrow> if kv_expired e now then None else Some (kv_value e)))"

definition kv_GetEntry :: "kv_store \<Rightarrow> string \<Rightarrow> string \<Rightarrow> time \<Rightarrow> (kv_key_info \<times> string) option" where
  "kv_GetEntry s ns key now =
     (case fmlookup (kv_ns s) ns of None \<Rightarrow> None
      | Some m \<Rightarrow> (case fmlookup m key of None \<Rightarrow> None
          | Some e \<Rightarrow> if kv_expired e now then None else Some (kv_info e key now, kv_value e)))"

definition kv_List :: "kv_store \<Rightarrow> string \<Rightarrow> time \<Rightarrow> string list" where
  "kv_List s ns now =
     (case fmlookup (kv_ns s) ns of None \<Rightarrow> []
      | Some m \<Rightarrow> map fst (filter (\<lambda>(k, e). \<not> kv_expired e now) (sorted_list_of_fmap m)))"

definition kv_Keys :: "kv_store \<Rightarrow> string \<Rightarrow> string \<Rightarrow> time \<Rightarrow> kv_key_info list" where
  "kv_Keys s ns pre now =
     (case fmlookup (kv_ns s) ns of None \<Rightarrow> []
      | Some m \<Rightarrow> map (\<lambda>(k, e). kv_info e k now)
          (filter (\<lambda>(k, e). \<not> (kv_expired e now \<or> \<not> has_prefix k pre)) (sorted_list_of_fmap m)))"

definition kv_Stats :: "kv_store \<Rightarrow> time \<Rightarrow> kv_ns_stat list" where
  "kv_Stats s now = map (\<lambda>(ns, m).
     let live = filter (\<lambda>(k, e). \<not> kv_expired e now) (sorted_list_of_fmap m)
     in \<lparr>st_Namespace = ns, st_Keys = int (length live),
         st_Bytes = sum_list (map (\<lambda>(k, e). int (length (kv_value e))) live)\<rparr>)
     (sorted_list_of_fmap (kv_ns s))"

subsection \<open>Writing\<close>

definition kv_notifyMutate :: "kv_store \<Rightarrow> kv_store" where
  "kv_notifyMutate s = s\<lparr>kv_notified := Suc (kv_notified s)\<rparr>"

definition kv_persist :: "bool \<Rightarrow> string \<Rightarrow> kv_store \<Rightarrow> bool \<times> kv_store" where
  "kv_persist ok ns s =
     (if ok then (True, s\<lparr>kv_disk := fmupd (kv_filename ns) (KvDoc (kv_marshal (kv_map s ns))) (kv_disk s)\<rparr>) else (False, s))"

text \<open>The pair \<open>(prev, keyExisted)\<close> of the source is the option \<open>prev\<close>.\<close>

definition kv_rollback :: "string \<Rightarrow> string \<Rightarrow> kv_entry option \<Rightarrow> bool \<Rightarrow> kv_store \<Rightarrow> kv_store" where
  "kv_rollback ns key prev nsExisted s =
     (let m = (case prev of Some e \<Rightarrow> fmupd key e (kv_map s ns) | None \<Rightarrow> fmdrop key (kv_map s ns));
          s1 = s\<lparr>kv_ns := fmupd ns m (kv_ns s)\<rparr>
      in if nsExisted then s1 else s1\<lparr>kv_ns := fmdrop ns (kv_ns s1)\<rparr>)"

definition kv_put :: "string \<Rightarrow> string \<Rightarrow> kv_entry \<Rightarrow> kv_store \<Rightarrow> kv_store" where
  "kv_put ns key e s = s\<lparr>kv_ns := fmupd ns (fmupd key e (kv_map s ns)) (kv_ns s)\<rparr>"

definition kv_Set :: "string \<Rightarrow> string \<Rightarrow> string \<Rightarrow> duration \<Rightarrow> time \<Rightarrow> bool \<Rightarrow> kv_store \<Rightarrow> (kv_error + unit) \<times> kv_store" where
  "kv_Set ns key value ttl now pok s =
     (if \<not> validNamespace ns then (Inl ErrBadNamespace, s)
      else if int (length value) > kv_MaxValueBytes (kv_cfg s) then (Inl ErrValueTooLarge, s)
      else let nsExisted = (fmlookup (kv_ns s) ns \<noteq> None) in
        if \<not> nsExisted \<and> fmlen (kv_ns s) \<ge> kv_MaxNamespaces (kv_cfg s) then (Inl ErrTooManyNS, s)
        else let prev = fmlookup (kv_map s ns) key;
                 e = \<lparr>kv_value = value, kv_expires = (if ttl > 0 then Some (now + ttl) else None)\<rparr>
             in case kv_persist pok ns (kv_put ns key e s) of
                  (True, s1) \<Rightarrow> (Inr (), kv_notifyMutate s1)
                | (False, s1) \<Rightarrow> (Inl ErrPersist, kv_rollback ns key prev nsExisted s1))"

definition kv_Delete :: "string \<Rightarrow> string \<Rightarrow> bool \<Rightarrow> kv_store \<Rightarrow> (kv_error + unit) \<times> kv_store" where
  "kv_Delete ns key pok s =
     (if \<not> validNamespace ns then (Inl ErrBadNamespace, s)
      else case fmlookup (kv_ns s) ns of None \<Rightarrow> (Inr (), s)
        | Some m \<Rightarrow> (case fmlookup m key of None \<Rightarrow> (Inr (), s)
            | Some prev \<Rightarrow>
                (case kv_persist pok ns (s\<lparr>kv_ns := fmupd ns (fmdrop key m) (kv_ns s)\<rparr>) of
                   (True, s1) \<Rightarrow> (Inr (), kv_notifyMutate s1)
                 | (False, s1) \<Rightarrow> (Inl ErrPersist,
                     s1\<lparr>kv_ns := fmupd ns (fmupd key prev (kv_map s1 ns)) (kv_ns s1)\<rparr>))))"

definition kv_Incr :: "string \<Rightarrow> string \<Rightarrow> int \<Rightarrow> duration \<Rightarrow> time \<Rightarrow> bool \<Rightarrow> kv_store \<Rightarrow> (kv_error + int) \<times> kv_store" where
  "kv_Incr ns key delta ttl now pok s =
     (if \<not> validNamespace ns then (Inl ErrBadNamespace, s)
      else let nsExisted = (fmlookup (kv_ns s) ns \<noteq> None) in
        if \<not> nsExisted \<and> fmlen (kv_ns s) \<ge> kv_MaxNamespaces (kv_cfg s) then (Inl ErrTooManyNS, s)
        else let prev = fmlookup (kv_map s ns) key;
                 base = (case prev of
                           Some e \<Rightarrow> if kv_expired e now then Some (0, None)
                                    else map_option (\<lambda>n. (n, kv_expires e)) (parse_int (kv_value e))
                         | None \<Rightarrow> Some (0, None))
             in case base of None \<Rightarrow> (Inl ErrNotInteger, s)
                | Some (n, keepExpiry) \<Rightarrow>
                    let newVal = wrap64 (n + delta);
                        e = \<lparr>kv_value = append_int newVal,
                             kv_expires = (if ttl > 0 then Some (now + ttl) else keepExpiry)\<rparr>
                    in case kv_persist pok ns (kv_put ns key e s) of
                         (True, s1) \<Rightarrow> (Inr newVal, kv_notifyMutate s1)
                       | (False, s1) \<Rightarrow> (Inl ErrPersist, kv_rollback ns key prev nsExisted s1))"

text \<open>One namespace of the TTL sweep; a failed write is only logged.\<close>

definition kv_sweep_ns :: "time \<Rightarrow> (string \<Rightarrow> bool) \<Rightarrow> string \<Rightarrow> bool \<times> kv_store \<Rightarrow> bool \<times> kv_store" where
  "kv_sweep_ns now pok ns = (\<lambda>(reclaimed, s).
     let m = kv_map s ns;
         m' = fmfilter (\<lambda>k. case fmlookup m k of None \<Rightarrow> True | Some e \<Rightarrow> \<not> kv_expired e now) m
     in if m' = m then (reclaimed, s)
        else (True, snd (kv_persist (pok ns) ns (s\<lparr>kv_ns := fmupd ns m' (kv_ns s)\<rparr>))))"

definition kv_sweep_entries :: "time \<Rightarrow> (string \<Rightarrow> bool) \<Rightarrow> kv_store \<Rightarrow> kv_store" where
  "kv_sweep_entries now pok s =
     (let (reclaimed, s1) = fold (kv_sweep_ns now pok) (sorted_list_of_fset (fmdom (kv_ns s))) (False, s)
      in if reclaimed then kv_notifyMutate s1 else s1)"

subsection \<open>Generic facts\<close>

lemmas kv_write_defs = kv_persist_def kv_put_def kv_notifyMutate_def kv_rollback_def kv_map_def

lemma kv_rollback_put:
  "kv_rollback ns key (fmlookup (kv_map s ns) key) (fmlookup (kv_ns s) ns \<noteq> None) (kv_put ns key e s) = s"
  by (auto simp: kv_write_defs Let_def fmupd_restore fmupd_triv fmdrop_fmupd_same fmdrop_idle'
      fmdom'_notI split: option.splits intro!: kv_store.equality fmap_ext)

lemma kv_Set_cases:
  obtains (refused) err where "kv_Set ns key value ttl now pok s = (Inl err, s)"
  | (stored) "pok" "validNamespace ns" "int (length value) \<le> kv_MaxValueBytes (kv_cfg s)"
      "fmlookup (kv_ns s) ns \<noteq> None \<or> fmlen (kv_ns s) < kv_MaxNamespaces (kv_cfg s)"
      "kv_Set ns key value ttl now pok s = (Inr (), kv_notifyMutate (snd (kv_persist True ns
         (kv_put ns key \<lparr>kv_value = value, kv_expires = (if ttl > 0 then Some (now + ttl) else None)\<rparr> s))))"
proof (cases "fst (kv_Set ns key value ttl now pok s)")
  case (Inl err)
  then have "kv_Set ns key value ttl now pok s = (Inl err, s)"
    unfolding kv_Set_def Let_def kv_persist_def
    by (auto simp: kv_rollback_put split: if_splits simp del: not_None_eq)
  then show ?thesis by (rule refused)
next
  case (Inr u)
  then show ?thesis
    by (intro stored) (auto simp: kv_Set_def kv_persist_def Let_def split: if_splits)
qed

lemma kv_Delete_cases:
  obtains (refused) err where "kv_Delete ns key pok s = (Inl err, s)"
  | (absent) "kv_Delete ns key pok s = (Inr (), s)" "fmlookup (kv_map s ns) key = None" "validNamespace ns"
  | (stored) "pok" "validNamespace ns" "fmlookup (kv_ns s) ns \<noteq> None"
      "kv_Delete ns key pok s = (Inr (), kv_notifyMutate (snd (kv_persist True ns
         (s\<lparr>kv_ns := fmupd ns (fmdrop key (kv_map s ns)) (kv_ns s)\<rparr>))))"
proof -
  show ?thesis
  proof (cases "validNamespace ns")
    case False
    then show ?thesis by (intro refused) (simp add: kv_Delete_def)
  next
    case True
    show ?thesis
    proof (cases "fmlookup (kv_map s ns) key")
      case None
      with True show ?thesis
        by (intro absent) (auto simp: kv_Delete_def kv_map_def split: option.splits)
    next
      case (Some prev)
      then obtain m where m: "fmlookup (kv_ns s) ns = Some m" "fmlookup m key = Some prev"
        by (auto simp: kv_map_def split: option.splits)
      show ?thesis
      proof (cases pok)
        case True
        with \<open>validNamespace ns\<close> m show ?thesis
          by (intro stored) (simp_all add: kv_Delete_def kv_persist_def kv_map_def)
      next
        case False
        with \<open>validNamespace ns\<close> m have "kv_Delete ns key pok s = (Inl ErrPersist, s)"
          by (simp add: kv_Delete_def kv_persist_def kv_map_def fmupd_fmdrop_restore fmupd_triv)
        then show ?thesis by (rule refused)
      qed
    qed
  qed
qed

lemma kv_Incr_cases:
  obtains (refused) err where "kv_Incr ns key delta ttl now pok s = (Inl err, s)"
  | (stored) n e where "pok" "validNamespace ns"
      "fmlookup (kv_ns s) ns \<noteq> None \<or> fmlen (kv_ns s) < kv_MaxNamespaces (kv_cfg s)"
      "kv_value e = append_int (wrap64 (n + delta))"
      "kv_Incr ns key delta ttl now pok s =
         (Inr (wrap64 (n + delta)), kv_notifyMutate (snd (kv_persist True ns (kv_put ns key e s))))"
proof (cases "fst (kv_Incr ns key delta ttl now pok s)")
  case (Inl err)
  then have "kv_Incr ns key delta ttl now pok s = (Inl err, s)"
    unfolding kv_Incr_def Let_def kv_persist_def
    by (auto simp: kv_rollback_put split: if_splits option.splits simp del: not_None_eq)
  then show ?thesis by (rule refused)
next
  case (Inr v)
  define base where "base = (case fmlookup (kv_map s ns) key of
      Some e \<Rightarrow> if kv_expired e now then Some (0, None)
               else map_option (\<lambda>n. (n, kv_expires e)) (parse_int (kv_value e))
    | None \<Rightarrow> Some (0, None))"
  from Inr obtain n k where b: "base = Some (n, k)"
    by (cases base) (auto simp: kv_Incr_def Let_def base_def [symmetric] split: if_splits)
  with Inr show ?thesis
    by (intro stored [of "\<lparr>kv_value = append_int (wrap64 (n + delta)),
          kv_expires = (if ttl > 0 then Some (now + ttl) else k)\<rparr>" n])
      (auto simp: kv_Incr_def kv_persist_def Let_def base_def [symmetric] split: if_splits)
qed

subsection \<open>The write-through contract\<close>

datatype kv_op = OpSet string string string duration time | OpDelete string string
  | OpIncr string string int duration time

fun kv_exec :: "kv_op \<Rightarrow> bool \<Rightarrow> kv_store \<Rightarrow> kv_store" where
  "kv_exec (OpSet ns key v ttl now) pok s = snd (kv_Set ns key v ttl now pok s)"
| "kv_exec (OpDelete ns key) pok s = snd (kv_Delete ns key pok s)"
| "kv_exec (OpIncr ns key d ttl now) pok s = snd (kv_Incr ns key d ttl now pok s)"

text \<open>A sequence of operations, each with the outcome of its file write.\<close>

definition kv_run :: "(kv_op \<times> bool) list \<Rightarrow> kv_store \<Rightarrow> kv_store" where
  "kv_run ops s = fold (\<lambda>(op, pok). kv_exec op pok) ops s"

fun op_key :: "kv_op \<Rightarrow> string" where
  "op_key (OpSet ns key v ttl now) = key"
| "op_key (OpDelete ns key) = key"
| "op_key (OpIncr ns key d ttl now) = key"

lemma kv_notify_sel [simp]:
  "kv_ns (kv_notifyMutate s) = kv_ns s" "kv_disk (kv_notifyMutate s) = kv_disk s"
  "kv_cfg (kv_notifyMutate s) = kv_cfg s" "kv_locks (kv_notifyMutate s) = kv_locks s"
  by (simp_all add: kv_notifyMutate_def)

text \<open>The JSON codec: coercing twice is coercing once, so what a document yields is valid, and a
  namespace whose keys are valid comes back from its document.\<close>

lemma rune_len_take:
  assumes "rune_len s = k" "k \<noteq> 0"
  shows "rune_len (take k s @ t) = k \<and> k \<le> length s"
proof -
  obtain a r where s: "s = a # r" using assms by (cases s) auto
  consider "in_bytes 0 127 a" | "\<not> in_bytes 0 127 a" "in_bytes 194 223 a"
    | "\<not> in_bytes 0 127 a" "\<not> in_bytes 194 223 a" "in_bytes 224 239 a"
    | "\<not> in_bytes 0 127 a" "\<not> in_bytes 194 223 a" "\<not> in_bytes 224 239 a" "in_bytes 240 244 a"
    using assms s by (auto split: if_splits)
  then show ?thesis
  proof cases
    case 1
    then show ?thesis using assms by (auto simp: s)
  next
    case 2
    then show ?thesis using assms by (cases r) (auto simp: s split: if_splits)
  next
    case 3
    then show ?thesis using assms by (cases r; cases "tl r") (auto simp: s split: if_splits)
  next
    case 4
    then show ?thesis using assms by (cases r; cases "tl r"; cases "tl (tl r)") (auto simp: s split: if_splits)
  qed
qed

lemma rune_len_FFFD: "rune_len (U_FFFD @ t) = 3"
  by (simp add: U_FFFD_def in_bytes_def)

lemma json_text_rune: "rune_len s = k \<Longrightarrow> k \<noteq> 0 \<Longrightarrow> json_text (take k s @ t) = take k s @ json_text t"
proof -
  assume k: "rune_len s = k" "k \<noteq> 0"
  then obtain c r where s: "s = c # r" by (cases s) auto
  from rune_len_take [OF k, of t] have r: "rune_len (take k s @ t) = k" "k \<le> length s" by simp_all
  have "take k s @ t = c # (take (k - 1) r @ t)" using s k(2) by (cases k) auto
  then show ?thesis using r k(2) s by (cases k) auto
qed

lemma json_text_idem: "json_text (json_text s) = json_text s"
proof (induction s rule: json_text.induct)
  case (2 c s)
  show ?case
  proof (cases "rune_len (c # s) = 0")
    case True
    then have e: "json_text (c # s) = take 3 (U_FFFD @ []) @ json_text s" by (simp add: U_FFFD_def)
    show ?thesis unfolding e using json_text_rune [OF rune_len_FFFD [of "[]"], of "json_text s"] 2(1) [OF refl True] by simp
  next
    case False
    then have e: "json_text (c # s) = take (rune_len (c # s)) (c # s) @ json_text (drop (rune_len (c # s) - 1) s)" by (simp add: Let_def)
    show ?thesis unfolding e using json_text_rune [OF refl False] 2(2) [OF refl False] by metis
  qed
qed simp

lemma utf8_valid_text [simp]: "utf8_valid (json_text s)"
  by (simp add: utf8_valid_def json_text_idem)

definition keys_valid :: "kv_namespace \<Rightarrow> bool" where
  "keys_valid m \<longleftrightarrow> fmpred (\<lambda>k e. utf8_valid k) m"

lemma keys_valid_simps: "keys_valid fmempty" "keys_valid m \<Longrightarrow> utf8_valid k \<Longrightarrow> keys_valid (fmupd k e m)"
  "keys_valid m \<Longrightarrow> keys_valid (fmdrop k m)" "keys_valid m \<Longrightarrow> keys_valid (fmfilter P m)"
  by (auto simp: keys_valid_def fmpred_iff split: if_splits)

lemma kv_unmarshal_valid: "keys_valid (kv_unmarshal doc)"
proof -
  have "keys_valid acc \<Longrightarrow> keys_valid (fold (\<lambda>(k, e). fmupd (json_text k) e) doc acc)" for acc
    by (induction doc arbitrary: acc) (auto simp: keys_valid_simps split: prod.splits)
  then show ?thesis by (simp add: kv_unmarshal_def keys_valid_simps)
qed

lemma fold_fmupd_lookup:
  "distinct (map fst xs) \<Longrightarrow> fmlookup (fold (\<lambda>(k, e). fmupd k e) xs acc) k = (case map_of xs k of Some e \<Rightarrow> Some e | None \<Rightarrow> fmlookup acc k)"
proof (induction xs arbitrary: acc)
  case (Cons x xs)
  then show ?case by (cases x) (auto split: option.split dest: map_of_SomeD intro: rev_image_eqI)
qed simp

lemma kv_unmarshal_marshal:
  assumes "keys_valid m"
  shows "kv_unmarshal (kv_marshal m) = m"
proof -
  have "\<And>k e. (k, e) \<in> set (sorted_list_of_fmap m) \<Longrightarrow> json_text k = k"
    using assms by (auto simp: keys_valid_def fmpred_iff utf8_valid_def)
  then have "kv_marshal m = sorted_list_of_fmap m"
    "fold (\<lambda>(k, e). fmupd (json_text k) e) (sorted_list_of_fmap m) fmempty = fold (\<lambda>(k, e). fmupd k e) (sorted_list_of_fmap m) fmempty"
    unfolding kv_marshal_def by (auto intro!: map_idI fold_cong simp: split_beta)
  then have "kv_unmarshal (kv_marshal m) = fold (\<lambda>(k, e). fmupd k e) (sorted_list_of_fmap m) fmempty" by (simp add: kv_unmarshal_def)
  also have "\<dots> = m"
    by (rule fmap_ext) (simp add: fold_fmupd_lookup map_of_sorted_list_of_fmap sorted_list_of_fset.rep_eq split: option.split)
  finally show ?thesis .
qed

text \<open>What a load of the directory yields.\<close>

definition kv_loaded :: "kv_store \<Rightarrow> (string, kv_namespace) fmap" where
  "kv_loaded s = kv_load (sorted_list_of_fmap (kv_disk s)) fmempty"

definition kv_sync :: "kv_store \<Rightarrow> bool" where
  "kv_sync s \<longleftrightarrow> kv_ns s = kv_loaded s"

lemma kv_filename_iff: "has_suffix name ''.json'' \<Longrightarrow> trim_suffix name ''.json'' = ns \<longleftrightarrow> name = kv_filename ns"
  by (auto simp: has_suffix_def trim_suffix_def kv_filename_def) (metis append_take_drop_id)

lemma kv_load_lookup:
  "distinct (map fst des) \<Longrightarrow> fmlookup (kv_load des acc) ns = (case map_of des (kv_filename ns) of
     Some (KvDoc doc) \<Rightarrow> if validNamespace ns then Some (kv_unmarshal doc) else fmlookup acc ns | _ \<Rightarrow> fmlookup acc ns)"
proof (induction des arbitrary: acc)
  case (Cons x des)
  obtain name f where x: "x = (name, f)" by (cases x)
  have n: "name \<noteq> kv_filename ns \<or> map_of des (kv_filename ns) = None" using Cons.prems x by (auto simp: map_of_eq_None_iff)
  have j: "has_suffix (kv_filename ns) ''.json''" by (simp add: kv_filename_def)
  show ?case using Cons n j kv_filename_iff [of name ns]
    by (cases f) (auto simp: x Let_def split: option.splits kv_file.splits if_splits)
qed simp

lemma kv_loaded_lookup: "fmlookup (kv_loaded s) ns = (case fmlookup (kv_disk s) (kv_filename ns) of
     Some (KvDoc doc) \<Rightarrow> if validNamespace ns then Some (kv_unmarshal doc) else None | _ \<Rightarrow> None)"
  by (simp add: kv_loaded_def kv_load_lookup map_of_sorted_list_of_fmap sorted_list_of_fset.rep_eq split: option.split kv_file.split)

lemma kv_loaded_valid: "fmlookup (kv_loaded s) ns = Some m \<Longrightarrow> validNamespace ns \<and> keys_valid m"
  using kv_unmarshal_valid by (auto simp: kv_loaded_lookup split: option.splits kv_file.splits if_splits)

lemma kv_sync_map: "kv_sync s \<Longrightarrow> keys_valid (kv_map s ns)"
  using kv_loaded_valid [of s ns] by (auto simp: kv_sync_def kv_map_def keys_valid_simps split: option.split)

lemma kv_loaded_persist:
  assumes "validNamespace ns" "keys_valid (kv_map s ns)"
  shows "kv_loaded (snd (kv_persist True ns s)) = fmupd ns (kv_map s ns) (kv_loaded s)"
  by (rule fmap_ext) (use assms in \<open>auto simp: kv_loaded_lookup kv_persist_def kv_filename_def kv_unmarshal_marshal\<close>)

lemma kv_loaded_notify [simp]: "kv_loaded (kv_notifyMutate s) = kv_loaded s"
  by (simp add: kv_loaded_def)

lemma kv_sync_persist:
  assumes "kv_sync s" "validNamespace ns" "keys_valid m"
  shows "kv_sync (kv_notifyMutate (snd (kv_persist True ns (s\<lparr>kv_ns := fmupd ns m (kv_ns s)\<rparr>))))"
proof -
  let ?s = "s\<lparr>kv_ns := fmupd ns m (kv_ns s)\<rparr>"
  have "kv_map ?s ns = m" "kv_loaded ?s = kv_loaded s" by (simp_all add: kv_map_def kv_loaded_def)
  then have "kv_loaded (snd (kv_persist True ns ?s)) = fmupd ns m (kv_ns s)" using kv_loaded_persist [of ns ?s] assms by (simp add: kv_sync_def)
  then show ?thesis by (simp add: kv_sync_def) (simp add: kv_persist_def)
qed

lemma kv_exec_sync:
  assumes "kv_sync s" "utf8_valid (op_key op)"
  shows "kv_sync (kv_exec op ok s)"
proof (cases op)
  case (OpSet ns key v ttl now)
  then show ?thesis using assms kv_sync_map [of s ns]
    by (cases rule: kv_Set_cases [of ns key v ttl now ok s]) (auto simp: kv_put_def keys_valid_simps intro!: kv_sync_persist)
next
  case (OpDelete ns key)
  then show ?thesis using assms kv_sync_map [of s ns]
    by (cases rule: kv_Delete_cases [of ns key ok s]) (auto simp: keys_valid_simps intro!: kv_sync_persist)
next
  case (OpIncr ns key d ttl now)
  then show ?thesis using assms kv_sync_map [of s ns]
    by (cases rule: kv_Incr_cases [of ns key d ttl now ok s]) (auto simp: kv_put_def keys_valid_simps intro!: kv_sync_persist)
qed

lemma kv_exec_failed: "kv_exec op False s = s"
proof (cases op)
  case (OpSet ns key v ttl now)
  then show ?thesis by (cases rule: kv_Set_cases [of ns key v ttl now False s]) auto
next
  case (OpDelete ns key)
  then show ?thesis by (cases rule: kv_Delete_cases [of ns key False s]) auto
next
  case (OpIncr ns key d ttl now)
  then show ?thesis by (cases rule: kv_Incr_cases [of ns key d ttl now False s]) auto
qed

interpretation kvd: guarded_store kv_exec kv_sync "\<lambda>op. utf8_valid (op_key op)"
  by unfold_locales (simp_all add: kv_exec_sync kv_exec_failed)

lemma kv_exec_cfg [simp]: "kv_cfg (kv_exec op ok s) = kv_cfg s"
proof (cases op)
  case (OpSet ns key v ttl now)
  then show ?thesis by (cases rule: kv_Set_cases [of ns key v ttl now ok s]) (auto simp: kv_put_def kv_persist_def)
next
  case (OpDelete ns key)
  then show ?thesis by (cases rule: kv_Delete_cases [of ns key ok s]) (auto simp: kv_persist_def)
next
  case (OpIncr ns key d ttl now)
  then show ?thesis by (cases rule: kv_Incr_cases [of ns key d ttl now ok s]) (auto simp: kv_put_def kv_persist_def)
qed

lemma kv_New_sync: "kv_New dir cfg mk files = Inr s \<Longrightarrow> kv_sync s \<and> kv_cfg s = kv_defaults cfg \<and> dir \<noteq> []"
  by (auto simp: kv_New_def kv_sync_def kv_loaded_def split: if_splits option.splits)

lemma kv_run_cfg: "kv_cfg (kv_run ops s) = kv_cfg s"
  unfolding kv_run_def by (induction ops arbitrary: s) (auto simp: kv_exec_cfg split: prod.splits)


definition kv_example :: kv_store where
  "kv_example = \<lparr>kv_ns = fmempty, kv_disk = fmempty,
     kv_cfg = kv_defaults \<lparr>kv_MaxValueBytes = 0, kv_MaxNamespaces = 0, kv_SweepInterval = 0\<rparr>,
     kv_locks = fmempty, kv_notified = 0\<rparr>"

lemma kebab_h: "validNamespace ''h''"
  by (simp add: validNamespace_def kebab_def lower_alnum_def)

lemma kv_example_new: "kv_New ''d'' \<lparr>kv_MaxValueBytes = 0, kv_MaxNamespaces = 0, kv_SweepInterval = 0\<rparr> True (Some fmempty) = Inr kv_example"
  by (simp add: kv_New_def kv_example_def)


text \<open>Keys that are not valid UTF-8 can lose a value: the state API takes a key from the URL path as it
  is, two keys that differ only in an invalid byte are two keys in memory, and one member of the
  document each, with the same name; the next start reads them back as one.\<close>

definition odd_ops :: "(kv_op \<times> bool) list" where
  "odd_ops = [(OpSet ''h'' [char_of (254 :: nat)] ''a'' 0 5, True), (OpSet ''h'' [char_of (255 :: nat)] ''b'' 0 5, True)]"

theorem kv_invalid_keys_merge:
  "kv_Get (kv_run odd_ops kv_example) ''h'' [char_of (254 :: nat)] 7 = Some ''a'' \<and>
   kv_Get (kv_run odd_ops kv_example) ''h'' [char_of (255 :: nat)] 7 = Some ''b'' \<and>
   (case kv_New ''d'' \<lparr>kv_MaxValueBytes = 0, kv_MaxNamespaces = 0, kv_SweepInterval = 0\<rparr> True (Some (kv_disk (kv_run odd_ops kv_example))) of
      Inl e \<Rightarrow> False | Inr s' \<Rightarrow> kv_List s' ''h'' 7 = [U_FFFD] \<and> kv_Get s' ''h'' U_FFFD 7 = Some ''b'')"
  by code_simp

subsection \<open>What a read returns after a write\<close>

lemma kv_Get_map: "kv_Get s ns key now =
  (case fmlookup (kv_map s ns) key of None \<Rightarrow> None
   | Some e \<Rightarrow> if kv_expired e now then None else Some (kv_value e))"
  by (auto simp: kv_Get_def kv_map_def split: option.splits)

lemma kv_map_put: "kv_map (kv_notifyMutate (snd (kv_persist True ns (kv_put ns key e s)))) ns' =
  (if ns' = ns then fmupd key e (kv_map s ns) else kv_map s ns')"
  by (simp add: kv_write_defs)

text \<open>
  A successful Set is visible to every later Get of that key until its TTL has passed (with
  no TTL, for ever), and to nothing else: every other key and every other hook's namespace reads
  as before.
\<close>

theorem kv_Set_Get:
  assumes "kv_Set ns key value ttl now pok s = (Inr (), s')"
  shows "kv_Get s' ns' key' t =
    (if ns' = ns \<and> key' = key then (if ttl > 0 \<and> now + ttl \<le> t then None else Some value)
     else kv_Get s ns' key' t)"
  using assms
  by (cases rule: kv_Set_cases [of ns key "value" ttl now pok s])
    (auto simp: kv_Get_map kv_map_put kv_expired_def)

theorem kv_Set_Get_witness:
  "kv_Get (snd (kv_Set ''h'' ''k'' ''v'' 10 5 True kv_example)) ''h'' ''k'' 14 = Some ''v'' \<and>
   kv_Get (snd (kv_Set ''h'' ''k'' ''v'' 10 5 True kv_example)) ''h'' ''k'' 15 = None"
proof -
  have ok: "kv_Set ''h'' ''k'' ''v'' 10 5 True kv_example =
      (Inr (), snd (kv_Set ''h'' ''k'' ''v'' 10 5 True kv_example))"
    by (simp add: kv_Set_def kebab_h kv_example_def kv_defaults_def kv_persist_def Let_def)
  show ?thesis
    using kv_Set_Get [OF ok, of "''h''" "''k''" 14] kv_Set_Get [OF ok, of "''h''" "''k''" 15] by simp
qed

subsection \<open>Counters\<close>

definition kv_incrs :: "string \<Rightarrow> string \<Rightarrow> time \<Rightarrow> int list \<Rightarrow> kv_store \<Rightarrow> kv_store" where
  "kv_incrs ns key now ds s = fold (\<lambda>d s. snd (kv_Incr ns key d 0 now True s)) ds s"

text \<open>The namespace can take a write: it exists or there is room for it.\<close>

definition kv_room :: "kv_store \<Rightarrow> string \<Rightarrow> bool" where
  "kv_room s ns \<longleftrightarrow> validNamespace ns \<and>
     (fmlookup (kv_ns s) ns \<noteq> None \<or> fmlen (kv_ns s) < kv_MaxNamespaces (kv_cfg s))"

definition kv_counter :: "kv_store \<Rightarrow> string \<Rightarrow> string \<Rightarrow> time \<Rightarrow> int option" where
  "kv_counter s ns key now =
     (case kv_Get s ns key now of None \<Rightarrow> Some 0 | Some v \<Rightarrow> parse_int v)"

lemma kv_Incr_counter:
  assumes "kv_room s ns" "kv_counter s ns key now = Some n"
  shows "fst (kv_Incr ns key d 0 now True s) = Inr (wrap64 (n + d))
    \<and> kv_Get (snd (kv_Incr ns key d 0 now True s)) ns key now = Some (append_int (wrap64 (n + d)))
    \<and> kv_room (snd (kv_Incr ns key d 0 now True s)) ns"
proof -
  define prev where "prev = fmlookup (kv_map s ns) key"
  define base where "base = (case prev of
      Some e \<Rightarrow> if kv_expired e now then Some (0, None)
               else map_option (\<lambda>n. (n, kv_expires e)) (parse_int (kv_value e))
    | None \<Rightarrow> Some (0, None))"
  from assms(2) obtain k where b: "base = Some (n, k)" "\<not> kv_expired \<lparr>kv_value = v, kv_expires = k\<rparr> now" for v
    by (auto simp: kv_counter_def kv_Get_map base_def prev_def [symmetric] kv_expired_def
        split: option.splits if_splits)
  have inc: "kv_Incr ns key d 0 now True s = (Inr (wrap64 (n + d)), kv_notifyMutate (snd (kv_persist True ns
      (kv_put ns key \<lparr>kv_value = append_int (wrap64 (n + d)), kv_expires = k\<rparr> s))))"
    using assms(1) b(1)
    by (auto simp: kv_Incr_def kv_room_def Let_def prev_def [symmetric] base_def [symmetric] kv_persist_def)
  show ?thesis unfolding inc using assms(1) b(2)
    by (simp add: kv_Get_map kv_map_put kv_room_def) (simp add: kv_write_defs)
qed

text \<open>
  Incr is an atomic counter: starting from a key that is absent, expired or holds the decimal
  text of an int64 \<open>n\<close>, any number of increments by \<open>d1, \<dots>, dk\<close> leaves the decimal text of
  \<open>n + d1 + \<dots> + dk\<close> reduced to 64 bits, so no increment is lost and overflow wraps as Go's
  int64 addition does.
\<close>

theorem kv_Incr_sum:
  assumes "kv_room s ns" "kv_counter s ns key now = Some n" "ds \<noteq> []"
  shows "kv_Get (kv_incrs ns key now ds s) ns key now = Some (append_int (wrap64 (n + sum_list ds)))"
  using assms
proof (induction ds arbitrary: s n)
  case (Cons d ds)
  let ?s = "snd (kv_Incr ns key d 0 now True s)"
  have get: "kv_Get ?s ns key now = Some (append_int (wrap64 (n + d)))" and room: "kv_room ?s ns"
    using kv_Incr_counter [OF Cons.prems(1,2), of d] by auto
  show ?case
  proof (cases "ds = []")
    case True
    with get show ?thesis by (simp add: kv_incrs_def)
  next
    case False
    have "kv_counter ?s ns key now = Some (wrap64 (n + d))"
      by (simp add: kv_counter_def get parse_append_int)
    from Cons.IH [OF room this False] show ?thesis
      by (simp add: kv_incrs_def wrap64_add add.assoc)
  qed
qed simp

theorem kv_Incr_sum_witness:
  "kv_Get (kv_incrs ''h'' ''c'' 5 [9223372036854775807, 2] kv_example) ''h'' ''c'' 5
   = Some (append_int (- 9223372036854775807))"
proof -
  have "kv_room kv_example ''h''"
    by (simp add: kv_room_def kebab_h kv_example_def kv_defaults_def)
  moreover have "kv_counter kv_example ''h'' ''c'' 5 = Some 0"
    by (simp add: kv_counter_def kv_Get_def kv_example_def)
  ultimately show ?thesis
    using kv_Incr_sum [of kv_example "''h''" "''c''" 5 0 "[9223372036854775807, 2]"]
    by (simp add: wrap64_def)
qed

subsection \<open>Bounds\<close>

definition kv_bounded :: "kv_store \<Rightarrow> bool" where
  "kv_bounded s \<longleftrightarrow> fmlen (kv_ns s) \<le> kv_MaxNamespaces (kv_cfg s) \<and>
     (\<forall>ns key e. fmlookup (kv_map s ns) key = Some e \<longrightarrow>
        int (length (kv_value e)) \<le> kv_MaxValueBytes (kv_cfg s))"

lemma kv_cfg_persist [simp]: "kv_cfg (snd (kv_persist ok ns s)) = kv_cfg s"
  "kv_ns (snd (kv_persist ok ns s)) = kv_ns s" "kv_locks (snd (kv_persist ok ns s)) = kv_locks s"
  by (simp_all add: kv_persist_def)

lemma kv_bounded_put:
  assumes "kv_bounded s" "int (length (kv_value e)) \<le> kv_MaxValueBytes (kv_cfg s)"
    and "fmlookup (kv_ns s) ns \<noteq> None \<or> fmlen (kv_ns s) < kv_MaxNamespaces (kv_cfg s)"
  shows "kv_bounded (kv_notifyMutate (snd (kv_persist True ns (kv_put ns key e s))))"
proof -
  have "fmlen (fmupd ns x (kv_ns s)) \<le> kv_MaxNamespaces (kv_cfg s)" for x
    using assms(1,3) by (auto simp: fmlen_upd kv_bounded_def fmlookup_dom_iff)
  with assms show ?thesis
    by (auto simp: kv_bounded_def kv_map_put) (auto simp: kv_put_def)
qed

lemma kv_exec_bounded:
  assumes "kv_bounded s" "20 \<le> kv_MaxValueBytes (kv_cfg s)"
  shows "kv_bounded (kv_exec op ok s)"
proof (cases op)
  case (OpSet ns key v ttl now)
  then show ?thesis using assms(1)
    by (cases rule: kv_Set_cases [of ns key v ttl now ok s]) (auto intro!: kv_bounded_put)
next
  case (OpDelete ns key)
  show ?thesis
  proof (cases rule: kv_Delete_cases [of ns key ok s])
    case stored
    then have "kv_bounded (s\<lparr>kv_ns := fmupd ns (fmdrop key (kv_map s ns)) (kv_ns s)\<rparr>)"
      using assms(1) by (auto simp: kv_bounded_def kv_map_def fmlen_upd fmlookup_dom_iff split: if_splits)
    with OpDelete stored show ?thesis by (simp add: kv_bounded_def kv_map_def)
  qed (use OpDelete assms in auto)
next
  case (OpIncr ns key d ttl now)
  show ?thesis
  proof (cases rule: kv_Incr_cases [of ns key d ttl now ok s])
    case (stored n e)
    from length_append_int [OF wrap64_range, of "n + d"] stored(4) assms(2)
    have "int (length (kv_value e)) \<le> kv_MaxValueBytes (kv_cfg s)" by simp
    with OpIncr stored assms(1) show ?thesis by (auto intro!: kv_bounded_put)
  qed (use OpIncr assms in auto)
qed

text \<open>
  The store stays bounded: from a bounded store, no sequence of operations makes it hold more
  namespaces than configured or a value longer than the per-value ceiling, provided the ceiling
  admits the 20 bytes of the longest int64 (the counter path does not check the ceiling).
\<close>

theorem kv_run_bounded:
  assumes "kv_bounded s" "20 \<le> kv_MaxValueBytes (kv_cfg s)"
  shows "kv_bounded (kv_run ops s)"
  using assms
proof (induction ops arbitrary: s)
  case (Cons x ops)
  then show ?case by (cases x) (auto simp: kv_run_def kv_exec_bounded)
qed (simp add: kv_run_def)

theorem kv_run_bounded_witness:
  "kv_bounded (kv_run [(OpSet ''h'' ''k'' ''v'' 0 5, True), (OpIncr ''h'' ''c'' 3 0 6, True)] kv_example)"
proof -
  have "kv_bounded kv_example" "20 \<le> kv_MaxValueBytes (kv_cfg kv_example)"
    by (simp_all add: kv_bounded_def kv_example_def kv_defaults_def kv_map_def)
  then show ?thesis by (rule kv_run_bounded)
qed

subsection \<open>Listing and the sweeper\<close>

lemma sorted_filter_fmap:
  "sorted (map fst (filter P (sorted_list_of_fmap m))) \<and> distinct (map fst (filter P (sorted_list_of_fmap m)))"
proof -
  have "sorted (map fst (sorted_list_of_fmap m))" "distinct (map fst (sorted_list_of_fmap m))"
    by (simp_all add: sorted_list_of_fset.rep_eq)
  then show ?thesis by (auto simp: sorted_filter distinct_map_filter)
qed

text \<open>
  List agrees with Get: it returns, in strictly increasing byte order, exactly the keys that
  a Get at the same moment finds.
\<close>

theorem kv_List_Get:
  "sorted (kv_List s ns now) \<and> distinct (kv_List s ns now)
   \<and> set (kv_List s ns now) = {key. kv_Get s ns key now \<noteq> None}"
proof (cases "fmlookup (kv_ns s) ns")
  case None
  then show ?thesis by (simp add: kv_List_def kv_Get_def)
next
  case (Some m)
  have "set (kv_List s ns now) = {key. kv_Get s ns key now \<noteq> None}"
    by (force simp: kv_List_def kv_Get_def Some split: option.splits)
  with sorted_filter_fmap [of "\<lambda>(k, e). \<not> kv_expired e now" m] show ?thesis
    by (simp add: kv_List_def Some)
qed

definition kv_live :: "time \<Rightarrow> kv_namespace \<Rightarrow> kv_namespace" where
  "kv_live now m = fmfilter (\<lambda>k. case fmlookup m k of None \<Rightarrow> True | Some e \<Rightarrow> \<not> kv_expired e now) m"

lemma kv_live_lookup: "fmlookup (kv_live now m) k =
  (case fmlookup m k of None \<Rightarrow> None | Some e \<Rightarrow> if kv_expired e now then None else Some e)"
  by (auto simp: kv_live_def split: option.splits)

lemma kv_sweep_ns_lookup:
  assumes "fmlookup (kv_ns s) ns \<noteq> None" "fmlookup (kv_loaded s) ns = fmlookup (kv_ns s) ns"
  shows "fmlookup (kv_ns (snd (kv_sweep_ns now pok ns (r, s)))) ns' =
      (if ns' = ns then map_option (kv_live now) (fmlookup (kv_ns s) ns) else fmlookup (kv_ns s) ns')"
    and "fmlookup (kv_loaded (snd (kv_sweep_ns now pok ns (r, s)))) ns' =
      (if ns' = ns \<and> pok ns \<and> kv_live now (kv_map s ns) \<noteq> kv_map s ns
       then Some (kv_live now (kv_map s ns)) else fmlookup (kv_loaded s) ns')"
proof -
  obtain m where m: "fmlookup (kv_ns s) ns = Some m" "validNamespace ns" "keys_valid m"
    using assms kv_loaded_valid [of s ns] by auto
  let ?s = "s\<lparr>kv_ns := fmupd ns (kv_live now m) (kv_ns s)\<rparr>"
  have km: "kv_map s ns = m" "kv_map ?s ns = kv_live now m" using m by (simp_all add: kv_map_def)
  have sw: "kv_sweep_ns now pok ns (r, s) = (if kv_live now m = m then (r, s) else (True, snd (kv_persist (pok ns) ns ?s)))"
    unfolding kv_sweep_ns_def Let_def split_conv km kv_live_def [symmetric] ..
  show "fmlookup (kv_ns (snd (kv_sweep_ns now pok ns (r, s)))) ns' =
      (if ns' = ns then map_option (kv_live now) (fmlookup (kv_ns s) ns) else fmlookup (kv_ns s) ns')"
    using m(1) by (auto simp: sw kv_persist_def)
  have "keys_valid (kv_live now m)" using m(3) by (simp add: kv_live_def keys_valid_simps)
  then have "kv_loaded (snd (kv_persist True ns ?s)) = fmupd ns (kv_live now m) (kv_loaded ?s)"
    using kv_loaded_persist [OF m(2), of ?s] by (simp add: km)
  then show "fmlookup (kv_loaded (snd (kv_sweep_ns now pok ns (r, s)))) ns' =
      (if ns' = ns \<and> pok ns \<and> kv_live now (kv_map s ns) \<noteq> kv_map s ns
       then Some (kv_live now (kv_map s ns)) else fmlookup (kv_loaded s) ns')"
    using assms(2) m(1) by (cases "pok ns") (auto simp: sw km kv_loaded_def kv_persist_def)
qed

lemma kv_expired_mono: "kv_expired e now \<Longrightarrow> now \<le> t \<Longrightarrow> kv_expired e t"
  by (auto simp: kv_expired_def split: option.splits)

text \<open>What a set of namespaces answers to a Get, from memory or from disk.\<close>

definition ns_get :: "(string, kv_namespace) fmap \<Rightarrow> string \<Rightarrow> string \<Rightarrow> time \<Rightarrow> string option" where
  "ns_get f ns key t = (case fmlookup f ns of None \<Rightarrow> None
     | Some m \<Rightarrow> (case fmlookup m key of None \<Rightarrow> None
         | Some e \<Rightarrow> if kv_expired e t then None else Some (kv_value e)))"

lemma ns_get_live: "now \<le> t \<Longrightarrow> fmlookup f ns = Some m \<Longrightarrow> fmlookup g ns = Some (kv_live now m) \<Longrightarrow>
  ns_get g ns key t = ns_get f ns key t"
  by (auto simp: ns_get_def kv_live_lookup dest: kv_expired_mono split: option.splits)

lemma kv_sweep_ns_get:
  assumes "fmlookup (kv_ns s) ns \<noteq> None" "fmlookup (kv_loaded s) ns = fmlookup (kv_ns s) ns"
    and "now \<le> t"
  shows "ns_get (kv_ns (snd (kv_sweep_ns now pok ns (r, s)))) ns' key t = ns_get (kv_ns s) ns' key t"
    and "ns_get (kv_loaded (snd (kv_sweep_ns now pok ns (r, s)))) ns' key t = ns_get (kv_loaded s) ns' key t"
proof -
  note lk = kv_sweep_ns_lookup [OF assms(1,2), of now pok r]
  obtain m where m: "fmlookup (kv_ns s) ns = Some m" using assms(1) by auto
  show "ns_get (kv_ns (snd (kv_sweep_ns now pok ns (r, s)))) ns' key t = ns_get (kv_ns s) ns' key t"
  proof (cases "ns' = ns")
    case True
    with m lk(1) [of ns] ns_get_live [OF assms(3) m] show ?thesis by simp
  next
    case False
    with lk(1) [of ns'] show ?thesis by (simp add: ns_get_def)
  qed
  show "ns_get (kv_loaded (snd (kv_sweep_ns now pok ns (r, s)))) ns' key t = ns_get (kv_loaded s) ns' key t"
  proof (cases "ns' = ns \<and> pok ns \<and> kv_live now (kv_map s ns) \<noteq> kv_map s ns")
    case True
    with assms(2) m have d: "fmlookup (kv_loaded s) ns = Some m" by auto
    from True m lk(2) [of ns] have
      "fmlookup (kv_loaded (snd (kv_sweep_ns now pok ns (r, s)))) ns = Some (kv_live now m)"
      by (simp add: kv_map_def)
    with True ns_get_live [OF assms(3) d] show ?thesis by simp
  next
    case False
    with lk(2) [of ns'] show ?thesis unfolding ns_get_def by simp
  qed
qed

lemma kv_sweep_fold:
  assumes "distinct xs" "\<forall>ns\<in>set xs. fmlookup (kv_ns s) ns \<noteq> None \<and> fmlookup (kv_loaded s) ns = fmlookup (kv_ns s) ns"
    and "now \<le> t"
  shows "ns_get (kv_ns (snd (fold (kv_sweep_ns now pok) xs (r, s)))) ns' key t = ns_get (kv_ns s) ns' key t
    \<and> ns_get (kv_loaded (snd (fold (kv_sweep_ns now pok) xs (r, s)))) ns' key t = ns_get (kv_loaded s) ns' key t
    \<and> (ns' \<in> set xs \<longrightarrow> fmlookup (kv_ns (snd (fold (kv_sweep_ns now pok) xs (r, s)))) ns' =
         map_option (kv_live now) (fmlookup (kv_ns s) ns'))
    \<and> (ns' \<notin> set xs \<longrightarrow> fmlookup (kv_ns (snd (fold (kv_sweep_ns now pok) xs (r, s)))) ns' = fmlookup (kv_ns s) ns')"
  using assms(1,2)
proof (induction xs arbitrary: r s)
  case (Cons x xs)
  obtain r' s' where rs: "kv_sweep_ns now pok x (r, s) = (r', s')" by force
  have x: "fmlookup (kv_ns s) x \<noteq> None" "fmlookup (kv_loaded s) x = fmlookup (kv_ns s) x"
    using Cons.prems by auto
  note lk = kv_sweep_ns_lookup [OF x, of now pok r, unfolded rs snd_conv]
  note get = kv_sweep_ns_get [OF x assms(3), where r = r and pok = pok, unfolded rs snd_conv]
  have "\<forall>ns\<in>set xs. fmlookup (kv_ns s') ns \<noteq> None \<and> fmlookup (kv_loaded s') ns = fmlookup (kv_ns s') ns"
    using Cons.prems lk by auto
  from Cons.IH [OF _ this, of r'] Cons.prems(1) show ?case
    using get lk Cons.prems by (auto simp: rs)
qed simp

text \<open>
  The sweeper is invisible to readers, whether or not its file writes succeed: at the time of
  the sweep and later, every Get answers as it would have without the sweep, also from the store
  a restart would load; and afterwards no entry that had expired is left in memory.
\<close>

theorem kv_sweep_invisible:
  assumes "kv_sync s" "now \<le> t" "kv_New dir cfg True (Some (kv_disk (kv_sweep_entries now pok s))) = Inr s'"
  shows "kv_Get (kv_sweep_entries now pok s) ns key t = kv_Get s ns key t
    \<and> kv_Get s' ns key t = kv_Get s ns key t
    \<and> (\<forall>e. fmlookup (kv_map (kv_sweep_entries now pok s) ns) key = Some e \<longrightarrow> \<not> kv_expired e now)"
proof -
  let ?xs = "sorted_list_of_fset (fmdom (kv_ns s))"
  let ?f = "fold (kv_sweep_ns now pok) ?xs (False, s)"
  have "distinct ?xs" by (simp add: sorted_list_of_fset.rep_eq)
  moreover have "\<forall>ns\<in>set ?xs. fmlookup (kv_ns s) ns \<noteq> None \<and> fmlookup (kv_loaded s) ns = fmlookup (kv_ns s) ns"
    using assms(1) by (auto simp: fmlookup_dom_iff kv_sync_def)
  ultimately have F: "ns_get (kv_ns (snd ?f)) ns key t = ns_get (kv_ns s) ns key t"
      "ns_get (kv_loaded (snd ?f)) ns key t = ns_get (kv_loaded s) ns key t"
      "fmlookup (kv_ns (snd ?f)) ns = map_option (kv_live now) (fmlookup (kv_ns s) ns)"
    using kv_sweep_fold [of ?xs s now t pok False ns key] assms(2) by (auto simp: fmlookup_dom_iff)
  have sw: "kv_ns (kv_sweep_entries now pok s) = kv_ns (snd ?f)"
      "kv_loaded (kv_sweep_entries now pok s) = kv_loaded (snd ?f)"
    by (simp_all add: kv_sweep_entries_def split: prod.splits)
  have n: "kv_ns s' = kv_loaded (kv_sweep_entries now pok s)"
    using assms(3) by (auto simp: kv_New_def kv_loaded_def split: if_splits)
  have g: "kv_Get u ns key t = ns_get (kv_ns u) ns key t" for u by (simp add: kv_Get_def ns_get_def)
  show ?thesis
    using F sw n assms(1) unfolding g kv_sync_def
    by (auto simp: kv_map_def kv_live_lookup split: option.splits if_splits)
qed

definition kv_example2 :: kv_store where
  "kv_example2 = (let m = [(''k'', \<lparr>kv_value = ''v'', kv_expires = Some 6\<rparr>), (''l'', \<lparr>kv_value = ''w'', kv_expires = None\<rparr>)]
     in kv_example\<lparr>kv_ns := fmupd ''h'' (kv_unmarshal m) fmempty, kv_disk := fmupd (kv_filename ''h'') (KvDoc m) fmempty\<rparr>)"

theorem kv_sweep_invisible_witness:
  "kv_Get (kv_sweep_entries 7 (\<lambda>_. False) kv_example2) ''h'' ''l'' 9 = Some ''w'' \<and>
   fmlookup (kv_map kv_example2 ''h'') ''k'' \<noteq> None \<and>
   fmlookup (kv_map (kv_sweep_entries 7 (\<lambda>_. False) kv_example2) ''h'') ''k''
     \<noteq> Some \<lparr>kv_value = ''v'', kv_expires = Some 6\<rparr>"
proof -
  have s: "kv_sync kv_example2" unfolding kv_sync_def
    by (rule fmap_ext) (auto simp: kv_loaded_lookup kv_example2_def kv_filename_def kebab_h Let_def)
  have l: "kv_Get kv_example2 ''h'' ''l'' 9 = Some ''w''" "fmlookup (kv_map kv_example2 ''h'') ''k'' \<noteq> None"
    by (simp_all add: kv_example2_def kv_Get_def kv_map_def kv_expired_def Let_def kv_unmarshal_def in_bytes_def)
  have x: "kv_expired \<lparr>kv_value = ''v'', kv_expires = Some 6\<rparr> 7" by (simp add: kv_expired_def)
  let ?cfg = "\<lparr>kv_MaxValueBytes = 0, kv_MaxNamespaces = 0, kv_SweepInterval = 0\<rparr>"
  obtain s' where n: "kv_New ''d'' ?cfg True (Some (kv_disk (kv_sweep_entries 7 (\<lambda>_. False) kv_example2))) = Inr s'" by (simp add: kv_New_def)
  from kv_sweep_invisible [OF s _ n, of 9 "''h''" "''l''"] kv_sweep_invisible [OF s _ n, of 9 "''h''" "''k''"] l x show ?thesis by auto
qed

end
