(* ===== verification/KvLock.thy ===== *)
theory KvLock
  imports KvStore
begin

text \<open>
  Model of \<^verbatim>\<open>internal/kv/lock.go\<close>: cooperative per-key locks owned by run instances.  The table is
  memory-only; every operation below is atomic under the store's lock mutex.  The zero
  \<open>LockInfo{}\<close> of the source is \<open>None\<close>.

  The lemmas give every outcome of an acquire and show who may end a hold: the holder itself,
  the end of the holder's run, a steal that no live pin forbids, or the reaping of an expired
  hold; the passing of time alone frees nothing.
\<close>

record lock_info =
  li_RunID :: string
  li_HookID :: string
  li_AcquiredAt :: time
  li_ExpiresAt :: time
  li_Pinned :: bool

definition DefaultLockTTL :: duration where
  "DefaultLockTTL = 15 * Minute"

definition le_expired :: "kv_lock_entry \<Rightarrow> time \<Rightarrow> bool" where
  "le_expired l now \<longleftrightarrow> \<not> le_expiresAt l > now"

definition le_info :: "kv_lock_entry \<Rightarrow> string \<Rightarrow> lock_info" where
  "le_info e ns = \<lparr>li_RunID = le_runID e, li_HookID = ns, li_AcquiredAt = le_acquiredAt e,
     li_ExpiresAt = le_expiresAt e, li_Pinned = le_pinned e\<rparr>"

definition lockTTL :: "duration \<Rightarrow> duration" where
  "lockTTL ttl = (if ttl \<le> 0 then DefaultLockTTL else ttl)"

definition lock_map :: "kv_store \<Rightarrow> string \<Rightarrow> (string, kv_lock_entry) fmap" where
  "lock_map s ns = (case fmlookup (kv_locks s) ns of None \<Rightarrow> fmempty | Some m \<Rightarrow> m)"

definition lock_put :: "string \<Rightarrow> string \<Rightarrow> kv_lock_entry \<Rightarrow> kv_store \<Rightarrow> kv_store" where
  "lock_put ns key e s = s\<lparr>kv_locks := fmupd ns (fmupd key e (lock_map s ns)) (kv_locks s)\<rparr>"

type_synonym take_result = "lock_info option \<times> lock_info option \<times> kv_error option"

definition takeLockLocked :: "string \<Rightarrow> string \<Rightarrow> string \<Rightarrow> duration \<Rightarrow> bool \<Rightarrow> bool \<Rightarrow> time \<Rightarrow> kv_store \<Rightarrow> take_result \<times> kv_store" where
  "takeLockLocked ns key runID ttl steal pin now s =
     (let m = lock_map s ns;
          prev = fmlookup m key;
          checked =
            (if fmlookup (kv_locks s) ns \<noteq> None then
               (case prev of
                  Some p \<Rightarrow>
                    if le_runID p = runID then Inr None
                    else if \<not> steal \<and> le_expired p now then Inl (Some (le_info p ns), ErrLockExpired)
                    else if \<not> steal then Inl (Some (le_info p ns), ErrLockHeld)
                    else if le_pinned p \<and> \<not> le_expired p now then Inl (Some (le_info p ns), ErrLockPinned)
                    else Inr (Some (le_info p ns))
                | None \<Rightarrow> Inr None)
             else if fmlen (kv_locks s) \<ge> kv_MaxNamespaces (kv_cfg s) then Inl (None, ErrTooManyNS)
             else Inr None)
      in case checked of
           Inl (info, err) \<Rightarrow> ((info, None, Some err), s)
         | Inr displaced \<Rightarrow>
             let e = (case prev of
                        Some p \<Rightarrow> if le_runID p = runID
                          then \<lparr>le_runID = runID, le_acquiredAt = le_acquiredAt p,
                                le_expiresAt = now + ttl, le_pinned = (pin \<or> le_pinned p)\<rparr>
                          else \<lparr>le_runID = runID, le_acquiredAt = now, le_expiresAt = now + ttl, le_pinned = pin\<rparr>
                      | None \<Rightarrow> \<lparr>le_runID = runID, le_acquiredAt = now, le_expiresAt = now + ttl, le_pinned = pin\<rparr>)
             in ((Some (le_info e ns), displaced, None), lock_put ns key e s))"

definition AcquireLock :: "string \<Rightarrow> string \<Rightarrow> string \<Rightarrow> duration \<Rightarrow> time \<Rightarrow> kv_store \<Rightarrow> take_result \<times> kv_store" where
  "AcquireLock ns key runID ttl now s =
     (if \<not> validNamespace ns then ((None, None, Some ErrBadNamespace), s)
      else if runID = [] then ((None, None, Some ErrNoRunID), s)
      else takeLockLocked ns key runID (lockTTL ttl) False False now s)"

definition AcquireLockPinned :: "string \<Rightarrow> string \<Rightarrow> string \<Rightarrow> duration \<Rightarrow> time \<Rightarrow> kv_store \<Rightarrow> take_result \<times> kv_store" where
  "AcquireLockPinned ns key runID ttl now s =
     (if \<not> validNamespace ns then ((None, None, Some ErrBadNamespace), s)
      else if runID = [] then ((None, None, Some ErrNoRunID), s)
      else takeLockLocked ns key runID (lockTTL ttl) False True now s)"

definition StealLock :: "string \<Rightarrow> string \<Rightarrow> string \<Rightarrow> duration \<Rightarrow> time \<Rightarrow> kv_store \<Rightarrow> take_result \<times> kv_store" where
  "StealLock ns key runID ttl now s =
     (if \<not> validNamespace ns then ((None, None, Some ErrBadNamespace), s)
      else if runID = [] then ((None, None, Some ErrNoRunID), s)
      else takeLockLocked ns key runID (lockTTL ttl) True False now s)"

definition setPinLocked :: "string \<Rightarrow> string \<Rightarrow> string \<Rightarrow> bool \<Rightarrow> kv_store \<Rightarrow> kv_error option \<times> kv_store" where
  "setPinLocked ns key runID pinned s =
     (if \<not> validNamespace ns then (Some ErrBadNamespace, s)
      else case fmlookup (kv_locks s) ns of None \<Rightarrow> (Some ErrLockNotHeld, s)
        | Some m \<Rightarrow> (case fmlookup m key of None \<Rightarrow> (Some ErrLockNotHeld, s)
            | Some prev \<Rightarrow>
                if le_runID prev \<noteq> runID then (Some ErrLockHeld, s)
                else (None, s\<lparr>kv_locks := fmupd ns (fmupd key (prev\<lparr>le_pinned := pinned\<rparr>) m) (kv_locks s)\<rparr>)))"

definition PinLock :: "string \<Rightarrow> string \<Rightarrow> string \<Rightarrow> kv_store \<Rightarrow> kv_error option \<times> kv_store" where
  "PinLock ns key runID s = setPinLocked ns key runID True s"

definition UnpinLock :: "string \<Rightarrow> string \<Rightarrow> string \<Rightarrow> kv_store \<Rightarrow> kv_error option \<times> kv_store" where
  "UnpinLock ns key runID s = setPinLocked ns key runID False s"

definition ReleaseLock :: "string \<Rightarrow> string \<Rightarrow> string \<Rightarrow> kv_store \<Rightarrow> kv_error option \<times> kv_store" where
  "ReleaseLock ns key runID s =
     (if \<not> validNamespace ns then (Some ErrBadNamespace, s)
      else case fmlookup (kv_locks s) ns of None \<Rightarrow> (Some ErrLockNotHeld, s)
        | Some m \<Rightarrow> (case fmlookup m key of None \<Rightarrow> (Some ErrLockNotHeld, s)
            | Some prev \<Rightarrow>
                if le_runID prev \<noteq> runID then (Some ErrLockHeld, s)
                else (None, s\<lparr>kv_locks := fmupd ns (fmdrop key m) (kv_locks s)\<rparr>)))"

definition ReapExpiredLock :: "string \<Rightarrow> string \<Rightarrow> string \<Rightarrow> time \<Rightarrow> kv_store \<Rightarrow> bool \<times> kv_store" where
  "ReapExpiredLock ns key holderRunID now s =
     (case fmlookup (kv_locks s) ns of None \<Rightarrow> (False, s)
      | Some m \<Rightarrow> (case fmlookup m key of None \<Rightarrow> (False, s)
          | Some prev \<Rightarrow>
              if le_runID prev \<noteq> holderRunID \<or> \<not> le_expired prev now then (False, s)
              else let m' = fmdrop key m
                   in (True, s\<lparr>kv_locks := (if m' = fmempty then fmdrop ns (kv_locks s)
                                            else fmupd ns m' (kv_locks s))\<rparr>)))"

text \<open>The loop shared by \<open>ReleaseRunLocks\<close> and \<open>reapExpiredLocks\<close>: drop the entries that satisfy
  the predicate, then every namespace left empty.\<close>

definition drop_locks :: "(kv_lock_entry \<Rightarrow> bool) \<Rightarrow> kv_store \<Rightarrow> kv_store" where
  "drop_locks P s =
     (let kept = fmmap (\<lambda>m. fmfilter (\<lambda>k. case fmlookup m k of None \<Rightarrow> True | Some e \<Rightarrow> \<not> P e) m) (kv_locks s)
      in s\<lparr>kv_locks := fmfilter (\<lambda>ns. fmlookup kept ns \<noteq> Some fmempty) kept\<rparr>)"

definition ReleaseRunLocks :: "string \<Rightarrow> kv_store \<Rightarrow> nat \<times> kv_store" where
  "ReleaseRunLocks runID s =
     (if runID = [] then (0, s)
      else (sum_list (map (\<lambda>(ns, m). length (filter (\<lambda>(k, e). le_runID e = runID) (sorted_list_of_fmap m)))
              (sorted_list_of_fmap (kv_locks s))),
            drop_locks (\<lambda>e. le_runID e = runID) s))"

definition reapExpiredLocks :: "(string \<Rightarrow> bool) option \<Rightarrow> time \<Rightarrow> kv_store \<Rightarrow> kv_store" where
  "reapExpiredLocks runLive now s =
     (case runLive of None \<Rightarrow> s
      | Some live \<Rightarrow> drop_locks (\<lambda>e. le_expired e now \<and> \<not> live (le_runID e)) s)"

definition kv_sweep :: "(string \<Rightarrow> bool) option \<Rightarrow> time \<Rightarrow> (string \<Rightarrow> bool) \<Rightarrow> kv_store \<Rightarrow> kv_store" where
  "kv_sweep runLive now pok s = kv_sweep_entries now pok (reapExpiredLocks runLive now s)"

subsection \<open>The lock at a key\<close>

definition lock_at :: "kv_store \<Rightarrow> string \<Rightarrow> string \<Rightarrow> kv_lock_entry option" where
  "lock_at s ns key = fmlookup (lock_map s ns) key"

lemma lock_at_def2: "lock_at s ns key = Option.bind (fmlookup (kv_locks s) ns) (\<lambda>m. fmlookup m key)"
  by (auto simp: lock_at_def lock_map_def split: option.splits)

lemma lock_at_drop [simp]: "lock_at (drop_locks P s) ns key =
  (case lock_at s ns key of None \<Rightarrow> None | Some e \<Rightarrow> if P e then None else Some e)"
proof (cases "fmlookup (kv_locks s) ns")
  case None
  then show ?thesis by (simp add: lock_at_def2 drop_locks_def Let_def)
next
  case (Some m)
  let ?m = "fmfilter (\<lambda>k. case fmlookup m k of None \<Rightarrow> True | Some e \<Rightarrow> \<not> P e) m"
  have "lock_at (drop_locks P s) ns key = (if ?m = fmempty then None else fmlookup ?m key)"
    by (simp add: lock_at_def2 drop_locks_def Let_def Some)
  also have "\<dots> = fmlookup ?m key" by (simp del: fmlookup_filter)
  also have "\<dots> = (case lock_at s ns key of None \<Rightarrow> None | Some e \<Rightarrow> if P e then None else Some e)"
    by (auto simp: lock_at_def2 Some split: option.splits)
  finally show ?thesis .
qed

lemma lock_at_put [simp]: "lock_at (lock_put ns key e s) ns' key' =
  (if ns' = ns \<and> key' = key then Some e else lock_at s ns' key')"
  by (auto simp: lock_at_def lock_put_def lock_map_def split: option.splits)

lemma lock_put_alt: "fmlookup (kv_locks s) ns = Some m \<Longrightarrow>
  s\<lparr>kv_locks := fmupd ns (fmupd key e m) (kv_locks s)\<rparr> = lock_put ns key e s"
  by (simp add: lock_put_def lock_map_def)

lemma setPin_at: "lock_at (snd (setPinLocked ns key runID b s)) ns' key' =
  (if ns' = ns \<and> key' = key \<and> validNamespace ns
   then map_option (\<lambda>p. if le_runID p = runID then p\<lparr>le_pinned := b\<rparr> else p) (lock_at s ns key)
   else lock_at s ns' key')"
  by (auto simp: setPinLocked_def lock_put_alt lock_at_def2 [of s] split: option.splits)

lemma release_at: "lock_at (snd (ReleaseLock ns key runID s)) ns' key' =
  (if ns' = ns \<and> key' = key \<and> validNamespace ns
   then (case lock_at s ns key of None \<Rightarrow> None | Some p \<Rightarrow> if le_runID p = runID then None else Some p)
   else lock_at s ns' key')"
  by (auto simp: ReleaseLock_def lock_at_def2 split: option.splits)

lemma reap_at: "lock_at (snd (ReapExpiredLock ns key runID now s)) ns' key' =
  (if ns' = ns \<and> key' = key
   then (case lock_at s ns key of None \<Rightarrow> None
         | Some p \<Rightarrow> if le_runID p = runID \<and> le_expired p now then None else Some p)
   else lock_at s ns' key')"
proof (cases "fmlookup (kv_locks s) ns")
  case (Some m)
  have "fmdrop key m = fmempty \<Longrightarrow> key' \<noteq> key \<Longrightarrow> fmlookup m key' = None"
    by (metis fmempty_lookup fmlookup_drop)
  with Some show ?thesis
    by (auto simp: ReapExpiredLock_def lock_at_def2 Let_def split: option.splits)
qed (simp add: ReapExpiredLock_def lock_at_def2)

text \<open>The outcome of a take at a key: refused without a change, or the key now holds the entry of
  the calling run.\<close>

lemma take_cases:
  obtains (refused) info err where "takeLockLocked ns key runID ttl steal pin now s = ((info, None, Some err), s)"
      "lock_at s ns key \<noteq> None \<or> err = ErrTooManyNS"
  | (taken) e displaced where
      "takeLockLocked ns key runID ttl steal pin now s = ((Some (le_info e ns), displaced, None), lock_put ns key e s)"
      "le_runID e = runID" "le_expiresAt e = now + ttl" "pin \<Longrightarrow> le_pinned e"
      "\<And>p. lock_at s ns key = Some p \<Longrightarrow> le_runID p \<noteq> runID \<Longrightarrow> steal \<and> (le_pinned p \<longrightarrow> le_expired p now)"
proof (cases "snd (snd (fst (takeLockLocked ns key runID ttl steal pin now s)))")
  case (Some err)
  then show ?thesis
    by (intro refused [of "fst (fst (takeLockLocked ns key runID ttl steal pin now s))" err])
      (auto simp: takeLockLocked_def Let_def lock_at_def split: if_splits option.splits)
next
  case None
  then show ?thesis
    by (intro taken [of "the (lock_at (snd (takeLockLocked ns key runID ttl steal pin now s)) ns key)"
          "fst (snd (fst (takeLockLocked ns key runID ttl steal pin now s)))"])
      (auto simp: takeLockLocked_def Let_def lock_at_def [of s] lock_map_def split: if_splits option.splits)
qed

subsection \<open>Who may end a hold\<close>

datatype lock_op =
    LAcquire string string string duration time
  | LAcquirePinned string string string duration time
  | LSteal string string string duration time
  | LPin string string string
  | LUnpin string string string
  | LRelease string string string
  | LReap string string string time
  | LRunEnd string
  | LSweep "(string \<Rightarrow> bool) option" time

fun lock_exec :: "lock_op \<Rightarrow> kv_store \<Rightarrow> kv_store" where
  "lock_exec (LAcquire ns key r ttl now) s = snd (AcquireLock ns key r ttl now s)"
| "lock_exec (LAcquirePinned ns key r ttl now) s = snd (AcquireLockPinned ns key r ttl now s)"
| "lock_exec (LSteal ns key r ttl now) s = snd (StealLock ns key r ttl now s)"
| "lock_exec (LPin ns key r) s = snd (PinLock ns key r s)"
| "lock_exec (LUnpin ns key r) s = snd (UnpinLock ns key r s)"
| "lock_exec (LRelease ns key r) s = snd (ReleaseLock ns key r s)"
| "lock_exec (LReap ns key r now) s = snd (ReapExpiredLock ns key r now s)"
| "lock_exec (LRunEnd r) s = snd (ReleaseRunLocks r s)"
| "lock_exec (LSweep live now) s = reapExpiredLocks live now s"

text \<open>The operations that can end the hold \<open>e\<close> at a key.\<close>

fun ends_hold :: "string \<Rightarrow> string \<Rightarrow> kv_lock_entry \<Rightarrow> lock_op \<Rightarrow> bool" where
  "ends_hold ns key e (LRelease ns' key' r) = (ns' = ns \<and> key' = key \<and> r = le_runID e)"
| "ends_hold ns key e (LRunEnd r) = (r = le_runID e)"
| "ends_hold ns key e (LSteal ns' key' r ttl now) =
     (ns' = ns \<and> key' = key \<and> r \<noteq> le_runID e \<and> (le_pinned e \<longrightarrow> le_expired e now))"
| "ends_hold ns key e (LReap ns' key' r now) =
     (ns' = ns \<and> key' = key \<and> r = le_runID e \<and> le_expired e now)"
| "ends_hold ns key e (LSweep live now) =
     (\<exists>l. live = Some l \<and> le_expired e now \<and> \<not> l (le_runID e))"
| "ends_hold ns key e _ = False"

lemma take_at:
  assumes "lock_at s ns key = Some e"
  shows "lock_at (snd (takeLockLocked ns' key' r ttl steal pin now s)) ns key = Some e
    \<or> (ns' = ns \<and> key' = key \<and> (r = le_runID e \<or> (steal \<and> (le_pinned e \<longrightarrow> le_expired e now))) \<and>
       (\<exists>e'. lock_at (snd (takeLockLocked ns' key' r ttl steal pin now s)) ns key = Some e' \<and> le_runID e' = r))"
  using assms by (cases rule: take_cases [of ns' key' r ttl steal pin now s]) auto

lemmas lock_op_defs = AcquireLock_def AcquireLockPinned_def StealLock_def PinLock_def UnpinLock_def
  ReleaseRunLocks_def reapExpiredLocks_def

text \<open>What one operation does to a held key: the entry stays as it is, stays with its holder
  (re-acquired, pinned or unpinned by the holder), or the operation is one that may end it.\<close>

lemma lock_exec_hold:
  assumes "lock_at s ns key = Some e"
  shows "ends_hold ns key e op \<or>
    (\<exists>e'. lock_at (lock_exec op s) ns key = Some e' \<and> le_runID e' = le_runID e)"
proof (cases op)
  case (LAcquire ns' key' r ttl now)
  then show ?thesis using take_at [OF assms, of ns' key' r "lockTTL ttl" False False now] assms
    by (auto simp: lock_op_defs)
next
  case (LAcquirePinned ns' key' r ttl now)
  then show ?thesis using take_at [OF assms, of ns' key' r "lockTTL ttl" False True now] assms
    by (auto simp: lock_op_defs)
next
  case (LSteal ns' key' r ttl now)
  then show ?thesis using take_at [OF assms, of ns' key' r "lockTTL ttl" True False now] assms
    by (auto simp: lock_op_defs)
next
  case (LPin ns' key' r)
  then show ?thesis using assms by (cases "le_runID e = r") (auto simp: lock_op_defs setPin_at)
next
  case (LUnpin ns' key' r)
  then show ?thesis using assms by (cases "le_runID e = r") (auto simp: lock_op_defs setPin_at)
qed (use assms in \<open>auto simp: lock_op_defs release_at reap_at split: option.splits\<close>)

text \<open>
  Only the right parties can end a hold.  If a run holds a lock and an operation (of any run,
  at any time) leaves that lock free or with another run, then the operation was the holder's own
  release, the end of the holder's run, a steal by another run of a lock that was not pinned (or
  whose TTL had passed), or the reaping of an expired hold; in particular an expired TTL alone
  frees nothing, and no acquire ever displaces a holder.
\<close>

theorem hold_ends_only_by:
  assumes "lock_at s ns key = Some e"
    and "\<forall>e'. lock_at (lock_exec op s) ns key = Some e' \<longrightarrow> le_runID e' \<noteq> le_runID e"
  shows "ends_hold ns key e op"
  using lock_exec_hold [OF assms(1), of op] assms(2) by blast

definition lk_example :: kv_store where
  "lk_example = kv_example\<lparr>kv_locks := fmupd ''h'' (fmupd ''k''
     \<lparr>le_runID = ''r1'', le_acquiredAt = 1, le_expiresAt = 10, le_pinned = True\<rparr> fmempty) fmempty\<rparr>"

lemma lk_example_at: "lock_at lk_example ''h'' ''k'' =
  Some \<lparr>le_runID = ''r1'', le_acquiredAt = 1, le_expiresAt = 10, le_pinned = True\<rparr>"
  by (simp add: lk_example_def lock_at_def lock_map_def)

theorem hold_ends_only_by_witness:
  "ends_hold ''h'' ''k'' \<lparr>le_runID = ''r1'', le_acquiredAt = 1, le_expiresAt = 10, le_pinned = True\<rparr>
     (LSteal ''h'' ''k'' ''r2'' 0 12)"
proof -
  have "\<forall>e'. lock_at (lock_exec (LSteal ''h'' ''k'' ''r2'' 0 12) lk_example) ''h'' ''k'' = Some e' \<longrightarrow>
      le_runID e' \<noteq> le_runID \<lparr>le_runID = ''r1'', le_acquiredAt = 1, le_expiresAt = 10, le_pinned = True\<rparr>"
    by (simp add: StealLock_def kebab_h takeLockLocked_def Let_def lk_example_def lock_map_def le_expired_def)
  from hold_ends_only_by [OF lk_example_at this] show ?thesis .
qed

text \<open>The operation acts for a run other than \<open>r\<close> and happens before time \<open>T\<close>.\<close>

fun by_others :: "string \<Rightarrow> time \<Rightarrow> lock_op \<Rightarrow> bool" where
  "by_others r T (LAcquire ns key r' ttl now) = (r' \<noteq> r)"
| "by_others r T (LAcquirePinned ns key r' ttl now) = (r' \<noteq> r)"
| "by_others r T (LSteal ns key r' ttl now) = (r' \<noteq> r \<and> now < T)"
| "by_others r T (LPin ns key r') = (r' \<noteq> r)"
| "by_others r T (LUnpin ns key r') = (r' \<noteq> r)"
| "by_others r T (LRelease ns key r') = (r' \<noteq> r)"
| "by_others r T (LReap ns key r' now) = (now < T)"
| "by_others r T (LRunEnd r') = (r' \<noteq> r)"
| "by_others r T (LSweep live now) = (now < T)"

lemma lock_exec_pinned:
  assumes "lock_at s ns key = Some e" "le_pinned e" "by_others (le_runID e) (le_expiresAt e) op"
  shows "lock_at (lock_exec op s) ns key = Some e"
proof (cases op)
  case (LAcquire ns' key' r ttl now)
  then show ?thesis using take_at [OF assms(1), of ns' key' r "lockTTL ttl" False False now] assms
    by (auto simp: lock_op_defs)
next
  case (LAcquirePinned ns' key' r ttl now)
  then show ?thesis using take_at [OF assms(1), of ns' key' r "lockTTL ttl" False True now] assms
    by (auto simp: lock_op_defs)
next
  case (LSteal ns' key' r ttl now)
  then show ?thesis using take_at [OF assms(1), of ns' key' r "lockTTL ttl" True False now] assms
    by (auto simp: lock_op_defs le_expired_def)
qed (use assms in \<open>auto simp: lock_op_defs setPin_at release_at reap_at le_expired_def split: option.splits\<close>)

text \<open>
  A pinned critical section cannot be displaced: while a run's pinned hold has not expired,
  no sequence of operations of other runs (acquires, steals, releases, pins, run ends), of the
  reaper or of the sweeper changes the lock's entry in any way.
\<close>

theorem pinned_hold_kept:
  assumes "lock_at s ns key = Some e" "le_pinned e"
    and "list_all (by_others (le_runID e) (le_expiresAt e)) ops"
  shows "lock_at (fold lock_exec ops s) ns key = Some e"
  using assms by (induction ops arbitrary: s) (auto simp: lock_exec_pinned)

theorem pinned_hold_kept_witness:
  "lock_at (fold lock_exec [LSteal ''h'' ''k'' ''r2'' 0 9, LRelease ''h'' ''k'' ''r2'', LRunEnd ''r3'']
     lk_example) ''h'' ''k'' =
   Some \<lparr>le_runID = ''r1'', le_acquiredAt = 1, le_expiresAt = 10, le_pinned = True\<rparr>"
  using pinned_hold_kept [OF lk_example_at, of "[LSteal ''h'' ''k'' ''r2'' 0 9, LRelease ''h'' ''k'' ''r2'', LRunEnd ''r3'']"]
  by simp

subsection \<open>The outcome of an acquire\<close>

text \<open>
  The outcome of a plain acquire depends on the holder only: with a valid namespace and a run
  id it succeeds exactly when the key is free (and the table has room for the namespace) or
  already belongs to the caller; a lock of another run is refused, as \<open>ErrLockExpired\<close> once its
  TTL has passed (the caller must reap it first) and as \<open>ErrLockHeld\<close> before that.
\<close>

theorem AcquireLock_outcome:
  assumes "validNamespace ns" "runID \<noteq> []"
  shows "snd (snd (fst (AcquireLock ns key runID ttl now s))) =
    (case lock_at s ns key of
       None \<Rightarrow> if fmlookup (kv_locks s) ns = None \<and> fmlen (kv_locks s) \<ge> kv_MaxNamespaces (kv_cfg s)
               then Some ErrTooManyNS else None
     | Some e \<Rightarrow> if le_runID e = runID then None
                 else if le_expired e now then Some ErrLockExpired else Some ErrLockHeld)"
  using assms by (auto simp: AcquireLock_def takeLockLocked_def Let_def lock_at_def lock_map_def split: option.splits)

theorem AcquireLock_outcome_witness:
  "snd (snd (fst (AcquireLock ''h'' ''k'' ''r2'' 0 12 lk_example))) = Some ErrLockExpired"
  using AcquireLock_outcome [of "''h''" "''r2''" "''k''" 0 12 lk_example] kebab_h
  by (simp add: lk_example_at le_expired_def)

text \<open>
  Mutual exclusion at the end of a run: \<open>ReleaseRunLocks\<close> frees every lock of that run, in
  every namespace, and leaves every other lock exactly as it was.
\<close>

theorem ReleaseRunLocks_exact:
  assumes "runID \<noteq> []"
  shows "lock_at (snd (ReleaseRunLocks runID s)) ns key =
    (case lock_at s ns key of None \<Rightarrow> None | Some e \<Rightarrow> if le_runID e = runID then None else Some e)"
  using assms by (simp add: ReleaseRunLocks_def)

theorem ReleaseRunLocks_exact_witness:
  "lock_at (snd (ReleaseRunLocks ''r1'' lk_example)) ''h'' ''k'' = None"
  using ReleaseRunLocks_exact [of "''r1''" lk_example "''h''" "''k''"] by (simp add: lk_example_at)

end
