(* ===== verification/KvToken.thy ===== *)
theory KvToken
  imports KvLock
begin

text \<open>
  Model of \<^verbatim>\<open>internal/kv/token.go\<close>: bearer tokens \<^verbatim>\<open>namespace.run.mac\<close>.  The keyed hash
  (\<open>hmac.New(sha256.New, secret)\<close>) is the parameter \<open>hm\<close>, a function from the written message to
  the digest bytes; the unpadded URL-safe base64 of Go's standard library is modelled here.
  The lemmas show that a minted token verifies to exactly its namespace and run, and that the
  digest of a token cannot be reused for another namespace or run.
\<close>

subsection \<open>base64.RawURLEncoding\<close>

definition b64_alphabet :: string where
  "b64_alphabet = ''ABCDEFGHIJKLMNOPQRSTUVWXYZabcdefghijklmnopqrstuvwxyz0123456789-_''"

definition b64_char :: "nat \<Rightarrow> char" where
  "b64_char k = b64_alphabet ! k"

fun b64_find :: "char \<Rightarrow> nat \<Rightarrow> string \<Rightarrow> nat option" where
  "b64_find c i [] = None"
| "b64_find c i (x # xs) = (if x = c then Some i else b64_find c (i + 1) xs)"

definition b64_val :: "char \<Rightarrow> nat option" where
  "b64_val c = b64_find c 0 b64_alphabet"

abbreviation byte :: "nat \<Rightarrow> char" where
  "byte n \<equiv> char_of (n mod 256)"

abbreviation ord :: "char \<Rightarrow> nat" where
  "ord c \<equiv> of_char c"

fun b64_encode :: "string \<Rightarrow> string" where
  "b64_encode [] = []"
| "b64_encode [a] = [b64_char (ord a div 4), b64_char (ord a mod 4 * 16)]"
| "b64_encode [a, b] = [b64_char (ord a div 4), b64_char (ord a mod 4 * 16 + ord b div 16), b64_char (ord b mod 16 * 4)]"
| "b64_encode (a # b # c # cs) =
     [b64_char (ord a div 4), b64_char (ord a mod 4 * 16 + ord b div 16),
      b64_char (ord b mod 16 * 4 + ord c div 64), b64_char (ord c mod 64)] @ b64_encode cs"

text \<open>The decoder skips carriage returns and newlines, rejects every other byte outside the alphabet
  and a final group of one digit, and ignores the unused low bits of a short final group.\<close>

fun b64_digits :: "nat list \<Rightarrow> string option" where
  "b64_digits [] = Some []"
| "b64_digits [p] = None"
| "b64_digits [p, q] = Some [byte (p * 4 + q div 16)]"
| "b64_digits [p, q, r] = Some [byte (p * 4 + q div 16), byte (q * 16 + r div 4)]"
| "b64_digits (p # q # r # s # ds) =
     map_option (\<lambda>cs. byte (p * 4 + q div 16) # byte (q * 16 + r div 4) # byte (r * 64 + s) # cs) (b64_digits ds)"

definition b64_decode :: "string \<Rightarrow> string option" where
  "b64_decode s =
     (let ds = map b64_val (filter (\<lambda>c. c \<noteq> CHR 0x0A \<and> c \<noteq> CHR 0x0D) s)
      in if list_all (\<lambda>d. d \<noteq> None) ds then b64_digits (map the ds) else None)"

lemma b64_val_all: "list_all (\<lambda>k. b64_val (b64_char k) = Some k \<and> b64_char k \<noteq> CHR 0x0A \<and>
   b64_char k \<noteq> CHR 0x0D \<and> b64_char k \<noteq> CHR ''.'') [0..<64]"
  by code_simp

lemma b64_val_char:
  assumes "k < 64"
  shows "b64_val (b64_char k) = Some k" "b64_char k \<noteq> CHR 0x0A" "b64_char k \<noteq> CHR 0x0D"
    "b64_char k \<noteq> CHR ''.''"
  using assms b64_val_all unfolding list_all_iff set_upt by auto

lemma ord_less: "ord c < 256"
  by (metis mod_less_divisor of_char_mod_256 zero_less_numeral)


lemma b64_bytes:
  assumes "a < 256" "b < 256" "c < (256::nat)"
  shows "(a div 4 * 4 + (a mod 4 * 16 + b div 16) div 16) = a"
    "((a mod 4 * 16 + b div 16) * 16 + (b mod 16 * 4 + c div 64) div 4) mod 256 = b"
    "((b mod 16 * 4 + c div 64) * 64 + c mod 64) mod 256 = c"
proof -
  have s: "b div 16 < 16" "c div 64 < 4" using assms by auto
  show "(a div 4 * 4 + (a mod 4 * 16 + b div 16) div 16) = a" using s by simp
  have "(b mod 16 * 4 + c div 64) div 4 = b mod 16" using s by simp
  then have "(a mod 4 * 16 + b div 16) * 16 + (b mod 16 * 4 + c div 64) div 4 = a mod 4 * 256 + b"
    by (simp add: algebra_simps)
  then show "((a mod 4 * 16 + b div 16) * 16 + (b mod 16 * 4 + c div 64) div 4) mod 256 = b" using assms by simp
  have "(b mod 16 * 4 + c div 64) * 64 + c mod 64 = b mod 16 * 256 + c"
    by (simp add: algebra_simps)
  then show "((b mod 16 * 4 + c div 64) * 64 + c mod 64) mod 256 = c" using assms by simp
qed

text \<open>The digits of an encoding, and the characters that stand for them.\<close>

fun b64_ints :: "string \<Rightarrow> nat list" where
  "b64_ints [] = []"
| "b64_ints [a] = [ord a div 4, ord a mod 4 * 16]"
| "b64_ints [a, b] = [ord a div 4, ord a mod 4 * 16 + ord b div 16, ord b mod 16 * 4]"
| "b64_ints (a # b # c # cs) = [ord a div 4, ord a mod 4 * 16 + ord b div 16, ord b mod 16 * 4 + ord c div 64, ord c mod 64] @ b64_ints cs"

lemma b64_encode_ints: "b64_encode s = map b64_char (b64_ints s)"
  by (induction s rule: b64_encode.induct) simp_all

lemma ord_div: "ord c div 4 < 64" "ord c div 16 < 16" "ord c div 64 < 4"
  using ord_less [of c] by (simp_all add: div_less_iff_less_mult)

lemma ord_pair: "ord a mod 4 * 16 + ord b div 16 < 64" "ord b mod 16 * 4 + ord c div 64 < 64"
  "ord a mod 4 * 16 < 64" "ord b mod 16 * 4 < 64"
  using mod_less_divisor [of 4 "ord a"] mod_less_divisor [of 16 "ord b"] ord_div(2) [of b] ord_div(3) [of c]
  by linarith+

lemma b64_ints_small: "d \<in> set (b64_ints s) \<Longrightarrow> d < 64"
  by (induction s rule: b64_ints.induct) (auto simp: ord_div ord_pair)

lemma b64_byte:
  "byte (ord a div 4 * 4 + (ord a mod 4 * 16 + ord b div 16) div 16) = a"
  "byte ((ord a mod 4 * 16 + ord b div 16) * 16 + (ord b mod 16 * 4 + ord c div 64) div 4) = b"
  "byte ((ord b mod 16 * 4 + ord c div 64) * 64 + ord c mod 64) = c"
  "byte (ord a div 4 * 4 + (ord a mod 4 * 16) div 16) = a"
  "byte ((ord a mod 4 * 16 + ord b div 16) * 16 + (ord b mod 16 * 4) div 4) = b"
  using b64_bytes [OF ord_less [of a] ord_less [of b] ord_less [of c]]
    b64_bytes(1) [of "ord a" 0 0, OF ord_less] b64_bytes(2) [of "ord a" "ord b" 0, OF ord_less ord_less]
  by (simp_all only: div_0 add_0_right zero_less_numeral of_char_mod_256 char_of_char)

lemma b64_digits_ints: "b64_digits (b64_ints s) = Some s"
  by (induction s rule: b64_ints.induct)
    (simp_all only: b64_ints.simps b64_digits.simps append.simps b64_byte option.map)

lemma b64_encode_chars: "c \<in> set (b64_encode s) \<Longrightarrow> \<exists>k < 64. c = b64_char k"
  unfolding b64_encode_ints using b64_ints_small by auto

lemma b64_round_trip: "b64_decode (b64_encode s) = Some s"
proof -
  have "\<forall>c \<in> set (b64_encode s). c \<noteq> CHR 0x0A \<and> c \<noteq> CHR 0x0D"
  proof
    fix c assume "c \<in> set (b64_encode s)"
    then obtain k where "k < 64" "c = b64_char k" using b64_encode_chars by blast
    then show "c \<noteq> CHR 0x0A \<and> c \<noteq> CHR 0x0D" using b64_val_char(2,3) [of k] by simp
  qed
  then have "filter (\<lambda>c. c \<noteq> CHR 0x0A \<and> c \<noteq> CHR 0x0D) (b64_encode s) = b64_encode s"
    by (simp only: filter_id_conv)
  moreover have "map b64_val (b64_encode s) = map Some (b64_ints s)"
    unfolding b64_encode_ints map_map comp_def by (rule map_cong [OF refl]) (rule b64_val_char(1) [OF b64_ints_small])
  ultimately show ?thesis by (simp add: b64_decode_def list_all_iff b64_digits_ints comp_def)
qed

lemma b64_encode_no_dot: "CHR ''.'' \<notin> set (b64_encode s)"
  by (auto dest: b64_encode_chars simp: b64_val_char(4) [symmetric])

lemma b64_encode_empty [simp]: "b64_encode s = [] \<longleftrightarrow> s = []"
  by (cases s rule: b64_encode.cases) simp_all

subsection \<open>Minting and verifying\<close>

definition tokenMAC :: "(string \<Rightarrow> string) \<Rightarrow> string \<Rightarrow> string \<Rightarrow> string" where
  "tokenMAC hm ns runID = hm (ns @ [CHR 0x0A] @ runID)"

definition Token :: "(string \<Rightarrow> string) \<Rightarrow> string \<Rightarrow> string \<Rightarrow> string" where
  "Token hm ns runID = ns @ ''.'' @ runID @ ''.'' @ b64_encode (tokenMAC hm ns runID)"

definition VerifyToken :: "(string \<Rightarrow> string) \<Rightarrow> string \<Rightarrow> (string \<times> string) option" where
  "VerifyToken hm token =
     (let parts = split_on (CHR ''.'') token in
      if length parts \<noteq> 3 \<or> parts ! 0 = [] \<or> parts ! 1 = [] \<or> parts ! 2 = [] then None
      else case b64_decode (parts ! 2) of None \<Rightarrow> None
        | Some presented \<Rightarrow>
            if presented \<noteq> tokenMAC hm (parts ! 0) (parts ! 1) then None
            else Some (parts ! 0, parts ! 1))"

lemma split_token: "CHR ''.'' \<notin> set a \<Longrightarrow> CHR ''.'' \<notin> set b \<Longrightarrow> CHR ''.'' \<notin> set c \<Longrightarrow>
  split_on (CHR ''.'') (a @ ''.'' @ b @ ''.'' @ c) = [a, b, c]"
  by (simp add: split_on_append split_on_free)

text \<open>
  A minted token authorises exactly what it was minted for: for a namespace and a run id that
  are non-empty and contain no dot (every valid namespace qualifies), and a hash that produces
  a non-empty digest, verification of the token returns that namespace and that run.
\<close>

theorem VerifyToken_Token:
  assumes "ns \<noteq> []" "runID \<noteq> []" "CHR ''.'' \<notin> set ns" "CHR ''.'' \<notin> set runID"
    and "hm (ns @ [CHR 0x0A] @ runID) \<noteq> []"
  shows "VerifyToken hm (Token hm ns runID) = Some (ns, runID)"
  using assms split_token [OF assms(3,4) b64_encode_no_dot, of "tokenMAC hm ns runID"]
  by (simp add: VerifyToken_def Token_def Let_def b64_round_trip tokenMAC_def)

theorem VerifyToken_Token_witness:
  "VerifyToken (\<lambda>m. m) (Token (\<lambda>m. m) ''h'' ''r1'') = Some (''h'', ''r1'')"
  by (rule VerifyToken_Token) simp_all

lemma mac_message_inj:
  assumes "CHR 0x0A \<notin> set a" "CHR 0x0A \<notin> set b" "a @ [CHR 0x0A] @ r = b @ [CHR 0x0A] @ q"
  shows "a = b \<and> r = q"
proof -
  have "takeWhile (\<lambda>c. c \<noteq> CHR 0x0A) (a @ [CHR 0x0A] @ r) = a"
    "takeWhile (\<lambda>c. c \<noteq> CHR 0x0A) (b @ [CHR 0x0A] @ q) = b"
    using assms(1,2) by (simp_all add: takeWhile_tail takeWhile_eq_all_conv) blast+
  then show ?thesis using assms(3) by simp
qed

text \<open>
  The digest of a token is bound to its namespace and run: a token that carries the digest minted
  for one pair verifies only for that pair, provided the hash does not collide on the two
  messages; the newline between the parts makes distinct pairs distinct messages.
\<close>

theorem VerifyToken_bound:
  assumes "VerifyToken hm (ns' @ ''.'' @ runID' @ ''.'' @ b64_encode (tokenMAC hm ns runID)) = Some x"
    and "CHR ''.'' \<notin> set ns'" "CHR ''.'' \<notin> set runID'"
    and "CHR 0x0A \<notin> set ns" "CHR 0x0A \<notin> set ns'"
    and "hm (ns' @ [CHR 0x0A] @ runID') = hm (ns @ [CHR 0x0A] @ runID) \<longrightarrow>
      ns' @ [CHR 0x0A] @ runID' = ns @ [CHR 0x0A] @ runID"
  shows "ns' = ns \<and> runID' = runID \<and> x = (ns, runID)"
proof -
  note sp = split_token [OF assms(2,3) b64_encode_no_dot, of "tokenMAC hm ns runID"]
  have x: "tokenMAC hm ns runID = tokenMAC hm ns' runID'" "x = (ns', runID')"
    using assms(1) unfolding VerifyToken_def Let_def sp by (simp_all add: b64_round_trip split: if_splits)
  with assms(6) have "ns' @ [CHR 0x0A] @ runID' = ns @ [CHR 0x0A] @ runID"
    by (simp add: tokenMAC_def)
  from mac_message_inj [OF assms(5,4) this] x show ?thesis by simp
qed

theorem VerifyToken_bound_witness:
  "\<exists>x. VerifyToken (\<lambda>m. m) (''h'' @ ''.'' @ ''r1'' @ ''.'' @ b64_encode (tokenMAC (\<lambda>m. m) ''h'' ''r1'')) = Some x \<and> x = (''h'', ''r1'')"
proof -
  have dots: "CHR ''.'' \<notin> set ''h''" "CHR ''.'' \<notin> set ''r1''" by simp_all
  note sp = split_token [OF dots b64_encode_no_dot, of "tokenMAC (\<lambda>m. m) ''h'' ''r1''"]
  have "tokenMAC (\<lambda>m. m) ''h'' ''r1'' \<noteq> []" by (simp add: tokenMAC_def)
  then have "VerifyToken (\<lambda>m. m) (''h'' @ ''.'' @ ''r1'' @ ''.'' @ b64_encode (tokenMAC (\<lambda>m. m) ''h'' ''r1'')) \<noteq> None"
    unfolding VerifyToken_def sp by (simp add: b64_round_trip numeral_2_eq_2)
  then obtain x where x: "VerifyToken (\<lambda>m. m) (''h'' @ ''.'' @ ''r1'' @ ''.'' @ b64_encode (tokenMAC (\<lambda>m. m) ''h'' ''r1'')) = Some x"
    by blast
  from VerifyToken_bound [OF x] x show ?thesis by simp
qed

end
