(* ===== verification/Backlog.thy ===== *)
theory Backlog
  imports KvStore
begin

text \<open>
  Model of \<^verbatim>\<open>internal/backlog/backlog.go\<close>: the durable batch backlog, per namespace a map of named
  FIFO queues.  A namespace value is \<open>None\<close> for Go's nil map, which \<open>json.Unmarshal\<close> produces from
  the document \<open>null\<close> and \<open>json.Marshal\<close> turns into that document; a write to a nil map panics
  (\<open>BlPanic\<close>).  As in theory \<open>KvStore\<close>, \<open>bl_disk\<close> is what the next load of the directory reads
  and the success of each file write is an argument.

  The lemmas show that a push is an order-preserving set union under the depth bound, that the
  queues are FIFO with every item delivered at most once, and that contents survive a restart.
\<close>

record bl_config =
  bl_MaxDepth :: int
  bl_MaxItemBytes :: int
  bl_MaxQueues :: int
  bl_MaxNamespaces :: int

datatype bl_error = BlErrBadNamespace | BlErrBadName | BlErrItemTooLarge | BlErrEmptyItem
  | BlErrTooManyQueues | BlErrTooManyNS | BlErrPersist | BlErrNoDir | BlErrMkdir | BlErrReadDir | BlPanic

record bl_push_result =
  pr_Queued :: nat
  pr_Duplicates :: nat
  pr_Dropped :: nat
  pr_Depth :: nat

type_synonym bl_namespace = "(string, string list) fmap option"

record bl_store =
  bl_ns :: "(string, bl_namespace) fmap"
  bl_disk :: "(string, bl_namespace) fmap"
  bl_cfg :: bl_config

definition bl_validName :: "string \<Rightarrow> bool" where
  "bl_validName name \<longleftrightarrow> name \<noteq> [] \<and> length name \<le> 128 \<and> kebab name"

definition bl_validNamespace :: "string \<Rightarrow> bool" where
  "bl_validNamespace ns \<longleftrightarrow> ns \<noteq> [] \<and> length ns \<le> 128 \<and> kebab ns"

subsection \<open>Construction and loading\<close>

definition bl_defaults :: "bl_config \<Rightarrow> bl_config" where
  "bl_defaults cfg =
     \<lparr>bl_MaxDepth = (if bl_MaxDepth cfg \<le> 0 then 10000 else bl_MaxDepth cfg),
      bl_MaxItemBytes = (if bl_MaxItemBytes cfg \<le> 0 then 512 else bl_MaxItemBytes cfg),
      bl_MaxQueues = (if bl_MaxQueues cfg \<le> 0 then 64 else bl_MaxQueues cfg),
      bl_MaxNamespaces = (if bl_MaxNamespaces cfg \<le> 0 then 256 else bl_MaxNamespaces cfg)\<rparr>"

datatype bl_file = BlDir | BlUnreadable | BlCorrupt | BlDoc bl_namespace

fun bl_load :: "(string \<times> bl_file) list \<Rightarrow> (string, bl_namespace) fmap \<Rightarrow> (string, bl_namespace) fmap" where
  "bl_load [] acc = acc"
| "bl_load ((name, f) # des) acc =
     (if f = BlDir \<or> \<not> has_suffix name ''.json'' then bl_load des acc
      else let ns = trim_suffix name ''.json'' in
        if \<not> bl_validNamespace ns then bl_load des acc
        else case f of BlDoc m \<Rightarrow> bl_load des (fmupd ns m acc) | _ \<Rightarrow> bl_load des acc)"

definition bl_New :: "string \<Rightarrow> bl_config \<Rightarrow> bool \<Rightarrow> (string \<times> bl_file) list option \<Rightarrow> bl_error + bl_store" where
  "bl_New dir cfg mkdir_ok listing =
     (if dir = [] then Inl BlErrNoDir
      else if \<not> mkdir_ok then Inl BlErrMkdir
      else case listing of None \<Rightarrow> Inl BlErrReadDir
        | Some des \<Rightarrow> Inr \<lparr>bl_ns = bl_load des fmempty, bl_disk = bl_load des fmempty, bl_cfg = bl_defaults cfg\<rparr>)"

subsection \<open>Operations\<close>

text \<open>Reading an absent namespace, a nil map or a missing queue gives Go's zero value.\<close>

definition bl_queue :: "(string, bl_namespace) fmap \<Rightarrow> string \<Rightarrow> string \<Rightarrow> string list" where
  "bl_queue m ns name =
     (case fmlookup m ns of None \<Rightarrow> [] | Some None \<Rightarrow> []
      | Some (Some qs) \<Rightarrow> (case fmlookup qs name of None \<Rightarrow> [] | Some q \<Rightarrow> q))"

definition bl_Depth :: "bl_store \<Rightarrow> string \<Rightarrow> string \<Rightarrow> nat" where
  "bl_Depth s ns name = length (bl_queue (bl_ns s) ns name)"

definition bl_List :: "bl_store \<Rightarrow> string \<Rightarrow> (string \<times> nat) list" where
  "bl_List s ns =
     (case fmlookup (bl_ns s) ns of Some (Some qs) \<Rightarrow> map (\<lambda>(n, q). (n, length q)) (sorted_list_of_fmap qs)
      | _ \<Rightarrow> [])"

definition bl_persist :: "bool \<Rightarrow> string \<Rightarrow> bl_store \<Rightarrow> bool \<times> bl_store" where
  "bl_persist ok ns s =
     (if ok then (True, s\<lparr>bl_disk := fmupd ns (Option.bind (fmlookup (bl_ns s) ns) id) (bl_disk s)\<rparr>)
      else (False, s))"

definition bl_rollback :: "string \<Rightarrow> string \<Rightarrow> string list \<Rightarrow> bool \<Rightarrow> bool \<Rightarrow> bl_store \<Rightarrow> bl_store" where
  "bl_rollback ns name prev qExisted nsExisted s =
     (case fmlookup (bl_ns s) ns of
        Some (Some qs) \<Rightarrow>
          let qs' = (if qExisted then fmupd name prev qs else fmdrop name qs);
              m = fmupd ns (Some qs') (bl_ns s)
          in s\<lparr>bl_ns := (if nsExisted then m else fmdrop ns m)\<rparr>
      | _ \<Rightarrow> s)"

text \<open>The loop of \<open>Push\<close> over the items, on the queue, the set of present items and the counters.\<close>

fun bl_push_loop :: "int \<Rightarrow> string list \<Rightarrow> string list \<Rightarrow> string set \<Rightarrow> bl_push_result \<Rightarrow> string list \<times> bl_push_result" where
  "bl_push_loop maxDepth [] q present res = (q, res)"
| "bl_push_loop maxDepth (it # items) q present res =
     (if it \<in> present then bl_push_loop maxDepth items q present (res\<lparr>pr_Duplicates := pr_Duplicates res + 1\<rparr>)
      else if int (length q) \<ge> maxDepth then bl_push_loop maxDepth items q present (res\<lparr>pr_Dropped := pr_Dropped res + 1\<rparr>)
      else bl_push_loop maxDepth items (q @ [it]) (insert it present) (res\<lparr>pr_Queued := pr_Queued res + 1\<rparr>))"

fun bl_check_items :: "int \<Rightarrow> string list \<Rightarrow> bl_error option" where
  "bl_check_items maxBytes [] = None"
| "bl_check_items maxBytes (it # items) =
     (if it = [] then Some BlErrEmptyItem
      else if int (length it) > maxBytes then Some BlErrItemTooLarge
      else bl_check_items maxBytes items)"

definition bl_Push :: "bool \<Rightarrow> string \<Rightarrow> string \<Rightarrow> string list \<Rightarrow> bl_store \<Rightarrow> (bl_error + bl_push_result) \<times> bl_store" where
  "bl_Push ok ns name items s =
     (if \<not> bl_validNamespace ns then (Inl BlErrBadNamespace, s)
      else if \<not> bl_validName name then (Inl BlErrBadName, s)
      else case bl_check_items (bl_MaxItemBytes (bl_cfg s)) items of Some err \<Rightarrow> (Inl err, s)
      | None \<Rightarrow>
        let nsExisted = (fmlookup (bl_ns s) ns \<noteq> None) in
        if \<not> nsExisted \<and> fmlen (bl_ns s) \<ge> bl_MaxNamespaces (bl_cfg s) then (Inl BlErrTooManyNS, s)
        else
          let s1 = (if nsExisted then s else s\<lparr>bl_ns := fmupd ns (Some fmempty) (bl_ns s)\<rparr>);
              qsOpt = Option.bind (fmlookup (bl_ns s1) ns) id;
              qs = (case qsOpt of None \<Rightarrow> fmempty | Some m \<Rightarrow> m);
              qExisted = (fmlookup qs name \<noteq> None);
              q = (case fmlookup qs name of None \<Rightarrow> [] | Some q \<Rightarrow> q)
          in if \<not> qExisted \<and> fmlen qs \<ge> bl_MaxQueues (bl_cfg s)
             then (Inl BlErrTooManyQueues, if nsExisted then s1 else s1\<lparr>bl_ns := fmdrop ns (bl_ns s1)\<rparr>)
             else
               let (q', res) = bl_push_loop (bl_MaxDepth (bl_cfg s)) items q (set q)
                     \<lparr>pr_Queued = 0, pr_Duplicates = 0, pr_Dropped = 0, pr_Depth = 0\<rparr>
               in case qsOpt of None \<Rightarrow> (Inl BlPanic, s1)
                  | Some m \<Rightarrow>
                    let s2 = s1\<lparr>bl_ns := fmupd ns (Some (fmupd name q' m)) (bl_ns s1)\<rparr>;
                        (written, s3) = bl_persist ok ns s2
                    in if written then (Inr (res\<lparr>pr_Depth := length q'\<rparr>), s3)
                       else (Inl BlErrPersist,
                             bl_rollback ns name (take (length q' - pr_Queued res) q') qExisted nsExisted s3))"

text \<open>\<open>ok\<close> is the outcome of the write of the shortened queue, \<open>ok2\<close> of the tidy-up after a drain.\<close>

definition bl_Take :: "bool \<Rightarrow> bool \<Rightarrow> string \<Rightarrow> string \<Rightarrow> int \<Rightarrow> bl_store \<Rightarrow> (bl_error + string list \<times> nat) \<times> bl_store" where
  "bl_Take ok ok2 ns name count s =
     (if \<not> bl_validNamespace ns then (Inl BlErrBadNamespace, s)
      else if \<not> bl_validName name then (Inl BlErrBadName, s)
      else if count \<le> 0 then (Inr ([], bl_Depth s ns name), s)
      else case Option.bind (fmlookup (bl_ns s) ns) id of None \<Rightarrow> (Inr ([], 0), s)
      | Some qs \<Rightarrow>
        let q = (case fmlookup qs name of None \<Rightarrow> [] | Some q \<Rightarrow> q) in
        if q = [] then (Inr ([], 0), s)
        else
          let n = min (nat count) (length q);
              taken = take n q;
              rest = drop n q;
              s1 = s\<lparr>bl_ns := fmupd ns (Some (fmupd name rest qs)) (bl_ns s)\<rparr>;
              (written, s2) = bl_persist ok ns s1
          in if \<not> written then (Inl BlErrPersist, s2\<lparr>bl_ns := fmupd ns (Some (fmupd name q qs)) (bl_ns s2)\<rparr>)
             else if rest = [] then
               let qs' = fmdrop name qs;
                   s3 = s2\<lparr>bl_ns := (if qs' = fmempty then fmdrop ns (bl_ns s2) else fmupd ns (Some qs') (bl_ns s2))\<rparr>
               in (Inr (taken, length rest), snd (bl_persist ok2 ns s3))
             else (Inr (taken, length rest), s2))"

text \<open>A restart: a new store over the directory left behind.\<close>

definition bl_restart :: "bl_store \<Rightarrow> bl_store" where
  "bl_restart s = s\<lparr>bl_ns := bl_disk s\<rparr>"


subsection \<open>The loop of a push\<close>

text \<open>The reference: the items not yet present, each once, in the given order.\<close>

fun new_items :: "string set \<Rightarrow> string list \<Rightarrow> string list" where
  "new_items P [] = []"
| "new_items P (x # xs) = (if x \<in> P then new_items P xs else x # new_items (insert x P) xs)"

lemma set_new_items: "set (new_items P xs) = set xs - P"
  by (induction xs arbitrary: P) auto

lemma distinct_new_items [simp]: "distinct (new_items P xs)"
  by (induction xs arbitrary: P) (auto simp: set_new_items)

lemma fst_push_loop:
  "fst (bl_push_loop D items q P res) = q @ take (nat (D - int (length q))) (new_items P items)"
proof (induction items arbitrary: q P res)
  case (Cons it items)
  then show ?case
    by (cases "int (length q) \<ge> D")
      (auto simp: take_Cons' nat_diff_distrib' Suc_diff_Suc algebra_simps)
qed simp

lemma push_loop_counts:
  "pr_Queued (snd (bl_push_loop D items q P res)) + length q
     = pr_Queued res + length (fst (bl_push_loop D items q P res))"
  "pr_Queued (snd (bl_push_loop D items q P res)) + pr_Duplicates (snd (bl_push_loop D items q P res))
     + pr_Dropped (snd (bl_push_loop D items q P res))
     = pr_Queued res + pr_Duplicates res + pr_Dropped res + length items"
proof (induction items arbitrary: q P res)
  case (Cons it items)
  { case 1 show ?case using Cons.IH(1) [of "q @ [it]" "insert it P" "res\<lparr>pr_Queued := pr_Queued res + 1\<rparr>"] Cons.IH(1) [of q] by auto }
  { case 2 show ?case using Cons.IH(2) by auto }
qed simp_all

lemma push_loop_back:
  assumes "bl_push_loop D items q P \<lparr>pr_Queued = 0, pr_Duplicates = a, pr_Dropped = b, pr_Depth = c\<rparr> = (q', res)"
  shows "take (length q' - pr_Queued res) q' = q"
proof -
  have "q' = q @ take (nat (D - int (length q))) (new_items P items)"
    using fst_push_loop [of D items q P] assms by (metis fst_conv)
  moreover have "pr_Queued res + length q = length q'"
    using push_loop_counts(1) [of D items q P "\<lparr>pr_Queued = 0, pr_Duplicates = a, pr_Dropped = b, pr_Depth = c\<rparr>"] assms
    by simp
  ultimately show ?thesis by simp
qed

subsection \<open>The effect of the operations on the queues\<close>

abbreviation bl_mem :: "bl_store \<Rightarrow> string \<Rightarrow> string \<Rightarrow> string list" where
  "bl_mem s \<equiv> bl_queue (bl_ns s)"

abbreviation bl_dsk :: "bl_store \<Rightarrow> string \<Rightarrow> string \<Rightarrow> string list" where
  "bl_dsk s \<equiv> bl_queue (bl_disk s)"

definition bl_pushed :: "bl_store \<Rightarrow> string \<Rightarrow> string \<Rightarrow> string list \<Rightarrow> string list" where
  "bl_pushed s ns name items =
     bl_mem s ns name @ take (nat (bl_MaxDepth (bl_cfg s) - int (length (bl_mem s ns name))))
       (new_items (set (bl_mem s ns name)) items)"

lemma bl_queue_upd [simp]: "bl_queue (fmupd ns v m) ns' =
  (if ns' = ns then (\<lambda>name. case v of None \<Rightarrow> [] | Some qs \<Rightarrow> (case fmlookup qs name of None \<Rightarrow> [] | Some q \<Rightarrow> q))
   else bl_queue m ns')"
  by (auto simp: bl_queue_def fun_eq_iff split: option.splits)

lemma bl_persist_simps [simp]:
  "bl_persist False ns s = (False, s)"
  "bl_ns (snd (bl_persist ok ns s)) = bl_ns s"
  "bl_cfg (snd (bl_persist ok ns s)) = bl_cfg s"
  "fst (bl_persist ok ns s) = ok"
  by (simp_all add: bl_persist_def)

lemma bl_persist_disk: "bl_dsk (snd (bl_persist ok ns s)) ns' =
  (if ok \<and> ns' = ns then bl_mem s ns else bl_dsk s ns')"
  by (auto simp: bl_persist_def bl_queue_def fun_eq_iff split: option.splits bind_splits)

lemma bl_rollback_undo:
  "fmlookup (bl_ns s) ns = Some (Some qs) \<Longrightarrow> fmlookup qs name = Some q \<Longrightarrow>
   bl_rollback ns name q True True (s\<lparr>bl_ns := fmupd ns (Some (fmupd name q' qs)) (bl_ns s)\<rparr>) = s"
  "fmlookup (bl_ns s) ns = Some (Some qs) \<Longrightarrow> fmlookup qs name = None \<Longrightarrow>
   bl_rollback ns name q False True (s\<lparr>bl_ns := fmupd ns (Some (fmupd name q' qs)) (bl_ns s)\<rparr>) = s"
  "fmlookup (bl_ns s) ns = None \<Longrightarrow>
   bl_rollback ns name q qe False (s\<lparr>bl_ns := fmupd ns (Some qs) (bl_ns s)\<rparr>) = s"
  by (simp_all add: bl_rollback_def Let_def fmupd_restore fmupd_triv)

text \<open>Every outcome of a push: refused, failed and undone, or done and written.\<close>

lemma bl_Push_cases:
  obtains (failed) err where "bl_Push ok ns name items s = (Inl err, s)"
  | (pushed) qs s' res where "bl_Push ok ns name items s = (Inr res, s')" "ok"
      "s' = snd (bl_persist ok ns (s\<lparr>bl_ns := fmupd ns (Some (fmupd name (bl_pushed s ns name items) qs)) (bl_ns s)\<rparr>))"
      "fmlookup (bl_ns s) ns = Some (Some qs) \<or> fmlookup (bl_ns s) ns = None \<and> qs = fmempty"
      "pr_Depth res = length (bl_pushed s ns name items)"
      "pr_Queued res + length (bl_mem s ns name) = pr_Depth res"
      "pr_Queued res + pr_Duplicates res + pr_Dropped res = length items"
      "bl_check_items (bl_MaxItemBytes (bl_cfg s)) items = None"
proof -
  define q where "q = bl_mem s ns name"
  define z where "z = \<lparr>pr_Queued = 0, pr_Duplicates = 0, pr_Dropped = 0, pr_Depth = 0\<rparr>"
  obtain q' res where loop: "bl_push_loop (bl_MaxDepth (bl_cfg s)) items q (set q) z = (q', res)"
    by fastforce
  have q': "q' = bl_pushed s ns name items"
    using fst_push_loop [of "bl_MaxDepth (bl_cfg s)" items q "set q" z] loop
    by (simp add: bl_pushed_def q_def)
  note undo = push_loop_back [OF loop [unfolded z_def]]
  have cnt: "pr_Queued res + length q = length q'" "pr_Queued res + pr_Duplicates res + pr_Dropped res = length items"
    using push_loop_counts [of "bl_MaxDepth (bl_cfg s)" items q "set q" z] loop by (simp_all add: z_def)
  show thesis
  proof (cases "\<exists>err. bl_Push ok ns name items s = (Inl err, s)")
    case True then show ?thesis using failed by blast
  next
    case False
    note nf = this
    show ?thesis
    proof (cases "fmlookup (bl_ns s) ns")
      case None
      then have "q = []" by (simp add: q_def bl_queue_def)
      with nf None loop undo cnt q' show ?thesis
        by (intro pushed [of "res\<lparr>pr_Depth := length q'\<rparr>" _ fmempty])
          (auto simp: bl_Push_def Let_def z_def bl_persist_def bl_rollback_undo q_def [symmetric]
            split: option.splits if_splits prod.splits)
    next
      case (Some v)
      note Sv = this
      show ?thesis
      proof (cases v)
        case None
        with Sv nf show ?thesis
          by (auto simp: bl_Push_def Let_def split: option.splits if_splits prod.splits)
      next
        case (Some qs)
        note v = this
        then have "q = (case fmlookup qs name of None \<Rightarrow> [] | Some q \<Rightarrow> q)" using Sv
          by (simp add: q_def bl_queue_def)
        with nf Sv v loop undo cnt q' show ?thesis
          by (intro pushed [of "res\<lparr>pr_Depth := length q'\<rparr>" _ qs])
            (auto simp: bl_Push_def Let_def z_def bl_persist_def bl_rollback_undo q_def [symmetric]
              split: option.splits if_splits prod.splits)
      qed
    qed
  qed
qed


definition bl_put :: "(string \<Rightarrow> string \<Rightarrow> string list) \<Rightarrow> string \<Rightarrow> string \<Rightarrow> string list \<Rightarrow> string \<Rightarrow> string \<Rightarrow> string list" where
  "bl_put f ns name q = (\<lambda>ns' name'. if ns' = ns \<and> name' = name then q else f ns' name')"

lemma bl_put_same [simp]: "bl_put f ns name q ns name = q"
  by (simp add: bl_put_def)

lemma bl_Push_view:
  "(\<exists>err. bl_Push ok ns name items s = (Inl err, s)) \<or>
   (\<exists>res s'. bl_Push ok ns name items s = (Inr res, s') \<and> ok \<and> bl_cfg s' = bl_cfg s \<and>
      bl_mem s' = bl_put (bl_mem s) ns name (bl_pushed s ns name items) \<and>
      (bl_mem s = bl_dsk s \<longrightarrow> bl_mem s' = bl_dsk s'))"
proof (cases rule: bl_Push_cases [of ok ns name items s])
  case (pushed qs s' res)
  then have "bl_mem s' = bl_put (bl_mem s) ns name (bl_pushed s ns name items)"
    by (auto simp: bl_put_def fun_eq_iff) (auto simp: bl_queue_def split: option.splits)
  moreover have "bl_mem s = bl_dsk s \<longrightarrow> bl_mem s' = bl_dsk s'"
    using pushed by (auto simp: bl_persist_disk fun_eq_iff)
  ultimately show ?thesis using pushed by simp
qed simp

text \<open>Every outcome of a take: refused, failed and undone, or a prefix of the queue removed.\<close>

definition bl_split :: "bl_store \<Rightarrow> string \<Rightarrow> string \<Rightarrow> int \<Rightarrow> string list \<times> string list" where
  "bl_split s ns name count =
     (let q = bl_mem s ns name in (take (nat count) q, drop (nat count) q))"

lemma bl_mem_tidy:
  assumes "fmlookup (bl_ns s) ns = Some (Some qs)"
  shows "bl_queue (if fmdrop name qs = fmempty then fmdrop ns (bl_ns s) else fmupd ns (Some (fmdrop name qs)) (bl_ns s))
     = bl_put (bl_mem s) ns name []"
proof -
  have "fmdrop name qs = fmempty \<Longrightarrow> name' \<noteq> name \<Longrightarrow> fmlookup qs name' = None" for name'
    by (metis fmempty_lookup fmlookup_drop)
  then show ?thesis using assms
    by (auto simp: bl_put_def fun_eq_iff bl_queue_def split: option.splits)
qed

lemma bl_Take_view:
  "(\<exists>err. bl_Take ok ok2 ns name count s = (Inl err, s)) \<or>
   (\<exists>s'. bl_Take ok ok2 ns name count s =
        (Inr (fst (bl_split s ns name count), length (snd (bl_split s ns name count))), s') \<and>
      bl_cfg s' = bl_cfg s \<and> (s' = s \<or> ok) \<and>
      bl_mem s' = bl_put (bl_mem s) ns name (snd (bl_split s ns name count)) \<and>
      (bl_mem s = bl_dsk s \<longrightarrow> bl_mem s' = bl_dsk s'))"
proof (cases "bl_validNamespace ns \<and> bl_validName name \<and> 0 < count \<and> bl_mem s ns name \<noteq> []")
  case False
  then show ?thesis
    by (auto simp: bl_Take_def bl_split_def bl_Depth_def bl_put_def fun_eq_iff Let_def
        bl_queue_def [of "bl_ns s" ns name] split: option.splits bind_splits)
next
  case True
  then obtain qs q where q: "fmlookup (bl_ns s) ns = Some (Some qs)" "fmlookup qs name = Some q" "q = bl_mem s ns name" "q \<noteq> []"
    by (auto simp: bl_queue_def split: option.splits)
  define rest where "rest = drop (min (nat count) (length q)) q"
  define s2 where "s2 = snd (bl_persist ok ns (s\<lparr>bl_ns := fmupd ns (Some (fmupd name rest qs)) (bl_ns s)\<rparr>))"
  have rest: "rest = snd (bl_split s ns name count)" "take (min (nat count) (length q)) q = fst (bl_split s ns name count)"
    using q by (simp_all add: rest_def bl_split_def min_def Let_def)
  have mem2: "bl_mem s2 = bl_put (bl_mem s) ns name rest"
    using q by (auto simp: s2_def bl_put_def fun_eq_iff) (simp add: bl_queue_def)
  have dsk2: "ok \<Longrightarrow> bl_mem s = bl_dsk s \<Longrightarrow> bl_mem s2 = bl_dsk s2"
    by (auto simp: s2_def bl_persist_disk fun_eq_iff)
  consider "\<not> ok" | "ok" "rest \<noteq> []" | "ok" "rest = []" by blast
  then show ?thesis
  proof cases
    case 1
    then show ?thesis using True q
      by (auto simp: bl_Take_def Let_def fmupd_triv)
  next
    case 2
    then have "bl_Take ok ok2 ns name count s = (Inr (fst (bl_split s ns name count), length rest), s2)"
      using True q by (auto simp: bl_Take_def Let_def rest_def s2_def bl_persist_def bl_split_def min_def split: if_splits)
    then show ?thesis using 2 mem2 dsk2 rest by (auto simp: s2_def)
  next
    case 3
    define s3 where "s3 = s2\<lparr>bl_ns := (if fmdrop name qs = fmempty then fmdrop ns (bl_ns s2) else fmupd ns (Some (fmdrop name qs)) (bl_ns s2))\<rparr>"
    define s4 where "s4 = snd (bl_persist ok2 ns s3)"
    have take4: "bl_Take ok ok2 ns name count s = (Inr (fst (bl_split s ns name count), length rest), s4)"
      using 3 True q by (auto simp: bl_Take_def Let_def rest_def s2_def s3_def s4_def bl_persist_def bl_split_def min_def split: if_splits)
    have look2: "fmlookup (bl_ns s2) ns = Some (Some (fmupd name rest qs))" by (simp add: s2_def)
    have "bl_mem s4 = bl_put (bl_mem s2) ns name []"
      using bl_mem_tidy [OF look2, of name, unfolded fmdrop_fmupd_same] by (simp add: s4_def s3_def)
    then have mem4: "bl_mem s4 = bl_mem s2" using mem2 3 by (auto simp: bl_put_def fun_eq_iff)
    have "bl_dsk s4 ns' = (if ok2 \<and> ns' = ns then bl_mem s4 ns' else bl_dsk s2 ns')" for ns'
      by (simp add: s4_def bl_persist_disk) (simp add: s3_def)
    with mem4 dsk2 3 have "bl_mem s = bl_dsk s \<longrightarrow> bl_mem s4 = bl_dsk s4" by (auto simp: fun_eq_iff)
    then show ?thesis using take4 3 mem4 mem2 rest by (auto simp: s4_def s3_def s2_def)
  qed
qed


subsection \<open>Sequences of operations\<close>

text \<open>A client's call; the tidy-up write of a take has its own outcome.\<close>

datatype bl_op = BPush string string "string list" | BTake string string int bool

fun bl_exec :: "bl_op \<Rightarrow> bool \<Rightarrow> bl_store \<Rightarrow> bl_store" where
  "bl_exec (BPush ns name items) ok s = snd (bl_Push ok ns name items s)"
| "bl_exec (BTake ns name count ok2) ok s = snd (bl_Take ok ok2 ns name count s)"

definition bl_run :: "(bl_op \<times> bool) list \<Rightarrow> bl_store \<Rightarrow> bl_store" where
  "bl_run ops s = fold (\<lambda>(op, ok). bl_exec op ok) ops s"

lemma bl_Push_failed: "snd (bl_Push False ns name items s) = s"
  using bl_Push_view [of False ns name items s] by auto

lemma bl_Take_failed: "snd (bl_Take False ok2 ns name count s) = s"
  using bl_Take_view [of False ok2 ns name count s] by auto

lemma bl_exec_sync: "bl_mem s = bl_dsk s \<Longrightarrow> bl_mem (bl_exec op ok s) = bl_dsk (bl_exec op ok s)"
proof (cases op)
  case (BPush ns name items)
  then show "bl_mem s = bl_dsk s \<Longrightarrow> ?thesis" using bl_Push_view [of ok ns name items s] by auto
next
  case (BTake ns name count ok2)
  then show "bl_mem s = bl_dsk s \<Longrightarrow> ?thesis" using bl_Take_view [of ok ok2 ns name count s] by auto
qed

interpretation bld: durable_store bl_exec bl_mem bl_dsk
proof
  show "bl_exec op False s = s" for op s by (cases op) (simp_all add: bl_Push_failed bl_Take_failed)
qed (rule bl_exec_sync)

text \<open>
  The backlog survives a restart.  After any sequence of pushes and takes, whichever of the
  file writes failed (the tidy-up write after a drain included), a new store over the directory
  holds exactly the queues the old one held, and the calls whose write failed had no effect.
\<close>

theorem bl_run_durable:
  assumes "bl_mem s = bl_dsk s"
  shows "bl_mem (bl_restart (bl_run ops s)) = bl_mem (bl_run (filter snd ops) s)"
  using bld.fold_sync [OF assms, of "filter snd ops"] bld.fold_failed [of ops s]
  by (simp add: bl_restart_def bl_run_def)

definition bl_example :: bl_store where
  "bl_example = \<lparr>bl_ns = fmempty, bl_disk = fmempty,
     bl_cfg = \<lparr>bl_MaxDepth = 3, bl_MaxItemBytes = 8, bl_MaxQueues = 2, bl_MaxNamespaces = 2\<rparr>\<rparr>"

lemma bl_valid_h: "bl_validNamespace ''h''" "bl_validName ''q''"
  by (simp_all add: bl_validNamespace_def bl_validName_def kebab_def lower_alnum_def less_eq_char_def)

theorem bl_run_durable_witness:
  "bl_mem (bl_restart (bl_run [(BPush ''h'' ''q'' [''a''], True), (BTake ''h'' ''q'' 1 True, False)] bl_example))
   = bl_mem (bl_run [(BPush ''h'' ''q'' [''a''], True)] bl_example)"
  using bl_run_durable [of bl_example "[(BPush ''h'' ''q'' [''a''], True), (BTake ''h'' ''q'' 1 True, False)]"]
  by (simp add: bl_example_def)

lemma bl_Push_union_parts:
  assumes "bl_Push ok ns name items s = (Inr res, s')"
  shows "bl_mem s' ns name = bl_mem s ns name @
      take (nat (bl_MaxDepth (bl_cfg s) - int (length (bl_mem s ns name)))) (new_items (set (bl_mem s ns name)) items)"
    and "(ns', name') \<noteq> (ns, name) \<Longrightarrow> bl_mem s' ns' name' = bl_mem s ns' name'"
    and "pr_Depth res = length (bl_mem s' ns name)"
    and "pr_Queued res = length (bl_mem s' ns name) - length (bl_mem s ns name)"
    and "pr_Queued res + pr_Duplicates res + pr_Dropped res = length items"
proof -
  have view: "bl_mem s' = bl_put (bl_mem s) ns name (bl_pushed s ns name items)"
    using bl_Push_view [of ok ns name items s] assms by auto
  then show "bl_mem s' ns name = bl_mem s ns name @
      take (nat (bl_MaxDepth (bl_cfg s) - int (length (bl_mem s ns name)))) (new_items (set (bl_mem s ns name)) items)"
    by (simp add: bl_pushed_def)
  show "(ns', name') \<noteq> (ns, name) \<Longrightarrow> bl_mem s' ns' name' = bl_mem s ns' name'"
    using view by (auto simp: bl_put_def)
  show "pr_Depth res = length (bl_mem s' ns name)"
    and "pr_Queued res = length (bl_mem s' ns name) - length (bl_mem s ns name)"
    and "pr_Queued res + pr_Duplicates res + pr_Dropped res = length items"
    using assms view by (cases rule: bl_Push_cases [of ok ns name items s]; auto)+
qed

text \<open>
  A push is an order-preserving set union under the depth bound: the queue keeps every item it
  had at its position and is extended by the pushed items that were not queued yet, each once
  and in the given order, as far as the depth bound allows; the counters of the result add up to
  the number of items pushed, and no other queue changes.
\<close>

theorem bl_Push_union:
  assumes "bl_Push ok ns name items s = (Inr res, s')"
  shows "bl_mem s' ns name = bl_mem s ns name @
      take (nat (bl_MaxDepth (bl_cfg s) - int (length (bl_mem s ns name)))) (new_items (set (bl_mem s ns name)) items)
    \<and> (\<forall>ns' name'. (ns', name') \<noteq> (ns, name) \<longrightarrow> bl_mem s' ns' name' = bl_mem s ns' name')
    \<and> pr_Depth res = length (bl_mem s' ns name)
    \<and> pr_Queued res = length (bl_mem s' ns name) - length (bl_mem s ns name)
    \<and> pr_Queued res + pr_Duplicates res + pr_Dropped res = length items"
  using bl_Push_union_parts [OF assms] by (intro conjI allI impI)

theorem bl_Push_union_witness:
  "bl_mem (snd (bl_Push True ''h'' ''q'' [''a'', ''b'', ''a''] bl_example)) ''h'' ''q'' = [''a'', ''b'']"
proof -
  obtain res s' where p: "bl_Push True ''h'' ''q'' [''a'', ''b'', ''a''] bl_example = (Inr res, s')"
    by (simp add: bl_Push_def bl_valid_h bl_example_def Let_def bl_persist_def)
  from bl_Push_union [OF p] p show ?thesis by (simp add: bl_example_def bl_queue_def)
qed

text \<open>The queue an observer of one queue sees delivered, and what the pushes added to it.\<close>

fun bl_taken :: "string \<Rightarrow> string \<Rightarrow> (bl_op \<times> bool) list \<Rightarrow> bl_store \<Rightarrow> string list" where
  "bl_taken ns name [] s = []"
| "bl_taken ns name ((op, ok) # ops) s =
     (case op of
        BTake ns' name' count ok2 \<Rightarrow>
          (if ns' = ns \<and> name' = name then
             (case fst (bl_Take ok ok2 ns' name' count s) of Inl err \<Rightarrow> [] | Inr (taken, depth) \<Rightarrow> taken)
           else [])
      | BPush ns' name' items \<Rightarrow> []) @ bl_taken ns name ops (bl_exec op ok s)"

fun bl_added :: "string \<Rightarrow> string \<Rightarrow> (bl_op \<times> bool) list \<Rightarrow> bl_store \<Rightarrow> string list" where
  "bl_added ns name [] s = []"
| "bl_added ns name ((op, ok) # ops) s =
     (case op of
        BPush ns' name' items \<Rightarrow>
          (if ns' = ns \<and> name' = name then
             (case fst (bl_Push ok ns' name' items s) of Inl err \<Rightarrow> []
              | Inr res \<Rightarrow> take (pr_Queued res) (new_items (set (bl_mem s ns name)) items))
           else [])
      | BTake ns' name' count ok2 \<Rightarrow> []) @ bl_added ns name ops (bl_exec op ok s)"

lemma bl_take_step:
  "(case fst (bl_Take ok ok2 ns name count s) of Inl err \<Rightarrow> [] | Inr (taken, depth) \<Rightarrow> taken)
     @ bl_mem (snd (bl_Take ok ok2 ns name count s)) ns name = bl_mem s ns name"
  "(ns', name') \<noteq> (ns, name) \<Longrightarrow> bl_mem (snd (bl_Take ok ok2 ns name count s)) ns' name' = bl_mem s ns' name'"
proof -
  have *: "(case fst (bl_Take ok ok2 ns name count s) of Inl err \<Rightarrow> [] | Inr (taken, depth) \<Rightarrow> taken)
       @ bl_mem (snd (bl_Take ok ok2 ns name count s)) ns name = bl_mem s ns name \<and>
     ((ns', name') \<noteq> (ns, name) \<longrightarrow> bl_mem (snd (bl_Take ok ok2 ns name count s)) ns' name' = bl_mem s ns' name')"
    using bl_Take_view [of ok ok2 ns name count s]
  proof (elim disjE exE conjE)
    fix s' assume t: "bl_Take ok ok2 ns name count s =
        (Inr (fst (bl_split s ns name count), length (snd (bl_split s ns name count))), s')"
      and "bl_mem s' = bl_put (bl_mem s) ns name (snd (bl_split s ns name count))"
    then have "bl_mem s' a b = bl_put (bl_mem s) ns name (snd (bl_split s ns name count)) a b" for a b
      by (simp only:)
    from this [of ns name] this [of ns' name'] t show ?thesis by (simp add: bl_split_def Let_def bl_put_def)
  qed (simp_all add: bl_split_def Let_def bl_put_def)
  then show "(case fst (bl_Take ok ok2 ns name count s) of Inl err \<Rightarrow> [] | Inr (taken, depth) \<Rightarrow> taken)
     @ bl_mem (snd (bl_Take ok ok2 ns name count s)) ns name = bl_mem s ns name" by blast
  from * show "(ns', name') \<noteq> (ns, name) \<Longrightarrow> bl_mem (snd (bl_Take ok ok2 ns name count s)) ns' name' = bl_mem s ns' name'"
    by blast
qed

lemma bl_push_step:
  "bl_mem (snd (bl_Push ok ns name items s)) ns name = bl_mem s ns name @
     (case fst (bl_Push ok ns name items s) of Inl err \<Rightarrow> []
      | Inr res \<Rightarrow> take (pr_Queued res) (new_items (set (bl_mem s ns name)) items))"
  "(ns', name') \<noteq> (ns, name) \<Longrightarrow> bl_mem (snd (bl_Push ok ns name items s)) ns' name' = bl_mem s ns' name'"
proof -
  show "bl_mem (snd (bl_Push ok ns name items s)) ns name = bl_mem s ns name @
     (case fst (bl_Push ok ns name items s) of Inl err \<Rightarrow> []
      | Inr res \<Rightarrow> take (pr_Queued res) (new_items (set (bl_mem s ns name)) items))"
  proof (cases rule: bl_Push_cases [of ok ns name items s])
    case (pushed qs s' res)
    then show ?thesis by (simp add: bl_pushed_def min_def)
  qed simp
  show "(ns', name') \<noteq> (ns, name) \<Longrightarrow> bl_mem (snd (bl_Push ok ns name items s)) ns' name' = bl_mem s ns' name'"
    using bl_Push_view [of ok ns name items s] by (auto simp: bl_put_def)
qed

text \<open>
  C26: Each queue is a FIFO queue that delivers every item at most once: over any sequence of pushes
  and takes on any queues, with any write failures, the items delivered from a queue followed by
  the items still waiting are the items it started with followed by the items pushes added.
\<close>

theorem bl_fifo:
  "bl_taken ns name ops s @ bl_mem (bl_run ops s) ns name = bl_mem s ns name @ bl_added ns name ops s"
proof (induction ops arbitrary: s)
  case Nil
  show ?case by (simp add: bl_run_def)
next
  case (Cons x ops)
  obtain op ok where x: "x = (op, ok)" by force
  show ?case
  proof (cases op)
    case (BPush ns' name' items)
    then show ?thesis using Cons.IH [of "bl_exec op ok s"] bl_push_step(1) [of ok ns name items s]
        bl_push_step(2) [of ns name ns' name' ok items s]
      by (cases "ns' = ns \<and> name' = name") (auto simp: bl_run_def x)
  next
    case (BTake ns' name' count ok2)
    then show ?thesis using Cons.IH [of "bl_exec op ok s"] bl_take_step(1) [of ok ok2 ns name count s, symmetric]
        bl_take_step(2) [of ns name ns' name' ok ok2 count s]
      by (cases "ns' = ns \<and> name' = name") (auto simp: bl_run_def x)
  qed
qed

text \<open>Queues hold each item once and never exceed the depth bound.\<close>

definition bl_inv :: "bl_store \<Rightarrow> bool" where
  "bl_inv s \<longleftrightarrow> (\<forall>ns name. distinct (bl_mem s ns name) \<and> int (length (bl_mem s ns name)) \<le> bl_MaxDepth (bl_cfg s))"

lemma bl_pushed_inv: "bl_inv s \<Longrightarrow> distinct (bl_pushed s ns name items) \<and>
  int (length (bl_pushed s ns name items)) \<le> bl_MaxDepth (bl_cfg s)"
proof -
  have "int (length q + min k (nat (D - int (length q)))) \<le> D" if "int (length q) \<le> D"
    for q :: "string list" and k D using that by linarith
  then show "bl_inv s \<Longrightarrow> ?thesis"
    by (auto simp: bl_pushed_def bl_inv_def set_new_items dest!: in_set_takeD)
qed

lemma bl_exec_inv: "bl_inv s \<Longrightarrow> bl_inv (bl_exec op ok s)"
proof (cases op)
  case (BPush ns name items)
  then show "bl_inv s \<Longrightarrow> ?thesis" using bl_Push_view [of ok ns name items s] bl_pushed_inv [of s ns name items]
    by (auto simp: bl_inv_def bl_put_def)
next
  case (BTake ns name count ok2)
  then show "bl_inv s \<Longrightarrow> ?thesis" using bl_Take_view [of ok ok2 ns name count s]
    by (auto simp: bl_inv_def bl_put_def bl_split_def Let_def)
      (meson diff_le_self dual_order.trans of_nat_mono)+
qed

text \<open>
  A queue never holds an item twice and never grows past its depth bound, whatever is pushed
  and taken in whatever order.
\<close>

theorem bl_run_inv:
  assumes "bl_inv s"
  shows "bl_inv (bl_run ops s)"
  using assms unfolding bl_run_def by (induction ops arbitrary: s) (auto simp: bl_exec_inv split: prod.splits)

theorem bl_run_inv_witness: "bl_inv (bl_run [(BPush ''h'' ''q'' [''a'', ''a''], True)] bl_example)"
  by (rule bl_run_inv) (simp add: bl_inv_def bl_example_def bl_queue_def)

text \<open>
  The drain-and-restart defect: once the last queue of a namespace has been drained its file
  holds \<open>null\<close>, so after a restart the namespace is a nil map and the next push to it, valid in
  every respect, panics.
\<close>

theorem bl_push_panics_after_drain:
  "fst (bl_Push True ''h'' ''q'' [''b'']
      (bl_restart (bl_run [(BPush ''h'' ''q'' [''a''], True), (BTake ''h'' ''q'' 1 True, True)] bl_example)))
   = Inl BlPanic"
  by (simp add: bl_run_def bl_restart_def bl_Push_def bl_Take_def bl_valid_h bl_example_def bl_persist_def
      Let_def fmlen_upd)

end
