(* ===== verification/Concurrency.thy ===== *)
theory Concurrency
  imports Prelude
begin

text \<open>
  Model of \<^verbatim>\<open>internal/concurrency\<close>: the declared groups (\<^verbatim>\<open>concurrency.go\<close>) and the manager that gates
  runs with one semaphore channel per group (\<^verbatim>\<open>manager.go\<close>).  A \<open>*groupSem\<close> is an index into the
  list \<open>m_sems\<close> of every semaphore ever made; the buffered channel is the number \<open>sem_tokens\<close> of
  tokens in it (capacity \<open>sem_limit\<close>) and \<open>sem_retired\<close> says that its \<open>retired\<close> channel is closed.
  The goroutines inside \<open>Acquire\<close> and the release closures are the entries of \<open>m_thr\<close>; each atomic
  action of a goroutine (a section under the mutex, a channel operation of the \<open>select\<close>, an atomic
  counter update) is one step, and the step relation interleaves them with reloads and operator
  overrides in any order.  A \<open>*waiterRec\<close> is the index of its goroutine.  The receiver is non-nil:
  the nil guards of the source return constants.
\<close>

subsection \<open>The declared groups\<close>

definition DefaultLimit :: int where
  "DefaultLimit = 1"

record cc_group =
  g_Limit :: int
  g_Description :: string

type_synonym cc_config = "(string, cc_group) fmap"

datatype cc_error = CcDecode | CcEmptyName | CcNegativeLimit string int | CcRead

text \<open>\<open>Parse\<close> after the JSON decoder: \<open>doc\<close> is the decoded \<open>groups\<close> object (\<open>None\<close> when decoding
  failed, \<open>Some None\<close> for an absent or null object).  The error of the first offending group in
  name order is returned; the source reports that of the first one its map iteration meets.\<close>

fun cc_parse_groups :: "(string \<times> cc_group) list \<Rightarrow> cc_config \<Rightarrow> cc_error + cc_config" where
  "cc_parse_groups [] c = Inr c"
| "cc_parse_groups ((name, g) # gs) c =
     (if name = [] then Inl CcEmptyName
      else let (g', c') = (if g_Limit g = 0 then (let h = g\<lparr>g_Limit := DefaultLimit\<rparr> in (h, fmupd name h c)) else (g, c))
           in if g_Limit g' < 0 then Inl (CcNegativeLimit name (g_Limit g')) else cc_parse_groups gs c')"

definition cc_Parse :: "cc_config option option \<Rightarrow> cc_error + cc_config" where
  "cc_Parse doc = (case doc of None \<Rightarrow> Inl CcDecode
     | Some None \<Rightarrow> Inr fmempty
     | Some (Some c) \<Rightarrow> cc_parse_groups (sorted_list_of_fmap c) c)"

datatype cc_read = CcMissing | CcReadErr | CcData "cc_config option option"

definition cc_LoadFile :: "cc_read \<Rightarrow> cc_error + cc_config" where
  "cc_LoadFile f = (case f of CcMissing \<Rightarrow> Inr fmempty | CcReadErr \<Rightarrow> Inl CcRead | CcData doc \<Rightarrow> cc_Parse doc)"

definition cc_Has :: "cc_config option \<Rightarrow> string \<Rightarrow> bool" where
  "cc_Has c name = (case c of None \<Rightarrow> False | Some m \<Rightarrow> fmlookup m name \<noteq> None)"

definition cc_Limit :: "cc_config option \<Rightarrow> string \<Rightarrow> int" where
  "cc_Limit c name = (case c of None \<Rightarrow> 0
     | Some m \<Rightarrow> (case fmlookup m name of None \<Rightarrow> 0 | Some g \<Rightarrow> g_Limit g))"

definition cc_Names :: "cc_config option \<Rightarrow> string list" where
  "cc_Names c = (case c of None \<Rightarrow> [] | Some m \<Rightarrow> sorted_list_of_fset (fmdom m))"

definition CheckRefs :: "cc_config option \<Rightarrow> (string, string) fmap \<Rightarrow> (string \<times> string) list" where
  "CheckRefs cfg refs = filter (\<lambda>(i, g). g \<noteq> [] \<and> \<not> cc_Has cfg g) (sorted_list_of_fmap refs)"

subsection \<open>The manager's state\<close>

record holder_rec =
  h_id :: string
  h_since :: time

record waiter_rec =
  w_thr :: nat
  w_id :: string
  w_since :: time
  w_notify :: bool

record group_queue =
  gq_holders :: "holder_rec list"
  gq_waiting :: "waiter_rec list"

record queue_state =
  qs_Holders :: "string list"
  qs_Position :: nat

record group_sem =
  sem_declared :: int
  sem_limit :: int
  sem_overridden :: bool
  sem_tokens :: int
  sem_retired :: bool
  sem_waiting :: int

datatype acq_error = AcqUnknownGroup | AcqGroupRemoved

text \<open>Where a goroutine is: \<open>Arm\<close> before \<open>waiting.Add(1)\<close>, \<open>Wait\<close> in the \<open>select\<close>, then per branch
  before and after \<open>waiting.Add(-1)\<close>; \<open>Holding\<close> once \<open>Acquire\<close> returned a slot, \<open>Released\<close> between
  the two actions of the release closure.\<close>

datatype pc =
    Arm string string nat
  | Wait string string nat
  | Sent string string nat
  | SentDec string string nat
  | CancelSeen string string nat
  | CancelDec string string
  | RetireSeen string string nat
  | RetireDec string string
  | Holding string string nat
  | Released string string
  | Unbounded
  | Finished
  | NotAcquired
  | Failed acq_error

record mgr =
  m_groups :: "(string, nat) fmap"
  m_sems :: "group_sem list"
  m_overrides :: "(string, int) fmap"
  m_queues :: "(string, group_queue) fmap"
  m_thr :: "pc list"
  m_notes :: "(nat \<times> queue_state) list"

abbreviation upd_sem :: "nat \<Rightarrow> (group_sem \<Rightarrow> group_sem) \<Rightarrow> mgr \<Rightarrow> mgr" where
  "upd_sem p f m \<equiv> m\<lparr>m_sems := (m_sems m)[p := f (m_sems m ! p)]\<rparr>"

abbreviation set_pc :: "nat \<Rightarrow> pc \<Rightarrow> mgr \<Rightarrow> mgr" where
  "set_pc i c m \<equiv> m\<lparr>m_thr := (m_thr m)[i := c]\<rparr>"

subsection \<open>The advisory queues\<close>

definition QueueDetail :: "mgr \<Rightarrow> string \<Rightarrow> (string \<times> time) list \<times> (string \<times> time) list" where
  "QueueDetail m grp =
     (case fmlookup (m_queues m) grp of None \<Rightarrow> ([], [])
      | Some q \<Rightarrow> (map (\<lambda>h. (h_id h, h_since h)) (gq_holders q), map (\<lambda>w. (w_id w, w_since w)) (gq_waiting q)))"

definition queueFor :: "mgr \<Rightarrow> string \<Rightarrow> group_queue" where
  "queueFor m grp = (case fmlookup (m_queues m) grp of None \<Rightarrow> \<lparr>gq_holders = [], gq_waiting = []\<rparr> | Some q \<Rightarrow> q)"

definition pruneQueue :: "string \<Rightarrow> mgr \<Rightarrow> mgr" where
  "pruneQueue grp m =
     (case fmlookup (m_queues m) grp of None \<Rightarrow> m
      | Some q \<Rightarrow> if gq_holders q = [] \<and> gq_waiting q = [] then m\<lparr>m_queues := fmdrop grp (m_queues m)\<rparr> else m)"

definition addHolder :: "string \<Rightarrow> string \<Rightarrow> time \<Rightarrow> mgr \<Rightarrow> mgr" where
  "addHolder grp i now m =
     (if i = [] then m
      else let q = queueFor m grp
           in m\<lparr>m_queues := fmupd grp (q\<lparr>gq_holders := gq_holders q @ [\<lparr>h_id = i, h_since = now\<rparr>]\<rparr>) (m_queues m)\<rparr>)"

fun drop_first :: "('a \<Rightarrow> bool) \<Rightarrow> 'a list \<Rightarrow> 'a list" where
  "drop_first P [] = []"
| "drop_first P (x # xs) = (if P x then xs else x # drop_first P xs)"

definition dropHolder :: "string \<Rightarrow> string \<Rightarrow> mgr \<Rightarrow> mgr" where
  "dropHolder grp i m =
     (case fmlookup (m_queues m) grp of None \<Rightarrow> m
      | Some q \<Rightarrow> if i = [] then m
          else pruneQueue grp
            (m\<lparr>m_queues := fmupd grp (q\<lparr>gq_holders := drop_first (\<lambda>h. h_id h = i) (gq_holders q)\<rparr>) (m_queues m)\<rparr>))"

definition addWaiter :: "string \<Rightarrow> waiter_rec \<Rightarrow> mgr \<Rightarrow> mgr" where
  "addWaiter grp w m =
     (if w_id w = [] then m
      else let q = queueFor m grp
           in m\<lparr>m_queues := fmupd grp (q\<lparr>gq_waiting := gq_waiting q @ [w]\<rparr>) (m_queues m)\<rparr>)"

definition dropWaiter :: "string \<Rightarrow> nat \<Rightarrow> mgr \<Rightarrow> mgr" where
  "dropWaiter grp w m =
     (case fmlookup (m_queues m) grp of None \<Rightarrow> m
      | Some q \<Rightarrow> pruneQueue grp
            (m\<lparr>m_queues := fmupd grp (q\<lparr>gq_waiting := drop_first (\<lambda>c. w_thr c = w) (gq_waiting q)\<rparr>) (m_queues m)\<rparr>))"

fun index_of :: "('a \<Rightarrow> bool) \<Rightarrow> nat \<Rightarrow> 'a list \<Rightarrow> nat" where
  "index_of P i [] = 0"
| "index_of P i (x # xs) = (if P x then i + 1 else index_of P (i + 1) xs)"

definition queueState :: "mgr \<Rightarrow> string \<Rightarrow> nat \<Rightarrow> queue_state" where
  "queueState m grp w =
     (case fmlookup (m_queues m) grp of None \<Rightarrow> \<lparr>qs_Holders = [], qs_Position = 0\<rparr>
      | Some q \<Rightarrow> \<lparr>qs_Holders = map h_id (gq_holders q),
                   qs_Position = index_of (\<lambda>c. w_thr c = w) 0 (gq_waiting q)\<rparr>)"

definition notifyWaiters :: "string \<Rightarrow> mgr \<Rightarrow> mgr" where
  "notifyWaiters grp m =
     (case fmlookup (m_queues m) grp of None \<Rightarrow> m
      | Some q \<Rightarrow> m\<lparr>m_notes := m_notes m @
          map (\<lambda>w. (w_thr w, queueState m grp (w_thr w))) (filter w_notify (gq_waiting q))\<rparr>)"

subsection \<open>Reconfiguration\<close>

definition newGroupSem :: "int \<Rightarrow> int \<Rightarrow> bool \<Rightarrow> group_sem" where
  "newGroupSem declared limit overridden =
     \<lparr>sem_declared = declared, sem_limit = limit, sem_overridden = overridden,
      sem_tokens = 0, sem_retired = False, sem_waiting = 0\<rparr>"

definition eff_declared :: "cc_group \<Rightarrow> int" where
  "eff_declared g = (if g_Limit g < 1 then DefaultLimit else g_Limit g)"

text \<open>One iteration of the first loop of \<open>Update\<close>, on the new table and the semaphores.\<close>

definition update_group :: "mgr \<Rightarrow> string \<times> cc_group \<Rightarrow> (string, nat) fmap \<times> group_sem list \<Rightarrow> (string, nat) fmap \<times> group_sem list" where
  "update_group m ng acc =
     (let (name, g) = ng; (nxt, sems) = acc;
          declared = eff_declared g;
          (effective, overridden) = (case fmlookup (m_overrides m) name of Some ov \<Rightarrow> (ov, True) | None \<Rightarrow> (declared, False));
          fresh = (fmupd name (length sems) nxt, sems @ [newGroupSem declared effective overridden])
      in case fmlookup (m_groups m) name of
           Some p \<Rightarrow> if sem_limit (sems ! p) = effective
             then (fmupd name p nxt, sems[p := (sems ! p)\<lparr>sem_declared := declared, sem_overridden := overridden\<rparr>])
             else fresh
         | None \<Rightarrow> fresh)"

definition retire_sem :: "nat \<Rightarrow> group_sem list \<Rightarrow> group_sem list" where
  "retire_sem p sems = sems[p := (sems ! p)\<lparr>sem_retired := True\<rparr>]"

definition mgr_Update :: "cc_config option \<Rightarrow> mgr \<Rightarrow> mgr" where
  "mgr_Update cfg m =
     (let (nxt, sems) = (case cfg of None \<Rightarrow> (fmempty, m_sems m)
            | Some c \<Rightarrow> fold (update_group m) (sorted_list_of_fmap c) (fmempty, m_sems m));
          sems' = fold (\<lambda>(name, old) ss. if fmlookup nxt name \<noteq> Some old then retire_sem old ss else ss)
                    (sorted_list_of_fmap (m_groups m)) sems
      in m\<lparr>m_groups := nxt, m_sems := sems'\<rparr>)"

definition NewManager :: "cc_config option \<Rightarrow> mgr" where
  "NewManager cfg = mgr_Update cfg \<lparr>m_groups = fmempty, m_sems = [], m_overrides = fmempty, m_queues = fmempty,
     m_thr = [], m_notes = []\<rparr>"

text \<open>Replacing the semaphore of a declared group and retiring the old one.\<close>

definition swap_sem :: "string \<Rightarrow> nat \<Rightarrow> group_sem \<Rightarrow> mgr \<Rightarrow> mgr" where
  "swap_sem grp old new m =
     m\<lparr>m_groups := fmupd grp (length (m_sems m)) (m_groups m),
       m_sems := retire_sem old (m_sems m @ [new])\<rparr>"

definition SetLimitOverride :: "string \<Rightarrow> int \<Rightarrow> mgr \<Rightarrow> bool \<times> mgr" where
  "SetLimitOverride grp limit m =
     (if limit < 1 then (False, m)
      else let m1 = m\<lparr>m_overrides := fmupd grp limit (m_overrides m)\<rparr>
           in case fmlookup (m_groups m) grp of None \<Rightarrow> (True, m1)
              | Some p \<Rightarrow> let gs = m_sems m ! p in
                  if sem_limit gs = limit then (True, upd_sem p (\<lambda>g. g\<lparr>sem_overridden := True\<rparr>) m1)
                  else (True, swap_sem grp p (newGroupSem (sem_declared gs) limit True) m1))"

definition ClearLimitOverride :: "string \<Rightarrow> mgr \<Rightarrow> mgr" where
  "ClearLimitOverride grp m =
     (let m1 = m\<lparr>m_overrides := fmdrop grp (m_overrides m)\<rparr>
      in case fmlookup (m_groups m) grp of None \<Rightarrow> m1
         | Some p \<Rightarrow> let gs = m_sems m ! p in
             if sem_limit gs = sem_declared gs then upd_sem p (\<lambda>g. g\<lparr>sem_overridden := False\<rparr>) m1
             else swap_sem grp p (newGroupSem (sem_declared gs) (sem_declared gs) False) m1)"

definition Declared :: "mgr \<Rightarrow> string \<Rightarrow> int option" where
  "Declared m grp = map_option (\<lambda>p. sem_declared (m_sems m ! p)) (fmlookup (m_groups m) grp)"

record group_status =
  gst_Name :: string
  gst_Limit :: int
  gst_Declared :: int
  gst_Overridden :: bool
  gst_Active :: int
  gst_Waiting :: int

definition mgr_Status :: "mgr \<Rightarrow> group_status list" where
  "mgr_Status m = map (\<lambda>(name, p). let gs = m_sems m ! p in
     \<lparr>gst_Name = name, gst_Limit = sem_limit gs, gst_Declared = sem_declared gs,
      gst_Overridden = sem_overridden gs, gst_Active = sem_tokens gs, gst_Waiting = sem_waiting gs\<rparr>)
     (sorted_list_of_fmap (m_groups m))"

subsection \<open>The sections of Acquire and of the release closure\<close>

definition has_room :: "group_sem \<Rightarrow> bool" where
  "has_room gs \<longleftrightarrow> sem_tokens gs < sem_limit gs"

abbreviation send_token :: "nat \<Rightarrow> mgr \<Rightarrow> mgr" where
  "send_token p m \<equiv> upd_sem p (\<lambda>g. g\<lparr>sem_tokens := sem_tokens g + 1\<rparr>) m"

text \<open>From the call of \<open>Acquire\<close> to the first unlock: the calling goroutine becomes the last entry
  of \<open>m_thr\<close>.  \<open>notify\<close> says that \<open>onQueue\<close> is not nil.\<close>

definition acquire_enter :: "string \<Rightarrow> string \<Rightarrow> bool \<Rightarrow> time \<Rightarrow> mgr \<Rightarrow> mgr" where
  "acquire_enter grp runID notify now m =
     (let t = length (m_thr m); spawn = (\<lambda>c m'. m'\<lparr>m_thr := m_thr m' @ [c]\<rparr>) in
      if grp = [] then spawn Unbounded m
      else case fmlookup (m_groups m) grp of None \<Rightarrow> spawn (Failed AcqUnknownGroup) m
      | Some p \<Rightarrow>
          if has_room (m_sems m ! p) then spawn (Holding grp runID p) (addHolder grp runID now (send_token p m))
          else
            let m1 = addWaiter grp \<lparr>w_thr = t, w_id = runID, w_since = now, w_notify = notify\<rparr> m;
                m2 = (if notify then m1\<lparr>m_notes := m_notes m1 @ [(t, queueState m1 grp t)]\<rparr> else m1)
            in spawn (Arm grp runID p) m2)"

definition granted_section :: "nat \<Rightarrow> string \<Rightarrow> string \<Rightarrow> nat \<Rightarrow> time \<Rightarrow> mgr \<Rightarrow> mgr" where
  "granted_section i grp runID p now m =
     set_pc i (Holding grp runID p) (notifyWaiters grp (addHolder grp runID now (dropWaiter grp i m)))"

definition cancel_section :: "nat \<Rightarrow> string \<Rightarrow> mgr \<Rightarrow> mgr" where
  "cancel_section i grp m = set_pc i NotAcquired (notifyWaiters grp (dropWaiter grp i m))"

definition rebind_section :: "nat \<Rightarrow> string \<Rightarrow> string \<Rightarrow> time \<Rightarrow> mgr \<Rightarrow> mgr" where
  "rebind_section i grp runID now m =
     (case fmlookup (m_groups m) grp of
        None \<Rightarrow> set_pc i (Failed AcqGroupRemoved) (notifyWaiters grp (dropWaiter grp i m))
      | Some p \<Rightarrow>
          if has_room (m_sems m ! p) then granted_section i grp runID p now (send_token p m)
          else set_pc i (Arm grp runID p) m)"

definition release_section :: "nat \<Rightarrow> string \<Rightarrow> string \<Rightarrow> mgr \<Rightarrow> mgr" where
  "release_section i grp runID m = set_pc i Finished (notifyWaiters grp (dropHolder grp runID m))"

definition count_waiting :: "nat \<Rightarrow> int \<Rightarrow> mgr \<Rightarrow> mgr" where
  "count_waiting p d m = upd_sem p (\<lambda>g. g\<lparr>sem_waiting := sem_waiting g + d\<rparr>) m"

text \<open>The atomic actions of goroutine \<open>i\<close>.\<close>

inductive thr_step :: "nat \<Rightarrow> mgr \<Rightarrow> mgr \<Rightarrow> bool" for i m where
  arm: "m_thr m ! i = Arm g r p \<Longrightarrow> thr_step i m (set_pc i (Wait g r p) (count_waiting p 1 m))"
| send: "m_thr m ! i = Wait g r p \<Longrightarrow> has_room (m_sems m ! p) \<Longrightarrow> thr_step i m (set_pc i (Sent g r p) (send_token p m))"
| cancel: "m_thr m ! i = Wait g r p \<Longrightarrow> thr_step i m (set_pc i (CancelSeen g r p) m)"
| retire: "m_thr m ! i = Wait g r p \<Longrightarrow> sem_retired (m_sems m ! p) \<Longrightarrow> thr_step i m (set_pc i (RetireSeen g r p) m)"
| sent_dec: "m_thr m ! i = Sent g r p \<Longrightarrow> thr_step i m (set_pc i (SentDec g r p) (count_waiting p (-1) m))"
| cancel_dec: "m_thr m ! i = CancelSeen g r p \<Longrightarrow> thr_step i m (set_pc i (CancelDec g r) (count_waiting p (-1) m))"
| retire_dec: "m_thr m ! i = RetireSeen g r p \<Longrightarrow> thr_step i m (set_pc i (RetireDec g r) (count_waiting p (-1) m))"
| granted: "m_thr m ! i = SentDec g r p \<Longrightarrow> thr_step i m (granted_section i g r p now m)"
| cancelled: "m_thr m ! i = CancelDec g r \<Longrightarrow> thr_step i m (cancel_section i g m)"
| rebind: "m_thr m ! i = RetireDec g r \<Longrightarrow> thr_step i m (rebind_section i g r now m)"
| recv: "m_thr m ! i = Holding g r p \<Longrightarrow> 0 < sem_tokens (m_sems m ! p) \<Longrightarrow>
    thr_step i m (set_pc i (Released g r) (upd_sem p (\<lambda>s. s\<lparr>sem_tokens := sem_tokens s - 1\<rparr>) m))"
| released: "m_thr m ! i = Released g r \<Longrightarrow> thr_step i m (release_section i g r m)"

text \<open>The manager as a whole: a goroutine moves, a run calls \<open>Acquire\<close>, or an operator or a reload
  changes the limits.\<close>

inductive mgr_step :: "mgr \<Rightarrow> mgr \<Rightarrow> bool" for m where
  thread: "i < length (m_thr m) \<Longrightarrow> thr_step i m m' \<Longrightarrow> mgr_step m m'"
| enter: "mgr_step m (acquire_enter grp runID notify now m)"
| update: "mgr_step m (mgr_Update cfg m)"
| set_override: "mgr_step m (snd (SetLimitOverride grp limit m))"
| clear_override: "mgr_step m (ClearLimitOverride grp m)"


subsection \<open>The invariant\<close>

text \<open>The goroutines that hold a token of a semaphore, that are counted in its \<open>waiting\<close>, and the
  semaphore a queued goroutine is bound to.\<close>

fun holds :: "nat \<Rightarrow> pc \<Rightarrow> bool" where
  "holds p (Sent g r q) = (q = p)"
| "holds p (SentDec g r q) = (q = p)"
| "holds p (Holding g r q) = (q = p)"
| "holds p _ = False"

fun waits :: "nat \<Rightarrow> pc \<Rightarrow> bool" where
  "waits p (Wait g r q) = (q = p)"
| "waits p (Sent g r q) = (q = p)"
| "waits p (CancelSeen g r q) = (q = p)"
| "waits p (RetireSeen g r q) = (q = p)"
| "waits p _ = False"

fun pc_ok :: "(string, nat) fmap \<Rightarrow> group_sem list \<Rightarrow> pc \<Rightarrow> bool" where
  "pc_ok gs ss (Arm g r p) = (p < length ss \<and> (fmlookup gs g = Some p \<or> sem_retired (ss ! p)))"
| "pc_ok gs ss (Wait g r p) = (p < length ss \<and> (fmlookup gs g = Some p \<or> sem_retired (ss ! p)))"
| "pc_ok gs ss (Sent g r p) = (p < length ss)"
| "pc_ok gs ss (SentDec g r p) = (p < length ss)"
| "pc_ok gs ss (CancelSeen g r p) = (p < length ss)"
| "pc_ok gs ss (RetireSeen g r p) = (p < length ss)"
| "pc_ok gs ss (Holding g r p) = (p < length ss)"
| "pc_ok gs ss _ = True"

definition effective :: "(string, int) fmap \<Rightarrow> string \<Rightarrow> group_sem \<Rightarrow> bool" where
  "effective ov g gs \<longleftrightarrow> sem_limit gs = (case fmlookup ov g of None \<Rightarrow> sem_declared gs | Some l \<Rightarrow> l) \<and>
     sem_overridden gs = (fmlookup ov g \<noteq> None)"

definition groups_ok :: "(string, int) fmap \<Rightarrow> (string, nat) fmap \<Rightarrow> group_sem list \<Rightarrow> bool" where
  "groups_ok ov gs ss \<longleftrightarrow>
     (\<forall>g p. fmlookup gs g = Some p \<longrightarrow> p < length ss \<and> \<not> sem_retired (ss ! p) \<and> effective ov g (ss ! p)) \<and>
     (\<forall>g h p. fmlookup gs g = Some p \<longrightarrow> fmlookup gs h = Some p \<longrightarrow> g = h)"

definition sems_ok :: "pc list \<Rightarrow> group_sem list \<Rightarrow> bool" where
  "sems_ok thr ss \<longleftrightarrow> (\<forall>p < length ss. sem_tokens (ss ! p) = cnt (holds p) thr \<and> sem_waiting (ss ! p) = cnt (waits p) thr \<and>
     sem_tokens (ss ! p) \<le> sem_limit (ss ! p) \<and> 1 \<le> sem_limit (ss ! p) \<and> 1 \<le> sem_declared (ss ! p))"

definition mgr_inv :: "mgr \<Rightarrow> bool" where
  "mgr_inv m \<longleftrightarrow> groups_ok (m_overrides m) (m_groups m) (m_sems m) \<and> sems_ok (m_thr m) (m_sems m) \<and>
     list_all (pc_ok (m_groups m) (m_sems m)) (m_thr m) \<and> (\<forall>g l. fmlookup (m_overrides m) g = Some l \<longrightarrow> 1 \<le> l)"

lemma queue_ops_frame [simp]:
  "m_groups (addHolder g i now m) = m_groups m" "m_sems (addHolder g i now m) = m_sems m"
  "m_overrides (addHolder g i now m) = m_overrides m" "m_thr (addHolder g i now m) = m_thr m"
  "m_groups (addWaiter g w m) = m_groups m" "m_sems (addWaiter g w m) = m_sems m"
  "m_overrides (addWaiter g w m) = m_overrides m" "m_thr (addWaiter g w m) = m_thr m"
  "m_groups (dropWaiter g k m) = m_groups m" "m_sems (dropWaiter g k m) = m_sems m"
  "m_overrides (dropWaiter g k m) = m_overrides m" "m_thr (dropWaiter g k m) = m_thr m"
  "m_groups (dropHolder g i m) = m_groups m" "m_sems (dropHolder g i m) = m_sems m"
  "m_overrides (dropHolder g i m) = m_overrides m" "m_thr (dropHolder g i m) = m_thr m"
  "m_groups (notifyWaiters g m) = m_groups m" "m_sems (notifyWaiters g m) = m_sems m"
  "m_overrides (notifyWaiters g m) = m_overrides m" "m_thr (notifyWaiters g m) = m_thr m"
  by (auto simp: addHolder_def addWaiter_def dropWaiter_def dropHolder_def pruneQueue_def notifyWaiters_def Let_def
      split: option.splits)

text \<open>A step of a goroutine changes only the counters of semaphores and its own position.\<close>

lemma mgr_inv_thread:
  assumes inv: "mgr_inv m" and i: "i < length (m_thr m)"
    and same: "m_groups m' = m_groups m" "m_overrides m' = m_overrides m" "m_thr m' = (m_thr m)[i := c]"
      "length (m_sems m') = length (m_sems m)"
    and static: "\<And>p. p < length (m_sems m) \<Longrightarrow> sem_limit (m_sems m' ! p) = sem_limit (m_sems m ! p) \<and>
        sem_declared (m_sems m' ! p) = sem_declared (m_sems m ! p) \<and>
        sem_overridden (m_sems m' ! p) = sem_overridden (m_sems m ! p) \<and>
        sem_retired (m_sems m' ! p) = sem_retired (m_sems m ! p)"
    and tok: "\<And>p. p < length (m_sems m) \<Longrightarrow> sem_tokens (m_sems m' ! p) \<le> sem_limit (m_sems m ! p) \<and>
        sem_tokens (m_sems m' ! p) = sem_tokens (m_sems m ! p) - of_bool (holds p (m_thr m ! i)) + of_bool (holds p c)"
    and wai: "\<And>p. p < length (m_sems m) \<Longrightarrow>
        sem_waiting (m_sems m' ! p) = sem_waiting (m_sems m ! p) - of_bool (waits p (m_thr m ! i)) + of_bool (waits p c)"
    and ok: "pc_ok (m_groups m) (m_sems m) c"
  shows "mgr_inv m'"
proof -
  have pcs: "pc_ok (m_groups m) (m_sems m') d = pc_ok (m_groups m) (m_sems m) d" for d
    using static same(4) by (cases d) auto
  have "p < length (m_sems m) \<Longrightarrow> effective (m_overrides m) g (m_sems m' ! p) = effective (m_overrides m) g (m_sems m ! p)"
    for g p using static [of p] by (simp add: effective_def split: option.splits)
  then have "groups_ok (m_overrides m) (m_groups m) (m_sems m')"
    using inv static same(4) unfolding mgr_inv_def groups_ok_def by metis
  moreover have "sems_ok (m_thr m') (m_sems m')"
    unfolding sems_ok_def same(3,4)
  proof (intro allI impI)
    fix p assume p: "p < length (m_sems m)"
    have "sem_tokens (m_sems m ! p) = cnt (holds p) (m_thr m)" "sem_waiting (m_sems m ! p) = cnt (waits p) (m_thr m)"
      "1 \<le> sem_limit (m_sems m ! p)" "1 \<le> sem_declared (m_sems m ! p)"
      using inv p unfolding mgr_inv_def sems_ok_def by blast+
    then show "sem_tokens (m_sems m' ! p) = cnt (holds p) ((m_thr m)[i := c]) \<and>
        sem_waiting (m_sems m' ! p) = cnt (waits p) ((m_thr m)[i := c]) \<and>
        sem_tokens (m_sems m' ! p) \<le> sem_limit (m_sems m' ! p) \<and> 1 \<le> sem_limit (m_sems m' ! p) \<and> 1 \<le> sem_declared (m_sems m' ! p)"
      using tok [OF p] wai [OF p] static [OF p] by (simp add: cnt_update [OF i])
  qed
  moreover have "list_all (pc_ok (m_groups m) (m_sems m')) (m_thr m')"
    using inv ok i by (auto simp: mgr_inv_def list_all_length same(3) pcs nth_list_update)
  ultimately show ?thesis using inv by (simp add: mgr_inv_def same)
qed

lemma mgr_inv_pc: "mgr_inv m \<Longrightarrow> i < length (m_thr m) \<Longrightarrow> pc_ok (m_groups m) (m_sems m) (m_thr m ! i)"
  by (simp add: mgr_inv_def list_all_length)

lemma mgr_inv_group: "mgr_inv m \<Longrightarrow> fmlookup (m_groups m) g = Some p \<Longrightarrow> p < length (m_sems m)"
  by (auto simp: mgr_inv_def groups_ok_def)

lemma mgr_inv_tokens: "mgr_inv m \<Longrightarrow> p < length (m_sems m) \<Longrightarrow> sem_tokens (m_sems m ! p) \<le> sem_limit (m_sems m ! p)"
  unfolding mgr_inv_def sems_ok_def by blast

lemma mgr_inv_tokens_less: "mgr_inv m \<Longrightarrow> p < length (m_sems m) \<Longrightarrow> sem_tokens (m_sems m ! p) - 1 \<le> sem_limit (m_sems m ! p)"
  using mgr_inv_tokens [of m p] by linarith

lemmas section_defs = granted_section_def cancel_section_def rebind_section_def release_section_def count_waiting_def
  has_room_def

lemma mgr_inv_thr_step:
  assumes "mgr_inv m" "i < length (m_thr m)" "thr_step i m m'"
  shows "mgr_inv m'"
  using assms(3)
proof cases
  case (rebind g r now)
  show ?thesis
  proof (cases "fmlookup (m_groups m) g")
    case None
    then show ?thesis using rebind assms
      by (intro mgr_inv_thread [OF assms(1,2), of _ "Failed AcqGroupRemoved"])
        (auto simp: section_defs mgr_inv_tokens)
  next
    case (Some p)
    show ?thesis
    proof (cases "has_room (m_sems m ! p)")
      case True
      then show ?thesis using rebind Some assms mgr_inv_group [OF assms(1) Some]
        by (intro mgr_inv_thread [OF assms(1,2), of _ "Holding g r p"])
          (auto simp: section_defs nth_list_update mgr_inv_tokens)
    next
      case False
      then show ?thesis using rebind Some assms mgr_inv_group [OF assms(1) Some]
        by (intro mgr_inv_thread [OF assms(1,2), of _ "Arm g r p"])
          (auto simp: section_defs nth_list_update mgr_inv_tokens)
    qed
  qed
qed (rule mgr_inv_thread [OF assms(1,2)], use assms mgr_inv_pc [OF assms(1,2)] in
    \<open>auto simp: section_defs nth_list_update mgr_inv_tokens mgr_inv_tokens_less\<close>)+


text \<open>A call of \<open>Acquire\<close> adds a goroutine.\<close>

lemma mgr_inv_spawn:
  assumes inv: "mgr_inv m"
    and same: "m_groups m' = m_groups m" "m_overrides m' = m_overrides m" "m_thr m' = m_thr m @ [c]"
    and sems: "m_sems m' = m_sems m \<and> (\<forall>p. \<not> holds p c) \<or>
      (\<exists>p. fmlookup (m_groups m) g = Some p \<and> has_room (m_sems m ! p) \<and> c = Holding g r p \<and> m_sems m' = m_sems (send_token p m))"
    and ok: "pc_ok (m_groups m) (m_sems m) c" and now: "\<And>p. \<not> waits p c"
  shows "mgr_inv m'"
proof -
  have st: "length (m_sems m') = length (m_sems m)"
    "p < length (m_sems m) \<Longrightarrow> sem_limit (m_sems m' ! p) = sem_limit (m_sems m ! p) \<and>
      sem_declared (m_sems m' ! p) = sem_declared (m_sems m ! p) \<and> sem_overridden (m_sems m' ! p) = sem_overridden (m_sems m ! p) \<and>
      sem_retired (m_sems m' ! p) = sem_retired (m_sems m ! p) \<and> sem_waiting (m_sems m' ! p) = sem_waiting (m_sems m ! p) \<and>
      (sem_tokens (m_sems m ! p) \<le> sem_limit (m_sems m ! p) \<longrightarrow> sem_tokens (m_sems m' ! p) \<le> sem_limit (m_sems m ! p)) \<and>
      sem_tokens (m_sems m' ! p) = sem_tokens (m_sems m ! p) + of_bool (holds p c)" for p
    using sems by (auto simp: nth_list_update has_room_def)
  have "p < length (m_sems m) \<Longrightarrow> effective (m_overrides m) g (m_sems m' ! p) = effective (m_overrides m) g (m_sems m ! p)"
    for g p using st(2) [of p] by (simp add: effective_def split: option.splits)
  then have "groups_ok (m_overrides m) (m_groups m) (m_sems m')"
    using inv st unfolding mgr_inv_def groups_ok_def by metis
  moreover have "sems_ok (m_thr m') (m_sems m')"
    unfolding sems_ok_def st(1) same(3)
  proof (intro allI impI)
    fix p assume p: "p < length (m_sems m)"
    have "sem_tokens (m_sems m ! p) = cnt (holds p) (m_thr m)" "sem_waiting (m_sems m ! p) = cnt (waits p) (m_thr m)"
      "sem_tokens (m_sems m ! p) \<le> sem_limit (m_sems m ! p)" "1 \<le> sem_limit (m_sems m ! p)" "1 \<le> sem_declared (m_sems m ! p)"
      using inv p unfolding mgr_inv_def sems_ok_def by blast+
    then show "sem_tokens (m_sems m' ! p) = cnt (holds p) (m_thr m @ [c]) \<and>
        sem_waiting (m_sems m' ! p) = cnt (waits p) (m_thr m @ [c]) \<and>
        sem_tokens (m_sems m' ! p) \<le> sem_limit (m_sems m' ! p) \<and> 1 \<le> sem_limit (m_sems m' ! p) \<and> 1 \<le> sem_declared (m_sems m' ! p)"
      using st(2) [OF p] now [of p] by simp
  qed
  moreover have "pc_ok (m_groups m) (m_sems m') d = pc_ok (m_groups m) (m_sems m) d" for d
    using st by (cases d) auto
  ultimately show ?thesis using inv ok by (simp add: mgr_inv_def same list_all_iff)
qed

lemma mgr_inv_enter: "mgr_inv m \<Longrightarrow> mgr_inv (acquire_enter grp runID notify now m)"
proof -
  assume inv: "mgr_inv m"
  show ?thesis
  proof (cases "fmlookup (m_groups m) grp")
    case None
    then show ?thesis
      by (intro mgr_inv_spawn [OF inv, of _ "if grp = [] then Unbounded else Failed AcqUnknownGroup" grp runID])
        (auto simp: acquire_enter_def Let_def)
  next
    case (Some p)
    then show ?thesis using mgr_inv_group [OF inv Some]
      by (intro mgr_inv_spawn [OF inv, of _ "if grp = [] then Unbounded else if has_room (m_sems m ! p)
              then Holding grp runID p else Arm grp runID p" grp runID])
        (auto simp: acquire_enter_def Let_def)
  qed
qed

text \<open>A reconfiguration adds semaphores, replaces the table and retires what it drops.\<close>

lemma mgr_inv_config:
  assumes inv: "mgr_inv m" and thr: "m_thr m' = m_thr m"
    and len: "length (m_sems m) \<le> length (m_sems m')"
    and old: "\<And>p. p < length (m_sems m) \<Longrightarrow> sem_tokens (m_sems m' ! p) = sem_tokens (m_sems m ! p) \<and>
        sem_waiting (m_sems m' ! p) = sem_waiting (m_sems m ! p) \<and> sem_limit (m_sems m' ! p) = sem_limit (m_sems m ! p) \<and>
        1 \<le> sem_declared (m_sems m' ! p) \<and> (sem_retired (m_sems m ! p) \<longrightarrow> sem_retired (m_sems m' ! p))"
    and new: "\<And>p. length (m_sems m) \<le> p \<Longrightarrow> p < length (m_sems m') \<Longrightarrow> sem_tokens (m_sems m' ! p) = 0 \<and>
        sem_waiting (m_sems m' ! p) = 0 \<and> 1 \<le> sem_limit (m_sems m' ! p) \<and> 1 \<le> sem_declared (m_sems m' ! p)"
    and groups: "groups_ok (m_overrides m') (m_groups m') (m_sems m')"
    and dropped: "\<And>g p. fmlookup (m_groups m) g = Some p \<Longrightarrow> fmlookup (m_groups m') g = Some p \<or> sem_retired (m_sems m' ! p)"
    and ov: "\<And>g l. fmlookup (m_overrides m') g = Some l \<Longrightarrow> 1 \<le> l"
  shows "mgr_inv m'"
proof -
  have pcs: "pc_ok (m_groups m) (m_sems m) c \<Longrightarrow> pc_ok (m_groups m') (m_sems m') c" for c
    using old len dropped by (cases c) (auto intro: less_le_trans)
  have unref: "cnt (holds p) (m_thr m) = 0 \<and> cnt (waits p) (m_thr m) = 0" if "length (m_sems m) \<le> p" for p
  proof -
    have "pc_ok (m_groups m) (m_sems m) c \<Longrightarrow> \<not> holds p c \<and> \<not> waits p c" for c using that by (cases c) auto
    then show ?thesis using inv by (auto simp: mgr_inv_def list_all_iff intro!: cnt_zero)
  qed
  have "sems_ok (m_thr m) (m_sems m')"
    unfolding sems_ok_def
  proof (intro allI impI)
    fix p assume p: "p < length (m_sems m')"
    show "sem_tokens (m_sems m' ! p) = cnt (holds p) (m_thr m) \<and> sem_waiting (m_sems m' ! p) = cnt (waits p) (m_thr m) \<and>
      sem_tokens (m_sems m' ! p) \<le> sem_limit (m_sems m' ! p) \<and> 1 \<le> sem_limit (m_sems m' ! p) \<and> 1 \<le> sem_declared (m_sems m' ! p)"
    proof (cases "p < length (m_sems m)")
      case True
      then show ?thesis using inv old [OF True] unfolding mgr_inv_def sems_ok_def by metis
    next
      case False
      then show ?thesis using new [of p] p unref [of p] by simp
    qed
  qed
  moreover have "list_all (pc_ok (m_groups m') (m_sems m')) (m_thr m)"
    using inv pcs by (auto simp: mgr_inv_def list_all_iff)
  ultimately show ?thesis using groups ov thr by (simp add: mgr_inv_def)
qed


lemma retire_sem_nth [simp]: "length (retire_sem p ss) = length ss"
  "q < length ss \<Longrightarrow> retire_sem p ss ! q = (if q = p then (ss ! p)\<lparr>sem_retired := True\<rparr> else ss ! q)"
  by (simp_all add: retire_sem_def nth_list_update)

lemma mgr_inv_sem: "mgr_inv m \<Longrightarrow> p < length (m_sems m) \<Longrightarrow> 1 \<le> sem_limit (m_sems m ! p) \<and> 1 \<le> sem_declared (m_sems m ! p)"
  unfolding mgr_inv_def sems_ok_def by blast

lemma mgr_inv_lookup: "mgr_inv m \<Longrightarrow> fmlookup (m_groups m) g = Some p \<Longrightarrow>
  p < length (m_sems m) \<and> \<not> sem_retired (m_sems m ! p) \<and> effective (m_overrides m) g (m_sems m ! p)"
  by (simp add: mgr_inv_def groups_ok_def)

lemma mgr_inv_inj: "mgr_inv m \<Longrightarrow> fmlookup (m_groups m) g = Some p \<Longrightarrow> fmlookup (m_groups m) h = Some p \<Longrightarrow> g = h"
  by (simp add: mgr_inv_def groups_ok_def)

lemma mgr_inv_override: "mgr_inv m \<Longrightarrow> fmlookup (m_overrides m) g = Some l \<Longrightarrow> 1 \<le> l"
  by (simp add: mgr_inv_def)

lemma effective_frame: "(fmlookup ov' g = fmlookup ov g) \<Longrightarrow> effective ov' g gs = effective ov g gs"
  by (simp add: effective_def)

text \<open>Swapping the semaphore of one group, and changing the flag of a kept one.\<close>

lemma mgr_inv_swap:
  assumes inv: "mgr_inv m" and p: "fmlookup (m_groups m) grp = Some p"
    and ov: "\<And>g. g \<noteq> grp \<Longrightarrow> fmlookup ov g = fmlookup (m_overrides m) g" "\<And>g l. fmlookup ov g = Some l \<Longrightarrow> 1 \<le> l"
    and new: "new = newGroupSem d l b" "1 \<le> d" "1 \<le> l" "effective ov grp new"
  shows "mgr_inv (swap_sem grp p new (m\<lparr>m_overrides := ov\<rparr>))"
proof -
  have "groups_ok ov (fmupd grp (length (m_sems m)) (m_groups m)) (retire_sem p (m_sems m @ [new]))"
    unfolding groups_ok_def
  proof (rule conjI; intro allI impI)
    fix g q assume "fmlookup (fmupd grp (length (m_sems m)) (m_groups m)) g = Some q"
    then consider "g = grp" "q = length (m_sems m)" | "g \<noteq> grp" "fmlookup (m_groups m) g = Some q"
      by (auto split: if_splits)
    then show "q < length (retire_sem p (m_sems m @ [new])) \<and> \<not> sem_retired (retire_sem p (m_sems m @ [new]) ! q) \<and>
      effective ov g (retire_sem p (m_sems m @ [new]) ! q)"
    proof cases
      case 1
      then show ?thesis
        using mgr_inv_lookup [OF inv p] new by (auto simp: newGroupSem_def)
    next
      case 2
      then have "q \<noteq> p" "q < length (m_sems m)" "\<not> sem_retired (m_sems m ! q)" "effective ov g (m_sems m ! q)"
        using mgr_inv_inj [OF inv p] mgr_inv_lookup [OF inv, of g q] effective_frame [OF ov(1)] by blast+
      then show ?thesis
        by (simp_all add: nth_append)
    qed
  next
    fix g h q assume "fmlookup (fmupd grp (length (m_sems m)) (m_groups m)) g = Some q"
      "fmlookup (fmupd grp (length (m_sems m)) (m_groups m)) h = Some q"
    then show "g = h"
      using mgr_inv_group [OF inv, of g q] mgr_inv_group [OF inv, of h q] mgr_inv_inj [OF inv, of g q h]
      by (auto split: if_splits)
  qed
  then show ?thesis using mgr_inv_lookup [OF inv p] p ov(2) new mgr_inv_sem [OF inv]
    by (intro mgr_inv_config [OF inv]) (auto simp: swap_sem_def nth_append newGroupSem_def nth_Cons')
qed

lemma mgr_inv_flag:
  assumes inv: "mgr_inv m" and p: "fmlookup (m_groups m) grp = Some p"
    and ov: "\<And>g. g \<noteq> grp \<Longrightarrow> fmlookup ov g = fmlookup (m_overrides m) g" "\<And>g l. fmlookup ov g = Some l \<Longrightarrow> 1 \<le> l"
    and eff: "effective ov grp ((m_sems m ! p)\<lparr>sem_overridden := b\<rparr>)"
  shows "mgr_inv (upd_sem p (\<lambda>g. g\<lparr>sem_overridden := b\<rparr>) (m\<lparr>m_overrides := ov\<rparr>))"
proof -
  have "groups_ok ov (m_groups m) ((m_sems m)[p := (m_sems m ! p)\<lparr>sem_overridden := b\<rparr>])"
    unfolding groups_ok_def
  proof (rule conjI; intro allI impI)
    fix g q assume "fmlookup (m_groups m) g = Some q"
    then show "q < length ((m_sems m)[p := (m_sems m ! p)\<lparr>sem_overridden := b\<rparr>]) \<and>
      \<not> sem_retired ((m_sems m)[p := (m_sems m ! p)\<lparr>sem_overridden := b\<rparr>] ! q) \<and>
      effective ov g ((m_sems m)[p := (m_sems m ! p)\<lparr>sem_overridden := b\<rparr>] ! q)"
      using mgr_inv_lookup [OF inv, of g q] mgr_inv_inj [OF inv p, of g] effective_frame [OF ov(1), of g] eff p
      by (cases "g = grp"; fastforce simp: nth_list_update)
  qed (rule mgr_inv_inj [OF inv])
  then show ?thesis using mgr_inv_lookup [OF inv p] ov(2) mgr_inv_sem [OF inv]
    by (intro mgr_inv_config [OF inv]) (auto simp: nth_list_update)
qed

lemma mgr_inv_undeclared:
  assumes "mgr_inv m" "fmlookup (m_groups m) grp = None" "\<And>g. g \<noteq> grp \<Longrightarrow> fmlookup ov g = fmlookup (m_overrides m) g"
    "\<And>g l. fmlookup ov g = Some l \<Longrightarrow> 1 \<le> l"
  shows "mgr_inv (m\<lparr>m_overrides := ov\<rparr>)"
proof -
  have "groups_ok ov (m_groups m) (m_sems m)"
    using mgr_inv_lookup [OF assms(1)] mgr_inv_inj [OF assms(1)] assms(2,3)
    by (auto simp: groups_ok_def) (metis effective_frame option.distinct(1))
  then show ?thesis using assms(1,4) by (simp add: mgr_inv_def)
qed

lemma mgr_inv_set_override: "mgr_inv m \<Longrightarrow> mgr_inv (snd (SetLimitOverride grp limit m))"
proof -
  assume inv: "mgr_inv m"
  define ov where "ov = fmupd grp limit (m_overrides m)"
  have ov: "g \<noteq> grp \<Longrightarrow> fmlookup ov g = fmlookup (m_overrides m) g" "1 \<le> limit \<Longrightarrow> fmlookup ov g = Some l \<Longrightarrow> 1 \<le> l" for g l
    using mgr_inv_override [OF inv] by (auto simp: ov_def split: if_splits)
  show ?thesis
  proof (cases "limit < 1")
    case False
    then have lim: "1 \<le> limit" by simp
    show ?thesis
    proof (cases "fmlookup (m_groups m) grp")
      case None
      with lim mgr_inv_undeclared [OF inv None ov] show ?thesis by (simp add: SetLimitOverride_def ov_def)
    next
      case (Some p)
      have "effective ov grp (newGroupSem (sem_declared (m_sems m ! p)) limit True)"
        by (simp add: effective_def newGroupSem_def ov_def)
      from mgr_inv_swap [OF inv Some ov refl _ lim this] mgr_inv_flag [OF inv Some ov, where b = True] lim
        mgr_inv_sem [OF inv mgr_inv_group [OF inv Some]]
      show ?thesis using Some
        by (auto simp: SetLimitOverride_def Let_def ov_def effective_def)
    qed
  qed (use inv in \<open>simp add: SetLimitOverride_def\<close>)
qed

lemma mgr_inv_clear_override: "mgr_inv m \<Longrightarrow> mgr_inv (ClearLimitOverride grp m)"
proof -
  assume inv: "mgr_inv m"
  define ov where "ov = fmdrop grp (m_overrides m)"
  have ov: "g \<noteq> grp \<Longrightarrow> fmlookup ov g = fmlookup (m_overrides m) g" "fmlookup ov g = Some l \<Longrightarrow> 1 \<le> l" for g l
    using mgr_inv_override [OF inv] by (auto simp: ov_def split: if_splits)
  show ?thesis
  proof (cases "fmlookup (m_groups m) grp")
    case None
    with mgr_inv_undeclared [OF inv None ov] show ?thesis by (simp add: ClearLimitOverride_def ov_def)
  next
    case (Some p)
    let ?d = "sem_declared (m_sems m ! p)"
    have d: "1 \<le> ?d" using mgr_inv_sem [OF inv mgr_inv_group [OF inv Some]] by simp
    have "effective ov grp (newGroupSem ?d ?d False)"
      by (simp add: effective_def newGroupSem_def ov_def)
    from mgr_inv_swap [OF inv Some ov refl d d this] mgr_inv_flag [OF inv Some ov, where b = False]
    show ?thesis using Some by (auto simp: ClearLimitOverride_def Let_def ov_def effective_def)
  qed
qed


text \<open>The first loop of \<open>Update\<close>: the table under construction refers to kept semaphores of the same
  group or to fresh ones.\<close>

definition fm_inj :: "('a, 'b) fmap \<Rightarrow> bool" where
  "fm_inj m \<longleftrightarrow> (\<forall>g h p. fmlookup m g = Some p \<longrightarrow> fmlookup m h = Some p \<longrightarrow> g = h)"

definition upd_ok :: "mgr \<Rightarrow> (string, nat) fmap \<times> group_sem list \<Rightarrow> bool" where
  "upd_ok m acc \<longleftrightarrow> (case acc of (nxt, ss) \<Rightarrow> length (m_sems m) \<le> length ss \<and>
     (\<forall>p < length (m_sems m). sem_tokens (ss ! p) = sem_tokens (m_sems m ! p) \<and> sem_waiting (ss ! p) = sem_waiting (m_sems m ! p) \<and>
        sem_limit (ss ! p) = sem_limit (m_sems m ! p) \<and> 1 \<le> sem_declared (ss ! p) \<and> sem_retired (ss ! p) = sem_retired (m_sems m ! p)) \<and>
     (\<forall>p. length (m_sems m) \<le> p \<and> p < length ss \<longrightarrow> sem_tokens (ss ! p) = 0 \<and> sem_waiting (ss ! p) = 0 \<and>
        1 \<le> sem_limit (ss ! p) \<and> 1 \<le> sem_declared (ss ! p) \<and> \<not> sem_retired (ss ! p)) \<and>
     (\<forall>g p. fmlookup nxt g = Some p \<longrightarrow> p < length ss \<and> effective (m_overrides m) g (ss ! p) \<and>
        (p < length (m_sems m) \<longrightarrow> fmlookup (m_groups m) g = Some p)) \<and>
     fm_inj nxt)"

lemma upd_ok_fresh:
  assumes "upd_ok m (nxt, ss)" "gs = newGroupSem d l b" "1 \<le> d" "1 \<le> l" "effective (m_overrides m) name gs"
  shows "upd_ok m (fmupd name (length ss) nxt, ss @ [gs])"
proof -
  have "gs = (ss @ [gs]) ! length ss" by simp
  moreover have "sem_tokens gs = 0" "sem_waiting gs = 0" "1 \<le> sem_limit gs" "1 \<le> sem_declared gs" "\<not> sem_retired gs"
    using assms by (simp_all add: newGroupSem_def)
  moreover have "fm_inj (fmupd name (length ss) nxt)"
    using assms(1) unfolding upd_ok_def fm_inj_def prod.case by (metis fmupd_lookup less_irrefl option.inject)
  ultimately show ?thesis using assms(1,5)
    by (auto simp: upd_ok_def nth_append less_Suc_eq split: if_splits)
qed

lemma upd_ok_keep:
  assumes inv: "mgr_inv m" and ok: "upd_ok m (nxt, ss)" and p: "fmlookup (m_groups m) name = Some p"
    and gs: "gs = (ss ! p)\<lparr>sem_declared := d, sem_overridden := b\<rparr>" "1 \<le> d" "effective (m_overrides m) name gs"
  shows "upd_ok m (fmupd name p nxt, ss[p := gs])"
proof -
  have len: "p < length (m_sems m)" "p < length ss"
    using mgr_inv_group [OF inv p] ok by (auto simp: upd_ok_def)
  have inj: "fmlookup nxt g = Some q \<Longrightarrow> g \<noteq> name \<Longrightarrow> q \<noteq> p" for g q
    using ok len mgr_inv_inj [OF inv p, of g] unfolding upd_ok_def by auto
  have "(\<forall>g q. fmlookup (fmupd name p nxt) g = Some q \<longrightarrow> q < length ss \<and> effective (m_overrides m) g (ss[p := gs] ! q) \<and>
        (q < length (m_sems m) \<longrightarrow> fmlookup (m_groups m) g = Some q))"
    using ok len inj gs p by (auto simp: upd_ok_def nth_list_update split: if_splits)
  moreover have "fm_inj (fmupd name p nxt)"
    using ok inj unfolding upd_ok_def fm_inj_def prod.case by (metis fmupd_lookup option.inject)
  ultimately show ?thesis using ok len gs by (auto simp: upd_ok_def nth_list_update)
qed

lemma upd_ok_group:
  assumes inv: "mgr_inv m" and ok: "upd_ok m acc"
  shows "upd_ok m (update_group m ng acc)"
proof -
  obtain name g nxt ss where eq: "ng = (name, g)" "acc = (nxt, ss)" by fastforce
  define d where "d = eff_declared g"
  have d: "1 \<le> d" by (simp add: d_def eff_declared_def DefaultLimit_def)
  define l b where "l = (case fmlookup (m_overrides m) name of Some ov \<Rightarrow> ov | None \<Rightarrow> d)"
    and "b = (fmlookup (m_overrides m) name \<noteq> None)"
  have pair: "(case fmlookup (m_overrides m) name of Some ov \<Rightarrow> (ov, True) | None \<Rightarrow> (d, False)) = (l, b)"
    by (simp add: l_def b_def split: option.splits)
  have l: "1 \<le> l" using mgr_inv_override [OF inv] d by (auto simp: l_def split: option.splits)
  have fresh: "upd_ok m (fmupd name (length ss) nxt, ss @ [newGroupSem d l b])"
    by (rule upd_ok_fresh [OF ok [unfolded eq] refl d l])
      (auto simp: effective_def newGroupSem_def l_def b_def split: option.splits)
  have keep: "upd_ok m (fmupd name p nxt, ss[p := (ss ! p)\<lparr>sem_declared := d, sem_overridden := b\<rparr>])"
    if "fmlookup (m_groups m) name = Some p" "sem_limit (ss ! p) = l" for p
    by (rule upd_ok_keep [OF inv ok [unfolded eq] that(1) refl d])
      (use that(2) in \<open>auto simp: effective_def l_def b_def split: option.splits\<close>)
  show ?thesis using fresh keep
    by (cases "fmlookup (m_groups m) name") (simp_all add: update_group_def eq Let_def pair [unfolded d_def] d_def)
qed

lemma upd_ok_fold: "mgr_inv m \<Longrightarrow> upd_ok m acc \<Longrightarrow> upd_ok m (fold (update_group m) gs acc)"
proof (induction gs arbitrary: acc)
  case (Cons x gs)
  from Cons.IH [OF Cons.prems(1) upd_ok_group [OF Cons.prems]] show ?case by (simp only: fold_simps)
qed simp

lemma upd_ok_start: "mgr_inv m \<Longrightarrow> upd_ok m (fmempty, m_sems m)"
  using mgr_inv_sem [of m] by (auto simp: upd_ok_def fm_inj_def)

text \<open>The second loop: exactly the semaphores not carried forward are retired.\<close>

abbreviation retire_missing :: "(string, nat) fmap \<Rightarrow> (string \<times> nat) list \<Rightarrow> group_sem list \<Rightarrow> group_sem list" where
  "retire_missing nxt \<equiv> fold (\<lambda>(name, old) ss. if fmlookup nxt name \<noteq> Some old then retire_sem old ss else ss)"

lemma length_retire_fold [simp]: "length (retire_missing nxt L ss) = length ss"
  by (induction L arbitrary: ss) auto

lemma retire_fold:
  assumes "p < length ss"
  shows "retire_missing nxt L ss ! p =
      (if \<exists>name. (name, p) \<in> set L \<and> fmlookup nxt name \<noteq> Some p then (ss ! p)\<lparr>sem_retired := True\<rparr> else ss ! p)"
  using assms
proof (induction L arbitrary: ss)
  case (Cons x L)
  obtain name q where x: "x = (name, q)" by fastforce
  show ?case using Cons.IH [of "if fmlookup nxt name \<noteq> Some q then retire_sem q ss else ss"] Cons.prems by (auto simp: x)
qed simp

lemma mgr_inv_update: "mgr_inv m \<Longrightarrow> mgr_inv (mgr_Update cfg m)"
proof -
  assume inv: "mgr_inv m"
  define acc where "acc = (case cfg of None \<Rightarrow> (fmempty, m_sems m)
            | Some c \<Rightarrow> fold (update_group m) (sorted_list_of_fmap c) (fmempty, m_sems m))"
  obtain nxt ss where acc: "acc = (nxt, ss)" by fastforce
  define ss' where "ss' = fold (\<lambda>(name, old) ss. if fmlookup nxt name \<noteq> Some old then retire_sem old ss else ss)
                    (sorted_list_of_fmap (m_groups m)) ss"
  have ok: "upd_ok m (nxt, ss)"
    unfolding acc [symmetric] acc_def
    by (simp add: upd_ok_fold [OF inv upd_ok_start [OF inv]] upd_ok_start [OF inv] split: option.split)
  have len: "length ss' = length ss" by (simp add: ss'_def)
  have upd: "mgr_Update cfg m = m\<lparr>m_groups := nxt, m_sems := ss'\<rparr>"
    by (simp add: mgr_Update_def acc_def [symmetric] acc ss'_def)
  have nth: "p < length ss \<Longrightarrow> ss' ! p = (if \<exists>name. fmlookup (m_groups m) name = Some p \<and> fmlookup nxt name \<noteq> Some p
      then (ss ! p)\<lparr>sem_retired := True\<rparr> else ss ! p)" for p
    using retire_fold [of p ss nxt "sorted_list_of_fmap (m_groups m)"] by (simp add: ss'_def)
  have cur: "\<not> (\<exists>name. fmlookup (m_groups m) name = Some p \<and> fmlookup nxt name \<noteq> Some p)" if "fmlookup nxt g = Some p" for g p
  proof
    assume "\<exists>name. fmlookup (m_groups m) name = Some p \<and> fmlookup nxt name \<noteq> Some p"
    then obtain name where n: "fmlookup (m_groups m) name = Some p" "fmlookup nxt name \<noteq> Some p" by blast
    then have "fmlookup (m_groups m) g = Some p" using mgr_inv_group [OF inv n(1)] ok that by (auto simp: upd_ok_def)
    with mgr_inv_inj [OF inv n(1)] n that show False by blast
  qed
  have "groups_ok (m_overrides m) nxt ss'"
  proof (unfold groups_ok_def, rule conjI; intro allI impI)
    fix g p assume g: "fmlookup nxt g = Some p"
    then have "p < length ss" "effective (m_overrides m) g (ss ! p)" using ok by (auto simp: upd_ok_def)
    moreover have "\<not> sem_retired (ss ! p)"
      using ok g mgr_inv_lookup [OF inv, of g p] calculation(1)
      by (cases "p < length (m_sems m)") (auto simp: upd_ok_def)
    ultimately show "p < length ss' \<and> \<not> sem_retired (ss' ! p) \<and> effective (m_overrides m) g (ss' ! p)"
      using nth cur [OF g] by (simp add: len)
  qed (use ok in \<open>unfold upd_ok_def fm_inj_def prod.case, blast\<close>)
  moreover have "p < length ss \<Longrightarrow> sem_tokens (ss' ! p) = sem_tokens (ss ! p) \<and> sem_waiting (ss' ! p) = sem_waiting (ss ! p) \<and>
      sem_limit (ss' ! p) = sem_limit (ss ! p) \<and> sem_declared (ss' ! p) = sem_declared (ss ! p) \<and>
      (sem_retired (ss ! p) \<longrightarrow> sem_retired (ss' ! p))" for p
    using nth [of p] by simp
  moreover have "fmlookup nxt g = Some p \<or> sem_retired (ss' ! p)" if "fmlookup (m_groups m) g = Some p" for g p
    using nth [of p] that mgr_inv_group [OF inv that] ok by (auto simp: upd_ok_def)
  moreover have "length (m_sems m) \<le> length ss" using ok by (simp add: upd_ok_def)
  ultimately show ?thesis unfolding upd
    by (intro mgr_inv_config [OF inv]) (use ok mgr_inv_override [OF inv] in \<open>simp_all add: upd_ok_def len\<close>)
qed


subsection \<open>Reachable states\<close>

definition mgr_init :: "mgr \<Rightarrow> bool" where
  "mgr_init m \<longleftrightarrow> (\<exists>cfg. m = NewManager cfg)"

lemma mgr_inv_step: "mgr_step m m' \<Longrightarrow> mgr_inv m \<Longrightarrow> mgr_inv m'"
  by (induction rule: mgr_step.induct)
    (auto intro: mgr_inv_thr_step mgr_inv_enter mgr_inv_update mgr_inv_set_override mgr_inv_clear_override)

lemma mgr_inv_New: "mgr_inv (NewManager cfg)"
  unfolding NewManager_def by (rule mgr_inv_update) (simp add: mgr_inv_def groups_ok_def sems_ok_def)

interpretation mgi: invariant_system mgr_init mgr_step mgr_inv
  by unfold_locales (auto simp: mgr_init_def mgr_inv_New intro: mgr_inv_step)

lemma slots_within_limit_parts:
  assumes "mgr_step\<^sup>*\<^sup>* (NewManager cfg) m" "fmlookup (m_groups m) g = Some p"
  shows "int (card {i. i < length (m_thr m) \<and> holds p (m_thr m ! i)}) = sem_tokens (m_sems m ! p)"
    and "sem_tokens (m_sems m ! p) \<le> sem_limit (m_sems m ! p)"
    and "sem_limit (m_sems m ! p) = (case fmlookup (m_overrides m) g of None \<Rightarrow> sem_declared (m_sems m ! p) | Some l \<Rightarrow> l)"
proof -
  have inv: "mgr_inv m" using mgi.inv_reachable assms(1) by (auto simp: mgr_init_def)
  note l = mgr_inv_lookup [OF inv assms(2)]
  have "sem_tokens (m_sems m ! p) = cnt (holds p) (m_thr m)"
    using inv l unfolding mgr_inv_def sems_ok_def by blast
  then show "int (card {i. i < length (m_thr m) \<and> holds p (m_thr m ! i)}) = sem_tokens (m_sems m ! p)"
    by (simp add: cnt_card)
  show "sem_tokens (m_sems m ! p) \<le> sem_limit (m_sems m ! p)" using mgr_inv_tokens [OF inv] l by blast
  show "sem_limit (m_sems m ! p) = (case fmlookup (m_overrides m) g of None \<Rightarrow> sem_declared (m_sems m ! p) | Some l \<Rightarrow> l)"
    using l by (simp add: effective_def)
qed

text \<open>
  The concurrency limit holds.  In every state the manager can reach, from any configuration and
  under any interleaving of acquires, cancellations, releases, reloads and operator overrides,
  the number of runs holding a slot of a semaphore equals the tokens in its channel and never
  exceeds its limit; in particular no more runs than a group's effective limit hold slots of its
  current semaphore.
\<close>

theorem slots_within_limit:
  assumes "mgr_step\<^sup>*\<^sup>* (NewManager cfg) m" "fmlookup (m_groups m) g = Some p"
  shows "int (card {i. i < length (m_thr m) \<and> holds p (m_thr m ! i)}) = sem_tokens (m_sems m ! p)
    \<and> sem_tokens (m_sems m ! p) \<le> sem_limit (m_sems m ! p)
    \<and> sem_limit (m_sems m ! p) = (case fmlookup (m_overrides m) g of None \<Rightarrow> sem_declared (m_sems m ! p) | Some l \<Rightarrow> l)"
  using slots_within_limit_parts [OF assms] by (intro conjI)

text \<open>A manager with one group of limit 1, and the state after two runs have called \<open>Acquire\<close>.\<close>

definition mgr_ex0 :: mgr where
  "mgr_ex0 = NewManager (Some (fmupd ''g'' \<lparr>g_Limit = 1, g_Description = []\<rparr> fmempty))"

definition mgr_ex :: mgr where
  "mgr_ex = acquire_enter ''g'' ''r2'' True 6 (acquire_enter ''g'' ''r1'' True 5 mgr_ex0)"

lemma mgr_ex_reach: "mgr_step\<^sup>*\<^sup>* mgr_ex0 mgr_ex"
  unfolding mgr_ex_def by (blast intro: mgr_step.enter rtranclp.rtrancl_into_rtrancl)

lemma mgr_ex0_simps:
  "m_groups mgr_ex0 = fmupd ''g'' 0 fmempty" "m_sems mgr_ex0 = [newGroupSem 1 1 False]" "m_thr mgr_ex0 = []"
  "m_overrides mgr_ex0 = fmempty" "m_queues mgr_ex0 = fmempty" "m_notes mgr_ex0 = []"
  by (simp_all add: mgr_ex0_def NewManager_def mgr_Update_def update_group_def Let_def eff_declared_def)

lemma mgr_ex_simps:
  "m_groups mgr_ex = fmupd ''g'' 0 fmempty" "m_thr mgr_ex = [Holding ''g'' ''r1'' 0, Arm ''g'' ''r2'' 0]"
  "m_sems mgr_ex = [(newGroupSem 1 1 False)\<lparr>sem_tokens := 1\<rparr>]"
  by (simp_all add: mgr_ex_def acquire_enter_def mgr_ex0_simps has_room_def newGroupSem_def Let_def)

theorem slots_within_limit_witness:
  "sem_tokens (m_sems mgr_ex ! 0) \<le> sem_limit (m_sems mgr_ex ! 0)"
  using slots_within_limit [OF mgr_ex_reach [unfolded mgr_ex0_def], of "''g''" 0] by (simp add: mgr_ex_simps)

text \<open>
  C14: No queued run is stranded.  In every reachable state, a run blocked in the \<open>select\<close> of \<open>Acquire\<close>
  can always move by itself (the semaphore it waits on has room, or has been retired so that the
  run re-binds to the group's current one) unless it waits on the current semaphore of its group
  and all of that semaphore's slots are taken by other runs.
\<close>

theorem waiter_not_stranded:
  assumes "mgr_step\<^sup>*\<^sup>* (NewManager cfg) m" "i < length (m_thr m)" "m_thr m ! i = Wait g r p"
  shows "thr_step i m (set_pc i (Sent g r p) (send_token p m)) \<or> thr_step i m (set_pc i (RetireSeen g r p) m) \<or>
    (fmlookup (m_groups m) g = Some p \<and> 1 \<le> sem_limit (m_sems m ! p) \<and>
     int (card {k. k < length (m_thr m) \<and> holds p (m_thr m ! k)}) = sem_limit (m_sems m ! p))"
proof -
  have inv: "mgr_inv m" using mgi.inv_reachable assms(1) by (auto simp: mgr_init_def)
  have p: "p < length (m_sems m)" "fmlookup (m_groups m) g = Some p \<or> sem_retired (m_sems m ! p)"
    using mgr_inv_pc [OF inv assms(2)] assms(3) by simp_all
  have "sem_tokens (m_sems m ! p) = cnt (holds p) (m_thr m)" "sem_tokens (m_sems m ! p) \<le> sem_limit (m_sems m ! p)"
    "1 \<le> sem_limit (m_sems m ! p)"
    using inv p unfolding mgr_inv_def sems_ok_def by blast+
  then show ?thesis using p(2) thr_step.send [OF assms(3)] thr_step.retire [OF assms(3)]
    by (cases "has_room (m_sems m ! p)") (auto simp: has_room_def cnt_card)
qed

lemma mgr_ex_waits: "mgr_step\<^sup>*\<^sup>* mgr_ex0 (set_pc 1 (Wait ''g'' ''r2'' 0) (count_waiting 0 1 mgr_ex))"
  by (rule rtranclp.rtrancl_into_rtrancl [OF mgr_ex_reach], rule mgr_step.thread [where i = 1])
    (auto simp: mgr_ex_simps intro!: thr_step.arm)

theorem waiter_not_stranded_witness:
  "thr_step 1 (set_pc 1 (Wait ''g'' ''r2'' 0) (count_waiting 0 1 mgr_ex))
     (set_pc 1 (Sent ''g'' ''r2'' 0) (send_token 0 (set_pc 1 (Wait ''g'' ''r2'' 0) (count_waiting 0 1 mgr_ex)))) \<or>
   thr_step 1 (set_pc 1 (Wait ''g'' ''r2'' 0) (count_waiting 0 1 mgr_ex))
     (set_pc 1 (RetireSeen ''g'' ''r2'' 0) (set_pc 1 (Wait ''g'' ''r2'' 0) (count_waiting 0 1 mgr_ex))) \<or>
   fmlookup (m_groups mgr_ex) ''g'' = Some 0"
  using waiter_not_stranded [OF mgr_ex_waits [unfolded mgr_ex0_def], of 1 "''g''" "''r2''" 0]
  by (auto simp: mgr_ex_simps count_waiting_def)

text \<open>
  A release never blocks and never takes another run's token: in every reachable state the
  channel a holding run releases to contains a token, and the reported number of waiters of a
  group is the number of runs blocked on it.
\<close>

theorem release_never_blocks:
  assumes "mgr_step\<^sup>*\<^sup>* (NewManager cfg) m" "i < length (m_thr m)" "m_thr m ! i = Holding g r p"
  shows "0 < sem_tokens (m_sems m ! p)" "\<exists>m'. thr_step i m m'"
    "sem_waiting (m_sems m ! p) = cnt (waits p) (m_thr m)"
proof -
  have inv: "mgr_inv m" using mgi.inv_reachable assms(1) by (auto simp: mgr_init_def)
  have p: "p < length (m_sems m)" using mgr_inv_pc [OF inv assms(2)] assms(3) by simp
  have c: "sem_tokens (m_sems m ! p) = cnt (holds p) (m_thr m)" "sem_waiting (m_sems m ! p) = cnt (waits p) (m_thr m)"
    using inv p unfolding mgr_inv_def sems_ok_def by blast+
  then show "0 < sem_tokens (m_sems m ! p)" "sem_waiting (m_sems m ! p) = cnt (waits p) (m_thr m)"
    using cnt_pos [OF assms(2), of "holds p"] assms(3) by simp_all
  then show "\<exists>m'. thr_step i m m'" using thr_step.recv [OF assms(3)] by blast
qed

theorem release_never_blocks_witness: "0 < sem_tokens (m_sems mgr_ex ! 0)"
  using release_never_blocks(1) [OF mgr_ex_reach [unfolded mgr_ex0_def], of 0 "''g''" "''r1''" 0] by (simp add: mgr_ex_simps)

end
