(* ===== verification/ConcurrencyQueue.thy ===== *)
theory ConcurrencyQueue
  imports Concurrency
begin

text \<open>
  The advisory holder and waiter lists of \<^verbatim>\<open>internal/concurrency/manager.go\<close>, which the dashboard and
  the runs' timelines show, and the global run cap of \<^verbatim>\<open>global.go\<close>.  The lists are exact: in every
  reachable state a group's list of holders names each run as often as it holds (or is just
  giving back) a slot of the group, and its line of waiters consists of the queued goroutines in
  the order in which they joined.
\<close>

subsection \<open>What the bookkeeping operations do to the lists\<close>

definition qh :: "mgr \<Rightarrow> string \<Rightarrow> holder_rec list" where
  "qh m g = gq_holders (queueFor m g)"

definition qw :: "mgr \<Rightarrow> string \<Rightarrow> waiter_rec list" where
  "qw m g = gq_waiting (queueFor m g)"

lemma lists_frame [simp]:
  "qh (m\<lparr>m_thr := t\<rparr>) g = qh m g" "qw (m\<lparr>m_thr := t\<rparr>) g = qw m g"
  "qh (m\<lparr>m_sems := ss\<rparr>) g = qh m g" "qw (m\<lparr>m_sems := ss\<rparr>) g = qw m g"
  "qh (m\<lparr>m_notes := ns\<rparr>) g = qh m g" "qw (m\<lparr>m_notes := ns\<rparr>) g = qw m g"
  "qh (notifyWaiters h m) g = qh m g" "qw (notifyWaiters h m) g = qw m g"
  "qh (pruneQueue h m) g = qh m g" "qw (pruneQueue h m) g = qw m g"
  by (auto simp: qh_def qw_def queueFor_def notifyWaiters_def pruneQueue_def split: option.splits)

lemma lists_addHolder [simp]:
  "qh (addHolder h i now m) g = (if g = h \<and> i \<noteq> [] then qh m g @ [\<lparr>h_id = i, h_since = now\<rparr>] else qh m g)"
  "qw (addHolder h i now m) g = qw m g"
  by (auto simp: qh_def qw_def queueFor_def addHolder_def Let_def split: option.splits)

lemma lists_addWaiter [simp]:
  "qh (addWaiter h w m) g = qh m g"
  "qw (addWaiter h w m) g = (if g = h \<and> w_id w \<noteq> [] then qw m g @ [w] else qw m g)"
  by (auto simp: qh_def qw_def queueFor_def addWaiter_def Let_def split: option.splits)

lemma lists_upd:
  "qh (m\<lparr>m_queues := fmupd h q (m_queues m)\<rparr>) g = (if g = h then gq_holders q else qh m g)"
  "qw (m\<lparr>m_queues := fmupd h q (m_queues m)\<rparr>) g = (if g = h then gq_waiting q else qw m g)"
  by (auto simp: qh_def qw_def queueFor_def)

lemma lists_dropHolder [simp]:
  "qh (dropHolder h i m) g = (if g = h \<and> i \<noteq> [] then drop_first (\<lambda>x. h_id x = i) (qh m g) else qh m g)"
  "qw (dropHolder h i m) g = qw m g"
  by (auto simp: dropHolder_def lists_upd split: option.splits)
    (auto simp: qh_def qw_def queueFor_def)

lemma lists_dropWaiter [simp]:
  "qh (dropWaiter h t m) g = qh m g"
  "qw (dropWaiter h t m) g = (if g = h then drop_first (\<lambda>c. w_thr c = t) (qw m g) else qw m g)"
  by (auto simp: dropWaiter_def lists_upd split: option.splits)
    (auto simp: qh_def qw_def queueFor_def)

lemma lists_config [simp]:
  "m_queues (mgr_Update cfg m) = m_queues m" "m_queues (snd (SetLimitOverride g l m)) = m_queues m"
  "m_queues (ClearLimitOverride g m) = m_queues m"
  "m_thr (mgr_Update cfg m) = m_thr m" "m_thr (snd (SetLimitOverride g l m)) = m_thr m"
  "m_thr (ClearLimitOverride g m) = m_thr m"
  by (auto simp: mgr_Update_def SetLimitOverride_def ClearLimitOverride_def swap_sem_def Let_def split: prod.splits option.splits)

lemma cnt_drop_first:
  "(\<And>x. P x \<Longrightarrow> \<not> Q x) \<Longrightarrow> cnt Q (drop_first P xs) = cnt Q xs"
  "0 < cnt P xs \<Longrightarrow> cnt P (drop_first P xs) = cnt P xs - 1"
  by (induction xs) auto

lemma drop_first_none: "\<forall>x \<in> set xs. \<not> P x \<Longrightarrow> drop_first P xs = xs"
  by (induction xs) auto

lemma drop_first_sorted:
  "sorted_wrt (<) (map f xs) \<Longrightarrow> map f (drop_first (\<lambda>x. f x = t) xs) = filter (\<lambda>y. y \<noteq> t) (map f xs)" for f :: "'a \<Rightarrow> nat"
proof (induction xs)
  case (Cons x xs)
  then have "f x = t \<Longrightarrow> filter (\<lambda>y. y \<noteq> t) (map f xs) = map f xs" by (auto simp: filter_id_conv)
  with Cons show ?case by auto
qed simp

subsection \<open>The lists are exact\<close>

fun listed :: "string \<Rightarrow> string \<Rightarrow> pc \<Rightarrow> bool" where
  "listed g r (Holding h s p) = (h = g \<and> s = r)"
| "listed g r (Released h s) = (h = g \<and> s = r)"
| "listed g r _ = False"

fun queued :: "string \<Rightarrow> pc \<Rightarrow> bool" where
  "queued g (Arm h r p) = (h = g \<and> r \<noteq> [])"
| "queued g (Wait h r p) = (h = g \<and> r \<noteq> [])"
| "queued g (Sent h r p) = (h = g \<and> r \<noteq> [])"
| "queued g (SentDec h r p) = (h = g \<and> r \<noteq> [])"
| "queued g (CancelSeen h r p) = (h = g \<and> r \<noteq> [])"
| "queued g (CancelDec h r) = (h = g \<and> r \<noteq> [])"
| "queued g (RetireSeen h r p) = (h = g \<and> r \<noteq> [])"
| "queued g (RetireDec h r) = (h = g \<and> r \<noteq> [])"
| "queued g _ = False"

definition adv_inv :: "mgr \<Rightarrow> bool" where
  "adv_inv m \<longleftrightarrow>
     (\<forall>g r. r \<noteq> [] \<longrightarrow> cnt (\<lambda>h. h_id h = r) (qh m g) = cnt (listed g r) (m_thr m)) \<and>
     (\<forall>g. sorted_wrt (<) (map w_thr (qw m g)) \<and> set (map w_thr (qw m g)) = {t. t < length (m_thr m) \<and> queued g (m_thr m ! t)})"

lemma adv_inv_thread:
  assumes inv: "adv_inv m" and i: "i < length (m_thr m)" and thr: "m_thr m' = (m_thr m)[i := c]"
    and hold: "\<And>g r. r \<noteq> [] \<Longrightarrow> cnt (\<lambda>h. h_id h = r) (qh m' g) =
        cnt (\<lambda>h. h_id h = r) (qh m g) - of_bool (listed g r (m_thr m ! i)) + of_bool (listed g r c)"
    and wait: "\<And>g. qw m' g = qw m g \<and> queued g c = queued g (m_thr m ! i) \<or>
        qw m' g = drop_first (\<lambda>c. w_thr c = i) (qw m g) \<and> \<not> queued g c"
  shows "adv_inv m'"
  unfolding adv_inv_def
proof (intro conjI allI impI)
  show "r \<noteq> [] \<Longrightarrow> cnt (\<lambda>h. h_id h = r) (qh m' g) = cnt (listed g r) (m_thr m')" for g r
    using inv hold [of r g] by (simp add: adv_inv_def thr cnt_update [OF i])
  fix g
  have s: "sorted_wrt (<) (map w_thr (qw m g))" "set (map w_thr (qw m g)) = {t. t < length (m_thr m) \<and> queued g (m_thr m ! t)}"
    using inv by (auto simp: adv_inv_def)
  have new: "{t. t < length (m_thr m') \<and> queued g (m_thr m' ! t)} =
      (if queued g c then insert i {t. t < length (m_thr m) \<and> queued g (m_thr m ! t)}
       else {t. t < length (m_thr m) \<and> queued g (m_thr m ! t)} - {i})"
    using i by (auto simp: thr nth_list_update split: if_splits)
  consider "map w_thr (qw m' g) = map w_thr (qw m g)" "queued g c = queued g (m_thr m ! i)"
    | "map w_thr (qw m' g) = filter (\<lambda>y. y \<noteq> i) (map w_thr (qw m g))" "\<not> queued g c"
    using wait [of g] drop_first_sorted [OF s(1), of i] by auto
  then have "sorted_wrt (<) (map w_thr (qw m' g)) \<and>
    set (map w_thr (qw m' g)) = {t. t < length (m_thr m') \<and> queued g (m_thr m' ! t)}"
  proof cases
    case 1
    then show ?thesis using s i by (simp only: new) auto
  next
    case 2
    have "set (filter (\<lambda>y. y \<noteq> i) (map w_thr (qw m g))) = set (map w_thr (qw m g)) - {i}" by auto
    then show ?thesis using s by (simp only: new 2 sorted_wrt_filter) simp
  qed
  then show "sorted_wrt (<) (map w_thr (qw m' g))"
    "set (map w_thr (qw m' g)) = {t. t < length (m_thr m') \<and> queued g (m_thr m' ! t)}" by blast+
qed

lemma adv_inv_queued:
  assumes "adv_inv m" "i < length (m_thr m)" "\<not> queued g (m_thr m ! i)"
  shows "drop_first (\<lambda>c. w_thr c = i) (qw m g) = qw m g"
proof -
  have "i \<notin> w_thr ` set (qw m g)" using assms by (auto simp: adv_inv_def simp flip: set_map)
  then have "\<forall>x \<in> set (qw m g). w_thr x \<noteq> i" by blast
  then show ?thesis by (rule drop_first_none)
qed

lemma adv_inv_listed:
  assumes "adv_inv m" "i < length (m_thr m)" "listed g r (m_thr m ! i)" "r \<noteq> []"
  shows "0 < cnt (\<lambda>h. h_id h = r) (qh m g)"
  using assms cnt_pos [of i "m_thr m" "listed g r"] by (simp add: adv_inv_def)

lemma adv_inv_thr_step:
  assumes "adv_inv m" "i < length (m_thr m)" "thr_step i m m'"
  shows "adv_inv m'"
  using assms(3)
proof cases
  case (rebind g r now)
  then show ?thesis using assms
    by (cases "fmlookup (m_groups m) g"; cases "has_room (m_sems m ! the (fmlookup (m_groups m) g))")
      (auto simp: section_defs adv_inv_queued intro!: adv_inv_thread [OF assms(1,2)])
next
  case (released g r)
  then show ?thesis using assms adv_inv_listed [OF assms(1,2), of g r]
    by (intro adv_inv_thread [OF assms(1,2)]) (auto simp: section_defs cnt_drop_first)
qed (rule adv_inv_thread [OF assms(1,2)], use assms in \<open>auto simp: section_defs adv_inv_queued\<close>)+


lemma adv_inv_spawn:
  assumes inv: "adv_inv m" and thr: "m_thr m' = m_thr m @ [c]"
    and hold: "\<And>g r. r \<noteq> [] \<Longrightarrow> cnt (\<lambda>h. h_id h = r) (qh m' g) = cnt (\<lambda>h. h_id h = r) (qh m g) + of_bool (listed g r c)"
    and wait: "\<And>g. map w_thr (qw m' g) = map w_thr (qw m g) @ (if queued g c then [length (m_thr m)] else [])"
  shows "adv_inv m'"
  unfolding adv_inv_def
proof (intro conjI allI impI)
  show "r \<noteq> [] \<Longrightarrow> cnt (\<lambda>h. h_id h = r) (qh m' g) = cnt (listed g r) (m_thr m')" for g r
    using inv hold [of r g] by (simp add: adv_inv_def thr)
  fix g
  have s: "sorted_wrt (<) (map w_thr (qw m g))" "set (map w_thr (qw m g)) = {t. t < length (m_thr m) \<and> queued g (m_thr m ! t)}"
    using inv by (auto simp: adv_inv_def)
  show "set (map w_thr (qw m' g)) = {t. t < length (m_thr m') \<and> queued g (m_thr m' ! t)}"
  proof -
    have "{t. t < length (m_thr m') \<and> queued g (m_thr m' ! t)} =
        {t. t < length (m_thr m) \<and> queued g (m_thr m ! t)} \<union> (if queued g c then {length (m_thr m)} else {})"
      by (auto simp: thr nth_append less_Suc_eq)
    then show ?thesis by (simp only: wait set_append s(2)) simp
  qed
  have "\<forall>x \<in> set (map w_thr (qw m g)). x < length (m_thr m)" using s(2) by blast
  then show "sorted_wrt (<) (map w_thr (qw m' g))"
    using s(1) by (simp add: wait sorted_wrt_append)
qed

lemma adv_inv_enter: "adv_inv m \<Longrightarrow> adv_inv (acquire_enter grp runID notify now m)"
proof -
  assume inv: "adv_inv m"
  define c where "c = (if grp = [] then Unbounded else case fmlookup (m_groups m) grp of None \<Rightarrow> Failed AcqUnknownGroup
     | Some p \<Rightarrow> if has_room (m_sems m ! p) then Holding grp runID p else Arm grp runID p)"
  show ?thesis
    by (intro adv_inv_spawn [OF inv, of _ c])
      (auto simp: acquire_enter_def Let_def c_def split: option.splits)
qed

lemma adv_inv_config: "adv_inv m \<Longrightarrow> m_queues m' = m_queues m \<Longrightarrow> m_thr m' = m_thr m \<Longrightarrow> adv_inv m'"
  by (simp add: adv_inv_def qh_def qw_def queueFor_def)

lemma adv_inv_step: "mgr_step m m' \<Longrightarrow> adv_inv m \<Longrightarrow> adv_inv m'"
proof (induction rule: mgr_step.induct)
  case (thread i m')
  then show ?case by (blast intro: adv_inv_thr_step)
qed (rule adv_inv_enter adv_inv_config; simp)+

interpretation adv: invariant_system mgr_init mgr_step adv_inv
proof
  show "mgr_init m \<Longrightarrow> adv_inv m" for m
    by (auto simp: mgr_init_def NewManager_def adv_inv_def qh_def qw_def queueFor_def)
qed (rule adv_inv_step)

lemma QueueDetail_lists: "QueueDetail m g = (map (\<lambda>h. (h_id h, h_since h)) (qh m g), map (\<lambda>w. (w_id w, w_since w)) (qw m g))"
  by (simp add: QueueDetail_def qh_def qw_def queueFor_def split: option.splits)

lemma cnt_map [simp]: "cnt P (map f xs) = cnt (P \<circ> f) xs"
  by (induction xs) auto

lemma index_of_sorted:
  "sorted_wrt (<) (map f xs) \<Longrightarrow> t \<in> set (map f xs) \<Longrightarrow>
   index_of (\<lambda>x. f x = t) k xs = k + card {y \<in> set (map f xs). y \<le> t}" for f :: "'a \<Rightarrow> nat"
proof (induction xs arbitrary: k)
  case (Cons x xs)
  show ?case
  proof (cases "f x = t")
    case True
    then have "{y \<in> set (map f (x # xs)). y \<le> t} = {t}" using Cons.prems(1) by fastforce
    then show ?thesis using True by simp
  next
    case False
    then have "f x < t" "f x \<notin> {y \<in> set (map f xs). y \<le> t}" using Cons.prems by fastforce+
    moreover have "{y \<in> set (map f (x # xs)). y \<le> t} = insert (f x) {y \<in> set (map f xs). y \<le> t}"
      using calculation(1) by auto
    ultimately show ?thesis using False Cons by (simp add: card_insert_disjoint)
  qed
qed simp

lemma queue_views_exact_parts:
  assumes "mgr_step\<^sup>*\<^sup>* (NewManager cfg) m"
  shows "r \<noteq> [] \<Longrightarrow> cnt (\<lambda>x. fst x = r) (fst (QueueDetail m g)) = int (card {i. i < length (m_thr m) \<and> listed g r (m_thr m ! i)})"
    and "t < length (m_thr m) \<Longrightarrow> queued g (m_thr m ! t) \<Longrightarrow>
      qs_Position (queueState m g t) = card {i. i \<le> t \<and> queued g (m_thr m ! i)}"
proof -
  have inv: "adv_inv m" using adv.inv_reachable assms by (auto simp: mgr_init_def)
  then show "r \<noteq> [] \<Longrightarrow> cnt (\<lambda>x. fst x = r) (fst (QueueDetail m g)) = int (card {i. i < length (m_thr m) \<and> listed g r (m_thr m ! i)})"
    by (simp add: QueueDetail_lists comp_def adv_inv_def cnt_card [symmetric])
  assume t: "t < length (m_thr m)" "queued g (m_thr m ! t)"
  have s: "sorted_wrt (<) (map w_thr (qw m g))" "set (map w_thr (qw m g)) = {t. t < length (m_thr m) \<and> queued g (m_thr m ! t)}"
    using inv by (auto simp: adv_inv_def)
  have "qs_Position (queueState m g t) = index_of (\<lambda>c. w_thr c = t) 0 (qw m g)"
    by (auto simp: queueState_def qw_def queueFor_def split: option.splits)
  also have "\<dots> = card {y \<in> set (map w_thr (qw m g)). y \<le> t}"
    using index_of_sorted [OF s(1), of t 0] s(2) t by simp
  also have "{y \<in> set (map w_thr (qw m g)). y \<le> t} = {i. i \<le> t \<and> queued g (m_thr m ! i)}"
    using t by (auto simp: s(2) simp del: set_map)
  finally show "qs_Position (queueState m g t) = card {i. i \<le> t \<and> queued g (m_thr m ! i)}" .
qed

text \<open>
  The queue views are exact.  In every reachable state of the manager, the holders reported for
  a group name each run as many times as it holds a slot of the group or is just giving one back,
  and the position reported to a queued run is its place in the line of the runs queued for the
  group, counted in the order in which they called \<open>Acquire\<close>.
\<close>

theorem queue_views_exact:
  assumes "mgr_step\<^sup>*\<^sup>* (NewManager cfg) m"
  shows "(\<forall>r g. r \<noteq> [] \<longrightarrow> cnt (\<lambda>x. fst x = r) (fst (QueueDetail m g)) = int (card {i. i < length (m_thr m) \<and> listed g r (m_thr m ! i)}))
    \<and> (\<forall>t g. t < length (m_thr m) \<longrightarrow> queued g (m_thr m ! t) \<longrightarrow>
      qs_Position (queueState m g t) = card {i. i \<le> t \<and> queued g (m_thr m ! i)})"
  using queue_views_exact_parts [OF assms] by (intro conjI allI impI)

theorem queue_views_exact_witness:
  "cnt (\<lambda>x. fst x = ''r1'') (fst (QueueDetail mgr_ex ''g'')) = 1 \<and> qs_Position (queueState mgr_ex ''g'' 1) = 1"
proof -
  have "{i. i < 2 \<and> listed ''g'' ''r1'' ([Holding ''g'' ''r1'' 0, Arm ''g'' ''r2'' 0] ! i)} = {0::nat}"
    "{i. i \<le> 1 \<and> queued ''g'' ([Holding ''g'' ''r1'' 0, Arm ''g'' ''r2'' 0] ! i)} = {1::nat}"
    by (auto simp: nth_Cons' split: if_splits)
  then show ?thesis
    using queue_views_exact [OF mgr_ex_reach [unfolded mgr_ex0_def], THEN conjunct1, rule_format, of "''r1''" "''g''"]
      queue_views_exact [OF mgr_ex_reach [unfolded mgr_ex0_def], THEN conjunct2, rule_format, of 1 "''g''"]
    by (simp add: mgr_ex_simps numeral_2_eq_2)
qed

subsection \<open>The global run cap\<close>

definition DefaultGlobalLimit :: int where
  "DefaultGlobalLimit = 64"

definition globalGroup :: string where
  "globalGroup = ''global''"

record global_cap =
  gl_def :: int
  gl_mgr :: mgr

definition NewGlobal :: "int \<Rightarrow> global_cap" where
  "NewGlobal d = (let d' = (if d < 1 then DefaultGlobalLimit else d)
     in \<lparr>gl_def = d', gl_mgr = NewManager (Some (fmupd globalGroup \<lparr>g_Limit = d', g_Description = []\<rparr> fmempty))\<rparr>)"

definition global_enter :: "string \<Rightarrow> bool \<Rightarrow> time \<Rightarrow> global_cap \<Rightarrow> global_cap" where
  "global_enter runID notify now g = g\<lparr>gl_mgr := acquire_enter globalGroup runID notify now (gl_mgr g)\<rparr>"

definition global_SetLimitOverride :: "int \<Rightarrow> global_cap \<Rightarrow> bool \<times> global_cap" where
  "global_SetLimitOverride limit g =
     (let (ok, m) = SetLimitOverride globalGroup limit (gl_mgr g) in (ok, g\<lparr>gl_mgr := m\<rparr>))"

definition global_ClearLimitOverride :: "global_cap \<Rightarrow> global_cap" where
  "global_ClearLimitOverride g = g\<lparr>gl_mgr := ClearLimitOverride globalGroup (gl_mgr g)\<rparr>"

text \<open>The cap's manager is private: only these calls and its goroutines change it.\<close>

inductive global_step :: "global_cap \<Rightarrow> global_cap \<Rightarrow> bool" for g where
  gthread: "i < length (m_thr (gl_mgr g)) \<Longrightarrow> thr_step i (gl_mgr g) m' \<Longrightarrow> global_step g (g\<lparr>gl_mgr := m'\<rparr>)"
| genter: "global_step g (global_enter runID notify now g)"
| gset: "global_step g (snd (global_SetLimitOverride limit g))"
| gclear: "global_step g (global_ClearLimitOverride g)"

definition global_Status :: "global_cap \<Rightarrow> int \<times> int \<times> bool \<times> int \<times> int" where
  "global_Status g = (let st = hd (mgr_Status (gl_mgr g))
     in (gst_Limit st, gst_Declared st, gst_Overridden st, gst_Active st, gst_Waiting st))"

fun pc_global :: "pc \<Rightarrow> bool" where
  "pc_global (Arm g r p) = (g = globalGroup)"
| "pc_global (Wait g r p) = (g = globalGroup)"
| "pc_global (Sent g r p) = (g = globalGroup)"
| "pc_global (SentDec g r p) = (g = globalGroup)"
| "pc_global (CancelSeen g r p) = (g = globalGroup)"
| "pc_global (CancelDec g r) = (g = globalGroup)"
| "pc_global (RetireSeen g r p) = (g = globalGroup)"
| "pc_global (RetireDec g r) = (g = globalGroup)"
| "pc_global (Holding g r p) = (g = globalGroup)"
| "pc_global (Released g r) = (g = globalGroup)"
| "pc_global (Failed e) = False"
| "pc_global _ = True"

definition global_inv :: "int \<Rightarrow> global_cap \<Rightarrow> bool" where
  "global_inv d g \<longleftrightarrow> gl_def g = d \<and> mgr_inv (gl_mgr g) \<and>
     (\<exists>p. m_groups (gl_mgr g) = fmupd globalGroup p fmempty \<and> sem_declared (m_sems (gl_mgr g) ! p) = d) \<and>
     list_all pc_global (m_thr (gl_mgr g))"

lemma nth_update_declared: "p < length ss \<Longrightarrow> (\<And>x. sem_declared (f x) = sem_declared x) \<Longrightarrow>
  sem_declared (ss[p := f (ss ! p)] ! q) = sem_declared (ss ! q)"
  by (cases "p = q") simp_all

lemma thr_step_static:
  assumes "thr_step i m m'" "mgr_inv m" "i < length (m_thr m)"
  shows "m_groups m' = m_groups m \<and> sem_declared (m_sems m' ! q) = sem_declared (m_sems m ! q)"
  using assms(1) mgr_inv_pc [OF assms(2,3)] mgr_inv_group [OF assms(2)]
  by cases (auto simp: section_defs nth_update_declared split: option.split)

lemma thr_step_global:
  assumes "thr_step i m m'" "pc_global (m_thr m ! i)" "fmlookup (m_groups m) globalGroup \<noteq> None"
  shows "\<exists>c. m_thr m' = (m_thr m)[i := c] \<and> pc_global c"
  using assms by cases (auto simp: section_defs, (metis pc_global.simps(1,9))+)

lemma global_step_mgr: "global_step g g' \<Longrightarrow> mgr_step (gl_mgr g) (gl_mgr g')"
  by (induction rule: global_step.induct)
    (auto simp: global_enter_def global_SetLimitOverride_def global_ClearLimitOverride_def case_prod_beta
      intro: mgr_step.intros)

lemma global_inv_step:
  assumes "global_step g g'" "global_inv d g"
  shows "global_inv d g'"
proof -
  obtain p where p: "m_groups (gl_mgr g) = fmupd globalGroup p fmempty" "sem_declared (m_sems (gl_mgr g) ! p) = d"
    and inv: "mgr_inv (gl_mgr g)" and d: "gl_def g = d" and pcs: "list_all pc_global (m_thr (gl_mgr g))"
    using assms(2) by (auto simp: global_inv_def)
  have len: "p < length (m_sems (gl_mgr g))" using mgr_inv_group [OF inv] p(1) by simp
  have inv': "mgr_inv (gl_mgr g')" by (rule mgr_inv_step [OF global_step_mgr [OF assms(1)] inv])
  show ?thesis using assms(1)
  proof cases
    case (gthread i m')
    obtain c where "m_thr m' = (m_thr (gl_mgr g))[i := c]" "pc_global c"
      using thr_step_global [OF gthread(3)] pcs gthread(2) p(1) by (auto simp: list_all_length)
    then show ?thesis using gthread inv' p d pcs thr_step_static [OF gthread(3) inv gthread(2)]
      by (auto simp: global_inv_def list_all_length nth_list_update)
  next
    case (genter runID notify now)
    have "globalGroup \<noteq> []" by (simp add: globalGroup_def)
    then show ?thesis using genter inv' p d len pcs
      by (auto simp: global_inv_def global_enter_def acquire_enter_def Let_def nth_update_declared)
  next
    case (gset limit)
    then show ?thesis using inv' p d len pcs
      by (auto simp: global_inv_def global_SetLimitOverride_def SetLimitOverride_def swap_sem_def newGroupSem_def Let_def
          nth_update_declared nth_append)
  next
    case gclear
    then show ?thesis using inv' p d len pcs
      by (auto simp: global_inv_def global_ClearLimitOverride_def ClearLimitOverride_def swap_sem_def newGroupSem_def Let_def
          nth_update_declared nth_append)
  qed
qed

interpretation gli: invariant_system "\<lambda>g. g = NewGlobal d" global_step "global_inv (if d < 1 then DefaultGlobalLimit else d)"
proof
  have "global_inv (if d < 1 then DefaultGlobalLimit else d) (NewGlobal d)"
    by (auto simp: global_inv_def NewGlobal_def Let_def mgr_inv_New)
      (auto simp: NewManager_def mgr_Update_def update_group_def Let_def newGroupSem_def eff_declared_def DefaultGlobalLimit_def)
  then show "\<And>s. s = NewGlobal d \<Longrightarrow> global_inv (if d < 1 then DefaultGlobalLimit else d) s" by simp
qed (rule global_inv_step)

lemma global_cap_holds_parts:
  assumes "global_step\<^sup>*\<^sup>* (NewGlobal d) g" "global_Status g = (limit, dflt, ovr, active, waiting)"
  shows "1 \<le> limit \<and> active \<le> limit \<and> dflt = (if d < 1 then 64 else d) \<and>
    (\<exists>p. active = int (card {i. i < length (m_thr (gl_mgr g)) \<and> holds p (m_thr (gl_mgr g) ! i)}))"
    and "Failed e \<notin> set (m_thr (gl_mgr g))"
proof -
  have gi: "global_inv (if d < 1 then DefaultGlobalLimit else d) g" using gli.inv_reachable assms(1) by blast
  then obtain p where p: "m_groups (gl_mgr g) = fmupd globalGroup p fmempty"
      "sem_declared (m_sems (gl_mgr g) ! p) = (if d < 1 then 64 else d)"
    and inv: "mgr_inv (gl_mgr g)" by (auto simp: global_inv_def DefaultGlobalLimit_def)
  have len: "p < length (m_sems (gl_mgr g))" using mgr_inv_group [OF inv] p(1) by simp
  have "sem_tokens (m_sems (gl_mgr g) ! p) = cnt (holds p) (m_thr (gl_mgr g))"
    using inv len unfolding mgr_inv_def sems_ok_def by blast
  then show "1 \<le> limit \<and> active \<le> limit \<and> dflt = (if d < 1 then 64 else d) \<and>
    (\<exists>p. active = int (card {i. i < length (m_thr (gl_mgr g)) \<and> holds p (m_thr (gl_mgr g) ! i)}))"
    using assms(2) mgr_inv_sem [OF inv len] mgr_inv_tokens [OF inv len] p
    by (intro conjI exI [of _ p]) (auto simp: global_Status_def mgr_Status_def Let_def cnt_card [symmetric])
  show "Failed e \<notin> set (m_thr (gl_mgr g))" using gi by (auto simp: global_inv_def list_all_iff)
qed

text \<open>
  The global run cap never fails and never deadlocks: whatever the configured value, in every
  reachable state the cap's pseudo-group is declared, no acquire has failed, at least one slot
  exists, the number of runs inside is the reported active count and at most the reported limit,
  and the reported default is the configured one (64 when it was below 1).
\<close>

theorem global_cap_holds:
  assumes "global_step\<^sup>*\<^sup>* (NewGlobal d) g" "global_Status g = (limit, dflt, ovr, active, waiting)"
  shows "1 \<le> limit \<and> active \<le> limit \<and> dflt = (if d < 1 then 64 else d) \<and>
    (\<exists>p. active = int (card {i. i < length (m_thr (gl_mgr g)) \<and> holds p (m_thr (gl_mgr g) ! i)})) \<and>
    (\<nexists>e. Failed e \<in> set (m_thr (gl_mgr g)))"
  using global_cap_holds_parts [OF assms] by blast

theorem global_cap_holds_witness:
  "global_Status (NewGlobal 0) = (64, 64, False, 0, 0) \<and> (0::int) \<le> 64"
proof -
  have st: "global_Status (NewGlobal 0) = (64, 64, False, 0, 0)"
    by (simp add: global_Status_def mgr_Status_def NewGlobal_def NewManager_def mgr_Update_def update_group_def Let_def
        newGroupSem_def eff_declared_def DefaultGlobalLimit_def)
  from global_cap_holds [OF rtranclp.rtrancl_refl st] st show ?thesis by simp
qed

end
