(* ===== verification/WorkQueue.thy ===== *)
theory WorkQueue
  imports Int64 "HOL-Library.Product_Lexorder"
begin

text \<open>
  Model of \<^verbatim>\<open>internal/queue/queue.go\<close> and \<^verbatim>\<open>dispatcher.go\<close>: the durable per-hook work queue and the
  timing of its dispatcher.  The two bbolt buckets are finite maps ordered by key; a write
  transaction either commits (\<open>commit = True\<close>) or leaves both buckets as they were.  A stored entry
  is a decoded record or one that does not decode (\<open>QCorrupt\<close>).  The encoder's treatment of a raw
  payload is the parameter \<open>compact\<close>, the standard encoder's compaction of a raw JSON message
  (\<open>None\<close> for one that is not JSON).  Fire stamps are stored as 64-bit Unix nanoseconds, wrap-around
  included.  \<open>q_wake\<close> says that a wake-up signal is pending in the channel of capacity one.

  The lemmas show the upsert rules (earliest time wins, newest payload wins), the floor between
  two fires of a key along every history, that a claim takes exactly what is due, and that the
  dispatcher never sleeps past the soonest entry.
\<close>

definition MaxKeyLen :: nat where "MaxKeyLen = 256"
definition MaxPayloadBytes :: nat where "MaxPayloadBytes = 16 * 1024"
definition MaxPerNamespace :: int where "MaxPerNamespace = 1000"
definition DefaultMinInterval :: duration where "DefaultMinInterval = 5 * Second"
definition DefaultMaxDelay :: duration where "DefaultMaxDelay = 24 * Hour"

record q_entry =
  qe_Namespace :: string
  qe_Key :: string
  qe_RunAt :: time
  qe_EnqueuedAt :: time
  qe_Enqueues :: int
  qe_Payload :: "string option"

datatype q_rec = QCorrupt | QEntry q_entry

record q_config =
  q_MinInterval :: duration
  q_MaxDelay :: duration

record q_store =
  q_entries :: "(string, q_rec) fmap"
  q_fired :: "(string, int) fmap"
  q_cfg :: q_config
  q_wake :: bool

datatype q_error = QNoNamespace | QBadKey | QNulKey | QPayloadTooLarge | QDelayTooLong | QTooManyKeys | QBadPayload | QCommit

definition Due :: "q_entry \<Rightarrow> time \<Rightarrow> bool" where
  "Due e now \<longleftrightarrow> \<not> qe_RunAt e > now"

definition q_defaults :: "q_config \<Rightarrow> q_config" where
  "q_defaults cfg =
     \<lparr>q_MinInterval = (if q_MinInterval cfg \<le> 0 then DefaultMinInterval else q_MinInterval cfg),
      q_MaxDelay = (if q_MaxDelay cfg \<le> 0 then DefaultMaxDelay else q_MaxDelay cfg)\<rparr>"

definition NUL :: char where "NUL = CHR 0x00"

definition entryKey :: "string \<Rightarrow> string \<Rightarrow> string" where
  "entryKey ns key = ns @ [NUL] @ key"

definition splitEntryKey :: "string \<Rightarrow> (string \<times> string) option" where
  "splitEntryKey b = (if NUL \<in> set b
     then Some (takeWhile (\<lambda>c. c \<noteq> NUL) b, tl (dropWhile (\<lambda>c. c \<noteq> NUL) b)) else None)"

text \<open>The stamp of a fire.\<close>

definition fire_stamp :: "time \<Rightarrow> int" where
  "fire_stamp now = wrap64 (now - unix_epoch)"

definition lastFire :: "q_store \<Rightarrow> string \<Rightarrow> time option" where
  "lastFire s ek = map_option (\<lambda>v. unix_epoch + v) (fmlookup (q_fired s) ek)"

definition namespaceCount :: "q_store \<Rightarrow> string \<Rightarrow> int" where
  "namespaceCount s ns = int (length (filter (\<lambda>k. has_prefix k (ns @ [NUL])) (sorted_list_of_fset (fmdom (q_entries s)))))"

definition q_signal :: "q_store \<Rightarrow> q_store" where
  "q_signal s = s\<lparr>q_wake := True\<rparr>"

definition store_payload :: "(string \<Rightarrow> string option) \<Rightarrow> string option \<Rightarrow> string option option" where
  "store_payload compact p = (case p of None \<Rightarrow> Some None | Some r \<Rightarrow>
     if r = [] then Some None else map_option Some (compact r))"

definition zero_entry :: q_entry where
  "zero_entry = \<lparr>qe_Namespace = [], qe_Key = [], qe_RunAt = 0, qe_EnqueuedAt = 0, qe_Enqueues = 0, qe_Payload = None\<rparr>"

text \<open>The entry an enqueue writes, from the record found (if any) and the wanted time.\<close>

definition upsert_entry :: "string \<Rightarrow> string \<Rightarrow> time \<Rightarrow> string option \<Rightarrow> time \<Rightarrow> q_rec option \<Rightarrow> q_entry" where
  "upsert_entry ns key want payload now existing =
     (let e = (case existing of Some (QEntry e) \<Rightarrow> e | _ \<Rightarrow> zero_entry);
          e1 = e\<lparr>qe_Namespace := ns, qe_Key := key\<rparr>;
          e2 = (if qe_EnqueuedAt e1 = 0 then e1\<lparr>qe_EnqueuedAt := now\<rparr> else e1);
          e3 = e2\<lparr>qe_Enqueues := qe_Enqueues e2 + 1\<rparr>;
          e4 = (if payload \<noteq> None then e3\<lparr>qe_Payload := payload\<rparr> else e3)
      in if existing = None \<or> qe_RunAt e4 = 0 \<or> want < qe_RunAt e4 then e4\<lparr>qe_RunAt := want\<rparr> else e4)"

text \<open>The wanted time after the floor.\<close>

definition floor_time :: "q_store \<Rightarrow> string \<Rightarrow> time \<Rightarrow> time" where
  "floor_time s ek want =
     (case lastFire s ek of None \<Rightarrow> want
      | Some lst \<Rightarrow> let earliest = lst + q_MinInterval (q_cfg s) in if want < earliest then earliest else want)"

definition q_Enqueue :: "(string \<Rightarrow> string option) \<Rightarrow> bool \<Rightarrow> string \<Rightarrow> string \<Rightarrow> duration \<Rightarrow> string option \<Rightarrow> time \<Rightarrow> q_store \<Rightarrow>
    (q_error + q_entry) \<times> q_store" where
  "q_Enqueue compact commit ns key delay payload now s =
     (if ns = [] then (Inl QNoNamespace, s)
      else if key = [] \<or> length key > MaxKeyLen then (Inl QBadKey, s)
      else if NUL \<in> set key then (Inl QNulKey, s)
      else if (case payload of None \<Rightarrow> 0 | Some p \<Rightarrow> length p) > MaxPayloadBytes then (Inl QPayloadTooLarge, s)
      else let d = (if delay < 0 then 0 else delay) in
        if d > q_MaxDelay (q_cfg s) then (Inl QDelayTooLong, s)
        else
          let ek = entryKey ns key;
              existing = fmlookup (q_entries s) ek;
              want = floor_time s ek (now + d)
          in if existing = None \<and> fmlen (q_entries s) \<ge> MaxPerNamespace \<and> namespaceCount s ns \<ge> MaxPerNamespace
             then (Inl QTooManyKeys, s)
             else let e = upsert_entry ns key want payload now existing in
               case store_payload compact (qe_Payload e) of None \<Rightarrow> (Inl QBadPayload, s)
               | Some p \<Rightarrow>
                   if \<not> commit then (Inl QCommit, s)
                   else (Inr e, q_signal (s\<lparr>q_entries := fmupd ek (QEntry (e\<lparr>qe_Payload := p\<rparr>)) (q_entries s)\<rparr>)))"

definition q_Delete :: "bool \<Rightarrow> string \<Rightarrow> string \<Rightarrow> q_store \<Rightarrow> q_store" where
  "q_Delete commit ns key s = (if commit then s\<lparr>q_entries := fmdrop (entryKey ns key) (q_entries s)\<rparr> else s)"

text \<open>The decoded entries, in key order.\<close>

definition decoded :: "q_store \<Rightarrow> (string \<times> q_entry) list" where
  "decoded s = concat (map (\<lambda>(k, v). case v of QCorrupt \<Rightarrow> [] | QEntry e \<Rightarrow> [(k, e)]) (sorted_list_of_fmap (q_entries s)))"

definition q_List :: "string \<Rightarrow> q_store \<Rightarrow> q_entry list" where
  "q_List ns s = sort_key (\<lambda>e. (qe_RunAt e, qe_Namespace e @ qe_Key e))
     (map snd (filter (\<lambda>(k, e). case splitEntryKey k of None \<Rightarrow> False | Some (n, _) \<Rightarrow> \<not> (ns \<noteq> [] \<and> n \<noteq> ns)) (decoded s)))"

definition q_Get :: "string \<Rightarrow> string \<Rightarrow> q_store \<Rightarrow> q_entry option" where
  "q_Get ns key s = (case fmlookup (q_entries s) (entryKey ns key) of Some (QEntry e) \<Rightarrow> Some e | _ \<Rightarrow> None)"

definition claim_keys :: "time \<Rightarrow> q_store \<Rightarrow> string list" where
  "claim_keys now s = map fst (filter (\<lambda>(k, v). case v of QCorrupt \<Rightarrow> True | QEntry e \<Rightarrow> Due e now) (sorted_list_of_fmap (q_entries s)))"

definition q_Claim :: "bool \<Rightarrow> time \<Rightarrow> q_store \<Rightarrow> q_entry list \<times> q_store" where
  "q_Claim commit now s =
     (let claimed = map snd (filter (\<lambda>(k, e). Due e now) (decoded s));
          ks = claim_keys now s
      in if \<not> commit then ([], s)
         else (sort_key qe_RunAt claimed,
               s\<lparr>q_entries := fold fmdrop ks (q_entries s), q_fired := fold (\<lambda>k. fmupd k (fire_stamp now)) ks (q_fired s)\<rparr>))"

fun next_due :: "time \<Rightarrow> q_entry list \<Rightarrow> time" where
  "next_due nxt [] = nxt"
| "next_due nxt (e # es) = next_due (if nxt = 0 \<or> qe_RunAt e < nxt then qe_RunAt e else nxt) es"

definition q_NextDue :: "q_store \<Rightarrow> time option" where
  "q_NextDue s = (let nxt = next_due 0 (map snd (decoded s)) in if nxt = 0 then None else Some nxt)"

definition dead_key :: "(string \<Rightarrow> bool) \<Rightarrow> string \<Rightarrow> bool" where
  "dead_key live k = (case splitEntryKey k of None \<Rightarrow> False | Some (ns, _) \<Rightarrow> \<not> live ns)"

text \<open>\<open>live\<close> is the set of live hook ids, as the source passes it: only a non-empty set prunes.\<close>

definition q_PruneNamespaces :: "bool \<Rightarrow> string fset \<Rightarrow> q_store \<Rightarrow> int \<times> q_store" where
  "q_PruneNamespaces commit live s =
     (if live = {||} then (0, s)
      else let dead = dead_key (\<lambda>ns. ns |\<in>| live) in
        (int (length (filter dead (sorted_list_of_fset (fmdom (q_entries s))))),
         if commit then s\<lparr>q_entries := fmfilter (\<lambda>k. \<not> dead k) (q_entries s), q_fired := fmfilter (\<lambda>k. \<not> dead k) (q_fired s)\<rparr>
         else s))"

subsection \<open>The dispatcher\<close>

definition DefaultIdleWake :: duration where
  "DefaultIdleWake = Minute"

definition dispatcher_wait :: "duration \<Rightarrow> time \<Rightarrow> q_store \<Rightarrow> duration" where
  "dispatcher_wait idle now s =
     (let w = (case q_NextDue s of None \<Rightarrow> idle
               | Some nxt \<Rightarrow> let until = nxt - now in if until < idle then until else idle)
      in if w < 0 then 0 else w)"

text \<open>One turn of the loop up to the blocking select: claim and fire what is due, then compute the
  sleep; \<open>t\<close> is the clock reading after the drain.\<close>

definition dispatcher_turn :: "bool \<Rightarrow> duration \<Rightarrow> time \<Rightarrow> time \<Rightarrow> q_store \<Rightarrow> q_entry list \<times> duration \<times> q_store" where
  "dispatcher_turn commit idle now t s =
     (let (fired, s') = q_Claim commit now s in (fired, dispatcher_wait idle t s', s'))"


subsection \<open>Lookups after an operation\<close>

lemma fold_fmdrop [simp]: "fmlookup (fold fmdrop ks m) k = (if k \<in> set ks then None else fmlookup m k)"
  by (induction ks arbitrary: m) auto

lemma fold_fmupd [simp]: "fmlookup (fold (\<lambda>k. fmupd k v) ks m) k = (if k \<in> set ks then Some v else fmlookup m k)"
  by (induction ks arbitrary: m) auto

lemma decoded_iff: "(k, e) \<in> set (decoded s) \<longleftrightarrow> fmlookup (q_entries s) k = Some (QEntry e)"
  by (force simp: decoded_def split: q_rec.splits)

lemma claim_keys_iff: "k \<in> set (claim_keys now s) \<longleftrightarrow>
  (\<exists>v. fmlookup (q_entries s) k = Some v \<and> (case v of QCorrupt \<Rightarrow> True | QEntry e \<Rightarrow> Due e now))"
  by (force simp: claim_keys_def)

lemma splitEntryKey_entryKey: "NUL \<notin> set ns \<Longrightarrow> splitEntryKey (entryKey ns key) = Some (ns, key)"
proof -
  assume n: "NUL \<notin> set ns"
  have "takeWhile (\<lambda>c. c \<noteq> NUL) (ns @ NUL # key) = ns" "dropWhile (\<lambda>c. c \<noteq> NUL) (ns @ NUL # key) = NUL # key"
    using n by (induction ns) auto
  then show ?thesis by (simp add: splitEntryKey_def entryKey_def)
qed

lemma upsert_run_at: "qe_RunAt (upsert_entry ns key want payload now existing) =
  (case existing of Some (QEntry e) \<Rightarrow> if qe_RunAt e = 0 then want else min want (qe_RunAt e) | _ \<Rightarrow> want)"
  by (auto simp: upsert_entry_def Let_def zero_entry_def min_def split: option.splits q_rec.splits)

lemma upsert_fields:
  "qe_Namespace (upsert_entry ns key want payload now existing) = ns"
  "qe_Key (upsert_entry ns key want payload now existing) = key"
  "qe_Enqueues (upsert_entry ns key want payload now existing) =
     (case existing of Some (QEntry e) \<Rightarrow> qe_Enqueues e | _ \<Rightarrow> 0) + 1"
  "qe_Payload (upsert_entry ns key want payload now existing) =
     (if payload \<noteq> None then payload else case existing of Some (QEntry e) \<Rightarrow> qe_Payload e | _ \<Rightarrow> None)"
  by (auto simp: upsert_entry_def Let_def zero_entry_def split: option.splits q_rec.splits)

text \<open>Every outcome of an enqueue: refused or not committed without a change, or the entry is written.\<close>

lemma q_Enqueue_cases:
  obtains (failed) err where "q_Enqueue compact commit ns key delay payload now s = (Inl err, s)"
  | (stored) e p where "q_Enqueue compact commit ns key delay payload now s =
        (Inr e, s\<lparr>q_entries := fmupd (entryKey ns key) (QEntry (e\<lparr>qe_Payload := p\<rparr>)) (q_entries s), q_wake := True\<rparr>)"
      "e = upsert_entry ns key (floor_time s (entryKey ns key) (now + max 0 delay)) payload now (fmlookup (q_entries s) (entryKey ns key))"
      "max 0 delay \<le> q_MaxDelay (q_cfg s)" "store_payload compact (qe_Payload e) = Some p"
proof (cases "\<exists>err. q_Enqueue compact commit ns key delay payload now s = (Inl err, s)")
  case False
  have "(if delay < 0 then 0 else delay) = max 0 delay" by simp
  note q = q_Enqueue_def [of compact commit ns key delay payload now s, unfolded this Let_def]
  show ?thesis
    by (rule stored [of "upsert_entry ns key (floor_time s (entryKey ns key) (now + max 0 delay)) payload now (fmlookup (q_entries s) (entryKey ns key))"
          "the (store_payload compact (qe_Payload (upsert_entry ns key (floor_time s (entryKey ns key) (now + max 0 delay)) payload now
             (fmlookup (q_entries s) (entryKey ns key)))))"])
      (use False q in \<open>auto simp: q_signal_def split: if_splits option.splits\<close>)
qed (use failed in blast)

lemma q_Enqueue_upsert_parts:
  assumes "q_Enqueue compact commit ns key delay payload now s = (Inr e, s')"
    and "fmlookup (q_entries s) (entryKey ns key) = Some (QEntry old)" "qe_RunAt old \<noteq> 0"
  shows "\<exists>p. fmlookup (q_entries s') (entryKey ns key) = Some (QEntry (e\<lparr>qe_Payload := p\<rparr>)) \<and> store_payload compact (qe_Payload e) = Some p"
    and "qe_RunAt e = min (floor_time s (entryKey ns key) (now + max 0 delay)) (qe_RunAt old)"
    and "qe_Enqueues e = qe_Enqueues old + 1" "qe_Payload e = (if payload = None then qe_Payload old else payload)"
    and "k \<noteq> entryKey ns key \<Longrightarrow> fmlookup (q_entries s') k = fmlookup (q_entries s) k" "q_wake s'"
  using assms by (cases rule: q_Enqueue_cases [of compact commit ns key delay payload now s];
      auto simp: upsert_run_at upsert_fields split: option.splits)+

text \<open>
  Enqueueing an outstanding key is an upsert: a successful enqueue leaves exactly one entry for
  the key, due at the earlier of its old time and the new one (the wanted time, but not before
  the floor after the key's last fire), counted once more, with the newest payload; every other
  entry is untouched and the dispatcher is signalled.
\<close>

theorem q_Enqueue_upsert:
  assumes "q_Enqueue compact commit ns key delay payload now s = (Inr e, s')"
    and "fmlookup (q_entries s) (entryKey ns key) = Some (QEntry old)" "qe_RunAt old \<noteq> 0"
  shows "(\<exists>p. fmlookup (q_entries s') (entryKey ns key) = Some (QEntry (e\<lparr>qe_Payload := p\<rparr>)) \<and> store_payload compact (qe_Payload e) = Some p)
    \<and> qe_RunAt e = min (floor_time s (entryKey ns key) (now + max 0 delay)) (qe_RunAt old)
    \<and> qe_Enqueues e = qe_Enqueues old + 1 \<and> qe_Payload e = (if payload = None then qe_Payload old else payload)
    \<and> (\<forall>k. k \<noteq> entryKey ns key \<longrightarrow> fmlookup (q_entries s') k = fmlookup (q_entries s) k) \<and> q_wake s'"
  using q_Enqueue_upsert_parts [OF assms] by (intro conjI allI impI)

definition q_ex :: q_store where
  "q_ex = \<lparr>q_entries = fmupd (entryKey ''h'' ''k'') (QEntry \<lparr>qe_Namespace = ''h'', qe_Key = ''k'', qe_RunAt = 50,
       qe_EnqueuedAt = 40, qe_Enqueues = 1, qe_Payload = None\<rparr>) fmempty,
     q_fired = fmempty, q_cfg = \<lparr>q_MinInterval = 5, q_MaxDelay = 100\<rparr>, q_wake = False\<rparr>"

lemma q_ex_enqueue: "\<exists>e s'. q_Enqueue (\<lambda>p. Some p) True ''h'' ''k'' 20 None 42 q_ex = (Inr e, s')"
  by (simp add: q_Enqueue_def q_ex_def MaxKeyLen_def MaxPerNamespace_def NUL_def store_payload_def upsert_entry_def Let_def)

lemma q_ex_lookup: "fmlookup (q_entries q_ex) (entryKey ''h'' ''k'') = Some (QEntry \<lparr>qe_Namespace = ''h'', qe_Key = ''k'', qe_RunAt = 50,
       qe_EnqueuedAt = 40, qe_Enqueues = 1, qe_Payload = None\<rparr>)"
  by (simp add: q_ex_def)

theorem q_Enqueue_upsert_witness:
  "\<exists>e s'. q_Enqueue (\<lambda>p. Some p) True ''h'' ''k'' 20 None 42 q_ex = (Inr e, s') \<and> qe_RunAt e = 50 \<and> qe_Enqueues e = 2"
proof -
  obtain e s' where e: "q_Enqueue (\<lambda>p. Some p) True ''h'' ''k'' 20 None 42 q_ex = (Inr e, s')" using q_ex_enqueue by blast
  from q_Enqueue_upsert [OF e q_ex_lookup] e show ?thesis
    by (simp add: floor_time_def lastFire_def) (simp add: q_ex_def)
qed

subsection \<open>The floor between two fires\<close>

datatype q_op =
    QEnqueue "string \<Rightarrow> string option" bool string string duration "string option" time
  | QDelete bool string string
  | QClaim bool time
  | QPrune bool "string fset"
  | QWake

fun q_exec :: "q_op \<Rightarrow> q_store \<Rightarrow> q_store" where
  "q_exec (QEnqueue compact commit ns key delay payload now) s = snd (q_Enqueue compact commit ns key delay payload now s)"
| "q_exec (QDelete commit ns key) s = q_Delete commit ns key s"
| "q_exec (QClaim commit now) s = snd (q_Claim commit now s)"
| "q_exec (QPrune commit live) s = snd (q_PruneNamespaces commit live s)"
| "q_exec QWake s = s\<lparr>q_wake := False\<rparr>"

definition floor_inv :: "q_store \<Rightarrow> bool" where
  "floor_inv s \<longleftrightarrow> (\<forall>k e t. fmlookup (q_entries s) k = Some (QEntry e) \<longrightarrow> lastFire s k = Some t \<longrightarrow>
     t + q_MinInterval (q_cfg s) \<le> qe_RunAt e)"

lemma floor_time_ge: "lastFire s k = Some t \<Longrightarrow> t + q_MinInterval (q_cfg s) \<le> floor_time s k want"
  by (simp add: floor_time_def Let_def)

lemma q_exec_floor: "floor_inv s \<Longrightarrow> floor_inv (q_exec op s) \<and> q_cfg (q_exec op s) = q_cfg s"
proof (cases op)
  case (QEnqueue compact commit ns key delay payload now)
  assume inv: "floor_inv s"
  show ?thesis
  proof (cases rule: q_Enqueue_cases [of compact commit ns key delay payload now s])
    case (stored e p)
    have "t + q_MinInterval (q_cfg s) \<le> qe_RunAt e" if "lastFire s (entryKey ns key) = Some t" for t
      using floor_time_ge [OF that] inv that stored(2)
      by (auto simp: upsert_run_at floor_inv_def split: option.splits q_rec.splits)
    then show ?thesis using inv stored(1) QEnqueue by (auto simp: floor_inv_def lastFire_def)
  qed (use inv QEnqueue in simp)
next
  case (QClaim commit now)
  assume "floor_inv s"
  then show ?thesis using QClaim by (auto simp: q_Claim_def Let_def floor_inv_def lastFire_def claim_keys_iff split: if_splits)
qed (auto simp: q_Delete_def q_PruneNamespaces_def Let_def floor_inv_def lastFire_def split: if_splits)

lemma q_run_floor: "floor_inv s \<Longrightarrow> floor_inv (fold q_exec ops s) \<and> q_cfg (fold q_exec ops s) = q_cfg s"
  by (induction ops arbitrary: s) (simp_all add: q_exec_floor)

lemma q_Claim_iff: "e \<in> set (fst (q_Claim commit now s)) \<longleftrightarrow>
  commit \<and> (\<exists>k. fmlookup (q_entries s) k = Some (QEntry e)) \<and> Due e now"
  by (auto simp: q_Claim_def Let_def image_iff decoded_iff) 

text \<open>
  A key cannot hot-loop.  Along every history of the queue (enqueues, cancellations, claims and
  prunes, whichever of them commit), an entry is claimed at the earliest \<open>MinInterval\<close> after the
  recorded last fire of its key, however often and with whatever delay it was enqueued.
\<close>

theorem q_fires_spaced:
  assumes "q_entries s = fmempty"
    and "fmlookup (q_entries (fold q_exec ops s)) k = Some (QEntry e)"
    and "e \<in> set (fst (q_Claim commit now (fold q_exec ops s)))"
    and "lastFire (fold q_exec ops s) k = Some t"
  shows "t + q_MinInterval (q_cfg s) \<le> now"
proof -
  have "floor_inv s" using assms(1) by (simp add: floor_inv_def)
  from q_run_floor [OF this, of ops] assms(2,4) have "t + q_MinInterval (q_cfg s) \<le> qe_RunAt e"
    by (auto simp: floor_inv_def)
  moreover have "qe_RunAt e \<le> now" using assms(3) by (auto simp: q_Claim_iff Due_def)
  ultimately show ?thesis by simp
qed

definition q_ex0 :: q_store where
  "q_ex0 = \<lparr>q_entries = fmempty, q_fired = fmupd (entryKey ''h'' ''k'') 0 fmempty, q_cfg = \<lparr>q_MinInterval = 5, q_MaxDelay = 100\<rparr>, q_wake = False\<rparr>"

definition q_ex_ops :: "q_op list" where
  "q_ex_ops = [QEnqueue (\<lambda>p. Some p) True ''h'' ''k'' 0 None (unix_epoch + 1)]"

lemma q_ex_ops_entry: "fmlookup (q_entries (fold q_exec q_ex_ops q_ex0)) (entryKey ''h'' ''k'') =
   Some (QEntry \<lparr>qe_Namespace = ''h'', qe_Key = ''k'', qe_RunAt = unix_epoch + 5, qe_EnqueuedAt = unix_epoch + 1, qe_Enqueues = 1, qe_Payload = None\<rparr>)"
  by (simp add: q_ex_ops_def q_ex0_def q_Enqueue_def MaxKeyLen_def MaxPerNamespace_def NUL_def store_payload_def upsert_entry_def zero_entry_def Let_def
      q_signal_def floor_time_def lastFire_def unix_epoch_def)

theorem q_fires_spaced_witness:
  "\<lparr>qe_Namespace = ''h'', qe_Key = ''k'', qe_RunAt = unix_epoch + 5, qe_EnqueuedAt = unix_epoch + 1, qe_Enqueues = 1, qe_Payload = None\<rparr>
     \<in> set (fst (q_Claim True (unix_epoch + 7) (fold q_exec q_ex_ops q_ex0))) \<and> unix_epoch + 5 \<le> unix_epoch + (7::int)"
proof -
  have claim: "\<lparr>qe_Namespace = ''h'', qe_Key = ''k'', qe_RunAt = unix_epoch + 5, qe_EnqueuedAt = unix_epoch + 1, qe_Enqueues = 1, qe_Payload = None\<rparr>
     \<in> set (fst (q_Claim True (unix_epoch + 7) (fold q_exec q_ex_ops q_ex0)))"
    using q_ex_ops_entry by (auto simp: q_Claim_iff Due_def)
  have last: "lastFire (fold q_exec q_ex_ops q_ex0) (entryKey ''h'' ''k'') = Some unix_epoch"
    by (simp add: q_ex_ops_def q_ex0_def q_Enqueue_def MaxKeyLen_def MaxPerNamespace_def NUL_def store_payload_def upsert_entry_def zero_entry_def Let_def
      q_signal_def lastFire_def)
  from q_fires_spaced [OF _ q_ex_ops_entry claim last] claim show ?thesis by (simp add: q_ex0_def)
qed


subsection \<open>Claims and the dispatcher's sleep\<close>

text \<open>
  A claim loses nothing: a committed claim returns exactly the decodable entries that are due,
  soonest first, removes exactly those and the undecodable records, stamps the fire time of every
  key it removes, and keeps every entry that is not due; a claim that does not commit returns
  nothing and changes nothing.
\<close>

theorem q_Claim_exact:
  "set (fst (q_Claim True now s)) = {e. (\<exists>k. fmlookup (q_entries s) k = Some (QEntry e)) \<and> qe_RunAt e \<le> now} \<and>
   sorted (map qe_RunAt (fst (q_Claim True now s))) \<and>
   fmlookup (q_entries (snd (q_Claim True now s))) k =
     (case fmlookup (q_entries s) k of Some (QEntry e) \<Rightarrow> if now < qe_RunAt e then Some (QEntry e) else None | _ \<Rightarrow> None) \<and>
   fmlookup (q_fired (snd (q_Claim True now s))) k =
     (case fmlookup (q_entries s) k of None \<Rightarrow> fmlookup (q_fired s) k
      | Some (QEntry e) \<Rightarrow> if now < qe_RunAt e then fmlookup (q_fired s) k else Some (fire_stamp now)
      | Some QCorrupt \<Rightarrow> Some (fire_stamp now)) \<and>
   q_Claim False now s = ([], s)"
proof (intro conjI)
  show "set (fst (q_Claim True now s)) = {e. (\<exists>k. fmlookup (q_entries s) k = Some (QEntry e)) \<and> qe_RunAt e \<le> now}"
    by (auto simp: q_Claim_iff Due_def)
  show "sorted (map qe_RunAt (fst (q_Claim True now s)))" by (simp add: q_Claim_def Let_def)
qed (auto simp: q_Claim_def Let_def claim_keys_iff Due_def split: option.splits q_rec.splits)

lemma next_due_min:
  "(\<forall>e \<in> set es. 0 < qe_RunAt e) \<Longrightarrow> 0 \<le> nxt \<Longrightarrow>
   (\<forall>e \<in> set es. next_due nxt es \<le> qe_RunAt e) \<and> (0 < nxt \<longrightarrow> next_due nxt es \<le> nxt) \<and>
   (0 < nxt \<or> es \<noteq> [] \<longrightarrow> 0 < next_due nxt es)"
proof (induction es arbitrary: nxt)
  case (Cons e es)
  define n where "n = (if nxt = 0 \<or> qe_RunAt e < nxt then qe_RunAt e else nxt)"
  have n: "0 < n" "n \<le> qe_RunAt e" "0 < nxt \<longrightarrow> n \<le> nxt" using Cons.prems by (auto simp: n_def)
  have "(\<forall>e \<in> set es. next_due n es \<le> qe_RunAt e) \<and> next_due n es \<le> n \<and> 0 < next_due n es"
    using Cons.IH [of n] Cons.prems n(1) by auto
  moreover have "next_due nxt (e # es) = next_due n es" by (simp add: n_def)
  ultimately show ?case using n by auto
qed simp

lemma dispatcher_wait_bound_parts:
  assumes "0 \<le> idle" and "\<forall>k e. fmlookup (q_entries s) k = Some (QEntry e) \<longrightarrow> 0 < qe_RunAt e"
  shows "0 \<le> dispatcher_wait idle now s \<and> dispatcher_wait idle now s \<le> idle"
    and "fmlookup (q_entries s) k = Some (QEntry e) \<Longrightarrow> now + dispatcher_wait idle now s \<le> max now (qe_RunAt e)"
    and "q_entries s = fmempty \<Longrightarrow> dispatcher_wait idle now s = idle"
proof -
  have pos: "\<forall>e \<in> set (map snd (decoded s)). 0 < qe_RunAt e" using assms(2) by (auto simp: decoded_iff)
  show "0 \<le> dispatcher_wait idle now s \<and> dispatcher_wait idle now s \<le> idle"
    using assms(1) by (auto simp: dispatcher_wait_def Let_def split: option.splits)
  show "q_entries s = fmempty \<Longrightarrow> dispatcher_wait idle now s = idle"
    using assms(1) by (simp add: dispatcher_wait_def q_NextDue_def decoded_def)
  assume "fmlookup (q_entries s) k = Some (QEntry e)"
  then have "(k, e) \<in> set (decoded s)" by (simp add: decoded_iff)
  then have "e \<in> set (map snd (decoded s))" by (force simp: image_iff)
  with next_due_min [OF pos, of 0] have "0 < next_due 0 (map snd (decoded s))" "next_due 0 (map snd (decoded s)) \<le> qe_RunAt e"
    by force+
  then show "now + dispatcher_wait idle now s \<le> max now (qe_RunAt e)"
    by (auto simp: dispatcher_wait_def q_NextDue_def Let_def)
qed

text \<open>
  The dispatcher never sleeps past the soonest entry: the sleep it computes is between zero and
  the idle bound, and it ends no later than the due time of any outstanding entry (at once, for
  one that is overdue); with an empty queue it sleeps the idle bound.
\<close>

theorem dispatcher_wait_bound:
  assumes "0 \<le> idle" and "\<forall>k e. fmlookup (q_entries s) k = Some (QEntry e) \<longrightarrow> 0 < qe_RunAt e"
  shows "0 \<le> dispatcher_wait idle now s \<and> dispatcher_wait idle now s \<le> idle
    \<and> (\<forall>k e. fmlookup (q_entries s) k = Some (QEntry e) \<longrightarrow> now + dispatcher_wait idle now s \<le> max now (qe_RunAt e))
    \<and> (q_entries s = fmempty \<longrightarrow> dispatcher_wait idle now s = idle)"
  using dispatcher_wait_bound_parts [OF assms] by blast

theorem dispatcher_wait_bound_witness: "42 + dispatcher_wait 60 42 q_ex \<le> (50::int)"
proof -
  have "\<forall>k e. fmlookup (q_entries q_ex) k = Some (QEntry e) \<longrightarrow> 0 < qe_RunAt e" by (auto simp: q_ex_def split: if_splits)
  from dispatcher_wait_bound [OF _ this, of 60 42] q_ex_lookup show ?thesis by fastforce
qed

text \<open>
  Pruning follows the live hooks: a prune with a non-empty set of live hooks drops exactly the
  entries and fire stamps of namespaces that are not live, and an empty set (a failed load)
  never wipes the queue.
\<close>

theorem q_Prune_exact:
  "snd (q_PruneNamespaces True {||} s) = s \<and>
   (live \<noteq> {||} \<and> NUL \<notin> set ns \<longrightarrow>
     fmlookup (q_entries (snd (q_PruneNamespaces True live s))) (entryKey ns key) =
       (if ns |\<in>| live then fmlookup (q_entries s) (entryKey ns key) else None) \<and>
     lastFire (snd (q_PruneNamespaces True live s)) (entryKey ns key) =
       (if ns |\<in>| live then lastFire s (entryKey ns key) else None))"
  by (auto simp: q_PruneNamespaces_def Let_def dead_key_def splitEntryKey_entryKey lastFire_def)

theorem q_Prune_exact_witness:
  "fmlookup (q_entries (snd (q_PruneNamespaces True {|''other''|} q_ex))) (entryKey ''h'' ''k'') = None"
  using q_Prune_exact [of q_ex "{|''other''|}" "''h''" "''k''"] by (simp add: NUL_def)

end
