(* ===== verification/Events.thy ===== *)
theory Events
  imports Prelude
begin

text \<open>
  Model of \<^verbatim>\<open>internal/events/events.go\<close>: the bounded in-memory activity feed, a ring buffer.  The
  specification is the list of everything recorded so far; the lemmas show that a listing returns
  the newest retained events that match, newest first, and that the cap bounds what is returned
  and never what is examined.
\<close>

record event =
  ev_Time :: time
  ev_Kind :: string
  ev_Msg :: string
  ev_Fields :: "(string, string) fmap"

definition zero_event :: event where
  "zero_event = \<lparr>ev_Time = 0, ev_Kind = [], ev_Msg = [], ev_Fields = fmempty\<rparr>"

record recorder =
  rc_buf :: "event list"
  rc_next :: nat
  rc_total :: nat

definition NewRecorder :: "int \<Rightarrow> recorder" where
  "NewRecorder mx = \<lparr>rc_buf = replicate (nat (if mx \<le> 0 then 500 else mx)) zero_event, rc_next = 0, rc_total = 0\<rparr>"

definition Record :: "time \<Rightarrow> string \<Rightarrow> string \<Rightarrow> (string, string) fmap \<Rightarrow> recorder \<Rightarrow> recorder" where
  "Record now kind msg fs r =
     (let ev = \<lparr>ev_Time = now, ev_Kind = kind, ev_Msg = msg, ev_Fields = fs\<rparr>
      in r\<lparr>rc_buf := (rc_buf r)[rc_next r := ev], rc_next := (rc_next r + 1) mod length (rc_buf r), rc_total := rc_total r + 1\<rparr>)"

definition Family :: "string \<Rightarrow> string" where
  "Family kind = takeWhile (\<lambda>c. c \<noteq> CHR ''.'') kind"

record ev_filter =
  f_Hook :: string
  f_ExcludeFamilies :: "string list"

definition ev_match :: "ev_filter \<Rightarrow> event \<Rightarrow> bool" where
  "ev_match f ev =
     (if f_Hook f \<noteq> [] \<and> (case fmlookup (ev_Fields ev) ''hook'' of None \<Rightarrow> [] | Some h \<Rightarrow> h) \<noteq> f_Hook f then False
      else if f_ExcludeFamilies f \<noteq> [] \<and> Family (ev_Kind ev) \<in> set (f_ExcludeFamilies f) then False
      else True)"

text \<open>The loop \<open>for i := i; i <= n; i++\<close> with the slice built so far.\<close>

function list_loop :: "recorder \<Rightarrow> ev_filter \<Rightarrow> int \<Rightarrow> nat \<Rightarrow> nat \<Rightarrow> event list \<Rightarrow> event list" where
  "list_loop r f mx n i out =
     (if i > n then out
      else if mx > 0 \<and> int (length out) = mx then out
      else let ev = rc_buf r ! ((rc_next r + length (rc_buf r) - i) mod length (rc_buf r))
           in list_loop r f mx n (i + 1) (if ev_match f ev then out @ [ev] else out))"
  by pat_completeness auto
termination by (relation "measure (\<lambda>(r, f, mx, n, i, out). n + 1 - i)") auto

declare list_loop.simps [simp del]

definition ListFiltered :: "ev_filter \<Rightarrow> int \<Rightarrow> recorder \<Rightarrow> event list" where
  "ListFiltered f mx r =
     (let n = (if rc_total r > length (rc_buf r) then length (rc_buf r) else rc_total r)
      in list_loop r f mx n 1 [])"

definition ev_List :: "int \<Rightarrow> recorder \<Rightarrow> event list" where
  "ev_List mx r = ListFiltered \<lparr>f_Hook = [], f_ExcludeFamilies = []\<rparr> mx r"

definition ListByHook :: "string \<Rightarrow> int \<Rightarrow> recorder \<Rightarrow> event list" where
  "ListByHook hookID mx r = ListFiltered \<lparr>f_Hook = hookID, f_ExcludeFamilies = []\<rparr> mx r"

subsection \<open>The ring holds the newest events\<close>

definition record_event :: "event \<Rightarrow> recorder \<Rightarrow> recorder" where
  "record_event ev r = Record (ev_Time ev) (ev_Kind ev) (ev_Msg ev) (ev_Fields ev) r"

lemma record_event_eq: "record_event ev r =
  r\<lparr>rc_buf := (rc_buf r)[rc_next r := ev], rc_next := (rc_next r + 1) mod length (rc_buf r), rc_total := rc_total r + 1\<rparr>"
  by (cases ev) (simp add: record_event_def Record_def Let_def)

definition capped :: "int \<Rightarrow> 'a list \<Rightarrow> 'a list" where
  "capped mx xs = (if mx > 0 then take (nat mx) xs else xs)"

definition ring :: "recorder \<Rightarrow> event list \<Rightarrow> bool" where
  "ring r evs \<longleftrightarrow> rc_buf r \<noteq> [] \<and> rc_total r = length evs \<and> rc_next r = length evs mod length (rc_buf r) \<and>
     (\<forall>i. 1 \<le> i \<and> i \<le> length evs \<and> i \<le> length (rc_buf r) \<longrightarrow>
        rc_buf r ! ((rc_next r + length (rc_buf r) - i) mod length (rc_buf r)) = evs ! (length evs - i))"

lemma ring_slot: "1 \<le> i \<Longrightarrow> i \<le> n \<Longrightarrow> i \<le> m \<Longrightarrow> (m mod n + n - i) mod n = (m - i) mod (n::nat)"
proof -
  assume i: "1 \<le> i" "i \<le> n" "i \<le> m"
  have "(m mod n + n - i) mod n = (m mod n + (n - i)) mod n" using i by simp
  also have "\<dots> = (m + (n - i)) mod n" by (rule mod_add_left_eq)
  also have "m + (n - i) = (m - i) + n" using i by simp
  also have "\<dots> mod n = (m - i) mod n" by simp
  finally show ?thesis .
qed

lemma ring_record: "ring r evs \<Longrightarrow> ring (record_event ev r) (evs @ [ev])"
proof -
  assume ring: "ring r evs"
  define n where "n = length (rc_buf r)"
  have n: "0 < n" and nxt: "rc_next r = length evs mod n"
    and old: "\<And>i. 1 \<le> i \<Longrightarrow> i \<le> length evs \<Longrightarrow> i \<le> n \<Longrightarrow> rc_buf r ! ((length evs - i) mod n) = evs ! (length evs - i)"
    using ring ring_slot [of _ n "length evs"] by (auto simp: ring_def n_def)
  let ?b = "(rc_buf r)[length evs mod n := ev]"
  have slot: "?b ! ((length evs + 1 - i) mod n) = (evs @ [ev]) ! (length evs + 1 - i)"
    if "1 \<le> i" "i \<le> length evs + 1" "i \<le> n" for i
  proof (cases "i = 1")
    case True
    then show ?thesis using n by (simp add: n_def)
  next
    case False
    then have j: "1 \<le> i - 1" "i - 1 \<le> length evs" "i - 1 < n" "length evs + 1 - i = length evs - (i - 1)" using that by auto
    have "(length evs - (i - 1)) mod n \<noteq> length evs mod n"
    proof
      assume "(length evs - (i - 1)) mod n = length evs mod n"
      then have "n dvd length evs - (length evs - (i - 1))" by (metis diff_le_self mod_eq_dvd_iff_nat)
      then have "n dvd i - 1" using j by simp
      then show False using j n by (metis dvd_imp_le less_le_trans not_less zero_less_one)
    qed
    then show ?thesis using old [of "i - 1"] j that False by (simp add: nth_append)
  qed
  show ?thesis unfolding ring_def
  proof (intro conjI allI impI)
    show "rc_buf (record_event ev r) \<noteq> []" using n by (auto simp: record_event_eq n_def)
    show "rc_total (record_event ev r) = length (evs @ [ev])" using ring by (simp add: record_event_eq ring_def)
    show "rc_next (record_event ev r) = length (evs @ [ev]) mod length (rc_buf (record_event ev r))"
      using nxt n by (simp add: record_event_eq n_def mod_Suc_eq)
    fix i assume i: "1 \<le> i \<and> i \<le> length (evs @ [ev]) \<and> i \<le> length (rc_buf (record_event ev r))"
    have "(rc_next (record_event ev r) + length (rc_buf (record_event ev r)) - i) mod length (rc_buf (record_event ev r))
        = (length evs + 1 - i) mod n"
      using ring_slot [of i n "length evs + 1"] i nxt
      by (simp add: record_event_eq n_def mod_Suc_eq)
    then show "rc_buf (record_event ev r) ! ((rc_next (record_event ev r) + length (rc_buf (record_event ev r)) - i)
        mod length (rc_buf (record_event ev r))) = (evs @ [ev]) ! (length (evs @ [ev]) - i)"
      using slot [of i] i nxt by (simp add: record_event_eq n_def)
  qed
qed

lemma ring_fold: "ring r evs \<Longrightarrow> ring (fold record_event new r) (evs @ new)"
proof (induction new arbitrary: r evs)
  case (Cons ev new)
  from Cons.IH [OF ring_record [OF Cons.prems]] show ?case by simp
qed simp

lemma ring_New: "ring (NewRecorder mx) []"
  by (simp add: ring_def NewRecorder_def)


subsection \<open>Listing\<close>

text \<open>From position \<open>i\<close> on, the loop collects matching events up to the cap.\<close>

lemma list_loop_eq:
  assumes "ring r evs" "n \<le> length evs" "n \<le> length (rc_buf r)" "1 \<le> i" "mx > 0 \<longrightarrow> int (length out) \<le> mx"
  shows "list_loop r f mx n i out =
    capped mx (out @ filter (ev_match f) (map (\<lambda>k. evs ! (length evs - k)) [i..<n + 1]))"
  using assms
proof (induction r f mx n i out rule: list_loop.induct)
  case (1 r f mx n i out)
  let ?ev = "rc_buf r ! ((rc_next r + length (rc_buf r) - i) mod length (rc_buf r))"
  let ?rest = "\<lambda>j. filter (ev_match f) (map (\<lambda>k. evs ! (length evs - k)) [j..<n + 1])"
  consider "i > n" | "\<not> i > n" "mx > 0 \<and> int (length out) = mx" | "\<not> i > n" "\<not> (mx > 0 \<and> int (length out) = mx)" by blast
  then show ?case
  proof cases
    case 1
    moreover have "0 < mx \<Longrightarrow> length out \<le> nat mx" using "1.prems"(5) by linarith
    ultimately show ?thesis by (simp add: list_loop.simps capped_def)
  next
    case 2
    then have "nat mx = length out" by auto
    then show ?thesis using 2 by (simp add: list_loop.simps [of r f mx n i out] capped_def)
  next
    case 3
    have "i \<le> length evs" "i \<le> length (rc_buf r)" using "1.prems" 3 by simp_all
    then have ev: "?ev = evs ! (length evs - i)" using "1.prems"(1,4) unfolding ring_def by blast
    have split: "[i..<n + 1] = i # [Suc i..<n + 1]" using 3 by (simp add: upt_rec)
    have "list_loop r f mx n i out = list_loop r f mx n (i + 1) (if ev_match f ?ev then out @ [?ev] else out)"
      using 3 by (subst list_loop.simps) (simp only: Let_def if_False)
    also have "\<dots> = capped mx ((if ev_match f ?ev then out @ [?ev] else out) @ ?rest (i + 1))"
      using "1.IH" [OF 3 refl] "1.prems" 3 by auto
    also have "\<dots> = capped mx (out @ ?rest i)" by (simp only: split ev) simp
    finally show ?thesis .
  qed
qed

lemma newest_first: "n \<le> length evs \<Longrightarrow>
  map (\<lambda>k. evs ! (length evs - k)) [1..<n + 1] = rev (drop (length evs - n) evs)"
  by (rule nth_equalityI) (auto simp: rev_nth nth_append simp del: upt_Suc)

text \<open>
  The activity feed is exact.  After any sequence of recorded events, a listing returns the
  events that match the filter among the newest ones the ring retains, newest first, and no more
  of them than the cap: filtering happens before the cap, so a rare event is found however many
  others were recorded after it within the retained window.
\<close>

theorem ListFiltered_spec:
  "ListFiltered f mx (fold record_event evs (NewRecorder sz)) =
     capped mx (filter (ev_match f) (rev (drop (length evs - (if sz \<le> 0 then 500 else nat sz)) evs)))"
proof -
  define r where "r = fold record_event evs (NewRecorder sz)"
  have ring: "ring r evs" using ring_fold [OF ring_New, of evs] by (simp add: r_def)
  have len: "length (rc_buf r) = (if sz \<le> 0 then 500 else nat sz)"
  proof -
    have "length (rc_buf (fold record_event evs q)) = length (rc_buf q)" for q
      by (induction evs arbitrary: q) (simp_all add: record_event_def Record_def Let_def)
    then show ?thesis by (simp add: r_def NewRecorder_def)
  qed
  define n where "n = min (length evs) (length (rc_buf r))"
  have "ListFiltered f mx r = list_loop r f mx n 1 []"
    using ring by (simp add: ListFiltered_def Let_def n_def ring_def min_def)
  also have "\<dots> = capped mx (filter (ev_match f) (map (\<lambda>k. evs ! (length evs - k)) [1..<n + 1]))"
    using list_loop_eq [OF ring, of n 1 mx "[]" f] by (simp add: n_def)
  also have "\<dots> = capped mx (filter (ev_match f) (rev (drop (length evs - n) evs)))"
    by (subst newest_first) (simp_all add: n_def)
  also have "length evs - n = length evs - length (rc_buf r)" by (simp add: n_def)
  finally show ?thesis by (simp add: r_def len [unfolded r_def])
qed

end
