(* ===== verification/Attention.thy ===== *)
theory Attention
  imports Prelude "HOL-Library.Product_Lexorder"
begin

text \<open>
  Model of \<^verbatim>\<open>internal/attention/attention.go\<close>: the aggregator of active problems, keyed by the
  identity (source, hook, key) joined with NUL bytes.  \<open>at_changes\<close> counts the calls of \<open>onChange\<close>.
  The standard event rules of \<^verbatim>\<open>derive.go\<close> are here too.  The lemmas give the life cycle of an entry:
  it keeps its start time as long as its identity persists, and a re-derivation of one source
  touches no other source.
\<close>

record att_entry =
  a_Source :: string
  a_Hook :: string
  a_Key :: string
  a_Message :: string
  a_Since :: time

abbreviation sep :: string where "sep \<equiv> [CHR 0x00]"

definition identity :: "att_entry \<Rightarrow> string" where
  "identity e = a_Source e @ sep @ a_Hook e @ sep @ a_Key e"

record resolution =
  r_Source :: string
  r_Hook :: string
  r_KeyPrefix :: string

type_synonym rule_func = "string \<Rightarrow> string \<Rightarrow> att_entry list \<times> resolution list"

record aggregator =
  at_entries :: "(string, att_entry) fmap"
  at_rules :: "(string, rule_func list) fmap"
  at_changes :: nat

definition att_New :: aggregator where
  "att_New = \<lparr>at_entries = fmempty, at_rules = fmempty, at_changes = 0\<rparr>"

definition notifyLocked :: "bool \<Rightarrow> aggregator \<Rightarrow> aggregator" where
  "notifyLocked changed a = (if changed then a\<lparr>at_changes := at_changes a + 1\<rparr> else a)"

definition reportLocked :: "time \<Rightarrow> att_entry \<Rightarrow> aggregator \<Rightarrow> bool \<times> aggregator" where
  "reportLocked now e a =
     (let i = identity e in
      case fmlookup (at_entries a) i of
        Some old \<Rightarrow> if a_Message old = a_Message e then (False, a)
          else (True, a\<lparr>at_entries := fmupd i (old\<lparr>a_Message := a_Message e\<rparr>) (at_entries a)\<rparr>)
      | None \<Rightarrow> (True, a\<lparr>at_entries := fmupd i (e\<lparr>a_Since := now\<rparr>) (at_entries a)\<rparr>))"

definition resolveWhereLocked :: "(att_entry \<Rightarrow> bool) \<Rightarrow> aggregator \<Rightarrow> bool \<times> aggregator" where
  "resolveWhereLocked pred a =
     (let kept = fmfilter (\<lambda>i. case fmlookup (at_entries a) i of None \<Rightarrow> True | Some e \<Rightarrow> \<not> pred e) (at_entries a)
      in (kept \<noteq> at_entries a, a\<lparr>at_entries := kept\<rparr>))"

definition att_Report :: "time \<Rightarrow> att_entry \<Rightarrow> aggregator \<Rightarrow> aggregator" where
  "att_Report now e a = (let (changed, a') = reportLocked now e a in notifyLocked changed a')"

definition att_Resolve :: "string \<Rightarrow> string \<Rightarrow> string \<Rightarrow> aggregator \<Rightarrow> aggregator" where
  "att_Resolve source hook key a =
     (let i = identity \<lparr>a_Source = source, a_Hook = hook, a_Key = key, a_Message = [], a_Since = 0\<rparr> in
      if fmlookup (at_entries a) i = None then notifyLocked False a
      else notifyLocked True (a\<lparr>at_entries := fmdrop i (at_entries a)\<rparr>))"

text \<open>The three loops of \<open>ReplaceSource\<close>: build the new set (the last entry of an identity wins),
  drop the cleared identities, then add or refresh.\<close>

definition next_entries :: "string \<Rightarrow> att_entry list \<Rightarrow> (string, att_entry) fmap" where
  "next_entries source es = fold (\<lambda>e m. let e' = e\<lparr>a_Source := source\<rparr> in fmupd (identity e') e' m) es fmempty"

definition refresh_entry :: "time \<Rightarrow> string \<times> att_entry \<Rightarrow> bool \<times> (string, att_entry) fmap \<Rightarrow> bool \<times> (string, att_entry) fmap" where
  "refresh_entry now ie acc =
     (let (i, e) = ie; (changed, m) = acc in
      case fmlookup m i of
        Some old \<Rightarrow> if a_Message old \<noteq> a_Message e then (True, fmupd i (old\<lparr>a_Message := a_Message e\<rparr>) m) else (changed, m)
      | None \<Rightarrow> (True, fmupd i (e\<lparr>a_Since := now\<rparr>) m))"

definition ReplaceSource :: "time \<Rightarrow> string \<Rightarrow> att_entry list \<Rightarrow> aggregator \<Rightarrow> aggregator" where
  "ReplaceSource now source es a =
     (let nxt = next_entries source es;
          cleared = (\<lambda>i. case fmlookup (at_entries a) i of None \<Rightarrow> False
                        | Some e \<Rightarrow> a_Source e = source \<and> fmlookup nxt i = None);
          kept = fmfilter (\<lambda>i. \<not> cleared i) (at_entries a);
          (changed, m) = fold (refresh_entry now) (sorted_list_of_fmap nxt) (kept \<noteq> at_entries a, kept)
      in notifyLocked changed (a\<lparr>at_entries := m\<rparr>))"

definition RegisterEventRule :: "string \<Rightarrow> rule_func \<Rightarrow> aggregator \<Rightarrow> aggregator" where
  "RegisterEventRule kind rule a =
     a\<lparr>at_rules := fmupd kind ((case fmlookup (at_rules a) kind of None \<Rightarrow> [] | Some rs \<Rightarrow> rs) @ [rule]) (at_rules a)\<rparr>"

definition observe_rule :: "time \<Rightarrow> string \<Rightarrow> string \<Rightarrow> rule_func \<Rightarrow> bool \<times> aggregator \<Rightarrow> bool \<times> aggregator" where
  "observe_rule now hook msg rule acc =
     (let (report, resolve) = rule hook msg;
          (c1, a1) = fold (\<lambda>e (c, a). let (d, a') = reportLocked now e a in (c \<or> d, a')) report acc
      in fold (\<lambda>r (c, a). let (d, a') = resolveWhereLocked (\<lambda>e. a_Source e = r_Source r \<and> a_Hook e = r_Hook r \<and>
                 has_prefix (a_Key e) (r_KeyPrefix r)) a in (c \<or> d, a')) resolve (c1, a1))"

definition ObserveEvent :: "time \<Rightarrow> string \<Rightarrow> string \<Rightarrow> string \<Rightarrow> aggregator \<Rightarrow> aggregator" where
  "ObserveEvent now kind hook msg a =
     (let (changed, a') = fold (observe_rule now hook msg)
            (case fmlookup (at_rules a) kind of None \<Rightarrow> [] | Some rs \<Rightarrow> rs) (False, a)
      in notifyLocked changed a')"

definition Snapshot :: "aggregator \<Rightarrow> att_entry list" where
  "Snapshot a = sort_key (\<lambda>e. (a_Since e, a_Source e, a_Hook e, a_Key e)) (map snd (sorted_list_of_fmap (at_entries a)))"

definition att_Count :: "aggregator \<Rightarrow> int" where
  "att_Count a = fmlen (at_entries a)"

subsection \<open>The standard event rules\<close>

definition trim_prefix :: "string \<Rightarrow> string \<Rightarrow> string" where
  "trim_prefix s p = (if has_prefix s p then drop (length p) s else s)"

definition KindHookMisconfigured :: string where "KindHookMisconfigured = ''hook.misconfigured''"
definition KindHookReported :: string where "KindHookReported = ''hook.reported_misconfigured''"
definition KindHookReportResolved :: string where "KindHookReportResolved = ''hook.reported_healthy''"
definition SourceEvent :: string where "SourceEvent = ''event''"
definition KeyAPIKey :: string where "KeyAPIKey = ''api_key''"
definition KeyReportedPrefix :: string where "KeyReportedPrefix = ''reported:''"

definition rule_misconfigured :: rule_func where
  "rule_misconfigured hook msg = (if hook = [] then ([], []) else
     ([\<lparr>a_Source = SourceEvent, a_Hook = hook, a_Key = KeyAPIKey,
        a_Message = ''delivery denied at request time: '' @ trim_prefix msg (hook @ '': ''), a_Since = 0\<rparr>], []))"

definition rule_reported :: rule_func where
  "rule_reported hook msg = (if hook = [] then ([], []) else
     ([\<lparr>a_Source = SourceEvent, a_Hook = hook, a_Key = KeyReportedPrefix @ msg,
        a_Message = ''reported by the hook: '' @ trim_prefix msg (hook @ '': ''), a_Since = 0\<rparr>], []))"

definition rule_resolved :: rule_func where
  "rule_resolved hook msg = (if hook = [] then ([], []) else
     ([], [\<lparr>r_Source = SourceEvent, r_Hook = hook, r_KeyPrefix = KeyReportedPrefix\<rparr>]))"

definition RegisterStandardEventRules :: "aggregator \<Rightarrow> aggregator" where
  "RegisterStandardEventRules a =
     RegisterEventRule KindHookReportResolved rule_resolved
       (RegisterEventRule KindHookReported rule_reported
         (RegisterEventRule KindHookMisconfigured rule_misconfigured a))"

subsection \<open>What the operations do to an entry\<close>

lemma refresh_entry_snd: "fmlookup (snd (refresh_entry now (i, e) acc)) j =
  (if j = i then Some (case fmlookup (snd acc) i of None \<Rightarrow> e\<lparr>a_Since := now\<rparr> | Some old \<Rightarrow> old\<lparr>a_Message := a_Message e\<rparr>)
   else fmlookup (snd acc) j)"
  by (cases acc) (auto simp: refresh_entry_def Let_def split: option.splits)

lemma refresh_fold:
  assumes "distinct (map fst L)"
  shows "fmlookup (snd (fold (refresh_entry now) L acc)) j =
    (case map_of L j of None \<Rightarrow> fmlookup (snd acc) j
     | Some e \<Rightarrow> Some (case fmlookup (snd acc) j of None \<Rightarrow> e\<lparr>a_Since := now\<rparr> | Some old \<Rightarrow> old\<lparr>a_Message := a_Message e\<rparr>))"
  using assms
proof (induction L arbitrary: acc)
  case (Cons x L)
  obtain i e where x: "x = (i, e)" by fastforce
  show ?case
  proof (cases "j = i")
    case True
    then have "map_of L j = None" using Cons.prems by (auto simp: x map_of_eq_None_iff)
    then show ?thesis using Cons True by (simp add: x refresh_entry_snd)
  next
    case False
    then have "fmlookup (snd (refresh_entry now (i, e) acc)) j = fmlookup (snd acc) j" by (simp add: refresh_entry_snd)
    then show ?thesis using Cons False by (simp add: x split: option.split)
  qed
qed simp

lemma fmlookup_ReplaceSource:
  "fmlookup (at_entries (ReplaceSource now source es a)) i =
    (case fmlookup (next_entries source es) i of
       Some e \<Rightarrow> Some (case fmlookup (at_entries a) i of None \<Rightarrow> e\<lparr>a_Since := now\<rparr> | Some old \<Rightarrow> old\<lparr>a_Message := a_Message e\<rparr>)
     | None \<Rightarrow> (case fmlookup (at_entries a) i of None \<Rightarrow> None
                | Some old \<Rightarrow> if a_Source old = source then None else Some old))"
proof -
  have "distinct (map fst (sorted_list_of_fmap (next_entries source es)))" by (simp add: sorted_list_of_fset.rep_eq)
  from refresh_fold [OF this, of now _ i] show ?thesis
    by (simp add: ReplaceSource_def Let_def notifyLocked_def case_prod_beta map_of_sorted_list_of_fmap split: option.split)
qed

lemma find_append: "find P (xs @ ys) = (case find P xs of None \<Rightarrow> find P ys | Some x \<Rightarrow> Some x)"
  by (induction xs) auto

lemma next_entries_lookup: "fmlookup (next_entries source es) i =
  map_option (\<lambda>e. e\<lparr>a_Source := source\<rparr>) (find (\<lambda>e. identity (e\<lparr>a_Source := source\<rparr>) = i) (rev es))"
proof -
  have "fmlookup (fold (\<lambda>e m. let e' = e\<lparr>a_Source := source\<rparr> in fmupd (identity e') e' m) es m) i =
    (case find (\<lambda>e. identity (e\<lparr>a_Source := source\<rparr>) = i) (rev es) of None \<Rightarrow> fmlookup m i
     | Some e \<Rightarrow> Some (e\<lparr>a_Source := source\<rparr>))" for m
    by (induction es arbitrary: m) (auto simp: Let_def find_append split: option.split)
  then show ?thesis by (simp add: next_entries_def split: option.split)
qed

text \<open>The key of an entry is its identity, in every aggregator the operations can build.\<close>

definition att_wf :: "aggregator \<Rightarrow> bool" where
  "att_wf a \<longleftrightarrow> (\<forall>i e. fmlookup (at_entries a) i = Some e \<longrightarrow> identity e = i)"

lemma identity_upd [simp]: "identity (e\<lparr>a_Message := m\<rparr>) = identity e" "identity (e\<lparr>a_Since := t\<rparr>) = identity e"
  by (simp_all add: identity_def)

lemma att_wf_notify [simp]: "att_wf (notifyLocked c a) = att_wf a"
  by (simp add: att_wf_def notifyLocked_def)

lemma att_wf_report: "att_wf a \<Longrightarrow> att_wf (snd (reportLocked now e a))"
  by (auto simp: att_wf_def reportLocked_def Let_def split: option.splits if_splits)

lemma att_wf_ops:
  "att_wf att_New" "att_wf a \<Longrightarrow> att_wf (att_Report now e a)" "att_wf a \<Longrightarrow> att_wf (att_Resolve s h k a)"
  "att_wf a \<Longrightarrow> att_wf (ReplaceSource now s es a)"
proof -
  show "att_wf a \<Longrightarrow> att_wf (ReplaceSource now s es a)"
    by (auto simp: att_wf_def fmlookup_ReplaceSource next_entries_lookup find_Some_iff split: option.splits if_splits)
qed (auto simp: att_Report_def case_prod_beta att_wf_report att_Resolve_def Let_def att_New_def, auto simp: att_wf_def split: if_splits)

definition plain_sources :: "aggregator \<Rightarrow> bool" where
  "plain_sources a \<longleftrightarrow> (\<forall>i e. fmlookup (at_entries a) i = Some e \<longrightarrow> CHR 0x00 \<notin> set (a_Source e))"

lemma takeWhile_sep: "CHR 0x00 \<notin> set s \<Longrightarrow> takeWhile (\<lambda>c. c \<noteq> CHR 0x00) (s @ CHR 0x00 # r) = s"
  by (simp add: takeWhile_tail takeWhile_eq_all_conv) blast

lemma identity_source:
  assumes "identity e = identity d" "CHR 0x00 \<notin> set (a_Source e)" "CHR 0x00 \<notin> set (a_Source d)"
  shows "a_Source e = a_Source d"
  using takeWhile_sep [OF assms(2), of "a_Hook e @ sep @ a_Key e"] takeWhile_sep [OF assms(3), of "a_Hook d @ sep @ a_Key d"] assms(1)
  by (simp add: identity_def)

lemma ReplaceSource_lifecycle_parts:
  assumes "att_wf a" "plain_sources a" "CHR 0x00 \<notin> set source"
  shows "a_Source e = source \<Longrightarrow> fmlookup (at_entries (ReplaceSource now source es a)) (identity e) =
      map_option (\<lambda>x. case fmlookup (at_entries a) (identity e) of
          None \<Rightarrow> x\<lparr>a_Source := source, a_Since := now\<rparr> | Some old \<Rightarrow> old\<lparr>a_Message := a_Message x\<rparr>)
        (find (\<lambda>x. identity (x\<lparr>a_Source := source\<rparr>) = identity e) (rev es))"
    and "d \<noteq> source \<Longrightarrow> a_Source f = d \<Longrightarrow>
      (fmlookup (at_entries (ReplaceSource now source es a)) i = Some f) = (fmlookup (at_entries a) i = Some f)"
proof -
  have old: "a_Source o' = source" if "fmlookup (at_entries a) i = Some o'" "identity x = i" "a_Source x = source" for i x o'
    using identity_source [of o' x] assms that by (auto simp: att_wf_def plain_sources_def)
  show "a_Source e = source \<Longrightarrow> fmlookup (at_entries (ReplaceSource now source es a)) (identity e) =
      map_option (\<lambda>x. case fmlookup (at_entries a) (identity e) of
          None \<Rightarrow> x\<lparr>a_Source := source, a_Since := now\<rparr> | Some old \<Rightarrow> old\<lparr>a_Message := a_Message x\<rparr>)
        (find (\<lambda>x. identity (x\<lparr>a_Source := source\<rparr>) = identity e) (rev es))"
  proof (cases "fmlookup (at_entries a) (identity e)")
    case (Some o')
    assume "a_Source e = source"
    then have "a_Source o' = source" using old [OF Some refl] by simp
    then show ?thesis using Some by (simp add: fmlookup_ReplaceSource next_entries_lookup split: option.split)
  qed (simp add: fmlookup_ReplaceSource next_entries_lookup split: option.split)
  assume d: "d \<noteq> source" "a_Source f = d"
  show "(fmlookup (at_entries (ReplaceSource now source es a)) i = Some f) = (fmlookup (at_entries a) i = Some f)"
  proof (cases "fmlookup (next_entries source es) i")
    case None
    then show ?thesis using d by (auto simp: fmlookup_ReplaceSource split: option.split)
  next
    case (Some x)
    then have x: "identity x = i" "a_Source x = source" by (auto simp: next_entries_lookup find_Some_iff)
    show ?thesis
    proof (cases "fmlookup (at_entries a) i")
      case None
      then show ?thesis using Some d x by (auto simp: fmlookup_ReplaceSource)
    next
      case (Some o')
      then show ?thesis using \<open>fmlookup (next_entries source es) i = Some x\<close> d old [OF Some x]
        by (auto simp: fmlookup_ReplaceSource)
    qed
  qed
qed

text \<open>
  The life cycle of a derived problem.  After a source has been re-derived, an identity of that
  source is active exactly when the new set contains it, with the message of the last entry that
  names it; an identity that was already active keeps the time since when it is active, a new one
  starts now; and the active entries of the other sources are exactly those that were active
  before (sources contain no NUL byte).
\<close>

theorem ReplaceSource_lifecycle:
  assumes "att_wf a" "plain_sources a" "CHR 0x00 \<notin> set source"
  shows "(\<forall>e. a_Source e = source \<longrightarrow> fmlookup (at_entries (ReplaceSource now source es a)) (identity e) =
      map_option (\<lambda>x. case fmlookup (at_entries a) (identity e) of
          None \<Rightarrow> x\<lparr>a_Source := source, a_Since := now\<rparr> | Some old \<Rightarrow> old\<lparr>a_Message := a_Message x\<rparr>)
        (find (\<lambda>x. identity (x\<lparr>a_Source := source\<rparr>) = identity e) (rev es)))
    \<and> (\<forall>f i. a_Source f \<noteq> source \<longrightarrow>
      (fmlookup (at_entries (ReplaceSource now source es a)) i = Some f) = (fmlookup (at_entries a) i = Some f))"
  using ReplaceSource_lifecycle_parts [OF assms] by (intro conjI allI impI) blast+

definition att_ex :: aggregator where
  "att_ex = att_Report 5 \<lparr>a_Source = ''load'', a_Hook = ''h'', a_Key = ''load'', a_Message = ''m'', a_Since = 0\<rparr> att_New"

lemma att_ex_entries: "at_entries att_ex = fmupd (identity \<lparr>a_Source = ''load'', a_Hook = ''h'', a_Key = ''load'', a_Message = ''m'', a_Since = 5\<rparr>)
   \<lparr>a_Source = ''load'', a_Hook = ''h'', a_Key = ''load'', a_Message = ''m'', a_Since = 5\<rparr> fmempty"
  by (simp add: att_ex_def att_Report_def reportLocked_def att_New_def notifyLocked_def Let_def identity_def)

theorem ReplaceSource_lifecycle_witness:
  "fmlookup (at_entries (ReplaceSource 9 ''load''
      [\<lparr>a_Source = [], a_Hook = ''h'', a_Key = ''load'', a_Message = ''n'', a_Since = 0\<rparr>] att_ex))
     (identity \<lparr>a_Source = ''load'', a_Hook = ''h'', a_Key = ''load'', a_Message = ''m'', a_Since = 5\<rparr>) =
   Some \<lparr>a_Source = ''load'', a_Hook = ''h'', a_Key = ''load'', a_Message = ''n'', a_Since = 5\<rparr>"
proof -
  have "att_wf att_ex" "plain_sources att_ex"
    by (auto simp: att_wf_def plain_sources_def att_ex_entries split: if_splits)
  from ReplaceSource_lifecycle [OF this, of "''load''" 9
      "[\<lparr>a_Source = [], a_Hook = ''h'', a_Key = ''load'', a_Message = ''n'', a_Since = 0\<rparr>]", THEN conjunct1, rule_format, of
      "\<lparr>a_Source = ''load'', a_Hook = ''h'', a_Key = ''load'', a_Message = ''m'', a_Since = 5\<rparr>"]
  show ?thesis by (simp add: att_ex_entries identity_def)
qed

definition reported_by :: "string \<Rightarrow> att_entry \<Rightarrow> bool" where
  "reported_by hook e \<longleftrightarrow> a_Source e = SourceEvent \<and> a_Hook e = hook \<and> has_prefix (a_Key e) KeyReportedPrefix"

lemma kinds_distinct: "KindHookMisconfigured \<noteq> KindHookReported" "KindHookMisconfigured \<noteq> KindHookReportResolved"
  "KindHookReported \<noteq> KindHookReportResolved"
  by (simp_all add: KindHookMisconfigured_def KindHookReported_def KindHookReportResolved_def)

lemma standard_rules:
  assumes "at_rules a = fmempty"
  shows "fmlookup (at_rules (RegisterStandardEventRules a)) KindHookReported = Some [rule_reported]"
    "fmlookup (at_rules (RegisterStandardEventRules a)) KindHookReportResolved = Some [rule_resolved]"
    "at_entries (RegisterStandardEventRules a) = at_entries a"
  using assms kinds_distinct by (simp_all add: RegisterStandardEventRules_def RegisterEventRule_def)

lemma notify_entries [simp]: "at_entries (notifyLocked c a) = at_entries a"
  by (simp add: notifyLocked_def)

lemma resolveWhere_lookup: "fmlookup (at_entries (snd (resolveWhereLocked P a))) i =
  (case fmlookup (at_entries a) i of None \<Rightarrow> None | Some e \<Rightarrow> if P e then None else Some e)"
  by (simp add: resolveWhereLocked_def Let_def split: option.split)

text \<open>
  A misconfiguration that a hook reports stays visible until the hook reports itself healthy:
  with the standard rules, the report event leaves the hook's entry for that message active, and
  the all-clear of a hook removes every entry that hook reported and no other entry.
\<close>

theorem reported_until_healthy:
  assumes "fmlookup (at_rules a) KindHookReported = Some [rule_reported]"
    and "fmlookup (at_rules a) KindHookReportResolved = Some [rule_resolved]" "hook \<noteq> []"
  shows "\<exists>e. fmlookup (at_entries (ObserveEvent now KindHookReported hook msg a))
           (SourceEvent @ sep @ hook @ sep @ KeyReportedPrefix @ msg) = Some e \<and>
         (fmlookup (at_entries a) (SourceEvent @ sep @ hook @ sep @ KeyReportedPrefix @ msg) = None \<longrightarrow> a_Since e = now)"
    and "fmlookup (at_entries (ObserveEvent now KindHookReportResolved hook msg a)) i =
      (case fmlookup (at_entries a) i of None \<Rightarrow> None | Some e \<Rightarrow> if reported_by hook e then None else Some e)"
proof -
  show "\<exists>e. fmlookup (at_entries (ObserveEvent now KindHookReported hook msg a))
           (SourceEvent @ sep @ hook @ sep @ KeyReportedPrefix @ msg) = Some e \<and>
         (fmlookup (at_entries a) (SourceEvent @ sep @ hook @ sep @ KeyReportedPrefix @ msg) = None \<longrightarrow> a_Since e = now)"
    using assms by (auto simp: ObserveEvent_def observe_rule_def rule_reported_def reportLocked_def Let_def identity_def
        split: option.splits if_splits)
  show "fmlookup (at_entries (ObserveEvent now KindHookReportResolved hook msg a)) i =
      (case fmlookup (at_entries a) i of None \<Rightarrow> None | Some e \<Rightarrow> if reported_by hook e then None else Some e)"
    using assms by (simp add: ObserveEvent_def observe_rule_def rule_resolved_def case_prod_beta resolveWhere_lookup reported_by_def split: option.split)
qed

theorem reported_until_healthy_witness:
  "fmlookup (at_entries (ObserveEvent 9 KindHookReportResolved ''h'' []
      (ObserveEvent 7 KindHookReported ''h'' ''x'' (RegisterStandardEventRules att_New))))
     (SourceEvent @ sep @ ''h'' @ sep @ KeyReportedPrefix @ ''x'') = None"
proof -
  let ?a = "RegisterStandardEventRules att_New" and ?b = "ObserveEvent 7 KindHookReported ''h'' ''x'' (RegisterStandardEventRules att_New)"
  have "at_rules att_New = fmempty" by (simp add: att_New_def)
  note r = standard_rules [OF this]
  have "at_rules ?b = at_rules ?a"
    by (simp add: ObserveEvent_def r observe_rule_def rule_reported_def reportLocked_def Let_def notifyLocked_def split: option.splits)
  with r have "fmlookup (at_rules ?b) KindHookReported = Some [rule_reported]" "fmlookup (at_rules ?b) KindHookReportResolved = Some [rule_resolved]"
    by simp_all
  note rb = this
  have "at_entries ?a = fmempty" using r(3) by (simp add: att_New_def)
  then have "\<exists>e. fmlookup (at_entries ?b) (SourceEvent @ sep @ ''h'' @ sep @ KeyReportedPrefix @ ''x'') = Some e \<and> reported_by ''h'' e"
    by (simp add: ObserveEvent_def r observe_rule_def rule_reported_def reportLocked_def Let_def notifyLocked_def
        identity_def reported_by_def has_prefix_def)
  with reported_until_healthy(2) [OF rb, of "''h''" 9 "[]" "SourceEvent @ sep @ ''h'' @ sep @ KeyReportedPrefix @ ''x''"]
  show ?thesis by auto
qed

end
