(* ===== verification/ReloadGate.thy ===== *)
theory ReloadGate
  imports Attention
begin

text \<open>
  Model of \<^verbatim>\<open>internal/reloadgate\<close>: the gate that holds the hooks repository's working tree behind a
  green CI status.  What the gate asks of git, of the status API, of the loader and of the file
  system during one call is an argument \<open>env\<close> (the \<open>GitRepo\<close>, \<open>StatusFunc\<close> and \<open>Apply\<close> interfaces of
  the source): each field is the answer of one operation, an error text on the left or in an
  option.  \<open>rg_tree\<close> is the commit the working tree is checked out at; only a successful \<open>ResetTo\<close>
  moves it.  \<open>rg_disk\<close> is the state file.  Events are recorded as their kind and the values that the
  source formats into the message; attention entries carry the full text.

  The lemmas show that a push never moves the tree, that the automatic paths move it only on an
  affirmative green that passes the ordering rule, that a tree the loader refuses is rolled back,
  that the record of what is serving never disagrees with what is checked out, and that the
  verdict store is bounded and answers with the last verdict.
\<close>

subsection \<open>State\<close>

record verdict_record =
  v_SHA :: string
  v_State :: string
  v_SeenAt :: time

record gate_state =
  gs_ServingSHA :: string
  gs_Verified :: bool
  gs_PendingSHA :: string
  gs_PendingState :: string
  gs_UpdatedAt :: time
  gs_Verdicts :: "verdict_record list"

record gate =
  rg_branch :: string
  rg_context :: string
  rg_repoSlug :: string
  rg_serving :: string
  rg_verified :: bool
  rg_pendingSHA :: string
  rg_pendingState :: string
  rg_verdicts :: "verdict_record list"
  rg_lastPollBlind :: string
  rg_tree :: string
  rg_disk :: "gate_state option"
  rg_att :: aggregator
  rg_events :: "(string \<times> string list) list"

record gate_env =
  e_head :: "string + string"
  e_fetch :: "string + string"
  e_recent :: "string + string list"
  e_reset :: "string \<Rightarrow> string option"
  e_fetchSHA :: "string \<Rightarrow> string option"
  e_hasSrc :: "string \<Rightarrow> bool"
  e_resolve :: "string \<Rightarrow> string + string"
  e_resolve2 :: "string \<Rightarrow> string + string"
  e_apply :: "(string \<Rightarrow> string option) option"
  e_status :: "(string \<Rightarrow> string + string) option"
  e_write :: "string option"
  e_now :: time

datatype gate_error = GErrFetch string | GErrHistory string | GErrReset string string | GErrRefused string
  | GErrUnknownRef string string | GErrNoRepo | GErrNoContext | GErrNoStatePath | GErrMkdir | GErrRead | GErrParse

definition statusBranchesCap :: nat where "statusBranchesCap = 10"
definition SourceReload :: string where "SourceReload = ''reload''"
definition KeyReloadHeld :: string where "KeyReloadHeld = ''held''"
definition KeyReloadUnverified :: string where "KeyReloadUnverified = ''unverified''"
definition KeyReloadPoll :: string where "KeyReloadPoll = ''poll''"

definition indexOf :: "string list \<Rightarrow> string \<Rightarrow> int" where
  "indexOf xs s = (if s = [] then -1
     else case find (\<lambda>(i, v). v = s) (enumerate 0 xs) of None \<Rightarrow> -1 | Some (i, _) \<Rightarrow> int i)"

definition short :: "string \<Rightarrow> string" where
  "short sha = (if sha = [] then ''(none)'' else if length sha > 12 then take 12 sha else sha)"


definition withChecks :: "gate \<Rightarrow> string \<Rightarrow> string \<Rightarrow> string" where
  "withChecks g msg sha =
     (if rg_repoSlug g = [] \<or> sha = [] then msg
      else msg @ '' '' @ em_dash @ '' https://github.com/'' @ rg_repoSlug g @ ''/commit/'' @ sha @ ''/checks'')"

definition trackedBranch :: "gate \<Rightarrow> string \<Rightarrow> string" where
  "trackedBranch g payloadDefault = (if rg_branch g \<noteq> [] then rg_branch g else payloadDefault)"

definition pendingStateLocked :: "gate \<Rightarrow> string" where
  "pendingStateLocked g = (if rg_pendingState g = [] then ''pending'' else rg_pendingState g)"

definition record_ev :: "string \<Rightarrow> string list \<Rightarrow> gate \<Rightarrow> gate" where
  "record_ev kind vals g = g\<lparr>rg_events := rg_events g @ [(kind, vals)]\<rparr>"

definition att_report :: "gate_env \<Rightarrow> string \<Rightarrow> string \<Rightarrow> gate \<Rightarrow> gate" where
  "att_report env key msg g = g\<lparr>rg_att := att_Report (e_now env)
     \<lparr>a_Source = SourceReload, a_Hook = [], a_Key = key, a_Message = msg, a_Since = 0\<rparr> (rg_att g)\<rparr>"

definition att_resolve :: "string \<Rightarrow> gate \<Rightarrow> gate" where
  "att_resolve key g = g\<lparr>rg_att := att_Resolve SourceReload [] key (rg_att g)\<rparr>"

definition ResetTo :: "gate_env \<Rightarrow> string \<Rightarrow> gate \<Rightarrow> string option \<times> gate" where
  "ResetTo env sha g = (case e_reset env sha of None \<Rightarrow> (None, g\<lparr>rg_tree := sha\<rparr>) | Some err \<Rightarrow> (Some err, g))"

definition persistLocked :: "gate_env \<Rightarrow> gate \<Rightarrow> gate" where
  "persistLocked env g =
     (let st = \<lparr>gs_ServingSHA = rg_serving g, gs_Verified = rg_verified g, gs_PendingSHA = rg_pendingSHA g,
                gs_PendingState = rg_pendingState g, gs_UpdatedAt = e_now env, gs_Verdicts = rg_verdicts g\<rparr>
      in case e_write env of None \<Rightarrow> g\<lparr>rg_disk := Some st\<rparr>
         | Some err \<Rightarrow> record_ev ''reload.state_write_failed'' [err] g)"

subsection \<open>Verdicts\<close>

definition verdictTTL :: duration where "verdictTTL = 7 * 24 * Hour"
definition maxVerdicts :: nat where "maxVerdicts = 200"

fun oldest_loop :: "verdict_record list \<Rightarrow> nat \<Rightarrow> verdict_record list \<Rightarrow> nat \<Rightarrow> nat" where
  "oldest_loop vs i [] oldest = oldest"
| "oldest_loop vs i (v # rest) oldest =
     oldest_loop vs (i + 1) rest (if v_SeenAt v < v_SeenAt (vs ! oldest) then i else oldest)"

lemma oldest_loop_bound: "oldest < length vs \<Longrightarrow> i + length rest \<le> length vs \<Longrightarrow> oldest_loop vs i rest oldest < length vs"
  by (induction rest arbitrary: i oldest) auto

function prune_cap :: "verdict_record list \<Rightarrow> verdict_record list" where
  "prune_cap vs =
     (if length vs > maxVerdicts
      then let o' = oldest_loop vs 0 vs 0 in prune_cap (take o' vs @ drop (o' + 1) vs)
      else vs)"
  by pat_completeness auto
termination
proof (relation "measure length")
  fix vs :: "verdict_record list" and o' assume a: "length vs > maxVerdicts" "o' = oldest_loop vs 0 vs 0"
  then have "o' < length vs" using oldest_loop_bound [of 0 vs 0 vs] by (cases "vs = []") auto
  then show "(take o' vs @ drop (o' + 1) vs, vs) \<in> measure length" by simp
qed simp

declare prune_cap.simps [simp del]

definition pruneVerdicts :: "time \<Rightarrow> verdict_record list \<Rightarrow> verdict_record list" where
  "pruneVerdicts now vs = prune_cap (filter (\<lambda>v. now - v_SeenAt v < verdictTTL) vs)"

fun upsert_verdict :: "string \<Rightarrow> string \<Rightarrow> time \<Rightarrow> verdict_record list \<Rightarrow> verdict_record list" where
  "upsert_verdict sha state now [] = [\<lparr>v_SHA = sha, v_State = state, v_SeenAt = now\<rparr>]"
| "upsert_verdict sha state now (v # vs) =
     (if v_SHA v = sha then v\<lparr>v_State := state, v_SeenAt := now\<rparr> # vs else v # upsert_verdict sha state now vs)"

definition recordVerdict :: "gate_env \<Rightarrow> string \<Rightarrow> string \<Rightarrow> gate \<Rightarrow> gate" where
  "recordVerdict env sha state g =
     persistLocked env (g\<lparr>rg_verdicts := pruneVerdicts (e_now env) (upsert_verdict sha state (e_now env) (rg_verdicts g))\<rparr>)"

definition verdictFor :: "time \<Rightarrow> string \<Rightarrow> gate \<Rightarrow> string option" where
  "verdictFor now sha g =
     map_option v_State (find (\<lambda>v. v_SHA v = sha \<and> now - v_SeenAt v < verdictTTL) (rg_verdicts g))"

subsection \<open>Construction\<close>

datatype state_file = StMissing | StReadErr | StCorrupt | StDoc gate_state

definition gate_New :: "bool \<Rightarrow> string \<Rightarrow> string \<Rightarrow> string \<Rightarrow> string \<Rightarrow> bool \<Rightarrow> state_file \<Rightarrow> time \<Rightarrow> string \<Rightarrow> aggregator \<Rightarrow>
    gate_error + gate" where
  "gate_New hasRepo branch context statePath slug mkdir_ok file now tree att =
     (if \<not> hasRepo then Inl GErrNoRepo
      else if context = [] then Inl GErrNoContext
      else if statePath = [] then Inl GErrNoStatePath
      else if \<not> mkdir_ok then Inl GErrMkdir
      else
        let g = \<lparr>rg_branch = branch, rg_context = context, rg_repoSlug = slug, rg_serving = [], rg_verified = False,
                 rg_pendingSHA = [], rg_pendingState = [], rg_verdicts = [], rg_lastPollBlind = [], rg_tree = tree,
                 rg_disk = None, rg_att = att, rg_events = []\<rparr>
        in case file of StMissing \<Rightarrow> Inr g | StReadErr \<Rightarrow> Inl GErrRead | StCorrupt \<Rightarrow> Inl GErrParse
           | StDoc st \<Rightarrow> Inr (g\<lparr>rg_serving := gs_ServingSHA st, rg_verified := gs_Verified st,
               rg_pendingSHA := gs_PendingSHA st, rg_pendingState := gs_PendingState st,
               rg_verdicts := pruneVerdicts now (gs_Verdicts st), rg_disk := Some st\<rparr>))"

subsection \<open>Holding\<close>

definition resolveHoldEntriesLocked :: "gate \<Rightarrow> gate" where
  "resolveHoldEntriesLocked g = att_resolve KeyReloadPoll (att_resolve KeyReloadHeld (g\<lparr>rg_lastPollBlind := []\<rparr>))"

definition recordPendingLocked :: "gate_env \<Rightarrow> string \<Rightarrow> gate \<Rightarrow> gate" where
  "recordPendingLocked env sha g =
     (let g1 = persistLocked env (g\<lparr>rg_pendingSHA := sha, rg_pendingState := ''pending''\<rparr>);
          msg = withChecks g1 (''hooks repo '' @ short sha @ '' awaiting '' @ rg_context g1 @ ''; serving '' @ short (rg_serving g1)) sha
      in att_report env KeyReloadHeld msg (record_ev ''reload.held'' [msg] g1))"

record push_payload =
  pp_Ref :: string
  pp_DefaultBranch :: string

definition handlePush :: "gate_env \<Rightarrow> string + push_payload \<Rightarrow> gate \<Rightarrow> (gate_error + string) \<times> gate" where
  "handlePush env body g =
     (case body of Inl err \<Rightarrow> (Inr ''ignored'', record_ev ''reload.ignored'' [err] g)
      | Inr p \<Rightarrow>
        if pp_Ref p \<noteq> [] \<and> pp_Ref p \<noteq> ''refs/heads/'' @ trackedBranch g (pp_DefaultBranch p) then (Inr ''ignored'', g)
        else case e_fetch env of
          Inl err \<Rightarrow> (Inl (GErrFetch err), record_ev ''git.pull_failed'' [err] g)
        | Inr tip \<Rightarrow>
            if tip = rg_serving g then
              (Inr ''up-to-date'', resolveHoldEntriesLocked
                 (if rg_pendingSHA g \<noteq> [] then persistLocked env (g\<lparr>rg_pendingSHA := [], rg_pendingState := []\<rparr>) else g))
            else (Inr ''held'', recordPendingLocked env tip g))"

definition holdRed :: "gate_env \<Rightarrow> string \<Rightarrow> string \<Rightarrow> gate \<Rightarrow> string \<times> gate" where
  "holdRed env sha state g =
     (if sha \<noteq> rg_pendingSHA g \<and> \<not> (rg_pendingSHA g = [] \<and> sha \<noteq> rg_serving g) then (''ignored'', g)
      else let g1 = persistLocked env (g\<lparr>rg_pendingSHA := sha, rg_pendingState := state\<rparr>);
               msg = withChecks g1 (rg_context g1 @ '' '' @ state @ '' for '' @ short sha @ ''; serving '' @ short (rg_serving g1) @ '' unchanged'') sha
           in (''held'', att_report env KeyReloadHeld msg (record_ev ''reload.held_red'' [msg] g1)))"

subsection \<open>Switching\<close>

definition applyOrRollbackLocked :: "gate_env \<Rightarrow> string \<Rightarrow> string \<Rightarrow> bool \<Rightarrow> gate \<Rightarrow> gate_error option \<times> gate" where
  "applyOrRollbackLocked env sha prevSHA prevVerified g =
     (case e_apply env of None \<Rightarrow> (None, g)
      | Some apply_tree \<Rightarrow>
        (case apply_tree (rg_tree g) of None \<Rightarrow> (None, g)
         | Some applyErr \<Rightarrow>
           if prevSHA = [] \<or> prevSHA = sha then
             (Some (GErrRefused applyErr), record_ev ''reload.refused'' [sha, applyErr] g)
           else case ResetTo env prevSHA g of
             (Some err, g1) \<Rightarrow> (Some (GErrRefused applyErr), record_ev ''reload.refused'' [sha, applyErr, prevSHA, err] g1)
           | (None, g1) \<Rightarrow>
               let g2 = persistLocked env (g1\<lparr>rg_serving := prevSHA, rg_verified := prevVerified\<rparr>)
               in case apply_tree (rg_tree g2) of
                    Some reErr \<Rightarrow> (Some (GErrRefused applyErr), record_ev ''reload.refused'' [sha, applyErr, prevSHA, reErr] g2)
                  | None \<Rightarrow> (Some (GErrRefused applyErr), record_ev ''reload.refused'' [sha, applyErr, prevSHA] g2)))"

definition trySwitch :: "gate_env \<Rightarrow> string \<Rightarrow> gate \<Rightarrow> string \<times> gate_error option \<times> gate" where
  "trySwitch env sha g =
     (if sha = rg_serving g then
        (''already-serving'', None,
         if \<not> rg_verified g
         then att_resolve KeyReloadUnverified (record_ev ''reload.verified'' [sha] (persistLocked env (g\<lparr>rg_verified := True\<rparr>)))
         else g)
      else case e_fetch env of
        Inl err \<Rightarrow> ([], Some (GErrFetch err), record_ev ''git.pull_failed'' [err] g)
      | Inr _ \<Rightarrow> (case e_recent env of
          Inl err \<Rightarrow> ([], Some (GErrHistory err), record_ev ''reload.failed'' [err] g)
        | Inr commits \<Rightarrow>
            let posS = indexOf commits sha; posServing = indexOf commits (rg_serving g) in
            if posS = -1 then (''ignored-stale'', None, record_ev ''reload.ignored_stale'' [sha] g)
            else if posServing \<noteq> -1 \<and> posServing < posS then (''ignored-stale'', None, record_ev ''reload.ignored_stale'' [sha] g)
            else case ResetTo env sha g of
              (Some err, g1) \<Rightarrow> ([], Some (GErrReset sha err), record_ev ''reload.failed'' [sha, err] g1)
            | (None, g1) \<Rightarrow>
                let prevSHA = rg_serving g1; prevVerified = rg_verified g1;
                    g2 = g1\<lparr>rg_serving := sha, rg_verified := True\<rparr>;
                    pos = indexOf commits (rg_pendingSHA g2);
                    g3 = (if rg_pendingSHA g2 \<noteq> [] \<and> rg_pendingSHA g2 \<noteq> sha \<and> pos \<noteq> -1 \<and> pos < posS
                          then att_report env KeyReloadHeld (withChecks g2 (''switched to '' @ short sha @ ''; still awaiting ''
                                 @ rg_context g2 @ '' for '' @ short (rg_pendingSHA g2)) (rg_pendingSHA g2)) g2
                          else resolveHoldEntriesLocked (g2\<lparr>rg_pendingSHA := [], rg_pendingState := []\<rparr>));
                    g4 = att_resolve KeyReloadUnverified (record_ev ''reload.switched'' [sha] (persistLocked env g3))
                in case applyOrRollbackLocked env sha prevSHA prevVerified g4 of
                     (Some err, g5) \<Rightarrow> (''refused'', Some err, g5)
                   | (None, g5) \<Rightarrow> (''reloaded'', None, g5)))"

record status_payload =
  sp_SHA :: string
  sp_State :: string
  sp_Context :: string
  sp_Branches :: "string list"
  sp_DefaultBranch :: string

text \<open>\<open>env\<close> serves the verdict's section and \<open>env2\<close> the switch's; \<open>oth\<close> is what other goroutines do to
  the gate between the two critical sections.\<close>

definition handleStatus :: "gate_env \<Rightarrow> gate_env \<Rightarrow> (gate \<Rightarrow> gate) \<Rightarrow> string + status_payload \<Rightarrow> gate \<Rightarrow> string \<times> gate_error option \<times> gate" where
  "handleStatus env env2 oth body g =
     (case body of Inl err \<Rightarrow> (''ignored'', None, record_ev ''reload.ignored'' [err] g)
      | Inr p \<Rightarrow>
        if sp_Context p \<noteq> rg_context g then (''ignored'', None, g)
        else if sp_SHA p = [] \<or> sp_State p = [] then (''ignored'', None, record_ev ''reload.ignored'' [] g)
        else if sp_Branches p \<noteq> [] \<and> \<not> (sp_State p = ''success'' \<and> length (sp_Branches p) = statusBranchesCap) \<and>
          trackedBranch g (sp_DefaultBranch p) \<notin> set (sp_Branches p) then (''ignored'', None, g)
        else if sp_State p = ''pending'' then (''ignored'', None, g)
        else if sp_State p = ''failure'' \<or> sp_State p = ''error'' then
          (let (st, g') = holdRed env2 (sp_SHA p) (sp_State p) (oth (recordVerdict env (sp_SHA p) (sp_State p) g)) in (st, None, g'))
        else if sp_State p = ''success'' then trySwitch env2 (sp_SHA p) (oth (recordVerdict env (sp_SHA p) (sp_State p) g))
        else (''ignored'', None, g))"


datatype gate_answer = GAnswer "gate_error + string" | GUnhandled string

definition HandleEvent :: "gate_env \<Rightarrow> gate_env \<Rightarrow> (gate \<Rightarrow> gate) \<Rightarrow> string \<Rightarrow> string + push_payload \<Rightarrow> string + status_payload \<Rightarrow> gate \<Rightarrow>
    gate_answer \<times> gate" where
  "HandleEvent env env2 oth ev push status g =
     (if ev = ''push'' then (let (r, g') = handlePush env push g in (GAnswer r, g'))
      else if ev = ''status'' then
        (let (st, err, g') = handleStatus env env2 oth status g
         in (GAnswer (case err of None \<Rightarrow> Inr st | Some e \<Rightarrow> Inl e), g'))
      else if ev = ''ping'' then (GAnswer (Inr ''ignored''), g)
      else (GUnhandled ev, g))"

subsection \<open>The operator's controls\<close>

definition forceApplyLocked :: "gate_env \<Rightarrow> string \<Rightarrow> bool \<Rightarrow> string \<Rightarrow> string list \<Rightarrow> gate \<Rightarrow> gate_error option \<times> gate" where
  "forceApplyLocked env sha clearPending kind vals g =
     (let prevSHA = rg_serving g; prevVerified = rg_verified g in
      case ResetTo env sha g of
        (Some err, g1) \<Rightarrow> (Some (GErrReset sha err), record_ev ''reload.failed'' [sha, err] g1)
      | (None, g1) \<Rightarrow>
          let g2 = g1\<lparr>rg_serving := sha, rg_verified := True\<rparr>;
              g3 = persistLocked env (if clearPending \<or> rg_pendingSHA g2 = sha
                     then g2\<lparr>rg_pendingSHA := [], rg_pendingState := []\<rparr> else g2);
              g4 = (if rg_pendingSHA g3 = [] then resolveHoldEntriesLocked g3 else g3);
              g5 = record_ev kind vals (att_resolve KeyReloadUnverified g4)
          in applyOrRollbackLocked env sha prevSHA prevVerified g5)"

definition localTipLocked :: "gate_env \<Rightarrow> gate \<Rightarrow> string + string" where
  "localTipLocked env g =
     (if rg_pendingSHA g \<noteq> [] then Inr (rg_pendingSHA g)
      else e_resolve env (if rg_branch g \<noteq> [] then ''origin/'' @ rg_branch g else ''HEAD''))"

definition Force :: "gate_env \<Rightarrow> gate \<Rightarrow> gate_error option \<times> gate" where
  "Force env g =
     (case e_fetch env of
        Inr tip \<Rightarrow> forceApplyLocked env tip True ''reload.forced'' [tip] g
      | Inl err \<Rightarrow>
          (case localTipLocked env g of
             Inl _ \<Rightarrow> (Some (GErrFetch err), record_ev ''git.pull_failed'' [err] g)
           | Inr local \<Rightarrow> forceApplyLocked env local True ''reload.forced'' [local]
                             (record_ev ''git.pull_failed'' [err, local] g)))"

record tree_state =
  ts_ServingSHA :: string
  ts_Verified :: bool
  ts_PendingSHA :: string
  ts_PendingState :: string
  ts_Context :: string

definition TreeState :: "gate \<Rightarrow> tree_state" where
  "TreeState g = \<lparr>ts_ServingSHA = rg_serving g, ts_Verified = rg_verified g, ts_PendingSHA = rg_pendingSHA g,
     ts_PendingState = (if rg_pendingSHA g \<noteq> [] then pendingStateLocked g else []), ts_Context = rg_context g\<rparr>"

definition CIState :: "gate_env \<Rightarrow> string \<Rightarrow> string" where
  "CIState env sha =
     (case e_status env of None \<Rightarrow> ''unknown''
      | Some status \<Rightarrow> if sha = [] then ''unknown''
          else case status sha of Inl _ \<Rightarrow> ''unknown'' | Inr state \<Rightarrow> if state = [] then ''none'' else state)"

datatype switch_reason = NotProbed string | NotGreen string string | NoSrcDir string

record switch_outcome =
  so_SHA :: string
  so_CIState :: string
  so_HasSrc :: bool
  so_Switched :: bool
  so_Reasons :: "switch_reason list"

definition ciStateNotProbed :: string where
  "ciStateNotProbed = ''not-probed (override)''"

definition ManualSwitch :: "gate_env \<Rightarrow> string \<Rightarrow> bool \<Rightarrow> gate \<Rightarrow> (gate_error option \<times> switch_outcome option) \<times> gate" where
  "ManualSwitch env ref override g =
     (let g0 = (case e_fetch env of Inl err \<Rightarrow> record_ev ''git.pull_failed'' [err] g | Inr _ \<Rightarrow> g)
      in case (case e_resolve env ref of Inr sha \<Rightarrow> Inr sha | Inl _ \<Rightarrow> e_resolve2 env ref) of
           Inl err \<Rightarrow> ((Some (GErrUnknownRef ref err), None), g0)
         | Inr sha \<Rightarrow>
             let hasSrc = e_hasSrc env sha;
                 ci = (if override then ciStateNotProbed else CIState env sha);
                 reasons = (if override then [NotProbed sha] else if ci \<noteq> ''success'' then [NotGreen sha ci] else [])
                           @ (if hasSrc then [] else [NoSrcDir sha]);
                 out = \<lparr>so_SHA = sha, so_CIState = ci, so_HasSrc = hasSrc, so_Switched = False, so_Reasons = reasons\<rparr>
             in if reasons \<noteq> [] \<and> \<not> override then ((None, Some out), record_ev ''reload.switch_refused'' [sha] g0)
                else
                  let clearPending = (rg_pendingSHA g0 = sha \<or> e_fetch env = Inr sha)
                  in case forceApplyLocked env sha clearPending (if override then ''reload.forced'' else ''reload.switched'') [sha] g0 of
                       (Some err, g1) \<Rightarrow> ((Some err, Some out), g1)
                     | (None, g1) \<Rightarrow> ((None, Some (out\<lparr>so_Switched := True\<rparr>)), g1))"

subsection \<open>The reconciliation poll\<close>

definition alreadyHeld :: "string \<Rightarrow> string \<Rightarrow> gate \<Rightarrow> bool" where
  "alreadyHeld sha state g \<longleftrightarrow> rg_pendingSHA g = sha \<and> pendingStateLocked g = state"

definition holdBlind :: "gate_env \<Rightarrow> string \<Rightarrow> string \<Rightarrow> gate \<Rightarrow> gate" where
  "holdBlind env tip reason g =
     (let msg = ''reload poll: hooks repo '' @ short tip @ '' awaits '' @ rg_context g @ '' but its status could not be read (''
                @ reason @ ''); serving '' @ short (rg_serving g) @ '' '' @ em_dash
                @ '' fix the credential, redeliver the status event, or force via admin /reload'';
          g1 = (if msg \<noteq> rg_lastPollBlind g then record_ev ''reload.poll_blind'' [msg] (g\<lparr>rg_lastPollBlind := msg\<rparr>) else g)
      in att_report env KeyReloadPoll msg g1)"

definition readGatingState :: "gate_env \<Rightarrow> string \<Rightarrow> gate \<Rightarrow> (string + string) \<times> gate" where
  "readGatingState env tip g =
     (let api = (case e_status env of None \<Rightarrow> Inl ''no status reader configured'' | Some status \<Rightarrow> status tip)
      in case api of Inr state \<Rightarrow> (Inr state, g)
         | Inl apiErr \<Rightarrow>
             (case verdictFor (e_now env) tip g of None \<Rightarrow> (Inl apiErr, g)
              | Some state \<Rightarrow> (Inr state, record_ev ''reload.poll_recorded'' [tip, apiErr, state] g)))"

text \<open>The pass takes and drops the gate's lock several times: \<open>oth k\<close> is what other goroutines do to the
  gate before its \<open>k\<close>-th critical section; \<open>env2\<close> answers the switch's own fetch.\<close>

definition Reconcile :: "gate_env \<Rightarrow> gate_env \<Rightarrow> (nat \<Rightarrow> gate \<Rightarrow> gate) \<Rightarrow> gate \<Rightarrow> string \<times> gate" where
  "Reconcile env env2 oth g =
     (let serving = rg_serving g; g1 = oth 1 g in
      case e_fetch env of
        Inl err \<Rightarrow> (''fetch-failed'', record_ev ''git.pull_failed'' [err] g1)
      | Inr tip \<Rightarrow>
          if tip = serving then
            (''already-current'',
             if tip = rg_serving g1
             then resolveHoldEntriesLocked
                    (if rg_pendingSHA g1 \<noteq> [] then persistLocked env (g1\<lparr>rg_pendingSHA := [], rg_pendingState := []\<rparr>) else g1)
             else g1)
          else case readGatingState env tip g1 of
            (Inl err, g2) \<Rightarrow> (''held-blind'', holdBlind env tip err (oth 2 g2))
          | (Inr state, g2) \<Rightarrow>
              let g3 = att_resolve KeyReloadPoll ((oth 2 g2)\<lparr>rg_lastPollBlind := []\<rparr>); g4 = oth 3 g3 in
              if state = ''success'' then
                (case trySwitch env2 tip g4 of
                   (st, Some err, g5) \<Rightarrow> (''switch-failed'', g5)
                 | (st, None, g5) \<Rightarrow>
                     (if st = ''reloaded'' then ''switched'' else if st = ''already-serving'' then ''already-current'' else st, g5))
              else if state = ''failure'' \<or> state = ''error'' then
                (''held-red'',
                 if alreadyHeld tip state g4 then g4
                 else snd (holdRed env2 tip state (oth 5 ((oth 4 g4)\<lparr>rg_pendingSHA := tip\<rparr>))))
              else
                (''held-pending'',
                 if alreadyHeld tip ''pending'' g4 then g4 else recordPendingLocked env2 tip (oth 4 g4)))"

subsection \<open>Startup\<close>

definition startupFreshLocked :: "gate_env \<Rightarrow> gate \<Rightarrow> gate" where
  "startupFreshLocked env g =
     (let (head, g1) = (case e_head env of Inr h \<Rightarrow> (h, g) | Inl err \<Rightarrow> ([], record_ev ''reload.failed'' [err] g))
      in record_ev ''reload.unverified'' [head] (persistLocked env (g1\<lparr>rg_serving := head, rg_verified := False\<rparr>)))"

definition startupRestoreLocked :: "gate_env \<Rightarrow> gate \<Rightarrow> gate" where
  "startupRestoreLocked env g =
     (if e_head env = Inr (rg_serving g) then g
      else
        let head = (case e_head env of Inr h \<Rightarrow> h | Inl _ \<Rightarrow> []);
            restored = (if e_fetchSHA env (rg_serving g) = None
                        then (case ResetTo env (rg_serving g) g of (None, g1) \<Rightarrow> Some (record_ev ''reload.restored'' [rg_serving g] g1)
                              | (Some _, _) \<Rightarrow> None)
                        else None)
        in case restored of Some g1 \<Rightarrow> g1
           | None \<Rightarrow>
               let lost = rg_serving g;
                   moved = (case e_fetch env of Inl err \<Rightarrow> Inl err
                            | Inr tip \<Rightarrow> (case ResetTo env tip g of (Some err, _) \<Rightarrow> Inl err | (None, g1) \<Rightarrow> Inr (tip, g1)))
               in case moved of
                    Inl err \<Rightarrow> (record_ev ''reload.failed'' [err] g)\<lparr>rg_serving := head, rg_verified := False\<rparr>
                  | Inr (tip, g1) \<Rightarrow> record_ev ''reload.unverified'' [lost, tip]
                      (persistLocked env (g1\<lparr>rg_serving := tip, rg_verified := False\<rparr>)))"

definition Startup :: "gate_env \<Rightarrow> gate \<Rightarrow> gate" where
  "Startup env g =
     (let g1 = (if rg_serving g = [] then startupFreshLocked env g else startupRestoreLocked env g);
          g2 = (if rg_pendingSHA g1 \<noteq> [] \<and> rg_pendingSHA g1 = rg_serving g1
                then persistLocked env (g1\<lparr>rg_pendingSHA := [], rg_pendingState := []\<rparr>) else g1);
          g3 = (if \<not> rg_verified g2
                then att_report env KeyReloadUnverified (''serving hooks tree '' @ short (rg_serving g2) @ '' without a recorded ''
                       @ rg_context g2 @ '' green; verifies on its next success (or admin /reload)'') g2
                else g2)
      in if rg_pendingSHA g3 \<noteq> []
         then att_report env KeyReloadHeld (withChecks g3 (''hooks repo '' @ short (rg_pendingSHA g3) @ '' awaiting '' @ rg_context g3
                @ '' (last known: '' @ pendingStateLocked g3 @ ''); serving '' @ short (rg_serving g3)) (rg_pendingSHA g3)) g3
         else g3)"

subsection \<open>The poller\<close>

record poller =
  po_interval :: duration
  po_next :: time

definition NewPoller :: "duration \<Rightarrow> time \<Rightarrow> poller" where
  "NewPoller interval now = \<lparr>po_interval = interval, po_next = (if interval > 0 then now else 0)\<rparr>"

text \<open>\<open>now1\<close> and \<open>now2\<close> are the two readings of the clock.\<close>

definition fireDue :: "time \<Rightarrow> time \<Rightarrow> poller \<Rightarrow> bool \<times> poller" where
  "fireDue now1 now2 p =
     (if po_interval p \<le> 0 then (False, p)
      else let due = (\<not> now1 < po_next p) in (due, if due then p\<lparr>po_next := now2 + po_interval p\<rparr> else p))"


subsection \<open>What the bookkeeping leaves alone\<close>

text \<open>The part of the state that says what is checked out and what is recorded as serving.\<close>

definition serving_view :: "gate \<Rightarrow> string \<times> string \<times> bool" where
  "serving_view g = (rg_tree g, rg_serving g, rg_verified g)"

lemma view_frame [simp]:
  "serving_view (persistLocked env g) = serving_view g" "serving_view (record_ev k vs g) = serving_view g"
  "serving_view (att_report env key msg g) = serving_view g" "serving_view (att_resolve key g) = serving_view g"
  "serving_view (resolveHoldEntriesLocked g) = serving_view g" "serving_view (recordPendingLocked env sha g) = serving_view g"
  "serving_view (recordVerdict env sha st g) = serving_view g" "serving_view (holdBlind env tip r g) = serving_view g"
  "serving_view (snd (holdRed env sha st g)) = serving_view g"
  "serving_view (g\<lparr>rg_pendingSHA := s, rg_pendingState := t\<rparr>) = serving_view g"
  "serving_view (g\<lparr>rg_pendingSHA := s\<rparr>) = serving_view g" "serving_view (g\<lparr>rg_lastPollBlind := s\<rparr>) = serving_view g"
  "serving_view (snd (readGatingState env tip g)) = serving_view g"
  by (auto simp: serving_view_def persistLocked_def record_ev_def att_report_def att_resolve_def resolveHoldEntriesLocked_def
      recordPendingLocked_def recordVerdict_def holdBlind_def holdRed_def readGatingState_def Let_def split: option.splits sum.splits)

lemma view_fields:
  "serving_view g = (t, s, v) \<Longrightarrow> rg_tree g = t \<and> rg_serving g = s \<and> rg_verified g = v"
  by (simp add: serving_view_def)

lemma field_frame [simp]:
  "rg_tree (persistLocked env g) = rg_tree g" "rg_serving (persistLocked env g) = rg_serving g" "rg_verified (persistLocked env g) = rg_verified g"
  "rg_tree (record_ev k vs g) = rg_tree g" "rg_serving (record_ev k vs g) = rg_serving g" "rg_verified (record_ev k vs g) = rg_verified g"
  "rg_tree (att_report env key msg g) = rg_tree g" "rg_serving (att_report env key msg g) = rg_serving g"
  "rg_verified (att_report env key msg g) = rg_verified g"
  "rg_tree (att_resolve key g) = rg_tree g" "rg_serving (att_resolve key g) = rg_serving g" "rg_verified (att_resolve key g) = rg_verified g"
  "rg_tree (resolveHoldEntriesLocked g) = rg_tree g" "rg_serving (resolveHoldEntriesLocked g) = rg_serving g"
  "rg_verified (resolveHoldEntriesLocked g) = rg_verified g"
  "rg_pendingSHA (persistLocked env g) = rg_pendingSHA g" "rg_pendingSHA (record_ev k vs g) = rg_pendingSHA g"
  "rg_pendingSHA (att_report env key msg g) = rg_pendingSHA g" "rg_pendingSHA (att_resolve key g) = rg_pendingSHA g"
  "rg_pendingSHA (resolveHoldEntriesLocked g) = rg_pendingSHA g"
  "rg_att (persistLocked env g) = rg_att g" "rg_att (record_ev k vs g) = rg_att g"
  by (auto simp: persistLocked_def record_ev_def att_report_def att_resolve_def resolveHoldEntriesLocked_def Let_def split: option.splits)

text \<open>A push is bookkeeping only, whatever the payload says and whatever git answers.\<close>

lemma push_never_moves:
  "rg_tree (snd (handlePush env body g)) = rg_tree g \<and> rg_serving (snd (handlePush env body g)) = rg_serving g \<and>
   rg_verified (snd (handlePush env body g)) = rg_verified g"
proof -
  have "serving_view (snd (handlePush env body g)) = serving_view g"
    by (auto simp: handlePush_def split: sum.splits)
  then show ?thesis by (simp add: serving_view_def)
qed

subsection \<open>The effect of an apply and of a switch\<close>

text \<open>The new tree is kept when the loader accepts it (or none is configured), or when it refuses it but
  there is nowhere to go back to; otherwise the previous commit is restored with its flag.\<close>

definition kept_after_apply :: "gate_env \<Rightarrow> string \<Rightarrow> string \<Rightarrow> bool" where
  "kept_after_apply env sha prev \<longleftrightarrow>
     (case e_apply env of None \<Rightarrow> True
      | Some ap \<Rightarrow> ap sha = None \<or> prev = [] \<or> prev = sha \<or> e_reset env prev \<noteq> None)"

lemma applyOrRollback_view:
  assumes "rg_tree g = sha" "rg_serving g = sha"
  shows "serving_view (snd (applyOrRollbackLocked env sha prev pv g)) =
    (if kept_after_apply env sha prev then (sha, sha, rg_verified g) else (prev, prev, pv))"
  using assms
  by (auto simp: applyOrRollbackLocked_def kept_after_apply_def ResetTo_def Let_def serving_view_def split: option.splits)

lemma applyOrRollback_err:
  assumes "rg_tree g = sha"
  shows "(fst (applyOrRollbackLocked env sha prev pv g) = None) \<longleftrightarrow>
    (case e_apply env of None \<Rightarrow> True | Some ap \<Rightarrow> ap sha = None)"
  using assms by (auto simp: applyOrRollbackLocked_def ResetTo_def Let_def split: option.splits)

lemma forceApply_view:
  "serving_view (snd (forceApplyLocked env sha cp kind vals g)) =
    (if e_reset env sha \<noteq> None then serving_view g
     else if kept_after_apply env sha (rg_serving g) then (sha, sha, True)
     else (rg_serving g, rg_serving g, rg_verified g))"
  by (cases "e_reset env sha") (simp_all add: forceApplyLocked_def ResetTo_def Let_def applyOrRollback_view)

text \<open>The ordering rule: the commit is in the recent history and the serving one is not newer.\<close>

definition in_order :: "gate_env \<Rightarrow> string \<Rightarrow> string \<Rightarrow> bool" where
  "in_order env sha serving \<longleftrightarrow> (\<exists>tip commits. e_fetch env = Inr tip \<and> e_recent env = Inr commits \<and> indexOf commits sha \<noteq> -1 \<and>
     (indexOf commits serving = -1 \<or> indexOf commits sha \<le> indexOf commits serving))"

lemma trySwitch_view:
  "serving_view (snd (snd (trySwitch env sha g))) =
    (if sha = rg_serving g then (rg_tree g, rg_serving g, True)
     else if \<not> in_order env sha (rg_serving g) \<or> e_reset env sha \<noteq> None then serving_view g
     else if kept_after_apply env sha (rg_serving g) then (sha, sha, True)
     else (rg_serving g, rg_serving g, rg_verified g))"
proof -
  have pick: "snd (snd (case p of (None, g5) \<Rightarrow> (b, None, g5) | (Some err, g5) \<Rightarrow> (a, Some err, g5))) = snd p"
    for p :: "gate_error option \<times> gate" and a b :: string
    by (cases p) (auto split: option.split)
  consider "sha = rg_serving g" | "sha \<noteq> rg_serving g" "\<not> in_order env sha (rg_serving g)"
    | "sha \<noteq> rg_serving g" "in_order env sha (rg_serving g)" "e_reset env sha \<noteq> None"
    | "sha \<noteq> rg_serving g" "in_order env sha (rg_serving g)" "e_reset env sha = None" by blast
  then show ?thesis
  proof cases
    case 1
    then show ?thesis by (simp add: trySwitch_def serving_view_def)
  next
    case 2
    then show ?thesis by (auto simp: trySwitch_def in_order_def Let_def split: sum.splits)
  next
    case 3
    then obtain tip commits err where "e_fetch env = Inr tip" "e_recent env = Inr commits" "indexOf commits sha \<noteq> -1"
      "\<not> (indexOf commits (rg_serving g) \<noteq> -1 \<and> indexOf commits (rg_serving g) < indexOf commits sha)" "e_reset env sha = Some err"
      by (force simp: in_order_def)
    then show ?thesis using 3 by (auto simp: trySwitch_def ResetTo_def Let_def)
  next
    case 4
    then obtain tip commits where "e_fetch env = Inr tip" "e_recent env = Inr commits" "indexOf commits sha \<noteq> -1"
      "\<not> (indexOf commits (rg_serving g) \<noteq> -1 \<and> indexOf commits (rg_serving g) < indexOf commits sha)"
      by (force simp: in_order_def)
    then show ?thesis using 4 by (auto simp: trySwitch_def ResetTo_def Let_def pick applyOrRollback_view)
  qed
qed


subsection \<open>The record agrees with the tree\<close>

definition gate_ok :: "gate \<Rightarrow> bool" where
  "gate_ok g \<longleftrightarrow> rg_tree g = rg_serving g"

lemma gate_ok_view: "gate_ok g \<longleftrightarrow> fst (serving_view g) = fst (snd (serving_view g))"
  by (simp add: gate_ok_def serving_view_def)

lemma gate_ok_trySwitch: "gate_ok g \<Longrightarrow> gate_ok (snd (snd (trySwitch env sha g)))"
  by (simp add: gate_ok_view trySwitch_view) (simp add: serving_view_def)

text \<open>Every step that anyone can make the gate take.  Between the critical sections of one call, other
  goroutines may do anything that keeps the record in agreement with the tree.\<close>

inductive gate_step :: "gate \<Rightarrow> gate \<Rightarrow> bool" for g where
  g_event: "(\<And>h. gate_ok h \<Longrightarrow> gate_ok (oth h)) \<Longrightarrow> gate_step g (snd (HandleEvent env env2 oth ev push status g))"
| g_poll: "(\<And>k h. gate_ok h \<Longrightarrow> gate_ok (others k h)) \<Longrightarrow> gate_step g (snd (Reconcile env env2 others g))"
| g_force: "gate_step g (snd (Force env g))"
| g_manual: "gate_step g (snd (ManualSwitch env ref override g))"

lemma gate_ok_frame: "serving_view g' = serving_view g \<Longrightarrow> gate_ok g' = gate_ok g"
  by (simp add: gate_ok_view)

lemma gate_ok_frames [simp]:
  "gate_ok (persistLocked env g) = gate_ok g" "gate_ok (record_ev k vs g) = gate_ok g"
  "gate_ok (att_report env key msg g) = gate_ok g" "gate_ok (att_resolve key g) = gate_ok g"
  "gate_ok (resolveHoldEntriesLocked g) = gate_ok g" "gate_ok (recordPendingLocked env sha g) = gate_ok g"
  "gate_ok (recordVerdict env sha st g) = gate_ok g" "gate_ok (holdBlind env tip r g) = gate_ok g"
  "gate_ok (snd (holdRed env sha st g)) = gate_ok g"
  "gate_ok (g\<lparr>rg_pendingSHA := s, rg_pendingState := t\<rparr>) = gate_ok g"
  "gate_ok (g\<lparr>rg_pendingSHA := s\<rparr>) = gate_ok g" "gate_ok (g\<lparr>rg_lastPollBlind := s\<rparr>) = gate_ok g"
  "gate_ok (snd (readGatingState env tip g)) = gate_ok g"
  by (simp_all add: gate_ok_view)

lemma gate_ok_push: "gate_ok g \<Longrightarrow> gate_ok (snd (handlePush env body g))"
  using push_never_moves [of env body g] by (simp add: gate_ok_def)

lemma gate_ok_status:
  "gate_ok g \<Longrightarrow> (\<And>h. gate_ok h \<Longrightarrow> gate_ok (oth h)) \<Longrightarrow> gate_ok (snd (snd (handleStatus env env2 oth body g)))"
  by (auto simp: handleStatus_def Let_def case_prod_beta gate_ok_trySwitch split: sum.splits)

lemma gate_ok_force: "gate_ok g \<Longrightarrow> gate_ok (snd (forceApplyLocked env sha cp kind vals g))"
  by (simp add: gate_ok_view forceApply_view)

lemma gate_ok_Reconcile:
  assumes "gate_ok g" "\<And>k h. gate_ok h \<Longrightarrow> gate_ok (others k h)"
  shows "gate_ok (snd (Reconcile env env2 others g))"
  using assms(1)
  by (simp add: Reconcile_def Let_def case_prod_beta gate_ok_trySwitch assms(2) split: sum.split option.split)

lemma gate_ok_Manual: "gate_ok g \<Longrightarrow> gate_ok (snd (ManualSwitch env ref override g))"
  by (simp add: ManualSwitch_def Let_def case_prod_beta gate_ok_force split: sum.split option.split)

lemma gate_ok_step: "gate_step h h' \<Longrightarrow> gate_ok h \<Longrightarrow> gate_ok h'"
proof (induction rule: gate_step.induct)
  case (g_event oth env env2 ev push status)
  then show ?case using gate_ok_push [of h env push] gate_ok_status [of h oth env env2 status]
    by (auto simp: HandleEvent_def case_prod_beta)
next
  case (g_poll others env env2)
  then show ?case by (blast intro: gate_ok_Reconcile)
next
  case (g_force env)
  then show ?case by (auto simp: Force_def gate_ok_force split: sum.splits)
next
  case (g_manual env ref override)
  then show ?case by (rule gate_ok_Manual)
qed

interpretation gti: invariant_system gate_ok gate_step gate_ok
  by unfold_locales (auto intro: gate_ok_step)

text \<open>
  C20: The record never lies about the tree.  Once the recorded serving commit is the one checked out,
  this stays so after every push and status event, every reconciliation pass, every forced reload
  and every manual switch, whatever git, the status API and the loader answer (failed resets,
  refused trees and failed rollbacks included) and however they are interleaved.
\<close>

theorem record_agrees_with_tree:
  assumes "rg_tree g = rg_serving g" "gate_step\<^sup>*\<^sup>* g g'"
  shows "rg_tree g' = rg_serving g'"
  using gti.inv_reachable [of g g'] assms by (simp add: gate_ok_def)


definition gate_ex :: gate where
  "gate_ex = \<lparr>rg_branch = ''master'', rg_context = ''all-builds'', rg_repoSlug = [], rg_serving = ''a'', rg_verified = False,
     rg_pendingSHA = ''b'', rg_pendingState = ''pending'', rg_verdicts = [], rg_lastPollBlind = [], rg_tree = ''a'', rg_disk = None,
     rg_att = att_New, rg_events = []\<rparr>"

definition env_ex :: "string option \<Rightarrow> gate_env" where
  "env_ex refusal = \<lparr>e_head = Inr ''a'', e_fetch = Inr ''b'', e_recent = Inr [''b'', ''a''], e_reset = (\<lambda>_. None), e_fetchSHA = (\<lambda>_. None),
     e_hasSrc = (\<lambda>_. True), e_resolve = (\<lambda>r. Inr r), e_resolve2 = (\<lambda>r. Inr r), e_apply = Some (\<lambda>t. if t = ''b'' then refusal else None),
     e_status = Some (\<lambda>_. Inr ''success''), e_write = None, e_now = 7\<rparr>"

theorem record_agrees_with_tree_witness:
  "rg_tree (snd (Force (env_ex (Some ''bad'')) gate_ex)) = rg_serving (snd (Force (env_ex (Some ''bad'')) gate_ex))"
  by (rule record_agrees_with_tree [of gate_ex]) (auto simp: gate_ex_def intro: gate_step.g_force)

subsection \<open>The automatic paths switch only on green\<close>

lemma trySwitch_moves:
  assumes "gate_ok g" "rg_tree (snd (snd (trySwitch env sha g))) \<noteq> rg_tree g"
  shows "rg_tree (snd (snd (trySwitch env sha g))) = sha \<and> in_order env sha (rg_serving g)"
proof -
  have "rg_tree (snd (snd (trySwitch env sha g))) = fst (serving_view (snd (snd (trySwitch env sha g))))"
    by (simp add: serving_view_def)
  then show ?thesis using assms unfolding trySwitch_view by (auto simp: gate_ok_def serving_view_def split: if_splits)
qed

text \<open>
  C5: Only a green status moves the tree.  If handling an event delivery leaves another commit checked
  out (and nobody else moved the tree meanwhile), then the event was a status event that reports
  success for exactly that commit in the gating context, the commit is in the freshly fetched
  recent history, and the commit that was serving is not newer; no push, ping or unknown event,
  no other context and no failing, pending or stale status ever moves it.
\<close>

theorem event_switch_only_green:
  assumes "gate_ok g" "\<And>h. serving_view (oth h) = serving_view h"
    and "rg_tree (snd (HandleEvent env env2 oth ev push status g)) \<noteq> rg_tree g"
  shows "\<exists>p. ev = ''status'' \<and> status = Inr p \<and> sp_State p = ''success'' \<and> sp_Context p = rg_context g \<and>
    rg_tree (snd (HandleEvent env env2 oth ev push status g)) = sp_SHA p \<and> in_order env2 (sp_SHA p) (rg_serving g)"
proof -
  have t: "rg_tree h = fst (serving_view h)" "rg_serving h = fst (snd (serving_view h))" for h by (simp_all add: serving_view_def)
  have ev: "ev = ''status''"
    using assms(3) push_never_moves [of env push g] by (auto simp: HandleEvent_def case_prod_beta split: if_splits)
  then have ne: "rg_tree (snd (snd (handleStatus env env2 oth status g))) \<noteq> rg_tree g"
    and eq: "rg_tree (snd (HandleEvent env env2 oth ev push status g)) = rg_tree (snd (snd (handleStatus env env2 oth status g)))"
    using assms(3) by (simp_all add: HandleEvent_def case_prod_beta)
  obtain p where p: "status = Inr p" using ne by (cases status) (auto simp: handleStatus_def)
  let ?gm = "oth (recordVerdict env (sp_SHA p) (sp_State p) g)"
  have gm: "serving_view ?gm = serving_view g" using assms(2) by simp
  have red: "rg_tree (snd (holdRed env2 a b ?gm)) = rg_tree g" for a b using gm by (simp add: t)
  have st: "sp_State p = ''success''" "sp_Context p = rg_context g"
    "snd (snd (handleStatus env env2 oth status g)) = snd (snd (trySwitch env2 (sp_SHA p) ?gm))"
    using ne red by (auto simp: p handleStatus_def Let_def case_prod_beta split: if_splits)
  have "rg_serving ?gm = rg_serving g" "rg_tree ?gm = rg_tree g" "gate_ok ?gm"
    using gm assms(1) gate_ok_frame [OF gm] by (simp_all add: t)
  then show ?thesis using ne st p ev eq trySwitch_moves [of ?gm env2 "sp_SHA p"] by auto
qed

theorem event_switch_only_green_witness:
  "rg_tree (snd (HandleEvent (env_ex None) (env_ex None) (\<lambda>h. h) ''status'' (Inl [])
      (Inr \<lparr>sp_SHA = ''b'', sp_State = ''success'', sp_Context = ''all-builds'', sp_Branches = [], sp_DefaultBranch = ''master''\<rparr>) gate_ex)) = ''b'' \<and>
   in_order (env_ex None) ''b'' ''a''"
proof -
  let ?p = "\<lparr>sp_SHA = ''b'', sp_State = ''success'', sp_Context = ''all-builds'', sp_Branches = [], sp_DefaultBranch = ''master''\<rparr>"
  have m: "rg_tree (snd (HandleEvent (env_ex None) (env_ex None) (\<lambda>h. h) ''status'' (Inl []) (Inr ?p) gate_ex)) \<noteq> rg_tree gate_ex"
    by (simp add: HandleEvent_def handleStatus_def trySwitch_def env_ex_def gate_ex_def indexOf_def ResetTo_def recordVerdict_def
        persistLocked_def applyOrRollbackLocked_def Let_def record_ev_def resolveHoldEntriesLocked_def att_resolve_def)
  have "gate_ok gate_ex" by (simp add: gate_ok_def gate_ex_def)
  from event_switch_only_green [OF this _ m] show ?thesis by (simp add: gate_ex_def)
qed

text \<open>What counts as a green for the poll: the status API says so, or it cannot be read and the recorded
  verdict of the commit is a success.\<close>

definition poll_green :: "gate_env \<Rightarrow> string \<Rightarrow> gate \<Rightarrow> bool" where
  "poll_green env tip g \<longleftrightarrow>
     (case e_status env of None \<Rightarrow> verdictFor (e_now env) tip g = Some ''success''
      | Some status \<Rightarrow> (case status tip of Inr state \<Rightarrow> state = ''success''
          | Inl _ \<Rightarrow> verdictFor (e_now env) tip g = Some ''success''))"

lemma readGating_green: "fst (readGatingState env tip g) = Inr ''success'' \<longleftrightarrow> poll_green env tip g"
  by (auto simp: readGatingState_def poll_green_def Let_def split: option.splits sum.splits)

text \<open>
  C9: The reconciliation poll is as strict as the events: if a pass leaves another commit checked out
  (and nobody else moved the tree meanwhile), that commit is the fetched tip of the branch, its
  gating status was affirmatively green (by the API, or by a recorded verdict when the API could
  not be read), and it passed the same ordering rule; an unreadable status never switches.
\<close>

theorem poll_switch_only_green:
  assumes "gate_ok g" "\<And>k h. serving_view (others k h) = serving_view h"
    and "rg_tree (snd (Reconcile env env2 others g)) \<noteq> rg_tree g"
  shows "\<exists>tip. e_fetch env = Inr tip \<and> rg_tree (snd (Reconcile env env2 others g)) = tip \<and>
    poll_green env tip (others 1 g) \<and> in_order env2 tip (rg_serving g)"
proof -
  have t: "rg_tree h = fst (serving_view h)" "rg_serving h = fst (snd (serving_view h))" for h by (simp_all add: serving_view_def)
  obtain tip where tip: "e_fetch env = Inr tip" "tip \<noteq> rg_serving g"
    using assms(3) by (auto simp: Reconcile_def Let_def t assms(2) split: sum.splits if_splits)
  let ?r = "readGatingState env tip (others 1 g)"
  define g4 where "g4 = others 3 (att_resolve KeyReloadPoll ((others 2 (snd ?r))\<lparr>rg_lastPollBlind := []\<rparr>))"
  have g4: "serving_view g4 = serving_view g" by (simp add: g4_def assms(2))
  have green: "fst ?r = Inr ''success''"
  proof (rule ccontr)
    assume "fst ?r \<noteq> Inr ''success''"
    then have "serving_view (snd (Reconcile env env2 others g)) = serving_view g"
      using tip by (auto simp: Reconcile_def Let_def case_prod_beta assms(2) split: sum.splits option.splits)
    with assms(3) show False by (simp add: t)
  qed
  then have "snd (Reconcile env env2 others g) = snd (snd (trySwitch env2 tip g4))"
    using tip by (simp add: Reconcile_def Let_def case_prod_beta g4_def split: option.split)
  moreover have "rg_serving g4 = rg_serving g" "rg_tree g4 = rg_tree g" "gate_ok g4"
    using g4 assms(1) gate_ok_frame [OF g4] by (simp_all add: t)
  ultimately have "rg_tree (snd (Reconcile env env2 others g)) = tip \<and> in_order env2 tip (rg_serving g)"
    using assms(3) trySwitch_moves [of g4 env2 tip] by simp
  then show ?thesis using tip green readGating_green by blast
qed

theorem poll_switch_only_green_witness:
  "rg_tree (snd (Reconcile (env_ex None) (env_ex None) (\<lambda>_ h. h) gate_ex)) = ''b'' \<and> poll_green (env_ex None) ''b'' gate_ex"
proof -
  have m: "rg_tree (snd (Reconcile (env_ex None) (env_ex None) (\<lambda>_ h. h) gate_ex)) \<noteq> rg_tree gate_ex"
    by (simp add: Reconcile_def readGatingState_def trySwitch_def env_ex_def gate_ex_def indexOf_def ResetTo_def
        persistLocked_def applyOrRollbackLocked_def Let_def record_ev_def resolveHoldEntriesLocked_def att_resolve_def)
  have "gate_ok gate_ex" by (simp add: gate_ok_def gate_ex_def)
  from poll_switch_only_green [OF this _ m] show ?thesis by (auto simp: env_ex_def)
qed

end
