(* ===== verification/GateRecovery.thy ===== *)
theory GateRecovery
  imports ReloadGate
begin

text \<open>
  More of \<^verbatim>\<open>internal/reloadgate\<close>: the verdict store of \<^verbatim>\<open>verdicts.go\<close>, the rollback of \<^verbatim>\<open>apply.go\<close>, the
  manual switch of \<^verbatim>\<open>manual.go\<close>, the startup of \<^verbatim>\<open>startup.go\<close> and the poller's timing.
\<close>

subsection \<open>The verdict store\<close>

definition wf_verdicts :: "verdict_record list \<Rightarrow> bool" where
  "wf_verdicts vs \<longleftrightarrow> distinct (map v_SHA vs) \<and> length vs \<le> maxVerdicts"

lemma oldest_loop_first:
  assumes "rest = drop i vs" "oldest < length vs" "i \<le> length vs" "\<forall>j < oldest. v_SeenAt (vs ! oldest) < v_SeenAt (vs ! j)"
    "\<forall>j < i. v_SeenAt (vs ! oldest) \<le> v_SeenAt (vs ! j)"
  shows "\<forall>j < oldest_loop vs i rest oldest. v_SeenAt (vs ! oldest_loop vs i rest oldest) < v_SeenAt (vs ! j)"
  using assms
proof (induction rest arbitrary: i oldest)
  case (Cons v rest)
  then have i: "i < length vs" "v = vs ! i" "rest = drop (i + 1) vs"
    by (metis drop_eq_Nil linorder_not_less list.distinct(1))
      (metis Cons.prems(1) hd_drop_conv_nth drop_eq_Nil linorder_not_less list.distinct(1) list.sel(1),
       metis Cons.prems(1) Suc_eq_plus1 drop_Suc list.sel(3) tl_drop)
  define o' where "o' = (if v_SeenAt v < v_SeenAt (vs ! oldest) then i else oldest)"
  have "o' < length vs" "\<forall>j < o'. v_SeenAt (vs ! o') < v_SeenAt (vs ! j)" "\<forall>j < i + 1. v_SeenAt (vs ! o') \<le> v_SeenAt (vs ! j)"
    using Cons.prems i by (fastforce simp: o'_def less_Suc_eq)+
  then show ?case using Cons.IH [of "i + 1" o'] i by (simp add: o'_def)
qed simp

lemma prune_cap_length: "length (prune_cap vs) \<le> maxVerdicts"
  by (induction vs rule: prune_cap.induct) (subst prune_cap.simps, auto simp: Let_def)

lemma prune_cap_small: "length vs \<le> maxVerdicts \<Longrightarrow> prune_cap vs = vs"
  by (subst prune_cap.simps) simp

text \<open>With one record too many, the record appended last survives if no other is newer.\<close>

lemma prune_cap_append:
  assumes "length vs = maxVerdicts" "\<forall>w \<in> set vs. v_SeenAt w \<le> v_SeenAt v"
  shows "\<exists>ws zs. prune_cap (vs @ [v]) = ws @ zs @ [v] \<and> (\<exists>x. vs = ws @ x # zs)"
proof -
  have len: "length vs = 200" using assms(1) by (simp add: maxVerdicts_def)
  define o' where "o' = oldest_loop (vs @ [v]) 0 (vs @ [v]) 0"
  have b: "o' < length (vs @ [v])" using oldest_loop_bound [of 0 "vs @ [v]" 0 "vs @ [v]"] by (simp add: o'_def)
  have "o' \<noteq> length vs"
  proof
    assume o: "o' = length vs"
    have "\<forall>j < o'. v_SeenAt ((vs @ [v]) ! o') < v_SeenAt ((vs @ [v]) ! j)"
      unfolding o'_def by (rule oldest_loop_first) simp_all
    then have "v_SeenAt v < v_SeenAt (vs ! 0)" using o len by (auto simp: nth_append dest: spec [of _ 0])
    moreover have "vs ! 0 \<in> set vs" using len by (intro nth_mem) simp
    ultimately show False using assms(2) by force
  qed
  then have o: "o' < length vs" using b by simp
  have "prune_cap (vs @ [v]) = prune_cap (take o' (vs @ [v]) @ drop (o' + 1) (vs @ [v]))"
    using assms(1) by (subst prune_cap.simps) (simp add: Let_def o'_def)
  also have "\<dots> = take o' (vs @ [v]) @ drop (o' + 1) (vs @ [v])"
    using o assms(1) by (intro prune_cap_small) simp
  also have "\<dots> = take o' vs @ drop (o' + 1) vs @ [v]" using o by simp
  finally show ?thesis using id_take_nth_drop [OF o] by (metis Suc_eq_plus1)
qed

lemma distinct_SHA: "distinct (map v_SHA (w # vs)) \<Longrightarrow> \<forall>x \<in> set vs. v_SHA x \<noteq> v_SHA w"
  by (simp add: image_iff) metis

lemma upsert_verdict_known:
  "distinct (map v_SHA vs) \<Longrightarrow> sha \<in> set (map v_SHA vs) \<Longrightarrow>
   upsert_verdict sha state now vs = map (\<lambda>v. if v_SHA v = sha then v\<lparr>v_State := state, v_SeenAt := now\<rparr> else v) vs"
proof (induction vs)
  case (Cons v vs)
  then have "v_SHA v = sha \<Longrightarrow> map (\<lambda>v. if v_SHA v = sha then v\<lparr>v_State := state, v_SeenAt := now\<rparr> else v) vs = vs"
    using distinct_SHA [OF Cons.prems(1)] by (intro map_idI) simp
  with Cons show ?case by auto
qed simp

lemma upsert_verdict_new:
  "sha \<notin> set (map v_SHA vs) \<Longrightarrow> upsert_verdict sha state now vs = vs @ [\<lparr>v_SHA = sha, v_State = state, v_SeenAt = now\<rparr>]"
  by (induction vs) auto

lemma find_verdict:
  assumes "distinct (map v_SHA vs)" "v \<in> set vs"
  shows "find (\<lambda>w. v_SHA w = v_SHA v \<and> P w) vs = (if P v then Some v else None)"
  using assms
proof (induction vs)
  case (Cons w vs)
  show ?case
  proof (cases "w = v")
    case True
    then have "find (\<lambda>w. v_SHA w = v_SHA v \<and> P w) vs = None" using distinct_SHA [OF Cons.prems(1)] by (auto simp: find_None_iff)
    with True show ?thesis by simp
  next
    case False
    then have "v \<in> set vs" "v_SHA w \<noteq> v_SHA v" using Cons.prems by auto
    with Cons show ?thesis by simp
  qed
qed simp


lemma verdictFor_mem:
  assumes "distinct (map v_SHA (rg_verdicts g))"
  shows "verdictFor now sha g = Some state \<longleftrightarrow>
    (\<exists>v \<in> set (rg_verdicts g). v_SHA v = sha \<and> now - v_SeenAt v < verdictTTL \<and> v_State v = state)"
proof
  assume "verdictFor now sha g = Some state"
  then show "\<exists>v \<in> set (rg_verdicts g). v_SHA v = sha \<and> now - v_SeenAt v < verdictTTL \<and> v_State v = state"
    by (auto simp: verdictFor_def find_Some_iff)
next
  assume "\<exists>v \<in> set (rg_verdicts g). v_SHA v = sha \<and> now - v_SeenAt v < verdictTTL \<and> v_State v = state"
  then obtain v where "v \<in> set (rg_verdicts g)" "v_SHA v = sha" "now - v_SeenAt v < verdictTTL" "v_State v = state" by blast
  then show "verdictFor now sha g = Some state" using find_verdict [OF assms, of v "\<lambda>w. now - v_SeenAt w < verdictTTL"]
    by (simp add: verdictFor_def)
qed

lemma record_verdicts: "rg_verdicts (recordVerdict env sha state g) =
  pruneVerdicts (e_now env) (upsert_verdict sha state (e_now env) (rg_verdicts g))"
  by (simp add: recordVerdict_def persistLocked_def record_ev_def Let_def split: option.splits)

text \<open>What pruning does to the updated store: it keeps the new record, adds nothing and keeps the
  commits distinct.\<close>

lemma pruneVerdicts_upsert:
  fixes sha state :: string
  assumes wf: "wf_verdicts vs" and old: "\<forall>v \<in> set vs. v_SeenAt v \<le> now"
  defines "v \<equiv> \<lparr>v_SHA = sha, v_State = state, v_SeenAt = now\<rparr>" and "us \<equiv> pruneVerdicts now (upsert_verdict sha state now vs)"
  shows "distinct (map v_SHA us)" "v \<in> set us" "set us \<subseteq> insert v (set vs)"
proof -
  have "distinct (map v_SHA us) \<and> v \<in> set us \<and> set us \<subseteq> insert v (set vs)"
  proof (cases "sha \<in> set (map v_SHA vs)")
    case True
    define ws where "ws = map (\<lambda>v. if v_SHA v = sha then v\<lparr>v_State := state, v_SeenAt := now\<rparr> else v) vs"
    have sh: "map v_SHA ws = map v_SHA vs" by (simp add: ws_def comp_def)
    have us: "us = filter (\<lambda>v. now - v_SeenAt v < verdictTTL) ws"
      using wf upsert_verdict_known [OF _ True, of state now] order.trans [OF length_filter_le, of ws maxVerdicts]
      by (simp add: us_def pruneVerdicts_def wf_verdicts_def ws_def prune_cap_small)
    have "set ws \<subseteq> insert v (set vs)" by (auto simp: ws_def v_def intro: verdict_record.equality)
    moreover have "v \<in> set ws" using True by (force simp: ws_def v_def intro: verdict_record.equality)
    ultimately show ?thesis using wf sh by (auto simp: us wf_verdicts_def v_def verdictTTL_def distinct_map_filter)
  next
    case False
    define ws where "ws = filter (\<lambda>v. now - v_SeenAt v < verdictTTL) vs"
    have us: "us = prune_cap (ws @ [v])"
      by (simp add: us_def pruneVerdicts_def upsert_verdict_new [OF False] ws_def v_def verdictTTL_def)
    have d: "distinct (map v_SHA (ws @ [v]))" using wf False by (auto simp: ws_def v_def wf_verdicts_def distinct_map_filter)
    show ?thesis
    proof (cases "length ws < maxVerdicts")
      case True
      then show ?thesis using d by (auto simp: us prune_cap_small ws_def)
    next
      case False
      then have "length ws = maxVerdicts" using wf length_filter_le [of "\<lambda>v. now - v_SeenAt v < verdictTTL" vs] unfolding ws_def wf_verdicts_def by linarith
      moreover have "\<forall>w \<in> set ws. v_SeenAt w \<le> v_SeenAt v" using old by (auto simp: ws_def v_def)
      ultimately obtain as zs x where "us = as @ zs @ [v]" "ws = as @ x # zs" using prune_cap_append us by blast
      then show ?thesis using d by (auto simp: ws_def [symmetric]) (auto simp: ws_def dest!: arg_cong [where f = set])
    qed
  qed
  then show "distinct (map v_SHA us)" "v \<in> set us" "set us \<subseteq> insert v (set vs)" by auto
qed

lemma recordVerdict_last_wins_parts:
  assumes "wf_verdicts (rg_verdicts g)" "\<forall>v \<in> set (rg_verdicts g). v_SeenAt v \<le> e_now env"
  shows "wf_verdicts (rg_verdicts (recordVerdict env sha state g))"
    and "verdictFor (e_now env) sha (recordVerdict env sha state g) = Some state"
    and "sha' \<noteq> sha \<Longrightarrow> verdictFor (e_now env) sha' (recordVerdict env sha state g) = Some st \<Longrightarrow>
      verdictFor (e_now env) sha' g = Some st"
proof -
  note p = pruneVerdicts_upsert [OF assms, of sha state, folded record_verdicts]
  show "wf_verdicts (rg_verdicts (recordVerdict env sha state g))"
    using p(1) prune_cap_length by (simp add: wf_verdicts_def record_verdicts pruneVerdicts_def)
  have d: "distinct (map v_SHA (rg_verdicts g))" using assms(1) by (simp add: wf_verdicts_def)
  show "verdictFor (e_now env) sha (recordVerdict env sha state g) = Some state"
    unfolding verdictFor_mem [OF p(1)] using p(2) by (force simp: verdictTTL_def)
  show "sha' \<noteq> sha \<Longrightarrow> verdictFor (e_now env) sha' (recordVerdict env sha state g) = Some st \<Longrightarrow>
      verdictFor (e_now env) sha' g = Some st"
    unfolding verdictFor_mem [OF p(1)] verdictFor_mem [OF d] using p(3) by force
qed

text \<open>
  The verdict store keeps the last word on a commit and stays bounded: after a verdict has been
  recorded the store holds at most 200 verdicts, one per commit, the recorded commit answers with
  exactly this verdict (even when it overturns an earlier one, and even when an older verdict had
  to make room), and no commit answers with a verdict it did not have.
\<close>

theorem recordVerdict_last_wins:
  assumes "wf_verdicts (rg_verdicts g)" "\<forall>v \<in> set (rg_verdicts g). v_SeenAt v \<le> e_now env"
  shows "wf_verdicts (rg_verdicts (recordVerdict env sha state g))
    \<and> verdictFor (e_now env) sha (recordVerdict env sha state g) = Some state
    \<and> (\<forall>sha' st. sha' \<noteq> sha \<longrightarrow> verdictFor (e_now env) sha' (recordVerdict env sha state g) = Some st \<longrightarrow>
        verdictFor (e_now env) sha' g = Some st)"
  using recordVerdict_last_wins_parts [OF assms] by (intro conjI allI impI)

theorem recordVerdict_last_wins_witness:
  "verdictFor 7 ''b'' (recordVerdict (env_ex None) ''b'' ''failure''
      (gate_ex\<lparr>rg_verdicts := [\<lparr>v_SHA = ''b'', v_State = ''success'', v_SeenAt = 3\<rparr>]\<rparr>)) = Some ''failure''"
  using recordVerdict_last_wins [of "gate_ex\<lparr>rg_verdicts := [\<lparr>v_SHA = ''b'', v_State = ''success'', v_SeenAt = 3\<rparr>]\<rparr>" "env_ex None"
      "''b''" "''failure''"]
  by (simp add: wf_verdicts_def maxVerdicts_def env_ex_def)


subsection \<open>A refused tree is rolled back\<close>

text \<open>The loader accepts the checked-out commit (or none is configured).\<close>

definition loads :: "gate_env \<Rightarrow> string \<Rightarrow> bool" where
  "loads env sha \<longleftrightarrow> (case e_apply env of None \<Rightarrow> True | Some ap \<Rightarrow> ap sha = None)"

lemma trySwitch_result:
  assumes "sha \<noteq> rg_serving g" "in_order env sha (rg_serving g)" "e_reset env sha = None"
  shows "fst (trySwitch env sha g) = (if loads env sha then ''reloaded'' else ''refused'')"
    "(fst (snd (trySwitch env sha g)) = None) = loads env sha"
proof -
  have pick: "fst (case p of (None, g5) \<Rightarrow> (b, None, g5) | (Some err, g5) \<Rightarrow> (a, Some err, g5)) = (if fst p = None then b else a)"
    "fst (snd (case p of (None, g5) \<Rightarrow> (b, None, g5) | (Some err, g5) \<Rightarrow> (a, Some err, g5))) = fst p"
    for p :: "gate_error option \<times> gate" and a b :: string
    by (cases p; auto split: option.split)+
  obtain tip commits where "e_fetch env = Inr tip" "e_recent env = Inr commits" "indexOf commits sha \<noteq> -1"
      "\<not> (indexOf commits (rg_serving g) \<noteq> -1 \<and> indexOf commits (rg_serving g) < indexOf commits sha)"
    using assms(2) by (force simp: in_order_def)
  then show "fst (trySwitch env sha g) = (if loads env sha then ''reloaded'' else ''refused'')"
    "(fst (snd (trySwitch env sha g)) = None) = loads env sha"
    using assms by (auto simp: trySwitch_def ResetTo_def Let_def pick applyOrRollback_err loads_def)
qed

text \<open>
  C21: A tree the loader refuses is never left serving.  When a green commit passes the ordering rule
  and is checked out but the loader refuses it, the switch reports the refusal and, if the
  previously serving commit can be checked out again, ends with exactly that commit checked out
  and recorded, with the verified flag it had; when the loader accepts it, it ends with the new
  commit serving and verified.
\<close>

theorem refused_switch_rolls_back:
  assumes "sha \<noteq> rg_serving g" "in_order env sha (rg_serving g)" "e_reset env sha = None"
    and "rg_serving g \<noteq> []" "e_reset env (rg_serving g) = None"
  shows "trySwitch env sha g = (st, err, g') \<Longrightarrow>
    (if loads env sha
     then st = ''reloaded'' \<and> err = None \<and> rg_tree g' = sha \<and> rg_serving g' = sha \<and> rg_verified g'
     else st = ''refused'' \<and> err \<noteq> None \<and> rg_tree g' = rg_serving g \<and> rg_serving g' = rg_serving g \<and> rg_verified g' = rg_verified g)"
proof -
  assume t: "trySwitch env sha g = (st, err, g')"
  have "kept_after_apply env sha (rg_serving g) = loads env sha"
    using assms by (auto simp: kept_after_apply_def loads_def split: option.split)
  then have "serving_view g' = (if loads env sha then (sha, sha, True) else (rg_serving g, rg_serving g, rg_verified g))"
    using trySwitch_view [of env sha g] assms t by simp
  then show ?thesis using trySwitch_result [OF assms(1-3)] t by (auto simp: serving_view_def split: if_splits)
qed

lemma env_ex_order: "in_order (env_ex r) ''b'' ''a''"
  by (simp add: in_order_def env_ex_def indexOf_def)

theorem refused_switch_rolls_back_witness:
  "\<exists>st err g'. trySwitch (env_ex (Some ''bad'')) ''b'' gate_ex = (st, err, g') \<and> st = ''refused'' \<and> rg_tree g' = ''a'' \<and> \<not> rg_verified g'"
proof -
  obtain st err g' where t: "trySwitch (env_ex (Some ''bad'')) ''b'' gate_ex = (st, err, g')" by (metis prod_cases3)
  have f: "rg_serving gate_ex = ''a''" "\<not> rg_verified gate_ex" "\<not> loads (env_ex (Some ''bad'')) ''b''" "e_reset (env_ex (Some ''bad'')) x = None" for x
    by (simp_all add: gate_ex_def env_ex_def loads_def)
  from refused_switch_rolls_back [OF _ _ _ _ _ t] t show ?thesis by (simp add: f env_ex_order)
qed

text \<open>
  A refused switch forgets what is waiting: after a refused switch to the pending commit has been
  rolled back, nothing is recorded as pending and the needs-attention entry that the serving tree
  is unverified is gone, although the tree is again the unverified one.
\<close>

theorem refused_switch_forgets_hold:
  "let g = gate_ex\<lparr>rg_att := att_Report 3 \<lparr>a_Source = SourceReload, a_Hook = [], a_Key = KeyReloadUnverified,
             a_Message = ''unverified'', a_Since = 0\<rparr> att_New\<rparr>;
       g' = snd (snd (trySwitch (env_ex (Some ''bad'')) ''b'' g))
   in rg_pendingSHA g = ''b'' \<and> att_Count (rg_att g) = 1 \<and>
      rg_tree g' = ''a'' \<and> \<not> rg_verified g' \<and> rg_pendingSHA g' = [] \<and> att_Count (rg_att g') = 0"
  by (simp add: trySwitch_def env_ex_def gate_ex_def indexOf_def ResetTo_def persistLocked_def applyOrRollbackLocked_def Let_def
      record_ev_def resolveHoldEntriesLocked_def att_resolve_def att_Report_def att_Resolve_def reportLocked_def notifyLocked_def
      identity_def att_New_def att_Count_def KeyReloadPoll_def KeyReloadHeld_def KeyReloadUnverified_def fmlen_upd)

subsection \<open>Manual switches, startup and the poller\<close>

text \<open>
  A manual switch without an override is held to the gate's checks: if it moves the tree, the picked
  ref resolved to that commit, the status API reported success for it and its tree holds the hooks
  directory; a pick that fails a check is refused with its reasons and moves nothing.
\<close>

theorem manual_switch_checked:
  assumes "gate_ok g" "ManualSwitch env ref False g = ((err, out), g')" "rg_tree g' \<noteq> rg_tree g"
  shows "\<exists>status. e_status env = Some status \<and> status (rg_tree g') = Inr ''success'' \<and> e_hasSrc env (rg_tree g') \<and>
    (e_resolve env ref = Inr (rg_tree g') \<or> e_resolve2 env ref = Inr (rg_tree g'))"
proof -
  define g0 where "g0 = (case e_fetch env of Inl err \<Rightarrow> record_ev ''git.pull_failed'' [err] g | Inr _ \<Rightarrow> g)"
  have g0: "serving_view g0 = serving_view g" by (simp add: g0_def split: sum.split)
  obtain sha where sha: "(case e_resolve env ref of Inr sha \<Rightarrow> Inr sha | Inl _ \<Rightarrow> e_resolve2 env ref) = Inr sha"
    using assms(2,3) by (auto simp: ManualSwitch_def Let_def split: sum.splits)
  have ok: "CIState env sha = ''success''" "e_hasSrc env sha"
    using assms(2,3) sha by (auto simp: ManualSwitch_def Let_def split: sum.splits if_splits)
  have "serving_view g' = serving_view (snd (forceApplyLocked env sha (rg_pendingSHA g0 = sha \<or> e_fetch env = Inr sha) ''reload.switched'' [sha] g0))"
    using assms(2) sha ok by (auto simp: ManualSwitch_def Let_def g0_def [symmetric] split: prod.splits option.splits)
  then have "rg_tree g' = sha"
    using assms(1,3) g0 unfolding forceApply_view by (auto simp: serving_view_def gate_ok_def split: if_splits)
  then show ?thesis using ok sha by (auto simp: CIState_def split: option.splits sum.splits if_splits)
qed

theorem manual_switch_checked_witness:
  "\<exists>err out g'. ManualSwitch (env_ex None) ''b'' False gate_ex = ((err, out), g') \<and> rg_tree g' = ''b'' \<and> e_hasSrc (env_ex None) ''b''"
proof -
  obtain err out g' where m: "ManualSwitch (env_ex None) ''b'' False gate_ex = ((err, out), g')" by (metis prod.exhaust)
  have t: "rg_tree g' = ''b''"
    using m by (simp add: ManualSwitch_def env_ex_def gate_ex_def CIState_def forceApplyLocked_def ResetTo_def persistLocked_def
        applyOrRollbackLocked_def Let_def record_ev_def resolveHoldEntriesLocked_def att_resolve_def) auto
  have "gate_ok gate_ex" by (simp add: gate_ok_def gate_ex_def)
  from manual_switch_checked [OF this m] t m show ?thesis by (auto simp: gate_ex_def)
qed

text \<open>Startup: with a readable HEAD the record agrees with the tree afterwards, and an unverified tree is
  never served silently.\<close>

lemma Startup_agrees:
  assumes "e_head env = Inr (rg_tree g)"
  shows "gate_ok (Startup env g)"
proof -
  have "gate_ok (if rg_serving g = [] then startupFreshLocked env g else startupRestoreLocked env g)"
    using assms by (auto simp: gate_ok_def startupFreshLocked_def startupRestoreLocked_def ResetTo_def Let_def
        split: option.splits sum.splits)
  then show ?thesis by (simp add: Startup_def Let_def)
qed

definition reload_entry_active :: "string \<Rightarrow> gate \<Rightarrow> bool" where
  "reload_entry_active key g \<longleftrightarrow> fmlookup (at_entries (rg_att g)) (SourceReload @ sep @ [] @ sep @ key) \<noteq> None"

lemma reload_entry_report: "reload_entry_active key (att_report env key msg g)"
  "reload_entry_active key g \<Longrightarrow> reload_entry_active key (att_report env key' msg g)"
  by (auto simp: reload_entry_active_def att_report_def att_Report_def reportLocked_def identity_def Let_def notifyLocked_def
      split: option.splits)

lemma Startup_flags_unverified: "rg_verified (Startup env g) \<or> reload_entry_active KeyReloadUnverified (Startup env g)"
  by (simp add: Startup_def Let_def reload_entry_report)

lemma fireDue_spacing:
  "fireDue a b p = (True, p') \<Longrightarrow> a \<le> b \<Longrightarrow> po_interval p' = po_interval p \<and> po_next p' = b + po_interval p \<and> po_next p \<le> a"
  by (auto simp: fireDue_def Let_def split: if_splits)

end
