(* ===== verification/Runs.thy ===== *)
theory Runs
  imports Prelude "HOL-Library.Word"
begin

text \<open>
  Model of \<^verbatim>\<open>internal/runs/runs.go\<close>, \<^verbatim>\<open>phases.go\<close> and \<^verbatim>\<open>spawn.go\<close>: one run, the mutex-protected
  state machine between the runner, the state API and the dashboard.

  Every mutating method takes the run's mutex for one critical section, so an execution is a
  sequence of critical sections.  What happens outside the mutex is modelled as separate steps:
  a method that owes the observer a notification leaves it outstanding (\<^emph>\<open>r_pending\<close>), and
  \<open>Finish\<close> is a thread of its own whose position after its critical section is \<^emph>\<open>r_fin\<close>.  Calls
  of the registered observers and the closing of the two channels are entries of \<^emph>\<open>r_log\<close>, in the
  order in which they happen.  The lemmas show that a finished run is final, that closing the done
  channel is a barrier behind which every terminal side effect has happened exactly once, and that
  the output buffer and the wait history keep their bounds and their meaning.
\<close>

type_synonym status = string

definition StatusPending :: status where "StatusPending = ''pending''"
definition StatusRunning :: status where "StatusRunning = ''running''"
definition StatusSuccess :: status where "StatusSuccess = ''success''"
definition StatusFailure :: status where "StatusFailure = ''failure''"
definition StatusTimeout :: status where "StatusTimeout = ''timeout''"
definition StatusError :: status where "StatusError = ''error''"
definition StatusCancelled :: status where "StatusCancelled = ''cancelled''"
definition StatusSkipped :: status where "StatusSkipped = ''skipped''"

lemmas status_defs = StatusPending_def StatusRunning_def StatusSuccess_def StatusFailure_def
  StatusTimeout_def StatusError_def StatusCancelled_def StatusSkipped_def

definition KnownStatus :: "status \<Rightarrow> bool" where
  "KnownStatus s \<longleftrightarrow> s \<in> {StatusPending, StatusRunning, StatusSuccess, StatusFailure,
     StatusTimeout, StatusError, StatusCancelled, StatusSkipped}"

definition Terminal :: "status \<Rightarrow> bool" where
  "Terminal s \<longleftrightarrow> s \<in> {StatusSuccess, StatusFailure, StatusTimeout, StatusError, StatusCancelled, StatusSkipped}"

lemma Terminal_cases: "Terminal s \<longleftrightarrow> KnownStatus s \<and> s \<noteq> StatusPending \<and> s \<noteq> StatusRunning"
  by (auto simp: Terminal_def KnownStatus_def status_defs)

lemma Terminal_pending [simp]: "\<not> Terminal StatusPending" "\<not> Terminal StatusRunning"
  by (simp_all add: Terminal_cases)

definition MaxOutputLines :: nat where "MaxOutputLines = 2000"
definition MaxRunsPerHook :: int where "MaxRunsPerHook = 50"
definition MaxWaitSegments :: nat where "MaxWaitSegments = 32"

type_synonym phase = string

definition PhaseImageReady :: phase where "PhaseImageReady = ''image_ready''"
definition PhaseSlotAcquired :: phase where "PhaseSlotAcquired = ''slot_acquired''"
definition PhaseInspected :: phase where "PhaseInspected = ''inspected''"
definition PhaseSpawned :: phase where "PhaseSpawned = ''spawned''"
definition PhaseContainerEntry :: phase where "PhaseContainerEntry = ''container_entry''"
definition PhaseFirstOutput :: phase where "PhaseFirstOutput = ''first_output''"
definition PhaseExited :: phase where "PhaseExited = ''exited''"

definition KnownPhase :: "phase \<Rightarrow> bool" where
  "KnownPhase p \<longleftrightarrow> p \<in> {PhaseImageReady, PhaseSlotAcquired, PhaseInspected, PhaseSpawned,
     PhaseContainerEntry, PhaseFirstOutput, PhaseExited}"

record spawned_by =
  sb_RunID :: string
  sb_HookID :: string

record waiting_on =
  w_Kind :: string
  w_Reason :: string
  w_Until :: time
  w_Key :: string
  w_HolderRunID :: string
  w_HolderHookID :: string
  w_HolderRunIDs :: "string list"
  w_Position :: int

record wait_segment =
  g_Kind :: string
  g_Key :: string
  g_Start :: time
  g_End :: time

record run_waiter =
  wt_RunID :: string
  wt_HookID :: string
  wt_Key :: string

record run_state =
  rs_ID :: string
  rs_HookID :: string
  rs_Title :: string
  rs_SpawnedBy :: "spawned_by option"
  rs_Started :: time
  rs_StartedAt :: time
  rs_Finished :: time
  rs_Status :: status
  rs_ExitCode :: int
  rs_Output :: "string list"
  rs_OutputTimes :: "time list"
  rs_Error :: string
  rs_CancelRequested :: bool
  rs_CancelRequestedAt :: time
  rs_WaitHistory :: "wait_segment list"
  rs_WaitHistoryTruncated :: bool
  rs_WaitingOn :: "waiting_on option"
  rs_Phases :: "(phase, time) fmap"
  rs_Waiters :: "run_waiter list"

text \<open>What the run does to the outside world.\<close>

datatype run_event = CallTerminal run_state | CallFinish run_state | CallChange run_state
  | CallTouch | CloseDone | CloseCancel

text \<open>Where the goroutine that won \<open>Finish\<close> is: before its critical section, then before each of
  the calls that follow it (the observer captured under the lock is an argument), then returned.\<close>

datatype fin_pc = NotFinishing | AtTerminal bool | AtFinish | AtChange | AtClose | FinishReturned

record run =
  r_state :: run_state
  r_done :: bool
  r_cancel :: bool
  r_onFinish :: bool
  r_onChange :: bool
  r_touch :: bool
  r_onTerminal :: bool
  r_waitSeq :: "64 word"
  r_cancelReason :: string
  r_pending :: nat
  r_fin :: fin_pc
  r_log :: "run_event list"

definition run_ID :: "run \<Rightarrow> string" where "run_ID r = rs_ID (r_state r)"
definition run_HookID :: "run \<Rightarrow> string" where "run_HookID r = rs_HookID (r_state r)"
definition run_Status :: "run \<Rightarrow> status" where "run_Status r = rs_Status (r_state r)"

abbreviation upd_state :: "(run_state \<Rightarrow> run_state) \<Rightarrow> run \<Rightarrow> run" where
  "upd_state f r \<equiv> r\<lparr>r_state := f (r_state r)\<rparr>"

definition log_event :: "run_event \<Rightarrow> run \<Rightarrow> run" where
  "log_event e r = r\<lparr>r_log := r_log r @ [e]\<rparr>"

text \<open>A notification owed to the observer: \<open>notifyChange\<close> is called after the mutex is released.\<close>

definition owe_notify :: "run \<Rightarrow> run" where
  "owe_notify r = r\<lparr>r_pending := Suc (r_pending r)\<rparr>"

text \<open>\<open>Snapshot\<close>: the copy of a value-typed state is the state itself, with the output tail cut.\<close>

definition run_Snapshot :: "int \<Rightarrow> run \<Rightarrow> run_state" where
  "run_Snapshot n r = (let st = r_state r in
     if 0 \<le> n \<and> n < int (length (rs_Output st))
     then st\<lparr>rs_Output := drop (length (rs_Output st) - nat n) (rs_Output st),
             rs_OutputTimes := drop (length (rs_OutputTimes st) - nat n) (rs_OutputTimes st)\<rparr>
     else st)"

definition notifyChange :: "run \<Rightarrow> run" where
  "notifyChange r = (if r_onChange r then log_event (CallChange (run_Snapshot 0 r)) r else r)"

definition RequestCancelWithReason :: "time \<Rightarrow> string \<Rightarrow> run \<Rightarrow> run" where
  "RequestCancelWithReason now reason r =
     (if rs_CancelRequested (r_state r) then r
      else owe_notify (log_event CloseCancel
        (r\<lparr>r_state := (r_state r)\<lparr>rs_CancelRequested := True, rs_CancelRequestedAt := now\<rparr>,
           r_cancelReason := (if reason \<noteq> [] then reason else r_cancelReason r), r_cancel := True\<rparr>)))"

text \<open>Phase marks are kept once.\<close>

definition markAtLocked :: "phase \<Rightarrow> time \<Rightarrow> run_state \<Rightarrow> run_state" where
  "markAtLocked p at st =
     (case fmlookup (rs_Phases st) p of Some t \<Rightarrow> st | None \<Rightarrow> st\<lparr>rs_Phases := fmupd p at (rs_Phases st)\<rparr>)"

definition markAt :: "phase \<Rightarrow> time \<Rightarrow> run \<Rightarrow> run" where
  "markAt p at r =
     (if \<not> KnownPhase p then r
      else if rs_Finished (r_state r) \<noteq> 0 then r
      else upd_state (markAtLocked p at) r)"

definition AppendOutput :: "time \<Rightarrow> string \<Rightarrow> run \<Rightarrow> run" where
  "AppendOutput now line r =
     (let line = trim_right line [CHR 0x0D, CHR 0x0A];
          st = r_state r;
          st = (if rs_Output st = [] then markAtLocked PhaseFirstOutput now st else st);
          out = rs_Output st @ [line]; times = rs_OutputTimes st @ [now];
          n = length out - MaxOutputLines
      in r\<lparr>r_state := st\<lparr>rs_Output := (if length out > MaxOutputLines then drop n out else out),
                        rs_OutputTimes := (if length out > MaxOutputLines then drop n times else times)\<rparr>\<rparr>)"

definition seg_open :: "wait_segment \<Rightarrow> bool" where
  "seg_open g \<longleftrightarrow> g_End g = 0"

definition closeOpenWaitSegmentLocked :: "time \<Rightarrow> wait_segment list \<Rightarrow> wait_segment list" where
  "closeOpenWaitSegmentLocked at h =
     (if h \<noteq> [] \<and> seg_open (List.last h) then butlast h @ [(List.last h)\<lparr>g_End := at\<rparr>] else h)"

text \<open>The critical section of \<open>Finish\<close>; what follows it is \<^emph>\<open>finish_next\<close>, one call per step.\<close>

definition Finish_section :: "time \<Rightarrow> status \<Rightarrow> int \<Rightarrow> string \<Rightarrow> run \<Rightarrow> run" where
  "Finish_section now st code errMsg r =
     (if rs_Finished (r_state r) \<noteq> 0 then r
      else r\<lparr>r_state := (r_state r)\<lparr>rs_Status := st, rs_ExitCode := code, rs_Finished := now,
               rs_Error := (if errMsg \<noteq> [] then errMsg else rs_Error (r_state r)),
               rs_WaitingOn := None,
               rs_WaitHistory := closeOpenWaitSegmentLocked now (rs_WaitHistory (r_state r))\<rparr>,
             r_fin := AtTerminal (r_onTerminal r)\<rparr>)"

definition finish_next :: "run \<Rightarrow> run" where
  "finish_next r = (case r_fin r of
     NotFinishing \<Rightarrow> r
   | AtTerminal cb \<Rightarrow> (if cb then log_event (CallTerminal (run_Snapshot (-1) r)) r else r)\<lparr>r_fin := AtFinish\<rparr>
   | AtFinish \<Rightarrow> (if r_onFinish r then log_event (CallFinish (run_Snapshot (-1) r)) r else r)\<lparr>r_fin := AtChange\<rparr>
   | AtChange \<Rightarrow> (notifyChange r)\<lparr>r_fin := AtClose\<rparr>
   | AtClose \<Rightarrow> (log_event CloseDone r)\<lparr>r_done := True, r_fin := FinishReturned\<rparr>
   | FinishReturned \<Rightarrow> r)"

definition Finish :: "time \<Rightarrow> status \<Rightarrow> int \<Rightarrow> string \<Rightarrow> run \<Rightarrow> run" where
  "Finish now st code errMsg r =
     (if rs_Finished (r_state r) \<noteq> 0 then r
      else finish_next (finish_next (finish_next (finish_next (Finish_section now st code errMsg r)))))"

definition SetTitle :: "string \<Rightarrow> run \<Rightarrow> run" where
  "SetTitle title r =
     (let title = trim_space title in
      if title = [] then r
      else if rs_Finished (r_state r) \<noteq> 0 then r
      else owe_notify (upd_state (rs_Title_update (\<lambda>_. title)) r))"

definition SetRunning :: "time \<Rightarrow> run \<Rightarrow> run" where
  "SetRunning now r =
     (if rs_Status (r_state r) = StatusPending
      then owe_notify (upd_state (\<lambda>s. s\<lparr>rs_Status := StatusRunning, rs_StartedAt := now\<rparr>) r)
      else r)"

definition SetActivityTouch :: "bool \<Rightarrow> run \<Rightarrow> run" where
  "SetActivityTouch fn r = r\<lparr>r_touch := fn\<rparr>"

definition SetOnTerminal :: "bool \<Rightarrow> run \<Rightarrow> run" where
  "SetOnTerminal fn r = r\<lparr>r_onTerminal := fn\<rparr>"

definition TouchActivity :: "run \<Rightarrow> run" where
  "TouchActivity r = (if r_touch r then log_event CallTouch r else r)"

text \<open>\<open>SetWaitingOn\<close> reads the clock twice (\<open>now\<close> to close the open segment, \<open>now'\<close> to start the
  new one) and returns the token for \<open>ClearWaitingOn\<close>; the counter is a \<open>uint64\<close>.\<close>

definition SetWaitingOn :: "time \<Rightarrow> time \<Rightarrow> waiting_on \<Rightarrow> run \<Rightarrow> 64 word \<times> run" where
  "SetWaitingOn now now' w r =
     (if rs_Finished (r_state r) \<noteq> 0 then (0, r)
      else let seq = r_waitSeq r + 1;
               st = (r_state r)\<lparr>rs_WaitingOn := Some w\<rparr>;
               h = rs_WaitHistory st;
               r = r\<lparr>r_waitSeq := seq\<rparr>
           in if h \<noteq> [] \<and> seg_open (List.last h) \<and> g_Kind (List.last h) = w_Kind w \<and> g_Key (List.last h) = w_Key w
              then (seq, owe_notify (r\<lparr>r_state := st\<rparr>))
              else let h = closeOpenWaitSegmentLocked now h
                   in (seq, owe_notify (r\<lparr>r_state :=
                       (if length h < MaxWaitSegments
                        then st\<lparr>rs_WaitHistory := h @ [\<lparr>g_Kind = w_Kind w, g_Key = w_Key w, g_Start = now', g_End = 0\<rparr>]\<rparr>
                        else st\<lparr>rs_WaitHistory := h, rs_WaitHistoryTruncated := True\<rparr>)\<rparr>)))"

definition ClearWaitingOn :: "time \<Rightarrow> 64 word \<Rightarrow> run \<Rightarrow> run" where
  "ClearWaitingOn now seq r =
     (if seq = 0 \<or> seq \<noteq> r_waitSeq r \<or> rs_WaitingOn (r_state r) = None then r
      else owe_notify (upd_state (\<lambda>s. s\<lparr>rs_WaitingOn := None,
             rs_WaitHistory := closeOpenWaitSegmentLocked now (rs_WaitHistory s)\<rparr>) r))"

definition LastLines :: "int \<Rightarrow> run \<Rightarrow> string list" where
  "LastLines n r =
     (let out = rs_Output (r_state r) in
      if n \<le> 0 \<or> out = [] then []
      else if n \<ge> int (length out) then out
      else drop (length out - nat n) out)"

definition SetSpawnedBy :: "string \<Rightarrow> string \<Rightarrow> run \<Rightarrow> run" where
  "SetSpawnedBy parentHookID parentRunID r =
     (if parentHookID = [] \<or> parentRunID = [] then r
      else if rs_Finished (r_state r) \<noteq> 0 then r
      else owe_notify (upd_state (rs_SpawnedBy_update (\<lambda>_. Some \<lparr>sb_RunID = parentRunID, sb_HookID = parentHookID\<rparr>)) r))"

text \<open>Durations between phase marks.\<close>

definition Span :: "run_state \<Rightarrow> phase \<Rightarrow> phase \<Rightarrow> duration option" where
  "Span s from to = (case fmlookup (rs_Phases s) from of None \<Rightarrow> None
     | Some a \<Rightarrow> (case fmlookup (rs_Phases s) to of None \<Rightarrow> None
         | Some b \<Rightarrow> if a = 0 \<or> b = 0 \<or> b < a then None else Some (b - a)))"

definition BootDuration :: "run_state \<Rightarrow> (duration \<times> bool) option" where
  "BootDuration s = (case Span s PhaseSpawned PhaseContainerEntry of Some d \<Rightarrow> Some (d, True)
     | None \<Rightarrow> (case Span s PhaseSpawned PhaseFirstOutput of Some d \<Rightarrow> Some (d, False) | None \<Rightarrow> None))"

definition RuntimeStartDuration :: "run_state \<Rightarrow> duration option" where
  "RuntimeStartDuration s = Span s PhaseContainerEntry PhaseFirstOutput"

definition InspectDuration :: "run_state \<Rightarrow> duration option" where
  "InspectDuration s = Span s PhaseSlotAcquired PhaseInspected"

subsection \<open>Executions of one run\<close>

datatype run_op = OpCancel string | OpAppend string | OpTitle string | OpRunning | OpWaiting waiting_on
  | OpClear "64 word" | OpMark phase | OpSpawnedBy string string | OpSetTouch bool | OpSetTerminal bool | OpTouch

definition run_exec :: "time \<Rightarrow> time \<Rightarrow> run_op \<Rightarrow> run \<Rightarrow> run" where
  "run_exec now now' op r = (case op of
     OpCancel reason \<Rightarrow> RequestCancelWithReason now reason r
   | OpAppend line \<Rightarrow> AppendOutput now line r
   | OpTitle title \<Rightarrow> SetTitle title r
   | OpRunning \<Rightarrow> SetRunning now r
   | OpWaiting w \<Rightarrow> snd (SetWaitingOn now now' w r)
   | OpClear seq \<Rightarrow> ClearWaitingOn now seq r
   | OpMark p \<Rightarrow> markAt p now r
   | OpSpawnedBy h i \<Rightarrow> SetSpawnedBy h i r
   | OpSetTouch b \<Rightarrow> SetActivityTouch b r
   | OpSetTerminal b \<Rightarrow> SetOnTerminal b r
   | OpTouch \<Rightarrow> TouchActivity r)"

text \<open>Any interleaving: a method's critical section, \<open>Finish\<close>'s critical section (every caller
  passes a terminal status), the next call of the goroutine that won \<open>Finish\<close>, or an outstanding
  notification.  The clock is past Go's zero time.\<close>

inductive run_step :: "run \<Rightarrow> run \<Rightarrow> bool" where
  exec: "0 < now \<Longrightarrow> 0 < now' \<Longrightarrow> run_step r (run_exec now now' op r)"
| finish: "0 < now \<Longrightarrow> Terminal st \<Longrightarrow> run_step r (Finish_section now st code errMsg r)"
| finishing: "run_step r (finish_next r)"
| notify: "0 < r_pending r \<Longrightarrow> run_step r (notifyChange (r\<lparr>r_pending := r_pending r - 1\<rparr>))"

inductive_cases run_stepE: "run_step r r'"

text \<open>The literal \<open>Tracker.New\<close> builds; the creation notification is outstanding.\<close>

definition fresh_run :: "string \<Rightarrow> string \<Rightarrow> time \<Rightarrow> bool \<Rightarrow> bool \<Rightarrow> run" where
  "fresh_run rid hookID now onFin onChg =
     \<lparr>r_state = \<lparr>rs_ID = rid, rs_HookID = hookID, rs_Title = [], rs_SpawnedBy = None, rs_Started = now,
        rs_StartedAt = 0, rs_Finished = 0, rs_Status = StatusPending, rs_ExitCode = 0, rs_Output = [],
        rs_OutputTimes = [], rs_Error = [], rs_CancelRequested = False, rs_CancelRequestedAt = 0,
        rs_WaitHistory = [], rs_WaitHistoryTruncated = False, rs_WaitingOn = None, rs_Phases = fmempty,
        rs_Waiters = []\<rparr>,
      r_done = False, r_cancel = False, r_onFinish = onFin, r_onChange = onChg, r_touch = False,
      r_onTerminal = False, r_waitSeq = 0, r_cancelReason = [], r_pending = 1, r_fin = NotFinishing, r_log = []\<rparr>"

definition run_init :: "run \<Rightarrow> bool" where
  "run_init r \<longleftrightarrow> (\<exists>rid hookID now onFin onChg. r = fresh_run rid hookID now onFin onChg)"

lemma run_init_fresh [simp]: "run_init (fresh_run rid h now a b)"
  unfolding run_init_def by blast

lemmas run_op_defs = RequestCancelWithReason_def AppendOutput_def SetTitle_def SetRunning_def SetWaitingOn_def
  ClearWaitingOn_def markAt_def SetSpawnedBy_def SetActivityTouch_def SetOnTerminal_def TouchActivity_def
  owe_notify_def log_event_def Let_def

lemma finish_next_state [simp]: "r_state (finish_next r) = r_state r"
  by (simp add: finish_next_def notifyChange_def log_event_def split: fin_pc.split)

lemma notifyChange_sels [simp]: "r_state (notifyChange r) = r_state r" "r_fin (notifyChange r) = r_fin r"
  "r_done (notifyChange r) = r_done r" "r_cancel (notifyChange r) = r_cancel r" "r_onFinish (notifyChange r) = r_onFinish r"
  "r_onChange (notifyChange r) = r_onChange r"
  by (simp_all add: notifyChange_def log_event_def)

lemma markAtLocked_cases: "markAtLocked p t s = s \<or> (fmlookup (rs_Phases s) p = None \<and> markAtLocked p t s = s\<lparr>rs_Phases := fmupd p t (rs_Phases s)\<rparr>)"
  by (auto simp: markAtLocked_def split: option.split)

subsection \<open>Output and wait history\<close>

text \<open>Every segment but the last is closed; the last one is open exactly while the run is paused
  (as long as the history was not truncated), and then names what it is paused on.\<close>

definition waits_ok :: "run_state \<Rightarrow> bool" where
  "waits_ok s \<longleftrightarrow> length (rs_WaitHistory s) \<le> MaxWaitSegments
     \<and> (\<forall>g \<in> set (butlast (rs_WaitHistory s)). \<not> seg_open g)
     \<and> (rs_WaitHistoryTruncated s \<longrightarrow> length (rs_WaitHistory s) = MaxWaitSegments
          \<and> \<not> seg_open (List.last (rs_WaitHistory s)))
     \<and> (\<not> rs_WaitHistoryTruncated s \<longrightarrow>
          (case rs_WaitingOn s of None \<Rightarrow> rs_WaitHistory s \<noteq> [] \<longrightarrow> \<not> seg_open (List.last (rs_WaitHistory s))
           | Some w \<Rightarrow> rs_WaitHistory s \<noteq> [] \<and> seg_open (List.last (rs_WaitHistory s))
               \<and> g_Kind (List.last (rs_WaitHistory s)) = w_Kind w \<and> g_Key (List.last (rs_WaitHistory s)) = w_Key w))"

definition output_ok :: "run_state \<Rightarrow> bool" where
  "output_ok s \<longleftrightarrow> length (rs_Output s) = length (rs_OutputTimes s) \<and> length (rs_Output s) \<le> MaxOutputLines
     \<and> (rs_Output s \<noteq> [] \<longrightarrow> PhaseFirstOutput |\<in>| fmdom (rs_Phases s))
     \<and> (\<forall>p. p |\<in>| fmdom (rs_Phases s) \<longrightarrow> KnownPhase p)"

text \<open>The part of a state that no call after \<open>Finish\<close> can change: everything but the captured
  output, the first-output mark and the cancel request.\<close>

definition core :: "run_state \<Rightarrow> run_state" where
  "core s = s\<lparr>rs_Output := [], rs_OutputTimes := [], rs_CancelRequested := False, rs_CancelRequestedAt := 0,
     rs_Phases := fmdrop PhaseFirstOutput (rs_Phases s)\<rparr>"

text \<open>The terminal side effects of a log, in order, with the part of each snapshot that is final.\<close>

fun terminal_effects :: "run_event list \<Rightarrow> run_event list" where
  "terminal_effects [] = []"
| "terminal_effects (CallTerminal s # l) = CallTerminal (core s) # terminal_effects l"
| "terminal_effects (CallFinish s # l) = CallFinish (core s) # terminal_effects l"
| "terminal_effects (CloseDone # l) = CloseDone # terminal_effects l"
| "terminal_effects (_ # l) = terminal_effects l"

definition life_ok :: "run \<Rightarrow> bool" where
  "life_ok r \<longleftrightarrow> (let s = r_state r in
     KnownStatus (rs_Status s)
     \<and> (rs_Finished s \<noteq> 0 \<longleftrightarrow> Terminal (rs_Status s)) \<and> (rs_Finished s \<noteq> 0 \<longleftrightarrow> r_fin r \<noteq> NotFinishing)
     \<and> (rs_Finished s \<noteq> 0 \<longrightarrow> rs_WaitingOn s = None)
     \<and> (r_done r \<longleftrightarrow> r_fin r = FinishReturned) \<and> (r_cancel r \<longleftrightarrow> rs_CancelRequested s)
     \<and> (rs_Status s = StatusPending \<longrightarrow> rs_StartedAt s = 0) \<and> (rs_Status s = StatusRunning \<longrightarrow> rs_StartedAt s \<noteq> 0)
     \<and> (r_fin r = NotFinishing \<longrightarrow> terminal_effects (r_log r) = [])
     \<and> count_list (r_log r) CloseDone = of_bool (r_done r) \<and> count_list (r_log r) CloseCancel = of_bool (r_cancel r))"

definition run_inv :: "run \<Rightarrow> bool" where
  "run_inv r \<longleftrightarrow> waits_ok (r_state r) \<and> output_ok (r_state r) \<and> life_ok r"

lemma closed_length [simp]: "length (closeOpenWaitSegmentLocked t h) = length h"
  by (simp add: closeOpenWaitSegmentLocked_def)

lemma closed_nil [simp]: "closeOpenWaitSegmentLocked t h = [] \<longleftrightarrow> h = []"
  by (simp add: closeOpenWaitSegmentLocked_def)

lemma closed_last [simp]: "0 < t \<Longrightarrow> h \<noteq> [] \<Longrightarrow> \<not> seg_open (List.last (closeOpenWaitSegmentLocked t h))"
  by (simp add: closeOpenWaitSegmentLocked_def seg_open_def)

lemma closed_butlast [simp]: "butlast (closeOpenWaitSegmentLocked t h) = butlast h"
  by (simp add: closeOpenWaitSegmentLocked_def)

lemma closed_all: "0 < t \<Longrightarrow> \<forall>g \<in> set (butlast h). \<not> seg_open g \<Longrightarrow> \<forall>g \<in> set (closeOpenWaitSegmentLocked t h). \<not> seg_open g"
  by (cases h rule: rev_cases) (auto simp: closeOpenWaitSegmentLocked_def seg_open_def)

lemma waits_ok_close:
  "0 < t \<Longrightarrow> waits_ok s \<Longrightarrow> waits_ok (s\<lparr>rs_WaitingOn := None, rs_WaitHistory := closeOpenWaitSegmentLocked t (rs_WaitHistory s)\<rparr>)"
  by (cases "rs_WaitHistory s = []"; cases "rs_WaitingOn s") (simp_all add: waits_ok_def MaxWaitSegments_def)

lemma waits_ok_cong: "waits_ok s \<Longrightarrow> rs_WaitHistory s' = rs_WaitHistory s \<Longrightarrow> rs_WaitingOn s' = rs_WaitingOn s
  \<Longrightarrow> rs_WaitHistoryTruncated s' = rs_WaitHistoryTruncated s \<Longrightarrow> waits_ok s'"
  by (cases "rs_WaitingOn s") (simp_all add: waits_ok_def)

lemma waits_ok_SetWaitingOn:
  assumes "waits_ok (r_state r)" "0 < now"
  shows "waits_ok (r_state (snd (SetWaitingOn now now' w r)))"
proof (cases "rs_Finished (r_state r) = 0")
  case True
  let ?h = "rs_WaitHistory (r_state r)"
  show ?thesis
  proof (cases "?h \<noteq> [] \<and> seg_open (List.last ?h) \<and> g_Kind (List.last ?h) = w_Kind w \<and> g_Key (List.last ?h) = w_Key w")
    case same: True
    then show ?thesis using assms True
      by (auto simp: SetWaitingOn_def owe_notify_def Let_def waits_ok_def)
  next
    case False
    define h where "h = closeOpenWaitSegmentLocked now ?h"
    have all: "\<forall>g \<in> set h. \<not> seg_open g"
      using assms unfolding h_def by (intro closed_all) (auto simp: waits_ok_def)
    have len: "length h \<le> MaxWaitSegments" "rs_WaitHistoryTruncated (r_state r) \<Longrightarrow> \<not> length h < MaxWaitSegments"
      using assms by (auto simp: h_def waits_ok_def)
    show ?thesis
    proof (cases "length h < MaxWaitSegments")
      case short: True
      with False True len(2) show ?thesis
        by (auto simp: SetWaitingOn_def owe_notify_def Let_def waits_ok_def all butlast_append seg_open_def simp flip: h_def
            dest: all[unfolded seg_open_def, rule_format])
    next
      case long: False
      then have "h \<noteq> []" by (auto simp: MaxWaitSegments_def)
      with long False True len(1) all show ?thesis
        by (auto simp: SetWaitingOn_def owe_notify_def Let_def waits_ok_def simp flip: h_def dest: in_set_butlastD)
    qed
  qed
qed (use assms in \<open>simp add: SetWaitingOn_def\<close>)

lemma waits_ok_exec: "waits_ok (r_state r) \<Longrightarrow> 0 < now \<Longrightarrow> waits_ok (r_state (run_exec now now' op r))"
proof (cases op)
  case (OpClear seq)
  assume "waits_ok (r_state r)" "0 < now"
  with OpClear show ?thesis
    by (auto simp: run_exec_def ClearWaitingOn_def owe_notify_def intro: waits_ok_close)
qed (auto simp: run_exec_def waits_ok_SetWaitingOn RequestCancelWithReason_def AppendOutput_def SetTitle_def SetRunning_def
      markAt_def markAtLocked_def SetSpawnedBy_def SetActivityTouch_def SetOnTerminal_def TouchActivity_def
      owe_notify_def log_event_def Let_def elim!: waits_ok_cong split: option.split)

lemma output_ok_AppendOutput: "output_ok (r_state r) \<Longrightarrow> output_ok (r_state (AppendOutput now line r))"
  by (auto simp: AppendOutput_def Let_def output_ok_def markAtLocked_def MaxOutputLines_def KnownPhase_def
      intro: fmdomI split: option.split)

lemma output_ok_cong: "output_ok s \<Longrightarrow> rs_Output s' = rs_Output s \<Longrightarrow> rs_OutputTimes s' = rs_OutputTimes s
  \<Longrightarrow> rs_Phases s' = rs_Phases s \<Longrightarrow> output_ok s'"
  by (simp add: output_ok_def)

lemma output_ok_exec: "output_ok (r_state r) \<Longrightarrow> output_ok (r_state (run_exec now now' op r))"
proof (cases op)
  case (OpMark p)
  assume "output_ok (r_state r)"
  with OpMark show ?thesis
    by (auto simp: run_exec_def markAt_def markAtLocked_def output_ok_def split: option.split)
qed (auto simp: run_exec_def output_ok_AppendOutput RequestCancelWithReason_def SetWaitingOn_def ClearWaitingOn_def SetTitle_def SetRunning_def
      SetSpawnedBy_def SetActivityTouch_def SetOnTerminal_def TouchActivity_def
      owe_notify_def log_event_def Let_def elim!: output_ok_cong)

lemma count_list_snoc [simp]: "count_list (xs @ [x]) y = count_list xs y + of_bool (x = y)"
  by (induction xs) auto

lemma terminal_effects_append [simp]: "terminal_effects (xs @ ys) = terminal_effects xs @ terminal_effects ys"
  by (induction xs rule: terminal_effects.induct) auto

lemma core_Snapshot [simp]: "core (run_Snapshot n r) = core (r_state r)"
  by (simp add: run_Snapshot_def core_def Let_def)

lemma markAtLocked_sels [simp]: "rs_Status (markAtLocked p t s) = rs_Status s" "rs_Finished (markAtLocked p t s) = rs_Finished s"
  "rs_WaitingOn (markAtLocked p t s) = rs_WaitingOn s" "rs_CancelRequested (markAtLocked p t s) = rs_CancelRequested s"
  "rs_StartedAt (markAtLocked p t s) = rs_StartedAt s" "rs_Output (markAtLocked p t s) = rs_Output s"
  "rs_OutputTimes (markAtLocked p t s) = rs_OutputTimes s" "rs_ID (markAtLocked p t s) = rs_ID s" "rs_HookID (markAtLocked p t s) = rs_HookID s"
  "rs_Started (markAtLocked p t s) = rs_Started s"
  by (simp_all add: markAtLocked_def split: option.split)

lemma status_distinct [simp]: "StatusRunning \<noteq> StatusPending" "StatusPending \<noteq> StatusRunning" "KnownStatus StatusRunning" "KnownStatus StatusPending"
  by (simp_all add: status_defs KnownStatus_def)

lemma life_ok_exec: "life_ok r \<Longrightarrow> 0 < now \<Longrightarrow> life_ok (run_exec now now' op r)"
  by (cases op) (auto simp: life_ok_def run_exec_def run_op_defs)

lemma life_ok_Finish_section: "life_ok r \<Longrightarrow> 0 < now \<Longrightarrow> Terminal st \<Longrightarrow> life_ok (Finish_section now st code e r)"
  by (auto simp: life_ok_def Finish_section_def Let_def Terminal_cases)

lemma life_ok_finish_next: "life_ok r \<Longrightarrow> life_ok (finish_next r)"
  by (auto simp: life_ok_def finish_next_def Let_def notifyChange_def log_event_def split: fin_pc.split)

lemma life_ok_notify: "life_ok r \<Longrightarrow> life_ok (notifyChange (r\<lparr>r_pending := n\<rparr>))"
  by (auto simp: life_ok_def notifyChange_def log_event_def Let_def)

lemma run_inv_step: "run_step r r' \<Longrightarrow> run_inv r \<Longrightarrow> run_inv r'"
proof (induction rule: run_step.induct)
  case (exec now now' r op)
  then show ?case by (simp add: run_inv_def waits_ok_exec output_ok_exec life_ok_exec)
next
  case (finish now st r code errMsg)
  then have "waits_ok (r_state (Finish_section now st code errMsg r))"
    using waits_ok_close [of now "r_state r"] by (auto simp: run_inv_def Finish_section_def elim: waits_ok_cong)
  moreover have "output_ok (r_state (Finish_section now st code errMsg r))"
    using finish by (auto simp: run_inv_def Finish_section_def elim: output_ok_cong)
  ultimately show ?case using finish by (simp add: run_inv_def life_ok_Finish_section)
next
  case (finishing r)
  then show ?case by (simp add: run_inv_def life_ok_finish_next)
next
  case (notify r)
  then show ?case by (simp add: run_inv_def life_ok_notify)
qed

lemma run_inv_init: "run_init r \<Longrightarrow> run_inv r"
  by (auto simp: run_init_def fresh_run_def run_inv_def waits_ok_def output_ok_def life_ok_def KnownStatus_def)

interpretation rni: invariant_system run_init run_step run_inv
  by unfold_locales (auto intro: run_inv_init run_inv_step)

subsection \<open>A finished run is final\<close>

lemma core_markAtLocked: "core (markAtLocked PhaseFirstOutput t s) = core s"
proof -
  have "fmdrop PhaseFirstOutput (fmupd PhaseFirstOutput t m) = fmdrop PhaseFirstOutput m" for m :: "(phase, time) fmap"
    by (rule fmap_ext) auto
  then show ?thesis by (auto simp: core_def markAtLocked_def split: option.split)
qed

lemma core_AppendOutput: "core (r_state (AppendOutput now line r)) = core (r_state r)"
proof -
  have "core (s\<lparr>rs_Output := a, rs_OutputTimes := b\<rparr>) = core s" for s a b by (simp add: core_def)
  then show ?thesis by (simp add: AppendOutput_def Let_def core_markAtLocked)
qed

lemma core_cancel: "core (s\<lparr>rs_CancelRequested := b, rs_CancelRequestedAt := t\<rparr>) = core s"
  by (simp add: core_def)

lemma finished_noop:
  assumes "life_ok r" "rs_Finished (r_state r) \<noteq> 0"
  shows "SetTitle t r = r" "SetRunning now r = r" "SetWaitingOn now now' w r = (0, r)" "ClearWaitingOn now q r = r"
    "markAt p now r = r" "SetSpawnedBy h i r = r" "Finish_section now st code e r = r"
  using assms by (auto simp: SetTitle_def SetRunning_def SetWaitingOn_def ClearWaitingOn_def markAt_def
      SetSpawnedBy_def Finish_section_def life_ok_def Let_def)

lemma core_exec: "life_ok r \<Longrightarrow> rs_Finished (r_state r) \<noteq> 0 \<Longrightarrow> core (r_state (run_exec now now' op r)) = core (r_state r)"
  by (cases op) (simp_all add: run_exec_def core_AppendOutput finished_noop RequestCancelWithReason_def core_cancel
      SetActivityTouch_def SetOnTerminal_def TouchActivity_def owe_notify_def log_event_def)

lemma core_step: "run_step r r' \<Longrightarrow> life_ok r \<Longrightarrow> rs_Finished (r_state r) \<noteq> 0 \<Longrightarrow> core (r_state r') = core (r_state r)"
  by (induction rule: run_step.induct) (auto simp: core_exec Finish_section_def)

lemma core_Finished: "core s = core s' \<Longrightarrow> rs_Finished s = rs_Finished s'"
  by (drule arg_cong [where f = rs_Finished]) (simp add: core_def)

lemma core_steps: "run_step\<^sup>*\<^sup>* r r' \<Longrightarrow> run_inv r \<Longrightarrow> rs_Finished (r_state r) \<noteq> 0 \<Longrightarrow> core (r_state r') = core (r_state r)"
proof (induction rule: rtranclp_induct)
  case (step y z)
  then have "run_inv y" using rni.inv_steps by blast
  then show ?case using step core_step[of y z] core_Finished[of "r_state y" "r_state r"] by (simp add: run_inv_def)
qed simp

subsection \<open>Closing the done channel is a barrier\<close>

definition observed :: "run_state \<Rightarrow> run_event list \<Rightarrow> bool" where
  "observed K l \<longleftrightarrow> (\<exists>before s after. l = before @ CallChange s # after \<and> CloseDone \<notin> set before \<and> core s = K)"

lemma observed_append: "observed K l \<Longrightarrow> observed K (l @ l')"
  unfolding observed_def by (metis append.assoc append_Cons)

lemma observed_snoc: "CloseDone \<notin> set l \<Longrightarrow> core s = K \<Longrightarrow> observed K (l @ [CallChange s])"
  unfolding observed_def by blast

text \<open>The progress of the finishing goroutine, for the captured observers \<open>t\<close>, \<open>f\<close>, \<open>c\<close> and the final
  state \<open>K\<close>.\<close>

definition finishing_ok :: "bool \<Rightarrow> bool \<Rightarrow> bool \<Rightarrow> run_state \<Rightarrow> run \<Rightarrow> bool" where
  "finishing_ok t f c K r \<longleftrightarrow> core (r_state r) = K \<and> r_onFinish r = f \<and> r_onChange r = c
     \<and> terminal_effects (r_log r) = (let T = (if t then [CallTerminal K] else []); F = (if f then [CallFinish K] else []) in
         (case r_fin r of NotFinishing \<Rightarrow> [] | AtTerminal cb \<Rightarrow> [] | AtFinish \<Rightarrow> T | AtChange \<Rightarrow> T @ F | AtClose \<Rightarrow> T @ F
          | FinishReturned \<Rightarrow> T @ F @ [CloseDone]))
     \<and> (\<forall>cb. r_fin r = AtTerminal cb \<longrightarrow> cb = t)
     \<and> (c \<and> r_fin r \<in> {AtClose, FinishReturned} \<longrightarrow> observed K (r_log r))"

lemma exec_log: "\<exists>l. r_log (run_exec now now' op r) = r_log r @ l \<and> terminal_effects l = []"
  by (cases op) (auto simp: run_exec_def run_op_defs)

lemma exec_sels: "r_fin (run_exec now now' op r) = r_fin r" "r_onFinish (run_exec now now' op r) = r_onFinish r"
  "r_onChange (run_exec now now' op r) = r_onChange r"
  by (cases op; simp add: run_exec_def run_op_defs)+

lemma finishing_ok_log:
  assumes "finishing_ok t f c K r" "core (r_state r') = core (r_state r)" "r_log r' = r_log r @ l" "terminal_effects l = []"
    "r_fin r' = r_fin r" "r_onFinish r' = r_onFinish r" "r_onChange r' = r_onChange r"
  shows "finishing_ok t f c K r'"
  using assms by (auto simp: finishing_ok_def intro: observed_append)

lemma open_no_CloseDone: "life_ok r \<Longrightarrow> \<not> r_done r \<Longrightarrow> CloseDone \<notin> set (r_log r)"
  by (simp add: life_ok_def Let_def count_list_0_iff)

lemma finishing_ok_next: "life_ok r \<Longrightarrow> finishing_ok t f c K r \<Longrightarrow> finishing_ok t f c K (finish_next r)"
proof (cases "r_fin r")
  case AtChange
  assume "life_ok r" and ok: "finishing_ok t f c K r"
  then have "CloseDone \<notin> set (r_log r)" using AtChange by (intro open_no_CloseDone) (auto simp: life_ok_def Let_def)
  then show ?thesis using AtChange ok
    by (auto simp: finishing_ok_def finish_next_def notifyChange_def log_event_def intro: observed_snoc)
qed (auto simp: finishing_ok_def finish_next_def log_event_def intro: observed_append)

lemma finishing_ok_step:
  "run_step r r' \<Longrightarrow> life_ok r \<Longrightarrow> rs_Finished (r_state r) \<noteq> 0 \<Longrightarrow> finishing_ok t f c K r \<Longrightarrow> finishing_ok t f c K r'"
proof (induction rule: run_step.induct)
  case (exec now now' r op)
  obtain l where "r_log (run_exec now now' op r) = r_log r @ l" "terminal_effects l = []" using exec_log by blast
  then show ?case using exec by (intro finishing_ok_log [OF exec(5)]) (simp_all add: core_exec exec_sels)
next
  case (notify r)
  then show ?case
    by (intro finishing_ok_log [OF notify(4), where l = "if r_onChange r then [CallChange (run_Snapshot 0 r)] else []"])
      (auto simp: notifyChange_def log_event_def run_Snapshot_def Let_def)
qed (simp_all add: finished_noop finishing_ok_next)

lemma finishing_ok_steps:
  "run_step\<^sup>*\<^sup>* r r' \<Longrightarrow> run_inv r \<Longrightarrow> rs_Finished (r_state r) \<noteq> 0 \<Longrightarrow> finishing_ok t f c K r \<Longrightarrow> finishing_ok t f c K r'"
proof (induction rule: rtranclp_induct)
  case (step y z)
  then have "run_inv y" using rni.inv_steps by blast
  moreover have "rs_Finished (r_state y) \<noteq> 0"
    using step core_steps[of r y] core_Finished[of "r_state y" "r_state r"] by simp
  ultimately show ?case using step finishing_ok_step[of y z] by (simp add: run_inv_def)
qed simp

lemma finishing_ok_section:
  assumes "run_inv r" "rs_Finished (r_state r) = 0"
  shows "finishing_ok (r_onTerminal r) (r_onFinish r) (r_onChange r) (core (r_state (Finish_section now st code e r))) (Finish_section now st code e r)"
  using assms by (auto simp: finishing_ok_def Finish_section_def run_inv_def life_ok_def Let_def)

lemma Finish_steps: "0 < now \<Longrightarrow> Terminal st \<Longrightarrow> run_step\<^sup>*\<^sup>* (Finish_section now st code e r)
   (finish_next (finish_next (finish_next (finish_next (Finish_section now st code e r)))))"
  by (meson rtranclp.rtrancl_into_rtrancl rtranclp.rtrancl_refl run_step.finishing)

lemma Finish_done: "rs_Finished (r_state r) = 0 \<Longrightarrow> r_done (Finish now st code e r)"
  by (simp add: Finish_def finish_next_def Finish_section_def notifyChange_def log_event_def)

subsection \<open>Properties\<close>

text \<open>C19: A finished run is final: in every execution, from the critical section of \<open>Finish\<close> on, no call
  and no interleaving of calls changes the run's status, exit code, error, title, timestamps, parent,
  wait history or any other part of its state except the captured output (with the first-output mark)
  and the cancel request; the status is terminal, the run waits on nothing, and neither of its two
  channels is closed twice.\<close>

theorem run_terminal_final:
  assumes "run_init r0" "run_step\<^sup>*\<^sup>* r0 r" "rs_Finished (r_state r) \<noteq> 0" "run_step\<^sup>*\<^sup>* r r'"
  shows "core (r_state r') = core (r_state r) \<and> Terminal (rs_Status (r_state r')) \<and> rs_WaitingOn (r_state r') = None
     \<and> count_list (r_log r') CloseDone \<le> 1 \<and> count_list (r_log r') CloseCancel \<le> 1"
proof -
  have "run_inv r" "run_inv r'" using assms rni.inv_reachable rni.inv_steps by blast+
  moreover have "core (r_state r') = core (r_state r)" using core_steps assms calculation by blast
  moreover from this have "rs_Finished (r_state r') \<noteq> 0" using assms(3) core_Finished by metis
  ultimately show ?thesis by (simp add: run_inv_def life_ok_def Let_def)
qed

theorem run_terminal_final_witness:
  "let r0 = fresh_run ''r'' ''h'' 1 True True; r = Finish_section 5 StatusFailure 2 ''exit'' r0;
       r' = SetRunning 9 (AppendOutput 8 ''late'' (SetTitle ''new'' r))
   in core (r_state r') = core (r_state r) \<and> rs_Status (r_state r') = StatusFailure"
proof -
  let ?a = "fresh_run ''r'' ''h'' 1 True True"
  let ?r = "Finish_section 5 StatusFailure 2 ''exit'' ?a"
  let ?r' = "SetRunning 9 (AppendOutput 8 ''late'' (SetTitle ''new'' ?r))"
  have "run_step\<^sup>*\<^sup>* ?a ?r" by (rule r_into_rtranclp, rule run_step.finish) (simp_all add: Terminal_def)
  moreover have "run_step\<^sup>*\<^sup>* ?r ?r'"
    using run_step.exec [of 1 1 _ "OpTitle ''new''"] run_step.exec [of 8 1 _ "OpAppend ''late''"] run_step.exec [of 9 1 _ OpRunning]
    by (simp add: run_exec_def) (meson rtranclp.rtrancl_into_rtrancl rtranclp.rtrancl_refl)
  moreover have "run_init ?a" by simp
  moreover have "rs_Finished (r_state ?r) \<noteq> 0" by (simp add: Finish_section_def fresh_run_def)
  ultimately have *: "core (r_state ?r') = core (r_state ?r)" using run_terminal_final [of ?a ?r ?r'] by simp
  then have "rs_Status (r_state ?r') = rs_Status (r_state ?r)"
    by (drule_tac arg_cong [where f = rs_Status]) (simp add: core_def)
  with * show ?thesis by (simp add: Finish_section_def fresh_run_def Let_def)
qed

text \<open>C18: \<open>Finish\<close>'s ordering contract: whatever is interleaved with it, when the done channel is closed
  the terminal side effects have happened exactly once and in this order: the runner's terminal
  callback (if one was registered when the status flipped), the finish observer (if any), the closing
  of the channel; each of them was handed the final state, and a change notification with the final
  state went out before the channel closed.\<close>

theorem finish_barrier:
  assumes "run_init r0" "run_step\<^sup>*\<^sup>* r0 r" "rs_Finished (r_state r) = 0" "0 < now" "Terminal st"
    and "run_step\<^sup>*\<^sup>* (Finish_section now st code errMsg r) r'" "r_done r'"
  shows "let K = core (r_state (Finish_section now st code errMsg r)) in
     rs_Status K = st \<and> rs_ExitCode K = code \<and> rs_Finished K = now \<and> core (r_state r') = K
     \<and> terminal_effects (r_log r') = (if r_onTerminal r then [CallTerminal K] else [])
          @ (if r_onFinish r then [CallFinish K] else []) @ [CloseDone]
     \<and> (r_onChange r \<longrightarrow> observed K (r_log r'))"
proof -
  let ?f = "Finish_section now st code errMsg r"
  have inv: "run_inv r" "run_inv ?f" using assms rni.inv_reachable run_inv_step run_step.finish by blast+
  moreover have fin: "rs_Finished (r_state ?f) \<noteq> 0" using assms by (simp add: Finish_section_def)
  ultimately have "finishing_ok (r_onTerminal r) (r_onFinish r) (r_onChange r) (core (r_state ?f)) r'"
    using finishing_ok_steps [OF assms(6)] finishing_ok_section [OF inv(1) assms(3)] by blast
  moreover have "r_fin r' = FinishReturned"
    using rni.inv_steps [OF assms(6) inv(2)] assms(7) by (simp add: run_inv_def life_ok_def Let_def)
  moreover have "rs_Status (core (r_state ?f)) = st \<and> rs_ExitCode (core (r_state ?f)) = code \<and> rs_Finished (core (r_state ?f)) = now"
    using assms(3) by (simp add: core_def Finish_section_def)
  ultimately show ?thesis by (simp add: finishing_ok_def Let_def)
qed

theorem finish_barrier_witness:
  "let r0 = fresh_run ''r'' ''h'' 1 True True; r = SetOnTerminal True r0; K = core (r_state (Finish_section 5 StatusSuccess 0 [] r))
   in terminal_effects (r_log (Finish 5 StatusSuccess 0 [] r)) = [CallTerminal K, CallFinish K, CloseDone]
      \<and> observed K (r_log (Finish 5 StatusSuccess 0 [] r))"
proof -
  let ?a = "fresh_run ''r'' ''h'' 1 True True"
  let ?r = "SetOnTerminal True ?a"
  have t: "Terminal StatusSuccess" by (simp add: Terminal_def)
  have "run_init ?a" by simp
  moreover have "run_step\<^sup>*\<^sup>* ?a ?r" using run_step.exec [of 1 1 ?a "OpSetTerminal True"] by (simp add: run_exec_def)
  moreover have z: "rs_Finished (r_state ?r) = 0" "r_onTerminal ?r" "r_onFinish ?r" "r_onChange ?r"
    by (simp_all add: SetOnTerminal_def fresh_run_def)
  moreover have "run_step\<^sup>*\<^sup>* (Finish_section 5 StatusSuccess 0 [] ?r) (Finish 5 StatusSuccess 0 [] ?r)"
    using Finish_steps [OF _ t, of 5 0 "[]" ?r] z(1) by (simp add: Finish_def)
  ultimately show ?thesis
    using finish_barrier [of ?a ?r 5 StatusSuccess 0 "[]" "Finish 5 StatusSuccess 0 [] ?r"] t Finish_done [OF z(1)]
    by (simp add: Let_def)
qed

text \<open>What a run records about itself stays bounded and consistent in every execution: at most 2000
  output lines, each with its own timestamp; at most 32 wait segments, all closed except possibly the
  last, which is open exactly while the run is paused and names what it is paused on (until the
  history is truncated); a finished run has no open segment; and the phase marks are known ones.\<close>

theorem run_records_bounded:
  assumes "run_init r0" "run_step\<^sup>*\<^sup>* r0 r"
  shows "let s = r_state r; h = rs_WaitHistory s in
     length (rs_Output s) = length (rs_OutputTimes s) \<and> length (rs_Output s) \<le> 2000 \<and> length h \<le> 32
     \<and> (\<forall>p. p |\<in>| fmdom (rs_Phases s) \<longrightarrow> KnownPhase p)
     \<and> (\<forall>g. g \<in> set (butlast h) \<longrightarrow> g_End g \<noteq> 0)
     \<and> (rs_Finished s \<noteq> 0 \<or> rs_WaitHistoryTruncated s \<longrightarrow> (\<forall>g. g \<in> set h \<longrightarrow> g_End g \<noteq> 0))
     \<and> (\<not> rs_WaitHistoryTruncated s \<longrightarrow> (rs_WaitingOn s \<noteq> None \<longleftrightarrow> h \<noteq> [] \<and> g_End (List.last h) = 0))
     \<and> (\<forall>w. \<not> rs_WaitHistoryTruncated s \<and> rs_WaitingOn s = Some w \<longrightarrow> g_Kind (List.last h) = w_Kind w \<and> g_Key (List.last h) = w_Key w)"
proof -
  let ?s = "r_state r"
  let ?h = "rs_WaitHistory ?s"
  have inv: "waits_ok ?s" "output_ok ?s" "life_ok r" using assms rni.inv_reachable by (auto simp: run_inv_def)
  then have fin: "rs_Finished ?s \<noteq> 0 \<Longrightarrow> rs_WaitingOn ?s = None" by (simp add: life_ok_def Let_def)
  have bl: "\<forall>g. g \<in> set (butlast ?h) \<longrightarrow> g_End g \<noteq> 0" "length ?h \<le> 32"
    using inv(1) by (simp_all add: waits_ok_def seg_open_def MaxWaitSegments_def)
  have wait: "\<not> rs_WaitHistoryTruncated ?s \<longrightarrow> (rs_WaitingOn ?s \<noteq> None \<longleftrightarrow> ?h \<noteq> [] \<and> g_End (List.last ?h) = 0)"
    using inv(1) by (cases "rs_WaitingOn ?s") (auto simp: waits_ok_def seg_open_def)
  have key: "\<forall>w. \<not> rs_WaitHistoryTruncated ?s \<and> rs_WaitingOn ?s = Some w \<longrightarrow> g_Kind (List.last ?h) = w_Kind w \<and> g_Key (List.last ?h) = w_Key w"
    using inv(1) by (auto simp: waits_ok_def)
  have "rs_WaitHistoryTruncated ?s \<longrightarrow> g_End (List.last ?h) \<noteq> 0"
    using inv(1) by (simp add: waits_ok_def seg_open_def)
  then have "rs_Finished ?s \<noteq> 0 \<or> rs_WaitHistoryTruncated ?s \<longrightarrow> ?h \<noteq> [] \<longrightarrow> g_End (List.last ?h) \<noteq> 0"
    using wait fin by (cases "rs_WaitHistoryTruncated ?s") auto
  then have all: "rs_Finished ?s \<noteq> 0 \<or> rs_WaitHistoryTruncated ?s \<longrightarrow> (\<forall>g. g \<in> set ?h \<longrightarrow> g_End g \<noteq> 0)"
    using bl(1) by (cases ?h rule: rev_cases) auto
  have out: "length (rs_Output ?s) = length (rs_OutputTimes ?s)" "length (rs_Output ?s) \<le> 2000"
    "\<forall>p. p |\<in>| fmdom (rs_Phases ?s) \<longrightarrow> KnownPhase p"
    using inv(2) by (simp_all add: output_ok_def MaxOutputLines_def)
  show ?thesis unfolding Let_def using out bl all wait key by blast
qed

theorem run_records_bounded_witness:
  "let w = \<lparr>w_Kind = ''lock'', w_Reason = [], w_Until = 0, w_Key = ''k'', w_HolderRunID = [], w_HolderHookID = [],
             w_HolderRunIDs = [], w_Position = 0\<rparr>;
       r = snd (SetWaitingOn 3 4 w (fresh_run ''r'' ''h'' 1 True True))
   in rs_WaitHistory (r_state r) = [\<lparr>g_Kind = ''lock'', g_Key = ''k'', g_Start = 4, g_End = 0\<rparr>] \<and> length (rs_WaitHistory (r_state r)) \<le> 32"
proof -
  define w where "w = \<lparr>w_Kind = ''lock'', w_Reason = [], w_Until = 0, w_Key = ''k'', w_HolderRunID = [], w_HolderHookID = [],
             w_HolderRunIDs = [], w_Position = 0\<rparr>"
  let ?a = "fresh_run ''r'' ''h'' 1 True True"
  let ?r = "snd (SetWaitingOn 3 4 w ?a)"
  have "run_init ?a" by simp
  moreover have "run_step\<^sup>*\<^sup>* ?a ?r" using run_step.exec [of 3 4 ?a "OpWaiting w"] by (simp add: run_exec_def)
  ultimately have "length (rs_WaitHistory (r_state ?r)) \<le> 32" using run_records_bounded [of ?a ?r] by (simp add: Let_def)
  moreover have "rs_WaitHistory (r_state ?r) = [\<lparr>g_Kind = ''lock'', g_Key = ''k'', g_Start = 4, g_End = 0\<rparr>]"
    by (simp add: SetWaitingOn_def fresh_run_def Let_def owe_notify_def closeOpenWaitSegmentLocked_def MaxWaitSegments_def w_def)
  ultimately show ?thesis by (simp add: Let_def w_def)
qed

end
