(* ===== verification/Tracker.thy ===== *)
theory Tracker
  imports Runs
begin

text \<open>
  Model of \<^verbatim>\<open>internal/runs/tracker.go\<close> (the registry of live and recent runs) and
  \<^verbatim>\<open>internal/runs/stats.go\<close> (the per-hook aggregates).

  Both of the tracker's maps hold pointers to the same runs, so the runs live in a heap
  (\<^emph>\<open>tk_heap\<close>, a list; a pointer is an index) and the maps hold pointers: a run that changes is seen
  through both.  The lemmas show that the two maps always describe the same runs, that an active run
  is never evicted, and which runs a creation evicts.
\<close>

record tracker =
  tk_heap :: "run list"
  tk_byID :: "(string, nat) fmap"
  tk_byHook :: "(string, nat list) fmap"
  tk_maxByHook :: int
  tk_onFinish :: bool
  tk_onChange :: bool

definition NewTracker :: tracker where
  "NewTracker = \<lparr>tk_heap = [], tk_byID = fmempty, tk_byHook = fmempty, tk_maxByHook = MaxRunsPerHook,
     tk_onFinish = False, tk_onChange = False\<rparr>"

definition tk_SetOnFinish :: "bool \<Rightarrow> tracker \<Rightarrow> tracker" where
  "tk_SetOnFinish fn t = t\<lparr>tk_onFinish := fn\<rparr>"

definition tk_SetOnChange :: "bool \<Rightarrow> tracker \<Rightarrow> tracker" where
  "tk_SetOnChange fn t = t\<lparr>tk_onChange := fn\<rparr>"

text \<open>\<open>t.byHook[hookID]\<close>: nil for an unknown hook.\<close>

definition hook_runs :: "string \<Rightarrow> tracker \<Rightarrow> nat list" where
  "hook_runs h t = (case fmlookup (tk_byHook t) h of None \<Rightarrow> [] | Some ps \<Rightarrow> ps)"

text \<open>The trim loop.  \<open>seen p\<close> is the answer of \<open>old.Status().Terminal()\<close> at the moment the loop asks.\<close>

fun trim_loop :: "(nat \<Rightarrow> bool) \<Rightarrow> (nat \<Rightarrow> string) \<Rightarrow> int \<Rightarrow> nat list \<Rightarrow> (string, nat) fmap \<Rightarrow> nat list \<times> (string, nat) fmap" where
  "trim_loop seen idOf extra [] m = ([], m)"
| "trim_loop seen idOf extra (p # ps) m =
     (if extra > 0 \<and> seen p then trim_loop seen idOf (extra - 1) ps (fmdrop (idOf p) m)
      else let (kept, m') = trim_loop seen idOf extra ps m in (p # kept, m'))"

text \<open>\<open>New\<close>: the random id is an argument.\<close>

definition tk_New :: "(nat \<Rightarrow> bool) \<Rightarrow> string \<Rightarrow> time \<Rightarrow> string \<Rightarrow> tracker \<Rightarrow> tracker" where
  "tk_New seen rid now hookID t =
     (let p = length (tk_heap t);
          heap = tk_heap t @ [fresh_run rid hookID now (tk_onFinish t) (tk_onChange t)];
          byID = fmupd rid p (tk_byID t);
          ps = hook_runs hookID t @ [p];
          extra = int (length ps) - tk_maxByHook t;
          (ps, byID) = (if extra > 0 then trim_loop seen (\<lambda>q. run_ID (heap ! q)) extra ps byID else (ps, byID))
      in t\<lparr>tk_heap := heap, tk_byID := byID, tk_byHook := fmupd hookID ps (tk_byHook t)\<rparr>)"

definition tk_active :: "tracker \<Rightarrow> nat \<Rightarrow> bool" where
  "tk_active t p \<longleftrightarrow> \<not> Terminal (run_Status (tk_heap t ! p))"

definition HasActive :: "string \<Rightarrow> tracker \<Rightarrow> bool" where
  "HasActive hookID t \<longleftrightarrow> list_ex (tk_active t) (hook_runs hookID t)"

definition tk_Get :: "string \<Rightarrow> tracker \<Rightarrow> nat option" where
  "tk_Get rid t = fmlookup (tk_byID t) rid"

text \<open>\<open>sort.SliceStable\<close> by \<open>Started.After\<close>, then the cap.\<close>

definition newest_first :: "tracker \<Rightarrow> int \<Rightarrow> nat list \<Rightarrow> nat list" where
  "newest_first t mx ps =
     (let out = sort_key (\<lambda>p. - rs_Started (r_state (tk_heap t ! p))) ps
      in if mx > 0 \<and> int (length out) > mx then take (nat mx) out else out)"

definition tk_ListByHook :: "string \<Rightarrow> int \<Rightarrow> tracker \<Rightarrow> nat list" where
  "tk_ListByHook hookID mx t = newest_first t mx (hook_runs hookID t)"

text \<open>\<open>ListAll\<close> and \<open>ActiveIDs\<close> iterate over \<open>byID\<close>; the model visits the ids in sorted order (for
  \<open>ListAll\<close> the order only decides ties of the start time).\<close>

definition tk_ListAll :: "int \<Rightarrow> tracker \<Rightarrow> nat list" where
  "tk_ListAll mx t = newest_first t mx (map snd (sorted_list_of_fmap (tk_byID t)))"

definition ActiveIDs :: "tracker \<Rightarrow> string list" where
  "ActiveIDs t = sort (map (\<lambda>p. run_ID (tk_heap t ! p)) (filter (tk_active t) (map snd (sorted_list_of_fmap (tk_byID t)))))"

subsection \<open>Executions\<close>

text \<open>Creations with a fresh random id interleave with any step of any run, tracked or evicted.
  The trim may read a run as still active that finishes a moment later, never the other way round.\<close>

inductive trk_step :: "tracker \<Rightarrow> tracker \<Rightarrow> bool" where
  new: "\<forall>r \<in> set (tk_heap t). run_ID r \<noteq> rid
    \<Longrightarrow> \<forall>p < length (tk_heap t). seen p \<longrightarrow> Terminal (run_Status (tk_heap t ! p))
    \<Longrightarrow> \<not> seen (length (tk_heap t)) \<Longrightarrow> trk_step t (tk_New seen rid now hookID t)"
| run: "p < length (tk_heap t) \<Longrightarrow> run_step (tk_heap t ! p) r \<Longrightarrow> trk_step t (t\<lparr>tk_heap := (tk_heap t)[p := r]\<rparr>)"
| onFinish: "trk_step t (tk_SetOnFinish b t)"
| onChange: "trk_step t (tk_SetOnChange b t)"

definition trk_inv :: "tracker \<Rightarrow> bool" where
  "trk_inv t \<longleftrightarrow>
     (\<forall>r \<in> set (tk_heap t). run_inv r)
     \<and> (\<forall>p q. p < length (tk_heap t) \<longrightarrow> q < length (tk_heap t) \<longrightarrow> run_ID (tk_heap t ! p) = run_ID (tk_heap t ! q) \<longrightarrow> p = q)
     \<and> (\<forall>h. sorted_wrt (<) (hook_runs h t))
     \<and> (\<forall>h p. p \<in> set (hook_runs h t) \<longrightarrow> p < length (tk_heap t) \<and> run_HookID (tk_heap t ! p) = h)
     \<and> (\<forall>rid p. tk_Get rid t = Some p \<longleftrightarrow> p < length (tk_heap t) \<and> run_ID (tk_heap t ! p) = rid
                                       \<and> p \<in> set (hook_runs (run_HookID (tk_heap t ! p)) t))
     \<and> (\<forall>p < length (tk_heap t). tk_active t p \<longrightarrow> p \<in> set (hook_runs (run_HookID (tk_heap t ! p)) t))"

lemma trk_invD:
  assumes "trk_inv t"
  shows "\<forall>r \<in> set (tk_heap t). run_inv r"
    "\<forall>p q. p < length (tk_heap t) \<longrightarrow> q < length (tk_heap t) \<longrightarrow> run_ID (tk_heap t ! p) = run_ID (tk_heap t ! q) \<longrightarrow> p = q"
    "\<forall>h. sorted_wrt (<) (hook_runs h t)"
    "\<forall>h p. p \<in> set (hook_runs h t) \<longrightarrow> p < length (tk_heap t) \<and> run_HookID (tk_heap t ! p) = h"
    "\<forall>rid p. tk_Get rid t = Some p \<longleftrightarrow> p < length (tk_heap t) \<and> run_ID (tk_heap t ! p) = rid
       \<and> p \<in> set (hook_runs (run_HookID (tk_heap t ! p)) t)"
    "\<forall>p < length (tk_heap t). tk_active t p \<longrightarrow> p \<in> set (hook_runs (run_HookID (tk_heap t ! p)) t)"
  using assms unfolding trk_inv_def by simp_all

lemma run_step_ids: "run_step r r' \<Longrightarrow> run_ID r' = run_ID r \<and> run_HookID r' = run_HookID r"
proof (induction rule: run_step.induct)
  case (exec now now' r op)
  then show ?case by (cases op) (auto simp: run_exec_def run_op_defs run_ID_def run_HookID_def)
qed (auto simp: Finish_section_def run_ID_def run_HookID_def)

lemma run_step_terminal: "run_step r r' \<Longrightarrow> run_inv r \<Longrightarrow> Terminal (run_Status r) \<Longrightarrow> Terminal (run_Status r')"
proof -
  assume *: "run_step r r'" "run_inv r" "Terminal (run_Status r)"
  then have "rs_Finished (r_state r) \<noteq> 0" by (simp add: run_inv_def life_ok_def run_Status_def Let_def)
  then have "core (r_state r') = core (r_state r)" using * core_step by (simp add: run_inv_def)
  then have "rs_Status (r_state r') = rs_Status (r_state r)"
    by (drule_tac arg_cong [where f = rs_Status]) (simp add: core_def)
  then show ?thesis using * by (simp add: run_Status_def)
qed

text \<open>What the trim keeps and what it removes.\<close>

lemma trim_loop_kept: "set (fst (trim_loop seen idOf e ps m)) \<subseteq> set ps \<and> (\<forall>p \<in> set ps. \<not> seen p \<longrightarrow> p \<in> set (fst (trim_loop seen idOf e ps m)))"
  by (induction ps arbitrary: e m) (auto simp: case_prod_beta Let_def)

lemma trim_loop_sorted: "sorted_wrt (<) ps \<Longrightarrow> sorted_wrt (<) (fst (trim_loop seen idOf e ps m))"
proof (induction ps arbitrary: e m)
  case (Cons p ps)
  then show ?case using trim_loop_kept [of seen idOf e ps m] by (auto simp: case_prod_beta Let_def)
qed simp

lemma trim_loop_byID:
  assumes "distinct (map idOf ps)"
  shows "fmlookup (snd (trim_loop seen idOf e ps m)) i =
    (if i \<in> idOf ` set ps \<and> i \<notin> idOf ` set (fst (trim_loop seen idOf e ps m)) then None else fmlookup m i)"
  using assms
proof (induction ps arbitrary: e m)
  case (Cons p ps)
  have sub: "idOf ` set (fst (trim_loop seen idOf e' ps m')) \<subseteq> idOf ` set ps" for e' m' using trim_loop_kept by blast
  have fresh: "idOf p \<notin> idOf ` set ps" using Cons.prems by auto
  have IH: "fmlookup (snd (trim_loop seen idOf e' ps m')) i =
      (if i \<in> idOf ` set ps \<and> i \<notin> idOf ` set (fst (trim_loop seen idOf e' ps m')) then None else fmlookup m' i)" for e' m'
    using Cons by simp
  show ?case
    using sub [of "e - 1" "fmdrop (idOf p) m"] sub [of e m] fresh IH [of "e - 1" "fmdrop (idOf p) m"] IH [of e m]
    by (cases "i = idOf p") (auto simp: case_prod_beta Let_def)
qed simp

lemma trim_loop_length:
  "0 \<le> e \<Longrightarrow> int (length (fst (trim_loop seen idOf e ps m))) = int (length ps) - min e (cnt seen ps)"
  by (induction ps arbitrary: e m) (auto simp: case_prod_beta Let_def min_def)

lemma trim_loop_stop: "\<not> 0 < e \<Longrightarrow> trim_loop seen idOf e ps m = (ps, m)"
  by (induction ps) simp_all

lemma trim_loop_oldest:
  assumes "x \<in> set ps" "x \<notin> set (fst (trim_loop seen idOf e ps m))" "y \<in> set (fst (trim_loop seen idOf e ps m))" "seen y" "sorted_wrt (<) ps"
  shows "seen x \<and> x < y"
  using assms
proof (induction ps arbitrary: e m)
  case (Cons p ps)
  then show ?case
    using trim_loop_kept [of seen idOf e ps m] trim_loop_kept [of seen idOf "e - 1" ps "fmdrop (idOf p) m"]
    by (cases "0 < e") (auto simp: case_prod_beta Let_def trim_loop_stop split: if_splits)
qed simp

text \<open>A creation, with the trim always run (it keeps everything when nothing is surplus).\<close>

definition new_heap :: "string \<Rightarrow> time \<Rightarrow> string \<Rightarrow> tracker \<Rightarrow> run list" where
  "new_heap rid now hookID t = tk_heap t @ [fresh_run rid hookID now (tk_onFinish t) (tk_onChange t)]"

definition new_trim :: "(nat \<Rightarrow> bool) \<Rightarrow> string \<Rightarrow> time \<Rightarrow> string \<Rightarrow> tracker \<Rightarrow> nat list \<times> (string, nat) fmap" where
  "new_trim seen rid now hookID t = trim_loop seen (\<lambda>q. run_ID (new_heap rid now hookID t ! q))
     (int (length (hook_runs hookID t @ [length (tk_heap t)])) - tk_maxByHook t)
     (hook_runs hookID t @ [length (tk_heap t)]) (fmupd rid (length (tk_heap t)) (tk_byID t))"

lemma tk_New_eq: "tk_New seen rid now hookID t =
   t\<lparr>tk_heap := new_heap rid now hookID t, tk_byID := snd (new_trim seen rid now hookID t),
     tk_byHook := fmupd hookID (fst (new_trim seen rid now hookID t)) (tk_byHook t)\<rparr>"
  by (simp add: tk_New_def Let_def new_trim_def new_heap_def trim_loop_stop case_prod_beta)

lemma hook_runs_New: "hook_runs h (tk_New seen rid now hookID t) =
   (if h = hookID then fst (new_trim seen rid now hookID t) else hook_runs h t)"
  by (simp add: tk_New_eq hook_runs_def)

lemma new_heap_nth: "q < length (tk_heap t) \<Longrightarrow> new_heap rid now hookID t ! q = tk_heap t ! q"
  "new_heap rid now hookID t ! length (tk_heap t) = fresh_run rid hookID now (tk_onFinish t) (tk_onChange t)"
  "length (new_heap rid now hookID t) = Suc (length (tk_heap t))"
  by (simp_all add: new_heap_def nth_append)

lemma fresh_run_sels [simp]: "run_ID (fresh_run rid h now a b) = rid" "run_HookID (fresh_run rid h now a b) = h"
  "run_Status (fresh_run rid h now a b) = StatusPending"
  by (simp_all add: fresh_run_def run_ID_def run_HookID_def run_Status_def)

lemma new_ids_distinct:
  assumes "trk_inv t" "\<forall>r \<in> set (tk_heap t). run_ID r \<noteq> rid" "q < Suc (length (tk_heap t))" "q' < Suc (length (tk_heap t))"
    "run_ID (new_heap rid now hookID t ! q) = run_ID (new_heap rid now hookID t ! q')"
  shows "q = q'"
  using assms unfolding trk_inv_def
  by (cases "q < length (tk_heap t)"; cases "q' < length (tk_heap t)")
    (auto simp: new_heap_nth less_Suc_eq dest: nth_mem)

lemma trk_hook_runs: "trk_inv t \<Longrightarrow> q \<in> set (hook_runs h t) \<Longrightarrow> q < length (tk_heap t) \<and> run_HookID (tk_heap t ! q) = h"
  by (simp add: trk_inv_def)

lemma new_list_sorted: "trk_inv t \<Longrightarrow> sorted_wrt (<) (hook_runs h t @ [length (tk_heap t)])"
proof -
  assume *: "trk_inv t"
  then have "sorted_wrt (<) (hook_runs h t)" unfolding trk_inv_def by blast
  moreover have "\<forall>q \<in> set (hook_runs h t). q < length (tk_heap t)" using trk_hook_runs [OF *] by blast
  ultimately show ?thesis by (simp add: sorted_wrt_append)
qed

lemma tk_Get_New:
  assumes "trk_inv t" "\<forall>r \<in> set (tk_heap t). run_ID r \<noteq> rid"
  shows "tk_Get i (tk_New seen rid now hookID t) =
     (if i \<in> (\<lambda>q. run_ID (new_heap rid now hookID t ! q)) ` (insert (length (tk_heap t)) (set (hook_runs hookID t)) - set (fst (new_trim seen rid now hookID t)))
      then None else if i = rid then Some (length (tk_heap t)) else tk_Get i t)"
proof -
  let ?id = "\<lambda>q. run_ID (new_heap rid now hookID t ! q)"
  let ?ps = "hook_runs hookID t @ [length (tk_heap t)]"
  have lt: "q < Suc (length (tk_heap t))" if "q \<in> set ?ps" for q using trk_hook_runs [OF assms(1)] that by (auto simp: less_Suc_eq)
  have inj: "inj_on ?id (set ?ps)" by (rule inj_onI) (use new_ids_distinct [OF assms] lt in blast)
  moreover have "distinct ?ps" using new_list_sorted [OF assms(1)] strict_sorted_iff by blast
  ultimately have d: "distinct (map ?id ?ps)" by (simp add: distinct_map)
  have sub: "set (fst (new_trim seen rid now hookID t)) \<subseteq> set ?ps" unfolding new_trim_def using trim_loop_kept by blast
  have "?id ` (set ?ps - set (fst (new_trim seen rid now hookID t))) = ?id ` set ?ps - ?id ` set (fst (new_trim seen rid now hookID t))"
    using inj sub by (intro inj_on_image_set_diff [OF inj]) auto
  then show ?thesis
    using trim_loop_byID [OF d, of seen "int (length ?ps) - tk_maxByHook t" "fmupd rid (length (tk_heap t)) (tk_byID t)" i]
    by (simp add: tk_Get_def tk_New_eq new_trim_def)
qed

lemma trk_inv_New:
  assumes inv: "trk_inv t" and fresh: "\<forall>r \<in> set (tk_heap t). run_ID r \<noteq> rid"
    and seen: "\<forall>p < length (tk_heap t). seen p \<longrightarrow> Terminal (run_Status (tk_heap t ! p))" "\<not> seen (length (tk_heap t))"
  shows "trk_inv (tk_New seen rid now hookID t)"
proof -
  let ?t = "tk_New seen rid now hookID t"
  let ?n = "length (tk_heap t)"
  let ?kept = "fst (new_trim seen rid now hookID t)"
  have heap: "tk_heap ?t = new_heap rid now hookID t" by (simp add: tk_New_eq)
  note K = trim_loop_kept [of seen "\<lambda>q. run_ID (new_heap rid now hookID t ! q)" _ "hook_runs hookID t @ [?n]", folded new_trim_def]
  have kept: "set ?kept \<subseteq> insert ?n (set (hook_runs hookID t))" "?n \<in> set ?kept"
    using K seen(2) by (simp_all add: new_trim_def)
  have "q \<in> set (hook_runs hookID t) \<Longrightarrow> q \<notin> set ?kept \<Longrightarrow> seen q" for q
    using K by (auto simp: new_trim_def)
  then have evicted: "q \<in> set (hook_runs hookID t) \<Longrightarrow> q \<notin> set ?kept \<Longrightarrow> Terminal (run_Status (tk_heap t ! q))" for q
    using seen(1) trk_hook_runs [OF inv] by blast
  have hr: "set (hook_runs h ?t) = (if h = hookID then set ?kept else set (hook_runs h t))" for h by (simp add: hook_runs_New)
  have 1: "\<forall>r \<in> set (tk_heap ?t). run_inv r"
    using inv by (simp add: heap new_heap_def trk_inv_def run_inv_init)
  have 2: "\<forall>p q. p < length (tk_heap ?t) \<longrightarrow> q < length (tk_heap ?t) \<longrightarrow> run_ID (tk_heap ?t ! p) = run_ID (tk_heap ?t ! q) \<longrightarrow> p = q"
    using new_ids_distinct [OF inv fresh] by (simp add: heap new_heap_nth)
  have 3: "\<forall>h. sorted_wrt (<) (hook_runs h ?t)"
    using inv trim_loop_sorted [OF new_list_sorted [OF inv]] by (simp add: hook_runs_New new_trim_def trk_inv_def)
  have 4: "p \<in> set (hook_runs h ?t) \<Longrightarrow> p < length (tk_heap ?t) \<and> run_HookID (tk_heap ?t ! p) = h" for h p
  proof (cases "p = ?n")
    case True
    assume "p \<in> set (hook_runs h ?t)"
    moreover have "?n \<notin> set (hook_runs h t)" using trk_hook_runs [OF inv] by blast
    ultimately show ?thesis using True by (auto simp: hr heap new_heap_nth split: if_splits)
  next
    case False
    assume "p \<in> set (hook_runs h ?t)"
    then have "p \<in> set (hook_runs h t)" using False kept(1) by (auto simp: hr split: if_splits)
    then show ?thesis using trk_hook_runs [OF inv, of p h] by (simp add: heap new_heap_nth less_SucI)
  qed
  have 5: "tk_Get i ?t = Some p \<longleftrightarrow> p < length (tk_heap ?t) \<and> run_ID (tk_heap ?t ! p) = i \<and> p \<in> set (hook_runs (run_HookID (tk_heap ?t ! p)) ?t)" for i p
  proof (cases "p = ?n")
    case True
    have "i \<in> (\<lambda>q. run_ID (new_heap rid now hookID t ! q)) ` (insert ?n (set (hook_runs hookID t)) - set ?kept) \<Longrightarrow> i \<noteq> rid"
      using kept(2) fresh trk_hook_runs [OF inv] by (auto simp: new_heap_nth dest: nth_mem)
    moreover have "tk_Get i t \<noteq> Some ?n" using inv unfolding trk_inv_def by blast
    ultimately show ?thesis using True kept(2) by (auto simp: tk_Get_New [OF inv fresh] hr heap new_heap_nth)
  next
    case False
    have get: "tk_Get i t = Some p \<longleftrightarrow> p < ?n \<and> run_ID (tk_heap t ! p) = i \<and> p \<in> set (hook_runs (run_HookID (tk_heap t ! p)) t)"
      using inv unfolding trk_inv_def by blast
    have nrid: "p < ?n \<Longrightarrow> run_ID (tk_heap t ! p) \<noteq> rid" using fresh by simp
    have uniq: "p < ?n \<Longrightarrow> q < ?n \<Longrightarrow> run_ID (tk_heap t ! p) = run_ID (tk_heap t ! q) \<Longrightarrow> q = p" for q
      using trk_invD(2) [OF inv, rule_format, of p q] by simp
    have nkept: "insert ?n (set (hook_runs hookID t)) - set ?kept = set (hook_runs hookID t) - set ?kept"
      using kept(2) by blast
    have img: "i \<in> (\<lambda>q. run_ID (new_heap rid now hookID t ! q)) ` (insert ?n (set (hook_runs hookID t)) - set ?kept)
          \<longleftrightarrow> p \<in> set (hook_runs hookID t) \<and> p \<notin> set ?kept" if "p < ?n" "run_ID (tk_heap t ! p) = i"
    proof
      assume "i \<in> (\<lambda>q. run_ID (new_heap rid now hookID t ! q)) ` (insert ?n (set (hook_runs hookID t)) - set ?kept)"
      then obtain q where q: "q \<in> set (hook_runs hookID t)" "q \<notin> set ?kept" "i = run_ID (new_heap rid now hookID t ! q)"
        unfolding nkept by blast
      then have "q < ?n" using trk_hook_runs [OF inv] by blast
      then have "q = p" using uniq [OF that(1), of q] q(3) that(2) by (simp add: new_heap_nth)
      then show "p \<in> set (hook_runs hookID t) \<and> p \<notin> set ?kept" using q by simp
    next
      assume "p \<in> set (hook_runs hookID t) \<and> p \<notin> set ?kept"
      then show "i \<in> (\<lambda>q. run_ID (new_heap rid now hookID t ! q)) ` (insert ?n (set (hook_runs hookID t)) - set ?kept)"
        unfolding nkept using that by (intro image_eqI [of _ _ p]) (simp_all add: new_heap_nth)
    qed
    have lhs: "tk_Get i ?t = Some p \<longleftrightarrow> tk_Get i t = Some p \<and> (p \<in> set (hook_runs hookID t) \<longrightarrow> p \<in> set ?kept)"
      using get img nrid False by (auto simp: tk_Get_New [OF inv fresh])
    have "p < ?n \<Longrightarrow> p \<in> set (hook_runs (run_HookID (tk_heap t ! p)) ?t) \<longleftrightarrow>
        p \<in> set (hook_runs (run_HookID (tk_heap t ! p)) t) \<and> (p \<in> set (hook_runs hookID t) \<longrightarrow> p \<in> set ?kept)"
      using kept(1) trk_hook_runs [OF inv, of p hookID] by (auto simp: hr)
    then show ?thesis unfolding lhs get heap new_heap_nth(3) using False by (auto simp: new_heap_nth(1) less_Suc_eq)
  qed
  have 6: "p < length (tk_heap ?t) \<Longrightarrow> tk_active ?t p \<Longrightarrow> p \<in> set (hook_runs (run_HookID (tk_heap ?t ! p)) ?t)" for p
  proof (cases "p = ?n")
    case False
    assume "p < length (tk_heap ?t)" "tk_active ?t p"
    then have "p < ?n" "tk_active t p" using False by (auto simp: heap new_heap_nth tk_active_def less_Suc_eq)
    then show ?thesis using trk_invD(6) [OF inv] evicted [of p] by (auto simp: heap new_heap_nth hr tk_active_def)
  qed (use kept in \<open>simp add: heap new_heap_nth hr\<close>)
  show ?thesis unfolding trk_inv_def by (intro conjI allI impI) (use 1 2 3 4 5 6 in blast)+
qed

lemma heap_upd: "hook_runs h (t\<lparr>tk_heap := x\<rparr>) = hook_runs h t" "tk_Get i (t\<lparr>tk_heap := x\<rparr>) = tk_Get i t"
  "tk_heap (t\<lparr>tk_heap := x\<rparr>) = x"
  by (simp_all add: hook_runs_def tk_Get_def)

lemma trk_inv_run:
  assumes inv: "trk_inv t" and p: "p < length (tk_heap t)" and step: "run_step (tk_heap t ! p) r"
  shows "trk_inv (t\<lparr>tk_heap := (tk_heap t)[p := r]\<rparr>)"
proof -
  let ?h = "(tk_heap t)[p := r]"
  have ids: "run_ID (?h ! q) = run_ID (tk_heap t ! q)" "run_HookID (?h ! q) = run_HookID (tk_heap t ! q)" for q
    using run_step_ids [OF step] p by (cases "q = p"; simp)+
  have good: "\<forall>x \<in> set ?h. run_inv x"
    using inv run_inv_step [OF step] p set_update_subset_insert [of "tk_heap t" p r] by (auto simp: trk_inv_def)
  have "\<not> Terminal (run_Status (?h ! q)) \<Longrightarrow> \<not> Terminal (run_Status (tk_heap t ! q))" for q
    using run_step_terminal [OF step] inv p by (cases "q = p") (auto simp: trk_inv_def)
  then have "tk_active (t\<lparr>tk_heap := ?h\<rparr>) q \<Longrightarrow> tk_active t q" for q by (simp add: tk_active_def)
  then have "\<forall>q < length (tk_heap t). tk_active (t\<lparr>tk_heap := ?h\<rparr>) q \<longrightarrow> q \<in> set (hook_runs (run_HookID (tk_heap t ! q)) t)"
    using trk_invD(6) [OF inv] by blast
  then show ?thesis unfolding trk_inv_def heap_upd length_list_update ids
    by (intro conjI good trk_invD(2-5) [OF inv])
qed

lemma trk_inv_step: "trk_step t t' \<Longrightarrow> trk_inv t \<Longrightarrow> trk_inv t'"
proof (induction rule: trk_step.induct)
  case (onFinish t b)
  then show ?case by (simp add: trk_inv_def tk_SetOnFinish_def hook_runs_def tk_Get_def tk_active_def)
next
  case (onChange t b)
  then show ?case by (simp add: trk_inv_def tk_SetOnChange_def hook_runs_def tk_Get_def tk_active_def)
qed (blast intro: trk_inv_New trk_inv_run)+

interpretation tki: invariant_system "\<lambda>t. t = NewTracker" trk_step trk_inv
proof
  show "t = NewTracker \<Longrightarrow> trk_inv t" for t by (simp add: trk_inv_def NewTracker_def hook_runs_def tk_Get_def)
qed (rule trk_inv_step)

lemma newest_first_set: "set (newest_first t 0 ps) = set ps"
  by (simp add: newest_first_def Let_def)

subsection \<open>Properties of the tracker\<close>

text \<open>An active run is never evicted, whatever creations and finishes interleave: every run that has
  been created and is not terminal is found by its id, is listed under its hook, and is reported by
  \<open>HasActive\<close> and \<open>ActiveIDs\<close>.\<close>

theorem active_never_evicted:
  assumes "trk_step\<^sup>*\<^sup>* NewTracker t" "p < length (tk_heap t)" "\<not> Terminal (run_Status (tk_heap t ! p))"
  shows "tk_Get (run_ID (tk_heap t ! p)) t = Some p \<and> p \<in> set (tk_ListByHook (run_HookID (tk_heap t ! p)) 0 t)
     \<and> HasActive (run_HookID (tk_heap t ! p)) t \<and> run_ID (tk_heap t ! p) \<in> set (ActiveIDs t)"
proof -
  have inv: "trk_inv t" using tki.inv_reachable assms(1) by blast
  then have m: "p \<in> set (hook_runs (run_HookID (tk_heap t ! p)) t)" using assms by (simp add: trk_inv_def tk_active_def)
  then have g: "tk_Get (run_ID (tk_heap t ! p)) t = Some p" using inv assms(2) unfolding trk_inv_def by blast
  then have "p \<in> set (map snd (sorted_list_of_fmap (tk_byID t)))"
    unfolding tk_Get_def set_sorted_list_of_fmap [symmetric] by (metis in_set_conv_decomp_first list.set_map image_eqI snd_conv)
  then show ?thesis using m g assms(3)
    by (auto simp: tk_ListByHook_def newest_first_set HasActive_def list_ex_iff tk_active_def ActiveIDs_def)
qed

theorem active_never_evicted_witness:
  "let t = tk_New (\<lambda>_. False) ''a'' 1 ''h'' NewTracker in tk_Get ''a'' t = Some 0 \<and> HasActive ''h'' t"
proof -
  let ?t = "tk_New (\<lambda>_. False) ''a'' 1 ''h'' NewTracker"
  have "trk_step\<^sup>*\<^sup>* NewTracker ?t"
    by (rule r_into_rtranclp, rule trk_step.new) (simp_all add: NewTracker_def)
  moreover have "tk_heap ?t = [fresh_run ''a'' ''h'' 1 False False]"
    by (simp add: tk_New_def NewTracker_def hook_runs_def Let_def MaxRunsPerHook_def)
  ultimately show ?thesis using active_never_evicted [of ?t 0] by (simp add: Let_def)
qed

text \<open>C40: The two maps describe the same runs: in every execution an id leads to a run exactly when that
  run is listed under its own hook, the lists never mix hooks or repeat a run, and no two runs
  share an id.\<close>

theorem tracker_maps_agree:
  assumes "trk_step\<^sup>*\<^sup>* NewTracker t"
  shows "(\<forall>rid p. tk_Get rid t = Some p \<longleftrightarrow> p < length (tk_heap t) \<and> run_ID (tk_heap t ! p) = rid
              \<and> p \<in> set (tk_ListByHook (run_HookID (tk_heap t ! p)) 0 t))
     \<and> (\<forall>h p. p \<in> set (tk_ListByHook h 0 t) \<longrightarrow> run_HookID (tk_heap t ! p) = h \<and> tk_Get (run_ID (tk_heap t ! p)) t = Some p)
     \<and> (\<forall>h. distinct (tk_ListByHook h 0 t))"
proof -
  have inv: "trk_inv t" using tki.inv_reachable assms by blast
  then have "distinct (hook_runs h t)" for h unfolding trk_inv_def using strict_sorted_iff by blast
  then have d: "distinct (tk_ListByHook h 0 t)" for h by (simp add: tk_ListByHook_def newest_first_def Let_def)
  have l: "set (tk_ListByHook h 0 t) = set (hook_runs h t)" for h by (simp add: tk_ListByHook_def newest_first_set)
  show ?thesis using inv d unfolding trk_inv_def l by blast
qed

theorem tracker_maps_agree_witness:
  "let t = tk_New (\<lambda>_. False) ''a'' 1 ''h'' NewTracker in distinct (tk_ListByHook ''h'' 0 t) \<and> tk_ListByHook ''h'' 0 t = [0]"
proof -
  let ?t = "tk_New (\<lambda>_. False) ''a'' 1 ''h'' NewTracker"
  have "trk_step\<^sup>*\<^sup>* NewTracker ?t"
    by (rule r_into_rtranclp, rule trk_step.new) (simp_all add: NewTracker_def)
  then have "distinct (tk_ListByHook ''h'' 0 ?t)" using tracker_maps_agree [of ?t] by blast
  moreover have "tk_ListByHook ''h'' 0 ?t = [0]"
    by (simp add: tk_New_def NewTracker_def hook_runs_def Let_def MaxRunsPerHook_def tk_ListByHook_def newest_first_def)
  ultimately show ?thesis by (simp add: Let_def)
qed

text \<open>What a creation evicts: a hook that would hold more than \<open>MaxRunsPerHook\<close> runs then holds the
  larger of the limit and the number of its runs seen as active (and nothing is evicted below the
  limit); every evicted run was seen as terminal and is older than every terminal run that stays, and
  its id is gone; the new run stays.\<close>

theorem New_evicts_oldest_terminal:
  assumes "trk_step\<^sup>*\<^sup>* NewTracker t" "\<forall>r \<in> set (tk_heap t). run_ID r \<noteq> rid"
    and "\<forall>p < length (tk_heap t). seen p \<longrightarrow> Terminal (run_Status (tk_heap t ! p))" "\<not> seen (length (tk_heap t))"
  shows "let t' = tk_New seen rid now hookID t; kept = hook_runs hookID t' in
     int (length kept) = max (min (int (length (hook_runs hookID t)) + 1) MaxRunsPerHook) (cnt (\<lambda>p. \<not> seen p) (hook_runs hookID t) + 1)
     \<and> length (tk_heap t) \<in> set kept
     \<and> (\<forall>x y. x \<in> set (hook_runs hookID t) \<and> x \<notin> set kept \<longrightarrow>
            seen x \<and> tk_Get (run_ID (tk_heap t ! x)) t' = None \<and> (y \<in> set kept \<and> seen y \<longrightarrow> x < y))"
proof -
  let ?n = "length (tk_heap t)"
  let ?kept = "fst (new_trim seen rid now hookID t)"
  have inv: "trk_inv t" using tki.inv_reachable assms(1) by blast
  have mx: "trk_step\<^sup>*\<^sup>* NewTracker t \<Longrightarrow> tk_maxByHook t = MaxRunsPerHook"
    by (induction rule: rtranclp_induct)
      (auto simp: NewTracker_def tk_New_eq tk_SetOnFinish_def tk_SetOnChange_def elim!: trk_step.cases)
  have total: "cnt P xs + cnt (\<lambda>p. \<not> P p) xs = int (length xs)" for P :: "nat \<Rightarrow> bool" and xs
    by (induction xs) auto
  have len: "int (length ?kept) = max (min (int (length (hook_runs hookID t)) + 1) MaxRunsPerHook) (cnt (\<lambda>p. \<not> seen p) (hook_runs hookID t) + 1)"
  proof (cases "int (length (hook_runs hookID t)) < MaxRunsPerHook")
    case True
    have "cnt (\<lambda>p. \<not> seen p) (hook_runs hookID t) \<le> int (length (hook_runs hookID t))"
      using total [of seen "hook_runs hookID t"] cnt_nonneg [of seen "hook_runs hookID t"] by linarith
    with True show ?thesis using mx [OF assms(1)] by (simp add: new_trim_def trim_loop_stop)
  next
    case False
    then show ?thesis using assms(4) total [of seen "hook_runs hookID t"] mx [OF assms(1)]
      by (simp add: new_trim_def trim_loop_length)
  qed
  have K: "set ?kept \<subseteq> insert ?n (set (hook_runs hookID t))" "?n \<in> set ?kept"
    "\<And>q. q \<in> set (hook_runs hookID t) \<Longrightarrow> q \<notin> set ?kept \<Longrightarrow> seen q"
    using trim_loop_kept [of seen "\<lambda>q. run_ID (new_heap rid now hookID t ! q)" _ "hook_runs hookID t @ [?n]"] assms(4)
    by (auto simp: new_trim_def)
  have older: "x < y" if "x \<in> set (hook_runs hookID t)" "x \<notin> set ?kept" "y \<in> set ?kept" "seen y" for x y
    using trim_loop_oldest [of x "hook_runs hookID t @ [?n]" seen] new_list_sorted [OF inv] that by (simp add: new_trim_def)
  have gone: "tk_Get (run_ID (tk_heap t ! x)) (tk_New seen rid now hookID t) = None"
    if "x \<in> set (hook_runs hookID t)" "x \<notin> set ?kept" for x
  proof -
    have "run_ID (tk_heap t ! x) = run_ID (new_heap rid now hookID t ! x)"
      using trk_hook_runs [OF inv that(1)] by (simp add: new_heap_nth)
    then show ?thesis using that unfolding tk_Get_New [OF inv assms(2)] by auto
  qed
  show ?thesis using len K older gone by (simp add: hook_runs_New Let_def)
qed

theorem New_evicts_oldest_terminal_witness:
  "hook_runs ''h'' (tk_New (\<lambda>_. False) ''a'' 1 ''h'' NewTracker) = [0]"
proof -
  have "int (length (hook_runs ''h'' (tk_New (\<lambda>_. False) ''a'' 1 ''h'' NewTracker))) = 1
      \<and> 0 \<in> set (hook_runs ''h'' (tk_New (\<lambda>_. False) ''a'' 1 ''h'' NewTracker))"
    using New_evicts_oldest_terminal [of NewTracker "''a''" "\<lambda>_. False" 1 "''h''"]
    by (simp add: NewTracker_def Let_def hook_runs_def MaxRunsPerHook_def)
  then show ?thesis
    by (cases "hook_runs ''h'' (tk_New (\<lambda>_. False) ''a'' 1 ''h'' NewTracker)") auto
qed

subsection \<open>Statistics\<close>

record last_run =
  lr_ID :: string
  lr_Status :: status
  lr_Started :: time
  lr_Finished :: time

record overhead_stats =
  o_BootAvgMS :: int
  o_BootMaxMS :: int
  o_BootSampled :: int
  o_BoundAvgMS :: int
  o_BoundMaxMS :: int
  o_BoundSampled :: int
  o_RuntimeStartAvgMS :: int
  o_RuntimeStartMaxMS :: int
  o_InspectAvgMS :: int
  o_InspectMaxMS :: int
  o_InspectSampled :: int

text \<open>\<open>SuccessRate\<close> is kept as the pair (numerator, denominator) of the floating-point quotient, with
  \<open>(0, 1)\<close> where the code leaves it zero.\<close>

record hook_run_stats =
  hs_Tracked :: int
  hs_MaxTracked :: int
  hs_Retention :: string
  hs_ByStatus :: "(status, int) fmap"
  hs_Completed :: int
  hs_Skipped :: int
  hs_SuccessRate :: "int \<times> int"
  hs_AvgDurationMS :: int
  hs_MaxDurationMS :: int
  hs_AvgWaitMS :: int
  hs_MaxWaitMS :: int
  hs_WaitSampled :: int
  hs_LastRun :: "last_run option"
  hs_Overhead :: "overhead_stats option"

definition zero_stats :: hook_run_stats where
  "zero_stats = \<lparr>hs_Tracked = 0, hs_MaxTracked = 0, hs_Retention = [], hs_ByStatus = fmempty, hs_Completed = 0,
     hs_Skipped = 0, hs_SuccessRate = (0, 1), hs_AvgDurationMS = 0, hs_MaxDurationMS = 0, hs_AvgWaitMS = 0,
     hs_MaxWaitMS = 0, hs_WaitSampled = 0, hs_LastRun = None, hs_Overhead = None\<rparr>"

definition Milliseconds :: "duration \<Rightarrow> int" where
  "Milliseconds d = go_div d 1000000"

text \<open>The local variables of \<open>computeOverhead\<close>: a total, a maximum and a count per span.\<close>

record span_acc =
  a_total :: duration
  a_max :: duration
  a_n :: int

definition span_add :: "duration \<Rightarrow> span_acc \<Rightarrow> span_acc" where
  "span_add d a = \<lparr>a_total = a_total a + d, a_max = (if d > a_max a then d else a_max a), a_n = a_n a + 1\<rparr>"

definition span_zero :: span_acc where
  "span_zero = \<lparr>a_total = 0, a_max = 0, a_n = 0\<rparr>"

definition overhead_add :: "run_state \<Rightarrow> span_acc \<times> span_acc \<times> span_acc \<times> span_acc \<Rightarrow> span_acc \<times> span_acc \<times> span_acc \<times> span_acc" where
  "overhead_add snap = (\<lambda>(boot, bound, rt, insp).
     if rs_Phases snap = fmempty then (boot, bound, rt, insp)
     else let (boot, bound) = (case BootDuration snap of None \<Rightarrow> (boot, bound)
                | Some (d, exact) \<Rightarrow> if exact then (span_add d boot, bound) else (boot, span_add d bound));
              rt = (case RuntimeStartDuration snap of None \<Rightarrow> rt | Some d \<Rightarrow> span_add d rt);
              insp = (case InspectDuration snap of None \<Rightarrow> insp | Some d \<Rightarrow> span_add d insp)
          in (boot, bound, rt, insp))"

definition computeOverhead :: "run_state list \<Rightarrow> overhead_stats option" where
  "computeOverhead states =
     (let (boot, bound, rt, insp) = fold overhead_add states (span_zero, span_zero, span_zero, span_zero) in
      if a_n boot = 0 \<and> a_n bound = 0 \<and> a_n insp = 0 then None
      else Some \<lparr>
        o_BootAvgMS = (if a_n boot > 0 then Milliseconds (go_div (a_total boot) (a_n boot)) else 0),
        o_BootMaxMS = (if a_n boot > 0 then Milliseconds (a_max boot) else 0),
        o_BootSampled = a_n boot,
        o_BoundAvgMS = (if a_n bound > 0 then Milliseconds (go_div (a_total bound) (a_n bound)) else 0),
        o_BoundMaxMS = (if a_n bound > 0 then Milliseconds (a_max bound) else 0),
        o_BoundSampled = a_n bound,
        o_RuntimeStartAvgMS = (if a_n boot > 0 then Milliseconds (go_div (a_total rt) (a_n boot)) else 0),
        o_RuntimeStartMaxMS = (if a_n boot > 0 then Milliseconds (a_max rt) else 0),
        o_InspectAvgMS = (if a_n insp > 0 then Milliseconds (go_div (a_total insp) (a_n insp)) else 0),
        o_InspectMaxMS = (if a_n insp > 0 then Milliseconds (a_max insp) else 0),
        o_InspectSampled = a_n insp\<rparr>)"

text \<open>\<open>newer\<close>: by start time; on a tie the unfinished run wins, and among equals the larger id.\<close>

definition newer_run :: "run_state \<Rightarrow> last_run option \<Rightarrow> bool" where
  "newer_run snap lr = (case lr of None \<Rightarrow> True | Some l \<Rightarrow>
     rs_Started snap > lr_Started l
     \<or> (rs_Started snap = lr_Started l \<and> (lr_Finished l = 0) = (rs_Finished snap = 0) \<and> rs_ID snap > lr_ID l)
     \<or> (rs_Started snap = lr_Started l \<and> lr_Finished l \<noteq> 0 \<and> rs_Finished snap = 0))"

record stats_acc =
  sa_stats :: hook_run_stats
  sa_successes :: int
  sa_dur :: span_acc
  sa_wait :: span_acc

definition stats_add :: "run_state \<Rightarrow> stats_acc \<Rightarrow> stats_acc" where
  "stats_add snap a =
     (let s = sa_stats a;
          s = s\<lparr>hs_ByStatus := fmupd (rs_Status snap)
                 ((case fmlookup (hs_ByStatus s) (rs_Status snap) of None \<Rightarrow> 0 | Some n \<Rightarrow> n) + 1) (hs_ByStatus s)\<rparr>;
          s = (if newer_run snap (hs_LastRun s)
               then s\<lparr>hs_LastRun := Some \<lparr>lr_ID = rs_ID snap, lr_Status = rs_Status snap, lr_Started = rs_Started snap,
                                       lr_Finished = rs_Finished snap\<rparr>\<rparr> else s)
      in if \<not> Terminal (rs_Status snap) then a\<lparr>sa_stats := s\<rparr>
         else if rs_Status snap = StatusSkipped then a\<lparr>sa_stats := s\<lparr>hs_Skipped := hs_Skipped s + 1\<rparr>\<rparr>
         else let a = a\<lparr>sa_stats := s\<lparr>hs_Completed := hs_Completed s + 1\<rparr>,
                        sa_successes := sa_successes a + of_bool (rs_Status snap = StatusSuccess)\<rparr>
              in if rs_StartedAt snap \<noteq> 0
                 then a\<lparr>sa_dur := span_add (rs_Finished snap - rs_StartedAt snap) (sa_dur a),
                        sa_wait := span_add (rs_StartedAt snap - rs_Started snap) (sa_wait a)\<rparr>
                 else if rs_Status snap \<in> {StatusSuccess, StatusFailure, StatusTimeout}
                 then a\<lparr>sa_dur := span_add (rs_Finished snap - rs_Started snap) (sa_dur a)\<rparr>
                 else a)"

definition ComputeStats :: "run_state list \<Rightarrow> hook_run_stats" where
  "ComputeStats states =
     (if states = [] then zero_stats
      else let a = fold stats_add states
                     \<lparr>sa_stats = zero_stats\<lparr>hs_Tracked := int (length states)\<rparr>, sa_successes = 0, sa_dur = span_zero, sa_wait = span_zero\<rparr>;
               s = sa_stats a
           in s\<lparr>hs_SuccessRate := (if hs_Completed s > 0 then (sa_successes a, hs_Completed s) else (0, 1)),
                hs_AvgDurationMS := (if a_n (sa_dur a) > 0 then Milliseconds (go_div (a_total (sa_dur a)) (a_n (sa_dur a))) else 0),
                hs_MaxDurationMS := (if a_n (sa_dur a) > 0 then Milliseconds (a_max (sa_dur a)) else 0),
                hs_WaitSampled := a_n (sa_wait a),
                hs_AvgWaitMS := (if a_n (sa_wait a) > 0 then Milliseconds (go_div (a_total (sa_wait a)) (a_n (sa_wait a))) else 0),
                hs_MaxWaitMS := (if a_n (sa_wait a) > 0 then Milliseconds (a_max (sa_wait a)) else 0),
                hs_Overhead := computeOverhead states\<rparr>)"

definition StatsByHook :: "string \<Rightarrow> tracker \<Rightarrow> hook_run_stats" where
  "StatsByHook hookID t =
     (ComputeStats (map (\<lambda>p. run_Snapshot 0 (tk_heap t ! p)) (tk_ListByHook hookID 0 t)))\<lparr>hs_MaxTracked := tk_maxByHook t\<rparr>"

definition stats_of :: "hook_run_stats \<Rightarrow> status \<Rightarrow> int" where
  "stats_of s st = (case fmlookup (hs_ByStatus s) st of None \<Rightarrow> 0 | Some n \<Rightarrow> n)"

definition done_work :: "run_state \<Rightarrow> bool" where
  "done_work s \<longleftrightarrow> Terminal (rs_Status s) \<and> rs_Status s \<noteq> StatusSkipped"

lemma span_add_sels [simp]: "a_n (span_add d a) = a_n a + 1"
  by (simp add: span_add_def)

text \<open>One iteration of the loop, observed through each counter.\<close>

lemma stats_add_counts:
  "stats_of (sa_stats (stats_add x a)) st = stats_of (sa_stats a) st + of_bool (rs_Status x = st)"
  "hs_Completed (sa_stats (stats_add x a)) = hs_Completed (sa_stats a) + of_bool (done_work x)"
  "hs_Skipped (sa_stats (stats_add x a)) = hs_Skipped (sa_stats a) + of_bool (rs_Status x = StatusSkipped)"
  "sa_successes (stats_add x a) = sa_successes a + of_bool (rs_Status x = StatusSuccess)"
  "hs_Tracked (sa_stats (stats_add x a)) = hs_Tracked (sa_stats a)"
  "hs_LastRun (sa_stats (stats_add x a)) =
     (if newer_run x (hs_LastRun (sa_stats a))
      then Some \<lparr>lr_ID = rs_ID x, lr_Status = rs_Status x, lr_Started = rs_Started x, lr_Finished = rs_Finished x\<rparr>
      else hs_LastRun (sa_stats a))"
  by (auto simp: stats_add_def Let_def stats_of_def done_work_def Terminal_def status_defs split: option.split)

lemma stats_fold_counts:
  "stats_of (sa_stats (fold stats_add xs a)) st = stats_of (sa_stats a) st + cnt (\<lambda>x. rs_Status x = st) xs"
  "hs_Completed (sa_stats (fold stats_add xs a)) = hs_Completed (sa_stats a) + cnt done_work xs"
  "hs_Skipped (sa_stats (fold stats_add xs a)) = hs_Skipped (sa_stats a) + cnt (\<lambda>x. rs_Status x = StatusSkipped) xs"
  "sa_successes (fold stats_add xs a) = sa_successes a + cnt (\<lambda>x. rs_Status x = StatusSuccess) xs"
  "hs_Tracked (sa_stats (fold stats_add xs a)) = hs_Tracked (sa_stats a)"
  by (induction xs arbitrary: a) (simp_all add: stats_add_counts)

definition as_last :: "run_state \<Rightarrow> last_run" where
  "as_last x = \<lparr>lr_ID = rs_ID x, lr_Status = rs_Status x, lr_Started = rs_Started x, lr_Finished = rs_Finished x\<rparr>"

lemma newer_run_trans: "newer_run x (Some l) \<Longrightarrow> \<not> newer_run y (Some l) \<Longrightarrow> \<not> newer_run y (Some (as_last x))"
  by (auto simp: newer_run_def as_last_def)

lemma newer_run_irrefl: "\<not> newer_run x (Some (as_last x))"
  by (simp add: newer_run_def as_last_def)

lemma stats_fold_last:
  assumes "hs_LastRun (sa_stats a) = Some (as_last z)"
  shows "\<exists>y \<in> insert z (set xs). hs_LastRun (sa_stats (fold stats_add xs a)) = Some (as_last y)
     \<and> (\<forall>x. \<not> newer_run x (Some (as_last z)) \<longrightarrow> \<not> newer_run x (Some (as_last y))) \<and> (\<forall>x \<in> set xs. \<not> newer_run x (Some (as_last y)))"
  using assms
proof (induction xs arbitrary: a z)
  case (Cons x xs)
  show ?case
  proof (cases "newer_run x (Some (as_last z))")
    case True
    then have "hs_LastRun (sa_stats (stats_add x a)) = Some (as_last x)"
      using Cons.prems by (simp add: stats_add_counts as_last_def)
    from Cons.IH [OF this] show ?thesis using newer_run_irrefl [of x] newer_run_trans [OF True] by auto
  next
    case False
    then have "hs_LastRun (sa_stats (stats_add x a)) = Some (as_last z)" using Cons.prems by (simp add: stats_add_counts)
    from Cons.IH [OF this] show ?thesis using False by auto
  qed
qed simp

text \<open>The statistics account for every run of the window exactly once: each status is counted as often
  as it occurs, completed, skipped and active runs add up to the window, the success rate is successes
  over completed runs, and the last run is a run of the window that no other run of the window is newer than.\<close>

theorem ComputeStats_exact:
  "let s = ComputeStats states in
     hs_Tracked s = int (length states)
     \<and> (\<forall>st. stats_of s st = cnt (\<lambda>x. rs_Status x = st) states)
     \<and> hs_Completed s = cnt done_work states \<and> hs_Skipped s = cnt (\<lambda>x. rs_Status x = StatusSkipped) states
     \<and> hs_Completed s + hs_Skipped s + cnt (\<lambda>x. \<not> Terminal (rs_Status x)) states = int (length states)
     \<and> fst (hs_SuccessRate s) = cnt (\<lambda>x. rs_Status x = StatusSuccess) states
     \<and> snd (hs_SuccessRate s) = max 1 (cnt done_work states)
     \<and> (case hs_LastRun s of None \<Rightarrow> states = []
        | Some l \<Rightarrow> l \<in> as_last ` set states \<and> (\<nexists>x. x \<in> set states \<and> newer_run x (Some l)))"
proof (cases states)
  case Nil
  then show ?thesis by (simp add: ComputeStats_def zero_stats_def stats_of_def Let_def)
next
  case (Cons z xs)
  let ?i = "\<lparr>sa_stats = zero_stats\<lparr>hs_Tracked := int (length states)\<rparr>, sa_successes = 0, sa_dur = span_zero, sa_wait = span_zero\<rparr>"
  have i: "hs_Completed (sa_stats ?i) = 0" "hs_Skipped (sa_stats ?i) = 0" "stats_of (sa_stats ?i) st = 0" "hs_LastRun (sa_stats ?i) = None" for st
    by (simp_all add: zero_stats_def stats_of_def)
  have "hs_LastRun (sa_stats (stats_add z ?i)) = Some (as_last z)" by (simp add: stats_add_counts newer_run_def as_last_def zero_stats_def)
  from stats_fold_last [OF this, of xs] obtain y where y: "y \<in> set states"
    "hs_LastRun (sa_stats (fold stats_add states ?i)) = Some (as_last y)" "\<forall>x \<in> set states. \<not> newer_run x (Some (as_last y))"
    using Cons newer_run_irrefl [of z] by auto
  have succ: "cnt (\<lambda>x. rs_Status x = StatusSuccess) states \<le> cnt done_work states"
    by (induction states) (auto simp: done_work_def Terminal_def status_defs)
  have parts: "cnt done_work states + cnt (\<lambda>x. rs_Status x = StatusSkipped) states + cnt (\<lambda>x. \<not> Terminal (rs_Status x)) states = int (length states)"
    by (induction states) (auto simp: done_work_def Terminal_def status_defs)
  define s where "s = ComputeStats states"
  define a where "a = fold stats_add states ?i"
  have sels: "hs_Tracked s = hs_Tracked (sa_stats a)" "stats_of s st = stats_of (sa_stats a) st" "hs_Completed s = hs_Completed (sa_stats a)"
    "hs_Skipped s = hs_Skipped (sa_stats a)" "hs_LastRun s = hs_LastRun (sa_stats a)"
    "hs_SuccessRate s = (if hs_Completed (sa_stats a) > 0 then (sa_successes a, hs_Completed (sa_stats a)) else (0, 1))" for st
    using Cons by (simp_all add: s_def a_def ComputeStats_def Let_def stats_of_def)
  have counts: "hs_Tracked s = int (length states)" "stats_of s st = cnt (\<lambda>x. rs_Status x = st) states" "hs_Completed s = cnt done_work states"
    "hs_Skipped s = cnt (\<lambda>x. rs_Status x = StatusSkipped) states" "sa_successes a = cnt (\<lambda>x. rs_Status x = StatusSuccess) states" for st
    unfolding sels a_def stats_fold_counts i by simp_all
  have rate: "fst (hs_SuccessRate s) = cnt (\<lambda>x. rs_Status x = StatusSuccess) states \<and> snd (hs_SuccessRate s) = max 1 (cnt done_work states)"
  proof (cases "cnt done_work states > 0")
    case False
    then have "cnt (\<lambda>x. rs_Status x = StatusSuccess) states = 0"
      using succ cnt_nonneg [of "\<lambda>x. rs_Status x = StatusSuccess" states] by linarith
    with False show ?thesis using sels(3,6) counts(3) by simp
  qed (use sels(3,6) counts(3,5) in auto)
  have last_ok: "case hs_LastRun s of None \<Rightarrow> states = []
      | Some l \<Rightarrow> l \<in> as_last ` set states \<and> (\<nexists>x. x \<in> set states \<and> newer_run x (Some l))"
    using y by (auto simp: sels(5) a_def)
  show ?thesis unfolding Let_def s_def [symmetric] using counts parts rate last_ok by simp
qed

end
