(* ===== verification/Skip.thy ===== *)
theory Skip
  imports Int64
begin

text \<open>
  Model of \<^verbatim>\<open>internal/hooks/skip.go\<close>: the declarative \<open>skip_if\<close> conditions of a hook, evaluated
  on a delivery's payload and headers before any work is done.

  A decoded JSON value is a \<^emph>\<open>json\<close> tree: numbers keep their literal text (\<open>UseNumber\<close>), an object
  is a finite map (a repeated key: the last one wins, as \<open>encoding/json\<close> decodes it).  The payload
  decoder itself is the standard library's; a payload that does not decode is \<open>JNull\<close>, as
  \<open>parsePayloadTree\<close> returns nil for it.  The regular expression engine and \<open>strconv.Quote\<close> (used in
  the rendered reason only) are arguments: \<open>re pat s\<close> is \<open>None\<close> when the pattern does not compile.
\<close>

datatype json = JNull | JBool bool | JNum string | JStr string | JArr "json list" | JObj "(string, json) fmap"

subsection \<open>Request headers\<close>

text \<open>\<open>http.Header\<close> maps canonical names to values; \<open>Values\<close> canonicalises the name it is asked for
  (\<open>textproto.CanonicalMIMEHeaderKey\<close>): a name with a byte that is no token character is left alone.\<close>

type_synonym header = "(string, string list) fmap"

definition upper_letter :: "char \<Rightarrow> bool" where
  "upper_letter c \<longleftrightarrow> CHR ''A'' \<le> c \<and> c \<le> CHR ''Z''"

definition lower_letter :: "char \<Rightarrow> bool" where
  "lower_letter c \<longleftrightarrow> CHR ''a'' \<le> c \<and> c \<le> CHR ''z''"

definition to_upper :: "char \<Rightarrow> char" where
  "to_upper c = (if lower_letter c then char_of (of_char c - 32 :: nat) else c)"

definition to_lower :: "char \<Rightarrow> char" where
  "to_lower c = (if upper_letter c then char_of (of_char c + 32 :: nat) else c)"

definition token_char :: "char \<Rightarrow> bool" where
  "token_char c \<longleftrightarrow> upper_letter c \<or> lower_letter c \<or> (CHR ''0'' \<le> c \<and> c \<le> CHR ''9'')
     \<or> c \<in> set ''!#$%&*+-.^_|~'' \<or> c = CHR 0x27 \<or> c = CHR 0x60"

fun canonical_loop :: "bool \<Rightarrow> string \<Rightarrow> string" where
  "canonical_loop up [] = []"
| "canonical_loop up (c # cs) = (if up then to_upper c else to_lower c) # canonical_loop (c = CHR ''-'') cs"

definition canonical_key :: "string \<Rightarrow> string" where
  "canonical_key s = (if list_all token_char s then canonical_loop True s else s)"

definition header_Values :: "header \<Rightarrow> string \<Rightarrow> string list" where
  "header_Values h name = (case fmlookup h (canonical_key name) of None \<Rightarrow> [] | Some vs \<Rightarrow> vs)"

subsection \<open>Matchers\<close>

definition HeaderKeyPrefix :: string where "HeaderKeyPrefix = ''header:''"

record skip_matcher =
  sm_Eq :: "string option"
  sm_Ne :: "string option"
  sm_In :: "string list option"
  sm_Exists :: "bool option"
  sm_Prefix :: "string option"
  sm_Regex :: "string option"

definition no_matcher :: skip_matcher where
  "no_matcher = \<lparr>sm_Eq = None, sm_Ne = None, sm_In = None, sm_Exists = None, sm_Prefix = None, sm_Regex = None\<rparr>"

text \<open>A JSON null in place of a matcher decodes to a nil pointer.\<close>

type_synonym skip_condition = "(string, skip_matcher option) fmap"
type_synonym skip_conditions = "skip_condition list"

datatype skip_error = SkipNotMatcher | SkipUnknownOperator | SkipBadOperand
  | SkipEmptyCondition nat | SkipEmptyKey nat | SkipNoHeaderName nat | SkipNullMatcher nat
  | SkipNoOperator nat | SkipEmptyIn nat | SkipBadRegex nat

definition skip_ops :: "string list" where
  "skip_ops = [''eq'', ''ne'', ''in'', ''exists'', ''prefix'', ''regex'']"

text \<open>\<open>unmarshalOp\<close> decodes one operand; JSON null leaves the zero value.  For \<open>in\<close>, null leaves the
  slice nil.\<close>

definition unmarshalOp_string :: "json \<Rightarrow> skip_error + string option" where
  "unmarshalOp_string v = (case v of JStr s \<Rightarrow> Inr (Some s) | JNull \<Rightarrow> Inr (Some []) | _ \<Rightarrow> Inl SkipBadOperand)"

definition unmarshalOp_bool :: "json \<Rightarrow> skip_error + bool option" where
  "unmarshalOp_bool v = (case v of JBool b \<Rightarrow> Inr (Some b) | JNull \<Rightarrow> Inr (Some False) | _ \<Rightarrow> Inl SkipBadOperand)"

fun unmarshal_strings :: "json list \<Rightarrow> string list option" where
  "unmarshal_strings [] = Some []"
| "unmarshal_strings (JStr s # vs) = map_option (\<lambda>r. s # r) (unmarshal_strings vs)"
| "unmarshal_strings (JNull # vs) = map_option (\<lambda>r. [] # r) (unmarshal_strings vs)"
| "unmarshal_strings (v # vs) = None"

definition unmarshal_in :: "json \<Rightarrow> skip_error + string list option" where
  "unmarshal_in v = (case v of JNull \<Rightarrow> Inr None
     | JArr vs \<Rightarrow> (case unmarshal_strings vs of None \<Rightarrow> Inl SkipBadOperand | Some ss \<Rightarrow> Inr (Some ss))
     | _ \<Rightarrow> Inl SkipBadOperand)"

definition operand :: "(json \<Rightarrow> skip_error + 'a option) \<Rightarrow> (string, json) fmap \<Rightarrow> string \<Rightarrow> ('a option \<Rightarrow> skip_error + 'b) \<Rightarrow> skip_error + 'b" where
  "operand dec raw k cont = (case fmlookup raw k of None \<Rightarrow> cont None
     | Some v \<Rightarrow> (case dec v of Inl e \<Rightarrow> Inl e | Inr x \<Rightarrow> cont x))"

text \<open>\<open>UnmarshalJSON\<close>: the loop over the object's keys sets one field per operator, so its result does
  not depend on the order of the map; every key must be an operator.\<close>

definition skip_UnmarshalJSON :: "json \<Rightarrow> skip_error + skip_matcher" where
  "skip_UnmarshalJSON v = (case v of
     JStr s \<Rightarrow> Inr (no_matcher\<lparr>sm_Eq := Some s\<rparr>)
   | JObj raw \<Rightarrow>
       if \<not> list_all (\<lambda>k. k \<in> set skip_ops) (sorted_list_of_fset (fmdom raw)) then Inl SkipUnknownOperator
       else operand unmarshalOp_string raw ''eq'' (\<lambda>eq. operand unmarshalOp_string raw ''ne'' (\<lambda>ne.
            operand unmarshal_in raw ''in'' (\<lambda>ins. operand unmarshalOp_bool raw ''exists'' (\<lambda>ex.
            operand unmarshalOp_string raw ''prefix'' (\<lambda>pre. operand unmarshalOp_string raw ''regex'' (\<lambda>rx.
              Inr \<lparr>sm_Eq = eq, sm_Ne = ne, sm_In = ins, sm_Exists = ex, sm_Prefix = pre, sm_Regex = rx\<rparr>))))))
   | _ \<Rightarrow> Inl SkipNotMatcher)"

definition put_op :: "string \<Rightarrow> ('a \<Rightarrow> json) \<Rightarrow> 'a option \<Rightarrow> (string, json) fmap \<Rightarrow> (string, json) fmap" where
  "put_op k enc x obj = (case x of None \<Rightarrow> obj | Some v \<Rightarrow> fmupd k (enc v) obj)"

definition skip_MarshalJSON :: "skip_matcher \<Rightarrow> json" where
  "skip_MarshalJSON m =
     (if sm_Eq m \<noteq> None \<and> sm_Ne m = None \<and> sm_In m = None \<and> sm_Exists m = None \<and> sm_Prefix m = None \<and> sm_Regex m = None
      then JStr (the (sm_Eq m))
      else JObj (put_op ''regex'' JStr (sm_Regex m) (put_op ''prefix'' JStr (sm_Prefix m)
             (put_op ''exists'' JBool (sm_Exists m) (put_op ''in'' (\<lambda>vs. JArr (map JStr vs)) (sm_In m)
             (put_op ''ne'' JStr (sm_Ne m) (put_op ''eq'' JStr (sm_Eq m) fmempty)))))))"

subsection \<open>Validation\<close>

text \<open>\<open>strings.CutPrefix\<close> for the header prefix.\<close>

definition header_key :: "string \<Rightarrow> string option" where
  "header_key key = (if has_prefix key HeaderKeyPrefix then Some (trim_space (drop (length HeaderKeyPrefix) key)) else None)"

definition validateSkipKey :: "nat \<Rightarrow> string \<Rightarrow> skip_error option" where
  "validateSkipKey i key =
     (if key = [] then Some (SkipEmptyKey i)
      else if header_key key = Some [] then Some (SkipNoHeaderName i) else None)"

definition matcher_compile :: "(string \<Rightarrow> string \<Rightarrow> bool option) \<Rightarrow> nat \<Rightarrow> skip_matcher \<Rightarrow> skip_error option" where
  "matcher_compile re i m =
     (if m = no_matcher then Some (SkipNoOperator i)
      else if sm_In m = Some [] then Some (SkipEmptyIn i)
      else case sm_Regex m of None \<Rightarrow> None
           | Some p \<Rightarrow> (case re p [] of None \<Rightarrow> Some (SkipBadRegex i) | Some b \<Rightarrow> None))"

definition compile_key :: "(string \<Rightarrow> string \<Rightarrow> bool option) \<Rightarrow> nat \<Rightarrow> string \<times> skip_matcher option \<Rightarrow> skip_error option" where
  "compile_key re i km =
     (case validateSkipKey i (fst km) of Some e \<Rightarrow> Some e
      | None \<Rightarrow> (case snd km of None \<Rightarrow> Some (SkipNullMatcher i) | Some m \<Rightarrow> matcher_compile re i m))"

fun first_error :: "('a \<Rightarrow> 'e option) \<Rightarrow> 'a list \<Rightarrow> 'e option" where
  "first_error f [] = None"
| "first_error f (x # xs) = (case f x of Some e \<Rightarrow> Some e | None \<Rightarrow> first_error f xs)"

text \<open>\<open>compile\<close> of the whole list; among several bad keys of one condition Go's map order decides which
  is reported, the model reports the first in sorted order.\<close>

fun skip_compile :: "(string \<Rightarrow> string \<Rightarrow> bool option) \<Rightarrow> nat \<Rightarrow> skip_conditions \<Rightarrow> skip_error option" where
  "skip_compile re i [] = None"
| "skip_compile re i (c # cs) =
     (if c = fmempty then Some (SkipEmptyCondition i)
      else case first_error (compile_key re i) (sorted_list_of_fmap c) of
             Some e \<Rightarrow> Some e | None \<Rightarrow> skip_compile re (Suc i) cs)"

subsection \<open>Evaluation\<close>

fun resolve_segs :: "json \<Rightarrow> string list \<Rightarrow> json option" where
  "resolve_segs cur [] = Some cur"
| "resolve_segs cur (seg # segs) = (case cur of
     JObj node \<Rightarrow> (case fmlookup node seg of None \<Rightarrow> None | Some v \<Rightarrow> resolve_segs v segs)
   | JArr node \<Rightarrow> (case parse_int seg of None \<Rightarrow> None
       | Some idx \<Rightarrow> if idx < 0 \<or> idx \<ge> int (length node) then None else resolve_segs (node ! nat idx) segs)
   | _ \<Rightarrow> None)"

definition resolvePath :: "json \<Rightarrow> string \<Rightarrow> json option" where
  "resolvePath root path = resolve_segs root (split_on (CHR ''.'') path)"

definition leafString :: "json \<Rightarrow> string option" where
  "leafString v = (case v of JStr s \<Rightarrow> Some s | JNum s \<Rightarrow> Some s
     | JBool b \<Rightarrow> Some (if b then ''true'' else ''false'') | JNull \<Rightarrow> Some ''null'' | _ \<Rightarrow> None)"

text \<open>The operators applied to a value: \<open>leaf\<close>, \<open>isLeaf\<close> and \<open>exists\<close> as the code passes them.\<close>

definition matcher_matches :: "(string \<Rightarrow> string \<Rightarrow> bool option) \<Rightarrow> skip_matcher \<Rightarrow> string \<Rightarrow> bool \<Rightarrow> bool \<Rightarrow> bool" where
  "matcher_matches re m leaf isLeaf exs =
     (if (case sm_Exists m of None \<Rightarrow> False | Some b \<Rightarrow> b \<noteq> exs) then False
      else if (case sm_Eq m of None \<Rightarrow> False | Some s \<Rightarrow> \<not> isLeaf \<or> leaf \<noteq> s) then False
      else if (case sm_Ne m of None \<Rightarrow> False | Some s \<Rightarrow> \<not> isLeaf \<or> leaf = s) then False
      else if (case sm_In m of None \<Rightarrow> False | Some ss \<Rightarrow> \<not> isLeaf \<or> leaf \<notin> set ss) then False
      else if (case sm_Prefix m of None \<Rightarrow> False | Some p \<Rightarrow> \<not> isLeaf \<or> \<not> has_prefix leaf p) then False
      else case sm_Regex m of None \<Rightarrow> True
           | Some p \<Rightarrow> if \<not> isLeaf then False
                       else (case re p leaf of None \<Rightarrow> False | Some b \<Rightarrow> b))"

definition key_matches :: "(string \<Rightarrow> string \<Rightarrow> bool option) \<Rightarrow> json \<Rightarrow> header \<Rightarrow> string \<times> skip_matcher option \<Rightarrow> bool" where
  "key_matches re root hdr km = (case snd km of None \<Rightarrow> False
     | Some m \<Rightarrow> (case header_key (fst km) of
         Some name \<Rightarrow> (case header_Values hdr name of
             [] \<Rightarrow> matcher_matches re m [] False False
           | v # vs \<Rightarrow> matcher_matches re m v True True)
       | None \<Rightarrow> (case resolvePath root (fst km) of
             None \<Rightarrow> matcher_matches re m [] False False
           | Some node \<Rightarrow> (case leafString node of
                 None \<Rightarrow> matcher_matches re m [] False True
               | Some leaf \<Rightarrow> matcher_matches re m leaf True True))))"

definition condition_matches :: "(string \<Rightarrow> string \<Rightarrow> bool option) \<Rightarrow> json \<Rightarrow> header \<Rightarrow> skip_condition \<Rightarrow> bool" where
  "condition_matches re root hdr c = list_all (key_matches re root hdr) (sorted_list_of_fmap c)"

subsection \<open>The rendered reason\<close>

definition join_with :: "string \<Rightarrow> string list \<Rightarrow> string" where
  "join_with sep ps = (case ps of [] \<Rightarrow> [] | p # ps \<Rightarrow> p @ concat (map (\<lambda>q. sep @ q) ps))"

definition opt_clause :: "('a \<Rightarrow> string) \<Rightarrow> 'a option \<Rightarrow> string list" where
  "opt_clause f x = (case x of None \<Rightarrow> [] | Some v \<Rightarrow> [f v])"

definition matcher_render :: "(string \<Rightarrow> string) \<Rightarrow> skip_matcher \<Rightarrow> string \<Rightarrow> string list" where
  "matcher_render quote m key =
     opt_clause (\<lambda>s. key @ '' == '' @ quote s) (sm_Eq m)
     @ opt_clause (\<lambda>s. key @ '' != '' @ quote s) (sm_Ne m)
     @ opt_clause (\<lambda>ss. key @ '' in ['' @ join_with '', '' (map quote ss) @ '']'') (sm_In m)
     @ opt_clause (\<lambda>b. if b then key @ '' exists'' else key @ '' is absent'') (sm_Exists m)
     @ opt_clause (\<lambda>s. key @ '' starts with '' @ quote s) (sm_Prefix m)
     @ opt_clause (\<lambda>s. key @ '' matches '' @ quote s) (sm_Regex m)"

definition condition_render :: "(string \<Rightarrow> string) \<Rightarrow> skip_condition \<Rightarrow> string" where
  "condition_render quote c = join_with '' and '' (concat (map (\<lambda>(k, m).
     let display = (case header_key k of None \<Rightarrow> k | Some name \<Rightarrow> ''header '' @ name)
     in (case m of None \<Rightarrow> [] | Some mm \<Rightarrow> matcher_render quote mm display)) (sorted_list_of_fmap c)))"

fun skip_loop :: "(skip_condition \<Rightarrow> bool) \<Rightarrow> nat \<Rightarrow> skip_conditions \<Rightarrow> (nat \<times> skip_condition) option" where
  "skip_loop P i [] = None"
| "skip_loop P i (c # cs) = (if P c then Some (i, c) else skip_loop P (Suc i) cs)"

definition EvaluateSkip :: "(string \<Rightarrow> string \<Rightarrow> bool option) \<Rightarrow> (string \<Rightarrow> string) \<Rightarrow> skip_conditions \<Rightarrow> json \<Rightarrow> header \<Rightarrow> string \<times> bool" where
  "EvaluateSkip re quote cs root hdr =
     (case skip_loop (condition_matches re root hdr) 0 cs of
        None \<Rightarrow> ([], False)
      | Some (i, c) \<Rightarrow> (''skip_if['' @ append_int (int i) @ '']: '' @ condition_render quote c, True))"

subsection \<open>What a condition means\<close>

text \<open>The value a key denotes in a delivery: nothing, a structure, or a leaf with its text.\<close>

datatype skip_value = Absent | Structure | Leaf string

definition key_value :: "json \<Rightarrow> header \<Rightarrow> string \<Rightarrow> skip_value" where
  "key_value root hdr key = (case header_key key of
     Some name \<Rightarrow> (case header_Values hdr name of [] \<Rightarrow> Absent | v # vs \<Rightarrow> Leaf v)
   | None \<Rightarrow> (case resolvePath root key of None \<Rightarrow> Absent
       | Some node \<Rightarrow> (case leafString node of None \<Rightarrow> Structure | Some l \<Rightarrow> Leaf l)))"

text \<open>Every operator that is set accepts the value; value operators accept leaves only.\<close>

definition accepts :: "(string \<Rightarrow> string \<Rightarrow> bool option) \<Rightarrow> skip_matcher \<Rightarrow> skip_value \<Rightarrow> bool" where
  "accepts re m v \<longleftrightarrow>
     (\<forall>b. sm_Exists m = Some b \<longrightarrow> (b \<longleftrightarrow> v \<noteq> Absent))
     \<and> (\<forall>s. sm_Eq m = Some s \<longrightarrow> v = Leaf s)
     \<and> (\<forall>s. sm_Ne m = Some s \<longrightarrow> (\<exists>l. v = Leaf l \<and> l \<noteq> s))
     \<and> (\<forall>ss. sm_In m = Some ss \<longrightarrow> (\<exists>l \<in> set ss. v = Leaf l))
     \<and> (\<forall>p. sm_Prefix m = Some p \<longrightarrow> (\<exists>r. v = Leaf (p @ r)))
     \<and> (\<forall>p. sm_Regex m = Some p \<longrightarrow> (\<exists>l. v = Leaf l \<and> re p l = Some True))"

lemma matcher_matches_accepts:
  "matcher_matches re m l True True \<longleftrightarrow> accepts re m (Leaf l)"
  "matcher_matches re m [] False True \<longleftrightarrow> accepts re m Structure"
  "matcher_matches re m [] False False \<longleftrightarrow> accepts re m Absent"
  by (auto simp: matcher_matches_def accepts_def has_prefix_append split: option.splits)

lemma key_matches_accepts: "key_matches re root hdr (k, mo) \<longleftrightarrow> (\<exists>m. mo = Some m \<and> accepts re m (key_value root hdr k))"
  by (auto simp: key_matches_def key_value_def matcher_matches_accepts split: option.split list.split)

definition holds_for :: "(string \<Rightarrow> string \<Rightarrow> bool option) \<Rightarrow> json \<Rightarrow> header \<Rightarrow> skip_condition \<Rightarrow> bool" where
  "holds_for re root hdr c \<longleftrightarrow> (\<forall>k mo. fmlookup c k = Some mo \<longrightarrow> (\<exists>m. mo = Some m \<and> accepts re m (key_value root hdr k)))"

lemma condition_matches_holds: "condition_matches re root hdr c \<longleftrightarrow> holds_for re root hdr c"
  unfolding condition_matches_def list_all_iff holds_for_def
  by (auto simp: key_matches_accepts [symmetric] simp flip: set_sorted_list_of_fmap)

lemma skip_loop_first:
  "n < length cs \<Longrightarrow> P (cs ! n) \<Longrightarrow> \<not> list_ex P (take n cs) \<Longrightarrow> skip_loop P i cs = Some (i + n, cs ! n)"
  by (induction cs arbitrary: i n) (auto simp: nth_Cons take_Cons split: nat.splits)

lemma skip_loop_none: "skip_loop P i cs = None \<longleftrightarrow> \<not> list_ex P cs"
  by (induction cs arbitrary: i) auto

text \<open>A hook's \<open>skip_if\<close> means what it says: a delivery is skipped exactly when some condition of the
  list holds, a condition holds exactly when every one of its keys is accepted by its matcher, and the
  reason names the first condition that holds.\<close>

theorem EvaluateSkip_spec:
  "(snd (EvaluateSkip re quote cs root hdr) \<longleftrightarrow> list_ex (holds_for re root hdr) cs) \<and>
   (\<forall>i c. i < length cs \<and> holds_for re root hdr (cs ! i) \<and> \<not> list_ex (holds_for re root hdr) (take i cs) \<and> c = cs ! i \<longrightarrow>
      fst (EvaluateSkip re quote cs root hdr) = ''skip_if['' @ append_int (int i) @ '']: '' @ condition_render quote c)"
proof -
  let ?P = "holds_for re root hdr"
  have P: "condition_matches re root hdr = ?P" by (rule ext) (rule condition_matches_holds)
  have first: "skip_loop ?P 0 cs = Some (i, cs ! i)"
    if "i < length cs" "?P (cs ! i)" "\<not> list_ex ?P (take i cs)" for i
    using skip_loop_first [OF that, of 0] by simp
  have "snd (EvaluateSkip re quote cs root hdr) \<longleftrightarrow> skip_loop ?P 0 cs \<noteq> None"
    by (simp add: EvaluateSkip_def P split: option.split)
  moreover have "fst (EvaluateSkip re quote cs root hdr) = ''skip_if['' @ append_int (int i) @ '']: '' @ condition_render quote (cs ! i)"
    if "i < length cs" "?P (cs ! i)" "\<not> list_ex ?P (take i cs)" for i
    by (simp add: EvaluateSkip_def P first [OF that])
  ultimately show ?thesis by (simp add: skip_loop_none)
qed

theorem EvaluateSkip_spec_witness:
  "let c = fmupd ''action'' (Some (no_matcher\<lparr>sm_Eq := Some ''opened''\<rparr>)) fmempty;
       root = JObj (fmupd ''action'' (JStr ''opened'') fmempty)
   in snd (EvaluateSkip (\<lambda>_ _. None) (\<lambda>s. s) [c] root fmempty)"
proof -
  let ?c = "fmupd ''action'' (Some (no_matcher\<lparr>sm_Eq := Some ''opened''\<rparr>)) fmempty"
  let ?root = "JObj (fmupd ''action'' (JStr ''opened'') fmempty)"
  have "holds_for (\<lambda>_ _. None) ?root fmempty ?c"
    by (auto simp: holds_for_def accepts_def key_value_def no_matcher_def header_key_def HeaderKeyPrefix_def
        has_prefix_def resolvePath_def leafString_def)
  then show ?thesis
    using EvaluateSkip_spec [of "\<lambda>_ _. None" "\<lambda>s. s" "[?c]" ?root fmempty] by (simp add: Let_def)
qed

text \<open>A payload that does not decode never causes a skip through the payload: a condition with a
  payload key whose matcher asks for anything but absence does not hold for it.\<close>

theorem undecodable_payload_does_work:
  assumes "\<forall>c \<in> set cs. \<exists>k m. fmlookup c k = Some (Some m) \<and> header_key k = None \<and> m \<noteq> no_matcher \<and> sm_Exists m \<noteq> Some False"
  shows "EvaluateSkip re quote cs JNull hdr = ([], False)"
proof -
  have "resolvePath JNull k = None" for k
    by (cases "split_on (CHR ''.'') k") (auto simp: resolvePath_def dest: arg_cong [where f = "\<lambda>x. x = []"])
  then have absent: "key_value JNull hdr k = Absent" if "header_key k = None" for k using that by (simp add: key_value_def)
  have "m \<noteq> no_matcher \<Longrightarrow> sm_Exists m \<noteq> Some False \<Longrightarrow> \<not> accepts re m Absent" for m
    by (cases m) (auto simp: accepts_def no_matcher_def)
  then have "\<not> condition_matches re JNull hdr c" if "c \<in> set cs" for c
    using assms that absent unfolding condition_matches_holds holds_for_def by fastforce
  then have "skip_loop (condition_matches re JNull hdr) i cs = None" for i
    by (induction cs arbitrary: i) auto
  then show ?thesis by (simp add: EvaluateSkip_def)
qed

theorem undecodable_payload_does_work_witness:
  "EvaluateSkip (\<lambda>_ _. None) (\<lambda>s. s) [fmupd ''a'' (Some (no_matcher\<lparr>sm_Ne := Some ''x''\<rparr>)) fmempty] JNull fmempty = ([], False)"
proof (rule undecodable_payload_does_work)
  have "fmlookup (fmupd ''a'' (Some (no_matcher\<lparr>sm_Ne := Some ''x''\<rparr>)) fmempty) ''a'' = Some (Some (no_matcher\<lparr>sm_Ne := Some ''x''\<rparr>))"
    "header_key ''a'' = None" "no_matcher\<lparr>sm_Ne := Some ''x''\<rparr> \<noteq> no_matcher" "sm_Exists (no_matcher\<lparr>sm_Ne := Some ''x''\<rparr>) \<noteq> Some False"
    by (simp_all add: header_key_def HeaderKeyPrefix_def has_prefix_def no_matcher_def)
  then show "\<forall>c \<in> set [fmupd ''a'' (Some (no_matcher\<lparr>sm_Ne := Some ''x''\<rparr>)) fmempty].
      \<exists>k m. fmlookup c k = Some (Some m) \<and> header_key k = None \<and> m \<noteq> no_matcher \<and> sm_Exists m \<noteq> Some False"
    by (simp only: list.set ball_simps) blast
qed

subsection \<open>Round trip of a matcher\<close>

lemma fmlookup_put_op: "fmlookup (put_op k enc x obj) k' = (if k' = k \<and> x \<noteq> None then map_option enc x else fmlookup obj k')"
  by (simp add: put_op_def split: option.split)

lemma fmdom_put_op: "fset (fmdom (put_op k enc x obj)) \<subseteq> insert k (fset (fmdom obj))"
  by (auto simp: put_op_def split: option.splits)

lemma unmarshal_strings_map: "unmarshal_strings (map JStr ss) = Some ss"
  by (induction ss) simp_all

lemma operand_enc: "(\<And>v. dec (enc v) = Inr (Some v)) \<Longrightarrow> fmlookup raw k = map_option enc x \<Longrightarrow> operand dec raw k cont = cont x"
  by (cases x) (simp_all add: operand_def)

text \<open>A matcher survives being written to JSON and read back, in the shorthand and in the object form.\<close>

theorem skip_matcher_roundtrip: "skip_UnmarshalJSON (skip_MarshalJSON m) = Inr m"
proof (cases "sm_Eq m \<noteq> None \<and> sm_Ne m = None \<and> sm_In m = None \<and> sm_Exists m = None \<and> sm_Prefix m = None \<and> sm_Regex m = None")
  case True
  then show ?thesis by (cases m) (auto simp: skip_MarshalJSON_def skip_UnmarshalJSON_def no_matcher_def)
next
  case False
  define raw where "raw = put_op ''regex'' JStr (sm_Regex m) (put_op ''prefix'' JStr (sm_Prefix m)
             (put_op ''exists'' JBool (sm_Exists m) (put_op ''in'' (\<lambda>vs. JArr (map JStr vs)) (sm_In m)
             (put_op ''ne'' JStr (sm_Ne m) (put_op ''eq'' JStr (sm_Eq m) fmempty)))))"
  have "fset (fmdom raw) \<subseteq> set skip_ops"
    unfolding raw_def skip_ops_def by (rule order_trans [OF fmdom_put_op] | simp | rule insert_mono)+
  then have ops: "list_all (\<lambda>k. k \<in> set skip_ops) (sorted_list_of_fset (fmdom raw))"
    by (auto simp: list_all_iff)
  have lookups: "fmlookup raw ''eq'' = map_option JStr (sm_Eq m)" "fmlookup raw ''ne'' = map_option JStr (sm_Ne m)"
    "fmlookup raw ''in'' = map_option (\<lambda>vs. JArr (map JStr vs)) (sm_In m)" "fmlookup raw ''exists'' = map_option JBool (sm_Exists m)"
    "fmlookup raw ''prefix'' = map_option JStr (sm_Prefix m)" "fmlookup raw ''regex'' = map_option JStr (sm_Regex m)"
    by (simp_all add: raw_def fmlookup_put_op)
  have str: "\<And>v. unmarshalOp_string (JStr v) = Inr (Some v)" and bol: "\<And>v. unmarshalOp_bool (JBool v) = Inr (Some v)"
    and ins: "\<And>vs. unmarshal_in (JArr (map JStr vs)) = Inr (Some vs)"
    by (simp_all add: unmarshalOp_string_def unmarshalOp_bool_def unmarshal_in_def unmarshal_strings_map)
  have "skip_MarshalJSON m = JObj raw" using False by (simp add: skip_MarshalJSON_def raw_def)
  then show ?thesis using ops
    by (simp add: skip_UnmarshalJSON_def operand_enc [OF str lookups(1)] operand_enc [OF str lookups(2)] operand_enc [OF ins lookups(3)]
        operand_enc [OF bol lookups(4)] operand_enc [OF str lookups(5)] operand_enc [OF str lookups(6)])
qed

end
