(* ===== verification/Title.thy ===== *)
theory Title
  imports Skip
begin

text \<open>
  Model of \<^verbatim>\<open>internal/hooks/title.go\<close>: the \<open>run_title\<close> template of a hook, parsed at load time and
  rendered for each delivery.  Whether a literal is made of separators only needs Unicode's letter and
  digit tables, so \<open>separatorOnly\<close> is an argument (\<open>sep\<close>).  The lemmas show that parsing recovers
  what a template was printed from, and that whatever a payload contains, a title is one short line.
\<close>

definition MaxRunTitleLen :: nat where "MaxRunTitleLen = 200"
definition ScheduleFallbackTitle :: string where "ScheduleFallbackTitle = ''schedule''"

record title_seg =
  ts_text :: string
  ts_path :: bool

record title_template =
  tt_segs :: "title_seg list"
  tt_placeholders :: nat

datatype title_error = TitleBlank | TitleUnterminated | TitleEmptyPlaceholder | TitleNested | TitleBadKey skip_error

text \<open>\<open>strings.Index\<close>.\<close>

fun str_index :: "string \<Rightarrow> string \<Rightarrow> nat option" where
  "str_index pat s = (if has_prefix s pat then Some 0
     else (case s of [] \<Rightarrow> None | c # cs \<Rightarrow> map_option Suc (str_index pat cs)))"

declare str_index.simps [simp del]

lemma str_index_Nil: "str_index pat [] = (if pat = [] then Some 0 else None)"
  by (subst str_index.simps) (simp add: has_prefix_def)

lemma str_index_Cons: "str_index pat (c # cs) = (if has_prefix (c # cs) pat then Some 0 else map_option Suc (str_index pat cs))"
  by (subst str_index.simps) simp

lemma has_prefix_length: "has_prefix s p \<Longrightarrow> length p \<le> length s"
  by (auto simp: has_prefix_append)

lemma str_index_bound: "str_index pat s = Some i \<Longrightarrow> i + length pat \<le> length s"
proof (induction s arbitrary: i)
  case (Cons c cs)
  then show ?case
    using has_prefix_length [of "c # cs" pat] by (cases "has_prefix (c # cs) pat") (auto simp: str_index_Cons)
qed (auto simp: str_index_Nil split: if_splits)

abbreviation open_braces :: string where "open_braces \<equiv> [CHR 0x7B, CHR 0x7B]"
abbreviation close_braces :: string where "close_braces \<equiv> [CHR 0x7D, CHR 0x7D]"

function title_loop :: "string \<Rightarrow> title_seg list \<Rightarrow> nat \<Rightarrow> title_error + title_template" where
  "title_loop rest segs n = (case str_index open_braces rest of
     None \<Rightarrow> Inr \<lparr>tt_segs = (if rest \<noteq> [] then segs @ [\<lparr>ts_text = rest, ts_path = False\<rparr>] else segs), tt_placeholders = n\<rparr>
   | Some op \<Rightarrow>
       let segs' = (if op > 0 then segs @ [\<lparr>ts_text = take op rest, ts_path = False\<rparr>] else segs);
           rest' = drop (op + 2) rest
       in case str_index close_braces rest' of
            None \<Rightarrow> Inl TitleUnterminated
          | Some en \<Rightarrow>
              let key = trim_space (take en rest') in
              if key = [] then Inl TitleEmptyPlaceholder
              else if CHR 0x7B \<in> set key \<or> CHR 0x7D \<in> set key then Inl TitleNested
              else case validateSkipKey 0 key of Some e \<Rightarrow> Inl (TitleBadKey e)
              | None \<Rightarrow> title_loop (drop (en + 2) rest') (segs' @ [\<lparr>ts_text = key, ts_path = True\<rparr>]) (n + 1))"
  by pat_completeness auto
termination
proof (relation "measure (\<lambda>(rest, segs, n). length rest)")
  fix rest :: string and segs n op segs' rest' en key
  assume "str_index open_braces rest = Some op"
  then have "op + 2 \<le> length rest" using str_index_bound by fastforce
  moreover assume "rest' = drop (op + 2) rest"
  ultimately show "((drop (en + 2) rest', segs' @ [\<lparr>ts_text = key, ts_path = True\<rparr>], n + 1), rest, segs, n)
      \<in> measure (\<lambda>(rest, segs, n). length rest)"
    by simp
qed simp

declare title_loop.simps [simp del]

definition parseTitleTemplate :: "string \<Rightarrow> title_error + title_template" where
  "parseTitleTemplate raw = (if trim_space raw = [] then Inl TitleBlank else title_loop raw [] 0)"

text \<open>\<open>compileRunTitle\<close>: the parsed template a hook keeps; an empty \<open>run_title\<close> keeps none.\<close>

definition compileRunTitle :: "string \<Rightarrow> title_error + title_template option" where
  "compileRunTitle runTitle = (if runTitle = [] then Inr None
     else case parseTitleTemplate runTitle of Inl e \<Rightarrow> Inl e | Inr t \<Rightarrow> Inr (Some t))"

subsection \<open>Rendering\<close>

definition resolveTitleKey :: "string \<Rightarrow> json \<Rightarrow> header \<Rightarrow> string" where
  "resolveTitleKey key root hdr = (case header_key key of
     Some name \<Rightarrow> (case header_Values hdr name of [] \<Rightarrow> [] | v # vs \<Rightarrow> trim_space v)
   | None \<Rightarrow> (case resolvePath root key of None \<Rightarrow> []
       | Some node \<Rightarrow> if node = JNull then []
           else (case leafString node of None \<Rightarrow> [] | Some leaf \<Rightarrow> trim_space leaf)))"

definition resolve_seg :: "json \<Rightarrow> header \<Rightarrow> title_seg \<Rightarrow> string" where
  "resolve_seg root hdr seg = (if ts_path seg then resolveTitleKey (ts_text seg) root hdr else ts_text seg)"

definition emptyPlaceholderAt :: "title_seg list \<Rightarrow> string list \<Rightarrow> int \<Rightarrow> bool" where
  "emptyPlaceholderAt segs resolved i \<longleftrightarrow> 0 \<le> i \<and> i < int (length segs) \<and> ts_path (segs ! nat i) \<and> resolved ! nat i = []"

text \<open>\<open>strings.Fields\<close>: the maximal pieces without a space rune.\<close>

definition space_at :: "string \<Rightarrow> nat option" where
  "space_at s = map_option length (find (has_prefix s) space_runes)"

fun fields_loop :: "nat \<Rightarrow> string \<Rightarrow> string \<Rightarrow> string list" where
  "fields_loop skip cur [] = (if cur = [] then [] else [cur])"
| "fields_loop (Suc k) cur (c # cs) = fields_loop k cur cs"
| "fields_loop 0 cur (c # cs) = (case space_at (c # cs) of
     None \<Rightarrow> fields_loop 0 (cur @ [c]) cs
   | Some n \<Rightarrow> (if cur = [] then [] else [cur]) @ fields_loop (n - 1) [] cs)"

definition Fields :: "string \<Rightarrow> string list" where
  "Fields s = fields_loop 0 [] s"

definition rune_start :: "char \<Rightarrow> bool" where
  "rune_start c \<longleftrightarrow> \<not> (128 \<le> (of_char c :: nat) \<and> (of_char c :: nat) < 192)"

fun cut_loop :: "string \<Rightarrow> nat \<Rightarrow> nat" where
  "cut_loop s 0 = 0"
| "cut_loop s (Suc n) = (if \<not> rune_start (s ! Suc n) then cut_loop s n else Suc n)"

definition clampTitle :: "string \<Rightarrow> string" where
  "clampTitle s = (if length s \<le> MaxRunTitleLen then s else trim_space (take (cut_loop s MaxRunTitleLen) s))"

definition title_render :: "(string \<Rightarrow> bool) \<Rightarrow> title_template \<Rightarrow> json \<Rightarrow> header \<Rightarrow> string" where
  "title_render sep t root hdr =
     (let resolved = map (resolve_seg root hdr) (tt_segs t);
          anyValue = list_ex (\<lambda>(seg, v). ts_path seg \<and> v \<noteq> []) (zip (tt_segs t) resolved)
      in if tt_placeholders t > 0 \<and> \<not> anyValue then []
         else let b = concat (map (\<lambda>i.
                    if resolved ! i = [] then []
                    else if \<not> ts_path (tt_segs t ! i) \<and> sep (resolved ! i) \<and>
                      (emptyPlaceholderAt (tt_segs t) resolved (int i - 1) \<or> emptyPlaceholderAt (tt_segs t) resolved (int i + 1))
                    then [] else resolved ! i) [0 ..< length (tt_segs t)])
              in clampTitle (join_with '' '' (Fields b)))"

definition RenderRunTitle :: "(string \<Rightarrow> bool) \<Rightarrow> string \<Rightarrow> title_template option \<Rightarrow> json \<Rightarrow> header \<Rightarrow> string" where
  "RenderRunTitle sep runTitle tmpl root hdr =
     (if runTitle = [] then []
      else case tmpl of Some t \<Rightarrow> title_render sep t root hdr
           | None \<Rightarrow> (case parseTitleTemplate runTitle of Inl e \<Rightarrow> [] | Inr t \<Rightarrow> title_render sep t root hdr))"

definition ScheduleRunTitle :: "(string \<Rightarrow> bool) \<Rightarrow> string \<Rightarrow> title_template option \<Rightarrow> json \<Rightarrow> header \<Rightarrow> string" where
  "ScheduleRunTitle sep runTitle tmpl root hdr =
     (let t = RenderRunTitle sep runTitle tmpl root hdr in if t \<noteq> [] then t else ScheduleFallbackTitle)"

subsection \<open>A title is one short line\<close>

text \<open>A control whitespace byte never survives \<open>Fields\<close>.\<close>

definition line_char :: "char \<Rightarrow> bool" where
  "line_char c \<longleftrightarrow> c \<notin> {CHR 0x09, CHR 0x0A, CHR 0x0B, CHR 0x0C, CHR 0x0D}"

lemma space_at_control: "space_at (c # cs) = None \<Longrightarrow> line_char c \<and> c \<noteq> CHR 0x20"
  by (auto simp: space_at_def space_runes_def has_prefix_def line_char_def split: if_splits)

lemma fields_loop_chars:
  "w \<in> set (fields_loop k cur s) \<Longrightarrow> list_all (\<lambda>c. line_char c \<and> c \<noteq> CHR 0x20) cur \<Longrightarrow> list_all (\<lambda>c. line_char c \<and> c \<noteq> CHR 0x20) w \<and> w \<noteq> []"
proof (induction k cur s rule: fields_loop.induct)
  case (3 cur c cs)
  then show ?case using space_at_control [of c cs] by (auto split: option.splits if_splits)
qed (auto split: if_splits)

lemma Fields_chars: "w \<in> set (Fields s) \<Longrightarrow> list_all (\<lambda>c. line_char c \<and> c \<noteq> CHR 0x20) w \<and> w \<noteq> []"
  using fields_loop_chars [of w 0 "[]" s] by (simp add: Fields_def)

lemma trim_space_right_subset: "set (trim_space_right s) \<subseteq> set s \<and> length (trim_space_right s) \<le> length s"
proof (induction s rule: trim_space_right.induct)
  case (1 s)
  then show ?case by (subst (1 2) trim_space_right.simps) (auto split: option.split dest: in_set_takeD)
qed

lemma trim_space_left_subset: "set (trim_space_left s) \<subseteq> set s \<and> length (trim_space_left s) \<le> length s"
proof (induction s rule: trim_space_left.induct)
  case (1 s)
  then show ?case by (subst (1 2) trim_space_left.simps) (auto split: option.split dest: in_set_dropD)
qed

lemma trim_space_subset: "set (trim_space s) \<subseteq> set s" "length (trim_space s) \<le> length s"
  unfolding trim_space_def using trim_space_right_subset trim_space_left_subset
  by (meson order_trans)+

lemma cut_loop_le: "cut_loop s n \<le> n"
  by (induction n) auto

lemma clampTitle_bounds: "length (clampTitle s) \<le> MaxRunTitleLen" "set (clampTitle s) \<subseteq> set s"
proof -
  have "length (trim_space (take (cut_loop s MaxRunTitleLen) s)) \<le> MaxRunTitleLen"
    using trim_space_subset(2) [of "take (cut_loop s MaxRunTitleLen) s"] cut_loop_le [of s MaxRunTitleLen] by simp
  then show "length (clampTitle s) \<le> MaxRunTitleLen" by (simp add: clampTitle_def)
  show "set (clampTitle s) \<subseteq> set s"
    using trim_space_subset(1) [of "take (cut_loop s MaxRunTitleLen) s"] set_take_subset [of "cut_loop s MaxRunTitleLen" s]
    by (auto simp: clampTitle_def)
qed

lemma join_with_set: "set (join_with sep ps) \<subseteq> set sep \<union> \<Union> (set (map set ps))"
  by (auto simp: join_with_def split: list.split)

text \<open>Whatever the template, the payload and the headers contain, a rendered title has at most 200
  bytes and no tab, newline or other control whitespace; when the template has placeholders and none
  of them resolves to a value there is no title; and a scheduled run always has one.\<close>

theorem title_one_short_line:
  "let t = RenderRunTitle sep runTitle tmpl root hdr in
     length t \<le> 200 \<and> list_all line_char t
     \<and> (\<forall>tt. tmpl = Some tt \<and> tt_placeholders tt > 0 \<and> list_all (\<lambda>s. ts_path s \<longrightarrow> resolveTitleKey (ts_text s) root hdr = []) (tt_segs tt) \<longrightarrow> t = [])
     \<and> ScheduleRunTitle sep runTitle tmpl root hdr \<noteq> []"
proof -
  have r: "length (title_render sep t root hdr) \<le> 200 \<and> list_all line_char (title_render sep t root hdr)" for t
  proof -
    have "list_all line_char (clampTitle (join_with '' '' (Fields b)))" for b
      using clampTitle_bounds(2) [of "join_with '' '' (Fields b)"] join_with_set [of "'' ''" "Fields b"] Fields_chars [of _ b]
      by (fastforce simp: list_all_iff line_char_def)
    then show ?thesis using clampTitle_bounds(1) by (simp add: title_render_def Let_def MaxRunTitleLen_def)
  qed
  have e: "title_render sep tt root hdr = []"
    if "tt_placeholders tt > 0" "list_all (\<lambda>s. ts_path s \<longrightarrow> resolveTitleKey (ts_text s) root hdr = []) (tt_segs tt)" for tt
    using that by (fastforce simp: title_render_def Let_def list_ex_iff list_all_iff in_set_zip resolve_seg_def)
  have n: "ScheduleRunTitle sep runTitle tmpl root hdr \<noteq> []"
    by (simp add: ScheduleRunTitle_def Let_def ScheduleFallbackTitle_def)
  show ?thesis unfolding Let_def using r e n
    by (auto simp: RenderRunTitle_def split: option.split sum.split)
qed

theorem title_one_short_line_witness:
  "RenderRunTitle (\<lambda>_. False) ''x'' (Some \<lparr>tt_segs = [\<lparr>ts_text = ''a.b'', ts_path = True\<rparr>], tt_placeholders = 1\<rparr>) JNull fmempty = []"
proof -
  have "resolveTitleKey ''a.b'' JNull fmempty = []"
    by (simp add: resolveTitleKey_def header_key_def HeaderKeyPrefix_def has_prefix_def resolvePath_def)
  then show ?thesis
    using title_one_short_line [of "\<lambda>_. False" "''x''" "Some \<lparr>tt_segs = [\<lparr>ts_text = ''a.b'', ts_path = True\<rparr>], tt_placeholders = 1\<rparr>" JNull fmempty]
    by (simp add: Let_def)
qed

subsection \<open>Parsing recovers a printed template\<close>

fun print_segs :: "title_seg list \<Rightarrow> string" where
  "print_segs [] = []"
| "print_segs (s # ss) = (if ts_path s then open_braces @ ts_text s @ close_braces else ts_text s) @ print_segs ss"

definition literal_ok :: "string \<Rightarrow> bool" where
  "literal_ok s \<longleftrightarrow> s \<noteq> [] \<and> str_index open_braces (s @ [CHR 0x7B]) = None"

definition key_ok :: "string \<Rightarrow> bool" where
  "key_ok k \<longleftrightarrow> k \<noteq> [] \<and> trim_space k = k \<and> CHR 0x7B \<notin> set k \<and> CHR 0x7D \<notin> set k \<and> validateSkipKey 0 k = None"

text \<open>No two literals in a row, no brace pair in a literal, trimmed valid keys.\<close>

fun segs_ok :: "title_seg list \<Rightarrow> bool" where
  "segs_ok [] = True"
| "segs_ok (s # ss) = ((if ts_path s then key_ok (ts_text s)
     else literal_ok (ts_text s) \<and> (case ss of [] \<Rightarrow> True | s' # ss' \<Rightarrow> ts_path s')) \<and> segs_ok ss)"

lemma has_prefix_2: "has_prefix (x # y # zs) [a, b] \<longleftrightarrow> x = a \<and> y = b" "\<not> has_prefix [x] [a, b]" "\<not> has_prefix [] [a, b]"
  by (auto simp: has_prefix_def)

lemma str_index_literal:
  "str_index [a, a] (s @ [a]) = None \<Longrightarrow> str_index [a, a] (s @ a # a # r) = Some (length s) \<and> str_index [a, a] s = None"
proof (induction s)
  case Nil
  then show ?case by (simp add: str_index_Cons str_index_Nil has_prefix_2)
next
  case (Cons c s)
  then have "\<not> has_prefix (c # s @ [a]) [a, a]" and IH: "str_index [a, a] (s @ a # a # r) = Some (length s)" "str_index [a, a] s = None"
    by (auto simp: str_index_Cons split: if_splits)
  then have "\<not> has_prefix (c # s @ a # a # r) [a, a]" "\<not> has_prefix (c # s) [a, a]"
    by (cases s; auto simp: has_prefix_2)+
  then show ?case using IH by (simp add: str_index_Cons)
qed

lemma str_index_key: "a \<notin> set k \<Longrightarrow> str_index [a, a] (k @ a # a # r) = Some (length k)"
  by (induction k) (auto simp: str_index_Cons has_prefix_def)

lemma title_loop_key:
  assumes "key_ok k"
  shows "title_loop (open_braces @ k @ close_braces @ r) segs n = title_loop r (segs @ [\<lparr>ts_text = k, ts_path = True\<rparr>]) (n + 1)"
proof -
  have "str_index open_braces (open_braces @ k @ close_braces @ r) = Some 0"
    by (simp add: str_index_Cons has_prefix_2)
  moreover have "str_index close_braces (k @ close_braces @ r) = Some (length k)"
    using str_index_key [of "CHR 0x7D" k r] assms by (simp add: key_ok_def)
  ultimately show ?thesis
    using assms by (subst title_loop.simps) (simp add: key_ok_def Let_def)
qed

lemma title_loop_literal:
  assumes "literal_ok l"
  shows "title_loop l segs n = Inr \<lparr>tt_segs = segs @ [\<lparr>ts_text = l, ts_path = False\<rparr>], tt_placeholders = n\<rparr>"
    and "key_ok k \<Longrightarrow> title_loop (l @ open_braces @ k @ close_braces @ r) segs n =
      title_loop r (segs @ [\<lparr>ts_text = l, ts_path = False\<rparr>, \<lparr>ts_text = k, ts_path = True\<rparr>]) (n + 1)"
proof -
  note i = str_index_literal [of "CHR 0x7B" l]
  show "title_loop l segs n = Inr \<lparr>tt_segs = segs @ [\<lparr>ts_text = l, ts_path = False\<rparr>], tt_placeholders = n\<rparr>"
    using assms i by (subst title_loop.simps) (simp add: literal_ok_def)
  assume k: "key_ok k"
  have "str_index open_braces (l @ open_braces @ k @ close_braces @ r) = Some (length l)"
    using assms i [of "k @ close_braces @ r"] by (simp add: literal_ok_def)
  moreover have "str_index close_braces (k @ close_braces @ r) = Some (length k)"
    using str_index_key [of "CHR 0x7D" k r] k by (simp add: key_ok_def)
  ultimately show "title_loop (l @ open_braces @ k @ close_braces @ r) segs n =
      title_loop r (segs @ [\<lparr>ts_text = l, ts_path = False\<rparr>, \<lparr>ts_text = k, ts_path = True\<rparr>]) (n + 1)"
    using assms k by (subst title_loop.simps) (simp add: key_ok_def literal_ok_def Let_def)
qed

lemma seg_eq: "ts_path s \<Longrightarrow> \<lparr>ts_text = ts_text s, ts_path = True\<rparr> = s" "\<not> ts_path s \<Longrightarrow> \<lparr>ts_text = ts_text s, ts_path = False\<rparr> = s"
  for s :: title_seg
  by (cases s; simp)+

lemma title_loop_print:
  "segs_ok ss \<Longrightarrow> title_loop (print_segs ss) acc n = Inr \<lparr>tt_segs = acc @ ss, tt_placeholders = n + length (filter ts_path ss)\<rparr>"
proof (induction ss arbitrary: acc n rule: length_induct)
  case (1 ss)
  show ?case
  proof (cases ss)
    case Nil
    then show ?thesis by (subst title_loop.simps) (simp add: str_index_Nil)
  next
    case (Cons s ss1)
    show ?thesis
    proof (cases "ts_path s")
      case True
      then show ?thesis using 1 Cons title_loop_key [of "ts_text s" "print_segs ss1" acc n] by (simp add: seg_eq)
    next
      case False
      show ?thesis
      proof (cases ss1)
        case Nil
        then show ?thesis using "1.prems" False Cons title_loop_literal(1) [of "ts_text s" acc n] by (simp add: seg_eq)
      next
        case (Cons s' ss2)
        then have k: "ts_path s'" "key_ok (ts_text s')" "literal_ok (ts_text s)" "segs_ok ss2"
          using "1.prems" False \<open>ss = s # ss1\<close> by (auto split: if_splits)
        then show ?thesis using 1 False \<open>ss = s # ss1\<close> Cons title_loop_literal(2) [OF k(3,2), of "print_segs ss2" acc n]
          by (simp add: seg_eq)
      qed
    qed
  qed
qed

text \<open>Parsing a template recovers the segments it was written from, with its placeholders counted, for
  every sequence of literals and trimmed valid keys that is not blank.\<close>

theorem title_parse_print:
  assumes "segs_ok ss" "trim_space (print_segs ss) \<noteq> []"
  shows "parseTitleTemplate (print_segs ss) = Inr \<lparr>tt_segs = ss, tt_placeholders = length (filter ts_path ss)\<rparr>"
  using assms title_loop_print [OF assms(1), of "[]" 0] by (simp add: parseTitleTemplate_def)

theorem title_parse_print_witness:
  "parseTitleTemplate (''PR '' @ open_braces @ ''a.b'' @ close_braces) =
     Inr \<lparr>tt_segs = [\<lparr>ts_text = ''PR '', ts_path = False\<rparr>, \<lparr>ts_text = ''a.b'', ts_path = True\<rparr>], tt_placeholders = 1\<rparr>"
proof -
  let ?ss = "[\<lparr>ts_text = ''PR '', ts_path = False\<rparr>, \<lparr>ts_text = ''a.b'', ts_path = True\<rparr>]"
  have l: "trim_space_left (CHR ''P'' # s) = CHR ''P'' # s" "trim_space_left (CHR ''a'' # s) = CHR ''a'' # s" for s
    by (subst trim_space_left.simps, simp add: space_runes_def has_prefix_def)+
  have r: "trim_space_right (''PR '' @ open_braces @ ''a.b'' @ close_braces) = ''PR '' @ open_braces @ ''a.b'' @ close_braces"
      "trim_space_right ''a.b'' = ''a.b''"
    by (subst trim_space_right.simps, simp add: space_runes_def has_suffix_def)+
  have "literal_ok ''PR ''" by (simp add: literal_ok_def str_index_Cons str_index_Nil has_prefix_def)
  moreover have "key_ok ''a.b''"
    using r(2) by (simp add: key_ok_def trim_space_def l validateSkipKey_def header_key_def HeaderKeyPrefix_def has_prefix_def)
  ultimately show ?thesis using title_parse_print [of ?ss] r(1) by (simp add: trim_space_def l)
qed

end
