(* ===== verification/Overrides.thy ===== *)
theory Overrides
  imports Prelude
begin

text \<open>
  Model of \<^verbatim>\<open>internal/overrides/overrides.go\<close> and \<^verbatim>\<open>settings.go\<close>: the operator's switches (kill
  switches, concurrency limits, the global cap, pinned settings), mirrored to one JSON file.

  The file is modelled by its decoded content.  A pinned value is raw JSON text, which
  \<open>json.MarshalIndent\<close> writes re-indented: \<open>norm\<close> is that rewriting, an argument of the model.
  Every setter is told whether its file write succeeds.
\<close>

type_synonym pointer_map = "(string, string) fmap"

record ov_file =
  of_DisabledHooks :: "string list"
  of_HookEnable :: "(string, bool) fmap"
  of_ConcurrencyLimits :: "(string, int) fmap"
  of_GlobalRunLimit :: "int option"
  of_SettingsOverrides :: "(string, pointer_map) fmap"

record ov_store =
  ov_hookEnable :: "(string, bool) fmap"
  ov_limits :: "(string, int) fmap"
  ov_globalLimit :: int
  ov_globalSet :: bool
  ov_settings :: "(string, pointer_map) fmap"
  ov_disk :: "ov_file option"

datatype ov_error = OvPathRequired | OvRead | OvParse | OvLimit | OvIdRequired | OvPointer | OvBadJSON | OvPersist

text \<open>What reading the file gives: it is missing, unreadable, does not parse, or holds a value.\<close>

datatype ov_read = OvMissing | OvUnreadable | OvGarbled | OvContent ov_file

definition ov_empty :: ov_store where
  "ov_empty = \<lparr>ov_hookEnable = fmempty, ov_limits = fmempty, ov_globalLimit = 0, ov_globalSet = False,
     ov_settings = fmempty, ov_disk = None\<rparr>"

definition nonempty_settings :: "(string, pointer_map) fmap \<Rightarrow> (string, pointer_map) fmap" where
  "nonempty_settings m = fmfilter (\<lambda>k. fmlookup m k \<noteq> Some fmempty) m"

definition ov_load :: "ov_file \<Rightarrow> ov_store" where
  "ov_load f = \<lparr>ov_hookEnable = fmadd (fold (\<lambda>k m. fmupd k False m) (of_DisabledHooks f) fmempty) (of_HookEnable f),
     ov_limits = of_ConcurrencyLimits f,
     ov_globalLimit = (case of_GlobalRunLimit f of None \<Rightarrow> 0 | Some n \<Rightarrow> n),
     ov_globalSet = (of_GlobalRunLimit f \<noteq> None),
     ov_settings = nonempty_settings (of_SettingsOverrides f), ov_disk = Some f\<rparr>"

definition ov_Open :: "string \<Rightarrow> ov_read \<Rightarrow> ov_error + ov_store" where
  "ov_Open path rd = (if path = [] then Inl OvPathRequired
     else case rd of OvMissing \<Rightarrow> Inr ov_empty | OvUnreadable \<Rightarrow> Inl OvRead | OvGarbled \<Rightarrow> Inl OvParse
     | OvContent f \<Rightarrow> Inr (ov_load f))"

text \<open>Reading methods; a nil store has no overrides.\<close>

definition HookOverride :: "ov_store option \<Rightarrow> string \<Rightarrow> bool option" where
  "HookOverride so hid = (case so of None \<Rightarrow> None | Some s \<Rightarrow> fmlookup (ov_hookEnable s) hid)"

definition HookDisabled :: "ov_store option \<Rightarrow> string \<Rightarrow> bool \<Rightarrow> bool" where
  "HookDisabled so hid defaultEnabled = (case HookOverride so hid of Some enabled \<Rightarrow> \<not> enabled | None \<Rightarrow> \<not> defaultEnabled)"

definition disabledLocked :: "ov_store \<Rightarrow> string list" where
  "disabledLocked s = map fst (filter (\<lambda>(k, en). \<not> en) (sorted_list_of_fmap (ov_hookEnable s)))"

definition ov_ConcurrencyLimit :: "ov_store option \<Rightarrow> string \<Rightarrow> int option" where
  "ov_ConcurrencyLimit so g = (case so of None \<Rightarrow> None | Some s \<Rightarrow> fmlookup (ov_limits s) g)"

definition ov_GlobalRunLimit :: "ov_store option \<Rightarrow> int option" where
  "ov_GlobalRunLimit so = (case so of None \<Rightarrow> None | Some s \<Rightarrow> if ov_globalSet s then Some (ov_globalLimit s) else None)"

definition SettingsOverrides :: "ov_store option \<Rightarrow> string \<Rightarrow> pointer_map option" where
  "SettingsOverrides so eid = (case so of None \<Rightarrow> None
     | Some s \<Rightarrow> (case fmlookup (ov_settings s) eid of None \<Rightarrow> None | Some m \<Rightarrow> if m = fmempty then None else Some m))"

definition AllSettingsOverrides :: "ov_store \<Rightarrow> (string, pointer_map) fmap" where
  "AllSettingsOverrides s = nonempty_settings (ov_settings s)"

subsection \<open>Writing\<close>

definition ov_content :: "(string \<Rightarrow> string) \<Rightarrow> ov_store \<Rightarrow> ov_file" where
  "ov_content norm s = \<lparr>of_DisabledHooks = disabledLocked s, of_HookEnable = ov_hookEnable s,
     of_ConcurrencyLimits = ov_limits s,
     of_GlobalRunLimit = (if ov_globalSet s then Some (ov_globalLimit s) else None),
     of_SettingsOverrides = fmmap (fmmap norm) (ov_settings s)\<rparr>"

definition ov_persist :: "(string \<Rightarrow> string) \<Rightarrow> bool \<Rightarrow> ov_store \<Rightarrow> bool \<times> ov_store" where
  "ov_persist norm ok s = (if ok then (True, s\<lparr>ov_disk := Some (ov_content norm s)\<rparr>) else (False, s))"

type_synonym ov_result = "(ov_error + bool) \<times> ov_store"

definition SetHookDisabled :: "(string \<Rightarrow> string) \<Rightarrow> bool \<Rightarrow> string \<Rightarrow> bool \<Rightarrow> ov_store \<Rightarrow> ov_result" where
  "SetHookDisabled norm ok hid disabled s =
     (let enable = \<not> disabled; prev = fmlookup (ov_hookEnable s) hid in
      if prev = Some enable then (Inr False, s)
      else case ov_persist norm ok (s\<lparr>ov_hookEnable := fmupd hid enable (ov_hookEnable s)\<rparr>) of
        (True, s1) \<Rightarrow> (Inr True, s1)
      | (False, s1) \<Rightarrow> (Inl OvPersist, s1\<lparr>ov_hookEnable :=
          (case prev of Some p \<Rightarrow> fmupd hid p (ov_hookEnable s1) | None \<Rightarrow> fmdrop hid (ov_hookEnable s1))\<rparr>))"

definition SetConcurrencyLimit :: "(string \<Rightarrow> string) \<Rightarrow> bool \<Rightarrow> string \<Rightarrow> int \<Rightarrow> ov_store \<Rightarrow> ov_result" where
  "SetConcurrencyLimit norm ok g limit s =
     (if limit < 1 then (Inl OvLimit, s)
      else let prev = fmlookup (ov_limits s) g in
        if prev = Some limit then (Inr False, s)
        else case ov_persist norm ok (s\<lparr>ov_limits := fmupd g limit (ov_limits s)\<rparr>) of
          (True, s1) \<Rightarrow> (Inr True, s1)
        | (False, s1) \<Rightarrow> (Inl OvPersist, s1\<lparr>ov_limits :=
            (case prev of Some p \<Rightarrow> fmupd g p (ov_limits s1) | None \<Rightarrow> fmdrop g (ov_limits s1))\<rparr>))"

definition ClearConcurrencyLimit :: "(string \<Rightarrow> string) \<Rightarrow> bool \<Rightarrow> string \<Rightarrow> ov_store \<Rightarrow> ov_result" where
  "ClearConcurrencyLimit norm ok g s =
     (case fmlookup (ov_limits s) g of None \<Rightarrow> (Inr False, s)
      | Some prev \<Rightarrow> (case ov_persist norm ok (s\<lparr>ov_limits := fmdrop g (ov_limits s)\<rparr>) of
          (True, s1) \<Rightarrow> (Inr True, s1)
        | (False, s1) \<Rightarrow> (Inl OvPersist, s1\<lparr>ov_limits := fmupd g prev (ov_limits s1)\<rparr>)))"

definition SetGlobalRunLimit :: "(string \<Rightarrow> string) \<Rightarrow> bool \<Rightarrow> int \<Rightarrow> ov_store \<Rightarrow> ov_result" where
  "SetGlobalRunLimit norm ok limit s =
     (if limit < 1 then (Inl OvLimit, s)
      else let prev = ov_globalLimit s; had = ov_globalSet s in
        if had \<and> prev = limit then (Inr False, s)
        else case ov_persist norm ok (s\<lparr>ov_globalLimit := limit, ov_globalSet := True\<rparr>) of
          (True, s1) \<Rightarrow> (Inr True, s1)
        | (False, s1) \<Rightarrow> (Inl OvPersist, s1\<lparr>ov_globalLimit := prev, ov_globalSet := had\<rparr>))"

definition ClearGlobalRunLimit :: "(string \<Rightarrow> string) \<Rightarrow> bool \<Rightarrow> ov_store \<Rightarrow> ov_result" where
  "ClearGlobalRunLimit norm ok s =
     (if \<not> ov_globalSet s then (Inr False, s)
      else let prev = ov_globalLimit s in
        case ov_persist norm ok (s\<lparr>ov_globalLimit := 0, ov_globalSet := False\<rparr>) of
          (True, s1) \<Rightarrow> (Inr True, s1)
        | (False, s1) \<Rightarrow> (Inl OvPersist, s1\<lparr>ov_globalLimit := prev, ov_globalSet := True\<rparr>))"

definition validPointer :: "string \<Rightarrow> bool" where
  "validPointer p \<longleftrightarrow> p \<noteq> [] \<and> has_prefix p ''/''"

text \<open>\<open>json.Valid\<close> is an argument.\<close>

definition SetSettingOverride :: "(string \<Rightarrow> string) \<Rightarrow> (string \<Rightarrow> bool) \<Rightarrow> bool \<Rightarrow> string \<Rightarrow> string \<Rightarrow> string \<Rightarrow> ov_store \<Rightarrow> ov_result" where
  "SetSettingOverride norm valid ok eid ptr v s =
     (if eid = [] then (Inl OvIdRequired, s)
      else if \<not> validPointer ptr then (Inl OvPointer, s)
      else if \<not> valid v then (Inl OvBadJSON, s)
      else let prev = fmlookup (ov_settings s) eid in
        if (case prev of None \<Rightarrow> False | Some m \<Rightarrow> fmlookup m ptr = Some v) then (Inr False, s)
        else let m = (case prev of None \<Rightarrow> fmempty | Some m \<Rightarrow> m) in
          case ov_persist norm ok (s\<lparr>ov_settings := fmupd eid (fmupd ptr v m) (ov_settings s)\<rparr>) of
            (True, s1) \<Rightarrow> (Inr True, s1)
          | (False, s1) \<Rightarrow> (Inl OvPersist, s1\<lparr>ov_settings :=
              (case prev of Some restore \<Rightarrow> fmupd eid restore (ov_settings s1) | None \<Rightarrow> fmdrop eid (ov_settings s1))\<rparr>))"

definition ClearSettingOverride :: "(string \<Rightarrow> string) \<Rightarrow> bool \<Rightarrow> string \<Rightarrow> string \<Rightarrow> ov_store \<Rightarrow> ov_result" where
  "ClearSettingOverride norm ok eid ptr s =
     (case fmlookup (ov_settings s) eid of None \<Rightarrow> (Inr False, s)
      | Some m \<Rightarrow> (case fmlookup m ptr of None \<Rightarrow> (Inr False, s)
        | Some prev \<Rightarrow>
            let m' = fmdrop ptr m;
                s0 = s\<lparr>ov_settings := (if m' = fmempty then fmdrop eid (ov_settings s) else fmupd eid m' (ov_settings s))\<rparr>
            in case ov_persist norm ok s0 of
                 (True, s1) \<Rightarrow> (Inr True, s1)
               | (False, s1) \<Rightarrow> (Inl OvPersist, s1\<lparr>ov_settings := fmupd eid (fmupd ptr prev m) (ov_settings s1)\<rparr>)))"

definition ClearSettingOverrides :: "(string \<Rightarrow> string) \<Rightarrow> bool \<Rightarrow> string \<Rightarrow> ov_store \<Rightarrow> ov_result" where
  "ClearSettingOverrides norm ok eid s =
     (case fmlookup (ov_settings s) eid of None \<Rightarrow> (Inr False, s)
      | Some m \<Rightarrow> if m = fmempty then (Inr False, s)
          else (case ov_persist norm ok (s\<lparr>ov_settings := fmdrop eid (ov_settings s)\<rparr>) of
                  (True, s1) \<Rightarrow> (Inr True, s1)
                | (False, s1) \<Rightarrow> (Inl OvPersist, s1\<lparr>ov_settings := fmupd eid m (ov_settings s1)\<rparr>)))"

subsection \<open>Memory and disk\<close>

datatype ov_op = OHook string bool | OLimit string int | OClearLimit string | OGlobal int | OClearGlobal
  | OSetting string string string | OClearSetting string string | OClearSettings string

definition ov_do :: "(string \<Rightarrow> string) \<Rightarrow> (string \<Rightarrow> bool) \<Rightarrow> ov_op \<Rightarrow> bool \<Rightarrow> ov_store \<Rightarrow> ov_result" where
  "ov_do norm valid op ok s = (case op of
     OHook h d \<Rightarrow> SetHookDisabled norm ok h d s
   | OLimit g n \<Rightarrow> SetConcurrencyLimit norm ok g n s
   | OClearLimit g \<Rightarrow> ClearConcurrencyLimit norm ok g s
   | OGlobal n \<Rightarrow> SetGlobalRunLimit norm ok n s
   | OClearGlobal \<Rightarrow> ClearGlobalRunLimit norm ok s
   | OSetting e p v \<Rightarrow> SetSettingOverride norm valid ok e p v s
   | OClearSetting e p \<Rightarrow> ClearSettingOverride norm ok e p s
   | OClearSettings e \<Rightarrow> ClearSettingOverrides norm ok e s)"

definition ov_exec :: "(string \<Rightarrow> string) \<Rightarrow> (string \<Rightarrow> bool) \<Rightarrow> ov_op \<Rightarrow> bool \<Rightarrow> ov_store \<Rightarrow> ov_store" where
  "ov_exec norm valid op ok s = snd (ov_do norm valid op ok s)"

lemmas ov_op_defs = SetHookDisabled_def SetConcurrencyLimit_def ClearConcurrencyLimit_def SetGlobalRunLimit_def
  ClearGlobalRunLimit_def SetSettingOverride_def ClearSettingOverride_def ClearSettingOverrides_def

text \<open>The file a successful write would leave.  A store that has never written holds nothing.\<close>

definition ov_saved :: "(string \<Rightarrow> string) \<Rightarrow> ov_store \<Rightarrow> ov_file" where
  "ov_saved norm s = (case ov_disk s of None \<Rightarrow> ov_content norm ov_empty | Some f \<Rightarrow> f)"

lemma ov_content_disk [simp]: "ov_content norm (s\<lparr>ov_disk := d\<rparr>) = ov_content norm s"
  by (simp add: ov_content_def disabledLocked_def)

lemma ov_store_restore [simp]:
  "s\<lparr>ov_hookEnable := ov_hookEnable s\<rparr> = s" "s\<lparr>ov_limits := ov_limits s\<rparr> = s" "s\<lparr>ov_settings := ov_settings s\<rparr> = s"
  "s\<lparr>ov_globalLimit := ov_globalLimit s, ov_globalSet := ov_globalSet s\<rparr> = s"
  by simp_all

lemma ov_failed: "ov_exec norm valid op False s = s"
  by (cases op)
    (auto simp: ov_exec_def ov_do_def ov_op_defs ov_persist_def Let_def fmupd_triv fmupd_restore fmupd_fmdrop_restore
      split: option.split if_splits)

lemma ov_done: "ov_exec norm valid op True s = s \<or> ov_disk (ov_exec norm valid op True s) = Some (ov_content norm (ov_exec norm valid op True s))"
  by (cases op)
    (auto simp: ov_exec_def ov_do_def ov_op_defs ov_persist_def Let_def split: option.split)

lemma ov_exec_sync: "ov_content norm s = ov_saved norm s \<Longrightarrow>
  ov_content norm (ov_exec norm valid op ok s) = ov_saved norm (ov_exec norm valid op ok s)"
  using ov_done [of norm valid op s] ov_failed [of norm valid op s] by (cases ok) (auto simp: ov_saved_def)

interpretation ovd: durable_store "ov_exec norm valid" "ov_content norm" "ov_saved norm"
  by unfold_locales (auto simp: ov_failed intro: ov_exec_sync)

definition ov_inv :: "ov_store \<Rightarrow> bool" where
  "ov_inv s \<longleftrightarrow> (\<forall>g n. fmlookup (ov_limits s) g = Some n \<longrightarrow> 1 \<le> n) \<and> (ov_globalSet s \<longrightarrow> 1 \<le> ov_globalLimit s)
     \<and> (\<forall>e. fmlookup (ov_settings s) e \<noteq> Some fmempty)
     \<and> (\<forall>e m p. fmlookup (ov_settings s) e = Some m \<longrightarrow> p |\<in>| fmdom m \<longrightarrow> validPointer p)"

lemma fmupd_not_empty [simp]: "fmupd k v m \<noteq> fmempty"
  by (metis fmempty_lookup fmupd_lookup option.distinct(1))

lemma ov_inv_exec: "ov_inv s \<Longrightarrow> ov_inv (ov_exec norm valid op ok s)"
proof (cases ok)
  case True
  assume "ov_inv s"
  with True show ?thesis
    by (cases op) (auto simp: ov_inv_def ov_exec_def ov_do_def ov_op_defs ov_persist_def Let_def split: option.split if_splits)
qed (simp add: ov_failed)

lemma ov_inv_run: "ov_inv s \<Longrightarrow> ov_inv (fold (\<lambda>(op, ok). ov_exec norm valid op ok) ops s)"
  by (induction ops arbitrary: s) (auto simp: ov_inv_exec)

lemma fold_disabled: "fmlookup (fold (\<lambda>k m. fmupd k False m) ks m) k = (if k \<in> set ks then Some False else fmlookup m k)"
  by (induction ks arbitrary: m) auto

lemma in_disabledLocked: "k \<in> set (disabledLocked s) \<longleftrightarrow> fmlookup (ov_hookEnable s) k = Some False"
  by (force simp: disabledLocked_def image_iff)

lemma ov_load_content:
  assumes "ov_inv s"
  shows "ov_hookEnable (ov_load (ov_content norm s)) = ov_hookEnable s" "ov_limits (ov_load (ov_content norm s)) = ov_limits s"
    "ov_GlobalRunLimit (Some (ov_load (ov_content norm s))) = ov_GlobalRunLimit (Some s)"
    "ov_settings (ov_load (ov_content norm s)) = fmmap (fmmap norm) (ov_settings s)"
proof -
  show "ov_hookEnable (ov_load (ov_content norm s)) = ov_hookEnable s"
    by (rule fmap_ext) (auto simp: ov_load_def ov_content_def fold_disabled in_disabledLocked dest: fmdomI)
  show "ov_limits (ov_load (ov_content norm s)) = ov_limits s"
    "ov_GlobalRunLimit (Some (ov_load (ov_content norm s))) = ov_GlobalRunLimit (Some s)"
    by (simp_all add: ov_load_def ov_content_def ov_GlobalRunLimit_def)
  have "fmmap norm m = fmempty \<longleftrightarrow> m = fmempty" for m :: pointer_map
    by (metis fmdom_empty fmdom_map fmrestrict_fset_dom fmrestrict_fset_null)
  then show "ov_settings (ov_load (ov_content norm s)) = fmmap (fmmap norm) (ov_settings s)"
    using assms by (intro fmap_ext) (auto simp: ov_load_def ov_content_def nonempty_settings_def ov_inv_def)
qed

lemma ov_inv_empty: "ov_inv ov_empty"
  by (simp add: ov_inv_def ov_empty_def)

text \<open>C30: The operator's switches survive a restart: after any sequence of settings and clearings, whichever
  of the file writes failed, a store opened on the file answers every question as the old one did
  (a pinned value comes back with the file's indentation); the calls whose write failed have left no
  trace; and no override ever sets a limit below 1 or pins the whole settings document.\<close>

theorem overrides_survive_restart:
  "let s = fold (\<lambda>(op, ok). ov_exec norm valid op ok) ops ov_empty; s' = ov_load (ov_saved norm s) in
     (\<forall>h d. HookDisabled (Some s') h d = HookDisabled (Some s) h d)
     \<and> (\<forall>g. ov_ConcurrencyLimit (Some s') g = ov_ConcurrencyLimit (Some s) g)
     \<and> ov_GlobalRunLimit (Some s') = ov_GlobalRunLimit (Some s)
     \<and> (\<forall>e. SettingsOverrides (Some s') e = map_option (fmmap norm) (SettingsOverrides (Some s) e))
     \<and> s = fold (\<lambda>(op, ok). ov_exec norm valid op ok) (filter snd ops) ov_empty \<and> ov_inv s"
proof -
  define s where "s = fold (\<lambda>(op, ok). ov_exec norm valid op ok) ops ov_empty"
  have inv: "ov_inv s" unfolding s_def by (rule ov_inv_run [OF ov_inv_empty])
  have "ov_content norm ov_empty = ov_saved norm ov_empty" by (simp add: ov_saved_def ov_empty_def)
  from ovd.fold_sync [OF this] have c: "ov_saved norm s = ov_content norm s" unfolding s_def by (rule sym)
  note l = ov_load_content [OF inv, of norm]
  have e: "fmmap norm m = fmempty \<longleftrightarrow> m = fmempty" for m :: pointer_map
    by (metis fmdom_empty fmdom_map fmrestrict_fset_dom fmrestrict_fset_null)
  have "SettingsOverrides (Some (ov_load (ov_content norm s))) x = map_option (fmmap norm) (SettingsOverrides (Some s) x)" for x
    by (simp add: SettingsOverrides_def l e split: option.split)
  moreover have "HookDisabled (Some (ov_load (ov_content norm s))) h d = HookDisabled (Some s) h d"
      "ov_ConcurrencyLimit (Some (ov_load (ov_content norm s))) g = ov_ConcurrencyLimit (Some s) g" for h d g
    by (simp_all add: HookDisabled_def HookOverride_def ov_ConcurrencyLimit_def l)
  moreover have "s = fold (\<lambda>(op, ok). ov_exec norm valid op ok) (filter snd ops) ov_empty" unfolding s_def by (rule ovd.fold_failed)
  ultimately show ?thesis using inv l(3) unfolding Let_def s_def [symmetric] c by blast
qed

text \<open>A kill switch beats the manifest: once the operator has set a hook's switch and the write succeeded,
  the hook is disabled exactly as set whatever its \<open>enable\<close> default says, and every other hook, limit
  and setting is as before; a file that cannot be read or parsed stops the start instead of dropping
  the switches.\<close>

theorem kill_switch_wins:
  "let s' = snd (SetHookDisabled norm True hid disabled s) in
     HookDisabled (Some s') hid dflt = disabled
     \<and> (\<forall>h d. HookDisabled (Some s') h d = (if h = hid then disabled else HookDisabled (Some s) h d))
     \<and> ov_limits s' = ov_limits s \<and> ov_settings s' = ov_settings s
     \<and> isl (ov_Open path OvGarbled) \<and> isl (ov_Open path OvUnreadable)"
  by (auto simp: SetHookDisabled_def ov_persist_def HookDisabled_def HookOverride_def ov_Open_def Let_def split: option.split)

end
