(* ===== verification/Scheduler.thy ===== *)
theory Scheduler
  imports Attention Runs
begin

text \<open>
  Model of \<^verbatim>\<open>internal/scheduler/scheduler.go\<close> (the timer that fires scheduled hooks) and
  \<^verbatim>\<open>internal/attention/schedule.go\<close> (the check that a scheduled hook still succeeds).  The lemmas
  reduce the scheduler of all hooks to one independent timer per hook, from which the spacing of its
  fires follows.
\<close>

record sched_entry =
  se_interval :: duration
  se_next :: time

type_synonym scheduler = "(string, sched_entry) fmap"

definition DefaultTick :: duration where "DefaultTick = Second"

text \<open>One iteration of \<open>Update\<close>'s loop: the entry a schedule gets, if any.\<close>

definition update_entry :: "time \<Rightarrow> scheduler \<Rightarrow> string \<Rightarrow> duration \<Rightarrow> sched_entry option" where
  "update_entry now s hid iv =
     (if iv \<le> 0 then None
      else case fmlookup s hid of
             Some old \<Rightarrow> if se_interval old = iv then Some old else Some \<lparr>se_interval = iv, se_next = now\<rparr>
           | None \<Rightarrow> Some \<lparr>se_interval = iv, se_next = now\<rparr>)"

definition sched_Update :: "time \<Rightarrow> (string, duration) fmap \<Rightarrow> scheduler \<Rightarrow> scheduler" where
  "sched_Update now schedules s =
     fold (\<lambda>(hid, iv) nxt. case update_entry now s hid iv of None \<Rightarrow> nxt | Some e \<Rightarrow> fmupd hid e nxt)
       (sorted_list_of_fmap schedules) fmempty"

definition entry_due :: "time \<Rightarrow> sched_entry \<Rightarrow> bool" where
  "entry_due now e \<longleftrightarrow> \<not> now < se_next e"

text \<open>\<open>fireDue\<close>: the due hooks in sorted order, each advanced from now.\<close>

definition sched_fireDue :: "time \<Rightarrow> scheduler \<Rightarrow> string list \<times> scheduler" where
  "sched_fireDue now s =
     (map fst (filter (\<lambda>(hid, e). entry_due now e) (sorted_list_of_fmap s)),
      fmmap (\<lambda>e. if entry_due now e then e\<lparr>se_next := now + se_interval e\<rparr> else e) s)"

definition Schedules :: "scheduler \<Rightarrow> (string, duration) fmap" where
  "Schedules s = fmmap se_interval s"

subsection \<open>One timer per hook\<close>

lemma fold_entries_lookup:
  "distinct (map fst xs) \<Longrightarrow>
   fmlookup (fold (\<lambda>(hid, iv) nxt. case f hid iv of None \<Rightarrow> nxt | Some e \<Rightarrow> fmupd hid e nxt) xs m) k =
   (case map_of xs k of None \<Rightarrow> fmlookup m k | Some iv \<Rightarrow> (case f k iv of None \<Rightarrow> fmlookup m k | Some e \<Rightarrow> Some e))"
proof (induction xs arbitrary: m)
  case (Cons x xs)
  obtain h iv where x: "x = (h, iv)" by fastforce
  show ?case
  proof (cases "k = h")
    case True
    then have "map_of xs k = None" using Cons.prems x by (auto simp: map_of_eq_None_iff)
    then show ?thesis using Cons True x by (simp split: option.split)
  next
    case False
    then show ?thesis using Cons x by (simp split: option.split)
  qed
qed simp

lemma sched_Update_lookup: "fmlookup (sched_Update now schedules s) k = Option.bind (fmlookup schedules k) (update_entry now s k)"
proof -
  have "distinct (map fst (sorted_list_of_fmap schedules))" by (simp add: sorted_list_of_fset.rep_eq)
  then show ?thesis
    by (simp add: sched_Update_def fold_entries_lookup map_of_sorted_list_of_fmap split: option.split Option.bind_split)
qed

lemma fired_iff: "hid \<in> set (fst (sched_fireDue now s)) \<longleftrightarrow> (\<exists>e. fmlookup s hid = Some e \<and> entry_due now e)"
  by (force simp: sched_fireDue_def image_iff)

lemma fired_distinct: "distinct (fst (sched_fireDue now s)) \<and> sorted (fst (sched_fireDue now s))"
proof -
  have "distinct (map fst (sorted_list_of_fmap s))" "sorted (map fst (sorted_list_of_fmap s))"
    by (simp_all add: sorted_list_of_fset.rep_eq)
  then show ?thesis unfolding sched_fireDue_def fst_conv
    by (metis distinct_map_filter sorted_filter)
qed

datatype sched_op = SUpdate time "(string, duration) fmap" | STick time

fun sched_run :: "sched_op list \<Rightarrow> scheduler \<Rightarrow> (time \<times> string) list \<times> scheduler" where
  "sched_run [] s = ([], s)"
| "sched_run (SUpdate now m # ops) s = sched_run ops (sched_Update now m s)"
| "sched_run (STick now # ops) s =
     (let (due, s1) = sched_fireDue now s; (rest, s2) = sched_run ops s1 in (map (\<lambda>h. (now, h)) due @ rest, s2))"

definition fires_of :: "string \<Rightarrow> (time \<times> string) list \<Rightarrow> time list" where
  "fires_of hid log = map fst (filter (\<lambda>(t, h). h = hid) log)"

text \<open>The specification: a timer that fires at the first tick at or after its deadline and then is due
  one interval after that tick.\<close>

fun timer :: "duration \<Rightarrow> time \<Rightarrow> sched_op list \<Rightarrow> time list" where
  "timer iv nx [] = []"
| "timer iv nx (SUpdate t m # ops) = timer iv nx ops"
| "timer iv nx (STick t # ops) = (if nx \<le> t then t # timer iv (t + iv) ops else timer iv nx ops)"

definition keeps :: "string \<Rightarrow> duration \<Rightarrow> sched_op list \<Rightarrow> bool" where
  "keeps hid iv ops \<longleftrightarrow> list_all (\<lambda>op. case op of SUpdate t m \<Rightarrow> fmlookup m hid = Some iv | STick t \<Rightarrow> True) ops"

lemma fires_of_tick: "fires_of hid (map (\<lambda>h. (now, h)) (fst (sched_fireDue now s))) =
   (case fmlookup s hid of Some e \<Rightarrow> if entry_due now e then [now] else [] | None \<Rightarrow> [])"
proof -
  have 1: "fires_of hid (map (\<lambda>h. (now, h)) xs) = (if hid \<in> set xs then [now] else [])" if "distinct xs" for xs
    using that by (induction xs) (auto simp: fires_of_def)
  show ?thesis using fired_distinct [of now s] fired_iff [of hid now s] by (subst 1) (auto split: option.split)
qed

lemma fires_of_append [simp]: "fires_of hid (xs @ ys) = fires_of hid xs @ fires_of hid ys"
  by (simp add: fires_of_def)

lemma sched_run_timer:
  "0 < iv \<Longrightarrow> keeps hid iv ops \<Longrightarrow> fmlookup s hid = Some \<lparr>se_interval = iv, se_next = nx\<rparr> \<Longrightarrow>
   fires_of hid (fst (sched_run ops s)) = timer iv nx ops"
proof (induction ops arbitrary: s nx)
  case Nil
  then show ?case by (simp add: fires_of_def)
next
  case (Cons op ops)
  show ?case
  proof (cases op)
    case (SUpdate now m)
    then have "fmlookup (sched_Update now m s) hid = Some \<lparr>se_interval = iv, se_next = nx\<rparr>"
      using Cons.prems by (simp add: sched_Update_lookup update_entry_def keeps_def)
    then show ?thesis using Cons SUpdate by (simp add: keeps_def)
  next
    case (STick now)
    have "fmlookup (snd (sched_fireDue now s)) hid = Some \<lparr>se_interval = iv, se_next = (if nx \<le> now then now + iv else nx)\<rparr>"
      using Cons.prems by (simp add: sched_fireDue_def entry_due_def)
    from Cons.IH [OF Cons.prems(1) _ this] have "fires_of hid (fst (sched_run ops (snd (sched_fireDue now s)))) =
        timer iv (if nx \<le> now then now + iv else nx) ops"
      using Cons.prems(2) by (simp add: keeps_def)
    then show ?thesis using STick Cons.prems(3)
      by (simp add: case_prod_beta Let_def fires_of_tick entry_due_def)
  qed
qed

lemma timer_spaced: "sorted_wrt (\<lambda>a b. a + iv \<le> b) (timer iv nx ops) \<and> list_all (\<lambda>t. nx \<le> t) (timer iv nx ops)" if "0 < iv"
  using that
proof (induction ops arbitrary: nx)
  case (Cons op ops)
  show ?case
  proof (cases op)
    case (STick t)
    then show ?thesis using Cons.IH [OF Cons.prems, of "t + iv"] Cons.IH [OF Cons.prems, of nx] Cons.prems
      by (auto simp: list_all_iff)
  qed (use Cons in simp)
qed simp

text \<open>C37: A scheduled hook fires like a timer of its own: as long as reloads keep its interval, whatever
  other schedules come, go or change in between, its fires are exactly those of a timer that fires at the
  first tick at or after its deadline and is next due one interval later; so two fires are never closer
  than the interval, no fire comes before the deadline, a missed stretch is caught up by a single fire,
  and a reload neither re-fires nor delays it.\<close>

theorem schedule_is_timer:
  assumes "0 < iv" "keeps hid iv ops" "fmlookup s hid = Some \<lparr>se_interval = iv, se_next = nx\<rparr>"
  shows "fires_of hid (fst (sched_run ops s)) = timer iv nx ops
     \<and> sorted_wrt (\<lambda>a b. a + iv \<le> b) (fires_of hid (fst (sched_run ops s)))
     \<and> list_all (\<lambda>t. nx \<le> t) (fires_of hid (fst (sched_run ops s)))"
  using sched_run_timer [OF assms] timer_spaced [OF assms(1)] by simp

theorem schedule_is_timer_witness:
  "fires_of ''h'' (fst (sched_run [STick 5, STick 7, SUpdate 8 (fmupd ''h'' 10 fmempty), STick 40, STick 41]
      (fmupd ''h'' \<lparr>se_interval = 10, se_next = 5\<rparr> fmempty))) = [5, 40]"
  using schedule_is_timer [of 10 "''h''" "[STick 5, STick 7, SUpdate 8 (fmupd ''h'' 10 fmempty), STick 40, STick 41]"
      "fmupd ''h'' \<lparr>se_interval = 10, se_next = 5\<rparr> fmempty" 5]
  by (simp add: keeps_def)

text \<open>A reload decides exactly which hooks are scheduled and when: a hook is scheduled after it iff the
  reload lists it with a positive interval; an unchanged interval keeps its deadline, a new or changed
  one is due at once.\<close>

theorem sched_Update_exact:
  "fmlookup (sched_Update now m s) hid =
     (case fmlookup m hid of None \<Rightarrow> None
      | Some iv \<Rightarrow> if iv \<le> 0 then None
          else Some \<lparr>se_interval = iv,
                 se_next = (case fmlookup s hid of Some old \<Rightarrow> if se_interval old = iv then se_next old else now | None \<Rightarrow> now)\<rparr>)"
  by (auto simp: sched_Update_lookup update_entry_def split: option.split)

subsection \<open>Stale schedules\<close>

definition KeyStale :: string where "KeyStale = ''stale''"
definition ScheduleStaleMultiplier :: int where "ScheduleStaleMultiplier = 3"
definition ScheduleStaleFloor :: duration where "ScheduleStaleFloor = 15 * Minute"

definition stale_threshold :: "duration \<Rightarrow> duration" where
  "stale_threshold iv = (let t = iv * ScheduleStaleMultiplier in if t < ScheduleStaleFloor then ScheduleStaleFloor else t)"

fun last_success :: "run list \<Rightarrow> time \<Rightarrow> time" where
  "last_success [] acc = acc"
| "last_success (r # rs) acc =
     last_success rs (if run_Status r = StatusSuccess \<and> rs_Started (r_state r) > acc then rs_Started (r_state r) else acc)"

text \<open>The message texts are arguments: \<open>msgOld\<close> for a success that is too old, \<open>msgNever\<close> for none.\<close>

definition stale_entry :: "(duration \<Rightarrow> duration \<Rightarrow> string) \<Rightarrow> (duration \<Rightarrow> duration \<Rightarrow> string) \<Rightarrow> time \<Rightarrow> (string \<Rightarrow> run list) \<Rightarrow> string \<times> duration \<Rightarrow> att_entry list" where
  "stale_entry msgOld msgNever now recent = (\<lambda>(hid, interval).
     if interval \<le> 0 then []
     else let threshold = stale_threshold interval; tracked = recent hid in
       if tracked = [] then []
       else let lastSuccess = last_success tracked 0; mk = (\<lambda>m. [\<lparr>a_Source = [], a_Hook = hid, a_Key = KeyStale, a_Message = m, a_Since = 0\<rparr>]) in
         if lastSuccess \<noteq> 0 then (if now - lastSuccess < threshold then [] else mk (msgOld interval (now - lastSuccess)))
         else let oldest = rs_Started (r_state (List.last tracked)) in
           if now - oldest < threshold then [] else mk (msgNever interval (now - oldest)))"

definition CheckStaleSchedules :: "(duration \<Rightarrow> duration \<Rightarrow> string) \<Rightarrow> (duration \<Rightarrow> duration \<Rightarrow> string) \<Rightarrow> time \<Rightarrow> (string \<Rightarrow> run list) \<Rightarrow> (string, duration) fmap \<Rightarrow> att_entry list" where
  "CheckStaleSchedules msgOld msgNever now recent schedules =
     concat (map (stale_entry msgOld msgNever now recent) (sorted_list_of_fmap schedules))"

definition successes :: "run list \<Rightarrow> time set" where
  "successes rs = {rs_Started (r_state r) | r. r \<in> set rs \<and> run_Status r = StatusSuccess}"

lemma successes_simps [simp]: "successes [] = {}"
  "successes (r # rs) = (if run_Status r = StatusSuccess then insert (rs_Started (r_state r)) (successes rs) else successes rs)"
  by (auto simp: successes_def)

lemma last_success_spec:
  "acc \<le> last_success rs acc \<and> (\<forall>t \<in> successes rs. t \<le> last_success rs acc) \<and> last_success rs acc \<in> insert acc (successes rs)"
proof (induction rs arbitrary: acc)
  case (Cons r rs)
  show ?case
    using Cons [of acc] Cons [of "rs_Started (r_state r)"] by auto
qed simp

definition stale :: "time \<Rightarrow> run list \<Rightarrow> duration \<Rightarrow> bool" where
  "stale now tracked iv \<longleftrightarrow> 0 < iv \<and> tracked \<noteq> [] \<and> (\<forall>t \<in> successes tracked. t + stale_threshold iv \<le> now)
     \<and> (successes tracked = {} \<longrightarrow> rs_Started (r_state (List.last tracked)) + stale_threshold iv \<le> now)"

lemma stale_entry_iff:
  assumes "\<forall>t \<in> successes (recent hid). 0 < t"
  shows "stale_entry mo mn now recent (hid, iv) \<noteq> [] \<longleftrightarrow> stale now (recent hid) iv"
proof (cases "successes (recent hid) = {}")
  case True
  then have "last_success (recent hid) 0 = 0" using last_success_spec [of 0 "recent hid"] by auto
  then show ?thesis using True by (auto simp: stale_entry_def stale_def Let_def)
next
  case False
  note l = last_success_spec [of 0 "recent hid"]
  have nz: "last_success (recent hid) 0 \<noteq> 0" using False l assms by fastforce
  then have "last_success (recent hid) 0 \<in> successes (recent hid)" using l by auto
  then have "(\<forall>t \<in> successes (recent hid). t + d \<le> now) \<longleftrightarrow> last_success (recent hid) 0 + d \<le> now" for d
    using l by (meson add_right_mono order_trans)
  then show ?thesis using False nz by (auto simp: stale_entry_def stale_def Let_def)
qed

lemma stale_entry_hook: "e \<in> set (stale_entry mo mn now recent (hid, iv)) \<Longrightarrow> a_Hook e = hid \<and> a_Key e = KeyStale"
  by (auto simp: stale_entry_def Let_def split: if_splits)

text \<open>The staleness check reports exactly the hooks whose schedule went quiet: those with a schedule and
  some tracked run, none of whose successes started within the threshold (three intervals, at least 15
  minutes), and, without any success, whose oldest tracked run is past the threshold too.\<close>

theorem CheckStaleSchedules_exact:
  assumes "\<forall>h t. t \<in> successes (recent h) \<longrightarrow> 0 < t"
  shows "hid \<in> a_Hook ` set (CheckStaleSchedules mo mn now recent schedules) \<longleftrightarrow>
     (\<exists>iv. fmlookup schedules hid = Some iv \<and> stale now (recent hid) iv)"
proof
  assume "hid \<in> a_Hook ` set (CheckStaleSchedules mo mn now recent schedules)"
  then obtain e k iv where e: "e \<in> set (stale_entry mo mn now recent (k, iv))" "(k, iv) \<in> set (sorted_list_of_fmap schedules)" "a_Hook e = hid"
    by (auto simp: CheckStaleSchedules_def)
  then have "k = hid" "stale_entry mo mn now recent (k, iv) \<noteq> []" using stale_entry_hook by auto
  then show "\<exists>iv. fmlookup schedules hid = Some iv \<and> stale now (recent hid) iv"
    using stale_entry_iff [of recent hid] assms e(2) by auto
next
  assume "\<exists>iv. fmlookup schedules hid = Some iv \<and> stale now (recent hid) iv"
  then obtain iv where iv: "(hid, iv) \<in> set (sorted_list_of_fmap schedules)" "stale_entry mo mn now recent (hid, iv) \<noteq> []"
    using stale_entry_iff [of recent hid] assms by auto
  then obtain e where "e \<in> set (stale_entry mo mn now recent (hid, iv))" by (meson last_in_set)
  with iv(1) show "hid \<in> a_Hook ` set (CheckStaleSchedules mo mn now recent schedules)"
    using stale_entry_hook [of e] unfolding CheckStaleSchedules_def by (force simp: image_iff)
qed

theorem CheckStaleSchedules_exact_witness:
  "''h'' \<in> a_Hook ` set (CheckStaleSchedules (\<lambda>_ _. []) (\<lambda>_ _. []) (20 * Minute) (\<lambda>_. [fresh_run ''r'' ''h'' 1 True True]) (fmupd ''h'' Minute fmempty))"
proof -
  have "stale (20 * Minute) [fresh_run ''r'' ''h'' 1 True True] Minute"
    by (simp add: stale_def fresh_run_def run_Status_def status_defs stale_threshold_def ScheduleStaleMultiplier_def ScheduleStaleFloor_def Let_def)
  then show ?thesis
    using CheckStaleSchedules_exact [of "\<lambda>_. [fresh_run ''r'' ''h'' 1 True True]" "''h''" "\<lambda>_ _. []" "\<lambda>_ _. []" "20 * Minute" "fmupd ''h'' Minute fmempty"]
    by (simp add: fresh_run_def run_Status_def status_defs)
qed

end
