(* ===== verification/Spool.thy ===== *)
theory Spool
  imports Int64 Skip
begin

text \<open>
  Model of \<^verbatim>\<open>internal/spool/spool.go\<close>, \<^verbatim>\<open>internal/server/spooldelivery.go\<close> and
  \<^verbatim>\<open>internal/cli/spoolreplay.go\<close>: deliveries that arrive while the server drains are parked on disk
  and replayed by the next process.  A directory is a finite map from file names to contents; a content
  is an entry or bytes that do not parse.  The JSON encoder contributes the size of an entry's file
  (\<open>enc\<close>).  File-system calls that may fail are told whether they succeed.
\<close>

definition DefaultMaxEntries :: int where "DefaultMaxEntries = 1000"
definition DefaultMaxBytes :: int where "DefaultMaxBytes = 67108864"

record spool_entry =
  sp_ID :: string
  sp_HookID :: string
  sp_Title :: string
  sp_Headers :: header
  sp_Body :: string
  sp_Received :: time

datatype spool_file = SpoolEntry spool_entry | SpoolGarbage nat

record spool =
  sl_files :: "(string, spool_file) fmap"
  sl_maxEntries :: int
  sl_maxBytes :: int

datatype spool_error = ErrFull | ErrReadDir | ErrWrite

definition spool_SetBounds :: "int \<Rightarrow> int \<Rightarrow> spool \<Rightarrow> spool" where
  "spool_SetBounds me mb s =
     (let s = (if me > 0 then s\<lparr>sl_maxEntries := me\<rparr> else s) in if mb > 0 then s\<lparr>sl_maxBytes := mb\<rparr> else s)"

text \<open>\<^verbatim>\<open>%020d\<close> pads with zeros after the sign.\<close>

definition pad_nat :: "nat \<Rightarrow> nat \<Rightarrow> string" where
  "pad_nat w n = replicate (w - length (show_nat n)) (CHR ''0'') @ show_nat n"

definition pad20 :: "int \<Rightarrow> string" where
  "pad20 n = (if n < 0 then CHR ''-'' # pad_nat 19 (nat (- n)) else pad_nat 20 (nat n))"

definition entryName :: "time \<Rightarrow> string \<Rightarrow> string" where
  "entryName received eid = pad20 (UnixNano received) @ ''-'' @ eid @ ''.json''"

definition spool_names :: "spool \<Rightarrow> string list" where
  "spool_names s = filter (\<lambda>n. has_suffix n ''.json'') (sorted_list_of_fset (fmdom (sl_files s)))"

definition file_size :: "(spool_entry \<Rightarrow> nat) \<Rightarrow> spool_file \<Rightarrow> nat" where
  "file_size enc f = (case f of SpoolEntry e \<Rightarrow> enc e | SpoolGarbage n \<Rightarrow> n)"

definition spool_usage :: "(spool_entry \<Rightarrow> nat) \<Rightarrow> spool \<Rightarrow> int \<times> int" where
  "spool_usage enc s = (int (length (spool_names s)),
     sum_list (map (\<lambda>n. case fmlookup (sl_files s) n of None \<Rightarrow> 0 | Some f \<Rightarrow> int (file_size enc f)) (spool_names s)))"

definition spool_Len :: "spool \<Rightarrow> nat" where
  "spool_Len s = length (spool_names s)"

text \<open>\<open>Put\<close>: \<open>rd\<close> is whether the directory can be read, \<open>ok\<close> whether the temp-and-rename write
  succeeds, \<open>fresh\<close> the random id and \<open>now\<close> the clock for an entry that carries none.\<close>

definition spool_Put :: "(spool_entry \<Rightarrow> nat) \<Rightarrow> bool \<Rightarrow> bool \<Rightarrow> string \<Rightarrow> time \<Rightarrow> spool_entry \<Rightarrow> spool \<Rightarrow> (spool_error + string) \<times> spool" where
  "spool_Put enc rd ok fresh now e s =
     (if \<not> rd then (Inl ErrReadDir, s)
      else let (n, bytes) = spool_usage enc s in
        if n \<ge> sl_maxEntries s \<or> bytes + int (length (sp_Body e)) > sl_maxBytes s then (Inl ErrFull, s)
        else let e = (if sp_ID e = [] then e\<lparr>sp_ID := fresh\<rparr> else e);
                 e = (if sp_Received e = 0 then e\<lparr>sp_Received := now\<rparr> else e)
             in if \<not> ok then (Inl ErrWrite, s)
                else (Inr (sp_ID e), s\<lparr>sl_files := fmupd (entryName (sp_Received e) (sp_ID e)) (SpoolEntry e) (sl_files s)\<rparr>))"

text \<open>\<open>Replay\<close>, one entry at a time.  The callback's state is threaded through; \<open>readable\<close>,
  \<open>movable\<close> and \<open>removable\<close> say for which names the file-system calls succeed.\<close>

fun replay_loop :: "(spool_entry \<Rightarrow> 'w \<Rightarrow> bool \<times> 'w) \<Rightarrow> (string \<Rightarrow> bool) \<Rightarrow> (string \<Rightarrow> bool) \<Rightarrow> (string \<Rightarrow> bool)
    \<Rightarrow> string list \<Rightarrow> (string, spool_file) fmap \<Rightarrow> nat \<Rightarrow> 'w \<Rightarrow> nat \<times> (string, spool_file) fmap \<times> 'w" where
  "replay_loop fn readable movable removable [] fs n w = (n, fs, w)"
| "replay_loop fn readable movable removable (name # names) fs n w =
     (case fmlookup fs name of
        None \<Rightarrow> replay_loop fn readable movable removable names fs n w
      | Some f \<Rightarrow>
          if \<not> readable name then replay_loop fn readable movable removable names fs n w
          else case f of
            SpoolGarbage k \<Rightarrow>
              replay_loop fn readable movable removable names
                (if movable name then fmupd (name @ ''.corrupt'') f (fmdrop name fs) else fs) n w
          | SpoolEntry e \<Rightarrow>
              (case fn e w of
                 (False, w') \<Rightarrow> replay_loop fn readable movable removable names fs n w'
               | (True, w') \<Rightarrow> replay_loop fn readable movable removable names
                   (if removable name then fmdrop name fs else fs) (n + 1) w'))"

definition spool_Replay :: "(spool_entry \<Rightarrow> 'w \<Rightarrow> bool \<times> 'w) \<Rightarrow> (string \<Rightarrow> bool) \<Rightarrow> (string \<Rightarrow> bool) \<Rightarrow> (string \<Rightarrow> bool) \<Rightarrow> bool
    \<Rightarrow> spool \<Rightarrow> 'w \<Rightarrow> nat \<times> spool \<times> 'w" where
  "spool_Replay fn readable movable removable rd s w =
     (if \<not> rd then (0, s, w)
      else let (n, fs, w') = replay_loop fn readable movable removable (spool_names s) (sl_files s) 0 w
           in (n, s\<lparr>sl_files := fs\<rparr>, w'))"

text \<open>The callback of \<open>replaySpooledDeliveries\<close>: an entry whose hook is gone is dropped with an event;
  otherwise a run is started.  Its state is the list of started deliveries and the feed.\<close>

record replay_world =
  rw_started :: "spool_entry list"
  rw_dropped :: "string list"

definition replay_callback :: "(string \<Rightarrow> bool) \<Rightarrow> (spool_entry \<Rightarrow> bool) \<Rightarrow> spool_entry \<Rightarrow> replay_world \<Rightarrow> bool \<times> replay_world" where
  "replay_callback known starts e w =
     (if \<not> known (sp_HookID e) then (True, w\<lparr>rw_dropped := rw_dropped w @ [sp_HookID e]\<rparr>)
      else if starts e then (True, w\<lparr>rw_started := rw_started w @ [e]\<rparr>) else (False, w))"

text \<open>\<open>spoolDelivery\<close>: \<open>None\<close> means the caller answers 503.\<close>

definition spoolDelivery :: "(spool_entry \<Rightarrow> nat) \<Rightarrow> bool \<Rightarrow> bool \<Rightarrow> string \<Rightarrow> time \<Rightarrow> string \<Rightarrow> string \<Rightarrow> header \<Rightarrow> string \<Rightarrow> spool option \<Rightarrow> string option \<times> spool option" where
  "spoolDelivery enc rd ok fresh now hookID title headers body so = (case so of None \<Rightarrow> (None, None)
     | Some s \<Rightarrow> (case spool_Put enc rd ok fresh now
           \<lparr>sp_ID = [], sp_HookID = hookID, sp_Title = title, sp_Headers = headers, sp_Body = body, sp_Received = 0\<rparr> s of
         (Inl err, s') \<Rightarrow> (None, Some s') | (Inr eid, s') \<Rightarrow> (Some eid, Some s')))"

subsection \<open>Names sort by time\<close>

definition dig :: "char \<Rightarrow> nat" where "dig c = of_char c - 48"

definition is_digit :: "char \<Rightarrow> bool" where "is_digit c \<longleftrightarrow> CHR ''0'' \<le> c \<and> c \<le> CHR ''9''"

fun dnum :: "string \<Rightarrow> nat" where
  "dnum [] = 0"
| "dnum (c # cs) = dig c * 10 ^ length cs + dnum cs"

lemma is_digit_nat: "is_digit c \<longleftrightarrow> 48 \<le> (of_char c :: nat) \<and> (of_char c :: nat) \<le> 57"
  by (simp add: is_digit_def less_eq_char_def)

lemma dig_less: "is_digit c \<Longrightarrow> dig c < 10"
  unfolding is_digit_nat dig_def by linarith

lemma dig_mono: "is_digit a \<Longrightarrow> is_digit b \<Longrightarrow> a < b \<Longrightarrow> dig a < dig b"
  by (simp add: is_digit_nat dig_def less_char_def)

lemma dnum_less: "list_all is_digit s \<Longrightarrow> dnum s < 10 ^ length s"
proof (induction s)
  case (Cons c s)
  then have "dnum s < 10 ^ length s" "dig c + 1 \<le> 10" using dig_less [of c] by simp_all
  then have "dig c * 10 ^ length s + dnum s < (dig c + 1) * 10 ^ length s" by simp
  also have "\<dots> \<le> 10 * 10 ^ length s" using \<open>dig c + 1 \<le> 10\<close> by (intro mult_right_mono) auto
  finally show ?case by simp
qed simp

lemma dnum_mono: "length x = length y \<Longrightarrow> list_all is_digit x \<Longrightarrow> list_all is_digit y \<Longrightarrow> x \<le> y \<Longrightarrow> dnum x \<le> dnum y"
proof (induction x y rule: list_induct2)
  case (Cons a x b y)
  show ?case
  proof (cases "a = b")
    case True
    then show ?thesis using Cons by simp
  next
    case False
    then have "dig a + 1 \<le> dig b" using Cons.prems dig_mono [of a b] by simp
    then have "(dig a + 1) * 10 ^ length y \<le> dig b * 10 ^ length y" by (intro mult_right_mono) auto
    then show ?thesis using dnum_less [of x] Cons by simp
  qed
qed simp

lemma dnum_append: "dnum (xs @ ys) = dnum xs * 10 ^ length ys + dnum ys"
  by (induction xs) (auto simp: power_add algebra_simps)

lemma digit_char_digit: "d < 10 \<Longrightarrow> is_digit (digit_char d) \<and> dig (digit_char d) = d"
  by (simp add: is_digit_nat dig_def digit_char_def)

lemma show_nat_dnum: "dnum (show_nat n) = n \<and> list_all is_digit (show_nat n)"
proof (induction n rule: show_nat.induct)
  case (1 n)
  show ?case
  proof (cases "n < 10")
    case True
    then show ?thesis using digit_char_digit [of n] by (simp add: show_nat.simps [of n])
  next
    case False
    then show ?thesis using 1 digit_char_digit [of "n mod 10"] by (simp add: show_nat.simps [of n] dnum_append)
  qed
qed

lemma dnum_zeros: "dnum (replicate k (CHR ''0'') @ s) = dnum s"
  by (induction k) (auto simp: dig_def)

lemma pad_nat_dnum: "dnum (pad_nat w n) = n \<and> list_all is_digit (pad_nat w n)"
  using show_nat_dnum [of n] by (auto simp: pad_nat_def dnum_zeros list_all_iff is_digit_def)

lemma pad_nat_length: "n < 10 ^ w \<Longrightarrow> 0 < w \<Longrightarrow> length (pad_nat w n) = w"
  using length_show_nat [of n w] by (simp add: pad_nat_def)

lemma prefix_le: "length x = length y \<Longrightarrow> x @ u \<le> y @ v \<Longrightarrow> x \<le> (y :: string)"
  by (induction x y rule: list_induct2) auto

lemma entryName_mono:
  assumes "0 \<le> UnixNano t1" "0 \<le> UnixNano t2" "entryName t1 i1 \<le> entryName t2 i2"
  shows "UnixNano t1 \<le> UnixNano t2"
proof -
  have b: "nat (UnixNano t) < 10 ^ 20" for t
  proof -
    have "UnixNano t < 2 ^ 63" using wrap64_range [of "t - unix_epoch"] by (simp add: UnixNano_def is_int64_def)
    also have "\<dots> < (10 :: int) ^ 20" by simp
    finally show ?thesis by (simp add: nat_less_iff)
  qed
  let ?p = "\<lambda>t. pad_nat 20 (nat (UnixNano t))"
  have "?p t1 \<le> ?p t2"
    using assms prefix_le [of "?p t1" "?p t2"] pad_nat_length [OF b] by (simp add: entryName_def pad20_def)
  then have "nat (UnixNano t1) \<le> nat (UnixNano t2)"
    using dnum_mono [of "?p t1" "?p t2"] pad_nat_length [OF b] pad_nat_dnum by simp
  then show ?thesis using assms by simp
qed

subsection \<open>Replay\<close>

definition handed :: "(string \<Rightarrow> bool) \<Rightarrow> string list \<Rightarrow> (string, spool_file) fmap \<Rightarrow> spool_entry list" where
  "handed readable names fs = concat (map (\<lambda>n. case fmlookup fs n of
     Some (SpoolEntry e) \<Rightarrow> if readable n then [e] else [] | _ \<Rightarrow> []) names)"

definition after_replay :: "(spool_entry \<Rightarrow> bool) \<Rightarrow> (string \<Rightarrow> bool) \<Rightarrow> (string \<Rightarrow> bool) \<Rightarrow> (string \<Rightarrow> bool) \<Rightarrow> string \<Rightarrow> spool_file option \<Rightarrow> spool_file option" where
  "after_replay okf readable movable removable n f = (case f of None \<Rightarrow> None
     | Some (SpoolEntry e) \<Rightarrow> if readable n \<and> okf e \<and> removable n then None else f
     | Some (SpoolGarbage k) \<Rightarrow> if readable n \<and> movable n then None else f)"

lemma json_not_corrupt: "has_suffix n ''.json'' \<Longrightarrow> n \<noteq> m @ ''.corrupt''"
  by (auto simp: has_suffix_def)

lemma handed_cong: "(\<And>n. n \<in> set names \<Longrightarrow> fmlookup fs n = fmlookup fs' n) \<Longrightarrow> handed readable names fs = handed readable names fs'"
  by (induction names) (auto simp: handed_def)

lemma replay_loop_exact:
  assumes "distinct names" "\<forall>n \<in> set names. has_suffix n ''.json''"
  shows "snd (snd (replay_loop (\<lambda>e w. (okf e, upd e w)) readable movable removable names fs c w)) = fold upd (handed readable names fs) w
    \<and> (has_suffix k ''.json'' \<longrightarrow> fmlookup (fst (snd (replay_loop (\<lambda>e w. (okf e, upd e w)) readable movable removable names fs c w))) k =
         (if k \<in> set names then after_replay okf readable movable removable k (fmlookup fs k) else fmlookup fs k))
    \<and> fst (replay_loop (\<lambda>e w. (okf e, upd e w)) readable movable removable names fs c w) = c + length (filter okf (handed readable names fs))"
  using assms
proof (induction names arbitrary: fs c w)
  case Nil
  then show ?case by (simp add: handed_def)
next
  case (Cons name names)
  then have fresh: "name \<notin> set names" "distinct names" "\<forall>n \<in> set names. has_suffix n ''.json''" by auto
  define fs' where "fs' = (case fmlookup fs name of None \<Rightarrow> fs
     | Some f \<Rightarrow> if \<not> readable name then fs else (case f of
         SpoolGarbage k \<Rightarrow> if movable name then fmupd (name @ ''.corrupt'') f (fmdrop name fs) else fs
       | SpoolEntry e \<Rightarrow> if okf e \<and> removable name then fmdrop name fs else fs))"
  have keep: "has_suffix n ''.json'' \<Longrightarrow> n \<noteq> name \<Longrightarrow> fmlookup fs' n = fmlookup fs n" for n
    using json_not_corrupt [of n name] by (auto simp: fs'_def split: option.split spool_file.split)
  have own: "fmlookup fs' name = after_replay okf readable movable removable name (fmlookup fs name)"
    by (auto simp: fs'_def after_replay_def split: option.split spool_file.split)
  have h: "handed readable names fs' = handed readable names fs" using keep fresh by (intro handed_cong) auto
  note IH = Cons.IH [OF fresh(2,3), of fs', unfolded h]
  have hc: "handed readable (name # names) fs = (case fmlookup fs name of Some (SpoolEntry e) \<Rightarrow> if readable name then [e] else [] | _ \<Rightarrow> []) @ handed readable names fs"
    by (simp add: handed_def)
  show ?case
    using IH keep own fresh
    by (cases "fmlookup fs name"; cases "the (fmlookup fs name)"; cases "k = name")
      (auto simp: hc fs'_def after_replay_def split: if_splits)
qed

lemma spool_names_props: "distinct (spool_names s)" "sorted (spool_names s)"
  "n \<in> set (spool_names s) \<longleftrightarrow> n |\<in>| fmdom (sl_files s) \<and> has_suffix n ''.json''"
  by (auto simp: spool_names_def sorted_list_of_fset.rep_eq intro: sorted_filter [where f = id, simplified])

lemma fold_callback: "rw_started (fold (\<lambda>e w. snd (replay_callback known starts e w)) es w) =
    rw_started w @ filter (\<lambda>e. known (sp_HookID e) \<and> starts e) es
  \<and> rw_dropped (fold (\<lambda>e w. snd (replay_callback known starts e w)) es w) = rw_dropped w @ map sp_HookID (filter (\<lambda>e. \<not> known (sp_HookID e)) es)"
  by (induction es arbitrary: w) (auto simp: replay_callback_def)

lemma replay_callback_form: "replay_callback known starts =
    (\<lambda>e w. (known (sp_HookID e) \<longrightarrow> starts e, snd (replay_callback known starts e w)))"
  by (intro ext) (auto simp: replay_callback_def)

text \<open>The files that are set aside: garbage that can be read and renamed.\<close>

definition set_aside :: "(string \<Rightarrow> bool) \<Rightarrow> (string \<Rightarrow> bool) \<Rightarrow> (string, spool_file) fmap \<Rightarrow> string \<Rightarrow> bool" where
  "set_aside readable movable fs n \<longleftrightarrow> readable n \<and> movable n \<and> (case fmlookup fs n of Some (SpoolGarbage k) \<Rightarrow> True | _ \<Rightarrow> False)"

lemma set_aside_cong: "fmlookup fs n = fmlookup fs' n \<Longrightarrow> set_aside readable movable fs n = set_aside readable movable fs' n"
  by (simp add: set_aside_def)

lemma replay_loop_aside:
  fixes okf :: "spool_entry \<Rightarrow> bool" and upd :: "spool_entry \<Rightarrow> 'w \<Rightarrow> 'w" and readable movable removable :: "string \<Rightarrow> bool"
    and fs :: "(string, spool_file) fmap" and c :: nat and w :: 'w
  assumes "distinct names" "\<forall>n \<in> set names. has_suffix n ''.json''" "\<not> has_suffix k ''.json''"
  defines "fs' \<equiv> fst (snd (replay_loop (\<lambda>e w. (okf e, upd e w)) readable movable removable names fs c w))"
  shows "(\<forall>n \<in> set names. k = n @ ''.corrupt'' \<and> set_aside readable movable fs n \<longrightarrow> fmlookup fs' k = fmlookup fs n)
    \<and> ((\<forall>n \<in> set names. set_aside readable movable fs n \<longrightarrow> k \<noteq> n @ ''.corrupt'') \<longrightarrow> fmlookup fs' k = fmlookup fs k)"
  using assms(1,2) unfolding fs'_def
proof (induction names arbitrary: fs c w)
  case (Cons name names)
  then have fresh: "name \<notin> set names" "distinct names" "\<forall>n \<in> set names. has_suffix n ''.json''" "has_suffix name ''.json''" by auto
  define fs1 where "fs1 = (case fmlookup fs name of None \<Rightarrow> fs
     | Some f \<Rightarrow> if \<not> readable name then fs else (case f of
         SpoolGarbage k \<Rightarrow> if movable name then fmupd (name @ ''.corrupt'') f (fmdrop name fs) else fs
       | SpoolEntry e \<Rightarrow> if okf e \<and> removable name then fmdrop name fs else fs))"
  have keep: "fmlookup fs1 n = fmlookup fs n" if "n \<in> set names" for n
    using json_not_corrupt [of n name] fresh that by (auto simp: fs1_def split: option.split spool_file.split)
  have sa: "set_aside readable movable fs1 n = set_aside readable movable fs n" if "n \<in> set names" for n
    using keep [OF that] by (rule set_aside_cong)
  have own: "fmlookup fs1 k = (if set_aside readable movable fs name \<and> k = name @ ''.corrupt'' then fmlookup fs name else fmlookup fs k)"
    using assms(3) fresh(4) by (auto simp: fs1_def set_aside_def split: option.split spool_file.split)
  have "\<exists>c1 w1. replay_loop (\<lambda>e w. (okf e, upd e w)) readable movable removable (name # names) fs c w
      = replay_loop (\<lambda>e w. (okf e, upd e w)) readable movable removable names fs1 c1 w1"
    by (cases "okf (case the (fmlookup fs name) of SpoolEntry e \<Rightarrow> e | _ \<Rightarrow> undefined)")
      (auto simp: fs1_def split: option.split spool_file.split)
  then obtain c1 w1 where step: "replay_loop (\<lambda>e w. (okf e, upd e w)) readable movable removable (name # names) fs c w
      = replay_loop (\<lambda>e w. (okf e, upd e w)) readable movable removable names fs1 c1 w1" by blast
  note IH = Cons.IH [OF fresh(2,3), of fs1 c1 w1]
  show ?case unfolding step using IH own keep sa fresh(1) by (auto split: if_splits)
qed simp

text \<open>C27: Replaying loses nothing and runs everything it can, oldest name first.  Let \<open>names\<close> be the \<open>.json\<close>
  files of the directory in ascending order.  The runs started are exactly those of the readable
  parked deliveries whose hook exists and whose start succeeded, in that order; the deliveries of a
  missing hook are dropped with an event.  A delivery that was neither is still parked, byte for
  byte.  A readable file that does not parse never blocks the others: it disappears from the
  queue only by being set aside, its contents then being under its name with \<open>.corrupt\<close> appended.
  Every other file of the directory is as before, and nothing is parked that was not.\<close>

theorem replay_loses_nothing:
  assumes "spool_Replay (replay_callback known starts) readable movable removable True s w = (n, s', w')"
    "sorted names" "distinct names" "set names = {k. fmlookup (sl_files s) k \<noteq> None \<and> has_suffix k ''.json''}"
  defines "deliveries \<equiv> concat (map (\<lambda>k. case fmlookup (sl_files s) k of
      Some (SpoolEntry e) \<Rightarrow> if readable k then [e] else [] | _ \<Rightarrow> []) names)"
  shows "rw_started w' = rw_started w @ filter (\<lambda>e. known (sp_HookID e) \<and> starts e) deliveries
     \<and> rw_dropped w' = rw_dropped w @ map sp_HookID (filter (\<lambda>e. \<not> known (sp_HookID e)) deliveries)
     \<and> n = length (filter (\<lambda>e. known (sp_HookID e) \<longrightarrow> starts e) deliveries)
     \<and> (\<forall>k e. k \<in> set names \<and> fmlookup (sl_files s) k = Some (SpoolEntry e) \<longrightarrow>
          fmlookup (sl_files s') k = (if readable k \<and> (known (sp_HookID e) \<longrightarrow> starts e) \<and> removable k then None else Some (SpoolEntry e)))
     \<and> (\<forall>k g. k \<in> set names \<and> fmlookup (sl_files s) k = Some (SpoolGarbage g) \<longrightarrow>
          (if readable k \<and> movable k then fmlookup (sl_files s') k = None \<and> fmlookup (sl_files s') (k @ ''.corrupt'') = Some (SpoolGarbage g)
           else fmlookup (sl_files s') k = Some (SpoolGarbage g)))
     \<and> (\<forall>k. k \<notin> set names \<and> (\<forall>m \<in> set names. k \<noteq> m @ ''.corrupt'' \<or> \<not> set_aside readable movable (sl_files s) m) \<longrightarrow>
          fmlookup (sl_files s') k = fmlookup (sl_files s) k)"
proof -
  let ?ok = "\<lambda>e. known (sp_HookID e) \<longrightarrow> starts e"
  let ?upd = "\<lambda>e w. snd (replay_callback known starts e w)"
  have names: "spool_names s = names"
    using assms(2-4) spool_names_props(1,2) [of s] spool_names_props(3) [where s = s] by (intro sorted_distinct_set_unique) (auto simp: fmlookup_dom_iff)
  have l: "replay_loop (\<lambda>e w. (?ok e, ?upd e w)) readable movable removable names (sl_files s) 0 w = (n, sl_files s', w')"
    using assms(1) unfolding spool_Replay_def names
    by (subst (asm) replay_callback_form) (auto split: prod.splits)
  have js: "\<forall>k \<in> set names. has_suffix k ''.json''" using assms(4) by simp
  have d: "deliveries = handed readable names (sl_files s)" by (simp add: deliveries_def handed_def)
  note L = replay_loop_exact [OF assms(3) js, where okf = ?ok and upd = ?upd and readable = readable and movable = movable
      and removable = removable and fs = "sl_files s" and c = 0 and w = w, unfolded l]
  note A = replay_loop_aside [OF assms(3) js, where okf = ?ok and upd = ?upd and readable = readable and movable = movable
      and removable = removable and fs = "sl_files s" and c = 0 and w = w, unfolded l]
  have w': "w' = fold ?upd deliveries w" and n: "n = length (filter ?ok deliveries)"
    and fs: "\<And>k. has_suffix k ''.json'' \<Longrightarrow> fmlookup (sl_files s') k =
      (if k \<in> set names then after_replay ?ok readable movable removable k (fmlookup (sl_files s) k) else fmlookup (sl_files s) k)"
    using L by (simp_all add: d)
  have aside: "\<And>k. \<not> has_suffix (k @ ''.corrupt'') ''.json''" using json_not_corrupt by blast
  have g: "if readable k \<and> movable k then fmlookup (sl_files s') k = None \<and> fmlookup (sl_files s') (k @ ''.corrupt'') = Some (SpoolGarbage g)
      else fmlookup (sl_files s') k = Some (SpoolGarbage g)" if "k \<in> set names" "fmlookup (sl_files s) k = Some (SpoolGarbage g)" for k g
    using that js fs [of k] A [OF aside [of k]] by (auto simp: after_replay_def set_aside_def)
  have e: "fmlookup (sl_files s') k = (if readable k \<and> ?ok e \<and> removable k then None else Some (SpoolEntry e))"
    if "k \<in> set names" "fmlookup (sl_files s) k = Some (SpoolEntry e)" for k e
    using that js fs [of k] by (simp add: after_replay_def)
  have o': "fmlookup (sl_files s') k = fmlookup (sl_files s) k"
    if "k \<notin> set names" "\<forall>m \<in> set names. k \<noteq> m @ ''.corrupt'' \<or> \<not> set_aside readable movable (sl_files s) m" for k
    using that fs [of k] A [of k] by (cases "has_suffix k ''.json''") auto
  show ?thesis using fold_callback [of known starts deliveries w] e g o' by (auto simp: w' n)
qed

theorem replay_loses_nothing_witness:
  "let e = \<lparr>sp_ID = ''i'', sp_HookID = ''h'', sp_Title = [], sp_Headers = fmempty, sp_Body = ''b'', sp_Received = 7\<rparr>;
       s = \<lparr>sl_files = fmupd ''2.json'' (SpoolGarbage 3) (fmupd ''1.json'' (SpoolEntry e) fmempty), sl_maxEntries = 10, sl_maxBytes = 100\<rparr>;
       (n, s', w') = spool_Replay (replay_callback (\<lambda>_. True) (\<lambda>_. False)) (\<lambda>_. True) (\<lambda>_. True) (\<lambda>_. True) True s \<lparr>rw_started = [], rw_dropped = []\<rparr>
   in fmlookup (sl_files s') ''1.json'' = Some (SpoolEntry e) \<and> fmlookup (sl_files s') ''2.json'' = None
     \<and> fmlookup (sl_files s') ''2.json.corrupt'' = Some (SpoolGarbage 3)"
proof -
  let ?e = "\<lparr>sp_ID = ''i'', sp_HookID = ''h'', sp_Title = [], sp_Headers = fmempty, sp_Body = ''b'', sp_Received = 7\<rparr> :: spool_entry"
  let ?s = "\<lparr>sl_files = fmupd ''2.json'' (SpoolGarbage 3) (fmupd ''1.json'' (SpoolEntry ?e) fmempty), sl_maxEntries = 10, sl_maxBytes = 100\<rparr> :: spool"
  obtain n s' w' where r: "spool_Replay (replay_callback (\<lambda>_. True) (\<lambda>_. False)) (\<lambda>_. True) (\<lambda>_. True) (\<lambda>_. True) True ?s
      \<lparr>rw_started = [], rw_dropped = []\<rparr> = (n, s', w')" by (rule prod_cases3)
  have "sorted [''1.json'', ''2.json'']" "distinct [''1.json'', ''2.json'']"
    "set [''1.json'', ''2.json''] = {k. fmlookup (sl_files ?s) k \<noteq> None \<and> has_suffix k ''.json''}"
    by (auto simp: has_suffix_def less_eq_char_def)
  note R = replay_loses_nothing [OF r this]
  have "fmlookup (sl_files s') ''2.json'' = None \<and> fmlookup (sl_files s') (''2.json'' @ ''.corrupt'') = Some (SpoolGarbage 3)"
    using R [THEN conjunct2, THEN conjunct2, THEN conjunct2, THEN conjunct2, THEN conjunct1, rule_format, of "''2.json''" 3] by simp
  moreover have "fmlookup (sl_files s') ''1.json'' = Some (SpoolEntry ?e)"
    using R [THEN conjunct2, THEN conjunct2, THEN conjunct2, THEN conjunct1, rule_format, of "''1.json''" ?e] by simp
  ultimately show ?thesis unfolding Let_def r by simp
qed

text \<open>A parked delivery is the delivery: what \<open>spoolDelivery\<close> accepts is on disk as an entry with the same
  hook, title, headers and body under a name of its own receipt time, nothing else changes unless the
  very same name existed, a full spool or a failed write parks nothing and says so; and the names list
  deliveries in the order in which they were received.\<close>

theorem parked_delivery_kept:
  assumes "spoolDelivery enc rd ok fresh now hookID title headers body (Some s) = (Some eid, Some s')" "now \<noteq> 0"
  shows "eid = fresh \<and> fmlookup (sl_files s') (entryName now fresh) =
       Some (SpoolEntry \<lparr>sp_ID = fresh, sp_HookID = hookID, sp_Title = title, sp_Headers = headers, sp_Body = body, sp_Received = now\<rparr>)
     \<and> entryName now fresh \<in> set (spool_names s')
     \<and> (\<forall>k. k \<noteq> entryName now fresh \<longrightarrow> fmlookup (sl_files s') k = fmlookup (sl_files s) k)
     \<and> int (length (spool_names s)) < sl_maxEntries s
     \<and> (\<forall>t i. 0 \<le> UnixNano t \<and> 0 \<le> UnixNano now \<and> UnixNano t < UnixNano now \<longrightarrow> entryName t i < entryName now fresh)"
proof -
  have s': "s' = s\<lparr>sl_files := fmupd (entryName now fresh) (SpoolEntry \<lparr>sp_ID = fresh, sp_HookID = hookID, sp_Title = title,
      sp_Headers = headers, sp_Body = body, sp_Received = now\<rparr>) (sl_files s)\<rparr>" "eid = fresh" "int (length (spool_names s)) < sl_maxEntries s"
    using assms by (auto simp: spoolDelivery_def spool_Put_def spool_usage_def Let_def split: if_splits sum.splits)
  have "has_suffix (entryName now fresh) ''.json''"
    using has_suffix_append [of "pad20 (UnixNano now) @ ''-'' @ fresh" "''.json''"] by (simp add: entryName_def)
  then have "entryName now fresh \<in> set (spool_names s')" by (simp add: spool_names_props s')
  moreover have "entryName t i < entryName now fresh" if "0 \<le> UnixNano t \<and> 0 \<le> UnixNano now \<and> UnixNano t < UnixNano now" for t i
    using entryName_mono [of now t fresh i] that by (meson leI not_le)
  ultimately show ?thesis using s' by auto
qed

theorem parked_delivery_kept_witness:
  "let s = \<lparr>sl_files = fmempty, sl_maxEntries = 10, sl_maxBytes = 100\<rparr>;
       (r, so) = spoolDelivery (\<lambda>_. 0) True True ''id'' 7 ''h'' ''t'' fmempty ''body'' (Some s)
   in r = Some ''id'' \<and> (\<exists>s'. so = Some s' \<and> entryName 7 ''id'' \<in> set (spool_names s'))"
proof -
  let ?s = "\<lparr>sl_files = fmempty, sl_maxEntries = 10, sl_maxBytes = 100\<rparr> :: spool"
  obtain s' where d: "spoolDelivery (\<lambda>_. 0) True True ''id'' 7 ''h'' ''t'' fmempty ''body'' (Some ?s) = (Some ''id'', Some s')"
    by (simp add: spoolDelivery_def spool_Put_def spool_usage_def spool_names_def sorted_list_of_fset.rep_eq)
  from parked_delivery_kept [OF d] d show ?thesis by simp
qed

end
