(* ===== verification/StateApi.thy ===== *)
theory StateApi
  imports KvLock KvToken Backlog Events Tracker Title
begin

text \<open>
  Model of the state port, the HTTP interface hook containers use for their own data:
  \<^verbatim>\<open>internal/server/state.go\<close>, \<^verbatim>\<open>statebacklog.go\<close>, \<^verbatim>\<open>title.go\<close> and \<^verbatim>\<open>phase.go\<close>, as a client of
  the key/value store, the token verifier, the backlog, the run tracker and the activity feed.

  A request is a record; a response is a status code with a body.  Reading the request body fails
  when it exceeds the handler's bound or when the connection breaks.  \<open>json.Unmarshal\<close> into a
  handler's request struct is an argument (\<open>Inl\<close> the decoder's error text), as are the texts of
  the stores' errors and the outcome of the disk writes.  The lemmas show that nothing happens
  without a valid token, and that a request can only reach the namespace its token names.
\<close>

record managed =
  mg_instanceID :: string
  mg_title :: string

record srv =
  sv_kv :: "kv_store option"
  sv_backlogs :: "bl_store option"
  sv_tracker :: "tracker option"
  sv_managers :: "(string, managed) fmap option"
  sv_events :: recorder

datatype resp_body = REmpty | RError string | RBytes string | RKeys "string list" | RValue int
  | RPush bl_push_result | RTake "string list" nat | RStat string nat | RStats "(string \<times> nat) list"

type_synonym response = "int \<times> resp_body"

record request =
  rq_header :: header
  rq_ttl :: string
  rq_name :: string
  rq_body :: string
  rq_broken :: "string option"

definition writeError :: "int \<Rightarrow> string \<Rightarrow> response" where
  "writeError code msg = (code, RError msg)"

text \<open>\<open>io.ReadAll(http.MaxBytesReader(\<dots>))\<close>: the text of the error, and whether it is a
  \<open>MaxBytesError\<close>.\<close>

definition read_body :: "int \<Rightarrow> request \<Rightarrow> (bool \<times> string) + string" where
  "read_body limit rq =
     (if int (length (rq_body rq)) > limit then Inl (True, ''http: request body too large'')
      else case rq_broken rq of Some err \<Rightarrow> Inl (False, err) | None \<Rightarrow> Inr (rq_body rq))"

definition header_Get :: "header \<Rightarrow> string \<Rightarrow> string" where
  "header_Get h name = (case header_Values h name of [] \<Rightarrow> [] | v # _ \<Rightarrow> v)"

definition bearerToken :: "request \<Rightarrow> string" where
  "bearerToken rq =
     (let prefix = ''Bearer ''; h = header_Get (rq_header rq) ''Authorization'' in
      if length h > length prefix \<and> map to_lower (take (length prefix) h) = map to_lower prefix
      then trim_space (drop (length prefix) h) else [])"

text \<open>\<open>time.Duration(secs) * time.Second\<close> is a 64-bit product.\<close>

definition parseTTL :: "request \<Rightarrow> string + duration" where
  "parseTTL rq =
     (let raw = header_Get (rq_header rq) ''X-KV-TTL'';
          raw = (if raw = [] then rq_ttl rq else raw) in
      if raw = [] then Inr 0
      else case parse_int raw of None \<Rightarrow> Inl ''invalid ttl: must be whole seconds''
        | Some secs \<Rightarrow> if secs < 0 then Inl ''invalid ttl: must not be negative''
                       else Inr (wrap64 (secs * Second)))"

definition sv_record :: "time \<Rightarrow> string \<Rightarrow> string \<Rightarrow> (string \<times> string) list \<Rightarrow> srv \<Rightarrow> srv" where
  "sv_record now kind msg fs s = s\<lparr>sv_events := Record now kind msg (fmap_of_list fs) (sv_events s)\<rparr>"

definition writeKVError :: "(kv_error \<Rightarrow> string) \<Rightarrow> time \<Rightarrow> string \<Rightarrow> kv_error \<Rightarrow> srv \<Rightarrow> response \<times> srv" where
  "writeKVError txt now ns err s =
     (if err = ErrValueTooLarge then (writeError 413 (txt err), s)
      else if err = ErrTooManyNS then (writeError 507 (txt err), s)
      else if err = ErrNotInteger then (writeError 409 (txt err), s)
      else if err = ErrLockHeld then (writeError 409 (txt err), s)
      else if err = ErrLockPinned then (writeError 409 (txt err), s)
      else if err = ErrLockNotHeld then (writeError 404 (txt err), s)
      else if err = ErrBadNamespace then (writeError 400 (txt err), s)
      else (writeError 500 (''state store error: '' @ txt err),
            sv_record now ''kv.write_failed'' (ns @ '': state write failed (rolled back): '' @ txt err) [(''hook'', ns)] s))"

subsection \<open>Key/value verbs\<close>

text \<open>The handlers run behind \<^emph>\<open>withNamespace\<close>, which has checked that the store is configured; they
  take it as \<open>kv\<close> and return it updated.\<close>

definition handleKVGet :: "time \<Rightarrow> request \<Rightarrow> string \<Rightarrow> kv_store \<Rightarrow> response" where
  "handleKVGet now rq ns kv = (case kv_Get kv ns (rq_name rq) now of
     None \<Rightarrow> writeError 404 ''key not found'' | Some v \<Rightarrow> (200, RBytes v))"

definition handleKVPut :: "(kv_error \<Rightarrow> string) \<Rightarrow> time \<Rightarrow> bool \<Rightarrow> request \<Rightarrow> string \<Rightarrow> kv_store \<Rightarrow> srv \<Rightarrow> response \<times> srv" where
  "handleKVPut txt now pok rq ns kv s =
     (case read_body (kv_MaxValueBytes (kv_cfg kv) + 1) rq of
        Inl (True, _) \<Rightarrow> (writeError 413 ''value too large'', s)
      | Inl (False, err) \<Rightarrow> (writeError 400 (''read body: '' @ err), s)
      | Inr body \<Rightarrow> (case parseTTL rq of Inl err \<Rightarrow> (writeError 400 err, s)
          | Inr ttl \<Rightarrow> (case kv_Set ns (rq_name rq) body ttl now pok kv of
              (Inl err, kv') \<Rightarrow> writeKVError txt now ns err (s\<lparr>sv_kv := Some kv'\<rparr>)
            | (Inr _, kv') \<Rightarrow> ((204, REmpty), s\<lparr>sv_kv := Some kv'\<rparr>))))"

definition handleKVDelete :: "(kv_error \<Rightarrow> string) \<Rightarrow> time \<Rightarrow> bool \<Rightarrow> request \<Rightarrow> string \<Rightarrow> kv_store \<Rightarrow> srv \<Rightarrow> response \<times> srv" where
  "handleKVDelete txt now pok rq ns kv s =
     (case kv_Delete ns (rq_name rq) pok kv of
        (Inl err, kv') \<Rightarrow> writeKVError txt now ns err (s\<lparr>sv_kv := Some kv'\<rparr>)
      | (Inr _, kv') \<Rightarrow> ((204, REmpty), s\<lparr>sv_kv := Some kv'\<rparr>))"

definition handleKVList :: "time \<Rightarrow> string \<Rightarrow> kv_store \<Rightarrow> response" where
  "handleKVList now ns kv = (200, RKeys (kv_List kv ns now))"

definition maxIncrBody :: int where "maxIncrBody = 512"

definition handleKVIncr :: "(kv_error \<Rightarrow> string) \<Rightarrow> (string \<Rightarrow> string + int option) \<Rightarrow> time \<Rightarrow> bool \<Rightarrow> request \<Rightarrow> string \<Rightarrow> kv_store \<Rightarrow> srv \<Rightarrow> response \<times> srv" where
  "handleKVIncr txt decode now pok rq ns kv s =
     (case read_body maxIncrBody rq of
        Inl (_, err) \<Rightarrow> (writeError 400 (''read body: '' @ err), s)
      | Inr body \<Rightarrow>
          (case (if trim_space body = [] then Inr None else decode body) of
             Inl err \<Rightarrow> (writeError 400 (''invalid body: '' @ err), s)
           | Inr d \<Rightarrow>
               let delta = (case d of None \<Rightarrow> 1 | Some d \<Rightarrow> d) in
               (case parseTTL rq of Inl err \<Rightarrow> (writeError 400 err, s)
                | Inr ttl \<Rightarrow> (case kv_Incr ns (rq_name rq) delta ttl now pok kv of
                    (Inl err, kv') \<Rightarrow> writeKVError txt now ns err (s\<lparr>sv_kv := Some kv'\<rparr>)
                  | (Inr n, kv') \<Rightarrow> ((200, RValue n), s\<lparr>sv_kv := Some kv'\<rparr>)))))"

text \<open>The lock verbs that are one store call each (\<^verbatim>\<open>statelock.go\<close>).\<close>

definition handleKVRelease :: "(kv_error \<Rightarrow> string) \<Rightarrow> time \<Rightarrow> request \<Rightarrow> string \<Rightarrow> string \<Rightarrow> kv_store \<Rightarrow> srv \<Rightarrow> response \<times> srv" where
  "handleKVRelease txt now rq ns runID kv s =
     (case ReleaseLock ns (rq_name rq) runID kv of
        (Some err, kv') \<Rightarrow> writeKVError txt now ns err (s\<lparr>sv_kv := Some kv'\<rparr>)
      | (None, kv') \<Rightarrow> ((204, REmpty), s\<lparr>sv_kv := Some kv'\<rparr>))"

definition handleKVPin :: "(kv_error \<Rightarrow> string) \<Rightarrow> time \<Rightarrow> request \<Rightarrow> string \<Rightarrow> string \<Rightarrow> kv_store \<Rightarrow> srv \<Rightarrow> response \<times> srv" where
  "handleKVPin txt now rq ns runID kv s =
     (case PinLock ns (rq_name rq) runID kv of
        (Some err, kv') \<Rightarrow> writeKVError txt now ns err (s\<lparr>sv_kv := Some kv'\<rparr>)
      | (None, kv') \<Rightarrow> ((204, REmpty), s\<lparr>sv_kv := Some kv'\<rparr>))"

definition handleKVUnpin :: "(kv_error \<Rightarrow> string) \<Rightarrow> time \<Rightarrow> request \<Rightarrow> string \<Rightarrow> string \<Rightarrow> kv_store \<Rightarrow> srv \<Rightarrow> response \<times> srv" where
  "handleKVUnpin txt now rq ns runID kv s =
     (case UnpinLock ns (rq_name rq) runID kv of
        (Some err, kv') \<Rightarrow> writeKVError txt now ns err (s\<lparr>sv_kv := Some kv'\<rparr>)
      | (None, kv') \<Rightarrow> ((204, REmpty), s\<lparr>sv_kv := Some kv'\<rparr>))"

subsection \<open>Backlog verbs\<close>

definition maxBacklogBody :: int where "maxBacklogBody = 256 * 1024"
definition maxBacklogTake :: int where "maxBacklogTake = 1000"

definition writeBacklogError :: "(bl_error \<Rightarrow> string) \<Rightarrow> time \<Rightarrow> string \<Rightarrow> bl_error \<Rightarrow> srv \<Rightarrow> response \<times> srv" where
  "writeBacklogError txt now ns err s =
     (if err = BlErrItemTooLarge then (writeError 413 (txt err), s)
      else if err = BlErrTooManyQueues \<or> err = BlErrTooManyNS then (writeError 507 (txt err), s)
      else if err = BlErrBadName \<or> err = BlErrBadNamespace \<or> err = BlErrEmptyItem then (writeError 400 (txt err), s)
      else (writeError 500 (''backlog store error: '' @ txt err),
            sv_record now ''backlog.write_failed'' (ns @ '': backlog write failed (rolled back): '' @ txt err) [(''hook'', ns)] s))"

definition handleBacklogPush :: "(bl_error \<Rightarrow> string) \<Rightarrow> (string \<Rightarrow> string + string list) \<Rightarrow> time \<Rightarrow> bool \<Rightarrow> request \<Rightarrow> string \<Rightarrow> srv \<Rightarrow> response \<times> srv" where
  "handleBacklogPush txt decode now ok rq ns s =
     (case sv_backlogs s of None \<Rightarrow> (writeError 503 ''backlog store not configured'', s)
      | Some b \<Rightarrow> (case read_body maxBacklogBody rq of Inl (_, err) \<Rightarrow> (writeError 400 (''read body: '' @ err), s)
          | Inr body \<Rightarrow> (case decode body of Inl err \<Rightarrow> (writeError 400 (''invalid body: '' @ err), s)
              | Inr items \<Rightarrow>
                  if items = [] then (writeError 400 ''items must be a non-empty array'', s)
                  else (case bl_Push ok ns (rq_name rq) items b of
                      (Inl err, b') \<Rightarrow> writeBacklogError txt now ns err (s\<lparr>sv_backlogs := Some b'\<rparr>)
                    | (Inr res, b') \<Rightarrow> ((200, RPush res), s\<lparr>sv_backlogs := Some b'\<rparr>)))))"

definition handleBacklogTake :: "(bl_error \<Rightarrow> string) \<Rightarrow> (string \<Rightarrow> string + int option) \<Rightarrow> time \<Rightarrow> bool \<Rightarrow> bool \<Rightarrow> request \<Rightarrow> string \<Rightarrow> srv \<Rightarrow> response \<times> srv" where
  "handleBacklogTake txt decode now ok ok2 rq ns s =
     (case sv_backlogs s of None \<Rightarrow> (writeError 503 ''backlog store not configured'', s)
      | Some b \<Rightarrow> (case read_body maxIncrBody rq of Inl (_, err) \<Rightarrow> (writeError 400 (''read body: '' @ err), s)
          | Inr body \<Rightarrow> (case (if body = [] then Inr None else decode body) of
                Inl err \<Rightarrow> (writeError 400 (''invalid body: '' @ err), s)
              | Inr c \<Rightarrow>
                  let count = (case c of None \<Rightarrow> 1 | Some c \<Rightarrow> c) in
                  if count < 1 \<or> count > maxBacklogTake then (writeError 400 ''invalid count: must be 1..1000'', s)
                  else (case bl_Take ok ok2 ns (rq_name rq) count b of
                      (Inl err, b') \<Rightarrow> writeBacklogError txt now ns err (s\<lparr>sv_backlogs := Some b'\<rparr>)
                    | (Inr (items, depth), b') \<Rightarrow> ((200, RTake items depth), s\<lparr>sv_backlogs := Some b'\<rparr>)))))"

definition handleBacklogStat :: "(bl_error \<Rightarrow> string) \<Rightarrow> request \<Rightarrow> string \<Rightarrow> srv \<Rightarrow> response" where
  "handleBacklogStat txt rq ns s =
     (case sv_backlogs s of None \<Rightarrow> writeError 503 ''backlog store not configured''
      | Some b \<Rightarrow> if \<not> bl_validName (rq_name rq) then writeError 400 (txt BlErrBadName)
                  else (200, RStat (rq_name rq) (bl_Depth b ns (rq_name rq))))"

definition handleBacklogList :: "string \<Rightarrow> srv \<Rightarrow> response" where
  "handleBacklogList ns s =
     (case sv_backlogs s of None \<Rightarrow> writeError 503 ''backlog store not configured''
      | Some b \<Rightarrow> (200, RStats (bl_List b ns)))"

subsection \<open>Runs and manager instances\<close>

definition upd_run :: "nat \<Rightarrow> (run \<Rightarrow> run) \<Rightarrow> tracker \<Rightarrow> tracker" where
  "upd_run p f t = t\<lparr>tk_heap := (tk_heap t)[p := f (tk_heap t ! p)]\<rparr>"

definition IsCurrentInstance :: "string \<Rightarrow> string \<Rightarrow> (string, managed) fmap \<Rightarrow> bool" where
  "IsCurrentInstance mid inst ms = (case fmlookup ms mid of None \<Rightarrow> False
     | Some mg \<Rightarrow> mg_instanceID mg \<noteq> [] \<and> mg_instanceID mg = inst)"

definition AnyCurrentInstance :: "string \<Rightarrow> (string, managed) fmap \<Rightarrow> bool" where
  "AnyCurrentInstance inst ms \<longleftrightarrow> inst \<noteq> [] \<and> list_ex (\<lambda>(_, mg). mg_instanceID mg = inst) (sorted_list_of_fmap ms)"

definition SetInstanceTitle :: "string \<Rightarrow> string \<Rightarrow> string \<Rightarrow> (string, managed) fmap \<Rightarrow> bool \<times> (string, managed) fmap" where
  "SetInstanceTitle mid inst title ms = (case fmlookup ms mid of None \<Rightarrow> (False, ms)
     | Some mg \<Rightarrow> if mg_instanceID mg = [] \<or> mg_instanceID mg \<noteq> inst then (False, ms)
                  else (True, fmupd mid (mg\<lparr>mg_title := title\<rparr>) ms))"

definition managerCaller :: "string \<Rightarrow> string \<Rightarrow> srv \<Rightarrow> bool" where
  "managerCaller ns inst s = (case sv_managers s of None \<Rightarrow> False | Some ms \<Rightarrow> IsCurrentInstance ns inst ms)"

text \<open>The caller's run, if it is tracked, of the right hook and not over.\<close>

definition active_run :: "string \<Rightarrow> string \<Rightarrow> tracker \<Rightarrow> nat option" where
  "active_run ns runID t = (case tk_Get runID t of None \<Rightarrow> None
     | Some p \<Rightarrow> if run_HookID (tk_heap t ! p) \<noteq> ns \<or> Terminal (run_Status (tk_heap t ! p)) then None else Some p)"

definition maxTitleBody :: int where "maxTitleBody = 4096"

definition handleRunTitle :: "(string \<Rightarrow> string + string) \<Rightarrow> request \<Rightarrow> string \<Rightarrow> string \<Rightarrow> srv \<Rightarrow> response \<times> srv" where
  "handleRunTitle decode rq ns runID s =
     (case read_body maxTitleBody rq of Inl (_, err) \<Rightarrow> (writeError 400 (''read body: '' @ err), s)
      | Inr body \<Rightarrow> (case decode body of Inl err \<Rightarrow> (writeError 400 (''invalid body: '' @ err), s)
          | Inr raw \<Rightarrow>
              let title = trim_space raw in
              if title = [] then (writeError 400 ''title is required: say what the run is about'', s)
              else if length title > MaxRunTitleLen
              then (writeError 400 (''title too long: max '' @ show_nat MaxRunTitleLen @ '' characters''), s)
              else (case sv_tracker s of None \<Rightarrow> (writeError 503 ''run tracking not configured'', s)
                | Some t \<Rightarrow> (case active_run ns runID t of
                    Some p \<Rightarrow> ((204, REmpty), s\<lparr>sv_tracker := Some (upd_run p (SetTitle title) t)\<rparr>)
                  | None \<Rightarrow>
                      if managerCaller ns runID s then
                        (case SetInstanceTitle ns runID title (the (sv_managers s)) of
                           (True, ms) \<Rightarrow> ((204, REmpty), s\<lparr>sv_managers := Some ms\<rparr>)
                         | (False, _) \<Rightarrow> (writeError 409 ''run is not active'', s))
                      else (writeError 409 ''run is not active'', s)))))"

definition handleContainerEntry :: "time \<Rightarrow> string \<Rightarrow> string \<Rightarrow> srv \<Rightarrow> response \<times> srv" where
  "handleContainerEntry now ns runID s =
     (case sv_tracker s of None \<Rightarrow> ((204, REmpty), s)
      | Some t \<Rightarrow> (case tk_Get runID t of None \<Rightarrow> ((204, REmpty), s)
          | Some p \<Rightarrow> if run_HookID (tk_heap t ! p) \<noteq> ns then ((204, REmpty), s)
                      else ((204, REmpty), s\<lparr>sv_tracker := Some (upd_run p (markAt PhaseContainerEntry now) t)\<rparr>)))"

subsection \<open>The mux\<close>

text \<open>The routes that are one call into the store, the backlogs, the tracker or the supervisor.  The five
  others the mux serves go through the same \<open>withNamespace\<close> and are modelled with the components they
  belong to: acquire and steal (\<open>StateLock\<close>), wait (\<open>Waits\<close>), the inbox pop (\<open>Inbox\<close>) and spawn, which
  starts runs of another hook under the caller's manifest (\<open>Trigger\<close>).\<close>

datatype verb = KVGet | KVPut | KVDelete | KVList | KVIncr | KVRelease | KVPin | KVUnpin
  | BacklogPush | BacklogTake | BacklogStat | BacklogList | RunTitle | ContainerEntry

text \<open>The decoders and error texts of one server, and what the disk does during one request.\<close>

record api_env =
  en_hmac :: "string \<Rightarrow> string"
  en_kv_text :: "kv_error \<Rightarrow> string"
  en_bl_text :: "bl_error \<Rightarrow> string"
  en_incr :: "string \<Rightarrow> string + int option"
  en_push :: "string \<Rightarrow> string + string list"
  en_take :: "string \<Rightarrow> string + int option"
  en_title :: "string \<Rightarrow> string + string"
  en_disk1 :: bool
  en_disk2 :: bool

definition handle_verb :: "api_env \<Rightarrow> time \<Rightarrow> verb \<Rightarrow> request \<Rightarrow> string \<Rightarrow> string \<Rightarrow> kv_store \<Rightarrow> srv \<Rightarrow> response \<times> srv" where
  "handle_verb en now v rq ns runID kv s = (case v of
     KVGet \<Rightarrow> (handleKVGet now rq ns kv, s)
   | KVPut \<Rightarrow> handleKVPut (en_kv_text en) now (en_disk1 en) rq ns kv s
   | KVDelete \<Rightarrow> handleKVDelete (en_kv_text en) now (en_disk1 en) rq ns kv s
   | KVList \<Rightarrow> (handleKVList now ns kv, s)
   | KVIncr \<Rightarrow> handleKVIncr (en_kv_text en) (en_incr en) now (en_disk1 en) rq ns kv s
   | KVRelease \<Rightarrow> handleKVRelease (en_kv_text en) now rq ns runID kv s
   | KVPin \<Rightarrow> handleKVPin (en_kv_text en) now rq ns runID kv s
   | KVUnpin \<Rightarrow> handleKVUnpin (en_kv_text en) now rq ns runID kv s
   | BacklogPush \<Rightarrow> handleBacklogPush (en_bl_text en) (en_push en) now (en_disk1 en) rq ns s
   | BacklogTake \<Rightarrow> handleBacklogTake (en_bl_text en) (en_take en) now (en_disk1 en) (en_disk2 en) rq ns s
   | BacklogStat \<Rightarrow> (handleBacklogStat (en_bl_text en) rq ns s, s)
   | BacklogList \<Rightarrow> (handleBacklogList ns s, s)
   | RunTitle \<Rightarrow> handleRunTitle (en_title en) rq ns runID s
   | ContainerEntry \<Rightarrow> handleContainerEntry now ns runID s)"

definition withNamespace :: "api_env \<Rightarrow> time \<Rightarrow> verb \<Rightarrow> request \<Rightarrow> srv \<Rightarrow> response \<times> srv" where
  "withNamespace en now v rq s =
     (case sv_kv s of None \<Rightarrow> (writeError 503 ''state store not configured'', s)
      | Some kv \<Rightarrow>
          let tok = bearerToken rq in
          if tok = [] then (writeError 401 ''missing bearer token'', s)
          else case VerifyToken (en_hmac en) tok of
            None \<Rightarrow> (writeError 401 ''invalid token'', s)
          | Some (ns, runID) \<Rightarrow> handle_verb en now v rq ns runID kv s)"

subsection \<open>A token confines its bearer to one namespace\<close>

definition kv_view :: "string \<Rightarrow> kv_store \<Rightarrow> kv_namespace option \<times> kv_file option \<times> (string, kv_lock_entry) fmap option" where
  "kv_view ns kv = (fmlookup (kv_ns kv) ns, fmlookup (kv_disk kv) (kv_filename ns), fmlookup (kv_locks kv) ns)"

lemma kv_filename_eq [simp]: "kv_filename a = kv_filename b \<longleftrightarrow> a = b"
  by (simp add: kv_filename_def)

definition bl_view :: "string \<Rightarrow> bl_store \<Rightarrow> bl_namespace option \<times> bl_namespace option" where
  "bl_view ns b = (fmlookup (bl_ns b) ns, fmlookup (bl_disk b) ns)"

definition run_view :: "string \<Rightarrow> tracker \<Rightarrow> string \<Rightarrow> (nat \<times> run) option" where
  "run_view ns t rid = (case tk_Get rid t of None \<Rightarrow> None
     | Some p \<Rightarrow> if run_HookID (tk_heap t ! p) = ns then Some (p, tk_heap t ! p) else None)"

text \<open>Everything a server keeps for one namespace: its keys in memory and on disk, its locks, its
  backlogs in memory and on disk, its tracked runs and its manager.\<close>

definition ns_view :: "string \<Rightarrow> srv \<Rightarrow> (kv_namespace option \<times> kv_file option \<times> (string, kv_lock_entry) fmap option) option
    \<times> (bl_namespace option \<times> bl_namespace option) option \<times> (string \<Rightarrow> (nat \<times> run) option) option \<times> managed option" where
  "ns_view ns s = (map_option (kv_view ns) (sv_kv s), map_option (bl_view ns) (sv_backlogs s),
     map_option (run_view ns) (sv_tracker s), Option.bind (sv_managers s) (\<lambda>ms. fmlookup ms ns))"

text \<open>What a request may see of the other namespaces: the limits, and how many namespaces there are.\<close>

definition capacity :: "srv \<Rightarrow> (kv_config \<times> int) option \<times> (bl_config \<times> int) option" where
  "capacity s = (map_option (\<lambda>kv. (kv_cfg kv, fmlen (kv_ns kv))) (sv_kv s),
     map_option (\<lambda>b. (bl_cfg b, fmlen (bl_ns b))) (sv_backlogs s))"

lemma ns_view_record [simp]: "ns_view ns (sv_record now kind msg fs s) = ns_view ns s"
  by (simp add: ns_view_def sv_record_def)

lemma ns_view_kv_error [simp]: "ns_view ns' (snd (writeKVError txt now ns err s)) = ns_view ns' s"
  by (simp add: writeKVError_def)

lemma ns_view_bl_error [simp]: "ns_view ns' (snd (writeBacklogError txt now ns err s)) = ns_view ns' s"
  by (simp add: writeBacklogError_def)

lemma kv_view_writes:
  assumes "ns' \<noteq> ns"
  shows "kv_view ns' (snd (kv_Set ns key v ttl now pok kv)) = kv_view ns' kv"
    "kv_view ns' (snd (kv_Delete ns key pok kv)) = kv_view ns' kv"
    "kv_view ns' (snd (kv_Incr ns key d ttl now pok kv)) = kv_view ns' kv"
  using assms by (auto simp: kv_view_def kv_Set_def kv_Delete_def kv_Incr_def kv_write_defs Let_def split: option.splits if_splits)

lemma kv_view_locks:
  assumes "ns' \<noteq> ns"
  shows "kv_view ns' (snd (ReleaseLock ns key r kv)) = kv_view ns' kv"
    "kv_view ns' (snd (PinLock ns key r kv)) = kv_view ns' kv"
    "kv_view ns' (snd (UnpinLock ns key r kv)) = kv_view ns' kv"
  using assms by (auto simp: kv_view_def ReleaseLock_def PinLock_def UnpinLock_def setPinLocked_def split: option.splits)

lemma bl_view_writes:
  assumes "ns' \<noteq> ns"
  shows "bl_view ns' (snd (bl_Push ok ns name items b)) = bl_view ns' b"
    "bl_view ns' (snd (bl_Take ok ok2 ns name n b)) = bl_view ns' b"
  using assms by (auto simp: bl_view_def bl_Push_def bl_Take_def bl_persist_def bl_rollback_def Let_def case_prod_beta split: option.splits)

lemma run_view_upd:
  assumes "run_HookID (tk_heap t ! p) \<noteq> ns'" "run_HookID (f (tk_heap t ! p)) = run_HookID (tk_heap t ! p)"
  shows "run_view ns' (upd_run p f t) = run_view ns' t"
proof
  fix rid
  show "run_view ns' (upd_run p f t) rid = run_view ns' t rid"
  proof (cases "tk_Get rid t")
    case (Some q)
    have "tk_heap (upd_run p f t) ! q = (if q = p \<and> p < length (tk_heap t) then f (tk_heap t ! p) else tk_heap t ! q)"
      by (cases "p < length (tk_heap t)") (auto simp: upd_run_def list_update_beyond)
    moreover have "tk_Get rid (upd_run p f t) = Some q" using Some by (simp add: upd_run_def tk_Get_def)
    ultimately show ?thesis using Some assms by (auto simp: run_view_def)
  qed (simp add: run_view_def upd_run_def tk_Get_def)
qed

lemma SetTitle_hook [simp]: "run_HookID (SetTitle title r) = run_HookID r"
  by (simp add: SetTitle_def run_HookID_def owe_notify_def Let_def)

lemma markAt_hook [simp]: "run_HookID (markAt ph now r) = run_HookID r"
  by (simp add: markAt_def markAtLocked_def run_HookID_def split: option.split)

lemma active_run_hook: "active_run ns runID t = Some p \<Longrightarrow> run_HookID (tk_heap t ! p) = ns"
  by (simp add: active_run_def split: option.splits if_splits)

lemma ns_view_kv_put:
  assumes "sv_kv s = Some kv" "kv_view ns kv' = kv_view ns kv"
  shows "ns_view ns (s\<lparr>sv_kv := Some kv'\<rparr>) = ns_view ns s"
  using assms by (simp add: ns_view_def)

lemma ns_view_bl_put:
  assumes "sv_backlogs s = Some b" "bl_view ns b' = bl_view ns b"
  shows "ns_view ns (s\<lparr>sv_backlogs := Some b'\<rparr>) = ns_view ns s"
  using assms by (simp add: ns_view_def)

text \<open>Each handler leaves the other namespaces as they are.\<close>

lemma handlers_isolated_kv:
  assumes "ns' \<noteq> ns" "sv_kv s = Some kv"
  shows "ns_view ns' (snd (handleKVPut txt now ok rq ns kv s)) = ns_view ns' s"
    "ns_view ns' (snd (handleKVDelete txt now ok rq ns kv s)) = ns_view ns' s"
    "ns_view ns' (snd (handleKVIncr txt dec now ok rq ns kv s)) = ns_view ns' s"
    "ns_view ns' (snd (handleKVRelease txt now rq ns r kv s)) = ns_view ns' s"
    "ns_view ns' (snd (handleKVPin txt now rq ns r kv s)) = ns_view ns' s"
    "ns_view ns' (snd (handleKVUnpin txt now rq ns r kv s)) = ns_view ns' s"
proof -
  have put: "kv_view ns' kv' = kv_view ns' kv \<Longrightarrow> ns_view ns' (s\<lparr>sv_kv := Some kv'\<rparr>) = ns_view ns' s" for kv'
    using ns_view_kv_put [OF assms(2)] .
  note W = kv_view_writes [OF assms(1)] kv_view_locks [OF assms(1)]
  show "ns_view ns' (snd (handleKVPut txt now ok rq ns kv s)) = ns_view ns' s"
    using put [OF W(1)] by (simp add: handleKVPut_def case_prod_beta split: sum.split bool.split)
  show "ns_view ns' (snd (handleKVDelete txt now ok rq ns kv s)) = ns_view ns' s"
    using put [OF W(2)] by (auto simp: handleKVDelete_def case_prod_beta split: sum.splits)
  show "ns_view ns' (snd (handleKVIncr txt dec now ok rq ns kv s)) = ns_view ns' s"
    using put [OF W(3)] by (auto simp: handleKVIncr_def case_prod_beta Let_def split: sum.splits)
  show "ns_view ns' (snd (handleKVRelease txt now rq ns r kv s)) = ns_view ns' s"
    using put [OF W(4)] by (auto simp: handleKVRelease_def case_prod_beta split: option.splits)
  show "ns_view ns' (snd (handleKVPin txt now rq ns r kv s)) = ns_view ns' s"
    using put [OF W(5)] by (auto simp: handleKVPin_def case_prod_beta split: option.splits)
  show "ns_view ns' (snd (handleKVUnpin txt now rq ns r kv s)) = ns_view ns' s"
    using put [OF W(6)] by (auto simp: handleKVUnpin_def case_prod_beta split: option.splits)
qed

lemma handlers_isolated_bl:
  assumes "ns' \<noteq> ns"
  shows "ns_view ns' (snd (handleBacklogPush txt dec now ok rq ns s)) = ns_view ns' s"
    "ns_view ns' (snd (handleBacklogTake txt dec' now ok ok2 rq ns s)) = ns_view ns' s"
proof -
  have put: "sv_backlogs s = Some b \<Longrightarrow> bl_view ns' b' = bl_view ns' b \<Longrightarrow> ns_view ns' (s\<lparr>sv_backlogs := Some b'\<rparr>) = ns_view ns' s" for b b'
    using ns_view_bl_put .
  note W = bl_view_writes [OF assms]
  show "ns_view ns' (snd (handleBacklogPush txt dec now ok rq ns s)) = ns_view ns' s"
    using put [OF _ W(1)] by (auto simp: handleBacklogPush_def case_prod_beta split: option.splits sum.splits)
  show "ns_view ns' (snd (handleBacklogTake txt dec' now ok ok2 rq ns s)) = ns_view ns' s"
    using put [OF _ W(2)] by (auto simp: handleBacklogTake_def case_prod_beta Let_def split: option.splits sum.splits)
qed

lemma handlers_isolated_run:
  assumes "ns' \<noteq> ns"
  shows "ns_view ns' (snd (handleRunTitle dec rq ns r s)) = ns_view ns' s"
    "ns_view ns' (snd (handleContainerEntry now ns r s)) = ns_view ns' s"
proof -
  have title: "active_run ns r t = Some p \<Longrightarrow> run_view ns' (upd_run p (SetTitle x) t) = run_view ns' t" for t p x
    using assms by (intro run_view_upd) (auto dest: active_run_hook)
  show "ns_view ns' (snd (handleRunTitle dec rq ns r s)) = ns_view ns' s"
    using assms title by (auto simp: handleRunTitle_def SetInstanceTitle_def managerCaller_def Let_def ns_view_def case_prod_beta
        split: option.splits sum.splits)
  show "ns_view ns' (snd (handleContainerEntry now ns r s)) = ns_view ns' s"
    using assms by (auto simp: handleContainerEntry_def ns_view_def intro!: run_view_upd split: option.splits)
qed


definition api_example_env :: api_env where
  "api_example_env = \<lparr>en_hmac = (\<lambda>m. take 32 (m @ replicate 32 (CHR ''x''))), en_kv_text = (\<lambda>_. ''e''), en_bl_text = (\<lambda>_. ''e''),
     en_incr = (\<lambda>_. Inr None), en_push = (\<lambda>_. Inr []), en_take = (\<lambda>_. Inr None), en_title = Inr, en_disk1 = True, en_disk2 = True\<rparr>"

definition api_example_srv :: srv where
  "api_example_srv = \<lparr>sv_kv = Some lk_example, sv_backlogs = None, sv_tracker = Some NewTracker, sv_managers = None,
     sv_events = NewRecorder 10\<rparr>"

definition api_example_request :: request where
  "api_example_request = \<lparr>rq_header = fmupd ''Authorization'' [''Bearer '' @ Token (en_hmac api_example_env) ''h'' ''r1''] fmempty,
     rq_ttl = [], rq_name = ''k'', rq_body = ''v'', rq_broken = None\<rparr>"

lemma api_example_token: "VerifyToken (en_hmac api_example_env) (bearerToken api_example_request) = Some (''h'', ''r1'')"
  by code_simp


subsection \<open>A response depends on the caller's namespace only\<close>

lemma kv_view_results:
  assumes "kv_view ns kv = kv_view ns kv2" "kv_cfg kv = kv_cfg kv2" "fmlen (kv_ns kv) = fmlen (kv_ns kv2)"
  shows "fst (kv_Set ns key v ttl now pok kv) = fst (kv_Set ns key v ttl now pok kv2)"
    "fst (kv_Delete ns key pok kv) = fst (kv_Delete ns key pok kv2)"
    "fst (kv_Incr ns key d ttl now pok kv) = fst (kv_Incr ns key d ttl now pok kv2)"
    "kv_Get kv ns key now = kv_Get kv2 ns key now"
    "kv_List kv ns now = kv_List kv2 ns now"
  using assms
  by (auto simp: kv_view_def kv_Set_def kv_Delete_def kv_Incr_def kv_Get_def kv_List_def kv_persist_def kv_map_def Let_def
      split: option.splits)

lemma kv_view_lock_results:
  assumes "kv_view ns kv = kv_view ns kv2"
  shows "fst (ReleaseLock ns key r kv) = fst (ReleaseLock ns key r kv2)"
    "fst (PinLock ns key r kv) = fst (PinLock ns key r kv2)"
    "fst (UnpinLock ns key r kv) = fst (UnpinLock ns key r kv2)"
  using assms by (auto simp: kv_view_def ReleaseLock_def PinLock_def UnpinLock_def setPinLocked_def split: option.splits)

lemma bl_view_results:
  assumes "bl_view ns b = bl_view ns b2" "bl_cfg b = bl_cfg b2" "fmlen (bl_ns b) = fmlen (bl_ns b2)"
  shows "fst (bl_Push ok ns name items b) = fst (bl_Push ok ns name items b2)"
    "fst (bl_Take ok ok2 ns name n b) = fst (bl_Take ok ok2 ns name n b2)"
    "bl_Depth b ns name = bl_Depth b2 ns name" "bl_List b ns = bl_List b2 ns"
  using assms
  by (auto simp: bl_view_def bl_Push_def bl_Take_def bl_Depth_def bl_List_def bl_queue_def bl_persist_def Let_def case_prod_beta
      split: option.splits)

lemma active_run_view: "active_run ns r t = (case run_view ns t r of None \<Rightarrow> None
   | Some (p, run) \<Rightarrow> if Terminal (run_Status run) then None else Some p)"
  by (auto simp: active_run_def run_view_def split: option.splits)

text \<open>The response half of an error depends on the error alone.\<close>

definition kv_error_response :: "(kv_error \<Rightarrow> string) \<Rightarrow> kv_error \<Rightarrow> response" where
  "kv_error_response txt err = fst (writeKVError txt 0 [] err (undefined :: srv))"

definition bl_error_response :: "(bl_error \<Rightarrow> string) \<Rightarrow> bl_error \<Rightarrow> response" where
  "bl_error_response txt err = fst (writeBacklogError txt 0 [] err (undefined :: srv))"

lemma fst_writeKVError [simp]: "fst (writeKVError txt now ns err s) = kv_error_response txt err"
  unfolding kv_error_response_def writeKVError_def by simp

lemma fst_writeBacklogError [simp]: "fst (writeBacklogError txt now ns err s) = bl_error_response txt err"
  unfolding bl_error_response_def writeBacklogError_def by simp

lemma responses_agree_kv:
  assumes "kv_view ns kv = kv_view ns kv2" "kv_cfg kv = kv_cfg kv2" "fmlen (kv_ns kv) = fmlen (kv_ns kv2)"
  shows "fst (handleKVPut txt now ok rq ns kv s) = fst (handleKVPut txt now ok rq ns kv2 s2)"
    "fst (handleKVDelete txt now ok rq ns kv s) = fst (handleKVDelete txt now ok rq ns kv2 s2)"
    "fst (handleKVIncr txt dec now ok rq ns kv s) = fst (handleKVIncr txt dec now ok rq ns kv2 s2)"
    "fst (handleKVRelease txt now rq ns r kv s) = fst (handleKVRelease txt now rq ns r kv2 s2)"
    "fst (handleKVPin txt now rq ns r kv s) = fst (handleKVPin txt now rq ns r kv2 s2)"
    "fst (handleKVUnpin txt now rq ns r kv s) = fst (handleKVUnpin txt now rq ns r kv2 s2)"
    "handleKVGet now rq ns kv = handleKVGet now rq ns kv2"
    "handleKVList now ns kv = handleKVList now ns kv2"
  using assms(2) kv_view_results [OF assms] kv_view_lock_results [OF assms(1)]
  by (simp_all add: handleKVPut_def handleKVDelete_def handleKVIncr_def handleKVRelease_def handleKVPin_def handleKVUnpin_def
      handleKVGet_def handleKVList_def case_prod_beta Let_def split: sum.split option.split bool.split)

lemma responses_agree_bl:
  assumes "map_option (bl_view ns) (sv_backlogs s) = map_option (bl_view ns) (sv_backlogs s2)"
    "map_option (\<lambda>b. (bl_cfg b, fmlen (bl_ns b))) (sv_backlogs s) = map_option (\<lambda>b. (bl_cfg b, fmlen (bl_ns b))) (sv_backlogs s2)"
  shows "fst (handleBacklogPush txt dec now ok rq ns s) = fst (handleBacklogPush txt dec now ok rq ns s2)
    \<and> fst (handleBacklogTake txt dec' now ok ok2 rq ns s) = fst (handleBacklogTake txt dec' now ok ok2 rq ns s2)
    \<and> handleBacklogStat txt rq ns s = handleBacklogStat txt rq ns s2
    \<and> handleBacklogList ns s = handleBacklogList ns s2"
proof (cases "sv_backlogs s")
  case None
  moreover from this assms have "sv_backlogs s2 = None" by simp
  ultimately show ?thesis
    by (simp add: handleBacklogPush_def handleBacklogTake_def handleBacklogStat_def handleBacklogList_def)
next
  case (Some b)
  with assms obtain b2 where b2: "sv_backlogs s2 = Some b2" "bl_view ns b = bl_view ns b2" "bl_cfg b = bl_cfg b2"
      "fmlen (bl_ns b) = fmlen (bl_ns b2)"
    by (cases "sv_backlogs s2") auto
  note R = bl_view_results [OF b2(2-4)]
  have "fst (handleBacklogPush txt dec now ok rq ns s) = fst (handleBacklogPush txt dec now ok rq ns s2)"
    by (simp add: handleBacklogPush_def Some b2(1) R(1) case_prod_beta split: sum.split)
  moreover have "fst (handleBacklogTake txt dec' now ok ok2 rq ns s) = fst (handleBacklogTake txt dec' now ok ok2 rq ns s2)"
    by (simp add: handleBacklogTake_def Some b2(1) R(2) case_prod_beta Let_def split: sum.split)
  ultimately show ?thesis by (simp add: handleBacklogStat_def handleBacklogList_def Some b2(1) R)
qed

lemma responses_agree_run:
  assumes "map_option (run_view ns) (sv_tracker s) = map_option (run_view ns) (sv_tracker s2)"
    "Option.bind (sv_managers s) (\<lambda>ms. fmlookup ms ns) = Option.bind (sv_managers s2) (\<lambda>ms. fmlookup ms ns)"
  shows "fst (handleRunTitle dec rq ns r s) = fst (handleRunTitle dec rq ns r s2)"
    "fst (handleContainerEntry now ns r s) = fst (handleContainerEntry now ns r s2)"
proof -
  have mc: "managerCaller ns r s = managerCaller ns r s2"
    "managerCaller ns r u \<Longrightarrow> fst (SetInstanceTitle ns r x (the (sv_managers u)))" for u x
    using assms(2) by (auto simp: managerCaller_def IsCurrentInstance_def SetInstanceTitle_def split: option.splits)
  have resp: "fst (handleRunTitle dec rq ns r u) =
      (case read_body maxTitleBody rq of Inl (_, err) \<Rightarrow> writeError 400 (''read body: '' @ err)
       | Inr body \<Rightarrow> (case dec body of Inl err \<Rightarrow> writeError 400 (''invalid body: '' @ err)
           | Inr raw \<Rightarrow> if trim_space raw = [] then writeError 400 ''title is required: say what the run is about''
               else if length (trim_space raw) > MaxRunTitleLen
               then writeError 400 (''title too long: max '' @ show_nat MaxRunTitleLen @ '' characters'')
               else (case map_option (run_view ns) (sv_tracker u) of None \<Rightarrow> writeError 503 ''run tracking not configured''
                 | Some rv \<Rightarrow> if (case rv r of None \<Rightarrow> True | Some (p, run) \<Rightarrow> Terminal (run_Status run)) \<and> \<not> managerCaller ns r u
                             then writeError 409 ''run is not active'' else (204, REmpty))))" for u
    using mc(2) [of u] by (auto simp: handleRunTitle_def active_run_view Let_def case_prod_beta split: sum.split option.split)
  show "fst (handleRunTitle dec rq ns r s) = fst (handleRunTitle dec rq ns r s2)"
    unfolding resp mc(1) assms(1) ..
  show "fst (handleContainerEntry now ns r s) = fst (handleContainerEntry now ns r s2)"
    by (auto simp: handleContainerEntry_def split: option.split)
qed

text \<open>
  A response discloses nothing of the other namespaces: two servers that agree on the namespace the
  token verifies for, on the limits and on the number of namespaces answer every request alike,
  whatever the rest of their data is.
\<close>

theorem state_api_reads_own:
  assumes "VerifyToken (en_hmac en) (bearerToken rq) = Some (ns, runID)"
    and "ns_view ns s = ns_view ns s2" and "capacity s = capacity s2"
  shows "fst (withNamespace en now v rq s) = fst (withNamespace en now v rq s2)"
proof (cases "sv_kv s")
  case None
  moreover from this assms(2) have "sv_kv s2 = None" by (simp add: ns_view_def)
  ultimately show ?thesis by (simp add: withNamespace_def)
next
  case (Some kv)
  with assms(2,3) obtain kv2 where kv2: "sv_kv s2 = Some kv2" "kv_view ns kv = kv_view ns kv2" "kv_cfg kv = kv_cfg kv2"
      "fmlen (kv_ns kv) = fmlen (kv_ns kv2)"
    by (cases "sv_kv s2") (auto simp: ns_view_def capacity_def)
  note K = responses_agree_kv [OF kv2(2-4)]
  have B: "map_option (bl_view ns) (sv_backlogs s) = map_option (bl_view ns) (sv_backlogs s2)"
    "map_option (\<lambda>b. (bl_cfg b, fmlen (bl_ns b))) (sv_backlogs s) = map_option (\<lambda>b. (bl_cfg b, fmlen (bl_ns b))) (sv_backlogs s2)"
    and T: "map_option (run_view ns) (sv_tracker s) = map_option (run_view ns) (sv_tracker s2)"
    "Option.bind (sv_managers s) (\<lambda>ms. fmlookup ms ns) = Option.bind (sv_managers s2) (\<lambda>ms. fmlookup ms ns)"
    using assms(2,3) by (simp_all add: ns_view_def capacity_def)
  have "fst (handle_verb en now v rq ns runID kv s) = fst (handle_verb en now v rq ns runID kv2 s2)"
    using K responses_agree_bl [OF B] responses_agree_run [OF T] by (cases v) (simp_all add: handle_verb_def)
  then show ?thesis by (simp add: withNamespace_def Some kv2(1) assms(1) Let_def)
qed

theorem state_api_reads_own_witness:
  "fst (withNamespace api_example_env 5 KVGet api_example_request api_example_srv) =
   fst (withNamespace api_example_env 5 KVGet api_example_request (api_example_srv\<lparr>sv_managers := Some (fmupd ''m'' \<lparr>mg_instanceID = ''i'', mg_title = []\<rparr> fmempty)\<rparr>))"
  by (rule state_api_reads_own [OF api_example_token]) (simp_all add: ns_view_def capacity_def api_example_srv_def)

definition ttl_example :: request where
  "ttl_example = api_example_request\<lparr>rq_ttl := ''9223372037''\<rparr>"

lemma ttl_example_token: "bearerToken ttl_example = bearerToken api_example_request"
  by (simp add: bearerToken_def ttl_example_def)

lemma ttl_example_header: "header_Get (rq_header ttl_example) ''X-KV-TTL'' = []"
proof -
  have "canonical_key ''X-KV-TTL'' = ''X-Kv-Ttl''" by code_simp
  then show ?thesis by (simp add: header_Get_def header_Values_def ttl_example_def api_example_request_def)
qed

lemma ttl_example_parse: "parseTTL ttl_example = Inr (- 9223372036709551616)"
proof -
  have "parse_int ''9223372037'' = Some 9223372037" by (simp add: parse_int_def digit_val_def is_int64_def)
  then show ?thesis by (simp add: parseTTL_def ttl_example_header Let_def) (simp add: ttl_example_def wrap64_def)
qed

lemma ttl_example_body: "rq_body ttl_example = ''v''" "rq_broken ttl_example = None" "rq_name ttl_example = ''k''"
  by (simp_all add: ttl_example_def api_example_request_def)

text \<open>
  A TTL is honoured only up to nine billion seconds: \<open>parseTTL\<close> multiplies in 64 bits, so a larger
  whole number of seconds, although accepted, wraps around; \<open>9223372037\<close> seconds become a negative
  duration, which the store takes to mean that the key never expires.
\<close>

theorem large_ttl_never_expires:
  "parseTTL ttl_example = Inr (- 9223372036709551616) \<and>
   (\<exists>kv. sv_kv (snd (withNamespace api_example_env 5 KVPut ttl_example api_example_srv)) = Some kv
      \<and> fmlookup (kv_map kv ''h'') ''k'' = Some \<lparr>kv_value = ''v'', kv_expires = None\<rparr>)"
proof -
  have tok: "VerifyToken (en_hmac api_example_env) (bearerToken ttl_example) = Some (''h'', ''r1'')" "bearerToken ttl_example \<noteq> []"
    using api_example_token by (auto simp: ttl_example_token VerifyToken_def)
  have kv: "sv_kv api_example_srv = Some lk_example" by (simp add: api_example_srv_def)
  have cfg: "kv_MaxValueBytes (kv_cfg lk_example) = 65536" "kv_MaxNamespaces (kv_cfg lk_example) = 256" "kv_ns lk_example = fmempty"
    by (simp_all add: lk_example_def kv_example_def kv_defaults_def)
  have 1: "snd (withNamespace api_example_env 5 KVPut ttl_example api_example_srv) =
     snd (handleKVPut (\<lambda>_. ''e'') 5 True ttl_example ''h'' lk_example api_example_srv)"
    using tok by (simp add: withNamespace_def kv Let_def handle_verb_def) (simp add: api_example_env_def)
  have 2: "sv_kv (snd (handleKVPut (\<lambda>_. ''e'') 5 True ttl_example ''h'' lk_example api_example_srv)) = Some (snd (kv_Set ''h'' ''k'' ''v'' (- 9223372036709551616) 5 True lk_example))"
    using ttl_example_parse
    by (simp add: handleKVPut_def read_body_def ttl_example_body cfg kv_Set_def kebab_h kv_persist_def Let_def)
  show ?thesis unfolding 1 2
    using ttl_example_parse
    by (simp add: kv_Set_def kebab_h cfg kv_persist_def kv_put_def kv_notifyMutate_def kv_map_def Let_def)
qed

end
