(* ===== verification/StateLock.thy ===== *)
theory StateLock
  imports StateApi
begin

text \<open>
  Model of \<^verbatim>\<open>internal/server/statelock.go\<close> (blocking acquire, TTL enforcement, steal), of the finish
  seam in \<^verbatim>\<open>internal/server/finish.go\<close> and of the sweeper's liveness oracle in \<^verbatim>\<open>internal/cli/serve.go\<close>:
  the composition of the lock table, the run tracker and the manager supervisor.

  A request is a thread whose program counter stands before its next access to shared state; steps
  that only touch the caller's own run record and the activity feed are merged with the access they
  follow.  The environment creates and runs runs and manager instances, calls the finish seam, sweeps
  the lock table and serves the other requests, in any interleaving.  The lemmas show that no acquire,
  no TTL enforcement and no sweep ever takes a lock from a holder that is still alive.
\<close>

definition maxLockBody :: int where "maxLockBody = 512"
definition minLockTTLSeconds :: int where "minLockTTLSeconds = 1"
definition maxLockTTLSeconds :: int where "maxLockTTLSeconds = 3600"
definition minWaitSeconds :: int where "minWaitSeconds = 1"
definition maxWaitSeconds :: int where "maxWaitSeconds = 600"
definition lockRetryInterval :: duration where "lockRetryInterval = 250000000"
definition lockKillTimeout :: duration where "lockKillTimeout = 30 * Second"

record lock_request =
  lr_TTLSeconds :: "int option"
  lr_Block :: bool
  lr_BlockTimeoutSeconds :: "int option"
  lr_Pinned :: bool

definition parseLockRequest :: "(string \<Rightarrow> string + lock_request) \<Rightarrow> request \<Rightarrow> response + lock_request \<times> duration" where
  "parseLockRequest decode rq =
     (case read_body maxLockBody rq of Inl (_, err) \<Rightarrow> Inl (writeError 400 (''read body: '' @ err))
      | Inr body \<Rightarrow>
          if trim_space body = [] then Inr (\<lparr>lr_TTLSeconds = None, lr_Block = False, lr_BlockTimeoutSeconds = None, lr_Pinned = False\<rparr>, 0)
          else (case decode body of Inl err \<Rightarrow> Inl (writeError 400 (''invalid body: '' @ err))
            | Inr req \<Rightarrow>
                let ttl = (case lr_TTLSeconds req of None \<Rightarrow> 0 | Some n \<Rightarrow> n * Second) in
                if (case lr_TTLSeconds req of None \<Rightarrow> False | Some n \<Rightarrow> n < minLockTTLSeconds \<or> n > maxLockTTLSeconds)
                then Inl (writeError 400 (''invalid ttl_seconds: must be '' @ append_int minLockTTLSeconds @ ''..'' @ append_int maxLockTTLSeconds))
                else if (case lr_BlockTimeoutSeconds req of None \<Rightarrow> False | Some n \<Rightarrow> n < minWaitSeconds \<or> n > maxWaitSeconds)
                then Inl (writeError 400 (''invalid block_timeout_seconds: must be '' @ append_int minWaitSeconds @ ''..'' @ append_int maxWaitSeconds))
                else Inr (req, ttl)))"

subsection \<open>The request thread\<close>

text \<open>Error texts, formatting verbs and the context's error text.\<close>

record lock_env =
  lv_text :: "kv_error \<Rightarrow> string"
  lv_quote :: "string \<Rightarrow> string"
  lv_rfc3339 :: "time \<Rightarrow> string"
  lv_dur :: "duration \<Rightarrow> string"
  lv_ctx :: string

text \<open>The error of a take: one of the store's (with its text), or the request's context.\<close>

datatype take_err = TakeKV kv_error string | TakeCtx

datatype stolen_party = StolenParty string string

datatype lock_reply = LockOK lock_info | StealOK lock_info "stolen_party option"
  | LockConflict string "lock_info option" | LockRefused response | NoReply

datatype waiter = RunWaiter nat | ManagerWaiter

record block_state =
  bs_waiter :: waiter
  bs_seq :: "64 word"
  bs_holder :: lock_info
  bs_deadline :: time

text \<open>Who called \<open>takeLock\<close>: the handler itself, or the retry loop of \<open>blockOnLock\<close>.\<close>

datatype take_ctx = Immediate | Retry block_state

datatype lock_pc = LTake take_ctx
  | LEnforce take_ctx lock_info
  | LLoop take_ctx lock_info time bool
  | LPause take_ctx lock_info time bool
  | LReapAt take_ctx lock_info
  | LRetake take_ctx
  | LResult take_ctx "lock_info option" "take_err option"
  | LBlock lock_info
  | LBlocked block_state
  | LLeave block_state lock_reply
  | LTakeOver
  | LKillStolen lock_info lock_info
  | LDone lock_reply

record lock_thread =
  lt_ns :: string
  lt_key :: string
  lt_id :: string
  lt_ttl :: duration
  lt_req :: lock_request
  lt_pc :: lock_pc

text \<open>The ready case of a \<open>select\<close>.\<close>

datatype sel = TimerFired | GiveUp | RunDone | RunCancelled | HungUp

definition zero_lock_info :: lock_info where
  "zero_lock_info = \<lparr>li_RunID = [], li_HookID = [], li_AcquiredAt = 0, li_ExpiresAt = 0, li_Pinned = False\<rparr>"

abbreviation info_of :: "lock_info option \<Rightarrow> lock_info" where
  "info_of io \<equiv> (case io of None \<Rightarrow> zero_lock_info | Some i \<Rightarrow> i)"

definition acquireLock :: "string \<Rightarrow> string \<Rightarrow> string \<Rightarrow> duration \<Rightarrow> bool \<Rightarrow> time \<Rightarrow> kv_store \<Rightarrow> take_result \<times> kv_store" where
  "acquireLock ns key runID ttl pinned now kv =
     (if pinned then AcquireLockPinned ns key runID ttl now kv else AcquireLock ns key runID ttl now kv)"

definition set_run :: "nat \<Rightarrow> (run \<Rightarrow> run) \<Rightarrow> srv \<Rightarrow> srv" where
  "set_run p f s = s\<lparr>sv_tracker := map_option (upd_run p f) (sv_tracker s)\<rparr>"

text \<open>The \<open>lockWaiter\<close> interface: a run, or a manager instance (which has no run row).\<close>

definition waiter_label :: "waiter \<Rightarrow> string" where
  "waiter_label w = (case w of RunWaiter _ \<Rightarrow> ''run'' | ManagerWaiter \<Rightarrow> ''instance'')"

definition waiter_touch :: "waiter \<Rightarrow> string \<Rightarrow> string \<Rightarrow> srv \<Rightarrow> bool \<times> srv" where
  "waiter_touch w ns inst s = (case w of RunWaiter p \<Rightarrow> (True, set_run p TouchActivity s) | ManagerWaiter \<Rightarrow> (managerCaller ns inst s, s))"

definition waiter_setWaitingOn :: "waiter \<Rightarrow> time \<Rightarrow> waiting_on \<Rightarrow> srv \<Rightarrow> 64 word \<times> srv" where
  "waiter_setWaitingOn w now wo s = (case w of
     RunWaiter p \<Rightarrow> (case sv_tracker s of None \<Rightarrow> (0, s)
       | Some t \<Rightarrow> (fst (SetWaitingOn now now wo (tk_heap t ! p)), set_run p (\<lambda>r. snd (SetWaitingOn now now wo r)) s))
   | ManagerWaiter \<Rightarrow> (0, s))"

definition waiter_clearWaitingOn :: "waiter \<Rightarrow> time \<Rightarrow> 64 word \<Rightarrow> srv \<Rightarrow> srv" where
  "waiter_clearWaitingOn w now seq s = (case w of RunWaiter p \<Rightarrow> set_run p (ClearWaitingOn now seq) s | ManagerWaiter \<Rightarrow> s)"

definition waiter_done :: "waiter \<Rightarrow> srv \<Rightarrow> bool" where
  "waiter_done w s = (case (w, sv_tracker s) of (RunWaiter p, Some t) \<Rightarrow> r_done (tk_heap t ! p) | _ \<Rightarrow> False)"

definition waiter_cancelled :: "waiter \<Rightarrow> srv \<Rightarrow> bool" where
  "waiter_cancelled w s = (case (w, sv_tracker s) of (RunWaiter p, Some t) \<Rightarrow> r_cancel (tk_heap t ! p) | _ \<Rightarrow> False)"

definition waitingOnLock :: "string \<Rightarrow> time \<Rightarrow> lock_info \<Rightarrow> waiting_on" where
  "waitingOnLock key deadline holder = \<lparr>w_Kind = ''lock'', w_Reason = [], w_Until = deadline, w_Key = key,
     w_HolderRunID = li_RunID holder, w_HolderHookID = li_HookID holder, w_HolderRunIDs = [], w_Position = 0\<rparr>"

text \<open>\<open>takeLock\<close>: the plain acquire, and enforcement when it meets an expired hold.\<close>

definition take_next :: "lock_env \<Rightarrow> take_ctx \<Rightarrow> bool \<Rightarrow> take_result \<Rightarrow> lock_pc" where
  "take_next en ctx enforce res = (case res of
     (info, _, None) \<Rightarrow> LResult ctx info None
   | (info, _, Some err) \<Rightarrow> if enforce \<and> err = ErrLockExpired then LEnforce ctx (info_of info)
                            else LResult ctx info (Some (TakeKV err (lv_text en err))))"

definition takeLock :: "lock_env \<Rightarrow> bool \<Rightarrow> time \<Rightarrow> take_ctx \<Rightarrow> lock_thread \<Rightarrow> kv_store \<Rightarrow> srv \<Rightarrow> lock_pc \<times> srv" where
  "takeLock en enforce now ctx th kv s =
     (let (res, kv') = acquireLock (lt_ns th) (lt_key th) (lt_id th) (lt_ttl th) (lr_Pinned (lt_req th)) now kv
      in (take_next en ctx enforce res, s\<lparr>sv_kv := Some kv'\<rparr>))"

text \<open>\<open>enforceLockTTL\<close>: the two refusals, the loop's check of the victim, the reap, and the pause.\<close>

definition expired_err :: "lock_env \<Rightarrow> string \<Rightarrow> take_err" where
  "expired_err en why = TakeKV ErrLockExpired (lv_text en ErrLockExpired @ '': '' @ why)"

definition enforceLockTTL :: "lock_env \<Rightarrow> time \<Rightarrow> take_ctx \<Rightarrow> lock_info \<Rightarrow> lock_thread \<Rightarrow> srv \<Rightarrow> lock_pc" where
  "enforceLockTTL en now ctx holder th s =
     (if managerCaller (lt_ns th) (li_RunID holder) s
      then LResult ctx (Some holder) (Some (expired_err en (''held by the live manager instance '' @ li_RunID holder @ '', which this endpoint may not kill'')))
      else if sv_tracker s = None
      then LResult ctx (Some holder) (Some (expired_err en ''run tracking not configured, so the holder cannot be confirmed dead''))
      else LLoop ctx holder (now + lockKillTimeout) False)"

definition enforce_kill :: "lock_env \<Rightarrow> time \<Rightarrow> lock_info \<Rightarrow> lock_thread \<Rightarrow> nat \<Rightarrow> srv \<Rightarrow> srv" where
  "enforce_kill en now holder th p s =
     sv_record now ''lock.ttl_enforced''
       (lt_ns th @ '': run '' @ li_RunID holder @ '' held lock '' @ lv_quote en (lt_key th) @
        '' past its TTL '' @ em_dash @ '' cancelling it so run '' @ lt_id th @ '' can take the lock'')
       [(''hook'', lt_ns th), (''run'', li_RunID holder)]
     (set_run p (RequestCancelWithReason now (''cancelled: lock '' @ lv_quote en (lt_key th) @ '' held past its TTL (since '' @
        lv_rfc3339 en (li_AcquiredAt holder) @ '') '' @ em_dash @ '' killed so the lock can be handed to run '' @ lt_id th)) s)"

definition enforce_loop :: "lock_env \<Rightarrow> time \<Rightarrow> take_ctx \<Rightarrow> lock_info \<Rightarrow> time \<Rightarrow> bool \<Rightarrow> lock_thread \<Rightarrow> srv \<Rightarrow> lock_pc \<times> srv" where
  "enforce_loop en now ctx holder deadline killed th s =
     (case Option.bind (sv_tracker s) (active_run (lt_ns th) (li_RunID holder)) of
        None \<Rightarrow> (LReapAt ctx holder, s)
      | Some p \<Rightarrow>
          let s1 = (if killed then s else enforce_kill en now holder th p s) in
          (if now > deadline
           then LResult ctx (Some holder) (Some (expired_err en (''holder run '' @ li_RunID holder @ '' did not terminate within '' @
                  lv_dur en lockKillTimeout @ '' of being cancelled '' @ em_dash @ '' the lock stays its'')))
           else LPause ctx holder deadline True, s1))"

definition enforce_reap :: "lock_env \<Rightarrow> time \<Rightarrow> lock_info \<Rightarrow> lock_thread \<Rightarrow> kv_store \<Rightarrow> srv \<Rightarrow> srv" where
  "enforce_reap en now holder th kv s =
     (case ReapExpiredLock (lt_ns th) (lt_key th) (li_RunID holder) now kv of
        (True, kv') \<Rightarrow> sv_record now ''lock.ttl_reaped''
          (lt_ns th @ '': lock '' @ lv_quote en (lt_key th) @ '' freed for run '' @ lt_id th @ '' '' @ em_dash @ '' its holder (run '' @
           li_RunID holder @ '') was over its TTL and already gone'')
          [(''hook'', lt_ns th), (''run'', lt_id th)] (s\<lparr>sv_kv := Some kv'\<rparr>)
      | (False, kv') \<Rightarrow> s\<lparr>sv_kv := Some kv'\<rparr>)"

text \<open>\<open>handleKVAcquire\<close> after its first take.\<close>

definition acquire_result :: "lock_env \<Rightarrow> time \<Rightarrow> lock_info option \<Rightarrow> take_err option \<Rightarrow> lock_thread \<Rightarrow> srv \<Rightarrow> lock_pc \<times> srv" where
  "acquire_result en now info err th s = (case err of
     None \<Rightarrow> (LDone (LockOK (info_of info)), s)
   | Some TakeCtx \<Rightarrow>
       (LDone (LockRefused (writeError 500 (''state store error: '' @ lv_ctx en))),
        sv_record now ''kv.write_failed'' (lt_ns th @ '': state write failed (rolled back): '' @ lv_ctx en) [(''hook'', lt_ns th)] s)
   | Some (TakeKV e txt) \<Rightarrow>
       if e = ErrLockExpired then (LDone (LockConflict txt info), s)
       else if e \<noteq> ErrLockHeld then (let (resp, s') = writeKVError (\<lambda>_. txt) now (lt_ns th) e s in (LDone (LockRefused resp), s'))
       else if \<not> lr_Block (lt_req th) then (LDone (LockConflict txt info), s)
       else (LBlock (info_of info), s))"

text \<open>\<open>blockOnLock\<close>: its set-up, its \<open>select\<close>, and what the loop does with the result of a retry.\<close>

definition block_timeout :: "lock_request \<Rightarrow> duration" where
  "block_timeout req = (case lr_BlockTimeoutSeconds req of None \<Rightarrow> maxWaitSeconds * Second | Some n \<Rightarrow> n * Second)"

definition blockOnLock :: "lock_env \<Rightarrow> time \<Rightarrow> lock_info \<Rightarrow> lock_thread \<Rightarrow> srv \<Rightarrow> lock_pc \<times> srv" where
  "blockOnLock en now holder th s =
     (let run = Option.bind (sv_tracker s) (active_run (lt_ns th) (lt_id th)) in
      if run = None \<and> \<not> managerCaller (lt_ns th) (lt_id th) s
      then (LDone (LockRefused (writeError 409 ''run is not active'')), s)
      else
        let w = (case run of Some p \<Rightarrow> RunWaiter p | None \<Rightarrow> ManagerWaiter);
            deadline = now + block_timeout (lt_req th);
            (seq, s1) = waiter_setWaitingOn w now (waitingOnLock (lt_key th) deadline holder) s;
            s2 = snd (waiter_touch w (lt_ns th) (lt_id th) s1);
            s3 = sv_record now ''lock.waiting''
              (lt_ns th @ '' '' @ waiter_label w @ '' '' @ lt_id th @ '' waiting on lock '' @ lv_quote en (lt_key th) @ '' held by run '' @ li_RunID holder)
              [(''hook'', lt_ns th), (''run'', lt_id th)] s2
        in (LBlocked \<lparr>bs_waiter = w, bs_seq = seq, bs_holder = holder, bs_deadline = deadline\<rparr>, s3))"

definition block_select :: "lock_env \<Rightarrow> time \<Rightarrow> sel \<Rightarrow> block_state \<Rightarrow> lock_thread \<Rightarrow> srv \<Rightarrow> (lock_pc \<times> srv) option" where
  "block_select en now c bs th s = (case c of
     TimerFired \<Rightarrow>
       let (ok, s1) = waiter_touch (bs_waiter bs) (lt_ns th) (lt_id th) s in
       Some (if ok then (LTake (Retry bs), s1)
             else (LLeave bs (LockRefused (writeError 409 (''not the current '' @ waiter_label (bs_waiter bs)))), s1))
   | GiveUp \<Rightarrow> if now \<ge> bs_deadline bs
       then Some (LLeave bs (LockConflict (''lock still held after '' @ lv_dur en (block_timeout (lt_req th))) (Some (bs_holder bs))), s) else None
   | RunDone \<Rightarrow> if waiter_done (bs_waiter bs) s
       then Some (LLeave bs (LockConflict ''interrupted: run finished'' (Some (bs_holder bs))), s) else None
   | RunCancelled \<Rightarrow> if waiter_cancelled (bs_waiter bs) s
       then Some (LLeave bs (LockConflict ''interrupted: run cancelled'' (Some (bs_holder bs))), s) else None
   | HungUp \<Rightarrow> Some (LLeave bs NoReply, s))"

definition retry_result :: "lock_env \<Rightarrow> time \<Rightarrow> block_state \<Rightarrow> lock_info option \<Rightarrow> take_err option \<Rightarrow> lock_thread \<Rightarrow> srv \<Rightarrow> lock_pc \<times> srv" where
  "retry_result en now bs info err th s = (case err of
     None \<Rightarrow> (LLeave bs (LockOK (info_of info)), snd (waiter_touch (bs_waiter bs) (lt_ns th) (lt_id th) s))
   | Some TakeCtx \<Rightarrow> (LLeave bs NoReply, s)
   | Some (TakeKV e txt) \<Rightarrow>
       if e \<noteq> ErrLockHeld \<and> e \<noteq> ErrLockExpired
       then (let (resp, s') = writeKVError (\<lambda>_. txt) now (lt_ns th) e s in (LLeave bs (LockRefused resp), s'))
       else if li_RunID (info_of info) \<noteq> li_RunID (bs_holder bs)
       then (let (seq, s') = waiter_setWaitingOn (bs_waiter bs) now (waitingOnLock (lt_key th) (bs_deadline bs) (info_of info)) s
             in (LBlocked (bs\<lparr>bs_seq := seq, bs_holder := info_of info\<rparr>), s'))
       else (LBlocked (bs\<lparr>bs_holder := info_of info\<rparr>), s))"

text \<open>\<open>handleKVSteal\<close>: the transfer, then the cancellation of the displaced run.\<close>

definition handleKVSteal :: "lock_env \<Rightarrow> time \<Rightarrow> lock_thread \<Rightarrow> kv_store \<Rightarrow> srv \<Rightarrow> lock_pc \<times> srv" where
  "handleKVSteal en now th kv s =
     (case StealLock (lt_ns th) (lt_key th) (lt_id th) (lt_ttl th) now kv of
        ((info, displaced, Some err), kv') \<Rightarrow>
          let s1 = s\<lparr>sv_kv := Some kv'\<rparr> in
          if err = ErrLockPinned
          then (LDone (LockConflict (lv_text en err) info),
                sv_record now ''lock.steal_refused''
                  (lt_ns th @ '' run '' @ lt_id th @ '': steal of lock '' @ lv_quote en (lt_key th) @ '' refused '' @ em_dash @ '' pinned by run '' @ li_RunID (info_of info))
                  [(''hook'', lt_ns th), (''run'', lt_id th)] s1)
          else (let (resp, s') = writeKVError (lv_text en) now (lt_ns th) err s1 in (LDone (LockRefused resp), s'))
      | ((info, None, None), kv') \<Rightarrow> (LDone (StealOK (info_of info) None), s\<lparr>sv_kv := Some kv'\<rparr>)
      | ((info, Some d, None), kv') \<Rightarrow>
          (if li_RunID d = [] then LDone (StealOK (info_of info) None) else LKillStolen (info_of info) d, s\<lparr>sv_kv := Some kv'\<rparr>))"

definition steal_kill :: "lock_env \<Rightarrow> time \<Rightarrow> lock_info \<Rightarrow> lock_thread \<Rightarrow> srv \<Rightarrow> srv" where
  "steal_kill en now displaced th s =
     (let victim = Option.bind (sv_tracker s) (active_run (lt_ns th) (li_RunID displaced));
          s1 = (case victim of None \<Rightarrow> s
                | Some p \<Rightarrow> set_run p (RequestCancelWithReason now (''cancelled: lock '' @ lv_quote en (lt_key th) @ '' stolen by run '' @ lt_id th)) s);
          note = (if victim = None then ''holder already gone'' else ''holder cancelled'')
      in sv_record now ''lock.stolen''
           (lt_ns th @ '' run '' @ lt_id th @ '' stole lock '' @ lv_quote en (lt_key th) @ '' from run '' @ li_RunID displaced @ '' ('' @ note @ '')'')
           [(''hook'', lt_ns th), (''run'', lt_id th)] s1)"

text \<open>The next step of a request thread.\<close>

definition lock_next :: "lock_env \<Rightarrow> time \<Rightarrow> sel \<Rightarrow> lock_thread \<Rightarrow> srv \<Rightarrow> (lock_pc \<times> srv) option" where
  "lock_next en now c th s = (case sv_kv s of None \<Rightarrow> None | Some kv \<Rightarrow> (case lt_pc th of
     LTake ctx \<Rightarrow> Some (takeLock en True now ctx th kv s)
   | LEnforce ctx holder \<Rightarrow> Some (enforceLockTTL en now ctx holder th s, s)
   | LLoop ctx holder deadline killed \<Rightarrow> Some (enforce_loop en now ctx holder deadline killed th s)
   | LPause ctx holder deadline killed \<Rightarrow> (case c of
       TimerFired \<Rightarrow> Some (LLoop ctx holder deadline killed, s)
     | HungUp \<Rightarrow> Some (LResult ctx (Some holder) (Some TakeCtx), s)
     | _ \<Rightarrow> None)
   | LReapAt ctx holder \<Rightarrow> Some (LRetake ctx, enforce_reap en now holder th kv s)
   | LRetake ctx \<Rightarrow> Some (takeLock en False now ctx th kv s)
   | LResult Immediate info err \<Rightarrow> Some (acquire_result en now info err th s)
   | LResult (Retry bs) info err \<Rightarrow> Some (retry_result en now bs info err th s)
   | LBlock holder \<Rightarrow> Some (blockOnLock en now holder th s)
   | LBlocked bs \<Rightarrow> block_select en now c bs th s
   | LLeave bs reply \<Rightarrow> Some (LDone reply, waiter_clearWaitingOn (bs_waiter bs) now (bs_seq bs) s)
   | LTakeOver \<Rightarrow> Some (handleKVSteal en now th kv s)
   | LKillStolen info displaced \<Rightarrow>
       Some (LDone (StealOK info (Some (StolenParty (li_RunID displaced) (li_HookID displaced)))), steal_kill en now displaced th s)
   | LDone reply \<Rightarrow> None))"

subsection \<open>The end of a run and of a manager instance, and the sweeper's oracle\<close>

text \<open>\<open>RunFinishCallback\<close>; the history store it records into (its \<open>record\<close> argument) is a state \<open>h\<close>.\<close>

definition RunFinishCallback :: "(run_state \<Rightarrow> 'h \<Rightarrow> 'h) \<Rightarrow> time \<Rightarrow> run_state \<Rightarrow> 'h \<times> srv \<Rightarrow> 'h \<times> srv" where
  "RunFinishCallback record now st = (\<lambda>(h, s). case sv_kv s of None \<Rightarrow> (h, s)
     | Some kv \<Rightarrow>
         let (n, kv') = ReleaseRunLocks (rs_ID st) kv;
             s1 = s\<lparr>sv_kv := Some kv'\<rparr>;
             s2 = (if n > 0 then sv_record now ''lock.released_on_finish''
                     (rs_HookID st @ '': run '' @ rs_ID st @ '' finished still holding '' @ show_nat n @ '' lock(s) '' @ em_dash @ '' released'')
                     [(''hook'', rs_HookID st)] s1
                   else s1)
         in (record st h, s2))"

definition OnInstanceEnd :: "time \<Rightarrow> string \<Rightarrow> srv \<Rightarrow> srv" where
  "OnInstanceEnd now instanceID s = (case sv_kv s of None \<Rightarrow> s
     | Some kv \<Rightarrow>
         let (n, kv') = ReleaseRunLocks instanceID kv;
             s1 = s\<lparr>sv_kv := Some kv'\<rparr>
         in if n > 0 then sv_record now ''lock.released_on_finish''
              (''released '' @ show_nat n @ '' lock(s) still held by manager instance '' @ instanceID @ '' at instance end'') [] s1
            else s1)"

definition run_live :: "srv \<Rightarrow> string \<Rightarrow> bool" where
  "run_live s rid \<longleftrightarrow>
     (case sv_tracker s of None \<Rightarrow> False
      | Some t \<Rightarrow> (case tk_Get rid t of None \<Rightarrow> False | Some p \<Rightarrow> \<not> Terminal (run_Status (tk_heap t ! p))))
     \<or> (case sv_managers s of None \<Rightarrow> False | Some ms \<Rightarrow> AnyCurrentInstance rid ms)"

end
