(* ===== verification/LockSafety.thy ===== *)
theory LockSafety
  imports StateLock
begin

text \<open>
  The lock requests of \<^verbatim>\<open>StateLock\<close> running against everything that happens around them: runs and
  manager instances starting and ending, the finish seam, the sweeper and the other verbs, in any
  interleaving.  Every identity in a token was issued by the server for one namespace, and identities
  are never issued twice.
\<close>

record lock_world =
  lw_srv :: srv
  lw_thr :: "lock_thread list"
  lw_issued :: "(string \<times> string) set"

text \<open>What a step is, for the steps that a statement has to tell apart.\<close>

datatype lw_label = ByThread nat time | ByRelease string string string | ByInstanceEnd string | ByOther

definition same_instances :: "(string, managed) fmap \<Rightarrow> (string, managed) fmap \<Rightarrow> bool" where
  "same_instances ms ms' \<longleftrightarrow> (\<forall>mid mg'. fmlookup ms' mid = Some mg' \<longrightarrow> mg_instanceID mg' = []
     \<or> (\<exists>mg. fmlookup ms mid = Some mg \<and> mg_instanceID mg = mg_instanceID mg'))"

inductive lw_step :: "lock_env \<Rightarrow> lock_world \<Rightarrow> lw_label \<Rightarrow> lock_world \<Rightarrow> bool" for en where
  arrive: "(lt_ns th, lt_id th) \<in> lw_issued w \<Longrightarrow> lt_pc th \<in> {LTake Immediate, LTakeOver}
    \<Longrightarrow> lw_step en w ByOther (w\<lparr>lw_thr := lw_thr w @ [th]\<rparr>)"
| thread: "i < length (lw_thr w) \<Longrightarrow> 0 < now \<Longrightarrow> lock_next en now c (lw_thr w ! i) (lw_srv w) = Some (pc, s)
    \<Longrightarrow> lw_step en w (ByThread i now) (w\<lparr>lw_srv := s, lw_thr := (lw_thr w)[i := (lw_thr w ! i)\<lparr>lt_pc := pc\<rparr>]\<rparr>)"
| release: "(ns, rid) \<in> lw_issued w \<Longrightarrow> sv_kv (lw_srv w) = Some kv
    \<Longrightarrow> lw_step en w (ByRelease ns (rq_name rq) rid) (w\<lparr>lw_srv := snd (handleKVRelease txt now rq ns rid kv (lw_srv w))\<rparr>)"
| pin: "(ns, rid) \<in> lw_issued w \<Longrightarrow> sv_kv (lw_srv w) = Some kv
    \<Longrightarrow> lw_step en w ByOther (w\<lparr>lw_srv := snd (handleKVPin txt now rq ns rid kv (lw_srv w))\<rparr>)"
| unpin: "(ns, rid) \<in> lw_issued w \<Longrightarrow> sv_kv (lw_srv w) = Some kv
    \<Longrightarrow> lw_step en w ByOther (w\<lparr>lw_srv := snd (handleKVUnpin txt now rq ns rid kv (lw_srv w))\<rparr>)"
| start: "sv_tracker (lw_srv w) = Some t \<Longrightarrow> rid \<noteq> [] \<Longrightarrow> rid \<notin> snd ` lw_issued w
    \<Longrightarrow> \<forall>p < length (tk_heap t). seen p \<longrightarrow> Terminal (run_Status (tk_heap t ! p)) \<Longrightarrow> \<not> seen (length (tk_heap t))
    \<Longrightarrow> lw_step en w ByOther (w\<lparr>lw_srv := (lw_srv w)\<lparr>sv_tracker := Some (tk_New seen rid now hookID t)\<rparr>,
                               lw_issued := insert (hookID, rid) (lw_issued w)\<rparr>)"
| running: "sv_tracker (lw_srv w) = Some t \<Longrightarrow> p < length (tk_heap t) \<Longrightarrow> run_step (tk_heap t ! p) r
    \<Longrightarrow> lw_step en w ByOther (w\<lparr>lw_srv := (lw_srv w)\<lparr>sv_tracker := Some (t\<lparr>tk_heap := (tk_heap t)[p := r]\<rparr>)\<rparr>\<rparr>)"
| seam: "sv_tracker (lw_srv w) = Some t \<Longrightarrow> p < length (tk_heap t) \<Longrightarrow> Terminal (run_Status (tk_heap t ! p))
    \<Longrightarrow> lw_step en w ByOther (w\<lparr>lw_srv := snd (RunFinishCallback (\<lambda>_ h. h) now (run_Snapshot (-1) (tk_heap t ! p)) ((), lw_srv w))\<rparr>)"
| instance_start: "sv_managers (lw_srv w) = Some ms \<Longrightarrow> fmlookup ms mid = Some mg \<Longrightarrow> mg_instanceID mg = []
    \<Longrightarrow> inst \<noteq> [] \<Longrightarrow> inst \<notin> snd ` lw_issued w
    \<Longrightarrow> lw_step en w ByOther (w\<lparr>lw_srv := (lw_srv w)\<lparr>sv_managers := Some (fmupd mid (mg\<lparr>mg_instanceID := inst\<rparr>) ms)\<rparr>,
                               lw_issued := insert (mid, inst) (lw_issued w)\<rparr>)"
| instance_end: "managerCaller mid inst (lw_srv w)
    \<Longrightarrow> lw_step en w (ByInstanceEnd inst) (w\<lparr>lw_srv := OnInstanceEnd now inst (lw_srv w)\<rparr>)"
| roster: "sv_managers (lw_srv w) = Some ms \<Longrightarrow> same_instances ms ms'
    \<Longrightarrow> lw_step en w ByOther (w\<lparr>lw_srv := (lw_srv w)\<lparr>sv_managers := Some ms'\<rparr>\<rparr>)"
| sweep: "sv_kv (lw_srv w) = Some kv \<Longrightarrow> \<forall>rid. run_live (lw_srv w) rid \<longrightarrow> live rid
    \<Longrightarrow> lw_step en w ByOther (w\<lparr>lw_srv := (lw_srv w)\<lparr>sv_kv := Some (kv_sweep (Some live) now pok kv)\<rparr>\<rparr>)"
| data: "sv_kv (lw_srv w) = Some kv \<Longrightarrow> kv_locks kv' = kv_locks kv
    \<Longrightarrow> lw_step en w ByOther (w\<lparr>lw_srv := (lw_srv w)\<lparr>sv_kv := Some kv', sv_backlogs := b, sv_events := ev\<rparr>\<rparr>)"

definition holds :: "srv \<Rightarrow> string \<Rightarrow> string \<Rightarrow> string \<Rightarrow> bool" where
  "holds s ns key rid \<longleftrightarrow> (\<exists>kv e. sv_kv s = Some kv \<and> lock_at kv ns key = Some e \<and> le_runID e = rid)"

definition lw_init :: "lock_world \<Rightarrow> bool" where
  "lw_init w \<longleftrightarrow> lw_thr w = [] \<and> lw_issued w = {} \<and> (\<exists>kv. sv_kv (lw_srv w) = Some kv \<and> kv_locks kv = fmempty)
     \<and> (sv_tracker (lw_srv w) = None \<or> (\<exists>t. sv_tracker (lw_srv w) = Some t \<and> t\<lparr>tk_onFinish := False, tk_onChange := False\<rparr> = NewTracker))
     \<and> (sv_managers (lw_srv w) = None \<or> sv_managers (lw_srv w) = Some fmempty)"

subsection \<open>The invariant\<close>

text \<open>The server agrees with the identities issued so far.\<close>

definition srv_ok :: "srv \<Rightarrow> (string \<times> string) set \<Rightarrow> bool" where
  "srv_ok s I \<longleftrightarrow>
     (\<forall>a b rid. (a, rid) \<in> I \<longrightarrow> (b, rid) \<in> I \<longrightarrow> a = b)
     \<and> (\<forall>t. sv_tracker s = Some t \<longrightarrow> trk_inv t \<and> (\<forall>r \<in> set (tk_heap t). (run_HookID r, run_ID r) \<in> I))
     \<and> (\<forall>ms mid mg. sv_managers s = Some ms \<longrightarrow> fmlookup ms mid = Some mg \<longrightarrow> mg_instanceID mg \<noteq> [] \<longrightarrow> (mid, mg_instanceID mg) \<in> I)
     \<and> (\<forall>t ms mid mg r. sv_tracker s = Some t \<longrightarrow> sv_managers s = Some ms \<longrightarrow> fmlookup ms mid = Some mg \<longrightarrow> r \<in> set (tk_heap t)
          \<longrightarrow> mg_instanceID mg \<noteq> [] \<longrightarrow> run_ID r \<noteq> mg_instanceID mg)
     \<and> (\<exists>kv. sv_kv s = Some kv)
     \<and> (\<forall>ns key rid. holds s ns key rid \<longrightarrow> (ns, rid) \<in> I)"

text \<open>The displaced run of a finished steal is over, or has been told to stop.\<close>

definition victim_told :: "srv \<Rightarrow> string \<Rightarrow> string \<Rightarrow> bool" where
  "victim_told s ns rid \<longleftrightarrow> (\<forall>t p. sv_tracker s = Some t \<longrightarrow> active_run ns rid t = Some p \<longrightarrow> rs_CancelRequested (r_state (tk_heap t ! p)))"

definition thr_ok :: "srv \<Rightarrow> (string \<times> string) set \<Rightarrow> lock_thread \<Rightarrow> bool" where
  "thr_ok s I th \<longleftrightarrow> (lt_ns th, lt_id th) \<in> I \<and> (case lt_pc th of
     LEnforce ctx h \<Rightarrow> (lt_ns th, li_RunID h) \<in> I
   | LLoop ctx h d k \<Rightarrow> (lt_ns th, li_RunID h) \<in> I \<and> \<not> managerCaller (lt_ns th) (li_RunID h) s
   | LPause ctx h d k \<Rightarrow> (lt_ns th, li_RunID h) \<in> I \<and> \<not> managerCaller (lt_ns th) (li_RunID h) s
   | LReapAt ctx h \<Rightarrow> (lt_ns th, li_RunID h) \<in> I \<and> \<not> run_live s (li_RunID h)
   | LLeave bs reply \<Rightarrow> (\<forall>i v. reply \<noteq> StealOK i v)
   | LKillStolen i d \<Rightarrow> (lt_ns th, li_RunID d) \<in> I
   | LDone (StealOK i (Some (StolenParty rid h))) \<Rightarrow> (lt_ns th, rid) \<in> I \<and> victim_told s (lt_ns th) rid
   | _ \<Rightarrow> True)"

definition lw_inv :: "lock_world \<Rightarrow> bool" where
  "lw_inv w \<longleftrightarrow> srv_ok (lw_srv w) (lw_issued w) \<and> (\<forall>th \<in> set (lw_thr w). thr_ok (lw_srv w) (lw_issued w) th)"

text \<open>How the liveness of issued identities may change: an identity that is over stays over, and a
  cancellation is never withdrawn.\<close>

definition later :: "(string \<times> string) set \<Rightarrow> srv \<Rightarrow> srv \<Rightarrow> bool" where
  "later I s s' \<longleftrightarrow> (\<forall>ns rid. (ns, rid) \<in> I \<longrightarrow>
     (managerCaller ns rid s' \<longrightarrow> managerCaller ns rid s) \<and> (run_live s' rid \<longrightarrow> run_live s rid)
     \<and> (victim_told s ns rid \<longrightarrow> victim_told s' ns rid))"

lemma later_refl [simp]: "later I s s"
  by (simp add: later_def)

lemma later_same: "sv_tracker s' = sv_tracker s \<Longrightarrow> sv_managers s' = sv_managers s \<Longrightarrow> later I s s'"
  by (simp add: later_def managerCaller_def run_live_def victim_told_def)

lemma thr_ok_later: "thr_ok s I th \<Longrightarrow> later I s s' \<Longrightarrow> I \<subseteq> I' \<Longrightarrow> thr_ok s' I' th"
  by (auto simp: thr_ok_def later_def split: lock_pc.splits lock_reply.splits option.splits stolen_party.splits)

lemma AnyCurrentInstance_iff: "AnyCurrentInstance rid ms \<longleftrightarrow> rid \<noteq> [] \<and> (\<exists>mid mg. fmlookup ms mid = Some mg \<and> mg_instanceID mg = rid)"
  by (fastforce simp: AnyCurrentInstance_def list_ex_iff)

lemma run_step_cancel: "run_step r r' \<Longrightarrow> rs_CancelRequested (r_state r) \<Longrightarrow> rs_CancelRequested (r_state r')"
proof (induction rule: run_step.induct)
  case (exec now now' r op)
  then show ?case
    by (cases op) (auto simp: run_exec_def run_op_defs markAtLocked_def split: option.splits)
qed (auto simp: Finish_section_def)

text \<open>The same for the tracker alone.\<close>

definition trk_later :: "string set \<Rightarrow> tracker \<Rightarrow> tracker \<Rightarrow> bool" where
  "trk_later ids t t' \<longleftrightarrow> (\<forall>rid p. rid \<in> ids \<longrightarrow> tk_Get rid t' = Some p \<longrightarrow> \<not> Terminal (run_Status (tk_heap t' ! p)) \<longrightarrow>
     tk_Get rid t = Some p \<and> \<not> Terminal (run_Status (tk_heap t ! p)) \<and> run_HookID (tk_heap t' ! p) = run_HookID (tk_heap t ! p)
     \<and> (rs_CancelRequested (r_state (tk_heap t ! p)) \<longrightarrow> rs_CancelRequested (r_state (tk_heap t' ! p))))"

lemma trk_later_run:
  assumes "trk_inv t" "p < length (tk_heap t)" "run_step (tk_heap t ! p) r"
  shows "trk_later ids t (t\<lparr>tk_heap := (tk_heap t)[p := r]\<rparr>)"
proof -
  have "run_inv (tk_heap t ! p)" using trk_invD(1) [OF assms(1)] assms(2) by simp
  moreover have "(tk_heap t)[p := r] ! q = (if q = p then r else tk_heap t ! q)" for q using assms(2) by simp
  ultimately show ?thesis
    using run_step_terminal [OF assms(3)] run_step_ids [OF assms(3)] run_step_cancel [OF assms(3)]
    by (auto simp: trk_later_def tk_Get_def)
qed

lemma trk_later_New:
  assumes "trk_inv t" "\<forall>r \<in> set (tk_heap t). run_ID r \<noteq> rid" "rid \<notin> ids"
  shows "trk_later ids t (tk_New seen rid now hookID t)"
proof -
  { fix i p
    assume "i \<in> ids" "tk_Get i (tk_New seen rid now hookID t) = Some p"
    then have "tk_Get i t = Some p" using assms(3) by (auto simp: tk_Get_New [OF assms(1,2)] split: if_splits)
    moreover from this have "p < length (tk_heap t)" using trk_invD(5) [OF assms(1)] by blast
    ultimately have "tk_Get i t = Some p \<and> tk_heap (tk_New seen rid now hookID t) ! p = tk_heap t ! p"
      by (simp add: tk_New_eq new_heap_nth) }
  then show ?thesis by (simp add: trk_later_def)
qed

lemma later_tracker:
  assumes "sv_tracker s = Some t" "trk_later (snd ` I) t t'" "sv_tracker s' = Some t'" "sv_managers s' = sv_managers s"
  shows "later I s s'"
proof -
  { fix ns rid
    assume "(ns, rid) \<in> I"
    then have "rid \<in> snd ` I" by force
    then have T: "tk_Get rid t = Some p \<and> \<not> Terminal (run_Status (tk_heap t ! p)) \<and> run_HookID (tk_heap t' ! p) = run_HookID (tk_heap t ! p)
       \<and> (rs_CancelRequested (r_state (tk_heap t ! p)) \<longrightarrow> rs_CancelRequested (r_state (tk_heap t' ! p)))"
      if "tk_Get rid t' = Some p" "\<not> Terminal (run_Status (tk_heap t' ! p))" for p
      using assms(2) that by (simp add: trk_later_def)
    have "run_live s' rid \<longrightarrow> run_live s rid" using T assms by (auto simp: run_live_def split: option.splits)
    moreover have "victim_told s ns rid \<longrightarrow> victim_told s' ns rid"
      using T assms by (auto simp: victim_told_def active_run_def split: option.splits if_splits)
    ultimately have "run_live s' rid \<longrightarrow> run_live s rid" "victim_told s ns rid \<longrightarrow> victim_told s' ns rid" by blast+ }
  then show ?thesis using assms(4) by (simp add: later_def managerCaller_def)
qed

lemma srv_okD:
  assumes "srv_ok s I"
  shows "(a, rid) \<in> I \<Longrightarrow> (b, rid) \<in> I \<Longrightarrow> a = b"
    "sv_tracker s = Some t \<Longrightarrow> trk_inv t"
    "sv_tracker s = Some t \<Longrightarrow> r \<in> set (tk_heap t) \<Longrightarrow> (run_HookID r, run_ID r) \<in> I"
    "sv_managers s = Some ms \<Longrightarrow> fmlookup ms mid = Some mg \<Longrightarrow> mg_instanceID mg \<noteq> [] \<Longrightarrow> (mid, mg_instanceID mg) \<in> I"
    "sv_tracker s = Some t \<Longrightarrow> sv_managers s = Some ms \<Longrightarrow> fmlookup ms mid = Some mg \<Longrightarrow> r \<in> set (tk_heap t) \<Longrightarrow> mg_instanceID mg \<noteq> []
       \<Longrightarrow> run_ID r \<noteq> mg_instanceID mg"
    "holds s ns key rid \<Longrightarrow> (ns, rid) \<in> I"
    "\<exists>kv. sv_kv s = Some kv"
  using assms unfolding srv_ok_def by blast+

lemma srv_okI:
  assumes "\<And>a b rid. (a, rid) \<in> I \<Longrightarrow> (b, rid) \<in> I \<Longrightarrow> a = b"
    "\<And>t. sv_tracker s = Some t \<Longrightarrow> trk_inv t"
    "\<And>t r. sv_tracker s = Some t \<Longrightarrow> r \<in> set (tk_heap t) \<Longrightarrow> (run_HookID r, run_ID r) \<in> I"
    "\<And>ms mid mg. sv_managers s = Some ms \<Longrightarrow> fmlookup ms mid = Some mg \<Longrightarrow> mg_instanceID mg \<noteq> [] \<Longrightarrow> (mid, mg_instanceID mg) \<in> I"
    "\<And>t ms mid mg r. sv_tracker s = Some t \<Longrightarrow> sv_managers s = Some ms \<Longrightarrow> fmlookup ms mid = Some mg \<Longrightarrow> r \<in> set (tk_heap t) \<Longrightarrow> mg_instanceID mg \<noteq> []
       \<Longrightarrow> run_ID r \<noteq> mg_instanceID mg"
    "\<And>ns key rid. holds s ns key rid \<Longrightarrow> (ns, rid) \<in> I"
    "\<exists>kv. sv_kv s = Some kv"
  shows "srv_ok s I"
  unfolding srv_ok_def using assms by blast

lemma holds_updates [simp]: "holds (s\<lparr>sv_tracker := x\<rparr>) ns key rid = holds s ns key rid" "holds (s\<lparr>sv_managers := y\<rparr>) ns key rid = holds s ns key rid"
  by (simp_all add: holds_def)

lemma srv_ok_issued: "srv_ok s I \<Longrightarrow> sv_kv s = Some kv \<Longrightarrow> lock_at kv ns key = Some e \<Longrightarrow> (ns, le_runID e) \<in> I"
  by (rule srv_okD(6) [where key = key]) (auto simp: holds_def)

text \<open>Updates of one part of the server.\<close>

lemma srv_ok_tracker:
  assumes "srv_ok s I" "sv_tracker s = Some t" "trk_inv t'"
    "\<forall>r' \<in> set (tk_heap t'). \<exists>r \<in> set (tk_heap t). run_ID r' = run_ID r \<and> run_HookID r' = run_HookID r"
  shows "srv_ok (s\<lparr>sv_tracker := Some t'\<rparr>) I"
proof -
  note D = srv_okD [OF assms(1)]
  have ids: "(run_HookID r', run_ID r') \<in> I" if "r' \<in> set (tk_heap t')" for r'
    using assms(4) D(3) [OF assms(2)] that by fastforce
  have apart: "run_ID r' \<noteq> mg_instanceID mg" if "r' \<in> set (tk_heap t')" "sv_managers s = Some ms" "fmlookup ms mid = Some mg"
      "mg_instanceID mg \<noteq> []" for r' ms mid mg
    using assms(4) D(5) [OF assms(2) that(2,3) _ that(4)] that(1) by fastforce
  have "\<forall>ns key rid. holds (s\<lparr>sv_tracker := Some t'\<rparr>) ns key rid \<longrightarrow> (ns, rid) \<in> I" using D(6) by (simp add: holds_def)
  then show ?thesis unfolding srv_ok_def using assms(3) ids apart D(1,4,7) by simp
qed

lemma srv_ok_kv:
  assumes "srv_ok s I" "sv_kv s = Some kv"
    "\<And>ns key e. lock_at kv' ns key = Some e \<Longrightarrow> (\<exists>e0. lock_at kv ns key = Some e0 \<and> le_runID e0 = le_runID e) \<or> (ns, le_runID e) \<in> I"
  shows "srv_ok (s\<lparr>sv_kv := Some kv'\<rparr>) I"
proof -
  have "(ns, rid) \<in> I" if "holds (s\<lparr>sv_kv := Some kv'\<rparr>) ns key rid" for ns key rid
    using that assms(3) srv_okD(6) [OF assms(1)] assms(2) by (fastforce simp: holds_def)
  then show ?thesis using assms(1) unfolding srv_ok_def by simp
qed

lemma sv_record_sels [simp]: "sv_kv (sv_record now k m fs s) = sv_kv s" "sv_tracker (sv_record now k m fs s) = sv_tracker s"
  "sv_managers (sv_record now k m fs s) = sv_managers s" "sv_backlogs (sv_record now k m fs s) = sv_backlogs s"
  by (simp_all add: sv_record_def)

lemma srv_ok_cong: "sv_kv s' = sv_kv s \<Longrightarrow> sv_tracker s' = sv_tracker s \<Longrightarrow> sv_managers s' = sv_managers s \<Longrightarrow> srv_ok s' I = srv_ok s I"
  by (simp add: srv_ok_def holds_def)

lemma set_run_step:
  assumes "srv_ok s I" "0 < now" "f = run_exec now now op"
  shows "srv_ok (set_run p f s) I" "later I s (set_run p f s)"
proof -
  consider (none) "set_run p f s = s" | (some) t where "sv_tracker s = Some t" "p < length (tk_heap t)"
  proof (cases "sv_tracker s")
    case None
    then have "set_run p f s = s" by (cases s) (simp add: set_run_def)
    then show ?thesis by (rule that)
  next
    case (Some t)
    then have "\<not> p < length (tk_heap t) \<Longrightarrow> set_run p f s = s" by (cases s) (simp add: set_run_def upd_run_def list_update_beyond)
    then show ?thesis using that Some by blast
  qed
  then have "srv_ok (set_run p f s) I \<and> later I s (set_run p f s)"
  proof cases
    case (some t)
    note inv = srv_okD(2) [OF assms(1) some(1)]
    have st: "run_step (tk_heap t ! p) (f (tk_heap t ! p))" using assms(2,3) run_step.exec by simp
    let ?t = "t\<lparr>tk_heap := (tk_heap t)[p := f (tk_heap t ! p)]\<rparr>"
    have eq: "set_run p f s = s\<lparr>sv_tracker := Some ?t\<rparr>" using some by (simp add: set_run_def upd_run_def)
    have "trk_inv ?t" using trk_inv_step [OF trk_step.run [OF some(2) st] inv] .
    moreover have "\<forall>r' \<in> set (tk_heap ?t). \<exists>r \<in> set (tk_heap t). run_ID r' = run_ID r \<and> run_HookID r' = run_HookID r"
      using run_step_ids [OF st] some(2) by (auto dest!: set_update_subset_insert [THEN subsetD] intro: nth_mem)
    ultimately show ?thesis
      unfolding eq using srv_ok_tracker [OF assms(1) some(1)] later_tracker [OF some(1) trk_later_run [OF inv some(2) st]] by simp
  qed (simp add: assms(1))
  then show "srv_ok (set_run p f s) I" "later I s (set_run p f s)" by simp_all
qed

subsection \<open>The steps of a request\<close>

lemma later_trans: "later I s s1 \<Longrightarrow> later I s1 s2 \<Longrightarrow> later I s s2"
  by (simp add: later_def)

text \<open>A step that keeps the server in order and moves liveness forward only.\<close>

definition safe :: "(string \<times> string) set \<Rightarrow> srv \<Rightarrow> srv \<Rightarrow> bool" where
  "safe I s s' \<longleftrightarrow> srv_ok s' I \<and> later I s s'"

lemma safe_refl: "srv_ok s I \<Longrightarrow> safe I s s"
  by (simp add: safe_def)

lemma safe_record: "safe I s s' \<Longrightarrow> safe I s (sv_record now k m fs s')"
proof -
  assume *: "safe I s s'"
  have "srv_ok (sv_record now k m fs s') I = srv_ok s' I" by (rule srv_ok_cong) simp_all
  moreover have "later I s' (sv_record now k m fs s')" by (rule later_same) simp_all
  ultimately show ?thesis using * later_trans unfolding safe_def by blast
qed

lemma safe_set_run: "safe I s s' \<Longrightarrow> 0 < now \<Longrightarrow> f = run_exec now now op \<Longrightarrow> safe I s (set_run p f s')"
  unfolding safe_def using set_run_step [of s' I now f op p] later_trans [of I s s' "set_run p f s'"] by simp

lemma safe_touch: "safe I s s' \<Longrightarrow> 0 < (now :: time) \<Longrightarrow> safe I s (snd (waiter_touch w ns rid s'))"
  by (cases w) (auto simp: waiter_touch_def intro!: safe_set_run [where op = OpTouch and now = now] simp: run_exec_def)

lemma safe_setWaitingOn: "safe I s s' \<Longrightarrow> 0 < now \<Longrightarrow> safe I s (snd (waiter_setWaitingOn w now wo s'))"
  by (cases w) (auto simp: waiter_setWaitingOn_def intro!: safe_set_run [where op = "OpWaiting wo" and now = now]
      simp: run_exec_def split: option.split)

lemma safe_clearWaitingOn: "safe I s s' \<Longrightarrow> 0 < now \<Longrightarrow> safe I s (waiter_clearWaitingOn w now seq s')"
  by (cases w) (auto simp: waiter_clearWaitingOn_def intro!: safe_set_run [where op = "OpClear seq" and now = now] simp: run_exec_def)

lemma safe_cancel: "safe I s s' \<Longrightarrow> 0 < now \<Longrightarrow> safe I s (set_run p (RequestCancelWithReason now why) s')"
  by (auto intro!: safe_set_run [where op = "OpCancel why" and now = now] simp: run_exec_def)

lemma safe_kv_error: "safe I s s' \<Longrightarrow> safe I s (snd (writeKVError txt now ns err s'))"
  by (simp add: writeKVError_def safe_record)

lemma safe_kv:
  assumes "srv_ok s I" "sv_kv s = Some kv"
    "\<And>ns key e. lock_at kv' ns key = Some e \<Longrightarrow> (\<exists>e0. lock_at kv ns key = Some e0 \<and> le_runID e0 = le_runID e) \<or> (ns, le_runID e) \<in> I"
  shows "safe I s (s\<lparr>sv_kv := Some kv'\<rparr>)"
  unfolding safe_def using srv_ok_kv [OF assms] later_same by simp

lemmas safe_intros = safe_refl safe_record safe_touch safe_setWaitingOn safe_clearWaitingOn safe_cancel safe_kv_error

text \<open>The outcomes of an acquire, and of a steal.\<close>

lemma acquire_cases:
  obtains (refused) info err where "acquireLock ns key rid ttl pinned now kv = ((info, None, Some err), kv)"
      "err = ErrLockExpired \<Longrightarrow> \<exists>p. lock_at kv ns key = Some p \<and> info = Some (le_info p ns)"
  | (taken) e displaced where "acquireLock ns key rid ttl pinned now kv = ((Some (le_info e ns), displaced, None), lock_put ns key e kv)"
      "le_runID e = rid" "\<And>p. lock_at kv ns key = Some p \<Longrightarrow> le_runID p = rid"
proof (cases "validNamespace ns \<and> rid \<noteq> []")
  case False
  then show ?thesis by (intro refused [of None "if validNamespace ns then ErrNoRunID else ErrBadNamespace"])
      (auto simp: acquireLock_def AcquireLock_def AcquireLockPinned_def split: if_splits)
next
  case True
  then have eq: "acquireLock ns key rid ttl pinned now kv = takeLockLocked ns key rid (lockTTL ttl) False pinned now kv"
    by (simp add: acquireLock_def AcquireLock_def AcquireLockPinned_def)
  show ?thesis
  proof (cases rule: take_cases [of ns key rid "lockTTL ttl" False pinned now kv])
    case (refused info err)
    moreover from this have "err = ErrLockExpired \<Longrightarrow> \<exists>p. lock_at kv ns key = Some p \<and> info = Some (le_info p ns)"
      by (auto simp: takeLockLocked_def Let_def lock_at_def split: if_splits option.splits)
    ultimately show ?thesis using eq that(1) by simp
  next
    case (taken e displaced)
    then show ?thesis using eq that(2) by auto
  qed
qed

lemma steal_cases:
  obtains (refused) info err where "StealLock ns key rid ttl now kv = ((info, None, Some err), kv)"
  | (taken) e displaced where "StealLock ns key rid ttl now kv = ((Some (le_info e ns), displaced, None), lock_put ns key e kv)"
      "le_runID e = rid" "\<And>d. displaced = Some d \<Longrightarrow> \<exists>p. lock_at kv ns key = Some p \<and> d = le_info p ns"
      "\<And>p. lock_at kv ns key = Some p \<Longrightarrow> le_runID p \<noteq> rid \<Longrightarrow> le_pinned p \<longrightarrow> le_expired p now"
proof (cases "validNamespace ns \<and> rid \<noteq> []")
  case False
  then show ?thesis by (intro refused [of None "if validNamespace ns then ErrNoRunID else ErrBadNamespace"]) (auto simp: StealLock_def)
next
  case True
  then have eq: "StealLock ns key rid ttl now kv = takeLockLocked ns key rid (lockTTL ttl) True False now kv" by (simp add: StealLock_def)
  show ?thesis
  proof (cases rule: take_cases [of ns key rid "lockTTL ttl" True False now kv])
    case (refused info err)
    then show ?thesis using eq that(1) by simp
  next
    case (taken e displaced)
    moreover from this have "\<exists>p. lock_at kv ns key = Some p \<and> d = le_info p ns" if "displaced = Some d" for d
      using that by (auto simp: takeLockLocked_def Let_def lock_at_def split: if_splits option.splits)
    ultimately show ?thesis using eq that(2) by simp
  qed
qed

lemma not_live:
  assumes "srv_ok s I" "(ns, rid) \<in> I" "\<not> managerCaller ns rid s" "Option.bind (sv_tracker s) (active_run ns rid) = None"
  shows "\<not> run_live s rid"
proof
  assume "run_live s rid"
  then consider (run) t p where "sv_tracker s = Some t" "tk_Get rid t = Some p" "\<not> Terminal (run_Status (tk_heap t ! p))"
    | (inst) ms mid mg where "sv_managers s = Some ms" "fmlookup ms mid = Some mg" "mg_instanceID mg = rid" "rid \<noteq> []"
    by (auto simp: run_live_def AnyCurrentInstance_def list_ex_iff split: option.splits)
  then show False
  proof cases
    case (run t p)
    then have p: "p < length (tk_heap t)" "run_ID (tk_heap t ! p) = rid" using trk_invD(5) [OF srv_okD(2) [OF assms(1) run(1)]] by auto
    then have "(run_HookID (tk_heap t ! p), rid) \<in> I" using srv_okD(3) [OF assms(1) run(1), of "tk_heap t ! p"] by simp
    then have "run_HookID (tk_heap t ! p) = ns" using srv_okD(1) [OF assms(1)] assms(2) by blast
    then show False using assms(4) run by (simp add: active_run_def)
  next
    case (inst ms mid mg)
    then have "(mid, rid) \<in> I" using srv_okD(4) [OF assms(1)] by blast
    then have "mid = ns" using srv_okD(1) [OF assms(1)] assms(2) by blast
    then show False using assms(3) inst by (simp add: managerCaller_def IsCurrentInstance_def)
  qed
qed

text \<open>What the lock table may gain in one step of a thread: an entry of its own caller.\<close>

definition table_step :: "lock_thread \<Rightarrow> kv_store \<Rightarrow> kv_store \<Rightarrow> bool" where
  "table_step th kv kv' \<longleftrightarrow> (\<forall>ns key e. lock_at kv' ns key = Some e \<longrightarrow>
     lock_at kv ns key = Some e \<or> (ns = lt_ns th \<and> le_runID e = lt_id th))"

lemma safe_table:
  assumes "srv_ok s I" "sv_kv s = Some kv" "table_step th kv kv'" "(lt_ns th, lt_id th) \<in> I"
  shows "safe I s (s\<lparr>sv_kv := Some kv'\<rparr>)"
  by (rule safe_kv [OF assms(1,2)]) (use assms(3,4) in \<open>fastforce simp: table_step_def\<close>)

lemma table_put: "le_runID e = lt_id th \<Longrightarrow> table_step th kv (lock_put (lt_ns th) key e kv)"
  by (simp add: table_step_def)

lemma takeLock_ok:
  assumes "srv_ok s I" "sv_kv s = Some kv" "(lt_ns th, lt_id th) \<in> I" "takeLock en enforce now ctx th kv s = (pc, s')"
  shows "safe I s s' \<and> thr_ok s' I (th\<lparr>lt_pc := pc\<rparr>)"
proof (cases rule: acquire_cases [of "lt_ns th" "lt_key th" "lt_id th" "lt_ttl th" "lr_Pinned (lt_req th)" now kv])
  case (refused info err)
  then have s': "s' = s\<lparr>sv_kv := Some kv\<rparr>" and pc: "pc = take_next en ctx enforce (info, None, Some err)"
    using assms(4) by (auto simp: takeLock_def)
  have "safe I s s'" unfolding s' by (rule safe_kv [OF assms(1,2)]) blast
  moreover have "(lt_ns th, li_RunID (info_of info)) \<in> I" if "err = ErrLockExpired"
    using refused(2) [OF that] srv_ok_issued [OF assms(1,2)] by (auto simp: le_info_def)
  ultimately show ?thesis using assms(3) pc by (auto simp: thr_ok_def take_next_def)
next
  case (taken e displaced)
  then have "s' = s\<lparr>sv_kv := Some (lock_put (lt_ns th) (lt_key th) e kv)\<rparr>" and "pc = LResult ctx (Some (le_info e (lt_ns th))) None"
    using assms(4) by (auto simp: takeLock_def take_next_def)
  then show ?thesis using assms(3) safe_table [OF assms(1,2) table_put [OF taken(2)] assms(3)] by (simp add: thr_ok_def)
qed

lemma enforce_loop_ok:
  assumes "srv_ok s I" "thr_ok s I th" "lt_pc th = LLoop ctx h d k" "0 < now" "enforce_loop en now ctx h d k th s = (pc, s')"
  shows "safe I s s' \<and> thr_ok s' I (th\<lparr>lt_pc := pc\<rparr>)"
proof -
  have I: "(lt_ns th, lt_id th) \<in> I" "(lt_ns th, li_RunID h) \<in> I" "\<not> managerCaller (lt_ns th) (li_RunID h) s"
    using assms(2,3) by (simp_all add: thr_ok_def)
  show ?thesis
  proof (cases "Option.bind (sv_tracker s) (active_run (lt_ns th) (li_RunID h))")
    case None
    then show ?thesis using assms(5) I not_live [OF assms(1) I(2,3)] safe_refl [OF assms(1)] by (auto simp: enforce_loop_def thr_ok_def)
  next
    case (Some p)
    then have s': "s' = (if k then s else enforce_kill en now h th p s)" using assms(5) by (auto simp: enforce_loop_def Let_def)
    have "safe I s s'" unfolding s' enforce_kill_def using assms(1,4) by (auto intro!: safe_intros)
    moreover from this have "\<not> managerCaller (lt_ns th) (li_RunID h) s'" using I unfolding safe_def later_def by blast
    ultimately show ?thesis using assms(5) I Some by (auto simp: enforce_loop_def Let_def thr_ok_def)
  qed
qed

lemma steal_ok:
  assumes "srv_ok s I" "sv_kv s = Some kv" "(lt_ns th, lt_id th) \<in> I" "handleKVSteal en now th kv s = (pc, s')"
  shows "safe I s s' \<and> thr_ok s' I (th\<lparr>lt_pc := pc\<rparr>)"
proof (cases rule: steal_cases [of "lt_ns th" "lt_key th" "lt_id th" "lt_ttl th" now kv])
  case (refused info err)
  have "safe I s (s\<lparr>sv_kv := Some kv\<rparr>)" by (rule safe_kv [OF assms(1,2)]) blast
  then show ?thesis using assms(3,4) refused
    by (auto simp: handleKVSteal_def Let_def thr_ok_def case_prod_beta split: if_splits intro: safe_intros)
next
  case (taken e displaced)
  have "safe I s (s\<lparr>sv_kv := Some (lock_put (lt_ns th) (lt_key th) e kv)\<rparr>)"
    by (rule safe_table [OF assms(1,2) table_put [OF taken(2)] assms(3)])
  moreover have "(lt_ns th, li_RunID d) \<in> I" if "displaced = Some d" for d
    using taken(3) [OF that] srv_ok_issued [OF assms(1,2)] by (auto simp: le_info_def)
  ultimately show ?thesis using assms(3,4) taken(1)
    by (auto simp: handleKVSteal_def thr_ok_def split: option.splits if_splits)
qed

lemma steal_kill_ok:
  assumes "srv_ok s I" "thr_ok s I th" "lt_pc th = LKillStolen i d" "0 < now"
  shows "safe I s (steal_kill en now d th s) \<and> victim_told (steal_kill en now d th s) (lt_ns th) (li_RunID d)"
proof -
  have I: "(lt_ns th, li_RunID d) \<in> I" using assms(2,3) by (simp add: thr_ok_def)
  have safe: "safe I s (steal_kill en now d th s)"
    unfolding steal_kill_def Let_def using assms(1,4) by (auto intro!: safe_intros split: option.split)
  have "victim_told (steal_kill en now d th s) (lt_ns th) (li_RunID d)"
  proof (cases "sv_tracker s")
    case (Some t)
    have heap: "p < length (tk_heap t)" if "active_run (lt_ns th) (li_RunID d) t = Some p" for p
      using that trk_invD(5) [OF srv_okD(2) [OF assms(1) Some]] by (auto simp: active_run_def split: option.splits if_splits)
    show ?thesis
      using Some heap by (auto simp: victim_told_def steal_kill_def Let_def set_run_def upd_run_def active_run_def tk_Get_def
          RequestCancelWithReason_def owe_notify_def log_event_def split: option.splits if_splits)
  qed (simp add: victim_told_def steal_kill_def)
  with safe show ?thesis ..
qed

lemma lock_next_ok:
  assumes "srv_ok s I" "thr_ok s I th" "0 < now" "lock_next en now c th s = Some (pc, s')"
  shows "safe I s s' \<and> thr_ok s' I (th\<lparr>lt_pc := pc\<rparr>)"
proof -
  obtain kv where kv: "sv_kv s = Some kv" using srv_okD(7) [OF assms(1)] by blast
  have id: "(lt_ns th, lt_id th) \<in> I" using assms(2) by (simp add: thr_ok_def)
  note step = assms(4) [unfolded lock_next_def kv, simplified]
  note refl = safe_refl [OF assms(1)]
  show ?thesis
  proof (cases "lt_pc th")
    case (LTake ctx)
    then show ?thesis using step takeLock_ok [OF assms(1) kv id] by simp
  next
    case (LEnforce ctx h)
    then show ?thesis using step assms(2) refl by (auto simp: enforceLockTTL_def thr_ok_def)
  next
    case (LLoop ctx h d k)
    then show ?thesis using step enforce_loop_ok [OF assms(1,2) LLoop assms(3)] by simp
  next
    case (LPause ctx h d k)
    then show ?thesis using step assms(2) refl by (auto simp: thr_ok_def split: sel.splits)
  next
    case (LReapAt ctx h)
    have "safe I s (s\<lparr>sv_kv := Some (snd (ReapExpiredLock (lt_ns th) (lt_key th) (li_RunID h) now kv))\<rparr>)"
      by (rule safe_kv [OF assms(1) kv]) (auto simp: reap_at split: if_splits option.splits)
    then have "safe I s (enforce_reap en now h th kv s)"
      by (auto simp: enforce_reap_def case_prod_beta intro: safe_record split: bool.split)
    then show ?thesis using LReapAt step id by (auto simp: thr_ok_def)
  next
    case (LRetake ctx)
    then show ?thesis using step takeLock_ok [OF assms(1) kv id] by simp
  next
    case (LResult ctx info err)
    have "safe I s (snd (acquire_result en now info err th s))" "safe I s (snd (retry_result en now bs info err th s))" for bs
      using assms(1,3)
      by (auto simp: acquire_result_def retry_result_def case_prod_beta Let_def intro!: safe_intros split: option.split take_err.split)
    moreover have "thr_ok u I (th\<lparr>lt_pc := fst (acquire_result en now info err th s)\<rparr>)" "thr_ok u I (th\<lparr>lt_pc := fst (retry_result en now bs info err th s)\<rparr>)" for bs u
      using id by (auto simp: thr_ok_def acquire_result_def retry_result_def case_prod_beta Let_def split: option.split take_err.split)
    ultimately show ?thesis using step LResult by (cases ctx) (auto simp: prod_eq_iff)
  next
    case (LBlock h)
    have "safe I s (snd (blockOnLock en now h th s))" "thr_ok u I (th\<lparr>lt_pc := fst (blockOnLock en now h th s)\<rparr>)" for u
      using assms(1,3) id by (auto simp: blockOnLock_def thr_ok_def case_prod_beta Let_def intro!: safe_intros)
    then show ?thesis using step LBlock by (auto simp: prod_eq_iff)
  next
    case (LBlocked bs)
    have "safe I s (snd (waiter_touch (bs_waiter bs) (lt_ns th) (lt_id th) s))" using assms(1,3) by (intro safe_intros)
    then show ?thesis using step LBlocked refl id
      by (auto simp: block_select_def thr_ok_def case_prod_beta Let_def split: sel.splits if_splits)
  next
    case (LLeave bs reply)
    have "safe I s (waiter_clearWaitingOn (bs_waiter bs) now (bs_seq bs) s)" using assms(1,3) by (intro safe_intros)
    then show ?thesis using step LLeave assms(2) by (cases reply) (auto simp: thr_ok_def)
  next
    case LTakeOver
    then show ?thesis using step steal_ok [OF assms(1) kv id] by simp
  next
    case (LKillStolen i d)
    then have "safe I s s' \<and> victim_told s' (lt_ns th) (li_RunID d)" and "pc = LDone (StealOK i (Some (StolenParty (li_RunID d) (li_HookID d))))"
      using step steal_kill_ok [OF assms(1,2) LKillStolen assms(3)] by auto
    then show ?thesis using assms(2) LKillStolen by (simp add: thr_ok_def)
  next
    case (LDone reply)
    then show ?thesis using step by simp
  qed
qed

subsection \<open>Every step keeps the invariant\<close>

lemma lw_inv_srv:
  assumes "lw_inv w" "safe (lw_issued w) (lw_srv w) s"
  shows "lw_inv (w\<lparr>lw_srv := s\<rparr>)"
  using assms thr_ok_later by (auto simp: lw_inv_def safe_def)

lemma safe_verbs:
  assumes "srv_ok s I" "sv_kv s = Some kv"
  shows "safe I s (snd (handleKVRelease txt now rq ns rid kv s))" "safe I s (snd (handleKVPin txt now rq ns rid kv s))"
    "safe I s (snd (handleKVUnpin txt now rq ns rid kv s))"
proof -
  have "safe I s (s\<lparr>sv_kv := Some (snd (ReleaseLock ns (rq_name rq) rid kv))\<rparr>)"
    "safe I s (s\<lparr>sv_kv := Some (snd (PinLock ns (rq_name rq) rid kv))\<rparr>)" "safe I s (s\<lparr>sv_kv := Some (snd (UnpinLock ns (rq_name rq) rid kv))\<rparr>)"
    by (rule safe_kv [OF assms]; auto simp: release_at setPin_at PinLock_def UnpinLock_def split: if_splits option.splits)+
  then show "safe I s (snd (handleKVRelease txt now rq ns rid kv s))" "safe I s (snd (handleKVPin txt now rq ns rid kv s))"
    "safe I s (snd (handleKVUnpin txt now rq ns rid kv s))"
    by (auto simp: handleKVRelease_def handleKVPin_def handleKVUnpin_def case_prod_beta intro: safe_kv_error split: option.split)
qed

lemma kv_locks_sweep_entries [simp]: "kv_locks (kv_sweep_entries now pok kv) = kv_locks kv"
proof -
  have "kv_locks (snd (fold (kv_sweep_ns now pok) xs (b, kv))) = kv_locks kv" for xs b kv
    by (induction xs arbitrary: b kv) (auto simp: kv_sweep_ns_def kv_persist_def Let_def)
  then show ?thesis by (simp add: kv_sweep_entries_def case_prod_beta kv_notifyMutate_def)
qed

lemma lock_at_locks: "kv_locks kv = kv_locks kv' \<Longrightarrow> lock_at kv ns key = lock_at kv' ns key"
  by (simp add: lock_at_def2)

lemma lock_at_sweep: "lock_at (kv_sweep (Some live) now pok kv) ns key =
  (case lock_at kv ns key of None \<Rightarrow> None | Some e \<Rightarrow> if le_expired e now \<and> \<not> live (le_runID e) then None else Some e)"
  using lock_at_locks [of "kv_sweep (Some live) now pok kv" "reapExpiredLocks (Some live) now kv" ns key]
  by (simp add: kv_sweep_def reapExpiredLocks_def)

lemma safe_run_end: "srv_ok s I \<Longrightarrow> sv_kv s = Some kv \<Longrightarrow> safe I s (s\<lparr>sv_kv := Some (snd (ReleaseRunLocks rid kv))\<rparr>)"
  by (rule safe_kv) (auto simp: ReleaseRunLocks_def split: option.splits if_splits)

lemma safe_seam: "srv_ok s I \<Longrightarrow> safe I s (snd (RunFinishCallback rec now st (h, s)))" "srv_ok s I \<Longrightarrow> safe I s (OnInstanceEnd now rid s)"
  by (auto simp: RunFinishCallback_def OnInstanceEnd_def case_prod_beta Let_def intro!: safe_record safe_run_end split: option.split dest: srv_okD(7))

lemma safe_running:
  assumes "srv_ok s I" "sv_tracker s = Some t" "p < length (tk_heap t)" "run_step (tk_heap t ! p) r"
  shows "safe I s (s\<lparr>sv_tracker := Some (t\<lparr>tk_heap := (tk_heap t)[p := r]\<rparr>)\<rparr>)"
proof -
  note inv = srv_okD(2) [OF assms(1,2)]
  have "\<forall>r' \<in> set ((tk_heap t)[p := r]). \<exists>r \<in> set (tk_heap t). run_ID r' = run_ID r \<and> run_HookID r' = run_HookID r"
    using run_step_ids [OF assms(4)] assms(3) by (auto dest!: set_update_subset_insert [THEN subsetD] intro: nth_mem)
  then show ?thesis
    unfolding safe_def using srv_ok_tracker [OF assms(1,2) trk_inv_step [OF trk_step.run [OF assms(3,4)] inv]]
      later_tracker [OF assms(2) trk_later_run [OF inv assms(3,4)]] by simp
qed

lemma roster_ok:
  assumes "srv_ok s I" "sv_managers s = Some ms" "same_instances ms ms'"
  shows "safe I s (s\<lparr>sv_managers := Some ms'\<rparr>)"
proof -
  have M: "mg_instanceID mg' \<noteq> [] \<Longrightarrow> \<exists>mg. fmlookup ms mid = Some mg \<and> mg_instanceID mg = mg_instanceID mg'"
    if "fmlookup ms' mid = Some mg'" for mid mg' using assms(3) that unfolding same_instances_def by blast
  note D = srv_okD [OF assms(1)]
  have "(mid, mg_instanceID mg') \<in> I" if "fmlookup ms' mid = Some mg'" "mg_instanceID mg' \<noteq> []" for mid mg'
    using M [OF that] D(4) [OF assms(2)] that(2) by fastforce
  moreover have "run_ID r \<noteq> mg_instanceID mg'" if "fmlookup ms' mid = Some mg'" "mg_instanceID mg' \<noteq> []" "sv_tracker s = Some t" "r \<in> set (tk_heap t)" for mid mg' t r
    using M [OF that(1,2)] D(5) [OF that(3) assms(2) _ that(4)] that(2) by fastforce
  moreover have "\<forall>ns key rid. holds (s\<lparr>sv_managers := Some ms'\<rparr>) ns key rid \<longrightarrow> (ns, rid) \<in> I" using D(6) by (simp add: holds_def)
  ultimately have ok: "srv_ok (s\<lparr>sv_managers := Some ms'\<rparr>) I" unfolding srv_ok_def using D(1-3,7) by simp
  have 1: "managerCaller ns rid (s\<lparr>sv_managers := Some ms'\<rparr>) \<longrightarrow> managerCaller ns rid s" for ns rid
    using M assms(2) by (fastforce simp: managerCaller_def IsCurrentInstance_def split: option.splits)
  have "AnyCurrentInstance rid ms' \<Longrightarrow> AnyCurrentInstance rid ms" for rid
    using M by (fastforce simp: AnyCurrentInstance_def list_ex_iff)
  then have "run_live (s\<lparr>sv_managers := Some ms'\<rparr>) rid \<longrightarrow> run_live s rid" for rid using assms(2) by (auto simp: run_live_def)
  with 1 ok show ?thesis by (auto simp: safe_def later_def victim_told_def)
qed

lemma srv_ok_more:
  assumes "srv_ok s I" "rid \<notin> snd ` I"
  shows "srv_ok s (insert (ns, rid) I)"
proof (rule srv_okI)
  show "(a, i) \<in> insert (ns, rid) I \<Longrightarrow> (b, i) \<in> insert (ns, rid) I \<Longrightarrow> a = b" for a b i
    using srv_okD(1) [OF assms(1), of a i b] assms(2) by force
qed (use srv_okD [OF assms(1)] in blast)+

lemma start_ok:
  assumes ok: "srv_ok s I" and t: "sv_tracker s = Some t" and fresh: "rid \<notin> snd ` I"
    and seen: "\<forall>p < length (tk_heap t). seen p \<longrightarrow> Terminal (run_Status (tk_heap t ! p))" "\<not> seen (length (tk_heap t))"
    and t': "t' = tk_New seen rid now hookID t"
  shows "srv_ok (s\<lparr>sv_tracker := Some t'\<rparr>) (insert (hookID, rid) I)" "later I s (s\<lparr>sv_tracker := Some t'\<rparr>)"
proof -
  note D = srv_okD [OF srv_ok_more [OF ok fresh, of hookID]]
  have new: "\<forall>r \<in> set (tk_heap t). run_ID r \<noteq> rid" using srv_okD(3) [OF ok t] fresh by force
  have inv: "trk_inv t'" unfolding t' using trk_inv_New [OF srv_okD(2) [OF ok t] new seen] .
  have heap: "set (tk_heap t') = insert (fresh_run rid hookID now (tk_onFinish t) (tk_onChange t)) (set (tk_heap t))"
    by (simp add: t' tk_New_eq new_heap_def)
  show "srv_ok (s\<lparr>sv_tracker := Some t'\<rparr>) (insert (hookID, rid) I)"
  proof (rule srv_okI)
    fix ms mid mg r u
    assume ms: "sv_managers (s\<lparr>sv_tracker := Some t'\<rparr>) = Some ms" "fmlookup ms mid = Some mg" "mg_instanceID mg \<noteq> []"
      and r: "sv_tracker (s\<lparr>sv_tracker := Some t'\<rparr>) = Some u" "r \<in> set (tk_heap u)"
    then have "(mid, mg_instanceID mg) \<in> I" using srv_okD(4) [OF ok] by simp
    then have "mg_instanceID mg \<noteq> rid" using fresh by force
    moreover have "r \<in> set (tk_heap t')" using r by simp
    ultimately show "run_ID r \<noteq> mg_instanceID mg" using srv_okD(5) [OF ok t _ ms(2) _ ms(3), of r] ms(1) by (auto simp: heap)
  next
    show "sv_tracker (s\<lparr>sv_tracker := Some t'\<rparr>) = Some u \<Longrightarrow> trk_inv u" for u using inv by simp
    have "r \<in> set (tk_heap t') \<Longrightarrow> (run_HookID r, run_ID r) \<in> insert (hookID, rid) I" for r using D(3) [OF t, of r] by (auto simp: heap)
    then show "sv_tracker (s\<lparr>sv_tracker := Some t'\<rparr>) = Some u \<Longrightarrow> r \<in> set (tk_heap u) \<Longrightarrow> (run_HookID r, run_ID r) \<in> insert (hookID, rid) I" for u r
      by simp
    show "(a, i) \<in> insert (hookID, rid) I \<Longrightarrow> (b, i) \<in> insert (hookID, rid) I \<Longrightarrow> a = b" for a b i by (rule D(1))
    show "holds (s\<lparr>sv_tracker := Some t'\<rparr>) ns key i \<Longrightarrow> (ns, i) \<in> insert (hookID, rid) I" for ns key i using D(6) by simp
    show "sv_managers (s\<lparr>sv_tracker := Some t'\<rparr>) = Some ms \<Longrightarrow> fmlookup ms mid = Some mg \<Longrightarrow> mg_instanceID mg \<noteq> []
      \<Longrightarrow> (mid, mg_instanceID mg) \<in> insert (hookID, rid) I" for ms mid mg using D(4) by simp
  qed (use D(7) in simp)
  show "later I s (s\<lparr>sv_tracker := Some t'\<rparr>)"
    using later_tracker [OF t trk_later_New [OF srv_okD(2) [OF ok t] new fresh]] by (simp add: t')
qed

lemma instance_start_ok:
  assumes ok: "srv_ok s I" and ms: "sv_managers s = Some ms" "fmlookup ms mid = Some mg" "mg_instanceID mg = []"
    and inst: "inst \<noteq> []" "inst \<notin> snd ` I"
  defines "s' \<equiv> s\<lparr>sv_managers := Some (fmupd mid (mg\<lparr>mg_instanceID := inst\<rparr>) ms)\<rparr>"
  shows "srv_ok s' (insert (mid, inst) I)" "later I s s'"
proof -
  note D = srv_okD [OF srv_ok_more [OF ok inst(2), of mid]]
  show "srv_ok s' (insert (mid, inst) I)"
  proof (rule srv_okI)
    show "sv_managers s' = Some ms' \<Longrightarrow> fmlookup ms' m = Some g \<Longrightarrow> mg_instanceID g \<noteq> [] \<Longrightarrow> (m, mg_instanceID g) \<in> insert (mid, inst) I" for ms' m g
      using D(4) [OF ms(1), of m g] by (auto simp: s'_def split: if_splits)
    fix t ms' m g r
    assume t: "sv_tracker s' = Some t" and ms': "sv_managers s' = Some ms'" "fmlookup ms' m = Some g" and r: "r \<in> set (tk_heap t)" "mg_instanceID g \<noteq> []"
    have "run_ID r \<noteq> inst" using srv_okD(3) [OF ok _ r(1)] t inst(2) by (force simp: s'_def)
    then show "run_ID r \<noteq> mg_instanceID g"
      using srv_okD(5) [OF ok _ ms(1) _ r, of m] t ms' by (auto simp: s'_def split: if_splits)
  next
    show "(a, rid) \<in> insert (mid, inst) I \<Longrightarrow> (b, rid) \<in> insert (mid, inst) I \<Longrightarrow> a = b" for a b rid by (rule D(1))
    show "sv_tracker s' = Some t \<Longrightarrow> trk_inv t" for t using D(2) by (simp add: s'_def)
    show "sv_tracker s' = Some t \<Longrightarrow> r \<in> set (tk_heap t) \<Longrightarrow> (run_HookID r, run_ID r) \<in> insert (mid, inst) I" for t r
      using D(3) unfolding s'_def by simp
    show "holds s' ns key rid \<Longrightarrow> (ns, rid) \<in> insert (mid, inst) I" for ns key rid using D(6) unfolding s'_def by simp
  qed (use D(7) in \<open>simp add: s'_def\<close>)
  { fix ns rid
    assume "(ns, rid) \<in> I"
    then have ne: "rid \<noteq> inst" using inst(2) by force
    have "managerCaller ns rid s' \<longrightarrow> managerCaller ns rid s"
      using ne ms by (auto simp: s'_def managerCaller_def IsCurrentInstance_def)
    moreover have "AnyCurrentInstance rid (fmupd mid (mg\<lparr>mg_instanceID := inst\<rparr>) ms) \<Longrightarrow> AnyCurrentInstance rid ms"
      using ne unfolding AnyCurrentInstance_iff by (auto split: if_splits)
    then have "run_live s' rid \<longrightarrow> run_live s rid" using ms by (auto simp: s'_def run_live_def)
    ultimately have "(managerCaller ns rid s' \<longrightarrow> managerCaller ns rid s) \<and> (run_live s' rid \<longrightarrow> run_live s rid)" by blast }
  then show "later I s s'" by (simp add: later_def) (simp add: s'_def victim_told_def)
qed

lemma lw_inv_more:
  assumes "lw_inv w" "srv_ok s I" "later (lw_issued w) (lw_srv w) s" "lw_issued w \<subseteq> I"
  shows "lw_inv (w\<lparr>lw_srv := s, lw_issued := I\<rparr>)"
  using assms thr_ok_later [OF _ assms(3,4)] by (auto simp: lw_inv_def)

lemma lw_inv_step: "lw_step en w l w' \<Longrightarrow> lw_inv w \<Longrightarrow> lw_inv w'"
proof (induction rule: lw_step.induct)
  case (arrive th w)
  then show ?case by (auto simp: lw_inv_def thr_ok_def)
next
  case (thread i w now c pc s)
  then have "thr_ok (lw_srv w) (lw_issued w) (lw_thr w ! i)" "srv_ok (lw_srv w) (lw_issued w)" by (simp_all add: lw_inv_def)
  note ok = lock_next_ok [OF this(2,1) thread(2,3)]
  have "thr_ok s (lw_issued w) th" if "th \<in> set (lw_thr w)" for th
    using thr_ok_later [of "lw_srv w" _ th s "lw_issued w"] ok that thread.prems by (auto simp: lw_inv_def safe_def)
  then show ?case using ok by (auto simp: lw_inv_def safe_def dest!: set_update_subset_insert [THEN subsetD])
next
  case (release ns rid w kv rq tx now)
  then show ?case by (intro lw_inv_srv safe_verbs(1)) (auto simp: lw_inv_def)
next
  case (pin ns rid w kv tx now rq)
  then show ?case by (intro lw_inv_srv safe_verbs(2)) (auto simp: lw_inv_def)
next
  case (unpin ns rid w kv tx now rq)
  then show ?case by (intro lw_inv_srv safe_verbs(3)) (auto simp: lw_inv_def)
next
  case (start w t rid seen now hookID)
  then have ok: "srv_ok (lw_srv w) (lw_issued w)" by (simp add: lw_inv_def)
  show ?case using start_ok [OF ok start(1,3-5) refl] start.prems by (intro lw_inv_more) auto
next
  case (running w t p r)
  then show ?case by (intro lw_inv_srv safe_running) (auto simp: lw_inv_def)
next
  case (seam w t p now)
  then show ?case by (intro lw_inv_srv safe_seam(1)) (auto simp: lw_inv_def)
next
  case (instance_start w ms mid mg inst)
  then have ok: "srv_ok (lw_srv w) (lw_issued w)" by (simp add: lw_inv_def)
  show ?case using instance_start_ok [OF ok instance_start(1-5)] instance_start.prems by (intro lw_inv_more) auto
next
  case (instance_end mid inst w now)
  then show ?case by (intro lw_inv_srv safe_seam(2)) (auto simp: lw_inv_def)
next
  case (roster w ms ms')
  then show ?case by (intro lw_inv_srv roster_ok) (auto simp: lw_inv_def)
next
  case (sweep w kv live now pok)
  then show ?case by (intro lw_inv_srv safe_kv) (auto simp: lw_inv_def lock_at_sweep split: option.splits if_splits)
next
  case (data w kv kv' ev b)
  then have "safe (lw_issued w) (lw_srv w) ((lw_srv w)\<lparr>sv_kv := Some kv'\<rparr>)"
    using lock_at_locks [of kv' kv] by (intro safe_kv) (auto simp: lw_inv_def)
  then have "safe (lw_issued w) (lw_srv w) ((lw_srv w)\<lparr>sv_kv := Some kv', sv_backlogs := b, sv_events := ev\<rparr>)"
    using srv_ok_cong [of "(lw_srv w)\<lparr>sv_kv := Some kv', sv_backlogs := b, sv_events := ev\<rparr>" "(lw_srv w)\<lparr>sv_kv := Some kv'\<rparr>"]
      later_same [of "(lw_srv w)\<lparr>sv_kv := Some kv', sv_backlogs := b, sv_events := ev\<rparr>" "lw_srv w"] by (simp add: safe_def)
  then show ?case using data.prems lw_inv_srv by simp
qed

abbreviation lw_next :: "lock_env \<Rightarrow> lock_world \<Rightarrow> lock_world \<Rightarrow> bool" where
  "lw_next en w w' \<equiv> \<exists>l. lw_step en w l w'"

interpretation lwi: invariant_system lw_init "lw_next en" lw_inv for en
proof
  fix w
  assume init: "lw_init w"
  have "srv_ok (lw_srv w) (lw_issued w)"
  proof (rule srv_okI)
    fix t
    assume t: "sv_tracker (lw_srv w) = Some t"
    then have "t\<lparr>tk_onFinish := False, tk_onChange := False\<rparr> = NewTracker" using init by (auto simp: lw_init_def)
    then have "tk_heap t = [] \<and> tk_byID t = fmempty \<and> tk_byHook t = fmempty" by (cases t) (auto simp: NewTracker_def)
    then show "trk_inv t" "r \<in> set (tk_heap t) \<Longrightarrow> (run_HookID r, run_ID r) \<in> lw_issued w" for r
      by (simp_all add: trk_inv_def hook_runs_def tk_Get_def)
  qed (use init in \<open>auto simp: lw_init_def holds_def lock_at_def2\<close>)
  then show "lw_inv w" using init by (simp add: lw_inv_def lw_init_def)
qed (use lw_inv_step in blast)

subsection \<open>No live holder loses its lock\<close>

lemma sv_kv_ops [simp]: "sv_kv (set_run p f s) = sv_kv s" "sv_kv (snd (waiter_touch w ns i s)) = sv_kv s"
  "sv_kv (snd (waiter_setWaitingOn w now wo s)) = sv_kv s" "sv_kv (waiter_clearWaitingOn w now seq s) = sv_kv s"
  "sv_kv (snd (writeKVError txt now ns err s)) = sv_kv s" "sv_kv (enforce_kill en now h th p s) = sv_kv s"
  "sv_kv (steal_kill en now h th s) = sv_kv s"
  by (simp_all add: set_run_def waiter_touch_def waiter_setWaitingOn_def waiter_clearWaitingOn_def writeKVError_def
      enforce_kill_def steal_kill_def Let_def split: waiter.split option.split)

lemma quiet_kv:
  "sv_kv (snd (enforce_loop en now ctx h d k th s)) = sv_kv s"
  "sv_kv (snd (acquire_result en now info err th s)) = sv_kv s"
  "sv_kv (snd (retry_result en now bs info err th s)) = sv_kv s"
  "sv_kv (snd (blockOnLock en now h th s)) = sv_kv s"
  "block_select en now c bs th s = Some x \<Longrightarrow> sv_kv (snd x) = sv_kv s"
  by (auto simp: enforce_loop_def acquire_result_def retry_result_def blockOnLock_def block_select_def case_prod_beta Let_def
      split: option.splits take_err.splits sel.splits if_splits)

text \<open>What the next step of a thread does to the lock table: a take, a reap, a steal, or nothing.\<close>

lemma lock_next_kv:
  assumes "lock_next en now c th s = Some (pc, s')" "sv_kv s = Some kv"
  shows "sv_kv s' = Some kv
    \<or> sv_kv s' = Some (snd (acquireLock (lt_ns th) (lt_key th) (lt_id th) (lt_ttl th) (lr_Pinned (lt_req th)) now kv))
    \<or> (\<exists>ctx h. lt_pc th = LReapAt ctx h \<and> sv_kv s' = Some (snd (ReapExpiredLock (lt_ns th) (lt_key th) (li_RunID h) now kv)))
    \<or> (lt_pc th = LTakeOver \<and> sv_kv s' = Some (snd (StealLock (lt_ns th) (lt_key th) (lt_id th) (lt_ttl th) now kv)))"
proof (cases "lt_pc th")
  case (LResult ctx info err)
  then show ?thesis using assms quiet_kv(2,3) by (cases ctx) (auto simp: lock_next_def prod_eq_iff)
next
  case (LReapAt ctx h)
  then show ?thesis using assms by (auto simp: lock_next_def enforce_reap_def case_prod_beta split: bool.splits)
next
  case LTakeOver
  then show ?thesis using assms
    by (auto simp: lock_next_def handleKVSteal_def case_prod_beta Let_def split: option.splits if_splits)
next
  case (LLoop ctx h d k)
  then show ?thesis using assms quiet_kv(1) [of en now ctx h d k th s] by (simp add: lock_next_def)
next
  case (LBlock h)
  then show ?thesis using assms quiet_kv(4) [of en now h th s] by (simp add: lock_next_def)
next
  case (LBlocked bs)
  then show ?thesis using assms quiet_kv(5) [of en now c bs th s] by (fastforce simp: lock_next_def)
next
  case (LPause ctx h d k)
  then show ?thesis using assms by (simp add: lock_next_def split: sel.splits)
qed (use assms in \<open>auto simp: lock_next_def takeLock_def case_prod_beta Let_def\<close>)

text \<open>The thread is a steal of this lock by another caller, which the lock's pin does not forbid.\<close>

definition steal_of :: "lock_thread \<Rightarrow> time \<Rightarrow> srv \<Rightarrow> string \<Rightarrow> string \<Rightarrow> string \<Rightarrow> bool" where
  "steal_of th now s ns key rid \<longleftrightarrow> lt_pc th = LTakeOver \<and> lt_ns th = ns \<and> lt_key th = key \<and> lt_id th \<noteq> rid
     \<and> (\<exists>kv e. sv_kv s = Some kv \<and> lock_at kv ns key = Some e \<and> (le_pinned e \<longrightarrow> le_expired e now))"

lemma acquire_hold:
  assumes "lock_at kv ns key = Some e"
  shows "\<exists>e'. lock_at (snd (acquireLock ns' key' rid ttl pinned now kv)) ns key = Some e' \<and> le_runID e' = le_runID e"
proof (cases rule: acquire_cases [of ns' key' rid ttl pinned now kv])
  case (taken e0 displaced)
  then show ?thesis using assms taken(3) [of e] by (cases "ns = ns' \<and> key = key'") auto
qed (use assms in simp)

lemma steal_hold:
  assumes "lock_at kv ns key = Some e"
  shows "(\<exists>e'. lock_at (snd (StealLock ns' key' rid ttl now kv)) ns key = Some e' \<and> le_runID e' = le_runID e)
    \<or> (ns' = ns \<and> key' = key \<and> rid \<noteq> le_runID e \<and> (le_pinned e \<longrightarrow> le_expired e now))"
proof (cases rule: steal_cases [of ns' key' rid ttl now kv])
  case (taken e0 displaced)
  then show ?thesis using assms taken(4) [of e] by (cases "ns = ns' \<and> key = key'") auto
qed (use assms in simp)

lemma pin_hold:
  assumes "lock_at kv ns key = Some e"
  shows "\<exists>e'. lock_at (snd (setPinLocked ns' key' r b kv)) ns key = Some e' \<and> le_runID e' = le_runID e"
  using assms by (cases "le_runID e = r") (auto simp: setPin_at)

lemma holds_pin:
  assumes "holds s ns key rid" "sv_kv s = Some kv"
  shows "holds (snd (handleKVPin tx now rq ns' r kv s)) ns key rid" "holds (snd (handleKVUnpin tx now rq ns' r kv s)) ns key rid"
proof -
  obtain e where e: "lock_at kv ns key = Some e" "le_runID e = rid" using assms by (auto simp: holds_def)
  have "sv_kv (snd (handleKVPin tx now rq ns' r kv s)) = Some (snd (setPinLocked ns' (rq_name rq) r True kv))"
    "sv_kv (snd (handleKVUnpin tx now rq ns' r kv s)) = Some (snd (setPinLocked ns' (rq_name rq) r False kv))"
    by (simp_all add: handleKVPin_def handleKVUnpin_def PinLock_def UnpinLock_def case_prod_beta split: option.split)
  then show "holds (snd (handleKVPin tx now rq ns' r kv s)) ns key rid" "holds (snd (handleKVUnpin tx now rq ns' r kv s)) ns key rid"
    using pin_hold [OF e(1)] e(2) by (auto simp: holds_def)
qed

lemma thread_hold:
  assumes "thr_ok s I th" "lock_next en now c th s = Some (pc, s')" "holds s ns key rid" "run_live s rid"
  shows "holds s' ns key rid \<or> steal_of th now s ns key rid"
proof -
  obtain kv e where kv: "sv_kv s = Some kv" "lock_at kv ns key = Some e" "le_runID e = rid" using assms(3) by (auto simp: holds_def)
  have reap: "lock_at (snd (ReapExpiredLock (lt_ns th) (lt_key th) (li_RunID h) now kv)) ns key = Some e" if "lt_pc th = LReapAt ctx h" for ctx h
    using assms(1,4) that kv by (auto simp: thr_ok_def reap_at)
  from lock_next_kv [OF assms(2) kv(1)] show ?thesis
  proof (elim disjE exE conjE)
    assume "sv_kv s' = Some (snd (acquireLock (lt_ns th) (lt_key th) (lt_id th) (lt_ttl th) (lr_Pinned (lt_req th)) now kv))"
    then show ?thesis using acquire_hold [OF kv(2)] kv(3) by (auto simp: holds_def)
  next
    assume "lt_pc th = LTakeOver" "sv_kv s' = Some (snd (StealLock (lt_ns th) (lt_key th) (lt_id th) (lt_ttl th) now kv))"
    then show ?thesis using steal_hold [OF kv(2), of "lt_ns th" "lt_key th" "lt_id th" "lt_ttl th" now] kv by (auto simp: holds_def steal_of_def)
  qed (use kv reap in \<open>auto simp: holds_def\<close>)
qed

lemma terminal_not_live:
  assumes "srv_ok s I" "sv_tracker s = Some t" "p < length (tk_heap t)" "Terminal (run_Status (tk_heap t ! p))"
  shows "\<not> run_live s (run_ID (tk_heap t ! p))"
proof -
  note inv = srv_okD(2) [OF assms(1,2)]
  have "tk_Get (run_ID (tk_heap t ! p)) t = Some q \<Longrightarrow> q = p" for q
    using trk_invD(2,5) [OF inv] assms(3) by blast
  moreover have "\<not> AnyCurrentInstance (run_ID (tk_heap t ! p)) ms" if "sv_managers s = Some ms" for ms
    using srv_okD(5) [OF assms(1,2) that, of _ _ "tk_heap t ! p"] assms(3) by (force simp: AnyCurrentInstance_iff)
  ultimately show ?thesis using assms(2,4) by (auto simp: run_live_def split: option.splits)
qed

lemma holds_record [simp]: "holds (sv_record now k m fs s) ns key rid = holds s ns key rid"
  by (simp add: holds_def)

lemma holds_run_end: "holds s ns key rid \<Longrightarrow> sv_kv s = Some kv \<Longrightarrow> r \<noteq> rid \<Longrightarrow> holds (s\<lparr>sv_kv := Some (snd (ReleaseRunLocks r kv))\<rparr>) ns key rid"
  by (auto simp: holds_def ReleaseRunLocks_def)

lemma holds_seam:
  assumes "holds s ns key rid"
  shows "rs_ID st \<noteq> rid \<Longrightarrow> holds (snd (RunFinishCallback rec now st (h, s))) ns key rid"
    "inst \<noteq> rid \<Longrightarrow> holds (OnInstanceEnd now inst s) ns key rid"
  using holds_run_end [OF assms] assms by (auto simp: RunFinishCallback_def OnInstanceEnd_def case_prod_beta Let_def split: option.split)

lemma step_hold:
  assumes "lw_step en w l w'" "lw_inv w" "holds (lw_srv w) ns key rid" "run_live (lw_srv w) rid"
  shows "holds (lw_srv w') ns key rid \<or> l = ByRelease ns key rid \<or> l = ByInstanceEnd rid
    \<or> (\<exists>i now. l = ByThread i now \<and> steal_of (lw_thr w ! i) now (lw_srv w) ns key rid)"
  using assms
proof (induction rule: lw_step.induct)
  case (thread i w now c pc s)
  then have "thr_ok (lw_srv w) (lw_issued w) (lw_thr w ! i)" by (simp add: lw_inv_def)
  then show ?case using thread_hold [OF _ thread(3)] thread.prems by auto
next
  case (release ns' r w kv rq tx now)
  then show ?case by (auto simp: handleKVRelease_def holds_def case_prod_beta release_at split: option.split)
next
  case (pin ns' r w kv tx now rq)
  then show ?case by (simp add: holds_pin)
next
  case (unpin ns' r w kv tx now rq)
  then show ?case by (simp add: holds_pin)
next
  case (seam w t p now)
  then have "run_ID (tk_heap t ! p) \<noteq> rid" using terminal_not_live by (auto simp: lw_inv_def)
  then show ?case using holds_seam(1) [OF seam.prems(2)] by (simp add: run_Snapshot_def run_ID_def Let_def)
next
  case (instance_end mid inst w now)
  then show ?case using holds_seam(2) [OF instance_end.prems(2)] by (cases "inst = rid") auto
next
  case (sweep w kv live now pok)
  then show ?case by (auto simp: holds_def lock_at_sweep)
next
  case (data w kv kv' ev b)
  then show ?case using lock_at_locks [of kv' kv] by (auto simp: holds_def)
qed auto

text \<open>
  C4: A mutex that lets go under a live holder is not a mutex: in every reachable state, if a run or
  manager instance that is still alive holds a lock, then whatever happens next (any request's next
  step, including a TTL enforcement that reaps and retakes, a run or instance starting or ending, the
  finish seam of any run, a sweep whose liveness oracle may lag behind), the lock stays with it, unless
  the step is the holder's own release, the end of the holder's manager instance, or a steal by
  another caller of a lock that is not pinned or whose TTL has passed.
\<close>

theorem live_hold_kept:
  assumes "lw_init w0" "(lw_next en)\<^sup>*\<^sup>* w0 w" "lw_step en w l w'"
    and "holds (lw_srv w) ns key rid" "run_live (lw_srv w) rid" "\<not> holds (lw_srv w') ns key rid"
  shows "l = ByRelease ns key rid \<or> l = ByInstanceEnd rid
    \<or> (\<exists>i now. l = ByThread i now \<and> steal_of (lw_thr w ! i) now (lw_srv w) ns key rid)"
  using step_hold [OF assms(3) lwi.inv_reachable [OF assms(1,2)] assms(4,5)] assms(6) by blast

text \<open>
  A steal is never silent: in every reachable state, a request that was answered with the name of a
  displaced holder has displaced a run that is over or has been told to stop; no live run loses its
  lock and keeps running unaware.
\<close>

theorem stolen_holder_told:
  assumes "lw_init w0" "(lw_next en)\<^sup>*\<^sup>* w0 w" "th \<in> set (lw_thr w)"
    and "lt_pc th = LDone (StealOK info (Some (StolenParty rid hook)))"
  shows "victim_told (lw_srv w) (lt_ns th) rid"
  using lwi.inv_reachable [OF assms(1,2)] assms(3,4) by (auto simp: lw_inv_def thr_ok_def)

subsection \<open>An execution\<close>

lemma lw_cons: "lw_step en w l w' \<Longrightarrow> (lw_next en)\<^sup>*\<^sup>* w' w'' \<Longrightarrow> (lw_next en)\<^sup>*\<^sup>* w w''"
  by (blast intro: converse_rtranclp_into_rtranclp)

definition ex_env :: lock_env where
  "ex_env = \<lparr>lv_text = (\<lambda>_. ''e''), lv_quote = id, lv_rfc3339 = (\<lambda>_. ''t''), lv_dur = (\<lambda>_. ''30s''), lv_ctx = ''context canceled''\<rparr>"

definition ex_req :: lock_request where
  "ex_req = \<lparr>lr_TTLSeconds = None, lr_Block = False, lr_BlockTimeoutSeconds = None, lr_Pinned = False\<rparr>"

definition ex_thr :: "string \<Rightarrow> lock_pc \<Rightarrow> lock_thread" where
  "ex_thr rid pc = \<lparr>lt_ns = ''h'', lt_key = ''k'', lt_id = rid, lt_ttl = 0, lt_req = ex_req, lt_pc = pc\<rparr>"

definition ex_lock :: "string \<Rightarrow> kv_lock_entry" where
  "ex_lock rid = \<lparr>le_runID = rid, le_acquiredAt = 7, le_expiresAt = 7 + DefaultLockTTL, le_pinned = False\<rparr>"

definition ex_trk :: tracker where
  "ex_trk = tk_New (\<lambda>_. False) ''r2'' 6 ''h'' (tk_New (\<lambda>_. False) ''r1'' 5 ''h'' NewTracker)"

definition ex_srv :: "kv_store \<Rightarrow> tracker \<Rightarrow> srv" where
  "ex_srv kv t = \<lparr>sv_kv = Some kv, sv_backlogs = None, sv_tracker = Some t, sv_managers = None, sv_events = NewRecorder 10\<rparr>"

definition ex_start :: lock_world where
  "ex_start = \<lparr>lw_srv = ex_srv kv_example NewTracker, lw_thr = [], lw_issued = {}\<rparr>"

text \<open>Two runs of hook \<open>h\<close> exist; the first has acquired the lock, the second has asked to steal it.\<close>

definition ex_held :: lock_world where
  "ex_held = \<lparr>lw_srv = ex_srv (lock_put ''h'' ''k'' (ex_lock ''r1'') kv_example) ex_trk,
     lw_thr = [ex_thr ''r1'' (LResult Immediate (Some (le_info (ex_lock ''r1'') ''h'')) None), ex_thr ''r2'' LTakeOver],
     lw_issued = {(''h'', ''r2''), (''h'', ''r1'')}\<rparr>"

lemma ex_init: "lw_init ex_start"
  by (simp add: lw_init_def ex_start_def ex_srv_def kv_example_def NewTracker_def)

lemma ex_reach: "(lw_next ex_env)\<^sup>*\<^sup>* ex_start ex_held"
proof -
  let ?t1 = "tk_New (\<lambda>_. False) ''r1'' 5 ''h'' NewTracker"
  let ?w1 = "\<lparr>lw_srv = ex_srv kv_example ?t1, lw_thr = [], lw_issued = {(''h'', ''r1'')}\<rparr>"
  let ?w2 = "\<lparr>lw_srv = ex_srv kv_example ex_trk, lw_thr = [], lw_issued = {(''h'', ''r2''), (''h'', ''r1'')}\<rparr>"
  let ?w3 = "?w2\<lparr>lw_thr := [ex_thr ''r1'' (LTake Immediate)]\<rparr>"
  let ?w4 = "?w2\<lparr>lw_thr := [ex_thr ''r1'' (LTake Immediate), ex_thr ''r2'' LTakeOver]\<rparr>"
  have 1: "lw_step ex_env ex_start ByOther ?w1"
    using lw_step.start [of ex_start NewTracker "''r1''" "\<lambda>_. False" ex_env "''h''" 5] by (simp add: ex_start_def ex_srv_def)
  have 2: "lw_step ex_env ?w1 ByOther ?w2"
    using lw_step.start [of ?w1 ?t1 "''r2''" "\<lambda>_. False" ex_env "''h''" 6] by (simp add: ex_srv_def ex_trk_def)
  have 3: "lw_step ex_env ?w2 ByOther ?w3"
    using lw_step.arrive [of "ex_thr ''r1'' (LTake Immediate)" ?w2 ex_env] by (simp add: ex_thr_def)
  have 4: "lw_step ex_env ?w3 ByOther ?w4"
    using lw_step.arrive [of "ex_thr ''r2'' LTakeOver" ?w3 ex_env] by (simp add: ex_thr_def)
  have acq: "acquireLock ''h'' ''k'' ''r1'' 0 False 7 kv_example =
      ((Some (le_info (ex_lock ''r1'') ''h''), None, None), lock_put ''h'' ''k'' (ex_lock ''r1'') kv_example)"
    by (simp add: acquireLock_def AcquireLock_def kebab_h takeLockLocked_def lock_map_def kv_example_def kv_defaults_def lockTTL_def
        ex_lock_def Let_def)
  then have "lock_next ex_env 7 TimerFired (ex_thr ''r1'' (LTake Immediate)) (lw_srv ?w4) =
      Some (LResult Immediate (Some (le_info (ex_lock ''r1'') ''h'')) None, lw_srv ex_held)"
    by (simp add: lock_next_def ex_thr_def ex_srv_def takeLock_def ex_req_def take_next_def ex_held_def)
  then have 5: "lw_step ex_env ?w4 (ByThread 0 7) ex_held"
    using lw_step.thread [of 0 ?w4 7 ex_env TimerFired] by (fastforce simp: ex_held_def ex_thr_def)
  show ?thesis
    by (rule lw_cons [OF 1 lw_cons [OF 2 lw_cons [OF 3 lw_cons [OF 4 lw_cons [OF 5 rtranclp.rtrancl_refl]]]]])
qed

lemma ex_live: "run_live (lw_srv ex_held) ''r1''"
  by (simp add: run_live_def ex_held_def ex_srv_def ex_trk_def tk_Get_def tk_New_def hook_runs_def NewTracker_def MaxRunsPerHook_def Let_def
      run_Status_def fresh_run_def)

lemma ex_holds: "holds (lw_srv ex_held) ''h'' ''k'' ''r1''"
  by (simp add: holds_def ex_held_def ex_srv_def ex_lock_def)

text \<open>The second run's steal goes through, and then cancels the first run.\<close>

definition ex_kill :: lock_pc where
  "ex_kill = LKillStolen (le_info (ex_lock ''r2'') ''h'') (le_info (ex_lock ''r1'') ''h'')"

definition ex_stolen :: lock_world where
  "ex_stolen = ex_held\<lparr>lw_srv := ex_srv (lock_put ''h'' ''k'' (ex_lock ''r2'') kv_example) ex_trk,
     lw_thr := [ex_thr ''r1'' (LResult Immediate (Some (le_info (ex_lock ''r1'') ''h'')) None), ex_thr ''r2'' ex_kill]\<rparr>"

definition ex_told :: lock_world where
  "ex_told = ex_stolen\<lparr>lw_srv := steal_kill ex_env 8 (le_info (ex_lock ''r1'') ''h'') (ex_thr ''r2'' ex_kill) (lw_srv ex_stolen),
     lw_thr := [ex_thr ''r1'' (LResult Immediate (Some (le_info (ex_lock ''r1'') ''h'')) None),
                ex_thr ''r2'' (LDone (StealOK (le_info (ex_lock ''r2'') ''h'') (Some (StolenParty ''r1'' ''h''))))]\<rparr>"

lemma ex_steal_step: "lw_step ex_env ex_held (ByThread 1 7) ex_stolen"
proof -
  have put: "lock_put ''h'' ''k'' e (lock_put ''h'' ''k'' e' kv) = lock_put ''h'' ''k'' e kv" for e e' kv
    by (simp add: lock_put_def lock_map_def split: option.split)
  have "StealLock ''h'' ''k'' ''r2'' 0 7 (lock_put ''h'' ''k'' (ex_lock ''r1'') kv_example) =
      ((Some (le_info (ex_lock ''r2'') ''h''), Some (le_info (ex_lock ''r1'') ''h''), None), lock_put ''h'' ''k'' (ex_lock ''r2'') kv_example)"
    by (simp add: StealLock_def kebab_h takeLockLocked_def lock_put_def lock_map_def kv_example_def lockTTL_def ex_lock_def Let_def)
  then have "lock_next ex_env 7 TimerFired (ex_thr ''r2'' LTakeOver) (lw_srv ex_held) = Some (ex_kill, lw_srv ex_stolen)"
    by (simp add: lock_next_def ex_held_def ex_stolen_def ex_srv_def ex_thr_def handleKVSteal_def ex_kill_def le_info_def ex_lock_def)
  then show ?thesis
    using lw_step.thread [of 1 ex_held 7 ex_env TimerFired] by (fastforce simp: ex_held_def ex_stolen_def ex_thr_def)
qed

lemma ex_kill_step: "lw_step ex_env ex_stolen (ByThread 1 8) ex_told"
proof -
  have "lock_next ex_env 8 TimerFired (ex_thr ''r2'' ex_kill) (lw_srv ex_stolen) =
      Some (LDone (StealOK (le_info (ex_lock ''r2'') ''h'') (Some (StolenParty ''r1'' ''h''))), lw_srv ex_told)"
    by (simp add: lock_next_def ex_stolen_def ex_srv_def ex_told_def ex_kill_def ex_thr_def) (simp add: le_info_def ex_lock_def)
  then show ?thesis
    using lw_step.thread [of 1 ex_stolen 8 ex_env TimerFired] by (fastforce simp: ex_told_def ex_stolen_def ex_held_def ex_thr_def)
qed

theorem live_hold_kept_witness:
  "\<exists>w0 w l w'. lw_init w0 \<and> (lw_next ex_env)\<^sup>*\<^sup>* w0 w \<and> lw_step ex_env w l w' \<and> holds (lw_srv w) ''h'' ''k'' ''r1'' \<and>
     run_live (lw_srv w) ''r1'' \<and> \<not> holds (lw_srv w') ''h'' ''k'' ''r1'' \<and>
     (l = ByRelease ''h'' ''k'' ''r1'' \<or> l = ByInstanceEnd ''r1''
      \<or> (\<exists>i now. l = ByThread i now \<and> steal_of (lw_thr w ! i) now (lw_srv w) ''h'' ''k'' ''r1''))"
proof -
  have gone: "\<not> holds (lw_srv ex_stolen) ''h'' ''k'' ''r1''" by (simp add: holds_def ex_stolen_def ex_srv_def ex_lock_def)
  show ?thesis using live_hold_kept [OF ex_init ex_reach ex_steal_step ex_holds ex_live gone]
      ex_init ex_reach ex_steal_step ex_holds ex_live gone by blast
qed

theorem stolen_holder_told_witness: "victim_told (lw_srv ex_told) ''h'' ''r1''"
proof -
  have reach: "(lw_next ex_env)\<^sup>*\<^sup>* ex_start ex_told"
    by (rule rtranclp_trans [OF ex_reach lw_cons [OF ex_steal_step lw_cons [OF ex_kill_step rtranclp.rtrancl_refl]]])
  show ?thesis
    using stolen_holder_told [OF ex_init reach, of "ex_thr ''r2'' (LDone (StealOK (le_info (ex_lock ''r2'') ''h'') (Some (StolenParty ''r1'' ''h''))))"]
    by (simp add: ex_told_def ex_thr_def)
qed

subsection \<open>A hold whose owner is gone is handed over\<close>

text \<open>A number of undisturbed steps of one thread.\<close>

fun run_thread :: "lock_env \<Rightarrow> time \<Rightarrow> nat \<Rightarrow> lock_thread \<times> srv \<Rightarrow> (lock_thread \<times> srv) option" where
  "run_thread en now 0 x = Some x"
| "run_thread en now (Suc n) (th, s) = (case lock_next en now TimerFired th s of None \<Rightarrow> None
     | Some (pc, s') \<Rightarrow> run_thread en now n (th\<lparr>lt_pc := pc\<rparr>, s'))"

lemma fmlen_drop: "fmlookup m k \<noteq> None \<Longrightarrow> fmlen (fmdrop k m) = fmlen m - 1"
  using fmlen_upd [of k "the (fmlookup m k)" "fmdrop k m"] fmupd_fmdrop_restore [of m k "the (fmlookup m k)"] by auto

text \<open>The store after the reap of an expired lock has room for the lock again.\<close>

lemma reap_then_take:
  assumes "lock_at kv ns key = Some e" "le_expired e now" "validNamespace ns" "rid \<noteq> []" "fmlen (kv_locks kv) \<le> kv_MaxNamespaces (kv_cfg kv)"
  defines "kv' \<equiv> snd (ReapExpiredLock ns key (le_runID e) now kv)"
  shows "fst (ReapExpiredLock ns key (le_runID e) now kv)"
    and "\<exists>i d k. acquireLock ns key rid ttl pinned now kv' = ((Some i, d, None), k) \<and> (\<exists>e'. lock_at k ns key = Some e' \<and> le_runID e' = rid)"
proof -
  obtain m where m: "fmlookup (kv_locks kv) ns = Some m" "fmlookup m key = Some e"
    using assms(1) by (auto simp: lock_at_def2 bind_eq_Some_conv)
  then show "fst (ReapExpiredLock ns key (le_runID e) now kv)" using assms(2) by (simp add: ReapExpiredLock_def Let_def)
  have free: "lock_at kv' ns key = None" using assms(1,2) by (simp add: kv'_def reap_at)
  have room: "fmlookup (kv_locks kv') ns \<noteq> None \<or> fmlen (kv_locks kv') < kv_MaxNamespaces (kv_cfg kv')"
    using m assms(2,5) fmlen_drop [of "kv_locks kv" ns] by (auto simp: kv'_def ReapExpiredLock_def Let_def)
  have "snd (snd (fst (acquireLock ns key rid ttl pinned now kv'))) = None"
    using assms(3,4) free room
    by (auto simp: acquireLock_def AcquireLock_def AcquireLockPinned_def takeLockLocked_def Let_def lock_at_def lock_map_def split: option.splits)
  then show "\<exists>i d k. acquireLock ns key rid ttl pinned now kv' = ((Some i, d, None), k) \<and> (\<exists>e'. lock_at k ns key = Some e' \<and> le_runID e' = rid)"
    by (cases rule: acquire_cases [of ns key rid ttl pinned now kv']) auto
qed

text \<open>
  An expired hold whose owner is gone does not block anyone: when a caller asks for a lock whose TTL
  has passed and whose holder is neither a live manager instance nor an active run, then five
  undisturbed steps of its request (the refused take, the two checks, the reap and the second take)
  end with the lock in the caller's hands.
\<close>

theorem dead_hold_handed_over:
  assumes "sv_kv s = Some kv" "lock_at kv (lt_ns th) (lt_key th) = Some e" "le_expired e now" "le_runID e \<noteq> lt_id th"
    and "validNamespace (lt_ns th)" "lt_id th \<noteq> []" "fmlen (kv_locks kv) \<le> kv_MaxNamespaces (kv_cfg kv)"
    and "sv_tracker s = Some t" "active_run (lt_ns th) (le_runID e) t = None" "\<not> managerCaller (lt_ns th) (le_runID e) s"
    and "lt_pc th = LTake ctx"
  shows "\<exists>info s'. run_thread en now 5 (th, s) = Some (th\<lparr>lt_pc := LResult ctx (Some info) None\<rparr>, s')
    \<and> holds s' (lt_ns th) (lt_key th) (lt_id th)"
proof -
  define ns key rid where d: "ns = lt_ns th" "key = lt_key th" "rid = lt_id th"
  let ?h = "le_info e ns"
  have lookup: "fmlookup (kv_locks kv) ns \<noteq> None" "fmlookup (lock_map kv ns) key = Some e"
    using assms(2) by (auto simp: d lock_at_def lock_map_def split: option.splits)
  then have acq: "acquireLock ns key rid (lt_ttl th) (lr_Pinned (lt_req th)) now kv = ((Some ?h, None, Some ErrLockExpired), kv)"
    using assms(3-6) by (simp add: d acquireLock_def AcquireLock_def AcquireLockPinned_def takeLockLocked_def Let_def)
  note R = reap_then_take [OF assms(2,3,5,6,7), folded d]
  obtain i dd k e' where take: "acquireLock ns key rid (lt_ttl th) (lr_Pinned (lt_req th)) now (snd (ReapExpiredLock ns key (le_runID e) now kv)) = ((Some i, dd, None), k)"
      "lock_at k ns key = Some e'" "le_runID e' = rid"
    using R(2) by blast
  let ?s = "enforce_reap en now ?h th kv s"
  have s: "s\<lparr>sv_kv := Some kv\<rparr> = s" using assms(1) by (cases s) simp
  have hid: "li_RunID ?h = le_runID e" by (simp add: le_info_def)
  have kv': "sv_kv ?s = Some (snd (ReapExpiredLock ns key (le_runID e) now kv))"
    using R(1) by (simp add: enforce_reap_def case_prod_beta d le_info_def split: bool.split)
  have 1: "lock_next en now TimerFired th s = Some (LEnforce ctx ?h, s)"
    using assms(1,11) acq by (simp add: lock_next_def takeLock_def d take_next_def s)
  have 2: "lock_next en now TimerFired (th\<lparr>lt_pc := LEnforce ctx ?h\<rparr>) s = Some (LLoop ctx ?h (now + lockKillTimeout) False, s)"
    using assms(1,8,10) by (simp add: lock_next_def enforceLockTTL_def hid)
  have 3: "lock_next en now TimerFired (th\<lparr>lt_pc := LLoop ctx ?h (now + lockKillTimeout) False\<rparr>) s = Some (LReapAt ctx ?h, s)"
    using assms(1,8,9) by (simp add: lock_next_def enforce_loop_def hid)
  have 4: "lock_next en now TimerFired (th\<lparr>lt_pc := LReapAt ctx ?h\<rparr>) s = Some (LRetake ctx, ?s)"
    using assms(1) by (simp add: lock_next_def enforce_reap_def case_prod_beta split: bool.split)
  have 5: "lock_next en now TimerFired (th\<lparr>lt_pc := LRetake ctx\<rparr>) ?s = Some (LResult ctx (Some i) None, ?s\<lparr>sv_kv := Some k\<rparr>)"
    using take(1) kv' unfolding d by (simp add: lock_next_def takeLock_def take_next_def)
  have "run_thread en now 5 (th, s) = Some (th\<lparr>lt_pc := LResult ctx (Some i) None\<rparr>, ?s\<lparr>sv_kv := Some k\<rparr>)"
    using 1 2 3 4 5 by (simp add: numeral_eq_Suc)
  moreover have "holds (?s\<lparr>sv_kv := Some k\<rparr>) ns key rid" using take(2,3) by (simp add: holds_def)
  ultimately show ?thesis unfolding d by blast
qed

definition ex_expired :: srv where
  "ex_expired = ex_srv (lock_put ''h'' ''k'' (ex_lock ''gone'') kv_example) NewTracker"

theorem dead_hold_handed_over_witness:
  "\<exists>info s'. run_thread ex_env (8 + DefaultLockTTL) 5 (ex_thr ''r2'' (LTake Immediate), ex_expired) =
     Some (ex_thr ''r2'' (LResult Immediate (Some info) None), s') \<and> holds s' ''h'' ''k'' ''r2''"
proof -
  let ?kv = "lock_put ''h'' ''k'' (ex_lock ''gone'') kv_example"
  let ?th = "ex_thr ''r2'' (LTake Immediate)"
  have th: "lt_ns ?th = ''h''" "lt_key ?th = ''k''" "lt_id ?th = ''r2''" "?th\<lparr>lt_pc := pc\<rparr> = ex_thr ''r2'' pc" for pc by (simp_all add: ex_thr_def)
  have 1: "sv_kv ex_expired = Some ?kv" and 8: "sv_tracker ex_expired = Some NewTracker" and m: "sv_managers ex_expired = None"
    by (simp_all add: ex_expired_def ex_srv_def)
  have 2: "lock_at ?kv (lt_ns ?th) (lt_key ?th) = Some (ex_lock ''gone'')" by (simp add: th)
  have 3: "le_expired (ex_lock ''gone'') (8 + DefaultLockTTL)" "le_runID (ex_lock ''gone'') \<noteq> lt_id ?th" by (simp_all add: le_expired_def ex_lock_def th)
  have 5: "validNamespace (lt_ns ?th)" "lt_id ?th \<noteq> []" using kebab_h by (simp_all add: th)
  have 7: "fmlen (kv_locks ?kv) \<le> kv_MaxNamespaces (kv_cfg ?kv)" by (simp add: lock_put_def kv_example_def kv_defaults_def fmlen_upd)
  have 9: "active_run (lt_ns ?th) (le_runID (ex_lock ''gone'')) NewTracker = None" by (simp add: active_run_def tk_Get_def NewTracker_def)
  have 10: "\<not> managerCaller (lt_ns ?th) (le_runID (ex_lock ''gone'')) ex_expired" by (simp add: managerCaller_def m)
  have "lt_pc ?th = LTake Immediate" by (simp add: ex_thr_def)
  from dead_hold_handed_over [OF 1 2 3 5 7 8 9 10 this, of ex_env] show ?thesis by (simp add: th)
qed

subsection \<open>Two behaviours the comments do not describe\<close>

text \<open>
  A client that hangs up while its immediate acquire is waiting for a killed holder is reported as a
  failed write: the handler's error switch has no case for the request context's error, so the next two
  steps answer 500 and record \<open>kv.write_failed\<close> although nothing was written or rolled back.
\<close>

theorem hangup_reported_as_write_failure:
  assumes "sv_kv s = Some kv" "lt_pc th = LPause Immediate holder deadline killed"
  shows "\<exists>pc s1. lock_next en now HungUp th s = Some (pc, s1) \<and>
    lock_next en now' TimerFired (th\<lparr>lt_pc := pc\<rparr>) s1 =
      Some (LDone (LockRefused (writeError 500 (''state store error: '' @ lv_ctx en))),
            sv_record now' ''kv.write_failed'' (lt_ns th @ '': state write failed (rolled back): '' @ lv_ctx en) [(''hook'', lt_ns th)] s)"
  using assms by (simp add: lock_next_def acquire_result_def)

theorem hangup_reported_as_write_failure_witness:
  "\<exists>pc s1. lock_next ex_env 9 HungUp (ex_thr ''r2'' (LPause Immediate (le_info (ex_lock ''gone'') ''h'') 10 True)) ex_expired = Some (pc, s1) \<and>
    lock_next ex_env 10 TimerFired (ex_thr ''r2'' pc) s1 =
      Some (LDone (LockRefused (writeError 500 ''state store error: context canceled'')),
            sv_record 10 ''kv.write_failed'' ''h: state write failed (rolled back): context canceled'' [(''hook'', ''h'')] ex_expired)"
  using hangup_reported_as_write_failure [of ex_expired "lock_put ''h'' ''k'' (ex_lock ''gone'') kv_example"
      "ex_thr ''r2'' (LPause Immediate (le_info (ex_lock ''gone'') ''h'') 10 True)" "le_info (ex_lock ''gone'') ''h''" 10 True ex_env 9 10]
  by (simp add: ex_expired_def ex_srv_def ex_thr_def ex_env_def)

definition ex_over :: run where
  "ex_over = Finish 7 StatusSuccess 0 [] (fresh_run ''r1'' ''h'' 5 False False)"

definition ex_over_trk :: tracker where
  "ex_over_trk = (tk_New (\<lambda>_. False) ''r1'' 5 ''h'' NewTracker)\<lparr>tk_heap := [ex_over]\<rparr>"

definition ex_late :: lock_world where
  "ex_late = \<lparr>lw_srv = ex_srv (lock_put ''h'' ''k'' (ex_lock ''r1'') kv_example) ex_over_trk,
     lw_thr = [ex_thr ''r1'' (LResult Immediate (Some (le_info (ex_lock ''r1'') ''h'')) None)], lw_issued = {(''h'', ''r1'')}\<rparr>"

lemma lw_running:
  assumes "run_step\<^sup>*\<^sup>* r r'"
  shows "(lw_next en)\<^sup>*\<^sup>* \<lparr>lw_srv = ex_srv kv (t\<lparr>tk_heap := [r]\<rparr>), lw_thr = ths, lw_issued = I\<rparr>
    \<lparr>lw_srv = ex_srv kv (t\<lparr>tk_heap := [r']\<rparr>), lw_thr = ths, lw_issued = I\<rparr>"
  using assms
proof (induction rule: rtranclp_induct)
  case (step y z)
  have "lw_step en \<lparr>lw_srv = ex_srv kv (t\<lparr>tk_heap := [y]\<rparr>), lw_thr = ths, lw_issued = I\<rparr> ByOther
      \<lparr>lw_srv = ex_srv kv (t\<lparr>tk_heap := [z]\<rparr>), lw_thr = ths, lw_issued = I\<rparr>"
    using lw_step.running [of "\<lparr>lw_srv = ex_srv kv (t\<lparr>tk_heap := [y]\<rparr>), lw_thr = ths, lw_issued = I\<rparr>" "t\<lparr>tk_heap := [y]\<rparr>" 0 z en] step(2)
    by (simp add: ex_srv_def)
  from rtranclp_trans [OF step.IH lw_cons [OF this rtranclp.rtrancl_refl]] show ?case .
qed simp

lemma ex_over_steps: "run_step\<^sup>*\<^sup>* (fresh_run ''r1'' ''h'' 5 False False) ex_over"
proof -
  let ?r = "fresh_run ''r1'' ''h'' 5 False False"
  have "rs_Finished (r_state ?r) = 0" by (simp add: fresh_run_def)
  then have eq: "ex_over = finish_next (finish_next (finish_next (finish_next (Finish_section 7 StatusSuccess 0 [] ?r))))"
    by (simp add: ex_over_def Finish_def)
  have "run_step ?r (Finish_section 7 StatusSuccess 0 [] ?r)" by (rule run_step.finish) (simp_all add: Terminal_def)
  then show ?thesis unfolding eq by (meson run_step.finishing rtranclp.rtrancl_into_rtrancl r_into_rtranclp)
qed

lemma ex_over_facts: "Terminal (run_Status ex_over)" "r_done ex_over" "rs_ID (run_Snapshot (-1) ex_over) = ''r1''"
  by (simp_all add: ex_over_def Finish_def fresh_run_def Finish_section_def finish_next_def notifyChange_def log_event_def run_Status_def
      Terminal_def run_Snapshot_def Let_def)

lemma ex_late_reach: "(lw_next ex_env)\<^sup>*\<^sup>* ex_start ex_late"
proof -
  let ?t1 = "tk_New (\<lambda>_. False) ''r1'' 5 ''h'' NewTracker"
  let ?th = "ex_thr ''r1'' (LTake Immediate)"
  let ?w1 = "\<lparr>lw_srv = ex_srv kv_example ?t1, lw_thr = [], lw_issued = {(''h'', ''r1'')}\<rparr>"
  let ?w2 = "?w1\<lparr>lw_thr := [?th]\<rparr>"
  let ?w3 = "\<lparr>lw_srv = ex_srv kv_example ex_over_trk, lw_thr = [?th], lw_issued = {(''h'', ''r1'')}\<rparr>"
  have t1: "?t1\<lparr>tk_heap := [fresh_run ''r1'' ''h'' 5 False False]\<rparr> = ?t1" by (simp add: tk_New_def NewTracker_def Let_def MaxRunsPerHook_def hook_runs_def)
  have 1: "lw_step ex_env ex_start ByOther ?w1"
    using lw_step.start [of ex_start NewTracker "''r1''" "\<lambda>_. False" ex_env "''h''" 5] by (simp add: ex_start_def ex_srv_def)
  have 2: "lw_step ex_env ?w1 ByOther ?w2" using lw_step.arrive [of ?th ?w1 ex_env] by (simp add: ex_thr_def)
  have 3: "(lw_next ex_env)\<^sup>*\<^sup>* ?w2 ?w3"
    using lw_running [OF ex_over_steps, of ex_env kv_example ?t1 "[?th]" "{(''h'', ''r1'')}"] by (simp add: t1 ex_over_trk_def)
  have "drop_locks P kv_example = kv_example" for P by (simp add: drop_locks_def kv_example_def Let_def)
  then have seam: "snd (RunFinishCallback (\<lambda>_ h. h) 7 (run_Snapshot (-1) ex_over) ((), lw_srv ?w3)) = lw_srv ?w3"
    by (simp add: RunFinishCallback_def ReleaseRunLocks_def ex_over_facts ex_srv_def) (simp add: kv_example_def)
  have 4: "lw_step ex_env ?w3 ByOther ?w3"
    using lw_step.seam [of ?w3 ex_over_trk 0 ex_env 7] seam by (simp add: ex_srv_def ex_over_trk_def ex_over_facts)
  have "acquireLock ''h'' ''k'' ''r1'' 0 False 7 kv_example =
      ((Some (le_info (ex_lock ''r1'') ''h''), None, None), lock_put ''h'' ''k'' (ex_lock ''r1'') kv_example)"
    by (simp add: acquireLock_def AcquireLock_def kebab_h takeLockLocked_def lock_map_def kv_example_def kv_defaults_def lockTTL_def
        ex_lock_def Let_def)
  then have "lock_next ex_env 7 TimerFired ?th (lw_srv ?w3) =
      Some (LResult Immediate (Some (le_info (ex_lock ''r1'') ''h'')) None, lw_srv ex_late)"
    by (simp add: lock_next_def ex_thr_def ex_srv_def takeLock_def ex_req_def take_next_def ex_late_def)
  then have 5: "lw_step ex_env ?w3 (ByThread 0 7) ex_late"
    using lw_step.thread [of 0 ?w3 7 ex_env TimerFired] by (fastforce simp: ex_late_def ex_thr_def)
  show ?thesis by (rule lw_cons [OF 1 lw_cons [OF 2 rtranclp_trans [OF 3 lw_cons [OF 4 lw_cons [OF 5 rtranclp.rtrancl_refl]]]]])
qed

text \<open>
  A lock can outlive its run: the acquire handler never checks that the caller is still active, so
  an acquire that is in flight while the caller finishes takes the lock after the finish seam has
  released everything, and a finished run then holds it until its TTL has passed.
\<close>

theorem lock_outlives_run:
  "\<exists>w0 w t p. lw_init w0 \<and> (lw_next ex_env)\<^sup>*\<^sup>* w0 w \<and> sv_tracker (lw_srv w) = Some t \<and> p < length (tk_heap t)
     \<and> run_ID (tk_heap t ! p) = ''r1'' \<and> r_done (tk_heap t ! p) \<and> Terminal (run_Status (tk_heap t ! p)) \<and> holds (lw_srv w) ''h'' ''k'' ''r1''"
proof -
  have "run_ID ex_over = ''r1''" using ex_over_facts(3) by (simp add: run_ID_def run_Snapshot_def Let_def)
  then have "sv_tracker (lw_srv ex_late) = Some ex_over_trk \<and> 0 < length (tk_heap ex_over_trk)
     \<and> run_ID (tk_heap ex_over_trk ! 0) = ''r1'' \<and> r_done (tk_heap ex_over_trk ! 0) \<and> Terminal (run_Status (tk_heap ex_over_trk ! 0))
     \<and> holds (lw_srv ex_late) ''h'' ''k'' ''r1''"
    by (simp add: ex_late_def ex_srv_def ex_over_trk_def ex_over_facts holds_def ex_lock_def)
  then show ?thesis using ex_init ex_late_reach by blast
qed

end
