(* ===== verification/Inbox.thy ===== *)
theory Inbox
  imports Skip "HOL-Library.Multiset"
begin

text \<open>
  Model of \<^verbatim>\<open>internal/managers/inbox.go\<close>: the unbounded event queue of one manager, the completion
  handles of its deliveries, the binding to the live instance and the long-poll pop.

  A completion handle is a pointer into a heap of fates (\<open>None\<close> while its channel is open).  Every
  critical section of the inbox mutex is one definition; \<open>PushTick\<close> and \<open>Next\<close> consist of several, so
  their calls are threads.  Calls of the watchdog hooks are entries of a log.  The lemmas show that
  events are handed out exactly once and in order across instance restarts, and what becomes of the
  handles.
\<close>

definition KindDelivery :: string where "KindDelivery = ''delivery''"
definition KindTick :: string where "KindTick = ''tick''"
definition KindStart :: string where "KindStart = ''start''"

record ib_event =
  ie_ID :: string
  ie_Kind :: string
  ie_ReceivedAt :: time
  ie_Headers :: header
  ie_Payload :: string

record ib_entry =
  ix_ev :: ib_event
  ix_d :: "nat option"

record inbox =
  ib_buf :: "ib_entry list"
  ib_tickQueued :: bool
  ib_instanceID :: string
  ib_hooks :: bool
  ib_checkedOut :: "ib_entry option"
  ib_parked :: int
  ib_lastDelivered :: time
  ib_lastTick :: time

definition NewInbox :: inbox where
  "NewInbox = \<lparr>ib_buf = [], ib_tickQueued = False, ib_instanceID = [], ib_hooks = False, ib_checkedOut = None, ib_parked = 0,
     ib_lastDelivered = 0, ib_lastTick = 0\<rparr>"

text \<open>The first settlement of a handle decides its fate; a nil handle (ticks, starts) has none.\<close>

definition settle :: "nat option \<Rightarrow> bool \<Rightarrow> bool option list \<Rightarrow> bool option list" where
  "settle d ok hs = (case d of None \<Rightarrow> hs | Some p \<Rightarrow> if hs ! p = None then hs[p := Some ok] else hs)"

definition Completed :: "nat \<Rightarrow> bool option list \<Rightarrow> bool" where
  "Completed p hs \<longleftrightarrow> hs ! p = Some True"

definition ib_Depth :: "inbox \<Rightarrow> nat" where
  "ib_Depth ib = length (ib_buf ib)"

definition ib_push :: "ib_entry \<Rightarrow> inbox \<Rightarrow> bool \<times> inbox" where
  "ib_push e ib =
     (let ib = ib\<lparr>ib_buf := ib_buf ib @ [e]\<rparr>;
          ib = (if ie_Kind (ix_ev e) = KindTick then ib\<lparr>ib_tickQueued := True, ib_lastTick := ie_ReceivedAt (ix_ev e)\<rparr>
                else if ie_Kind (ix_ev e) = KindDelivery then ib\<lparr>ib_lastDelivered := ie_ReceivedAt (ix_ev e)\<rparr> else ib)
      in (ib_parked ib = 0 \<and> ib_checkedOut ib = None \<and> ib_instanceID ib \<noteq> [] \<and> ib_hooks ib, ib))"

definition delivery_event :: "string \<Rightarrow> time \<Rightarrow> header \<Rightarrow> string \<Rightarrow> ib_event" where
  "delivery_event eid now h payload = \<lparr>ie_ID = eid, ie_Kind = KindDelivery, ie_ReceivedAt = now, ie_Headers = h, ie_Payload = payload\<rparr>"

definition bare_event :: "string \<Rightarrow> string \<Rightarrow> time \<Rightarrow> ib_event" where
  "bare_event kind eid now = \<lparr>ie_ID = eid, ie_Kind = kind, ie_ReceivedAt = now, ie_Headers = fmempty, ie_Payload = []\<rparr>"

text \<open>\<open>BindInstance\<close> and \<open>UnbindInstance\<close>: a checked-out event of the previous instance is returned to
  be settled as abandoned.\<close>

definition BindInstance :: "string \<Rightarrow> bool \<Rightarrow> inbox \<Rightarrow> ib_entry option \<times> inbox" where
  "BindInstance inst hooks ib = (ib_checkedOut ib, ib\<lparr>ib_instanceID := inst, ib_hooks := hooks, ib_checkedOut := None\<rparr>)"

definition UnbindInstance :: "inbox \<Rightarrow> ib_entry option \<times> inbox" where
  "UnbindInstance ib = (ib_checkedOut ib, ib\<lparr>ib_instanceID := [], ib_hooks := False, ib_checkedOut := None\<rparr>)"

text \<open>\<open>Next\<close>: the entry section, and one round of the waiting loop.\<close>

definition next_enter :: "string \<Rightarrow> inbox \<Rightarrow> (ib_entry option \<times> bool \<times> inbox) option" where
  "next_enter inst ib =
     (if inst = [] \<or> ib_instanceID ib \<noteq> inst then None
      else Some (ib_checkedOut ib, ib_checkedOut ib \<noteq> None \<and> ib_hooks ib, ib\<lparr>ib_parked := ib_parked ib + 1, ib_checkedOut := None\<rparr>))"

datatype next_result = NotSession | NoEvent | Got ib_event

definition next_round :: "string \<Rightarrow> bool \<Rightarrow> bool \<Rightarrow> inbox \<Rightarrow> (next_result \<times> bool) option \<times> inbox" where
  "next_round inst ctxErr late ib =
     (if ib_instanceID ib \<noteq> inst then (Some (NotSession, False), ib\<lparr>ib_parked := ib_parked ib - 1\<rparr>)
      else case ib_buf ib of
        e # rest \<Rightarrow>
          let ib1 = ib\<lparr>ib_buf := rest, ib_tickQueued := (if ie_Kind (ix_ev e) = KindTick then False else ib_tickQueued ib),
                       ib_checkedOut := Some e, ib_parked := ib_parked ib - 1\<rparr>
          in (Some (Got (ix_ev e), ib_hooks ib), ib1)
      | [] \<Rightarrow> if ctxErr \<or> late then (Some (NoEvent, False), ib\<lparr>ib_parked := ib_parked ib - 1\<rparr>) else (None, ib))"

subsection \<open>Executions\<close>

datatype dog = Arm | Disarm

text \<open>A call of \<open>Next\<close>: before its entry section, settling the event it came back from, waiting.  A
  call of \<open>PushTick\<close>: before its check, past the check, done.  A restart: about to settle the event
  the old instance had checked out.\<close>

datatype ib_pc = NEnter string | NSettle string "ib_entry option" bool | NWait string | NDone next_result
  | TCheck ib_event | TPush ib_event | TDone bool | AAbandon "ib_entry option" | ADone

record ib_world =
  iw_ib :: inbox
  iw_handles :: "bool option list"
  iw_pcs :: "ib_pc list"
  iw_log :: "dog list"
  iw_pushed :: "ib_event list"
  iw_popped :: "(ib_event \<times> bool) list"

definition iw_init :: "ib_world \<Rightarrow> bool" where
  "iw_init w \<longleftrightarrow> w = \<lparr>iw_ib = NewInbox, iw_handles = [], iw_pcs = [], iw_log = [], iw_pushed = [], iw_popped = []\<rparr>"

definition do_push :: "ib_entry \<Rightarrow> ib_world \<Rightarrow> ib_world" where
  "do_push e w = (let (arm, ib) = ib_push e (iw_ib w) in
     w\<lparr>iw_ib := ib, iw_log := iw_log w @ (if arm then [Arm] else []), iw_pushed := iw_pushed w @ [ix_ev e]\<rparr>)"

definition PushDelivery :: "string \<Rightarrow> time \<Rightarrow> header \<Rightarrow> string \<Rightarrow> ib_world \<Rightarrow> nat \<times> ib_world" where
  "PushDelivery eid now h payload w =
     (let p = length (iw_handles w) in
      (p, do_push \<lparr>ix_ev = delivery_event eid now h payload, ix_d = Some p\<rparr> (w\<lparr>iw_handles := iw_handles w @ [None]\<rparr>)))"

definition PushStart :: "string \<Rightarrow> time \<Rightarrow> ib_world \<Rightarrow> ib_world" where
  "PushStart eid now w = do_push \<lparr>ix_ev = bare_event KindStart eid now, ix_d = None\<rparr> w"

definition set_pc :: "nat \<Rightarrow> ib_pc \<Rightarrow> ib_world \<Rightarrow> ib_world" where
  "set_pc i pc w = w\<lparr>iw_pcs := (iw_pcs w)[i := pc]\<rparr>"

text \<open>The next step of one call; \<open>ctxErr\<close> and \<open>late\<close> say what the waiting loop finds.\<close>

definition ib_next :: "bool \<Rightarrow> bool \<Rightarrow> nat \<Rightarrow> ib_world \<Rightarrow> ib_world option" where
  "ib_next ctxErr late i w = (case iw_pcs w ! i of
     NEnter inst \<Rightarrow> (case next_enter inst (iw_ib w) of
         None \<Rightarrow> Some (set_pc i (NDone NotSession) w)
       | Some (old, dis, ib) \<Rightarrow> Some (set_pc i (NSettle inst old dis) (w\<lparr>iw_ib := ib\<rparr>)))
   | NSettle inst old dis \<Rightarrow> Some (set_pc i (NWait inst)
       (w\<lparr>iw_handles := settle (Option.bind old ix_d) True (iw_handles w), iw_log := iw_log w @ (if dis then [Disarm] else [])\<rparr>))
   | NWait inst \<Rightarrow> (case next_round inst ctxErr late (iw_ib w) of
         (None, ib) \<Rightarrow> Some (w\<lparr>iw_ib := ib\<rparr>)
       | (Some (res, arm), ib) \<Rightarrow> Some (set_pc i (NDone res) (w\<lparr>iw_ib := ib, iw_log := iw_log w @ (if arm then [Arm] else []),
           iw_popped := iw_popped w @ (case res of Got ev \<Rightarrow> [(ev, ctxErr)] | _ \<Rightarrow> [])\<rparr>)))
   | TCheck ev \<Rightarrow> Some (set_pc i (if ib_tickQueued (iw_ib w) then TDone False else TPush ev) w)
   | TPush ev \<Rightarrow> Some (set_pc i (TDone True) (do_push \<lparr>ix_ev = ev, ix_d = None\<rparr> w))
   | AAbandon old \<Rightarrow> Some (set_pc i ADone (w\<lparr>iw_handles := settle (Option.bind old ix_d) False (iw_handles w)\<rparr>))
   | _ \<Rightarrow> None)"

text \<open>A call of \<open>Next\<close> that an instance has made and that has not returned.\<close>

definition in_next :: "string \<Rightarrow> ib_pc \<Rightarrow> bool" where
  "in_next inst pc \<longleftrightarrow> (case pc of NEnter i \<Rightarrow> i = inst | NSettle i _ _ \<Rightarrow> i = inst | NWait i \<Rightarrow> i = inst | _ \<Rightarrow> False)"

text \<open>With \<open>overlap = False\<close> an instance calls \<open>Next\<close> only when its own earlier call has returned; the
  calls of other instances, dead ones included, may still be under way.\<close>

inductive iw_step :: "bool \<Rightarrow> ib_world \<Rightarrow> ib_world \<Rightarrow> bool" for overlap where
  delivery: "iw_step overlap w (snd (PushDelivery eid now h payload w))"
| start: "iw_step overlap w (PushStart eid now w)"
| tick: "iw_step overlap w (w\<lparr>iw_pcs := iw_pcs w @ [TCheck (bare_event KindTick eid now)]\<rparr>)"
| call: "overlap \<or> list_all (\<lambda>pc. \<not> in_next inst pc) (iw_pcs w) \<Longrightarrow> iw_step overlap w (w\<lparr>iw_pcs := iw_pcs w @ [NEnter inst]\<rparr>)"
| bind: "iw_step overlap w (w\<lparr>iw_ib := snd (BindInstance inst hooks (iw_ib w)), iw_pcs := iw_pcs w @ [AAbandon (fst (BindInstance inst hooks (iw_ib w)))]\<rparr>)"
| unbind: "iw_step overlap w (w\<lparr>iw_ib := snd (UnbindInstance (iw_ib w)), iw_pcs := iw_pcs w @ [AAbandon (fst (UnbindInstance (iw_ib w)))]\<rparr>)"
| thread: "i < length (iw_pcs w) \<Longrightarrow> ib_next ctxErr late i w = Some w' \<Longrightarrow> iw_step overlap w w'"

subsection \<open>Events are handed out once, in order\<close>

text \<open>The event a call of \<open>Next\<close> returned.\<close>

definition got :: "ib_pc \<Rightarrow> ib_event multiset" where
  "got pc = (case pc of NDone (Got ev) \<Rightarrow> {#ev#} | _ \<Rightarrow> {#})"

definition fifo_ok :: "ib_world \<Rightarrow> bool" where
  "fifo_ok w \<longleftrightarrow> iw_pushed w = map fst (iw_popped w) @ map ix_ev (ib_buf (iw_ib w))
     \<and> mset (map fst (iw_popped w)) = sum_list (map got (iw_pcs w))"

text \<open>Moving the share of one call elsewhere.\<close>

lemma sum_move: "i < length pcs \<Longrightarrow> sum_list (map f (pcs[i := pc])) + f (pcs ! i) = sum_list (map f pcs) + (f pc :: 'b multiset)"
proof (induction pcs arbitrary: i)
  case (Cons a pcs)
  then show ?case by (cases i) (simp_all add: ac_simps add.assoc)
qed simp

lemma push_buf: "ib_buf (snd (ib_push e ib)) = ib_buf ib @ [e]"
  by (simp add: ib_push_def Let_def)

lemma do_push_sels [simp]: "iw_pushed (do_push e w) = iw_pushed w @ [ix_ev e]" "iw_popped (do_push e w) = iw_popped w"
  "ib_buf (iw_ib (do_push e w)) = ib_buf (iw_ib w) @ [e]" "iw_handles (do_push e w) = iw_handles w" "iw_pcs (do_push e w) = iw_pcs w"
  "ib_checkedOut (iw_ib (do_push e w)) = ib_checkedOut (iw_ib w)" "ib_instanceID (iw_ib (do_push e w)) = ib_instanceID (iw_ib w)"
  by (simp_all add: do_push_def case_prod_beta Let_def push_buf) (simp_all add: ib_push_def Let_def)

lemma set_pc_sels [simp]: "iw_ib (set_pc i pc w) = iw_ib w" "iw_handles (set_pc i pc w) = iw_handles w" "iw_log (set_pc i pc w) = iw_log w"
  "iw_pushed (set_pc i pc w) = iw_pushed w" "iw_popped (set_pc i pc w) = iw_popped w" "iw_pcs (set_pc i pc w) = (iw_pcs w)[i := pc]"
  by (simp_all add: set_pc_def)

lemma got_simps [simp]: "got (NEnter i) = {#}" "got (NSettle i old dis) = {#}" "got (NWait i) = {#}" "got (NDone (Got ev)) = {#ev#}"
  "got (NDone NotSession) = {#}" "got (NDone NoEvent) = {#}" "got (TCheck ev) = {#}" "got (TPush ev) = {#}" "got (TDone b) = {#}"
  "got (AAbandon old) = {#}" "got ADone = {#}"
  by (simp_all add: got_def)

lemma fifo_next: "ib_next ctxErr late i w = Some w' \<Longrightarrow> i < length (iw_pcs w) \<Longrightarrow> fifo_ok w \<Longrightarrow> fifo_ok w'"
  using sum_move [of i "iw_pcs w" got]
  by (auto simp: ib_next_def next_enter_def next_round_def fifo_ok_def Let_def split: ib_pc.splits option.splits if_splits list.splits)

lemma fifo_step: "iw_step ov w w' \<Longrightarrow> fifo_ok w \<Longrightarrow> fifo_ok w'"
proof (induction rule: iw_step.induct)
  case (thread i w ctxErr late w')
  then show ?case by (simp add: fifo_next)
qed (auto simp: fifo_ok_def PushDelivery_def PushStart_def BindInstance_def UnbindInstance_def Let_def)

interpretation ibi: invariant_system iw_init "iw_step ov" fifo_ok for ov
proof
  show "iw_init w \<Longrightarrow> fifo_ok w" for w by (simp add: fifo_ok_def iw_init_def NewInbox_def)
qed (rule fifo_step)

text \<open>An execution.\<close>

lemma iw_thread: "i < length (iw_pcs w) \<Longrightarrow> ib_next c l i w = Some w1 \<Longrightarrow> (iw_step ov)\<^sup>*\<^sup>* w1 w2 \<Longrightarrow> (iw_step ov)\<^sup>*\<^sup>* w w2"
  by (blast intro: converse_rtranclp_into_rtranclp iw_step.thread)

lemma iw_cons: "iw_step ov w w1 \<Longrightarrow> (iw_step ov)\<^sup>*\<^sup>* w1 w2 \<Longrightarrow> (iw_step ov)\<^sup>*\<^sup>* w w2"
  by (rule converse_rtranclp_into_rtranclp)

definition iw_start :: ib_world where
  "iw_start = \<lparr>iw_ib = NewInbox, iw_handles = [], iw_pcs = [], iw_log = [], iw_pushed = [], iw_popped = []\<rparr>"

lemma iw_start_init: "iw_init iw_start"
  by (simp add: iw_init_def iw_start_def)

text \<open>One delivery is pushed and handed to the bound instance.\<close>

definition iw_one :: ib_world where
  "iw_one = (let w1 = iw_start\<lparr>iw_ib := snd (BindInstance ''i'' True NewInbox), iw_pcs := [AAbandon None]\<rparr>;
                 w2 = snd (PushDelivery ''e'' 5 fmempty ''p'' w1)
             in w2\<lparr>iw_pcs := [AAbandon None, NEnter ''i'']\<rparr>)"

lemma iw_one_reach: "(iw_step ov)\<^sup>*\<^sup>* iw_start iw_one"
proof -
  let ?w1 = "iw_start\<lparr>iw_ib := snd (BindInstance ''i'' True NewInbox), iw_pcs := [AAbandon None]\<rparr>"
  let ?w2 = "snd (PushDelivery ''e'' 5 fmempty ''p'' ?w1)"
  have 1: "iw_step ov iw_start ?w1"
    using iw_step.bind [of ov iw_start "''i''" True] by (simp add: iw_start_def BindInstance_def NewInbox_def)
  have 2: "iw_step ov ?w1 ?w2" by (rule iw_step.delivery)
  have pcs: "iw_pcs ?w2 = [AAbandon None]" by (simp add: PushDelivery_def Let_def)
  have 3: "iw_step ov ?w2 iw_one" using iw_step.call [where overlap = ov and w = ?w2 and inst = "''i''"] by (simp add: pcs in_next_def iw_one_def)
  show ?thesis by (rule iw_cons [OF 1 iw_cons [OF 2 iw_cons [OF 3 rtranclp.rtrancl_refl]]])
qed

text \<open>The client of that call goes away before the event is handed to it.\<close>

lemma lost_reach:
  assumes "iw_init w0"
  shows "\<exists>w ev. (iw_step ov)\<^sup>*\<^sup>* w0 w \<and> iw_pushed w = [ev] \<and> iw_popped w = [(ev, True)] \<and> ib_buf (iw_ib w) = []"
proof -
  let ?S = "\<lambda>w. the (ib_next True False 1 w)"
  let ?w = "?S (?S (?S iw_one))"
  note E = iw_one_def iw_start_def PushDelivery_def do_push_def ib_push_def BindInstance_def NewInbox_def delivery_event_def
    KindDelivery_def KindTick_def ib_next_def next_enter_def next_round_def settle_def set_pc_def Let_def
  have s: "ib_next True False 1 iw_one = Some (?S iw_one)" "ib_next True False 1 (?S iw_one) = Some (?S (?S iw_one))"
    "ib_next True False 1 (?S (?S iw_one)) = Some ?w" by (simp_all add: E)
  note T = iw_thread [OF _ s(1) iw_thread [OF _ s(2) iw_thread [OF _ s(3) rtranclp.rtrancl_refl]]]
  have "(iw_step ov)\<^sup>*\<^sup>* iw_one ?w" by (rule T) (simp_all add: E)
  then have "(iw_step ov)\<^sup>*\<^sup>* iw_start ?w" using iw_one_reach [of ov] by (rule rtranclp_trans [rotated])
  moreover have "iw_start = w0" using assms by (simp add: iw_init_def iw_start_def)
  moreover have "\<exists>ev. iw_pushed ?w = [ev] \<and> iw_popped ?w = [(ev, True)] \<and> ib_buf (iw_ib ?w) = []" by (simp add: E)
  ultimately show ?thesis by blast
qed


subsection \<open>The fate of a delivery\<close>

definition ptrs :: "ib_entry option \<Rightarrow> nat multiset" where
  "ptrs eo = (case Option.bind eo ix_d of None \<Rightarrow> {#} | Some p \<Rightarrow> {#p#})"

definition pc_ptrs :: "ib_pc \<Rightarrow> nat multiset" where
  "pc_ptrs pc = (case pc of NSettle inst old dis \<Rightarrow> ptrs old | AAbandon old \<Rightarrow> ptrs old | _ \<Rightarrow> {#})"

text \<open>Where the handles of unsettled deliveries are: queued, checked out, or about to be settled.\<close>

definition places :: "ib_world \<Rightarrow> nat multiset" where
  "places w = sum_list (map (\<lambda>e. ptrs (Some e)) (ib_buf (iw_ib w))) + ptrs (ib_checkedOut (iw_ib w)) + sum_list (map pc_ptrs (iw_pcs w))"

definition unsettled :: "bool option list \<Rightarrow> nat set" where
  "unsettled hs = {p. p < length hs \<and> hs ! p = None}"

lemma finite_unsettled [simp]: "finite (unsettled hs)"
  by (simp add: unsettled_def)

lemma unsettled_new: "unsettled (hs @ [None]) = insert (length hs) (unsettled hs)" "length hs \<notin> unsettled hs"
  by (auto simp: unsettled_def nth_append less_Suc_eq)

lemma unsettled_settle: "mset_set (unsettled (settle d ok hs)) = mset_set (unsettled hs) - (case d of None \<Rightarrow> {#} | Some p \<Rightarrow> {#p#})"
proof (cases d)
  case (Some p)
  have "unsettled (settle d ok hs) = unsettled hs - {p}"
  proof (rule set_eqI)
    show "x \<in> unsettled (settle d ok hs) \<longleftrightarrow> x \<in> unsettled hs - {p}" for x
      using Some by (cases "x = p"; cases "hs ! p") (auto simp: settle_def unsettled_def)
  qed
  then show ?thesis using Some by (cases "p \<in> unsettled hs") (simp_all add: mset_set_Diff)
qed (simp add: settle_def)

text \<open>A call of \<open>Next\<close> past its entry section.\<close>

definition inside :: "string \<Rightarrow> ib_pc \<Rightarrow> bool" where
  "inside inst pc \<longleftrightarrow> (case pc of NSettle i _ _ \<Rightarrow> i = inst | NWait i \<Rightarrow> i = inst | _ \<Rightarrow> False)"

lemma inside_in_next: "inside inst pc \<Longrightarrow> in_next inst pc"
  by (simp add: inside_def in_next_def split: ib_pc.splits)

text \<open>Each unsettled handle is in one place, no instance is in two calls, and while the live instance
  is inside a call nothing is checked out.\<close>

definition handles_ok :: "ib_world \<Rightarrow> bool" where
  "handles_ok w \<longleftrightarrow> places w = mset_set (unsettled (iw_handles w))
     \<and> (\<forall>inst. length (filter (in_next inst) (iw_pcs w)) \<le> 1)
     \<and> (list_ex (inside (ib_instanceID (iw_ib w))) (iw_pcs w) \<longrightarrow> ib_checkedOut (iw_ib w) = None)"

lemma settle_places:
  assumes "places w = mset_set (unsettled (iw_handles w))" "places w' + ptrs old = places w"
    "iw_handles w' = settle (Option.bind old ix_d) ok (iw_handles w)"
  shows "places w' = mset_set (unsettled (iw_handles w'))"
  unfolding assms(3) unsettled_settle assms(1) [symmetric] assms(2) [symmetric] by (simp add: ptrs_def [symmetric])

lemma filter_update: "i < length xs \<Longrightarrow> length (filter P (xs[i := x])) = length (filter P xs) - of_bool (P (xs ! i)) + of_bool (P x)"
proof (induction xs arbitrary: i)
  case (Cons a xs)
  then show ?case
  proof (cases i)
    case (Suc j)
    have "of_bool (P (xs ! j)) \<le> length (filter P xs)" using Cons.prems Suc
      by (cases "P (xs ! j)") (auto simp: Suc_le_eq filter_empty_conv)
    then show ?thesis using Cons Suc by (auto simp: of_bool_def)
  qed simp
qed simp

lemma only_one_inside:
  assumes "length (filter (in_next inst) pcs) \<le> 1" "i < length pcs" "in_next inst (pcs ! i)" "j < length pcs" "in_next inst (pcs ! j)"
  shows "j = i"
proof (rule ccontr)
  assume "j \<noteq> i"
  then have "{i, j} \<subseteq> {k. k < length pcs \<and> in_next inst (pcs ! k)}" using assms by auto
  then have "card {i, j} \<le> length (filter (in_next inst) pcs)" by (simp add: length_filter_conv_card card_mono)
  then show False using assms(1) \<open>j \<noteq> i\<close> by simp
qed

text \<open>Once a call of \<open>Next\<close> has returned, no other of the same instance is inside.\<close>

lemma none_inside_after:
  assumes "length (filter (in_next inst) pcs) \<le> 1" "i < length pcs" "in_next inst (pcs ! i)" "\<not> in_next inst pc"
  shows "\<not> list_ex (inside inst) (pcs[i := pc])"
proof -
  have "\<not> inside inst (pcs[i := pc] ! j)" if "j < length pcs" for j
    using only_one_inside [OF assms(1-3) that] assms(2,4) that
    by (cases "j = i") (auto dest: inside_in_next)
  then show ?thesis by (auto simp: list_ex_length)
qed

lemma handles_next:
  assumes "ib_next ctxErr late i w = Some w'" "i < length (iw_pcs w)" "handles_ok w"
  shows "handles_ok w'"
proof -
  have P: "places w = mset_set (unsettled (iw_handles w))" and one: "\<And>inst. length (filter (in_next inst) (iw_pcs w)) \<le> 1"
    and out: "list_ex (inside (ib_instanceID (iw_ib w))) (iw_pcs w) \<Longrightarrow> ib_checkedOut (iw_ib w) = None"
    using assms(3) by (simp_all add: handles_ok_def)
  note mv = sum_move [OF assms(2), of pc_ptrs] and fu = filter_update [OF assms(2), of "in_next _"]
  have li: "inside (ib_instanceID (iw_ib w)) (iw_pcs w ! i) \<Longrightarrow> ib_checkedOut (iw_ib w) = None" using out assms(2) by (auto simp: list_ex_length)
  have lex: "\<not> inside k pc \<Longrightarrow> list_ex (inside k) ((iw_pcs w)[i := pc]) \<Longrightarrow> list_ex (inside k) (iw_pcs w)" for k pc
    using assms(2) by (auto simp: list_ex_length nth_list_update split: if_splits)
  have quiet: "handles_ok (set_pc i pc u)" if "pc_ptrs (iw_pcs w ! i) = {#}" "pc_ptrs pc = {#}" "\<And>k. \<not> in_next k pc" "iw_pcs u = iw_pcs w"
      "iw_handles u = iw_handles w" "sum_list (map (\<lambda>e. ptrs (Some e)) (ib_buf (iw_ib u))) = sum_list (map (\<lambda>e. ptrs (Some e)) (ib_buf (iw_ib w)))"
      "ib_checkedOut (iw_ib u) = ib_checkedOut (iw_ib w)" "ib_instanceID (iw_ib u) = ib_instanceID (iw_ib w)" for pc u
  proof -
    have "\<not> inside k pc" for k using that(3) [of k] by (auto dest: inside_in_next)
    then show ?thesis using that P one out mv [of pc] fu [of _ pc] lex [of "ib_instanceID (iw_ib w)" pc] by (auto simp: handles_ok_def places_def)
  qed
  show ?thesis
  proof (cases "iw_pcs w ! i")
    case (NEnter inst)
    show ?thesis
    proof (cases "next_enter inst (iw_ib w)")
      case None
      then have "w' = set_pc i (NDone NotSession) w" using assms(1) NEnter by (simp add: ib_next_def)
      then show ?thesis using quiet [of "NDone NotSession" w] NEnter by (simp add: pc_ptrs_def in_next_def)
    next
      case (Some x)
      define pc where "pc = NSettle inst (ib_checkedOut (iw_ib w)) (ib_checkedOut (iw_ib w) \<noteq> None \<and> ib_hooks (iw_ib w))"
      have w': "w' = set_pc i pc (w\<lparr>iw_ib := (iw_ib w)\<lparr>ib_parked := ib_parked (iw_ib w) + 1, ib_checkedOut := None\<rparr>\<rparr>)"
        using Some assms(1) NEnter by (auto simp: ib_next_def next_enter_def pc_def split: if_splits)
      have pc: "pc_ptrs pc = ptrs (ib_checkedOut (iw_ib w))" "\<And>k. in_next k pc = in_next k (NEnter inst)" by (simp_all add: pc_def pc_ptrs_def in_next_def)
      have "places w' = places w" using mv [of pc] NEnter pc by (simp add: w' places_def pc_ptrs_def [of "NEnter inst"] ptrs_def [of None] ac_simps)
      moreover have "length (filter (in_next k) (iw_pcs w')) \<le> 1" for k using fu [of k pc] one [of k] NEnter pc(2) [of k] by (cases "k = inst") (simp_all add: w' in_next_def [of _ "NEnter inst"])
      ultimately show ?thesis using P by (simp add: handles_ok_def w')
    qed
  next
    case (NSettle inst old dis)
    have w': "iw_pcs w' = (iw_pcs w)[i := NWait inst]" "iw_handles w' = settle (Option.bind old ix_d) True (iw_handles w)" "iw_ib w' = iw_ib w"
      using assms(1) NSettle by (auto simp: ib_next_def)
    have "places w' + ptrs old = places w" using mv [of "NWait inst"] NSettle by (simp add: w' places_def pc_ptrs_def [of "NSettle inst old dis"] pc_ptrs_def [of "NWait inst"] ac_simps)
    moreover have "length (filter (in_next k) (iw_pcs w')) \<le> 1" for k using fu [of k "NWait inst"] one [of k] NSettle
      by (cases "k = inst") (simp_all add: w' in_next_def)
    moreover have "list_ex (inside k) (iw_pcs w') \<Longrightarrow> list_ex (inside k) (iw_pcs w)" for k
    proof -
      assume "list_ex (inside k) (iw_pcs w')"
      then obtain n where n: "n < length (iw_pcs w)" "inside k ((iw_pcs w)[i := NWait inst] ! n)" by (auto simp: w' list_ex_length)
      then have "inside k (iw_pcs w ! n)" using NSettle by (cases "n = i") (auto simp: inside_def)
      then show ?thesis using n(1) by (auto simp: list_ex_length)
    qed
    ultimately show ?thesis using settle_places [OF P _ w'(2)] out by (simp add: handles_ok_def w'(3))
  next
    case (NWait inst)
    have co: "inst = ib_instanceID (iw_ib w) \<Longrightarrow> ib_checkedOut (iw_ib w) = None" using li NWait by (simp add: inside_def)
    have pw: "pc_ptrs (iw_pcs w ! i) = {#}" "in_next inst (iw_pcs w ! i)" by (simp_all add: NWait pc_ptrs_def in_next_def)
    have dn: "pc_ptrs (NDone r) = {#}" "\<not> in_next k (NDone r)" for r k by (simp_all add: pc_ptrs_def in_next_def)
    consider (stay) "w' = w" | (none) r u where "w' = set_pc i (NDone r) u" "iw_pcs u = iw_pcs w" "iw_handles u = iw_handles w"
        "ib_buf (iw_ib u) = ib_buf (iw_ib w)" "ib_checkedOut (iw_ib u) = ib_checkedOut (iw_ib w)" "ib_instanceID (iw_ib u) = ib_instanceID (iw_ib w)"
      | (pop) r u e rest where "w' = set_pc i (NDone r) u" "iw_pcs u = iw_pcs w" "iw_handles u = iw_handles w"
        "ib_buf (iw_ib w) = e # rest" "ib_buf (iw_ib u) = rest" "ib_checkedOut (iw_ib u) = Some e"
        "ib_checkedOut (iw_ib w) = None" "ib_instanceID (iw_ib u) = inst"
      using assms(1) NWait co by (auto simp: ib_next_def next_round_def Let_def split: if_splits list.splits)
    then show ?thesis
    proof cases
      case (none r u)
      then show ?thesis using quiet [of "NDone r" u] pw dn by simp
    next
      case (pop r u e rest)
      have "places w' = places w" using mv [of "NDone r"] pw dn by (simp add: pop places_def ptrs_def [of None] ac_simps)
      moreover have "length (filter (in_next k) (iw_pcs w')) \<le> 1" for k using fu [of k "NDone r"] one [of k] dn by (simp add: pop)
      ultimately show ?thesis using P none_inside_after [OF one assms(2) pw(2) dn(2), of r] by (simp add: handles_ok_def pop)
    qed (simp add: assms(3))
  next
    case (TCheck ev)
    then show ?thesis using assms(1) quiet [of "TDone False" w] quiet [of "TPush ev" w] by (auto simp: ib_next_def pc_ptrs_def in_next_def)
  next
    case (TPush ev)
    then show ?thesis using assms(1) quiet [of "TDone True" "do_push \<lparr>ix_ev = ev, ix_d = None\<rparr> w"]
      by (auto simp: ib_next_def pc_ptrs_def in_next_def ptrs_def)
  next
    case (AAbandon old)
    have w': "iw_pcs w' = (iw_pcs w)[i := ADone]" "iw_handles w' = settle (Option.bind old ix_d) False (iw_handles w)" "iw_ib w' = iw_ib w"
      using assms(1) AAbandon by (auto simp: ib_next_def)
    have "places w' + ptrs old = places w" using mv [of ADone] AAbandon by (simp add: w' places_def pc_ptrs_def [of "AAbandon old"] pc_ptrs_def [of ADone] ac_simps)
    from settle_places [OF P this w'(2)] show ?thesis using fu [of _ ADone] one AAbandon out lex [of "ib_instanceID (iw_ib w)" ADone]
      by (auto simp: handles_ok_def w' in_next_def inside_def)
  qed (use assms(1) in \<open>simp_all add: ib_next_def\<close>)
qed

lemma handles_step: "iw_step False w w' \<Longrightarrow> handles_ok w \<Longrightarrow> handles_ok w'"
proof (induction rule: iw_step.induct)
  case (delivery w eid now h payload)
  then show ?case
    by (simp add: handles_ok_def places_def PushDelivery_def Let_def unsettled_new ptrs_def [of "Some \<lparr>ix_ev = _, ix_d = _\<rparr>"])
next
  case (call inst w)
  then have "filter (in_next inst) (iw_pcs w) = []" by (auto simp: filter_empty_conv list_all_iff)
  then show ?case using call by (auto simp: handles_ok_def places_def pc_ptrs_def in_next_def inside_def)
next
  case (thread i w ctxErr late w')
  then show ?case using handles_next by blast
qed (auto simp: handles_ok_def places_def PushStart_def BindInstance_def UnbindInstance_def ptrs_def pc_ptrs_def in_next_def inside_def Let_def ac_simps)

interpretation ihi: invariant_system iw_init "iw_step False" handles_ok
proof
  show "iw_init w \<Longrightarrow> handles_ok w" for w
    by (simp add: handles_ok_def iw_init_def NewInbox_def places_def unsettled_def ptrs_def)
qed (rule handles_step)

text \<open>
  C29: Every delivery is accounted for: as long as the manager's consumer does not overlap its own calls of
  \<open>Next\<close>, at every moment each delivery's handle is either settled (its waiters were told whether it
  was processed) or in exactly one place that will lead to its settlement: queued, checked out, or in
  the hands of the call that is about to settle it; and no settled handle is in any such place.
\<close>

theorem delivery_accounted:
  assumes "iw_init w0" "(iw_step False)\<^sup>*\<^sup>* w0 w"
  shows "places w = mset_set {p. p < length (iw_handles w) \<and> iw_handles w ! p = None}"
  using ihi.inv_reachable [OF assms] by (simp add: handles_ok_def unsettled_def)

subsection \<open>Examples\<close>


theorem delivery_accounted_witness:
  "places iw_one = mset_set {p. p < length (iw_handles iw_one) \<and> iw_handles iw_one ! p = None}"
  by (rule delivery_accounted [OF iw_start_init iw_one_reach])

subsection \<open>Three behaviours the comments do not describe\<close>

text \<open>
  A cancelled poll still takes an event: the waiting loop looks at the queue before it looks at the
  context, so a call of \<open>Next\<close> whose client has already gone pops the oldest event all the same, and
  the instance's next call reports that event, which nobody received, as processed.
\<close>

theorem cancelled_next_still_pops:
  assumes "ib_instanceID ib = inst" "inst \<noteq> []" "ib_buf ib = e # rest"
  shows "\<exists>ib1 dis ib2. next_round inst True late ib = (Some (Got (ix_ev e), ib_hooks ib), ib1) \<and> ib_buf ib1 = rest
    \<and> next_enter inst ib1 = Some (Some e, dis, ib2)"
  using assms by (simp add: next_round_def next_enter_def Let_def)

theorem cancelled_next_still_pops_witness:
  "\<exists>ib1 dis ib2. next_round ''i'' True True (iw_ib iw_one) = (Some (Got (delivery_event ''e'' 5 fmempty ''p''), True), ib1) \<and> ib_buf ib1 = []
    \<and> next_enter ''i'' ib1 = Some (Some \<lparr>ix_ev = delivery_event ''e'' 5 fmempty ''p'', ix_d = Some 0\<rparr>, dis, ib2)"
proof -
  have "ib_instanceID (iw_ib iw_one) = ''i''" "ib_hooks (iw_ib iw_one)"
    "ib_buf (iw_ib iw_one) = [\<lparr>ix_ev = delivery_event ''e'' 5 fmempty ''p'', ix_d = Some 0\<rparr>]"
    by (simp_all add: iw_one_def iw_start_def PushDelivery_def do_push_def ib_push_def BindInstance_def NewInbox_def delivery_event_def
        KindDelivery_def KindTick_def Let_def)
  then show ?thesis using cancelled_next_still_pops [of "iw_ib iw_one" "''i''" _ "[]" True] by fastforce
qed

text \<open>A handle that no place leads to any more.\<close>

definition lost :: "nat \<Rightarrow> ib_world \<Rightarrow> bool" where
  "lost p w \<longleftrightarrow> p < length (iw_handles w) \<and> iw_handles w ! p = None \<and> (\<forall>e \<in> set (ib_buf (iw_ib w)). ix_d e \<noteq> Some p)
     \<and> (\<forall>e. ib_checkedOut (iw_ib w) = Some e \<longrightarrow> ix_d e \<noteq> Some p) \<and> (\<forall>pc \<in> set (iw_pcs w). p \<notin># pc_ptrs pc)"

lemma settle_other: "p < length hs \<Longrightarrow> d \<noteq> Some p \<Longrightarrow> settle d ok hs ! p = hs ! p \<and> length (settle d ok hs) = length hs"
  by (cases d) (auto simp: settle_def nth_list_update_neq)

lemma pc_ptrs_simps [simp]: "pc_ptrs (NSettle i old dis) = ptrs old" "pc_ptrs (AAbandon old) = ptrs old" "pc_ptrs (NWait i) = {#}"
  "pc_ptrs (NDone r) = {#}" "pc_ptrs (TPush ev) = {#}" "pc_ptrs (TDone b) = {#}" "pc_ptrs ADone = {#}" "pc_ptrs (NEnter i) = {#}" "pc_ptrs (TCheck ev) = {#}"
  by (simp_all add: pc_ptrs_def)

lemma in_ptrs: "p \<in># ptrs eo \<longleftrightarrow> Option.bind eo ix_d = Some p"
  by (cases "Option.bind eo ix_d") (auto simp: ptrs_def)

lemma lost_set_pc:
  assumes "lost p w" "p \<notin># pc_ptrs pc" "iw_pcs u = iw_pcs w" "p < length (iw_handles u)" "iw_handles u ! p = None"
    "\<forall>e \<in> set (ib_buf (iw_ib u)). ix_d e \<noteq> Some p" "\<forall>e. ib_checkedOut (iw_ib u) = Some e \<longrightarrow> ix_d e \<noteq> Some p"
  shows "lost p (set_pc i pc u)"
  using assms set_update_subset_insert [of "iw_pcs w" i pc] by (auto simp: lost_def)

lemma lost_next:
  assumes "ib_next ctxErr late i w = Some w'" "i < length (iw_pcs w)" "lost p w"
  shows "lost p w'"
proof -
  have pc: "p \<notin># pc_ptrs (iw_pcs w ! i)" using assms(2,3) by (simp add: lost_def)
  have w: "p < length (iw_handles w)" "iw_handles w ! p = None" "\<forall>e \<in> set (ib_buf (iw_ib w)). ix_d e \<noteq> Some p"
    "\<forall>e. ib_checkedOut (iw_ib w) = Some e \<longrightarrow> ix_d e \<noteq> Some p"
    using assms(3) by (simp_all add: lost_def)
  have co: "p \<notin># ptrs (ib_checkedOut (iw_ib w))" using w(4) by (auto simp: in_ptrs bind_eq_Some_conv)
  note L = lost_set_pc [OF assms(3)]
  show ?thesis
  proof (cases "iw_pcs w ! i")
    case (NEnter inst)
    then show ?thesis using assms(1) w co
      by (auto simp: ib_next_def next_enter_def intro!: L split: if_splits)
  next
    case (NSettle inst old dis)
    then show ?thesis using assms(1) w pc settle_other [of p "iw_handles w" "Option.bind old ix_d" True]
      by (auto simp: ib_next_def in_ptrs intro!: L)
  next
    case (NWait inst)
    then show ?thesis using assms(1,3) w
      by (auto simp: ib_next_def next_round_def Let_def intro!: L split: if_splits list.splits)
  next
    case (AAbandon old)
    then show ?thesis using assms(1) w pc settle_other [of p "iw_handles w" "Option.bind old ix_d" False]
      by (auto simp: ib_next_def in_ptrs intro!: L)
  qed (use assms(1) w in \<open>auto simp: ib_next_def intro!: L split: if_splits\<close>)
qed

lemma lost_step: "iw_step ov w w' \<Longrightarrow> lost p w \<Longrightarrow> lost p w'"
proof (induction rule: iw_step.induct)
  case (thread i w ctxErr late w')
  then show ?case using lost_next by blast
qed (auto simp: lost_def PushDelivery_def PushStart_def BindInstance_def UnbindInstance_def in_ptrs bind_eq_Some_conv nth_append Let_def)

lemma lost_forever: "(iw_step ov)\<^sup>*\<^sup>* w w' \<Longrightarrow> lost p w \<Longrightarrow> iw_handles w' ! p = None"
proof -
  assume "(iw_step ov)\<^sup>*\<^sup>* w w'" "lost p w"
  then have "lost p w'" by (induction rule: rtranclp_induct) (auto intro: lost_step)
  then show ?thesis by (simp add: lost_def)
qed

text \<open>Two calls of \<open>Next\<close> of the same instance are parked when two deliveries arrive.\<close>

definition iw_parked :: ib_world where
  "iw_parked = \<lparr>iw_ib = NewInbox\<lparr>ib_instanceID := ''i'', ib_parked := 2\<rparr>, iw_handles = [], iw_pcs = [AAbandon None, NWait ''i'', NWait ''i''],
     iw_log = [], iw_pushed = [], iw_popped = []\<rparr>"

lemma iw_parked_reach: "(iw_step True)\<^sup>*\<^sup>* iw_start iw_parked"
proof -
  let ?w1 = "iw_start\<lparr>iw_ib := NewInbox\<lparr>ib_instanceID := ''i''\<rparr>, iw_pcs := [AAbandon None]\<rparr>"
  let ?w2 = "?w1\<lparr>iw_pcs := [AAbandon None, NEnter ''i'']\<rparr>"
  let ?w3 = "?w1\<lparr>iw_pcs := [AAbandon None, NEnter ''i'', NEnter ''i'']\<rparr>"
  let ?w4 = "?w1\<lparr>iw_ib := NewInbox\<lparr>ib_instanceID := ''i'', ib_parked := 1\<rparr>, iw_pcs := [AAbandon None, NSettle ''i'' None False, NEnter ''i'']\<rparr>"
  let ?w5 = "?w1\<lparr>iw_ib := NewInbox\<lparr>ib_instanceID := ''i'', ib_parked := 2\<rparr>, iw_pcs := [AAbandon None, NSettle ''i'' None False, NSettle ''i'' None False]\<rparr>"
  let ?w6 = "?w5\<lparr>iw_pcs := [AAbandon None, NWait ''i'', NSettle ''i'' None False]\<rparr>"
  note S = iw_start_def NewInbox_def ib_next_def next_enter_def set_pc_def settle_def
  have 1: "iw_step True iw_start ?w1" using iw_step.bind [of True iw_start "''i''" False] by (simp add: S BindInstance_def)
  have 2: "iw_step True ?w1 ?w2" using iw_step.call [where overlap = True and w = ?w1 and inst = "''i''"] by simp
  have 3: "iw_step True ?w2 ?w3" using iw_step.call [where overlap = True and w = ?w2 and inst = "''i''"] by simp
  have 4: "ib_next False False 1 ?w3 = Some ?w4" and 5: "ib_next False False 2 ?w4 = Some ?w5" and 6: "ib_next False False 1 ?w5 = Some ?w6"
    and 7: "ib_next False False 2 ?w6 = Some iw_parked" by (simp_all add: S iw_parked_def)
  note T = iw_thread [OF _ 4 iw_thread [OF _ 5 iw_thread [OF _ 6 iw_thread [OF _ 7 rtranclp.rtrancl_refl]]]]
  show ?thesis by (rule iw_cons [OF 1 iw_cons [OF 2 iw_cons [OF 3 T]]]) (simp_all add: S)
qed

text \<open>
  Overlapping polls lose a delivery's fate: when two calls of \<open>Next\<close> of one instance are waiting and
  two deliveries arrive, both events are handed out, but the second check-out overwrites the first,
  whose handle is then never settled, whatever happens later; its synchronous caller and its status
  reporter wait for a fate that never comes.
\<close>

theorem overlapping_polls_lose_handle:
  "\<exists>w0 w. iw_init w0 \<and> (iw_step True)\<^sup>*\<^sup>* w0 w \<and> length (iw_popped w) = 2 \<and> length (iw_handles w) = 2
     \<and> (\<forall>w'. (iw_step True)\<^sup>*\<^sup>* w w' \<longrightarrow> iw_handles w' ! 0 = None)"
proof -
  define ea eb where e: "ea = \<lparr>ix_ev = delivery_event ''a'' 5 fmempty [], ix_d = Some 0\<rparr>" "eb = \<lparr>ix_ev = delivery_event ''b'' 6 fmempty [], ix_d = Some (1::nat)\<rparr>"
  have k: "ie_Kind (ix_ev ea) = KindDelivery" "ie_Kind (ix_ev eb) = KindDelivery" "KindDelivery \<noteq> KindTick" "ix_d ea = Some 0" "ix_d eb = Some 1"
    "ie_ReceivedAt (ix_ev ea) = 5" "ie_ReceivedAt (ix_ev eb) = 6"
    by (simp_all add: e delivery_event_def KindDelivery_def KindTick_def)
  define ib where "ib = NewInbox\<lparr>ib_instanceID := ''i'', ib_lastDelivered := 6\<rparr>"
  let ?w2 = "iw_parked\<lparr>iw_ib := ib\<lparr>ib_parked := 2, ib_buf := [ea, eb]\<rparr>, iw_handles := [None, None], iw_pushed := [ix_ev ea, ix_ev eb]\<rparr>"
  let ?w3 = "?w2\<lparr>iw_ib := ib\<lparr>ib_parked := 1, ib_buf := [eb], ib_checkedOut := Some ea\<rparr>, iw_pcs := [AAbandon None, NDone (Got (ix_ev ea)), NWait ''i''],
    iw_popped := [(ix_ev ea, False)]\<rparr>"
  let ?w4 = "?w2\<lparr>iw_ib := ib\<lparr>ib_parked := 0, ib_checkedOut := Some eb\<rparr>, iw_pcs := [AAbandon None, NDone (Got (ix_ev ea)), NDone (Got (ix_ev eb))],
    iw_popped := [(ix_ev ea, False), (ix_ev eb, False)]\<rparr>"
  have w2: "snd (PushDelivery ''b'' 6 fmempty [] (snd (PushDelivery ''a'' 5 fmempty [] iw_parked))) = ?w2"
    by (simp add: PushDelivery_def do_push_def ib_push_def Let_def e delivery_event_def KindDelivery_def KindTick_def iw_parked_def NewInbox_def ib_def)
  have 3: "ib_next False False 1 ?w2 = Some ?w3" "ib_next False False 2 ?w3 = Some ?w4"
    by (simp_all add: ib_next_def next_round_def set_pc_def iw_parked_def k ib_def NewInbox_def)
  have T: "(iw_step True)\<^sup>*\<^sup>* ?w2 ?w4" by (rule iw_thread [OF _ 3(1) iw_thread [OF _ 3(2) rtranclp.rtrancl_refl]]) (simp_all add: iw_parked_def)
  have "(iw_step True)\<^sup>*\<^sup>* iw_parked ?w4"
    using iw_cons [OF iw_step.delivery iw_cons [OF iw_step.delivery]] T unfolding w2 [symmetric] by blast
  then have reach: "(iw_step True)\<^sup>*\<^sup>* iw_start ?w4" by (rule rtranclp_trans [OF iw_parked_reach])
  have "lost 0 ?w4" "length (iw_popped ?w4) = 2" "length (iw_handles ?w4) = 2"
    by (simp_all add: lost_def k in_ptrs ib_def NewInbox_def)
  then show ?thesis using reach iw_start_init lost_forever by blast
qed

text \<open>
  Ticks are not always coalesced: \<open>PushTick\<close> releases the mutex between its check and its push, so
  two ticks pushed at the same time can both be queued, although at most one should be.
\<close>

theorem two_ticks_queued:
  "\<exists>w0 w. iw_init w0 \<and> (iw_step False)\<^sup>*\<^sup>* w0 w \<and> map (ie_Kind \<circ> ix_ev) (ib_buf (iw_ib w)) = [KindTick, KindTick]"
proof -
  define a b where e: "a = bare_event KindTick ''a'' 5" "b = bare_event KindTick ''b'' 6"
  have k: "ie_Kind a = KindTick" "ie_Kind b = KindTick" "ie_ReceivedAt a = 5" "ie_ReceivedAt b = 6" by (simp_all add: e bare_event_def)
  let ?w = "\<lambda>pcs. iw_start\<lparr>iw_pcs := pcs\<rparr>"
  let ?x = "\<lambda>ev. \<lparr>ix_ev = ev, ix_d = None\<rparr>"
  let ?w5 = "iw_start\<lparr>iw_ib := NewInbox\<lparr>ib_buf := [?x a], ib_tickQueued := True, ib_lastTick := 5\<rparr>, iw_pcs := [TDone True, TPush b], iw_pushed := [a]\<rparr>"
  let ?w6 = "iw_start\<lparr>iw_ib := NewInbox\<lparr>ib_buf := [?x a, ?x b], ib_tickQueued := True, ib_lastTick := 6\<rparr>, iw_pcs := [TDone True, TDone True], iw_pushed := [a, b]\<rparr>"
  have 1: "iw_step False iw_start (?w [TCheck a])" using iw_step.tick [of False iw_start "''a''" 5] by (simp add: iw_start_def e)
  have 2: "iw_step False (?w [TCheck a]) (?w [TCheck a, TCheck b])" using iw_step.tick [of False "?w [TCheck a]" "''b''" 6] by (simp add: e)
  have 3: "ib_next False False 0 (?w [TCheck a, TCheck b]) = Some (?w [TPush a, TCheck b])"
    and 4: "ib_next False False 1 (?w [TPush a, TCheck b]) = Some (?w [TPush a, TPush b])"
    by (simp_all add: iw_start_def ib_next_def set_pc_def NewInbox_def)
  have 5: "ib_next False False 0 (?w [TPush a, TPush b]) = Some ?w5" and 6: "ib_next False False 1 ?w5 = Some ?w6"
    by (simp_all add: iw_start_def ib_next_def set_pc_def do_push_def ib_push_def Let_def k NewInbox_def)
  note T = iw_thread [OF _ 3 iw_thread [OF _ 4 iw_thread [OF _ 5 iw_thread [OF _ 6 rtranclp.rtrancl_refl]]]]
  have "(iw_step False)\<^sup>*\<^sup>* iw_start ?w6" by (rule iw_cons [OF 1 iw_cons [OF 2 T]]) (simp_all add: iw_start_def)
  moreover have "map (ie_Kind \<circ> ix_ev) (ib_buf (iw_ib ?w6)) = [KindTick, KindTick]" by (simp add: k)
  ultimately show ?thesis by (intro exI [of _ iw_start] exI [of _ ?w6] conjI iw_start_init)
qed

end
