(* ===== verification/Watchdog.thy ===== *)
theory Watchdog
  imports Prelude
begin

text \<open>
  Model of \<^verbatim>\<open>internal/runner/watchdog.go\<close>: the idle watchdog of a run.  Every method is one critical
  section; \<open>watch_loop\<close> is the goroutine \<open>Watch\<close> starts, with timers that ring on time, against the
  instants at which output arrives.  The lemmas show when it fires.
\<close>

record watchdog =
  wd_limit :: duration
  wd_armed :: bool
  wd_last :: time
  wd_fired :: bool

definition noIdleLimitRecheck :: duration where "noIdleLimitRecheck = 24 * Hour"

definition newIdleWatchdog :: "duration \<Rightarrow> watchdog" where
  "newIdleWatchdog limit = \<lparr>wd_limit = limit, wd_armed = False, wd_last = 0, wd_fired = False\<rparr>"

definition wd_Arm :: "time \<Rightarrow> watchdog \<Rightarrow> watchdog" where
  "wd_Arm now w = w\<lparr>wd_armed := True, wd_last := now\<rparr>"

definition wd_Touch :: "time \<Rightarrow> watchdog \<Rightarrow> watchdog" where
  "wd_Touch now w = w\<lparr>wd_last := now\<rparr>"

definition wd_Disarm :: "watchdog \<Rightarrow> watchdog" where
  "wd_Disarm w = w\<lparr>wd_armed := False\<rparr>"

definition wd_check :: "time \<Rightarrow> watchdog \<Rightarrow> duration \<times> bool" where
  "wd_check now w =
     (if wd_limit w \<le> 0 then (noIdleLimitRecheck, False)
      else if \<not> wd_armed w then (wd_limit w, False)
      else let idle = now - wd_last w in
           if idle \<ge> wd_limit w then (0, True) else (wd_limit w - idle, False))"

text \<open>One turn of the loop of \<open>Watch\<close>; the loop ends once the channel is closed.\<close>

definition wd_turn :: "time \<Rightarrow> watchdog \<Rightarrow> watchdog" where
  "wd_turn now w = (if wd_fired w then w else if snd (wd_check now w) then w\<lparr>wd_fired := True\<rparr> else w)"

text \<open>\<open>touchReader.Read\<close>: a read of at least one byte is a touch.\<close>

definition touch_read :: "time \<Rightarrow> nat \<Rightarrow> watchdog \<Rightarrow> watchdog" where
  "touch_read now n w = (if n > 0 then wd_Touch now w else w)"

lemma wd_simps [simp]:
  "wd_limit (wd_Arm now w) = wd_limit w" "wd_limit (wd_Touch now w) = wd_limit w" "wd_limit (wd_turn now w) = wd_limit w"
  "wd_armed (wd_Arm now w)" "wd_armed (wd_Touch now w) = wd_armed w" "wd_armed (wd_turn now w) = wd_armed w"
  "wd_fired (wd_Arm now w) = wd_fired w" "wd_fired (wd_Touch now w) = wd_fired w"
  "wd_last (wd_Arm now w) = now" "wd_last (wd_Touch now w) = now" "wd_last (wd_turn now w) = wd_last w"
  by (simp_all add: wd_Arm_def wd_Touch_def wd_turn_def)

subsection \<open>When the loop fires\<close>

text \<open>The touches that have happened by an instant, and the watchdog as it then stands.\<close>

definition wd_at :: "duration \<Rightarrow> time \<Rightarrow> time list \<Rightarrow> time \<Rightarrow> watchdog" where
  "wd_at limit armed touches now =
     fold wd_Touch (filter (\<lambda>t. t \<le> now) touches) (wd_Arm armed (newIdleWatchdog limit))"

lemma fold_wd_Touch: "fold wd_Touch ts w = (if ts = [] then w else w\<lparr>wd_last := last ts\<rparr>)"
  by (induction ts arbitrary: w) (simp_all add: wd_Touch_def)

lemma wd_at_simps:
  "wd_limit (wd_at limit armed touches now) = limit" "wd_armed (wd_at limit armed touches now)"
  "wd_last (wd_at limit armed touches now) = last (armed # filter (\<lambda>t. t \<le> now) touches)"
  by (simp_all add: wd_at_def fold_wd_Touch newIdleWatchdog_def wd_Arm_def)

lemma wd_at_last_le: "armed \<le> now \<Longrightarrow> wd_last (wd_at limit armed touches now) \<le> now"
proof -
  assume a: "armed \<le> now"
  have "last (armed # filter (\<lambda>t. t \<le> now) touches) \<in> set (armed # filter (\<lambda>t. t \<le> now) touches)"
    by (rule last_in_set) simp
  with a show ?thesis unfolding wd_at_simps by auto
qed

lemma filter_le_split: "(now::int) \<le> now' \<Longrightarrow> sorted touches \<Longrightarrow>
  filter (\<lambda>t. t \<le> now') touches = filter (\<lambda>t. t \<le> now) touches @ filter (\<lambda>t. now < t \<and> t \<le> now') touches"
proof (induction touches)
  case (Cons a ts)
  show ?case
  proof (cases "a \<le> now")
    case False
    then have "filter (\<lambda>t. t \<le> now) ts = []" using Cons.prems(2) by (auto simp: filter_empty_conv)
    then show ?thesis using False Cons by simp
  qed (use Cons in simp)
qed simp

lemma watch_progress:
  assumes "0 < limit" "armed \<le> now" "sorted touches" "wd_check now (wd_at limit armed touches now) = (wait, False)"
  shows "0 < wait \<and> (filter (\<lambda>t. now < t \<and> t \<le> now + wait) touches = [] \<longrightarrow>
    wd_check (now + wait) (wd_at limit armed touches (now + wait)) = (0, True))"
proof -
  have w: "wait = limit - (now - wd_last (wd_at limit armed touches now))" "0 < wait"
    using assms(1,4) by (auto simp: wd_check_def wd_at_simps Let_def split: if_splits)
  moreover have "wd_last (wd_at limit armed touches (now + wait)) = wd_last (wd_at limit armed touches now)"
    if "filter (\<lambda>t. now < t \<and> t \<le> now + wait) touches = []"
    using filter_le_split [OF _ assms(3), of now "now + wait"] w(2) that by (simp add: wd_at_simps)
  ultimately show ?thesis using assms(1) by (simp add: wd_check_def wd_at_simps Let_def)
qed

text \<open>The goroutine of \<open>Watch\<close>: check, sleep for what \<open>check\<close> says, check again.  The result is the
  instant at which the channel is closed.\<close>

function watch_loop :: "duration \<Rightarrow> time \<Rightarrow> time list \<Rightarrow> time \<Rightarrow> time option" where
  "watch_loop limit armed touches now =
     (if limit \<le> 0 \<or> now < armed \<or> \<not> sorted touches then None
      else case wd_check now (wd_at limit armed touches now) of
        (wait, True) \<Rightarrow> Some now
      | (wait, False) \<Rightarrow> watch_loop limit armed touches (now + wait))"
  by pat_completeness auto

termination
proof (relation "measures [\<lambda>(limit, armed, touches, now). length (filter (\<lambda>t. now < t) touches),
    \<lambda>(limit, armed, touches, now). if snd (wd_check now (wd_at limit armed touches now)) then 0 else 1]", goal_cases)
  case (2 limit armed touches now wait fire)
  then have c: "0 < limit" "armed \<le> now" "sorted touches" "wd_check now (wd_at limit armed touches now) = (wait, False)"
    by auto
  note pr = watch_progress [OF c]
  have split: "length (filter (\<lambda>t. now < t) touches) =
      length (filter (\<lambda>t. now < t \<and> t \<le> now + wait) touches) + length (filter (\<lambda>t. now + wait < t) touches)"
    using conjunct1 [OF pr] by (induction touches) auto
  show ?case
  proof (cases "filter (\<lambda>t. now < t \<and> t \<le> now + wait) touches = []")
    case True
    then have "filter (\<lambda>t. now < t) touches = filter (\<lambda>t. now + wait < t) touches \<or>
        length (filter (\<lambda>t. now < t) touches) = length (filter (\<lambda>t. now + wait < t) touches)" using split by simp
    then show ?thesis using True pr c by auto
  next
    case False
    then have "0 < length (filter (\<lambda>t. now < t \<and> t \<le> now + wait) touches)" by simp
    then show ?thesis using split by simp
  qed
qed simp

declare watch_loop.simps [simp del]

text \<open>The specification: the first instant that is a full limit after the last touch before it.\<close>

fun idle_instant :: "duration \<Rightarrow> time \<Rightarrow> time list \<Rightarrow> time" where
  "idle_instant limit a [] = a + limit"
| "idle_instant limit a (t # ts) = (if t \<le> a + limit then idle_instant limit t ts else a + limit)"

definition last_touch :: "time \<Rightarrow> time list \<Rightarrow> time \<Rightarrow> time" where
  "last_touch a ts now = last (a # filter (\<lambda>t. t \<le> now) ts)"

lemma last_touch_simps [simp]:
  "last_touch a [] now = a"
  "sorted (t # ts) \<Longrightarrow> last_touch a (t # ts) now = (if t \<le> now then last_touch t ts now else a)"
  by (auto simp: last_touch_def filter_empty_conv)

lemma idle_instant_reached:
  "sorted (a # ts) \<Longrightarrow> a \<le> now \<Longrightarrow> last_touch a ts now + limit \<le> now \<Longrightarrow> idle_instant limit a ts \<le> now"
  by (induction ts arbitrary: a) (auto split: if_splits)

lemma last_touch_mono: "sorted (a # ts) \<Longrightarrow> a \<le> last_touch a ts now \<and> (now \<le> now' \<longrightarrow> last_touch a ts now \<le> last_touch a ts now')"
proof (induction ts arbitrary: a)
  case (Cons t ts)
  from Cons.IH [of t] Cons.prems show ?case by auto
qed simp

lemma idle_instant_last: "sorted (a # ts) \<Longrightarrow> 0 < limit \<Longrightarrow>
  a + limit \<le> idle_instant limit a ts \<and> idle_instant limit a ts = last_touch a ts (idle_instant limit a ts) + limit"
proof (induction ts arbitrary: a)
  case (Cons t ts)
  from Cons.IH [of t] Cons.prems show ?case by auto
qed simp

lemma watch_loop_instant:
  assumes "0 < limit" "sorted (armed # touches)"
  shows "armed \<le> now \<Longrightarrow> now \<le> idle_instant limit armed touches \<Longrightarrow>
    watch_loop limit armed touches now = Some (idle_instant limit armed touches)"
  using assms
proof (induction limit armed touches now rule: watch_loop.induct)
  case (1 limit armed touches now)
  let ?last = "last_touch armed touches now" and ?stop = "idle_instant limit armed touches"
  have last: "wd_last (wd_at limit armed touches now) = ?last" by (simp add: wd_at_simps last_touch_def)
  have srt: "sorted touches" using 1(5) by simp
  have nxt: "?last + limit \<le> ?stop"
    using idle_instant_last [OF 1(5,4)] last_touch_mono [OF 1(5), of now ?stop] 1(3) by linarith
  show ?case
  proof (cases "now - ?last \<ge> limit")
    case True
    then have "?stop \<le> now" using idle_instant_reached [OF 1(5,2)] by simp
    then show ?thesis using True 1(2-4) srt last
      by (subst watch_loop.simps) (simp add: wd_check_def wd_at_simps(1,2) Let_def)
  next
    case False
    then have chk: "wd_check now (wd_at limit armed touches now) = (limit - (now - ?last), False)"
      using 1(4) last by (simp add: wd_check_def wd_at_simps(1,2) Let_def)
    have "watch_loop limit armed touches (now + (limit - (now - ?last))) = Some ?stop"
      by (rule 1(1) [OF _ chk [symmetric]]) (use 1(2-5) srt False nxt in auto)
    then show ?thesis using 1(2,4) srt chk by (subst watch_loop.simps) simp
  qed
qed

text \<open>
  C38: The idle watchdog is exact: for every idle limit and every sequence of output instants, the
  goroutine terminates and closes its channel at the first instant that lies a full limit after
  the arming or the last output before it, neither earlier (output that arrives within the limit
  always saves the run) nor later.
\<close>

theorem watchdog_exact:
  assumes "0 < limit" "sorted (armed # touches)"
  shows "watch_loop limit armed touches armed = Some (idle_instant limit armed touches)"
  using watch_loop_instant [OF assms order_refl] idle_instant_last [OF assms(2,1)] assms(1) by simp

theorem watchdog_exact_witness: "watch_loop 10 100 [105, 115, 120, 131] 100 = Some 130"
  using watchdog_exact [of 10 100 "[105, 115, 120, 131]"] by simp

end
