(* ===== verification/Execute.thy ===== *)
theory Execute
  imports Watchdog Container ConcurrencyQueue Runs Int64
begin

text \<open>
  Model of \<^verbatim>\<open>internal/runner/runner.go\<close> (\<open>start\<close> and \<open>execute\<close>), \<open>queuewait.go\<close>, \<open>lifecycle.go\<close>,
  \<open>drain.go\<close> and \<open>spawn.go\<close>: the pipeline that takes a run from its creation to its end.

  An execution is the goroutine \<open>execute\<close> runs in, together with the watcher goroutine it starts: a
  position, the local variables, the stack of deferred calls, the run it drives (\<open>Runs\<close>), the
  watchdog (\<open>Watchdog\<close>) and the channels the two goroutines share.  A world holds all executions, the
  clock, the drain flag, the concurrency manager and the global cap (\<open>Concurrency\<close>); a call of
  \<open>Acquire\<close> is a thread of the manager that the execution itself steps.  Docker, sops and the file
  system answer through the record \<open>answers\<close>: \<open>execute\<close> asks each question at most once.  Log lines
  are left out; activity events, calls of the two observers and container commands are the trace.
\<close>

subsection \<open>Data\<close>

definition ErrDraining :: string where "ErrDraining = ''server is restarting; not accepting new runs''"
definition runCancelGraceSeconds :: int where "runCancelGraceSeconds = 10"
definition WaitingOnGroup :: string where "WaitingOnGroup = ''group''"

text \<open>Text forms the source takes from the standard library and the concurrency manager's errors.\<close>

record exec_conf =
  ec_rc :: runner_conf
  ec_dur :: "duration \<Rightarrow> string"
  ec_quote :: "string \<Rightarrow> string"
  ec_acq :: "acq_error \<Rightarrow> string"

record answers =
  an_paths :: "string + string \<times> string \<times> string"
  an_secrets :: "string + (string, string) fmap"
  an_settings :: "string option"
  an_image :: "string + string \<times> bool"
  an_buildTime :: string
  an_profile :: "string + string"
  an_command :: "string + string list"
  an_stdout :: "string option"
  an_stderr :: "string option"
  an_start :: "string option"

datatype act =
    AEvent string string "(string \<times> string) list"
  | AOnStart
  | AOnFinish
  | ASpawn "string list"
  | AKill
  | AStop int
  | AClosePipes
  | ARemoveProfile
  | ARemoveFiles

datatype deferred = DGroup | DGlobal | DCancel | DSeccomp | DCleanup | DWaitGroup

text \<open>What waiting for the container's process returns: no error when it exited with status zero, an
  \<open>ExitError\<close> with the status (never zero, -1 for a signal), or another error.\<close>

datatype wait_res = WaitOK | WaitExit int | WaitErr string

datatype xpc =
    XCheck | XSecrets | XSettings | XImage | XRecheck | XAcquire | XGroup | XAcquireGlobal | XGlobal
  | XPrepare | XInspect | XBegin | XPipes | XStart | XLaunched | XRunning
  | XExited | XKilled | XStreams | XIdle status int string | XCeiling status int string | XCancel status int string
  | XTerm status int string | XFinish status int string | XFinishing status int string | XNotify | XUnwind | XDone

text \<open>The watcher goroutine: not started, at its \<open>select\<close>, killing (gracefully or not), waiting for
  the process to end, returned.\<close>

datatype wpc = WNone | WSelect | WKilling bool | WWaiting | WReturned

datatype wsel = WSilent | WCtx | WCancelled | WStop

datatype ctx_state = CtxNone | CtxLive "time option" | CtxDeadline | CtxCanceled

record queue_obs =
  ob_seq :: "64 word"
  ob_lastKey :: string
  ob_queued :: bool

record exec =
  x_hook :: hook_conf
  x_ans :: answers
  x_run :: run
  x_pc :: xpc
  x_defers :: "deferred list"
  x_secrets :: "(string, string) fmap"
  x_image :: string
  x_spec :: "containerSpec option"
  x_group :: "nat option"
  x_global :: "nat option"
  x_gobs :: queue_obs
  x_cobs :: queue_obs
  x_ctx :: ctx_state
  x_wd :: watchdog
  x_watch :: wpc
  x_timedOut :: bool
  x_deadline :: bool
  x_cancelled :: bool
  x_stop :: bool
  x_wait :: "wait_res option"
  x_trace :: "act list"

abbreviation x_ID :: "exec \<Rightarrow> string" where "x_ID x \<equiv> run_ID (x_run x)"

definition x_act :: "act \<Rightarrow> exec \<Rightarrow> exec" where
  "x_act a x = x\<lparr>x_trace := x_trace x @ [a]\<rparr>"

definition x_upd :: "(run \<Rightarrow> run) \<Rightarrow> exec \<Rightarrow> exec" where
  "x_upd f x = x\<lparr>x_run := f (x_run x)\<rparr>"

abbreviation x_goto :: "xpc \<Rightarrow> exec \<Rightarrow> exec" where "x_goto pc x \<equiv> x\<lparr>x_pc := pc\<rparr>"

text \<open>The early return: \<open>Finish\<close>, then \<open>onFinish\<close>, then the deferred calls.\<close>

abbreviation x_fail :: "string \<Rightarrow> exec \<Rightarrow> exec" where
  "x_fail msg x \<equiv> x_goto (XFinish StatusError (-1) msg) x"

abbreviation x_cancel_start :: "exec \<Rightarrow> exec" where
  "x_cancel_start x \<equiv> x_goto (XFinish StatusCancelled (-1) ''cancelled before start'') x"

definition x_event :: "string \<Rightarrow> string \<Rightarrow> (string \<times> string) list \<Rightarrow> exec \<Rightarrow> exec" where
  "x_event kind msg flds x = x_act (AEvent kind msg ([(''hook'', hc_ID (x_hook x)), (''run'', x_ID x)] @ flds)) x"

definition runRef :: "run \<Rightarrow> string" where
  "runRef r = (if rs_Title (r_state r) \<noteq> [] then run_ID r @ '' ('' @ rs_Title (r_state r) @ '')'' else run_ID r)"

definition spawnNote :: "run \<Rightarrow> string" where
  "spawnNote r = (case rs_SpawnedBy (r_state r) of None \<Rightarrow> []
     | Some sb \<Rightarrow> '', spawned by '' @ sb_HookID sb @ '' run '' @ sb_RunID sb)"

definition runContext :: "time \<Rightarrow> duration \<Rightarrow> ctx_state" where
  "runContext now timeout = CtxLive (if timeout > 0 then Some (now + timeout) else None)"

subsection \<open>Starting a run\<close>

definition queue_obs0 :: queue_obs where "queue_obs0 = \<lparr>ob_seq = 0, ob_lastKey = [], ob_queued = False\<rparr>"

definition runner_start ::
  "time \<Rightarrow> bool \<Rightarrow> string \<Rightarrow> bool \<Rightarrow> bool \<Rightarrow> hook_conf \<Rightarrow> string \<Rightarrow> string \<Rightarrow> string \<Rightarrow> answers \<Rightarrow> exec" where
  "runner_start now draining rid onFin onChg hook title parentHookID parentRunID ans =
     (let run = SetSpawnedBy parentHookID parentRunID (SetTitle title (fresh_run rid (hc_ID hook) now onFin onChg));
          x = \<lparr>x_hook = hook, x_ans = ans, x_run = run, x_pc = XCheck, x_defers = [DCleanup, DWaitGroup], x_secrets = fmempty,
               x_image = [], x_spec = None, x_group = None, x_global = None, x_gobs = queue_obs0, x_cobs = queue_obs0, x_ctx = CtxNone,
               x_wd = newIdleWatchdog (hc_IdleTimeout hook), x_watch = WNone, x_timedOut = False, x_deadline = False,
               x_cancelled = False, x_stop = False, x_wait = None, x_trace = []\<rparr>
      in if draining then x_fail ErrDraining (x\<lparr>x_defers := []\<rparr>)
         else case an_paths ans of Inl err \<Rightarrow> x_fail (''write temp files: '' @ err) (x\<lparr>x_defers := []\<rparr>) | Inr _ \<Rightarrow> x)"

subsection \<open>The steps of \<open>execute\<close> that touch only the execution\<close>

definition base_outcome :: "wait_res option \<Rightarrow> status \<times> int \<times> string" where
  "base_outcome w = (case w of
     Some (WaitExit n) \<Rightarrow> (StatusFailure, n, [])
   | Some (WaitErr e) \<Rightarrow> (StatusError, -1, e)
   | _ \<Rightarrow> (StatusSuccess, 0, []))"

definition nonzero :: "int \<Rightarrow> int" where "nonzero code = (if code = 0 then -1 else code)"

definition prepare :: "exec_conf \<Rightarrow> time \<Rightarrow> exec \<Rightarrow> exec" where
  "prepare c now x =
     (let h = x_hook x;
          x = (x_upd (markAt PhaseSlotAcquired now) x)\<lparr>x_ctx := runContext now (hc_Timeout h), x_defers := DCancel # x_defers x\<rparr>;
          paths = (case an_paths (x_ans x) of Inr p \<Rightarrow> p | Inl _ \<Rightarrow> ([], [], []));
          spec = run_spec (ec_rc c) h (x_ID x) (x_image x) paths (x_secrets x)
      in case seccompArgs (hc_Userns h) (an_profile (x_ans x)) of
           Inl err \<Rightarrow> x_fail (''seccomp profile: '' @ err)
             (x_event ''run.seccomp_failed'' (''seccomp profile for '' @ hc_ID h @ '' failed: '' @ err) [] x)
         | Inr fl \<Rightarrow> x\<lparr>x_defers := DSeccomp # x_defers x, x_spec := Some (spec\<lparr>sp_seccomp := fl\<rparr>), x_pc := XInspect\<rparr>)"

definition set_argv :: "string list \<Rightarrow> exec \<Rightarrow> exec" where
  "set_argv argv x = x\<lparr>x_spec := map_option (\<lambda>s. s\<lparr>sp_argv := argv\<rparr>) (x_spec x), x_pc := XBegin\<rparr>"

definition inspect_command :: "exec_conf \<Rightarrow> time \<Rightarrow> exec \<Rightarrow> exec" where
  "inspect_command c now x =
     (if stateForwarding (ec_rc c) (x_hook x)
      then (case an_command (x_ans x) of
          Inl err \<Rightarrow> x_fail (''inspect image command: '' @ err)
            (x_event ''image.inspect_failed'' (''inspect '' @ x_image x @ '' for '' @ hc_ID (x_hook x) @ '' failed: '' @ err) [] x)
        | Inr argv \<Rightarrow> set_argv (''kv-forward'' # argv) (x_upd (markAt PhaseInspected now) x))
      else set_argv (hc_Command (x_hook x)) x)"

definition begin_run :: "exec_conf \<Rightarrow> exec \<Rightarrow> exec" where
  "begin_run c x =
     (let x = x_event ''run.started'' (hc_ID (x_hook x) @ '' run '' @ runRef (x_run x) @ '' started ('' @ x_image x @ '')'' @ spawnNote (x_run x))
            [(''tag'', x_image x)] x
      in x_goto XPipes (if rc_onStart (ec_rc c) then x_act AOnStart x else x))"

definition finished_message :: "exec_conf \<Rightarrow> status \<Rightarrow> int \<Rightarrow> string \<Rightarrow> exec \<Rightarrow> string" where
  "finished_message c st code err x =
     hc_ID (x_hook x) @ '' run '' @ runRef (x_run x) @ '' finished: '' @ st @ '' (exit '' @ append_int code @ '')'' @ spawnNote (x_run x) @
     (if err \<noteq> [] \<and> (st = StatusTimeout \<or> (st = StatusCancelled \<and> err \<noteq> ''cancelled'')) then '': '' @ err else [])"

text \<open>The callback registered with \<open>SetOnTerminal\<close> runs when \<open>Finish\<close> calls it.\<close>

definition finishing_step :: "exec_conf \<Rightarrow> status \<Rightarrow> int \<Rightarrow> string \<Rightarrow> exec \<Rightarrow> exec" where
  "finishing_step c st code err x =
     (let x' = (if r_fin (x_run x) = AtTerminal True
                then x_event ''run.finished'' (finished_message c st code err x) [(''status'', st)] x else x)
      in if r_fin (x_run x) = FinishReturned then x_goto XNotify x' else x_upd finish_next x')"

text \<open>Up to the queue: the cancel checks, the secrets, the settings, the image.\<close>

definition early_next :: "exec_conf \<Rightarrow> time \<Rightarrow> exec \<Rightarrow> exec option" where
  "early_next c now x = (case x_pc x of
     XCheck \<Rightarrow> Some (if r_cancel (x_run x) then x_cancel_start x else x_goto XSecrets x)
   | XSecrets \<Rightarrow> Some (if \<not> rc_secrets (ec_rc c) then x_goto XSettings x
       else case an_secrets (x_ans x) of
         Inl err \<Rightarrow> x_fail (''hook secrets: '' @ err) x
       | Inr secrets \<Rightarrow> x_goto XSettings (x\<lparr>x_secrets := secrets\<rparr>))
   | XSettings \<Rightarrow> Some (case an_settings (x_ans x) of Some err \<Rightarrow> x_fail err x | None \<Rightarrow> x_goto XImage x)
   | XImage \<Rightarrow> Some (case an_image (x_ans x) of
         Inl err \<Rightarrow> x_fail (''hook image: '' @ err)
           (x_event ''image.build_failed'' (''image build for '' @ hc_ID (x_hook x) @ '' failed: '' @ err) [] x)
       | Inr (tag, built) \<Rightarrow>
           let x = (if built then x_event ''image.built'' (''built '' @ tag @ '' in '' @ an_buildTime (x_ans x)) [(''tag'', tag)] x else x)
           in x_goto XRecheck (x_upd (markAt PhaseImageReady now) (x\<lparr>x_image := tag\<rparr>)))
   | XRecheck \<Rightarrow> Some (if r_cancel (x_run x) then x_cancel_start x else x_goto XAcquire x)
   | _ \<Rightarrow> None)"

text \<open>From the slots to the running container.\<close>

definition launch_next :: "exec_conf \<Rightarrow> time \<Rightarrow> exec \<Rightarrow> exec option" where
  "launch_next c now x = (case x_pc x of
     XPrepare \<Rightarrow> Some (prepare c now x)
   | XInspect \<Rightarrow> Some (inspect_command c now x)
   | XBegin \<Rightarrow> Some (begin_run c x)
   | XPipes \<Rightarrow> Some (case an_stdout (x_ans x) of Some err \<Rightarrow> x_fail (''stdout pipe: '' @ err) x
       | None \<Rightarrow> (case an_stderr (x_ans x) of Some err \<Rightarrow> x_fail (''stderr pipe: '' @ err) x | None \<Rightarrow> x_goto XStart x))
   | XStart \<Rightarrow> Some (case an_start (x_ans x) of Some err \<Rightarrow> x_fail (''start docker: '' @ err) x
       | None \<Rightarrow> x_goto XLaunched (x_upd (markAt PhaseSpawned now)
           (x_act (ASpawn (case x_spec x of Some s \<Rightarrow> spec_args s | None \<Rightarrow> [])) x)))
   | XLaunched \<Rightarrow> Some (x_goto XRunning ((x_upd (SetActivityTouch True) (x_upd (SetRunning now) x))
       \<lparr>x_wd := wd_Arm now (x_wd x), x_watch := WSelect\<rparr>))
   | _ \<Rightarrow> None)"

text \<open>After the container: what the goroutines have left in their channels decides the outcome.\<close>

definition outcome_next :: "exec_conf \<Rightarrow> time \<Rightarrow> exec \<Rightarrow> exec option" where
  "outcome_next c now x = (case x_pc x of
     XExited \<Rightarrow> Some (x_goto XKilled ((x_upd (markAt PhaseExited now) x)\<lparr>x_stop := True\<rparr>))
   | XKilled \<Rightarrow> Some (x_goto XStreams (if x_timedOut x \<or> x_cancelled x then x_act AClosePipes x else x))
   | XIdle st code err \<Rightarrow> Some (x_goto (if x_timedOut x
       then XCeiling StatusTimeout (nonzero code) (''idle timeout after '' @ ec_dur c (hc_IdleTimeout (x_hook x)) @ '' (no output)'')
       else XCeiling st code err) x)
   | XCeiling st code err \<Rightarrow> Some (x_goto (if x_deadline x
       then XCancel StatusTimeout (nonzero code) (''timed out after '' @ ec_dur c (hc_Timeout (x_hook x)))
       else XCancel st code err) x)
   | XCancel st code err \<Rightarrow> Some (x_goto (if x_cancelled x
       then XTerm StatusCancelled (nonzero code)
         (if r_cancelReason (x_run x) \<noteq> [] then r_cancelReason (x_run x) else ''cancelled'')
       else XTerm st code err) x)
   | _ \<Rightarrow> None)"

text \<open>The end of every path: \<open>Finish\<close>, the observer, the deferred calls.\<close>

definition finish_next_pc :: "exec_conf \<Rightarrow> time \<Rightarrow> exec \<Rightarrow> exec option" where
  "finish_next_pc c now x = (case x_pc x of
     XTerm st code err \<Rightarrow> Some (x_goto (XFinish st code err) (x_upd (SetOnTerminal True) x))
   | XFinish st code err \<Rightarrow> Some (if rs_Finished (r_state (x_run x)) \<noteq> 0 then x_goto XNotify x
       else x_goto (XFinishing st code err) (x_upd (Finish_section now st code err) x))
   | XFinishing st code err \<Rightarrow> Some (finishing_step c st code err x)
   | XNotify \<Rightarrow> Some (x_goto XUnwind (if rc_onFinish (ec_rc c) then x_act AOnFinish x else x))
   | XUnwind \<Rightarrow> (case x_defers x of
       [] \<Rightarrow> Some (x_goto XDone x)
     | DCancel # ds \<Rightarrow> Some (x\<lparr>x_defers := ds, x_ctx := (case x_ctx x of CtxLive _ \<Rightarrow> CtxCanceled | s \<Rightarrow> s)\<rparr>)
     | DSeccomp # ds \<Rightarrow> Some ((if hc_Userns (x_hook x) then x_act ARemoveProfile x else x)\<lparr>x_defers := ds\<rparr>)
     | DCleanup # ds \<Rightarrow> Some ((x_act ARemoveFiles x)\<lparr>x_defers := ds\<rparr>)
     | DWaitGroup # ds \<Rightarrow> Some (x\<lparr>x_defers := ds\<rparr>)
     | _ \<Rightarrow> None)
   | _ \<Rightarrow> None)"

definition local_next :: "exec_conf \<Rightarrow> time \<Rightarrow> exec \<Rightarrow> exec option" where
  "local_next c now x = (case early_next c now x of Some y \<Rightarrow> Some y | None \<Rightarrow>
     (case launch_next c now x of Some y \<Rightarrow> Some y | None \<Rightarrow>
     (case outcome_next c now x of Some y \<Rightarrow> Some y | None \<Rightarrow> finish_next_pc c now x)))"

subsection \<open>Queueing\<close>

text \<open>\<open>groupQueueObserver\<close> and \<open>globalQueueObserver\<close> differ in the key they show and in the text of the
  event.\<close>

definition queue_key :: "queue_state \<Rightarrow> string" where
  "queue_key qs = append_int (int (qs_Position qs)) @ ''|'' @
     concat (map (\<lambda>(i, h). (if i = 0 then [] else '','') @ h) (enumerate 0 (qs_Holders qs)))"

definition on_queue :: "time \<Rightarrow> string \<Rightarrow> string \<Rightarrow> queue_state \<Rightarrow> queue_obs \<times> exec \<Rightarrow> queue_obs \<times> exec" where
  "on_queue now key msg qs = (\<lambda>(ob, x).
     let (ob, x) = (if ob_queued ob then (ob, x) else (ob\<lparr>ob_queued := True\<rparr>, x_event ''run.queued'' msg [(''group'', key)] x)) in
     if queue_key qs = ob_lastKey ob then (ob, x)
     else let (seq, run) = SetWaitingOn now now \<lparr>w_Kind = WaitingOnGroup, w_Reason = [], w_Until = 0, w_Key = key, w_HolderRunID = [],
                 w_HolderHookID = [], w_HolderRunIDs = qs_Holders qs, w_Position = int (qs_Position qs)\<rparr> (x_run x)
          in (ob\<lparr>ob_lastKey := queue_key qs, ob_seq := seq\<rparr>, x\<lparr>x_run := run\<rparr>))"

definition group_note :: "exec_conf \<Rightarrow> time \<Rightarrow> nat \<times> queue_state \<Rightarrow> exec \<Rightarrow> exec" where
  "group_note c now n x =
     (if x_group x = Some (fst n)
      then (let (ob, x') = on_queue now (hc_ConcurrencyGroup (x_hook x))
                  (hc_ID (x_hook x) @ '' run '' @ x_ID x @ '' queued on concurrency group '' @ ec_quote c (hc_ConcurrencyGroup (x_hook x)))
                  (snd n) (x_gobs x, x) in x'\<lparr>x_gobs := ob\<rparr>)
      else x)"

definition global_note :: "time \<Rightarrow> nat \<times> queue_state \<Rightarrow> exec \<Rightarrow> exec" where
  "global_note now n x =
     (if x_global x = Some (fst n)
      then (let (ob, x') = on_queue now globalGroup (hc_ID (x_hook x) @ '' run '' @ x_ID x @ '' queued on the global run cap'')
                  (snd n) (x_cobs x, x) in x'\<lparr>x_cobs := ob\<rparr>)
      else x)"

subsection \<open>The world\<close>

record rworld =
  rw_now :: time
  rw_draining :: bool
  rw_groups :: mgr
  rw_global :: global_cap
  rw_ex :: "exec list"

text \<open>A new state of a manager; the notes it has written meanwhile are delivered under its mutex.\<close>

definition set_groups :: "exec_conf \<Rightarrow> mgr \<Rightarrow> rworld \<Rightarrow> rworld" where
  "set_groups c m w = w\<lparr>rw_groups := m,
     rw_ex := map (fold (group_note c (rw_now w)) (drop (length (m_notes (rw_groups w))) (m_notes m))) (rw_ex w)\<rparr>"

definition set_global :: "mgr \<Rightarrow> rworld \<Rightarrow> rworld" where
  "set_global m w = w\<lparr>rw_global := (rw_global w)\<lparr>gl_mgr := m\<rparr>,
     rw_ex := map (fold (global_note (rw_now w)) (drop (length (m_notes (gl_mgr (rw_global w)))) (m_notes m))) (rw_ex w)\<rparr>"

datatype gsel = SelSend | SelCancel | SelRetire

text \<open>One step of a thread inside \<open>Acquire\<close>, and the two steps of its release function.\<close>

definition acquire_next :: "gsel \<Rightarrow> time \<Rightarrow> bool \<Rightarrow> nat \<Rightarrow> mgr \<Rightarrow> mgr option" where
  "acquire_next sel now cancelled t m = (case m_thr m ! t of
     Arm g r p \<Rightarrow> Some (set_pc t (Wait g r p) (count_waiting p 1 m))
   | Wait g r p \<Rightarrow> (case sel of
       SelSend \<Rightarrow> if has_room (m_sems m ! p) then Some (set_pc t (Sent g r p) (send_token p m)) else None
     | SelCancel \<Rightarrow> if cancelled then Some (set_pc t (CancelSeen g r p) m) else None
     | SelRetire \<Rightarrow> if sem_retired (m_sems m ! p) then Some (set_pc t (RetireSeen g r p) m) else None)
   | Sent g r p \<Rightarrow> Some (set_pc t (SentDec g r p) (count_waiting p (-1) m))
   | CancelSeen g r p \<Rightarrow> Some (set_pc t (CancelDec g r) (count_waiting p (-1) m))
   | RetireSeen g r p \<Rightarrow> Some (set_pc t (RetireDec g r) (count_waiting p (-1) m))
   | SentDec g r p \<Rightarrow> Some (granted_section t g r p now m)
   | CancelDec g r \<Rightarrow> Some (cancel_section t g m)
   | RetireDec g r \<Rightarrow> Some (rebind_section t g r now m)
   | _ \<Rightarrow> None)"

definition release_next :: "nat \<Rightarrow> mgr \<Rightarrow> mgr option" where
  "release_next t m = (case m_thr m ! t of
     Holding g r p \<Rightarrow> if 0 < sem_tokens (m_sems m ! p)
       then Some (set_pc t (Released g r) (upd_sem p (\<lambda>s. s\<lparr>sem_tokens := sem_tokens s - 1\<rparr>) m)) else None
   | Released g r \<Rightarrow> Some (release_section t g r m)
   | _ \<Rightarrow> None)"

definition releasing :: "nat \<Rightarrow> mgr \<Rightarrow> bool" where
  "releasing t m = (case m_thr m ! t of Holding _ _ _ \<Rightarrow> True | Released _ _ \<Rightarrow> True | _ \<Rightarrow> False)"

definition set_ex :: "nat \<Rightarrow> exec \<Rightarrow> rworld \<Rightarrow> rworld" where
  "set_ex i x w = w\<lparr>rw_ex := (rw_ex w)[i := x]\<rparr>"

text \<open>\<open>acquireSlot\<close> has returned.\<close>

definition group_result :: "exec_conf \<Rightarrow> time \<Rightarrow> pc \<Rightarrow> exec \<Rightarrow> exec option" where
  "group_result c now th x = (case th of
     Failed e \<Rightarrow> Some (x_fail (ec_acq c e)
       (x_event ''run.misconfigured'' (hc_ID (x_hook x) @ '' run '' @ x_ID x @ '': '' @ ec_acq c e)
         [(''group'', hc_ConcurrencyGroup (x_hook x))] x))
   | NotAcquired \<Rightarrow> Some (x_cancel_start x)
   | Holding _ _ _ \<Rightarrow> Some ((x_upd (ClearWaitingOn now (ob_seq (x_gobs x))) x)\<lparr>x_defers := DGroup # x_defers x, x_pc := XAcquireGlobal\<rparr>)
   | Unbounded \<Rightarrow> Some ((x_upd (ClearWaitingOn now (ob_seq (x_gobs x))) x)\<lparr>x_defers := DGroup # x_defers x, x_pc := XAcquireGlobal\<rparr>)
   | _ \<Rightarrow> None)"

definition global_result :: "time \<Rightarrow> pc \<Rightarrow> exec \<Rightarrow> exec option" where
  "global_result now th x = (case th of
     NotAcquired \<Rightarrow> Some (x_cancel_start x)
   | Failed _ \<Rightarrow> Some ((x_upd (ClearWaitingOn now (ob_seq (x_cobs x))) x)\<lparr>x_defers := DGlobal # x_defers x, x_pc := XPrepare\<rparr>)
   | Holding _ _ _ \<Rightarrow> Some ((x_upd (ClearWaitingOn now (ob_seq (x_cobs x))) x)\<lparr>x_defers := DGlobal # x_defers x, x_pc := XPrepare\<rparr>)
   | _ \<Rightarrow> None)"

fun thread_of :: "nat option \<Rightarrow> nat" where
  "thread_of (Some t) = t"
| "thread_of None = 0"

text \<open>One step of \<open>execute\<close>; \<open>sel\<close> resolves the \<open>select\<close> inside \<open>Acquire\<close>.\<close>

definition main_next :: "exec_conf \<Rightarrow> gsel \<Rightarrow> nat \<Rightarrow> rworld \<Rightarrow> rworld option" where
  "main_next c sel i w =
     (let x = rw_ex w ! i; now = rw_now w; gm = rw_groups w; cm = gl_mgr (rw_global w);
          t = thread_of (x_group x); u = thread_of (x_global x) in
      case x_pc x of
        XAcquire \<Rightarrow> Some (set_groups c (acquire_enter (hc_ConcurrencyGroup (x_hook x)) (x_ID x) True now gm)
          (set_ex i (x\<lparr>x_group := Some (length (m_thr gm)), x_pc := XGroup\<rparr>) w))
      | XGroup \<Rightarrow> (case group_result c now (m_thr gm ! t) x of
          Some x' \<Rightarrow> Some (set_ex i x' w)
        | None \<Rightarrow> map_option (\<lambda>m. set_groups c m w) (acquire_next sel now (r_cancel (x_run x)) t gm))
      | XAcquireGlobal \<Rightarrow> Some (set_global (acquire_enter globalGroup (x_ID x) True now cm)
          (set_ex i (x\<lparr>x_global := Some (length (m_thr cm)), x_pc := XGlobal\<rparr>) w))
      | XGlobal \<Rightarrow> (case global_result now (m_thr cm ! u) x of
          Some x' \<Rightarrow> Some (set_ex i x' w)
        | None \<Rightarrow> map_option (\<lambda>m. set_global m w) (acquire_next sel now (r_cancel (x_run x)) u cm))
      | XUnwind \<Rightarrow> (case x_defers x of
          DGroup # ds \<Rightarrow> if releasing t gm then map_option (\<lambda>m. set_groups c m w) (release_next t gm)
            else Some (set_ex i (x\<lparr>x_defers := ds\<rparr>) w)
        | DGlobal # ds \<Rightarrow> if releasing u cm then map_option (\<lambda>m. set_global m w) (release_next u cm)
            else Some (set_ex i (x\<lparr>x_defers := ds\<rparr>) w)
        | _ \<Rightarrow> map_option (\<lambda>x'. set_ex i x' w) (local_next c now x))
      | _ \<Rightarrow> map_option (\<lambda>x'. set_ex i x' w) (local_next c now x))"

text \<open>The watcher goroutine; which ready case its \<open>select\<close> takes is not determined.\<close>

definition watch_next :: "wsel \<Rightarrow> exec \<Rightarrow> exec option" where
  "watch_next sel x = (case x_watch x of
     WSelect \<Rightarrow> (case sel of
         WSilent \<Rightarrow> if wd_fired (x_wd x) then Some (x\<lparr>x_timedOut := True, x_watch := WKilling False\<rparr>) else None
       | WCtx \<Rightarrow> (case x_ctx x of
             CtxDeadline \<Rightarrow> Some (x\<lparr>x_deadline := True, x_watch := WKilling False\<rparr>)
           | CtxCanceled \<Rightarrow> Some (x\<lparr>x_watch := WKilling False\<rparr>)
           | _ \<Rightarrow> None)
       | WCancelled \<Rightarrow> if r_cancel (x_run x) then Some (x\<lparr>x_cancelled := True, x_watch := WKilling True\<rparr>) else None
       | WStop \<Rightarrow> if x_stop x then Some (x\<lparr>x_watch := WReturned\<rparr>) else None)
   | WKilling graceful \<Rightarrow> Some ((x_act (if graceful then AStop runCancelGraceSeconds else AKill) x)\<lparr>x_watch := WWaiting\<rparr>)
   | WWaiting \<Rightarrow> if x_stop x then Some (x\<lparr>x_watch := WReturned\<rparr>) else None
   | _ \<Rightarrow> None)"

text \<open>Everything that can happen: a start, the drain flag, the clock, a step of an execution or of its
  watcher, a turn of the watchdog, a call of the run's API (a cancel, a title, a declared wait, a
  reported phase), an outstanding notification, output, the exit of the container, the end of the
  output streams, the deadline or the parent context, and the reconfiguration of both limits.\<close>

datatype rlabel =
    LStart string bool bool hook_conf string string string answers
  | LShutdown
  | LTick nat
  | LMain nat gsel
  | LWatch nat wsel
  | LDog nat
  | LApi nat run_op
  | LNotify nat
  | LOutput nat string
  | LExit nat wait_res
  | LDrained nat
  | LDeadline nat
  | LParent nat
  | LReload "(string, cc_group) fmap option"
  | LLimit string int
  | LClearLimit string
  | LCap int
  | LClearCap

text \<open>The observers of a run are registered by its execution alone.\<close>

definition api_op :: "run_op \<Rightarrow> bool" where
  "api_op op = (case op of OpCancel _ \<Rightarrow> True | OpTitle _ \<Rightarrow> True | OpWaiting _ \<Rightarrow> True | OpClear _ \<Rightarrow> True
     | OpMark p \<Rightarrow> p = PhaseContainerEntry | OpTouch \<Rightarrow> True | _ \<Rightarrow> False)"

definition x_env :: "time \<Rightarrow> rlabel \<Rightarrow> exec \<Rightarrow> exec option" where
  "x_env now l x = (case l of
     LDog _ \<Rightarrow> if x_watch x \<noteq> WNone then Some (x\<lparr>x_wd := wd_turn now (x_wd x)\<rparr>) else None
   | LApi _ op \<Rightarrow> if api_op op
       then Some ((x_upd (run_exec now now op) x)
              \<lparr>x_wd := (if op = OpTouch \<and> r_touch (x_run x) then wd_Touch now (x_wd x) else x_wd x)\<rparr>)
       else None
   | LNotify _ \<Rightarrow> if 0 < r_pending (x_run x) then Some (x_upd (\<lambda>r. notifyChange (r\<lparr>r_pending := r_pending r - 1\<rparr>)) x) else None
   | LOutput _ line \<Rightarrow> if x_pc x \<in> {XRunning, XExited, XKilled, XStreams}
       then Some ((x_upd (AppendOutput now line) x)\<lparr>x_wd := wd_Touch now (x_wd x)\<rparr>) else None
   | LExit _ res \<Rightarrow> if x_pc x = XRunning \<and> res \<noteq> WaitExit 0 then Some (x\<lparr>x_wait := Some res, x_pc := XExited\<rparr>) else None
   | LDrained _ \<Rightarrow> if x_pc x = XStreams
       then (case base_outcome (x_wait x) of (st, code, err) \<Rightarrow> Some (x_goto (XIdle st code err) x)) else None
   | LDeadline _ \<Rightarrow> (case x_ctx x of CtxLive (Some d) \<Rightarrow> if d \<le> now then Some (x\<lparr>x_ctx := CtxDeadline\<rparr>) else None | _ \<Rightarrow> None)
   | LParent _ \<Rightarrow> (case x_ctx x of CtxLive _ \<Rightarrow> Some (x\<lparr>x_ctx := CtxCanceled\<rparr>) | _ \<Rightarrow> None)
   | LWatch _ sel \<Rightarrow> watch_next sel x
   | _ \<Rightarrow> None)"

definition on_ex :: "nat \<Rightarrow> (exec \<Rightarrow> exec option) \<Rightarrow> rworld \<Rightarrow> rworld option" where
  "on_ex i f w = (if i < length (rw_ex w) then map_option (\<lambda>x. set_ex i x w) (f (rw_ex w ! i)) else None)"

fun label_ex :: "rlabel \<Rightarrow> nat" where
  "label_ex (LWatch i sel) = i"
| "label_ex (LDog i) = i"
| "label_ex (LApi i op) = i"
| "label_ex (LNotify i) = i"
| "label_ex (LOutput i line) = i"
| "label_ex (LExit i res) = i"
| "label_ex (LDrained i) = i"
| "label_ex (LDeadline i) = i"
| "label_ex (LParent i) = i"
| "label_ex _ = 0"

definition rw_next :: "exec_conf \<Rightarrow> rlabel \<Rightarrow> rworld \<Rightarrow> rworld option" where
  "rw_next c l w = (case l of
     LStart rid onFin onChg h title ph pr ans \<Rightarrow>
       Some (w\<lparr>rw_ex := rw_ex w @ [runner_start (rw_now w) (rw_draining w) rid onFin onChg h title ph pr ans]\<rparr>)
   | LShutdown \<Rightarrow> Some (w\<lparr>rw_draining := True\<rparr>)
   | LTick d \<Rightarrow> Some (w\<lparr>rw_now := rw_now w + int d\<rparr>)
   | LMain i sel \<Rightarrow> if i < length (rw_ex w) then main_next c sel i w else None
   | LReload cfg \<Rightarrow> Some (set_groups c (mgr_Update cfg (rw_groups w)) w)
   | LLimit g n \<Rightarrow> Some (set_groups c (snd (SetLimitOverride g n (rw_groups w))) w)
   | LClearLimit g \<Rightarrow> Some (set_groups c (ClearLimitOverride g (rw_groups w)) w)
   | LCap n \<Rightarrow> Some (set_global (gl_mgr (snd (global_SetLimitOverride n (rw_global w)))) w)
   | LClearCap \<Rightarrow> Some (set_global (gl_mgr (global_ClearLimitOverride (rw_global w))) w)
   | _ \<Rightarrow> on_ex (label_ex l) (x_env (rw_now w) l) w)"

definition rw_step :: "exec_conf \<Rightarrow> rworld \<Rightarrow> rworld \<Rightarrow> bool" where
  "rw_step c w w' \<longleftrightarrow> (\<exists>l. rw_next c l w = Some w')"

definition rw_init :: "rworld \<Rightarrow> bool" where
  "rw_init w \<longleftrightarrow> 0 < rw_now w \<and> rw_ex w = [] \<and> (\<exists>cfg. rw_groups w = NewManager cfg) \<and> (\<exists>d. rw_global w = NewGlobal d)"

fun rw_run :: "exec_conf \<Rightarrow> rlabel list \<Rightarrow> rworld \<Rightarrow> rworld option" where
  "rw_run c [] w = Some w"
| "rw_run c (l # ls) w = Option.bind (rw_next c l w) (rw_run c ls)"

lemma rw_run_reach: "rw_run c ls w = Some w' \<Longrightarrow> (rw_step c)\<^sup>*\<^sup>* w w'"
proof (induction ls arbitrary: w)
  case (Cons l ls)
  then obtain w1 where "rw_next c l w = Some w1" "(rw_step c)\<^sup>*\<^sup>* w1 w'" by (auto simp: bind_eq_Some_conv)
  then show ?case by (meson rw_step_def converse_rtranclp_into_rtranclp)
qed simp

end
