(* ===== verification/ExecuteInv.thy ===== *)
theory ExecuteInv
  imports Execute
begin

text \<open>
  The invariant of one execution of the run pipeline (\<open>Execute\<close>): where \<open>Finish\<close> stands at every
  position, how often the observer has been called, which deferred calls are outstanding, what a
  closed channel means and what justifies the status the run ends with; and that every step of the
  execution, of its watcher and of its environment keeps it.
\<close>

subsection \<open>An execution by itself\<close>

lemma x_upd_sels [simp]:
  "x_hook (x_upd f x) = x_hook x" "x_ans (x_upd f x) = x_ans x" "x_run (x_upd f x) = f (x_run x)" "x_pc (x_upd f x) = x_pc x"
  "x_defers (x_upd f x) = x_defers x" "x_group (x_upd f x) = x_group x" "x_global (x_upd f x) = x_global x"
  "x_ctx (x_upd f x) = x_ctx x" "x_wd (x_upd f x) = x_wd x" "x_watch (x_upd f x) = x_watch x" "x_timedOut (x_upd f x) = x_timedOut x"
  "x_deadline (x_upd f x) = x_deadline x" "x_cancelled (x_upd f x) = x_cancelled x" "x_stop (x_upd f x) = x_stop x"
  "x_wait (x_upd f x) = x_wait x" "x_trace (x_upd f x) = x_trace x" "x_spec (x_upd f x) = x_spec x"
  by (simp_all add: x_upd_def)

lemma x_act_sels [simp]:
  "x_hook (x_act a x) = x_hook x" "x_ans (x_act a x) = x_ans x" "x_run (x_act a x) = x_run x" "x_pc (x_act a x) = x_pc x"
  "x_defers (x_act a x) = x_defers x" "x_group (x_act a x) = x_group x" "x_global (x_act a x) = x_global x"
  "x_ctx (x_act a x) = x_ctx x" "x_wd (x_act a x) = x_wd x" "x_watch (x_act a x) = x_watch x" "x_timedOut (x_act a x) = x_timedOut x"
  "x_deadline (x_act a x) = x_deadline x" "x_cancelled (x_act a x) = x_cancelled x" "x_stop (x_act a x) = x_stop x"
  "x_wait (x_act a x) = x_wait x" "x_trace (x_act a x) = x_trace x @ [a]" "x_spec (x_act a x) = x_spec x"
  by (simp_all add: x_act_def)

lemma x_event_sels [simp]:
  "x_hook (x_event k m l x) = x_hook x" "x_ans (x_event k m l x) = x_ans x" "x_run (x_event k m l x) = x_run x" "x_pc (x_event k m l x) = x_pc x"
  "x_defers (x_event k m l x) = x_defers x" "x_group (x_event k m l x) = x_group x" "x_global (x_event k m l x) = x_global x"
  "x_ctx (x_event k m l x) = x_ctx x" "x_wd (x_event k m l x) = x_wd x" "x_watch (x_event k m l x) = x_watch x"
  "x_timedOut (x_event k m l x) = x_timedOut x"
  "x_deadline (x_event k m l x) = x_deadline x" "x_cancelled (x_event k m l x) = x_cancelled x" "x_stop (x_event k m l x) = x_stop x"
  "x_wait (x_event k m l x) = x_wait x" "x_spec (x_event k m l x) = x_spec x"
  "count_list (x_trace (x_event k m l x)) AOnFinish = count_list (x_trace x) AOnFinish"
  "ASpawn s \<in> set (x_trace (x_event k m l x)) \<longleftrightarrow> ASpawn s \<in> set (x_trace x)"
  by (simp_all add: x_event_def)

text \<open>What a method of the run other than \<open>Finish\<close> leaves of it.\<close>

definition run_mild :: "run \<Rightarrow> run \<Rightarrow> bool" where
  "run_mild r r' \<longleftrightarrow> life_ok r' \<and> r_fin r' = r_fin r \<and> (r_cancel r \<longrightarrow> r_cancel r') \<and> run_ID r' = run_ID r \<and>
     (r_fin r \<noteq> NotFinishing \<longrightarrow> rs_Status (r_state r') = rs_Status (r_state r))"

lemma run_frame [simp]:
  "r_cancel (markAt p now r) = r_cancel r" "r_cancel (SetRunning now r) = r_cancel r" "r_cancel (SetActivityTouch b r) = r_cancel r"
  "r_cancel (SetOnTerminal b r) = r_cancel r" "r_cancel (ClearWaitingOn now q r) = r_cancel r" "r_cancel (AppendOutput now line r) = r_cancel r"
  "r_cancel (snd (SetWaitingOn now now' W r)) = r_cancel r"
  "r_fin (markAt p now r) = r_fin r" "r_fin (SetRunning now r) = r_fin r" "r_fin (SetActivityTouch b r) = r_fin r"
  "r_fin (SetOnTerminal b r) = r_fin r" "r_fin (ClearWaitingOn now q r) = r_fin r" "r_fin (AppendOutput now line r) = r_fin r"
  "r_fin (snd (SetWaitingOn now now' W r)) = r_fin r"
  "rs_CancelRequested (r_state (markAt p now r)) = rs_CancelRequested (r_state r)"
  "rs_CancelRequested (r_state (SetRunning now r)) = rs_CancelRequested (r_state r)"
  "rs_CancelRequested (r_state (SetActivityTouch b r)) = rs_CancelRequested (r_state r)"
  "rs_CancelRequested (r_state (SetOnTerminal b r)) = rs_CancelRequested (r_state r)"
  "rs_CancelRequested (r_state (ClearWaitingOn now q r)) = rs_CancelRequested (r_state r)"
  by (simp_all add: run_op_defs)

lemma run_mild_exec: "life_ok r \<Longrightarrow> 0 < now \<Longrightarrow> run_mild r (run_exec now now' op r)"
  using life_ok_exec [of r now now' op]
  by (cases op) (auto simp: run_mild_def run_exec_def run_op_defs run_ID_def life_ok_def)

lemma run_mild_notify: "life_ok r \<Longrightarrow> run_mild r (notifyChange (r\<lparr>r_pending := n\<rparr>))"
  by (simp add: run_mild_def life_ok_notify run_ID_def)

lemma run_mild_ops:
  assumes "life_ok r" "0 < now"
  shows "run_mild r (markAt p now r)" "run_mild r (SetRunning now r)" "run_mild r (SetActivityTouch b r)" "run_mild r (SetOnTerminal b r)"
    "run_mild r (snd (SetWaitingOn now now W r))" "run_mild r (ClearWaitingOn now q r)" "run_mild r (AppendOutput now line r)"
    "run_mild r (SetTitle title r)" "run_mild r (SetSpawnedBy ph pr r)"
  using run_mild_exec [OF assms, of now "OpMark p"] run_mild_exec [OF assms, of now OpRunning]
    run_mild_exec [OF assms, of now "OpSetTouch b"] run_mild_exec [OF assms, of now "OpSetTerminal b"]
    run_mild_exec [OF assms, of now "OpWaiting W"] run_mild_exec [OF assms, of now "OpClear q"]
    run_mild_exec [OF assms, of now "OpAppend line"] run_mild_exec [OF assms, of now "OpTitle title"]
    run_mild_exec [OF assms, of now "OpSpawnedBy ph pr"]
  by (simp_all add: run_exec_def)

lemma run_mild_life: "run_mild r r' \<Longrightarrow> life_ok r'"
  by (simp add: run_mild_def)

lemma run_mild_trans: "run_mild r r' \<Longrightarrow> run_mild r' r'' \<Longrightarrow> run_mild r r''"
  by (auto simp: run_mild_def)

text \<open>The invariant: where \<open>Finish\<close> has been called, how often the observer was, which deferred calls
  are outstanding, what the channels between the goroutines mean, and why the run ends as it does.\<close>

fun fin_ok :: "xpc \<Rightarrow> run \<Rightarrow> bool" where
  "fin_ok (XFinishing st code err) r = (r_fin r \<noteq> NotFinishing \<and> rs_Status (r_state r) = st)"
| "fin_ok XNotify r = (r_fin r = FinishReturned)"
| "fin_ok XUnwind r = (r_fin r = FinishReturned)"
| "fin_ok XDone r = (r_fin r = FinishReturned)"
| "fin_ok _ r = (r_fin r = NotFinishing)"

abbreviation all_defers :: "deferred list" where
  "all_defers \<equiv> [DSeccomp, DCancel, DGlobal, DGroup, DCleanup, DWaitGroup]"

fun defers_ok :: "xpc \<Rightarrow> deferred list \<Rightarrow> bool" where
  "defers_ok XDone ds = (ds = [])"
| "defers_ok XUnwind ds = (\<exists>k. ds = drop k all_defers)"
| "defers_ok XNotify ds = (\<exists>k. ds = drop k all_defers)"
| "defers_ok (XFinishing st code err) ds = (\<exists>k. ds = drop k all_defers)"
| "defers_ok (XFinish st code err) ds = (\<exists>k. ds = drop k all_defers)"
| "defers_ok XPrepare ds = (ds = drop 2 all_defers)"
| "defers_ok XGlobal ds = (ds = drop 3 all_defers)"
| "defers_ok XAcquireGlobal ds = (ds = drop 3 all_defers)"
| "defers_ok pc ds = (if pc \<in> {XCheck, XSecrets, XSettings, XImage, XRecheck, XAcquire, XGroup} then ds = drop 4 all_defers else ds = all_defers)"

definition chan_ok :: "exec \<Rightarrow> bool" where
  "chan_ok x \<longleftrightarrow> (x_timedOut x \<longrightarrow> wd_fired (x_wd x)) \<and> (x_deadline x \<longrightarrow> x_ctx x = CtxDeadline) \<and>
     (x_cancelled x \<longrightarrow> r_cancel (x_run x)) \<and>
     (x_timedOut x \<or> x_deadline x \<or> x_cancelled x \<longrightarrow> x_watch x \<notin> {WNone, WSelect}) \<and>
     \<not> (x_timedOut x \<and> x_deadline x) \<and> \<not> (x_timedOut x \<and> x_cancelled x) \<and> \<not> (x_deadline x \<and> x_cancelled x) \<and>
     wd_limit (x_wd x) = hc_IdleTimeout (x_hook x) \<and> (wd_fired (x_wd x) \<longrightarrow> 0 < wd_limit (x_wd x)) \<and>
     (\<forall>d. x_ctx x = CtxLive (Some d) \<longrightarrow> 0 < hc_Timeout (x_hook x)) \<and> (x_ctx x = CtxDeadline \<longrightarrow> 0 < hc_Timeout (x_hook x))"

text \<open>What the flags of an execution say about a status; \<open>chan_ok\<close> says what the flags mean.\<close>

definition flagged :: "exec \<Rightarrow> status \<Rightarrow> bool" where
  "flagged x st \<longleftrightarrow>
     (st = StatusCancelled \<and> rs_CancelRequested (r_state (x_run x))) \<or>
     (st = StatusTimeout \<and> (x_timedOut x \<and> 0 < hc_IdleTimeout (x_hook x) \<or> x_deadline x \<and> 0 < hc_Timeout (x_hook x))) \<or>
     (st = StatusSuccess \<and> x_wait x = Some WaitOK) \<or> (st = StatusFailure \<and> (\<exists>n. n \<noteq> 0 \<and> x_wait x = Some (WaitExit n))) \<or>
     (st = StatusError \<and> (x_wait x = None \<or> (\<exists>e. x_wait x = Some (WaitErr e))))"

fun outcome_ok :: "xpc \<Rightarrow> exec \<Rightarrow> bool" where
  "outcome_ok (XIdle st code err) x = (x_wait x \<noteq> None \<and> flagged x st)"
| "outcome_ok (XCeiling st code err) x = (x_wait x \<noteq> None \<and> flagged x st)"
| "outcome_ok (XCancel st code err) x = (x_wait x \<noteq> None \<and> flagged x st)"
| "outcome_ok (XTerm st code err) x = (x_wait x \<noteq> None \<and> flagged x st)"
| "outcome_ok (XFinish st code err) x = flagged x st"
| "outcome_ok (XFinishing st code err) x = flagged x st"
| "outcome_ok XNotify x = flagged x (rs_Status (r_state (x_run x)))"
| "outcome_ok XUnwind x = flagged x (rs_Status (r_state (x_run x)))"
| "outcome_ok XDone x = flagged x (rs_Status (r_state (x_run x)))"
| "outcome_ok pc x = ((x_wait x \<noteq> None \<longleftrightarrow> pc \<in> {XExited, XKilled, XStreams}) \<and> x_wait x \<noteq> Some (WaitExit 0) \<and>
     (x_watch x \<noteq> WNone \<longleftrightarrow> pc \<in> {XRunning, XExited, XKilled, XStreams}))"

definition x_inv :: "exec_conf \<Rightarrow> exec \<Rightarrow> bool" where
  "x_inv c x \<longleftrightarrow> life_ok (x_run x) \<and> fin_ok (x_pc x) (x_run x) \<and>
     count_list (x_trace x) AOnFinish = of_bool (rc_onFinish (ec_rc c) \<and> x_pc x \<in> {XUnwind, XDone}) \<and>
     defers_ok (x_pc x) (x_defers x) \<and> chan_ok x \<and> outcome_ok (x_pc x) x"

lemma outcome_ok_mono:
  assumes "outcome_ok pc x" "x_wait x' = x_wait x" "x_timedOut x \<longrightarrow> x_timedOut x'" "x_deadline x \<longrightarrow> x_deadline x'"
    "x_hook x' = x_hook x" "rs_CancelRequested (r_state (x_run x)) \<longrightarrow> rs_CancelRequested (r_state (x_run x'))"
    "pc \<in> {XNotify, XUnwind, XDone} \<longrightarrow> rs_Status (r_state (x_run x')) = rs_Status (r_state (x_run x))"
    "x_watch x' = WNone \<longleftrightarrow> x_watch x = WNone"
  shows "outcome_ok pc x'"
proof -
  have j: "flagged x st \<Longrightarrow> flagged x' st" for st using assms(2-6) unfolding flagged_def by auto
  show ?thesis using assms(1,2,7,8) j by (cases pc) auto
qed

lemma fin_ok_mild: "fin_ok pc r \<Longrightarrow> run_mild r r' \<Longrightarrow> fin_ok pc r'"
  by (cases pc) (auto simp: run_mild_def)

lemma run_mild_cancel: "life_ok r \<Longrightarrow> run_mild r r' \<Longrightarrow> rs_CancelRequested (r_state r) \<Longrightarrow> rs_CancelRequested (r_state r')"
  by (auto simp: run_mild_def life_ok_def Let_def)

text \<open>Whatever changes only the run (not by \<open>Finish\<close>), the trace (not by \<open>onFinish\<close>), the queue
  observers or the watcher's side keeps the invariant.\<close>

lemma x_inv_mild:
  assumes "x_inv c x" "run_mild (x_run x) (x_run x')" "x_pc x' = x_pc x" "x_defers x' = x_defers x" "x_hook x' = x_hook x"
    "x_wait x' = x_wait x" "count_list (x_trace x') AOnFinish = count_list (x_trace x) AOnFinish" "chan_ok x'"
    "x_timedOut x \<longrightarrow> x_timedOut x'" "x_deadline x \<longrightarrow> x_deadline x'" "x_watch x' = WNone \<longleftrightarrow> x_watch x = WNone"
  shows "x_inv c x'"
proof -
  have l: "life_ok (x_run x)" "fin_ok (x_pc x) (x_run x)" "outcome_ok (x_pc x) x" using assms(1) by (simp_all add: x_inv_def)
  have "outcome_ok (x_pc x) x'"
  proof (rule outcome_ok_mono [OF l(3) assms(6,9,10,5)])
    have "x_pc x \<in> {XNotify, XUnwind, XDone} \<Longrightarrow> r_fin (x_run x) \<noteq> NotFinishing" using l(2) by auto
    then show "x_pc x \<in> {XNotify, XUnwind, XDone} \<longrightarrow> rs_Status (r_state (x_run x')) = rs_Status (r_state (x_run x))"
      using assms(2) by (auto simp: run_mild_def)
  qed (use run_mild_cancel [OF l(1) assms(2)] assms(11) in blast)+
  then show ?thesis using assms fin_ok_mild [OF l(2) assms(2)] unfolding x_inv_def by (simp add: run_mild_life)
qed

lemma chan_ok_cong:
  "chan_ok x \<Longrightarrow> (r_cancel (x_run x) \<longrightarrow> r_cancel (x_run x')) \<Longrightarrow> x_timedOut x' = x_timedOut x \<Longrightarrow> x_deadline x' = x_deadline x \<Longrightarrow>
   x_cancelled x' = x_cancelled x \<Longrightarrow> x_wd x' = x_wd x \<Longrightarrow> x_ctx x' = x_ctx x \<Longrightarrow> x_watch x' = x_watch x \<Longrightarrow> x_hook x' = x_hook x \<Longrightarrow> chan_ok x'"
  unfolding chan_ok_def by (elim conjE, intro conjI) (simp_all, blast?)

lemma run_mild_refl: "life_ok r \<Longrightarrow> run_mild r r"
  by (simp add: run_mild_def)

lemma x_inv_sels:
  assumes "x_inv c x"
  shows "life_ok (x_run x)" "fin_ok (x_pc x) (x_run x)"
    "count_list (x_trace x) AOnFinish = of_bool (rc_onFinish (ec_rc c) \<and> x_pc x \<in> {XUnwind, XDone})"
    "defers_ok (x_pc x) (x_defers x)" "chan_ok x" "outcome_ok (x_pc x) x"
  using assms by (simp_all add: x_inv_def)

text \<open>A step to another position before \<open>Finish\<close>.\<close>

lemma x_inv_goto:
  assumes "x_inv c x" "run_mild (x_run x) (x_run x')" "r_fin (x_run x) = NotFinishing" "fin_ok (x_pc x') (x_run x')"
    "x_pc x \<notin> {XUnwind, XDone}" "x_pc x' \<notin> {XUnwind, XDone}"
    "count_list (x_trace x') AOnFinish = count_list (x_trace x) AOnFinish" "defers_ok (x_pc x') (x_defers x')" "chan_ok x'"
    "outcome_ok (x_pc x') x'"
  shows "x_inv c x'"
  using assms x_inv_sels [OF assms(1)] unfolding x_inv_def by (simp add: run_mild_life)

lemma flagged_cong:
  "x_wait x' = x_wait x \<Longrightarrow> x_timedOut x' = x_timedOut x \<Longrightarrow> x_deadline x' = x_deadline x \<Longrightarrow> x_hook x' = x_hook x \<Longrightarrow>
   rs_CancelRequested (r_state (x_run x')) = rs_CancelRequested (r_state (x_run x)) \<Longrightarrow> flagged x' st = flagged x st"
  by (simp add: flagged_def)

lemma defers_early [simp]: "\<exists>k. [DCleanup, DWaitGroup] = drop k all_defers" "\<exists>k. [DGroup, DCleanup, DWaitGroup] = drop k all_defers"
  "\<exists>k. [DGlobal, DGroup, DCleanup, DWaitGroup] = drop k all_defers" "\<exists>k. [DCancel, DGlobal, DGroup, DCleanup, DWaitGroup] = drop k all_defers"
  "\<exists>k. all_defers = drop k all_defers" "\<exists>k. [] = drop k all_defers"
  by (rule exI [of _ 4], simp, rule exI [of _ 3], simp, rule exI [of _ 2], simp, rule exI [of _ 1], simp, rule exI [of _ 0], simp, rule exI [of _ 6], simp)

lemma life_cancel: "life_ok r \<Longrightarrow> r_cancel r = rs_CancelRequested (r_state r)"
  by (simp add: life_ok_def Let_def)

lemma early_inv:
  assumes "early_next c now x = Some x'" "x_inv c x" "0 < now"
  shows "x_inv c x'"
proof -
  note s = x_inv_sels [OF assms(2)]
  note mild = run_mild_ops [OF s(1) assms(3)] run_mild_refl [OF s(1)]
  note j = life_cancel [OF s(1)]
  show ?thesis
    using assms(1) s
    by (cases "x_pc x")
      (auto simp: early_next_def Let_def flagged_def j intro!: x_inv_goto [OF assms(2)] mild chan_ok_cong [OF s(5)]
        split: sum.splits option.splits if_splits)
qed

lemma prepare_inv:
  assumes "x_pc x = XPrepare" "x_inv c x" "0 < now"
  shows "x_inv c (prepare c now x)"
proof -
  note s = x_inv_sels [OF assms(2)]
  let ?x = "x_upd (markAt PhaseSlotAcquired now) x"
  have nd: "x_watch x = WNone" "x_wait x = None" "r_fin (x_run x) = NotFinishing" "x_defers x = [DGlobal, DGroup, DCleanup, DWaitGroup]"
    using s(2,4,6) assms(1) by simp_all
  have ch: "chan_ok y" if "x_timedOut y = x_timedOut x" "x_deadline y = x_deadline x" "x_cancelled y = x_cancelled x" "x_watch y = x_watch x"
      "x_wd y = x_wd x" "x_hook y = x_hook x" "x_ctx y = runContext now (hc_Timeout (x_hook x))" for y
    using s(5) that nd(1) by (auto simp: chan_ok_def runContext_def)
  show ?thesis unfolding prepare_def Let_def
    by (auto simp: assms(1) nd flagged_def run_frame intro!: x_inv_goto [OF assms(2)] run_mild_ops [OF s(1) assms(3)] ch
        split: sum.splits)
qed

lemma x_inv_next:
  assumes "x_inv c x" "run_mild (x_run x) (x_run x')" "r_fin (x_run x) = NotFinishing" "fin_ok (x_pc x') (x_run x')"
    "x_pc x \<notin> {XUnwind, XDone}" "x_pc x' \<notin> {XUnwind, XDone}"
    "count_list (x_trace x') AOnFinish = count_list (x_trace x) AOnFinish" "defers_ok (x_pc x') (x_defers x')"
    "x_timedOut x' = x_timedOut x" "x_deadline x' = x_deadline x" "x_cancelled x' = x_cancelled x" "x_wd x' = x_wd x"
    "x_ctx x' = x_ctx x" "x_watch x' = x_watch x" "x_hook x' = x_hook x"
    "outcome_ok (x_pc x') x'"
  shows "x_inv c x'"
  using assms(1-8) chan_ok_cong [OF x_inv_sels(5) [OF assms(1)] _ assms(9-15)] assms(2,16)
  by (intro x_inv_goto [OF assms(1)]) (auto simp: run_mild_def)

lemma flagged_goto [simp]: "flagged (x_goto pc x) st = flagged x st"
  by (simp add: flagged_def)

lemma flagged_error: "x_wait x = None \<Longrightarrow> flagged x StatusError"
  by (simp add: flagged_def)

lemma flagged_same [simp]:
  "flagged (x_upd (SetOnTerminal b) x) st = flagged x st" "flagged (x_upd (markAt p now) x) st = flagged x st"
  "flagged (x_event k m l x) st = flagged x st" "flagged (x_act a x) st = flagged x st"
  by (simp_all add: flagged_def)

lemma launch_inv:
  assumes "launch_next c now x = Some x'" "x_inv c x" "0 < now"
  shows "x_inv c x'"
proof -
  note s = x_inv_sels [OF assms(2)]
  note mild = run_mild_ops [OF s(1) assms(3)] run_mild_refl [OF s(1)]
  note nxt = x_inv_next [OF assms(2)]
  show ?thesis
  proof (cases "x_pc x")
    case XPrepare
    then show ?thesis using assms(1) prepare_inv [OF XPrepare assms(2,3)] by (simp add: launch_next_def)
  next
    case XInspect
    then show ?thesis using assms(1) s(2-4,6) mild
      by (auto simp: launch_next_def inspect_command_def set_argv_def flagged_error intro!: nxt split: sum.splits if_splits)
  next
    case XBegin
    then show ?thesis using assms(1) s(2-4,6) mild
      by (auto simp: launch_next_def begin_run_def Let_def intro!: nxt split: if_splits)
  next
    case XPipes
    then show ?thesis using assms(1) s(2-4,6) mild
      by (auto simp: launch_next_def flagged_error intro!: nxt split: option.splits)
  next
    case XStart
    then show ?thesis using assms(1) s(2-4,6) mild
      by (auto simp: launch_next_def flagged_error intro!: nxt split: option.splits)
  next
    case XLaunched
    have two: "run_mild (x_run x) (SetActivityTouch True (SetRunning now (x_run x)))"
      by (rule run_mild_trans [OF mild(2) run_mild_ops(3) [OF run_mild_life [OF mild(2)] assms(3)]])
    have armed: "chan_ok y" if "x_timedOut y = x_timedOut x" "x_deadline y = x_deadline x" "x_cancelled y = x_cancelled x"
        "x_watch y = WSelect" "x_wd y = wd_Arm now (x_wd x)" "x_hook y = x_hook x" "x_ctx y = x_ctx x" for y
      using s(5,6) XLaunched that by (auto simp: chan_ok_def)
    show ?thesis using assms(1) s(2-4,6) two XLaunched
      by (auto simp: launch_next_def intro!: x_inv_goto [OF assms(2)] armed)
  qed (use assms(1) in \<open>simp_all add: launch_next_def\<close>)
qed

lemma outcome_inv:
  assumes "outcome_next c now x = Some x'" "x_inv c x" "0 < now"
  shows "x_inv c x'"
proof -
  note s = x_inv_sels [OF assms(2)]
  note mild = run_mild_ops [OF s(1) assms(3)] run_mild_refl [OF s(1)]
  note nxt = x_inv_next [OF assms(2)]
  have just: "x_timedOut x \<Longrightarrow> flagged x StatusTimeout" "x_deadline x \<Longrightarrow> flagged x StatusTimeout"
      "x_cancelled x \<Longrightarrow> flagged x StatusCancelled"
    using s(5) life_cancel [OF s(1)] by (auto simp: chan_ok_def flagged_def)
  show ?thesis
  proof (cases "x_pc x")
    case XExited
    then show ?thesis using assms(1) s(2-4,6) mild by (auto simp: outcome_next_def intro!: nxt)
  next
    case XKilled
    then show ?thesis using assms(1) s(2-4,6) mild by (auto simp: outcome_next_def intro!: nxt split: if_splits)
  next
    case (XIdle st code err)
    then show ?thesis using assms(1) s(2-4,6) mild just by (auto simp: outcome_next_def intro!: nxt split: if_splits)
  next
    case (XCeiling st code err)
    then show ?thesis using assms(1) s(2-4,6) mild just by (auto simp: outcome_next_def intro!: nxt split: if_splits)
  next
    case (XCancel st code err)
    then show ?thesis using assms(1) s(2-4,6) mild just by (auto simp: outcome_next_def intro!: nxt split: if_splits)
  qed (use assms(1) in \<open>simp_all add: outcome_next_def\<close>)
qed

text \<open>\<open>Finish\<close> and what follows it.\<close>

lemma flagged_Terminal: "flagged x st \<Longrightarrow> Terminal st"
  by (auto simp: flagged_def Terminal_def status_defs)

lemma Finish_section_fin:
  assumes "life_ok r" "r_fin r = NotFinishing" "0 < now" "Terminal st"
  shows "life_ok (Finish_section now st code err r)" "r_fin (Finish_section now st code err r) \<noteq> NotFinishing"
    "rs_Status (r_state (Finish_section now st code err r)) = st"
    "r_cancel (Finish_section now st code err r) = r_cancel r"
    "rs_CancelRequested (r_state (Finish_section now st code err r)) = rs_CancelRequested (r_state r)"
  using assms life_ok_Finish_section [OF assms(1,3,4)] by (simp_all add: Finish_section_def life_ok_def Let_def)

lemma finish_next_fin:
  assumes "life_ok r" "r_fin r \<noteq> NotFinishing"
  shows "life_ok (finish_next r)" "r_fin (finish_next r) \<noteq> NotFinishing" "r_cancel (finish_next r) = r_cancel r"
  using assms life_ok_finish_next [OF assms(1)] by (auto simp: finish_next_def log_event_def split: fin_pc.splits)

lemma finishing_inv:
  assumes "x_pc x = XFinishing st code err" "x_inv c x"
  shows "x_inv c (finishing_step c st code err x)"
proof -
  note s = x_inv_sels [OF assms(2)]
  have f: "r_fin (x_run x) \<noteq> NotFinishing" "rs_Status (r_state (x_run x)) = st" "flagged x st" using s(2,6) assms(1) by simp_all
  note fn = finish_next_fin [OF s(1) f(1)]
  have j: "flagged y st" if "x_wait y = x_wait x" "x_timedOut y = x_timedOut x" "x_deadline y = x_deadline x" "x_hook y = x_hook x"
      "r_state (x_run y) = r_state (x_run x)" for y using f(3) that by (simp add: flagged_def)
  have ch: "chan_ok y" if "r_cancel (x_run y) = r_cancel (x_run x)" "x_timedOut y = x_timedOut x" "x_deadline y = x_deadline x"
      "x_cancelled y = x_cancelled x" "x_wd y = x_wd x" "x_ctx y = x_ctx x" "x_watch y = x_watch x" "x_hook y = x_hook x" for y
    by (rule chan_ok_cong [OF s(5)]) (simp_all add: that)
  show ?thesis
    using s(3,4) f fn s(1) unfolding finishing_step_def Let_def x_inv_def
    by (simp add: assms(1) j ch)
qed

lemma chan_ok_canceled: "chan_ok x \<Longrightarrow> x_ctx x = CtxLive d \<Longrightarrow> chan_ok (x\<lparr>x_ctx := CtxCanceled\<rparr>)"
  unfolding chan_ok_def by (elim conjE) simp

lemma finish_inv:
  assumes "finish_next_pc c now x = Some x'" "x_inv c x" "0 < now"
  shows "x_inv c x'"
proof -
  note s = x_inv_sels [OF assms(2)]
  show ?thesis
  proof (cases "x_pc x")
    case (XTerm st code err)
    then show ?thesis using assms(1) s(2-4,6) run_mild_ops(4) [OF s(1) assms(3)]
      by (auto simp: finish_next_pc_def intro!: x_inv_next [OF assms(2)])
  next
    case (XFinish st code err)
    then have f: "r_fin (x_run x) = NotFinishing" "flagged x st" "rs_Finished (r_state (x_run x)) = 0"
      using s(1,2,6) by (simp_all add: life_ok_def Let_def)
    note fs = Finish_section_fin [OF s(1) f(1) assms(3) flagged_Terminal [OF f(2)]]
    have ch: "chan_ok (x_goto (XFinishing st code err) (x_upd (Finish_section now st code err) x))"
      by (rule chan_ok_cong [OF s(5)]) (simp_all add: fs)
    have "flagged (x_goto (XFinishing st code err) (x_upd (Finish_section now st code err) x)) st"
      using f(2) by (simp add: flagged_def fs)
    moreover have "x' = x_goto (XFinishing st code err) (x_upd (Finish_section now st code err) x)"
      using assms(1) XFinish f(3) by (simp add: finish_next_pc_def)
    ultimately show ?thesis using XFinish s(3,4) fs ch by (simp add: x_inv_def)
  next
    case (XFinishing st code err)
    then show ?thesis using assms(1) finishing_inv [OF XFinishing assms(2)] by (simp add: finish_next_pc_def)
  next
    case XNotify
    have ch: "chan_ok (x_goto XUnwind x)" "chan_ok (x_goto XUnwind (x_act AOnFinish x))" by (rule chan_ok_cong [OF s(5)]; simp)+
    from XNotify show ?thesis using assms(1) s(1-4,6) ch
      by (auto simp: finish_next_pc_def x_inv_def split: if_splits)
  next
    case XUnwind
    have ch: "chan_ok y" if "x_run y = x_run x" "x_timedOut y = x_timedOut x" "x_deadline y = x_deadline x"
      "x_cancelled y = x_cancelled x" "x_wd y = x_wd x" "x_ctx y = x_ctx x \<or> (\<exists>d. x_ctx x = CtxLive d) \<and> x_ctx y = CtxCanceled"
      "x_watch y = x_watch x" "x_hook y = x_hook x" for y
      using that(6)
    proof (elim disjE exE conjE)
      assume "x_ctx y = x_ctx x"
      then show ?thesis by (intro chan_ok_cong [OF s(5)]) (simp_all add: that)
    next
      fix d assume d: "x_ctx x = CtxLive d" "x_ctx y = CtxCanceled"
      show ?thesis by (rule chan_ok_cong [OF chan_ok_canceled [OF s(5) d(1)]]) (simp_all add: that(1-5,7,8) d)
    qed
    have j: "flagged y st = flagged x st" if "x_run y = x_run x" "x_wait y = x_wait x" "x_timedOut y = x_timedOut x"
      "x_deadline y = x_deadline x" "x_hook y = x_hook x" for y st using that by (simp add: flagged_def)
    obtain k where "x_defers x = drop k all_defers" using s(4) XUnwind by auto
    then have tl: "x_defers x = d # ds \<Longrightarrow> \<exists>k. ds = drop k all_defers" for d ds
      by (metis drop_Suc list.sel(3) tl_drop)
    have un: "x_inv c y" if "x_run y = x_run x" "x_timedOut y = x_timedOut x" "x_deadline y = x_deadline x"
      "x_cancelled y = x_cancelled x" "x_wd y = x_wd x" "x_ctx y = x_ctx x \<or> (\<exists>d. x_ctx x = CtxLive d) \<and> x_ctx y = CtxCanceled"
      "x_watch y = x_watch x" "x_hook y = x_hook x" "x_wait y = x_wait x"
      "count_list (x_trace y) AOnFinish = count_list (x_trace x) AOnFinish"
      "x_pc y = XUnwind \<and> (\<exists>k. x_defers y = drop k all_defers) \<or> x_pc y = XDone \<and> x_defers y = []" for y
      using s(1-3,6) XUnwind ch [OF that(1-8)] j [OF that(1,9,2,3,8)] that(1,10,11) by (auto simp: x_inv_def)
    show ?thesis
    proof (cases "x_defers x")
      case Nil
      then show ?thesis using assms(1) XUnwind by (auto simp: finish_next_pc_def intro!: un)
    next
      case (Cons d ds)
      then show ?thesis using assms(1) XUnwind tl [OF Cons]
        by (cases d) (auto simp: finish_next_pc_def intro!: un split: ctx_state.splits if_splits)
    qed
  qed (use assms(1) in \<open>simp_all add: finish_next_pc_def\<close>)
qed

lemma local_inv: "local_next c now x = Some x' \<Longrightarrow> x_inv c x \<Longrightarrow> 0 < now \<Longrightarrow> x_inv c x'"
  unfolding local_next_def
  by (auto intro: early_inv launch_inv outcome_inv finish_inv split: option.splits)

end
