(* ===== verification/ExecuteSlots.thy ===== *)
theory ExecuteSlots
  imports ExecuteInv
begin

text \<open>
  The runner's world (\<open>Execute\<close>): what the environment, the notes of the concurrency managers and the
  acquisition and release of slots leave of an execution, and the invariant that ties every
  execution to its threads in the two managers.
\<close>

subsection \<open>The environment of an execution\<close>

lemma chan_ok_wd:
  assumes "chan_ok x" "wd_limit wd = wd_limit (x_wd x)" "wd_fired (x_wd x) \<longrightarrow> wd_fired wd" "wd_fired wd \<longrightarrow> 0 < wd_limit wd"
  shows "chan_ok (x\<lparr>x_wd := wd\<rparr>)"
  using assms unfolding chan_ok_def by (elim conjE) simp

lemma wd_turn_fired: "wd_fired (wd_turn now w) \<Longrightarrow> \<not> wd_fired w \<Longrightarrow> 0 < wd_limit w"
  by (auto simp: wd_turn_def wd_check_def split: if_splits)

lemma wd_turn_keeps: "wd_fired w \<Longrightarrow> wd_fired (wd_turn now w)"
  by (simp add: wd_turn_def)

lemma x_inv_run:
  assumes "x_inv c x" "run_mild (x_run x) (f (x_run x))"
  shows "x_inv c (x_upd f x)"
proof -
  have "chan_ok (x_upd f x)"
    by (rule chan_ok_cong [OF x_inv_sels(5) [OF assms(1)]]) (use assms(2) in \<open>simp_all add: run_mild_def\<close>)
  then show ?thesis by (intro x_inv_mild [OF assms(1)]) (simp_all add: assms(2))
qed

lemma x_inv_wd:
  assumes "x_inv c x" "wd_limit wd = wd_limit (x_wd x)" "wd_fired (x_wd x) \<longrightarrow> wd_fired wd" "wd_fired wd \<longrightarrow> 0 < wd_limit wd"
  shows "x_inv c (x\<lparr>x_wd := wd\<rparr>)"
  by (intro x_inv_mild [OF assms(1)] chan_ok_wd assms(2-4) x_inv_sels [OF assms(1)])
     (simp_all add: run_mild_refl x_inv_sels(1) [OF assms(1)])

lemma x_inv_fired: "x_inv c x \<Longrightarrow> wd_fired (x_wd x) \<longrightarrow> 0 < wd_limit (x_wd x)"
  unfolding x_inv_def chan_ok_def by (elim conjE)

lemma watch_inv:
  assumes "watch_next sel x = Some x'" "x_inv c x"
  shows "x_inv c x'"
proof -
  note s = x_inv_sels [OF assms(2)]
  have mild: "x_inv c y" if "x_run y = x_run x" "x_pc y = x_pc x" "x_defers y = x_defers x" "x_hook y = x_hook x" "x_wait y = x_wait x"
      "count_list (x_trace y) AOnFinish = count_list (x_trace x) AOnFinish" "chan_ok y" "x_timedOut x \<longrightarrow> x_timedOut y"
      "x_deadline x \<longrightarrow> x_deadline y" "x_watch y = WNone \<longleftrightarrow> x_watch x = WNone" for y
    by (rule x_inv_mild [OF assms(2)]) (simp_all add: that run_mild_refl s(1))
  show ?thesis
  proof (cases "x_watch x")
    case WSelect
    then have no: "\<not> x_timedOut x" "\<not> x_deadline x" "\<not> x_cancelled x" using s(5) by (simp_all add: chan_ok_def)
    from WSelect no show ?thesis using assms(1) s(5)
      by (auto simp: watch_next_def chan_ok_def intro!: mild split: wsel.splits ctx_state.splits if_splits)
  next
    case (WKilling g)
    have "chan_ok (x_act a x\<lparr>x_watch := WWaiting\<rparr>)" for a using s(5) WKilling by (auto simp: chan_ok_def)
    then show ?thesis using assms(1) WKilling by (auto simp: watch_next_def intro!: mild)
  next
    case WWaiting
    have "chan_ok (x\<lparr>x_watch := WReturned\<rparr>)" using s(5) WWaiting by (auto simp: chan_ok_def)
    then show ?thesis using assms(1) WWaiting by (auto simp: watch_next_def intro!: mild split: if_splits)
  qed (use assms(1) in \<open>simp_all add: watch_next_def\<close>)
qed

lemma env_inv:
  assumes "x_env now l x = Some x'" "x_inv c x" "0 < now"
  shows "x_inv c x'"
proof (cases l)
  case (LDog i)
  have "wd_fired (wd_turn now (x_wd x)) \<longrightarrow> 0 < wd_limit (x_wd x)"
    using wd_turn_fired x_inv_fired [OF assms(2)] by blast
  then show ?thesis using assms(1,2) LDog by (auto simp: x_env_def wd_turn_keeps intro!: x_inv_wd split: if_splits)
next
  case (LApi i op)
  have "x_inv c (x_upd (run_exec now now op) x)"
    by (intro x_inv_run assms(2) run_mild_exec x_inv_sels(1) [OF assms(2)] assms(3))
  then show ?thesis using assms(1) LApi x_inv_fired [OF assms(2)]
    by (auto simp: x_env_def intro!: x_inv_wd split: if_splits)
next
  case (LNotify i)
  then show ?thesis using assms(1) run_mild_notify [OF x_inv_sels(1) [OF assms(2)]]
    by (auto simp: x_env_def intro!: x_inv_run assms(2) split: if_splits)
next
  case (LOutput i line)
  have "x_inv c (x_upd (AppendOutput now line) x)"
    by (intro x_inv_run assms(2) run_mild_ops(7) x_inv_sels(1) [OF assms(2)] assms(3))
  then show ?thesis using assms(1) LOutput x_inv_fired [OF assms(2)]
    by (auto simp: x_env_def intro!: x_inv_wd split: if_splits)
next
  case (LExit i res)
  then have x': "x_pc x = XRunning" "x' = x\<lparr>x_wait := Some res, x_pc := XExited\<rparr>" "res \<noteq> WaitExit 0" using assms(1) by (auto simp: x_env_def split: if_splits)
  note s = x_inv_sels [OF assms(2)]
  have "chan_ok x'" unfolding x'(2) by (rule chan_ok_cong [OF s(5)]) simp_all
  then show ?thesis using s(1-4,6) x'(1,3) unfolding x'(2) x_inv_def by simp
next
  case (LDrained i)
  obtain st code err where b: "base_outcome (x_wait x) = (st, code, err)" by (cases "base_outcome (x_wait x)")
  then have x': "x_pc x = XStreams" "x' = x_goto (XIdle st code err) x" using assms(1) LDrained by (auto simp: x_env_def split: if_splits)
  note s = x_inv_sels [OF assms(2)]
  have "flagged x st" using s(6) x'(1) b by (auto simp: base_outcome_def flagged_def split: wait_res.splits)
  moreover have "chan_ok x'" unfolding x'(2) by (rule chan_ok_cong [OF s(5)]) simp_all
  ultimately show ?thesis using s(1-4,6) x'(1) unfolding x'(2) x_inv_def by simp
next
  case (LDeadline i)
  then obtain d where x': "x_ctx x = CtxLive (Some d)" "x' = x\<lparr>x_ctx := CtxDeadline\<rparr>"
    using assms(1) by (auto simp: x_env_def split: ctx_state.splits option.splits if_splits)
  have "chan_ok x'" using x_inv_sels(5) [OF assms(2)] x' by (auto simp: chan_ok_def)
  then show ?thesis unfolding x'(2)
    by (intro x_inv_mild [OF assms(2)]) (simp_all add: run_mild_refl x_inv_sels(1) [OF assms(2)])
next
  case (LParent i)
  then obtain d where x': "x_ctx x = CtxLive d" "x' = x\<lparr>x_ctx := CtxCanceled\<rparr>"
    using assms(1) by (auto simp: x_env_def split: ctx_state.splits)
  show ?thesis unfolding x'(2)
    by (intro x_inv_mild [OF assms(2)] chan_ok_canceled [OF x_inv_sels(5) [OF assms(2)] x'(1)])
       (simp_all add: run_mild_refl x_inv_sels(1) [OF assms(2)])
next
  case (LWatch i sel)
  then show ?thesis using assms(1) watch_inv [OF _ assms(2)] by (simp add: x_env_def)
qed (use assms(1) in \<open>simp_all add: x_env_def\<close>)

subsection \<open>Notes of the managers\<close>

definition x_noted :: "exec \<Rightarrow> exec \<Rightarrow> bool" where
  "x_noted x y \<longleftrightarrow> run_mild (x_run x) (x_run y) \<and> x_pc y = x_pc x \<and> x_defers y = x_defers x \<and> x_hook y = x_hook x \<and> x_wait y = x_wait x \<and>
     x_group y = x_group x \<and> x_global y = x_global x \<and> x_timedOut y = x_timedOut x \<and> x_deadline y = x_deadline x \<and>
     x_cancelled y = x_cancelled x \<and> x_wd y = x_wd x \<and> x_ctx y = x_ctx x \<and> x_watch y = x_watch x \<and>
     count_list (x_trace y) AOnFinish = count_list (x_trace x) AOnFinish \<and> (\<forall>a. ASpawn a \<in> set (x_trace y) \<longleftrightarrow> ASpawn a \<in> set (x_trace x))"

lemma x_noted_refl: "life_ok (x_run x) \<Longrightarrow> x_noted x x"
  by (simp add: x_noted_def run_mild_refl)

lemma x_noted_trans: "x_noted x y \<Longrightarrow> x_noted y z \<Longrightarrow> x_noted x z"
  unfolding x_noted_def by (auto intro: run_mild_trans)

lemma on_queue_noted:
  assumes "life_ok (x_run x)" "0 < now" "on_queue now key msg qs (ob, x) = (ob', y)"
  shows "x_noted x y"
proof -
  obtain seq r where sw: "SetWaitingOn now now \<lparr>w_Kind = WaitingOnGroup, w_Reason = [], w_Until = 0, w_Key = key, w_HolderRunID = [],
      w_HolderHookID = [], w_HolderRunIDs = qs_Holders qs, w_Position = int (qs_Position qs)\<rparr> (x_run x) = (seq, r)"
    by (cases "SetWaitingOn now now \<lparr>w_Kind = WaitingOnGroup, w_Reason = [], w_Until = 0, w_Key = key, w_HolderRunID = [],
      w_HolderHookID = [], w_HolderRunIDs = qs_Holders qs, w_Position = int (qs_Position qs)\<rparr> (x_run x)")
  have "run_mild (x_run x) r" using run_mild_ops(5) [OF assms(1,2)] sw by (metis snd_conv)
  then show ?thesis using assms(3) sw run_mild_refl [OF assms(1)]
    by (auto simp: on_queue_def x_noted_def Let_def split: if_splits)
qed

lemma group_note_noted: "life_ok (x_run x) \<Longrightarrow> 0 < now \<Longrightarrow> x_noted x (group_note c now n x)"
  unfolding group_note_def
  using on_queue_noted by (auto simp: x_noted_refl Let_def x_noted_def [of x "_\<lparr>x_gobs := _\<rparr>"] split: prod.splits)
    (auto simp: x_noted_def dest: on_queue_noted)

lemma global_note_noted: "life_ok (x_run x) \<Longrightarrow> 0 < now \<Longrightarrow> x_noted x (global_note now n x)"
  unfolding global_note_def
  using on_queue_noted by (auto simp: x_noted_refl Let_def x_noted_def [of x "_\<lparr>x_cobs := _\<rparr>"] split: prod.splits)
    (auto simp: x_noted_def dest: on_queue_noted)

lemma fold_noted:
  assumes "\<And>n x. life_ok (x_run x) \<Longrightarrow> x_noted x (f n x)" "life_ok (x_run x)"
  shows "x_noted x (fold f ns x)"
  using assms(2)
proof (induction ns arbitrary: x)
  case (Cons n ns)
  have "x_noted x (f n x)" using assms(1) Cons.prems by blast
  moreover from this have "life_ok (x_run (f n x))" by (auto simp: x_noted_def dest: run_mild_life)
  ultimately show ?case using Cons.IH x_noted_trans by auto
qed (simp add: x_noted_refl)

lemma x_inv_noted: "x_inv c x \<Longrightarrow> x_noted x y \<Longrightarrow> x_inv c y"
proof -
  assume a: "x_inv c x" "x_noted x y"
  have "chan_ok y" by (rule chan_ok_cong [OF x_inv_sels(5) [OF a(1)]]) (use a(2) in \<open>simp_all add: x_noted_def run_mild_def\<close>)
  then show ?thesis by (rule_tac x_inv_mild [OF a(1)]) (use a(2) in \<open>simp_all add: x_noted_def\<close>)
qed

subsection \<open>Slots\<close>

text \<open>The call of \<open>Acquire\<close> an execution makes is for its own group and run.\<close>

fun th_for :: "string \<Rightarrow> string \<Rightarrow> pc \<Rightarrow> bool" where
  "th_for g r (Arm g' r' p) = (g' = g \<and> r' = r)"
| "th_for g r (Wait g' r' p) = (g' = g \<and> r' = r)"
| "th_for g r (Sent g' r' p) = (g' = g \<and> r' = r)"
| "th_for g r (SentDec g' r' p) = (g' = g \<and> r' = r)"
| "th_for g r (CancelSeen g' r' p) = (g' = g \<and> r' = r)"
| "th_for g r (CancelDec g' r') = (g' = g \<and> r' = r)"
| "th_for g r (RetireSeen g' r' p) = (g' = g \<and> r' = r)"
| "th_for g r (RetireDec g' r') = (g' = g \<and> r' = r)"
| "th_for g r (Holding g' r' p) = (g' = g \<and> r' = r)"
| "th_for g r (Released g' r') = (g' = g \<and> r' = r)"
| "th_for g r Unbounded = (g = [])"
| "th_for g r _ = True"

fun th_kept :: "pc \<Rightarrow> bool" where
  "th_kept (Holding g r p) = True" | "th_kept Unbounded = True" | "th_kept _ = False"

fun th_freed :: "pc \<Rightarrow> bool" where
  "th_freed (Released g r) = True" | "th_freed Finished = True" | "th_freed _ = False"

fun th_ended :: "pc \<Rightarrow> bool" where
  "th_ended Finished = True" | "th_ended Unbounded = True" | "th_ended NotAcquired = True" | "th_ended (Failed e) = True" | "th_ended _ = False"

fun th_cancelled :: "pc \<Rightarrow> bool" where
  "th_cancelled (CancelSeen g r p) = True" | "th_cancelled (CancelDec g r) = True" | "th_cancelled NotAcquired = True" | "th_cancelled _ = False"

definition slot_ok :: "deferred \<Rightarrow> xpc \<Rightarrow> xpc \<Rightarrow> deferred list \<Rightarrow> nat option \<Rightarrow> string \<Rightarrow> string \<Rightarrow> bool \<Rightarrow> pc list \<Rightarrow> bool" where
  "slot_ok d q pc ds ot g r b thr = (case ot of
     None \<Rightarrow> d \<notin> set ds \<and> pc \<noteq> q
   | Some t \<Rightarrow> t < length thr \<and> th_for g r (thr ! t) \<and> (th_cancelled (thr ! t) \<longrightarrow> b) \<and>
       (pc \<noteq> q \<longrightarrow> (if d \<in> set ds then th_kept (thr ! t) \<or> pc = XUnwind \<and> hd ds = d \<and> th_freed (thr ! t) else th_ended (thr ! t))) \<and>
       (pc = q \<longrightarrow> \<not> th_freed (thr ! t)))"

lemma acquire_next_thr:
  assumes "acquire_next sel now b t m = Some m'" "t < length (m_thr m)"
  shows "thr_step t m m'" "\<exists>k. m_thr m' = (m_thr m)[t := k] \<and> (th_for g r (m_thr m ! t) \<longrightarrow> th_for g r k) \<and>
    \<not> th_freed k \<and> (th_cancelled k \<longrightarrow> b \<or> th_cancelled (m_thr m ! t))"
proof -
  show "thr_step t m m'" using assms(1) thr_step.send [of m t]
    by (auto simp: acquire_next_def split: pc.splits gsel.splits if_splits intro: thr_step.intros)
  show "\<exists>k. m_thr m' = (m_thr m)[t := k] \<and> (th_for g r (m_thr m ! t) \<longrightarrow> th_for g r k) \<and> \<not> th_freed k \<and> (th_cancelled k \<longrightarrow> b \<or> th_cancelled (m_thr m ! t))"
    using assms(1) by (auto simp: acquire_next_def section_defs split: pc.splits gsel.splits if_splits option.splits)
qed

lemma release_next_thr:
  assumes "release_next t m = Some m'" "t < length (m_thr m)"
  shows "thr_step t m m'" "\<exists>k. m_thr m' = (m_thr m)[t := k] \<and> (th_for g r (m_thr m ! t) \<longrightarrow> th_for g r k) \<and> th_freed k"
proof -
  show "thr_step t m m'" using assms(1) thr_step.recv [of m t]
    by (auto simp: release_next_def split: pc.splits if_splits intro: thr_step.intros)
  show "\<exists>k. m_thr m' = (m_thr m)[t := k] \<and> (th_for g r (m_thr m ! t) \<longrightarrow> th_for g r k) \<and> th_freed k"
    using assms(1) by (auto simp: release_next_def section_defs split: pc.splits if_splits)
qed

lemma acquire_enter_thr: "\<exists>k. m_thr (acquire_enter g r ntf now m) = m_thr m @ [k] \<and> th_for g r k \<and> \<not> th_cancelled k \<and> \<not> th_freed k"
  by (auto simp: acquire_enter_def Let_def split: option.splits)


text \<open>A thread of the manager that belongs to another execution is untouched.\<close>

lemma slot_ok_other:
  "slot_ok d q pc ds ot g r b thr \<Longrightarrow> ot \<noteq> Some t \<Longrightarrow> slot_ok d q pc ds ot g r b (thr[t := k])"
  by (auto simp: slot_ok_def split: option.splits)

lemma slot_ok_append: "slot_ok d q pc ds ot g r b thr \<Longrightarrow> slot_ok d q pc ds ot g r b (thr @ ks)"
  by (auto simp: slot_ok_def nth_append split: option.splits if_splits)

definition slots_ok :: "mgr \<Rightarrow> mgr \<Rightarrow> exec \<Rightarrow> bool" where
  "slots_ok gm cm x \<longleftrightarrow>
     slot_ok DGroup XGroup (x_pc x) (x_defers x) (x_group x) (hc_ConcurrencyGroup (x_hook x)) (x_ID x) (r_cancel (x_run x)) (m_thr gm) \<and>
     slot_ok DGlobal XGlobal (x_pc x) (x_defers x) (x_global x) globalGroup (x_ID x) (r_cancel (x_run x)) (m_thr cm)"

definition apart :: "('a \<Rightarrow> nat option) \<Rightarrow> 'a list \<Rightarrow> bool" where
  "apart f xs \<longleftrightarrow> (\<forall>i j t. i < length xs \<longrightarrow> j < length xs \<longrightarrow> f (xs ! i) = Some t \<longrightarrow> f (xs ! j) = Some t \<longrightarrow> i = j)"

lemma apart_update: "apart f xs \<Longrightarrow> f y = f (xs ! i) \<Longrightarrow> apart f (xs[i := y])"
proof (cases "i < length xs")
  case True
  moreover assume "apart f xs" "f y = f (xs ! i)"
  ultimately show ?thesis unfolding apart_def by (metis length_list_update nth_list_update)
qed (simp add: list_update_beyond)

lemma apart_fresh: "apart f xs \<Longrightarrow> (\<And>x. x \<in> set xs \<Longrightarrow> f x \<noteq> f y) \<Longrightarrow> apart f (xs[i := y])"
proof (cases "i < length xs")
  case True
  moreover assume "apart f xs" "\<And>x. x \<in> set xs \<Longrightarrow> f x \<noteq> f y"
  ultimately show ?thesis unfolding apart_def by (metis length_list_update nth_list_update nth_mem)
qed (simp add: list_update_beyond)

lemma apart_map: "apart f xs \<Longrightarrow> (\<And>x. x \<in> set xs \<Longrightarrow> f (h x) = f x) \<Longrightarrow> apart f (map h xs)"
  unfolding apart_def by auto

lemma apart_snoc: "apart f xs \<Longrightarrow> f y = None \<Longrightarrow> apart f (xs @ [y])"
  unfolding apart_def by (auto simp: nth_append less_Suc_eq)

definition rw_inv :: "exec_conf \<Rightarrow> rworld \<Rightarrow> bool" where
  "rw_inv c w \<longleftrightarrow> 0 < rw_now w \<and> (\<exists>cfg. mgr_step\<^sup>*\<^sup>* (NewManager cfg) (rw_groups w)) \<and> (\<exists>d. global_step\<^sup>*\<^sup>* (NewGlobal d) (rw_global w)) \<and>
     (\<forall>x \<in> set (rw_ex w). x_inv c x \<and> slots_ok (rw_groups w) (gl_mgr (rw_global w)) x) \<and>
     apart x_group (rw_ex w) \<and> apart x_global (rw_ex w)"

subsection \<open>The world keeps the invariant\<close>

lemma rw_invD:
  assumes "rw_inv c w"
  shows "0 < rw_now w" "\<exists>cfg. mgr_step\<^sup>*\<^sup>* (NewManager cfg) (rw_groups w)" "\<exists>d. global_step\<^sup>*\<^sup>* (NewGlobal d) (rw_global w)"
    "i < length (rw_ex w) \<Longrightarrow> x_inv c (rw_ex w ! i)"
    "i < length (rw_ex w) \<Longrightarrow> slots_ok (rw_groups w) (gl_mgr (rw_global w)) (rw_ex w ! i)"
    "apart x_group (rw_ex w)" "apart x_global (rw_ex w)"
  using assms by (auto simp: rw_inv_def)

lemma slots_ok_noted: "slots_ok gm cm x \<Longrightarrow> x_noted x y \<Longrightarrow> slots_ok gm cm y"
  unfolding slots_ok_def x_noted_def slot_ok_def run_mild_def by (auto split: option.splits)

lemma noted_world:
  assumes "rw_inv c w" "\<And>x. life_ok (x_run x) \<Longrightarrow> x_noted x (h x)"
  shows "rw_inv c (w\<lparr>rw_ex := map h (rw_ex w)\<rparr>)"
proof -
  have n: "x_noted x (h x)" if "x \<in> set (rw_ex w)" for x
    using assms that by (auto simp: rw_inv_def dest: x_inv_sels(1))
  then have "x_group (h x) = x_group x" "x_global (h x) = x_global x" if "x \<in> set (rw_ex w)" for x
    using that by (simp_all add: x_noted_def)
  then show ?thesis using assms(1) n
    by (auto simp: rw_inv_def intro: x_inv_noted slots_ok_noted intro!: apart_map)
qed

lemma set_groups_I: "rw_inv c (w\<lparr>rw_groups := m\<rparr>) \<Longrightarrow> rw_inv c (set_groups c m w)"
proof -
  assume a: "rw_inv c (w\<lparr>rw_groups := m\<rparr>)"
  then have "0 < rw_now w" by (simp add: rw_inv_def)
  from noted_world [OF a fold_noted [OF group_note_noted [OF _ this]]] show ?thesis
    by (simp add: set_groups_def)
qed

lemma set_global_I: "rw_inv c (w\<lparr>rw_global := (rw_global w)\<lparr>gl_mgr := m\<rparr>\<rparr>) \<Longrightarrow> rw_inv c (set_global m w)"
proof -
  assume a: "rw_inv c (w\<lparr>rw_global := (rw_global w)\<lparr>gl_mgr := m\<rparr>\<rparr>)"
  then have "0 < rw_now w" by (simp add: rw_inv_def)
  from noted_world [OF a fold_noted [OF global_note_noted [OF _ this]]] show ?thesis
    by (simp add: set_global_def)
qed

lemma set_ex_inv:
  assumes "rw_inv c w" "x_inv c x" "slots_ok (rw_groups w) (gl_mgr (rw_global w)) x"
    "x_group x = x_group (rw_ex w ! i)" "x_global x = x_global (rw_ex w ! i)"
  shows "rw_inv c (set_ex i x w)"
  using assms apart_update [of x_group "rw_ex w" x i] apart_update [of x_global "rw_ex w" x i]
  by (auto simp: rw_inv_def set_ex_def dest!: set_update_subset_insert [THEN subsetD])

lemma groups_thread_inv:
  assumes "rw_inv c w" "i < length (rw_ex w)" "x_group (rw_ex w ! i) = Some t" "mgr_step (rw_groups w) m" "m_thr m = (m_thr (rw_groups w))[t := k]"
    "slot_ok DGroup XGroup (x_pc (rw_ex w ! i)) (x_defers (rw_ex w ! i)) (Some t) (hc_ConcurrencyGroup (x_hook (rw_ex w ! i)))
      (x_ID (rw_ex w ! i)) (r_cancel (x_run (rw_ex w ! i))) (m_thr m)"
  shows "rw_inv c (set_groups c m w)"
proof (rule set_groups_I)
  have "slots_ok m (gl_mgr (rw_global w)) x" if x: "x \<in> set (rw_ex w)" for x
  proof -
    obtain j where j: "j < length (rw_ex w)" "x = rw_ex w ! j" using x by (auto simp: in_set_conv_nth)
    have ok: "slots_ok (rw_groups w) (gl_mgr (rw_global w)) x" using rw_invD(5) [OF assms(1) j(1)] j(2) by simp
    show ?thesis
    proof (cases "j = i")
      case True
      then show ?thesis using ok assms(3,6) j by (simp add: slots_ok_def)
    next
      case False
      then have "x_group x \<noteq> Some t" using rw_invD(6) [OF assms(1)] assms(2,3) j by (auto simp: apart_def)
      then show ?thesis using ok assms(5) by (simp add: slots_ok_def slot_ok_other)
    qed
  qed
  moreover obtain cfg where "mgr_step\<^sup>*\<^sup>* (NewManager cfg) m"
    using rw_invD(2) [OF assms(1)] assms(4) by (meson rtranclp.rtrancl_into_rtrancl)
  ultimately show "rw_inv c (w\<lparr>rw_groups := m\<rparr>)" using assms(1) by (auto simp: rw_inv_def)
qed

lemma global_thread_inv:
  assumes "rw_inv c w" "i < length (rw_ex w)" "x_global (rw_ex w ! i) = Some t"
    "global_step (rw_global w) ((rw_global w)\<lparr>gl_mgr := m\<rparr>)" "m_thr m = (m_thr (gl_mgr (rw_global w)))[t := k]"
    "slot_ok DGlobal XGlobal (x_pc (rw_ex w ! i)) (x_defers (rw_ex w ! i)) (Some t) globalGroup (x_ID (rw_ex w ! i)) (r_cancel (x_run (rw_ex w ! i))) (m_thr m)"
  shows "rw_inv c (set_global m w)"
proof (rule set_global_I)
  have "slots_ok (rw_groups w) m x" if x: "x \<in> set (rw_ex w)" for x
  proof -
    obtain j where j: "j < length (rw_ex w)" "x = rw_ex w ! j" using x by (auto simp: in_set_conv_nth)
    have ok: "slots_ok (rw_groups w) (gl_mgr (rw_global w)) x" using rw_invD(5) [OF assms(1) j(1)] j(2) by simp
    show ?thesis
    proof (cases "j = i")
      case True
      then show ?thesis using ok assms(3,6) j by (simp add: slots_ok_def)
    next
      case False
      then have "x_global x \<noteq> Some t" using rw_invD(7) [OF assms(1)] assms(2,3) j by (auto simp: apart_def)
      then show ?thesis using ok assms(5) by (simp add: slots_ok_def slot_ok_other)
    qed
  qed
  moreover obtain d where "global_step\<^sup>*\<^sup>* (NewGlobal d) ((rw_global w)\<lparr>gl_mgr := m\<rparr>)"
    using rw_invD(3) [OF assms(1)] assms(4) by (meson rtranclp.rtrancl_into_rtrancl)
  ultimately show "rw_inv c (w\<lparr>rw_global := (rw_global w)\<lparr>gl_mgr := m\<rparr>\<rparr>)" using assms(1) by (auto simp: rw_inv_def)
qed

text \<open>A local step leaves both slots as they are: it never enters or leaves a queue, and the deferred
  releases are not its business.\<close>

lemma run_ID_frame [simp]:
  "run_ID (markAt p now r) = run_ID r" "run_ID (SetRunning now r) = run_ID r" "run_ID (SetActivityTouch b r) = run_ID r"
  "run_ID (SetOnTerminal b r) = run_ID r" "run_ID (ClearWaitingOn now q r) = run_ID r" "run_ID (Finish_section now st code err r) = run_ID r"
  "run_ID (finish_next r) = run_ID r" "r_cancel (Finish_section now st code err r) = r_cancel r" "r_cancel (finish_next r) = r_cancel r"
  by (simp_all add: run_ID_def run_op_defs Finish_section_def markAtLocked_def finish_next_def split: option.split fin_pc.split)

definition keeps_slots :: "exec \<Rightarrow> exec \<Rightarrow> bool" where
  "keeps_slots x y \<longleftrightarrow> x_group y = x_group x \<and> x_global y = x_global x \<and> x_hook y = x_hook x \<and> x_ID y = x_ID x \<and>
     (r_cancel (x_run x) \<longrightarrow> r_cancel (x_run y)) \<and> x_pc x \<notin> {XGroup, XGlobal} \<and> x_pc y \<notin> {XGroup, XGlobal} \<and>
     (DGroup \<in> set (x_defers y) \<longleftrightarrow> DGroup \<in> set (x_defers x)) \<and> (DGlobal \<in> set (x_defers y) \<longleftrightarrow> DGlobal \<in> set (x_defers x)) \<and>
     (x_pc x = XUnwind \<longrightarrow> x_defers x = [] \<or> hd (x_defers x) \<noteq> DGroup \<and> hd (x_defers x) \<noteq> DGlobal)"

lemma local_keeps_slots:
  assumes "local_next c now x = Some x'"
  shows "keeps_slots x x'"
proof -
  consider "early_next c now x = Some x'" | "launch_next c now x = Some x'" | "outcome_next c now x = Some x'" | "finish_next_pc c now x = Some x'"
    using assms by (auto simp: local_next_def split: option.splits)
  then show ?thesis
  proof cases
    case 1
    then show ?thesis by (auto simp: early_next_def keeps_slots_def Let_def split: xpc.splits option.splits sum.splits if_splits)
  next
    case 2
    then show ?thesis
      by (auto simp: launch_next_def keeps_slots_def prepare_def inspect_command_def set_argv_def begin_run_def Let_def
          split: xpc.splits option.splits sum.splits if_splits)
  next
    case 3
    then show ?thesis by (auto simp: outcome_next_def keeps_slots_def split: xpc.splits if_splits)
  next
    case 4
    then show ?thesis
      by (auto simp: finish_next_pc_def keeps_slots_def finishing_step_def Let_def split: xpc.splits list.splits deferred.splits if_splits)
  qed
qed

lemma slots_ok_keeps:
  assumes "slots_ok gm cm x" "keeps_slots x y"
  shows "slots_ok gm cm y"
  using assms unfolding slots_ok_def keeps_slots_def slot_ok_def by (auto split: option.splits)

lemma defers_shape:
  "d # ds = drop k all_defers \<Longrightarrow> d = DGroup \<and> ds = [DCleanup, DWaitGroup] \<or> d = DGlobal \<and> ds = [DGroup, DCleanup, DWaitGroup] \<or> d \<notin> {DGroup, DGlobal}"
  by (auto simp: drop_Cons split: nat.splits)

lemma pop_inv:
  assumes "x_inv c x" "x_pc x = XUnwind" "x_defers x = d # ds"
  shows "x_inv c (x\<lparr>x_defers := ds\<rparr>)"
proof -
  note s = x_inv_sels [OF assms(1)]
  obtain k where "d # ds = drop k all_defers" using s(4) assms(2,3) by auto
  then have tl: "\<exists>k. ds = drop k all_defers" by (metis drop_Suc list.sel(3) tl_drop)
  have "chan_ok (x\<lparr>x_defers := ds\<rparr>)" by (rule chan_ok_cong [OF s(5)]) simp_all
  moreover have "flagged (x\<lparr>x_defers := ds\<rparr>) st = flagged x st" for st by (simp add: flagged_def)
  ultimately show ?thesis using s(1-3,6) assms(2) tl by (simp add: x_inv_def)
qed

lemma pop_slots:
  assumes "x_inv c x" "slots_ok gm cm x" "x_pc x = XUnwind"
  shows "x_defers x = DGroup # ds \<Longrightarrow> \<not> releasing (thread_of (x_group x)) gm \<Longrightarrow> slots_ok gm cm (x\<lparr>x_defers := ds\<rparr>)"
    and "x_defers x = DGlobal # ds \<Longrightarrow> \<not> releasing (thread_of (x_global x)) cm \<Longrightarrow> slots_ok gm cm (x\<lparr>x_defers := ds\<rparr>)"
proof -
  obtain k where k: "x_defers x = drop k all_defers" using x_inv_sels(4) [OF assms(1)] assms(3) by auto
  { assume a: "x_defers x = DGroup # ds" "\<not> releasing (thread_of (x_group x)) gm"
    then have ds: "ds = [DCleanup, DWaitGroup]" using defers_shape [of DGroup ds k] k by auto
    obtain t where t: "x_group x = Some t" using assms(2) a(1) by (auto simp: slots_ok_def slot_ok_def split: option.splits)
    then have "th_ended (m_thr gm ! t)" using assms(2,3) a
      by (cases "m_thr gm ! t") (auto simp: slots_ok_def slot_ok_def releasing_def)
    then show "slots_ok gm cm (x\<lparr>x_defers := ds\<rparr>)" using assms(2,3) a(1) t ds
      by (auto simp: slots_ok_def slot_ok_def split: option.splits) }
  { assume a: "x_defers x = DGlobal # ds" "\<not> releasing (thread_of (x_global x)) cm"
    then have ds: "ds = [DGroup, DCleanup, DWaitGroup]" using defers_shape [of DGlobal ds k] k by auto
    obtain t where t: "x_global x = Some t" using assms(2) a(1) by (auto simp: slots_ok_def slot_ok_def split: option.splits)
    then have "th_ended (m_thr cm ! t)" using assms(2,3) a
      by (cases "m_thr cm ! t") (auto simp: slots_ok_def slot_ok_def releasing_def)
    then show "slots_ok gm cm (x\<lparr>x_defers := ds\<rparr>)" using assms(2,3) a(1) t ds
      by (auto simp: slots_ok_def slot_ok_def split: option.splits) }
qed

lemma flagged_cancelled: "rs_CancelRequested (r_state (x_run x)) \<Longrightarrow> flagged x StatusCancelled"
  by (simp add: flagged_def)

lemma group_result_inv:
  assumes "group_result c now th x = Some x'" "x_inv c x" "0 < now" "x_pc x = XGroup"
    "slots_ok gm cm x" "x_group x = Some t" "m_thr gm ! t = th"
  shows "x_inv c x'" "slots_ok gm cm x'" "x_group x' = x_group x" "x_global x' = x_global x"
proof -
  note s = x_inv_sels [OF assms(2)]
  have ds: "x_defers x = [DCleanup, DWaitGroup]" using s(4) assms(4) by simp
  have canc: "th = NotAcquired \<Longrightarrow> rs_CancelRequested (r_state (x_run x))"
    using assms(5-7) life_cancel [OF s(1)] by (auto simp: slots_ok_def slot_ok_def)
  have pre: "r_fin (x_run x) = NotFinishing" "x_wait x = None" "x_watch x = WNone" using s(2,6) assms(4) by simp_all
  note nxt = x_inv_next [OF assms(2)]
  show "x_inv c x'"
  proof (cases th)
    case (Failed e)
    show ?thesis using assms(1,4) pre ds run_mild_refl [OF s(1)] unfolding Failed group_result_def
      by (auto simp: flagged_error intro!: nxt)
  next
    case NotAcquired
    show ?thesis using assms(1,4) pre ds run_mild_refl [OF s(1)] flagged_cancelled [OF canc [OF NotAcquired]]
      unfolding NotAcquired group_result_def by (auto intro!: nxt)
  next
    case (Holding g r p)
    show ?thesis using assms(1,4) pre ds run_mild_ops(6) [OF s(1) assms(3)] unfolding Holding group_result_def by (auto intro!: nxt)
  next
    case Unbounded
    show ?thesis using assms(1,4) pre ds run_mild_ops(6) [OF s(1) assms(3)] unfolding Unbounded group_result_def by (auto intro!: nxt)
  qed (use assms(1) in \<open>simp_all add: group_result_def\<close>)
  have sl: "slots_ok gm cm y" if "x_group y = Some t" "x_global y = x_global x" "x_hook y = x_hook x" "x_ID y = x_ID x"
      "r_cancel (x_run y) = r_cancel (x_run x)" "x_pc y \<notin> {XGroup, XGlobal}" "DGlobal \<notin> set (x_defers y)"
      "if DGroup \<in> set (x_defers y) then th_kept th else th_ended th" for y
  proof -
    have g: "slot_ok DGroup XGroup (x_pc y) (x_defers y) (x_group y) (hc_ConcurrencyGroup (x_hook y)) (x_ID y) (r_cancel (x_run y)) (m_thr gm)"
      using assms(5-7) that(1,3-6,8) unfolding slots_ok_def slot_ok_def by simp
    have "slot_ok DGlobal XGlobal (x_pc x) (x_defers x) (x_global x) globalGroup (x_ID x) (r_cancel (x_run x)) (m_thr cm)"
      using assms(5) by (simp add: slots_ok_def)
    then have "slot_ok DGlobal XGlobal (x_pc y) (x_defers y) (x_global y) globalGroup (x_ID y) (r_cancel (x_run y)) (m_thr cm)"
      using that(2,4-7) assms(4) ds unfolding slot_ok_def by (cases "x_global x") simp_all
    with g show ?thesis by (simp add: slots_ok_def)
  qed
  show "slots_ok gm cm x'" using assms(1,6) ds
    by (cases th) (auto simp: group_result_def intro!: sl)
  show "x_group x' = x_group x" "x_global x' = x_global x"
    using assms(1) by (auto simp: group_result_def split: pc.splits)
qed

lemma global_result_inv:
  assumes "global_result now th x = Some x'" "x_inv c x" "0 < now" "x_pc x = XGlobal"
    "slots_ok gm cm x" "x_global x = Some t" "m_thr cm ! t = th" "\<nexists>e. th = Failed e"
  shows "x_inv c x'" "slots_ok gm cm x'" "x_group x' = x_group x" "x_global x' = x_global x"
proof -
  note s = x_inv_sels [OF assms(2)]
  have ds: "x_defers x = [DGroup, DCleanup, DWaitGroup]" using s(4) assms(4) by simp
  have canc: "th = NotAcquired \<Longrightarrow> rs_CancelRequested (r_state (x_run x))"
    using assms(5-7) life_cancel [OF s(1)] by (auto simp: slots_ok_def slot_ok_def)
  have pre: "r_fin (x_run x) = NotFinishing" "x_wait x = None" "x_watch x = WNone" using s(2,6) assms(4) by simp_all
  note nxt = x_inv_next [OF assms(2)]
  show "x_inv c x'"
  proof (cases th)
    case NotAcquired
    show ?thesis using assms(1,4) pre ds run_mild_refl [OF s(1)] flagged_cancelled [OF canc [OF NotAcquired]]
      unfolding NotAcquired global_result_def by (auto intro!: nxt)
  next
    case (Holding g r p)
    show ?thesis using assms(1,4) pre ds run_mild_ops(6) [OF s(1) assms(3)] unfolding Holding global_result_def by (auto intro!: nxt)
  qed (use assms(1,8) in \<open>simp_all add: global_result_def\<close>)
  have sl: "slots_ok gm cm y" if "x_global y = Some t" "x_group y = x_group x" "x_hook y = x_hook x" "x_ID y = x_ID x"
      "r_cancel (x_run y) = r_cancel (x_run x)" "x_pc y \<notin> {XGroup, XGlobal}" "DGroup \<in> set (x_defers y)"
      "if DGlobal \<in> set (x_defers y) then th_kept th else th_ended th" for y
  proof -
    have g: "slot_ok DGlobal XGlobal (x_pc y) (x_defers y) (x_global y) globalGroup (x_ID y) (r_cancel (x_run y)) (m_thr cm)"
      using assms(5-7) that(1,3-6,8) unfolding slots_ok_def slot_ok_def by simp
    have "slot_ok DGroup XGroup (x_pc x) (x_defers x) (x_group x) (hc_ConcurrencyGroup (x_hook x)) (x_ID x) (r_cancel (x_run x)) (m_thr gm)"
      using assms(5) by (simp add: slots_ok_def)
    then have "slot_ok DGroup XGroup (x_pc y) (x_defers y) (x_group y) (hc_ConcurrencyGroup (x_hook y)) (x_ID y) (r_cancel (x_run y)) (m_thr gm)"
      using that(2-7) assms(4) ds unfolding slot_ok_def by (cases "x_group x") simp_all
    with g show ?thesis by (simp add: slots_ok_def)
  qed
  show "slots_ok gm cm x'" using assms(1,6,8) ds
    by (cases th) (auto simp: global_result_def intro!: sl)
  show "x_group x' = x_group x" "x_global x' = x_global x"
    using assms(1) by (auto simp: global_result_def split: pc.splits)
qed

end
