(* ===== verification/ExecuteWorld.thy ===== *)
theory ExecuteWorld
  imports ExecuteSlots
begin

text \<open>
  The runner's world (\<open>Execute\<close>) as an invariant system: every step of every execution, watcher and
  environment, and every reconfiguration, keeps the invariant of \<open>ExecuteSlots\<close>; and two runs of a
  small runner that the witnesses look at.
\<close>

subsection \<open>Every step keeps the invariant\<close>

lemma acquire_group_inv:
  assumes "rw_inv c w" "i < length (rw_ex w)" "x_pc (rw_ex w ! i) = XAcquire"
  defines "x \<equiv> rw_ex w ! i"
  shows "rw_inv c (set_groups c (acquire_enter (hc_ConcurrencyGroup (x_hook x)) (x_ID x) True (rw_now w) (rw_groups w))
    (set_ex i (x\<lparr>x_group := Some (length (m_thr (rw_groups w))), x_pc := XGroup\<rparr>) w))" (is "rw_inv c (set_groups c ?m (set_ex i ?x w))")
proof (rule set_groups_I)
  have inv: "x_inv c x" "slots_ok (rw_groups w) (gl_mgr (rw_global w)) x" using rw_invD(4,5) [OF assms(1,2)] by (simp_all add: x_def)
  have pc: "x_pc x = XAcquire" using assms(3) by (simp add: x_def)
  note s = x_inv_sels [OF inv(1)]
  obtain k where k: "m_thr ?m = m_thr (rw_groups w) @ [k]" "th_for (hc_ConcurrencyGroup (x_hook x)) (x_ID x) k" "\<not> th_cancelled k" "\<not> th_freed k"
    using acquire_enter_thr by blast
  have x': "x_inv c ?x" using s(2-4,6) pc run_mild_refl [OF s(1)] by (intro x_inv_next [OF inv(1)]) simp_all
  have sx: "slots_ok ?m (gl_mgr (rw_global w)) ?x" using inv(2) pc k s(4)
    by (simp add: slots_ok_def slot_ok_def nth_append split: option.splits)
  have so: "slots_ok ?m (gl_mgr (rw_global w)) y \<and> x_group y \<noteq> Some (length (m_thr (rw_groups w)))" if "y \<in> set (rw_ex w)" for y
  proof -
    have "slots_ok (rw_groups w) (gl_mgr (rw_global w)) y" using assms(1) that by (simp add: rw_inv_def)
    then show ?thesis using k(1) by (auto simp: slots_ok_def slot_ok_append) (simp add: slot_ok_def)
  qed
  obtain cfg where r: "mgr_step\<^sup>*\<^sup>* (NewManager cfg) (rw_groups w)" using rw_invD(2) [OF assms(1)] by blast
  have "mgr_step\<^sup>*\<^sup>* (NewManager cfg) ?m" by (rule rtranclp.rtrancl_into_rtrancl [OF r mgr_step.enter])
  moreover have "apart x_group ((rw_ex w)[i := ?x])" using so by (intro apart_fresh rw_invD(6) [OF assms(1)]) simp
  moreover have "apart x_global ((rw_ex w)[i := ?x])" by (rule apart_update [OF rw_invD(7) [OF assms(1)]]) (simp add: x_def)
  moreover have "x_inv c y \<and> slots_ok ?m (gl_mgr (rw_global w)) y" if "y \<in> set ((rw_ex w)[i := ?x])" for y
    using set_update_subset_insert [THEN subsetD, OF that] x' sx so assms(1) by (auto simp: rw_inv_def)
  ultimately show "rw_inv c (set_ex i ?x w\<lparr>rw_groups := ?m\<rparr>)"
    using rw_invD(1,3) [OF assms(1)] by (auto simp: rw_inv_def set_ex_def)
qed

lemma acquire_global_inv:
  assumes "rw_inv c w" "i < length (rw_ex w)" "x_pc (rw_ex w ! i) = XAcquireGlobal"
  defines "x \<equiv> rw_ex w ! i"
  shows "rw_inv c (set_global (acquire_enter globalGroup (x_ID x) True (rw_now w) (gl_mgr (rw_global w)))
    (set_ex i (x\<lparr>x_global := Some (length (m_thr (gl_mgr (rw_global w)))), x_pc := XGlobal\<rparr>) w))" (is "rw_inv c (set_global ?m (set_ex i ?x w))")
proof (rule set_global_I)
  have inv: "x_inv c x" "slots_ok (rw_groups w) (gl_mgr (rw_global w)) x" using rw_invD(4,5) [OF assms(1,2)] by (simp_all add: x_def)
  have pc: "x_pc x = XAcquireGlobal" using assms(3) by (simp add: x_def)
  note s = x_inv_sels [OF inv(1)]
  obtain k where k: "m_thr ?m = m_thr (gl_mgr (rw_global w)) @ [k]" "th_for globalGroup (x_ID x) k" "\<not> th_cancelled k" "\<not> th_freed k"
    using acquire_enter_thr by blast
  have x': "x_inv c ?x" using s(2-4,6) pc run_mild_refl [OF s(1)] by (intro x_inv_next [OF inv(1)]) simp_all
  have sx: "slots_ok (rw_groups w) ?m ?x" using inv(2) pc k s(4)
    by (simp add: slots_ok_def slot_ok_def nth_append split: option.splits)
  have so: "slots_ok (rw_groups w) ?m y \<and> x_global y \<noteq> Some (length (m_thr (gl_mgr (rw_global w))))" if "y \<in> set (rw_ex w)" for y
  proof -
    have "slots_ok (rw_groups w) (gl_mgr (rw_global w)) y" using assms(1) that by (simp add: rw_inv_def)
    then show ?thesis using k(1) by (auto simp: slots_ok_def slot_ok_append) (simp add: slot_ok_def)
  qed
  obtain d where r: "global_step\<^sup>*\<^sup>* (NewGlobal d) (rw_global w)" using rw_invD(3) [OF assms(1)] by blast
  have "global_step (rw_global w) ((rw_global w)\<lparr>gl_mgr := ?m\<rparr>)"
    using global_step.genter [of "rw_global w" "x_ID x" True "rw_now w"] by (simp add: global_enter_def)
  then have "global_step\<^sup>*\<^sup>* (NewGlobal d) ((rw_global w)\<lparr>gl_mgr := ?m\<rparr>)" by (rule rtranclp.rtrancl_into_rtrancl [OF r])
  moreover have "apart x_global ((rw_ex w)[i := ?x])" using so by (intro apart_fresh rw_invD(7) [OF assms(1)]) simp
  moreover have "apart x_group ((rw_ex w)[i := ?x])" by (rule apart_update [OF rw_invD(6) [OF assms(1)]]) (simp add: x_def)
  moreover have "x_inv c y \<and> slots_ok (rw_groups w) ?m y" if "y \<in> set ((rw_ex w)[i := ?x])" for y
    using set_update_subset_insert [THEN subsetD, OF that] x' sx so assms(1) by (auto simp: rw_inv_def)
  ultimately show "rw_inv c (set_ex i ?x w\<lparr>rw_global := (rw_global (set_ex i ?x w))\<lparr>gl_mgr := ?m\<rparr>\<rparr>)"
    using rw_invD(1,2) [OF assms(1)] by (auto simp: rw_inv_def set_ex_def)
qed

lemma no_failed_global: "rw_inv c w \<Longrightarrow> Failed e \<notin> set (m_thr (gl_mgr (rw_global w)))"
  using rw_invD(3) global_cap_holds_parts(2) by (metis prod_cases5)

lemma slot_thread:
  assumes "slots_ok gm cm x"
  shows "x_pc x = XGroup \<or> DGroup \<in> set (x_defers x) \<Longrightarrow> \<exists>t. x_group x = Some t \<and> t < length (m_thr gm)"
    and "x_pc x = XGlobal \<or> DGlobal \<in> set (x_defers x) \<Longrightarrow> \<exists>t. x_global x = Some t \<and> t < length (m_thr cm)"
  using assms by (auto simp: slots_ok_def slot_ok_def split: option.splits)

lemma slots_okD:
  assumes "slots_ok gm cm x"
  shows "slot_ok DGroup XGroup (x_pc x) (x_defers x) (x_group x) (hc_ConcurrencyGroup (x_hook x)) (x_ID x) (r_cancel (x_run x)) (m_thr gm)"
    "slot_ok DGlobal XGlobal (x_pc x) (x_defers x) (x_global x) globalGroup (x_ID x) (r_cancel (x_run x)) (m_thr cm)"
  using assms by (simp_all add: slots_ok_def)

lemma group_step_inv:
  assumes "rw_inv c w" "i < length (rw_ex w)" "x_pc (rw_ex w ! i) = XGroup"
    "acquire_next sel now (r_cancel (x_run (rw_ex w ! i))) (thread_of (x_group (rw_ex w ! i))) (rw_groups w) = Some m"
  shows "rw_inv c (set_groups c m w)"
proof -
  let ?x = "rw_ex w ! i"
  note ok = rw_invD(5) [OF assms(1,2)]
  obtain t where t: "x_group ?x = Some t" "t < length (m_thr (rw_groups w))" using slot_thread(1) [OF ok] assms(3) by blast
  note an = acquire_next_thr [OF _ t(2)]
  have a: "acquire_next sel now (r_cancel (x_run ?x)) t (rw_groups w) = Some m" using assms(4) t(1) by simp
  obtain k where k: "m_thr m = (m_thr (rw_groups w))[t := k]"
      "th_for (hc_ConcurrencyGroup (x_hook ?x)) (x_ID ?x) (m_thr (rw_groups w) ! t) \<longrightarrow> th_for (hc_ConcurrencyGroup (x_hook ?x)) (x_ID ?x) k"
      "th_cancelled k \<longrightarrow> r_cancel (x_run ?x) \<or> th_cancelled (m_thr (rw_groups w) ! t)" "\<not> th_freed k"
    using an(2) [OF a] by blast
  have "slot_ok DGroup XGroup (x_pc ?x) (x_defers ?x) (Some t) (hc_ConcurrencyGroup (x_hook ?x)) (x_ID ?x) (r_cancel (x_run ?x)) (m_thr m)"
    using slots_okD(1) [OF ok] k t assms(3) by (auto simp: slot_ok_def)
  from groups_thread_inv [OF assms(1,2) t(1) mgr_step.thread [OF t(2) an(1) [OF a]] k(1) this] show ?thesis .
qed

lemma group_release_inv:
  assumes "rw_inv c w" "i < length (rw_ex w)" "x_pc (rw_ex w ! i) = XUnwind" "x_defers (rw_ex w ! i) = DGroup # ds"
    "release_next (thread_of (x_group (rw_ex w ! i))) (rw_groups w) = Some m"
  shows "rw_inv c (set_groups c m w)"
proof -
  let ?x = "rw_ex w ! i"
  note ok = rw_invD(5) [OF assms(1,2)]
  obtain t where t: "x_group ?x = Some t" "t < length (m_thr (rw_groups w))" using slot_thread(1) [OF ok] assms(4) by auto
  have a: "release_next t (rw_groups w) = Some m" using assms(5) t(1) by simp
  obtain k where k: "m_thr m = (m_thr (rw_groups w))[t := k]"
      "th_for (hc_ConcurrencyGroup (x_hook ?x)) (x_ID ?x) (m_thr (rw_groups w) ! t) \<longrightarrow> th_for (hc_ConcurrencyGroup (x_hook ?x)) (x_ID ?x) k"
      "th_freed k"
    using release_next_thr(2) [OF a t(2)] by blast
  then have "\<not> th_cancelled k" by (cases k) simp_all
  then have "slot_ok DGroup XGroup (x_pc ?x) (x_defers ?x) (Some t) (hc_ConcurrencyGroup (x_hook ?x)) (x_ID ?x) (r_cancel (x_run ?x)) (m_thr m)"
    using slots_okD(1) [OF ok] k t assms(3,4) by (simp add: slot_ok_def)
  from groups_thread_inv [OF assms(1,2) t(1) mgr_step.thread [OF t(2) release_next_thr(1) [OF a t(2)]] k(1) this] show ?thesis .
qed

lemma global_step_inv:
  assumes "rw_inv c w" "i < length (rw_ex w)" "x_pc (rw_ex w ! i) = XGlobal"
    "acquire_next sel now (r_cancel (x_run (rw_ex w ! i))) (thread_of (x_global (rw_ex w ! i))) (gl_mgr (rw_global w)) = Some m"
  shows "rw_inv c (set_global m w)"
proof -
  let ?x = "rw_ex w ! i" and ?g = "rw_global w"
  note ok = rw_invD(5) [OF assms(1,2)]
  obtain t where t: "x_global ?x = Some t" "t < length (m_thr (gl_mgr ?g))" using slot_thread(2) [OF ok] assms(3) by blast
  have a: "acquire_next sel now (r_cancel (x_run ?x)) t (gl_mgr ?g) = Some m" using assms(4) t(1) by simp
  obtain k where k: "m_thr m = (m_thr (gl_mgr ?g))[t := k]"
      "th_for globalGroup (x_ID ?x) (m_thr (gl_mgr ?g) ! t) \<longrightarrow> th_for globalGroup (x_ID ?x) k"
      "th_cancelled k \<longrightarrow> r_cancel (x_run ?x) \<or> th_cancelled (m_thr (gl_mgr ?g) ! t)" "\<not> th_freed k"
    using acquire_next_thr(2) [OF a t(2)] by blast
  have "slot_ok DGlobal XGlobal (x_pc ?x) (x_defers ?x) (Some t) globalGroup (x_ID ?x) (r_cancel (x_run ?x)) (m_thr m)"
    using slots_okD(2) [OF ok] k t assms(3) by (auto simp: slot_ok_def)
  from global_thread_inv [OF assms(1,2) t(1) global_step.gthread [OF t(2) acquire_next_thr(1) [OF a t(2)]] k(1) this] show ?thesis .
qed

lemma global_release_inv:
  assumes "rw_inv c w" "i < length (rw_ex w)" "x_pc (rw_ex w ! i) = XUnwind" "x_defers (rw_ex w ! i) = DGlobal # ds"
    "release_next (thread_of (x_global (rw_ex w ! i))) (gl_mgr (rw_global w)) = Some m"
  shows "rw_inv c (set_global m w)"
proof -
  let ?x = "rw_ex w ! i" and ?g = "rw_global w"
  note ok = rw_invD(5) [OF assms(1,2)]
  obtain t where t: "x_global ?x = Some t" "t < length (m_thr (gl_mgr ?g))" using slot_thread(2) [OF ok] assms(4) by auto
  have a: "release_next t (gl_mgr ?g) = Some m" using assms(5) t(1) by simp
  obtain k where k: "m_thr m = (m_thr (gl_mgr ?g))[t := k]"
      "th_for globalGroup (x_ID ?x) (m_thr (gl_mgr ?g) ! t) \<longrightarrow> th_for globalGroup (x_ID ?x) k" "th_freed k"
    using release_next_thr(2) [OF a t(2)] by blast
  then have "\<not> th_cancelled k" by (cases k) simp_all
  then have "slot_ok DGlobal XGlobal (x_pc ?x) (x_defers ?x) (Some t) globalGroup (x_ID ?x) (r_cancel (x_run ?x)) (m_thr m)"
    using slots_okD(2) [OF ok] k t assms(3,4) by (simp add: slot_ok_def)
  from global_thread_inv [OF assms(1,2) t(1) global_step.gthread [OF t(2) release_next_thr(1) [OF a t(2)]] k(1) this] show ?thesis .
qed

lemma local_step_inv:
  assumes "rw_inv c w" "i < length (rw_ex w)" "local_next c (rw_now w) (rw_ex w ! i) = Some x'"
  shows "rw_inv c (set_ex i x' w)"
proof -
  note k = local_keeps_slots [OF assms(3)]
  show ?thesis
    using k by (intro set_ex_inv [OF assms(1)] local_inv [OF assms(3) rw_invD(4) [OF assms(1,2)] rw_invD(1) [OF assms(1)]]
        slots_ok_keeps [OF rw_invD(5) [OF assms(1,2)] k]) (simp_all add: keeps_slots_def)
qed

lemma main_inv:
  assumes "main_next c sel i w = Some w'" "rw_inv c w" "i < length (rw_ex w)"
  shows "rw_inv c w'"
proof -
  let ?x = "rw_ex w ! i"
  note inv = rw_invD(4,5) [OF assms(2,3)] and pos = rw_invD(1) [OF assms(2)]
  note loc = local_step_inv [OF assms(2,3)]
  show ?thesis
  proof (cases "x_pc ?x")
    case XAcquire
    then show ?thesis using assms(1) acquire_group_inv [OF assms(2,3) XAcquire] by (simp add: main_next_def Let_def)
  next
    case XGroup
    obtain t where t: "x_group ?x = Some t" using slot_thread(1) [OF inv(2)] XGroup by blast
    show ?thesis
    proof (cases "group_result c (rw_now w) (m_thr (rw_groups w) ! t) ?x")
      case None
      then show ?thesis using assms(1) XGroup t group_step_inv [OF assms(2,3) XGroup] by (auto simp: main_next_def Let_def)
    next
      case (Some x')
      note r = group_result_inv [OF Some inv(1) pos XGroup inv(2) t refl]
      show ?thesis using assms(1) XGroup t Some set_ex_inv [OF assms(2) r] by (simp add: main_next_def Let_def)
    qed
  next
    case XAcquireGlobal
    then show ?thesis using assms(1) acquire_global_inv [OF assms(2,3) XAcquireGlobal] by (simp add: main_next_def Let_def)
  next
    case XGlobal
    obtain t where t: "x_global ?x = Some t" "t < length (m_thr (gl_mgr (rw_global w)))" using slot_thread(2) [OF inv(2)] XGlobal by blast
    have nf: "\<nexists>e. m_thr (gl_mgr (rw_global w)) ! t = Failed e" using no_failed_global [OF assms(2)] t(2) by (metis nth_mem)
    show ?thesis
    proof (cases "global_result (rw_now w) (m_thr (gl_mgr (rw_global w)) ! t) ?x")
      case None
      then show ?thesis using assms(1) XGlobal t global_step_inv [OF assms(2,3) XGlobal] by (auto simp: main_next_def Let_def)
    next
      case (Some x')
      note r = global_result_inv [OF Some inv(1) pos XGlobal inv(2) t(1) refl nf]
      show ?thesis using assms(1) XGlobal t Some set_ex_inv [OF assms(2) r] by (simp add: main_next_def Let_def)
    qed
  next
    case XUnwind
    show ?thesis
    proof (cases "x_defers ?x")
      case Nil
      then show ?thesis using assms(1) XUnwind loc by (auto simp: main_next_def Let_def)
    next
      case (Cons d ds)
      note pop = pop_inv [OF inv(1) XUnwind Cons] and slots = pop_slots [OF inv XUnwind]
      have popped: "slots_ok (rw_groups w) (gl_mgr (rw_global w)) (?x\<lparr>x_defers := ds\<rparr>) \<Longrightarrow> rw_inv c (set_ex i (?x\<lparr>x_defers := ds\<rparr>) w)"
        by (rule set_ex_inv [OF assms(2) pop]) simp_all
      show ?thesis
      proof (cases d)
        case DGroup
        then show ?thesis using assms(1) XUnwind Cons popped slots(1) group_release_inv [OF assms(2,3) XUnwind]
          by (auto simp: main_next_def Let_def split: if_splits)
      next
        case DGlobal
        then show ?thesis using assms(1) XUnwind Cons popped slots(2) global_release_inv [OF assms(2,3) XUnwind]
          by (auto simp: main_next_def Let_def split: if_splits)
      qed (use assms(1) XUnwind Cons loc in \<open>auto simp: main_next_def Let_def\<close>)
    qed
  qed (use assms(1) loc in \<open>auto simp: main_next_def Let_def\<close>)
qed

lemma start_inv:
  assumes "0 < now"
  shows "x_inv c (runner_start now draining rid onFin onChg h title ph pr ans)"
    "slots_ok gm cm (runner_start now draining rid onFin onChg h title ph pr ans)"
    "x_group (runner_start now draining rid onFin onChg h title ph pr ans) = None"
    "x_global (runner_start now draining rid onFin onChg h title ph pr ans) = None"
proof -
  have l: "life_ok (fresh_run rid (hc_ID h) now onFin onChg)"
    using run_inv_init [OF run_init_fresh] by (simp add: run_inv_def)
  have m: "run_mild (fresh_run rid (hc_ID h) now onFin onChg) (SetSpawnedBy ph pr (SetTitle title (fresh_run rid (hc_ID h) now onFin onChg)))"
    using run_mild_ops(8) [OF l assms] run_mild_ops(9) [OF run_mild_life [OF run_mild_ops(8) [OF l assms]] assms] by (rule run_mild_trans)
  have r: "life_ok (SetSpawnedBy ph pr (SetTitle title (fresh_run rid (hc_ID h) now onFin onChg)))"
    "r_fin (SetSpawnedBy ph pr (SetTitle title (fresh_run rid (hc_ID h) now onFin onChg))) = NotFinishing"
    using m by (simp_all add: run_mild_def fresh_run_def)
  show "x_inv c (runner_start now draining rid onFin onChg h title ph pr ans)"
    by (auto simp: runner_start_def Let_def x_inv_def r chan_ok_def newIdleWatchdog_def flagged_def split: sum.splits)
  show "slots_ok gm cm (runner_start now draining rid onFin onChg h title ph pr ans)"
    by (auto simp: runner_start_def Let_def slots_ok_def slot_ok_def split: sum.splits)
qed (simp_all add: runner_start_def Let_def split: sum.splits)

lemma config_thr [simp]:
  "m_thr (mgr_Update cfg m) = m_thr m" "m_thr (snd (SetLimitOverride g n m)) = m_thr m" "m_thr (ClearLimitOverride g m) = m_thr m"
  by (auto simp: mgr_Update_def SetLimitOverride_def ClearLimitOverride_def swap_sem_def Let_def split: option.splits prod.splits)

lemma groups_config_inv:
  assumes "rw_inv c w" "mgr_step (rw_groups w) m" "m_thr m = m_thr (rw_groups w)"
  shows "rw_inv c (set_groups c m w)"
proof (rule set_groups_I)
  obtain cfg where "mgr_step\<^sup>*\<^sup>* (NewManager cfg) m" using rw_invD(2) [OF assms(1)] assms(2) by (meson rtranclp.rtrancl_into_rtrancl)
  then show "rw_inv c (w\<lparr>rw_groups := m\<rparr>)" using assms(1,3) by (auto simp: rw_inv_def slots_ok_def)
qed

lemma global_config_inv:
  assumes "rw_inv c w" "global_step (rw_global w) ((rw_global w)\<lparr>gl_mgr := m\<rparr>)" "m_thr m = m_thr (gl_mgr (rw_global w))"
  shows "rw_inv c (set_global m w)"
proof (rule set_global_I)
  obtain d where "global_step\<^sup>*\<^sup>* (NewGlobal d) ((rw_global w)\<lparr>gl_mgr := m\<rparr>)"
    using rw_invD(3) [OF assms(1)] assms(2) by (meson rtranclp.rtrancl_into_rtrancl)
  then show "rw_inv c (w\<lparr>rw_global := (rw_global w)\<lparr>gl_mgr := m\<rparr>\<rparr>)" using assms(1,3) by (auto simp: rw_inv_def slots_ok_def)
qed

lemma slots_ok_mono:
  assumes "slots_ok gm cm x" "x_pc y = x_pc x" "x_defers y = x_defers x" "x_group y = x_group x" "x_global y = x_global x" "x_hook y = x_hook x"
    "x_ID y = x_ID x" "r_cancel (x_run x) \<longrightarrow> r_cancel (x_run y)"
  shows "slots_ok gm cm y"
  using assms unfolding slots_ok_def slot_ok_def by (auto split: option.splits)

lemma env_slots:
  assumes "x_env now l x = Some x'" "x_inv c x" "0 < now" "slots_ok gm cm x"
  shows "slots_ok gm cm x'" "x_group x' = x_group x" "x_global x' = x_global x"
proof -
  note l = x_inv_sels(1) [OF assms(2)]
  have mild: "r_cancel (x_run x) \<longrightarrow> r_cancel (run_exec now now op (x_run x))" "run_ID (run_exec now now op (x_run x)) = x_ID x" for op
    using run_mild_exec [OF l assms(3), of now op] by (simp_all add: run_mild_def)
  have ap: "run_ID (AppendOutput now line (x_run x)) = x_ID x" for line
    using run_mild_ops(7) [OF l assms(3)] by (simp add: run_mild_def)
  have nt: "run_ID (notifyChange (x_run x\<lparr>r_pending := n\<rparr>)) = x_ID x" for n by (simp add: run_ID_def)
  have mono: "slots_ok gm cm y" if "x_pc y = x_pc x" "x_defers y = x_defers x" "x_group y = x_group x" "x_global y = x_global x"
      "x_hook y = x_hook x" "x_ID y = x_ID x" "r_cancel (x_run x) \<longrightarrow> r_cancel (x_run y)" for y
    by (rule slots_ok_mono [OF assms(4) that])
  have kept: "slots_ok gm cm y" if "x_pc x \<in> {XRunning, XStreams}" "x_pc y \<notin> {XGroup, XGlobal}" "x_defers y = x_defers x"
      "x_group y = x_group x" "x_global y = x_global x" "x_hook y = x_hook x" "x_run y = x_run x" for y
    by (rule slots_ok_keeps [OF assms(4)]) (use that in \<open>auto simp: keeps_slots_def\<close>)
  show "slots_ok gm cm x'"
  proof (cases l)
    case (LExit i res)
    then show ?thesis using assms(1) by (auto simp: x_env_def intro!: kept split: if_splits)
  next
    case (LDrained i)
    then show ?thesis using assms(1) by (auto simp: x_env_def intro!: kept split: if_splits prod.splits)
  next
    case (LWatch i sel)
    then show ?thesis using assms(1)
      by (auto simp: x_env_def watch_next_def intro!: mono split: wpc.splits wsel.splits ctx_state.splits if_splits)
  qed (use assms(1) in \<open>auto simp: x_env_def mild ap nt intro!: mono split: ctx_state.splits option.splits if_splits\<close>)
  show "x_group x' = x_group x" "x_global x' = x_global x" using assms(1)
    by (cases l; auto simp: x_env_def watch_next_def split: wpc.splits wsel.splits ctx_state.splits option.splits if_splits prod.splits)+
qed

lemma rw_inv_next:
  assumes "rw_next c l w = Some w'" "rw_inv c w"
  shows "rw_inv c w'"
proof -
  note pos = rw_invD(1) [OF assms(2)]
  have env: "rw_inv c w'" if e: "on_ex (label_ex l) (x_env (rw_now w) l) w = Some w'"
  proof -
    let ?i = "label_ex l"
    obtain x' where x': "?i < length (rw_ex w)" "x_env (rw_now w) l (rw_ex w ! ?i) = Some x'" "w' = set_ex ?i x' w"
      using e by (auto simp: on_ex_def split: if_splits)
    note inv = rw_invD(4,5) [OF assms(2) x'(1)]
    show ?thesis unfolding x'(3)
      by (rule set_ex_inv [OF assms(2) env_inv [OF x'(2) inv(1) pos] env_slots [OF x'(2) inv(1) pos inv(2)]])
  qed
  show ?thesis
  proof (cases l)
    case (LStart rid onFin onChg h title ph pr ans)
    note st = start_inv [OF pos, where draining = "rw_draining w" and rid = rid and onFin = onFin and onChg = onChg and h = h and title = title and ph = ph and pr = pr and ans = ans]
    show ?thesis using assms LStart st(1,2) apart_snoc [OF rw_invD(6) [OF assms(2)] st(3)] apart_snoc [OF rw_invD(7) [OF assms(2)] st(4)]
      by (auto simp: rw_next_def rw_inv_def)
  next
    case LShutdown
    then show ?thesis using assms by (auto simp: rw_next_def rw_inv_def)
  next
    case (LTick d)
    then show ?thesis using assms by (auto simp: rw_next_def rw_inv_def)
  next
    case (LMain i sel)
    then show ?thesis using assms main_inv by (auto simp: rw_next_def split: if_splits)
  next
    case (LReload cfg)
    then show ?thesis using assms(1) groups_config_inv [OF assms(2) mgr_step.update config_thr(1)] by (auto simp: rw_next_def)
  next
    case (LLimit g n)
    then show ?thesis using assms(1) groups_config_inv [OF assms(2) mgr_step.set_override config_thr(2)] by (auto simp: rw_next_def)
  next
    case (LClearLimit g)
    then show ?thesis using assms(1) groups_config_inv [OF assms(2) mgr_step.clear_override config_thr(3)] by (auto simp: rw_next_def)
  next
    case (LCap n)
    let ?g = "snd (global_SetLimitOverride n (rw_global w))"
    have g: "?g = (rw_global w)\<lparr>gl_mgr := gl_mgr ?g\<rparr>" "m_thr (gl_mgr ?g) = m_thr (gl_mgr (rw_global w))"
      by (simp_all add: global_SetLimitOverride_def Let_def split: prod.splits) (metis config_thr(2) snd_conv)
    have "global_step (rw_global w) ((rw_global w)\<lparr>gl_mgr := gl_mgr ?g\<rparr>)" by (subst g(1) [symmetric]) (rule global_step.gset)
    then show ?thesis using assms(1) LCap global_config_inv [OF assms(2) _ g(2)] by (simp add: rw_next_def)
  next
    case LClearCap
    let ?g = "global_ClearLimitOverride (rw_global w)"
    have g: "?g = (rw_global w)\<lparr>gl_mgr := gl_mgr ?g\<rparr>" "m_thr (gl_mgr ?g) = m_thr (gl_mgr (rw_global w))"
      by (simp_all add: global_ClearLimitOverride_def)
    have "global_step (rw_global w) ((rw_global w)\<lparr>gl_mgr := gl_mgr ?g\<rparr>)" by (subst g(1) [symmetric]) (rule global_step.gclear)
    then show ?thesis using assms(1) LClearCap global_config_inv [OF assms(2) _ g(2)] by (simp add: rw_next_def)
  qed (use assms(1) env in \<open>simp_all add: rw_next_def\<close>)
qed

interpretation rwi: invariant_system rw_init "rw_step c" "rw_inv c" for c
proof
  show "rw_init w \<Longrightarrow> rw_inv c w" for w by (auto simp: rw_init_def rw_inv_def apart_def)
  show "rw_step c w w' \<Longrightarrow> rw_inv c w \<Longrightarrow> rw_inv c w'" for w w' by (auto simp: rw_step_def intro: rw_inv_next)
qed

subsection \<open>A runner to look at\<close>

text \<open>A runner with one hook in a group of limit one, and its first container.\<close>

definition conf_ex :: exec_conf where
  "conf_ex = \<lparr>ec_rc = \<lparr>rc_kv = None, rc_kvSocket = [], rc_kvShim = [], rc_secrets = False, rc_onStart = True, rc_onFinish = True\<rparr>,
     ec_dur = (\<lambda>d. append_int d), ec_quote = (\<lambda>s. s), ec_acq = (\<lambda>e. [])\<rparr>"

definition hook_ex :: hook_conf where
  "hook_ex = \<lparr>hc_ID = ''h'', hc_ConcurrencyGroup = ''g'', hc_Timeout = 0, hc_IdleTimeout = 5, hc_State = False, hc_Command = [''run''],
     hc_Networks = [], hc_User = [], hc_Workdir = [], hc_Dind = False, hc_Devices = [], hc_Volumes = [], hc_Userns = False\<rparr>"

definition answers_ex :: answers where
  "answers_ex = \<lparr>an_paths = Inr (''p'', ''q'', ''s''), an_secrets = Inr fmempty, an_settings = None, an_image = Inr (''img'', False),
     an_buildTime = [], an_profile = Inr [], an_command = Inr [], an_stdout = None, an_stderr = None, an_start = None\<rparr>"

definition world_ex :: rworld where
  "world_ex = \<lparr>rw_now = 1, rw_draining = False, rw_groups = NewManager (Some (fmupd ''g'' \<lparr>g_Limit = 1, g_Description = []\<rparr> fmempty)),
     rw_global = NewGlobal 1, rw_ex = []\<rparr>"

definition launch_ex :: "rlabel list" where
  "launch_ex = LStart ''r1'' True True hook_ex [] [] [] answers_ex # replicate 15 (LMain 0 SelSend)"

definition end_ex :: "rlabel list" where
  "end_ex = launch_ex @ [LApi 0 (OpCancel ''x''), LTick 5, LDog 0, LWatch 0 WSilent, LWatch 0 WStop, LExit 0 (WaitExit 137)] @
     replicate 2 (LMain 0 SelSend) @ [LDrained 0] @ replicate 22 (LMain 0 SelSend)"

definition second_ex :: "rlabel list" where
  "second_ex = launch_ex @ LStart ''r2'' True True hook_ex [] [] [] answers_ex # replicate 7 (LMain 1 SelSend)"

lemma world_ex_init: "rw_init world_ex"
  by (auto simp: rw_init_def world_ex_def)

lemma run_ex: "rw_run conf_ex ls world_ex \<noteq> None \<Longrightarrow> (rw_step conf_ex)\<^sup>*\<^sup>* world_ex (the (rw_run conf_ex ls world_ex))"
  by (auto intro: rw_run_reach)

definition trial :: "rlabel list \<Rightarrow> (xpc list \<times> bool list \<times> status list) option" where
  "trial ls = map_option (\<lambda>w. (map x_pc (rw_ex w), map (\<lambda>x. r_cancel (x_run x)) (rw_ex w), map (\<lambda>x. rs_Status (r_state (x_run x))) (rw_ex w)))
     (rw_run conf_ex ls world_ex)"

lemma end_ex_trial: "trial end_ex = Some ([XDone], [True], [StatusTimeout])"
  by code_simp

lemma second_ex_trial: "trial second_ex = Some ([XRunning, XGroup], [False, False], [StatusRunning, StatusPending])"
  by code_simp

lemma trial_ex:
  assumes "trial ls = Some (pcs, bs, sts)"
  shows "rw_run conf_ex ls world_ex \<noteq> None" "map x_pc (rw_ex (the (rw_run conf_ex ls world_ex))) = pcs"
    "map (\<lambda>x. rs_Status (r_state (x_run x))) (rw_ex (the (rw_run conf_ex ls world_ex))) = sts"
    "map (\<lambda>x. r_cancel (x_run x)) (rw_ex (the (rw_run conf_ex ls world_ex))) = bs"
  using assms by (auto simp: trial_def)

lemma trial_nth:
  assumes "trial ls = Some (pcs, bs, sts)" "i < length pcs"
  shows "i < length (rw_ex (the (rw_run conf_ex ls world_ex)))" "x_pc (rw_ex (the (rw_run conf_ex ls world_ex)) ! i) = pcs ! i"
    "(rw_step conf_ex)\<^sup>*\<^sup>* world_ex (the (rw_run conf_ex ls world_ex))"
  using trial_ex [OF assms(1)] assms(2) run_ex [of ls] by auto

definition end_world :: rworld where "end_world = the (rw_run conf_ex end_ex world_ex)"
definition second_world :: rworld where "second_world = the (rw_run conf_ex second_ex world_ex)"

lemma end_world_ex:
  "0 < length (rw_ex end_world)" "x_pc (rw_ex end_world ! 0) = XDone" "(rw_step conf_ex)\<^sup>*\<^sup>* world_ex end_world"
  "rs_Status (r_state (x_run (rw_ex end_world ! 0))) = StatusTimeout" "r_cancel (x_run (rw_ex end_world ! 0))"
  using trial_nth [OF end_ex_trial, of 0] trial_ex(3,4) [OF end_ex_trial] by (auto simp: end_world_def)

lemma second_world_ex:
  "0 < length (rw_ex second_world)" "1 < length (rw_ex second_world)" "x_pc (rw_ex second_world ! 0) = XRunning"
  "x_pc (rw_ex second_world ! 1) = XGroup" "(rw_step conf_ex)\<^sup>*\<^sup>* world_ex second_world"
  using trial_nth [OF second_ex_trial, of 0] trial_nth [OF second_ex_trial, of 1] by (simp_all add: second_world_def)

end
