(* ===== verification/ExecuteSafety.thy ===== *)
theory ExecuteSafety
  imports ExecuteWorld
begin

text \<open>
  Properties of the run pipeline: a run is finished and reported exactly once whatever happens, every
  slot and file it took is given back, a container runs only while its run holds its slots, the
  status a run ends with has its cause, a cancelled run that has not queued yet never starts a
  container, and an execution is only ever blocked by a full queue or a running container.
\<close>

subsection \<open>A run ends once, and leaves nothing behind\<close>

lemma x_inv_reach: "rw_init w0 \<Longrightarrow> (rw_step c)\<^sup>*\<^sup>* w0 w \<Longrightarrow> i < length (rw_ex w) \<Longrightarrow> x_inv c (rw_ex w ! i)"
  using rwi.inv_reachable rw_invD(4) by blast

lemma slots_ok_reach:
  "rw_init w0 \<Longrightarrow> (rw_step c)\<^sup>*\<^sup>* w0 w \<Longrightarrow> i < length (rw_ex w) \<Longrightarrow> slots_ok (rw_groups w) (gl_mgr (rw_global w)) (rw_ex w ! i)"
  using rwi.inv_reachable rw_invD(5) by blast

lemma rw_managers:
  assumes "rw_inv c w"
  shows "mgr_inv (rw_groups w)" "mgr_inv (gl_mgr (rw_global w))"
proof -
  obtain cfg d where r: "mgr_step\<^sup>*\<^sup>* (NewManager cfg) (rw_groups w)" "global_step\<^sup>*\<^sup>* (NewGlobal d) (rw_global w)"
    using rw_invD(2,3) [OF assms] by auto
  then show "mgr_inv (rw_groups w)" "mgr_inv (gl_mgr (rw_global w))"
    using mgi.inv_reachable gli.inv_reachable [OF refl r(2)] by (auto simp: mgr_init_def global_inv_def)
qed

lemma life_returned: "life_ok r \<Longrightarrow> r_fin r = FinishReturned \<Longrightarrow> r_done r \<and> Terminal (rs_Status (r_state r))"
  unfolding life_ok_def Let_def by auto

definition slot_returned :: "pc list \<Rightarrow> nat option \<Rightarrow> bool" where
  "slot_returned thr ot = (case ot of None \<Rightarrow> True | Some t \<Rightarrow> th_ended (thr ! t))"

lemma slot_ok_returned: "slot_ok d q XDone [] ot g r b thr \<Longrightarrow> q \<noteq> XDone \<Longrightarrow> slot_returned thr ot"
  by (auto simp: slot_ok_def slot_returned_def split: option.splits)

text \<open>
  C2: A run is finished and reported exactly once, and nothing it took outlives it.  In every reachable
  state of the runner, under any interleaving of executions, watchers, cancels, timeouts, output,
  container exits, reloads and errors, \<open>onFinish\<close> has been called for a run at most once, and only
  after its done channel was closed and its status became terminal; and when \<open>execute\<close> has returned,
  the run is done, \<open>onFinish\<close> has been called exactly once if there is one, no deferred call is
  outstanding and neither the concurrency group's slot nor the global one is still held.
\<close>

theorem run_ends_once:
  assumes "rw_init w0" "(rw_step c)\<^sup>*\<^sup>* w0 w" "i < length (rw_ex w)"
  shows "count_list (x_trace (rw_ex w ! i)) AOnFinish \<le> 1 \<and>
    (AOnFinish \<in> set (x_trace (rw_ex w ! i)) \<longrightarrow> r_done (x_run (rw_ex w ! i)) \<and> Terminal (rs_Status (r_state (x_run (rw_ex w ! i))))) \<and>
    (x_pc (rw_ex w ! i) = XDone \<longrightarrow>
       r_done (x_run (rw_ex w ! i)) \<and> Terminal (rs_Status (r_state (x_run (rw_ex w ! i)))) \<and>
       count_list (x_trace (rw_ex w ! i)) AOnFinish = of_bool (rc_onFinish (ec_rc c)) \<and> x_defers (rw_ex w ! i) = [] \<and>
       slot_returned (m_thr (rw_groups w)) (x_group (rw_ex w ! i)) \<and>
       slot_returned (m_thr (gl_mgr (rw_global w))) (x_global (rw_ex w ! i)))"
proof -
  let ?x = "rw_ex w ! i"
  note s = x_inv_sels [OF x_inv_reach [OF assms]] and sl = slots_okD [OF slots_ok_reach [OF assms]]
  have "x_pc ?x \<in> {XUnwind, XDone} \<Longrightarrow> r_done (x_run ?x) \<and> Terminal (rs_Status (r_state (x_run ?x)))"
    using s(2) life_returned [OF s(1)] by auto
  moreover have "AOnFinish \<in> set (x_trace ?x) \<Longrightarrow> x_pc ?x \<in> {XUnwind, XDone}"
    using s(3) count_list_0_iff [of "x_trace ?x" AOnFinish] by (auto split: if_splits)
  moreover have "x_pc ?x = XDone \<Longrightarrow> slot_returned (m_thr (rw_groups w)) (x_group ?x) \<and> slot_returned (m_thr (gl_mgr (rw_global w))) (x_global ?x)"
    using sl s(4) by (auto intro: slot_ok_returned)
  ultimately show ?thesis using s(3,4) by auto
qed

theorem run_ends_once_witness:
  "r_done (x_run (rw_ex end_world ! 0)) \<and>
   count_list (x_trace (rw_ex end_world ! 0)) AOnFinish = 1"
proof -
  note tr = end_world_ex
  show ?thesis using run_ends_once [OF world_ex_init tr(3,1)] tr(2) by (simp add: conf_ex_def)
qed

subsection \<open>Containers run within the limits\<close>

definition container_running :: "exec \<Rightarrow> bool" where
  "container_running x \<longleftrightarrow> x_pc x \<in> {XLaunched, XRunning}"

definition sem_of :: "pc list \<Rightarrow> nat option \<Rightarrow> nat option" where
  "sem_of thr ot = (case ot of None \<Rightarrow> None | Some t \<Rightarrow> (case thr ! t of Holding g r p \<Rightarrow> Some p | _ \<Rightarrow> None))"

lemma running_slot:
  assumes "slot_ok d q (x_pc x) ds ot g r b thr" "container_running x" "d \<in> set ds" "q \<in> {XGroup, XGlobal}"
  shows "\<exists>t. ot = Some t \<and> t < length thr \<and> ((\<exists>p. thr ! t = Holding g r p) \<or> thr ! t = Unbounded \<and> g = [])"
proof -
  obtain t where t: "ot = Some t" using assms(1,3) by (auto simp: slot_ok_def split: option.splits)
  then show ?thesis using assms
    by (cases "thr ! t") (auto simp: slot_ok_def container_running_def split: if_splits)
qed

lemma holders_card:
  assumes "apart f xs" "\<And>i. i < length xs \<Longrightarrow> P (xs ! i) \<Longrightarrow> \<exists>t. f (xs ! i) = Some t \<and> t < length thr \<and> holds p (thr ! t)"
  shows "card {i. i < length xs \<and> P (xs ! i)} \<le> card {t. t < length thr \<and> holds p (thr ! t)}"
proof (rule card_inj_on_le [where f = "\<lambda>i. the (f (xs ! i))"])
  show "inj_on (\<lambda>i. the (f (xs ! i))) {i. i < length xs \<and> P (xs ! i)}"
    using assms unfolding inj_on_def apart_def by (smt (verit) mem_Collect_eq option.sel)
  show "(\<lambda>i. the (f (xs ! i))) ` {i. i < length xs \<and> P (xs ! i)} \<subseteq> {t. t < length thr \<and> holds p (thr ! t)}"
    using assms(2) by fastforce
qed simp

lemma running_within:
  assumes "mgr_inv m" "p < length (m_sems m)" "apart f xs" "\<And>x. x \<in> set xs \<Longrightarrow> P x \<Longrightarrow> \<exists>t. f x = Some t \<and> t < length (m_thr m)"
  shows "int (card {i. i < length xs \<and> P (xs ! i) \<and> sem_of (m_thr m) (f (xs ! i)) = Some p}) \<le> sem_limit (m_sems m ! p)"
proof -
  have "card {i. i < length xs \<and> P (xs ! i) \<and> sem_of (m_thr m) (f (xs ! i)) = Some p} \<le> card {t. t < length (m_thr m) \<and> holds p (m_thr m ! t)}"
  proof (rule holders_card [OF assms(3), where P = "\<lambda>x. P x \<and> sem_of (m_thr m) (f x) = Some p"])
    fix i assume "i < length xs" "P (xs ! i) \<and> sem_of (m_thr m) (f (xs ! i)) = Some p"
    then show "\<exists>t. f (xs ! i) = Some t \<and> t < length (m_thr m) \<and> holds p (m_thr m ! t)"
      using assms(4) [of "xs ! i"] by (auto simp: sem_of_def split: option.splits pc.splits)
  qed
  moreover have "sem_tokens (m_sems m ! p) = cnt (holds p) (m_thr m)" "sem_tokens (m_sems m ! p) \<le> sem_limit (m_sems m ! p)"
    using assms(1,2) unfolding mgr_inv_def sems_ok_def by blast+
  ultimately show ?thesis by (simp add: cnt_card)
qed

lemma running_slots:
  assumes "x_inv c x" "slots_ok gm cm x" "container_running x"
  shows "\<exists>t. x_group x = Some t \<and> t < length (m_thr gm) \<and>
      ((\<exists>p. m_thr gm ! t = Holding (hc_ConcurrencyGroup (x_hook x)) (x_ID x) p) \<or> hc_ConcurrencyGroup (x_hook x) = [])"
    "\<exists>t p. x_global x = Some t \<and> t < length (m_thr cm) \<and> m_thr cm ! t = Holding globalGroup (x_ID x) p"
proof -
  have "x_defers x = all_defers" using x_inv_sels(4) [OF assms(1)] assms(3) by (auto simp: container_running_def)
  then have ds: "DGroup \<in> set (x_defers x)" "DGlobal \<in> set (x_defers x)" by simp_all
  show "\<exists>t. x_group x = Some t \<and> t < length (m_thr gm) \<and>
      ((\<exists>p. m_thr gm ! t = Holding (hc_ConcurrencyGroup (x_hook x)) (x_ID x) p) \<or> hc_ConcurrencyGroup (x_hook x) = [])"
    using running_slot [OF slots_okD(1) [OF assms(2)] assms(3) ds(1)] by auto
  show "\<exists>t p. x_global x = Some t \<and> t < length (m_thr cm) \<and> m_thr cm ! t = Holding globalGroup (x_ID x) p"
    using running_slot [OF slots_okD(2) [OF assms(2)] assms(3) ds(2)] by (auto simp: globalGroup_def)
qed

text \<open>
  C1: Containers run within the limits.  In every reachable state of the runner, a run whose container
  is running holds a slot of its own concurrency group (if it names one) and a slot of the global
  cap, both under its own run id; and for every semaphore of either manager the number of running
  containers that hold one of its slots is at most its limit, whatever reloads and operator
  overrides have happened since those containers started.
\<close>

theorem containers_within_limits:
  assumes "rw_init w0" "(rw_step c)\<^sup>*\<^sup>* w0 w"
  defines "gm \<equiv> rw_groups w" and "cm \<equiv> gl_mgr (rw_global w)"
  shows "(\<forall>x \<in> set (rw_ex w). container_running x \<longrightarrow>
      (hc_ConcurrencyGroup (x_hook x) = [] \<or>
       (\<exists>t p. x_group x = Some t \<and> m_thr gm ! t = Holding (hc_ConcurrencyGroup (x_hook x)) (x_ID x) p)) \<and>
      (\<exists>t p. x_global x = Some t \<and> m_thr cm ! t = Holding globalGroup (x_ID x) p)) \<and>
    (\<forall>p < length (m_sems gm).
       int (card {i. i < length (rw_ex w) \<and> container_running (rw_ex w ! i) \<and> sem_of (m_thr gm) (x_group (rw_ex w ! i)) = Some p})
         \<le> sem_limit (m_sems gm ! p)) \<and>
    (\<forall>p < length (m_sems cm).
       int (card {i. i < length (rw_ex w) \<and> container_running (rw_ex w ! i) \<and> sem_of (m_thr cm) (x_global (rw_ex w ! i)) = Some p})
         \<le> sem_limit (m_sems cm ! p))"
proof -
  have inv: "rw_inv c w" using rwi.inv_reachable assms(1,2) by blast
  note m = rw_managers [OF inv, folded gm_def cm_def]
  have sl: "(\<exists>t. x_group x = Some t \<and> t < length (m_thr gm) \<and>
        ((\<exists>p. m_thr gm ! t = Holding (hc_ConcurrencyGroup (x_hook x)) (x_ID x) p) \<or> hc_ConcurrencyGroup (x_hook x) = [])) \<and>
      (\<exists>t p. x_global x = Some t \<and> t < length (m_thr cm) \<and> m_thr cm ! t = Holding globalGroup (x_ID x) p)"
    if "x \<in> set (rw_ex w)" "container_running x" for x
    using running_slots [of c x gm cm] inv that by (auto simp: rw_inv_def gm_def cm_def)
  show ?thesis
    using sl running_within [OF m(1) _ rw_invD(6) [OF inv], where P = container_running]
      running_within [OF m(2) _ rw_invD(7) [OF inv], where P = container_running] by blast
qed

theorem containers_within_limits_witness:
  "container_running (rw_ex second_world ! 0) \<and>
   (\<exists>t p. x_global (rw_ex second_world ! 0) = Some t \<and>
      m_thr (gl_mgr (rw_global second_world)) ! t =
        Holding globalGroup (x_ID (rw_ex second_world ! 0)) p)"
proof -
  note tr = second_world_ex
  have "container_running (rw_ex second_world ! 0)" using tr(3) by (simp add: container_running_def)
  then show ?thesis using containers_within_limits [OF world_ex_init tr(5)] nth_mem [OF tr(1)] by blast
qed

subsection \<open>Why a run ends the way it does\<close>

text \<open>The causes of an outcome: what happened to the run, its watchdog, its context and its process.\<close>

definition justified :: "exec \<Rightarrow> status \<Rightarrow> bool" where
  "justified x st \<longleftrightarrow> (if st = StatusCancelled then rs_CancelRequested (r_state (x_run x))
     else if st = StatusTimeout then wd_fired (x_wd x) \<and> 0 < hc_IdleTimeout (x_hook x) \<or> x_ctx x = CtxDeadline \<and> 0 < hc_Timeout (x_hook x)
     else if st = StatusSuccess then x_wait x = Some WaitOK
     else if st = StatusFailure then \<exists>n. n \<noteq> 0 \<and> x_wait x = Some (WaitExit n)
     else st = StatusError \<and> (x_wait x = None \<or> (\<exists>e. x_wait x = Some (WaitErr e))))"

lemma flagged_justified:
  assumes "chan_ok x" "flagged x st"
  shows "justified x st"
proof -
  have "distinct [StatusCancelled, StatusTimeout, StatusSuccess, StatusFailure, StatusError]" by (simp add: status_defs)
  moreover have "x_timedOut x \<longrightarrow> wd_fired (x_wd x)" "x_deadline x \<longrightarrow> x_ctx x = CtxDeadline" using assms(1) by (simp_all add: chan_ok_def)
  ultimately show ?thesis using assms(2) unfolding flagged_def by (elim disjE conjE) (auto simp: justified_def)
qed

text \<open>
  C11: Every outcome has its cause.  In every reachable state, a run that has finished is cancelled only if a
  cancel was requested, timed out only if the idle watchdog fired on a hook with an idle limit or the
  deadline of the run's context passed on a hook with a timeout, succeeded only if the container exited
  with status zero, failed only if it exited with another status, and is otherwise an error, only if
  no container ever ran to its end or waiting for it failed.
\<close>

theorem outcome_justified:
  assumes "rw_init w0" "(rw_step c)\<^sup>*\<^sup>* w0 w" "i < length (rw_ex w)" "r_done (x_run (rw_ex w ! i))"
  shows "justified (rw_ex w ! i) (rs_Status (r_state (x_run (rw_ex w ! i))))"
proof -
  note s = x_inv_sels [OF x_inv_reach [OF assms(1-3)]]
  have "r_fin (x_run (rw_ex w ! i)) = FinishReturned" using s(1) assms(4) by (simp add: life_ok_def Let_def)
  then have "flagged (rw_ex w ! i) (rs_Status (r_state (x_run (rw_ex w ! i))))" using s(2,6) by (cases "x_pc (rw_ex w ! i)") auto
  then show ?thesis using flagged_justified s(5) by blast
qed

theorem outcome_justified_witness:
  "justified (rw_ex end_world ! 0) StatusTimeout"
proof -
  note tr = end_world_ex
  have "r_done (x_run (rw_ex end_world ! 0))"
    using x_inv_sels(1,2) [OF x_inv_reach [OF world_ex_init tr(3,1)]] tr(2) by (simp add: life_returned)
  from outcome_justified [OF world_ex_init tr(3,1) this] show ?thesis by (simp add: tr(4))
qed

subsection \<open>A run cancelled in time never starts a container\<close>

text \<open>The course of an execution: before it queues, from the queue to the start, with a container
  started, and ending.\<close>

fun stage :: "xpc \<Rightarrow> nat" where
  "stage (XFinish st code err) = 3" | "stage (XFinishing st code err) = 3" | "stage XNotify = 3" | "stage XUnwind = 3" | "stage XDone = 3"
| "stage pc = (if pc \<in> {XCheck, XSecrets, XSettings, XImage, XRecheck} then 0
     else if pc \<in> {XAcquire, XGroup, XAcquireGlobal, XGlobal, XPrepare, XInspect, XBegin, XPipes, XStart} then 1 else 2)"

definition spawned :: "exec \<Rightarrow> bool" where
  "spawned x \<longleftrightarrow> (\<exists>a. ASpawn a \<in> set (x_trace x))"

lemma spawned_sels [simp]:
  "spawned (x_upd f x) = spawned x" "spawned (x_goto pc x) = spawned x" "spawned (x_event k m l x) = spawned x"
  "(\<And>s. a \<noteq> ASpawn s) \<Longrightarrow> spawned (x_act a x) = spawned x" "spawned (x_act (ASpawn s) x)"
  "spawned (x\<lparr>x_secrets := sec\<rparr>) = spawned x" "spawned (x\<lparr>x_image := img\<rparr>) = spawned x" "spawned (x\<lparr>x_spec := sp\<rparr>) = spawned x"
  "spawned (x\<lparr>x_defers := ds\<rparr>) = spawned x" "spawned (x\<lparr>x_ctx := ct\<rparr>) = spawned x" "spawned (x\<lparr>x_wd := wd\<rparr>) = spawned x"
  "spawned (x\<lparr>x_watch := wt\<rparr>) = spawned x" "spawned (x\<lparr>x_stop := b\<rparr>) = spawned x" "spawned (x\<lparr>x_timedOut := b\<rparr>) = spawned x"
  "spawned (x\<lparr>x_deadline := b\<rparr>) = spawned x" "spawned (x\<lparr>x_cancelled := b\<rparr>) = spawned x" "spawned (x\<lparr>x_wait := wr\<rparr>) = spawned x"
  "spawned (x\<lparr>x_group := ot\<rparr>) = spawned x" "spawned (x\<lparr>x_global := ot\<rparr>) = spawned x"
  by (auto simp: spawned_def)

definition x_flow :: "exec \<Rightarrow> exec \<Rightarrow> bool" where
  "x_flow x y \<longleftrightarrow> (r_cancel (x_run x) \<longrightarrow> r_cancel (x_run y)) \<and> stage (x_pc x) \<le> stage (x_pc y) \<and>
     (stage (x_pc x) = 0 \<longrightarrow> stage (x_pc y) = 0 \<or> stage (x_pc y) = 3 \<or> \<not> r_cancel (x_run x)) \<and>
     (spawned y \<longrightarrow> spawned x \<or> stage (x_pc x) = 1 \<and> stage (x_pc y) = 2) \<and>
     (stage (x_pc x) \<noteq> 2 \<longrightarrow> stage (x_pc y) \<noteq> 2 \<longrightarrow> x_wait y = x_wait x \<and> (x_watch y = WNone \<longleftrightarrow> x_watch x = WNone))"

lemma x_flow_same: "(r_cancel (x_run x) \<longrightarrow> r_cancel (x_run y)) \<Longrightarrow> x_pc y = x_pc x \<Longrightarrow> spawned y = spawned x \<Longrightarrow>
  x_wait y = x_wait x \<Longrightarrow> (x_watch y = WNone \<longleftrightarrow> x_watch x = WNone) \<Longrightarrow> x_flow x y"
  by (simp add: x_flow_def)

lemma x_flow_noted: "x_flow x y \<Longrightarrow> x_noted y z \<Longrightarrow> x_flow x z"
  by (simp add: x_flow_def x_noted_def run_mild_def spawned_def)

lemma local_flow:
  assumes "local_next c now x = Some x'"
  shows "x_flow x x'"
proof -
  consider "early_next c now x = Some x'" | "launch_next c now x = Some x'" | "outcome_next c now x = Some x'" | "finish_next_pc c now x = Some x'"
    using assms by (auto simp: local_next_def split: option.splits)
  then show ?thesis
  proof cases
    case 1
    then show ?thesis by (auto simp: early_next_def x_flow_def Let_def split: xpc.splits option.splits sum.splits if_splits)
  next
    case 2
    then show ?thesis
      by (auto simp: launch_next_def x_flow_def prepare_def inspect_command_def set_argv_def begin_run_def Let_def
          split: xpc.splits option.splits sum.splits if_splits)
  next
    case 3
    then show ?thesis by (auto simp: outcome_next_def x_flow_def split: xpc.splits if_splits)
  next
    case 4
    then show ?thesis
      by (auto simp: finish_next_pc_def x_flow_def finishing_step_def Let_def split: xpc.splits list.splits deferred.splits if_splits)
  qed
qed

lemma env_flow:
  assumes "x_env now l x = Some x'" "life_ok (x_run x)" "0 < now"
  shows "x_flow x x'"
proof -
  have mild: "r_cancel (x_run x) \<longrightarrow> r_cancel (run_exec now now op (x_run x))" for op
    using run_mild_exec [OF assms(2,3), of now op] by (simp add: run_mild_def)
  show ?thesis
  proof (cases l)
    case (LWatch i sel)
    then show ?thesis using assms(1)
      by (auto simp: x_env_def watch_next_def intro!: x_flow_same split: wpc.splits wsel.splits ctx_state.splits if_splits)
  next
    case (LExit i res)
    then show ?thesis using assms(1) by (auto simp: x_env_def x_flow_def split: if_splits)
  next
    case (LDrained i)
    then show ?thesis using assms(1) by (auto simp: x_env_def x_flow_def split: if_splits prod.splits)
  qed (use assms(1) mild in \<open>auto simp: x_env_def intro!: x_flow_same split: ctx_state.splits option.splits if_splits\<close>)
qed

definition w_flow :: "rworld \<Rightarrow> rworld \<Rightarrow> bool" where
  "w_flow w w' \<longleftrightarrow> length (rw_ex w) \<le> length (rw_ex w') \<and> (\<forall>i < length (rw_ex w). x_flow (rw_ex w ! i) (rw_ex w' ! i))"

lemma w_flow_refl: "rw_ex w' = rw_ex w \<Longrightarrow> w_flow w w'"
  by (simp add: w_flow_def x_flow_same)

lemma w_flow_set_ex: "x_flow (rw_ex w ! i) x \<Longrightarrow> w_flow w (set_ex i x w)"
  unfolding w_flow_def set_ex_def
proof (intro conjI allI impI)
  fix j assume "x_flow (rw_ex w ! i) x" "j < length (rw_ex w)"
  then show "x_flow (rw_ex w ! j) (rw_ex (w\<lparr>rw_ex := (rw_ex w)[i := x]\<rparr>) ! j)" by (cases "i = j") (simp_all add: x_flow_same)
qed simp

lemma w_flow_notes:
  assumes "w_flow w w'" "\<And>x. life_ok (x_run x) \<Longrightarrow> x_noted x (h x)" "\<And>x. x \<in> set (rw_ex w') \<Longrightarrow> life_ok (x_run x)"
  shows "w_flow w (w'\<lparr>rw_ex := map h (rw_ex w')\<rparr>)"
  using assms(1) x_flow_noted [OF _ assms(2) [OF assms(3)]] by (auto simp: w_flow_def)

lemma w_flow_managers:
  assumes "w_flow w w'" "\<And>x. x \<in> set (rw_ex w') \<Longrightarrow> life_ok (x_run x)" "0 < rw_now w'"
  shows "w_flow w (set_groups c m w')" "w_flow w (set_global m w')"
  using w_flow_notes [OF assms(1) fold_noted [OF group_note_noted [OF _ assms(3)]] assms(2)]
    w_flow_notes [OF assms(1) fold_noted [OF global_note_noted [OF _ assms(3)]] assms(2)]
  by (simp_all add: set_groups_def set_global_def w_flow_def)

lemma w_flow_next:
  assumes "rw_next c l w = Some w'" "rw_inv c w"
  shows "w_flow w w'"
proof -
  note pos = rw_invD(1) [OF assms(2)]
  have life: "life_ok (x_run x)" if "x \<in> set (rw_ex w)" for x using assms(2) that by (auto simp: rw_inv_def dest: x_inv_sels(1))
  note self = w_flow_managers [OF w_flow_refl [OF refl] life pos]
  have env: "w_flow w w'" if "on_ex i (x_env (rw_now w) l) w = Some w'" for i
    using that env_flow [OF _ life pos] by (auto simp: on_ex_def intro!: w_flow_set_ex split: if_splits)
  have upd: "life_ok (x_run y)" if "y \<in> set (rw_ex (set_ex i x w))" "x_run x = x_run (rw_ex w ! i)" "i < length (rw_ex w)" for i x y
    using that life by (auto simp: set_ex_def dest!: set_update_subset_insert [THEN subsetD])
  show ?thesis
  proof (cases l)
    case (LMain i sel)
    then have m: "main_next c sel i w = Some w'" "i < length (rw_ex w)" using assms(1) by (auto simp: rw_next_def split: if_splits)
    let ?x = "rw_ex w ! i"
    have enter: "w_flow w (set_groups c k (set_ex i x w))" "w_flow w (set_global k (set_ex i x w))"
      if "x_flow ?x x" "x_run x = x_run ?x" for k x
      by (rule w_flow_managers [OF w_flow_set_ex [OF that(1)] upd [OF _ that(2) m(2)]], assumption, use pos in \<open>simp add: set_ex_def\<close>)+
    show ?thesis
    proof (cases "x_pc ?x")
      case XAcquire
      then show ?thesis using m(1) by (auto simp: main_next_def Let_def x_flow_def intro!: enter)
    next
      case XAcquireGlobal
      then show ?thesis using m(1) by (auto simp: main_next_def Let_def x_flow_def intro!: enter)
    next
      case XGroup
      then show ?thesis using m(1) self
        by (auto simp: main_next_def Let_def group_result_def x_flow_def intro!: w_flow_set_ex split: option.splits pc.splits)
    next
      case XGlobal
      then show ?thesis using m(1) self
        by (auto simp: main_next_def Let_def global_result_def x_flow_def intro!: w_flow_set_ex split: option.splits pc.splits)
    next
      case XUnwind
      then show ?thesis using m(1) self
        by (auto simp: main_next_def Let_def intro!: w_flow_set_ex intro: local_flow x_flow_same split: list.splits deferred.splits if_splits)
    qed (use m(1) local_flow in \<open>auto simp: main_next_def Let_def intro!: w_flow_set_ex\<close>)
  qed (use assms(1) self env in \<open>auto simp: rw_next_def w_flow_def nth_append x_flow_same\<close>)
qed

text \<open>An execution that will not start a container: cancelled before it queued, or ending without one.\<close>

definition doomed :: "exec \<Rightarrow> bool" where
  "doomed x \<longleftrightarrow> \<not> spawned x \<and> x_wait x = None \<and> x_watch x = WNone \<and> (stage (x_pc x) = 0 \<and> r_cancel (x_run x) \<or> stage (x_pc x) = 3)"

lemma doomed_flow: "doomed x \<Longrightarrow> x_flow x y \<Longrightarrow> stage (x_pc y) \<le> 3 \<Longrightarrow> doomed y"
  by (auto simp: doomed_def x_flow_def)

lemma stage_le: "stage pc \<le> 3"
  by (cases pc) auto

lemma spawned_stage_flow: "(spawned x \<longrightarrow> 2 \<le> stage (x_pc x)) \<Longrightarrow> x_flow x y \<Longrightarrow> spawned y \<Longrightarrow> 2 \<le> stage (x_pc y)"
  by (auto simp: x_flow_def)

lemma runner_start_cold: "\<not> spawned (runner_start now draining rid onFin onChg h title ph pr ans)"
  by (auto simp: runner_start_def spawned_def Let_def split: sum.splits)

lemma new_exec:
  assumes "rw_next c l w = Some w'" "rw_inv c w" "length (rw_ex w) \<le> i" "i < length (rw_ex w')"
  shows "\<not> spawned (rw_ex w' ! i)"
proof (cases l)
  case (LStart rid onFin onChg h title ph pr ans)
  then show ?thesis using assms runner_start_cold by (auto simp: rw_next_def nth_append)
qed (use assms in \<open>auto simp: rw_next_def on_ex_def main_next_def set_ex_def set_groups_def set_global_def Let_def
      split: if_splits xpc.splits option.splits list.splits deferred.splits\<close>)

lemma spawned_stage:
  assumes "rw_init w0" "(rw_step c)\<^sup>*\<^sup>* w0 w"
  shows "i < length (rw_ex w) \<Longrightarrow> spawned (rw_ex w ! i) \<Longrightarrow> 2 \<le> stage (x_pc (rw_ex w ! i))"
  using assms(2)
proof (induction arbitrary: i rule: rtranclp_induct)
  case base
  then show ?case using assms(1) by (simp add: rw_init_def)
next
  case (step w w')
  obtain l where l: "rw_next c l w = Some w'" using step(2) by (auto simp: rw_step_def)
  have inv: "rw_inv c w" using rwi.inv_reachable assms(1) step(1) by blast
  show ?case
  proof (cases "i < length (rw_ex w)")
    case True
    then show ?thesis using w_flow_next [OF l inv] step.IH spawned_stage_flow [of "rw_ex w ! i" "rw_ex w' ! i"] step.prems
      by (auto simp: w_flow_def)
  next
    case False
    then show ?thesis using new_exec [OF l inv] step.prems by auto
  qed
qed

lemma doomed_steps:
  assumes "rw_init w0" "(rw_step c)\<^sup>*\<^sup>* w0 w" "(rw_step c)\<^sup>*\<^sup>* w w'" "i < length (rw_ex w)" "doomed (rw_ex w ! i)"
  shows "i < length (rw_ex w') \<and> doomed (rw_ex w' ! i)"
  using assms(3)
proof (induction rule: rtranclp_induct)
  case base
  then show ?case using assms(4,5) by simp
next
  case (step w1 w2)
  obtain l where l: "rw_next c l w1 = Some w2" using step(2) by (auto simp: rw_step_def)
  have inv: "rw_inv c w1" using rwi.inv_reachable [OF assms(1)] rtranclp_trans [OF assms(2) step(1)] by blast
  show ?case using w_flow_next [OF l inv] step.IH doomed_flow stage_le by (auto simp: w_flow_def)
qed

text \<open>
  C12: A cancel that comes in time keeps the container from starting.  If a run's cancel has been
  requested before its execution reaches the queue (while it decrypts secrets, validates settings
  or builds its image), then no container is started for it in any state the runner can reach
  afterwards, and when its execution has ended the run is recorded as cancelled, or as an error if an
  earlier step failed by itself.
\<close>

theorem early_cancel_never_launches:
  assumes "rw_init w0" "(rw_step c)\<^sup>*\<^sup>* w0 w" "i < length (rw_ex w)" "x_pc (rw_ex w ! i) \<in> {XCheck, XSecrets, XSettings, XImage, XRecheck}"
    "r_cancel (x_run (rw_ex w ! i))" "(rw_step c)\<^sup>*\<^sup>* w w'"
  shows "(\<forall>a. ASpawn a \<notin> set (x_trace (rw_ex w' ! i))) \<and>
    (x_pc (rw_ex w' ! i) = XDone \<longrightarrow> rs_Status (r_state (x_run (rw_ex w' ! i))) \<in> {StatusCancelled, StatusError})"
proof -
  have "stage (x_pc (rw_ex w ! i)) = 0" "x_wait (rw_ex w ! i) = None" "x_watch (rw_ex w ! i) = WNone"
    using assms(4) x_inv_sels(6) [OF x_inv_reach [OF assms(1-3)]] by auto
  moreover from this have "\<not> spawned (rw_ex w ! i)" using spawned_stage [OF assms(1,2,3)] by auto
  ultimately have "doomed (rw_ex w ! i)" using assms(5) by (simp add: doomed_def)
  then have d: "i < length (rw_ex w')" "doomed (rw_ex w' ! i)" using doomed_steps [OF assms(1,2,6,3)] by blast+
  note s = x_inv_sels(5,6) [OF x_inv_reach [OF assms(1) rtranclp_trans [OF assms(2,6)] d(1)]]
  have "flagged (rw_ex w' ! i) (rs_Status (r_state (x_run (rw_ex w' ! i))))" if "x_pc (rw_ex w' ! i) = XDone" using s(2) that by simp
  then show ?thesis using d(2) s(1) by (auto simp: doomed_def spawned_def flagged_def chan_ok_def)
qed

definition cancel_ex :: "rlabel list" where
  "cancel_ex = [LStart ''r1'' True True hook_ex [] [] [] answers_ex, LMain 0 SelSend, LApi 0 (OpCancel ''x'')]"

lemma rw_run_append: "rw_run c (ls @ ls') w = Option.bind (rw_run c ls w) (rw_run c ls')"
  by (induction ls arbitrary: w) (auto split: Option.bind_split)

lemma cancel_ex_trial: "trial cancel_ex = Some ([XSecrets], [True], [StatusPending])"
  by code_simp

lemma cancelled_ex_trial: "trial (cancel_ex @ replicate 14 (LMain 0 SelSend)) = Some ([XDone], [True], [StatusCancelled])"
  by code_simp

theorem early_cancel_never_launches_witness:
  "\<forall>a. ASpawn a \<notin> set (x_trace (rw_ex (the (rw_run conf_ex (cancel_ex @ replicate 14 (LMain 0 SelSend)) world_ex)) ! 0))"
proof -
  note a = trial_ex [OF cancel_ex_trial] and b = trial_ex(1) [OF cancelled_ex_trial]
  have "(rw_step conf_ex)\<^sup>*\<^sup>* (the (rw_run conf_ex cancel_ex world_ex)) (the (rw_run conf_ex (cancel_ex @ replicate 14 (LMain 0 SelSend)) world_ex))"
    using b by (auto simp: rw_run_append bind_eq_Some_conv intro: rw_run_reach)
  moreover have "r_cancel (x_run (rw_ex (the (rw_run conf_ex cancel_ex world_ex)) ! 0))" using a(2,4) by auto
  ultimately show ?thesis
    using early_cancel_never_launches [OF world_ex_init trial_nth(3) [OF cancel_ex_trial, of 0]] trial_nth(1,2) [OF cancel_ex_trial, of 0] by simp
qed

subsection \<open>What an execution can wait for\<close>

definition queue_full :: "mgr \<Rightarrow> nat option \<Rightarrow> bool" where
  "queue_full m ot \<longleftrightarrow> (\<exists>t g r p. ot = Some t \<and> m_thr m ! t = Wait g r p \<and> fmlookup (m_groups m) g = Some p \<and>
     int (card {k. k < length (m_thr m) \<and> holds p (m_thr m ! k)}) = sem_limit (m_sems m ! p))"

lemma local_enabled:
  assumes "x_pc x \<notin> {XAcquire, XGroup, XAcquireGlobal, XGlobal, XRunning, XStreams, XDone}"
    "x_pc x = XUnwind \<longrightarrow> x_defers x = [] \<or> hd (x_defers x) \<notin> {DGroup, DGlobal}"
  shows "local_next c now x \<noteq> None"
  using assms
  by (cases "x_pc x") (auto simp: local_next_def early_next_def launch_next_def outcome_next_def finish_next_pc_def
      split: list.splits deferred.splits)

lemma acquire_enabled:
  assumes "mgr_inv m" "t < length (m_thr m)" "th_for g r (m_thr m ! t)" "\<not> th_freed (m_thr m ! t)"
    "\<not> (case m_thr m ! t of Failed e \<Rightarrow> True | NotAcquired \<Rightarrow> True | Holding _ _ _ \<Rightarrow> True | Unbounded \<Rightarrow> True | _ \<Rightarrow> False)"
  shows "(\<exists>sel m'. acquire_next sel now b t m = Some m') \<or> \<not> b \<and> queue_full m (Some t)"
proof (cases "m_thr m ! t")
  case (Wait g' r' p)
  then have p: "p < length (m_sems m)" "fmlookup (m_groups m) g' = Some p \<or> sem_retired (m_sems m ! p)"
    using mgr_inv_pc [OF assms(1,2)] by simp_all
  have "sem_tokens (m_sems m ! p) = cnt (holds p) (m_thr m)" "sem_tokens (m_sems m ! p) \<le> sem_limit (m_sems m ! p)"
    using assms(1) p(1) unfolding mgr_inv_def sems_ok_def by blast+
  then have full: "\<not> has_room (m_sems m ! p) \<Longrightarrow> fmlookup (m_groups m) g' = Some p \<Longrightarrow> queue_full m (Some t)"
    using Wait by (simp add: queue_full_def has_room_def cnt_card)
  consider "has_room (m_sems m ! p)" | b | "sem_retired (m_sems m ! p)" | "queue_full m (Some t)" "\<not> b" using full p(2) by blast
  then show ?thesis
  proof cases
    case 1
    then have "acquire_next SelSend now b t m \<noteq> None" using Wait by (simp add: acquire_next_def)
    then show ?thesis by blast
  next
    case 2
    then have "acquire_next SelCancel now b t m \<noteq> None" using Wait by (simp add: acquire_next_def)
    then show ?thesis by blast
  next
    case 3
    then have "acquire_next SelRetire now b t m \<noteq> None" using Wait by (simp add: acquire_next_def)
    then show ?thesis by blast
  qed simp
qed (use assms in \<open>auto simp: acquire_next_def\<close>)

lemma release_enabled:
  assumes "mgr_inv m" "t < length (m_thr m)" "releasing t m"
  shows "release_next t m \<noteq> None"
proof (cases "m_thr m ! t")
  case (Holding g r p)
  then have p: "p < length (m_sems m)" using mgr_inv_pc [OF assms(1,2)] by simp
  then have "sem_tokens (m_sems m ! p) = cnt (holds p) (m_thr m)" using assms(1) unfolding mgr_inv_def sems_ok_def by blast
  moreover have "{k. k < length (m_thr m) \<and> holds p (m_thr m ! k)} \<noteq> {}" using assms(2) Holding by auto
  ultimately have "0 < sem_tokens (m_sems m ! p)" by (simp add: cnt_card card_gt_0_iff)
  then show ?thesis using Holding by (simp add: release_next_def)
qed (use assms(3) in \<open>simp_all add: release_next_def releasing_def\<close>)

lemma group_enabled:
  assumes "rw_inv c w" "i < length (rw_ex w)" "x_pc (rw_ex w ! i) = XGroup"
  shows "(\<exists>sel. main_next c sel i w \<noteq> None) \<or> \<not> r_cancel (x_run (rw_ex w ! i)) \<and> queue_full (rw_groups w) (x_group (rw_ex w ! i))"
proof -
  let ?x = "rw_ex w ! i" and ?gm = "rw_groups w"
  note ok = rw_invD(5) [OF assms(1,2)]
  obtain t where t: "x_group ?x = Some t" "t < length (m_thr ?gm)" using slot_thread(1) [OF ok] assms(3) by blast
  then have th: "th_for (hc_ConcurrencyGroup (x_hook ?x)) (x_ID ?x) (m_thr ?gm ! t)" "\<not> th_freed (m_thr ?gm ! t)"
    using slots_okD(1) [OF ok] assms(3) by (simp_all add: slot_ok_def)
  show ?thesis
  proof (cases "group_result c (rw_now w) (m_thr ?gm ! t) ?x")
    case None
    then have "\<not> (case m_thr ?gm ! t of Failed e \<Rightarrow> True | NotAcquired \<Rightarrow> True | Holding _ _ _ \<Rightarrow> True | Unbounded \<Rightarrow> True | _ \<Rightarrow> False)"
      by (simp add: group_result_def split: pc.splits)
    from acquire_enabled [OF rw_managers(1) [OF assms(1)] t(2) th this, of "rw_now w" "r_cancel (x_run ?x)"] show ?thesis
      using assms(3) t(1) None by (fastforce simp: main_next_def Let_def)
  next
    case (Some y)
    then show ?thesis using assms(3) t(1) by (simp add: main_next_def Let_def)
  qed
qed

lemma global_enabled:
  assumes "rw_inv c w" "i < length (rw_ex w)" "x_pc (rw_ex w ! i) = XGlobal"
  shows "(\<exists>sel. main_next c sel i w \<noteq> None) \<or> \<not> r_cancel (x_run (rw_ex w ! i)) \<and> queue_full (gl_mgr (rw_global w)) (x_global (rw_ex w ! i))"
proof -
  let ?x = "rw_ex w ! i" and ?cm = "gl_mgr (rw_global w)"
  note ok = rw_invD(5) [OF assms(1,2)]
  obtain t where t: "x_global ?x = Some t" "t < length (m_thr ?cm)" using slot_thread(2) [OF ok] assms(3) by blast
  then have th: "th_for globalGroup (x_ID ?x) (m_thr ?cm ! t)" "\<not> th_freed (m_thr ?cm ! t)"
    using slots_okD(2) [OF ok] assms(3) by (simp_all add: slot_ok_def)
  show ?thesis
  proof (cases "global_result (rw_now w) (m_thr ?cm ! t) ?x")
    case None
    then have "\<not> (case m_thr ?cm ! t of Failed e \<Rightarrow> True | NotAcquired \<Rightarrow> True | Holding _ _ _ \<Rightarrow> True | Unbounded \<Rightarrow> True | _ \<Rightarrow> False)"
      using th(1) by (auto simp: global_result_def globalGroup_def split: pc.splits)
    from acquire_enabled [OF rw_managers(2) [OF assms(1)] t(2) th this, of "rw_now w" "r_cancel (x_run ?x)"] show ?thesis
      using assms(3) t(1) None by (fastforce simp: main_next_def Let_def)
  next
    case (Some y)
    then show ?thesis using assms(3) t(1) by (simp add: main_next_def Let_def)
  qed
qed

lemma unwind_enabled:
  assumes "rw_inv c w" "i < length (rw_ex w)" "x_pc (rw_ex w ! i) = XUnwind"
  shows "main_next c sel i w \<noteq> None"
proof (cases "x_defers (rw_ex w ! i) = [] \<or> hd (x_defers (rw_ex w ! i)) \<notin> {DGroup, DGlobal}")
  case True
  then have "local_next c (rw_now w) (rw_ex w ! i) \<noteq> None" using assms(3) by (intro local_enabled) simp_all
  then show ?thesis using assms(3) True by (auto simp: main_next_def Let_def split: list.splits deferred.splits)
next
  case False
  note ok = rw_invD(5) [OF assms(1,2)]
  obtain d ds where d: "x_defers (rw_ex w ! i) = d # ds" "d \<in> {DGroup, DGlobal}" using False by (cases "x_defers (rw_ex w ! i)") auto
  obtain t where g: "d = DGroup \<Longrightarrow> x_group (rw_ex w ! i) = Some t \<and> t < length (m_thr (rw_groups w))" using slot_thread(1) [OF ok] d by auto
  obtain u where u: "d = DGlobal \<Longrightarrow> x_global (rw_ex w ! i) = Some u \<and> u < length (m_thr (gl_mgr (rw_global w)))"
    using slot_thread(2) [OF ok] d by auto
  show ?thesis
    using assms(3) d g u release_enabled [OF rw_managers(1) [OF assms(1)], of t] release_enabled [OF rw_managers(2) [OF assms(1)], of u]
    by (auto simp: main_next_def Let_def)
qed

lemma plain_enabled:
  assumes "x_pc (rw_ex w ! i) \<notin> {XGroup, XGlobal, XUnwind, XRunning, XStreams, XDone}"
  shows "main_next c sel i w \<noteq> None"
proof (cases "x_pc (rw_ex w ! i) \<in> {XAcquire, XAcquireGlobal}")
  case False
  then have "local_next c (rw_now w) (rw_ex w ! i) \<noteq> None" using assms by (intro local_enabled) auto
  then show ?thesis using assms False by (auto simp: main_next_def Let_def split: xpc.splits)
qed (auto simp: main_next_def Let_def)

text \<open>
  C10: An execution is only ever blocked by its container or by a full queue.  In every reachable state,
  an execution that has not returned can take a step by itself, or its container is still running
  or writing output, or it waits in the queue of its group or of the global cap, its cancel has not
  been requested, and every slot of the semaphore it waits on is taken.  In particular a cancel
  always gets a queued run moving, and giving back what a run took never blocks.
\<close>

theorem exec_not_stuck:
  assumes "rw_init w0" "(rw_step c)\<^sup>*\<^sup>* w0 w" "i < length (rw_ex w)" "x_pc (rw_ex w ! i) \<noteq> XDone"
  shows "(\<exists>sel w'. rw_next c (LMain i sel) w = Some w') \<or> x_pc (rw_ex w ! i) \<in> {XRunning, XStreams} \<or>
    \<not> r_cancel (x_run (rw_ex w ! i)) \<and>
      (x_pc (rw_ex w ! i) = XGroup \<and> queue_full (rw_groups w) (x_group (rw_ex w ! i)) \<or>
       x_pc (rw_ex w ! i) = XGlobal \<and> queue_full (gl_mgr (rw_global w)) (x_global (rw_ex w ! i)))"
proof -
  have inv: "rw_inv c w" using rwi.inv_reachable assms(1,2) by blast
  have main: "main_next c sel i w \<noteq> None \<Longrightarrow> \<exists>sel w'. rw_next c (LMain i sel) w = Some w'" for sel
    using assms(3) by (auto simp: rw_next_def)
  show ?thesis
    using main group_enabled [OF inv assms(3)] global_enabled [OF inv assms(3)] unwind_enabled [OF inv assms(3)] plain_enabled [of w i c] assms(4)
    by blast
qed

theorem exec_not_stuck_witness:
  "(\<exists>sel w'. rw_next conf_ex (LMain 1 sel) second_world = Some w') \<or>
   \<not> r_cancel (x_run (rw_ex second_world ! 1)) \<and> queue_full (rw_groups second_world) (x_group (rw_ex second_world ! 1))"
  using exec_not_stuck [OF world_ex_init second_world_ex(5,2)] second_world_ex(4) by simp

text \<open>
  A requested cancel can lose against a timeout.  The watcher waits in one \<open>select\<close> and closes one
  of the three channels, so when a run is cancelled and its idle limit passes before the watcher
  moves, the watcher may take the timeout; the run then ends as timed out although its cancel was
  requested first.
\<close>

theorem cancel_loses_race:
  "rw_run conf_ex end_ex world_ex = Some end_world \<and> x_pc (rw_ex end_world ! 0) = XDone \<and>
   r_cancel (x_run (rw_ex end_world ! 0)) \<and> rs_Status (r_state (x_run (rw_ex end_world ! 0))) = StatusTimeout"
  using end_world_ex trial_ex(1) [OF end_ex_trial] by (auto simp: end_world_def)

end
