(* ===== verification/Auth.thy ===== *)
theory Auth
  imports StateApi Container
begin

text \<open>
  Model of \<^verbatim>\<open>internal/server/auth.go\<close>, \<^verbatim>\<open>legacy_auth.go\<close>, \<^verbatim>\<open>internal/hooks/expand.go\<close>, the secrets
  lookup of \<^verbatim>\<open>secrets.go\<close> and \<open>validateAuth\<close> of \<^verbatim>\<open>hook.go\<close>: who may trigger a hook.

  The standard library's base64 (padded and not) and hexadecimal decoders are modelled here; the
  keyed hash \<open>HMAC-SHA-256\<close> and the verification of an Ed25519 signature are the parameters \<open>au_hmac\<close>
  and \<open>au_ed25519\<close>, the decryption of a hook's secrets file and the host environment are
  \<open>au_secrets\<close> and \<open>au_env\<close>.  The lemmas show which encodings of a signature are accepted and that a
  keyed hook admits exactly the requests that present its key or a valid signature.
\<close>

subsection \<open>\<open>base64.StdEncoding\<close>, \<open>base64.RawStdEncoding\<close> and \<open>hex\<close>\<close>

definition std_alphabet :: string where
  "std_alphabet = ''ABCDEFGHIJKLMNOPQRSTUVWXYZabcdefghijklmnopqrstuvwxyz0123456789+/''"

definition std_char :: "nat \<Rightarrow> char" where "std_char k = std_alphabet ! k"

definition std_val :: "char \<Rightarrow> nat option" where "std_val c = b64_find c 0 std_alphabet"

text \<open>Four characters at a time; padding only in the last group, and only in the padded encoding.\<close>

fun b64_quanta :: "bool \<Rightarrow> string \<Rightarrow> string option" where
  "b64_quanta pad [] = Some []"
| "b64_quanta pad [a] = None"
| "b64_quanta pad [a, b] = (if pad then None
     else case (std_val a, std_val b) of (Some p, Some q) \<Rightarrow> Some [byte (p * 4 + q div 16)] | _ \<Rightarrow> None)"
| "b64_quanta pad [a, b, c] = (if pad then None
     else case (std_val a, std_val b, std_val c) of
       (Some p, Some q, Some r) \<Rightarrow> Some [byte (p * 4 + q div 16), byte (q * 16 + r div 4)] | _ \<Rightarrow> None)"
| "b64_quanta pad (a # b # c # d # cs) =
     (case (std_val a, std_val b, std_val c, std_val d) of
        (Some p, Some q, Some r, Some s) \<Rightarrow>
          map_option (\<lambda>bs. byte (p * 4 + q div 16) # byte (q * 16 + r div 4) # byte (r * 64 + s) # bs) (b64_quanta pad cs)
      | (Some p, Some q, Some r, None) \<Rightarrow>
          if pad \<and> d = CHR ''='' \<and> cs = [] then Some [byte (p * 4 + q div 16), byte (q * 16 + r div 4)] else None
      | (Some p, Some q, None, _) \<Rightarrow>
          if pad \<and> c = CHR ''='' \<and> d = CHR ''='' \<and> cs = [] then Some [byte (p * 4 + q div 16)] else None
      | _ \<Rightarrow> None)"

definition b64_DecodeString :: "bool \<Rightarrow> string \<Rightarrow> string option" where
  "b64_DecodeString pad s = b64_quanta pad (filter (\<lambda>c. c \<noteq> CHR 0x0A \<and> c \<noteq> CHR 0x0D) s)"

definition hex_digits :: string where "hex_digits = ''0123456789abcdef''"

definition hex_val :: "char \<Rightarrow> nat option" where
  "hex_val c = (case b64_find c 0 hex_digits of Some k \<Rightarrow> Some k | None \<Rightarrow> b64_find c 10 ''ABCDEF'')"

fun hex_DecodeString :: "string \<Rightarrow> string option" where
  "hex_DecodeString [] = Some []"
| "hex_DecodeString [a] = None"
| "hex_DecodeString (a # b # cs) = (case (hex_val a, hex_val b) of
     (Some p, Some q) \<Rightarrow> map_option (\<lambda>bs. byte (p * 16 + q) # bs) (hex_DecodeString cs) | _ \<Rightarrow> None)"

fun hex_EncodeToString :: "string \<Rightarrow> string" where
  "hex_EncodeToString [] = []"
| "hex_EncodeToString (b # bs) = hex_digits ! (ord b div 16) # hex_digits ! (ord b mod 16) # hex_EncodeToString bs"

subsection \<open>Keys and signatures\<close>

datatype key_error = KeyEncoding | KeySize

text \<open>The chain of decoders that \<open>decodePublicKey\<close>, \<open>decodeSig\<close> and \<open>parseEd25519PublicKey\<close> share.\<close>

definition decode_any :: "string \<Rightarrow> string option" where
  "decode_any s = (case b64_DecodeString True s of Some b \<Rightarrow> Some b | None \<Rightarrow>
     (case b64_DecodeString False s of Some b \<Rightarrow> Some b | None \<Rightarrow> hex_DecodeString s))"

definition PublicKeySize :: nat where "PublicKeySize = 32"
definition SignatureSize :: nat where "SignatureSize = 64"

definition decodePublicKey :: "string \<Rightarrow> key_error + string" where
  "decodePublicKey s = (case decode_any s of None \<Rightarrow> Inl KeyEncoding
     | Some b \<Rightarrow> if length b \<noteq> PublicKeySize then Inl KeySize else Inr b)"

definition decodeSig :: "string \<Rightarrow> key_error + string" where
  "decodeSig s = (case decode_any s of None \<Rightarrow> Inl KeyEncoding
     | Some b \<Rightarrow> if length b \<noteq> SignatureSize then Inl KeySize else Inr b)"

definition parseEd25519PublicKey :: "string \<Rightarrow> key_error + string" where
  "parseEd25519PublicKey s = (case decode_any s of None \<Rightarrow> Inl KeyEncoding
     | Some b \<Rightarrow> if length b \<noteq> PublicKeySize then Inl KeySize else Inr b)"

subsection \<open>References to secrets\<close>

text \<open>The regular expression \<^verbatim>\<open>\$\{([A-Za-z_][A-Za-z0-9_]*)\}\<close> at the start of a string: the name, and
  what follows the reference.\<close>

definition ref_start :: "char \<Rightarrow> bool" where
  "ref_start c \<longleftrightarrow> upper_letter c \<or> lower_letter c \<or> c = CHR ''_''"

definition ref_char :: "char \<Rightarrow> bool" where
  "ref_char c \<longleftrightarrow> ref_start c \<or> (CHR ''0'' \<le> c \<and> c \<le> CHR ''9'')"

definition env_ref :: "string \<Rightarrow> (string \<times> string) option" where
  "env_ref s = (case s of
     d # b # rest \<Rightarrow>
       (let name = takeWhile ref_char rest; after = dropWhile ref_char rest in
        if d = CHR ''$'' \<and> b = CHR ''{'' \<and> name \<noteq> [] \<and> ref_start (hd name) \<and> after \<noteq> [] \<and> hd after = CHR ''}''
        then Some (name, tl after) else None)
   | _ \<Rightarrow> None)"

lemma env_ref_shorter: "env_ref s = Some (name, rest) \<Longrightarrow> length rest < length s"
proof -
  assume a: "env_ref s = Some (name, rest)"
  then obtain d b r where s: "s = d # b # r" by (auto simp: env_ref_def split: list.splits)
  then have "rest = tl (dropWhile ref_char r)" using a by (auto simp: env_ref_def Let_def split: if_splits)
  then show ?thesis using s length_dropWhile_le [of ref_char r] by simp
qed

function ExpandEnvRefs :: "(string \<Rightarrow> string option) \<Rightarrow> string \<Rightarrow> string \<times> string list" where
  "ExpandEnvRefs look s = (case env_ref s of
     Some (name, rest) \<Rightarrow> (let (e, m) = ExpandEnvRefs look rest in
       case look name of Some v \<Rightarrow> (v @ e, m) | None \<Rightarrow> (e, name # m))
   | None \<Rightarrow> (case s of [] \<Rightarrow> ([], []) | c # cs \<Rightarrow> let (e, m) = ExpandEnvRefs look cs in (c # e, m)))"
  by pat_completeness auto
termination
  by (relation "measure (\<lambda>(look, s). length s)") (auto dest: env_ref_shorter)

declare ExpandEnvRefs.simps [simp del]

definition SecretsFirstLookup :: "(string \<Rightarrow> string option) \<Rightarrow> (string, string) fmap \<Rightarrow> string \<Rightarrow> string option" where
  "SecretsFirstLookup env secrets name = (case fmlookup secrets name of Some v \<Rightarrow> Some v | None \<Rightarrow> env name)"

subsection \<open>\<open>authenticate\<close>\<close>

record hook_decl = hook_conf +
  hk_APIKey :: string
  hk_APIKeyHeader :: string
  hk_PublicKey :: string
  hk_SignatureHeader :: string
  hk_Secret :: string
  hk_Synchronous :: bool
  hk_Enable :: "bool option"
  hk_SkipIf :: skip_conditions
  hk_RunTitle :: string
  hk_titleTmpl :: "title_template option"

record auth_conf =
  au_hmac :: "string \<Rightarrow> string \<Rightarrow> string"
  au_ed25519 :: "string \<Rightarrow> string \<Rightarrow> string \<Rightarrow> bool"
  au_env :: "string \<Rightarrow> string option"
  au_secrets :: "(string \<Rightarrow> string + (string, string) fmap) option"

definition DefaultSignatureHeader :: string where "DefaultSignatureHeader = ''X-Signature-Ed25519''"
definition LegacySignatureHeader :: string where "LegacySignatureHeader = ''X-Hub-Signature-256''"
definition DefaultAPIKeyHeader :: string where "DefaultAPIKeyHeader = ''X-API-Key''"

definition SigHeader :: "hook_decl \<Rightarrow> string" where
  "SigHeader h = (if hk_SignatureHeader h \<noteq> [] then hk_SignatureHeader h
     else if hk_Secret h \<noteq> [] then LegacySignatureHeader else DefaultSignatureHeader)"

definition APIKeyHdr :: "hook_decl \<Rightarrow> string" where
  "APIKeyHdr h = (if hk_APIKeyHeader h \<noteq> [] then hk_APIKeyHeader h else DefaultAPIKeyHeader)"

definition validateAuth :: "hook_decl \<Rightarrow> bool" where
  "validateAuth h \<longleftrightarrow> length (filter (\<lambda>s. s \<noteq> []) [hk_APIKey h, hk_PublicKey h, hk_Secret h]) \<le> 1 \<and>
     (hk_PublicKey h \<noteq> [] \<longrightarrow> (\<exists>k. parseEd25519PublicKey (hk_PublicKey h) = Inr k))"

text \<open>\<open>strings.IndexByte\<close>, and \<open>strings.EqualFold\<close> with a constant of letters and digits none of which
  has a further case form outside ASCII except \<open>s\<close> (the long s, two bytes).\<close>

definition fold_sha256 :: "string \<Rightarrow> bool" where
  "fold_sha256 s \<longleftrightarrow> map to_lower s = ''sha256'' \<or>
     (take 2 s = [CHR 0xC5, CHR 0xBF] \<and> map to_lower (drop 2 s) = ''ha256'')"

definition sig_hex :: "string \<Rightarrow> string option" where
  "sig_hex header = (let got = trim_space header in
     if CHR ''='' \<in> set got
     then (if fold_sha256 (takeWhile (\<lambda>c. c \<noteq> CHR ''='') got) then Some (tl (dropWhile (\<lambda>c. c \<noteq> CHR ''='') got)) else None)
     else Some got)"

definition verifyLegacyHMAC :: "(string \<Rightarrow> string \<Rightarrow> string) \<Rightarrow> string \<Rightarrow> string \<Rightarrow> string \<Rightarrow> bool" where
  "verifyLegacyHMAC hmac body header secret = (case sig_hex header of None \<Rightarrow> False
     | Some got \<Rightarrow> (case hex_DecodeString got of None \<Rightarrow> False | Some b \<Rightarrow> b = hmac secret body))"

text \<open>The three checks: the error, if any, and the events recorded.\<close>

type_synonym feed_event = "string \<times> string \<times> (string \<times> string) list"

definition api_key :: "auth_conf \<Rightarrow> hook_decl \<Rightarrow> string + string \<times> string list" where
  "api_key c h = (case (case au_secrets c of None \<Rightarrow> Inr fmempty | Some load \<Rightarrow> load (hc_ID h)) of
     Inl e \<Rightarrow> Inl ''server misconfigured: hook secrets unavailable''
   | Inr secrets \<Rightarrow> Inr (ExpandEnvRefs (SecretsFirstLookup (au_env c) secrets) (hk_APIKey h)))"

definition checkAPIKey :: "auth_conf \<Rightarrow> hook_decl \<Rightarrow> header \<Rightarrow> string option \<times> feed_event list" where
  "checkAPIKey c h hdr = (case api_key c h of
     Inl e \<Rightarrow> (Some e, [])
   | Inr (want, missing) \<Rightarrow>
       if want = []
       then (Some ''api key not configured on the server'',
             if missing \<noteq> [] then [(''hook.misconfigured'', hc_ID h @ '': api_key reference ${'' @ join_with ''}, ${'' missing @
               ''} did not resolve (secrets.sops.env / host env); all callers are denied'', [(''hook'', hc_ID h)])] else [])
       else if header_Get hdr (APIKeyHdr h) \<noteq> want then (Some ''invalid api key'', []) else (None, []))"

definition checkPublicKey :: "auth_conf \<Rightarrow> hook_decl \<Rightarrow> header \<Rightarrow> string \<Rightarrow> string option" where
  "checkPublicKey c h hdr body = (case decodePublicKey (hk_PublicKey h) of
     Inl e \<Rightarrow> Some ''server misconfigured: bad public key''
   | Inr pub \<Rightarrow> (case decodeSig (header_Get hdr (SigHeader h)) of
       Inl e \<Rightarrow> Some ''invalid signature encoding''
     | Inr sig \<Rightarrow> if au_ed25519 c pub body sig then None else Some ''invalid signature''))"

definition checkLegacyHMAC :: "auth_conf \<Rightarrow> hook_decl \<Rightarrow> header \<Rightarrow> string \<Rightarrow> string option" where
  "checkLegacyHMAC c h hdr body =
     (if verifyLegacyHMAC (au_hmac c) body (header_Get hdr (SigHeader h)) (hk_Secret h) then None else Some ''invalid signature'')"

definition authenticate :: "auth_conf \<Rightarrow> hook_decl \<Rightarrow> header \<Rightarrow> string \<Rightarrow> string option \<times> feed_event list" where
  "authenticate c h hdr body =
     (if hk_APIKey h \<noteq> [] then checkAPIKey c h hdr
      else if hk_PublicKey h \<noteq> [] then (checkPublicKey c h hdr body, [])
      else if hk_Secret h \<noteq> [] then (checkLegacyHMAC c h hdr body, [])
      else (None, []))"

subsection \<open>Which encodings are accepted\<close>

definition std_EncodeToString :: "bool \<Rightarrow> string \<Rightarrow> string" where
  "std_EncodeToString pad s = map std_char (b64_ints s) @
     (if pad then (if length s mod 3 = 1 then ''=='' else if length s mod 3 = 2 then ''='' else []) else [])"

lemma std_val_all: "list_all (\<lambda>k. std_val (std_char k) = Some k \<and> std_char k \<noteq> CHR 0x0A \<and> std_char k \<noteq> CHR 0x0D) [0..<64]"
  by code_simp

lemma std_val_char:
  assumes "k < 64"
  shows "std_val (std_char k) = Some k" "std_char k \<noteq> CHR 0x0A" "std_char k \<noteq> CHR 0x0D"
  using assms std_val_all unfolding list_all_iff set_upt by auto

lemma std_val_pad [simp]: "std_val (CHR ''='') = None"
  by code_simp

lemma quanta_ints:
  "b64_quanta False (map std_char (b64_ints s)) = Some s"
  "b64_quanta True (map std_char (b64_ints s) @ (if length s mod 3 = 1 then ''=='' else if length s mod 3 = 2 then ''='' else [])) = Some s"
proof (induction s rule: b64_ints.induct)
  case (4 a b c cs)
  { case 1
    show ?case using 4(1) by (simp add: std_val_char ord_div ord_pair b64_byte del: of_char_mod_256) }
  { case 2
    have "length (a # b # c # cs) mod 3 = length cs mod 3" by simp
    then show ?case using 4(2) by (auto simp: std_val_char ord_div ord_pair b64_byte simp del: of_char_mod_256 length_Cons split: if_splits) }
qed (simp_all add: std_val_char ord_div ord_pair b64_byte del: of_char_mod_256)

lemma std_line:
  assumes "\<And>c. c \<in> set s \<Longrightarrow> c \<noteq> CHR 0x0A \<and> c \<noteq> CHR 0x0D"
  shows "b64_DecodeString pad s = b64_quanta pad s"
proof -
  have "filter (\<lambda>c. c \<noteq> CHR 0x0A \<and> c \<noteq> CHR 0x0D) s = s" using assms by (simp only: filter_id_conv) blast
  then show ?thesis by (simp add: b64_DecodeString_def)
qed

lemma std_encode_line: "c \<in> set (std_EncodeToString pad s) \<Longrightarrow> c \<noteq> CHR 0x0A \<and> c \<noteq> CHR 0x0D"
  using b64_ints_small std_val_char(2,3) by (fastforce simp: std_EncodeToString_def split: if_splits)

lemma std_round_trip: "b64_DecodeString pad (std_EncodeToString pad s) = Some s"
  using quanta_ints [of s] by (subst std_line [OF std_encode_line]) (auto simp: std_EncodeToString_def)

lemma quanta_padded_length: "b64_quanta True s = Some b \<Longrightarrow> 4 dvd length s"
proof (induction True s arbitrary: b rule: b64_quanta.induct)
  case (5 x y z v cs)
  show ?case
  proof (cases "cs = []")
    case False
    then obtain b' where "b64_quanta True cs = Some b'" "\<exists>p q r s. std_val x = Some p \<and> std_val y = Some q \<and> std_val z = Some r \<and> std_val v = Some s"
      using 5(2) by (auto split: option.splits)
    then have "4 dvd length cs" using 5(1) by blast
    then have "4 dvd 4 + length cs" by (simp add: dvd_add)
    then show ?thesis by (simp add: numeral_eq_Suc)
  qed (simp add: numeral_eq_Suc)
qed (auto split: if_splits)

lemma ints_length: "length (b64_ints s) = (length s * 4 + 2) div 3"
  by (induction s rule: b64_ints.induct) simp_all

lemma decode_any_base64: "decode_any (std_EncodeToString True b) = Some b"
  "length b mod 3 \<noteq> 0 \<Longrightarrow> decode_any (std_EncodeToString False b) = Some b"
proof -
  show "decode_any (std_EncodeToString True b) = Some b" by (simp add: decode_any_def std_round_trip)
  assume n: "length b mod 3 \<noteq> 0"
  have "b64_DecodeString True (std_EncodeToString False b) = None"
  proof (rule ccontr)
    assume "b64_DecodeString True (std_EncodeToString False b) \<noteq> None"
    then obtain x where "b64_quanta True (std_EncodeToString False b) = Some x" using std_line [OF std_encode_line] by auto
    then have "4 dvd length (std_EncodeToString False b)" by (rule quanta_padded_length)
    then have "4 dvd (length b * 4 + 2) div 3" by (simp add: std_EncodeToString_def ints_length)
    then show False using n by presburger
  qed
  then show "decode_any (std_EncodeToString False b) = Some b" by (simp add: decode_any_def std_round_trip)
qed

text \<open>
  Signatures and keys in base64 are understood.  Every 64-byte signature is accepted in both
  base64 forms, padded and unpadded, and every 32-byte public key likewise, by the check at load
  time and by the one at request time.
\<close>

theorem base64_keys_accepted:
  "(length sig = 64 \<longrightarrow> decodeSig (std_EncodeToString pad sig) = Inr sig) \<and>
   (length pub = 32 \<longrightarrow> parseEd25519PublicKey (std_EncodeToString pad pub) = Inr pub \<and> decodePublicKey (std_EncodeToString pad pub) = Inr pub)"
  using decode_any_base64 [of sig] decode_any_base64 [of pub]
  by (cases pad) (simp_all add: decodeSig_def parseEd25519PublicKey_def decodePublicKey_def SignatureSize_def PublicKeySize_def)

theorem base64_keys_accepted_witness: "decodePublicKey (std_EncodeToString False (replicate 32 (CHR ''k''))) = Inr (replicate 32 (CHR ''k''))"
  using base64_keys_accepted [of "replicate 64 (CHR ''s'')" False "replicate 32 (CHR ''k'')"] by simp

lemma hex_std_all: "list_all (\<lambda>c. std_val c \<noteq> None \<and> c \<noteq> CHR 0x0A \<and> c \<noteq> CHR 0x0D) (hex_digits @ ''ABCDEF'')"
  by code_simp

lemma b64_find_mem: "b64_find c i xs = Some k \<Longrightarrow> c \<in> set xs"
  by (induction xs arbitrary: i) (auto split: if_splits)

lemma hex_std:
  assumes "hex_val c = Some k"
  shows "std_val c \<noteq> None \<and> c \<noteq> CHR 0x0A \<and> c \<noteq> CHR 0x0D"
proof -
  have "c \<in> set (hex_digits @ ''ABCDEF'')" using assms b64_find_mem [of c 0 hex_digits] b64_find_mem [of c 10 "''ABCDEF''"]
    unfolding hex_val_def set_append by (auto simp del: b64_find.simps split: option.splits)
  then show ?thesis by (rule bspec [OF hex_std_all [unfolded list_all_iff]])
qed

lemma hex_decode_chars:
  "hex_DecodeString s = Some b \<Longrightarrow> length s = 2 * length b \<and> (\<forall>c \<in> set s. hex_val c \<noteq> None)"
  by (induction s arbitrary: b rule: hex_DecodeString.induct) (auto split: option.splits)

lemma quanta_total:
  "4 dvd length s \<Longrightarrow> (\<forall>c \<in> set s. std_val c \<noteq> None) \<Longrightarrow> \<exists>b. b64_quanta pad s = Some b \<and> 4 * length b = 3 * length s"
proof (induction s rule: length_induct)
  case (1 s)
  show ?case
  proof (cases "s = []")
    case False
    then have "4 \<le> length s" using 1(2) by (auto dest: dvd_imp_le)
    then obtain x y z v cs where s: "s = x # y # z # v # cs" by (auto simp: numeral_eq_Suc Suc_le_length_iff)
    obtain p q r t where v: "std_val x = Some p" "std_val y = Some q" "std_val z = Some r" "std_val v = Some t" using 1(3) s by auto
    have "length s = 4 + length cs" using s by simp
    then have "4 dvd length cs" using 1(2) by (metis dvd_add_right_iff dvd_refl)
    then obtain b where "b64_quanta pad cs = Some b" "4 * length b = 3 * length cs"
      using 1(1) [rule_format, of cs] 1(3) s by auto
    then show ?thesis using v s by auto
  qed simp
qed

text \<open>
  A hexadecimal key or signature is never accepted.  The decoders fall back to hexadecimal only
  when base64 fails; but 64 bytes are 128 hexadecimal digits, which is also valid base64 (of 96
  bytes), so every well-formed hexadecimal signature is refused for its size, and every
  hexadecimal public key (64 digits, 48 bytes as base64) is refused when the hook is loaded.
\<close>

theorem hex_keys_refused:
  assumes "hex_DecodeString s = Some b"
  shows "(length b = 64 \<longrightarrow> decodeSig s = Inl KeySize) \<and>
    (length b = 32 \<longrightarrow> parseEd25519PublicKey s = Inl KeySize \<and> decodePublicKey s = Inl KeySize)"
proof -
  note c = hex_decode_chars [OF assms]
  have ok: "std_val x \<noteq> None \<and> x \<noteq> CHR 0x0A \<and> x \<noteq> CHR 0x0D" if "x \<in> set s" for x using c that hex_std by blast
  then have "b64_DecodeString True s = b64_quanta True s" by (intro std_line) blast
  then have dec: "\<exists>b'. decode_any s = Some b' \<and> 4 * length b' = 3 * length s" if "4 dvd length s"
    using quanta_total [OF that, of True] ok by (auto simp: decode_any_def)
  have "length b = 64 \<Longrightarrow> \<exists>b'. decode_any s = Some b' \<and> length b' = 96" using dec c by auto
  moreover have "length b = 32 \<Longrightarrow> \<exists>b'. decode_any s = Some b' \<and> length b' = 48" using dec c by auto
  ultimately show ?thesis
    by (auto simp: decodeSig_def parseEd25519PublicKey_def decodePublicKey_def SignatureSize_def PublicKeySize_def)
qed

theorem hex_keys_refused_witness:
  "hex_DecodeString (replicate 64 (CHR ''a'')) = Some (replicate 32 (CHR 0xAA)) \<and> parseEd25519PublicKey (replicate 64 (CHR ''a'')) = Inl KeySize"
proof -
  have h: "hex_DecodeString (replicate 64 (CHR ''a'')) = Some (replicate 32 (CHR 0xAA))" by code_simp
  show ?thesis using hex_keys_refused [OF h] h by simp
qed

subsection \<open>Who is admitted\<close>

lemma hex_val_digit_all: "list_all (\<lambda>k. hex_val (hex_digits ! k) = Some k) [0..<16]"
  by code_simp

lemma hex_val_digit: "k < 16 \<Longrightarrow> hex_val (hex_digits ! k) = Some k"
  using hex_val_digit_all unfolding list_all_iff set_upt by auto

lemma hex_round_trip: "hex_DecodeString (hex_EncodeToString b) = Some b"
proof (induction b)
  case (Cons c cs)
  have "ord c div 16 < 16" "ord c mod 16 < 16" using ord_div(2) by simp_all
  moreover have "ord c div 16 * 16 + ord c mod 16 = (ord c :: nat)" by simp
  ultimately show ?case using Cons by (simp add: hex_val_digit del: of_char_mod_256)
qed simp

text \<open>What admits a request: the specification of \<open>authenticate\<close>.\<close>

definition admitted :: "auth_conf \<Rightarrow> hook_decl \<Rightarrow> header \<Rightarrow> string \<Rightarrow> bool" where
  "admitted c h hdr body \<longleftrightarrow>
     (if hk_APIKey h \<noteq> [] then \<exists>key missing. api_key c h = Inr (key, missing) \<and> key \<noteq> [] \<and> header_Get hdr (APIKeyHdr h) = key
      else if hk_PublicKey h \<noteq> [] then \<exists>pub sig. decodePublicKey (hk_PublicKey h) = Inr pub \<and> decodeSig (header_Get hdr (SigHeader h)) = Inr sig \<and>
        length pub = 32 \<and> length sig = 64 \<and> au_ed25519 c pub body sig
      else if hk_Secret h \<noteq> [] then \<exists>digits. sig_hex (header_Get hdr (SigHeader h)) = Some digits \<and> hex_DecodeString digits = Some (au_hmac c (hk_Secret h) body)
      else True)"

lemma decode_sizes: "decodePublicKey s = Inr b \<Longrightarrow> length b = 32" "decodeSig s = Inr b \<Longrightarrow> length b = 64"
  by (auto simp: decodePublicKey_def decodeSig_def PublicKeySize_def SignatureSize_def split: option.splits if_splits)

lemma authenticate_iff: "fst (authenticate c h hdr body) = None \<longleftrightarrow> admitted c h hdr body"
  unfolding authenticate_def admitted_def checkAPIKey_def checkPublicKey_def checkLegacyHMAC_def verifyLegacyHMAC_def
  using decode_sizes by (auto split: sum.splits option.splits prod.splits)

lemma authenticate_events: "e \<in> set (snd (authenticate c h hdr body)) \<Longrightarrow> fst e = ''hook.misconfigured'' \<and> fst (authenticate c h hdr body) \<noteq> None"
  by (auto simp: authenticate_def checkAPIKey_def split: sum.splits prod.splits if_splits)

lemma trim_space_id:
  assumes "s \<noteq> []" "hd s \<notin> hd ` set space_runes" "last s \<notin> last ` set space_runes"
  shows "trim_space s = s"
proof -
  have l: "\<not> has_prefix s p" if "p \<in> set space_runes" for p
  proof
    assume "has_prefix s p"
    then obtain t where "s = p @ t" by (auto simp: has_prefix_append)
    moreover have "p \<noteq> []" using that space_runes_nonempty by blast
    ultimately have "hd s = hd p" by simp
    then show False using assms(2) that by auto
  qed
  have r: "\<not> has_suffix s p" if "p \<in> set space_runes" for p
  proof
    assume "has_suffix s p"
    then obtain t where "s = t @ p" by (metis append_take_drop_id has_suffix_def)
    moreover have "p \<noteq> []" using that space_runes_nonempty by blast
    ultimately have "last s = last p" by simp
    then show False using assms(3) that by auto
  qed
  have "find (has_prefix s) space_runes = None" "find (has_suffix s) space_runes = None" using l r by (auto simp: find_None_iff)
  then show ?thesis by (simp add: trim_space_def trim_space_left.simps trim_space_right.simps)
qed

lemma hex_encode_set: "set (hex_EncodeToString b) \<subseteq> set hex_digits"
proof (induction b)
  case (Cons c cs)
  have "ord c div 16 < length hex_digits" "ord c mod 16 < length hex_digits" using ord_div(2) [of c] by (simp_all add: hex_digits_def)
  then show ?case using Cons nth_mem by auto
qed simp

lemma hex_no_space: "list_all (\<lambda>c. c \<notin> last ` set space_runes \<and> c \<noteq> CHR ''='') hex_digits"
  by code_simp

lemma sig_hex_header: "sig_hex (''sha256='' @ hex_EncodeToString d) = Some (hex_EncodeToString d)"
proof -
  let ?s = "''sha256='' @ hex_EncodeToString d"
  have "last ?s \<in> insert (CHR ''='') (set hex_digits)" 
  proof (cases "hex_EncodeToString d = []")
    case False
    then have "last (hex_EncodeToString d) \<in> set hex_digits" using hex_encode_set [of d] last_in_set by blast
    then show ?thesis using False by simp
  qed simp
  moreover have "CHR ''='' \<notin> last ` set space_runes" by code_simp
  ultimately have l: "last ?s \<notin> last ` set space_runes"
    using bspec [OF hex_no_space [unfolded list_all_iff], of "last ?s"] by (cases "last ?s = CHR ''=''") (simp_all only: insert_iff simp_thms)
  have "CHR ''s'' \<notin> hd ` set space_runes" by code_simp
  then have "trim_space ?s = ?s" by (intro trim_space_id l) simp_all
  moreover have "fold_sha256 ''sha256''" by code_simp
  ultimately show ?thesis by (simp add: sig_hex_def)
qed

text \<open>
  A legacy signature admits exactly its digest.  For every body, secret and digest, the header
  \<^verbatim>\<open>sha256=\<close> followed by the digest in hexadecimal is accepted if and only if the digest is the
  keyed hash of the body under the hook's secret.
\<close>

theorem legacy_signature_exact:
  "verifyLegacyHMAC hmac body (''sha256='' @ hex_EncodeToString digest) secret \<longleftrightarrow> digest = hmac secret body"
  unfolding verifyLegacyHMAC_def sig_hex_header by (simp add: hex_round_trip)

text \<open>
  An API key that cannot be resolved admits nobody.  If the secrets of a hook with an API key
  cannot be decrypted, or every reference in the key is missing and nothing else is left of it,
  then every request is refused, including one with an empty or absent header; and if the
  references do resolve, exactly the requests that present the resolved key are admitted.
\<close>

theorem api_key_fails_closed:
  assumes "hk_APIKey h \<noteq> []"
  shows "(case api_key c h of
      Inl e \<Rightarrow> fst (authenticate c h hdr body) \<noteq> None
    | Inr (key, missing) \<Rightarrow> fst (authenticate c h hdr body) = None \<longleftrightarrow> key \<noteq> [] \<and> header_Get hdr (APIKeyHdr h) = key)"
  using assms by (auto simp: authenticate_iff admitted_def split: sum.splits prod.splits)

definition keyed_hook :: hook_decl where
  "keyed_hook = \<lparr>hc_ID = ''deploy'', hc_ConcurrencyGroup = [], hc_Timeout = 0, hc_IdleTimeout = 0, hc_State = False, hc_Command = [],
     hc_Networks = [], hc_User = [], hc_Workdir = [], hc_Dind = False, hc_Devices = [], hc_Volumes = [], hc_Userns = False,
     hk_APIKey = ''${KEY}'', hk_APIKeyHeader = [], hk_PublicKey = [], hk_SignatureHeader = [], hk_Secret = [], hk_Synchronous = False,
     hk_Enable = None, hk_SkipIf = [], hk_RunTitle = [], hk_titleTmpl = None\<rparr>"

definition auth_ex :: "(string \<Rightarrow> string option) \<Rightarrow> auth_conf" where
  "auth_ex env = \<lparr>au_hmac = (\<lambda>k b. rev (k @ b)), au_ed25519 = (\<lambda>k b s. s = k @ b), au_env = env, au_secrets = None\<rparr>"

theorem api_key_fails_closed_witness:
  "fst (authenticate (auth_ex (\<lambda>_. None)) keyed_hook fmempty ''{}'') \<noteq> None \<and>
   fst (authenticate (auth_ex (\<lambda>_. Some ''k'')) keyed_hook (fmupd ''X-Api-Key'' [''k''] fmempty) ''{}'') = None"
proof -
  have k: "hk_APIKey keyed_hook \<noteq> []" by (simp add: keyed_hook_def)
  have a: "api_key (auth_ex (\<lambda>_. None)) keyed_hook = Inr ([], [''KEY''])" "api_key (auth_ex (\<lambda>_. Some ''k'')) keyed_hook = Inr (''k'', [])"
    and h: "header_Get (fmupd ''X-Api-Key'' [''k''] fmempty) (APIKeyHdr keyed_hook) = ''k''" by code_simp+
  show ?thesis
    using api_key_fails_closed [OF k, of "auth_ex (\<lambda>_. None)" fmempty "''{}''"]
      api_key_fails_closed [OF k, of "auth_ex (\<lambda>_. Some ''k'')" "fmupd ''X-Api-Key'' [''k''] fmempty" "''{}''"] by (simp add: a h)
qed

subsection \<open>The cache of decrypted secrets\<close>

record cachedSecrets =
  cs_modTime :: time
  cs_size :: int
  cs_values :: "(string, string) fmap"

datatype stat = StatMissing | StatError string | StatFile time int

datatype secrets_error = SecretsStat string | SecretsDecrypt string | SecretsParse dotenv_error

text \<open>\<open>Load\<close> for the secrets file at \<open>path\<close>, empty for a hook that was not loaded from disk; \<open>sops\<close> is
  what decrypting the file yields now.\<close>

definition secrets_Load ::
  "string \<Rightarrow> stat \<Rightarrow> string + string \<Rightarrow> (string, cachedSecrets) fmap \<Rightarrow>
   (secrets_error + (string, string) fmap) \<times> (string, cachedSecrets) fmap" where
  "secrets_Load path st sops cache =
     (if path = [] then (Inr fmempty, cache)
      else case st of
        StatMissing \<Rightarrow> (Inr fmempty, fmdrop path cache)
      | StatError err \<Rightarrow> (Inl (SecretsStat err), cache)
      | StatFile mtime sz \<Rightarrow>
          let hit = (case fmlookup cache path of None \<Rightarrow> None
             | Some c \<Rightarrow> if cs_modTime c = mtime \<and> cs_size c = sz then Some (cs_values c) else None) in
          (case hit of Some v \<Rightarrow> (Inr v, cache)
           | None \<Rightarrow> (case sops of Inl err \<Rightarrow> (Inl (SecretsDecrypt err), cache)
               | Inr out \<Rightarrow> (case parseDotenv out of Inl e \<Rightarrow> (Inl (SecretsParse e), cache)
                   | Inr vals \<Rightarrow> (Inr vals, fmupd path \<lparr>cs_modTime = mtime, cs_size = sz, cs_values = vals\<rparr> cache)))))"

text \<open>A sequence of loads of files, each with the state it is found in, with the cache and without.
  A version of a file is known by its path, modification time and size: \<open>content\<close> is what it
  decrypts to.\<close>

fun secrets_run :: "(string \<Rightarrow> time \<Rightarrow> int \<Rightarrow> string) \<Rightarrow> (string \<times> stat) list \<Rightarrow> (string, cachedSecrets) fmap \<Rightarrow>
    (secrets_error + (string, string) fmap) list" where
  "secrets_run content [] cache = []"
| "secrets_run content ((path, st) # ls) cache =
     (let (res, cache') = secrets_Load path st (case st of StatFile m n \<Rightarrow> Inr (content path m n) | _ \<Rightarrow> Inl []) cache
      in res # secrets_run content ls cache')"

definition secrets_read :: "(string \<Rightarrow> time \<Rightarrow> int \<Rightarrow> string) \<Rightarrow> string \<times> stat \<Rightarrow> secrets_error + (string, string) fmap" where
  "secrets_read content f = (case f of (path, st) \<Rightarrow> if path = [] then Inr fmempty
     else case st of StatMissing \<Rightarrow> Inr fmempty | StatError err \<Rightarrow> Inl (SecretsStat err)
       | StatFile m n \<Rightarrow> (case parseDotenv (content path m n) of Inl e \<Rightarrow> Inl (SecretsParse e) | Inr vals \<Rightarrow> Inr vals))"

definition cache_ok :: "(string \<Rightarrow> time \<Rightarrow> int \<Rightarrow> string) \<Rightarrow> (string, cachedSecrets) fmap \<Rightarrow> bool" where
  "cache_ok content cache \<longleftrightarrow>
     (\<forall>path c. fmlookup cache path = Some c \<longrightarrow> parseDotenv (content path (cs_modTime c) (cs_size c)) = Inr (cs_values c))"

lemma cache_ok_Load:
  assumes "cache_ok content cache" "secrets_Load path st (case st of StatFile m n \<Rightarrow> Inr (content path m n) | _ \<Rightarrow> Inl []) cache = (res, cache')"
  shows "cache_ok content cache'" "res = secrets_read content (path, st)"
  using assms
  by (auto simp: secrets_Load_def secrets_read_def cache_ok_def Let_def split: if_splits stat.splits option.splits sum.splits)

text \<open>
  The secrets cache is transparent.  For any sequence of loads of any files in any states (missing,
  unreadable, changed, back to an earlier version, not parsing), the results with the cache are
  the results of decrypting and parsing each file afresh, provided two versions of a file with the
  same modification time and size have the same content.
\<close>

theorem secrets_cache_transparent: "secrets_run content loads fmempty = map (secrets_read content) loads"
proof -
  have "cache_ok content cache \<Longrightarrow> secrets_run content loads cache = map (secrets_read content) loads" for cache
    by (induction loads arbitrary: cache) (auto split: prod.splits simp: cache_ok_Load)
  then show ?thesis by (simp add: cache_ok_def)
qed

end
