(* ===== verification/Trigger.thy ===== *)
theory Trigger
  imports Auth Execute Overrides Spool
begin

text \<open>
  Model of the hook port and the operator switches: \<^verbatim>\<open>internal/server/handlers.go\<close> (\<open>handleTrigger\<close>,
  \<open>handleCancelRun\<close>, \<open>handleAdminCancelRun\<close>, \<open>parseWaitParams\<close>), \<^verbatim>\<open>managers.go\<close> (\<open>handleManagerTrigger\<close>
  and the manager switch), \<^verbatim>\<open>overrides.go\<close>, \<^verbatim>\<open>spooldelivery.go\<close>, \<^verbatim>\<open>spawn.go\<close>, and the runner's entry
  points \<open>Start\<close>, \<open>StartSpawned\<close> and \<open>Skip\<close>, as a client of authentication, skip conditions, titles,
  the override store, the run tracker, the spool and the activity feed.

  A handler takes the request and the server's state and returns the response with the new state.
  What comes from outside is the record \<open>outside\<close>: the clock, the random run id, the outcome of writing
  files, decoders of the standard library, and how a held response ends.
\<close>

subsection \<open>State, requests, responses\<close>

record mgr_decl = hook_decl +
  md_SpawnTargets :: "string list"

record front =
  fr_hooks :: "(string, hook_decl) fmap"
  fr_mgrs :: "(string, mgr_decl) fmap"
  fr_overrides :: "ov_store option"
  fr_groups :: mgr
  fr_globalCap :: "global_cap option"
  fr_spool :: "spool option"
  fr_draining :: bool
  fr_tracker :: tracker
  fr_instances :: "(string, managed) fmap option"
  fr_events :: recorder
  fr_started :: "(nat \<times> hook_decl \<times> string \<times> header) list"
  fr_delivered :: "(string \<times> header \<times> string) list"

datatype hold = HoldDone run_state | HoldProcessed bool | HoldTimeout | HoldGone

record outside =
  os_now :: time
  os_auth :: auth_conf
  os_root :: "string \<Rightarrow> json"
  os_re :: "string \<Rightarrow> string \<Rightarrow> bool option"
  os_quote :: "string \<Rightarrow> string"
  os_sep :: "string \<Rightarrow> bool"
  os_dur :: "string \<Rightarrow> duration option"
  os_rid :: "nat \<Rightarrow> string"
  os_seen :: "nat \<Rightarrow> bool"
  os_files :: "nat \<Rightarrow> string option"
  os_spoolID :: string
  os_spoolRead :: bool
  os_spoolWrite :: bool
  os_spoolSize :: "spool_entry \<Rightarrow> nat"
  os_stored :: bool
  os_norm :: "string \<Rightarrow> string"
  os_ovText :: "ov_error \<Rightarrow> string"
  os_spoolText :: string
  os_hold :: hold
  os_eventID :: string
  os_stamp :: "time \<Rightarrow> string"

record trig_req =
  tq_id :: string
  tq_run :: string
  tq_remote :: string
  tq_wait :: string
  tq_timeout :: string
  tq_rq :: request

datatype tresp = TErr int string | TFields int "(string \<times> string) list" | TRun int run_state | TSpawned int "string list" string | TGone

definition tresp_code :: "tresp \<Rightarrow> int option" where
  "tresp_code r = (case r of TErr c _ \<Rightarrow> Some c | TFields c _ \<Rightarrow> Some c | TRun c _ \<Rightarrow> Some c | TSpawned c _ _ \<Rightarrow> Some c | TGone \<Rightarrow> None)"

definition MaxBodyBytes :: int where "MaxBodyBytes = 26214400"

definition fr_record :: "outside \<Rightarrow> string \<Rightarrow> string \<Rightarrow> (string \<times> string) list \<Rightarrow> front \<Rightarrow> front" where
  "fr_record o' kind msg fs s = s\<lparr>fr_events := Record (os_now o') kind msg (fmap_of_list fs) (fr_events s)\<rparr>"

subsection \<open>The kill switch\<close>

definition EnabledByDefault :: "('a hook_decl_scheme) \<Rightarrow> bool" where
  "EnabledByDefault h = (case hk_Enable h of None \<Rightarrow> True | Some b \<Rightarrow> b)"

definition effectiveDisabled :: "string \<Rightarrow> front \<Rightarrow> bool" where
  "effectiveDisabled hid s =
     (let defaultEnabled = (case fmlookup (fr_hooks s) hid of Some h \<Rightarrow> EnabledByDefault h
          | None \<Rightarrow> (case fmlookup (fr_mgrs s) hid of Some m \<Rightarrow> EnabledByDefault m | None \<Rightarrow> True))
      in HookDisabled (fr_overrides s) hid defaultEnabled)"

subsection \<open>The runner's entry points\<close>

definition tk_update :: "nat \<Rightarrow> (run \<Rightarrow> run) \<Rightarrow> front \<Rightarrow> front" where
  "tk_update p f s = s\<lparr>fr_tracker := (fr_tracker s)\<lparr>tk_heap := (tk_heap (fr_tracker s))[p := f (tk_heap (fr_tracker s) ! p)]\<rparr>\<rparr>"

definition new_run :: "outside \<Rightarrow> nat \<Rightarrow> string \<Rightarrow> front \<Rightarrow> nat \<times> front" where
  "new_run o' k hid s = (length (tk_heap (fr_tracker s)), s\<lparr>fr_tracker := tk_New (os_seen o') (os_rid o' k) (os_now o') hid (fr_tracker s)\<rparr>)"

definition the_run :: "front \<Rightarrow> nat \<Rightarrow> run" where
  "the_run s p = tk_heap (fr_tracker s) ! p"

definition runner_Skip :: "outside \<Rightarrow> hook_decl \<Rightarrow> string \<Rightarrow> string \<Rightarrow> front \<Rightarrow> nat \<times> front" where
  "runner_Skip o' h reason title s =
     (let (p, s) = new_run o' 0 (hc_ID h) s; now = os_now o';
          s = tk_update p (SetTitle title) s;
          s = tk_update p (AppendOutput now (''skipped: '' @ reason)) s;
          s = tk_update p (Finish now StatusSkipped 0 []) s
      in (p, fr_record o' ''run.skipped'' (hc_ID h @ '' run '' @ runRef (the_run s p) @ '' skipped: '' @ reason)
             [(''hook'', hc_ID h), (''run'', run_ID (the_run s p)), (''status'', StatusSkipped)] s))"

text \<open>\<open>start\<close>: the run, the error if it was refused, and otherwise the execution handed to a goroutine.
  The observer the refusal also calls is \<open>onFinish\<close>, which posts to GitHub.\<close>

definition runner_Start ::
  "outside \<Rightarrow> nat \<Rightarrow> hook_decl \<Rightarrow> string \<Rightarrow> header \<Rightarrow> string \<Rightarrow> string \<Rightarrow> string \<Rightarrow> front \<Rightarrow> nat \<times> string option \<times> front" where
  "runner_Start o' k h payload headers title parentHookID parentRunID s =
     (let (p, s) = new_run o' k (hc_ID h) s; now = os_now o';
          s = tk_update p (SetTitle title) s;
          s = tk_update p (SetSpawnedBy parentHookID parentRunID) s
      in if fr_draining s then (p, Some ErrDraining, tk_update p (Finish now StatusError (-1) ErrDraining) s)
         else case os_files o' k of
           Some err \<Rightarrow> (p, Some err, tk_update p (Finish now StatusError (-1) (''write temp files: '' @ err)) s)
         | None \<Rightarrow> (p, None, s\<lparr>fr_started := fr_started s @ [(p, h, payload, headers)]\<rparr>))"

text \<open>\<open>spoolDelivery\<close> with the events it records around the spool (\<open>Spool\<close>).\<close>

definition park_delivery :: "outside \<Rightarrow> string \<Rightarrow> string \<Rightarrow> header \<Rightarrow> string \<Rightarrow> front \<Rightarrow> string option \<times> front" where
  "park_delivery o' hookID title headers body s =
     (case spoolDelivery (os_spoolSize o') (os_spoolRead o') (os_spoolWrite o') (os_spoolID o') (os_now o') hookID title headers body (fr_spool s) of
        (Some eid, sp) \<Rightarrow> (Some eid, fr_record o' ''spool.parked'' (''delivery for '' @ hookID @ '' parked during shutdown; it runs on the next start'')
               [(''hook'', hookID)] (s\<lparr>fr_spool := sp\<rparr>))
      | (None, sp) \<Rightarrow> (None, if fr_spool s = None then s
          else fr_record o' ''spool.failed'' (''delivery for '' @ hookID @ '' could NOT be parked during shutdown ('' @
               os_spoolText o' @ '') '' @ em_dash @ '' answering 503, and GitHub will not re-send it'') [(''hook'', hookID)] (s\<lparr>fr_spool := sp\<rparr>)))"

subsection \<open>Query parameters\<close>

definition defaultSyncHold :: duration where "defaultSyncHold = 5 * Minute"

definition ParseBool :: "string \<Rightarrow> bool option" where
  "ParseBool v = (if v \<in> {''1'', ''t'', ''T'', ''TRUE'', ''true'', ''True''} then Some True
     else if v \<in> {''0'', ''f'', ''F'', ''FALSE'', ''false'', ''False''} then Some False else None)"

definition parseWaitParams :: "outside \<Rightarrow> trig_req \<Rightarrow> ('a hook_decl_scheme) \<Rightarrow> string + bool \<times> duration" where
  "parseWaitParams o' rq h =
     (case (if tq_wait rq = [] then Some (hk_Synchronous h) else ParseBool (tq_wait rq)) of
        None \<Rightarrow> Inl (''invalid wait='' @ os_quote o' (tq_wait rq))
      | Some sync \<Rightarrow>
          let dflt = (if hc_Timeout h \<le> 0 then defaultSyncHold else hc_Timeout h) in
          if tq_timeout rq = [] then Inr (sync, dflt)
          else (case os_dur o' (tq_timeout rq) of None \<Rightarrow> Inl (''invalid timeout='' @ os_quote o' (tq_timeout rq))
            | Some d \<Rightarrow> if d \<le> 0 then Inl ''timeout must be positive'' else Inr (sync, d)))"

subsection \<open>Deliveries\<close>

text \<open>The common part of both kinds of delivery up to authentication: \<open>Inl\<close> the answer, or the body.\<close>

definition read_delivery :: "trig_req \<Rightarrow> tresp + string" where
  "read_delivery rq = (case read_body MaxBodyBytes (tq_rq rq) of
     Inl (True, _) \<Rightarrow> Inl (TErr 413 ''body too large'')
   | Inl (False, err) \<Rightarrow> Inl (TErr 400 (''read body: '' @ err))
   | Inr body \<Rightarrow> Inr body)"

definition record_all :: "outside \<Rightarrow> feed_event list \<Rightarrow> front \<Rightarrow> front" where
  "record_all o' evs s = fold (\<lambda>(kind, msg, fs). fr_record o' kind msg fs) evs s"

definition deny :: "outside \<Rightarrow> string \<Rightarrow> string \<Rightarrow> trig_req \<Rightarrow> string \<Rightarrow> front \<Rightarrow> tresp \<times> front" where
  "deny o' hid verb rq err s = (TErr 401 err,
     fr_record o' ''hook.denied'' (hid @ '': '' @ verb @ '' denied from '' @ tq_remote rq @ '': '' @ err) [(''hook'', hid)] s)"

definition dispatch :: "outside \<Rightarrow> trig_req \<Rightarrow> hook_decl \<Rightarrow> string \<Rightarrow> string \<Rightarrow> bool \<Rightarrow> front \<Rightarrow> tresp \<times> front" where
  "dispatch o' rq h body title wantSync s =
     (case runner_Start o' 0 h body (rq_header (tq_rq rq)) title [] [] s of
        (p, Some err, s) \<Rightarrow> (TFields (if err = ErrDraining then 503 else 500) [(''run_id'', run_ID (the_run s p)), (''error'', err)], s)
      | (p, None, s) \<Rightarrow>
          if \<not> wantSync then (TFields 202 [(''run_id'', run_ID (the_run s p))], s)
          else (case os_hold o' of
              HoldDone st \<Rightarrow> (TRun (if rs_Status st = StatusSuccess then 200 else 500) st, s)
            | HoldTimeout \<Rightarrow> (TFields 202 [(''run_id'', run_ID (the_run s p)), (''status'', ''running''),
                 (''note'', ''sync timeout exceeded; run continues in background'')], s)
            | _ \<Rightarrow> (TGone, s)))"

definition spooled_fields :: "outside \<Rightarrow> string \<Rightarrow> hook_decl \<Rightarrow> (string \<times> string) list" where
  "spooled_fields o' eid h = [(''spooled'', eid), (''status'', ''spooled''),
     (''detail'', ''server is restarting; this delivery is parked and will run on the next start''),
     (''hook'', hc_ID h), (''received'', os_stamp o' (os_now o'))]"

definition trigger_hook :: "outside \<Rightarrow> trig_req \<Rightarrow> hook_decl \<Rightarrow> front \<Rightarrow> tresp \<times> front" where
  "trigger_hook o' rq h s =
     (if effectiveDisabled (tq_id rq) s
      then (TErr 503 ''hook disabled by operator'', fr_record o' ''hook.disabled_rejected''
        (hc_ID h @ '': delivery rejected '' @ em_dash @ '' hook is disabled by operator (from '' @ tq_remote rq @ '')'') [(''hook'', hc_ID h)] s)
      else case read_delivery rq of Inl resp \<Rightarrow> (resp, s)
      | Inr body \<Rightarrow>
          let hdr = rq_header (tq_rq rq); (err, evs) = authenticate (os_auth o') h hdr body; s = record_all o' evs s in
          case err of Some err \<Rightarrow> deny o' (hc_ID h) ''trigger'' rq err s
          | None \<Rightarrow>
              let title = RenderRunTitle (os_sep o') (hk_RunTitle h) (hk_titleTmpl h) (os_root o' body) hdr;
                  (reason, skip) = EvaluateSkip (os_re o') (os_quote o') (hk_SkipIf h) (os_root o' body) hdr in
              if skip then (let (p, s) = runner_Skip o' h reason title s in
                (TFields 200 [(''run_id'', run_ID (the_run s p)), (''status'', StatusSkipped), (''reason'', reason)], s))
              else case parseWaitParams o' rq h of Inl err \<Rightarrow> (TErr 400 err, s)
              | Inr (wantSync, hold) \<Rightarrow>
                  if fr_draining s
                  then (case park_delivery o' (hc_ID h) title hdr body s of
                      (Some eid, s) \<Rightarrow> (TFields 202 (spooled_fields o' eid h), s)
                    | (None, s) \<Rightarrow> dispatch o' rq h body title wantSync s)
                  else dispatch o' rq h body title wantSync s)"

text \<open>The same for a manager: the delivery goes into its inbox (\<open>Deliver\<close>, which refuses a manager the
  supervisor does not know).\<close>

definition trigger_manager :: "outside \<Rightarrow> trig_req \<Rightarrow> mgr_decl \<Rightarrow> front \<Rightarrow> tresp \<times> front" where
  "trigger_manager o' rq m s =
     (let mid = hc_ID m in
      if effectiveDisabled mid s
      then (TErr 503 ''manager disabled by operator'', fr_record o' ''hook.disabled_rejected''
        (mid @ '': delivery rejected '' @ em_dash @ '' manager is disabled by operator (from '' @ tq_remote rq @ '')'') [(''hook'', mid)] s)
      else case read_delivery rq of Inl resp \<Rightarrow> (resp, s)
      | Inr body \<Rightarrow>
          let hdr = rq_header (tq_rq rq); (err, evs) = authenticate (os_auth o') (hook_decl.truncate m) hdr body; s = record_all o' evs s in
          case err of Some err \<Rightarrow> deny o' mid ''trigger'' rq err s
          | None \<Rightarrow>
              let (reason, skip) = EvaluateSkip (os_re o') (os_quote o') (hk_SkipIf m) (os_root o' body) hdr in
              if skip then (TFields 200 [(''manager'', mid), (''status'', ''skipped''), (''reason'', reason)],
                fr_record o' ''manager.skipped'' (mid @ '': delivery skipped: '' @ reason) [(''hook'', mid)] s)
              else case parseWaitParams o' rq m of Inl err \<Rightarrow> (TErr 400 err, s)
              | Inr (wantSync, hold) \<Rightarrow>
                  (case fr_instances s of None \<Rightarrow> (TErr 503 ''manager supervision not configured'', s)
                   | Some inst \<Rightarrow>
                       if fmlookup inst mid = None then (TErr 503 ''manager not supervised yet; retry'', s)
                       else let s = s\<lparr>fr_delivered := fr_delivered s @ [(mid, hdr, body)]\<rparr>;
                                ids = [(''manager'', mid), (''event'', os_eventID o')] in
                         if \<not> wantSync then (TFields 202 (ids @ [(''status'', ''queued'')]), s)
                         else (case os_hold o' of
                             HoldProcessed True \<Rightarrow> (TFields 200 (ids @ [(''status'', ''processed'')]), s)
                           | HoldProcessed False \<Rightarrow> (TFields 500 (ids @ [(''status'', ''abandoned''), (''error'',
                               ''the manager instance ended (or the event was dropped) before processing finished'')]), s)
                           | HoldTimeout \<Rightarrow> (TFields 202 (ids @ [(''status'', ''queued''), (''note'',
                               ''sync timeout exceeded; the event remains queued for the manager'')]), s)
                           | _ \<Rightarrow> (TGone, s))))"

definition handleTrigger :: "outside \<Rightarrow> trig_req \<Rightarrow> front \<Rightarrow> tresp \<times> front" where
  "handleTrigger o' rq s = (case fmlookup (fr_hooks s) (tq_id rq) of
     Some h \<Rightarrow> trigger_hook o' rq h s
   | None \<Rightarrow> (case fmlookup (fr_mgrs s) (tq_id rq) of
       Some m \<Rightarrow> trigger_manager o' rq m s
     | None \<Rightarrow> (TErr 404 ''no such hook'',
         fr_record o' ''hook.unknown'' (''trigger for unknown hook '' @ tq_id rq @ '' from '' @ tq_remote rq) [(''hook'', tq_id rq)] s)))"

subsection \<open>Cancelling\<close>

definition cancelRun :: "outside \<Rightarrow> nat \<Rightarrow> front \<Rightarrow> tresp \<times> front" where
  "cancelRun o' p s =
     (if Terminal (run_Status (the_run s p))
      then (TFields 409 [(''run_id'', run_ID (the_run s p)), (''status'', run_Status (the_run s p)), (''error'', ''run already finished'')], s)
      else (TFields 202 [(''run_id'', run_ID (the_run s p)), (''status'', ''cancelling'')],
            tk_update p (RequestCancelWithReason (os_now o') []) s))"

definition handleCancelRun :: "outside \<Rightarrow> trig_req \<Rightarrow> front \<Rightarrow> tresp \<times> front" where
  "handleCancelRun o' rq s = (case fmlookup (fr_hooks s) (tq_id rq) of
     None \<Rightarrow> (TErr 404 ''no such hook'',
       fr_record o' ''hook.unknown'' (''cancel for unknown hook '' @ tq_id rq @ '' from '' @ tq_remote rq) [(''hook'', tq_id rq)] s)
   | Some h \<Rightarrow> (case read_body MaxBodyBytes (tq_rq rq) of
       Inl (_, err) \<Rightarrow> (TErr 400 (''read body: '' @ err), s)
     | Inr body \<Rightarrow>
         let (err, evs) = authenticate (os_auth o') h (rq_header (tq_rq rq)) body; s = record_all o' evs s in
         (case err of Some err \<Rightarrow> deny o' (hc_ID h) ''cancel'' rq err s
          | None \<Rightarrow> (case tk_Get (tq_run rq) (fr_tracker s) of
              None \<Rightarrow> (TErr 404 ''no such run'', s)
            | Some p \<Rightarrow> if run_HookID (the_run s p) \<noteq> hc_ID h then (TErr 404 ''no such run'', s) else cancelRun o' p s))))"

definition handleAdminCancelRun :: "outside \<Rightarrow> string \<Rightarrow> front \<Rightarrow> tresp \<times> front" where
  "handleAdminCancelRun o' rid s = (case tk_Get rid (fr_tracker s) of
     None \<Rightarrow> (TErr 404 ''no such run'', s) | Some p \<Rightarrow> cancelRun o' p s)"

subsection \<open>The operator's switches\<close>

definition overrideWriteError :: "outside \<Rightarrow> string \<Rightarrow> ov_error \<Rightarrow> front \<Rightarrow> tresp \<times> front" where
  "overrideWriteError o' what err s = (TErr 500 (''persist override: '' @ os_ovText o' err),
     fr_record o' ''override.write_failed''
       (''persist operator override for '' @ what @ '' failed (change rolled back): '' @ os_ovText o' err) [] s)"

definition show_bool :: "bool \<Rightarrow> string" where
  "show_bool b = (if b then ''true'' else ''false'')"

definition setHookDisabled :: "outside \<Rightarrow> string \<Rightarrow> bool \<Rightarrow> front \<Rightarrow> tresp \<times> front" where
  "setHookDisabled o' hid disabled s =
     (if fmlookup (fr_hooks s) hid = None then (TErr 404 ''no such hook'', s)
      else case fr_overrides s of None \<Rightarrow> (TErr 500 ''override store not configured'', s)
      | Some ov \<Rightarrow> (case SetHookDisabled (os_norm o') (os_stored o') hid disabled ov of
          (Inl err, ov') \<Rightarrow> overrideWriteError o' (''hook '' @ hid) err (s\<lparr>fr_overrides := Some ov'\<rparr>)
        | (Inr changed, ov') \<Rightarrow>
            let s = s\<lparr>fr_overrides := Some ov'\<rparr>;
                s = (if \<not> changed then s
                     else if disabled then fr_record o' ''hook.disabled''
                       (hid @ '': disabled by operator '' @ em_dash @ '' deliveries will be rejected (503) and scheduled runs skipped'') [(''hook'', hid)] s
                     else fr_record o' ''hook.enabled'' (hid @ '': re-enabled by operator'') [(''hook'', hid)] s)
            in (TFields 200 [(''hook'', hid), (''disabled'', show_bool disabled)], s)))"

text \<open>For a manager the live instance is also asked to stop, or the supervisor is poked; neither call
  changes the server's state.\<close>

definition setManagerDisabled :: "outside \<Rightarrow> string \<Rightarrow> bool \<Rightarrow> front \<Rightarrow> tresp \<times> front" where
  "setManagerDisabled o' mid disabled s =
     (if fmlookup (fr_mgrs s) mid = None then (TErr 404 ''no such manager'', s)
      else case fr_overrides s of None \<Rightarrow> (TErr 500 ''override store not configured'', s)
      | Some ov \<Rightarrow> (case SetHookDisabled (os_norm o') (os_stored o') mid disabled ov of
          (Inl err, ov') \<Rightarrow> overrideWriteError o' (''manager '' @ mid) err (s\<lparr>fr_overrides := Some ov'\<rparr>)
        | (Inr changed, ov') \<Rightarrow>
            let s = s\<lparr>fr_overrides := Some ov'\<rparr>;
                s = (if \<not> changed then s
                     else if disabled then fr_record o' ''manager.disabled''
                       (mid @ '': disabled by operator '' @ em_dash @ '' the instance stops and deliveries are rejected (503)'') [(''hook'', mid)] s
                     else fr_record o' ''manager.enabled'' (mid @ '': enabled by operator '' @ em_dash @ '' the supervisor starts an instance'') [(''hook'', mid)] s)
            in (TFields 200 [(''manager'', mid), (''disabled'', show_bool disabled)], s)))"

text \<open>\<open>body\<close> is the decoded request, \<open>None\<close> when it does not decode or names no limit.\<close>

definition handleConcurrencyOverrideSet :: "outside \<Rightarrow> string \<Rightarrow> int option \<Rightarrow> front \<Rightarrow> tresp \<times> front" where
  "handleConcurrencyOverrideSet o' grp body s = (case Declared (fr_groups s) grp of
     None \<Rightarrow> (TErr 404 ''no such concurrency group'', s)
   | Some declared \<Rightarrow> (case body of None \<Rightarrow> (TErr 400 ''body must be {\"limit\": N}'', s)
     | Some limit \<Rightarrow>
         if limit < 1 then (TErr 400 (''limit must be >= 1 '' @ em_dash @
           '' a 0 limit would deadlock queued runs; to stop a group's hooks entirely, disable the hooks instead''), s)
         else case fr_overrides s of None \<Rightarrow> (TErr 500 ''override store not configured'', s)
         | Some ov \<Rightarrow> (case SetConcurrencyLimit (os_norm o') (os_stored o') grp limit ov of
             (Inl err, ov') \<Rightarrow> overrideWriteError o' (''concurrency group '' @ grp) err (s\<lparr>fr_overrides := Some ov'\<rparr>)
           | (Inr changed, ov') \<Rightarrow> (case SetLimitOverride grp limit (fr_groups s) of
               (False, m) \<Rightarrow> (TErr 500 ''apply override: '', s\<lparr>fr_overrides := Some ov', fr_groups := m\<rparr>)
             | (True, m) \<Rightarrow>
                 let s = s\<lparr>fr_overrides := Some ov', fr_groups := m\<rparr>;
                     s = (if changed then fr_record o' ''concurrency.overridden''
                       (''concurrency group '' @ os_quote o' grp @ '': limit overridden to '' @ append_int limit @ '' by operator (declared '' @
                         append_int declared @ '')'') [(''group'', grp)] s else s)
                 in (TFields 200 [(''group'', grp), (''declared'', append_int declared), (''limit'', append_int limit), (''overridden'', ''true'')], s)))))"

definition handleConcurrencyOverrideClear :: "outside \<Rightarrow> string \<Rightarrow> front \<Rightarrow> tresp \<times> front" where
  "handleConcurrencyOverrideClear o' grp s = (case fr_overrides s of
     None \<Rightarrow> (TErr 500 ''override store not configured'', s)
   | Some ov \<Rightarrow>
       if Declared (fr_groups s) grp = None \<and> ov_ConcurrencyLimit (Some ov) grp = None then (TErr 404 ''no such concurrency group'', s)
       else let declared = (case Declared (fr_groups s) grp of None \<Rightarrow> 0 | Some d \<Rightarrow> d) in
       (case ClearConcurrencyLimit (os_norm o') (os_stored o') grp ov of
          (Inl err, ov') \<Rightarrow> overrideWriteError o' (''concurrency group '' @ grp) err (s\<lparr>fr_overrides := Some ov'\<rparr>)
        | (Inr changed, ov') \<Rightarrow>
            let s' = s\<lparr>fr_overrides := Some ov', fr_groups := ClearLimitOverride grp (fr_groups s)\<rparr>;
                msg = (if Declared (fr_groups s) grp = None
                  then ''concurrency group '' @ os_quote o' grp @ '': orphaned limit override cleared by operator (group is not currently declared)''
                  else ''concurrency group '' @ os_quote o' grp @ '': limit override cleared by operator (declared limit '' @ append_int declared @ '' back in effect)'')
            in (TFields 200 [(''group'', grp), (''declared'', append_int declared), (''overridden'', ''false'')],
                if changed then fr_record o' ''concurrency.override_cleared'' msg [(''group'', grp)] s' else s')))"

definition handleGlobalCapOverrideSet :: "outside \<Rightarrow> int option \<Rightarrow> front \<Rightarrow> tresp \<times> front" where
  "handleGlobalCapOverrideSet o' body s = (case fr_globalCap s of
     None \<Rightarrow> (TErr 500 ''global run cap not configured'', s)
   | Some g \<Rightarrow> (case body of None \<Rightarrow> (TErr 400 ''body must be {\"limit\": N}'', s)
     | Some limit \<Rightarrow>
         if limit < 1 then (TErr 400 (''limit must be >= 1 '' @ em_dash @
           '' a 0 cap would block every run on the server; to stop work entirely, disable the hooks instead''), s)
         else case fr_overrides s of None \<Rightarrow> (TErr 500 ''override store not configured'', s)
         | Some ov \<Rightarrow> (case SetGlobalRunLimit (os_norm o') (os_stored o') limit ov of
             (Inl err, ov') \<Rightarrow> overrideWriteError o' ''global run cap'' err (s\<lparr>fr_overrides := Some ov'\<rparr>)
           | (Inr changed, ov') \<Rightarrow> (case global_SetLimitOverride limit g of
               (False, g') \<Rightarrow> (TErr 500 ''apply override: '', s\<lparr>fr_overrides := Some ov', fr_globalCap := Some g'\<rparr>)
             | (True, g') \<Rightarrow>
                 let s = s\<lparr>fr_overrides := Some ov', fr_globalCap := Some g'\<rparr>;
                     s = (if changed then fr_record o' ''concurrency.global_overridden''
                       (''global run cap overridden to '' @ append_int limit @ '' by operator (default '' @ append_int (gl_def g) @ '')'') [] s else s)
                 in (TFields 200 [(''limit'', append_int limit), (''default'', append_int (gl_def g)), (''overridden'', ''true'')], s)))))"

definition handleGlobalCapOverrideClear :: "outside \<Rightarrow> front \<Rightarrow> tresp \<times> front" where
  "handleGlobalCapOverrideClear o' s = (case fr_globalCap s of
     None \<Rightarrow> (TErr 500 ''global run cap not configured'', s)
   | Some g \<Rightarrow> (case fr_overrides s of None \<Rightarrow> (TErr 500 ''override store not configured'', s)
     | Some ov \<Rightarrow> (case ClearGlobalRunLimit (os_norm o') (os_stored o') ov of
         (Inl err, ov') \<Rightarrow> overrideWriteError o' ''global run cap'' err (s\<lparr>fr_overrides := Some ov'\<rparr>)
       | (Inr changed, ov') \<Rightarrow>
           let s = s\<lparr>fr_overrides := Some ov', fr_globalCap := Some (global_ClearLimitOverride g)\<rparr>;
               s = (if changed then fr_record o' ''concurrency.global_override_cleared''
                 (''global run cap override cleared by operator (default '' @ append_int (gl_def g) @ '' back in effect)'') [] s else s)
           in (TFields 200 [(''limit'', append_int (gl_def g)), (''default'', append_int (gl_def g)), (''overridden'', ''false'')], s))))"

subsection \<open>Spawning\<close>

record spawnRequest =
  sr_Hook :: string
  sr_Count :: int
  sr_Payload :: string
  sr_Event :: string

definition minSpawnCount :: int where "minSpawnCount = 1"
definition maxSpawnCount :: int where "maxSpawnCount = 100"
definition maxSpawnPayloadBytes :: int where "maxSpawnPayloadBytes = 262144"
definition maxSpawnBody :: int where "maxSpawnBody = maxSpawnPayloadBytes + 4096"
definition maxSpawnEventLen :: int where "maxSpawnEventLen = 100"

definition isJSONObject :: "string \<Rightarrow> bool" where
  "isJSONObject raw = (case trim_space raw of [] \<Rightarrow> False | c # _ \<Rightarrow> c = CHR ''{'')"

definition spawnHeaders :: "string \<Rightarrow> string \<Rightarrow> string \<Rightarrow> header" where
  "spawnHeaders parentHookID parentRunID event =
     (let h = fmupd ''X-Webhook-Runner-Spawned-By-Run'' [parentRunID] (fmupd ''X-Webhook-Runner-Spawned-By'' [parentHookID]
            (fmupd ''Content-Type'' [''application/json''] fmempty))
      in if event \<noteq> [] then fmupd ''X-Github-Event'' [event] h else h)"

definition AllowedSpawnTarget :: "mgr_decl \<Rightarrow> string \<Rightarrow> bool" where
  "AllowedSpawnTarget m target \<longleftrightarrow> target \<in> set (md_SpawnTargets m)"

definition current_instance :: "string \<Rightarrow> string \<Rightarrow> front \<Rightarrow> bool" where
  "current_instance ns iid s = (case fr_instances s of None \<Rightarrow> False
     | Some inst \<Rightarrow> IsCurrentInstance ns iid inst)"

text \<open>The loop that starts the runs: \<open>n\<close> still to start, the first start has number \<open>i\<close>.\<close>

fun spawn_loop :: "outside \<Rightarrow> hook_decl \<Rightarrow> string \<Rightarrow> header \<Rightarrow> string \<Rightarrow> string \<Rightarrow> string \<Rightarrow> nat \<Rightarrow> nat \<Rightarrow> string list \<Rightarrow> front \<Rightarrow> tresp \<times> front" where
  "spawn_loop o' target payload hdr title ns runID i 0 ids s = (TSpawned 200 ids [], s)"
| "spawn_loop o' target payload hdr title ns runID i (Suc n) ids s =
     (case runner_Start o' i target payload hdr title ns runID s of
        (p, Some err, s) \<Rightarrow> (TSpawned 500 ids (''start '' @ append_int (int i + 1) @ '' of '' @ append_int (int i + int n + 1) @ '' for hook '' @ hc_ID target @
           '' failed (run '' @ run_ID (the_run s p) @ ''): '' @ err), s)
      | (p, None, s) \<Rightarrow> spawn_loop o' target payload hdr title ns runID (Suc i) n (ids @ [run_ID (the_run s p)]) s)"

definition spawn_denied :: "outside \<Rightarrow> int \<Rightarrow> string \<Rightarrow> string \<Rightarrow> string \<Rightarrow> string \<Rightarrow> string \<Rightarrow> front \<Rightarrow> tresp \<times> front" where
  "spawn_denied o' code resp ns runID target msg s = (TErr code resp,
     fr_record o' ''spawn.denied'' (ns @ '' run '' @ runID @ '': '' @ msg) [(''hook'', ns), (''run'', runID), (''target'', target)] s)"

definition spawn_checked :: "outside \<Rightarrow> string \<Rightarrow> string \<Rightarrow> spawnRequest \<Rightarrow> string \<Rightarrow> front \<Rightarrow> tresp \<times> front" where
  "spawn_checked o' ns runID rq event s =
     (if active_run ns runID (fr_tracker s) = None \<and> \<not> current_instance ns runID s then (TErr 409 ''run is not active'', s)
      else case fmlookup (fr_hooks s) (sr_Hook rq) of
        None \<Rightarrow> spawn_denied o' 404 ''no such hook'' ns runID (sr_Hook rq) (''spawn target '' @ os_quote o' (sr_Hook rq) @ '' does not exist'') s
      | Some target \<Rightarrow> (case fmlookup (fr_mgrs s) ns of
          None \<Rightarrow> spawn_denied o' 403 (ns @ '' is not allowed to spawn: only managers declare spawn_targets'') ns runID (hc_ID target)
            ''only managers may spawn (hooks carry no spawn_targets manifest)'' s
        | Some caller \<Rightarrow>
            if \<not> AllowedSpawnTarget caller (hc_ID target)
            then spawn_denied o' 403 (ns @ '' is not allowed to spawn '' @ hc_ID target @ '' (not in spawn_targets)'') ns runID (hc_ID target)
              (hc_ID target @ '' is not in its manager.json spawn_targets'') s
            else if effectiveDisabled (hc_ID target) s
            then spawn_denied o' 409 ''target hook disabled by operator'' ns runID (hc_ID target)
              (''spawn target '' @ hc_ID target @ '' is disabled by operator'') s
            else let hdr = spawnHeaders ns runID event;
                     title = RenderRunTitle (os_sep o') (hk_RunTitle target) (hk_titleTmpl target) (os_root o' (sr_Payload rq)) hdr
                 in spawn_loop o' target (sr_Payload rq) hdr title ns runID 0 (nat (sr_Count rq)) [] s))"

definition handleSpawn :: "(string \<Rightarrow> string + spawnRequest) \<Rightarrow> outside \<Rightarrow> string \<Rightarrow> string \<Rightarrow> request \<Rightarrow> front \<Rightarrow> tresp \<times> front" where
  "handleSpawn decode o' ns runID r s = (case read_body maxSpawnBody r of
     Inl (True, _) \<Rightarrow> (TErr 413 ''body too large'', s)
   | Inl (False, err) \<Rightarrow> (TErr 400 (''read body: '' @ err), s)
   | Inr body \<Rightarrow> (case decode body of Inl err \<Rightarrow> (TErr 400 (''invalid body: '' @ err), s)
     | Inr rq \<Rightarrow>
         let event = trim_space (sr_Event rq) in
         if trim_space (sr_Hook rq) = [] then (TErr 400 ''hook is required: the target hook id to spawn'', s)
         else if sr_Count rq < minSpawnCount \<or> maxSpawnCount < sr_Count rq then (TErr 400 ''invalid count: must be 1..100'', s)
         else if maxSpawnPayloadBytes < int (length (sr_Payload rq)) then (TErr 413 ''payload too large: max 262144 bytes'', s)
         else if \<not> isJSONObject (sr_Payload rq) then (TErr 400 ''payload is required and must be a JSON object'', s)
         else if maxSpawnEventLen < int (length event) then (TErr 400 ''event too long: max 100 characters'', s)
         else spawn_checked o' ns runID rq event s))"

subsection \<open>What a request can reach\<close>

text \<open>Everything of the state that is work: the runs, the executions started, the spool, the managers' inboxes.\<close>

definition work :: "front \<Rightarrow> tracker \<times> (nat \<times> hook_decl \<times> string \<times> header) list \<times> spool option \<times> (string \<times> header \<times> string) list" where
  "work s = (fr_tracker s, fr_started s, fr_spool s, fr_delivered s)"

lemma fr_record_sels [simp]:
  "fr_hooks (fr_record o' k m fs s) = fr_hooks s" "fr_mgrs (fr_record o' k m fs s) = fr_mgrs s"
  "fr_overrides (fr_record o' k m fs s) = fr_overrides s" "fr_groups (fr_record o' k m fs s) = fr_groups s"
  "fr_globalCap (fr_record o' k m fs s) = fr_globalCap s" "fr_spool (fr_record o' k m fs s) = fr_spool s"
  "fr_draining (fr_record o' k m fs s) = fr_draining s" "fr_tracker (fr_record o' k m fs s) = fr_tracker s"
  "fr_instances (fr_record o' k m fs s) = fr_instances s" "fr_started (fr_record o' k m fs s) = fr_started s"
  "fr_delivered (fr_record o' k m fs s) = fr_delivered s" "work (fr_record o' k m fs s) = work s"
  "effectiveDisabled hid (fr_record o' k m fs s) = effectiveDisabled hid s" "the_run (fr_record o' k m fs s) p = the_run s p"
  by (simp_all add: fr_record_def work_def effectiveDisabled_def the_run_def cong: option.case_cong)

lemma record_all_sels [simp]:
  "fr_hooks (record_all o' evs s) = fr_hooks s" "fr_mgrs (record_all o' evs s) = fr_mgrs s"
  "fr_overrides (record_all o' evs s) = fr_overrides s" "fr_spool (record_all o' evs s) = fr_spool s"
  "fr_draining (record_all o' evs s) = fr_draining s" "fr_tracker (record_all o' evs s) = fr_tracker s"
  "fr_instances (record_all o' evs s) = fr_instances s" "fr_started (record_all o' evs s) = fr_started s"
  "fr_delivered (record_all o' evs s) = fr_delivered s" "work (record_all o' evs s) = work s" "the_run (record_all o' evs s) p = the_run s p"
  unfolding record_all_def by (induction evs arbitrary: s) (auto simp: split_beta)

end
