(* ===== verification/TriggerSafety.thy ===== *)
theory TriggerSafety
  imports Trigger
begin

text \<open>
  Properties of the hook port and the operator's switches (\<open>Trigger\<close>): nothing is started, parked,
  delivered or even recorded as skipped for a request that does not pass the kill switch, the body
  bound and authentication; an admitted delivery is never lost; a disabled hook stays disabled
  across reloads; a spawn happens only under the caller's manifest; a cancel reaches only the runs
  of the authenticated hook; and the stored limits and the ones in force are the same.
\<close>

subsection \<open>Deliveries pass the gate\<close>

text \<open>The declaration a request is for: the hook of that id, else the manager.\<close>

definition declared :: "string \<Rightarrow> front \<Rightarrow> hook_decl option" where
  "declared hid s = (case fmlookup (fr_hooks s) hid of Some h \<Rightarrow> Some h
     | None \<Rightarrow> map_option hook_decl.truncate (fmlookup (fr_mgrs s) hid))"

text \<open>The registry files every declaration under its id.\<close>

definition registry_ok :: "front \<Rightarrow> bool" where
  "registry_ok s \<longleftrightarrow> fmpred (\<lambda>k h. hc_ID h = k) (fr_hooks s) \<and> fmpred (\<lambda>k m. hc_ID m = k) (fr_mgrs s)"

lemma deny_work: "deny o' hid verb rq err s = (resp, s') \<Longrightarrow> work s' = work s"
  by (auto simp: deny_def)

lemma trigger_hook_gate:
  assumes "trigger_hook o' rq h s = (resp, s')" "work s' \<noteq> work s"
  shows "\<not> effectiveDisabled (tq_id rq) s \<and> (\<exists>body. read_delivery rq = Inr body \<and> admitted (os_auth o') h (rq_header (tq_rq rq)) body)"
proof (cases "effectiveDisabled (tq_id rq) s")
  case False
  then obtain body where b: "read_delivery rq = Inr body" using assms by (auto simp: trigger_hook_def split: sum.splits)
  obtain err evs where a: "authenticate (os_auth o') h (rq_header (tq_rq rq)) body = (err, evs)" by (cases "authenticate (os_auth o') h (rq_header (tq_rq rq)) body")
  have "err = None" using assms False b a deny_work [of o' "hc_ID h" "''trigger''" rq _ "record_all o' evs s" resp s']
    by (cases err) (simp_all add: trigger_hook_def)
  then show ?thesis using False b a authenticate_iff [of "os_auth o'" h "rq_header (tq_rq rq)" body] by simp
qed (use assms in \<open>auto simp: trigger_hook_def\<close>)

lemma trigger_manager_gate:
  assumes "trigger_manager o' rq m s = (resp, s')" "work s' \<noteq> work s"
  shows "\<not> effectiveDisabled (hc_ID m) s \<and>
    (\<exists>body. read_delivery rq = Inr body \<and> admitted (os_auth o') (hook_decl.truncate m) (rq_header (tq_rq rq)) body)"
proof (cases "effectiveDisabled (hc_ID m) s")
  case False
  let ?h = "hook_decl.truncate m"
  obtain body where b: "read_delivery rq = Inr body" using assms False by (auto simp: trigger_manager_def Let_def split: sum.splits)
  obtain err evs where a: "authenticate (os_auth o') ?h (rq_header (tq_rq rq)) body = (err, evs)" by (cases "authenticate (os_auth o') ?h (rq_header (tq_rq rq)) body")
  have "err = None" using assms False b a deny_work [of o' "hc_ID m" "''trigger''" rq _ "record_all o' evs s" resp s']
    by (cases err) (simp_all add: trigger_manager_def Let_def)
  then show ?thesis using False b a authenticate_iff [of "os_auth o'" ?h "rq_header (tq_rq rq)" body] by simp
qed (use assms in \<open>auto simp: trigger_manager_def Let_def\<close>)


subsection \<open>An admitted delivery is not lost\<close>

definition delivery_title :: "outside \<Rightarrow> trig_req \<Rightarrow> hook_decl \<Rightarrow> string \<Rightarrow> string" where
  "delivery_title o' rq h body = RenderRunTitle (os_sep o') (hk_RunTitle h) (hk_titleTmpl h) (os_root o' body) (rq_header (tq_rq rq))"

definition skips :: "outside \<Rightarrow> trig_req \<Rightarrow> hook_decl \<Rightarrow> string \<Rightarrow> bool" where
  "skips o' rq h body = snd (EvaluateSkip (os_re o') (os_quote o') (hk_SkipIf h) (os_root o' body) (rq_header (tq_rq rq)))"

lemma tk_New_heap: "tk_heap (tk_New seen rid now hid t) = tk_heap t @ [fresh_run rid hid now (tk_onFinish t) (tk_onChange t)]"
  by (simp add: tk_New_eq new_heap_def)

lemma front_frames [simp]:
  "fr_started (tk_update p f s) = fr_started s" "fr_draining (tk_update p f s) = fr_draining s" "fr_spool (tk_update p f s) = fr_spool s"
  "fr_delivered (tk_update p f s) = fr_delivered s" "fr_started (snd (new_run o' k hid s)) = fr_started s"
  "fr_draining (snd (new_run o' k hid s)) = fr_draining s" "fr_spool (snd (new_run o' k hid s)) = fr_spool s"
  "fr_delivered (snd (new_run o' k hid s)) = fr_delivered s"
  by (simp_all add: tk_update_def new_run_def)

definition born :: "outside \<Rightarrow> nat \<Rightarrow> hook_decl \<Rightarrow> string \<Rightarrow> string \<Rightarrow> string \<Rightarrow> front \<Rightarrow> run" where
  "born o' k h title ph pr s = SetSpawnedBy ph pr (SetTitle title
     (fresh_run (os_rid o' k) (hc_ID h) (os_now o') (tk_onFinish (fr_tracker s)) (tk_onChange (fr_tracker s))))"

lemma runner_Start_cases:
  assumes "runner_Start o' k h payload hdr title ph pr s = (p, err, s')"
  shows "p = length (tk_heap (fr_tracker s))" "length (tk_heap (fr_tracker s')) = Suc (length (tk_heap (fr_tracker s)))"
    "\<And>q. q < length (tk_heap (fr_tracker s)) \<Longrightarrow> the_run s' q = the_run s q"
    "fr_spool s' = fr_spool s" "fr_delivered s' = fr_delivered s" "fr_draining s' = fr_draining s"
    "err = None \<Longrightarrow> the_run s' p = born o' k h title ph pr s \<and> fr_started s' = fr_started s @ [(p, h, payload, hdr)]"
    "err \<noteq> None \<Longrightarrow> fr_started s' = fr_started s \<and> (\<exists>msg. the_run s' p = Finish (os_now o') StatusError (-1) msg (born o' k h title ph pr s))"
    "err = None \<longleftrightarrow> \<not> fr_draining s \<and> os_files o' k = None" "fr_draining s \<Longrightarrow> err = Some ErrDraining"
    "fr_hooks s' = fr_hooks s" "fr_mgrs s' = fr_mgrs s" "fr_overrides s' = fr_overrides s"
  using assms
  by (auto simp: runner_Start_def new_run_def tk_update_def the_run_def tk_New_heap born_def nth_append Let_def split: if_splits option.splits)

lemma fresh_run_open: "rs_Finished (r_state (born o' k h title ph pr s)) = 0" "rs_Status (r_state (born o' k h title ph pr s)) = StatusPending"
  "run_HookID (born o' k h title ph pr s) = hc_ID h" "run_ID (born o' k h title ph pr s) = os_rid o' k"
  by (simp_all add: born_def fresh_run_def SetTitle_def SetSpawnedBy_def run_HookID_def run_ID_def owe_notify_def Let_def)

lemma Finish_status: "rs_Finished (r_state r) = 0 \<Longrightarrow> rs_Status (r_state (Finish now st code err r)) = st"
  by (simp add: Finish_def Finish_section_def finish_next_def notifyChange_def log_event_def split: fin_pc.split)

lemma run_HookID_Finish: "run_HookID (Finish now st code err r) = run_HookID r"
  by (simp add: Finish_def Finish_section_def finish_next_def run_HookID_def notifyChange_def log_event_def markAtLocked_def split: fin_pc.split option.split)

text \<open>
  C13: An admitted delivery is not lost.  A request for a registered, enabled hook whose body was read,
  that is authenticated, matched by no skip condition and well-formed in its parameters ends in
  exactly one of three ways: its execution is started with that body and those headers, on a new
  pending run that carries the rendered title; or it is parked in the spool under the id the
  response names, which happens only while draining; or the response is an error and a new run
  of the hook records it.  When the server is not draining and the files can be written it is
  started; when it is draining and the spool accepts it, it is parked.
\<close>

theorem admitted_delivery_kept:
  assumes "handleTrigger o' rq s = (resp, s')" "fmlookup (fr_hooks s) (tq_id rq) = Some h" "\<not> effectiveDisabled (tq_id rq) s"
    "read_delivery rq = Inr body" "admitted (os_auth o') h (rq_header (tq_rq rq)) body" "\<not> skips o' rq h body"
    "parseWaitParams o' rq h = Inr (sync, hold)"
  defines "p \<equiv> length (tk_heap (fr_tracker s))" and "title \<equiv> delivery_title o' rq h body" and "hdr \<equiv> rq_header (tq_rq rq)"
  shows "(\<not> fr_draining s \<and> os_files o' 0 = None \<and> fr_started s' = fr_started s @ [(p, h, body, hdr)] \<and>
       the_run s' p = born o' 0 h title [] [] s \<and> fr_spool s' = fr_spool s) \<or>
    (\<exists>eid. fr_draining s \<and> resp = TFields 202 (spooled_fields o' eid h) \<and>
       spoolDelivery (os_spoolSize o') (os_spoolRead o') (os_spoolWrite o') (os_spoolID o') (os_now o') (hc_ID h) title hdr body (fr_spool s)
         = (Some eid, fr_spool s') \<and> fr_tracker s' = fr_tracker s \<and> fr_started s' = fr_started s) \<or>
    (tresp_code resp \<in> {Some 500, Some 503} \<and> run_HookID (the_run s' p) = hc_ID h \<and> rs_Status (r_state (the_run s' p)) = StatusError \<and>
       fr_started s' = fr_started s \<and> (if fr_draining s then fst (spoolDelivery (os_spoolSize o') (os_spoolRead o') (os_spoolWrite o') (os_spoolID o')
         (os_now o') (hc_ID h) title hdr body (fr_spool s)) = None else os_files o' 0 \<noteq> None))"
proof -
  obtain evs where a: "authenticate (os_auth o') h hdr body = (None, evs)"
    using authenticate_iff [of "os_auth o'" h hdr body] assms(5) by (cases "authenticate (os_auth o') h hdr body") (auto simp: hdr_def)
  obtain reason where e: "EvaluateSkip (os_re o') (os_quote o') (hk_SkipIf h) (os_root o' body) hdr = (reason, False)"
    using assms(6) by (cases "EvaluateSkip (os_re o') (os_quote o') (hk_SkipIf h) (os_root o' body) hdr") (auto simp: skips_def hdr_def)
  let ?s = "record_all o' evs s"
  have t: "(if fr_draining s
      then (case park_delivery o' (hc_ID h) title hdr body ?s of
          (Some eid, s) \<Rightarrow> (TFields 202 (spooled_fields o' eid h), s)
        | (None, s) \<Rightarrow> dispatch o' rq h body title sync s)
      else dispatch o' rq h body title sync ?s) = (resp, s')"
    using assms(1-4,7) a e unfolding handleTrigger_def trigger_hook_def title_def delivery_title_def hdr_def Let_def by simp
  show ?thesis
  proof (cases "fr_draining s \<and> fst (park_delivery o' (hc_ID h) title hdr body ?s) \<noteq> None")
    case True
    then show ?thesis using t
      by (auto simp: park_delivery_def split: prod.splits option.splits if_splits)
  next
    case False
    define s0 where "s0 = (if fr_draining s then snd (park_delivery o' (hc_ID h) title hdr body ?s) else ?s)"
    have d: "dispatch o' rq h body title sync s0 = (resp, s')" using t False by (auto simp: s0_def split: prod.splits option.splits)
    have s0: "fr_tracker s0 = fr_tracker s" "fr_started s0 = fr_started s" "fr_draining s0 = fr_draining s"
      "\<not> fr_draining s \<Longrightarrow> fr_spool s0 = fr_spool s"
      by (auto simp: s0_def park_delivery_def split: prod.splits option.splits)
    have none: "fr_draining s \<Longrightarrow> fst (spoolDelivery (os_spoolSize o') (os_spoolRead o') (os_spoolWrite o') (os_spoolID o')
         (os_now o') (hc_ID h) title hdr body (fr_spool s)) = None"
      using False by (auto simp: park_delivery_def split: prod.splits option.splits)
    obtain q err s1 where st: "runner_Start o' 0 h body hdr title [] [] s0 = (q, err, s1)" by (cases "runner_Start o' 0 h body hdr title [] [] s0") auto
    note c = runner_Start_cases [OF st]
    have born: "born o' 0 h title [] [] s0 = born o' 0 h title [] [] s" by (simp add: born_def s0)
    show ?thesis
    proof (cases err)
      case None
      then have "s' = s1" using d st by (auto simp: dispatch_def hdr_def split: if_splits hold.splits)
      then show ?thesis using c None s0 born by (simp add: p_def)
    next
      case (Some msg)
      then have "s' = s1" "tresp_code resp \<in> {Some 500, Some 503}" using d st by (auto simp: dispatch_def hdr_def tresp_code_def split: if_splits)
      then show ?thesis using c Some s0 none fresh_run_open
        by (auto simp: p_def Finish_status run_HookID_Finish split: if_splits)
    qed
  qed
qed

subsection \<open>A disabled hook stays disabled\<close>

lemma SetHookDisabled_sets:
  "SetHookDisabled norm ok hid disabled ov = (Inr changed, ov') \<Longrightarrow> HookDisabled (Some ov') hid d = disabled"
  by (auto simp: SetHookDisabled_def ov_persist_def HookDisabled_def HookOverride_def Let_def split: if_splits option.splits prod.splits)

text \<open>
  A disabled hook stays disabled.  Once the operator's request to disable a hook was answered with
  success, every delivery to that hook is answered 503 and leaves the runs, the executions, the
  spool and the inboxes as they are, whatever the hooks repository declares by then (its default
  position of the switch included), for as long as the stored override is the same.
\<close>

theorem disabled_hook_rejects:
  assumes "setHookDisabled o1 hid True s = (r1, s1)" "tresp_code r1 = Some 200"
    "fr_overrides s2 = fr_overrides s1" "tq_id rq = hid" "handleTrigger o2 rq s2 = (r2, s3)" "hid |\<in>| fmdom (fr_hooks s2)"
  shows "r2 = TErr 503 ''hook disabled by operator'' \<and> work s3 = work s2"
proof -
  obtain ov where ov: "fr_overrides s = Some ov" using assms(1,2) by (auto simp: setHookDisabled_def tresp_code_def split: if_splits option.splits)
  obtain changed ov' where st: "SetHookDisabled (os_norm o1) (os_stored o1) hid True ov = (Inr changed, ov')" "fr_overrides s1 = Some ov'"
    using assms(1,2) ov
    by (auto simp: setHookDisabled_def overrideWriteError_def tresp_code_def Let_def split: if_splits prod.splits sum.splits)
  have "effectiveDisabled hid s2" unfolding effectiveDisabled_def Let_def assms(3) st(2) using SetHookDisabled_sets [OF st(1)] by simp
  moreover obtain h where "fmlookup (fr_hooks s2) hid = Some h" using assms(6) by (auto simp: fmlookup_dom_iff)
  ultimately show ?thesis using assms(4,5) by (auto simp: handleTrigger_def trigger_hook_def)
qed

subsection \<open>Spawning under a manifest\<close>

lemma born_spawned: "ph \<noteq> [] \<Longrightarrow> pr \<noteq> [] \<Longrightarrow> rs_SpawnedBy (r_state (born o' k h title ph pr s)) = Some \<lparr>sb_RunID = pr, sb_HookID = ph\<rparr>"
  by (simp add: born_def SetSpawnedBy_def SetTitle_def fresh_run_def owe_notify_def Let_def)

lemma spawn_loop_started:
  assumes "spawn_loop o' target payload hdr title ns runID i n ids s = (resp, s')" "ns \<noteq> []" "runID \<noteq> []"
  shows "\<exists>new. fr_started s' = fr_started s @ new \<and> length new \<le> n \<and>
    length (tk_heap (fr_tracker s)) \<le> length (tk_heap (fr_tracker s')) \<and>
    (\<forall>q < length (tk_heap (fr_tracker s)). the_run s' q = the_run s q) \<and>
    (\<forall>(p, h, pl, hd) \<in> set new. h = target \<and> pl = payload \<and> hd = hdr \<and> length (tk_heap (fr_tracker s)) \<le> p \<and>
       p < length (tk_heap (fr_tracker s')) \<and> rs_SpawnedBy (r_state (the_run s' p)) = Some \<lparr>sb_RunID = runID, sb_HookID = ns\<rparr>)"
  using assms(1)
proof (induction n arbitrary: i ids s)
  case (Suc n)
  obtain q err s1 where st: "runner_Start o' i target payload hdr title ns runID s = (q, err, s1)"
    by (cases "runner_Start o' i target payload hdr title ns runID s") auto
  note c = runner_Start_cases [OF st]
  show ?case
  proof (cases err)
    case (Some msg)
    then show ?thesis using Suc.prems st c by auto
  next
    case None
    then have "spawn_loop o' target payload hdr title ns runID (Suc i) n (ids @ [run_ID (the_run s1 q)]) s1 = (resp, s')"
      using Suc.prems st by simp
    from Suc.IH [OF this] obtain new where new: "fr_started s' = fr_started s1 @ new" "length new \<le> n"
      "length (tk_heap (fr_tracker s1)) \<le> length (tk_heap (fr_tracker s'))" "\<forall>q < length (tk_heap (fr_tracker s1)). the_run s' q = the_run s1 q"
      "\<forall>(p, h, pl, hd) \<in> set new. h = target \<and> pl = payload \<and> hd = hdr \<and> length (tk_heap (fr_tracker s1)) \<le> p \<and>
         p < length (tk_heap (fr_tracker s')) \<and> rs_SpawnedBy (r_state (the_run s' p)) = Some \<lparr>sb_RunID = runID, sb_HookID = ns\<rparr>" by blast
    have "the_run s' q = born o' i target title ns runID s" "q < length (tk_heap (fr_tracker s'))" using new(3,4) c(1,2) c(7) [OF None] by auto
    then show ?thesis using new c None born_spawned [OF assms(2,3)]
      by (intro exI [of _ "(q, target, payload, hdr) # new"]) auto
  qed
qed auto

lemma spawn_checked_gate:
  assumes "spawn_checked o' ns runID rq event s = (resp, s')" "work s' \<noteq> work s"
  shows "\<exists>target caller. fmlookup (fr_hooks s) (sr_Hook rq) = Some target \<and> fmlookup (fr_mgrs s) ns = Some caller \<and>
    hc_ID target \<in> set (md_SpawnTargets caller) \<and> \<not> effectiveDisabled (hc_ID target) s \<and>
    (active_run ns runID (fr_tracker s) \<noteq> None \<or> current_instance ns runID s) \<and>
    (\<exists>title. spawn_loop o' target (sr_Payload rq) (spawnHeaders ns runID event) title ns runID 0 (nat (sr_Count rq)) [] s = (resp, s'))"
  using assms
  by (auto simp: spawn_checked_def spawn_denied_def AllowedSpawnTarget_def Let_def split: if_splits option.splits)

text \<open>
  C22: Spawning is denied unless the manifest grants it.  If a spawn request changes anything but the
  activity feed, then its caller is a live run or the current instance, the caller's namespace is a
  registered manager whose manifest lists the target, the target is a registered hook the kill
  switch lets through, and the request asks for 1 to 100 runs; at most that many executions are
  started, all of them of the target with the payload that was sent and on new runs attributed to
  the caller, and no earlier run changes.
\<close>

theorem spawn_by_manifest:
  assumes "handleSpawn decode o' ns runID r s = (resp, s')" "work s' \<noteq> work s" "ns \<noteq> []" "runID \<noteq> []"
  shows "\<exists>body rq target caller new. read_body maxSpawnBody r = Inr body \<and> decode body = Inr rq \<and> 1 \<le> sr_Count rq \<and> sr_Count rq \<le> 100 \<and>
    fmlookup (fr_hooks s) (sr_Hook rq) = Some target \<and> fmlookup (fr_mgrs s) ns = Some caller \<and> hc_ID target \<in> set (md_SpawnTargets caller) \<and>
    \<not> effectiveDisabled (hc_ID target) s \<and> (active_run ns runID (fr_tracker s) \<noteq> None \<or> current_instance ns runID s) \<and>
    fr_started s' = fr_started s @ new \<and> int (length new) \<le> sr_Count rq \<and>
    (\<forall>q < length (tk_heap (fr_tracker s)). the_run s' q = the_run s q) \<and>
    (\<forall>(p, h, pl, hdr) \<in> set new. h = target \<and> pl = sr_Payload rq \<and> length (tk_heap (fr_tracker s)) \<le> p \<and>
       rs_SpawnedBy (r_state (the_run s' p)) = Some \<lparr>sb_RunID = runID, sb_HookID = ns\<rparr>)"
proof -
  obtain body rq where b: "read_body maxSpawnBody r = Inr body" "decode body = Inr rq" "1 \<le> sr_Count rq" "sr_Count rq \<le> 100"
    "spawn_checked o' ns runID rq (trim_space (sr_Event rq)) s = (resp, s')"
    using assms(1,2)
    by (auto simp: handleSpawn_def Let_def minSpawnCount_def maxSpawnCount_def split: if_splits sum.splits prod.splits bool.splits)
  from spawn_checked_gate [OF b(5) assms(2)] obtain target caller title where g:
    "fmlookup (fr_hooks s) (sr_Hook rq) = Some target" "fmlookup (fr_mgrs s) ns = Some caller" "hc_ID target \<in> set (md_SpawnTargets caller)"
    "\<not> effectiveDisabled (hc_ID target) s" "active_run ns runID (fr_tracker s) \<noteq> None \<or> current_instance ns runID s"
    "spawn_loop o' target (sr_Payload rq) (spawnHeaders ns runID (trim_space (sr_Event rq))) title ns runID 0 (nat (sr_Count rq)) [] s = (resp, s')"
    by blast
  from spawn_loop_started [OF g(6) assms(3,4)] obtain new where new: "fr_started s' = fr_started s @ new" "length new \<le> nat (sr_Count rq)"
    "\<forall>q < length (tk_heap (fr_tracker s)). the_run s' q = the_run s q"
    "\<forall>(p, h, pl, hd) \<in> set new. h = target \<and> pl = sr_Payload rq \<and> hd = spawnHeaders ns runID (trim_space (sr_Event rq)) \<and>
       length (tk_heap (fr_tracker s)) \<le> p \<and> p < length (tk_heap (fr_tracker s')) \<and>
       rs_SpawnedBy (r_state (the_run s' p)) = Some \<lparr>sb_RunID = runID, sb_HookID = ns\<rparr>" by blast
  moreover have "int (length new) \<le> sr_Count rq" using new(2) b(3) by linarith
  ultimately show ?thesis using b(1-4) g(1-5) by fastforce
qed

subsection \<open>Cancelling\<close>

text \<open>
  A hook's key cancels only that hook's runs.  If a cancel request on the hook port changes
  anything but the activity feed, then it was authenticated as the hook it names, the run it names
  is tracked, belongs to that hook and was not over; that run's cancel is now requested, every
  other run is untouched and nothing is started, parked or delivered.
\<close>

theorem cancel_reaches_own_runs:
  assumes "handleCancelRun o' rq s = (resp, s')" "work s' \<noteq> work s"
  shows "\<exists>h body p. fmlookup (fr_hooks s) (tq_id rq) = Some h \<and> admitted (os_auth o') h (rq_header (tq_rq rq)) body \<and>
    tk_Get (tq_run rq) (fr_tracker s) = Some p \<and> run_HookID (the_run s p) = hc_ID h \<and> \<not> Terminal (run_Status (the_run s p)) \<and>
    tk_heap (fr_tracker s') = (tk_heap (fr_tracker s))[p := RequestCancelWithReason (os_now o') [] (the_run s p)] \<and>
    fr_started s' = fr_started s \<and> fr_spool s' = fr_spool s \<and> fr_delivered s' = fr_delivered s"
proof -
  obtain h body where h: "fmlookup (fr_hooks s) (tq_id rq) = Some h" "read_body MaxBodyBytes (tq_rq rq) = Inr body"
    using assms by (auto simp: handleCancelRun_def split: option.splits sum.splits)
  obtain err evs where a: "authenticate (os_auth o') h (rq_header (tq_rq rq)) body = (err, evs)"
    by (cases "authenticate (os_auth o') h (rq_header (tq_rq rq)) body")
  have "err = None" using assms h a deny_work [of o' "hc_ID h" "''cancel''" rq _ "record_all o' evs s" resp s']
    by (cases err) (simp_all add: handleCancelRun_def)
  then have "admitted (os_auth o') h (rq_header (tq_rq rq)) body" using a authenticate_iff [of "os_auth o'" h "rq_header (tq_rq rq)" body] by simp
  moreover obtain p where p: "tk_Get (tq_run rq) (fr_tracker s) = Some p" "run_HookID (the_run s p) = hc_ID h"
      "cancelRun o' p (record_all o' evs s) = (resp, s')"
    using assms h a \<open>err = None\<close> by (auto simp: handleCancelRun_def Let_def split: option.splits if_splits)
  moreover have "\<not> Terminal (run_Status (the_run s p)) \<and> s' = tk_update p (RequestCancelWithReason (os_now o') []) (record_all o' evs s)"
    using p(3) assms(2) by (auto simp: cancelRun_def split: if_splits)
  ultimately show ?thesis using h(1) by (auto simp: tk_update_def the_run_def)
qed

subsection \<open>The stored limits are the limits in force\<close>

datatype admin_op = AdHook string bool | AdManager string bool | AdLimit string "int option" | AdClearLimit string
  | AdCap "int option" | AdClearCap

definition admin_do :: "outside \<Rightarrow> admin_op \<Rightarrow> front \<Rightarrow> tresp \<times> front" where
  "admin_do o' op s = (case op of
     AdHook hid b \<Rightarrow> setHookDisabled o' hid b s
   | AdManager mid b \<Rightarrow> setManagerDisabled o' mid b s
   | AdLimit g l \<Rightarrow> handleConcurrencyOverrideSet o' g l s
   | AdClearLimit g \<Rightarrow> handleConcurrencyOverrideClear o' g s
   | AdCap l \<Rightarrow> handleGlobalCapOverrideSet o' l s
   | AdClearCap \<Rightarrow> handleGlobalCapOverrideClear o' s)"

definition limits_agree :: "front \<Rightarrow> bool" where
  "limits_agree s \<longleftrightarrow> (\<forall>g. ov_ConcurrencyLimit (fr_overrides s) g = fmlookup (m_overrides (fr_groups s)) g) \<and>
     (case fr_globalCap s of None \<Rightarrow> True | Some c \<Rightarrow> ov_GlobalRunLimit (fr_overrides s) = fmlookup (m_overrides (gl_mgr c)) globalGroup)"

lemma override_maps:
  "1 \<le> l \<Longrightarrow> m_overrides (snd (SetLimitOverride g l m)) = fmupd g l (m_overrides m)"
  "m_overrides (ClearLimitOverride g m) = fmdrop g (m_overrides m)"
  by (auto simp: SetLimitOverride_def ClearLimitOverride_def swap_sem_def Let_def split: option.splits prod.splits)

lemma SetLimitOverride_ok: "1 \<le> l \<Longrightarrow> fst (SetLimitOverride g l m)"
  by (auto simp: SetLimitOverride_def Let_def split: option.splits)

lemma hook_switch_frame:
  "SetHookDisabled norm ok hid b ov = (res, ov') \<Longrightarrow>
   ov_ConcurrencyLimit (Some ov') g = ov_ConcurrencyLimit (Some ov) g \<and> ov_GlobalRunLimit (Some ov') = ov_GlobalRunLimit (Some ov)"
  by (auto simp: SetHookDisabled_def ov_persist_def ov_ConcurrencyLimit_def ov_GlobalRunLimit_def Let_def split: if_splits option.splits)

lemma limit_store:
  "SetConcurrencyLimit norm ok g l ov = (res, ov') \<Longrightarrow>
   ov_ConcurrencyLimit (Some ov') k = (if k = g \<and> isl res = False then Some l else ov_ConcurrencyLimit (Some ov) k) \<and>
   ov_GlobalRunLimit (Some ov') = ov_GlobalRunLimit (Some ov)"
  "ClearConcurrencyLimit norm ok g ov = (res, ov') \<Longrightarrow>
   ov_ConcurrencyLimit (Some ov') k = (if k = g \<and> isl res = False then None else ov_ConcurrencyLimit (Some ov) k) \<and>
   ov_GlobalRunLimit (Some ov') = ov_GlobalRunLimit (Some ov)"
  "SetGlobalRunLimit norm ok l ov = (res, ov') \<Longrightarrow>
   ov_GlobalRunLimit (Some ov') = (if isl res then ov_GlobalRunLimit (Some ov) else Some l) \<and> ov_ConcurrencyLimit (Some ov') k = ov_ConcurrencyLimit (Some ov) k"
  "ClearGlobalRunLimit norm ok ov = (res, ov') \<Longrightarrow>
   ov_GlobalRunLimit (Some ov') = (if isl res then ov_GlobalRunLimit (Some ov) else None) \<and> ov_ConcurrencyLimit (Some ov') k = ov_ConcurrencyLimit (Some ov) k"
  by (auto simp: SetConcurrencyLimit_def ClearConcurrencyLimit_def SetGlobalRunLimit_def ClearGlobalRunLimit_def ov_persist_def
      ov_ConcurrencyLimit_def ov_GlobalRunLimit_def Let_def split: if_splits option.splits)

text \<open>What each handler does to the store and to the managers.\<close>

lemma switch_effect:
  assumes "setHookDisabled o' hid b s = (resp, s') \<or> setManagerDisabled o' hid b s = (resp, s')"
  shows "fr_groups s' = fr_groups s \<and> fr_globalCap s' = fr_globalCap s \<and> (fr_overrides s' = fr_overrides s \<or>
    (\<exists>ov. fr_overrides s = Some ov \<and> fr_overrides s' = Some (snd (SetHookDisabled (os_norm o') (os_stored o') hid b ov))))"
  using assms
  by (auto simp: setHookDisabled_def setManagerDisabled_def overrideWriteError_def Let_def split: if_splits option.splits prod.splits sum.splits)

lemma limit_effect:
  assumes "handleConcurrencyOverrideSet o' g body s = (resp, s')"
  shows "fr_globalCap s' = fr_globalCap s \<and> (fr_overrides s' = fr_overrides s \<and> fr_groups s' = fr_groups s \<or>
    (\<exists>ov l. fr_overrides s = Some ov \<and> body = Some l \<and> 1 \<le> l \<and> fr_overrides s' = Some (snd (SetConcurrencyLimit (os_norm o') (os_stored o') g l ov)) \<and>
       fr_groups s' = (if isl (fst (SetConcurrencyLimit (os_norm o') (os_stored o') g l ov)) then fr_groups s else snd (SetLimitOverride g l (fr_groups s)))))"
  using assms
  by (auto simp: handleConcurrencyOverrideSet_def overrideWriteError_def Let_def split: if_splits option.splits prod.splits sum.splits bool.splits)

lemma clear_effect:
  assumes "handleConcurrencyOverrideClear o' g s = (resp, s')"
  shows "fr_globalCap s' = fr_globalCap s \<and> (fr_overrides s' = fr_overrides s \<and> fr_groups s' = fr_groups s \<or>
    (\<exists>ov. fr_overrides s = Some ov \<and> fr_overrides s' = Some (snd (ClearConcurrencyLimit (os_norm o') (os_stored o') g ov)) \<and>
       fr_groups s' = (if isl (fst (ClearConcurrencyLimit (os_norm o') (os_stored o') g ov)) then fr_groups s else ClearLimitOverride g (fr_groups s))))"
  using assms
  by (auto simp: handleConcurrencyOverrideClear_def overrideWriteError_def Let_def split: if_splits option.splits prod.splits sum.splits)

lemma cap_effect:
  assumes "handleGlobalCapOverrideSet o' body s = (resp, s')"
  shows "fr_groups s' = fr_groups s \<and> (fr_overrides s' = fr_overrides s \<and> fr_globalCap s' = fr_globalCap s \<or>
    (\<exists>ov l c. fr_overrides s = Some ov \<and> body = Some l \<and> 1 \<le> l \<and> fr_globalCap s = Some c \<and>
       fr_overrides s' = Some (snd (SetGlobalRunLimit (os_norm o') (os_stored o') l ov)) \<and>
       fr_globalCap s' = Some (if isl (fst (SetGlobalRunLimit (os_norm o') (os_stored o') l ov)) then c else snd (global_SetLimitOverride l c))))"
  using assms
  by (auto simp: handleGlobalCapOverrideSet_def overrideWriteError_def Let_def split: if_splits option.splits prod.splits sum.splits bool.splits)

lemma clear_cap_effect:
  assumes "handleGlobalCapOverrideClear o' s = (resp, s')"
  shows "fr_groups s' = fr_groups s \<and> (fr_overrides s' = fr_overrides s \<and> fr_globalCap s' = fr_globalCap s \<or>
    (\<exists>ov c. fr_overrides s = Some ov \<and> fr_globalCap s = Some c \<and> fr_overrides s' = Some (snd (ClearGlobalRunLimit (os_norm o') (os_stored o') ov)) \<and>
       fr_globalCap s' = Some (if isl (fst (ClearGlobalRunLimit (os_norm o') (os_stored o') ov)) then c else global_ClearLimitOverride c)))"
  using assms
  by (auto simp: handleGlobalCapOverrideClear_def overrideWriteError_def Let_def split: if_splits option.splits prod.splits sum.splits)

lemma limits_agree_same:
  "limits_agree s \<Longrightarrow> fr_groups s' = fr_groups s \<Longrightarrow> fr_globalCap s' = fr_globalCap s \<Longrightarrow> fr_overrides s' = fr_overrides s \<Longrightarrow> limits_agree s'"
  by (simp add: limits_agree_def split: option.splits)

lemma switch_agrees:
  assumes "limits_agree s" "setHookDisabled o' hid b s = (resp, s') \<or> setManagerDisabled o' hid b s = (resp, s')"
  shows "limits_agree s'"
  using switch_effect [OF assms(2)] hook_switch_frame [OF surjective_pairing] assms(1)
  by (auto simp: limits_agree_def split: option.splits)

lemma limit_agrees:
  assumes "limits_agree s" "handleConcurrencyOverrideSet o' g body s = (resp, s')"
  shows "limits_agree s'"
proof (cases "fr_overrides s' = fr_overrides s \<and> fr_groups s' = fr_groups s")
  case False
  then obtain ov l where e: "fr_globalCap s' = fr_globalCap s" "fr_overrides s = Some ov" "1 \<le> l"
      "fr_overrides s' = Some (snd (SetConcurrencyLimit (os_norm o') (os_stored o') g l ov))"
      "fr_groups s' = (if isl (fst (SetConcurrencyLimit (os_norm o') (os_stored o') g l ov)) then fr_groups s else snd (SetLimitOverride g l (fr_groups s)))"
    using limit_effect [OF assms(2)] by blast
  show ?thesis using assms(1) e limit_store(1) [OF surjective_pairing, of "os_norm o'" "os_stored o'" g l ov]
    by (simp add: limits_agree_def override_maps split: option.splits)
qed (use limits_agree_same [OF assms(1)] limit_effect [OF assms(2)] in blast)

lemma clear_agrees:
  assumes "limits_agree s" "handleConcurrencyOverrideClear o' g s = (resp, s')"
  shows "limits_agree s'"
proof (cases "fr_overrides s' = fr_overrides s \<and> fr_groups s' = fr_groups s")
  case False
  then obtain ov where e: "fr_globalCap s' = fr_globalCap s" "fr_overrides s = Some ov"
      "fr_overrides s' = Some (snd (ClearConcurrencyLimit (os_norm o') (os_stored o') g ov))"
      "fr_groups s' = (if isl (fst (ClearConcurrencyLimit (os_norm o') (os_stored o') g ov)) then fr_groups s else ClearLimitOverride g (fr_groups s))"
    using clear_effect [OF assms(2)] by blast
  show ?thesis using assms(1) e limit_store(2) [OF surjective_pairing, of "os_norm o'" "os_stored o'" g ov]
    by (simp add: limits_agree_def override_maps split: option.splits)
qed (use limits_agree_same [OF assms(1)] clear_effect [OF assms(2)] in blast)

lemma cap_agrees:
  assumes "limits_agree s" "handleGlobalCapOverrideSet o' body s = (resp, s')"
  shows "limits_agree s'"
proof (cases "fr_overrides s' = fr_overrides s \<and> fr_globalCap s' = fr_globalCap s")
  case False
  then obtain ov l c where e: "fr_groups s' = fr_groups s" "fr_overrides s = Some ov" "1 \<le> l" "fr_globalCap s = Some c"
      "fr_overrides s' = Some (snd (SetGlobalRunLimit (os_norm o') (os_stored o') l ov))"
      "fr_globalCap s' = Some (if isl (fst (SetGlobalRunLimit (os_norm o') (os_stored o') l ov)) then c else snd (global_SetLimitOverride l c))"
    using cap_effect [OF assms(2)] by blast
  show ?thesis using assms(1) e limit_store(3) [OF surjective_pairing, of "os_norm o'" "os_stored o'" l ov]
    by (simp add: limits_agree_def override_maps global_SetLimitOverride_def split_beta)
qed (use limits_agree_same [OF assms(1)] cap_effect [OF assms(2)] in blast)

lemma clear_cap_agrees:
  assumes "limits_agree s" "handleGlobalCapOverrideClear o' s = (resp, s')"
  shows "limits_agree s'"
proof (cases "fr_overrides s' = fr_overrides s \<and> fr_globalCap s' = fr_globalCap s")
  case False
  then obtain ov c where e: "fr_groups s' = fr_groups s" "fr_overrides s = Some ov" "fr_globalCap s = Some c"
      "fr_overrides s' = Some (snd (ClearGlobalRunLimit (os_norm o') (os_stored o') ov))"
      "fr_globalCap s' = Some (if isl (fst (ClearGlobalRunLimit (os_norm o') (os_stored o') ov)) then c else global_ClearLimitOverride c)"
    using clear_cap_effect [OF assms(2)] by blast
  show ?thesis using assms(1) e limit_store(4) [OF surjective_pairing, of "os_norm o'" "os_stored o'" ov]
    by (simp add: limits_agree_def override_maps global_ClearLimitOverride_def)
qed (use limits_agree_same [OF assms(1)] clear_cap_effect [OF assms(2)] in blast)

lemma limits_agree_do: "limits_agree s \<Longrightarrow> admin_do o' op s = (resp, s') \<Longrightarrow> limits_agree s'"
  by (cases op) (auto simp: admin_do_def intro: switch_agrees limit_agrees clear_agrees cap_agrees clear_cap_agrees)

text \<open>
  C23: The stored limits are the limits in force.  If the override store and the concurrency managers
  agree on every group's override and on the global one, as they do after a start, then they agree
  after any sequence of the operator's requests (disabling and enabling, setting and clearing
  limits, valid or not), whichever of the writes to disk fail; so a restart brings back exactly the
  limits that were in force.
\<close>

theorem limits_in_force_are_stored:
  assumes "limits_agree s"
  shows "limits_agree (fold (\<lambda>(o', op) s. snd (admin_do o' op s)) ops s)"
  using assms
proof (induction ops arbitrary: s)
  case (Cons x ops)
  obtain o' op where x: "x = (o', op)" by (cases x)
  have "limits_agree (snd (admin_do o' op s))" using limits_agree_do [OF Cons.prems surjective_pairing] .
  then show ?case using Cons.IH x by simp
qed simp

subsection \<open>A server to look at\<close>

definition outside_ex :: outside where
  "outside_ex = \<lparr>os_now = 7, os_auth = auth_ex (\<lambda>_. Some ''k''), os_root = (\<lambda>_. JNull), os_re = (\<lambda>_ _. None), os_quote = (\<lambda>q. q),
     os_sep = (\<lambda>_. False), os_dur = (\<lambda>_. None), os_rid = (\<lambda>k. ''r'' @ append_int (int k)), os_seen = (\<lambda>_. False), os_files = (\<lambda>_. None),
     os_spoolID = ''e'', os_spoolRead = True, os_spoolWrite = True, os_spoolSize = (\<lambda>_. 1), os_stored = True, os_norm = (\<lambda>t. t),
     os_ovText = (\<lambda>_. []), os_spoolText = [], os_hold = HoldGone, os_eventID = ''v'',
     os_stamp = append_int\<rparr>"

definition manager_ex :: mgr_decl where
  "manager_ex = hook_decl.extend (keyed_hook\<lparr>hc_ID := ''boss'', hk_APIKey := []\<rparr>) \<lparr>md_SpawnTargets = [''deploy'']\<rparr>"

definition front_ex :: front where
  "front_ex = \<lparr>fr_hooks = fmupd ''deploy'' keyed_hook fmempty, fr_mgrs = fmupd ''boss'' manager_ex fmempty, fr_overrides = Some ov_empty,
     fr_groups = NewManager (Some (fmupd ''g'' \<lparr>g_Limit = 2, g_Description = []\<rparr> fmempty)), fr_globalCap = Some (NewGlobal 4), fr_spool = None, fr_draining = False, fr_tracker = NewTracker,
     fr_instances = Some (fmupd ''boss'' \<lparr>mg_instanceID = ''i1'', mg_title = []\<rparr> fmempty), fr_events = \<lparr>rc_buf = [], rc_next = 0, rc_total = 0\<rparr>,
     fr_started = [], fr_delivered = []\<rparr>"

definition request_ex :: trig_req where
  "request_ex = \<lparr>tq_id = ''deploy'', tq_run = ''r0'', tq_remote = ''x'', tq_wait = [], tq_timeout = [],
     tq_rq = \<lparr>rq_header = fmupd ''X-Api-Key'' [''k''] fmempty, rq_ttl = [], rq_name = [], rq_body = ''{}'', rq_broken = None\<rparr>\<rparr>"

definition spawn_ex :: "string \<Rightarrow> string + spawnRequest" where
  "spawn_ex body = Inr \<lparr>sr_Hook = ''deploy'', sr_Count = 2, sr_Payload = body, sr_Event = []\<rparr>"

lemma front_ex_runs:
  "length (fr_started (snd (handleTrigger outside_ex request_ex front_ex))) = 1"
  "length (fr_started (snd (handleSpawn spawn_ex outside_ex ''boss'' ''i1'' (tq_rq request_ex) front_ex))) = 2"
  "map r_cancel (tk_heap (fr_tracker (snd (handleCancelRun outside_ex request_ex (snd (handleTrigger outside_ex request_ex front_ex)))))) = [True]"
  "tresp_code (fst (setHookDisabled outside_ex ''deploy'' True front_ex)) = Some 200"
  by code_simp+

lemma registry_ex: "registry_ok front_ex"
  by (auto simp: registry_ok_def fmpred_iff front_ex_def keyed_hook_def manager_ex_def hook_decl.extend_def split: if_splits)

lemma started_work: "length (fr_started s') \<noteq> length (fr_started s) \<Longrightarrow> work s' \<noteq> work s"
  by (auto simp: work_def)

lemma front_ex_empty: "fr_started front_ex = []" "tk_heap (fr_tracker front_ex) = []"
  by (simp_all add: front_ex_def NewTracker_def)


lemma request_ex_admitted:
  "fmlookup (fr_hooks front_ex) (tq_id request_ex) = Some keyed_hook" "\<not> effectiveDisabled (tq_id request_ex) front_ex"
  "read_delivery request_ex = Inr ''{}''" "\<not> skips outside_ex request_ex keyed_hook ''{}''"
  "parseWaitParams outside_ex request_ex keyed_hook = Inr (False, defaultSyncHold)" "\<not> fr_draining front_ex"
  "os_files outside_ex 0 = None"
  by code_simp+

lemma request_ex_auth: "admitted (os_auth outside_ex) keyed_hook (rq_header (tq_rq request_ex)) ''{}''"
proof -
  have "fst (authenticate (os_auth outside_ex) keyed_hook (rq_header (tq_rq request_ex)) ''{}'') = None" by code_simp
  then show ?thesis by (simp add: authenticate_iff)
qed

theorem admitted_delivery_kept_witness:
  "fr_started (snd (handleTrigger outside_ex request_ex front_ex)) = [(0, keyed_hook, ''{}'', rq_header (tq_rq request_ex))]"
  using admitted_delivery_kept [OF surjective_pairing request_ex_admitted(1-3) request_ex_auth request_ex_admitted(4,5)] request_ex_admitted(6,7)
  by (auto simp: front_ex_empty)

theorem disabled_hook_rejects_witness:
  "fst (handleTrigger outside_ex request_ex (snd (setHookDisabled outside_ex ''deploy'' True front_ex))) = TErr 503 ''hook disabled by operator''"
proof -
  have d: "''deploy'' |\<in>| fmdom (fr_hooks (snd (setHookDisabled outside_ex ''deploy'' True front_ex)))" by code_simp
  show ?thesis
    using disabled_hook_rejects [OF surjective_pairing front_ex_runs(4) refl _ surjective_pairing d] by (simp add: request_ex_def)
qed

theorem spawn_by_manifest_witness:
  "(\<exists>caller. fmlookup (fr_mgrs front_ex) ''boss'' = Some caller \<and> md_SpawnTargets caller \<noteq> []) \<and>
   length (fr_started (snd (handleSpawn spawn_ex outside_ex ''boss'' ''i1'' (tq_rq request_ex) front_ex))) = 2"
proof -
  have w: "work (snd (handleSpawn spawn_ex outside_ex ''boss'' ''i1'' (tq_rq request_ex) front_ex)) \<noteq> work front_ex"
    using front_ex_runs(2) by (intro started_work) (simp add: front_ex_empty)
  show ?thesis using spawn_by_manifest [OF surjective_pairing w] front_ex_runs(2) by (auto simp: front_ex_empty)
qed

theorem cancel_reaches_own_runs_witness:
  "\<exists>h body. admitted (os_auth outside_ex) h (rq_header (tq_rq request_ex)) body \<and>
     run_HookID (the_run (snd (handleTrigger outside_ex request_ex front_ex)) 0) = hc_ID h"
proof -
  let ?s = "snd (handleTrigger outside_ex request_ex front_ex)"
  have r: "map r_cancel (tk_heap (fr_tracker ?s)) = [False]" "tk_Get ''r0'' (fr_tracker ?s) = Some 0" by code_simp+
  then have w: "work (snd (handleCancelRun outside_ex request_ex ?s)) \<noteq> work ?s" using front_ex_runs(3) by (auto simp: work_def)
  show ?thesis using cancel_reaches_own_runs [OF surjective_pairing w] r(2) by (auto simp: request_ex_def)
qed

theorem limits_in_force_are_stored_witness:
  "limits_agree front_ex \<and> limits_agree (snd (admin_do outside_ex (AdLimit ''g'' (Some 5)) front_ex)) \<and>
   fmlookup (m_overrides (fr_groups (snd (admin_do outside_ex (AdLimit ''g'' (Some 5)) front_ex)))) ''g'' = Some 5"
proof -
  have a: "limits_agree front_ex"
    by (simp add: limits_agree_def front_ex_def ov_ConcurrencyLimit_def ov_GlobalRunLimit_def ov_empty_def NewGlobal_def NewManager_def mgr_Update_def
        update_group_def Let_def split: option.splits)
  have "fmlookup (m_overrides (fr_groups (snd (admin_do outside_ex (AdLimit ''g'' (Some 5)) front_ex)))) ''g'' = Some 5" by code_simp
  then show ?thesis using limits_in_force_are_stored [OF a, of "[(outside_ex, AdLimit ''g'' (Some 5))]"] a by simp
qed

end
