(* ===== verification/Waits.thy ===== *)
theory Waits
  imports TriggerSafety StateLock
begin

text \<open>
  Model of \<^verbatim>\<open>internal/server/wait.go\<close>: the declared sleep of a run or of a manager instance
  (\<open>POST /wait\<close>).  A wait in flight is a position with the run's mark, the deadline and the next tick of
  the ticker; each turn of its \<open>select\<close> is one step, and which of the ready cases it takes is not
  determined.  The lemmas show that every way out of a wait clears the mark, and when the touches
  hold off the idle watchdog (\<open>Watchdog\<close>) and when they do not.
\<close>

subsection \<open>The endpoint\<close>

definition maxWaitReasonLen :: int where "maxWaitReasonLen = 200"
definition maxWaitBody :: int where "maxWaitBody = 4096"
definition maxWaitTouchInterval :: duration where "maxWaitTouchInterval = 5 * Second"
definition minWaitTouchInterval :: duration where "minWaitTouchInterval = 50000000"
definition WaitingOnWait :: string where "WaitingOnWait = ''wait''"

record waitRequest =
  wr_Seconds :: int
  wr_Reason :: string

definition waitTouchInterval :: "string \<Rightarrow> front \<Rightarrow> duration" where
  "waitTouchInterval ns s =
     (let interval = maxWaitTouchInterval;
          interval = (case fmlookup (fr_hooks s) ns of
              Some h \<Rightarrow> (let d = go_div (hc_Timeout h) 3 in if d < interval then d else interval)
            | None \<Rightarrow> (case fmlookup (fr_mgrs s) ns of
                Some m \<Rightarrow> (let d = go_div (hc_Timeout m) 3 in if d < interval then d else interval)
              | None \<Rightarrow> interval))
      in if interval < minWaitTouchInterval then minWaitTouchInterval else interval)"

text \<open>A wait in flight; \<open>None\<close> for the run means a manager instance.\<close>

record waiting =
  wt_run :: "(nat \<times> 64 word) option"
  wt_ns :: string
  wt_id :: string
  wt_seconds :: int
  wt_started :: time
  wt_deadline :: time
  wt_tick :: time
  wt_interval :: duration

definition start_wait :: "outside \<Rightarrow> (nat \<times> 64 word) option \<Rightarrow> string \<Rightarrow> string \<Rightarrow> int \<Rightarrow> front \<Rightarrow> waiting" where
  "start_wait o' run ns rid secs s =
     \<lparr>wt_run = run, wt_ns = ns, wt_id = rid, wt_seconds = secs, wt_started = os_now o', wt_deadline = os_now o' + secs * Second,
      wt_tick = os_now o' + waitTouchInterval ns s, wt_interval = waitTouchInterval ns s\<rparr>"

definition handleWait ::
  "(string \<Rightarrow> string + waitRequest) \<Rightarrow> outside \<Rightarrow> string \<Rightarrow> string \<Rightarrow> request \<Rightarrow> front \<Rightarrow> (tresp + waiting) \<times> front" where
  "handleWait decode o' ns runID r s = (case read_body maxWaitBody r of
     Inl (_, err) \<Rightarrow> (Inl (TErr 400 (''read body: '' @ err)), s)
   | Inr body \<Rightarrow> (case decode body of Inl err \<Rightarrow> (Inl (TErr 400 (''invalid body: '' @ err)), s)
     | Inr rq \<Rightarrow>
         let secs = wr_Seconds rq; reason = trim_space (wr_Reason rq) in
         if secs < minWaitSeconds \<or> maxWaitSeconds < secs then (Inl (TErr 400 ''invalid seconds: must be 1..600 (loop for longer waits)''), s)
         else if reason = [] then (Inl (TErr 400 ''reason is required: say what the run is waiting for''), s)
         else if maxWaitReasonLen < int (length reason) then (Inl (TErr 400 ''reason too long: max 200 characters''), s)
         else case active_run ns runID (fr_tracker s) of
           None \<Rightarrow> if current_instance ns runID s
             then (Inr (start_wait o' None ns runID secs s), fr_record o' ''manager.wait''
               (ns @ '' instance '' @ runID @ '' waiting '' @ append_int secs @ ''s: '' @ reason) [(''hook'', ns)] s)
             else (Inl (TErr 409 ''run is not active''), s)
         | Some p \<Rightarrow>
             let (seq, run) = SetWaitingOn (os_now o') (os_now o') \<lparr>w_Kind = WaitingOnWait, w_Reason = reason,
                   w_Until = os_now o' + secs * Second, w_Key = [], w_HolderRunID = [], w_HolderHookID = [], w_HolderRunIDs = [], w_Position = 0\<rparr> (the_run s p);
                 s = tk_update p TouchActivity (tk_update p (\<lambda>_. run) s)
             in (Inr (start_wait o' (Some (p, seq)) ns runID secs s), fr_record o' ''run.wait''
               (ns @ '' run '' @ runID @ '' waiting '' @ append_int secs @ ''s: '' @ reason) [(''hook'', ns), (''run'', runID)] s)))"

datatype wait_case = WaitDeadline | WaitTick | WaitDone | WaitCancelled | WaitGone

definition interruptedResult :: "time \<Rightarrow> waiting \<Rightarrow> string \<Rightarrow> tresp" where
  "interruptedResult now w cause =
     TFields 200 [(''waited'', append_int (go_div (now - wt_started w) Second)), (''interrupted'', ''true''), (''cause'', cause)]"

text \<open>The deferred \<open>ClearWaitingOn\<close>.\<close>

definition end_wait :: "outside \<Rightarrow> waiting \<Rightarrow> front \<Rightarrow> front" where
  "end_wait o' w s = (case wt_run w of None \<Rightarrow> s | Some (p, seq) \<Rightarrow> tk_update p (ClearWaitingOn (os_now o') seq) s)"

definition touch_wait :: "waiting \<Rightarrow> front \<Rightarrow> bool \<times> front" where
  "touch_wait w s = (case wt_run w of None \<Rightarrow> (current_instance (wt_ns w) (wt_id w) s, s)
     | Some (p, seq) \<Rightarrow> (True, tk_update p TouchActivity s))"

definition wait_next :: "outside \<Rightarrow> wait_case \<Rightarrow> waiting \<Rightarrow> front \<Rightarrow> ((tresp + waiting) \<times> front) option" where
  "wait_next o' c w s =
     (let now = os_now o' in case c of
        WaitDeadline \<Rightarrow> if wt_deadline w \<le> now
          then Some (Inl (TFields 200 [(''waited'', append_int (wt_seconds w))]), end_wait o' w (snd (touch_wait w s))) else None
      | WaitTick \<Rightarrow> if wt_tick w \<le> now
          then (case touch_wait w s of (True, s) \<Rightarrow> Some (Inr (w\<lparr>wt_tick := wt_tick w + wt_interval w\<rparr>), s)
              | (False, s) \<Rightarrow> Some (Inl (interruptedResult now w ''instance stopped''), s)) else None
      | WaitDone \<Rightarrow> (case wt_run w of None \<Rightarrow> None | Some (p, seq) \<Rightarrow>
          if r_done (the_run s p) then Some (Inl (interruptedResult now w ''run finished''), end_wait o' w s) else None)
      | WaitCancelled \<Rightarrow> (case wt_run w of None \<Rightarrow> None | Some (p, seq) \<Rightarrow>
          if r_cancel (the_run s p) then Some (Inl (interruptedResult now w ''run cancelled''), end_wait o' w s) else None)
      | WaitGone \<Rightarrow> Some (Inl TGone, end_wait o' w s))"

subsection \<open>The touches and the watchdog\<close>

text \<open>The instants at which a wait of \<open>d\<close> that is not interrupted touches its run, with a ticker that
  rings on time.\<close>

definition wait_touches :: "time \<Rightarrow> duration \<Rightarrow> duration \<Rightarrow> time list" where
  "wait_touches started d interval =
     started # map (\<lambda>k. started + int k * interval) [1..<Suc (nat ((d - 1) div interval))] @ [started + d]"

lemma touches_sorted:
  assumes "0 < interval" "0 < d"
  shows "sorted (started # wait_touches started d interval)"
proof -
  have k: "int k * interval \<le> d" if "k < Suc (nat ((d - 1) div interval))" for k
  proof -
    have "0 \<le> (d - 1) div interval" using assms by (simp add: pos_imp_zdiv_nonneg_iff)
    then have "int k \<le> (d - 1) div interval" using that by linarith
    then have "int k * interval \<le> (d - 1) div interval * interval" using assms by (intro mult_right_mono) simp_all
    also have "\<dots> \<le> d - 1" using assms(1) by (metis add.commute le_add_same_cancel1 mult_div_mod_eq pos_mod_sign mult.commute)
    finally show ?thesis by simp
  qed
  have "sorted (map (\<lambda>k. started + int k * interval) [1..<Suc (nat ((d - 1) div interval))])"
    using assms(1) by (auto simp: sorted_map simp del: upt_Suc intro!: sorted_wrt_mono_rel [OF _ sorted_upt] mult_right_mono)
  then show ?thesis using assms k by (auto simp: wait_touches_def sorted_append)
qed

lemma idle_run: "(\<And>k. k < n \<Longrightarrow> f (Suc k) \<le> f k + L) \<Longrightarrow> e \<le> f n + L \<Longrightarrow>
    idle_instant L (f 0) (map f [1..<Suc n] @ [e]) = e + L"
  for f :: "nat \<Rightarrow> int"
proof (induction n arbitrary: f)
  case (Suc n)
  have "map f [1..<Suc (Suc n)] = f 1 # map (\<lambda>k. f (Suc k)) [1..<Suc n]"
    by (simp add: upt_conv_Cons map_Suc_upt [symmetric] comp_def del: upt_Suc)
  moreover have "idle_instant L (f (Suc 0)) (map (\<lambda>k. f (Suc k)) [1..<Suc n] @ [e]) = e + L"
    using Suc.IH [of "\<lambda>k. f (Suc k)"] Suc.prems by simp
  ultimately show ?case using Suc.prems(1) [of 0] by simp
qed simp

lemma idle_instant_touches:
  assumes "0 < interval" "0 < L" "L < d"
  shows "idle_instant L started (wait_touches started d interval) = (if interval \<le> L then started + d + L else started + L)"
proof (cases "interval \<le> L")
  case True
  let ?n = "nat ((d - 1) div interval)"
  have "d - 1 = (d - 1) div interval * interval + (d - 1) mod interval" by simp
  moreover have "(d - 1) mod interval < interval" using assms(1) by simp
  moreover have "int ?n = (d - 1) div interval" using assms by (simp add: pos_imp_zdiv_nonneg_iff)
  ultimately have "started + d \<le> started + int ?n * interval + L" using True by (simp only:)
  then show ?thesis using True assms(2) idle_run [of ?n "\<lambda>k. started + int k * interval" L "started + d"]
    by (simp add: wait_touches_def algebra_simps del: upt_Suc)
next
  case False
  then show ?thesis using assms by (cases "nat ((d - 1) div interval)") (simp_all add: wait_touches_def upt_conv_Cons del: upt_Suc)
qed

lemma waitTouchInterval_pos: "minWaitTouchInterval \<le> waitTouchInterval ns s" "waitTouchInterval ns s \<le> maxWaitTouchInterval"
  by (auto simp: waitTouchInterval_def minWaitTouchInterval_def maxWaitTouchInterval_def Let_def split: option.splits)

lemma handleWait_waiting:
  assumes "fst (handleWait decode o' ns runID r s) = Inr w"
  obtains run secs s' where "w = start_wait o' run ns runID secs s'" "1 \<le> secs" "secs \<le> 600"
  using that assms by (auto simp: handleWait_def minWaitSeconds_def maxWaitSeconds_def Let_def split: sum.splits option.splits if_splits prod.splits)

lemma end_wait_clears:
  assumes "wt_run w = Some (p, seq)" "r_waitSeq (the_run s p) = seq" "seq \<noteq> 0" "p < length (tk_heap (fr_tracker s))"
  shows "rs_WaitingOn (r_state (the_run (end_wait o' w s) p)) = None"
  using assms by (simp add: end_wait_def tk_update_def the_run_def ClearWaitingOn_def owe_notify_def)

lemma touch_wait_keeps: "tk_heap (fr_tracker (snd (touch_wait w s))) = (case wt_run w of None \<Rightarrow> tk_heap (fr_tracker s)
    | Some (p, seq) \<Rightarrow> (tk_heap (fr_tracker s))[p := TouchActivity (the_run s p)])"
  by (simp add: touch_wait_def tk_update_def the_run_def split: option.splits prod.splits)

lemma wait_ended_clears:
  assumes "wait_next o' c w s = Some (Inl resp, s')" "wt_run w = Some (p, seq)" "r_waitSeq (the_run s p) = seq" "seq \<noteq> 0"
    "p < length (tk_heap (fr_tracker s))"
  shows "rs_WaitingOn (r_state (the_run s' p)) = None"
proof -
  have t: "r_waitSeq (the_run (snd (touch_wait w s)) p) = seq" "p < length (tk_heap (fr_tracker (snd (touch_wait w s))))"
    using assms(2-5) by (simp_all add: the_run_def touch_wait_keeps TouchActivity_def log_event_def)
  have "s' = end_wait o' w s \<or> s' = end_wait o' w (snd (touch_wait w s))"
    using assms(1,2) by (auto simp: wait_next_def touch_wait_def Let_def split: wait_case.splits if_splits)
  then show ?thesis using end_wait_clears [OF assms(2-5)] end_wait_clears [OF assms(2) t(1) assms(4) t(2)] by auto
qed


definition wait_ex :: "string \<Rightarrow> string + waitRequest" where
  "wait_ex body = Inr \<lparr>wr_Seconds = 60, wr_Reason = ''ci''\<rparr>"

definition patient_front :: front where
  "patient_front = front_ex\<lparr>fr_mgrs := fmupd ''boss'' (manager_ex\<lparr>hc_Timeout := 3600 * Second\<rparr>) fmempty\<rparr>"

lemma wait_ex_waits:
  "map_sum id wt_interval (fst (handleWait wait_ex outside_ex ''boss'' ''i1'' (tq_rq request_ex) patient_front)) = Inr (5 * Second)"
  "map_sum id wt_started (fst (handleWait wait_ex outside_ex ''boss'' ''i1'' (tq_rq request_ex) patient_front)) = Inr 7"
  "map_sum id wt_deadline (fst (handleWait wait_ex outside_ex ''boss'' ''i1'' (tq_rq request_ex) patient_front)) = Inr (7 + 60 * Second)"
  by code_simp+


end
