(* ===== verification/Supervisor.thy ===== *)
theory Supervisor
  imports Trigger Inbox
begin

text \<open>
  Model of \<^verbatim>\<open>internal/managers/supervisor.go\<close>, \<^verbatim>\<open>loop.go\<close>, \<^verbatim>\<open>supervisor_api.go\<close> and
  \<^verbatim>\<open>lease_unix.go\<close>: the supervision of managers.  \<^verbatim>\<open>managed\<close> structs live on a heap (a loop keeps its
  pointer after the map has dropped it); every critical section of \<open>s.mu\<close> is one step, and so is every
  call a loop makes between two of them.  The stop channel of a session is reachable only through
  \<open>sessionStop\<close>, which its own loop alone replaces, so it is a field.  What a session does inside
  \<open>RunManagerSession\<close> (a container's whole life) is up to the environment.
\<close>

subsection \<open>State\<close>

record smgr = mgr_decl +
  sm_Description :: string
  sm_ReconcileIntervalRaw :: string
  sm_ReconcileInterval :: duration

record supervised = managed +
  sg_id :: string
  sg_inbox :: inbox
  sg_poke :: bool
  sg_state :: string
  sg_stop :: "string option option"
  sg_started :: time
  sg_hash :: string
  sg_restarts :: int
  sg_fails :: int
  sg_lastError :: string
  sg_lastStop :: string
  sg_loop :: bool
  sg_touch :: bool
  sg_output :: "string list"

record session_outcome =
  so_Status :: status
  so_RequestedStop :: bool
  so_Err :: string

text \<open>Where a loop is.  \<open>LRun m i True\<close>: the session has taken a stop request off its channel.\<close>

datatype loop_pc = LTop | LSleep time | LMark | LReap smgr string | LSeed smgr string | LRun smgr string bool
  | LEnd string session_outcome | LAfter string session_outcome | LRestart | LExit | LGone

record supervisor =
  su_desired :: "(string, smgr) fmap"
  su_states :: "(string, nat) fmap"
  su_heap :: "supervised list"
  su_leased :: bool
  su_shutdown :: bool
  su_wg :: int
  su_loops :: "(nat \<times> loop_pc) list"
  su_feed :: "(string \<times> string) list"
  su_removed :: "string list"
  su_ended :: "string list"

text \<open>What the outside answers during one step: the clock, the kill switch, a fresh instance id, the content
  hash of a manager's tree (which can fail), the id of a new event, and how titles are rendered.\<close>

record sup_ans =
  sa_now :: time
  sa_disabled :: "string \<Rightarrow> bool \<Rightarrow> bool"
  sa_id :: string
  sa_hash :: "smgr \<Rightarrow> string option"
  sa_event :: string
  sa_sep :: "string \<Rightarrow> bool"
  sa_root :: json

definition RestartDelay :: duration where "RestartDelay = 10 * Second"
definition ParkPoll :: duration where "ParkPoll = 2 * Second"
definition OutputTailLines :: nat where "OutputTailLines = 500"

definition ContainerName :: "string \<Rightarrow> string" where
  "ContainerName mid = ''webhook-runner-mgr-'' @ mid"

definition new_supervisor :: supervisor where
  "new_supervisor = \<lparr>su_desired = fmempty, su_states = fmempty, su_heap = [], su_leased = False, su_shutdown = False, su_wg = 0,
     su_loops = [], su_feed = [], su_removed = [], su_ended = []\<rparr>"

definition new_supervised :: "string \<Rightarrow> supervised" where
  "new_supervised mid = \<lparr>mg_instanceID = [], mg_title = [], sg_id = mid, sg_inbox = NewInbox, sg_poke = False,
     sg_state = ''waiting-lease'', sg_stop = None, sg_started = 0, sg_hash = [], sg_restarts = 0, sg_fails = 0, sg_lastError = [],
     sg_lastStop = [], sg_loop = False, sg_touch = False, sg_output = []\<rparr>"

definition sup_upd :: "nat \<Rightarrow> (supervised \<Rightarrow> supervised) \<Rightarrow> supervisor \<Rightarrow> supervisor" where
  "sup_upd p f s = s\<lparr>su_heap := (su_heap s)[p := f (su_heap s ! p)]\<rparr>"

subsection \<open>Operations\<close>

definition startLoopLocked :: "nat \<Rightarrow> supervisor \<Rightarrow> supervisor" where
  "startLoopLocked p s =
     (if sg_loop (su_heap s ! p) \<or> su_shutdown s then s
      else (sup_upd p (\<lambda>mg. mg\<lparr>sg_loop := True\<rparr>) s)\<lparr>su_wg := su_wg s + 1, su_loops := su_loops s @ [(p, LTop)]\<rparr>)"

definition requestStop :: "string \<Rightarrow> supervised \<Rightarrow> supervised" where
  "requestStop reason mg = (if sg_stop mg = Some None then mg\<lparr>sg_stop := Some (Some reason)\<rparr> else mg)"

definition requestStopLocked :: "nat \<Rightarrow> string \<Rightarrow> supervisor \<Rightarrow> supervisor" where
  "requestStopLocked p reason s = sup_upd p (requestStop reason) s"

definition pokeLocked :: "nat \<Rightarrow> supervisor \<Rightarrow> supervisor" where
  "pokeLocked p s = sup_upd p (\<lambda>mg. mg\<lparr>sg_poke := True\<rparr>) s"

text \<open>The two loops of \<open>Update\<close>, over the declared and over the supervised managers.\<close>

definition ensure_supervised :: "string \<Rightarrow> supervisor \<Rightarrow> nat \<times> supervisor" where
  "ensure_supervised mid s = (case fmlookup (su_states s) mid of Some p \<Rightarrow> (p, s)
     | None \<Rightarrow> let p = length (su_heap s);
                   s = s\<lparr>su_heap := su_heap s @ [new_supervised mid], su_states := fmupd mid p (su_states s)\<rparr>
               in (p, if su_leased s \<and> \<not> su_shutdown s then startLoopLocked p s else s))"

definition update_declared :: "sup_ans \<Rightarrow> string \<times> smgr \<Rightarrow> supervisor \<Rightarrow> supervisor" where
  "update_declared a d s = (let (p, s) = ensure_supervised (fst d) s; running = sg_hash (su_heap s ! p);
     s = (if running \<noteq> [] \<and> sa_hash a (snd d) \<noteq> None \<and> sa_hash a (snd d) \<noteq> Some running
          then requestStopLocked p ''superseded by reload'' s else s)
     in pokeLocked p s)"

definition update_removed :: "(string, smgr) fmap \<Rightarrow> string \<times> nat \<Rightarrow> supervisor \<Rightarrow> supervisor" where
  "update_removed ms d s = (if fmlookup ms (fst d) = None
     then pokeLocked (snd d) (requestStopLocked (snd d) ''removed from tree'' s) else s)"

definition sup_Update :: "sup_ans \<Rightarrow> (string, smgr) fmap \<Rightarrow> supervisor \<Rightarrow> supervisor" where
  "sup_Update a ms s = (let s = fold (update_declared a) (sorted_list_of_fmap ms) (s\<lparr>su_desired := ms\<rparr>)
     in fold (update_removed ms) (sorted_list_of_fmap (su_states s)) s)"

text \<open>\<open>Run\<close> once the lease is held, and the critical section of \<open>Shutdown\<close>.\<close>

definition sup_leased :: "supervisor \<Rightarrow> supervisor" where
  "sup_leased s =
     (let s = s\<lparr>su_leased := True\<rparr>;
          s = (if fmdom (su_states s) \<noteq> {||} then s\<lparr>su_feed := su_feed s @ [(''manager.leased'', ''manager lease acquired; supervising managers'')]\<rparr> else s)
      in fold startLoopLocked (map snd (sorted_list_of_fmap (su_states s))) s)"

definition sup_Shutdown :: "supervisor \<Rightarrow> supervisor" where
  "sup_Shutdown s = (if su_shutdown s then s
     else fold (\<lambda>p s. pokeLocked p (requestStopLocked p ''runner shutting down'' s)) (map snd (sorted_list_of_fmap (su_states s)))
       (s\<lparr>su_shutdown := True\<rparr>))"

definition sup_Poke :: "string \<Rightarrow> supervisor \<Rightarrow> supervisor" where
  "sup_Poke mid s = (case fmlookup (su_states s) mid of None \<Rightarrow> s | Some p \<Rightarrow> pokeLocked p s)"

definition sup_RequestStop :: "string \<Rightarrow> string \<Rightarrow> supervisor \<Rightarrow> supervisor" where
  "sup_RequestStop mid reason s = (case fmlookup (su_states s) mid of None \<Rightarrow> s
     | Some p \<Rightarrow> pokeLocked p (requestStopLocked p reason s))"

definition inbox_push :: "ib_event \<Rightarrow> supervised \<Rightarrow> supervised" where
  "inbox_push ev mg = mg\<lparr>sg_inbox := snd (ib_push \<lparr>ix_ev = ev, ix_d = None\<rparr> (sg_inbox mg))\<rparr>"

text \<open>\<open>Deliver\<close>; the completion handle is the inbox's business.\<close>

definition sup_Deliver :: "sup_ans \<Rightarrow> string \<Rightarrow> header \<Rightarrow> string \<Rightarrow> supervisor \<Rightarrow> bool \<times> supervisor" where
  "sup_Deliver a mid hdr payload s = (case fmlookup (su_states s) mid of None \<Rightarrow> (False, s)
     | Some p \<Rightarrow> (True, sup_upd p (inbox_push (delivery_event (sa_event a) (sa_now a) hdr payload)) s))"

definition push_tick :: "sup_ans \<Rightarrow> supervised \<Rightarrow> supervised" where
  "push_tick a mg = (if ib_tickQueued (sg_inbox mg) then mg else inbox_push (bare_event KindTick (sa_event a) (sa_now a)) mg)"

definition instance_title :: "string \<Rightarrow> string \<Rightarrow> string \<Rightarrow> supervisor \<Rightarrow> bool \<times> supervisor" where
  "instance_title mid inst title s = (case fmlookup (su_states s) mid of None \<Rightarrow> (False, s)
     | Some p \<Rightarrow> if mg_instanceID (su_heap s ! p) = [] \<or> mg_instanceID (su_heap s ! p) \<noteq> inst then (False, s)
         else (True, sup_upd p (\<lambda>mg. mg\<lparr>mg_title := title\<rparr>) s))"

definition TouchInstance :: "string \<Rightarrow> string \<Rightarrow> supervisor \<Rightarrow> bool \<times> bool" where
  "TouchInstance mid inst s = (case fmlookup (su_states s) mid of None \<Rightarrow> (False, False)
     | Some p \<Rightarrow> (let ok = mg_instanceID (su_heap s ! p) = inst \<and> inst \<noteq> [] in (ok, ok \<and> sg_touch (su_heap s ! p))))"

text \<open>The line appender \<open>outputSink\<close> returns, on the stamped line.\<close>

definition sink_line :: "string \<Rightarrow> supervised \<Rightarrow> supervised" where
  "sink_line line mg = (let out = sg_output mg @ [line] in
     mg\<lparr>sg_output := (if length out > OutputTailLines then drop (length out - OutputTailLines) out else out)\<rparr>)"

definition instanceRunning :: "supervised \<Rightarrow> supervised" where
  "instanceRunning mg = mg\<lparr>sg_state := ''running'', sg_touch := ib_hooks (sg_inbox mg)\<rparr>"

subsection \<open>The loop\<close>

text \<open>The section that starts an instance, and the one after it has ended.\<close>

definition begin_instance :: "sup_ans \<Rightarrow> smgr \<Rightarrow> supervised \<Rightarrow> supervised" where
  "begin_instance a m mg = mg\<lparr>sg_stop := Some None, sg_state := ''starting'', mg_instanceID := sa_id a, sg_started := sa_now a,
     mg_title := RenderRunTitle (sa_sep a) (hk_RunTitle m) (hk_titleTmpl m) (sa_root a) fmempty,
     sg_hash := (case sa_hash a m of None \<Rightarrow> [] | Some h \<Rightarrow> h), sg_output := []\<rparr>"

definition end_instance :: "session_outcome \<Rightarrow> supervised \<Rightarrow> supervised" where
  "end_instance r mg =
     (let mg = mg\<lparr>sg_stop := None, sg_hash := [], mg_instanceID := [], sg_started := 0, sg_touch := False, sg_restarts := sg_restarts mg + 1\<rparr> in
      if so_RequestedStop r \<or> so_Status r = StatusCancelled
      then mg\<lparr>sg_fails := 0, sg_lastError := [], sg_lastStop := so_Err r\<rparr>
      else mg\<lparr>sg_fails := sg_fails mg + 1,
              sg_lastError := ''instance ended: '' @ so_Status r @ (if so_Err r \<noteq> [] then '': '' @ so_Err r else []), sg_lastStop := []\<rparr>)"

definition set_loop :: "nat \<Rightarrow> loop_pc \<Rightarrow> supervisor \<Rightarrow> supervisor" where
  "set_loop k pc s = s\<lparr>su_loops := (su_loops s)[k := (fst (su_loops s ! k), pc)]\<rparr>"

definition loop_top :: "sup_ans \<Rightarrow> nat \<Rightarrow> nat \<Rightarrow> supervisor \<Rightarrow> supervisor" where
  "loop_top a k p s = (let mid = sg_id (su_heap s ! p) in
     if su_shutdown s then set_loop k LExit (sup_upd p (\<lambda>mg. mg\<lparr>sg_loop := False, sg_state := ''stopping''\<rparr>) s)
     else case fmlookup (su_desired s) mid of
       None \<Rightarrow> set_loop k LExit ((sup_upd p (\<lambda>mg. mg\<lparr>sg_loop := False\<rparr>) s)\<lparr>su_states := fmdrop mid (su_states s)\<rparr>)
     | Some m \<Rightarrow> if sa_disabled a mid (EnabledByDefault m)
         then set_loop k (LSleep (sa_now a + ParkPoll)) (sup_upd p (\<lambda>mg. mg\<lparr>sg_state := ''disabled''\<rparr>) s)
         else set_loop k (LReap m (sa_id a)) (sup_upd p (begin_instance a m) s))"

definition loop_next :: "sup_ans \<Rightarrow> nat \<Rightarrow> supervisor \<Rightarrow> supervisor option" where
  "loop_next a k s = (case su_loops s ! k of (p, pc) \<Rightarrow> (case pc of
     LTop \<Rightarrow> Some (loop_top a k p s)
   | LSleep d \<Rightarrow> Some (if su_shutdown s then set_loop k LMark s else if d \<le> sa_now a then set_loop k LTop s else s)
   | LMark \<Rightarrow> Some (set_loop k LExit (sup_upd p (\<lambda>mg. mg\<lparr>sg_loop := False\<rparr>) s))
   | LReap m i \<Rightarrow> Some (set_loop k (LSeed m i) (s\<lparr>su_removed := su_removed s @ [ContainerName (sg_id (su_heap s ! p))]\<rparr>))
   | LSeed m i \<Rightarrow> Some (set_loop k (LRun m i False)
       (sup_upd p (if sm_ReconcileInterval m > 0 then push_tick a else inbox_push (bare_event KindStart (sa_event a) (sa_now a))) s))
   | LRun m i c \<Rightarrow> None
   | LEnd i r \<Rightarrow> Some (set_loop k (LAfter i r) (s\<lparr>su_ended := su_ended s @ [i]\<rparr>))
   | LAfter i r \<Rightarrow> Some (set_loop k (if so_RequestedStop r then LTop else LRestart) (sup_upd p (end_instance r) s))
   | LRestart \<Rightarrow> Some (set_loop k (LSleep (sa_now a + RestartDelay)) (sup_upd p (\<lambda>mg. mg\<lparr>sg_state := ''restart-wait''\<rparr>) s))
   | LExit \<Rightarrow> Some (set_loop k LGone (s\<lparr>su_wg := su_wg s - 1\<rparr>))
   | LGone \<Rightarrow> None))"

text \<open>What a session can do: report that its container runs, write a line, take a stop request, end.\<close>

datatype session_act = SStarted | SLine string | STickPump | SStop | SEnd session_outcome

definition session_next :: "sup_ans \<Rightarrow> session_act \<Rightarrow> nat \<Rightarrow> supervisor \<Rightarrow> supervisor option" where
  "session_next a act k s = (case su_loops s ! k of
     (p, LRun m i c) \<Rightarrow> (case act of
         SStarted \<Rightarrow> Some (sup_upd p instanceRunning s)
       | SLine line \<Rightarrow> Some (sup_upd p (sink_line line) s)
       | STickPump \<Rightarrow> if sm_ReconcileInterval m > 0 then Some (sup_upd p (push_tick a) s) else None
       | SStop \<Rightarrow> if c then None else (case sg_stop (su_heap s ! p) of
           Some (Some reason) \<Rightarrow> Some (set_loop k (LRun m i True) (sup_upd p (\<lambda>mg. mg\<lparr>sg_stop := Some None\<rparr>) s))
         | _ \<Rightarrow> None)
       | SEnd r \<Rightarrow> Some (set_loop k (LEnd i r) s))
   | _ \<Rightarrow> None)"

inductive sup_step :: "supervisor \<Rightarrow> supervisor \<Rightarrow> bool" where
  update: "sup_step s (sup_Update a ms s)"
| shutdown: "sup_step s (sup_Shutdown s)"
| poke: "sup_step s (sup_Poke mid s)"
| stop: "sup_step s (sup_RequestStop mid reason s)"
| deliver: "sup_step s (snd (sup_Deliver a mid hdr payload s))"
| title: "sup_step s (snd (instance_title mid inst title s))"
| loop: "k < length (su_loops s) \<Longrightarrow> sa_id a \<noteq> [] \<Longrightarrow> loop_next a k s = Some s' \<Longrightarrow> sup_step s s'"
| session: "k < length (su_loops s) \<Longrightarrow> session_next a act k s = Some s' \<Longrightarrow> sup_step s s'"

subsection \<open>Views\<close>

text \<open>The supervisor as the rest of the server sees it (\<open>StateApi\<close>, \<open>Trigger\<close>).\<close>

definition sup_view :: "supervisor \<Rightarrow> (string, managed) fmap" where
  "sup_view s = fmmap (\<lambda>p. managed.truncate (su_heap s ! p)) (su_states s)"

record sup_attention =
  sn_ID :: string
  sn_Failures :: int
  sn_Message :: string

definition attention_message :: "(duration \<Rightarrow> string) \<Rightarrow> string \<Rightarrow> supervised \<Rightarrow> string" where
  "attention_message dur mid mg = ''manager '' @ mid @ '' is not running ('' @ append_int (sg_fails mg) @ '' consecutive failed instance(s); last: '' @
     sg_lastError mg @ ''); restarting every '' @ dur RestartDelay @ '' until it holds''"

definition reportAttention :: "(duration \<Rightarrow> string) \<Rightarrow> (string \<Rightarrow> bool \<Rightarrow> bool) \<Rightarrow> supervisor \<Rightarrow> sup_attention list" where
  "reportAttention dur disabled s = concat (map (\<lambda>(mid, p). let mg = su_heap s ! p in
     case fmlookup (su_desired s) mid of None \<Rightarrow> []
     | Some m \<Rightarrow> if disabled mid (EnabledByDefault m) \<or> mg_instanceID mg \<noteq> [] \<or> sg_lastError mg = [] then []
         else [\<lparr>sn_ID = mid, sn_Failures = sg_fails mg, sn_Message = attention_message dur mid mg\<rparr>]) (sorted_list_of_fmap (su_states s)))"

record sup_status =
  ss_ID :: string
  ss_Description :: string
  ss_Title :: string
  ss_State :: string
  ss_Disabled :: bool
  ss_InstanceID :: string
  ss_InstanceStarted :: time
  ss_Restarts :: int
  ss_ConsecutiveFails :: int
  ss_LastError :: string
  ss_LastStopReason :: string
  ss_InboxDepth :: nat
  ss_LastDelivered :: time
  ss_LastTick :: time
  ss_ReconcileInterval :: string
  ss_Synchronous :: bool
  ss_ConcurrencyGroup :: string
  ss_EnabledByDefault :: bool

definition statusLocked :: "(string \<Rightarrow> bool \<Rightarrow> bool) \<Rightarrow> supervisor \<Rightarrow> string \<Rightarrow> supervised \<Rightarrow> sup_status" where
  "statusLocked disabled s mid mg =
     (let m = fmlookup (su_desired s) mid in
      \<lparr>ss_ID = mid, ss_Description = (case m of None \<Rightarrow> [] | Some m \<Rightarrow> sm_Description m), ss_Title = mg_title mg,
       ss_State = (if \<not> su_leased s \<and> \<not> su_shutdown s then ''waiting-lease'' else sg_state mg),
       ss_Disabled = (case m of None \<Rightarrow> False | Some m \<Rightarrow> disabled mid (EnabledByDefault m)), ss_InstanceID = mg_instanceID mg,
       ss_InstanceStarted = sg_started mg, ss_Restarts = sg_restarts mg, ss_ConsecutiveFails = sg_fails mg, ss_LastError = sg_lastError mg,
       ss_LastStopReason = sg_lastStop mg, ss_InboxDepth = ib_Depth (sg_inbox mg), ss_LastDelivered = ib_lastDelivered (sg_inbox mg),
       ss_LastTick = ib_lastTick (sg_inbox mg), ss_ReconcileInterval = (case m of None \<Rightarrow> [] | Some m \<Rightarrow> sm_ReconcileIntervalRaw m),
       ss_Synchronous = (case m of None \<Rightarrow> False | Some m \<Rightarrow> hk_Synchronous m),
       ss_ConcurrencyGroup = (case m of None \<Rightarrow> [] | Some m \<Rightarrow> hc_ConcurrencyGroup m),
       ss_EnabledByDefault = (case m of None \<Rightarrow> False | Some m \<Rightarrow> EnabledByDefault m)\<rparr>)"

definition Statuses :: "(string \<Rightarrow> bool \<Rightarrow> bool) \<Rightarrow> supervisor \<Rightarrow> sup_status list" where
  "Statuses disabled s = map (\<lambda>(mid, p). statusLocked disabled s mid (su_heap s ! p)) (sorted_list_of_fmap (su_states s))"

definition StatusFor :: "(string \<Rightarrow> bool \<Rightarrow> bool) \<Rightarrow> string \<Rightarrow> supervisor \<Rightarrow> sup_status option" where
  "StatusFor disabled mid s = map_option (\<lambda>p. statusLocked disabled s mid (su_heap s ! p)) (fmlookup (su_states s) mid)"

definition OutputTail :: "string \<Rightarrow> supervisor \<Rightarrow> string list" where
  "OutputTail mid s = (case fmlookup (su_states s) mid of None \<Rightarrow> [] | Some p \<Rightarrow> sg_output (su_heap s ! p))"

subsection \<open>Runner processes on one host\<close>

text \<open>\<open>Run\<close> and \<open>acquireLease\<close> of one process: opening the lease file, polling the lock (with the announcement
  made or not), refused, supervising, shutting down, returned.  The kernel gives the lock to at most one
  process and takes it back when its holder dies.\<close>

datatype run_pc = ROpen | RPoll bool | RRefused | RUp | RDown | REnd

record proc =
  pr_sup :: supervisor
  pr_run :: run_pc
  pr_alive :: bool

record host =
  ho_procs :: "proc list"
  ho_flock :: "nat option"

definition feed :: "string \<Rightarrow> string \<Rightarrow> proc \<Rightarrow> proc" where
  "feed kind msg pr = pr\<lparr>pr_sup := (pr_sup pr)\<lparr>su_feed := su_feed (pr_sup pr) @ [(kind, msg)]\<rparr>\<rparr>"

text \<open>The next step of \<open>Run\<close> in process \<open>i\<close>.  The lease path is set, as it is in every process the command
  line starts; with an empty path, which only tests use, \<open>acquireLease\<close> returns at once and nothing is
  arbitrated.\<close>

definition run_next :: "string option \<Rightarrow> bool \<Rightarrow> nat \<Rightarrow> host \<Rightarrow> host option" where
  "run_next err ctxDone i h = (let pr = ho_procs h ! i; put = (\<lambda>pr. h\<lparr>ho_procs := (ho_procs h)[i := pr]\<rparr>) in case pr_run pr of
     ROpen \<Rightarrow> (case err of None \<Rightarrow> Some (put (pr\<lparr>pr_run := RPoll False\<rparr>))
       | Some e \<Rightarrow> Some (put (feed ''manager.lease_error'' (''manager lease file unavailable; managers will NOT run: '' @ e) (pr\<lparr>pr_run := RRefused\<rparr>))))
   | RPoll announced \<Rightarrow> (case err of
         Some e \<Rightarrow> Some (put (feed ''manager.lease_error'' (''manager lease flock failed; managers will NOT run: '' @ e) (pr\<lparr>pr_run := RRefused\<rparr>)))
       | None \<Rightarrow> if ho_flock h = None
           then Some ((put (pr\<lparr>pr_sup := sup_leased (pr_sup pr), pr_run := RUp\<rparr>))\<lparr>ho_flock := Some i\<rparr>)
           else let pr = (if announced then pr else feed ''manager.lease_waiting'' ''manager lease held by another runner process; waiting for handover'' pr)
                in Some (put (pr\<lparr>pr_run := (if ctxDone then REnd else RPoll True)\<rparr>)))
   | RRefused \<Rightarrow> if ctxDone then Some (put (pr\<lparr>pr_run := REnd\<rparr>)) else None
   | RUp \<Rightarrow> if ctxDone then Some (put (pr\<lparr>pr_sup := sup_Shutdown (pr_sup pr), pr_run := RDown\<rparr>)) else None
   | RDown \<Rightarrow> if su_wg (pr_sup pr) = 0 then Some ((put (pr\<lparr>pr_run := REnd\<rparr>))\<lparr>ho_flock := None\<rparr>) else None
   | REnd \<Rightarrow> None)"

inductive host_step :: "host \<Rightarrow> host \<Rightarrow> bool" where
  boot: "host_step h (h\<lparr>ho_procs := ho_procs h @ [\<lparr>pr_sup = new_supervisor, pr_run = ROpen, pr_alive = True\<rparr>]\<rparr>)"
| run: "i < length (ho_procs h) \<Longrightarrow> pr_alive (ho_procs h ! i) \<Longrightarrow> run_next err ctxDone i h = Some h' \<Longrightarrow> host_step h h'"
| sup: "i < length (ho_procs h) \<Longrightarrow> pr_alive (ho_procs h ! i) \<Longrightarrow> sup_step (pr_sup (ho_procs h ! i)) s' \<Longrightarrow>
    host_step h (h\<lparr>ho_procs := (ho_procs h)[i := (ho_procs h ! i)\<lparr>pr_sup := s'\<rparr>]\<rparr>)"
| crash: "i < length (ho_procs h) \<Longrightarrow> host_step h (h\<lparr>ho_procs := (ho_procs h)[i := (ho_procs h ! i)\<lparr>pr_alive := False\<rparr>],
    ho_flock := (if ho_flock h = Some i then None else ho_flock h)\<rparr>)"

end
