(* ===== verification/SupervisorSafety.thy ===== *)
theory SupervisorSafety
  imports Supervisor
begin

text \<open>
  What the supervision of managers guarantees: at most one instance of a manager on a host, stop requests that
  reach every instance nobody wants, a shutdown that drains, and an exact liveness check for the state API.
  The invariant relates every managed record to the position of its loop; changes that only touch the
  records (\<open>calm\<close>) keep it.
\<close>

subsection \<open>The invariant\<close>

fun session_of :: "loop_pc \<Rightarrow> string option" where
  "session_of (LReap m i) = Some i"
| "session_of (LSeed m i) = Some i"
| "session_of (LRun m i c) = Some i"
| "session_of (LEnd i r) = Some i"
| "session_of (LAfter i r) = Some i"
| "session_of _ = None"

definition returned :: "loop_pc \<Rightarrow> bool" where
  "returned pc \<longleftrightarrow> pc = LExit \<or> pc = LGone"

text \<open>A session has been told to stop, or is over.\<close>

definition asked :: "supervised \<Rightarrow> loop_pc \<Rightarrow> bool" where
  "asked mg pc \<longleftrightarrow> (\<exists>reason. sg_stop mg = Some (Some reason)) \<or> (\<exists>m i. pc = LRun m i True) \<or> (\<exists>i r. pc = LEnd i r \<or> pc = LAfter i r)"

definition mg_ok :: "supervised \<Rightarrow> string option \<Rightarrow> bool" where
  "mg_ok mg i \<longleftrightarrow> mg_instanceID mg = (case i of None \<Rightarrow> [] | Some i \<Rightarrow> i) \<and> i \<noteq> Some [] \<and>
     (sg_stop mg = None \<longleftrightarrow> i = None) \<and> (i = None \<longrightarrow> sg_hash mg = [])"

definition rec_ok :: "supervised \<Rightarrow> bool" where
  "rec_ok mg \<longleftrightarrow> 0 \<le> sg_fails mg \<and> (sg_lastError mg \<noteq> [] \<longleftrightarrow> 0 < sg_fails mg) \<and> length (sg_output mg) \<le> OutputTailLines"

definition loop_ok :: "supervisor \<Rightarrow> nat \<times> loop_pc \<Rightarrow> bool" where
  "loop_ok s l = (case l of (p, pc) \<Rightarrow>
     p < length (su_heap s) \<and> mg_ok (su_heap s ! p) (session_of pc) \<and>
     (if returned pc then su_shutdown s \<or> fmlookup (su_states s) (sg_id (su_heap s ! p)) \<noteq> Some p
      else fmlookup (su_states s) (sg_id (su_heap s ! p)) = Some p \<and> sg_loop (su_heap s ! p) \<and> (pc = LMark \<longrightarrow> su_shutdown s)))"

definition sup_core :: "supervisor \<Rightarrow> bool" where
  "sup_core s \<longleftrightarrow>
     (\<forall>mid p. fmlookup (su_states s) mid = Some p \<longrightarrow> p < length (su_heap s) \<and> sg_id (su_heap s ! p) = mid) \<and>
     distinct (map fst (su_loops s)) \<and> list_all (loop_ok s) (su_loops s) \<and>
     (\<forall>p < length (su_heap s). p \<notin> fst ` set (su_loops s) \<longrightarrow> mg_ok (su_heap s ! p) None) \<and>
     list_all rec_ok (su_heap s) \<and> su_wg s = int (length (filter (\<lambda>l. snd l \<noteq> LGone) (su_loops s))) \<and>
     (su_leased s \<or> su_loops s = [])"

definition told :: "(supervisor \<Rightarrow> string \<Rightarrow> bool) \<Rightarrow> supervisor \<Rightarrow> bool" where
  "told unwanted s \<longleftrightarrow> (\<forall>(p, pc) \<in> set (su_loops s).
     session_of pc \<noteq> None \<and> unwanted s (sg_id (su_heap s ! p)) \<longrightarrow> asked (su_heap s ! p) pc)"

definition unwanted :: "supervisor \<Rightarrow> string \<Rightarrow> bool" where
  "unwanted s mid \<longleftrightarrow> su_shutdown s \<or> fmlookup (su_desired s) mid = None"

definition sup_inv :: "supervisor \<Rightarrow> bool" where
  "sup_inv s \<longleftrightarrow> sup_core s \<and> told unwanted s"

subsubsection \<open>Changes that only touch a manager's records\<close>

definition keeps :: "supervised \<Rightarrow> supervised \<Rightarrow> bool" where
  "keeps mg mg' \<longleftrightarrow> sg_id mg' = sg_id mg \<and> mg_instanceID mg' = mg_instanceID mg \<and> sg_hash mg' = sg_hash mg \<and> sg_loop mg' = sg_loop mg \<and>
     (sg_stop mg' = None \<longleftrightarrow> sg_stop mg = None) \<and> (sg_stop mg' = Some None \<longrightarrow> sg_stop mg = Some None) \<and> (rec_ok mg \<longrightarrow> rec_ok mg')"

definition calm :: "supervisor \<Rightarrow> supervisor \<Rightarrow> bool" where
  "calm s s' \<longleftrightarrow> su_desired s' = su_desired s \<and> su_states s' = su_states s \<and> su_leased s' = su_leased s \<and> su_shutdown s' = su_shutdown s \<and>
     su_wg s' = su_wg s \<and> su_loops s' = su_loops s \<and> length (su_heap s') = length (su_heap s) \<and>
     (\<forall>p < length (su_heap s). keeps (su_heap s ! p) (su_heap s' ! p))"

lemma toldI: "(\<And>p pc. (p, pc) \<in> set (su_loops s) \<Longrightarrow> session_of pc \<noteq> None \<Longrightarrow> U s (sg_id (su_heap s ! p)) \<Longrightarrow> asked (su_heap s ! p) pc) \<Longrightarrow> told U s"
  by (auto simp: told_def)

lemma toldD: "told U s \<Longrightarrow> (p, pc) \<in> set (su_loops s) \<Longrightarrow> session_of pc \<noteq> None \<Longrightarrow> U s (sg_id (su_heap s ! p)) \<Longrightarrow> asked (su_heap s ! p) pc"
  unfolding told_def by blast

lemma keeps_refl [simp]: "keeps mg mg"
  by (simp add: keeps_def)

lemma calm_refl [simp]: "calm s s"
  by (simp add: calm_def)

lemma calm_trans: "calm s s' \<Longrightarrow> calm s' s'' \<Longrightarrow> calm s s''"
  by (simp add: calm_def keeps_def)

lemma nth_upd: "j < length xs \<Longrightarrow> xs[i := x] ! j = (if i = j then x else xs ! j)"
  by (cases "i = j") simp_all

lemma calm_upd: "(\<And>mg. keeps mg (f mg)) \<Longrightarrow> calm s (sup_upd p f s)"
  by (simp add: calm_def sup_upd_def nth_upd)

lemma keeps_ops [simp]: "keeps mg (requestStop reason mg)" "keeps mg (mg\<lparr>sg_poke := b\<rparr>)" "keeps mg (inbox_push ev mg)" "keeps mg (push_tick a mg)"
  "keeps mg (mg\<lparr>mg_title := t\<rparr>)" "keeps mg (sink_line line mg)" "keeps mg (instanceRunning mg)" "keeps mg (mg\<lparr>sg_state := st\<rparr>)"
  by (auto simp: keeps_def requestStop_def inbox_push_def push_tick_def sink_line_def instanceRunning_def rec_ok_def OutputTailLines_def Let_def)

lemma calm_ops [simp]: "calm s (requestStopLocked p reason s)" "calm s (pokeLocked p s)"
  by (simp_all add: requestStopLocked_def pokeLocked_def calm_upd)

lemma mg_ok_keeps: "keeps mg mg' \<Longrightarrow> mg_ok mg i \<Longrightarrow> mg_ok mg' i"
  by (simp add: keeps_def mg_ok_def)

lemma asked_keeps: "keeps mg mg' \<Longrightarrow> asked mg pc \<Longrightarrow> asked mg' pc"
  by (auto simp: keeps_def asked_def)

lemma calm_core: assumes "calm s s'" "sup_core s" shows "sup_core s'"
proof -
  note c = assms(1) [unfolded calm_def]
  have h: "sg_id (su_heap s' ! p) = sg_id (su_heap s ! p)" "sg_loop (su_heap s' ! p) = sg_loop (su_heap s ! p)"
    "mg_ok (su_heap s ! p) i \<Longrightarrow> mg_ok (su_heap s' ! p) i" "rec_ok (su_heap s ! p) \<Longrightarrow> rec_ok (su_heap s' ! p)"
    if "p < length (su_heap s)" for p i
    using c that mg_ok_keeps by (auto simp: keeps_def)
  have l: "loop_ok s x \<Longrightarrow> loop_ok s' x" for x
    using c h by (auto simp: loop_ok_def split: if_splits)
  show ?thesis using assms(2) c h l by (auto simp: sup_core_def list_all_length intro: h(3))
qed

lemma calm_told: assumes "calm s s'" "sup_core s" "told U s" "\<And>mid. U s' mid \<Longrightarrow> U s mid" shows "told U s'"
proof -
  note c = assms(1) [unfolded calm_def]
  have "asked (su_heap s' ! p) pc" if l: "(p, pc) \<in> set (su_loops s)" "session_of pc \<noteq> None" "U s' (sg_id (su_heap s' ! p))" for p pc
  proof -
    have "p < length (su_heap s)" using assms(2) l(1) by (auto simp: sup_core_def list_all_iff loop_ok_def)
    then have k: "keeps (su_heap s ! p) (su_heap s' ! p)" using c by blast
    then have "sg_id (su_heap s' ! p) = sg_id (su_heap s ! p)" by (simp add: keeps_def)
    then have "asked (su_heap s ! p) pc" using assms(4) l by (intro toldD [OF assms(3) l(1,2)]) simp
    then show ?thesis using k asked_keeps by blast
  qed
  then show ?thesis using c by (intro toldI) simp
qed

lemma calm_inv: "calm s s' \<Longrightarrow> sup_inv s \<Longrightarrow> sup_inv s'"
  using calm_core calm_told [of s s' unwanted] by (auto simp: sup_inv_def unwanted_def calm_def)

lemma calm_fold: "(\<And>x s. calm s (f x s)) \<Longrightarrow> calm s (fold f xs s)"
  by (induction xs arbitrary: s) (auto intro: calm_trans)

subsubsection \<open>Starting loops and replacing the declared set\<close>

lemma in_loops_lt: "sup_core s \<Longrightarrow> (p, pc) \<in> set (su_loops s) \<Longrightarrow> p < length (su_heap s)"
  by (auto simp: sup_core_def list_all_iff loop_ok_def)

lemma core_state: "sup_core s \<Longrightarrow> fmlookup (su_states s) mid = Some p \<Longrightarrow> p < length (su_heap s) \<and> sg_id (su_heap s ! p) = mid"
  by (simp add: sup_core_def)

lemma no_loop_yet:
  assumes "sup_core s" "fmlookup (su_states s) mid = Some p" "\<not> sg_loop (su_heap s ! p)" "\<not> su_shutdown s"
  shows "p \<notin> fst ` set (su_loops s)"
proof
  assume "p \<in> fst ` set (su_loops s)"
  then obtain pc where "(p, pc) \<in> set (su_loops s)" by auto
  then have "loop_ok s (p, pc)" using assms(1) by (auto simp: sup_core_def list_all_iff)
  then show False using assms(3,4) core_state [OF assms(1,2)] assms(2) by (auto simp: loop_ok_def split: if_splits)
qed

lemma start_core:
  assumes "sup_core s" "fmlookup (su_states s) mid = Some p" "su_leased s"
  shows "sup_core (startLoopLocked p s)"
proof (cases "sg_loop (su_heap s ! p) \<or> su_shutdown s")
  case False
  then have n: "p \<notin> fst ` set (su_loops s)" using no_loop_yet [OF assms(1,2)] by blast
  let ?s = "startLoopLocked p s" and ?h = "(su_heap s)[p := (su_heap s ! p)\<lparr>sg_loop := True\<rparr>]"
  have e: "su_heap ?s = ?h" "su_loops ?s = su_loops s @ [(p, LTop)]" "su_states ?s = su_states s" "su_shutdown ?s = su_shutdown s"
    "su_wg ?s = su_wg s + 1" "su_leased ?s"
    using False assms(3) by (simp_all add: startLoopLocked_def sup_upd_def)
  have p: "p < length (su_heap s)" "sg_id (su_heap s ! p) = mid" using core_state [OF assms(1,2)] by auto
  have h: "sg_id (?h ! q) = sg_id (su_heap s ! q)" "mg_ok (?h ! q) i = mg_ok (su_heap s ! q) i" "rec_ok (?h ! q) = rec_ok (su_heap s ! q)"
    "sg_loop (su_heap s ! q) \<Longrightarrow> sg_loop (?h ! q)" for q i
    using p(1) by (cases "q = p"; simp add: mg_ok_def rec_ok_def)+
  have "loop_ok s x \<Longrightarrow> loop_ok ?s x" for x
    using h(4) by (auto simp: loop_ok_def e(1,3,4) h(1,2) split: if_splits)
  moreover have "loop_ok ?s (p, LTop)"
    using p assms(1,2) n by (auto simp: loop_ok_def e(1,3,4) h(1,2) returned_def sup_core_def)
  ultimately have loops: "list_all (loop_ok ?s) (su_loops ?s)" using assms(1) by (auto simp: sup_core_def e(2) list_all_iff)
  have rec: "list_all rec_ok ?h" using assms(1) h(3) by (auto simp: sup_core_def list_all_length)
  show ?thesis unfolding sup_core_def using assms(1) p n loops rec by (auto simp: sup_core_def e h)
qed (use assms in \<open>simp add: startLoopLocked_def\<close>)

lemma start_told:
  assumes "sup_core s" "fmlookup (su_states s) mid = Some p" "told U s" "\<And>mid. U (startLoopLocked p s) mid \<Longrightarrow> U s mid"
  shows "told U (startLoopLocked p s)"
proof (cases "sg_loop (su_heap s ! p) \<or> su_shutdown s")
  case False
  then have n: "p \<notin> fst ` set (su_loops s)" using no_loop_yet [OF assms(1,2)] by blast
  show ?thesis
  proof (rule toldI)
    fix q pc
    assume l: "(q, pc) \<in> set (su_loops (startLoopLocked p s))" "session_of pc \<noteq> None"
      "U (startLoopLocked p s) (sg_id (su_heap (startLoopLocked p s) ! q))"
    then have q: "(q, pc) \<in> set (su_loops s)" using False by (auto simp: startLoopLocked_def sup_upd_def)
    then have "q \<noteq> p" using n by force
    then have e: "su_heap (startLoopLocked p s) ! q = su_heap s ! q" by (simp add: startLoopLocked_def sup_upd_def)
    show "asked (su_heap (startLoopLocked p s) ! q) pc"
      unfolding e by (rule toldD [OF assms(3) q l(2)]) (use assms(4) l(3) e in simp)
  qed
qed (use assms(3) in \<open>simp add: startLoopLocked_def\<close>)

lemma start_sels [simp]: "su_states (startLoopLocked p s) = su_states s" "su_desired (startLoopLocked p s) = su_desired s"
  "su_shutdown (startLoopLocked p s) = su_shutdown s" "su_leased (startLoopLocked p s) = su_leased s"
  "length (su_heap (startLoopLocked p s)) = length (su_heap s)"
  by (simp_all add: startLoopLocked_def sup_upd_def)

definition downed :: "supervisor \<Rightarrow> string \<Rightarrow> bool" where
  "downed s mid \<longleftrightarrow> su_shutdown s"

lemma add_core:
  assumes "sup_core s" "fmlookup (su_states s) mid = None"
  defines "s' \<equiv> s\<lparr>su_heap := su_heap s @ [new_supervised mid], su_states := fmupd mid (length (su_heap s)) (su_states s)\<rparr>"
  shows "sup_core s'" "told downed s \<Longrightarrow> told downed s'"
proof -
  have new: "mg_ok (new_supervised mid) None" "rec_ok (new_supervised mid)" "sg_id (new_supervised mid) = mid"
    by (simp_all add: mg_ok_def rec_ok_def new_supervised_def)
  have "loop_ok s x \<Longrightarrow> loop_ok s' x" for x
    using assms(2) by (auto simp: loop_ok_def s'_def nth_append split: if_splits)
  then show "sup_core s'" using assms(1) new
    by (auto simp: sup_core_def s'_def nth_append list_all_iff less_Suc_eq split: if_splits)
  show "told downed s \<Longrightarrow> told downed s'"
    by (intro toldI; drule toldD) (use in_loops_lt [OF assms(1)] in \<open>auto simp: downed_def s'_def nth_append\<close>)
qed

lemma ensure_core:
  assumes "ensure_supervised mid s = (p, s')" "sup_core s" "told downed s"
  shows "sup_core s' \<and> told downed s' \<and> su_desired s' = su_desired s \<and> su_shutdown s' = su_shutdown s"
proof (cases "fmlookup (su_states s) mid")
  case None
  note a = add_core [OF assms(2) None]
  let ?s = "s\<lparr>su_heap := su_heap s @ [new_supervised mid], su_states := fmupd mid (length (su_heap s)) (su_states s)\<rparr>"
  have "fmlookup (su_states ?s) mid = Some (length (su_heap s))" by simp
  note st = start_core [OF a(1) this] start_told [OF a(1) this a(2) [OF assms(3)]]
  show ?thesis using assms(1) None a(1) a(2) [OF assms(3)] st
    by (auto simp: ensure_supervised_def downed_def Let_def split: if_splits)
qed (use assms in \<open>simp add: ensure_supervised_def\<close>)

lemma declared_core:
  assumes "sup_core s" "told downed s"
  shows "sup_core (update_declared a d s) \<and> told downed (update_declared a d s) \<and> su_desired (update_declared a d s) = su_desired s \<and>
    su_shutdown (update_declared a d s) = su_shutdown s"
proof -
  obtain p s1 where e: "ensure_supervised (fst d) s = (p, s1)" by (cases "ensure_supervised (fst d) s")
  have c: "calm s1 (update_declared a d s)"
    by (auto simp: update_declared_def e Let_def intro: calm_trans [OF calm_ops(1) calm_ops(2)])
  note i = ensure_core [OF e assms]
  have "su_desired (update_declared a d s) = su_desired s1" "su_shutdown (update_declared a d s) = su_shutdown s1"
    using c by (simp_all add: calm_def)
  then show ?thesis using i c calm_core [OF c] calm_told [OF c, of downed] by (auto simp: downed_def)
qed

lemma declared_fold:
  "sup_core s \<Longrightarrow> told downed s \<Longrightarrow> sup_core (fold (update_declared a) ds s) \<and> told downed (fold (update_declared a) ds s) \<and>
    su_desired (fold (update_declared a) ds s) = su_desired s \<and> su_shutdown (fold (update_declared a) ds s) = su_shutdown s"
proof (induction ds arbitrary: s)
  case (Cons d ds)
  from declared_core [OF Cons.prems, of a d] Cons.IH [of "update_declared a d s"] show ?case by simp
qed simp

lemma stop_fold:
  assumes "\<And>x s. calm s (f x s)" "\<And>s. p < length (su_heap s) \<Longrightarrow> sg_stop (su_heap (f x s) ! p) \<noteq> Some None"
    "x \<in> set xs" "p < length (su_heap s)"
  shows "sg_stop (su_heap (fold f xs s) ! p) \<noteq> Some None"
  using assms(3,4)
proof (induction xs arbitrary: s)
  case (Cons y ys)
  have l: "length (su_heap (f y s)) = length (su_heap s)" using assms(1) [of s y] by (simp add: calm_def)
  show ?case
  proof (cases "y = x")
    case True
    have "calm (f x s) (fold f ys (f x s))" by (rule calm_fold) (rule assms(1))
    then show ?thesis using True Cons.prems(2) assms(2) [of s] l by (auto simp: calm_def keeps_def)
  qed (use Cons l in simp)
qed simp

lemma stopped_at: "p < length (su_heap s) \<Longrightarrow> sg_stop (su_heap (pokeLocked p (requestStopLocked p reason s)) ! p) \<noteq> Some None"
  by (simp add: pokeLocked_def requestStopLocked_def sup_upd_def requestStop_def)

lemma asked_if_stopped:
  "mg_ok mg (session_of pc) \<Longrightarrow> session_of pc \<noteq> None \<Longrightarrow> sg_stop mg \<noteq> Some None \<Longrightarrow> asked mg pc"
  by (auto simp: mg_ok_def asked_def)

lemma stop_everyone:
  assumes "sup_core s" "\<And>x s. calm s (f x s)"
    "\<And>mid p. fmlookup (su_states s) mid = Some p \<Longrightarrow> U (fold f xs s) mid \<Longrightarrow> told U' s \<and> U' s mid \<or>
       (\<exists>x \<in> set xs. \<forall>s. p < length (su_heap s) \<longrightarrow> sg_stop (su_heap (f x s) ! p) \<noteq> Some None)"
  shows "told U (fold f xs s)"
proof -
  let ?s = "fold f xs s"
  have c: "calm s ?s" by (rule calm_fold) (rule assms(2))
  note core = calm_core [OF c assms(1)]
  have "asked (su_heap ?s ! p) pc" if l: "(p, pc) \<in> set (su_loops ?s)" "session_of pc \<noteq> None" "U ?s (sg_id (su_heap ?s ! p))" for p pc
  proof -
    have p: "p < length (su_heap s)" "loop_ok ?s (p, pc)" "(p, pc) \<in> set (su_loops s)"
      using core l(1) c in_loops_lt [OF core l(1)] by (auto simp: sup_core_def list_all_iff calm_def)
    then have st: "fmlookup (su_states s) (sg_id (su_heap ?s ! p)) = Some p" "mg_ok (su_heap ?s ! p) (session_of pc)"
      using l(2) c by (auto simp: loop_ok_def calm_def split: if_splits) (auto simp: returned_def)
    have k: "keeps (su_heap s ! p) (su_heap ?s ! p)" using c p(1) by (simp add: calm_def)
    from assms(3) [OF st(1) l(3)] show ?thesis
    proof
      assume "told U' s \<and> U' s (sg_id (su_heap ?s ! p))"
      then have "asked (su_heap s ! p) pc" using k by (intro toldD [OF _ p(3) l(2), of U']) (auto simp: keeps_def)
      then show ?thesis using k asked_keeps by blast
    next
      assume "\<exists>x \<in> set xs. \<forall>s. p < length (su_heap s) \<longrightarrow> sg_stop (su_heap (f x s) ! p) \<noteq> Some None"
      then obtain x where x: "x \<in> set xs" "\<And>s. p < length (su_heap s) \<Longrightarrow> sg_stop (su_heap (f x s) ! p) \<noteq> Some None" by auto
      from stop_fold [of f p x, OF assms(2) x(2) x(1) p(1)] st(2) l(2) show ?thesis by (auto intro: asked_if_stopped)
    qed
  qed
  then show ?thesis by (rule toldI)
qed

lemma Update_inv: assumes "sup_inv s" shows "sup_inv (sup_Update a ms s)"
proof -
  let ?s0 = "s\<lparr>su_desired := ms\<rparr>"
  let ?s1 = "fold (update_declared a) (sorted_list_of_fmap ms) ?s0"
  have "sup_core ?s0" "told downed ?s0"
    using assms by (auto simp: sup_inv_def sup_core_def list_all_iff loop_ok_def told_def downed_def unwanted_def split: prod.splits)
  from declared_fold [OF this, of a "sorted_list_of_fmap ms"] have i: "sup_core ?s1" "told downed ?s1" "su_desired ?s1 = ms" by auto
  have c: "calm s (update_removed ms d s)" for d s
    by (auto simp: update_removed_def intro: calm_trans [OF calm_ops(1) calm_ops(2)])
  let ?s2 = "fold (update_removed ms) (sorted_list_of_fmap (su_states ?s1)) ?s1"
  have cc: "calm ?s1 ?s2" by (rule calm_fold) (rule c)
  have "told unwanted ?s2"
  proof (rule stop_everyone [where U' = downed, OF i(1) c])
    fix mid p assume st: "fmlookup (su_states ?s1) mid = Some p" "unwanted ?s2 mid"
    then have "downed ?s1 mid \<or> fmlookup ms mid = None" using cc i(3) by (simp add: unwanted_def downed_def calm_def)
    then show "told downed ?s1 \<and> downed ?s1 mid \<or> (\<exists>x \<in> set (sorted_list_of_fmap (su_states ?s1)).
        \<forall>s. p < length (su_heap s) \<longrightarrow> sg_stop (su_heap (update_removed ms x s) ! p) \<noteq> Some None)"
    proof (rule disj_forward)
      assume "fmlookup ms mid = None"
      then show "\<exists>x \<in> set (sorted_list_of_fmap (su_states ?s1)).
          \<forall>s. p < length (su_heap s) \<longrightarrow> sg_stop (su_heap (update_removed ms x s) ! p) \<noteq> Some None"
        using st(1) stopped_at by (intro bexI [of _ "(mid, p)"]) (simp_all add: update_removed_def)
    qed (use i(2) in simp)
  qed
  then show ?thesis using calm_core [OF cc i(1)] by (simp add: sup_Update_def sup_inv_def Let_def)
qed

lemma Shutdown_inv: assumes "sup_inv s" shows "sup_inv (sup_Shutdown s)"
proof (cases "su_shutdown s")
  case False
  let ?f = "\<lambda>p s. pokeLocked p (requestStopLocked p ''runner shutting down'' s)"
  let ?s0 = "s\<lparr>su_shutdown := True\<rparr>" and ?ps = "map snd (sorted_list_of_fmap (su_states s))"
  have i: "sup_core ?s0"
    using assms by (auto simp: sup_inv_def sup_core_def list_all_iff loop_ok_def split: prod.splits if_splits)
  have c: "calm s (?f p s)" for p s by (rule calm_trans [OF calm_ops(1) calm_ops(2)])
  have cc: "calm ?s0 (fold ?f ?ps ?s0)" by (rule calm_fold) (rule c)
  have "told unwanted (fold ?f ?ps ?s0)"
  proof (rule stop_everyone [where U' = downed, OF i c])
    fix mid p assume "fmlookup (su_states ?s0) mid = Some p"
    then have "p \<in> set ?ps" by (force simp flip: set_sorted_list_of_fmap)
    then show "told downed ?s0 \<and> downed ?s0 mid \<or> (\<exists>x \<in> set ?ps. \<forall>s. p < length (su_heap s) \<longrightarrow> sg_stop (su_heap (?f x s) ! p) \<noteq> Some None)"
      using stopped_at by blast
  qed
  then show ?thesis using calm_core [OF cc i] False by (simp add: sup_Shutdown_def sup_inv_def)
qed (use assms in \<open>simp add: sup_Shutdown_def\<close>)

lemma leased_inv: assumes "sup_inv s" shows "sup_inv (sup_leased s)"
proof -
  have fold: "sup_inv (fold startLoopLocked ps s)" if "sup_inv s" "su_leased s" "\<forall>p \<in> set ps. \<exists>mid. fmlookup (su_states s) mid = Some p" for ps s
    using that
  proof (induction ps arbitrary: s)
    case (Cons p ps)
    then obtain mid where m: "fmlookup (su_states s) mid = Some p" by auto
    have "sup_inv (startLoopLocked p s)"
      using start_core [OF _ m Cons.prems(2)] start_told [OF _ m, of unwanted] Cons.prems(1) by (auto simp: sup_inv_def unwanted_def)
    then show ?case using Cons.IH [of "startLoopLocked p s"] Cons.prems by simp
  qed simp
  let ?s = "s\<lparr>su_leased := True\<rparr>"
  have "sup_inv ?s" "sup_inv (?s\<lparr>su_feed := x\<rparr>)" for x
    using assms by (auto simp: sup_inv_def sup_core_def list_all_iff loop_ok_def told_def unwanted_def split: prod.splits if_splits)
  then show ?thesis unfolding sup_leased_def Let_def
    by (intro fold) (auto simp flip: set_sorted_list_of_fmap)
qed

subsubsection \<open>Steps of a loop\<close>

lemma count_update:
  "k < length xs \<Longrightarrow> P (xs ! k) \<Longrightarrow> int (length (filter P (xs[k := y]))) = int (length (filter P xs)) - (if P y then 0 else 1)"
proof (induction xs arbitrary: k)
  case (Cons x xs)
  then show ?case by (cases k) (auto split: if_splits)
qed simp

lemma other_pointer:
  assumes "distinct (map fst xs)" "k < length xs" "xs ! k = (p, pc)" "j < length xs" "j \<noteq> k"
  shows "fst (xs ! j) \<noteq> p"
  using assms nth_eq_iff_index_eq [of "map fst xs" j k] by auto

lemma loop_step_inv:
  assumes i: "sup_inv s" and k: "k < length (su_loops s)" "su_loops s ! k = (p, pc)" "pc \<noteq> LGone"
    and s': "su_heap s' = (su_heap s)[p := mg]" "su_loops s' = (su_loops s)[k := (p, pc')]" "su_shutdown s' = su_shutdown s"
      "su_leased s' = su_leased s" "su_wg s' = su_wg s - (if pc' = LGone then 1 else 0)" "su_desired s' = su_desired s"
      "su_states s' = su_states s \<or> su_states s' = fmdrop (sg_id (su_heap s ! p)) (su_states s) \<and> fmlookup (su_states s) (sg_id (su_heap s ! p)) = Some p"
    and mg: "sg_id mg = sg_id (su_heap s ! p)" "mg_ok mg (session_of pc')" "rec_ok mg"
      "if returned pc' then su_shutdown s \<or> fmlookup (su_states s') (sg_id mg) \<noteq> Some p
       else fmlookup (su_states s') (sg_id mg) = Some p \<and> sg_loop mg \<and> (pc' = LMark \<longrightarrow> su_shutdown s)"
      "session_of pc' \<noteq> None \<Longrightarrow> unwanted s (sg_id mg) \<Longrightarrow> asked mg pc'"
  shows "sup_inv s'"
proof -
  have core: "sup_core s" using i by (simp add: sup_inv_def)
  have p: "p < length (su_heap s)" using in_loops_lt [OF core] k(1,2) nth_mem by metis
  have d: "distinct (map fst (su_loops s))" using core by (simp add: sup_core_def)
  have other: "fst (su_loops s ! j) \<noteq> p" if "j < length (su_loops s)" "j \<noteq> k" for j
    using other_pointer [OF d k(1,2) that] .
  have l: "loop_ok s' (su_loops s' ! j)" if j: "j < length (su_loops s)" for j
  proof (cases "j = k")
    case True
    then show ?thesis using mg p j by (auto simp: loop_ok_def s'(1-3) split: if_splits)
  next
    case False
    obtain q qc where q: "su_loops s ! j = (q, qc)" "q \<noteq> p" using other [OF j False] by (cases "su_loops s ! j") auto
    have "loop_ok s (q, qc)" using core j q(1) by (auto simp: sup_core_def list_all_length)
    then show ?thesis using q False s'(7) by (auto simp: loop_ok_def s'(1-3) split: if_splits)
  qed
  have ptrs: "map fst (su_loops s') = map fst (su_loops s)" using k by (simp add: s'(2) map_update list_update_same_conv)
  then have ptrs': "fst ` set (su_loops s') = fst ` set (su_loops s)" by (metis list.set_map)
  have mem: "p \<in> fst ` set (su_loops s)" using k(1,2) nth_mem by force
  have rec: "list_all rec_ok (su_heap s')" using core mg(3) p by (auto simp: s'(1) sup_core_def list_all_length nth_list_update)
  have w: "su_wg s' = int (length (filter (\<lambda>l. snd l \<noteq> LGone) (su_loops s')))"
    using core k by (simp add: s'(2,5) sup_core_def count_update)
  have st: "q < length (su_heap s') \<and> sg_id (su_heap s' ! q) = mid" if "fmlookup (su_states s') mid = Some q" for mid q
  proof -
    have "fmlookup (su_states s) mid = Some q" using that s'(7) by (auto split: if_splits)
    then show ?thesis using core_state [OF core] mg(1) p by (auto simp: s'(1) nth_list_update)
  qed
  have un: "mg_ok (su_heap s' ! q) None" if "q < length (su_heap s')" "q \<notin> fst ` set (su_loops s')" for q
  proof -
    have "q \<noteq> p" using that mem ptrs' by auto
    then show ?thesis using core that ptrs' by (simp add: sup_core_def s'(1))
  qed
  have "su_leased s' \<or> su_loops s' = []" using core s'(2,4) by (auto simp: sup_core_def)
  then have c: "sup_core s'" unfolding sup_core_def
    using st l d ptrs rec w un s'(2) by (auto simp: list_all_length)
  have "asked (su_heap s' ! fst (su_loops s' ! j)) (snd (su_loops s' ! j))"
    if j: "j < length (su_loops s)" "session_of (snd (su_loops s' ! j)) \<noteq> None" "unwanted s' (sg_id (su_heap s' ! fst (su_loops s' ! j)))" for j
  proof (cases "j = k")
    case True
    then show ?thesis using mg(5) j p by (simp add: s'(1-3,6) unwanted_def)
  next
    case False
    have "(fst (su_loops s ! j), snd (su_loops s ! j)) \<in> set (su_loops s)" using j(1) by simp
    from toldD [OF _ this, of unwanted] show ?thesis
      using i other [OF j(1) False] False j by (auto simp: sup_inv_def s'(1-3,6) unwanted_def)
  qed
  then have "told unwanted s'" using s'(2) by (intro toldI) (force simp: in_set_conv_nth)
  with c show ?thesis by (simp add: sup_inv_def)
qed

lemma loop_facts:
  assumes "sup_inv s" "k < length (su_loops s)" "su_loops s ! k = (p, pc)"
  shows "p < length (su_heap s)" "mg_ok (su_heap s ! p) (session_of pc)" "rec_ok (su_heap s ! p)"
    "\<not> returned pc \<Longrightarrow> fmlookup (su_states s) (sg_id (su_heap s ! p)) = Some p \<and> sg_loop (su_heap s ! p) \<and> (pc = LMark \<longrightarrow> su_shutdown s)"
    "returned pc \<Longrightarrow> su_shutdown s \<or> fmlookup (su_states s) (sg_id (su_heap s ! p)) \<noteq> Some p"
    "session_of pc \<noteq> None \<Longrightarrow> unwanted s (sg_id (su_heap s ! p)) \<Longrightarrow> asked (su_heap s ! p) pc"
proof -
  have m: "(p, pc) \<in> set (su_loops s)" using assms(2,3) nth_mem by metis
  have "loop_ok s (p, pc)" using assms(1) m by (auto simp: sup_inv_def sup_core_def list_all_iff)
  then show "p < length (su_heap s)" "mg_ok (su_heap s ! p) (session_of pc)"
    "\<not> returned pc \<Longrightarrow> fmlookup (su_states s) (sg_id (su_heap s ! p)) = Some p \<and> sg_loop (su_heap s ! p) \<and> (pc = LMark \<longrightarrow> su_shutdown s)"
    "returned pc \<Longrightarrow> su_shutdown s \<or> fmlookup (su_states s) (sg_id (su_heap s ! p)) \<noteq> Some p"
    by (auto simp: loop_ok_def split: if_splits)
  then show "rec_ok (su_heap s ! p)" using assms(1) by (simp add: sup_inv_def sup_core_def list_all_length)
  show "session_of pc \<noteq> None \<Longrightarrow> unwanted s (sg_id (su_heap s ! p)) \<Longrightarrow> asked (su_heap s ! p) pc"
    using assms(1) m by (auto simp: sup_inv_def told_def)
qed

lemma set_loop_sels [simp]: "su_heap (set_loop k pc s) = su_heap s" "su_states (set_loop k pc s) = su_states s"
  "su_desired (set_loop k pc s) = su_desired s" "su_shutdown (set_loop k pc s) = su_shutdown s" "su_leased (set_loop k pc s) = su_leased s"
  "su_wg (set_loop k pc s) = su_wg s" "su_loops s ! k = (p, q) \<Longrightarrow> su_loops (set_loop k pc s) = (su_loops s)[k := (p, pc)]"
  by (simp_all add: set_loop_def)

lemma sup_upd_sels [simp]: "su_heap (sup_upd p f s) = (su_heap s)[p := f (su_heap s ! p)]" "su_states (sup_upd p f s) = su_states s"
  "su_desired (sup_upd p f s) = su_desired s" "su_shutdown (sup_upd p f s) = su_shutdown s" "su_leased (sup_upd p f s) = su_leased s"
  "su_wg (sup_upd p f s) = su_wg s" "su_loops (sup_upd p f s) = su_loops s"
  by (simp_all add: sup_upd_def)

lemma begin_ok: "sa_id a \<noteq> [] \<Longrightarrow> rec_ok mg \<Longrightarrow> mg_ok (begin_instance a m mg) (Some (sa_id a)) \<and> rec_ok (begin_instance a m mg)"
  "sg_id (begin_instance a m mg) = sg_id mg" "sg_loop (begin_instance a m mg) = sg_loop mg"
  by (simp_all add: mg_ok_def rec_ok_def begin_instance_def)

lemma end_ok: "rec_ok mg \<Longrightarrow> rec_ok (end_instance r mg)" "mg_ok (end_instance r mg) None"
  "sg_id (end_instance r mg) = sg_id mg" "sg_loop (end_instance r mg) = sg_loop mg"
  by (auto simp: rec_ok_def mg_ok_def end_instance_def Let_def)

lemma loop_top_inv:
  assumes "sup_inv s" "k < length (su_loops s)" "su_loops s ! k = (p, LTop)" "sa_id a \<noteq> []"
  shows "sup_inv (loop_top a k p s)"
proof -
  note f = loop_facts [OF assms(1-3)]
  have ok: "mg_ok (su_heap s ! p) None" "rec_ok (su_heap s ! p)" "fmlookup (su_states s) (sg_id (su_heap s ! p)) = Some p" "sg_loop (su_heap s ! p)"
    using f by (auto simp: returned_def)
  consider (down) "su_shutdown s" | (gone) "\<not> su_shutdown s" "fmlookup (su_desired s) (sg_id (su_heap s ! p)) = None"
    | (off) m where "\<not> su_shutdown s" "fmlookup (su_desired s) (sg_id (su_heap s ! p)) = Some m" "sa_disabled a (sg_id (su_heap s ! p)) (EnabledByDefault m)"
    | (on) m where "\<not> su_shutdown s" "fmlookup (su_desired s) (sg_id (su_heap s ! p)) = Some m" "\<not> sa_disabled a (sg_id (su_heap s ! p)) (EnabledByDefault m)"
    by blast
  then show ?thesis
  proof cases
    case down
    show ?thesis
      by (rule loop_step_inv [OF assms(1-3), where mg = "(su_heap s ! p)\<lparr>sg_loop := False, sg_state := ''stopping''\<rparr>" and pc' = LExit])
        (use ok assms(2,3) down in \<open>simp_all add: loop_top_def Let_def returned_def mg_ok_def rec_ok_def\<close>)
  next
    case gone
    show ?thesis
      by (rule loop_step_inv [OF assms(1-3), where mg = "(su_heap s ! p)\<lparr>sg_loop := False\<rparr>" and pc' = LExit])
        (use ok assms(2,3) gone in \<open>simp_all add: loop_top_def Let_def returned_def mg_ok_def rec_ok_def\<close>)
  next
    case off
    show ?thesis
      by (rule loop_step_inv [OF assms(1-3), where mg = "(su_heap s ! p)\<lparr>sg_state := ''disabled''\<rparr>" and pc' = "LSleep (sa_now a + ParkPoll)"])
        (use ok assms(2,3) off in \<open>simp_all add: loop_top_def Let_def returned_def mg_ok_def rec_ok_def\<close>)
  next
    case on
    show ?thesis
      by (rule loop_step_inv [OF assms(1-3), where mg = "begin_instance a m (su_heap s ! p)" and pc' = "LReap m (sa_id a)"])
        (use ok assms(2-4) on begin_ok in \<open>simp_all add: loop_top_def Let_def returned_def unwanted_def\<close>)
  qed
qed

lemma loop_next_inv:
  assumes "sup_inv s" "k < length (su_loops s)" "loop_next a k s = Some s'" "sa_id a \<noteq> []"
  shows "sup_inv s'"
proof -
  obtain p pc where l: "su_loops s ! k = (p, pc)" by (cases "su_loops s ! k")
  note f = loop_facts [OF assms(1,2) l]
  note st = loop_step_inv [OF assms(1,2) l]
  show ?thesis
  proof (cases pc)
    case LTop
    then show ?thesis using assms l loop_top_inv [OF assms(1,2)] by (auto simp: loop_next_def)
  next
    case (LSleep d)
    have "sup_inv (set_loop k LTop s)"
      by (rule st [where mg = "su_heap s ! p" and pc' = LTop]) (use f l LSleep in \<open>simp_all add: returned_def\<close>)
    moreover have "sup_inv (set_loop k LMark s)" if "su_shutdown s"
      by (rule st [where mg = "su_heap s ! p" and pc' = LMark]) (use that f l LSleep in \<open>simp_all add: returned_def\<close>)
    ultimately have "sup_inv (set_loop k LTop s)" "su_shutdown s \<Longrightarrow> sup_inv (set_loop k LMark s)" by blast+
    then show ?thesis using assms(1,3) l LSleep by (auto simp: loop_next_def split: if_splits)
  next
    case LMark
    have "sup_inv (set_loop k LExit (sup_upd p (\<lambda>mg. mg\<lparr>sg_loop := False\<rparr>) s))"
      by (rule st [where mg = "(su_heap s ! p)\<lparr>sg_loop := False\<rparr>" and pc' = LExit])
        (use f l LMark in \<open>simp_all add: returned_def mg_ok_def rec_ok_def\<close>)
    then show ?thesis using assms(3) l LMark by (simp add: loop_next_def)
  next
    case (LReap m i)
    have "sup_inv (set_loop k (LSeed m i) (s\<lparr>su_removed := x\<rparr>))" for x
      by (rule st [where mg = "su_heap s ! p" and pc' = "LSeed m i"]) (use f l LReap in \<open>simp_all add: returned_def asked_def\<close>)
    then show ?thesis using assms(3) l LReap by (auto simp: loop_next_def)
  next
    case (LSeed m i)
    have "sup_inv (set_loop k (LRun m i False) (sup_upd p g s))" if g: "\<And>mg. keeps mg (g mg)" for g
      by (rule st [where mg = "g (su_heap s ! p)" and pc' = "LRun m i False"])
        (use f l LSeed g [of "su_heap s ! p"] mg_ok_keeps [OF g] asked_keeps [OF g, of "su_heap s ! p" "LSeed m i"] in
          \<open>auto simp: returned_def asked_def keeps_def\<close>)
    then show ?thesis using assms(3) l LSeed by (auto simp: loop_next_def)
  next
    case (LEnd i r)
    have "sup_inv (set_loop k (LAfter i r) (s\<lparr>su_ended := x\<rparr>))" for x
      by (rule st [where mg = "su_heap s ! p" and pc' = "LAfter i r"]) (use f l LEnd in \<open>simp_all add: returned_def asked_def\<close>)
    then show ?thesis using assms(3) l LEnd by (auto simp: loop_next_def)
  next
    case (LAfter i r)
    have "sup_inv (set_loop k pc' (sup_upd p (end_instance r) s))" if "pc' = LTop \<or> pc' = LRestart" for pc'
      by (rule st [where mg = "end_instance r (su_heap s ! p)" and pc' = pc']) (use that f l LAfter in \<open>auto simp: returned_def end_ok\<close>)
    then show ?thesis using assms(3) l LAfter by (auto simp: loop_next_def)
  next
    case LRestart
    have "sup_inv (set_loop k (LSleep d) (sup_upd p (\<lambda>mg. mg\<lparr>sg_state := x\<rparr>) s))" for d x
      by (rule st [where mg = "(su_heap s ! p)\<lparr>sg_state := x\<rparr>" and pc' = "LSleep d"])
        (use f l LRestart in \<open>simp_all add: returned_def mg_ok_def rec_ok_def\<close>)
    then show ?thesis using assms(3) l LRestart by (auto simp: loop_next_def)
  next
    case LExit
    have "sup_inv (set_loop k LGone (s\<lparr>su_wg := su_wg s - 1\<rparr>))"
      by (rule st [where mg = "su_heap s ! p" and pc' = LGone]) (use f l LExit in \<open>simp_all add: returned_def\<close>)
    then show ?thesis using assms(3) l LExit by (simp add: loop_next_def)
  qed (use assms(3) l in \<open>simp_all add: loop_next_def\<close>)
qed

lemma session_next_inv:
  assumes "sup_inv s" "k < length (su_loops s)" "session_next a act k s = Some s'"
  shows "sup_inv s'"
proof -
  obtain p m i c where l: "su_loops s ! k = (p, LRun m i c)"
    using assms(3) by (auto simp: session_next_def split: prod.splits loop_pc.splits)
  note f = loop_facts [OF assms(1,2) l]
  note st = loop_step_inv [OF assms(1,2) l]
  have calm: "sup_inv (sup_upd p g s)" if "\<And>mg. keeps mg (g mg)" for g
    by (rule calm_inv [OF calm_upd assms(1)]) (rule that)
  have "sup_inv (set_loop k (LRun m i True) (sup_upd p (\<lambda>mg. mg\<lparr>sg_stop := Some None\<rparr>) s))"
    by (rule st [where mg = "(su_heap s ! p)\<lparr>sg_stop := Some None\<rparr>" and pc' = "LRun m i True"])
      (use f l in \<open>auto simp: returned_def mg_ok_def rec_ok_def asked_def\<close>)
  moreover have "sup_inv (set_loop k (LEnd i r) s)" for r
    by (rule st [where mg = "su_heap s ! p" and pc' = "LEnd i r"]) (use f l in \<open>auto simp: returned_def asked_def\<close>)
  ultimately show ?thesis using assms(3) l calm
    by (auto simp: session_next_def split: session_act.splits if_splits option.splits)
qed

lemma new_inv: "sup_inv new_supervisor"
  by (simp add: sup_inv_def sup_core_def told_def new_supervisor_def)

lemma step_inv: "sup_step s s' \<Longrightarrow> sup_inv s \<Longrightarrow> sup_inv s'"
proof (induction rule: sup_step.induct)
  case (poke s mid)
  then show ?case by (auto simp: sup_Poke_def intro: calm_inv [OF calm_ops(2)] split: option.split)
next
  case (stop s mid reason)
  then show ?case
    by (auto simp: sup_RequestStop_def intro: calm_inv [OF calm_trans [OF calm_ops(1) calm_ops(2)]] split: option.split)
next
  case (deliver s a mid hdr payload)
  then show ?case by (auto simp: sup_Deliver_def intro!: calm_inv [OF calm_upd] split: option.split)
next
  case (title s mid inst title)
  then show ?case by (auto simp: instance_title_def intro!: calm_inv [OF calm_upd] split: option.split)
qed (auto intro: Update_inv Shutdown_inv loop_next_inv session_next_inv)

inductive sup_move :: "supervisor \<Rightarrow> supervisor \<Rightarrow> bool" where
  op: "sup_step s s' \<Longrightarrow> sup_move s s'"
| lease: "sup_move s (sup_leased s)"

interpretation svi: invariant_system "\<lambda>s. s = new_supervisor" sup_move sup_inv
proof
  show "sup_move s s' \<Longrightarrow> sup_inv s \<Longrightarrow> sup_inv s'" for s s'
    by (induction rule: sup_move.induct) (auto intro: step_inv leased_inv)
qed (simp add: new_inv)

definition in_session :: "supervisor \<Rightarrow> nat \<Rightarrow> string \<Rightarrow> string \<Rightarrow> bool" where
  "in_session s k mid inst \<longleftrightarrow> k < length (su_loops s) \<and> session_of (snd (su_loops s ! k)) = Some inst \<and> sg_id (su_heap s ! fst (su_loops s ! k)) = mid"

lemma in_session_pointer:
  assumes "sup_inv s" "in_session s k mid inst"
  shows "fmlookup (su_states s) mid = Some (fst (su_loops s ! k))" "mg_instanceID (su_heap s ! fst (su_loops s ! k)) = inst" "inst \<noteq> []"
proof -
  obtain p pc where l: "su_loops s ! k = (p, pc)" "session_of pc = Some inst" "k < length (su_loops s)" "sg_id (su_heap s ! p) = mid"
    using assms(2) by (cases "su_loops s ! k") (auto simp: in_session_def)
  note f = loop_facts [OF assms(1) l(3,1)]
  have "\<not> returned pc" using l(2) by (auto simp: returned_def)
  then show "fmlookup (su_states s) mid = Some (fst (su_loops s ! k))" "mg_instanceID (su_heap s ! fst (su_loops s ! k)) = inst" "inst \<noteq> []"
    using f(2,4) l by (auto simp: mg_ok_def)
qed

lemma in_session_unique:
  assumes "sup_inv s" "in_session s k mid inst" "in_session s l mid inst'"
  shows "k = l \<and> inst = inst'"
proof -
  have e: "fst (su_loops s ! k) = fst (su_loops s ! l)" "inst = inst'"
    using in_session_pointer [OF assms(1,2)] in_session_pointer [OF assms(1,3)] by auto
  have "distinct (map fst (su_loops s))" using assms(1) by (simp add: sup_inv_def sup_core_def)
  then show ?thesis using e assms(2,3) nth_eq_iff_index_eq [of "map fst (su_loops s)" k l] by (auto simp: in_session_def)
qed

lemma current_iff_session:
  assumes "sup_inv s"
  shows "IsCurrentInstance mid inst (sup_view s) \<longleftrightarrow> (\<exists>k. in_session s k mid inst)"
proof
  assume "IsCurrentInstance mid inst (sup_view s)"
  then obtain p where p: "fmlookup (su_states s) mid = Some p" "mg_instanceID (su_heap s ! p) = inst" "inst \<noteq> []"
    by (auto simp: IsCurrentInstance_def sup_view_def managed.truncate_def split: option.splits)
  have core: "sup_core s" using assms by (simp add: sup_inv_def)
  have "p \<in> fst ` set (su_loops s)"
    using core p core_state [OF core p(1)] by (auto simp: sup_core_def mg_ok_def)
  then obtain k pc where k: "k < length (su_loops s)" "su_loops s ! k = (p, pc)" by (auto simp: in_set_conv_nth)
  from loop_facts(2) [OF assms k] p(2,3) have "session_of pc = Some inst" by (auto simp: mg_ok_def split: option.splits)
  then show "\<exists>k. in_session s k mid inst" using k core_state [OF core p(1)] by (auto simp: in_session_def)
next
  assume "\<exists>k. in_session s k mid inst"
  then obtain k where "in_session s k mid inst" ..
  from in_session_pointer [OF assms this] show "IsCurrentInstance mid inst (sup_view s)"
    by (auto simp: IsCurrentInstance_def sup_view_def managed.truncate_def)
qed

definition host_init :: "host \<Rightarrow> bool" where
  "host_init h \<longleftrightarrow> h = \<lparr>ho_procs = [], ho_flock = None\<rparr>"

text \<open>A supervisor that is shut down and whose loops have all returned.\<close>

definition all_gone :: "supervisor \<Rightarrow> bool" where
  "all_gone s \<longleftrightarrow> su_shutdown s \<and> list_all (\<lambda>l. snd l = LGone) (su_loops s)"

lemma calm_gone: "calm s s' \<Longrightarrow> all_gone s \<Longrightarrow> all_gone s'"
  by (simp add: calm_def all_gone_def)

lemma update_gone: "all_gone s \<Longrightarrow> all_gone (sup_Update a ms s)"
proof -
  have d: "all_gone (update_declared a d s)" if "all_gone s" for d s
  proof -
    obtain p s1 where e: "ensure_supervised (fst d) s = (p, s1)" by (cases "ensure_supervised (fst d) s")
    have "all_gone s1" using that e by (auto simp: ensure_supervised_def all_gone_def Let_def split: option.splits)
    moreover have "calm s1 (update_declared a d s)"
      by (auto simp: update_declared_def e Let_def intro: calm_trans [OF calm_ops(1) calm_ops(2)])
    ultimately show ?thesis by (blast intro: calm_gone)
  qed
  have decl: "all_gone (fold (update_declared a) ds s)" if "all_gone s" for ds s
    using that by (induction ds arbitrary: s) (auto intro: d)
  have rem: "calm s (fold (update_removed ms) xs s)" for xs s
    by (rule calm_fold) (auto simp: update_removed_def intro: calm_trans [OF calm_ops(1) calm_ops(2)])
  assume "all_gone s"
  then have "all_gone (s\<lparr>su_desired := ms\<rparr>)" by (simp add: all_gone_def)
  from calm_gone [OF rem decl [OF this]] show ?thesis by (simp add: sup_Update_def Let_def)
qed

lemma step_gone: "sup_step s s' \<Longrightarrow> all_gone s \<Longrightarrow> all_gone s'"
proof (induction rule: sup_step.induct)
  case (loop k s a s')
  then have "snd (su_loops s ! k) = LGone" by (simp add: all_gone_def list_all_length)
  then show ?case using loop by (cases "su_loops s ! k") (simp add: loop_next_def)
next
  case (session k s a act s')
  then have "snd (su_loops s ! k) = LGone" by (simp add: all_gone_def list_all_length)
  then show ?case using session by (cases "su_loops s ! k") (simp add: session_next_def)
next
  case (update s a ms)
  then show ?case by (rule update_gone)
qed (auto simp: sup_Shutdown_def all_gone_def sup_Poke_def pokeLocked_def sup_RequestStop_def requestStopLocked_def sup_Deliver_def
    instance_title_def split: option.splits)

lemma update_leased: "su_leased (sup_Update a ms s) = su_leased s \<and> su_shutdown (sup_Update a ms s) = su_shutdown s"
proof -
  have d: "su_leased (update_declared a d s) = su_leased s \<and> su_shutdown (update_declared a d s) = su_shutdown s" for d s
    by (auto simp: update_declared_def ensure_supervised_def requestStopLocked_def pokeLocked_def Let_def split: option.splits)
  have "su_leased (fold (update_declared a) ds s) = su_leased s \<and> su_shutdown (fold (update_declared a) ds s) = su_shutdown s" for ds s
    by (induction ds arbitrary: s) (simp_all add: d)
  moreover have "calm s (fold (update_removed ms) xs s)" for xs s
    by (rule calm_fold) (auto simp: update_removed_def intro: calm_trans [OF calm_ops(1) calm_ops(2)])
  ultimately show ?thesis by (simp add: sup_Update_def Let_def calm_def)
qed

lemma shutdown_sels: "su_leased (sup_Shutdown s) = su_leased s" "su_shutdown (sup_Shutdown s)"
proof -
  let ?f = "\<lambda>p s. pokeLocked p (requestStopLocked p ''runner shutting down'' s)"
  have "calm s (fold ?f ps s)" for s ps by (rule calm_fold) (rule calm_trans [OF calm_ops(1) calm_ops(2)])
  then show "su_leased (sup_Shutdown s) = su_leased s" "su_shutdown (sup_Shutdown s)" by (simp_all add: sup_Shutdown_def calm_def)
qed

lemma step_flags: "sup_step s s' \<Longrightarrow> su_leased s' = su_leased s \<and> (su_shutdown s \<longrightarrow> su_shutdown s')"
proof (induction rule: sup_step.induct)
  case (loop k s a s')
  then show ?case by (auto simp: loop_next_def loop_top_def Let_def split: prod.splits loop_pc.splits option.splits if_splits)
next
  case (session k s a act s')
  then show ?case by (auto simp: session_next_def split: prod.splits loop_pc.splits session_act.splits option.splits if_splits)
qed (auto simp: update_leased shutdown_sels sup_Poke_def pokeLocked_def sup_RequestStop_def requestStopLocked_def sup_Deliver_def
    instance_title_def split: option.splits)

definition proc_ok :: "bool \<Rightarrow> proc \<Rightarrow> bool" where
  "proc_ok has pr \<longleftrightarrow> sup_inv (pr_sup pr) \<and> (if pr_alive pr then (case pr_run pr of
     RUp \<Rightarrow> has
   | RDown \<Rightarrow> has \<and> su_shutdown (pr_sup pr)
   | REnd \<Rightarrow> \<not> has \<and> (\<not> su_leased (pr_sup pr) \<or> all_gone (pr_sup pr))
   | _ \<Rightarrow> \<not> has \<and> \<not> su_leased (pr_sup pr)) else \<not> has)"

definition host_inv :: "host \<Rightarrow> bool" where
  "host_inv h \<longleftrightarrow> (\<forall>i < length (ho_procs h). proc_ok (ho_flock h = Some i) (ho_procs h ! i)) \<and>
     (\<forall>i. ho_flock h = Some i \<longrightarrow> i < length (ho_procs h))"

lemma feed_ok [simp]: "sup_inv (pr_sup (feed kind msg pr)) = sup_inv (pr_sup pr)" "su_leased (pr_sup (feed kind msg pr)) = su_leased (pr_sup pr)"
  "pr_run (feed kind msg pr) = pr_run pr" "pr_alive (feed kind msg pr) = pr_alive pr"
  by (simp_all add: feed_def sup_inv_def sup_core_def told_def unwanted_def list_all_iff loop_ok_def)

lemma wg_zero: "sup_inv s \<Longrightarrow> su_wg s = 0 \<Longrightarrow> su_shutdown s \<Longrightarrow> all_gone s"
  by (auto simp: sup_inv_def sup_core_def all_gone_def list_all_iff filter_empty_conv)

lemma run_next_inv:
  assumes "host_inv h" "i < length (ho_procs h)" "pr_alive (ho_procs h ! i)" "run_next err ctxDone i h = Some h'"
  shows "host_inv h'"
proof -
  let ?pr = "ho_procs h ! i"
  have ok: "proc_ok (ho_flock h = Some i) ?pr" using assms(1,2) by (simp add: host_inv_def)
  have others: "host_inv (h\<lparr>ho_procs := (ho_procs h)[i := pr], ho_flock := fl\<rparr>)"
    if "proc_ok (fl = Some i) pr" "fl = ho_flock h \<or> fl = Some i \<and> ho_flock h = None \<or> fl = None \<and> ho_flock h = Some i" for pr fl
    using that assms(1,2) by (auto simp: host_inv_def nth_list_update)
  have same: "host_inv (h\<lparr>ho_procs := (ho_procs h)[i := pr]\<rparr>)" if "proc_ok (ho_flock h = Some i) pr" for pr
    using others [of "ho_flock h" pr] that by simp
  show ?thesis
  proof (cases "pr_run ?pr")
    case (RPoll b)
    have "host_inv (h\<lparr>ho_procs := (ho_procs h)[i := ?pr\<lparr>pr_sup := sup_leased (pr_sup ?pr), pr_run := RUp\<rparr>], ho_flock := Some i\<rparr>)" if "ho_flock h = None"
      by (rule others) (use that ok assms(3) leased_inv in \<open>auto simp: proc_ok_def\<close>)
    then show ?thesis using RPoll ok assms(3,4)
      by (auto simp: run_next_def Let_def proc_ok_def split: option.splits if_splits intro!: same)
  next
    case RDown
    have "host_inv (h\<lparr>ho_procs := (ho_procs h)[i := ?pr\<lparr>pr_run := REnd\<rparr>], ho_flock := None\<rparr>)" if "su_wg (pr_sup ?pr) = 0"
      by (rule others) (use that ok RDown assms(3) wg_zero in \<open>auto simp: proc_ok_def\<close>)
    then show ?thesis using RDown assms(4) by (auto simp: run_next_def Let_def split: if_splits)
  qed (use ok assms(3,4) Shutdown_inv shutdown_sels in
      \<open>auto simp: run_next_def Let_def proc_ok_def split: option.splits if_splits intro!: same\<close>)
qed

lemma host_step_inv: "host_step h h' \<Longrightarrow> host_inv h \<Longrightarrow> host_inv h'"
proof (induction rule: host_step.induct)
  case (boot h)
  have "\<not> su_leased new_supervisor" by (simp add: new_supervisor_def)
  then show ?case using boot by (auto simp: host_inv_def nth_append less_Suc_eq proc_ok_def new_inv)
next
  case (run i h err ctxDone h')
  then show ?case using run_next_inv by blast
next
  case (sup i h s')
  have "proc_ok (ho_flock h = Some i) (ho_procs h ! i)" using sup by (simp add: host_inv_def)
  then have "proc_ok (ho_flock h = Some i) ((ho_procs h ! i)\<lparr>pr_sup := s'\<rparr>)"
    using step_inv [OF sup(3)] step_flags [OF sup(3)] step_gone [OF sup(3)] sup(2) by (auto simp: proc_ok_def split: run_pc.splits)
  then show ?case using sup by (auto simp: host_inv_def nth_list_update)
next
  case (crash i h)
  then have "proc_ok (ho_flock h = Some j) (ho_procs h ! j)" if "j < length (ho_procs h)" for j using that by (simp add: host_inv_def)
  moreover have "proc_ok (ho_flock h = Some i) (ho_procs h ! i) \<Longrightarrow> proc_ok False ((ho_procs h ! i)\<lparr>pr_alive := False\<rparr>)"
    by (simp add: proc_ok_def)
  ultimately show ?case using crash by (fastforce simp: host_inv_def nth_list_update split: if_splits)
qed

interpretation hoi: invariant_system host_init host_step host_inv
proof
  show "host_init h \<Longrightarrow> host_inv h" for h by (simp add: host_init_def host_inv_def)
qed (rule host_step_inv)

subsection \<open>One instance of a manager\<close>

definition live_session :: "host \<Rightarrow> nat \<Rightarrow> nat \<Rightarrow> string \<Rightarrow> string \<Rightarrow> bool" where
  "live_session h i k mid inst \<longleftrightarrow> i < length (ho_procs h) \<and> pr_alive (ho_procs h ! i) \<and> in_session (pr_sup (ho_procs h ! i)) k mid inst"

lemma live_session_holds:
  assumes "host_inv h" "live_session h i k mid inst"
  shows "ho_flock h = Some i" "sup_inv (pr_sup (ho_procs h ! i))"
proof -
  let ?pr = "ho_procs h ! i"
  have ok: "proc_ok (ho_flock h = Some i) ?pr" and s: "in_session (pr_sup ?pr) k mid inst" "pr_alive ?pr"
    using assms by (auto simp: host_inv_def live_session_def)
  then show i: "sup_inv (pr_sup ?pr)" by (simp add: proc_ok_def)
  have k: "k < length (su_loops (pr_sup ?pr))" "snd (su_loops (pr_sup ?pr) ! k) \<noteq> LGone" using s(1) by (auto simp: in_session_def)
  have "su_leased (pr_sup ?pr)" using i k(1) by (auto simp: sup_inv_def sup_core_def)
  moreover have "\<not> all_gone (pr_sup ?pr)" using k by (auto simp: all_gone_def list_all_length)
  ultimately show "ho_flock h = Some i" using ok s(2) by (auto simp: proc_ok_def split: run_pc.splits)
qed

text \<open>
  C8: There is never more than one instance of a manager.  On a host where runner processes come, go, crash
  and hand over to each other, under any interleaving of reloads, operator requests, instance starts, ends
  and restarts, two sessions of the same manager in live processes are the same session, and its process
  holds the lease.
\<close>

theorem one_instance:
  assumes "host_init h0" "host_step\<^sup>*\<^sup>* h0 h" "live_session h i k mid inst" "live_session h j l mid inst'"
  shows "i = j \<and> k = l \<and> inst = inst' \<and> ho_flock h = Some i"
proof -
  note inv = hoi.inv_reachable [OF assms(1,2)]
  have "i = j" using live_session_holds(1) [OF inv assms(3)] live_session_holds(1) [OF inv assms(4)] by simp
  then show ?thesis using live_session_holds [OF inv assms(3)] in_session_unique assms(3,4) by (auto simp: live_session_def)
qed

text \<open>
  C16: An instance nobody wants is told to stop.  In every reachable state of a host, a session of a live
  process whose manager is no longer declared, or whose supervisor is shutting down, has a stop request
  waiting for it, has taken one, or is already over.
\<close>

theorem unwanted_instance_stopped:
  assumes "host_init h0" "host_step\<^sup>*\<^sup>* h0 h" "live_session h i k mid inst"
  defines "s \<equiv> pr_sup (ho_procs h ! i)"
  assumes "su_shutdown s \<or> fmlookup (su_desired s) mid = None"
  shows "asked (su_heap s ! fst (su_loops s ! k)) (snd (su_loops s ! k))"
proof -
  have "sup_inv s" using live_session_holds(2) [OF hoi.inv_reachable [OF assms(1,2)] assms(3)] by (simp add: s_def)
  then show ?thesis using loop_facts(6) [of s k] assms(3,5)
    by (cases "su_loops s ! k") (auto simp: live_session_def in_session_def unwanted_def simp flip: s_def)
qed

text \<open>How many steps of its own a loop still needs once the supervisor is shutting down.\<close>

fun shut_rank :: "loop_pc \<Rightarrow> nat" where
  "shut_rank LGone = 0"
| "shut_rank LExit = 1"
| "shut_rank LMark = 2"
| "shut_rank LTop = 2"
| "shut_rank (LSleep d) = 3"
| "shut_rank LRestart = 4"
| "shut_rank (LAfter i r) = 5"
| "shut_rank (LEnd i r) = 6"
| "shut_rank (LRun m i c) = 7"
| "shut_rank (LSeed m i) = 8"
| "shut_rank (LReap m i) = 9"

lemma release_only_drained:
  assumes "host_inv h" "host_step h h'" "i < length (ho_procs h)" "ho_flock h = Some i" "ho_flock h' \<noteq> Some i" "pr_alive (ho_procs h' ! i)"
  shows "all_gone (pr_sup (ho_procs h ! i))"
  using assms(2)
proof (cases rule: host_step.cases)
  case (run j err ctxDone)
  have ok: "proc_ok (ho_flock h = Some j) (ho_procs h ! j)" using assms(1) run(1) by (simp add: host_inv_def)
  have "j = i \<and> pr_run (ho_procs h ! i) = RDown \<and> su_wg (pr_sup (ho_procs h ! i)) = 0"
    using run(3) assms(4,5) ok run(2) by (auto simp: run_next_def Let_def proc_ok_def split: run_pc.splits option.splits if_splits)
  then show ?thesis using wg_zero ok run(2) assms(4) by (auto simp: proc_ok_def)
qed (use assms in \<open>auto simp: nth_list_update split: if_splits\<close>)

text \<open>
  C15: A shutdown drains.  In every reachable state of the host, in a live process whose supervisor is shutting
  down, a loop that has not returned is either inside a session that has been told to stop, or its next
  step, whatever the world answers, takes it closer to returning, of which it has at most nine left.
  And \<open>Run\<close> gives the lease back only when all have returned: whenever a step of the host takes the
  lease from a process that goes on living, every one of its loops has returned.
\<close>

theorem shutdown_drains:
  assumes "host_init h0" "host_step\<^sup>*\<^sup>* h0 h" "i < length (ho_procs h)" "pr_alive (ho_procs h ! i)"
  defines "s \<equiv> pr_sup (ho_procs h ! i)"
  shows "(\<forall>k < length (su_loops s). su_shutdown s \<and> snd (su_loops s ! k) \<noteq> LGone \<longrightarrow>
      (\<exists>m inst c. snd (su_loops s ! k) = LRun m inst c \<and> asked (su_heap s ! fst (su_loops s ! k)) (LRun m inst c)) \<or>
      (\<forall>a. \<exists>s'. loop_next a k s = Some s' \<and> shut_rank (snd (su_loops s' ! k)) < shut_rank (snd (su_loops s ! k)) \<and> su_shutdown s')) \<and>
    (\<forall>h'. host_step h h' \<and> ho_flock h = Some i \<and> ho_flock h' \<noteq> Some i \<and> pr_alive (ho_procs h' ! i) \<longrightarrow>
      (\<forall>k < length (su_loops s). snd (su_loops s ! k) = LGone))"
proof -
  have inv: "host_inv h" using hoi.inv_reachable assms(1,2) by blast
  then have i: "sup_inv s" using assms(3,4) by (auto simp: host_inv_def proc_ok_def s_def)
  have drain: "(\<exists>m inst c. snd (su_loops s ! k) = LRun m inst c \<and> asked (su_heap s ! fst (su_loops s ! k)) (LRun m inst c)) \<or>
      (\<forall>a. \<exists>s'. loop_next a k s = Some s' \<and> shut_rank (snd (su_loops s' ! k)) < shut_rank (snd (su_loops s ! k)) \<and> su_shutdown s')"
    if k: "k < length (su_loops s)" "su_shutdown s" "snd (su_loops s ! k) \<noteq> LGone" for k
  proof -
    obtain p pc where l: "su_loops s ! k = (p, pc)" by (cases "su_loops s ! k")
    note f = loop_facts [OF i k(1) l]
    show ?thesis
    proof (cases "\<exists>m i c. pc = LRun m i c")
      case True
      then show ?thesis using f(6) k(2) l by (auto simp: unwanted_def)
    next
      case False
      then show ?thesis using k l by (cases pc) (auto simp: loop_next_def loop_top_def)
    qed
  qed
  have "\<forall>k < length (su_loops s). snd (su_loops s ! k) = LGone"
    if "host_step h h'" "ho_flock h = Some i" "ho_flock h' \<noteq> Some i" "pr_alive (ho_procs h' ! i)" for h'
    using release_only_drained [OF inv that(1) assms(3) that(2-)] by (auto simp: all_gone_def s_def list_all_length)
  with drain show ?thesis by blast
qed

text \<open>
  The liveness check of the API is exact.  In every reachable state of the supervisor, the check the state
  API applies to a manager's token (\<open>IsCurrentInstance\<close>) succeeds exactly when a session of that manager
  with that instance id is under way.
\<close>

theorem current_instance_exact:
  assumes "sup_move\<^sup>*\<^sup>* new_supervisor s"
  shows "IsCurrentInstance mid inst (sup_view s) \<longleftrightarrow> (\<exists>k. in_session s k mid inst)"
  using current_iff_session svi.inv_reachable [OF refl assms] .

text \<open>
  The manager problems on the dashboard are the managers that should run and do not.  In every reachable
  state the reported problems name, in order, exactly the supervised managers that are declared and not
  disabled, have no session under way and whose instances have been failing.
\<close>

theorem manager_problems_exact:
  assumes "sup_move\<^sup>*\<^sup>* new_supervisor s"
  shows "map sn_ID (reportAttention dur disabled s) = filter (\<lambda>mid.
    (\<exists>m. fmlookup (su_desired s) mid = Some m \<and> \<not> disabled mid (EnabledByDefault m)) \<and> (\<forall>k inst. \<not> in_session s k mid inst) \<and>
    (\<exists>p. fmlookup (su_states s) mid = Some p \<and> 0 < sg_fails (su_heap s ! p))) (sorted_list_of_fset (fmdom (su_states s)))"
proof -
  have i: "sup_inv s" using svi.inv_reachable [OF refl assms] .
  let ?Q = "\<lambda>mid. (\<exists>m. fmlookup (su_desired s) mid = Some m \<and> \<not> disabled mid (EnabledByDefault m)) \<and> (\<forall>k inst. \<not> in_session s k mid inst) \<and>
    (\<exists>p. fmlookup (su_states s) mid = Some p \<and> 0 < sg_fails (su_heap s ! p))"
  have idle: "mg_instanceID (su_heap s ! p) = [] \<longleftrightarrow> (\<forall>k inst. \<not> in_session s k mid inst)" if "fmlookup (su_states s) mid = Some p" for mid p
    using current_iff_session [OF i, of mid] that
    by (auto simp: IsCurrentInstance_def sup_view_def managed.truncate_def)
  have rec: "sg_lastError (su_heap s ! p) \<noteq> [] \<longleftrightarrow> 0 < sg_fails (su_heap s ! p)" if "fmlookup (su_states s) mid = Some p" for mid p
    using i core_state [of s mid p] that by (auto simp: sup_inv_def sup_core_def list_all_length rec_ok_def)
  have key: "map sn_ID (concat (map (\<lambda>(mid, p). let mg = su_heap s ! p in case fmlookup (su_desired s) mid of None \<Rightarrow> []
     | Some m \<Rightarrow> if disabled mid (EnabledByDefault m) \<or> mg_instanceID mg \<noteq> [] \<or> sg_lastError mg = [] then []
         else [\<lparr>sn_ID = mid, sn_Failures = sg_fails mg, sn_Message = attention_message dur mid mg\<rparr>]) xs)) = filter ?Q (map fst xs)"
    if "\<forall>x \<in> set xs. fmlookup (su_states s) (fst x) = Some (snd x)" for xs
    using that by (induction xs) (auto simp: Let_def idle rec split: option.splits)
  have "\<forall>x \<in> set (sorted_list_of_fmap (su_states s)). fmlookup (su_states s) (fst x) = Some (snd x)" by auto
  from key [OF this] show ?thesis by (simp add: reportAttention_def)
qed

subsection \<open>A host to look at\<close>

definition smgr_ex :: smgr where
  "smgr_ex = mgr_decl.extend (hook_decl.extend (keyed_hook\<lparr>hc_ID := ''boss''\<rparr>) \<lparr>md_SpawnTargets = []\<rparr>)
     \<lparr>sm_Description = [], sm_ReconcileIntervalRaw = ''1m'', sm_ReconcileInterval = 60 * Second\<rparr>"

definition ans_ex :: sup_ans where
  "ans_ex = \<lparr>sa_now = 5, sa_disabled = (\<lambda>_ _. False), sa_id = ''i1'', sa_hash = (\<lambda>_. Some ''abc''), sa_event = ''e'', sa_sep = (\<lambda>_. False), sa_root = JNull\<rparr>"

definition sup_one :: supervisor where
  "sup_one = sup_Update ans_ex (fmupd ''boss'' smgr_ex fmempty) new_supervisor"

definition sup_ex :: supervisor where
  "sup_ex = loop_top ans_ex 0 0 (sup_leased sup_one)"

lemma sup_ex_step: "0 < length (su_loops (sup_leased sup_one))" "loop_next ans_ex 0 (sup_leased sup_one) = Some sup_ex" "sa_id ans_ex \<noteq> []"
proof -
  show "sa_id ans_ex \<noteq> []" by (simp add: ans_ex_def)
  have l: "su_loops (sup_leased sup_one) = [(0, LTop)]" by code_simp
  then show "0 < length (su_loops (sup_leased sup_one))" "loop_next ans_ex 0 (sup_leased sup_one) = Some sup_ex"
    by (simp_all add: loop_next_def sup_ex_def)
qed

lemma sup_ex_facts:
  "length (su_loops sup_ex) = 1" "session_of (snd (su_loops sup_ex ! 0)) = Some ''i1''" "sg_id (su_heap sup_ex ! fst (su_loops sup_ex ! 0)) = ''boss''"
  "shut_rank (snd (su_loops (sup_Shutdown sup_ex) ! 0)) = 9" "su_shutdown (sup_Shutdown sup_ex)"
  "length (su_loops (sup_Shutdown sup_ex)) = 1"
  by code_simp+

lemma sup_ex_reach: "sup_move\<^sup>*\<^sup>* new_supervisor sup_ex" "sup_move\<^sup>*\<^sup>* new_supervisor (sup_Shutdown sup_ex)"
proof -
  have "sup_move new_supervisor sup_one" unfolding sup_one_def by (intro sup_move.op sup_step.update)
  moreover have "sup_move sup_one (sup_leased sup_one)" by (rule sup_move.lease)
  moreover have "sup_move (sup_leased sup_one) sup_ex" by (intro sup_move.op sup_step.loop [OF sup_ex_step(1,3,2)])
  ultimately show r: "sup_move\<^sup>*\<^sup>* new_supervisor sup_ex" by (meson rtranclp.rtrancl_refl rtranclp.rtrancl_into_rtrancl)
  have "sup_move sup_ex (sup_Shutdown sup_ex)" by (intro sup_move.op sup_step.shutdown)
  with r show "sup_move\<^sup>*\<^sup>* new_supervisor (sup_Shutdown sup_ex)" by (rule rtranclp.rtrancl_into_rtrancl)
qed

definition host_of :: "supervisor \<Rightarrow> run_pc \<Rightarrow> nat option \<Rightarrow> host" where
  "host_of s r fl = \<lparr>ho_procs = [\<lparr>pr_sup = s, pr_run = r, pr_alive = True\<rparr>], ho_flock = fl\<rparr>"

lemma host_of_sup: "sup_step s s' \<Longrightarrow> host_step (host_of s r fl) (host_of s' r fl)"
  using host_step.sup [of 0 "host_of s r fl" s'] by (simp add: host_of_def)

lemma host_of_run: "run_next None False 0 (host_of s r fl) = Some h \<Longrightarrow> host_step (host_of s r fl) h"
  using host_step.run [of 0 "host_of s r fl" None False h] by (simp add: host_of_def)

lemma host_ex_reach:
  "host_step\<^sup>*\<^sup>* \<lparr>ho_procs = [], ho_flock = None\<rparr> (host_of sup_ex RUp (Some 0))"
  "host_step\<^sup>*\<^sup>* \<lparr>ho_procs = [], ho_flock = None\<rparr> (host_of (sup_Shutdown sup_ex) RUp (Some 0))"
proof -
  have "host_step \<lparr>ho_procs = [], ho_flock = None\<rparr> (host_of new_supervisor ROpen None)"
    using host_step.boot [of "\<lparr>ho_procs = [], ho_flock = None\<rparr>"] by (simp add: host_of_def)
  moreover have "host_step (host_of new_supervisor ROpen None) (host_of new_supervisor (RPoll False) None)"
    by (rule host_of_run) (simp add: run_next_def host_of_def)
  moreover have "host_step (host_of new_supervisor (RPoll False) None) (host_of sup_one (RPoll False) None)"
    unfolding sup_one_def by (intro host_of_sup sup_step.update)
  moreover have "host_step (host_of sup_one (RPoll False) None) (host_of (sup_leased sup_one) RUp (Some 0))"
    by (rule host_of_run) (simp add: run_next_def host_of_def)
  moreover have "host_step (host_of (sup_leased sup_one) RUp (Some 0)) (host_of sup_ex RUp (Some 0))"
    by (intro host_of_sup sup_step.loop [OF sup_ex_step(1,3,2)])
  ultimately show r: "host_step\<^sup>*\<^sup>* \<lparr>ho_procs = [], ho_flock = None\<rparr> (host_of sup_ex RUp (Some 0))"
    by (meson rtranclp.rtrancl_refl rtranclp.rtrancl_into_rtrancl)
  have "host_step (host_of sup_ex RUp (Some 0)) (host_of (sup_Shutdown sup_ex) RUp (Some 0))" by (intro host_of_sup sup_step.shutdown)
  with r show "host_step\<^sup>*\<^sup>* \<lparr>ho_procs = [], ho_flock = None\<rparr> (host_of (sup_Shutdown sup_ex) RUp (Some 0))" by (rule rtranclp.rtrancl_into_rtrancl)
qed

lemma host_ex_live: "live_session (host_of sup_ex RUp (Some 0)) 0 0 ''boss'' ''i1''"
  "live_session (host_of (sup_Shutdown sup_ex) RUp (Some 0)) 0 0 ''boss'' ''i1''"
proof -
  have "in_session sup_ex 0 ''boss'' ''i1''" "in_session (sup_Shutdown sup_ex) 0 ''boss'' ''i1''" unfolding in_session_def by code_simp+
  then show "live_session (host_of sup_ex RUp (Some 0)) 0 0 ''boss'' ''i1''"
    "live_session (host_of (sup_Shutdown sup_ex) RUp (Some 0)) 0 0 ''boss'' ''i1''" by (simp_all add: live_session_def host_of_def)
qed

theorem one_instance_witness: "ho_flock (host_of sup_ex RUp (Some 0)) = Some 0"
  using one_instance [OF _ host_ex_reach(1) host_ex_live(1) host_ex_live(1)] by (simp add: host_init_def)

theorem unwanted_instance_stopped_witness:
  "asked (su_heap (sup_Shutdown sup_ex) ! fst (su_loops (sup_Shutdown sup_ex) ! 0)) (snd (su_loops (sup_Shutdown sup_ex) ! 0))"
  using unwanted_instance_stopped [OF _ host_ex_reach(2) host_ex_live(2)] sup_ex_facts(5) by (simp add: host_init_def host_of_def)

theorem shutdown_drains_witness:
  "(\<exists>m i c. snd (su_loops (sup_Shutdown sup_ex) ! 0) = LRun m i c \<and>
      asked (su_heap (sup_Shutdown sup_ex) ! fst (su_loops (sup_Shutdown sup_ex) ! 0)) (LRun m i c)) \<or>
   (\<exists>s'. loop_next ans_ex 0 (sup_Shutdown sup_ex) = Some s' \<and> shut_rank (snd (su_loops s' ! 0)) < 9 \<and> su_shutdown s')"
proof -
  have "snd (su_loops (sup_Shutdown sup_ex) ! 0) \<noteq> LGone" using sup_ex_facts(4) by auto
  moreover have "ho_procs (host_of (sup_Shutdown sup_ex) RUp (Some 0)) = [\<lparr>pr_sup = sup_Shutdown sup_ex, pr_run = RUp, pr_alive = True\<rparr>]"
    by (simp add: host_of_def)
  ultimately show ?thesis using shutdown_drains [OF _ host_ex_reach(2), of 0] sup_ex_facts(4-6) by (auto simp: host_init_def)
qed

theorem current_instance_exact_witness: "IsCurrentInstance ''boss'' ''i1'' (sup_view sup_ex) \<longleftrightarrow> (\<exists>k. in_session sup_ex k ''boss'' ''i1'')"
  using current_instance_exact [OF sup_ex_reach(1)] .

theorem manager_problems_exact_witness:
  "\<forall>mid \<in> set (map sn_ID (reportAttention (\<lambda>_. []) (\<lambda>_ _. False) sup_ex)). \<forall>k inst. \<not> in_session sup_ex k mid inst"
  by (auto simp only: manager_problems_exact [OF sup_ex_reach(1)] set_filter)

end
