(* ===== verification/RunStore.thy ===== *)
theory RunStore
  imports Tracker Int64 "HOL-Library.Product_Lexorder"
begin

text \<open>
  Model of \<^verbatim>\<open>internal/runstore/runstore.go\<close>: the archive of finished runs in one bbolt file.  The contents of a
  bucket are a finite map from byte strings to byte strings that a cursor visits in byte order; a write
  transaction changes all buckets or (when it does not commit) none.  The JSON encoding of the records is
  an argument.  The lemmas show that the time keys sort chronologically, that the four buckets always
  describe the same runs, and that reads and the sweeper do what a single list of runs would.
\<close>

subsection \<open>Keys and index values\<close>

text \<open>\<open>time.Unix(0, n).UTC()\<close>.\<close>

definition unix_time :: "int \<Rightarrow> time" where
  "unix_time n = n + unix_epoch"

text \<open>\<open>%019d\<close>: a sign counts for the width.\<close>

definition pad19 :: "int \<Rightarrow> string" where
  "pad19 n = (let ds = show_nat (nat \<bar>n\<bar>) in
     if n < 0 then CHR ''-'' # replicate (18 - length ds) (CHR ''0'') @ ds else replicate (19 - length ds) (CHR ''0'') @ ds)"

definition timeKey :: "time \<Rightarrow> string \<Rightarrow> string" where
  "timeKey started rid = pad19 (UnixNano started) @ ''-'' @ rid"

text \<open>\<open>bytes.IndexByte\<close> or \<open>strings.Cut\<close> at a single byte.\<close>

fun cut :: "char \<Rightarrow> string \<Rightarrow> (string \<times> string) option" where
  "cut c [] = None"
| "cut c (x # xs) = (if x = c then Some ([], xs) else map_option (\<lambda>(a, b). (x # a, b)) (cut c xs))"

definition splitKey :: "string \<Rightarrow> (time \<times> string) option" where
  "splitKey k = (case cut (CHR ''-'') k of None \<Rightarrow> None
     | Some (a, rid) \<Rightarrow> (case parse_int a of None \<Rightarrow> None | Some n \<Rightarrow> Some (unix_time n, rid)))"

definition summaryValue :: "status \<Rightarrow> time \<Rightarrow> time \<Rightarrow> string" where
  "summaryValue st finished startedAt =
     st @ '' '' @ append_int (UnixNano finished) @ '' '' @ append_int (if startedAt = 0 then 0 else UnixNano startedAt)"

definition splitSummary :: "string \<Rightarrow> (status \<times> time \<times> time) option" where
  "splitSummary v = (case cut (CHR '' '') v of None \<Rightarrow> None
     | Some (st, rest) \<Rightarrow>
         let (finRaw, startRaw) = (case cut (CHR '' '') rest of None \<Rightarrow> (rest, None) | Some (f, s) \<Rightarrow> (f, Some s)) in
         case parse_int finRaw of None \<Rightarrow> None
         | Some n \<Rightarrow> (case startRaw of None \<Rightarrow> Some (st, unix_time n, 0)
             | Some s \<Rightarrow> (case parse_int s of None \<Rightarrow> None
                 | Some m \<Rightarrow> Some (st, unix_time n, if m \<noteq> 0 then unix_time m else 0))))"

subsection \<open>The store\<close>

record rs_config =
  rc_Path :: string
  rc_Retention :: duration
  rc_MaxPerHook :: int
  rc_SweepInterval :: duration

record run_db =
  db_meta :: "(string, string) fmap"
  db_output :: "(string, string) fmap"
  db_bytime :: "(string, string) fmap"
  db_byhook :: "(string, (string, string) fmap) fmap"

record codec =
  cd_meta :: "run_state \<Rightarrow> string"
  cd_unmeta :: "string \<Rightarrow> run_state option"
  cd_out :: "string list \<times> time list \<Rightarrow> string"
  cd_unout :: "string \<Rightarrow> (string list \<times> time list) option"

definition DefaultRetention :: duration where "DefaultRetention = 48 * Hour"
definition DefaultMaxPerHook :: int where "DefaultMaxPerHook = 200000"
definition DefaultSweepInterval :: duration where "DefaultSweepInterval = 5 * Minute"

definition db_empty :: run_db where
  "db_empty = \<lparr>db_meta = fmempty, db_output = fmempty, db_bytime = fmempty, db_byhook = fmempty\<rparr>"

text \<open>\<open>Open\<close> on the file's present contents; \<open>err\<close> is what the file system or bbolt refuse with.\<close>

definition rs_Open :: "string option \<Rightarrow> rs_config \<Rightarrow> run_db \<Rightarrow> string + rs_config \<times> run_db" where
  "rs_Open err cfg db =
     (if rc_Path cfg = [] then Inl ''runstore: Config.Path is required''
      else case err of Some e \<Rightarrow> Inl (''runstore: open '' @ rc_Path cfg @ '': '' @ e)
      | None \<Rightarrow> Inr (cfg\<lparr>rc_Retention := (if rc_Retention cfg \<le> 0 then DefaultRetention else rc_Retention cfg),
            rc_MaxPerHook := (if rc_MaxPerHook cfg \<le> 0 then DefaultMaxPerHook else rc_MaxPerHook cfg),
            rc_SweepInterval := (if rc_SweepInterval cfg \<le> 0 then DefaultSweepInterval else rc_SweepInterval cfg)\<rparr>, db))"

definition rs_expired :: "rs_config \<Rightarrow> time \<Rightarrow> time \<Rightarrow> bool" where
  "rs_expired cfg started now \<longleftrightarrow> \<not> (started > now - rc_Retention cfg)"

definition strip_output :: "run_state \<Rightarrow> run_state" where
  "strip_output st = st\<lparr>rs_Output := [], rs_OutputTimes := []\<rparr>"

definition hook_bucket :: "string \<Rightarrow> run_db \<Rightarrow> (string, string) fmap" where
  "hook_bucket h db = (case fmlookup (db_byhook db) h of None \<Rightarrow> fmempty | Some b \<Rightarrow> b)"

definition put_run :: "codec \<Rightarrow> run_state \<Rightarrow> run_db \<Rightarrow> run_db" where
  "put_run c st db =
     (let key = timeKey (rs_Started st) (rs_ID st);
          db = db\<lparr>db_meta := fmupd (rs_ID st) (cd_meta c (strip_output st)) (db_meta db)\<rparr>;
          db = db\<lparr>db_bytime := fmupd key (rs_HookID st) (db_bytime db)\<rparr>;
          hb = fmupd key (summaryValue (rs_Status st) (rs_Finished st) (rs_StartedAt st)) (hook_bucket (rs_HookID st) db);
          db = db\<lparr>db_byhook := fmupd (rs_HookID st) hb (db_byhook db)\<rparr>
      in if rs_Output st = [] then db
         else db\<lparr>db_output := fmupd (rs_ID st) (cd_out c (rs_Output st, rs_OutputTimes st)) (db_output db)\<rparr>)"

text \<open>\<open>Record\<close>; \<open>commit\<close> is the error of a transaction that does not commit.\<close>

definition rs_Record :: "codec \<Rightarrow> string option \<Rightarrow> run_state \<Rightarrow> run_db \<Rightarrow> string option \<times> run_db" where
  "rs_Record c commit st db =
     (if \<not> Terminal (rs_Status st)
      then (Some (''runstore: refusing to record non-terminal run '' @ rs_ID st @ '' ('' @ rs_Status st @ '')''), db)
      else case commit of Some err \<Rightarrow> (Some err, db) | None \<Rightarrow> (None, put_run c st db))"

definition rs_Get :: "codec \<Rightarrow> rs_config \<Rightarrow> time \<Rightarrow> string \<Rightarrow> run_db \<Rightarrow> run_state option" where
  "rs_Get c cfg now rid db = (case Option.bind (fmlookup (db_meta db) rid) (cd_unmeta c) of None \<Rightarrow> None
     | Some st \<Rightarrow> if rs_expired cfg (rs_Started st) now then None
         else Some (case Option.bind (fmlookup (db_output db) rid) (cd_unout c) of None \<Rightarrow> st
           | Some (out, ts) \<Rightarrow> st\<lparr>rs_Output := out, rs_OutputTimes := ts\<rparr>))"

text \<open>What a cursor still has to visit, going backwards from where \<open>seekBefore\<close> puts it.\<close>

definition seekBefore :: "time \<Rightarrow> (string, string) fmap \<Rightarrow> (string \<times> string) list" where
  "seekBefore before b =
     (let all = sorted_list_of_fmap b; at = pad19 (UnixNano before); older = takeWhile (\<lambda>(k, _). k < at) all in
      if before = 0 \<or> length older = length all then rev all else rev older)"

fun collect_loop :: "codec \<Rightarrow> rs_config \<Rightarrow> time \<Rightarrow> int \<Rightarrow> (status \<Rightarrow> bool) option \<Rightarrow> (string, string) fmap \<Rightarrow>
    (string \<times> string) list \<Rightarrow> run_state list \<Rightarrow> run_state list" where
  "collect_loop c cfg now mx keep meta [] out = out"
| "collect_loop c cfg now mx keep meta ((k, v) # rest) out =
     (if mx > 0 \<and> int (length out) \<ge> mx then out
      else case splitKey k of None \<Rightarrow> collect_loop c cfg now mx keep meta rest out
      | Some (started, rid) \<Rightarrow>
          if rs_expired cfg started now then out
          else if (case (keep, splitSummary v) of (Some f, Some (st, _)) \<Rightarrow> \<not> f st | _ \<Rightarrow> False)
          then collect_loop c cfg now mx keep meta rest out
          else case Option.bind (fmlookup meta rid) (cd_unmeta c) of None \<Rightarrow> collect_loop c cfg now mx keep meta rest out
          | Some st \<Rightarrow> if (case keep of Some f \<Rightarrow> \<not> f (rs_Status st) | None \<Rightarrow> False)
              then collect_loop c cfg now mx keep meta rest out
              else collect_loop c cfg now mx keep meta rest (out @ [st]))"

definition collectBefore :: "codec \<Rightarrow> rs_config \<Rightarrow> time \<Rightarrow> (string, string) fmap \<Rightarrow> time \<Rightarrow> int \<Rightarrow> (status \<Rightarrow> bool) option \<Rightarrow> run_db \<Rightarrow> run_state list" where
  "collectBefore c cfg now b before mx keep db = collect_loop c cfg now mx keep (db_meta db) (seekBefore before b) []"

definition ListAllBeforeFiltered :: "codec \<Rightarrow> rs_config \<Rightarrow> time \<Rightarrow> time \<Rightarrow> int \<Rightarrow> (status \<Rightarrow> bool) option \<Rightarrow> run_db \<Rightarrow> run_state list" where
  "ListAllBeforeFiltered c cfg now before mx keep db = collectBefore c cfg now (db_bytime db) before mx keep db"

definition rs_ListAllBefore :: "codec \<Rightarrow> rs_config \<Rightarrow> time \<Rightarrow> time \<Rightarrow> int \<Rightarrow> run_db \<Rightarrow> run_state list" where
  "rs_ListAllBefore c cfg now before mx db = ListAllBeforeFiltered c cfg now before mx None db"

definition rs_ListAll :: "codec \<Rightarrow> rs_config \<Rightarrow> time \<Rightarrow> int \<Rightarrow> run_db \<Rightarrow> run_state list" where
  "rs_ListAll c cfg now mx db = rs_ListAllBefore c cfg now 0 mx db"

definition ListByHookBeforeFiltered :: "codec \<Rightarrow> rs_config \<Rightarrow> time \<Rightarrow> string \<Rightarrow> time \<Rightarrow> int \<Rightarrow> (status \<Rightarrow> bool) option \<Rightarrow> run_db \<Rightarrow> run_state list" where
  "ListByHookBeforeFiltered c cfg now h before mx keep db = (case fmlookup (db_byhook db) h of None \<Rightarrow> []
     | Some hb \<Rightarrow> collectBefore c cfg now hb before mx keep db)"

definition rs_ListByHookBefore :: "codec \<Rightarrow> rs_config \<Rightarrow> time \<Rightarrow> string \<Rightarrow> time \<Rightarrow> int \<Rightarrow> run_db \<Rightarrow> run_state list" where
  "rs_ListByHookBefore c cfg now h before mx db = ListByHookBeforeFiltered c cfg now h before mx None db"

definition rs_ListByHook :: "codec \<Rightarrow> rs_config \<Rightarrow> time \<Rightarrow> string \<Rightarrow> int \<Rightarrow> run_db \<Rightarrow> run_state list" where
  "rs_ListByHook c cfg now h mx db = rs_ListByHookBefore c cfg now h 0 mx db"

text \<open>The skeleton a summary row becomes; every other field is zero.\<close>

definition summary_state :: "string \<Rightarrow> string \<Rightarrow> status \<Rightarrow> time \<Rightarrow> time \<Rightarrow> time \<Rightarrow> run_state" where
  "summary_state rid h st started startedAt finished = \<lparr>rs_ID = rid, rs_HookID = h, rs_Title = [], rs_SpawnedBy = None, rs_Started = started,
     rs_StartedAt = startedAt, rs_Finished = finished, rs_Status = st, rs_ExitCode = 0, rs_Output = [], rs_OutputTimes = [], rs_Error = [],
     rs_CancelRequested = False, rs_CancelRequestedAt = 0, rs_WaitHistory = [], rs_WaitHistoryTruncated = False, rs_WaitingOn = None,
     rs_Phases = fmempty, rs_Waiters = []\<rparr>"

fun summary_loop :: "rs_config \<Rightarrow> time \<Rightarrow> string \<Rightarrow> (string \<times> string) list \<Rightarrow> run_state list \<Rightarrow> run_state list" where
  "summary_loop cfg now h [] out = out"
| "summary_loop cfg now h ((k, v) # rest) out = (case splitKey k of None \<Rightarrow> summary_loop cfg now h rest out
     | Some (started, rid) \<Rightarrow> if rs_expired cfg started now then out
         else case splitSummary v of None \<Rightarrow> summary_loop cfg now h rest out
         | Some (st, finished, startedAt) \<Rightarrow> summary_loop cfg now h rest (out @ [summary_state rid h st started startedAt finished]))"

definition SummariesByHook :: "rs_config \<Rightarrow> time \<Rightarrow> string \<Rightarrow> run_db \<Rightarrow> run_state list" where
  "SummariesByHook cfg now h db = (case fmlookup (db_byhook db) h of None \<Rightarrow> []
     | Some hb \<Rightarrow> summary_loop cfg now h (rev (sorted_list_of_fmap hb)) [])"

subsection \<open>The sweeper\<close>

type_synonym victim = "string \<times> string \<times> string"

fun expired_loop :: "rs_config \<Rightarrow> time \<Rightarrow> (string \<times> string) list \<Rightarrow> victim list" where
  "expired_loop cfg now [] = []"
| "expired_loop cfg now ((k, h) # rest) = (case splitKey k of None \<Rightarrow> expired_loop cfg now rest
     | Some (started, rid) \<Rightarrow> if \<not> rs_expired cfg started now then [] else (k, h, rid) # expired_loop cfg now rest)"

fun excess_loop :: "string \<Rightarrow> int \<Rightarrow> string list \<Rightarrow> victim list" where
  "excess_loop h excess [] = []"
| "excess_loop h excess (k # rest) = (if excess \<le> 0 then [] else case splitKey k of None \<Rightarrow> excess_loop h excess rest
     | Some (_, rid) \<Rightarrow> (k, h, rid) # excess_loop h (excess - 1) rest)"

definition cap_victims :: "rs_config \<Rightarrow> string \<times> (string, string) fmap \<Rightarrow> victim list" where
  "cap_victims cfg hb = excess_loop (fst hb) (fmlen (snd hb) - rc_MaxPerHook cfg) (map fst (sorted_list_of_fmap (snd hb)))"

definition drop_victim :: "victim \<Rightarrow> run_db \<Rightarrow> run_db" where
  "drop_victim v db = (case v of (k, h, rid) \<Rightarrow>
     db\<lparr>db_meta := fmdrop rid (db_meta db), db_output := fmdrop rid (db_output db), db_bytime := fmdrop k (db_bytime db),
        db_byhook := (case fmlookup (db_byhook db) h of None \<Rightarrow> db_byhook db | Some hb \<Rightarrow> fmupd h (fmdrop k hb) (db_byhook db))\<rparr>)"

definition victims :: "rs_config \<Rightarrow> time \<Rightarrow> run_db \<Rightarrow> victim list" where
  "victims cfg now db = expired_loop cfg now (sorted_list_of_fmap (db_bytime db)) @
     concat (map (cap_victims cfg) (sorted_list_of_fmap (db_byhook db)))"

definition rs_sweep :: "rs_config \<Rightarrow> string option \<Rightarrow> time \<Rightarrow> run_db \<Rightarrow> (nat \<times> string option) \<times> run_db" where
  "rs_sweep cfg commit now db = (let vs = victims cfg now db in
     case commit of Some err \<Rightarrow> ((length vs, Some err), db) | None \<Rightarrow> ((length vs, None), fold drop_victim vs db))"

subsection \<open>Time keys sort chronologically\<close>

lemma cut_append: "c \<notin> set a \<Longrightarrow> cut c (a @ c # b) = Some (a, b)"
  by (induction a) auto

lemma cut_none: "c \<notin> set a \<Longrightarrow> cut c a = None"
  by (induction a) auto

lemma append_less: "length xs = length ys \<Longrightarrow> xs @ u < ys @ v \<longleftrightarrow> xs < ys \<or> xs = ys \<and> u < v"
  for xs :: "'a::linorder list"
  by (induction rule: list_induct2) auto

lemma digit_char_less: "a < 10 \<Longrightarrow> b < 10 \<Longrightarrow> digit_char a < digit_char b \<longleftrightarrow> a < b"
  by (simp add: digit_char_def less_char_def)

text \<open>The last \<open>k\<close> decimal digits.\<close>

fun digs :: "nat \<Rightarrow> nat \<Rightarrow> string" where
  "digs 0 n = []"
| "digs (Suc k) n = digs k (n div 10) @ [digit_char (n mod 10)]"

lemma length_digs [simp]: "length (digs k n) = k"
  by (induction k arbitrary: n) simp_all

lemma digs_zero: "digs k 0 = replicate k (CHR ''0'')"
proof (induction k)
  case (Suc k)
  have "digit_char 0 = CHR ''0''" by code_simp
  with Suc show ?case by (simp add: replicate_append_same [symmetric])
qed simp

lemma pad_digs: "n < 10 ^ Suc k \<Longrightarrow> replicate (Suc k - length (show_nat n)) (CHR ''0'') @ show_nat n = digs (Suc k) n"
proof (induction k arbitrary: n)
  case 0
  then show ?case by (simp add: show_nat.simps)
next
  case (Suc k)
  show ?case
  proof (cases "n < 10")
    case True
    then show ?thesis by (simp add: show_nat.simps [of n] digs_zero del: replicate.simps)
  next
    case False
    have "n div 10 < 10 ^ Suc k" using Suc.prems by (simp add: less_mult_imp_div_less mult.commute)
    with Suc.IH [OF this] False show ?thesis by (simp add: show_nat.simps [of n])
  qed
qed

lemma digs_less: "m < 10 ^ k \<Longrightarrow> n < 10 ^ k \<Longrightarrow> digs k m < digs k n \<longleftrightarrow> m < n"
  and digs_inj: "m < 10 ^ k \<Longrightarrow> n < 10 ^ k \<Longrightarrow> digs k m = digs k n \<longleftrightarrow> m = n"
proof -
  have "m < 10 ^ k \<Longrightarrow> n < 10 ^ k \<Longrightarrow> (digs k m < digs k n \<longleftrightarrow> m < n) \<and> (digs k m = digs k n \<longleftrightarrow> m = n)" for m n k
  proof (induction k arbitrary: m n)
    case (Suc k)
    have q: "m div 10 < 10 ^ k" "n div 10 < 10 ^ k" using Suc.prems by (simp_all add: less_mult_imp_div_less mult.commute)
    have c: "digit_char (m mod 10) < digit_char (n mod 10) \<longleftrightarrow> m mod 10 < n mod 10" by (simp add: digit_char_less)
    have c': "digit_char (m mod 10) = digit_char (n mod 10) \<longleftrightarrow> m mod 10 = n mod 10"
      by (metis digit_val_char mod_less_divisor option.inject zero_less_numeral)
    have e: "m = 10 * (m div 10) + m mod 10" "n = 10 * (n div 10) + n mod 10" "m mod 10 < 10" "n mod 10 < 10" by simp_all
    have "m < n \<longleftrightarrow> m div 10 < n div 10 \<or> m div 10 = n div 10 \<and> m mod 10 < n mod 10" using e by linarith
    moreover have "m = n \<longleftrightarrow> m div 10 = n div 10 \<and> m mod 10 = n mod 10" using e by metis
    ultimately show ?case using Suc.IH [OF q] c c' by (simp add: append_less)
  qed simp
  then show "m < 10 ^ k \<Longrightarrow> n < 10 ^ k \<Longrightarrow> digs k m < digs k n \<longleftrightarrow> m < n" "m < 10 ^ k \<Longrightarrow> n < 10 ^ k \<Longrightarrow> digs k m = digs k n \<longleftrightarrow> m = n"
    by blast+
qed

lemma parse_digs: "n < 10 ^ k \<Longrightarrow> parse_digits acc (digs k n) = Some (acc * 10 ^ k + n)"
proof (induction k arbitrary: n)
  case (Suc k)
  have "n div 10 < 10 ^ k" using Suc.prems by (simp add: less_mult_imp_div_less mult.commute)
  with Suc.IH [OF this] show ?case by (simp add: parse_digits_append algebra_simps)
qed simp

lemma digs_hd: "0 < k \<Longrightarrow> \<exists>d < 10. hd (digs k n) = digit_char d"
proof (induction k arbitrary: n)
  case (Suc k)
  have "n mod 10 < 10" by simp
  then show ?case using Suc.IH [of "n div 10"] length_digs [of k "n div 10"] by (cases "k = 0") (force simp: hd_append simp del: length_digs)+
qed simp

lemma digs_no_dash: "CHR ''-'' \<notin> set (digs k n)"
proof (induction k arbitrary: n)
  case (Suc k)
  have "n mod 10 < 10" by simp
  from digit_char_not_sign [OF this] Suc show ?case by auto
qed simp

definition good_time :: "time \<Rightarrow> bool" where
  "good_time t \<longleftrightarrow> unix_epoch \<le> t \<and> t < unix_epoch + 2 ^ 63"

lemma UnixNano_good: "good_time t \<Longrightarrow> UnixNano t = t - unix_epoch"
  by (simp add: UnixNano_def good_time_def wrap64_id is_int64_def)

lemma pad19_good: "good_time t \<Longrightarrow> pad19 (UnixNano t) = digs 19 (nat (t - unix_epoch)) \<and> nat (t - unix_epoch) < 10 ^ 19"
proof -
  assume g: "good_time t"
  have e: "Suc 18 = (19::nat)" by simp
  have "nat (t - unix_epoch) < 10 ^ 19" using g by (simp add: good_time_def nat_less_iff)
  from pad_digs [of _ 18, unfolded e, OF this] this g show ?thesis by (simp add: pad19_def UnixNano_good good_time_def)
qed

lemma splitKey_timeKey: "good_time t \<Longrightarrow> splitKey (timeKey t rid) = Some (t, rid)"
proof -
  assume g: "good_time t"
  let ?n = "nat (t - unix_epoch)"
  note p = pad19_good [OF g]
  obtain d where "d < 10" "hd (digs 19 ?n) = digit_char d" using digs_hd [of 19 ?n] by auto
  then have "hd (digs 19 ?n) \<noteq> CHR ''-''" "hd (digs 19 ?n) \<noteq> CHR ''+''" using digit_char_not_sign [of d] by simp_all
  moreover have "digs 19 ?n \<noteq> []" using length_digs [of 19 ?n] by (metis list.size(3) zero_neq_numeral)
  ultimately have "parse_int (digs 19 ?n) = Some (int ?n)"
    using p g parse_digs [of ?n 19 0] by (cases "digs 19 ?n") (auto simp: parse_int_def is_int64_def good_time_def)
  then show ?thesis using p g cut_append [OF digs_no_dash, of 19 ?n rid]
    by (simp add: splitKey_def timeKey_def unix_time_def good_time_def)
qed

lemma timeKey_less: "good_time s \<Longrightarrow> good_time t \<Longrightarrow> timeKey s a < timeKey t b \<longleftrightarrow> (s, a) < (t, b)"
proof -
  assume g: "good_time s" "good_time t"
  note p = pad19_good [OF g(1)] pad19_good [OF g(2)]
  have "digs 19 (nat (s - unix_epoch)) < digs 19 (nat (t - unix_epoch)) \<longleftrightarrow> s < t" "digs 19 (nat (s - unix_epoch)) = digs 19 (nat (t - unix_epoch)) \<longleftrightarrow> s = t"
    using digs_less digs_inj p g by (auto simp: good_time_def)
  then show ?thesis using p by (auto simp: timeKey_def append_less)
qed

lemma timeKey_before: "good_time s \<Longrightarrow> good_time t \<Longrightarrow> timeKey s a < pad19 (UnixNano t) \<longleftrightarrow> s < t"
proof -
  assume g: "good_time s" "good_time t"
  note p = pad19_good [OF g(1)] pad19_good [OF g(2)]
  have "digs 19 (nat (s - unix_epoch)) < digs 19 (nat (t - unix_epoch)) \<longleftrightarrow> s < t"
    using digs_less p g by (auto simp: good_time_def)
  then show ?thesis using p append_less [of "digs 19 (nat (s - unix_epoch))" "digs 19 (nat (t - unix_epoch))" "''-'' @ a" "[]"] by (simp add: timeKey_def)
qed

lemma timeKey_eq: "good_time s \<Longrightarrow> good_time t \<Longrightarrow> timeKey s a = timeKey t b \<longleftrightarrow> s = t \<and> a = b"
  using splitKey_timeKey by (metis option.inject prod.inject)

lemma show_nat_no_space: "CHR '' '' \<notin> set (show_nat n)"
proof -
  have d: "digit_char d \<noteq> CHR '' ''" if "d < 10" for d using that digit_val_char [of d] by (auto simp: digit_val_def)
  show ?thesis by (induction n rule: show_nat.induct) (subst show_nat.simps, auto simp: d d [symmetric])
qed

lemma append_int_no_space: "CHR '' '' \<notin> set (append_int n)"
  using show_nat_no_space by (simp add: append_int_def)

lemma splitSummary_roundtrip:
  assumes "CHR '' '' \<notin> set st" "good_time fin" "sta = 0 \<or> good_time sta \<and> sta \<noteq> unix_epoch"
  shows "splitSummary (summaryValue st fin sta) = Some (st, fin, sta)"
proof -
  have c: "cut (CHR '' '') (summaryValue st fin sta) =
      Some (st, append_int (UnixNano fin) @ '' '' @ append_int (if sta = 0 then 0 else UnixNano sta))"
    using cut_append [OF assms(1)] by (simp add: summaryValue_def)
  have p: "parse_int (append_int (UnixNano t)) = Some (UnixNano t)" for t by (rule parse_append_int) (simp add: UnixNano_def)
  have z: "parse_int (append_int 0) = Some 0" by (rule parse_append_int) (simp add: is_int64_def)
  have u: "unix_time (UnixNano t) = t" if "good_time t" for t using that by (simp add: unix_time_def UnixNano_good)
  have "UnixNano sta \<noteq> 0" if "good_time sta" "sta \<noteq> unix_epoch" using that by (simp add: UnixNano_good)
  then show ?thesis using assms(2,3) u [OF assms(2)] u [of sta] cut_append [OF append_int_no_space, of "UnixNano fin"] p z
    by (auto simp: splitSummary_def c)
qed

subsection \<open>The buckets describe one set of runs\<close>

definition skey :: "run_state \<Rightarrow> string" where
  "skey st = timeKey (rs_Started st) (rs_ID st)"

definition summary :: "run_state \<Rightarrow> string" where
  "summary st = summaryValue (rs_Status st) (rs_Finished st) (rs_StartedAt st)"

text \<open>What the tracker hands over: a finished run, with representable times and a hook id with no blank.\<close>

definition fit :: "run_state \<Rightarrow> bool" where
  "fit st \<longleftrightarrow> Terminal (rs_Status st) \<and> good_time (rs_Started st) \<and> good_time (rs_Finished st) \<and> CHR '' '' \<notin> set (rs_HookID st)"

definition stored :: "codec \<Rightarrow> run_db \<Rightarrow> run_state \<Rightarrow> bool" where
  "stored c db st \<longleftrightarrow> Option.bind (fmlookup (db_meta db) (rs_ID st)) (cd_unmeta c) = Some st"

definition db_ok :: "codec \<Rightarrow> run_db \<Rightarrow> bool" where
  "db_ok c db \<longleftrightarrow>
     (\<forall>rid raw. fmlookup (db_meta db) rid = Some raw \<longrightarrow> (\<exists>st. cd_unmeta c raw = Some st \<and> rs_ID st = rid \<and> fit st \<and>
        fmlookup (db_bytime db) (skey st) = Some (rs_HookID st) \<and> fmlookup (hook_bucket (rs_HookID st) db) (skey st) = Some (summary st))) \<and>
     (\<forall>k h. fmlookup (db_bytime db) k = Some h \<longrightarrow> (\<exists>st. stored c db st \<and> k = skey st)) \<and>
     (\<forall>h k v. fmlookup (hook_bucket h db) k = Some v \<longrightarrow> (\<exists>st. stored c db st \<and> k = skey st \<and> h = rs_HookID st)) \<and>
     (\<forall>rid. fmlookup (db_meta db) rid = None \<longrightarrow> fmlookup (db_output db) rid = None)"

lemma storedD:
  assumes "db_ok c db" "stored c db st"
  shows "fit st" "fmlookup (db_bytime db) (skey st) = Some (rs_HookID st)" "fmlookup (hook_bucket (rs_HookID st) db) (skey st) = Some (summary st)"
proof -
  obtain raw where r: "fmlookup (db_meta db) (rs_ID st) = Some raw" "cd_unmeta c raw = Some st"
    using assms(2) by (auto simp: stored_def bind_eq_Some_conv)
  then have "\<exists>st. cd_unmeta c raw = Some st \<and> rs_ID st = rs_ID st \<and> fit st \<and> fmlookup (db_bytime db) (skey st) = Some (rs_HookID st) \<and>
      fmlookup (hook_bucket (rs_HookID st) db) (skey st) = Some (summary st)" using assms(1) unfolding db_ok_def by blast
  then show "fit st" "fmlookup (db_bytime db) (skey st) = Some (rs_HookID st)" "fmlookup (hook_bucket (rs_HookID st) db) (skey st) = Some (summary st)"
    using r(2) by auto
qed

lemma skey_less: "fit st \<Longrightarrow> fit st' \<Longrightarrow> skey st < skey st' \<longleftrightarrow> (rs_Started st, rs_ID st) < (rs_Started st', rs_ID st')"
  by (simp add: skey_def timeKey_less fit_def)

lemma skey_inj: "fit st \<Longrightarrow> fit st' \<Longrightarrow> skey st = skey st' \<longleftrightarrow> rs_Started st = rs_Started st' \<and> rs_ID st = rs_ID st'"
  by (simp add: skey_def timeKey_eq fit_def)

lemma split_skey: "fit st \<Longrightarrow> splitKey (skey st) = Some (rs_Started st, rs_ID st)"
  by (simp add: skey_def splitKey_timeKey fit_def)

lemma stored_same: assumes "db_ok c db" "stored c db st" "stored c db st'" "skey st = skey st'" shows "st = st'"
proof -
  have "rs_ID st = rs_ID st'" using skey_inj [OF storedD(1) [OF assms(1,2)] storedD(1) [OF assms(1,3)]] assms(4) by simp
  then show ?thesis using assms(2,3) by (simp add: stored_def)
qed

lemma db_timeD: "db_ok c db \<Longrightarrow> fmlookup (db_bytime db) k = Some h \<Longrightarrow> \<exists>st. stored c db st \<and> k = skey st"
  unfolding db_ok_def by blast

lemma db_hookD: "db_ok c db \<Longrightarrow> fmlookup (hook_bucket h db) k = Some v \<Longrightarrow> \<exists>st. stored c db st \<and> k = skey st \<and> h = rs_HookID st"
  unfolding db_ok_def by blast

lemma db_metaD: "db_ok c db \<Longrightarrow> fmlookup (db_meta db) rid = Some raw \<Longrightarrow> \<exists>st. cd_unmeta c raw = Some st \<and> rs_ID st = rid \<and> stored c db st"
  unfolding db_ok_def stored_def by (metis bind.bind_lunit)

lemma db_okI:
  assumes "\<And>rid raw. fmlookup (db_meta db) rid = Some raw \<Longrightarrow> \<exists>st. cd_unmeta c raw = Some st \<and> rs_ID st = rid"
    "\<And>st. stored c db st \<Longrightarrow> fit st \<and> fmlookup (db_bytime db) (skey st) = Some (rs_HookID st) \<and>
        fmlookup (hook_bucket (rs_HookID st) db) (skey st) = Some (summary st)"
    "\<And>k h. fmlookup (db_bytime db) k = Some h \<Longrightarrow> \<exists>st. stored c db st \<and> k = skey st"
    "\<And>h k v. fmlookup (hook_bucket h db) k = Some v \<Longrightarrow> \<exists>st. stored c db st \<and> k = skey st \<and> h = rs_HookID st"
    "\<And>rid. fmlookup (db_meta db) rid = None \<Longrightarrow> fmlookup (db_output db) rid = None"
  shows "db_ok c db"
proof -
  have "\<exists>st. cd_unmeta c raw = Some st \<and> rs_ID st = rid \<and> fit st \<and> fmlookup (db_bytime db) (skey st) = Some (rs_HookID st) \<and>
      fmlookup (hook_bucket (rs_HookID st) db) (skey st) = Some (summary st)" if m: "fmlookup (db_meta db) rid = Some raw" for rid raw
  proof -
    obtain st where st: "cd_unmeta c raw = Some st" "rs_ID st = rid" using assms(1) [OF m] by blast
    then have "stored c db st" using m by (simp add: stored_def)
    from assms(2) [OF this] st show ?thesis by blast
  qed
  then show ?thesis using assms(3-5) unfolding db_ok_def by blast
qed

lemma strip_sels [simp]: "rs_ID (strip_output st) = rs_ID st" "rs_HookID (strip_output st) = rs_HookID st" "rs_Started (strip_output st) = rs_Started st"
  "rs_Status (strip_output st) = rs_Status st" "skey (strip_output st) = skey st" "summary (strip_output st) = summary st" "fit (strip_output st) = fit st"
  by (simp_all add: strip_output_def skey_def summary_def fit_def)

lemma put_run_sels [simp]:
  "db_meta (put_run c st db) = fmupd (rs_ID st) (cd_meta c (strip_output st)) (db_meta db)"
  "db_bytime (put_run c st db) = fmupd (skey st) (rs_HookID st) (db_bytime db)"
  "hook_bucket h (put_run c st db) = (if h = rs_HookID st then fmupd (skey st) (summary st) (hook_bucket h db) else hook_bucket h db)"
  "db_output (put_run c st db) = (if rs_Output st = [] then db_output db
     else fmupd (rs_ID st) (cd_out c (rs_Output st, rs_OutputTimes st)) (db_output db))"
  by (auto simp: put_run_def Let_def skey_def summary_def hook_bucket_def)

lemma put_run_stored:
  assumes "cd_unmeta c (cd_meta c (strip_output st)) = Some (strip_output st)"
  shows "stored c (put_run c st db) st' \<longleftrightarrow> st' = strip_output st \<or> rs_ID st' \<noteq> rs_ID st \<and> stored c db st'"
  using assms by (auto simp: stored_def)

lemma put_run_ok:
  assumes "db_ok c db" "fmlookup (db_meta db) (rs_ID st) = None" "fit st"
    "cd_unmeta c (cd_meta c (strip_output st)) = Some (strip_output st)"
  shows "db_ok c (put_run c st db)"
proof -
  have fresh: "\<not> stored c db st'" if "rs_ID st' = rs_ID st" for st' using assms(2) that by (simp add: stored_def)
  have other: "skey st' \<noteq> skey st" if "stored c db st'" for st'
    using storedD(1) [OF assms(1) that] skey_inj assms(3) fresh that by blast
  have keep: "stored c db st' \<Longrightarrow> stored c (put_run c st db) st'" for st'
    using put_run_stored [OF assms(4)] fresh by blast
  note new = put_run_stored [OF assms(4)]
  show ?thesis
  proof (rule db_okI)
    show "\<exists>st'. cd_unmeta c raw = Some st' \<and> rs_ID st' = rid" if "fmlookup (db_meta (put_run c st db)) rid = Some raw" for rid raw
      using that assms(4) db_metaD [OF assms(1), of rid raw] by (cases "rid = rs_ID st") auto
    show "fit st' \<and> fmlookup (db_bytime (put_run c st db)) (skey st') = Some (rs_HookID st') \<and>
        fmlookup (hook_bucket (rs_HookID st') (put_run c st db)) (skey st') = Some (summary st')" if "stored c (put_run c st db) st'" for st'
    proof -
      from that new consider "st' = strip_output st" | "stored c db st'" by blast
      then show ?thesis
      proof cases
        case 2
        then show ?thesis using storedD [OF assms(1) 2] other [OF 2] by auto
      qed (use assms(3) in simp)
    qed
    show "\<exists>st'. stored c (put_run c st db) st' \<and> k = skey st'" if "fmlookup (db_bytime (put_run c st db)) k = Some h" for k h
    proof (cases "k = skey st")
      case True
      then show ?thesis unfolding new by (intro exI [of _ "strip_output st"]) simp
    next
      case False
      then have "fmlookup (db_bytime db) k = Some h" using that by simp
      from db_timeD [OF assms(1) this] keep show ?thesis by blast
    qed
    show "\<exists>st'. stored c (put_run c st db) st' \<and> k = skey st' \<and> h = rs_HookID st'" if "fmlookup (hook_bucket h (put_run c st db)) k = Some v" for h k v
    proof (cases "h = rs_HookID st \<and> k = skey st")
      case True
      then show ?thesis unfolding new by (intro exI [of _ "strip_output st"]) simp
    next
      case False
      then have "fmlookup (hook_bucket h db) k = Some v" using that by (auto split: if_splits)
      from db_hookD [OF assms(1) this] keep show ?thesis by blast
    qed
    show "fmlookup (db_output (put_run c st db)) rid = None" if "fmlookup (db_meta (put_run c st db)) rid = None" for rid
      using that assms(1) by (auto simp: db_ok_def split: if_splits)
  qed
qed

subsection \<open>What a walk over an index sees\<close>

text \<open>The archive as a list of runs, oldest first.\<close>

definition archive :: "codec \<Rightarrow> run_db \<Rightarrow> run_state list" where
  "archive c db = sort_key (\<lambda>st. (rs_Started st, rs_ID st)) (map (\<lambda>(_, raw). the (cd_unmeta c raw)) (sorted_list_of_fmap (db_meta db)))"

lemma set_archive: "db_ok c db \<Longrightarrow> set (archive c db) = {st. stored c db st}"
proof -
  assume ok: "db_ok c db"
  have "st \<in> set (archive c db) \<longleftrightarrow> (\<exists>rid raw. fmlookup (db_meta db) rid = Some raw \<and> st = the (cd_unmeta c raw))" for st
  proof -
    have "st \<in> set (archive c db) \<longleftrightarrow> (\<exists>x \<in> set (sorted_list_of_fmap (db_meta db)). st = the (cd_unmeta c (snd x)))"
      by (auto simp: archive_def case_prod_beta)
    then show ?thesis by (metis prod.collapse set_sorted_list_of_fmap snd_conv)
  qed
  moreover have "(\<exists>rid raw. fmlookup (db_meta db) rid = Some raw \<and> st = the (cd_unmeta c raw)) \<longleftrightarrow> stored c db st" for st
    using db_metaD [OF ok] by (force simp: stored_def bind_eq_Some_conv)
  ultimately show ?thesis by blast
qed

lemma archive_sorted: "db_ok c db \<Longrightarrow> sorted (map skey (archive c db)) \<and> distinct (map skey (archive c db))"
proof -
  assume ok: "db_ok c db"
  let ?k = "\<lambda>st. (rs_Started st, rs_ID st)"
  have fit: "fit st" if "st \<in> set (archive c db)" for st using that set_archive [OF ok] storedD(1) [OF ok] by blast
  have "sorted (map ?k (archive c db))" by (simp add: archive_def)
  then have "sorted_wrt (\<lambda>a b. ?k a \<le> ?k b) (archive c db)" by (simp add: sorted_map)
  then have "sorted_wrt (\<lambda>a b. skey a \<le> skey b) (archive c db)"
    by (rule sorted_wrt_mono_rel [rotated]) (use fit skey_less in \<open>metis not_le\<close>)
  then have s: "sorted (map skey (archive c db))" by (simp add: sorted_map)
  have ids: "map rs_ID (map (\<lambda>(_, raw). the (cd_unmeta c raw)) (sorted_list_of_fmap (db_meta db))) = map fst (sorted_list_of_fmap (db_meta db))"
    unfolding map_map
  proof (rule map_cong [OF refl])
    fix x assume "x \<in> set (sorted_list_of_fmap (db_meta db))"
    then have "fmlookup (db_meta db) (fst x) = Some (snd x)" by (metis prod.collapse set_sorted_list_of_fmap)
    from db_metaD [OF ok this] show "(rs_ID \<circ> (\<lambda>(_, raw). the (cd_unmeta c raw))) x = fst x" by (auto simp: case_prod_beta)
  qed
  have "distinct (map fst (sorted_list_of_fmap (db_meta db)))" by (simp add: sorted_list_of_fset.rep_eq)
  from this [folded ids] have "distinct (map rs_ID (archive c db))" unfolding archive_def distinct_map set_sort distinct_sort .
  then have "distinct (archive c db)" "inj_on rs_ID (set (archive c db))" by (simp_all add: distinct_map)
  then have "distinct (map skey (archive c db))"
    using fit skey_inj by (auto simp: distinct_map inj_on_def)
  with s show ?thesis by simp
qed

lemma bytime_walk: assumes "db_ok c db" shows "map fst (sorted_list_of_fmap (db_bytime db)) = map skey (archive c db)"
proof (rule sorted_distinct_set_unique)
  show "sorted (map fst (sorted_list_of_fmap (db_bytime db)))" "distinct (map fst (sorted_list_of_fmap (db_bytime db)))"
    by (simp_all add: sorted_list_of_fset.rep_eq)
  show "set (map fst (sorted_list_of_fmap (db_bytime db))) = set (map skey (archive c db))"
  proof (intro set_eqI iffI)
    fix k assume "k \<in> set (map fst (sorted_list_of_fmap (db_bytime db)))"
    then obtain h where "fmlookup (db_bytime db) k = Some h" by (auto simp: sorted_list_of_fset.rep_eq fmlookup_dom_iff)
    from db_timeD [OF assms this] show "k \<in> set (map skey (archive c db))" using set_archive [OF assms] by auto
  next
    fix k assume "k \<in> set (map skey (archive c db))"
    then obtain st where "stored c db st" "k = skey st" using set_archive [OF assms] by auto
    with storedD(2) [OF assms] show "k \<in> set (map fst (sorted_list_of_fmap (db_bytime db)))"
      by (simp add: sorted_list_of_fset.rep_eq fmdomI)
  qed
qed (use archive_sorted [OF assms] in simp_all)

lemma byhook_walk: assumes "db_ok c db"
  shows "map fst (sorted_list_of_fmap (hook_bucket h db)) = map skey (filter (\<lambda>st. rs_HookID st = h) (archive c db))"
proof (rule sorted_distinct_set_unique)
  show "sorted (map fst (sorted_list_of_fmap (hook_bucket h db)))" "distinct (map fst (sorted_list_of_fmap (hook_bucket h db)))"
    by (simp_all add: sorted_list_of_fset.rep_eq)
  show "set (map fst (sorted_list_of_fmap (hook_bucket h db))) = set (map skey (filter (\<lambda>st. rs_HookID st = h) (archive c db)))"
  proof (intro set_eqI iffI)
    fix k assume "k \<in> set (map fst (sorted_list_of_fmap (hook_bucket h db)))"
    then obtain v where "fmlookup (hook_bucket h db) k = Some v" by (auto simp: sorted_list_of_fset.rep_eq fmlookup_dom_iff)
    from db_hookD [OF assms this] show "k \<in> set (map skey (filter (\<lambda>st. rs_HookID st = h) (archive c db)))" using set_archive [OF assms] by auto
  next
    fix k assume "k \<in> set (map skey (filter (\<lambda>st. rs_HookID st = h) (archive c db)))"
    then obtain st where "stored c db st" "k = skey st" "rs_HookID st = h" using set_archive [OF assms] by auto
    with storedD(3) [OF assms] show "k \<in> set (map fst (sorted_list_of_fmap (hook_bucket h db)))"
      by (auto simp add: sorted_list_of_fset.rep_eq fmdomI)
  qed
  show "sorted (map skey (filter (\<lambda>st. rs_HookID st = h) (archive c db)))" "distinct (map skey (filter (\<lambda>st. rs_HookID st = h) (archive c db)))"
    using archive_sorted [OF assms] by (auto simp: sorted_filter distinct_map inj_on_def)
qed

lemma pairs_of_keys: assumes "map fst (sorted_list_of_fmap b) = map skey sts" "\<And>st. st \<in> set sts \<Longrightarrow> fmlookup b (skey st) = Some (g st)"
  shows "sorted_list_of_fmap b = map (\<lambda>st. (skey st, g st)) sts"
proof (rule nth_equalityI)
  show l: "length (sorted_list_of_fmap b) = length (map (\<lambda>st. (skey st, g st)) sts)" using assms(1) by (metis length_map)
  fix i assume i: "i < length (sorted_list_of_fmap b)"
  have k: "fst (sorted_list_of_fmap b ! i) = skey (sts ! i)" using assms(1) i l by (metis length_map nth_map)
  have "sorted_list_of_fmap b ! i \<in> set (sorted_list_of_fmap b)" using i by simp
  then have "fmlookup b (fst (sorted_list_of_fmap b ! i)) = Some (snd (sorted_list_of_fmap b ! i))"
    by (metis prod.collapse set_sorted_list_of_fmap)
  then show "sorted_list_of_fmap b ! i = map (\<lambda>st. (skey st, g st)) sts ! i"
    using k assms(2) [of "sts ! i"] i l by (simp add: prod_eq_iff)
qed

lemma bytime_pairs: "db_ok c db \<Longrightarrow> sorted_list_of_fmap (db_bytime db) = map (\<lambda>st. (skey st, rs_HookID st)) (archive c db)"
  using set_archive storedD(2) by (intro pairs_of_keys bytime_walk) auto

lemma byhook_pairs: "db_ok c db \<Longrightarrow>
    sorted_list_of_fmap (hook_bucket h db) = map (\<lambda>st. (skey st, summary st)) (filter (\<lambda>st. rs_HookID st = h) (archive c db))"
  using set_archive storedD(3) by (intro pairs_of_keys byhook_walk) auto

definition wanted :: "(status \<Rightarrow> bool) option \<Rightarrow> run_state \<Rightarrow> bool" where
  "wanted keep st \<longleftrightarrow> (case keep of None \<Rightarrow> True | Some f \<Rightarrow> f (rs_Status st))"

definition page :: "int \<Rightarrow> 'a list \<Rightarrow> 'a list" where
  "page mx xs = (if mx > 0 then take (nat mx) xs else xs)"

text \<open>An index value that is no summary, or the summary of its run.\<close>

definition fair :: "run_state \<Rightarrow> string \<Rightarrow> bool" where
  "fair st v \<longleftrightarrow> (case splitSummary v of None \<Rightarrow> True | Some (s, _) \<Rightarrow> s = rs_Status st)"

lemma fair_values: "fit st \<Longrightarrow> fair st (rs_HookID st)" "fit st \<Longrightarrow> fair st (summary st)"
proof -
  assume f: "fit st"
  then show "fair st (rs_HookID st)" by (simp add: fair_def splitSummary_def cut_none fit_def)
  have "CHR '' '' \<notin> set (rs_Status st)" using f by (auto simp: fit_def Terminal_def status_defs)
  from cut_append [OF this] show "fair st (summary st)"
    by (auto simp: fair_def summary_def summaryValue_def splitSummary_def split: option.splits)
qed

lemma collect_spec:
  assumes "\<And>st. st \<in> set sts \<Longrightarrow> stored c db st \<and> fit st \<and> fair st (g st)"
  shows "collect_loop c cfg now mx keep (db_meta db) (map (\<lambda>st. (skey st, g st)) sts) out =
    out @ (let xs = filter (wanted keep) (takeWhile (\<lambda>st. \<not> rs_expired cfg (rs_Started st) now) sts)
           in if mx > 0 then take (nat mx - length out) xs else xs)"
  using assms
proof (induction sts arbitrary: out)
  case (Cons st sts)
  have st: "splitKey (skey st) = Some (rs_Started st, rs_ID st)" "Option.bind (fmlookup (db_meta db) (rs_ID st)) (cd_unmeta c) = Some st" "fair st (g st)"
    using Cons.prems [of st] split_skey by (auto simp: stored_def)
  have pre: "(case (keep, splitSummary (g st)) of (Some f, Some (s, _)) \<Rightarrow> \<not> f s | _ \<Rightarrow> False) \<Longrightarrow> \<not> wanted keep st"
    using st(3) by (auto simp: fair_def wanted_def split: option.splits prod.splits)
  have post: "(case keep of Some f \<Rightarrow> \<not> f (rs_Status st) | None \<Rightarrow> False) \<longleftrightarrow> \<not> wanted keep st"
    by (simp add: wanted_def split: option.splits)
  have IH: "collect_loop c cfg now mx keep (db_meta db) (map (\<lambda>st. (skey st, g st)) sts) out =
    out @ (let xs = filter (wanted keep) (takeWhile (\<lambda>st. \<not> rs_expired cfg (rs_Started st) now) sts)
           in if mx > 0 then take (nat mx - length out) xs else xs)" for out
    using Cons.IH Cons.prems by simp
  show ?case
  proof (cases "mx > 0 \<and> mx \<le> int (length out)")
    case True
    then have "nat mx \<le> length out" by (simp add: nat_le_iff)
    with True show ?thesis by (simp add: Let_def)
  next
    case False
    show ?thesis
    proof (cases "rs_expired cfg (rs_Started st) now")
      case True
      then show ?thesis using st False by (auto simp: Let_def)
    next
      case live: False
      show ?thesis
      proof (cases "wanted keep st")
        case True
        have "\<not> (case (keep, splitSummary (g st)) of (Some f, Some (s, _)) \<Rightarrow> \<not> f s | _ \<Rightarrow> False)" using pre True by blast
        then have "collect_loop c cfg now mx keep (db_meta db) (map (\<lambda>st. (skey st, g st)) (st # sts)) out =
            collect_loop c cfg now mx keep (db_meta db) (map (\<lambda>st. (skey st, g st)) sts) (out @ [st])"
          using True live False st post by auto
        moreover have "Suc (nat mx - Suc (length out)) = nat mx - length out" if "mx > 0" using False that by simp
        ultimately show ?thesis using True live IH [of "out @ [st]"] by (auto simp: Let_def take_Cons split: nat.splits)
      next
        case no: False
        then have "collect_loop c cfg now mx keep (db_meta db) (map (\<lambda>st. (skey st, g st)) (st # sts)) out =
            collect_loop c cfg now mx keep (db_meta db) (map (\<lambda>st. (skey st, g st)) sts) out"
          using live False st post by auto
        then show ?thesis using no live IH [of out] by simp
      qed
    qed
  qed
qed simp

lemma takeWhile_filter: "sorted_wrt (\<lambda>a b. P b \<longrightarrow> P a) xs \<Longrightarrow> takeWhile P xs = filter P xs"
  by (induction xs) (auto simp: filter_empty_conv)

lemma archive_times: "sorted (map rs_Started (archive c db))"
proof -
  have "sorted (map (\<lambda>st. (rs_Started st, rs_ID st)) (archive c db))" by (simp add: archive_def)
  then show ?thesis unfolding sorted_map by (rule sorted_wrt_mono_rel [rotated]) auto
qed

lemma seek_walk:
  assumes "sorted_list_of_fmap b = map (\<lambda>st. (skey st, g st)) sts" "\<And>st. st \<in> set sts \<Longrightarrow> fit st" "sorted (map rs_Started sts)" "before = 0 \<or> good_time before"
  shows "seekBefore before b = map (\<lambda>st. (skey st, g st)) (rev (filter (\<lambda>st. before = 0 \<or> rs_Started st < before) sts))"
proof (cases "before = 0")
  case False
  then have g: "good_time before" using assms(4) by simp
  have k: "skey st < pad19 (UnixNano before) \<longleftrightarrow> rs_Started st < before" if "st \<in> set sts" for st
    using assms(2) [OF that] g timeKey_before by (simp add: skey_def fit_def)
  have "takeWhile (\<lambda>(k, _). k < pad19 (UnixNano before)) (sorted_list_of_fmap b) = map (\<lambda>st. (skey st, g st)) (takeWhile (\<lambda>st. rs_Started st < before) sts)"
    unfolding assms(1) takeWhile_map comp_def using k by (auto cong: takeWhile_cong)
  moreover have "takeWhile (\<lambda>st. rs_Started st < before) sts = filter (\<lambda>st. rs_Started st < before) sts"
    using assms(3) unfolding sorted_map by (intro takeWhile_filter) (auto elim!: sorted_wrt_mono_rel [rotated])
  moreover have "length (filter (\<lambda>st. rs_Started st < before) sts) = length sts \<longleftrightarrow> filter (\<lambda>st. rs_Started st < before) sts = sts"
    by (metis filter_id_conv length_filter_less order_less_irrefl)
  ultimately show ?thesis using False by (auto simp: seekBefore_def assms(1) rev_map Let_def)
qed (simp add: seekBefore_def assms(1) rev_map)

lemma collect_exact:
  assumes ok: "db_ok c db" and b: "sorted_list_of_fmap b = map (\<lambda>st. (skey st, g st)) (filter P (archive c db))"
    and g: "\<And>st. fit st \<Longrightarrow> fair st (g st)" and before: "before = 0 \<or> good_time before"
  shows "collectBefore c cfg now b before mx keep db = page mx (filter (\<lambda>st. P st \<and> (before = 0 \<or> rs_Started st < before) \<and>
    \<not> rs_expired cfg (rs_Started st) now \<and> wanted keep st) (rev (archive c db)))"
proof -
  let ?A = "filter P (archive c db)" and ?B = "\<lambda>st. before = 0 \<or> rs_Started st < before" and ?E = "\<lambda>st. \<not> rs_expired cfg (rs_Started st) now"
  have fit: "stored c db st \<and> fit st" if "st \<in> set ?A" for st using that set_archive [OF ok] storedD(1) [OF ok] by auto
  have srt: "sorted (map rs_Started ?A)" using archive_times [of c db] by (simp add: sorted_filter)
  have w: "seekBefore before b = map (\<lambda>st. (skey st, g st)) (rev (filter ?B ?A))" by (rule seek_walk [OF b _ srt before]) (use fit in blast)
  have "sorted_wrt (\<lambda>a b. rs_Started b \<le> rs_Started a) (rev (filter ?B ?A))"
    using sorted_filter [OF srt, of ?B] unfolding sorted_map sorted_wrt_rev .
  then have "takeWhile ?E (rev (filter ?B ?A)) = filter ?E (rev (filter ?B ?A))"
    by (intro takeWhile_filter) (auto simp: rs_expired_def elim!: sorted_wrt_mono_rel [rotated])
  then show ?thesis unfolding collectBefore_def w
    by (subst collect_spec) (use fit g in \<open>auto simp: page_def Let_def rev_filter intro!: arg_cong [where f = "take (nat mx)"] filter_cong\<close>)
qed

subsection \<open>The sweeper\<close>

definition victim_of :: "run_state \<Rightarrow> victim" where
  "victim_of st = (skey st, rs_HookID st, rs_ID st)"

lemma expired_spec: "(\<And>st. st \<in> set sts \<Longrightarrow> fit st) \<Longrightarrow>
    expired_loop cfg now (map (\<lambda>st. (skey st, rs_HookID st)) sts) = map victim_of (takeWhile (\<lambda>st. rs_expired cfg (rs_Started st) now) sts)"
  by (induction sts) (auto simp: split_skey victim_of_def)

lemma excess_spec: "(\<And>st. st \<in> set sts \<Longrightarrow> fit st \<and> rs_HookID st = h) \<Longrightarrow>
    excess_loop h e (map skey sts) = map victim_of (take (nat e) sts)"
proof (induction sts arbitrary: e)
  case (Cons st sts)
  then have "fit st" "rs_HookID st = h" by auto
  moreover have "excess_loop h (e - 1) (map skey sts) = map victim_of (take (nat (e - 1)) sts)" using Cons by simp
  moreover have "nat e = Suc (nat (e - 1))" if "0 < e" using that by simp
  ultimately show ?case by (cases "0 < e") (simp_all add: split_skey victim_of_def)
qed simp

lemma hook_bucket_lookup: "fmlookup (db_byhook db) h = Some b \<Longrightarrow> hook_bucket h db = b"
  by (simp add: hook_bucket_def)

lemma drop_lookups:
  "fmlookup (db_meta (fold drop_victim (map victim_of V) db)) rid = (if rid \<in> rs_ID ` set V then None else fmlookup (db_meta db) rid)"
  "fmlookup (db_output (fold drop_victim (map victim_of V) db)) rid = (if rid \<in> rs_ID ` set V then None else fmlookup (db_output db) rid)"
  "fmlookup (db_bytime (fold drop_victim (map victim_of V) db)) k = (if k \<in> skey ` set V then None else fmlookup (db_bytime db) k)"
  "fmlookup (hook_bucket h (fold drop_victim (map victim_of V) db)) k =
     (if k \<in> skey ` {st \<in> set V. rs_HookID st = h} then None else fmlookup (hook_bucket h db) k)"
proof -
  show "fmlookup (db_meta (fold drop_victim (map victim_of V) db)) rid = (if rid \<in> rs_ID ` set V then None else fmlookup (db_meta db) rid)"
    by (induction V arbitrary: db) (auto simp: drop_victim_def victim_of_def)
  show "fmlookup (db_output (fold drop_victim (map victim_of V) db)) rid = (if rid \<in> rs_ID ` set V then None else fmlookup (db_output db) rid)"
    by (induction V arbitrary: db) (auto simp: drop_victim_def victim_of_def)
  show "fmlookup (db_bytime (fold drop_victim (map victim_of V) db)) k = (if k \<in> skey ` set V then None else fmlookup (db_bytime db) k)"
    by (induction V arbitrary: db) (auto simp: drop_victim_def victim_of_def)
  have one: "fmlookup (hook_bucket h (drop_victim (victim_of st) db)) k = (if rs_HookID st = h \<and> skey st = k then None else fmlookup (hook_bucket h db) k)" for st db
    by (auto simp: drop_victim_def victim_of_def hook_bucket_def split: option.splits)
  show "fmlookup (hook_bucket h (fold drop_victim (map victim_of V) db)) k =
     (if k \<in> skey ` {st \<in> set V. rs_HookID st = h} then None else fmlookup (hook_bucket h db) k)"
    by (induction V arbitrary: db) (auto simp: one)
qed

lemma drop_stored:
  assumes "db_ok c db" "\<And>st. st \<in> set V \<Longrightarrow> stored c db st"
  shows "stored c (fold drop_victim (map victim_of V) db) st \<longleftrightarrow> stored c db st \<and> st \<notin> set V"
proof -
  have "rs_ID st \<in> rs_ID ` set V \<longleftrightarrow> st \<in> set V" if "stored c db st"
  proof
    assume "rs_ID st \<in> rs_ID ` set V"
    then obtain st' where "st' \<in> set V" "rs_ID st' = rs_ID st" by auto
    with assms(2) [of st'] that show "st \<in> set V" by (simp add: stored_def)
  qed simp
  then show ?thesis by (auto simp: stored_def drop_lookups split: if_splits)
qed

lemma drop_ok:
  assumes "db_ok c db" "\<And>st. st \<in> set V \<Longrightarrow> stored c db st"
  shows "db_ok c (fold drop_victim (map victim_of V) db)"
proof (rule db_okI)
  let ?db = "fold drop_victim (map victim_of V) db"
  note st = drop_stored [OF assms]
  have key: "skey st \<in> skey ` S \<longleftrightarrow> st \<in> S" if "stored c db st" "S \<subseteq> set V" for st S
    using stored_same [OF assms(1) that(1) assms(2)] that(2) by blast
  show "\<exists>st. cd_unmeta c raw = Some st \<and> rs_ID st = rid" if "fmlookup (db_meta ?db) rid = Some raw" for rid raw
    using that db_metaD [OF assms(1), of rid raw] by (auto simp: drop_lookups split: if_splits)
  show "fit st \<and> fmlookup (db_bytime ?db) (skey st) = Some (rs_HookID st) \<and> fmlookup (hook_bucket (rs_HookID st) ?db) (skey st) = Some (summary st)"
    if "stored c ?db st" for st
  proof -
    have s: "stored c db st" "st \<notin> set V" using that st by auto
    have "skey st \<notin> skey ` set V" "skey st \<notin> skey ` {st' \<in> set V. rs_HookID st' = rs_HookID st}" using key [OF s(1)] s(2) by auto
    then show ?thesis using storedD [OF assms(1) s(1)] by (simp add: drop_lookups)
  qed
  show "\<exists>st. stored c ?db st \<and> k = skey st" if "fmlookup (db_bytime ?db) k = Some h" for k h
  proof -
    have k: "k \<notin> skey ` set V" "fmlookup (db_bytime db) k = Some h" using that by (auto simp: drop_lookups split: if_splits)
    from db_timeD [OF assms(1) k(2)] obtain s where "stored c db s" "k = skey s" by blast
    with k(1) st show ?thesis by blast
  qed
  show "\<exists>st. stored c ?db st \<and> k = skey st \<and> h = rs_HookID st" if "fmlookup (hook_bucket h ?db) k = Some v" for h k v
  proof -
    have k: "k \<notin> skey ` {st \<in> set V. rs_HookID st = h}" "fmlookup (hook_bucket h db) k = Some v" using that by (auto simp: drop_lookups split: if_splits)
    from db_hookD [OF assms(1) k(2)] obtain s where "stored c db s" "k = skey s" "h = rs_HookID s" by blast
    with k(1) st show ?thesis by blast
  qed
  show "fmlookup (db_output ?db) rid = None" if "fmlookup (db_meta ?db) rid = None" for rid
    using that assms(1) by (auto simp: drop_lookups db_ok_def split: if_splits)
qed

text \<open>A run is over the cap when that many newer runs of its hook are stored.\<close>

definition newer :: "run_state \<Rightarrow> run_state list \<Rightarrow> run_state list" where
  "newer st sts = filter (\<lambda>st'. rs_HookID st' = rs_HookID st \<and> (rs_Started st, rs_ID st) < (rs_Started st', rs_ID st')) sts"

lemma filter_greater: "sorted (map f xs) \<Longrightarrow> distinct (map f xs) \<Longrightarrow> i < length xs \<Longrightarrow> filter (\<lambda>y. f (xs ! i) < f y) xs = drop (Suc i) xs"
  for f :: "'a \<Rightarrow> 'b::linorder"
proof -
  assume a: "sorted (map f xs)" "distinct (map f xs)" "i < length xs"
  have s: "f (xs ! j) < f (xs ! k)" if "j < k" "k < length xs" for j k
  proof -
    have "f (xs ! j) \<le> f (xs ! k)" using a(1) that by (simp add: sorted_iff_nth_mono)
    moreover have "f (xs ! j) \<noteq> f (xs ! k)" using a(2) that nth_eq_iff_index_eq [of "map f xs" j k] by simp
    ultimately show ?thesis by simp
  qed
  have "filter (\<lambda>y. f (xs ! i) < f y) (take i xs) = []"
    using s a(3) by (fastforce simp: filter_empty_conv in_set_conv_nth)
  moreover have "filter (\<lambda>y. f (xs ! i) < f y) (drop (Suc i) xs) = drop (Suc i) xs"
    using s a(3) by (intro filter_True) (auto simp: in_set_conv_nth)
  ultimately show ?thesis by (subst id_take_nth_drop [OF a(3)]) (simp del: drop_Suc)
qed

lemma cap_victims_spec:
  assumes ok: "db_ok c db" and h: "fmlookup (db_byhook db) h = Some b"
  shows "\<exists>V. cap_victims cfg (h, b) = map victim_of V \<and>
    set V = {st. stored c db st \<and> rs_HookID st = h \<and> rc_MaxPerHook cfg \<le> int (length (newer st (archive c db)))}"
proof -
  let ?S = "filter (\<lambda>st. rs_HookID st = h) (archive c db)" and ?k = "\<lambda>st. (rs_Started st, rs_ID st)"
  let ?V = "take (nat (int (length ?S) - rc_MaxPerHook cfg)) ?S"
  have fit: "fit st" if "st \<in> set (archive c db)" for st using that set_archive [OF ok] storedD(1) [OF ok] by blast
  have keys: "map fst (sorted_list_of_fmap b) = map skey ?S" using byhook_walk [OF ok, of h] hook_bucket_lookup [OF h] by simp
  have len: "fmlen b = int (length ?S)"
    using arg_cong [OF keys, of length] by (simp add: fmlen_def sorted_list_of_fset.rep_eq fcard.rep_eq del: length_map flip: length_map [of fst]) simp
  have v: "cap_victims cfg (h, b) = map victim_of ?V"
    unfolding cap_victims_def fst_conv snd_conv keys len by (rule excess_spec) (use fit in auto)
  have srt: "sorted (map skey ?S)" "distinct (map skey ?S)"
    using archive_sorted [OF ok] by (auto simp: sorted_filter distinct_map inj_on_def)
  have nw: "length (newer (?S ! i) (archive c db)) = length ?S - Suc i" if i: "i < length ?S" for i
  proof -
    have si: "?S ! i \<in> set ?S" using i by (rule nth_mem)
    have "newer (?S ! i) (archive c db) = filter (\<lambda>st. skey (?S ! i) < skey st) ?S"
      using si fit skey_less by (auto simp: newer_def intro!: filter_cong)
    then show ?thesis using filter_greater [OF srt i] by simp
  qed
  have "st \<in> set ?V \<longleftrightarrow> stored c db st \<and> rs_HookID st = h \<and> rc_MaxPerHook cfg \<le> int (length (newer st (archive c db)))" for st
  proof
    assume "st \<in> set ?V"
    then obtain i where i: "i < length ?S" "int i < int (length ?S) - rc_MaxPerHook cfg" "st = ?S ! i" by (auto simp: in_set_conv_nth)
    then have "st \<in> set ?S" using nth_mem by metis
    then show "stored c db st \<and> rs_HookID st = h \<and> rc_MaxPerHook cfg \<le> int (length (newer st (archive c db)))"
      using set_archive [OF ok] nw [OF i(1)] i by auto
  next
    assume a: "stored c db st \<and> rs_HookID st = h \<and> rc_MaxPerHook cfg \<le> int (length (newer st (archive c db)))"
    then have "st \<in> set ?S" using set_archive [OF ok] by simp
    then obtain i where i: "i < length ?S" "st = ?S ! i" by (metis in_set_conv_nth)
    with nw [OF i(1)] a have "i < nat (int (length ?S) - rc_MaxPerHook cfg)" by auto
    then show "st \<in> set ?V" using i by (auto simp: in_set_conv_nth)
  qed
  with v show ?thesis by blast
qed

definition swept :: "codec \<Rightarrow> rs_config \<Rightarrow> time \<Rightarrow> run_db \<Rightarrow> run_state \<Rightarrow> bool" where
  "swept c cfg now db st \<longleftrightarrow> rs_expired cfg (rs_Started st) now \<or> rc_MaxPerHook cfg \<le> int (length (newer st (archive c db)))"

lemma victims_spec:
  assumes ok: "db_ok c db"
  shows "\<exists>V. victims cfg now db = map victim_of V \<and> set V = {st. stored c db st \<and> swept c cfg now db st}"
proof -
  let ?E = "takeWhile (\<lambda>st. rs_expired cfg (rs_Started st) now) (archive c db)"
  have fit: "fit st" if "st \<in> set (archive c db)" for st using that set_archive [OF ok] storedD(1) [OF ok] by blast
  have "?E = filter (\<lambda>st. rs_expired cfg (rs_Started st) now) (archive c db)"
    using archive_times [of c db] unfolding sorted_map
    by (intro takeWhile_filter) (auto simp: rs_expired_def elim!: sorted_wrt_mono_rel [rotated])
  then have E: "set ?E = {st. stored c db st \<and> rs_expired cfg (rs_Started st) now}" using set_archive [OF ok] by simp
  have e: "expired_loop cfg now (sorted_list_of_fmap (db_bytime db)) = map victim_of ?E"
    unfolding bytime_pairs [OF ok] by (rule expired_spec) (rule fit)
  have "\<exists>V. concat (map (cap_victims cfg) hs) = map victim_of V \<and>
      set V = {st. stored c db st \<and> rs_HookID st \<in> fst ` set hs \<and> rc_MaxPerHook cfg \<le> int (length (newer st (archive c db)))}"
    if "set hs \<subseteq> set (sorted_list_of_fmap (db_byhook db))" for hs
    using that
  proof (induction hs)
    case (Cons x hs)
    then obtain V where V: "concat (map (cap_victims cfg) hs) = map victim_of V"
      "set V = {st. stored c db st \<and> rs_HookID st \<in> fst ` set hs \<and> rc_MaxPerHook cfg \<le> int (length (newer st (archive c db)))}" by auto
    obtain h b where x: "x = (h, b)" by (cases x)
    then have "fmlookup (db_byhook db) h = Some b" using Cons.prems by simp
    from cap_victims_spec [OF ok this, of cfg] obtain W where W: "cap_victims cfg x = map victim_of W"
      "set W = {st. stored c db st \<and> rs_HookID st = h \<and> rc_MaxPerHook cfg \<le> int (length (newer st (archive c db)))}" unfolding x by auto
    show ?case using V W by (intro exI [of _ "W @ V"]) (auto simp: x)
  qed simp
  from this [OF order_refl] obtain V where V: "concat (map (cap_victims cfg) (sorted_list_of_fmap (db_byhook db))) = map victim_of V"
    "set V = {st. stored c db st \<and> rs_HookID st \<in> fst ` set (sorted_list_of_fmap (db_byhook db)) \<and> rc_MaxPerHook cfg \<le> int (length (newer st (archive c db)))}" by auto
  have "rs_HookID st \<in> fst ` set (sorted_list_of_fmap (db_byhook db))" if sd: "stored c db st" for st
  proof -
    obtain b where "fmlookup (db_byhook db) (rs_HookID st) = Some b"
      using storedD(3) [OF ok sd] by (auto simp: hook_bucket_def split: option.splits)
    then have "(rs_HookID st, b) \<in> set (sorted_list_of_fmap (db_byhook db))" by simp
    then show ?thesis by (metis fst_conv image_eqI)
  qed
  then have "set (?E @ V) = {st. stored c db st \<and> swept c cfg now db st}" using E V(2) by (auto simp: swept_def)
  moreover have "victims cfg now db = map victim_of (?E @ V)" unfolding victims_def e V(1) by simp
  ultimately show ?thesis by (intro exI conjI)
qed

subsection \<open>Histories\<close>

text \<open>A run is recorded once; transactions may fail.\<close>

inductive db_step :: "codec \<Rightarrow> run_db \<Rightarrow> run_db \<Rightarrow> bool" for c where
  recorded: "fmlookup (db_meta db) (rs_ID st) = None \<Longrightarrow> Terminal (rs_Status st) \<longrightarrow> fit st \<Longrightarrow>
    cd_unmeta c (cd_meta c (strip_output st)) = Some (strip_output st) \<Longrightarrow> db_step c db (snd (rs_Record c err st db))"
| swept: "db_step c db (snd (rs_sweep cfg err now db))"

lemma sweep_ok:
  assumes "db_ok c db"
  shows "db_ok c (snd (rs_sweep cfg None now db)) \<and> (\<forall>st. stored c (snd (rs_sweep cfg None now db)) st \<longleftrightarrow> stored c db st \<and> \<not> swept c cfg now db st)"
proof -
  obtain V where V: "victims cfg now db = map victim_of V" "set V = {st. stored c db st \<and> swept c cfg now db st}"
    using victims_spec [OF assms] by blast
  then have s: "\<And>st. st \<in> set V \<Longrightarrow> stored c db st" by simp
  show ?thesis using drop_ok [OF assms s] drop_stored [OF assms s] V by (auto simp: rs_sweep_def Let_def)
qed

interpretation dbi: invariant_system "\<lambda>db. db = db_empty" "db_step c" "db_ok c" for c
proof
  show "db = db_empty \<Longrightarrow> db_ok c db" for db by (simp add: db_ok_def db_empty_def hook_bucket_def)
  show "db_step c db db' \<Longrightarrow> db_ok c db \<Longrightarrow> db_ok c db'" for db db'
  proof (induction rule: db_step.induct)
    case (recorded db st err)
    then show ?case by (auto simp: rs_Record_def split: option.splits intro: put_run_ok)
  next
    case (swept db cfg err now)
    then show ?case using sweep_ok by (cases err) (auto simp: rs_sweep_def Let_def)
  qed
qed

text \<open>
  C31: The archive gives back what was recorded.  In every reachable state of the store, a finished run with a
  fresh id that is recorded is returned by \<open>Get\<close> as it was, output included, as long as it is within
  retention, and what \<open>Get\<close> answers for every other id does not change; a record whose transaction fails
  changes nothing.
\<close>

theorem archived_run_returned:
  assumes "(db_step c)\<^sup>*\<^sup>* db_empty db" "fmlookup (db_meta db) (rs_ID st) = None" "Terminal (rs_Status st)"
    "cd_unmeta c (cd_meta c (strip_output st)) = Some (strip_output st)" "cd_unout c (cd_out c (rs_Output st, rs_OutputTimes st)) = Some (rs_Output st, rs_OutputTimes st)"
    "rs_Output st = [] \<Longrightarrow> rs_OutputTimes st = []" "\<not> rs_expired cfg (rs_Started st) now"
  shows "rs_Get c cfg now (rs_ID st) (snd (rs_Record c None st db)) = Some st \<and>
    (\<forall>rid. rid \<noteq> rs_ID st \<longrightarrow> rs_Get c cfg now rid (snd (rs_Record c None st db)) = rs_Get c cfg now rid db) \<and>
    snd (rs_Record c (Some err) st db) = db"
proof -
  have "fmlookup (db_output db) (rs_ID st) = None" using dbi.inv_reachable [OF refl assms(1)] assms(2) by (simp add: db_ok_def)
  moreover have "strip_output st = st" if "rs_Output st = []" using assms(6) [OF that] that by (simp add: strip_output_def)
  moreover have "(strip_output st)\<lparr>rs_Output := rs_Output st, rs_OutputTimes := rs_OutputTimes st\<rparr> = st" by (simp add: strip_output_def)
  ultimately have new: "rs_Get c cfg now (rs_ID st) (put_run c st db) = Some st" using assms(4,5,7) by (auto simp: rs_Get_def)
  have "rs_Get c cfg now rid (put_run c st db) = rs_Get c cfg now rid db" if "rid \<noteq> rs_ID st" for rid
  proof -
    have "fmlookup (db_meta (put_run c st db)) rid = fmlookup (db_meta db) rid" "fmlookup (db_output (put_run c st db)) rid = fmlookup (db_output db) rid"
      using that by simp_all
    then show ?thesis by (simp only: rs_Get_def)
  qed
  with new show ?thesis using assms(3) by (simp add: rs_Record_def)
qed

definition listed :: "codec \<Rightarrow> rs_config \<Rightarrow> time \<Rightarrow> time \<Rightarrow> int \<Rightarrow> (status \<Rightarrow> bool) option \<Rightarrow> (run_state \<Rightarrow> bool) \<Rightarrow> run_db \<Rightarrow> run_state list" where
  "listed c cfg now before mx keep P db = page mx (filter (\<lambda>st. P st \<and> (before = 0 \<or> rs_Started st < before) \<and>
     \<not> rs_expired cfg (rs_Started st) now \<and> wanted keep st) (rev (archive c db)))"

lemma walks_listed:
  assumes ok: "db_ok c db" and before: "before = 0 \<or> good_time before"
  shows "ListAllBeforeFiltered c cfg now before mx keep db = listed c cfg now before mx keep (\<lambda>st. True) db \<and>
    ListByHookBeforeFiltered c cfg now h before mx keep db = listed c cfg now before mx keep (\<lambda>st. rs_HookID st = h) db"
proof -
  have "ListByHookBeforeFiltered c cfg now h before mx keep db = collectBefore c cfg now (hook_bucket h db) before mx keep db"
    by (simp add: ListByHookBeforeFiltered_def hook_bucket_def collectBefore_def seekBefore_def split: option.splits)
  then show ?thesis unfolding listed_def ListAllBeforeFiltered_def
    using collect_exact [where P = "\<lambda>_. True" and g = rs_HookID, OF ok _ fair_values(1) before] bytime_pairs [OF ok]
      collect_exact [OF ok byhook_pairs [OF ok] fair_values(2) before] by simp
qed

text \<open>
  C32: The run lists page through the archive.  In every reachable state, the walks over the two time indexes
  return exactly what filtering the list of all archived runs gives: the runs (of the hook) that started
  before the given instant, are within retention and have an accepted status, newest first, cut off after
  \<open>max\<close> accepted ones; the order of the zero-padded keys is the order of time.
\<close>

theorem run_lists_exact:
  assumes "(db_step c)\<^sup>*\<^sup>* db_empty db" "before = 0 \<or> good_time before"
  shows "ListAllBeforeFiltered c cfg now before mx keep db = listed c cfg now before mx keep (\<lambda>st. True) db \<and>
    ListByHookBeforeFiltered c cfg now h before mx keep db = listed c cfg now before mx keep (\<lambda>st. rs_HookID st = h) db"
  by (rule walks_listed [OF dbi.inv_reachable [OF refl assms(1)] assms(2)])

text \<open>
  C33: A sweep removes exactly what it should.  In every reachable state, after a sweep that commits an archived
  run is still there exactly if it is within retention and fewer than \<open>MaxPerHook\<close> newer runs of its hook
  are archived; all four buckets agree on that, and a sweep that does not commit changes nothing.
\<close>

theorem sweep_exact:
  assumes "(db_step c)\<^sup>*\<^sup>* db_empty db"
  shows "(\<forall>st. stored c (snd (rs_sweep cfg None now db)) st \<longleftrightarrow>
      stored c db st \<and> \<not> rs_expired cfg (rs_Started st) now \<and> int (length (newer st (archive c db))) < rc_MaxPerHook cfg) \<and>
    db_ok c (snd (rs_sweep cfg None now db)) \<and> snd (rs_sweep cfg (Some err) now db) = db"
  using sweep_ok [OF dbi.inv_reachable [OF refl assms]] by (auto simp: swept_def rs_sweep_def Let_def not_le)

subsection \<open>An archive to look at\<close>

text \<open>A codec that writes every record as its number in a fixed list.\<close>

definition run_ex :: "string \<Rightarrow> time \<Rightarrow> run_state" where
  "run_ex rid t = summary_state rid ''deploy'' StatusSuccess (unix_epoch + t) (unix_epoch + t) (unix_epoch + t + 1)"

definition codec_ex :: codec where
  "codec_ex = \<lparr>cd_meta = (\<lambda>st. rs_ID st), cd_unmeta = (\<lambda>raw. if raw = ''a'' then Some (run_ex ''a'' 5) else if raw = ''b'' then Some (run_ex ''b'' 7) else None),
     cd_out = (\<lambda>_. []), cd_unout = (\<lambda>_. Some ([], []))\<rparr>"

definition config_ex :: rs_config where
  "config_ex = \<lparr>rc_Path = ''runs.db'', rc_Retention = 100, rc_MaxPerHook = 1, rc_SweepInterval = 60\<rparr>"

definition db_ex :: run_db where
  "db_ex = snd (rs_Record codec_ex None (run_ex ''b'' 7) (snd (rs_Record codec_ex None (run_ex ''a'' 5) db_empty)))"

lemma run_ex_facts: "strip_output (run_ex rid t) = run_ex rid t" "rs_ID (run_ex rid t) = rid" "rs_Output (run_ex rid t) = []"
  "rs_OutputTimes (run_ex rid t) = []" "Terminal (rs_Status (run_ex rid t))" "0 \<le> t \<Longrightarrow> t < 1000 \<Longrightarrow> fit (run_ex rid t)"
  "rs_Started (run_ex rid t) = unix_epoch + t"
  by (simp_all add: run_ex_def summary_state_def strip_output_def fit_def good_time_def Terminal_def)

lemma db_ex_reach: "(db_step codec_ex)\<^sup>*\<^sup>* db_empty (snd (rs_Record codec_ex None (run_ex ''a'' 5) db_empty))" "(db_step codec_ex)\<^sup>*\<^sup>* db_empty db_ex"
proof -
  have 1: "db_step codec_ex db_empty (snd (rs_Record codec_ex None (run_ex ''a'' 5) db_empty))"
    by (rule db_step.recorded) (simp_all add: run_ex_facts db_empty_def codec_ex_def)
  have 2: "db_step codec_ex (snd (rs_Record codec_ex None (run_ex ''a'' 5) db_empty)) db_ex"
    unfolding db_ex_def by (rule db_step.recorded) (simp_all add: run_ex_facts db_empty_def codec_ex_def rs_Record_def)
  from 1 show r: "(db_step codec_ex)\<^sup>*\<^sup>* db_empty (snd (rs_Record codec_ex None (run_ex ''a'' 5) db_empty))" by (rule r_into_rtranclp)
  from r 2 show "(db_step codec_ex)\<^sup>*\<^sup>* db_empty db_ex" by (rule rtranclp.rtrancl_into_rtrancl)
qed

theorem archived_run_returned_witness: "rs_Get codec_ex config_ex (unix_epoch + 20) ''b'' db_ex = Some (run_ex ''b'' 7)"
proof -
  have "fmlookup (db_meta (snd (rs_Record codec_ex None (run_ex ''a'' 5) db_empty))) ''b'' = None"
    by (simp add: rs_Record_def run_ex_facts db_empty_def)
  from archived_run_returned [OF db_ex_reach(1), of "run_ex ''b'' 7" config_ex "unix_epoch + 20"] this show ?thesis
    by (simp add: run_ex_facts codec_ex_def config_ex_def rs_expired_def db_ex_def [unfolded codec_ex_def, symmetric])
qed

theorem run_lists_exact_witness:
  "map rs_ID (ListAllBeforeFiltered codec_ex config_ex (unix_epoch + 20) 0 0 None db_ex) = map rs_ID (rev (archive codec_ex db_ex))"
proof -
  have "\<not> rs_expired config_ex (rs_Started st) (unix_epoch + 20)" if "st \<in> set (archive codec_ex db_ex)" for st
  proof -
    have "rs_Started st \<ge> unix_epoch" using that set_archive [OF dbi.inv_reachable [OF refl db_ex_reach(2)]] storedD(1) [OF dbi.inv_reachable [OF refl db_ex_reach(2)]]
      by (auto simp: fit_def good_time_def)
    then show ?thesis by (simp add: rs_expired_def config_ex_def)
  qed
  then have "filter (\<lambda>st. \<not> rs_expired config_ex (rs_Started st) (unix_epoch + 20)) (rev (archive codec_ex db_ex)) = rev (archive codec_ex db_ex)"
    by (intro filter_True) auto
  then show ?thesis using run_lists_exact [OF db_ex_reach(2), of 0 config_ex "unix_epoch + 20" 0 None] by (simp add: listed_def page_def wanted_def)
qed

theorem sweep_exact_witness: "db_ok codec_ex (snd (rs_sweep config_ex None (unix_epoch + 20) db_ex))"
  using sweep_exact [OF db_ex_reach(2), of config_ex "unix_epoch + 20"] by blast

end
