(* ===== verification/RunList.thy ===== *)
theory RunList
  imports RunStore Trigger "HOL-Library.Multiset"
begin

text \<open>
  Model of \<^verbatim>\<open>internal/server/runlist.go\<close> (the reads of \<open>/runs\<close>: one run, the live set, and the list that merges
  the tracker with the archive) and \<^verbatim>\<open>internal/server/restartready.go\<close> (the pre-update check).  A request
  lists the tracker once and then takes a snapshot of one run after the other while they go on: \<open>t\<close> is
  the tracker at the listing, \<open>seen p\<close> the run behind pointer \<open>p\<close> when its snapshot is taken.  The archive
  is read in one transaction.  The lemmas show that the merged list hides nothing it should show.
\<close>

definition WaitingOnLock :: string where "WaitingOnLock = ''lock''"
definition GroupWaiterKeyPrefix :: string where "GroupWaiterKeyPrefix = ''group:''"

definition groupWaiterKey :: "string \<Rightarrow> string" where
  "groupWaiterKey g = GroupWaiterKeyPrefix @ g"

type_synonym run_archive = "codec \<times> rs_config \<times> run_db"

datatype list_resp = LErr int string | LRun run_state | LRuns "run_state list"

subsection \<open>Waiters\<close>

text \<open>What one snapshot contributes to the inverted graph of waits: pairs of a holder and its waiter.\<close>

definition waits_of :: "run_state \<Rightarrow> (string \<times> run_waiter) list" where
  "waits_of snap = (case rs_WaitingOn snap of None \<Rightarrow> []
     | Some w \<Rightarrow>
         if w_Kind w = WaitingOnLock then [(w_HolderRunID w, \<lparr>wt_RunID = rs_ID snap, wt_HookID = rs_HookID snap, wt_Key = w_Key w\<rparr>)]
         else if w_Kind w = WaitingOnGroup
         then map (\<lambda>h. (h, \<lparr>wt_RunID = rs_ID snap, wt_HookID = rs_HookID snap, wt_Key = groupWaiterKey (w_Key w)\<rparr>)) (w_HolderRunIDs w)
         else [])"

definition waiters_at :: "(string, run_waiter list) fmap \<Rightarrow> string \<Rightarrow> run_waiter list" where
  "waiters_at m h = (case fmlookup m h of None \<Rightarrow> [] | Some ws \<Rightarrow> ws)"

definition add_waiter_of :: "string \<times> run_waiter \<Rightarrow> (string, run_waiter list) fmap \<Rightarrow> (string, run_waiter list) fmap" where
  "add_waiter_of e m = (if fst e = [] then m else fmupd (fst e) (waiters_at m (fst e) @ [snd e]) m)"

definition waiter_graph :: "tracker \<Rightarrow> (nat \<Rightarrow> run) \<Rightarrow> (string, run_waiter list) fmap" where
  "waiter_graph t seen = fold add_waiter_of (concat (map (\<lambda>p. waits_of (run_Snapshot 0 (seen p))) (tk_ListAll 0 t))) fmempty"

definition attachWaiters :: "tracker \<Rightarrow> (nat \<Rightarrow> run) \<Rightarrow> run_state list \<Rightarrow> run_state list" where
  "attachWaiters t seen states =
     (if states = [] then states
      else let byHolder = waiter_graph t seen in
        if fmdom byHolder = {||} then states
        else map (\<lambda>st. st\<lparr>rs_Waiters := sort_key wt_RunID (waiters_at byHolder (rs_ID st))\<rparr>) states)"

subsection \<open>One run\<close>

definition tailOutput :: "int \<Rightarrow> run_state \<Rightarrow> run_state" where
  "tailOutput tail st =
     (if tail < 0 \<or> tail \<ge> int (length (rs_Output st)) then st
      else let st' = st\<lparr>rs_Output := drop (length (rs_Output st) - nat tail) (rs_Output st)\<rparr> in
        if tail < int (length (rs_OutputTimes st))
        then st'\<lparr>rs_OutputTimes := drop (length (rs_OutputTimes st) - nat tail) (rs_OutputTimes st)\<rparr> else st')"

definition handleGetRun :: "run_archive option \<Rightarrow> time \<Rightarrow> tracker \<Rightarrow> (nat \<Rightarrow> run) \<Rightarrow> string \<Rightarrow> string \<Rightarrow> list_resp" where
  "handleGetRun ar now t seen tailRaw rid =
     (let tail = (if tailRaw = [] then -1 else case parse_int tailRaw of None \<Rightarrow> -1 | Some n \<Rightarrow> n) in
      case tk_Get rid t of Some p \<Rightarrow> LRun (hd (attachWaiters t seen [run_Snapshot tail (seen p)]))
      | None \<Rightarrow> (case ar of None \<Rightarrow> LErr 404 ''no such run''
          | Some (c, cfg, db) \<Rightarrow> (case rs_Get c cfg now rid db of None \<Rightarrow> LErr 404 ''no such run''
              | Some snap \<Rightarrow> LRun (tailOutput tail snap))))"

subsection \<open>The lists\<close>

fun exclude_loop :: "string list \<Rightarrow> status list \<Rightarrow> status + status list" where
  "exclude_loop [] out = Inr out"
| "exclude_loop (part # parts) out = (let st = trim_space part in
     if st = [] then exclude_loop parts out
     else if \<not> KnownStatus st then Inl st
     else exclude_loop parts (List.insert st out))"

definition excludedStatuses :: "(string \<Rightarrow> string) \<Rightarrow> string \<Rightarrow> string + status list" where
  "excludedStatuses quote raw = (if trim_space raw = [] then Inr []
     else case exclude_loop (split_on (CHR '','') raw) [] of
       Inl st \<Rightarrow> Inl (''invalid exclude='' @ quote raw @ '': '' @ quote st @ '' is not a run status'')
     | Inr out \<Rightarrow> Inr out)"

definition keeper :: "status list \<Rightarrow> (status \<Rightarrow> bool) option" where
  "keeper exclude = (if exclude = [] then None else Some (\<lambda>st. st \<notin> set exclude))"

definition live_list :: "string \<Rightarrow> tracker \<Rightarrow> nat list" where
  "live_list hookID t = (if hookID \<noteq> [] then tk_ListByHook hookID 0 t else tk_ListAll 0 t)"

fun live_loop :: "(nat \<Rightarrow> run) \<Rightarrow> status list \<Rightarrow> nat list \<Rightarrow> run_state list \<Rightarrow> run_state list" where
  "live_loop seen exclude [] out = out"
| "live_loop seen exclude (p # ps) out = (let snap = run_Snapshot 0 (seen p) in
     if Terminal (rs_Status snap) \<or> rs_Status snap \<in> set exclude then live_loop seen exclude ps out
     else live_loop seen exclude ps (out @ [strip_output snap]))"

definition liveRuns :: "tracker \<Rightarrow> (nat \<Rightarrow> run) \<Rightarrow> string \<Rightarrow> status list \<Rightarrow> run_state list" where
  "liveRuns t seen hookID exclude = attachWaiters t seen (live_loop seen exclude (live_list hookID t) [])"

text \<open>The loop over the live runs: the active partition, the capped one and the ids.\<close>

fun merge_loop :: "(nat \<Rightarrow> run) \<Rightarrow> time \<Rightarrow> status list \<Rightarrow> nat list \<Rightarrow> run_state list \<times> run_state list \<times> string list \<Rightarrow>
    run_state list \<times> run_state list \<times> string list" where
  "merge_loop seen before exclude [] acc = acc"
| "merge_loop seen before exclude (p # ps) (active, rest, ids) = (let snap = run_Snapshot 0 (seen p) in
     if before \<noteq> 0 \<and> \<not> rs_Started snap < before then merge_loop seen before exclude ps (active, rest, ids)
     else if rs_Status snap \<in> set exclude then merge_loop seen before exclude ps (active, rest, ids)
     else if before = 0 \<and> \<not> Terminal (rs_Status snap)
     then merge_loop seen before exclude ps (active @ [strip_output snap], rest, rs_ID snap # ids)
     else merge_loop seen before exclude ps (active, rest @ [strip_output snap], rs_ID snap # ids))"

definition persisted_runs :: "run_archive option \<Rightarrow> time \<Rightarrow> string \<Rightarrow> time \<Rightarrow> int \<Rightarrow> status list \<Rightarrow> run_state list" where
  "persisted_runs ar now hookID before mx exclude = (case ar of None \<Rightarrow> []
     | Some (c, cfg, db) \<Rightarrow> if hookID \<noteq> [] then ListByHookBeforeFiltered c cfg now hookID before mx (keeper exclude) db
         else ListAllBeforeFiltered c cfg now before mx (keeper exclude) db)"

definition newest_rows :: "run_state list \<Rightarrow> run_state list" where
  "newest_rows = sort_key (\<lambda>st. - rs_Started st)"

definition mergedRuns :: "run_archive option \<Rightarrow> time \<Rightarrow> tracker \<Rightarrow> (nat \<Rightarrow> run) \<Rightarrow> string \<Rightarrow> time \<Rightarrow> int \<Rightarrow> status list \<Rightarrow> run_state list" where
  "mergedRuns ar now t seen hookID before mx exclude =
     (let (active, rest, ids) = merge_loop seen before exclude (live_list hookID t) ([], [], []);
          rest = rest @ filter (\<lambda>st. rs_ID st \<notin> set ids) (persisted_runs ar now hookID before mx exclude);
          rest = newest_rows rest;
          rest = (if mx > 0 \<and> int (length rest) > mx then take (nat mx) rest else rest)
      in attachWaiters t seen (newest_rows (active @ rest)))"

record list_query =
  lq_hook :: string
  lq_exclude :: string
  lq_live :: string
  lq_max :: string
  lq_before :: string

text \<open>\<open>quote\<close> is \<open>%q\<close> and \<open>rfc3339\<close> is \<open>time.Parse\<close> with that layout.\<close>

definition handleListRuns :: "(string \<Rightarrow> string) \<Rightarrow> (string \<Rightarrow> time option) \<Rightarrow> run_archive option \<Rightarrow> time \<Rightarrow> tracker \<Rightarrow> (nat \<Rightarrow> run) \<Rightarrow>
    list_query \<Rightarrow> list_resp" where
  "handleListRuns quote rfc3339 ar now t seen q = (case excludedStatuses quote (lq_exclude q) of Inl err \<Rightarrow> LErr 400 err
     | Inr exclude \<Rightarrow>
         if lq_live q \<noteq> [] \<and> ParseBool (lq_live q) = Some True then LRuns (liveRuns t seen (lq_hook q) exclude)
         else let mx = (if lq_max q = [] then 100 else case parse_int (lq_max q) of None \<Rightarrow> 100 | Some n \<Rightarrow> if n > 0 then n else 100) in
           case (if lq_before q = [] then Some 0 else rfc3339 (lq_before q)) of
             None \<Rightarrow> LErr 400 (''invalid before='' @ quote (lq_before q) @ '': want an RFC3339 timestamp'')
           | Some before \<Rightarrow> LRuns (mergedRuns ar now t seen (lq_hook q) before mx exclude))"

subsection \<open>The pre-update check\<close>

definition DefaultRestartMaxDefer :: duration where "DefaultRestartMaxDefer = 6 * Hour"
definition restartReadyRunIDCap :: nat where "restartReadyRunIDCap = 20"

record restart_gate =
  rg_blockedAt :: time
  rg_forced :: bool

definition gate_zero :: restart_gate where
  "gate_zero = \<lparr>rg_blockedAt = 0, rg_forced = False\<rparr>"

definition rg_observe :: "bool \<Rightarrow> duration \<Rightarrow> time \<Rightarrow> restart_gate \<Rightarrow> (bool \<times> time) \<times> restart_gate" where
  "rg_observe blocked maxDefer now g =
     (if \<not> blocked then ((False, 0), gate_zero)
      else let g = (if rg_blockedAt g = 0 then g\<lparr>rg_blockedAt := now\<rparr> else g) in
        if maxDefer \<le> 0 then ((False, rg_blockedAt g), g) else ((now - rg_blockedAt g \<ge> maxDefer, rg_blockedAt g), g))"

definition firstForce :: "restart_gate \<Rightarrow> bool \<times> restart_gate" where
  "firstForce g = (if rg_forced g then (False, g) else (True, g\<lparr>rg_forced := True\<rparr>))"

record restartReadyResponse =
  rr_Ready :: bool
  rr_ActiveRuns :: int
  rr_RunIDs :: "string list"
  rr_BlockedFor :: string
  rr_Forced :: bool
  rr_MaxDefer :: string
  rr_Explanation :: string

text \<open>\<open>d.Truncate(time.Second)\<close>.\<close>

definition truncate_second :: "duration \<Rightarrow> duration" where
  "truncate_second d = (if d < 0 then - ((- d) div Second * Second) else d div Second * Second)"

text \<open>\<open>dur\<close> is \<open>Duration.String\<close>.\<close>

definition why_idle :: string where
  "why_idle = ''no runs in flight '' @ em_dash @ '' safe to replace the container''"

definition why_forced :: string where
  "why_forced = ''max defer elapsed '' @ em_dash @ '' allowing the update despite runs in flight''"

definition why_busy :: string where
  "why_busy = ''runs in flight '' @ em_dash @ '' replacing the container now would lose them and reap their containers''"

definition force_message :: "(duration \<Rightarrow> string) \<Rightarrow> duration \<Rightarrow> string \<Rightarrow> nat \<Rightarrow> string" where
  "force_message dur maxDefer blockedFor n = ''restart-ready: '' @ blockedFor @ '' of continuous in-flight work has exceeded the '' @
     dur maxDefer @ '' max defer '' @ em_dash @ '' answering READY with '' @ append_int (int n) @
     '' run(s) still active; they will be lost and their containers reaped at the next boot''"

text \<open>The answer before the run ids are filled in, the gate and the events recorded.\<close>

definition restart_answer :: "(duration \<Rightarrow> string) \<Rightarrow> duration \<Rightarrow> time \<Rightarrow> string list \<Rightarrow> restart_gate \<Rightarrow>
    restartReadyResponse \<times> restart_gate \<times> (string \<times> string) list" where
  "restart_answer dur maxDefer now active g =
     (let ((force, since), g) = rg_observe (active \<noteq> []) maxDefer now g; blockedFor = dur (truncate_second (now - since));
          resp = \<lparr>rr_Ready = False, rr_ActiveRuns = int (length active), rr_RunIDs = [], rr_BlockedFor = [], rr_Forced = False,
                  rr_MaxDefer = (if maxDefer > 0 then dur maxDefer else []), rr_Explanation = []\<rparr>
      in if active = [] then (resp\<lparr>rr_Ready := True, rr_Explanation := why_idle\<rparr>, g, [])
         else if force then
           let resp = resp\<lparr>rr_Ready := True, rr_Forced := True, rr_BlockedFor := blockedFor, rr_Explanation := why_forced\<rparr>;
               (first, g) = firstForce g
           in (resp, g, if first then [(''restart.deferred_force'', force_message dur maxDefer blockedFor (length active))] else [])
         else (resp\<lparr>rr_BlockedFor := blockedFor, rr_Explanation := why_busy\<rparr>, g, []))"

definition handleRestartReady :: "(duration \<Rightarrow> string) \<Rightarrow> duration \<Rightarrow> time \<Rightarrow> tracker \<Rightarrow> restart_gate \<Rightarrow>
    (int \<times> restartReadyResponse) \<times> restart_gate \<times> (string \<times> string) list" where
  "handleRestartReady dur maxDefer now t g =
     (let active = ActiveIDs t; (resp, g, evs) = restart_answer dur maxDefer now active g;
          resp = (if active \<noteq> [] then resp\<lparr>rr_RunIDs := (if length active > restartReadyRunIDCap then take restartReadyRunIDCap active else active)\<rparr>
                  else resp)
      in ((if rr_Ready resp then 200 else 503, resp), g, evs))"

subsection \<open>Snapshots\<close>

lemma run_step_Started: "run_step r r' \<Longrightarrow> rs_Started (r_state r') = rs_Started (r_state r)"
proof (induction rule: run_step.induct)
  case (exec now now' r op)
  then show ?case by (cases op) (auto simp: run_exec_def run_op_defs)
qed (auto simp: Finish_section_def)

text \<open>A row of the list: the snapshot of a run without its output.\<close>

definition row :: "run \<Rightarrow> run_state" where
  "row r = strip_output (run_Snapshot 0 r)"

lemma row_sels [simp]: "rs_ID (row r) = run_ID r" "rs_HookID (row r) = run_HookID r" "rs_Started (row r) = rs_Started (r_state r)"
  "rs_Status (row r) = run_Status r"
  by (simp_all add: row_def strip_output_def run_Snapshot_def Let_def run_ID_def run_HookID_def run_Status_def)

lemma row_later:
  assumes "run_step\<^sup>*\<^sup>* r r'"
  shows "rs_ID (row r') = rs_ID (row r) \<and> rs_HookID (row r') = rs_HookID (row r) \<and> rs_Started (row r') = rs_Started (row r)"
  using assms by (induction rule: rtranclp_induct) (auto dest: run_step_ids run_step_Started)

definition in_list :: "time \<Rightarrow> status list \<Rightarrow> run_state \<Rightarrow> bool" where
  "in_list before exclude st \<longleftrightarrow> (before = 0 \<or> rs_Started st < before) \<and> rs_Status st \<notin> set exclude"

text \<open>The rows the cap applies to.\<close>

definition capped_row :: "time \<Rightarrow> run_state \<Rightarrow> bool" where
  "capped_row before st \<longleftrightarrow> before \<noteq> 0 \<or> Terminal (rs_Status st)"

lemma merge_loop_spec:
  "merge_loop seen before exclude ps (a, b, i) =
    (let S = filter (in_list before exclude) (map (\<lambda>p. row (seen p)) ps)
     in (a @ filter (\<lambda>st. \<not> capped_row before st) S, b @ filter (capped_row before) S, rev (map rs_ID S) @ i))"
proof (induction ps arbitrary: a b i)
  case (Cons p ps)
  have e: "rs_Status (run_Snapshot 0 (seen p)) = rs_Status (row (seen p))" "rs_Started (run_Snapshot 0 (seen p)) = rs_Started (row (seen p))"
    "rs_ID (run_Snapshot 0 (seen p)) = rs_ID (row (seen p))" "strip_output (run_Snapshot 0 (seen p)) = row (seen p)"
    by (simp_all add: row_def)
  show ?case using Cons by (auto simp: e Let_def in_list_def capped_row_def simp del: row_sels)
qed simp

lemma live_loop_spec: "live_loop seen exclude ps out =
    out @ filter (\<lambda>st. \<not> Terminal (rs_Status st) \<and> rs_Status st \<notin> set exclude) (map (\<lambda>p. row (seen p)) ps)"
proof (induction ps arbitrary: out)
  case (Cons p ps)
  have e: "rs_Status (run_Snapshot 0 (seen p)) = rs_Status (row (seen p))" "strip_output (run_Snapshot 0 (seen p)) = row (seen p)"
    by (simp_all add: row_def)
  show ?case using Cons by (auto simp: e Let_def simp del: row_sels)
qed simp

subsection \<open>Sorting and cutting\<close>

lemma newest_rows_facts [simp]: "set (newest_rows xs) = set xs" "mset (newest_rows xs) = mset xs"
  "sorted_wrt (\<lambda>a b. rs_Started b \<le> rs_Started a) (newest_rows xs)"
proof -
  have "sorted (map (\<lambda>st. - rs_Started st) (newest_rows xs))" by (simp add: newest_rows_def)
  then show "sorted_wrt (\<lambda>a b. rs_Started b \<le> rs_Started a) (newest_rows xs)" by (simp add: sorted_map)
qed (simp_all add: newest_rows_def)

lemma take_newest:
  assumes "sorted_wrt (\<lambda>a b. rs_Started b \<le> rs_Started a) xs" "n \<le> length (filter (\<lambda>y. s \<le> rs_Started y) xs)"
  shows "length (take n xs) = n \<and> (\<forall>y \<in> set (take n xs). s \<le> rs_Started y)"
proof -
  have "takeWhile (\<lambda>y. s \<le> rs_Started y) xs = filter (\<lambda>y. s \<le> rs_Started y) xs"
    by (rule takeWhile_filter) (rule sorted_wrt_mono_rel [OF _ assms(1)], auto)
  then have n: "n \<le> length (takeWhile (\<lambda>y. s \<le> rs_Started y) xs)" using assms(2) by simp
  then have "take n xs = take n (takeWhile (\<lambda>y. s \<le> rs_Started y) xs)"
    by (metis append_take_drop_id takeWhile_eq_take min.absorb1 take_take)
  moreover have "n \<le> length xs" using n length_takeWhile_le order_trans by blast
  ultimately show ?thesis using n by (auto simp: min_def dest: in_set_takeD set_takeWhileD)
qed

lemma cut_newest:
  assumes "sorted_wrt (\<lambda>a b. rs_Started b \<le> rs_Started a) xs" "x \<in> set xs" "x \<notin> set (take n xs)"
  shows "length (take n xs) = n \<and> (\<forall>y \<in> set (take n xs). rs_Started x \<le> rs_Started y)"
proof -
  have x: "x \<in> set (drop n xs)" using assms(2,3) by (metis append_take_drop_id Un_iff set_append)
  then have "n < length xs" by (cases "n < length xs") simp_all
  moreover have "sorted_wrt (\<lambda>a b. rs_Started b \<le> rs_Started a) (take n xs @ drop n xs)" using assms(1) by simp
  ultimately show ?thesis using x unfolding sorted_wrt_append by auto
qed

lemma distinct_split: "distinct (map f xs) \<Longrightarrow> distinct (map f (filter (\<lambda>x. \<not> P x) xs @ filter P xs))"
  by (induction xs) auto

lemma distinct_parts:
  assumes "distinct (map f xs)" "distinct (map f ys)" "\<And>y. y \<in> set ys \<Longrightarrow> f y \<notin> f ` set xs"
  shows "distinct (map f (filter (\<lambda>x. \<not> P x) xs @ filter P xs @ ys))"
proof -
  let ?A = "filter (\<lambda>x. \<not> P x) xs @ filter P xs"
  have "f ` set xs \<inter> set (map f ys) = {}" unfolding set_map disjoint_iff using assms(3) by blast
  moreover have "set (map f ?A) = f ` set xs" by auto
  ultimately have "set (map f ?A) \<inter> set (map f ys) = {}" by (simp only:)
  moreover have "distinct (map f ?A)" by (rule distinct_split [OF assms(1)])
  ultimately have "distinct (map f ?A @ map f ys)" using assms(2) by (simp only: distinct_append simp_thms)
  then show ?thesis by (simp only: map_append append_assoc)
qed

lemma page_rows: "(if mx > 0 \<and> int (length xs) > mx then take (nat mx) xs else xs) = page mx xs"
  by (simp add: page_def)

subsection \<open>The two sources of rows\<close>

lemma tracked_set: "snd ` set (sorted_list_of_fmap (tk_byID t)) = {p. \<exists>rid. tk_Get rid t = Some p}"
proof -
  have "set (sorted_list_of_fmap (tk_byID t)) = {(rid, p). tk_Get rid t = Some p}" by (auto simp: tk_Get_def)
  then show ?thesis by (force simp: image_iff)
qed

lemma live_list_set:
  assumes "trk_inv t"
  shows "p \<in> set (live_list h t) \<longleftrightarrow> tk_Get (run_ID (tk_heap t ! p)) t = Some p \<and> (h = [] \<or> run_HookID (tk_heap t ! p) = h)"
proof (cases "h = []")
  case True
  have "p \<in> set (live_list h t) \<longleftrightarrow> (\<exists>rid. tk_Get rid t = Some p)"
    using True by (simp add: live_list_def tk_ListAll_def newest_first_set tracked_set)
  then show ?thesis using trk_invD(5) [OF assms] True by auto
next
  case False
  then have "p \<in> set (live_list h t) \<longleftrightarrow> p \<in> set (hook_runs h t)" by (simp add: live_list_def tk_ListByHook_def newest_first_set)
  then show ?thesis using trk_invD(4,5) [OF assms] False by auto
qed

lemma live_list_distinct: "trk_inv t \<Longrightarrow> distinct (live_list h t)"
proof -
  assume inv: "trk_inv t"
  have h: "distinct (hook_runs h t)" using trk_invD(3) [OF inv] strict_sorted_iff by blast
  have "distinct (map snd (sorted_list_of_fmap (tk_byID t)))"
  proof (unfold distinct_map, intro conjI inj_onI)
    show "distinct (sorted_list_of_fmap (tk_byID t))"
      by (rule distinct_map [THEN iffD1, THEN conjunct1, of fst]) (simp add: sorted_list_of_fset.rep_eq)
    fix x y assume "x \<in> set (sorted_list_of_fmap (tk_byID t))" "y \<in> set (sorted_list_of_fmap (tk_byID t))" "snd x = snd y"
    moreover have "tk_Get (fst z) t = Some (snd z)" if "z \<in> set (sorted_list_of_fmap (tk_byID t))" for z
      using that by (metis prod.collapse set_sorted_list_of_fmap tk_Get_def)
    ultimately have "tk_Get (fst x) t = Some (snd x)" "tk_Get (fst y) t = Some (snd x)" by metis+
    then have "fst x = fst y" using trk_invD(5) [OF inv] by metis
    with \<open>snd x = snd y\<close> show "x = y" by (simp add: prod_eq_iff)
  qed
  then show ?thesis using h by (simp add: live_list_def tk_ListAll_def tk_ListByHook_def newest_first_def Let_def)
qed

text \<open>The rows of the live runs; \<open>later\<close> relates the listing to the snapshots.\<close>

definition later :: "tracker \<Rightarrow> (nat \<Rightarrow> run) \<Rightarrow> bool" where
  "later t seen \<longleftrightarrow> (\<forall>p < length (tk_heap t). run_step\<^sup>*\<^sup>* (tk_heap t ! p) (seen p))"

definition live_rows :: "tracker \<Rightarrow> (nat \<Rightarrow> run) \<Rightarrow> string \<Rightarrow> run_state list" where
  "live_rows t seen h = map (\<lambda>p. row (seen p)) (live_list h t)"

lemma live_pointer: "trk_inv t \<Longrightarrow> p \<in> set (live_list h t) \<Longrightarrow> later t seen \<Longrightarrow> p < length (tk_heap t) \<and>
    run_ID (seen p) = run_ID (tk_heap t ! p) \<and> run_HookID (seen p) = run_HookID (tk_heap t ! p) \<and> tk_Get (run_ID (seen p)) t = Some p"
proof -
  assume a: "trk_inv t" "p \<in> set (live_list h t)" "later t seen"
  then have g: "tk_Get (run_ID (tk_heap t ! p)) t = Some p" by (simp add: live_list_set)
  then have p: "p < length (tk_heap t)" using trk_invD(5) [OF a(1)] by blast
  with a(3) row_later [of "tk_heap t ! p" "seen p"] g show ?thesis by (simp add: later_def)
qed

lemma live_rows_ids: "trk_inv t \<Longrightarrow> later t seen \<Longrightarrow> distinct (map rs_ID (live_rows t seen h))"
proof -
  assume a: "trk_inv t" "later t seen"
  have "inj_on (\<lambda>p. run_ID (seen p)) (set (live_list h t))"
    by (rule inj_onI) (use live_pointer [OF a(1) _ a(2)] in \<open>metis option.inject\<close>)
  then show ?thesis using live_list_distinct [OF a(1), of h] by (simp add: live_rows_def comp_def distinct_map)
qed

definition archive_ok :: "run_archive option \<Rightarrow> bool" where
  "archive_ok ar \<longleftrightarrow> (case ar of None \<Rightarrow> True | Some (c, _, db) \<Rightarrow> (db_step c)\<^sup>*\<^sup>* db_empty db)"

text \<open>The archived runs of a hook (or of all) that are still within retention.\<close>

definition archived :: "run_archive option \<Rightarrow> time \<Rightarrow> string \<Rightarrow> run_state \<Rightarrow> bool" where
  "archived ar now h st \<longleftrightarrow> (case ar of None \<Rightarrow> False
     | Some (c, cfg, db) \<Rightarrow> stored c db st \<and> \<not> rs_expired cfg (rs_Started st) now \<and> (h = [] \<or> rs_HookID st = h))"

lemma archived_unique: "archived ar now h st \<Longrightarrow> archived ar now h st' \<Longrightarrow> rs_ID st = rs_ID st' \<Longrightarrow> st = st'"
  by (auto simp: archived_def stored_def split: option.splits)

lemma archived_terminal: "archive_ok ar \<Longrightarrow> archived ar now h st \<Longrightarrow> Terminal (rs_Status st)"
  using storedD(1) [OF dbi.inv_reachable [OF refl]] by (force simp: archived_def archive_ok_def fit_def split: option.splits)

lemma wanted_keeper: "wanted (keeper exclude) st \<longleftrightarrow> rs_Status st \<notin> set exclude"
  by (simp add: wanted_def keeper_def)

lemma persisted_spec:
  assumes "archive_ok ar" "before = 0 \<or> good_time before"
  obtains xs where "persisted_runs ar now h before mx exclude = page mx xs" "sorted_wrt (\<lambda>a b. rs_Started b \<le> rs_Started a) xs"
    "distinct xs" "set xs = {st. archived ar now h st \<and> in_list before exclude st}"
proof (cases ar)
  case None
  then show ?thesis by (intro that [of "[]"]) (simp_all add: persisted_runs_def page_def archived_def)
next
  case (Some a)
  obtain c cfg db where a: "a = (c, cfg, db)" by (cases a)
  have ok: "db_ok c db" using dbi.inv_reachable [OF refl] assms(1) Some a by (simp add: archive_ok_def)
  define P where "P = (\<lambda>st. (h = [] \<or> rs_HookID st = h) \<and> (before = 0 \<or> rs_Started st < before) \<and>
     \<not> rs_expired cfg (rs_Started st) now \<and> wanted (keeper exclude) st)"
  have "persisted_runs ar now h before mx exclude = page mx (filter P (rev (archive c db)))"
    using walks_listed [OF ok assms(2)] Some a by (simp add: persisted_runs_def listed_def P_def)
  moreover have "sorted_wrt (\<lambda>a b. rs_Started b \<le> rs_Started a) (filter P (rev (archive c db)))"
    using archive_times [of c db] by (intro sorted_wrt_filter) (simp add: sorted_wrt_rev sorted_map)
  moreover have "distinct (filter P (rev (archive c db)))" using archive_sorted [OF ok] by (simp add: distinct_map)
  moreover have "set (filter P (rev (archive c db))) = {st. archived ar now h st \<and> in_list before exclude st}"
    using set_archive [OF ok] Some a by (auto simp: P_def archived_def in_list_def wanted_keeper)
  ultimately show ?thesis by (rule that)
qed

lemma persisted_facts:
  assumes "archive_ok ar" "before = 0 \<or> good_time before"
  shows "distinct (map rs_ID (persisted_runs ar now h before mx exclude))"
    "st \<in> set (persisted_runs ar now h before mx exclude) \<Longrightarrow> archived ar now h st \<and> in_list before exclude st"
    "archived ar now h st \<Longrightarrow> in_list before exclude st \<Longrightarrow> st \<notin> set (persisted_runs ar now h before mx exclude) \<Longrightarrow>
      mx > 0 \<and> length (persisted_runs ar now h before mx exclude) = nat mx \<and>
      (\<forall>y \<in> set (persisted_runs ar now h before mx exclude). rs_Started st \<le> rs_Started y)"
proof -
  obtain xs where xs: "persisted_runs ar now h before mx exclude = page mx xs" "sorted_wrt (\<lambda>a b. rs_Started b \<le> rs_Started a) xs"
    "distinct xs" "set xs = {st. archived ar now h st \<and> in_list before exclude st}"
    using persisted_spec [OF assms] by blast
  have sub: "set (page mx xs) \<subseteq> set xs" by (auto simp: page_def dest: in_set_takeD)
  have "inj_on rs_ID (set (page mx xs))" by (rule inj_onI) (use sub xs(4) archived_unique in blast)
  moreover have "distinct (page mx xs)" using xs(3) by (simp add: page_def)
  ultimately show "distinct (map rs_ID (persisted_runs ar now h before mx exclude))" by (simp add: xs(1) distinct_map)
  show "archived ar now h st \<and> in_list before exclude st" if "st \<in> set (persisted_runs ar now h before mx exclude)"
    using that sub xs(1,4) by auto
  show "mx > 0 \<and> length (persisted_runs ar now h before mx exclude) = nat mx \<and>
      (\<forall>y \<in> set (persisted_runs ar now h before mx exclude). rs_Started st \<le> rs_Started y)"
    if "archived ar now h st" "in_list before exclude st" "st \<notin> set (persisted_runs ar now h before mx exclude)"
    using cut_newest [OF xs(2), of st "nat mx"] that xs(1,4) by (auto simp: page_def split: if_splits)
qed

subsection \<open>The merged list\<close>

lemma waiters_only: "\<exists>f. attachWaiters t seen sts = map (\<lambda>st. st\<lparr>rs_Waiters := f st\<rparr>) sts"
proof (cases "sts = [] \<or> fmdom (waiter_graph t seen) = {||}")
  case True
  then have "attachWaiters t seen sts = map (\<lambda>st. st\<lparr>rs_Waiters := rs_Waiters st\<rparr>) sts"
    by (auto simp: attachWaiters_def Let_def map_idI)
  then show ?thesis by (rule exI [of _ rs_Waiters])
next
  case False
  then have "attachWaiters t seen sts = map (\<lambda>st. st\<lparr>rs_Waiters := sort_key wt_RunID (waiters_at (waiter_graph t seen) (rs_ID st))\<rparr>) sts"
    by (simp add: attachWaiters_def Let_def)
  then show ?thesis by (rule exI [of _ "\<lambda>st. sort_key wt_RunID (waiters_at (waiter_graph t seen) (rs_ID st))"])
qed

definition capped_rows :: "run_archive option \<Rightarrow> time \<Rightarrow> tracker \<Rightarrow> (nat \<Rightarrow> run) \<Rightarrow> string \<Rightarrow> time \<Rightarrow> int \<Rightarrow> status list \<Rightarrow> run_state list" where
  "capped_rows ar now t seen h before mx exclude =
     (let S = filter (in_list before exclude) (live_rows t seen h) in
      newest_rows (filter (capped_row before) S @ filter (\<lambda>st. rs_ID st \<notin> rs_ID ` set S) (persisted_runs ar now h before mx exclude)))"

lemma mergedRuns_eq: "mergedRuns ar now t seen h before mx exclude = attachWaiters t seen (newest_rows (
    filter (\<lambda>st. \<not> capped_row before st) (filter (in_list before exclude) (live_rows t seen h)) @ page mx (capped_rows ar now t seen h before mx exclude)))"
  by (simp add: mergedRuns_def merge_loop_spec Let_def page_rows capped_rows_def live_rows_def)

text \<open>An archived run that is also tracked had ended, at the same start time, when its snapshot was taken.\<close>

definition agree :: "run_archive option \<Rightarrow> time \<Rightarrow> tracker \<Rightarrow> (nat \<Rightarrow> run) \<Rightarrow> bool" where
  "agree ar now t seen \<longleftrightarrow> (\<forall>st p. archived ar now [] st \<longrightarrow> tk_Get (rs_ID st) t = Some p \<longrightarrow>
     Terminal (run_Status (seen p)) \<and> rs_Started (row (seen p)) = rs_Started st)"

lemma agree_live:
  assumes "trk_inv t" "later t seen" "agree ar now t seen" "archived ar now h y" "p \<in> set (live_list h t)" "run_ID (seen p) = rs_ID y"
  shows "Terminal (run_Status (seen p)) \<and> rs_Started (row (seen p)) = rs_Started y"
proof -
  have "archived ar now [] y" using assms(4) by (auto simp: archived_def split: option.splits)
  moreover have "tk_Get (rs_ID y) t = Some p" using live_pointer [OF assms(1,5,2)] assms(6) by metis
  ultimately show ?thesis using assms(3) unfolding agree_def by blast
qed

lemma capped_rows_facts:
  assumes "trk_inv t" "later t seen" "archive_ok ar" "before = 0 \<or> good_time before"
  shows "distinct (map rs_ID (filter (\<lambda>st. \<not> capped_row before st) (filter (in_list before exclude) (live_rows t seen h)) @ capped_rows ar now t seen h before mx exclude))"
    "st \<in> set (capped_rows ar now t seen h before mx exclude) \<Longrightarrow> capped_row before st \<and> in_list before exclude st \<and>
       (st \<in> set (live_rows t seen h) \<or> archived ar now h st)"
proof -
  let ?S = "filter (in_list before exclude) (live_rows t seen h)"
  let ?P = "filter (\<lambda>st. rs_ID st \<notin> rs_ID ` set ?S) (persisted_runs ar now h before mx exclude)"
  have S: "distinct (map rs_ID ?S)" using live_rows_ids [OF assms(1,2)] distinct_map_filter by blast
  have P: "distinct (map rs_ID ?P)" using persisted_facts(1) [OF assms(3,4)] distinct_map_filter by blast
  have "distinct (map rs_ID (filter (\<lambda>st. \<not> capped_row before st) ?S @ filter (capped_row before) ?S @ ?P))"
    by (rule distinct_parts [OF S P]) simp
  moreover have "mset (map rs_ID (filter (\<lambda>st. \<not> capped_row before st) ?S @ filter (capped_row before) ?S @ ?P)) =
      mset (map rs_ID (filter (\<lambda>st. \<not> capped_row before st) ?S @ capped_rows ar now t seen h before mx exclude))"
    by (simp add: capped_rows_def Let_def)
  ultimately show "distinct (map rs_ID (filter (\<lambda>st. \<not> capped_row before st) ?S @ capped_rows ar now t seen h before mx exclude))"
    using mset_eq_imp_distinct_iff by blast
  show "capped_row before st \<and> in_list before exclude st \<and> (st \<in> set (live_rows t seen h) \<or> archived ar now h st)"
    if "st \<in> set (capped_rows ar now t seen h before mx exclude)"
    using that persisted_facts(2) [OF assms(3,4), of st now h mx exclude] archived_terminal [OF assms(3), of now h st]
    by (auto simp: capped_rows_def Let_def capped_row_def)
qed

lemma sorted_capped: "sorted_wrt (\<lambda>a b. rs_Started b \<le> rs_Started a) (capped_rows ar now t seen h before mx exclude)"
  by (simp add: capped_rows_def Let_def)

text \<open>What is left out of the page is at most as new as the page, which is full.\<close>

definition full :: "int \<Rightarrow> time \<Rightarrow> run_state list \<Rightarrow> bool" where
  "full mx s xs \<longleftrightarrow> mx > 0 \<and> length xs = nat mx \<and> (\<forall>y \<in> set xs. s \<le> rs_Started y)"

lemma page_or_full:
  assumes "st \<in> set (capped_rows ar now t seen h before mx exclude)"
  shows "st \<in> set (page mx (capped_rows ar now t seen h before mx exclude)) \<or>
    full mx (rs_Started st) (page mx (capped_rows ar now t seen h before mx exclude))"
  using cut_newest [OF sorted_capped assms, of "nat mx"] assms by (auto simp: page_def full_def)

lemma missed_archived:
  assumes "trk_inv t" "later t seen" "archive_ok ar" "before = 0 \<or> good_time before" "agree ar now t seen"
    and st: "archived ar now h st" "in_list before exclude st" "st \<notin> set (persisted_runs ar now h before mx exclude)"
  shows "full mx (rs_Started st) (page mx (capped_rows ar now t seen h before mx exclude))"
proof -
  let ?S = "filter (in_list before exclude) (live_rows t seen h)" and ?C = "capped_rows ar now t seen h before mx exclude"
  let ?P = "persisted_runs ar now h before mx exclude" and ?F = "filter (\<lambda>y. rs_Started st \<le> rs_Started y) (capped_rows ar now t seen h before mx exclude)"
  note m = persisted_facts(3) [OF assms(3,4) st]
  have "rs_ID y \<in> rs_ID ` set ?F" if y: "y \<in> set ?P" for y
  proof (cases "rs_ID y \<in> rs_ID ` set ?S")
    case False
    then have "y \<in> set ?C" using y by (simp add: capped_rows_def Let_def)
    then show ?thesis using m y by simp
  next
    case True
    then obtain p where p: "p \<in> set (live_list h t)" "run_ID (seen p) = rs_ID y" "in_list before exclude (row (seen p))"
      by (auto simp: live_rows_def)
    have "Terminal (run_Status (seen p))" "rs_Started (row (seen p)) = rs_Started y"
      using agree_live [OF assms(1,2,5) _ p(1,2)] persisted_facts(2) [OF assms(3,4) y] by blast+
    moreover from this(1) have "row (seen p) \<in> set ?C" using p by (auto simp: capped_rows_def Let_def capped_row_def live_rows_def)
    ultimately have "row (seen p) \<in> set ?F" using m y by simp
    then show ?thesis using p(2) by (metis image_eqI row_sels(1))
  qed
  then have "card (rs_ID ` set ?P) \<le> card (rs_ID ` set ?F)" by (intro card_mono) auto
  moreover have "card (rs_ID ` set ?P) = nat mx"
    using m distinct_card [OF persisted_facts(1) [OF assms(3,4)]] by (metis length_map set_map)
  moreover have "card (rs_ID ` set ?F) \<le> length ?F" using card_image_le card_length order_trans by blast
  ultimately have "nat mx \<le> length ?F" by linarith
  from take_newest [OF sorted_capped this] m show ?thesis by (simp add: full_def page_def)
qed

text \<open>What attaching waiters leaves alone.\<close>

lemma relabel:
  fixes f :: "run_state \<Rightarrow> run_waiter list"
  defines "g \<equiv> \<lambda>st. st\<lparr>rs_Waiters := f st\<rparr>"
  shows "map rs_ID (map g xs) = map rs_ID xs" "rs_ID ` set (map g xs) = rs_ID ` set xs"
    "sorted_wrt (\<lambda>a b. rs_Started b \<le> rs_Started a) (map g xs) \<longleftrightarrow> sorted_wrt (\<lambda>a b. rs_Started b \<le> rs_Started a) xs"
    "filter (capped_row before) (map g xs) = map g (filter (capped_row before) xs)" "full mx s (map g xs) \<longleftrightarrow> full mx s xs"
    "in_list before exclude (g x) \<longleftrightarrow> in_list before exclude x"
  by (simp_all add: g_def sorted_wrt_map filter_map comp_def capped_row_def [abs_def] full_def image_image in_list_def)

lemma full_mset: "mset xs = mset ys \<Longrightarrow> full mx s xs \<longleftrightarrow> full mx s ys"
  unfolding full_def by (metis set_mset_mset size_mset)


subsection \<open>Waiters are exact\<close>

lemma waiters_at_fold: "w \<in> set (waiters_at (fold add_waiter_of es m) h) \<longleftrightarrow> w \<in> set (waiters_at m h) \<or> h \<noteq> [] \<and> (h, w) \<in> set es"
proof (induction es arbitrary: m)
  case (Cons e es)
  have "w \<in> set (waiters_at (add_waiter_of e m) h) \<longleftrightarrow> w \<in> set (waiters_at m h) \<or> h \<noteq> [] \<and> (h, w) = e"
    by (cases e) (auto simp: add_waiter_of_def waiters_at_def)
  then show ?case using Cons by auto
qed simp

lemma waits_of_row: "waits_of (run_Snapshot 0 r) = waits_of (row r)"
  by (simp add: waits_of_def row_def strip_output_def split: option.split)

text \<open>
  The waiters shown on a run are exactly the runs blocked on it.  For rows that name a run and bring no waiters
  of their own, the waiters attached to each are those tracked runs whose snapshot waits for a lock the
  row's run holds or for a slot of a group in which it holds one, sorted by run id; nothing else of the
  row changes.
\<close>

theorem waiters_exact:
  assumes "\<forall>st \<in> set sts. rs_ID st \<noteq> [] \<and> rs_Waiters st = []"
  shows "length (attachWaiters t seen sts) = length sts \<and> (\<forall>i < length sts. let y = attachWaiters t seen sts ! i in
    y = (sts ! i)\<lparr>rs_Waiters := rs_Waiters y\<rparr> \<and> sorted (map wt_RunID (rs_Waiters y)) \<and>
    set (rs_Waiters y) = {w. \<exists>rid p. tk_Get rid t = Some p \<and> (rs_ID (sts ! i), w) \<in> set (waits_of (row (seen p)))})"
proof -
  have ps: "set (tk_ListAll 0 t) = {p. \<exists>rid. tk_Get rid t = Some p}"
    by (simp add: tk_ListAll_def newest_first_set tracked_set)
  have graph: "set (waiters_at (waiter_graph t seen) h) = {w. h \<noteq> [] \<and> (\<exists>rid p. tk_Get rid t = Some p \<and> (h, w) \<in> set (waits_of (row (seen p))))}" for h
  proof (intro set_eqI)
    fix w
    have "w \<in> set (waiters_at (waiter_graph t seen) h) \<longleftrightarrow> h \<noteq> [] \<and> (\<exists>p \<in> set (tk_ListAll 0 t). (h, w) \<in> set (waits_of (row (seen p))))"
      unfolding waiter_graph_def waiters_at_fold by (simp add: waits_of_row waiters_at_def)
    then show "w \<in> set (waiters_at (waiter_graph t seen) h) \<longleftrightarrow>
        w \<in> {w. h \<noteq> [] \<and> (\<exists>rid p. tk_Get rid t = Some p \<and> (h, w) \<in> set (waits_of (row (seen p))))}" using ps by auto
  qed
  have empty: "waiters_at (waiter_graph t seen) h = []" if "fmdom (waiter_graph t seen) = {||}" for h
    using that by (simp add: waiters_at_def fmdom_notD)
  have at: "attachWaiters t seen sts ! i = (sts ! i)\<lparr>rs_Waiters := sort_key wt_RunID (waiters_at (waiter_graph t seen) (rs_ID (sts ! i)))\<rparr>"
    if i: "i < length sts" for i
  proof (cases "fmdom (waiter_graph t seen) = {||}")
    case True
    then have "attachWaiters t seen sts = sts" by (simp add: attachWaiters_def Let_def)
    moreover have "(sts ! i)\<lparr>rs_Waiters := rs_Waiters (sts ! i)\<rparr> = sts ! i" by simp
    moreover have "rs_Waiters (sts ! i) = []" using assms nth_mem [OF i] by blast
    ultimately show ?thesis by (simp add: empty [OF True])
  next
    case False
    then show ?thesis using i by (cases "sts = []") (simp_all add: attachWaiters_def Let_def)
  qed
  have "length (attachWaiters t seen sts) = length sts" by (simp add: attachWaiters_def Let_def)
  moreover have "rs_ID (sts ! i) \<noteq> []" if "i < length sts" for i using assms nth_mem [OF that] by blast
  ultimately show ?thesis using at graph by (simp add: Let_def)
qed

subsection \<open>The pre-update check over time\<close>

definition after_polls :: "(duration \<Rightarrow> string) \<Rightarrow> duration \<Rightarrow> (time \<times> tracker) list \<Rightarrow> restart_gate" where
  "after_polls dur mx ps = fold (\<lambda>(now, t) g. fst (snd (handleRestartReady dur mx now t g))) ps gate_zero"

text \<open>The trailing polls that found runs in flight, latest first.\<close>

definition stretch :: "(time \<times> tracker) list \<Rightarrow> (time \<times> tracker) list" where
  "stretch ps = takeWhile (\<lambda>(_, t). ActiveIDs t \<noteq> []) (rev ps)"

definition overdue :: "duration \<Rightarrow> (time \<times> tracker) list \<Rightarrow> time \<Rightarrow> bool" where
  "overdue mx ps now \<longleftrightarrow> mx > 0 \<and> now - fst (last ps) \<ge> mx"

lemma restart_idle: "snd (restart_answer dur mx now [] g) = (gate_zero, []) \<and> rr_Ready (fst (restart_answer dur mx now [] g)) \<and>
    \<not> rr_Forced (fst (restart_answer dur mx now [] g)) \<and> rr_ActiveRuns (fst (restart_answer dur mx now [] g)) = 0 \<and>
    rr_RunIDs (fst (restart_answer dur mx now [] g)) = []"
  by (simp add: restart_answer_def rg_observe_def Let_def)

lemma observe_blocked:
  assumes "s = (if rg_blockedAt g = 0 then now else rg_blockedAt g)"
  shows "rg_observe True mx now g = ((mx > 0 \<and> now - s \<ge> mx, s), g\<lparr>rg_blockedAt := s\<rparr>)"
  using assms by (simp add: rg_observe_def Let_def not_le)

lemma restart_busy:
  assumes "a \<noteq> []" "s = (if rg_blockedAt g = 0 then now else rg_blockedAt g)" "late = (mx > 0 \<and> now - s \<ge> mx)"
  shows "fst (snd (restart_answer dur mx now a g)) = \<lparr>rg_blockedAt = s, rg_forced = (rg_forced g \<or> late)\<rparr> \<and>
     rr_Ready (fst (restart_answer dur mx now a g)) = late \<and> rr_Forced (fst (restart_answer dur mx now a g)) = late \<and>
     rr_ActiveRuns (fst (restart_answer dur mx now a g)) = int (length a) \<and>
     length (snd (snd (restart_answer dur mx now a g))) = (if late \<and> \<not> rg_forced g then 1 else 0)"
proof -
  have o': "rg_observe True mx now g = ((late, s), g\<lparr>rg_blockedAt := s\<rparr>)" using observe_blocked [OF assms(2)] assms(3) by simp
  show ?thesis
    by (cases late; cases "rg_forced g") (simp_all add: restart_answer_def o' firstForce_def assms(1) Let_def)
qed

lemma restart_parts: "handleRestartReady dur mx now t g =
   (let (resp, g, evs) = restart_answer dur mx now (ActiveIDs t) g;
        resp' = resp\<lparr>rr_RunIDs := take restartReadyRunIDCap (ActiveIDs t)\<rparr>
    in ((if rr_Ready resp then 200 else 503, if ActiveIDs t \<noteq> [] then resp' else resp), g, evs))"
  by (simp add: handleRestartReady_def Let_def case_prod_beta)

lemma sort_key_empty: "sort_key f xs = [] \<longleftrightarrow> xs = []"
  by (metis length_0_conv length_sort)

lemma ActiveIDs_none:
  assumes "trk_inv t"
  shows "ActiveIDs t = [] \<longleftrightarrow> (\<forall>p < length (tk_heap t). \<not> tk_active t p)"
proof -
  let ?T = "map snd (sorted_list_of_fmap (tk_byID t))"
  have T: "set ?T = {p. \<exists>rid. tk_Get rid t = Some p}" by (simp only: set_map tracked_set)
  have "ActiveIDs t = [] \<longleftrightarrow> filter (tk_active t) ?T = []" by (simp only: ActiveIDs_def sort_key_empty map_is_Nil_conv)
  also have "\<dots> \<longleftrightarrow> (\<forall>p. (\<exists>rid. tk_Get rid t = Some p) \<longrightarrow> \<not> tk_active t p)" unfolding filter_empty_conv T by blast
  finally have a: "ActiveIDs t = [] \<longleftrightarrow> (\<forall>p. (\<exists>rid. tk_Get rid t = Some p) \<longrightarrow> \<not> tk_active t p)" .
  have "tk_Get (run_ID (tk_heap t ! p)) t = Some p" if "p < length (tk_heap t)" "tk_active t p" for p
    using trk_invD(5,6) [OF assms] that by blast
  moreover have "p < length (tk_heap t)" if "tk_Get rid t = Some p" for rid p using trk_invD(5) [OF assms] that by blast
  ultimately show ?thesis unfolding a by blast
qed

lemma stretch_set: "set (stretch ps) \<subseteq> set ps"
  by (metis set_rev set_takeWhileD stretch_def subsetI)

lemma stretch_snoc: "stretch (ps @ [(now, t)]) = (if ActiveIDs t = [] then [] else (now, t) # stretch ps)"
  by (simp add: stretch_def)

lemma after_polls_inv:
  assumes "\<forall>(n, _) \<in> set ps. n \<noteq> 0"
  shows "rg_blockedAt (after_polls dur mx ps) = (if stretch ps = [] then 0 else fst (last (stretch ps))) \<and>
    (rg_forced (after_polls dur mx ps) \<longleftrightarrow> (\<exists>(n, _) \<in> set (stretch ps). overdue mx (stretch ps) n))"
  using assms
proof (induction ps rule: rev_induct)
  case Nil
  then show ?case by (simp add: after_polls_def stretch_def gate_zero_def)
next
  case (snoc x ps)
  obtain now t where x: "x = (now, t)" by (cases x)
  have n: "now \<noteq> 0" "\<forall>(n, _) \<in> set (stretch ps). n \<noteq> 0" using snoc.prems x stretch_set [of ps] by auto
  have l: "fst (last (stretch ps)) \<noteq> 0" if "stretch ps \<noteq> []" using n(2) last_in_set [OF that] by (auto simp: case_prod_beta)
  let ?g = "after_polls dur mx ps"
  have g: "after_polls dur mx (ps @ [(now, t)]) = fst (snd (handleRestartReady dur mx now t ?g))" by (simp add: after_polls_def)
  have IH: "rg_blockedAt ?g = (if stretch ps = [] then 0 else fst (last (stretch ps)))"
    "rg_forced ?g \<longleftrightarrow> (\<exists>(n, _) \<in> set (stretch ps). overdue mx (stretch ps) n)" using snoc by auto
  show ?case
  proof (cases "ActiveIDs t = []")
    case True
    then show ?thesis unfolding g x stretch_snoc by (simp add: restart_parts restart_idle gate_zero_def case_prod_beta Let_def)
  next
    case False
    have s: "(if rg_blockedAt ?g = 0 then now else rg_blockedAt ?g) = (if stretch ps = [] then now else fst (last (stretch ps)))"
      using IH(1) l by simp
    have "fst (snd (handleRestartReady dur mx now t ?g)) = fst (snd (restart_answer dur mx now (ActiveIDs t) ?g))"
      by (simp add: restart_parts case_prod_beta Let_def)
    with restart_busy [OF False s [symmetric] refl, of dur mx] False IH(2) show ?thesis
      unfolding g x stretch_snoc by (auto simp: overdue_def)
  qed
qed

text \<open>
  The pre-update check answers by the runs in flight.  In every reachable state of the tracker a poll is
  answered 200 exactly if no run at all is active or polls have found runs in flight without a break for at
  least the configured time (never when that is zero or negative), and 503 otherwise; an answer given despite
  active runs says so, and the loud event is recorded exactly by the first such answer of the stretch.
\<close>

theorem restart_ready_exact:
  assumes "trk_step\<^sup>*\<^sup>* NewTracker t" "\<forall>(n, _) \<in> set ps. n \<noteq> 0" "now \<noteq> 0"
  shows "let ((code, resp), _, evs) = handleRestartReady dur mx now t (after_polls dur mx ps);
             idle = (\<forall>p < length (tk_heap t). \<not> tk_active t p); late = overdue mx ((now, t) # stretch ps) now in
    code = (if idle \<or> late then 200 else 503) \<and> (rr_Forced resp \<longleftrightarrow> \<not> idle \<and> late) \<and>
    length evs = (if \<not> idle \<and> late \<and> \<not> (\<exists>(n, _) \<in> set (stretch ps). overdue mx (stretch ps) n) then 1 else 0) \<and>
    (idle \<longleftrightarrow> rr_ActiveRuns resp = 0) \<and> length (rr_RunIDs resp) \<le> restartReadyRunIDCap"
proof -
  have inv: "trk_inv t" using tki.inv_reachable assms(1) by blast
  note idle = ActiveIDs_none [OF inv, symmetric]
  note g = after_polls_inv [OF assms(2), of dur mx]
  have l: "fst (last (stretch ps)) \<noteq> 0" if "stretch ps \<noteq> []"
    using assms(2) last_in_set [OF that] stretch_set [of ps] by (auto simp: case_prod_beta)
  let ?g = "after_polls dur mx ps" and ?s = "if stretch ps = [] then now else fst (last (stretch ps))"
  have s: "?s = (if rg_blockedAt ?g = 0 then now else rg_blockedAt ?g)" using g l by simp
  have late: "overdue mx ((now, t) # stretch ps) now \<longleftrightarrow> mx > 0 \<and> now - ?s \<ge> mx" by (simp add: overdue_def)
  have f: "rg_forced ?g \<longleftrightarrow> (\<exists>(n, _) \<in> set (stretch ps). overdue mx (stretch ps) n)" using g by blast
  show ?thesis
  proof (cases "ActiveIDs t = []")
    case True
    then show ?thesis unfolding idle using restart_idle [of dur mx now ?g] by (simp add: restart_parts case_prod_beta Let_def)
  next
    case False
    from restart_busy [OF False s late, of dur] False show ?thesis
      unfolding idle f by (simp add: restart_parts case_prod_beta Let_def)
  qed
qed

subsection \<open>A tracker to look at\<close>

definition tracker_ex :: tracker where
  "tracker_ex = tk_New (\<lambda>_. False) ''c'' (unix_epoch + 9) ''deploy'' NewTracker"

definition seen_ex :: "nat \<Rightarrow> run" where
  "seen_ex p = tk_heap tracker_ex ! p"

definition blocked_ex :: "nat \<Rightarrow> run" where
  "blocked_ex p = (seen_ex p)\<lparr>r_state := (r_state (seen_ex p))\<lparr>rs_WaitingOn := Some \<lparr>w_Kind = ''lock'', w_Reason = [], w_Until = 0, w_Key = ''deploy-lock'',
     w_HolderRunID = ''a'', w_HolderHookID = ''deploy'', w_HolderRunIDs = [], w_Position = 0\<rparr>\<rparr>\<rparr>"

lemma tracker_ex_reach: "trk_step\<^sup>*\<^sup>* NewTracker tracker_ex"
  unfolding tracker_ex_def by (intro r_into_rtranclp trk_step.new) (simp_all add: NewTracker_def)

lemma tracker_ex_heap: "tk_heap tracker_ex = [fresh_run ''c'' ''deploy'' (unix_epoch + 9) False False]" "tk_Get ''c'' tracker_ex = Some 0"
  by (simp_all add: tracker_ex_def tk_New_def NewTracker_def hook_runs_def MaxRunsPerHook_def Let_def tk_Get_def)

lemma tracker_ex_Get: "tk_Get rid tracker_ex = Some p \<longleftrightarrow> rid = ''c'' \<and> p = 0"
  by (auto simp: tracker_ex_def tk_New_def NewTracker_def hook_runs_def MaxRunsPerHook_def Let_def tk_Get_def)

lemma tracker_ex_active: "ActiveIDs tracker_ex \<noteq> []"
  using ActiveIDs_none [OF tki.inv_reachable [OF refl tracker_ex_reach]] by (simp add: tracker_ex_heap tk_active_def)


theorem waiters_exact_witness: "''c'' \<in> wt_RunID ` set (rs_Waiters (attachWaiters tracker_ex blocked_ex [run_ex ''a'' 5] ! 0))"
proof -
  have "(''a'', \<lparr>wt_RunID = ''c'', wt_HookID = ''deploy'', wt_Key = ''deploy-lock''\<rparr>) \<in> set (waits_of (row (blocked_ex 0)))"
    by (simp add: waits_of_def row_def strip_output_def run_Snapshot_def blocked_ex_def seen_ex_def tracker_ex_heap fresh_run_def WaitingOnLock_def Let_def)
  moreover have "\<forall>st \<in> set [run_ex ''a'' 5]. rs_ID st \<noteq> [] \<and> rs_Waiters st = []" by (simp add: run_ex_def summary_state_def)
  ultimately show ?thesis
    using waiters_exact [of "[run_ex ''a'' 5]" tracker_ex blocked_ex] tracker_ex_heap(2)
    by (force simp: Let_def run_ex_def summary_state_def)
qed

theorem restart_ready_exact_witness:
  "fst (fst (handleRestartReady (\<lambda>_. []) 10 20 tracker_ex (after_polls (\<lambda>_. []) 10 [(5, tracker_ex)]))) = 200"
proof -
  have "stretch [(5, tracker_ex)] = [(5, tracker_ex)]" using tracker_ex_active by (simp add: stretch_def)
  then show ?thesis
    using restart_ready_exact [OF tracker_ex_reach, of "[(5, tracker_ex)]" 20 "\<lambda>_. []" 10] by (simp add: overdue_def Let_def case_prod_beta)
qed

end
