(* ===== verification/Loader.thy ===== *)
theory Loader
  imports Trigger Jsonc
begin

text \<open>
  Model of the loader of hooks and managers: \<^verbatim>\<open>internal/hooks/hook.go\<close> (\<open>Parse\<close>, \<open>resolveScript\<close>, \<open>validate\<close>
  and the methods that read a manifest), \<^verbatim>\<open>manager.go\<close>, \<^verbatim>\<open>shellsafe.go\<close>, \<^verbatim>\<open>layout.go\<close>, \<^verbatim>\<open>loader.go\<close>,
  \<^verbatim>\<open>registry.go\<close>, and from \<^verbatim>\<open>imagebuild.go\<close> the checks made at load.  A load reads the tree through the
  record \<open>tree\<close>: directory listings and file contents, symbolic links, the JSON decoder, the schema
  validators (third-party code) and the duration parser answer what they answer during that load.
  The lemmas show what every loaded entity satisfies and that no directory with a manifest goes missing.
\<close>

subsection \<open>Paths\<close>

text \<open>\<open>filepath.Clean\<close>, \<open>Join\<close>, \<open>Dir\<close> and \<open>Base\<close> with slashes.\<close>

fun clean_parts :: "bool \<Rightarrow> string list \<Rightarrow> string list \<Rightarrow> string list" where
  "clean_parts rooted [] st = rev st"
| "clean_parts rooted (c # cs) st =
     (if c = [] \<or> c = ''.'' then clean_parts rooted cs st
      else if c = ''..'' then
        (case st of [] \<Rightarrow> clean_parts rooted cs (if rooted then [] else [c])
         | x # xs \<Rightarrow> clean_parts rooted cs (if x = ''..'' then c # st else xs))
      else clean_parts rooted cs (c # st))"

definition path_Clean :: "string \<Rightarrow> string" where
  "path_Clean p = (if p = [] then ''.''
     else let rooted = hd p = CHR ''/''; body = join_with ''/'' (clean_parts rooted (split_on (CHR ''/'') p) []) in
       if rooted then CHR ''/'' # body else if body = [] then ''.'' else body)"

definition path_Join :: "string list \<Rightarrow> string" where
  "path_Join es = (case dropWhile (\<lambda>e. e = []) es of [] \<Rightarrow> [] | xs \<Rightarrow> path_Clean (join_with ''/'' xs))"

definition path_Dir :: "string \<Rightarrow> string" where
  "path_Dir p = path_Clean (rev (dropWhile (\<lambda>c. c \<noteq> CHR ''/'') (rev p)))"

definition path_Base :: "string \<Rightarrow> string" where
  "path_Base p = (if p = [] then ''.''
     else let q = rev (dropWhile (\<lambda>c. c = CHR ''/'') (rev p)) in
       if q = [] then ''/'' else rev (takeWhile (\<lambda>c. c \<noteq> CHR ''/'') (rev q)))"

text \<open>\<open>filepath.Abs\<close> given what \<open>Getwd\<close> answers.\<close>

definition path_Abs :: "string + string \<Rightarrow> string \<Rightarrow> string + string" where
  "path_Abs cwd p = (if p \<noteq> [] \<and> hd p = CHR ''/'' then Inr (path_Clean p)
     else case cwd of Inl e \<Rightarrow> Inl e | Inr d \<Rightarrow> Inr (path_Join [d, p]))"

text \<open>\<open>strings.Contains\<close>.\<close>

fun str_contains :: "string \<Rightarrow> string \<Rightarrow> bool" where
  "str_contains [] t = (t = [])"
| "str_contains (c # cs) t = (has_prefix (c # cs) t \<or> str_contains cs t)"

subsection \<open>Manifests\<close>

record script =
  sc_File :: string
  sc_Interpreter :: string
  sc_Args :: "string list"

record github_status =
  gs_Enabled :: bool
  gs_Context :: string
  gs_TargetURL :: string

text \<open>A hook as loaded: what the running server reads (\<open>hook_decl\<close>, its durations parsed) and the rest of
  the struct.\<close>

record hook_file = hook_decl +
  hf_SourcePath :: string
  hf_SrcRoot :: string
  hf_Schema :: string
  hf_Description :: string
  hf_Base :: string
  hf_Script :: "script option"
  hf_Tests :: "string list list"
  hf_Settings :: string
  hf_manifestSettings :: string
  hf_manifestRaw :: string
  hf_TimeoutRaw :: string
  hf_IdleTimeoutRaw :: string
  hf_Schedule :: string
  hf_GitHubStatus :: "github_status option"

record manager_json =
  mj_Schema :: string
  mj_Description :: string
  mj_Enable :: "bool option"
  mj_ReconcileInterval :: string
  mj_Timeout :: string
  mj_Command :: "string list"
  mj_Script :: "script option"
  mj_Tests :: "string list list"
  mj_Networks :: "string list"
  mj_Volumes :: "string list"
  mj_Devices :: "string list"
  mj_Settings :: string
  mj_User :: string
  mj_Workdir :: string
  mj_Dind :: bool
  mj_Userns :: bool
  mj_ConcurrencyGroup :: string
  mj_RunTitle :: string
  mj_GitHubStatus :: "github_status option"
  mj_Synchronous :: bool
  mj_SpawnTargets :: "string list"
  mj_APIKey :: string
  mj_APIKeyHeader :: string
  mj_PublicKey :: string
  mj_SignatureHeader :: string
  mj_Secret :: string
  mj_SkipIf :: skip_conditions

record manager_file =
  mf_Hook :: hook_file
  mf_ReconcileIntervalRaw :: string
  mf_SpawnTargets :: "string list"

datatype file_read = FileMissing | FileErr string | FileData string

datatype dir_read = DirMissing string | DirErr string | DirEntries "(string \<times> bool) list"

text \<open>\<open>tr_stat\<close>: nothing there, or whether it is a directory.  The decoders get the document without its
  comments; \<open>tr_settings\<close> is \<open>ValidateSettings\<close>, which answers the expanded document.\<close>

record tree =
  tr_read :: "string \<Rightarrow> file_read"
  tr_list :: "string \<Rightarrow> dir_read"
  tr_stat :: "string \<Rightarrow> bool option"
  tr_real :: "string \<Rightarrow> string + string"
  tr_cwd :: "string + string"
  tr_hook :: "string \<Rightarrow> string + hook_file"
  tr_manager :: "string \<Rightarrow> string + manager_json"
  tr_hookSchema :: "string \<Rightarrow> string \<Rightarrow> string option"
  tr_managerSchema :: "string \<Rightarrow> string \<Rightarrow> string option"
  tr_settings :: "string \<Rightarrow> string \<Rightarrow> string + string"
  tr_dur :: "string \<Rightarrow> string + duration"
  tr_durText :: "duration \<Rightarrow> string"
  tr_quote :: "string \<Rightarrow> string"
  tr_re :: "string \<Rightarrow> string \<Rightarrow> bool option"
  tr_skipText :: "skip_error \<Rightarrow> string"
  tr_titleText :: "title_error \<Rightarrow> string"
  tr_keyText :: "key_error \<Rightarrow> string"

subsection \<open>Reading a manifest\<close>

definition raw_duration :: "tree \<Rightarrow> string \<Rightarrow> duration" where
  "raw_duration e raw = (if raw = [] then 0 else case tr_dur e raw of Inl _ \<Rightarrow> 0 | Inr d \<Rightarrow> d)"

definition ScheduleInterval :: "tree \<Rightarrow> hook_file \<Rightarrow> duration" where
  "ScheduleInterval e h = raw_duration e (hf_Schedule h)"

definition ReconcileInterval :: "tree \<Rightarrow> manager_file \<Rightarrow> duration" where
  "ReconcileInterval e m = raw_duration e (mf_ReconcileIntervalRaw m)"

definition hook_Dir :: "tree \<Rightarrow> hook_file \<Rightarrow> string" where
  "hook_Dir e h = (if hf_SourcePath h = [] then []
     else case path_Abs (tr_cwd e) (path_Dir (hf_SourcePath h)) of Inl _ \<Rightarrow> [] | Inr dir \<Rightarrow> dir)"

definition BuildContext :: "tree \<Rightarrow> hook_file \<Rightarrow> string" where
  "BuildContext e h = (if hf_SrcRoot h \<noteq> [] then hf_SrcRoot h else hook_Dir e h)"

definition DockerfileName :: string where "DockerfileName = ''Dockerfile''"
definition BaseDirName :: string where "BaseDirName = ''base''"

definition is_file :: "tree \<Rightarrow> string \<Rightarrow> bool" where
  "is_file e p \<longleftrightarrow> tr_stat e p = Some False"

definition hasDockerfile :: "tree \<Rightarrow> hook_file \<Rightarrow> bool" where
  "hasDockerfile e h \<longleftrightarrow> hook_Dir e h \<noteq> [] \<and> is_file e (path_Join [hook_Dir e h, DockerfileName])"

definition BaseDir :: "hook_file \<Rightarrow> string" where
  "BaseDir h = (if hf_Base h = [] \<or> hf_SrcRoot h = [] then [] else path_Join [hf_SrcRoot h, BaseDirName, hf_Base h])"

definition checkBase :: "tree \<Rightarrow> hook_file \<Rightarrow> string option" where
  "checkBase e h =
     (if hf_Base h = [] then None
      else if hf_Base h \<noteq> path_Base (hf_Base h) \<or> hf_Base h = ''.'' \<or> hf_Base h = ''..'' \<or> CHR ''/'' \<in> set (hf_Base h)
      then Some (''base '' @ tr_quote e (hf_Base h) @ '' must be a single directory name under src/'' @ BaseDirName)
      else if hf_SrcRoot h = []
      then Some ''base needs the src layout: a legacy hook builds from its own directory and has no shared tree to hold one''
      else if \<not> is_file e (path_Join [BaseDir h, DockerfileName])
      then Some (''base '' @ tr_quote e (hf_Base h) @ '' declares no '' @ DockerfileName @ '' at src/'' @ BaseDirName @ ''/'' @ hf_Base h @ ''/'' @ DockerfileName)
      else None)"

definition shellSubstitutions :: "(string \<times> string) list" where
  "shellSubstitutions = [(''$('', ''command substitution''), ([CHR 0x60], ''command substitution''),
     (''<('', ''process substitution''), (''>('', ''process substitution'')]"

definition shell_hint :: string where
  "shell_hint = ''): a manifest must not carry a shell program. Put it in a .sh file next to the manifest, COPY it into the image, and call that '' @
     ''(e.g. command: ['' @ [CHR 0x22] @ ''sh'' @ [CHR 0x22] @ '', '' @ [CHR 0x22] @ ''run.sh'' @ [CHR 0x22] @ ''], or the script field) -- '' @
     ''plain $VAR references are fine, nested commands are not''"

fun shell_loop :: "tree \<Rightarrow> string \<Rightarrow> nat \<Rightarrow> string list \<Rightarrow> string option" where
  "shell_loop e field i [] = None"
| "shell_loop e field i (arg # args) = (case find (\<lambda>(tok, _). str_contains arg tok) shellSubstitutions of
     None \<Rightarrow> shell_loop e field (Suc i) args
   | Some (tok, what) \<Rightarrow> Some (field @ ''['' @ show_nat i @ ''] contains '' @ what @ '' ('' @ tr_quote e tok @ shell_hint))"

definition checkNoShellSubstitution :: "tree \<Rightarrow> string \<Rightarrow> string list \<Rightarrow> string option" where
  "checkNoShellSubstitution e field argv = shell_loop e field 0 argv"

definition script_command :: "script \<Rightarrow> string list option" where
  "script_command s =
     (if sc_Interpreter s = ''bash'' then Some ([''bash'', sc_File s] @ sc_Args s)
      else if sc_Interpreter s = ''pwsh'' then Some ([''pwsh'', ''-File'', sc_File s] @ sc_Args s)
      else if sc_Interpreter s = ''node'' then Some ([''node'', sc_File s] @ sc_Args s)
      else if sc_Interpreter s = ''tsx'' then Some ([''tsx'', sc_File s] @ sc_Args s) else None)"

definition resolveScript :: "tree \<Rightarrow> hook_file \<Rightarrow> string + hook_file" where
  "resolveScript e h = (case hf_Script h of None \<Rightarrow> Inr h
     | Some s \<Rightarrow>
         if sc_File s = [] then Inl ''script.file is required''
         else case checkNoShellSubstitution e ''script.args'' (sc_Args s) of Some err \<Rightarrow> Inl err
         | None \<Rightarrow>
             if sc_Interpreter s = [] then Inl ''script.interpreter is required''
             else let hookDir = path_Dir (hf_SourcePath h) in
               case tr_real e (path_Join [hookDir, sc_File s]) of
                 Inl err \<Rightarrow> Inl (''script.file '' @ tr_quote e (sc_File s) @ '': '' @ err)
               | Inr realScript \<Rightarrow> (case tr_real e hookDir of
                   Inl err \<Rightarrow> Inl (''resolve hook directory: '' @ err)
                 | Inr realHookDir \<Rightarrow>
                     if \<not> has_prefix realScript (realHookDir @ ''/'')
                     then Inl (''script.file '' @ tr_quote e (sc_File s) @ '' resolves outside hook directory'')
                     else if hc_Command h \<noteq> [] then Inr h
                     else case script_command s of
                         None \<Rightarrow> Inl (''unsupported script.interpreter '' @ tr_quote e (sc_Interpreter s) @ '' (must be bash, pwsh, node, or tsx)'')
                       | Some cmd \<Rightarrow> Inr (h\<lparr>hc_Command := cmd\<rparr>)))"

definition check_duration :: "tree \<Rightarrow> string \<Rightarrow> string \<Rightarrow> string option" where
  "check_duration e field raw = (if raw = [] then None
     else case tr_dur e raw of Inl err \<Rightarrow> Some (''invalid '' @ field @ '' '' @ tr_quote e raw @ '': '' @ err)
     | Inr d \<Rightarrow> if d \<le> 0 then Some (field @ '' must be positive, got '' @ tr_durText e d) else None)"

fun check_tests :: "nat \<Rightarrow> string list list \<Rightarrow> string option" where
  "check_tests i [] = None"
| "check_tests i (tc # tcs) = (if tc = [] then Some (''tests['' @ show_nat i @ ''] must not be empty'') else check_tests (Suc i) tcs)"

text \<open>\<open>validateAuth\<close> with its messages.\<close>

definition auth_error :: "tree \<Rightarrow> hook_file \<Rightarrow> string option" where
  "auth_error e h =
     (if length (filter (\<lambda>s. s \<noteq> []) [hk_APIKey h, hk_PublicKey h, hk_Secret h]) > 1
      then Some ''only one of api_key, public_key, or secret may be set''
      else if hk_PublicKey h \<noteq> [] then (case parseEd25519PublicKey (hk_PublicKey h) of
          Inl k \<Rightarrow> Some (''invalid public_key: '' @ tr_keyText e k) | Inr _ \<Rightarrow> None)
      else None)"

text \<open>The checks of \<open>validate\<close> after the settings and the title are in place, in order.\<close>

definition validate_checks :: "tree \<Rightarrow> hook_file \<Rightarrow> string option list" where
  "validate_checks e h =
     [check_tests 0 (hf_Tests h), check_duration e ''timeout'' (hf_TimeoutRaw h), check_duration e ''idle_timeout'' (hf_IdleTimeoutRaw h),
      check_duration e ''schedule'' (hf_Schedule h), checkNoShellSubstitution e ''command'' (hc_Command h),
      map_option (tr_skipText e) (skip_compile (tr_re e) 0 (hk_SkipIf h)),
      (case compileRunTitle (hk_RunTitle h) of Inl err \<Rightarrow> Some (tr_titleText e err) | Inr _ \<Rightarrow> None),
      auth_error e h,
      (case hf_GitHubStatus h of Some g \<Rightarrow> if gs_Enabled g \<and> gs_Context g = []
          then Some ''github_status.context is required when github_status.enabled is true'' else None | None \<Rightarrow> None),
      (if hc_Dind h \<and> hc_Userns h
       then Some ''dind and seccomp.userns are mutually exclusive: dind already runs the container with seccomp unconfined, and a profile alongside it narrows the container instead''
       else None)]"

definition validate :: "tree \<Rightarrow> hook_file \<Rightarrow> string + hook_file" where
  "validate e h =
     (if hf_Schema h = []
      then Inl ''$schema is required (point it at https://sites.pazer.build/webhook-runner/branch/master/hook.schema.json)''
      else case tr_settings e (hf_SourcePath h) (hf_Settings h) of Inl err \<Rightarrow> Inl err
      | Inr settings \<Rightarrow> let h = h\<lparr>hf_Settings := settings\<rparr> in
          (case first_error id (validate_checks e h) of Some err \<Rightarrow> Inl err
           | None \<Rightarrow> Inr (h\<lparr>hk_titleTmpl := (case compileRunTitle (hk_RunTitle h) of Inl _ \<Rightarrow> None | Inr t \<Rightarrow> t)\<rparr>)))"

text \<open>The durations the server reads through \<open>Timeout()\<close> and \<open>IdleTimeout()\<close>.\<close>

definition with_timeouts :: "tree \<Rightarrow> hook_file \<Rightarrow> hook_file" where
  "with_timeouts e h = h\<lparr>hc_Timeout := raw_duration e (hf_TimeoutRaw h), hc_IdleTimeout := raw_duration e (hf_IdleTimeoutRaw h)\<rparr>"

definition hook_Parse :: "tree \<Rightarrow> string \<Rightarrow> string \<Rightarrow> string \<Rightarrow> string + hook_file" where
  "hook_Parse e hid sourcePath data = (case tr_hook e (NewReader data) of
     Inl err \<Rightarrow> Inl (''decode hook.json: '' @ err)
   | Inr h \<Rightarrow>
       let h = with_timeouts e (h\<lparr>hc_ID := hid, hf_SourcePath := sourcePath, hf_manifestRaw := NewReader data\<rparr>) in
       case resolveScript e h of Inl err \<Rightarrow> Inl err
       | Inr h \<Rightarrow>
           if \<not> hasDockerfile e h then Inl ''hook must ship a Dockerfile next to hook.json (every hook runs an image built from its directory)''
           else case validate e h of Inl err \<Rightarrow> Inl err
           | Inr h \<Rightarrow> (case tr_hookSchema e sourcePath data of Some err \<Rightarrow> Inl err | None \<Rightarrow> Inr h))"

text \<open>The hook inside a manager: \<open>state\<close> is implied, \<open>schedule\<close>, \<open>idle_timeout\<close> and \<open>base\<close> have no field.\<close>

definition manager_hook :: "string \<Rightarrow> string \<Rightarrow> manager_json \<Rightarrow> hook_file" where
  "manager_hook mid sourcePath mj =
     \<lparr>hc_ID = mid, hc_ConcurrencyGroup = mj_ConcurrencyGroup mj, hc_Timeout = 0, hc_IdleTimeout = 0, hc_State = True, hc_Command = mj_Command mj,
      hc_Networks = mj_Networks mj, hc_User = mj_User mj, hc_Workdir = mj_Workdir mj, hc_Dind = mj_Dind mj, hc_Devices = mj_Devices mj,
      hc_Volumes = mj_Volumes mj, hc_Userns = mj_Userns mj, hk_APIKey = mj_APIKey mj, hk_APIKeyHeader = mj_APIKeyHeader mj,
      hk_PublicKey = mj_PublicKey mj, hk_SignatureHeader = mj_SignatureHeader mj, hk_Secret = mj_Secret mj, hk_Synchronous = mj_Synchronous mj,
      hk_Enable = mj_Enable mj, hk_SkipIf = mj_SkipIf mj, hk_RunTitle = mj_RunTitle mj, hk_titleTmpl = None,
      hf_SourcePath = sourcePath, hf_SrcRoot = [], hf_Schema = mj_Schema mj, hf_Description = mj_Description mj, hf_Base = [],
      hf_Script = mj_Script mj, hf_Tests = mj_Tests mj, hf_Settings = mj_Settings mj, hf_manifestSettings = [], hf_manifestRaw = [],
      hf_TimeoutRaw = mj_Timeout mj, hf_IdleTimeoutRaw = [], hf_Schedule = [], hf_GitHubStatus = mj_GitHubStatus mj\<rparr>"

definition ParseManager :: "tree \<Rightarrow> string \<Rightarrow> string \<Rightarrow> string \<Rightarrow> string + manager_file" where
  "ParseManager e mid sourcePath data = (case tr_manager e (NewReader data) of
     Inl err \<Rightarrow> Inl (''decode manager.json: '' @ err)
   | Inr mj \<Rightarrow> (case resolveScript e (with_timeouts e (manager_hook mid sourcePath mj)) of Inl err \<Rightarrow> Inl err
     | Inr h \<Rightarrow>
         if \<not> hasDockerfile e h then Inl ''manager must ship a Dockerfile next to manager.json (a manager runs an image built from its directory)''
         else case validate e h of Inl err \<Rightarrow> Inl err
         | Inr h \<Rightarrow>
             if list_ex (\<lambda>t. trim_space t = []) (mj_SpawnTargets mj) then Inl ''spawn_targets entries must be non-empty hook ids''
             else case check_duration e ''reconcile_interval'' (mj_ReconcileInterval mj) of Some err \<Rightarrow> Inl err
             | None \<Rightarrow> (case tr_managerSchema e sourcePath data of Some err \<Rightarrow> Inl err
                 | None \<Rightarrow> Inr \<lparr>mf_Hook = h, mf_ReconcileIntervalRaw = mj_ReconcileInterval mj, mf_SpawnTargets = mj_SpawnTargets mj\<rparr>)))"

subsection \<open>Layouts\<close>

record layout =
  ly_Root :: string
  ly_SDK :: bool

definition DetectLayout :: "tree \<Rightarrow> string \<Rightarrow> layout" where
  "DetectLayout e root = \<lparr>ly_Root = root, ly_SDK = (tr_stat e (path_Join [root, ''src'', ''hooks'']) = Some True)\<rparr>"

definition layout_String :: "layout \<Rightarrow> string" where
  "layout_String l = (if ly_SDK l then ''src'' else ''legacy'')"

definition HooksDir :: "layout \<Rightarrow> string" where
  "HooksDir l = (if ly_SDK l then path_Join [ly_Root l, ''src'', ''hooks''] else ly_Root l)"

definition SrcDir :: "layout \<Rightarrow> string" where
  "SrcDir l = (if ly_SDK l then path_Join [ly_Root l, ''src''] else [])"

definition ConcurrencyPath :: "layout \<Rightarrow> string" where
  "ConcurrencyPath l = (if ly_SDK l then path_Join [ly_Root l, ''cfg'', ''concurrency.json''] else path_Join [ly_Root l, ''concurrency.json''])"

definition ManagersDir :: "layout \<Rightarrow> string" where
  "ManagersDir l = (if ly_SDK l then path_Join [ly_Root l, ''src'', ''managers''] else [])"

definition SharedDirs :: "tree \<Rightarrow> string \<Rightarrow> string + string list" where
  "SharedDirs e srcRoot = (if srcRoot = [] then Inr []
     else case tr_list e srcRoot of DirMissing _ \<Rightarrow> Inr [] | DirErr err \<Rightarrow> Inl err
     | DirEntries es \<Rightarrow> Inr (map (\<lambda>(n, _). path_Join [srcRoot, n]) (filter (\<lambda>(n, d). d \<and> n \<noteq> ''hooks'' \<and> n \<noteq> ''managers'') es)))"

subsection \<open>Loading a tree\<close>

datatype load_error = HookLoadError string string | ManagerLoadError string string | ZeroHooksError string string
  | IgnoredLegacyDirError string | RefError string string | OtherError string

text \<open>\<open>Error()\<close> of the load errors.\<close>

fun load_text :: "(string \<Rightarrow> string) \<Rightarrow> load_error \<Rightarrow> string" where
  "load_text quote (HookLoadError hid err) = ''hook '' @ quote hid @ '': '' @ err"
| "load_text quote (ManagerLoadError mid err) = ''manager '' @ quote mid @ '': '' @ err"
| "load_text quote (ZeroHooksError dir lay) = ''no hooks loaded from '' @ dir @ '' ('' @ lay @ '' layout): an empty or mis-laid-out tree serves nothing '' @ em_dash @
     '' expected <root>/<id>/hook.json, or <root>/src/hooks/<id>/hook.json for the src layout''"
| "load_text quote (IgnoredLegacyDirError dir) = ''mixed hook layout: top-level hook directory '' @ dir @
     '' is not allowed when src/hooks/ exists (src layout active) '' @ em_dash @ '' it is NOT loaded and this is a hard error, not a silent skip; move it under src/hooks/<id>/ or delete it''"
| "load_text quote (RefError hid grp) = ''hook '' @ quote hid @ '' references undeclared concurrency group '' @ quote grp @ '' (declare it in concurrency.json or remove the reference)''"
| "load_text quote (OtherError err) = err"

text \<open>\<open>None\<close> when the directory has no manifest.\<close>

definition LoadOne :: "tree \<Rightarrow> string \<Rightarrow> string \<Rightarrow> (string + hook_file) option" where
  "LoadOne e root hid = (let p = path_Join [root, hid, ''hook.json''] in
     case tr_read e p of FileMissing \<Rightarrow> None | FileErr err \<Rightarrow> Some (Inl (''read '' @ p @ '': '' @ err))
     | FileData data \<Rightarrow> Some (hook_Parse e hid p data))"

definition ManagerFileName :: string where "ManagerFileName = ''manager.json''"

definition loadOneManager :: "tree \<Rightarrow> string \<Rightarrow> string \<Rightarrow> (string + manager_file) option" where
  "loadOneManager e root mid = (let p = path_Join [root, mid, ManagerFileName] in
     case tr_read e p of FileMissing \<Rightarrow> None | FileErr err \<Rightarrow> Some (Inl (''read '' @ p @ '': '' @ err))
     | FileData data \<Rightarrow> Some (ParseManager e mid p data))"

definition entity_dir :: "string \<times> bool \<Rightarrow> bool" where
  "entity_dir en \<longleftrightarrow> snd en \<and> fst en \<noteq> [] \<and> hd (fst en) \<noteq> CHR ''.''"

text \<open>The absolute source root, or the path as it is when \<open>Abs\<close> fails.\<close>

definition abs_src :: "tree \<Rightarrow> layout \<Rightarrow> string" where
  "abs_src e l = (case path_Abs (tr_cwd e) (SrcDir l) of Inl _ \<Rightarrow> SrcDir l | Inr d \<Rightarrow> d)"

fun hooks_loop :: "tree \<Rightarrow> layout \<Rightarrow> (string \<times> bool) list \<Rightarrow> (string, hook_file) fmap \<times> load_error list \<Rightarrow> (string, hook_file) fmap \<times> load_error list" where
  "hooks_loop e l [] acc = acc"
| "hooks_loop e l (en # ens) (hs, errs) =
     (if \<not> entity_dir en then hooks_loop e l ens (hs, errs)
      else case LoadOne e (HooksDir l) (fst en) of
        None \<Rightarrow> hooks_loop e l ens (hs, errs)
      | Some (Inl err) \<Rightarrow> hooks_loop e l ens (hs, errs @ [HookLoadError (fst en) err])
      | Some (Inr h) \<Rightarrow>
          let h = (if ly_SDK l then h\<lparr>hf_SrcRoot := abs_src e l\<rparr> else h) in
          case checkBase e h of Some err \<Rightarrow> hooks_loop e l ens (hs, errs @ [HookLoadError (fst en) err])
          | None \<Rightarrow> hooks_loop e l ens (fmupd (fst en) h hs, errs))"

definition findIgnoredLegacyDirs :: "tree \<Rightarrow> layout \<Rightarrow> load_error list" where
  "findIgnoredLegacyDirs e l = (case tr_list e (ly_Root l) of
     DirEntries es \<Rightarrow> map (\<lambda>(n, _). IgnoredLegacyDirError (path_Join [ly_Root l, n]))
       (filter (\<lambda>en. entity_dir en \<and> fst en \<noteq> ''src'' \<and> tr_stat e (path_Join [ly_Root l, fst en, ''hook.json'']) \<noteq> None) es)
   | _ \<Rightarrow> [])"

definition LoadLayout :: "tree \<Rightarrow> layout \<Rightarrow> (string, hook_file) fmap \<times> load_error list" where
  "LoadLayout e l = (case tr_list e (HooksDir l) of
     DirMissing err \<Rightarrow> (fmempty, [OtherError (''read hooks dir '' @ HooksDir l @ '': '' @ err)])
   | DirErr err \<Rightarrow> (fmempty, [OtherError (''read hooks dir '' @ HooksDir l @ '': '' @ err)])
   | DirEntries ens \<Rightarrow>
       let (hs, errs) = hooks_loop e l ens (fmempty, []);
           errs = (if ly_SDK l then errs @ findIgnoredLegacyDirs e l else errs)
       in (hs, if hs = fmempty then errs @ [ZeroHooksError (ly_Root l) (layout_String l)] else errs))"

definition LoadDir :: "tree \<Rightarrow> string \<Rightarrow> (string, hook_file) fmap \<times> load_error list" where
  "LoadDir e root = LoadLayout e (DetectLayout e root)"

fun managers_loop :: "tree \<Rightarrow> layout \<Rightarrow> (string \<times> bool) list \<Rightarrow> (string, manager_file) fmap \<times> load_error list \<Rightarrow> (string, manager_file) fmap \<times> load_error list" where
  "managers_loop e l [] acc = acc"
| "managers_loop e l (en # ens) (ms, errs) =
     (if \<not> entity_dir en then managers_loop e l ens (ms, errs)
      else case loadOneManager e (ManagersDir l) (fst en) of
        None \<Rightarrow> managers_loop e l ens (ms, errs)
      | Some (Inl err) \<Rightarrow> managers_loop e l ens (ms, errs @ [ManagerLoadError (fst en) err])
      | Some (Inr m) \<Rightarrow>
          let m = m\<lparr>mf_Hook := (mf_Hook m)\<lparr>hf_SrcRoot := abs_src e l\<rparr>\<rparr> in
          case checkBase e (mf_Hook m) of Some err \<Rightarrow> managers_loop e l ens (ms, errs @ [ManagerLoadError (fst en) err])
          | None \<Rightarrow> managers_loop e l ens (fmupd (fst en) m ms, errs))"

definition LoadManagers :: "tree \<Rightarrow> layout \<Rightarrow> (string, manager_file) fmap \<times> load_error list" where
  "LoadManagers e l = (if ManagersDir l = [] then (fmempty, [])
     else case tr_list e (ManagersDir l) of
       DirMissing _ \<Rightarrow> (fmempty, [])
     | DirErr err \<Rightarrow> (fmempty, [OtherError (''read managers dir '' @ ManagersDir l @ '': '' @ err)])
     | DirEntries ens \<Rightarrow> managers_loop e l ens (fmempty, []))"

text \<open>\<open>CheckSpawnTargets\<close>, over the managers in order of their ids.\<close>

definition target_error :: "(string \<Rightarrow> string) \<Rightarrow> (string, hook_file) fmap \<Rightarrow> (string, manager_file) fmap \<Rightarrow> string \<Rightarrow> string \<Rightarrow> load_error list" where
  "target_error quote hs ms mid t =
     (if fmlookup hs t \<noteq> None then []
      else if fmlookup ms t \<noteq> None then [ManagerLoadError mid (''spawn_targets entry '' @ quote t @ '' names a manager: only hooks are spawnable'')]
      else [ManagerLoadError mid (''spawn_targets entry '' @ quote t @ '' does not name a declared hook'')])"

definition CheckSpawnTargets :: "(string \<Rightarrow> string) \<Rightarrow> (string, hook_file) fmap \<Rightarrow> (string, manager_file) fmap \<Rightarrow> load_error list" where
  "CheckSpawnTargets quote hs ms =
     concat (map (\<lambda>(mid, m). concat (map (target_error quote hs ms mid) (mf_SpawnTargets m))) (sorted_list_of_fmap ms))"

subsection \<open>The registry\<close>

record registry =
  rg_hooks :: "(string, hook_file) fmap"
  rg_managers :: "(string, manager_file) fmap"

definition NewRegistry :: registry where
  "NewRegistry = \<lparr>rg_hooks = fmempty, rg_managers = fmempty\<rparr>"

definition reg_Replace :: "(string, hook_file) fmap \<Rightarrow> registry \<Rightarrow> registry" where
  "reg_Replace hs r = r\<lparr>rg_hooks := hs\<rparr>"

definition ReplaceManagers :: "(string, manager_file) fmap \<Rightarrow> registry \<Rightarrow> registry" where
  "ReplaceManagers ms r = r\<lparr>rg_managers := ms\<rparr>"

definition reg_Set :: "hook_file \<Rightarrow> registry \<Rightarrow> registry" where
  "reg_Set h r = r\<lparr>rg_hooks := fmupd (hc_ID h) h (rg_hooks r)\<rparr>"

definition reg_Delete :: "string \<Rightarrow> registry \<Rightarrow> registry" where
  "reg_Delete hid r = r\<lparr>rg_hooks := fmdrop hid (rg_hooks r)\<rparr>"

definition reg_Get :: "string \<Rightarrow> registry \<Rightarrow> hook_file option" where
  "reg_Get hid r = fmlookup (rg_hooks r) hid"

definition GetManager :: "string \<Rightarrow> registry \<Rightarrow> manager_file option" where
  "GetManager mid r = fmlookup (rg_managers r) mid"

definition reg_All :: "registry \<Rightarrow> hook_file list" where
  "reg_All r = sort_key hc_ID (map snd (sorted_list_of_fmap (rg_hooks r)))"

definition AllManagers :: "registry \<Rightarrow> manager_file list" where
  "AllManagers r = sort_key (\<lambda>m. hc_ID (mf_Hook m)) (map snd (sorted_list_of_fmap (rg_managers r)))"

record hook_summary =
  hs_ID :: string
  hs_Description :: string
  hs_Synchronous :: bool
  hs_Schedule :: string

definition reg_List :: "registry \<Rightarrow> hook_summary list" where
  "reg_List r = map (\<lambda>(hid, h). \<lparr>hs_ID = hid, hs_Description = hf_Description h, hs_Synchronous = hk_Synchronous h, hs_Schedule = hf_Schedule h\<rparr>)
     (sorted_list_of_fmap (rg_hooks r))"

subsection \<open>What validation guarantees\<close>

lemma first_error_none: "first_error f xs = None \<longleftrightarrow> (\<forall>x \<in> set xs. f x = None)"
  by (induction xs) (auto split: option.splits)

lemma check_tests_none: "check_tests i tcs = None \<longleftrightarrow> [] \<notin> set tcs"
  by (induction tcs arbitrary: i) auto

lemma shell_loop_none: "shell_loop e field i argv = None \<longleftrightarrow> (\<forall>arg \<in> set argv. \<forall>(tok, _) \<in> set shellSubstitutions. \<not> str_contains arg tok)"
proof (induction argv arbitrary: i)
  case (Cons arg argv)
  have "find (\<lambda>(tok, _). str_contains arg tok) shellSubstitutions = None \<longleftrightarrow> (\<forall>(tok, _) \<in> set shellSubstitutions. \<not> str_contains arg tok)"
    by (auto simp: find_None_iff)
  then show ?case using Cons by (auto split: option.splits)
qed simp

definition dur_ok :: "tree \<Rightarrow> string \<Rightarrow> bool" where
  "dur_ok e raw \<longleftrightarrow> raw = [] \<or> 0 < raw_duration e raw"

lemma check_duration_none: "check_duration e field raw = None \<Longrightarrow> dur_ok e raw"
  by (auto simp: check_duration_def dur_ok_def raw_duration_def split: if_splits sum.splits)

lemma auth_error_none: "auth_error e h = None \<longleftrightarrow> validateAuth (hook_decl.truncate h)"
  by (auto simp: auth_error_def validateAuth_def hook_decl.defs split: sum.splits)

text \<open>A loaded script stays inside the entity's directory, symbolic links resolved.\<close>

definition script_inside :: "tree \<Rightarrow> hook_file \<Rightarrow> bool" where
  "script_inside e h \<longleftrightarrow> (\<forall>s. hf_Script h = Some s \<longrightarrow> (\<exists>real dir. tr_real e (path_Join [path_Dir (hf_SourcePath h), sc_File s]) = Inr real \<and>
     tr_real e (path_Dir (hf_SourcePath h)) = Inr dir \<and> has_prefix real (dir @ ''/'')))"

text \<open>What the checks of a load leave true of an entity; \<open>checked\<close> leaves out the base image.\<close>

definition checked :: "tree \<Rightarrow> hook_file \<Rightarrow> bool" where
  "checked e h \<longleftrightarrow> hf_Schema h \<noteq> [] \<and> [] \<notin> set (hf_Tests h) \<and>
     dur_ok e (hf_TimeoutRaw h) \<and> dur_ok e (hf_IdleTimeoutRaw h) \<and> dur_ok e (hf_Schedule h) \<and>
     hc_Timeout h = raw_duration e (hf_TimeoutRaw h) \<and> hc_IdleTimeout h = raw_duration e (hf_IdleTimeoutRaw h) \<and>
     (\<forall>arg \<in> set (hc_Command h). \<forall>(tok, _) \<in> set shellSubstitutions. \<not> str_contains arg tok) \<and>
     skip_compile (tr_re e) 0 (hk_SkipIf h) = None \<and> compileRunTitle (hk_RunTitle h) = Inr (hk_titleTmpl h) \<and>
     validateAuth (hook_decl.truncate h) \<and> (\<forall>g. hf_GitHubStatus h = Some g \<longrightarrow> gs_Enabled g \<longrightarrow> gs_Context g \<noteq> []) \<and>
     \<not> (hc_Dind h \<and> hc_Userns h) \<and> hasDockerfile e h \<and> script_inside e h"

lemma resolveScript_ok:
  assumes "resolveScript e h = Inr h'"
  shows "(\<exists>cmd. h' = h\<lparr>hc_Command := cmd\<rparr>) \<and> script_inside e h"
proof (cases "hf_Script h")
  case None
  then have "h' = h\<lparr>hc_Command := hc_Command h\<rparr>" using assms by (simp add: resolveScript_def)
  then have "\<exists>cmd. h' = h\<lparr>hc_Command := cmd\<rparr>" by (rule exI [of _ "hc_Command h"])
  with None show ?thesis by (simp add: script_inside_def)
next
  case (Some s)
  have "h' = h\<lparr>hc_Command := hc_Command h\<rparr> \<or> (\<exists>cmd. h' = h\<lparr>hc_Command := cmd\<rparr>)"
    using assms Some by (auto simp: resolveScript_def Let_def split: if_splits option.splits sum.splits)
  moreover have "\<exists>real dir. tr_real e (path_Join [path_Dir (hf_SourcePath h), sc_File s]) = Inr real \<and>
     tr_real e (path_Dir (hf_SourcePath h)) = Inr dir \<and> has_prefix real (dir @ ''/'')"
    using assms Some by (auto simp: resolveScript_def Let_def split: if_splits option.splits sum.splits)
  moreover from calculation(1) have "\<exists>cmd. h' = h\<lparr>hc_Command := cmd\<rparr>" by blast
  ultimately show ?thesis using Some by (simp add: script_inside_def)
qed

text \<open>Fields the checks do not read.\<close>

lemma checks_frame [simp]:
  "script_inside e (h\<lparr>hc_Command := cmd\<rparr>) = script_inside e h" "script_inside e (h\<lparr>hf_Settings := s\<rparr>) = script_inside e h"
  "script_inside e (h\<lparr>hk_titleTmpl := t\<rparr>) = script_inside e h" "script_inside e (h\<lparr>hf_SrcRoot := r\<rparr>) = script_inside e h"
  "hasDockerfile e (h\<lparr>hc_Command := cmd\<rparr>) = hasDockerfile e h" "hasDockerfile e (h\<lparr>hf_Settings := s\<rparr>) = hasDockerfile e h"
  "hasDockerfile e (h\<lparr>hk_titleTmpl := t\<rparr>) = hasDockerfile e h" "hasDockerfile e (h\<lparr>hf_SrcRoot := r\<rparr>) = hasDockerfile e h"
  "script_inside e (h\<lparr>hf_manifestSettings := s\<rparr>) = script_inside e h" "hasDockerfile e (h\<lparr>hf_manifestSettings := s\<rparr>) = hasDockerfile e h"
  by (simp_all add: script_inside_def hasDockerfile_def hook_Dir_def)

lemma truncate_frame [simp]:
  "validateAuth (hook_decl.truncate (h\<lparr>hf_Settings := s\<rparr>)) = validateAuth (hook_decl.truncate h)"
  "validateAuth (hook_decl.truncate (h\<lparr>hk_titleTmpl := t\<rparr>)) = validateAuth (hook_decl.truncate h)"
  "validateAuth (hook_decl.truncate (h\<lparr>hf_SrcRoot := r\<rparr>)) = validateAuth (hook_decl.truncate h)"
  by (simp_all add: validateAuth_def hook_decl.defs)

lemma validate_ok:
  assumes "validate e h = Inr h'"
  shows "\<exists>s t. h' = h\<lparr>hf_Settings := s, hk_titleTmpl := t\<rparr> \<and> compileRunTitle (hk_RunTitle h) = Inr t \<and> hf_Schema h \<noteq> [] \<and>
    (\<forall>x \<in> set (validate_checks e h). x = None)"
proof -
  obtain s where s: "tr_settings e (hf_SourcePath h) (hf_Settings h) = Inr s" "hf_Schema h \<noteq> []"
    "first_error id (validate_checks e (h\<lparr>hf_Settings := s\<rparr>)) = None"
    "h' = h\<lparr>hf_Settings := s, hk_titleTmpl := (case compileRunTitle (hk_RunTitle h) of Inl _ \<Rightarrow> None | Inr t \<Rightarrow> t)\<rparr>"
    using assms by (auto simp: validate_def Let_def split: if_splits sum.splits option.splits)
  have "validate_checks e (h\<lparr>hf_Settings := s\<rparr>) = validate_checks e h"
    by (simp add: validate_checks_def auth_error_def)
  then have c: "\<forall>x \<in> set (validate_checks e h). x = None" using s(3) by (simp add: first_error_none)
  then obtain t where "compileRunTitle (hk_RunTitle h) = Inr t" by (auto simp: validate_checks_def split: sum.splits)
  with s c show ?thesis by auto
qed

lemma validated_checked:
  assumes "validate e h = Inr h'" "hasDockerfile e h" "script_inside e h"
    "hc_Timeout h = raw_duration e (hf_TimeoutRaw h)" "hc_IdleTimeout h = raw_duration e (hf_IdleTimeoutRaw h)"
  shows "checked e h' \<and> hc_ID h' = hc_ID h \<and> hf_SourcePath h' = hf_SourcePath h \<and> hf_SrcRoot h' = hf_SrcRoot h \<and> hf_Schedule h' = hf_Schedule h"
proof -
  obtain s t where h': "h' = h\<lparr>hf_Settings := s, hk_titleTmpl := t\<rparr>" and t: "compileRunTitle (hk_RunTitle h) = Inr t" "hf_Schema h \<noteq> []"
    and c: "\<forall>x \<in> set (validate_checks e h). x = None" using validate_ok [OF assms(1)] by blast
  have c1: "check_tests 0 (hf_Tests h) = None" "check_duration e ''timeout'' (hf_TimeoutRaw h) = None"
    "check_duration e ''idle_timeout'' (hf_IdleTimeoutRaw h) = None" "check_duration e ''schedule'' (hf_Schedule h) = None"
    "checkNoShellSubstitution e ''command'' (hc_Command h) = None" "skip_compile (tr_re e) 0 (hk_SkipIf h) = None" "auth_error e h = None"
    using c by (simp_all add: validate_checks_def)
  have "\<forall>g. hf_GitHubStatus h = Some g \<longrightarrow> gs_Enabled g \<longrightarrow> gs_Context g \<noteq> []" "\<not> (hc_Dind h \<and> hc_Userns h)"
    using c by (auto simp: validate_checks_def split: option.splits if_splits)
  with c1 t assms(2-5) show ?thesis
    by (simp add: checked_def h' check_tests_none check_duration_none shell_loop_none [of e "''command''" 0] checkNoShellSubstitution_def auth_error_none)
qed

lemma Parse_checked:
  assumes "hook_Parse e hid sp data = Inr h"
  shows "checked e h \<and> hc_ID h = hid \<and> hf_SourcePath h = sp \<and> tr_hookSchema e sp data = None"
proof -
  obtain h0 where "tr_hook e (NewReader data) = Inr h0" using assms by (auto simp: hook_Parse_def split: sum.splits)
  define h1 where "h1 = with_timeouts e (h0\<lparr>hc_ID := hid, hf_SourcePath := sp, hf_manifestRaw := NewReader data\<rparr>)"
  have "\<exists>h2. resolveScript e h1 = Inr h2 \<and> hasDockerfile e h2 \<and> validate e h2 = Inr h \<and> tr_hookSchema e sp data = None"
    using assms \<open>tr_hook e (NewReader data) = Inr h0\<close>
    by (auto simp: hook_Parse_def Let_def h1_def split: sum.splits if_splits option.splits)
  then obtain h2 where h2: "resolveScript e h1 = Inr h2" "hasDockerfile e h2" "validate e h2 = Inr h" "tr_hookSchema e sp data = None" by blast
  obtain cmd where cmd: "h2 = h1\<lparr>hc_Command := cmd\<rparr>" "script_inside e h1" using resolveScript_ok [OF h2(1)] by blast
  have "script_inside e h2" using cmd by simp
  moreover have "hc_Timeout h2 = raw_duration e (hf_TimeoutRaw h2)" "hc_IdleTimeout h2 = raw_duration e (hf_IdleTimeoutRaw h2)"
    "hc_ID h2 = hid" "hf_SourcePath h2 = sp" using cmd by (simp_all add: h1_def with_timeouts_def)
  ultimately show ?thesis using validated_checked [OF h2(3,2)] h2(4) by simp
qed

lemma ParseManager_checked:
  assumes "ParseManager e mid sp data = Inr m"
  shows "checked e (mf_Hook m) \<and> hc_ID (mf_Hook m) = mid \<and> hf_SourcePath (mf_Hook m) = sp \<and> hf_Schedule (mf_Hook m) = [] \<and>
    dur_ok e (mf_ReconcileIntervalRaw m) \<and> tr_managerSchema e sp data = None"
proof -
  obtain mj where "tr_manager e (NewReader data) = Inr mj" using assms by (auto simp: ParseManager_def split: sum.splits)
  define h1 where "h1 = with_timeouts e (manager_hook mid sp mj)"
  have "\<exists>h2. resolveScript e h1 = Inr h2 \<and> hasDockerfile e h2 \<and> validate e h2 = Inr (mf_Hook m) \<and>
      check_duration e ''reconcile_interval'' (mf_ReconcileIntervalRaw m) = None \<and> tr_managerSchema e sp data = None"
    using assms \<open>tr_manager e (NewReader data) = Inr mj\<close>
    by (auto simp: ParseManager_def h1_def split: sum.splits if_splits option.splits)
  then obtain h2 where h2: "resolveScript e h1 = Inr h2" "hasDockerfile e h2" "validate e h2 = Inr (mf_Hook m)"
    "check_duration e ''reconcile_interval'' (mf_ReconcileIntervalRaw m) = None" "tr_managerSchema e sp data = None" by blast
  obtain cmd where cmd: "h2 = h1\<lparr>hc_Command := cmd\<rparr>" "script_inside e h1" using resolveScript_ok [OF h2(1)] by blast
  have "script_inside e h2" using cmd by simp
  moreover have "hc_Timeout h2 = raw_duration e (hf_TimeoutRaw h2)" "hc_IdleTimeout h2 = raw_duration e (hf_IdleTimeoutRaw h2)"
    "hc_ID h2 = mid" "hf_SourcePath h2 = sp" "hf_Schedule h2 = []" using cmd by (simp_all add: h1_def with_timeouts_def manager_hook_def)
  ultimately show ?thesis using validated_checked [OF h2(3,2)] h2(4,5) check_duration_none by simp
qed

subsection \<open>No manifest is lost\<close>

text \<open>What one directory entry contributes.\<close>

definition hook_entry :: "tree \<Rightarrow> layout \<Rightarrow> string \<times> bool \<Rightarrow> (load_error + hook_file) option" where
  "hook_entry e l en = (if \<not> entity_dir en then None else case LoadOne e (HooksDir l) (fst en) of None \<Rightarrow> None
     | Some (Inl err) \<Rightarrow> Some (Inl (HookLoadError (fst en) err))
     | Some (Inr h) \<Rightarrow> let h = (if ly_SDK l then h\<lparr>hf_SrcRoot := abs_src e l\<rparr> else h) in
         (case checkBase e h of Some err \<Rightarrow> Some (Inl (HookLoadError (fst en) err)) | None \<Rightarrow> Some (Inr h)))"

definition manager_entry :: "tree \<Rightarrow> layout \<Rightarrow> string \<times> bool \<Rightarrow> (load_error + manager_file) option" where
  "manager_entry e l en = (if \<not> entity_dir en then None else case loadOneManager e (ManagersDir l) (fst en) of None \<Rightarrow> None
     | Some (Inl err) \<Rightarrow> Some (Inl (ManagerLoadError (fst en) err))
     | Some (Inr m) \<Rightarrow> let m = m\<lparr>mf_Hook := (mf_Hook m)\<lparr>hf_SrcRoot := abs_src e l\<rparr>\<rparr> in
         (case checkBase e (mf_Hook m) of Some err \<Rightarrow> Some (Inl (ManagerLoadError (fst en) err)) | None \<Rightarrow> Some (Inr m)))"

definition collect :: "(string \<times> bool \<Rightarrow> (load_error + 'a) option) \<Rightarrow> (string \<times> bool) list \<Rightarrow> (string, 'a) fmap \<times> load_error list \<Rightarrow>
    (string, 'a) fmap \<times> load_error list" where
  "collect f ens acc = (fold (\<lambda>en m. case f en of Some (Inr x) \<Rightarrow> fmupd (fst en) x m | _ \<Rightarrow> m) ens (fst acc),
     snd acc @ concat (map (\<lambda>en. case f en of Some (Inl err) \<Rightarrow> [err] | _ \<Rightarrow> []) ens))"

lemma hooks_loop_collect: "hooks_loop e l ens acc = collect (hook_entry e l) ens acc"
proof (induction ens arbitrary: acc)
  case (Cons en ens)
  obtain hs errs where acc: "acc = (hs, errs)" by (cases acc)
  show ?case
  proof (cases "entity_dir en \<and> LoadOne e (HooksDir l) (fst en) \<noteq> None")
    case False
    then show ?thesis using Cons by (auto simp: acc collect_def hook_entry_def)
  next
    case True
    then show ?thesis using Cons by (auto simp: acc collect_def hook_entry_def Let_def split: sum.splits option.splits)
  qed
qed (simp add: collect_def)

lemma managers_loop_collect: "managers_loop e l ens acc = collect (manager_entry e l) ens acc"
proof (induction ens arbitrary: acc)
  case (Cons en ens)
  obtain hs errs where acc: "acc = (hs, errs)" by (cases acc)
  show ?case
  proof (cases "entity_dir en \<and> loadOneManager e (ManagersDir l) (fst en) \<noteq> None")
    case False
    then show ?thesis using Cons by (auto simp: acc collect_def manager_entry_def)
  next
    case True
    then show ?thesis using Cons by (auto simp: acc collect_def manager_entry_def Let_def split: sum.splits option.splits)
  qed
qed (simp add: collect_def)

lemma collect_lookup:
  assumes "distinct (map fst ens)"
  shows "fmlookup (fst (collect f ens acc)) i = (case find (\<lambda>en. fst en = i) ens of None \<Rightarrow> fmlookup (fst acc) i
     | Some en \<Rightarrow> (case f en of Some (Inr x) \<Rightarrow> Some x | _ \<Rightarrow> fmlookup (fst acc) i))"
  using assms
proof (induction ens arbitrary: acc)
  case (Cons en ens)
  let ?m = "case f en of Some (Inr x) \<Rightarrow> fmupd (fst en) x (fst acc) | _ \<Rightarrow> fst acc"
  have s: "fst (collect f (en # ens) acc) = fst (collect f ens (?m, snd acc))" by (simp add: collect_def)
  have n: "find (\<lambda>x. fst x = i) ens = None" if "fst en = i"
    using that Cons.prems unfolding find_None_iff by (metis distinct.simps(2) imageI list.map(2) set_map)
  show ?case unfolding s using Cons.IH [of "(?m, snd acc)"] Cons.prems n by (auto split: option.splits sum.splits)
qed (simp add: collect_def)

lemma collect_mem:
  assumes "distinct (map fst ens)"
  shows "fmlookup (fst (collect f ens (fmempty, []))) i = Some x \<longleftrightarrow> (\<exists>d. (i, d) \<in> set ens \<and> f (i, d) = Some (Inr x))"
proof -
  have hit: "find (\<lambda>en. fst en = i) ens = Some (i, d)" if "(i, d) \<in> set ens" for d
    using assms that
  proof (induction ens)
    case (Cons a ens)
    then have "i \<in> fst ` set ens" if "a \<noteq> (i, d)" using that by (metis fst_conv imageI set_ConsD)
    with Cons show ?case by (cases "fst a = i"; cases "a = (i, d)") auto
  qed simp
  show ?thesis
  proof (cases "find (\<lambda>en. fst en = i) ens")
    case None
    then have "(i, d) \<notin> set ens" for d using hit by fastforce
    with None show ?thesis by (simp add: collect_lookup [OF assms])
  next
    case (Some en)
    then obtain d where d: "en = (i, d)" "(i, d) \<in> set ens" using find_set [OF Some] by (cases en) auto
    have "d' = d" if "(i, d') \<in> set ens" for d' using hit [OF that] hit [OF d(2)] by simp
    then have "(\<exists>d'. (i, d') \<in> set ens \<and> f (i, d') = Some (Inr x)) \<longleftrightarrow> f (i, d) = Some (Inr x)" using d(2) by blast
    moreover have "fmlookup (fst (collect f ens (fmempty, []))) i = Some x \<longleftrightarrow> f (i, d) = Some (Inr x)"
      using Some d(1) by (simp add: collect_lookup [OF assms] split: option.split sum.split)
    ultimately show ?thesis by simp
  qed
qed

lemma collect_errs: "set (snd (collect f ens (fmempty, []))) = {err. \<exists>en \<in> set ens. f en = Some (Inl err)}"
proof -
  have "err \<in> set (case f en of Some (Inl err) \<Rightarrow> [err] | _ \<Rightarrow> []) \<longleftrightarrow> f en = Some (Inl err)" for err en
    by (auto split: option.split sum.split)
  then show ?thesis by (simp add: collect_def set_eq_iff)
qed

definition entity_ok :: "tree \<Rightarrow> string \<Rightarrow> hook_file \<Rightarrow> bool" where
  "entity_ok e i h \<longleftrightarrow> checked e h \<and> hc_ID h = i \<and> checkBase e h = None \<and> i \<noteq> [] \<and> hd i \<noteq> CHR ''.''"

lemma checked_SrcRoot [simp]: "checked e (h\<lparr>hf_SrcRoot := r\<rparr>) = checked e h"
  by (simp add: checked_def)

lemma hook_entry_ok: "hook_entry e l (i, d) = Some (Inr h) \<Longrightarrow> entity_ok e i h"
proof -
  assume a: "hook_entry e l (i, d) = Some (Inr h)"
  then obtain h0 where h0: "LoadOne e (HooksDir l) i = Some (Inr h0)" "entity_dir (i, d)" "checkBase e h = None"
    "h = (if ly_SDK l then h0\<lparr>hf_SrcRoot := abs_src e l\<rparr> else h0)"
    by (auto simp: hook_entry_def Let_def split: if_splits option.splits sum.splits)
  obtain p data where "hook_Parse e i p data = Inr h0" using h0(1) by (auto simp: LoadOne_def Let_def split: file_read.splits)
  from Parse_checked [OF this] h0 show ?thesis by (auto simp: entity_ok_def entity_dir_def)
qed

lemma manager_entry_ok: "manager_entry e l (i, d) = Some (Inr m) \<Longrightarrow> entity_ok e i (mf_Hook m) \<and> hf_Schedule (mf_Hook m) = [] \<and> dur_ok e (mf_ReconcileIntervalRaw m)"
proof -
  assume a: "manager_entry e l (i, d) = Some (Inr m)"
  then obtain m0 where m0: "loadOneManager e (ManagersDir l) i = Some (Inr m0)" "entity_dir (i, d)" "checkBase e (mf_Hook m) = None"
    "m = m0\<lparr>mf_Hook := (mf_Hook m0)\<lparr>hf_SrcRoot := abs_src e l\<rparr>\<rparr>"
    by (auto simp: manager_entry_def Let_def split: if_splits option.splits sum.splits)
  obtain p data where "ParseManager e i p data = Inr m0" using m0(1) by (auto simp: loadOneManager_def Let_def split: file_read.splits)
  from ParseManager_checked [OF this] m0 show ?thesis by (auto simp: entity_ok_def entity_dir_def)
qed

text \<open>A directory listing: every name once.\<close>

definition listing_ok :: "tree \<Rightarrow> bool" where
  "listing_ok e \<longleftrightarrow> (\<forall>d ens. tr_list e d = DirEntries ens \<longrightarrow> distinct (map fst ens))"

lemma LoadLayout_ok:
  assumes "listing_ok e" "fmlookup (fst (LoadLayout e l)) i = Some h"
  shows "entity_ok e i h"
proof -
  obtain ens where ens: "tr_list e (HooksDir l) = DirEntries ens" using assms(2) by (auto simp: LoadLayout_def split: dir_read.splits)
  have "fst (LoadLayout e l) = fst (collect (hook_entry e l) ens (fmempty, []))"
    by (simp add: LoadLayout_def ens hooks_loop_collect case_prod_beta Let_def)
  moreover have "distinct (map fst ens)" using assms(1) ens by (simp add: listing_ok_def)
  ultimately show ?thesis using assms(2) collect_mem [of ens "hook_entry e l" i h] hook_entry_ok by auto
qed

lemma LoadManagers_ok:
  assumes "listing_ok e" "fmlookup (fst (LoadManagers e l)) i = Some m"
  shows "entity_ok e i (mf_Hook m) \<and> hf_Schedule (mf_Hook m) = [] \<and> dur_ok e (mf_ReconcileIntervalRaw m)"
proof -
  obtain ens where ens: "tr_list e (ManagersDir l) = DirEntries ens" "ManagersDir l \<noteq> []"
    using assms(2) by (auto simp: LoadManagers_def split: dir_read.splits if_splits)
  have "fst (LoadManagers e l) = fst (collect (manager_entry e l) ens (fmempty, []))"
    by (simp add: LoadManagers_def ens managers_loop_collect)
  moreover have "distinct (map fst ens)" using assms(1) ens by (simp add: listing_ok_def)
  ultimately show ?thesis using assms(2) collect_mem [of ens "manager_entry e l" i m] manager_entry_ok by auto
qed

lemma LoadLayout_accounts:
  assumes "listing_ok e" "tr_list e (HooksDir l) = DirEntries ens" "LoadLayout e l = (hs, errs)"
  shows "(\<forall>i h. fmlookup hs i = Some h \<longrightarrow> (i, True) \<in> set ens \<and> entity_ok e i h) \<and>
    (\<forall>i. (i, True) \<in> set ens \<and> i \<noteq> [] \<and> hd i \<noteq> CHR ''.'' \<and> tr_read e (path_Join [HooksDir l, i, ''hook.json'']) \<noteq> FileMissing \<longrightarrow>
       (fmlookup hs i \<noteq> None) = (\<not> (\<exists>err. HookLoadError i err \<in> set errs))) \<and>
    (errs = [] \<longrightarrow> hs \<noteq> fmempty)"
proof (intro conjI allI impI)
  have d: "distinct (map fst ens)" using assms(1,2) by (simp add: listing_ok_def)
  define more where "more = (if ly_SDK l then findIgnoredLegacyDirs e l else []) @ (if hs = fmempty then [ZeroHooksError (ly_Root l) (layout_String l)] else [])"
  have hs: "hs = fst (collect (hook_entry e l) ens (fmempty, []))" and er: "errs = snd (collect (hook_entry e l) ens (fmempty, [])) @ more"
    using assms(2,3) by (auto simp: LoadLayout_def hooks_loop_collect case_prod_beta Let_def more_def)
  have more: "HookLoadError i err \<notin> set more" for i err
    by (auto simp: more_def findIgnoredLegacyDirs_def split: dir_read.splits)
  note mem = collect_mem [OF d, of "hook_entry e l", folded hs]
  have unique: "d' = True" if "(i, True) \<in> set ens" "(i, d') \<in> set ens" for i d' using eq_key_imp_eq_value [OF d that] by simp
  { fix i h assume "fmlookup hs i = Some h"
    then obtain d where i: "(i, d) \<in> set ens" "hook_entry e l (i, d) = Some (Inr h)" unfolding mem by blast
    moreover from i(2) have d by (auto simp: hook_entry_def entity_dir_def split: if_splits)
    ultimately show "(i, True) \<in> set ens" "entity_ok e i h" using hook_entry_ok by auto }
  { fix i assume i: "(i, True) \<in> set ens \<and> i \<noteq> [] \<and> hd i \<noteq> CHR ''.'' \<and> tr_read e (path_Join [HooksDir l, i, ''hook.json'']) \<noteq> FileMissing"
    then have s: "hook_entry e l (i, True) \<noteq> None"
      by (auto simp: hook_entry_def entity_dir_def LoadOne_def Let_def split: file_read.splits sum.splits option.splits)
    have "fmlookup hs i \<noteq> None \<longleftrightarrow> (\<exists>h. hook_entry e l (i, True) = Some (Inr h))"
      using mem [of i] i unique [of i] by (metis option.exhaust option.distinct(1))
    moreover have "(\<exists>err. HookLoadError i err \<in> set errs) \<longleftrightarrow> (\<exists>err. hook_entry e l (i, True) = Some (Inl (HookLoadError i err)))"
    proof -
      have name: "err = HookLoadError (fst en) x" if "hook_entry e l en = Some (Inl err)" "x = (case err of HookLoadError _ x \<Rightarrow> x | _ \<Rightarrow> [])" for en err x
        using that by (auto simp: hook_entry_def Let_def split: if_splits option.splits sum.splits)
      have "HookLoadError i err \<in> set errs \<longleftrightarrow> (\<exists>en \<in> set ens. hook_entry e l en = Some (Inl (HookLoadError i err)))" for err
        using more by (simp add: er collect_errs)
      moreover have "fst en = i" if "hook_entry e l en = Some (Inl (HookLoadError i err))" for en err using name [OF that] by simp
      ultimately show ?thesis using i unique by (metis prod.collapse)
    qed
    moreover have "\<exists>err. x = HookLoadError i err" if "hook_entry e l (i, True) = Some (Inl x)" for x
      using that by (auto simp: hook_entry_def Let_def split: if_splits option.splits sum.splits)
    ultimately show "(fmlookup hs i \<noteq> None) = (\<not> (\<exists>err. HookLoadError i err \<in> set errs))"
      using s by (cases "the (hook_entry e l (i, True))") auto }
  show "hs \<noteq> fmempty" if "errs = []"
    using that assms(2,3) by (auto simp: LoadLayout_def case_prod_beta Let_def split: if_splits)
qed

lemma LoadManagers_accounts:
  assumes "listing_ok e" "tr_list e (ManagersDir l) = DirEntries ens" "ManagersDir l \<noteq> []" "LoadManagers e l = (ms, [])"
    and "(i, True) \<in> set ens" "i \<noteq> []" "hd i \<noteq> CHR ''.''" "tr_read e (path_Join [ManagersDir l, i, ManagerFileName]) \<noteq> FileMissing"
  shows "fmlookup ms i \<noteq> None"
proof -
  have d: "distinct (map fst ens)" using assms(1,2) by (simp add: listing_ok_def)
  have c: "collect (manager_entry e l) ens (fmempty, []) = (ms, [])" using assms(2-4) by (simp add: LoadManagers_def managers_loop_collect)
  have "manager_entry e l (i, True) \<noteq> None"
    using assms(6-8) by (auto simp: manager_entry_def entity_dir_def loadOneManager_def Let_def split: file_read.splits sum.splits option.splits)
  moreover have "manager_entry e l (i, True) \<noteq> Some (Inl err)" for err
    using collect_errs [of "manager_entry e l" ens] assms(5) by (auto simp: c)
  ultimately obtain m where "manager_entry e l (i, True) = Some (Inr m)" by (metis option.exhaust sum.exhaust)
  then show ?thesis using collect_mem [OF d, of "manager_entry e l" i m] assms(5) by (auto simp: c)
qed

text \<open>
  A load loses no manifest and serves only checked ones.  When the hooks directory can be listed, every
  directory in it (a name not starting with a dot) whose \<open>hook.json\<close> is not missing either becomes a hook
  with that id or is named by a load error, never both; every hook that is loaded has passed all the
  checks: it names a schema, its durations are positive and are what the server will use, its command
  carries no shell substitution, its script lies inside its directory, at most one credential is set, its
  base image and Dockerfile exist.  A load without errors loads at least one hook.
\<close>

theorem loader_accounts:
  assumes "listing_ok e" "tr_list e (HooksDir l) = DirEntries ens" "LoadLayout e l = (hs, errs)"
  shows "(\<forall>i h. fmlookup hs i = Some h \<longrightarrow> (i, True) \<in> set ens \<and> entity_ok e i h) \<and>
    (\<forall>i. (i, True) \<in> set ens \<and> i \<noteq> [] \<and> hd i \<noteq> CHR ''.'' \<and> tr_read e (path_Join [HooksDir l, i, ''hook.json'']) \<noteq> FileMissing \<longrightarrow>
       (fmlookup hs i \<noteq> None) = (\<not> (\<exists>err. HookLoadError i err \<in> set errs))) \<and>
    (errs = [] \<longrightarrow> hs \<noteq> fmempty)"
  using assms by (rule LoadLayout_accounts)

text \<open>A tree with one hook and one directory without a manifest.\<close>

definition tree_ex :: tree where
  "tree_ex = \<lparr>tr_read = (\<lambda>p. if p = ''/hooks/deploy/hook.json'' then FileData ''{}'' else FileMissing),
     tr_list = (\<lambda>_. DirEntries [(''assets'', True), (''deploy'', True)]), tr_stat = (\<lambda>_. None), tr_real = Inr, tr_cwd = Inr ''/'',
     tr_hook = (\<lambda>_. Inl ''bad''), tr_manager = (\<lambda>_. Inl ''bad''), tr_hookSchema = (\<lambda>_ _. None), tr_managerSchema = (\<lambda>_ _. None),
     tr_settings = (\<lambda>_. Inr), tr_dur = (\<lambda>_. Inl ''bad''), tr_durText = (\<lambda>_. []), tr_quote = id, tr_re = (\<lambda>_ _. None),
     tr_skipText = (\<lambda>_. []), tr_titleText = (\<lambda>_. []), tr_keyText = (\<lambda>_. [])\<rparr>"

theorem loader_accounts_witness:
  "fmlookup (fst (LoadLayout tree_ex \<lparr>ly_Root = ''/hooks'', ly_SDK = False\<rparr>)) ''deploy'' = None \<and>
   (\<exists>err. HookLoadError ''deploy'' err \<in> set (snd (LoadLayout tree_ex \<lparr>ly_Root = ''/hooks'', ly_SDK = False\<rparr>)))"
proof -
  let ?l = "\<lparr>ly_Root = ''/hooks'', ly_SDK = False\<rparr>"
  have ls: "listing_ok tree_ex" by (simp add: listing_ok_def tree_ex_def)
  have l: "tr_list tree_ex (HooksDir ?l) = DirEntries [(''assets'', True), (''deploy'', True)]" by (simp add: tree_ex_def)
  have r: "tr_read tree_ex (path_Join [HooksDir ?l, ''deploy'', ''hook.json'']) \<noteq> FileMissing" by code_simp
  have n: "fmlookup (fst (LoadLayout tree_ex ?l)) ''deploy'' = None" by code_simp
  from loader_accounts [OF ls l prod.collapse [symmetric], THEN conjunct2, THEN conjunct1, rule_format, of "''deploy''"] r n
  show ?thesis by (simp only: n) simp
qed

end
