(* ===== verification/SettingsDoc.thy ===== *)
theory SettingsDoc
  imports Loader
begin

text \<open>
  Model of \<^verbatim>\<open>internal/hooks/settingsoverride.go\<close>: operator overrides of single settings fields, addressed by
  JSON pointers.  A document is the decoded JSON value; the source writes into it in place, the model
  rebuilds the path to the changed field.  The JSON codec and the schema validator (third-party code) are
  arguments.  The lemmas show that an override changes the field it names and nothing beside it.
\<close>

datatype ptr_error = PtrEmpty | PtrNoSlash | PtrNoField "string list" | PtrIndex string nat | PtrScalar string

text \<open>\<open>strings.ReplaceAll\<close> of a two-byte pattern by one byte.\<close>

fun replace2 :: "char \<Rightarrow> char \<Rightarrow> char \<Rightarrow> string \<Rightarrow> string" where
  "replace2 a b r (x # y # zs) = (if x = a \<and> y = b then r # replace2 a b r zs else x # replace2 a b r (y # zs))"
| "replace2 a b r xs = xs"

definition unescape :: "string \<Rightarrow> string" where
  "unescape p = replace2 (CHR ''~'') (CHR ''0'') (CHR ''~'') (replace2 (CHR ''~'') (CHR ''1'') (CHR ''/'') p)"

definition parsePointer :: "string \<Rightarrow> ptr_error + string list" where
  "parsePointer p = (if p = [] then Inl PtrEmpty else if hd p \<noteq> CHR ''/'' then Inl PtrNoSlash
     else Inr (map unescape (split_on (CHR ''/'') (tl p))))"

definition array_index :: "string \<Rightarrow> json list \<Rightarrow> nat option" where
  "array_index tok node = (case parse_int tok of None \<Rightarrow> None
     | Some i \<Rightarrow> if i < 0 \<or> i \<ge> int (length node) then None else Some (nat i))"

text \<open>The walk of \<open>getAtPointer\<close>; \<open>pre\<close> holds the tokens already taken, for the message.\<close>

fun get_at :: "string list \<Rightarrow> json \<Rightarrow> string list \<Rightarrow> ptr_error + json" where
  "get_at pre cur [] = Inr cur"
| "get_at pre cur (tok # toks) = (case cur of
     JObj node \<Rightarrow> (case fmlookup node tok of None \<Rightarrow> Inl (PtrNoField (pre @ [tok])) | Some v \<Rightarrow> get_at (pre @ [tok]) v toks)
   | JArr node \<Rightarrow> (case array_index tok node of None \<Rightarrow> Inl (PtrIndex tok (length node)) | Some i \<Rightarrow> get_at (pre @ [tok]) (node ! i) toks)
   | _ \<Rightarrow> Inl (PtrScalar tok))"

definition getAtPointer :: "json \<Rightarrow> string \<Rightarrow> ptr_error + json" where
  "getAtPointer doc p = (case parsePointer p of Inl e \<Rightarrow> Inl e | Inr toks \<Rightarrow> get_at [] doc toks)"

fun set_at :: "string list \<Rightarrow> json \<Rightarrow> string list \<Rightarrow> json \<Rightarrow> ptr_error + json" where
  "set_at pre cur [] v = Inr v"
| "set_at pre cur (tok # toks) v = (case cur of
     JObj node \<Rightarrow> (case fmlookup node tok of None \<Rightarrow> Inl (PtrNoField (pre @ [tok]))
       | Some c \<Rightarrow> (case set_at (pre @ [tok]) c toks v of Inl e \<Rightarrow> Inl e | Inr c' \<Rightarrow> Inr (JObj (fmupd tok c' node))))
   | JArr node \<Rightarrow> (case array_index tok node of None \<Rightarrow> Inl (PtrIndex tok (length node))
       | Some i \<Rightarrow> (case set_at (pre @ [tok]) (node ! i) toks v of Inl e \<Rightarrow> Inl e | Inr c' \<Rightarrow> Inr (JArr (node[i := c']))))
   | _ \<Rightarrow> Inl (PtrScalar tok))"

definition setAtPointer :: "json \<Rightarrow> string \<Rightarrow> json \<Rightarrow> ptr_error + json" where
  "setAtPointer doc p v = (case parsePointer p of Inl e \<Rightarrow> Inl e | Inr toks \<Rightarrow> set_at [] doc toks v)"

record settings_env =
  sv_unmarshal :: "string \<Rightarrow> string + json"
  sv_marshal :: "json \<Rightarrow> string + string"
  sv_schema :: "string \<Rightarrow> string \<Rightarrow> string option"
  sv_ptrText :: "string \<Rightarrow> ptr_error \<Rightarrow> string"

definition SettingsRefPrefix :: string where "SettingsRefPrefix = ''${''"
definition EmptySettings :: string where "EmptySettings = ''{}''"

definition SettingsJSON :: "hook_file \<Rightarrow> string" where
  "SettingsJSON h = (if hf_Settings h = [] then EmptySettings else hf_Settings h)"

definition ManifestSettingsJSON :: "hook_file \<Rightarrow> string" where
  "ManifestSettingsJSON h = (if hf_manifestSettings h = [] then SettingsJSON h else hf_manifestSettings h)"

definition refuseReferenceSyntax :: "string \<Rightarrow> string \<Rightarrow> string option" where
  "refuseReferenceSyntax ptr raw = (if \<not> str_contains raw SettingsRefPrefix then None
     else Some (''override '' @ ptr @ '': values may not contain '' @ SettingsRefPrefix @ '' references '' @ em_dash @
       '' an override is a literal value, and a reference would resolve to something other than what was typed '' @
       ''(put references in the manifest, where their resolution is reviewed)''))"

fun overlay_loop :: "settings_env \<Rightarrow> (string \<times> string) list \<Rightarrow> json \<Rightarrow> string + json" where
  "overlay_loop s [] doc = Inr doc"
| "overlay_loop s ((ptr, raw) # ptrs) doc = (case refuseReferenceSyntax ptr raw of Some err \<Rightarrow> Inl err
     | None \<Rightarrow> (case sv_unmarshal s raw of Inl err \<Rightarrow> Inl (''override '' @ ptr @ '': value is not valid JSON: '' @ err)
       | Inr v \<Rightarrow> (case setAtPointer doc ptr v of Inl e \<Rightarrow> Inl (sv_ptrText s ptr e) | Inr doc' \<Rightarrow> overlay_loop s ptrs doc')))"

definition ApplySettingsOverrides :: "settings_env \<Rightarrow> pointer_map \<Rightarrow> hook_file \<Rightarrow> string option \<times> hook_file" where
  "ApplySettingsOverrides s ptrs h =
     (if ptrs = fmempty then (None, h)
      else case sv_unmarshal s (SettingsJSON h) of Inl err \<Rightarrow> (Some (''settings is not valid JSON: '' @ err), h)
      | Inr doc \<Rightarrow> (case overlay_loop s (sorted_list_of_fmap ptrs) doc of Inl err \<Rightarrow> (Some err, h)
        | Inr doc \<Rightarrow> (case sv_marshal s doc of Inl err \<Rightarrow> (Some (''merge settings overrides: '' @ err), h)
          | Inr merged \<Rightarrow> (case sv_schema s (hf_SourcePath h) (SettingsJSON (h\<lparr>hf_Settings := merged\<rparr>)) of Some err \<Rightarrow> (Some err, h)
            | None \<Rightarrow> (None, h\<lparr>hf_Settings := merged,
                hf_manifestSettings := (if hf_manifestSettings h = [] then hf_Settings h else hf_manifestSettings h)\<rparr>)))))"

definition ManifestPointerValue :: "settings_env \<Rightarrow> string \<Rightarrow> hook_file \<Rightarrow> string option" where
  "ManifestPointerValue s ptr h = (case sv_unmarshal s (ManifestSettingsJSON h) of Inl _ \<Rightarrow> None
     | Inr doc \<Rightarrow> (case getAtPointer doc ptr of Inl _ \<Rightarrow> None
       | Inr v \<Rightarrow> (case sv_marshal s v of Inl _ \<Rightarrow> None | Inr raw \<Rightarrow> Some raw)))"

subsection \<open>Pointers\<close>

text \<open>The escaping the format prescribes; \<open>unescape\<close> inverts it.\<close>

fun escape :: "string \<Rightarrow> string" where
  "escape [] = []"
| "escape (c # cs) = (if c = CHR ''~'' then ''~0'' else if c = CHR ''/'' then ''~1'' else [c]) @ escape cs"

lemma replace2_Cons: "x \<noteq> a \<Longrightarrow> replace2 a b r (x # xs) = x # replace2 a b r xs"
  by (cases xs) auto

lemma unescape_escape: "unescape (escape p) = p"
proof -
  have 1: "replace2 (CHR ''~'') (CHR ''1'') (CHR ''/'') (escape p) = concat (map (\<lambda>c. if c = CHR ''~'' then ''~0'' else [c]) p)" for p
    by (induction p) (auto simp: replace2_Cons)
  have 2: "replace2 (CHR ''~'') (CHR ''0'') (CHR ''~'') (concat (map (\<lambda>c. if c = CHR ''~'' then ''~0'' else [c]) p)) = p"
    by (induction p) (auto simp: replace2_Cons)
  show ?thesis by (simp add: unescape_def 1 2)
qed

lemma escape_no_slash: "CHR ''/'' \<notin> set (escape p)"
  by (induction p) auto

lemma split_pointer: "toks \<noteq> [] \<Longrightarrow> split_on (CHR ''/'') (tl (concat (map (\<lambda>t. CHR ''/'' # escape t) toks))) = map escape toks"
proof (induction toks)
  case (Cons t toks)
  show ?case
  proof (cases toks)
    case Nil
    then show ?thesis by (simp add: split_on_free escape_no_slash)
  next
    case (Cons u us)
    with Cons.IH show ?thesis by (simp add: split_on_append escape_no_slash)
  qed
qed simp

lemma parse_print_pointer: "toks \<noteq> [] \<Longrightarrow> parsePointer (concat (map (\<lambda>t. CHR ''/'' # escape t) toks)) = Inr toks"
  using split_pointer [of toks] by (cases toks) (auto simp: parsePointer_def unescape_escape comp_def)

text \<open>Two paths that part at some step: different field names, or different indexes.\<close>

fun paths_apart :: "string list \<Rightarrow> string list \<Rightarrow> bool" where
  "paths_apart (t # ts) (u # us) = (t \<noteq> u \<and> (parse_int t = None \<or> parse_int t \<noteq> parse_int u) \<or> paths_apart ts us)"
| "paths_apart _ _ = False"

lemma set_get: "set_at pre doc toks v = Inr doc' \<Longrightarrow> get_at pre' doc' toks = Inr v"
proof (induction pre doc toks v arbitrary: doc' pre' rule: set_at.induct)
  case (2 pre cur tok toks v)
  then show ?case by (auto simp: array_index_def split: json.splits option.splits sum.splits if_splits)
qed simp

lemma set_declared: "set_at pre doc toks v = Inr doc' \<Longrightarrow> \<exists>old. get_at pre' doc toks = Inr old"
proof (induction pre doc toks v arbitrary: doc' pre' rule: set_at.induct)
  case (2 pre cur tok toks v)
  then show ?case by (cases cur) (auto split: option.splits sum.splits)
qed simp

lemma set_other: "set_at pre doc toks v = Inr doc' \<Longrightarrow> paths_apart toks us \<Longrightarrow> get_at pre' doc' us = get_at pre' doc us"
proof (induction pre doc toks v arbitrary: doc' pre' us rule: set_at.induct)
  case (2 pre cur tok toks v)
  from "2.prems"(2) obtain u rest where us: "us = u # rest" by (cases us) auto
  show ?case
  proof (cases cur)
    case (JObj node)
    then obtain c c' where c: "fmlookup node tok = Some c" "set_at (pre @ [tok]) c toks v = Inr c'" "doc' = JObj (fmupd tok c' node)"
      using "2.prems"(1) by (auto split: option.splits sum.splits)
    then show ?thesis using "2.IH"(2) [OF JObj c(1,2)] "2.prems"(2) JObj us by (cases "u = tok") auto
  next
    case (JArr node)
    then obtain i c' where c: "array_index tok node = Some i" "set_at (pre @ [tok]) (node ! i) toks v = Inr c'" "doc' = JArr (node[i := c'])"
      using "2.prems"(1) by (auto split: option.splits sum.splits)
    have i: "i < length node" using c(1) by (auto simp: array_index_def split: option.splits if_splits)
    have ix: "array_index u (node[i := c']) = array_index u node" by (simp add: array_index_def split: option.split)
    show ?thesis
    proof (cases "array_index u node")
      case None
      then show ?thesis using JArr us c(3) ix by simp
    next
      case (Some j)
      show ?thesis
      proof (cases "j = i")
        case True
        then have "parse_int u = parse_int tok" using Some c(1) by (auto simp: array_index_def split: option.splits if_splits)
        then have "paths_apart toks rest" using "2.prems"(2) us c(1) by (auto simp: array_index_def split: option.splits)
        then show ?thesis using "2.IH"(1) [OF JArr c(1,2)] Some True JArr us c(3) ix i by simp
      next
        case False
        then show ?thesis using Some JArr us c(3) ix by simp
      qed
    qed
  qed (use "2.prems" in auto)
qed simp

subsection \<open>Overrides\<close>

text \<open>A pointer that parts from every pinned one; two pins that part from each other.\<close>

definition clear_of :: "string \<Rightarrow> string \<Rightarrow> bool" where
  "clear_of p q \<longleftrightarrow> (case (parsePointer p, parsePointer q) of (Inr ts, Inr us) \<Rightarrow> paths_apart ts us | _ \<Rightarrow> False)"

lemma setAtPointer_get: "setAtPointer doc p v = Inr doc' \<Longrightarrow> getAtPointer doc' p = Inr v"
  using set_get by (fastforce simp: setAtPointer_def getAtPointer_def split: sum.splits)

lemma setAtPointer_declared: "setAtPointer doc p v = Inr doc' \<Longrightarrow> \<exists>old. getAtPointer doc p = Inr old"
  using set_declared by (fastforce simp: setAtPointer_def getAtPointer_def split: sum.splits)

lemma setAtPointer_other: "setAtPointer doc p v = Inr doc' \<Longrightarrow> clear_of p q \<Longrightarrow> getAtPointer doc' q = getAtPointer doc q"
  using set_other by (fastforce simp: setAtPointer_def getAtPointer_def clear_of_def split: sum.splits)

lemma overlay_other: "overlay_loop s ptrs doc = Inr doc' \<Longrightarrow> \<forall>(p, _) \<in> set ptrs. clear_of p q \<Longrightarrow> getAtPointer doc' q = getAtPointer doc q"
proof (induction s ptrs doc rule: overlay_loop.induct)
  case (2 s ptr raw ptrs doc)
  then obtain v d where "setAtPointer doc ptr v = Inr d" "overlay_loop s ptrs d = Inr doc'" "clear_of ptr q"
    "getAtPointer doc' q = getAtPointer d q" by (auto split: option.splits sum.splits)
  then show ?case using setAtPointer_other by metis
qed simp

lemma overlay_pin:
  "overlay_loop s ptrs doc = Inr doc' \<Longrightarrow> (p, raw) \<in> set ptrs \<Longrightarrow> distinct (map fst ptrs) \<Longrightarrow>
   \<forall>(q, _) \<in> set ptrs. q \<noteq> p \<longrightarrow> clear_of q p \<Longrightarrow>
   \<exists>v old. sv_unmarshal s raw = Inr v \<and> \<not> str_contains raw SettingsRefPrefix \<and> getAtPointer doc' p = Inr v \<and> getAtPointer doc p = Inr old"
proof (induction s ptrs doc rule: overlay_loop.induct)
  case (2 s ptr raw' ptrs doc)
  obtain v d where v: "refuseReferenceSyntax ptr raw' = None" "sv_unmarshal s raw' = Inr v" "setAtPointer doc ptr v = Inr d" "overlay_loop s ptrs d = Inr doc'"
    using "2.prems"(1) by (auto split: option.splits sum.splits)
  show ?case
  proof (cases "ptr = p")
    case True
    then have r: "raw = raw'" "\<forall>(q, _) \<in> set ptrs. clear_of q p" using "2.prems"(2-4) by force+
    then have "getAtPointer doc' p = Inr v" using overlay_other [OF v(4) r(2)] setAtPointer_get [OF v(3)] True by simp
    with v r(1) setAtPointer_declared [OF v(3)] True show ?thesis by (auto simp: refuseReferenceSyntax_def split: if_splits)
  next
    case False
    then have "clear_of ptr p" using "2.prems"(4) by auto
    with False show ?thesis using "2.IH" [OF v(1-3) v(4)] "2.prems"(2-4) setAtPointer_other [OF v(3)] by auto
  qed
qed simp

text \<open>
  C34: An operator override pins a declared field and nothing else.  When the overrides of an entity are accepted,
  every pinned pointer (that is on no path of another pin) named a field the settings had before, and
  the settings its container gets read there the value the operator typed, which is a literal
  without references; at every pointer beside the pinned ones they
  read what they did before, so no override creates, removes or changes another field; the merged
  document satisfies the entity's schema, and the values of the manifest are kept for reverting.  When they
  are refused, the entity keeps its settings.
\<close>

theorem override_pins_field:
  assumes codec: "\<And>d raw. sv_marshal s d = Inr raw \<Longrightarrow> raw \<noteq> [] \<and> sv_unmarshal s raw = Inr d"
    and fresh: "hf_manifestSettings h = []" and doc: "sv_unmarshal s (SettingsJSON h) = Inr doc" and ptrs: "ptrs \<noteq> fmempty"
  shows "case ApplySettingsOverrides s ptrs h of
      (Some err, h') \<Rightarrow> h' = h
    | (None, h') \<Rightarrow> \<exists>doc'. sv_unmarshal s (SettingsJSON h') = Inr doc' \<and> sv_schema s (hf_SourcePath h) (SettingsJSON h') = None \<and>
        ManifestSettingsJSON h' = SettingsJSON (if hf_Settings h = [] then h' else h) \<and>
        (\<forall>p raw. fmlookup ptrs p = Some raw \<and> (\<forall>q. q \<noteq> p \<and> fmlookup ptrs q \<noteq> None \<longrightarrow> clear_of q p) \<longrightarrow>
           (\<exists>v old. sv_unmarshal s raw = Inr v \<and> \<not> str_contains raw SettingsRefPrefix \<and> getAtPointer doc' p = Inr v \<and> getAtPointer doc p = Inr old)) \<and>
        (\<forall>q. (\<forall>p. fmlookup ptrs p \<noteq> None \<longrightarrow> clear_of p q) \<longrightarrow> getAtPointer doc' q = getAtPointer doc q)"
proof (cases "ApplySettingsOverrides s ptrs h")
  case (Pair r h')
  show ?thesis
  proof (cases r)
    case (Some err)
    then show ?thesis using Pair by (auto simp: ApplySettingsOverrides_def split: if_splits sum.splits option.splits)
  next
    case None
    then obtain doc' merged where d: "overlay_loop s (sorted_list_of_fmap ptrs) doc = Inr doc'" "sv_marshal s doc' = Inr merged"
      "sv_schema s (hf_SourcePath h) (SettingsJSON (h\<lparr>hf_Settings := merged\<rparr>)) = None" "h' = h\<lparr>hf_Settings := merged, hf_manifestSettings := hf_Settings h\<rparr>"
      using Pair ptrs doc fresh by (auto simp: ApplySettingsOverrides_def split: sum.splits option.splits)
    have m: "merged \<noteq> []" "sv_unmarshal s merged = Inr doc'" using codec [OF d(2)] by simp_all
    have dist: "distinct (map fst (sorted_list_of_fmap ptrs))" by (simp add: sorted_list_of_fset.rep_eq)
    have pin: "\<exists>v old. sv_unmarshal s raw = Inr v \<and> \<not> str_contains raw SettingsRefPrefix \<and> getAtPointer doc' p = Inr v \<and> getAtPointer doc p = Inr old"
      if "fmlookup ptrs p = Some raw" "\<forall>q. q \<noteq> p \<and> fmlookup ptrs q \<noteq> None \<longrightarrow> clear_of q p" for p raw
    proof -
      have "(p, raw) \<in> set (sorted_list_of_fmap ptrs)" using that(1) by simp
      moreover have "\<forall>(q, _) \<in> set (sorted_list_of_fmap ptrs). q \<noteq> p \<longrightarrow> clear_of q p" using that(2) by (auto simp del: split_paired_All)
      ultimately show ?thesis by (rule overlay_pin [OF d(1) _ dist])
    qed
    have other: "getAtPointer doc' q = getAtPointer doc q" if "\<forall>p. fmlookup ptrs p \<noteq> None \<longrightarrow> clear_of p q" for q
    proof -
      have "\<forall>(p, _) \<in> set (sorted_list_of_fmap ptrs). clear_of p q" using that by auto
      then show ?thesis by (rule overlay_other [OF d(1)])
    qed
    have "SettingsJSON h' = merged" "SettingsJSON (h\<lparr>hf_Settings := merged\<rparr>) = merged" using m d(4) by (simp_all add: SettingsJSON_def)
    moreover have "ManifestSettingsJSON h' = SettingsJSON (if hf_Settings h = [] then h' else h)"
      using m d(4) by (simp add: ManifestSettingsJSON_def SettingsJSON_def)
    ultimately show ?thesis using Pair None m d(3) pin other by auto
  qed
qed

text \<open>A hook whose settings have two fields, the second a section with one field that is pinned.\<close>

definition settings_doc :: "bool \<Rightarrow> json" where
  "settings_doc v = JObj (fmap_of_list [(''a'', JBool False), (''n'', JObj (fmap_of_list [(''b'', JBool v)]))])"

definition settings_ex :: settings_env where
  "settings_ex = \<lparr>sv_unmarshal = (\<lambda>raw. if raw = ''plain'' then Inr (settings_doc False) else if raw = ''merged'' then Inr (settings_doc True)
       else if raw = ''true'' then Inr (JBool True) else Inl ''bad''),
     sv_marshal = (\<lambda>d. if d = settings_doc True then Inr ''merged'' else Inl ''bad''), sv_schema = (\<lambda>_ _. None), sv_ptrText = (\<lambda>_ _. [])\<rparr>"

definition settings_hook :: hook_file where
  "settings_hook = hook_decl.extend keyed_hook (hook_file.fields ''/hooks/ci/hook.json'' [] ''s'' [] [] None [] ''plain'' [] [] [] [] [] None)"

theorem override_pins_field_witness:
  "\<exists>h' doc'. ApplySettingsOverrides settings_ex (fmupd ''/n/b'' ''true'' fmempty) settings_hook = (None, h') \<and>
     sv_unmarshal settings_ex (SettingsJSON h') = Inr doc' \<and> getAtPointer doc' ''/n/b'' = Inr (JBool True) \<and>
     getAtPointer doc' ''/a'' = Inr (JBool False)"
proof -
  let ?p = "fmupd ''/n/b'' ''true'' fmempty"
  have h: "hf_manifestSettings settings_hook = []" "hf_Settings settings_hook = ''plain''" by (simp_all add: settings_hook_def hook_decl.defs hook_file.defs)
  have u: "sv_unmarshal settings_ex (SettingsJSON settings_hook) = Inr (settings_doc False)" by (simp add: SettingsJSON_def h settings_ex_def)
  have c: "raw \<noteq> [] \<and> sv_unmarshal settings_ex raw = Inr d" if "sv_marshal settings_ex d = Inr raw" for d raw
    using that by (auto simp: settings_ex_def split: if_splits)
  have "fst (ApplySettingsOverrides settings_ex ?p settings_hook) = None" by code_simp
  then obtain h' where r: "ApplySettingsOverrides settings_ex ?p settings_hook = (None, h')" by (metis prod.collapse)
  have a: "clear_of ''/n/b'' ''/a''" "getAtPointer (settings_doc False) ''/a'' = Inr (JBool False)" by code_simp+
  have ne: "?p \<noteq> fmempty" by (metis fmempty_lookup fmupd_lookup option.distinct(1))
  obtain doc' where d: "sv_unmarshal settings_ex (SettingsJSON h') = Inr doc'"
    and pin: "\<forall>p raw. fmlookup ?p p = Some raw \<and> (\<forall>q. q \<noteq> p \<and> fmlookup ?p q \<noteq> None \<longrightarrow> clear_of q p) \<longrightarrow>
        (\<exists>v old. sv_unmarshal settings_ex raw = Inr v \<and> \<not> str_contains raw SettingsRefPrefix \<and> getAtPointer doc' p = Inr v \<and>
           getAtPointer (settings_doc False) p = Inr old)"
    and other: "\<forall>q. (\<forall>p. fmlookup ?p p \<noteq> None \<longrightarrow> clear_of p q) \<longrightarrow> getAtPointer doc' q = getAtPointer (settings_doc False) q"
    using override_pins_field [of settings_ex, OF c h(1) u ne] unfolding r prod.case option.case by blast
  have "getAtPointer doc' ''/n/b'' = Inr (JBool True)" using pin [rule_format, of "''/n/b''" "''true''"] by (auto simp: settings_ex_def)
  moreover have "getAtPointer doc' ''/a'' = Inr (JBool False)" 
  proof -
    have "clear_of p ''/a''" if "fmlookup ?p p \<noteq> None" for p using that a(1) by (simp split: if_splits)
    with other a(2) show ?thesis by metis
  qed
  ultimately show ?thesis using r d by blast
qed

end
