(* ===== verification/LoadApply.thy ===== *)
theory LoadApply
  imports SettingsDoc Supervisor Concurrency Scheduler Attention Overrides
begin

text \<open>
  Model of \<^verbatim>\<open>internal/cli/loadapply.go\<close>, the reload routine shared by the watcher, the reload gate and the
  admin API, and of the entries \<^verbatim>\<open>internal/attention/derive.go\<close> derives from a load.  A reload reads a
  whole tree, then either refuses it or updates in turn the concurrency groups, the schedules, the two
  halves of the registry and the supervisor; each update is one critical section of its own lock, so the
  model keeps them as a list of sections.  Go maps are walked in order of their keys.
\<close>

subsection \<open>Entries derived from a load\<close>

definition SourceLoad :: string where "SourceLoad = ''load''"
definition SourceZeroHooks :: string where "SourceZeroHooks = ''zero-hooks''"
definition SourceSecrets :: string where "SourceSecrets = ''secrets''"
definition SourceTreeRefused :: string where "SourceTreeRefused = ''tree-refused''"
definition SourceGitHubStatus :: string where "SourceGitHubStatus = ''github-status''"
definition KeyLoad :: string where "KeyLoad = ''load''"
definition KeyZeroHooks :: string where "KeyZeroHooks = ''zero''"
definition KeySops :: string where "KeySops = ''sops''"
definition KeyGitHubStatus :: string where "KeyGitHubStatus = ''github_status''"
definition KeyTreeRefused :: string where "KeyTreeRefused = ''tree-refused''"

definition att :: "string \<Rightarrow> string \<Rightarrow> string \<Rightarrow> string \<Rightarrow> att_entry" where
  "att source hook key msg = \<lparr>a_Source = source, a_Hook = hook, a_Key = key, a_Message = msg, a_Since = 0\<rparr>"

definition TreeRefusedEntries :: "int \<Rightarrow> int \<Rightarrow> att_entry list" where
  "TreeRefusedEntries failed serving = (if failed = 0 then []
     else [att SourceTreeRefused [] KeyTreeRefused
       (''hooks tree REFUSED: '' @ append_int failed @ '' entit(y/ies) failed to load, so NONE of this tree was applied'' @
        (if serving > 0 then '' '' @ em_dash @ '' still serving the previous '' @ append_int serving @
           '' entit(y/ies). Fix the entries below (a fleet-wide failure usually means the deployed binary and this tree disagree about a manifest field) and the next reload applies.''
         else []))])"

fun load_entry :: "(string \<Rightarrow> string) \<Rightarrow> load_error \<Rightarrow> att_entry" where
  "load_entry quote (ZeroHooksError dir lay) = att SourceZeroHooks [] KeyZeroHooks (load_text quote (ZeroHooksError dir lay))"
| "load_entry quote (HookLoadError hid err) = att SourceLoad hid KeyLoad (''failed to load '' @ em_dash @ '' hook dropped: '' @ err)"
| "load_entry quote (RefError hid grp) = att SourceLoad hid KeyLoad (''dropped: '' @ load_text quote (RefError hid grp))"
| "load_entry quote (IgnoredLegacyDirError dir) = att SourceLoad (path_Base dir) KeyLoad (load_text quote (IgnoredLegacyDirError dir))"
| "load_entry quote err = att SourceLoad [] (''err:'' @ load_text quote err) (load_text quote err)"

definition FromLoadErrors :: "(string \<Rightarrow> string) \<Rightarrow> load_error list \<Rightarrow> att_entry list \<times> att_entry list" where
  "FromLoadErrors quote errs =
     (let (zero, load) = partition (\<lambda>en. a_Source en = SourceZeroHooks) (map (load_entry quote) errs) in (load, zero))"

definition oneLine :: "string \<Rightarrow> string" where
  "oneLine s = (let s = join_with '' '' (Fields s) in if length s \<le> 240 then s else take (cut_loop s 240) s @ ''...'')"

text \<open>One iteration of \<open>ProbeHooks\<close>.\<close>

definition probe_hook :: "auth_conf \<Rightarrow> string \<times> hook_file \<Rightarrow> att_entry list" where
  "probe_hook c ih = (case ih of (i, h) \<Rightarrow>
     (case (case au_secrets c of None \<Rightarrow> Inr fmempty | Some load \<Rightarrow> load (hc_ID h)) of
        Inl err \<Rightarrow> [att SourceSecrets i KeySops (''secrets.sops.env cannot be decrypted (runs fail before start; api_key auth fails closed): '' @ oneLine err)]
      | Inr vals \<Rightarrow>
          if hk_APIKey h = [] then []
          else let (expanded, missing) = ExpandEnvRefs (SecretsFirstLookup (au_env c) vals) (hk_APIKey h) in
            if missing \<noteq> [] then [att SourceSecrets i KeyAPIKey (''api_key reference ${'' @ join_with ''}, ${'' missing @
              ''} does not resolve (secrets.sops.env / host env) '' @ em_dash @ '' every delivery is denied (401)'')]
            else if expanded = [] then [att SourceSecrets i KeyAPIKey (''api_key expands to an empty value '' @ em_dash @ '' every delivery is denied (401)'')]
            else []))"

definition ProbeHooks :: "auth_conf \<Rightarrow> (string, hook_file) fmap \<Rightarrow> att_entry list" where
  "ProbeHooks c loaded = concat (map (probe_hook c) (sorted_list_of_fmap loaded))"

definition ApplyServeProbe :: "time \<Rightarrow> auth_conf \<Rightarrow> (string, hook_file) fmap \<Rightarrow> aggregator \<Rightarrow> aggregator" where
  "ApplyServeProbe now c loaded a =
     (let entries = ProbeHooks c loaded;
          a = ReplaceSource now SourceSecrets entries a;
          broken = map a_Hook (filter (\<lambda>e. a_Key e = KeyAPIKey \<or> a_Key e = KeySops) entries);
          (changed, a) = resolveWhereLocked (\<lambda>e. a_Source e = SourceEvent \<and>
            (fmlookup loaded (a_Hook e) = None \<or> a_Key e = KeyAPIKey \<and> a_Hook e \<notin> set broken)) a
      in notifyLocked changed a)"

definition GitHubStatusEntries :: "(string, hook_file) fmap \<Rightarrow> (string, manager_file) fmap \<Rightarrow> bool \<Rightarrow> att_entry list" where
  "GitHubStatusEntries loaded managers configured = (if configured then []
     else let flat = fmadd (fmmap (\<lambda>h. (h, ''hook'')) loaded) (fmmap (\<lambda>m. (mf_Hook m, ''manager'')) managers) in
       concat (map (\<lambda>(i, h, kind). case hf_GitHubStatus h of None \<Rightarrow> []
         | Some g \<Rightarrow> if \<not> gs_Enabled g then []
             else [att SourceGitHubStatus i KeyGitHubStatus (''this '' @ kind @ '' declares github_status (context '' @ gs_Context g @
               '') but the runner has no GitHub credential '' @ em_dash @ '' every commit status is dropped, and its runs still go green. '' @
               ''Set WEBHOOK_RUNNER_GITHUB_TOKEN, or WEBHOOK_RUNNER_SECRET_SERVER_TOKEN to read the credential from secret-server'')])
         (sorted_list_of_fmap flat)))"

subsection \<open>State\<close>

record fleet =
  fl_reg :: registry
  fl_groups :: mgr
  fl_sched :: "scheduler option"
  fl_sup :: "supervisor option"
  fl_agg :: aggregator
  fl_announced :: "string list"
  fl_feed :: "feed_event list"

text \<open>What a reload reads: the tree, the settings codec, the concurrency file, the secrets, the override
  store, whether a GitHub credential exists, the clock, and the answers the supervisor gets.\<close>

record reload_env =
  le_dir :: string
  le_tree :: tree
  le_settings :: settings_env
  le_cc :: "string \<Rightarrow> cc_read"
  le_ccText :: "cc_error \<Rightarrow> string"
  le_auth :: auth_conf
  le_ov :: "ov_store option"
  le_gh :: bool
  le_now :: time
  le_sup :: sup_ans

definition HookOverrides :: "ov_store option \<Rightarrow> (string, bool) fmap" where
  "HookOverrides so = (case so of None \<Rightarrow> fmempty | Some s \<Rightarrow> ov_hookEnable s)"

definition ConcurrencyLimits :: "ov_store option \<Rightarrow> (string, int) fmap" where
  "ConcurrencyLimits so = (case so of None \<Rightarrow> fmempty | Some s \<Rightarrow> ov_limits s)"

text \<open>What a load arrives at before it is applied or refused.\<close>

record plan =
  pl_hooks :: "(string, hook_file) fmap"
  pl_managers :: "(string, manager_file) fmap"
  pl_cfg :: cc_config
  pl_errs :: "load_error list"
  pl_feed :: "feed_event list"

subsection \<open>Loading\<close>

definition clash_text :: string where
  "clash_text = ''id collides with a hook of the same name (hooks and managers share one id namespace)''"

definition drop_keys :: "string list \<Rightarrow> (string, 'a) fmap \<Rightarrow> (string, 'a) fmap" where
  "drop_keys ks m = fold fmdrop ks m"

text \<open>One iteration of \<open>applySettingsOverrides\<close>.\<close>

definition override_entity :: "settings_env \<Rightarrow> string \<times> pointer_map \<Rightarrow> plan \<Rightarrow> plan" where
  "override_entity s ip pl =
     (let (i, ptrs) = ip;
          reject = (\<lambda>err pl. pl\<lparr>pl_feed := pl_feed pl @ [(''settings.override_rejected'',
            i @ '': settings override rejected, serving the manifest values instead (the override is kept, not deleted): '' @ err, [(''hook'', i)])]\<rparr>)
      in case fmlookup (pl_hooks pl) i of
           Some h \<Rightarrow> (case ApplySettingsOverrides s ptrs h of (None, h') \<Rightarrow> pl\<lparr>pl_hooks := fmupd i h' (pl_hooks pl)\<rparr>
             | (Some err, _) \<Rightarrow> reject err pl)
         | None \<Rightarrow> (case fmlookup (pl_managers pl) i of None \<Rightarrow> pl
             | Some m \<Rightarrow> (case ApplySettingsOverrides s ptrs (mf_Hook m) of
                 (None, h') \<Rightarrow> pl\<lparr>pl_managers := fmupd i (m\<lparr>mf_Hook := h'\<rparr>) (pl_managers pl)\<rparr>
               | (Some err, _) \<Rightarrow> reject err pl)))"

definition applySettingsOverrides :: "settings_env \<Rightarrow> ov_store option \<Rightarrow> plan \<Rightarrow> plan" where
  "applySettingsOverrides s ov pl = (let all = (case ov of None \<Rightarrow> fmempty | Some o' \<Rightarrow> AllSettingsOverrides o')
     in fold (override_entity s) (sorted_list_of_fmap all) pl)"

definition load_fleet :: "reload_env \<Rightarrow> plan" where
  "load_fleet e =
     (let quote = tr_quote (le_tree e);
          lay = DetectLayout (le_tree e) (le_dir e);
          (loaded, errs) = LoadLayout (le_tree e) lay;
          (managers, merrs) = LoadManagers (le_tree e) lay;
          clash = filter (\<lambda>i. fmlookup loaded i \<noteq> None) (sorted_list_of_fset (fmdom managers));
          errs = errs @ merrs @ map (\<lambda>i. ManagerLoadError i clash_text) clash;
          managers = drop_keys clash managers;
          (cfg, errs) = (case cc_LoadFile (le_cc e (ConcurrencyPath lay)) of
             Inl err \<Rightarrow> (fmempty, errs @ [OtherError (le_ccText e err)]) | Inr cfg \<Rightarrow> (cfg, errs));
          refs = fmadd (fmmap hc_ConcurrencyGroup loaded) (fmmap (\<lambda>m. hc_ConcurrencyGroup (mf_Hook m)) managers);
          bad = CheckRefs (Some cfg) refs;
          errs = errs @ map (\<lambda>(i, g). RefError i g) bad;
          loaded = drop_keys (map fst bad) loaded;
          managers = drop_keys (map fst bad) managers;
          serrs = CheckSpawnTargets quote loaded managers;
          errs = errs @ serrs;
          managers = drop_keys (concat (map (\<lambda>er. case er of ManagerLoadError i _ \<Rightarrow> [i] | _ \<Rightarrow> []) serrs)) managers
      in applySettingsOverrides (le_settings e) (le_ov e)
           \<lparr>pl_hooks = loaded, pl_managers = managers, pl_cfg = cfg, pl_errs = errs, pl_feed = []\<rparr>)"

subsection \<open>Applying\<close>

definition serving :: "registry \<Rightarrow> int" where
  "serving r = int (length (reg_All r)) + int (length (AllManagers r))"

record refused_error =
  re_errs :: "load_error list"
  re_serving :: int

definition refusedErrorSamples :: nat where "refusedErrorSamples = 3"

fun samples :: "(string \<Rightarrow> string) \<Rightarrow> nat \<Rightarrow> nat \<Rightarrow> load_error list \<Rightarrow> string" where
  "samples quote n i [] = []"
| "samples quote n i (err # errs) =
     (if i \<ge> refusedErrorSamples then ''; +'' @ append_int (int n - int refusedErrorSamples) @ '' more''
      else (if i > 0 then ''; '' else []) @ load_text quote err @ samples quote n (i + 1) errs)"

definition refused_Error :: "(string \<Rightarrow> string) \<Rightarrow> refused_error \<Rightarrow> string" where
  "refused_Error quote r = append_int (int (length (re_errs r))) @ '' entit(y/ies) failed to load, so the tree was REFUSED as a whole'' @
     (if re_serving r > 0 then '' (still serving the previous '' @ append_int (re_serving r) @ '')'' else []) @ '': '' @
     samples quote (length (re_errs r)) 0 (re_errs r) @
     (if re_serving r = 0 then '' -- this is the startup load, so there is no previous fleet to fall back to; '' @
        ''a binary that cannot load the deployed tree must not serve a fraction of it'' else [])"

text \<open>The manager as the supervisor reads it.\<close>

definition smgr_of :: "tree \<Rightarrow> manager_file \<Rightarrow> smgr" where
  "smgr_of t m = mgr_decl.extend (hook_decl.extend (hook_decl.truncate (mf_Hook m)) (mgr_decl.fields (mf_SpawnTargets m)))
     (smgr.fields (hf_Description (mf_Hook m)) (mf_ReconcileIntervalRaw m) (ReconcileInterval t m))"

definition schedules_of :: "tree \<Rightarrow> (string, hook_file) fmap \<Rightarrow> (string, duration) fmap" where
  "schedules_of t loaded = fmap_of_list (filter (\<lambda>(i, iv). iv > 0) (map (\<lambda>(i, h). (i, ScheduleInterval t h)) (sorted_list_of_fmap loaded)))"

definition sections :: "reload_env \<Rightarrow> plan \<Rightarrow> (fleet \<Rightarrow> fleet) list" where
  "sections e pl =
     [\<lambda>fl. fl\<lparr>fl_groups := mgr_Update (Some (pl_cfg pl)) (fl_groups fl)\<rparr>,
      \<lambda>fl. fl\<lparr>fl_sched := map_option (sched_Update (le_now e) (schedules_of (le_tree e) (pl_hooks pl))) (fl_sched fl)\<rparr>,
      \<lambda>fl. fl\<lparr>fl_reg := reg_Replace (pl_hooks pl) (fl_reg fl)\<rparr>,
      \<lambda>fl. fl\<lparr>fl_reg := ReplaceManagers (pl_managers pl) (fl_reg fl)\<rparr>,
      \<lambda>fl. fl\<lparr>fl_sup := map_option (sup_Update (le_sup e) (fmmap (smgr_of (le_tree e)) (pl_managers pl))) (fl_sup fl)\<rparr>]"

text \<open>The overrides whose target the load does not have: key, message and fields.\<close>

definition orphans :: "(string \<Rightarrow> string) \<Rightarrow> ov_store option \<Rightarrow> plan \<Rightarrow> (string \<times> string \<times> (string \<times> string) list) list" where
  "orphans quote ov pl =
     map (\<lambda>(i, enabled). (''hook:'' @ i, (if enabled then ''enable'' else ''disable'') @ '' override for hook '' @ quote i @
         '' is orphaned: the hook no longer exists (override kept; it re-applies if the hook returns)'', [(''hook'', i)]))
       (filter (\<lambda>(i, _). fmlookup (pl_hooks pl) i = None) (sorted_list_of_fmap (HookOverrides ov))) @
     map (\<lambda>(g, _). (''group:'' @ g, ''concurrency limit override for group '' @ quote g @
         '' is orphaned: the group is no longer declared (override kept; it re-applies if the group returns)'', [(''group'', g)]))
       (filter (\<lambda>(g, _). \<not> cc_Has (Some (pl_cfg pl)) g) (sorted_list_of_fmap (ConcurrencyLimits ov)))"

definition announceOrphanedOverrides :: "(string \<Rightarrow> string) \<Rightarrow> ov_store option \<Rightarrow> plan \<Rightarrow> fleet \<Rightarrow> fleet" where
  "announceOrphanedOverrides quote ov pl fl =
     (let current = orphans quote ov pl;
          (announced, feed) = fold (\<lambda>(key, msg, fields) (ann, feed). if key \<in> set ann then (ann, feed)
            else (ann @ [key], feed @ [(''override.orphaned'', msg, fields)])) current (fl_announced fl, fl_feed fl)
      in fl\<lparr>fl_announced := filter (\<lambda>key. key \<in> fst ` set current) announced, fl_feed := feed\<rparr>)"

definition load_events :: "(string \<Rightarrow> string) \<Rightarrow> plan \<Rightarrow> feed_event list" where
  "load_events quote pl = pl_feed pl @ map (\<lambda>err. (''hook.load_error'', load_text quote err, [])) (pl_errs pl)"

definition refuse :: "reload_env \<Rightarrow> plan \<Rightarrow> fleet \<Rightarrow> refused_error \<times> fleet" where
  "refuse e pl fl =
     (let quote = tr_quote (le_tree e); (load, zero) = FromLoadErrors quote (pl_errs pl);
          refusal = \<lparr>re_errs = pl_errs pl, re_serving = serving (fl_reg fl)\<rparr>
      in (refusal, fl\<lparr>fl_agg := ReplaceSource (le_now e) SourceTreeRefused (TreeRefusedEntries (int (length (pl_errs pl))) (serving (fl_reg fl)))
            (ReplaceSource (le_now e) SourceZeroHooks zero (ReplaceSource (le_now e) SourceLoad load (fl_agg fl))),
            fl_feed := fl_feed fl @ [(''hooks.refused'', refused_Error quote refusal, [])]\<rparr>))"

definition finish_reload :: "reload_env \<Rightarrow> plan \<Rightarrow> fleet \<Rightarrow> fleet" where
  "finish_reload e pl fl =
     (let now = le_now e;
          agg = fold (\<lambda>source. ReplaceSource now source []) [SourceLoad, SourceZeroHooks, SourceTreeRefused] (fl_agg fl);
          agg = ApplyServeProbe now (le_auth e) (pl_hooks pl) agg;
          agg = ReplaceSource now SourceGitHubStatus (GitHubStatusEntries (pl_hooks pl) (pl_managers pl) (le_gh e)) agg;
          fl = announceOrphanedOverrides (tr_quote (le_tree e)) (le_ov e) pl (fl\<lparr>fl_agg := agg\<rparr>)
      in fl\<lparr>fl_feed := fl_feed fl @ [(''hooks.reloaded'', append_int (fmlen (pl_hooks pl)) @ '' hook(s) + '' @ append_int (fmlen (pl_managers pl)) @
            '' manager(s) loaded, '' @ append_int (fmlen (pl_cfg pl)) @ '' concurrency group(s), '' @
            append_int (fmlen (schedules_of (le_tree e) (pl_hooks pl))) @ '' scheduled'', [])]\<rparr>)"

definition loadAndApply :: "reload_env \<Rightarrow> fleet \<Rightarrow> refused_error option \<times> fleet" where
  "loadAndApply e fl =
     (let pl = load_fleet e; fl = fl\<lparr>fl_feed := fl_feed fl @ load_events (tr_quote (le_tree e)) pl\<rparr> in
      if pl_errs pl \<noteq> [] then let (r, fl) = refuse e pl fl in (Some r, fl)
      else (None, finish_reload e pl (fold id (sections e pl) fl)))"

subsection \<open>What a load arrives at\<close>

text \<open>An entity without its settings, which is all an override changes.\<close>

definition bare :: "hook_file \<Rightarrow> hook_file" where
  "bare h = h\<lparr>hf_Settings := [], hf_manifestSettings := []\<rparr>"

definition bare_manager :: "manager_file \<Rightarrow> manager_file" where
  "bare_manager m = m\<lparr>mf_Hook := bare (mf_Hook m)\<rparr>"

lemma ApplySettingsOverrides_bare: "ApplySettingsOverrides s pp h = (r, h') \<Longrightarrow> bare h' = bare h"
  by (auto simp: ApplySettingsOverrides_def bare_def split: if_splits sum.splits option.splits)

definition same_bare :: "plan \<Rightarrow> plan \<Rightarrow> bool" where
  "same_bare pl pl' \<longleftrightarrow> pl_errs pl' = pl_errs pl \<and> pl_cfg pl' = pl_cfg pl \<and>
     (\<forall>i. map_option bare (fmlookup (pl_hooks pl') i) = map_option bare (fmlookup (pl_hooks pl) i)) \<and>
     (\<forall>i. map_option bare_manager (fmlookup (pl_managers pl') i) = map_option bare_manager (fmlookup (pl_managers pl) i))"

lemma override_entity_bare: "same_bare pl (override_entity s ip pl)"
proof -
  obtain i pp where ip: "ip = (i, pp)" by (cases ip)
  show ?thesis
  proof (cases "fmlookup (pl_hooks pl) i")
    case (Some h)
    obtain r h' where r: "ApplySettingsOverrides s pp h = (r, h')" by (cases "ApplySettingsOverrides s pp h")
    show ?thesis using ApplySettingsOverrides_bare [OF r] Some r
      by (cases r) (auto simp: ip override_entity_def same_bare_def)
  next
    case None
    show ?thesis
    proof (cases "fmlookup (pl_managers pl) i")
      case (Some m)
      obtain r h' where r: "ApplySettingsOverrides s pp (mf_Hook m) = (r, h')" by (cases "ApplySettingsOverrides s pp (mf_Hook m)")
      show ?thesis using ApplySettingsOverrides_bare [OF r] Some None r
        by (cases r) (auto simp: ip override_entity_def same_bare_def bare_manager_def)
    qed (simp add: ip override_entity_def same_bare_def None)
  qed
qed

lemma overrides_bare: "same_bare pl (fold (override_entity s) xs pl)"
proof (induction xs arbitrary: pl)
  case (Cons x xs)
  from Cons.IH [of "override_entity s x pl"] override_entity_bare [of pl s x] show ?case by (simp add: same_bare_def)
qed (simp add: same_bare_def)

text \<open>A load without errors: nothing was dropped on the way.\<close>

definition clean_load :: "reload_env \<Rightarrow> (string, hook_file) fmap \<Rightarrow> (string, manager_file) fmap \<Rightarrow> cc_config \<Rightarrow> bool" where
  "clean_load e hs ms cfg \<longleftrightarrow> (let lay = DetectLayout (le_tree e) (le_dir e) in
     LoadLayout (le_tree e) lay = (hs, []) \<and> LoadManagers (le_tree e) lay = (ms, []) \<and> cc_LoadFile (le_cc e (ConcurrencyPath lay)) = Inr cfg \<and>
     (\<forall>i. fmlookup hs i = None \<or> fmlookup ms i = None) \<and>
     CheckRefs (Some cfg) (fmadd (fmmap hc_ConcurrencyGroup hs) (fmmap (\<lambda>m. hc_ConcurrencyGroup (mf_Hook m)) ms)) = [] \<and>
     CheckSpawnTargets (tr_quote (le_tree e)) hs ms = [])"

lemma drop_keys_Nil [simp]: "drop_keys [] m = m"
  by (simp add: drop_keys_def)

lemma no_clash: "filter (\<lambda>i. fmlookup hs i \<noteq> None) (sorted_list_of_fset (fmdom ms)) = [] \<longleftrightarrow> (\<forall>i. fmlookup hs i = None \<or> fmlookup ms i = None)"
  by (auto simp: filter_empty_conv fmlookup_dom_iff)

lemma load_fleet_clean:
  assumes "pl_errs (load_fleet e) = []"
  shows "\<exists>hs ms cfg. clean_load e hs ms cfg \<and> same_bare \<lparr>pl_hooks = hs, pl_managers = ms, pl_cfg = cfg, pl_errs = [], pl_feed = []\<rparr> (load_fleet e)"
proof -
  define lay where "lay = DetectLayout (le_tree e) (le_dir e)"
  obtain hs errs where h: "LoadLayout (le_tree e) lay = (hs, errs)" by (cases "LoadLayout (le_tree e) lay")
  obtain ms merrs where m: "LoadManagers (le_tree e) lay = (ms, merrs)" by (cases "LoadManagers (le_tree e) lay")
  have ov: "same_bare pl (applySettingsOverrides s ov pl)" for s ov pl
    using overrides_bare by (auto simp: applySettingsOverrides_def Let_def)
  then have err: "pl_errs (applySettingsOverrides s ov pl) = pl_errs pl" for s ov pl by (simp add: same_bare_def)
  define clash where "clash = filter (\<lambda>i. fmlookup hs i \<noteq> None) (sorted_list_of_fset (fmdom ms))"
  define cfg where "cfg = (case cc_LoadFile (le_cc e (ConcurrencyPath lay)) of Inl err \<Rightarrow> fmempty | Inr cfg \<Rightarrow> cfg)"
  define cerrs where "cerrs = (case cc_LoadFile (le_cc e (ConcurrencyPath lay)) of Inl err \<Rightarrow> [OtherError (le_ccText e err)] | Inr cfg \<Rightarrow> [])"
  define ms1 where "ms1 = drop_keys clash ms"
  define bad where "bad = CheckRefs (Some cfg) (fmadd (fmmap hc_ConcurrencyGroup hs) (fmmap (\<lambda>m. hc_ConcurrencyGroup (mf_Hook m)) ms1))"
  define serrs where "serrs = CheckSpawnTargets (tr_quote (le_tree e)) (drop_keys (map fst bad) hs) (drop_keys (map fst bad) ms1)"
  define es where "es = errs @ merrs @ map (\<lambda>i. ManagerLoadError i clash_text) clash @ cerrs @ map (\<lambda>(i, g). RefError i g) bad @ serrs"
  have lf: "load_fleet e = applySettingsOverrides (le_settings e) (le_ov e)
      \<lparr>pl_hooks = drop_keys (map fst bad) hs,
       pl_managers = drop_keys (concat (map (\<lambda>er. case er of ManagerLoadError i _ \<Rightarrow> [i] | _ \<Rightarrow> []) serrs)) (drop_keys (map fst bad) ms1),
       pl_cfg = cfg, pl_errs = es, pl_feed = []\<rparr>"
    unfolding load_fleet_def es_def serrs_def bad_def ms1_def cerrs_def cfg_def clash_def
    by (simp add: Let_def lay_def [symmetric] h m split: sum.split)
  have "es = []" using assms by (simp add: lf err)
  then have n: "errs = []" "merrs = []" "clash = []" "cerrs = []" "bad = []" "serrs = []" by (simp_all add: es_def)
  then have ms: "ms1 = ms" by (simp add: ms1_def)
  have c: "cc_LoadFile (le_cc e (ConcurrencyPath lay)) = Inr cfg"
    using n(4) by (auto simp: cerrs_def cfg_def split: sum.splits)
  have "clean_load e hs ms cfg"
    unfolding clean_load_def Let_def lay_def [symmetric]
    using h m n c no_clash [of hs ms] by (simp add: clash_def bad_def serrs_def ms)
  moreover have "load_fleet e = applySettingsOverrides (le_settings e) (le_ov e)
      \<lparr>pl_hooks = hs, pl_managers = ms, pl_cfg = cfg, pl_errs = [], pl_feed = []\<rparr>"
    using lf n ms \<open>es = []\<close> by simp
  ultimately show ?thesis using ov by metis
qed

subsection \<open>Attention\<close>

definition source_clear :: "string \<Rightarrow> aggregator \<Rightarrow> bool" where
  "source_clear src a \<longleftrightarrow> (\<forall>i en. fmlookup (at_entries a) i = Some en \<longrightarrow> a_Source en \<noteq> src)"

lemma source_clear_Replace:
  "source_clear src (ReplaceSource now src [] a)" "T \<noteq> src \<Longrightarrow> source_clear src a \<Longrightarrow> source_clear src (ReplaceSource now T es a)"
  by (auto simp: source_clear_def fmlookup_ReplaceSource next_entries_lookup split: option.splits if_splits)

lemma source_clear_Probe: "src \<noteq> SourceSecrets \<Longrightarrow> source_clear src a \<Longrightarrow> source_clear src (ApplyServeProbe now c hs a)"
  using source_clear_Replace(2) [of SourceSecrets src a now "ProbeHooks c hs"]
  by (auto simp: ApplyServeProbe_def Let_def case_prod_beta source_clear_def resolveWhere_lookup split: option.splits if_splits)

lemmas source_names = SourceLoad_def SourceZeroHooks_def SourceSecrets_def SourceTreeRefused_def SourceGitHubStatus_def SourceEvent_def

lemma finish_clear:
  assumes "src \<in> {SourceLoad, SourceZeroHooks, SourceTreeRefused}"
  shows "source_clear src (fl_agg (finish_reload e pl fl))"
  using assms
  by (auto simp: finish_reload_def Let_def announceOrphanedOverrides_def case_prod_beta source_names source_clear_Replace source_clear_Probe)

lemma finish_frame [simp]:
  "fl_reg (finish_reload e pl fl) = fl_reg fl" "fl_groups (finish_reload e pl fl) = fl_groups fl"
  "fl_sched (finish_reload e pl fl) = fl_sched fl" "fl_sup (finish_reload e pl fl) = fl_sup fl"
  by (simp_all add: finish_reload_def Let_def announceOrphanedOverrides_def case_prod_beta)

lemma refused_entry: "failed > 0 \<Longrightarrow>
  \<exists>y. fmlookup (at_entries (ReplaceSource now SourceTreeRefused (TreeRefusedEntries failed n) a)) (identity (att SourceTreeRefused [] KeyTreeRefused [])) = Some y"
  by (simp add: fmlookup_ReplaceSource next_entries_lookup TreeRefusedEntries_def att_def identity_def)

subsection \<open>All or nothing\<close>

lemma update_group_dom: "fmdom (fst (fold (update_group m) xs acc)) = fmdom (fst acc) |\<union>| fset_of_list (map fst xs)"
  by (induction xs arbitrary: acc) (auto simp: update_group_def Let_def case_prod_beta split: option.split)

lemma mgr_Update_dom: "fmdom (m_groups (mgr_Update (Some c) m)) = fmdom c"
proof -
  have "fset_of_list (map fst (sorted_list_of_fmap c)) = fmdom c"
    by (rule fset_eqI) (simp add: fset_of_list_elem sorted_list_of_fset.rep_eq)
  then show ?thesis using update_group_dom [of m "sorted_list_of_fmap c" "(fmempty, m_sems m)"]
    by (simp add: mgr_Update_def case_prod_beta Let_def)
qed

lemma fold_sections:
  "fl_reg (fold id (sections e pl) fl) = \<lparr>rg_hooks = pl_hooks pl, rg_managers = pl_managers pl\<rparr>"
  "fl_groups (fold id (sections e pl) fl) = mgr_Update (Some (pl_cfg pl)) (fl_groups fl)"
  "fl_sched (fold id (sections e pl) fl) = map_option (sched_Update (le_now e) (schedules_of (le_tree e) (pl_hooks pl))) (fl_sched fl)"
  "fl_sup (fold id (sections e pl) fl) = map_option (sup_Update (le_sup e) (fmmap (smgr_of (le_tree e)) (pl_managers pl))) (fl_sup fl)"
  by (simp_all add: sections_def reg_Replace_def ReplaceManagers_def)

lemma truncate_manifestSettings [simp]: "hook_decl.truncate (h\<lparr>hf_manifestSettings := s\<rparr>) = hook_decl.truncate h"
  by (simp add: hook_decl.defs)

lemma entity_ok_bare: "entity_ok t i (bare h) = entity_ok t i h"
  by (simp add: entity_ok_def checked_def bare_def checkBase_def BaseDir_def)

text \<open>What a clean load serves, entity by entity.\<close>

lemma same_bare_hook:
  assumes "same_bare pl pl'" "fmlookup (pl_hooks pl') i = Some h"
  shows "\<exists>h0. fmlookup (pl_hooks pl) i = Some h0 \<and> bare h = bare h0"
proof -
  have "map_option bare (fmlookup (pl_hooks pl') i) = map_option bare (fmlookup (pl_hooks pl) i)" using assms(1) unfolding same_bare_def by blast
  then show ?thesis using assms(2) by (cases "fmlookup (pl_hooks pl) i") auto
qed

lemma same_bare_manager:
  assumes "same_bare pl pl'" "fmlookup (pl_managers pl') i = Some m"
  shows "\<exists>m0. fmlookup (pl_managers pl) i = Some m0 \<and> bare_manager m = bare_manager m0"
proof -
  have "map_option bare_manager (fmlookup (pl_managers pl') i) = map_option bare_manager (fmlookup (pl_managers pl) i)"
    using assms(1) unfolding same_bare_def by blast
  then show ?thesis using assms(2) by (cases "fmlookup (pl_managers pl) i") auto
qed

lemma clean_hooks:
  assumes "listing_ok (le_tree e)" "clean_load e hs ms cfg" "same_bare \<lparr>pl_hooks = hs, pl_managers = ms, pl_cfg = cfg, pl_errs = [], pl_feed = []\<rparr> pl"
    and "fmlookup (pl_hooks pl) i = Some h"
  shows "\<exists>h0. fmlookup hs i = Some h0 \<and> bare h = bare h0 \<and> entity_ok (le_tree e) i h"
proof -
  obtain h0 where h0: "fmlookup hs i = Some h0" "bare h = bare h0" using same_bare_hook [OF assms(3,4)] by auto
  have "entity_ok (le_tree e) i h0" using LoadLayout_ok [OF assms(1), of "DetectLayout (le_tree e) (le_dir e)" i h0] assms(2) h0(1) by (simp add: clean_load_def Let_def)
  then show ?thesis using h0 entity_ok_bare by metis
qed

lemma clean_managers:
  assumes "listing_ok (le_tree e)" "clean_load e hs ms cfg" "same_bare \<lparr>pl_hooks = hs, pl_managers = ms, pl_cfg = cfg, pl_errs = [], pl_feed = []\<rparr> pl"
    and "fmlookup (pl_managers pl) i = Some m"
  shows "\<exists>m0. fmlookup ms i = Some m0 \<and> bare_manager m = bare_manager m0 \<and> entity_ok (le_tree e) i (mf_Hook m)"
proof -
  obtain m0 where m0: "fmlookup ms i = Some m0" "bare_manager m = bare_manager m0" using same_bare_manager [OF assms(3,4)] by auto
  have "entity_ok (le_tree e) i (mf_Hook m0)"
    using LoadManagers_ok [OF assms(1), of "DetectLayout (le_tree e) (le_dir e)" i m0] assms(2) m0(1) by (simp add: clean_load_def Let_def)
  moreover have "bare (mf_Hook m) = bare (mf_Hook m0)" using arg_cong [OF m0(2), of mf_Hook] by (simp add: bare_manager_def)
  ultimately show ?thesis using m0 entity_ok_bare by metis
qed

lemma same_bare_None: "same_bare pl pl' \<Longrightarrow> (fmlookup (pl_hooks pl') i = None) = (fmlookup (pl_hooks pl) i = None)"
  "same_bare pl pl' \<Longrightarrow> (fmlookup (pl_managers pl') i = None) = (fmlookup (pl_managers pl) i = None)"
  unfolding same_bare_def by (metis option.map_disc_iff)+

lemma hook_entry_manifest: "hook_entry e l (i, d) = Some (Inr h) \<Longrightarrow> tr_read e (path_Join [HooksDir l, i, ''hook.json'']) \<noteq> FileMissing"
  by (auto simp: hook_entry_def LoadOne_def Let_def split: if_splits option.splits sum.splits file_read.splits)

lemma LoadLayout_manifest:
  assumes "listing_ok e" "fmlookup (fst (LoadLayout e l)) i = Some h"
  shows "tr_read e (path_Join [HooksDir l, i, ''hook.json'']) \<noteq> FileMissing"
proof -
  obtain ens where ens: "tr_list e (HooksDir l) = DirEntries ens" using assms(2) by (auto simp: LoadLayout_def split: dir_read.splits)
  have "fst (LoadLayout e l) = fst (collect (hook_entry e l) ens (fmempty, []))"
    by (simp add: LoadLayout_def ens hooks_loop_collect case_prod_beta Let_def)
  moreover have "distinct (map fst ens)" using assms(1) ens by (simp add: listing_ok_def)
  ultimately show ?thesis using assms(2) collect_mem [of ens "hook_entry e l" i h] hook_entry_manifest by auto
qed

text \<open>Where a loaded manager comes from.\<close>

definition manager_dir :: "tree \<Rightarrow> layout \<Rightarrow> string \<Rightarrow> bool" where
  "manager_dir t l i \<longleftrightarrow> ManagersDir l \<noteq> [] \<and> (\<exists>ens. tr_list t (ManagersDir l) = DirEntries ens \<and> (i, True) \<in> set ens) \<and>
     i \<noteq> [] \<and> hd i \<noteq> CHR ''.'' \<and> tr_read t (path_Join [ManagersDir l, i, ManagerFileName]) \<noteq> FileMissing"

lemma LoadManagers_dir:
  assumes "listing_ok e" "fmlookup (fst (LoadManagers e l)) i = Some m"
  shows "manager_dir e l i"
proof -
  obtain ens where ens: "tr_list e (ManagersDir l) = DirEntries ens" "ManagersDir l \<noteq> []"
    using assms(2) by (auto simp: LoadManagers_def split: dir_read.splits if_splits)
  have "fst (LoadManagers e l) = fst (collect (manager_entry e l) ens (fmempty, []))"
    by (simp add: LoadManagers_def ens managers_loop_collect)
  moreover have "distinct (map fst ens)" using assms(1) ens by (simp add: listing_ok_def)
  ultimately obtain d where d: "(i, d) \<in> set ens" "manager_entry e l (i, d) = Some (Inr m)"
    using assms(2) collect_mem [of ens "manager_entry e l" i m] by auto
  then have "d" "i \<noteq> []" "hd i \<noteq> CHR ''.''" "tr_read e (path_Join [ManagersDir l, i, ManagerFileName]) \<noteq> FileMissing"
    by (auto simp: manager_entry_def entity_dir_def loadOneManager_def Let_def split: if_splits option.splits sum.splits file_read.splits)
  then show ?thesis using d(1) ens by (auto simp: manager_dir_def)
qed

text \<open>What the checks leave true of a manager's manifest.\<close>

definition manager_ok :: "tree \<Rightarrow> string \<Rightarrow> manager_file \<Rightarrow> bool" where
  "manager_ok t i m \<longleftrightarrow> entity_ok t i (mf_Hook m) \<and> hf_Schedule (mf_Hook m) = [] \<and> dur_ok t (mf_ReconcileIntervalRaw m)"

lemma bare_sels: "bare h = bare h0 \<Longrightarrow> hc_ConcurrencyGroup h = hc_ConcurrencyGroup h0 \<and> hf_Schedule h = hf_Schedule h0"
  by (metis bare_def hook_file.select_convs hook_conf.select_convs hook_file.surjective hook_file.update_convs)

lemma bare_manager_sels: "bare_manager m = bare_manager m0 \<Longrightarrow> bare (mf_Hook m) = bare (mf_Hook m0) \<and> mf_SpawnTargets m = mf_SpawnTargets m0 \<and>
    mf_ReconcileIntervalRaw m = mf_ReconcileIntervalRaw m0"
  by (metis bare_manager_def manager_file.select_convs manager_file.surjective manager_file.update_convs)

lemma CheckSpawnTargets_none:
  assumes "CheckSpawnTargets quote hs ms = []" "fmlookup ms i = Some m" "x \<in> set (mf_SpawnTargets m)"
  shows "fmlookup hs x \<noteq> None"
proof -
  have "\<forall>d \<in> set (sorted_list_of_fmap ms). (case d of (mid, m) \<Rightarrow> concat (map (target_error quote hs ms mid) (mf_SpawnTargets m))) = []"
    using assms(1) unfolding CheckSpawnTargets_def by simp
  from bspec [OF this, of "(i, m)"] have "target_error quote hs ms i x = []" using assms(2,3) by simp
  then show ?thesis by (auto simp: target_error_def split: if_splits)
qed

lemma clean_manager_ok:
  assumes "listing_ok (le_tree e)" "clean_load e hs ms cfg" "same_bare \<lparr>pl_hooks = hs, pl_managers = ms, pl_cfg = cfg, pl_errs = [], pl_feed = []\<rparr> pl"
    and "fmlookup (pl_managers pl) i = Some m"
  shows "manager_dir (le_tree e) (DetectLayout (le_tree e) (le_dir e)) i" "manager_ok (le_tree e) i m"
    "x \<in> set (mf_SpawnTargets m) \<Longrightarrow> fmlookup (pl_hooks pl) x \<noteq> None"
proof -
  obtain m0 where m0: "fmlookup ms i = Some m0" "bare_manager m = bare_manager m0" "entity_ok (le_tree e) i (mf_Hook m)"
    using clean_managers [OF assms] by blast
  have l: "fmlookup (fst (LoadManagers (le_tree e) (DetectLayout (le_tree e) (le_dir e)))) i = Some m0"
    using assms(2) m0(1) by (simp add: clean_load_def Let_def)
  show "manager_dir (le_tree e) (DetectLayout (le_tree e) (le_dir e)) i" using LoadManagers_dir [OF assms(1) l] .
  show "manager_ok (le_tree e) i m"
    using LoadManagers_ok [OF assms(1) l] m0(3) bare_manager_sels [OF m0(2)] bare_sels [of "mf_Hook m" "mf_Hook m0"] by (auto simp: manager_ok_def)
  show "fmlookup (pl_hooks pl) x \<noteq> None" if "x \<in> set (mf_SpawnTargets m)"
  proof -
    have "fmlookup hs x \<noteq> None" using CheckSpawnTargets_none [OF _ m0(1)] assms(2) that bare_manager_sels [OF m0(2)] by (auto simp: clean_load_def Let_def)
    then show ?thesis using same_bare_None(1) [OF assms(3), of x] by simp
  qed
qed


subsection \<open>The fleet between reloads\<close>

text \<open>What else moves: runs and operators on the groups, the ticker on the schedules, everything but
  \<open>Update\<close> on the supervisor, and whatever is reported to the aggregator and the feed.\<close>

inductive group_move :: "mgr \<Rightarrow> mgr \<Rightarrow> bool" for m where
  thread: "i < length (m_thr m) \<Longrightarrow> thr_step i m m' \<Longrightarrow> group_move m m'"
| enter: "group_move m (acquire_enter grp runID notify now m)"
| set_override: "group_move m (snd (SetLimitOverride grp limit m))"
| clear_override: "group_move m (ClearLimitOverride grp m)"

inductive sup_session :: "supervisor \<Rightarrow> supervisor \<Rightarrow> bool" for s where
  leased: "sup_session s (sup_leased s)"
| shutdown: "sup_session s (sup_Shutdown s)"
| poke: "sup_session s (sup_Poke mid s)"
| stop: "sup_session s (sup_RequestStop mid reason s)"
| deliver: "sup_session s (snd (sup_Deliver a mid hdr payload s))"
| title: "sup_session s (snd (instance_title mid inst title s))"
| loop: "loop_next a k s = Some s' \<Longrightarrow> sup_session s s'"
| session: "session_next a act k s = Some s' \<Longrightarrow> sup_session s s'"

text \<open>Reloads in flight: what each has read, and how many of its five sections it has executed.  Each
  section is one step, so that everything else can happen between two of them; \<open>dur\<close> is
  \<open>time.ParseDuration\<close>, the same for every reload.  With \<open>overlap = False\<close> a reload starts only when no
  other is in flight, which the program does not ensure.\<close>

record fleet_world =
  fw_fleet :: fleet
  fw_reloads :: "(reload_env \<times> nat) list"

definition plan_ok :: "(string \<Rightarrow> string + duration) \<Rightarrow> reload_env \<Rightarrow> bool" where
  "plan_ok dur e \<longleftrightarrow> listing_ok (le_tree e) \<and> tr_dur (le_tree e) = dur \<and> pl_errs (load_fleet e) = []"

definition begin_reload :: "reload_env \<Rightarrow> fleet \<Rightarrow> fleet" where
  "begin_reload e fl = fl\<lparr>fl_feed := fl_feed fl @ load_events (tr_quote (le_tree e)) (load_fleet e)\<rparr>"

inductive fleet_step :: "(string \<Rightarrow> string + duration) \<Rightarrow> bool \<Rightarrow> fleet_world \<Rightarrow> fleet_world \<Rightarrow> bool" for dur overlap w where
  begin_load: "plan_ok dur e \<Longrightarrow> overlap \<or> fw_reloads w = [] \<Longrightarrow>
    fleet_step dur overlap w (w\<lparr>fw_fleet := begin_reload e (fw_fleet w), fw_reloads := (e, 0) # fw_reloads w\<rparr>)"
| refused: "pl_errs (load_fleet e) \<noteq> [] \<Longrightarrow>
    fleet_step dur overlap w (w\<lparr>fw_fleet := snd (refuse e (load_fleet e) (begin_reload e (fw_fleet w)))\<rparr>)"
| section_done: "r < length (fw_reloads w) \<Longrightarrow> fw_reloads w ! r = (e, k) \<Longrightarrow> k < length (sections e (load_fleet e)) \<Longrightarrow>
    fleet_step dur overlap w (w\<lparr>fw_fleet := (sections e (load_fleet e) ! k) (fw_fleet w), fw_reloads := (fw_reloads w)[r := (e, Suc k)]\<rparr>)"
| finished: "r < length (fw_reloads w) \<Longrightarrow> fw_reloads w ! r = (e, length (sections e (load_fleet e))) \<Longrightarrow>
    fleet_step dur overlap w (w\<lparr>fw_fleet := finish_reload e (load_fleet e) (fw_fleet w),
      fw_reloads := take r (fw_reloads w) @ drop (Suc r) (fw_reloads w)\<rparr>)"
| groups: "group_move (fl_groups (fw_fleet w)) m \<Longrightarrow> fleet_step dur overlap w (w\<lparr>fw_fleet := (fw_fleet w)\<lparr>fl_groups := m\<rparr>\<rparr>)"
| tick: "fl_sched (fw_fleet w) = Some s \<Longrightarrow>
    fleet_step dur overlap w (w\<lparr>fw_fleet := (fw_fleet w)\<lparr>fl_sched := Some (snd (sched_fireDue now s))\<rparr>\<rparr>)"
| supervise: "fl_sup (fw_fleet w) = Some s \<Longrightarrow> sup_session s s' \<Longrightarrow> fleet_step dur overlap w (w\<lparr>fw_fleet := (fw_fleet w)\<lparr>fl_sup := Some s'\<rparr>\<rparr>)"
| report: "fleet_step dur overlap w (w\<lparr>fw_fleet := (fw_fleet w)\<lparr>fl_agg := a, fl_feed := f\<rparr>\<rparr>)"

definition fleet_init :: "fleet \<Rightarrow> bool" where
  "fleet_init fl \<longleftrightarrow> fl_reg fl = NewRegistry \<and> (\<forall>s. fl_sched fl = Some s \<longrightarrow> s = fmempty) \<and> (\<forall>s. fl_sup fl = Some s \<longrightarrow> s = new_supervisor)"

text \<open>An entity may use its group when it is declared.\<close>

definition group_declared :: "mgr \<Rightarrow> hook_file \<Rightarrow> bool" where
  "group_declared m h \<longleftrightarrow> hc_ConcurrencyGroup h = [] \<or> fmlookup (m_groups m) (hc_ConcurrencyGroup h) \<noteq> None"

text \<open>The interval a hook's schedule stands for.\<close>

definition hook_interval :: "(string \<Rightarrow> string + duration) \<Rightarrow> hook_file \<Rightarrow> duration option" where
  "hook_interval dur h = (if hf_Schedule h = [] then None else case dur (hf_Schedule h) of Inl _ \<Rightarrow> None | Inr d \<Rightarrow> Some d)"

definition fleet_ok :: "(string \<Rightarrow> string + duration) \<Rightarrow> fleet \<Rightarrow> bool" where
  "fleet_ok dur fl \<longleftrightarrow> (let hs = rg_hooks (fl_reg fl); ms = rg_managers (fl_reg fl) in
     (\<forall>i h. fmlookup hs i = Some h \<longrightarrow> hc_ID h = i \<and> fmlookup ms i = None \<and> group_declared (fl_groups fl) h) \<and>
     (\<forall>i m. fmlookup ms i = Some m \<longrightarrow> hc_ID (mf_Hook m) = i \<and> group_declared (fl_groups fl) (mf_Hook m) \<and> (\<forall>t \<in> set (mf_SpawnTargets m). fmlookup hs t \<noteq> None)) \<and>
     (\<forall>s i. fl_sched fl = Some s \<longrightarrow> fmlookup (Schedules s) i = Option.bind (fmlookup hs i) (hook_interval dur)) \<and>
     (\<forall>s. fl_sup fl = Some s \<longrightarrow> (\<exists>t. tr_dur t = dur \<and> su_desired s = fmmap (smgr_of t) ms)))"

lemma group_move_dom: "group_move m m' \<Longrightarrow> fmdom (m_groups m') = fmdom (m_groups m)"
proof (induction rule: group_move.induct)
  case (thread i m')
  from this(2) show ?case
    by (cases rule: thr_step.cases) (simp_all add: count_waiting_def granted_section_def cancel_section_def rebind_section_def release_section_def split: option.split)
next
  case (enter grp runID notify now)
  then show ?case by (simp add: acquire_enter_def Let_def split: option.split)
next
  case (set_override grp limit)
  then show ?case by (auto simp: SetLimitOverride_def Let_def swap_sem_def fmlookup_dom_iff split: option.split)
next
  case (clear_override grp)
  then show ?case by (auto simp: ClearLimitOverride_def Let_def swap_sem_def fmlookup_dom_iff split: option.split)
qed

lemma desired_frame [simp]: "su_desired (sup_upd p f s) = su_desired s" "su_desired (set_loop k pc s) = su_desired s"
  "su_desired (startLoopLocked p s) = su_desired s" "su_desired (requestStopLocked p r s) = su_desired s" "su_desired (pokeLocked p s) = su_desired s"
  by (simp_all add: sup_upd_def set_loop_def startLoopLocked_def requestStopLocked_def pokeLocked_def)

lemma desired_fold: "(\<And>x s. su_desired (f x s) = su_desired s) \<Longrightarrow> su_desired (fold f xs s) = su_desired s"
  by (induction xs arbitrary: s) auto

lemma sup_session_desired: "sup_session s s' \<Longrightarrow> su_desired s' = su_desired s"
proof (induction rule: sup_session.induct)
  case (loop a k s')
  then show ?case by (auto simp: loop_next_def loop_top_def Let_def split: prod.splits loop_pc.splits if_splits option.splits)
next
  case (session a act k s')
  then show ?case by (auto simp: session_next_def split: prod.splits loop_pc.splits session_act.splits if_splits option.splits)
qed (auto simp: sup_leased_def sup_Shutdown_def sup_Poke_def sup_RequestStop_def sup_Deliver_def instance_title_def Let_def desired_fold
  split: option.split)

lemma sup_Update_desired: "su_desired (sup_Update a ms s) = ms"
proof -
  have "su_desired (update_declared a d s) = su_desired s" "su_desired (update_removed ms e s) = su_desired s" for d e s
    by (auto simp: update_declared_def ensure_supervised_def update_removed_def Let_def case_prod_beta split: option.split)
  then show ?thesis by (simp add: sup_Update_def Let_def desired_fold)
qed

lemma schedules_lookup: "fmlookup (schedules_of t hs) i = Some iv \<longleftrightarrow> (\<exists>h. fmlookup hs i = Some h \<and> iv = ScheduleInterval t h \<and> 0 < iv)"
proof -
  let ?xs = "filter (\<lambda>(i, iv). iv > 0) (map (\<lambda>(i, h). (i, ScheduleInterval t h)) (sorted_list_of_fmap hs))"
  have "fst \<circ> (\<lambda>(i :: string, h). (i, ScheduleInterval t h)) = fst" by (auto simp: fun_eq_iff)
  then have "distinct (map fst ?xs)" by (intro distinct_map_filter) (simp add: sorted_list_of_fset.rep_eq)
  from map_of_eq_Some_iff [OF this] have "fmlookup (schedules_of t hs) i = Some iv \<longleftrightarrow> (i, iv) \<in> set ?xs"
    unfolding schedules_of_def fmlookup_of_list .
  also have "(i, iv) \<in> set ?xs \<longleftrightarrow> 0 < iv \<and> (\<exists>h. (i, h) \<in> set (sorted_list_of_fmap hs) \<and> iv = ScheduleInterval t h)" by auto
  finally show ?thesis by auto
qed

lemma sched_Update_Schedules: "fmlookup (Schedules (sched_Update now (schedules_of t hs) s)) i = fmlookup (schedules_of t hs) i"
proof (cases "fmlookup (schedules_of t hs) i")
  case (Some iv)
  then have "0 < iv" by (auto simp: schedules_lookup)
  with Some show ?thesis by (simp add: Schedules_def sched_Update_lookup update_entry_def split: option.split)
qed (simp add: Schedules_def sched_Update_lookup)

lemma fireDue_Schedules: "Schedules (snd (sched_fireDue now s)) = Schedules s"
  by (rule fmap_ext) (simp add: Schedules_def sched_fireDue_def option.map_comp comp_def if_distrib cong: if_cong)

lemma CheckRefs_none: "CheckRefs cfg refs = [] \<longleftrightarrow> (\<forall>i g. fmlookup refs i = Some g \<longrightarrow> g = [] \<or> cc_Has cfg g)"
proof -
  have "set (CheckRefs cfg refs) = {(i, g). fmlookup refs i = Some g \<and> g \<noteq> [] \<and> \<not> cc_Has cfg g}" by (auto simp: CheckRefs_def)
  then have "CheckRefs cfg refs = [] \<longleftrightarrow> {(i, g). fmlookup refs i = Some g \<and> g \<noteq> [] \<and> \<not> cc_Has cfg g} = {}" by (metis set_empty)
  then show ?thesis by blast
qed

lemma clean_group:
  assumes "clean_load e hs ms cfg"
  shows "fmlookup hs i = Some h \<Longrightarrow> hc_ConcurrencyGroup h = [] \<or> fmlookup cfg (hc_ConcurrencyGroup h) \<noteq> None"
    and "fmlookup ms i = Some m \<Longrightarrow> hc_ConcurrencyGroup (mf_Hook m) = [] \<or> fmlookup cfg (hc_ConcurrencyGroup (mf_Hook m)) \<noteq> None"
proof -
  have r: "g = [] \<or> fmlookup cfg g \<noteq> None" if "fmlookup (fmadd (fmmap hc_ConcurrencyGroup hs) (fmmap (\<lambda>m. hc_ConcurrencyGroup (mf_Hook m)) ms)) i = Some g" for g
    using assms that unfolding clean_load_def Let_def CheckRefs_none by (auto simp: cc_Has_def)
  have d: "fmlookup hs i = None \<or> fmlookup ms i = None" using assms by (simp add: clean_load_def Let_def)
  show "fmlookup hs i = Some h \<Longrightarrow> hc_ConcurrencyGroup h = [] \<or> fmlookup cfg (hc_ConcurrencyGroup h) \<noteq> None"
    using r [of "hc_ConcurrencyGroup h"] d by (simp add: fmdom_notI)
  show "fmlookup ms i = Some m \<Longrightarrow> hc_ConcurrencyGroup (mf_Hook m) = [] \<or> fmlookup cfg (hc_ConcurrencyGroup (mf_Hook m)) \<noteq> None"
    using r [of "hc_ConcurrencyGroup (mf_Hook m)"] by (simp add: fmdomI)
qed

text \<open>What a clean plan says of its own parts.\<close>

lemma plan_hook:
  assumes "plan_ok dur e" "fmlookup (pl_hooks (load_fleet e)) i = Some h"
  shows "hc_ID h = i" "fmlookup (pl_managers (load_fleet e)) i = None"
    "hc_ConcurrencyGroup h = [] \<or> fmlookup (pl_cfg (load_fleet e)) (hc_ConcurrencyGroup h) \<noteq> None"
    "fmlookup (schedules_of (le_tree e) (pl_hooks (load_fleet e))) i = hook_interval dur h"
proof -
  have p: "listing_ok (le_tree e)" "tr_dur (le_tree e) = dur" "pl_errs (load_fleet e) = []" using assms(1) by (simp_all add: plan_ok_def)
  from load_fleet_clean [OF p(3)] obtain hs ms cfg where c: "clean_load e hs ms cfg"
    and s: "same_bare \<lparr>pl_hooks = hs, pl_managers = ms, pl_cfg = cfg, pl_errs = [], pl_feed = []\<rparr> (load_fleet e)" by blast
  from clean_hooks [OF p(1) c s assms(2)] obtain h0 where h0: "fmlookup hs i = Some h0" "bare h = bare h0" "entity_ok (le_tree e) i h" by blast
  show "hc_ID h = i" using h0(3) by (simp add: entity_ok_def)
  have "fmlookup ms i = None" using c h0(1) unfolding clean_load_def Let_def by (metis option.distinct(1))
  then show "fmlookup (pl_managers (load_fleet e)) i = None" using same_bare_None(2) [OF s, of i] by simp
  show "hc_ConcurrencyGroup h = [] \<or> fmlookup (pl_cfg (load_fleet e)) (hc_ConcurrencyGroup h) \<noteq> None"
    using clean_group(1) [OF c h0(1)] bare_sels [OF h0(2)] s by (auto simp: same_bare_def)
  have "dur_ok (le_tree e) (hf_Schedule h)" using h0(3) by (simp add: entity_ok_def checked_def)
  then have "hook_interval dur h = (if 0 < ScheduleInterval (le_tree e) h then Some (ScheduleInterval (le_tree e) h) else None)"
    using p(2) by (auto simp: dur_ok_def hook_interval_def ScheduleInterval_def raw_duration_def split: sum.splits if_splits)
  then show "fmlookup (schedules_of (le_tree e) (pl_hooks (load_fleet e))) i = hook_interval dur h"
    using schedules_lookup [of "le_tree e" "pl_hooks (load_fleet e)" i] assms(2)
    by (cases "fmlookup (schedules_of (le_tree e) (pl_hooks (load_fleet e))) i") auto
qed

lemma plan_manager:
  assumes "plan_ok dur e" "fmlookup (pl_managers (load_fleet e)) i = Some m"
  shows "hc_ID (mf_Hook m) = i" "hc_ConcurrencyGroup (mf_Hook m) = [] \<or> fmlookup (pl_cfg (load_fleet e)) (hc_ConcurrencyGroup (mf_Hook m)) \<noteq> None"
    "x \<in> set (mf_SpawnTargets m) \<Longrightarrow> fmlookup (pl_hooks (load_fleet e)) x \<noteq> None"
proof -
  have p: "listing_ok (le_tree e)" "pl_errs (load_fleet e) = []" using assms(1) by (simp_all add: plan_ok_def)
  from load_fleet_clean [OF p(2)] obtain hs ms cfg where c: "clean_load e hs ms cfg"
    and s: "same_bare \<lparr>pl_hooks = hs, pl_managers = ms, pl_cfg = cfg, pl_errs = [], pl_feed = []\<rparr> (load_fleet e)" by blast
  from clean_managers [OF p(1) c s assms(2)] obtain m0 where m0: "fmlookup ms i = Some m0" "bare_manager m = bare_manager m0" by blast
  show "hc_ID (mf_Hook m) = i" using clean_manager_ok(2) [OF p(1) c s assms(2)] by (simp add: manager_ok_def entity_ok_def)
  show "hc_ConcurrencyGroup (mf_Hook m) = [] \<or> fmlookup (pl_cfg (load_fleet e)) (hc_ConcurrencyGroup (mf_Hook m)) \<noteq> None"
    using clean_group(2) [OF c m0(1)] bare_manager_sels [OF m0(2)] bare_sels [of "mf_Hook m" "mf_Hook m0"] s by (auto simp: same_bare_def)
  show "x \<in> set (mf_SpawnTargets m) \<Longrightarrow> fmlookup (pl_hooks (load_fleet e)) x \<noteq> None" by (rule clean_manager_ok(3) [OF p(1) c s assms(2)])
qed

text \<open>The parts a reload has updated are those of its plan.\<close>

definition stage :: "reload_env \<Rightarrow> nat \<Rightarrow> fleet \<Rightarrow> bool" where
  "stage e k fl \<longleftrightarrow> (let pl = load_fleet e in
     (1 \<le> k \<longrightarrow> fmdom (m_groups (fl_groups fl)) = fmdom (pl_cfg pl)) \<and>
     (2 \<le> k \<longrightarrow> (\<forall>s i. fl_sched fl = Some s \<longrightarrow> fmlookup (Schedules s) i = fmlookup (schedules_of (le_tree e) (pl_hooks pl)) i)) \<and>
     (3 \<le> k \<longrightarrow> rg_hooks (fl_reg fl) = pl_hooks pl) \<and> (4 \<le> k \<longrightarrow> rg_managers (fl_reg fl) = pl_managers pl) \<and>
     (5 \<le> k \<longrightarrow> (\<forall>s. fl_sup fl = Some s \<longrightarrow> su_desired s = fmmap (smgr_of (le_tree e)) (pl_managers pl))))"

lemma sections_length [simp]: "length (sections e pl) = 5"
  by (simp add: sections_def)

lemma below_five: "k < 5 \<Longrightarrow> k = 0 \<or> k = Suc 0 \<or> k = 2 \<or> k = 3 \<or> k = (4 :: nat)"
  by arith

lemma stage_section: "stage e k fl \<Longrightarrow> k < 5 \<Longrightarrow> stage e (Suc k) ((sections e (load_fleet e) ! k) fl)"
  by (drule below_five, elim disjE; hypsubst)
    (auto simp: stage_def sections_def Let_def mgr_Update_dom sched_Update_Schedules sup_Update_desired reg_Replace_def ReplaceManagers_def)

lemma stage_done:
  assumes "stage e 5 fl" "plan_ok dur e"
  shows "fleet_ok dur fl"
proof -
  let ?pl = "load_fleet e"
  have st: "fmdom (m_groups (fl_groups fl)) = fmdom (pl_cfg ?pl)" "rg_hooks (fl_reg fl) = pl_hooks ?pl" "rg_managers (fl_reg fl) = pl_managers ?pl"
    and sc: "\<And>s i. fl_sched fl = Some s \<Longrightarrow> fmlookup (Schedules s) i = fmlookup (schedules_of (le_tree e) (pl_hooks ?pl)) i"
    and su: "\<And>s. fl_sup fl = Some s \<Longrightarrow> su_desired s = fmmap (smgr_of (le_tree e)) (pl_managers ?pl)"
    using assms(1) by (simp_all add: stage_def Let_def)
  have g: "group_declared (fl_groups fl) h \<longleftrightarrow> hc_ConcurrencyGroup h = [] \<or> fmlookup (pl_cfg ?pl) (hc_ConcurrencyGroup h) \<noteq> None" for h
    using st(1) unfolding group_declared_def by (metis fmdom_notD fmdom_notI)
  have "fmlookup (schedules_of (le_tree e) (pl_hooks ?pl)) i = Option.bind (fmlookup (pl_hooks ?pl) i) (hook_interval dur)" for i
    using plan_hook(4) [OF assms(2), of i] schedules_lookup [of "le_tree e" "pl_hooks ?pl" i]
    by (cases "fmlookup (pl_hooks ?pl) i"; cases "fmlookup (schedules_of (le_tree e) (pl_hooks ?pl)) i") auto
  with sc have sched: "fmlookup (Schedules s) i = Option.bind (fmlookup (pl_hooks ?pl) i) (hook_interval dur)" if "fl_sched fl = Some s" for s i
    using that by simp
  have sup: "\<exists>t. tr_dur t = dur \<and> su_desired s = fmmap (smgr_of t) (pl_managers ?pl)" if "fl_sup fl = Some s" for s
    using su [OF that] assms(2) by (auto simp: plan_ok_def)
  show ?thesis unfolding fleet_ok_def Let_def st(2,3) g
    using plan_hook [OF assms(2)] plan_manager [OF assms(2)] sched sup by (intro conjI allI impI) blast+
qed

text \<open>What neither a section nor a finishing reload touches is what \<open>fleet_ok\<close> and \<open>stage\<close> look at.\<close>

definition same_parts :: "fleet \<Rightarrow> fleet \<Rightarrow> bool" where
  "same_parts fl fl' \<longleftrightarrow> fl_reg fl' = fl_reg fl \<and> fmdom (m_groups (fl_groups fl')) = fmdom (m_groups (fl_groups fl)) \<and>
     map_option Schedules (fl_sched fl') = map_option Schedules (fl_sched fl) \<and> map_option su_desired (fl_sup fl') = map_option su_desired (fl_sup fl)"

lemma same_parts_facts:
  assumes "same_parts fl fl'"
  shows "fl_reg fl' = fl_reg fl" "fmdom (m_groups (fl_groups fl')) = fmdom (m_groups (fl_groups fl))"
    "group_declared (fl_groups fl') = group_declared (fl_groups fl)"
    "fl_sched fl' = Some s' \<Longrightarrow> \<exists>s. fl_sched fl = Some s \<and> Schedules s' = Schedules s"
    "fl_sup fl' = Some u' \<Longrightarrow> \<exists>u. fl_sup fl = Some u \<and> su_desired u' = su_desired u"
proof -
  note a = assms [unfolded same_parts_def]
  show "fl_reg fl' = fl_reg fl" "fmdom (m_groups (fl_groups fl')) = fmdom (m_groups (fl_groups fl))" using a by simp_all
  have "fmlookup (m_groups (fl_groups fl')) x = None \<longleftrightarrow> fmlookup (m_groups (fl_groups fl)) x = None" for x
    using a by (metis fmdom_notD fmdom_notI)
  then show "group_declared (fl_groups fl') = group_declared (fl_groups fl)" by (simp add: group_declared_def fun_eq_iff del: not_None_eq)
  show "\<exists>s. fl_sched fl = Some s \<and> Schedules s' = Schedules s" if "fl_sched fl' = Some s'"
    using a that by (cases "fl_sched fl") auto
  show "\<exists>u. fl_sup fl = Some u \<and> su_desired u' = su_desired u" if "fl_sup fl' = Some u'"
    using a that by (cases "fl_sup fl") auto
qed

lemma same_parts_ok: "same_parts fl fl' \<Longrightarrow> fleet_ok dur fl \<Longrightarrow> fleet_ok dur fl'"
  using same_parts_facts [of fl fl'] unfolding fleet_ok_def Let_def by (elim conjE; intro conjI) metis+

lemma same_parts_stage: "same_parts fl fl' \<Longrightarrow> stage e k fl \<Longrightarrow> stage e k fl'"
  using same_parts_facts [of fl fl'] unfolding stage_def Let_def by (elim conjE; intro conjI) metis+

text \<open>Every step that is not a section.\<close>

lemma same_parts_moves:
  "same_parts fl (begin_reload e fl)" "same_parts fl (snd (refuse e pl fl))" "same_parts fl (finish_reload e pl fl)"
  "group_move (fl_groups fl) m \<Longrightarrow> same_parts fl (fl\<lparr>fl_groups := m\<rparr>)"
  "fl_sched fl = Some s \<Longrightarrow> same_parts fl (fl\<lparr>fl_sched := Some (snd (sched_fireDue now s))\<rparr>)"
  "fl_sup fl = Some u \<Longrightarrow> sup_session u u' \<Longrightarrow> same_parts fl (fl\<lparr>fl_sup := Some u'\<rparr>)"
  "same_parts fl (fl\<lparr>fl_agg := a, fl_feed := f\<rparr>)"
  by (auto simp: same_parts_def begin_reload_def refuse_def Let_def case_prod_beta fireDue_Schedules dest: group_move_dom sup_session_desired)

lemma same_parts_trans: "same_parts a b \<Longrightarrow> same_parts b c \<Longrightarrow> same_parts a c"
  by (simp add: same_parts_def)

text \<open>At every moment, overlapping reloads or not, entities are served under their own ids.\<close>

definition own_ids :: "fleet \<Rightarrow> bool" where
  "own_ids fl \<longleftrightarrow> fmpred (\<lambda>i h. hc_ID h = i) (rg_hooks (fl_reg fl)) \<and> fmpred (\<lambda>i m. hc_ID (mf_Hook m) = i) (rg_managers (fl_reg fl))"

definition ids_inv :: "(string \<Rightarrow> string + duration) \<Rightarrow> fleet_world \<Rightarrow> bool" where
  "ids_inv dur w \<longleftrightarrow> own_ids (fw_fleet w) \<and> list_all (\<lambda>(e, k). plan_ok dur e) (fw_reloads w)"

lemma own_ids_section:
  assumes "own_ids fl" "plan_ok dur e" "k < 5"
  shows "own_ids ((sections e (load_fleet e) ! k) fl)"
proof -
  have "fmpred (\<lambda>i h. hc_ID h = i) (pl_hooks (load_fleet e))" "fmpred (\<lambda>i m. hc_ID (mf_Hook m) = i) (pl_managers (load_fleet e))"
    using plan_hook(1) [OF assms(2)] plan_manager(1) [OF assms(2)] by (auto simp: fmpred_iff)
  then show ?thesis using assms(1,3)
    by (elim below_five [THEN disjE] disjE) (simp_all add: own_ids_def sections_def reg_Replace_def ReplaceManagers_def)
qed

lemma own_ids_same: "same_parts fl fl' \<Longrightarrow> own_ids fl \<Longrightarrow> own_ids fl'"
  by (simp add: own_ids_def same_parts_def)

lemma ids_step: "fleet_step dur ov w w' \<Longrightarrow> ids_inv dur w \<Longrightarrow> ids_inv dur w'"
proof (induction rule: fleet_step.induct)
  case (section_done r e k)
  then have "plan_ok dur e" by (auto simp: ids_inv_def list_all_length)
  with section_done show ?case by (auto simp: ids_inv_def list_all_length nth_list_update intro: own_ids_section)
next
  case (finished r e)
  then show ?case using own_ids_same [OF same_parts_moves(3)]
    by (auto simp: ids_inv_def list_all_iff dest!: in_set_takeD in_set_dropD)
qed (auto simp: ids_inv_def intro: own_ids_same same_parts_moves same_parts_trans)

interpretation fleet_ids: invariant_system "\<lambda>w. fleet_init (fw_fleet w) \<and> fw_reloads w = []" "fleet_step dur ov" "ids_inv dur" for dur ov
  by unfold_locales (simp add: ids_inv_def own_ids_def fleet_init_def NewRegistry_def, rule ids_step)

text \<open>One reload at a time: between reloads the fleet agrees, during one its updated parts are those of its plan.\<close>

definition solo_inv :: "(string \<Rightarrow> string + duration) \<Rightarrow> fleet_world \<Rightarrow> bool" where
  "solo_inv dur w \<longleftrightarrow> fw_reloads w = [] \<and> fleet_ok dur (fw_fleet w) \<or>
     (\<exists>e k. fw_reloads w = [(e, k)] \<and> plan_ok dur e \<and> k \<le> 5 \<and> stage e k (fw_fleet w))"

lemma solo_same:
  assumes "same_parts (fw_fleet w) fl" "solo_inv dur w"
  shows "solo_inv dur (w\<lparr>fw_fleet := fl\<rparr>)"
  using assms by (auto simp: solo_inv_def intro: same_parts_ok same_parts_stage)

lemma solo_one: "solo_inv dur w \<Longrightarrow> r < length (fw_reloads w) \<Longrightarrow> fw_reloads w ! r = (e, k) \<Longrightarrow>
    r = 0 \<and> fw_reloads w = [(e, k)] \<and> plan_ok dur e \<and> k \<le> 5 \<and> stage e k (fw_fleet w)"
  by (auto simp: solo_inv_def)

lemma solo_step: "fleet_step dur False w w' \<Longrightarrow> solo_inv dur w \<Longrightarrow> solo_inv dur w'"
proof (induction rule: fleet_step.induct)
  case (begin_load e)
  then show ?case by (simp add: solo_inv_def stage_def)
next
  case (section_done r e k)
  then show ?case using solo_one [OF section_done(4,1,2)] stage_section by (auto simp: solo_inv_def)
next
  case (finished r e)
  note o = solo_one [OF finished(3,1,2)]
  then have "fleet_ok dur (finish_reload e (load_fleet e) (fw_fleet w))" using stage_done same_parts_ok [OF same_parts_moves(3)] by auto
  then show ?case using o by (simp add: solo_inv_def)
qed (auto intro: solo_same same_parts_moves same_parts_trans)

lemma fleet_ok_init: "fleet_init fl \<Longrightarrow> fleet_ok dur fl"
proof -
  assume i: "fleet_init fl"
  have "\<exists>t. tr_dur t = dur \<and> fmempty = fmmap (smgr_of t) fmempty"
    by (rule exI [of _ "\<lparr>tr_read = \<lambda>_. FileMissing, tr_list = undefined, tr_stat = undefined, tr_real = undefined, tr_cwd = undefined,
      tr_hook = undefined, tr_manager = undefined, tr_hookSchema = undefined, tr_managerSchema = undefined, tr_settings = undefined, tr_dur = dur,
      tr_durText = undefined, tr_quote = undefined, tr_re = undefined, tr_skipText = undefined, tr_titleText = undefined, tr_keyText = undefined\<rparr>"]) simp
  with i show ?thesis by (auto simp: fleet_init_def fleet_ok_def NewRegistry_def new_supervisor_def Schedules_def)
qed

interpretation fleet_solo: invariant_system "\<lambda>w. fleet_init (fw_fleet w) \<and> fw_reloads w = []" "fleet_step dur False" "solo_inv dur" for dur
  by unfold_locales (simp add: solo_inv_def fleet_ok_init, rule solo_step)


text \<open>A reload that nothing interrupts is \<open>loadAndApply\<close>.\<close>

lemma reload_rest:
  assumes "k \<le> 5" "rs = (e, k) # rest"
  shows "(fleet_step dur ov)\<^sup>*\<^sup>* \<lparr>fw_fleet = fl, fw_reloads = rs\<rparr>
    \<lparr>fw_fleet = finish_reload e (load_fleet e) (fold id (drop k (sections e (load_fleet e))) fl), fw_reloads = rest\<rparr>"
  using assms
proof (induction "5 - k" arbitrary: k fl rs)
  case 0
  then show ?case using fleet_step.finished [of 0 "\<lparr>fw_fleet = fl, fw_reloads = rs\<rparr>" e dur ov] by (auto simp: r_into_rtranclp)
next
  case (Suc n)
  let ?fl = "(sections e (load_fleet e) ! k) fl"
  have k: "k < 5" using Suc.hyps(2) by simp
  have "fleet_step dur ov \<lparr>fw_fleet = fl, fw_reloads = rs\<rparr> \<lparr>fw_fleet = ?fl, fw_reloads = (e, Suc k) # rest\<rparr>"
    using fleet_step.section_done [of 0 "\<lparr>fw_fleet = fl, fw_reloads = rs\<rparr>" e k dur ov] k Suc.prems(2) by simp
  moreover have "drop k (sections e (load_fleet e)) = (sections e (load_fleet e) ! k) # drop (Suc k) (sections e (load_fleet e))"
    using k by (simp add: Cons_nth_drop_Suc)
  ultimately show ?case using Suc.hyps(1) [of "Suc k" "(e, Suc k) # rest" ?fl] Suc.hyps(2) k
    by (simp add: converse_rtranclp_into_rtranclp)
qed

lemma reload_uninterrupted:
  assumes "plan_ok dur e"
  shows "(fleet_step dur ov)\<^sup>*\<^sup>* \<lparr>fw_fleet = fl, fw_reloads = []\<rparr> \<lparr>fw_fleet = snd (loadAndApply e fl), fw_reloads = []\<rparr>"
proof -
  have "fleet_step dur ov \<lparr>fw_fleet = fl, fw_reloads = []\<rparr> \<lparr>fw_fleet = begin_reload e fl, fw_reloads = [(e, 0)]\<rparr>"
    using fleet_step.begin_load [OF assms, of ov "\<lparr>fw_fleet = fl, fw_reloads = []\<rparr>"] by simp
  moreover have "(fleet_step dur ov)\<^sup>*\<^sup>* \<lparr>fw_fleet = begin_reload e fl, fw_reloads = [(e, 0)]\<rparr> \<lparr>fw_fleet = snd (loadAndApply e fl), fw_reloads = []\<rparr>"
    using reload_rest [of 0 "[(e, 0)]" e "[]" dur ov "begin_reload e fl"] assms by (simp add: loadAndApply_def begin_reload_def plan_ok_def Let_def)
  ultimately show ?thesis by (rule converse_rtranclp_into_rtranclp)
qed

subsection \<open>Two trees\<close>

text \<open>A tree with one hook, which names the group \<open>g\<close>, and a concurrency file that declares \<open>cfg\<close>.\<close>

definition fleet_tree :: "string \<Rightarrow> tree" where
  "fleet_tree g = tree_ex\<lparr>tr_stat := (\<lambda>p. if p = ''/hooks/deploy/Dockerfile'' then Some False else None),
     tr_hook := (\<lambda>_. Inr (settings_hook\<lparr>hc_ConcurrencyGroup := g\<rparr>))\<rparr>"

definition fleet_env :: "string \<Rightarrow> cc_config \<Rightarrow> reload_env" where
  "fleet_env g cfg = \<lparr>le_dir = ''/hooks'', le_tree = fleet_tree g, le_settings = settings_ex, le_cc = (\<lambda>_. CcData (Some (Some cfg))), le_ccText = (\<lambda>_. []),
     le_auth = auth_ex (\<lambda>_. None), le_ov = None, le_gh = True, le_now = 7, le_sup = \<lparr>sa_now = 7, sa_disabled = (\<lambda>_ _. False), sa_id = ''i'',
       sa_hash = (\<lambda>_. None), sa_event = ''e'', sa_sep = (\<lambda>_. False), sa_root = JNull\<rparr>\<rparr>"

definition fleet_ex :: fleet where
  "fleet_ex = \<lparr>fl_reg = NewRegistry, fl_groups = NewManager None, fl_sched = Some fmempty, fl_sup = None, fl_agg = att_New, fl_announced = [], fl_feed = []\<rparr>"

abbreviation one_group :: cc_config where "one_group \<equiv> fmupd ''g'' \<lparr>g_Limit = 1, g_Description = []\<rparr> fmempty"

lemma fleet_env_listing: "listing_ok (le_tree (fleet_env g cfg))"
  by (simp add: listing_ok_def fleet_env_def fleet_tree_def tree_ex_def)

text \<open>The parts of a plan the examples look at.\<close>

definition plan_view :: "plan \<Rightarrow> load_error list \<times> cc_config \<times> string option" where
  "plan_view pl = (pl_errs pl, pl_cfg pl, map_option hc_ConcurrencyGroup (fmlookup (pl_hooks pl) ''deploy''))"

lemma fleet_env_view: "plan_view (load_fleet (fleet_env ''g'' one_group)) = ([], one_group, Some ''g'')"
  "plan_view (load_fleet (fleet_env [] fmempty)) = ([], fmempty, Some [])"
  by code_simp+

lemma fleet_env_with:
  "pl_errs (load_fleet (fleet_env ''g'' one_group)) = []" "pl_cfg (load_fleet (fleet_env ''g'' one_group)) = one_group"
  "\<exists>h. fmlookup (pl_hooks (load_fleet (fleet_env ''g'' one_group))) ''deploy'' = Some h \<and> hc_ConcurrencyGroup h = ''g''"
  using fleet_env_view(1) by (auto simp: plan_view_def)

lemma fleet_env_without: "pl_errs (load_fleet (fleet_env [] fmempty)) = []" "pl_cfg (load_fleet (fleet_env [] fmempty)) = fmempty"
  using fleet_env_view(2) by (simp_all add: plan_view_def)

lemma fleet_ex_init: "fleet_init fleet_ex"
  by (simp add: fleet_init_def fleet_ex_def)

lemma fleet_env_plan: "plan_ok (\<lambda>_. Inl ''bad'') (fleet_env ''g'' one_group)" "plan_ok (\<lambda>_. Inl ''bad'') (fleet_env [] fmempty)"
  using fleet_env_listing fleet_env_with(1) fleet_env_without(1) by (simp_all add: plan_ok_def) (simp_all add: fleet_env_def fleet_tree_def tree_ex_def)




subsection \<open>Probing the credentials\<close>

lemma api_key_probe: "api_key c (hook_decl.truncate h) = (case (case au_secrets c of None \<Rightarrow> Inr fmempty | Some load \<Rightarrow> load (hc_ID h)) of
     Inl err \<Rightarrow> Inl ''server misconfigured: hook secrets unavailable''
   | Inr vals \<Rightarrow> Inr (ExpandEnvRefs (SecretsFirstLookup (au_env c) vals) (hk_APIKey h)))"
proof -
  have "hc_ID (hook_decl.truncate h) = hc_ID h" "hk_APIKey (hook_decl.truncate h) = hk_APIKey h" by (simp_all add: hook_decl.defs)
  then show ?thesis by (simp only: api_key_def)
qed

text \<open>
  C35: The load-time probe and the request path agree on which keyed hooks work, but for one case.  A hook with an
  API key for which the probe reports nothing admits exactly the callers that present one fixed, non-empty key.
  A hook the probe reports, whose message says that every delivery is denied, does deny every delivery unless
  a reference of the key is unresolved while the rest of the key is not empty: then the callers that present
  that rest are admitted.
\<close>

theorem probe_exact:
  assumes "hk_APIKey h \<noteq> []"
  shows "if probe_hook c (i, h) = []
    then \<exists>want. want \<noteq> [] \<and> (\<forall>hdr. fst (checkAPIKey c (hook_decl.truncate h) hdr) = None \<longleftrightarrow> header_Get hdr (APIKeyHdr (hook_decl.truncate h)) = want)
    else if \<exists>want missing. api_key c (hook_decl.truncate h) = Inr (want, missing) \<and> want \<noteq> []
    then \<exists>want missing. api_key c (hook_decl.truncate h) = Inr (want, missing) \<and> missing \<noteq> [] \<and>
      (\<forall>hdr. fst (checkAPIKey c (hook_decl.truncate h) hdr) = None \<longleftrightarrow> header_Get hdr (APIKeyHdr (hook_decl.truncate h)) = want)
    else \<forall>hdr. fst (checkAPIKey c (hook_decl.truncate h) hdr) \<noteq> None"
proof (cases "case au_secrets c of None \<Rightarrow> Inr fmempty | Some load \<Rightarrow> load (hc_ID h)")
  case (Inl err)
  then show ?thesis by (simp add: probe_hook_def checkAPIKey_def api_key_probe)
next
  case (Inr vals)
  obtain want missing where "ExpandEnvRefs (SecretsFirstLookup (au_env c) vals) (hk_APIKey h) = (want, missing)" by fastforce
  then show ?thesis using Inr assms by (auto simp: probe_hook_def checkAPIKey_def api_key_probe)
qed

text \<open>A key with a prefix whose reference is unresolved: the probe reports the hook, the server admits the prefix.\<close>

theorem probe_exact_witness:
  "let h = settings_hook\<lparr>hk_APIKey := ''pre-${KEY}''\<rparr>; c = auth_ex (\<lambda>_. None) in
     probe_hook c (''deploy'', h) \<noteq> [] \<and> fst (checkAPIKey c (hook_decl.truncate h) (fmupd ''X-Api-Key'' [''pre-''] fmempty)) = None"
proof -
  let ?h = "settings_hook\<lparr>hk_APIKey := ''pre-${KEY}''\<rparr>" let ?c = "auth_ex (\<lambda>_. None)"
  have k: "hk_APIKey ?h \<noteq> []" by simp
  have p: "probe_hook ?c (''deploy'', ?h) \<noteq> []" by code_simp
  have a: "api_key ?c (hook_decl.truncate ?h) = Inr (''pre-'', [''KEY''])" by code_simp
  have g: "header_Get (fmupd ''X-Api-Key'' [''pre-''] fmempty) (APIKeyHdr (hook_decl.truncate ?h)) = ''pre-''" by code_simp
  from probe_exact [OF k, of ?c "''deploy''"] p a g show ?thesis by (simp add: Let_def)
qed

end
